(* ===== verification/Prelude.thy ===== *)
theory Prelude
  imports Main "HOL-Library.Word"
begin

text \<open>
  The vocabulary shared by every component: bytes and byte strings, the outcome of a fallible
  Rust function, the fragments of the Rust standard library the sources use (UTF-8 validation,
  decimal parsing and printing of integers, saturating arithmetic, checked slicing,
  little-endian encodings, sorted-slice binary search), and the generic list lemmas about them.
\<close>

unbundle bit_operations_syntax

named_theorems byte_simps "facts that evaluate byte-level definitions"
named_theorems std_simps "facts about the modelled fragment of the standard library"

type_synonym byte = "8 word"
type_synonym bytes = "byte list"

text \<open>A double is its 64-bit pattern (\<open>f64::to_bits\<close>).\<close>

type_synonym f64 = "64 word"

text \<open>ASCII characters the sources name by byte literals.\<close>

abbreviation CR :: byte where "CR \<equiv> 13"
abbreviation LF :: byte where "LF \<equiv> 10"
abbreviation SP :: byte where "SP \<equiv> 32"
abbreviation TAB :: byte where "TAB \<equiv> 9"
abbreviation PLUS :: byte where "PLUS \<equiv> 43"
abbreviation MINUS :: byte where "MINUS \<equiv> 45"
abbreviation STAR :: byte where "STAR \<equiv> 42"
abbreviation BACKSLASH :: byte where "BACKSLASH \<equiv> 92"
abbreviation crlf :: bytes where "crlf \<equiv> [CR, LF]"

text \<open>
  A call that returns \<open>Result\<close> ends in a value, in an error value, or in a panic (a failed
  slice, index or \<open>expect\<close>). \<open>OutOfFuel\<close> is the result of a fuelled recursion whose fuel ran
  out; every theorem about such a recursion shows it is not reached.
\<close>

datatype ('e, 'a) outcome = Ok 'a | Err 'e | Panic | OutOfFuel

text \<open>Widths of the machine integers.\<close>

abbreviation u64_max :: nat where "u64_max \<equiv> 18446744073709551615"
abbreviation u32_max :: nat where "u32_max \<equiv> 4294967295"
abbreviation i64_min :: int where "i64_min \<equiv> - 9223372036854775808"
abbreviation i64_max :: int where "i64_max \<equiv> 9223372036854775807"

definition wrap64 :: "nat \<Rightarrow> nat" where
  "wrap64 n = n mod 18446744073709551616"

definition sat_add64 :: "nat \<Rightarrow> nat \<Rightarrow> nat" where
  "sat_add64 a b = min (a + b) u64_max"

definition sat_mul64 :: "nat \<Rightarrow> nat \<Rightarrow> nat" where
  "sat_mul64 a b = min (a * b) u64_max"

definition sat_add32 :: "nat \<Rightarrow> nat \<Rightarrow> nat" where
  "sat_add32 a b = min (a + b) u32_max"

definition in_i64 :: "int \<Rightarrow> bool" where
  "in_i64 n \<longleftrightarrow> i64_min \<le> n \<and> n \<le> i64_max"

text \<open>\<open>data.get(a..b)\<close>: the checked slice.\<close>

definition slice :: "'a list \<Rightarrow> nat \<Rightarrow> nat \<Rightarrow> 'a list option" where
  "slice xs a b = (if a \<le> b \<and> b \<le> length xs then Some (take (b - a) (drop a xs)) else None)"

text \<open>\<open>data.get(i)\<close>: the checked index.\<close>

definition get_at :: "'a list \<Rightarrow> nat \<Rightarrow> 'a option" where
  "get_at xs i = (if i < length xs then Some (xs ! i) else None)"

text \<open>Position of the first element that satisfies a predicate (\<open>Iterator::position\<close>).\<close>

fun position :: "('a \<Rightarrow> bool) \<Rightarrow> 'a list \<Rightarrow> nat option" where
  "position p [] = None"
| "position p (x # xs) = (if p x then Some 0 else map_option Suc (position p xs))"

text \<open>\<open>Vec::insert\<close>, \<open>Vec::remove\<close> and \<open>swap_remove\<close> at an index in range.\<close>

definition insert_at :: "nat \<Rightarrow> 'a \<Rightarrow> 'a list \<Rightarrow> 'a list" where
  "insert_at i x xs = take i xs @ x # drop i xs"

definition remove_at :: "nat \<Rightarrow> 'a list \<Rightarrow> 'a list" where
  "remove_at i xs = take i xs @ drop (Suc i) xs"

definition swap_remove :: "nat \<Rightarrow> 'a list \<Rightarrow> 'a list" where
  "swap_remove i xs = butlast (xs[i := last xs])"

text \<open>\<open>slice::binary_search\<close> on a sorted slice: \<open>Inr i\<close> is \<open>Ok(i)\<close>, \<open>Inl i\<close> is \<open>Err(i)\<close>.\<close>

function bsearch_loop :: "'a::linorder list \<Rightarrow> 'a \<Rightarrow> nat \<Rightarrow> nat \<Rightarrow> nat + nat" where
  "bsearch_loop xs v lo hi =
     (if lo < hi then
        (let mid = lo + (hi - lo) div 2 in
         if xs ! mid = v then Inr mid
         else if xs ! mid < v then bsearch_loop xs v (Suc mid) hi
         else bsearch_loop xs v lo mid)
      else Inl lo)"
  by pat_completeness auto
termination
  by (relation "measure (\<lambda>(xs, v, lo, hi). hi - lo)") auto

declare bsearch_loop.simps [simp del]

definition binary_search :: "'a::linorder list \<Rightarrow> 'a \<Rightarrow> nat + nat" where
  "binary_search xs v = bsearch_loop xs v 0 (length xs)"

text \<open>Little-endian encodings: \<open>to_le_bytes\<close> and \<open>from_le_bytes\<close> at \<open>k\<close> bytes.\<close>

primrec le_bytes :: "nat \<Rightarrow> nat \<Rightarrow> bytes" where
  "le_bytes 0 n = []"
| "le_bytes (Suc k) n = of_nat (n mod 256) # le_bytes k (n div 256)"

primrec le_val :: "bytes \<Rightarrow> nat" where
  "le_val [] = 0"
| "le_val (b # bs) = unat b + 256 * le_val bs"

text \<open>\<open>std::str::from_utf8\<close>: well-formed byte sequences (Unicode table 3-7).\<close>

definition utf8_cont :: "byte \<Rightarrow> bool" where
  "utf8_cont b \<longleftrightarrow> 128 \<le> b \<and> b \<le> 191"

fun utf8_valid :: "bytes \<Rightarrow> bool" where
  "utf8_valid [] = True"
| "utf8_valid (b # bs) =
     (if b < 128 then utf8_valid bs
      else if 194 \<le> b \<and> b \<le> 223 then
        (case bs of c # cs \<Rightarrow> utf8_cont c \<and> utf8_valid cs | _ \<Rightarrow> False)
      else if 224 \<le> b \<and> b \<le> 239 then
        (case bs of c # d # cs \<Rightarrow>
           (if b = 224 then 160 \<le> c \<and> c \<le> 191
            else if b = 237 then 128 \<le> c \<and> c \<le> 159 else utf8_cont c)
           \<and> utf8_cont d \<and> utf8_valid cs
         | _ \<Rightarrow> False)
      else if 240 \<le> b \<and> b \<le> 244 then
        (case bs of c # d # e # cs \<Rightarrow>
           (if b = 240 then 144 \<le> c \<and> c \<le> 191
            else if b = 244 then 128 \<le> c \<and> c \<le> 143 else utf8_cont c)
           \<and> utf8_cont d \<and> utf8_cont e \<and> utf8_valid cs
         | _ \<Rightarrow> False)
      else False)"

text \<open>
  \<open>String::from_utf8_lossy\<close>: each maximal ill-formed part of a sequence becomes the replacement
  character U+FFFD.
\<close>

definition utf8_second :: "byte \<Rightarrow> byte \<Rightarrow> bool" where
  "utf8_second b c \<longleftrightarrow>
     (if b = 224 then 160 \<le> c \<and> c \<le> 191 else if b = 237 then 128 \<le> c \<and> c \<le> 159
      else if b = 240 then 144 \<le> c \<and> c \<le> 191 else if b = 244 then 128 \<le> c \<and> c \<le> 143
      else utf8_cont c)"

fun utf8_lossy :: "bytes \<Rightarrow> bytes" where
  "utf8_lossy [] = []"
| "utf8_lossy (b # bs) =
     (if b < 128 then b # utf8_lossy bs
      else if 194 \<le> b \<and> b \<le> 244 then
        (case bs of
           [] \<Rightarrow> [239, 191, 189]
         | c # cs \<Rightarrow>
             (if \<not> utf8_second b c then [239, 191, 189] @ utf8_lossy bs
              else if b \<le> 223 then b # c # utf8_lossy cs
              else case cs of
                [] \<Rightarrow> [239, 191, 189]
              | d # ds \<Rightarrow>
                  (if \<not> utf8_cont d then [239, 191, 189] @ utf8_lossy cs
                   else if b \<le> 239 then b # c # d # utf8_lossy ds
                   else case ds of
                     [] \<Rightarrow> [239, 191, 189]
                   | e # es \<Rightarrow>
                       (if \<not> utf8_cont e then [239, 191, 189] @ utf8_lossy ds
                        else b # c # d # e # utf8_lossy es))))
      else [239, 191, 189] @ utf8_lossy bs)"

text \<open>Decimal digits, \<open>str::parse\<close> for integers, and decimal printing.\<close>

definition is_digit :: "byte \<Rightarrow> bool" where
  "is_digit b \<longleftrightarrow> 48 \<le> b \<and> b \<le> 57"

definition digit_byte :: "nat \<Rightarrow> byte" where
  "digit_byte d = of_nat (48 + d)"

fun digits_val :: "nat \<Rightarrow> bytes \<Rightarrow> nat option" where
  "digits_val acc [] = Some acc"
| "digits_val acc (b # bs) =
     (if is_digit b then digits_val (acc * 10 + (unat b - 48)) bs else None)"

text \<open>
  \<open>parse::<T>()\<close> for a signed type with the given range: an optional sign, then at least one
  digit, the value in range.
\<close>

definition parse_signed :: "int \<Rightarrow> int \<Rightarrow> bytes \<Rightarrow> int option" where
  "parse_signed lo hi s =
     (case s of
        [] \<Rightarrow> None
      | b # bs \<Rightarrow>
          (let (neg, ds) = (if b = MINUS then (True, bs)
                            else if b = PLUS then (False, bs) else (False, s))
           in if ds = [] then None
              else (case digits_val 0 ds of
                      None \<Rightarrow> None
                    | Some n \<Rightarrow> (let v = (if neg then - int n else int n)
                               in if lo \<le> v \<and> v \<le> hi then Some v else None))))"

definition parse_unsigned :: "nat \<Rightarrow> bytes \<Rightarrow> nat option" where
  "parse_unsigned hi s =
     (case s of
        [] \<Rightarrow> None
      | b # bs \<Rightarrow>
          (let ds = (if b = PLUS then bs else s)
           in if ds = [] then None
              else (case digits_val 0 ds of
                      None \<Rightarrow> None
                    | Some n \<Rightarrow> (if n \<le> hi then Some n else None))))"

fun dec_nat :: "nat \<Rightarrow> bytes" where
  "dec_nat n = (if n < 10 then [digit_byte n] else dec_nat (n div 10) @ [digit_byte (n mod 10)])"

declare dec_nat.simps [simp del]

definition dec_int :: "int \<Rightarrow> bytes" where
  "dec_int n = (if n < 0 then MINUS # dec_nat (nat (- n)) else dec_nat (nat n))"


section \<open>Slices, positions and vectors\<close>

lemma slice_Some_iff:
  "slice xs a b = Some ys \<longleftrightarrow> a \<le> b \<and> b \<le> length xs \<and> ys = take (b - a) (drop a xs)"
  by (auto simp: slice_def)

lemma get_at_Some_iff: "get_at xs i = Some x \<longleftrightarrow> i < length xs \<and> x = xs ! i"
  by (auto simp: get_at_def)

lemma get_at_append_left [simp]: "i < length xs \<Longrightarrow> get_at (xs @ ys) i = get_at xs i"
  by (simp add: get_at_def nth_append)

lemma slice_append_mid: "slice (xs @ ys @ zs) (length xs) (length xs + length ys) = Some ys"
  by (simp add: slice_def)

lemma position_Some_iff:
  "position p xs = Some i \<longleftrightarrow> i < length xs \<and> p (xs ! i) \<and> (\<forall>j < i. \<not> p (xs ! j))"
proof (induction xs arbitrary: i)
  case Nil
  then show ?case by simp
next
  case (Cons x xs)
  show ?case
  proof (cases i)
    case 0
    then show ?thesis by auto
  next
    case (Suc k)
    have "(\<forall>j < Suc k. \<not> p ((x # xs) ! j)) \<longleftrightarrow> \<not> p x \<and> (\<forall>j < k. \<not> p (xs ! j))"
      by (auto simp: nth_Cons split: nat.splits)
    with Suc Cons.IH [of k] show ?thesis by auto
  qed
qed

lemma position_None_iff: "position p xs = None \<longleftrightarrow> (\<forall>x \<in> set xs. \<not> p x)"
  by (induction xs) auto

lemma position_append:
  "position p (xs @ ys) =
     (case position p xs of Some i \<Rightarrow> Some i | None \<Rightarrow> map_option ((+) (length xs)) (position p ys))"
proof (induction xs)
  case Nil
  then show ?case by (cases "position p ys") auto
next
  case (Cons x xs)
  then show ?case by (cases "position p ys") (auto split: option.splits)
qed

lemma position_append_Some: "position p xs = Some i \<Longrightarrow> position p (xs @ ys) = Some i"
  by (simp add: position_append)

lemma position_append_None:
  "\<forall>x \<in> set xs. \<not> p x \<Longrightarrow> position p (xs @ ys) = map_option ((+) (length xs)) (position p ys)"
  by (simp add: position_append position_None_iff [THEN iffD2])

lemma position_less: "position p xs = Some i \<Longrightarrow> i < length xs"
  by (simp add: position_Some_iff)

lemma length_insert_at [simp]: "i \<le> length xs \<Longrightarrow> length (insert_at i x xs) = Suc (length xs)"
  by (simp add: insert_at_def)

lemma length_remove_at [simp]: "i < length xs \<Longrightarrow> length (remove_at i xs) = length xs - 1"
  by (simp add: remove_at_def min_def)

lemma set_insert_at: "set (insert_at i x xs) = insert x (set xs)"
proof -
  have "set xs = set (take i xs) \<union> set (drop i xs)"
    by (metis append_take_drop_id set_append)
  then show ?thesis by (auto simp: insert_at_def)
qed

lemma set_remove_at_distinct:
  assumes "distinct xs" and "i < length xs"
  shows "set (remove_at i xs) = set xs - {xs ! i}"
proof -
  have eq: "xs = take i xs @ xs ! i # drop (Suc i) xs"
    using assms(2) by (rule id_take_nth_drop)
  have "distinct (take i xs @ xs ! i # drop (Suc i) xs)"
    using assms(1) eq by simp
  then have "xs ! i \<notin> set (take i xs @ drop (Suc i) xs)" by auto
  moreover have "set xs = insert (xs ! i) (set (take i xs @ drop (Suc i) xs))"
    by (subst eq) auto
  ultimately show ?thesis by (auto simp: remove_at_def)
qed

lemma distinct_remove_at:
  assumes "distinct xs"
  shows "distinct (remove_at i xs)"
proof -
  have "set (drop (Suc i) xs) \<subseteq> set (drop i xs)" by (rule set_drop_subset_set_drop) simp
  moreover have "set (take i xs) \<inter> set (drop i xs) = {}"
    using assms by (metis append_take_drop_id distinct_append)
  ultimately show ?thesis using assms by (auto simp: remove_at_def)
qed

section \<open>Binary search\<close>

lemma bsearch_loop_stop: "\<not> lo < hi \<Longrightarrow> bsearch_loop xs v lo hi = Inl lo"
  by (subst bsearch_loop.simps) simp

lemma bsearch_loop_Inr:
  "bsearch_loop xs v lo hi = Inr i \<Longrightarrow> lo \<le> i \<and> i < hi \<and> xs ! i = v"
proof (induction xs v lo hi rule: bsearch_loop.induct)
  case (1 xs v lo hi)
  define mid where "mid = lo + (hi - lo) div 2"
  have lt: "lo < hi" using "1.prems" by (cases "lo < hi") (auto simp: bsearch_loop_stop)
  then have mid: "lo \<le> mid" "mid < hi" by (auto simp: mid_def)
  consider "xs ! mid = v" | "xs ! mid \<noteq> v" "xs ! mid < v" | "xs ! mid \<noteq> v" "\<not> xs ! mid < v" by blast
  then show ?case
  proof cases
    case 1
    with "1.prems" lt mid show ?thesis
      by (simp add: bsearch_loop.simps [of xs v lo hi] mid_def Let_def)
  next
    case 2
    with "1.prems" lt have "bsearch_loop xs v (Suc mid) hi = Inr i"
      by (simp add: bsearch_loop.simps [of xs v lo hi] mid_def Let_def)
    with "1.IH"(1) [OF lt mid_def 2] mid show ?thesis by simp
  next
    case 3
    with "1.prems" lt have "bsearch_loop xs v lo mid = Inr i"
      by (simp add: bsearch_loop.simps [of xs v lo hi] mid_def Let_def)
    with "1.IH"(2) [OF lt mid_def 3] mid show ?thesis by simp
  qed
qed

lemma bsearch_loop_Inl:
  assumes "sorted xs" and "lo \<le> hi" and "hi \<le> length xs"
    and "\<forall>j < lo. xs ! j < v" and "\<forall>j. hi \<le> j \<and> j < length xs \<longrightarrow> v < xs ! j"
    and "bsearch_loop xs v lo hi = Inl i"
  shows "i \<le> length xs \<and> (\<forall>j < i. xs ! j < v) \<and> (\<forall>j. i \<le> j \<and> j < length xs \<longrightarrow> v < xs ! j)"
  using assms
proof (induction xs v lo hi rule: bsearch_loop.induct)
  case (1 xs v lo hi)
  show ?case
  proof (cases "lo < hi")
    case False
    with "1.prems"(2,6) have "i = lo" "lo = hi" by (auto simp: bsearch_loop_stop)
    with "1.prems"(3,4,5) show ?thesis by simp
  next
    case True
    define mid where "mid = lo + (hi - lo) div 2"
    have mid: "lo \<le> mid" "mid < hi" using True by (auto simp: mid_def)
    have neq: "xs ! mid \<noteq> v"
      using "1.prems"(6) True by (auto simp: bsearch_loop.simps [of xs v lo hi] mid_def Let_def)
    show ?thesis
    proof (cases "xs ! mid < v")
      case less: True
      have "\<forall>j < Suc mid. xs ! j < v"
      proof (intro allI impI)
        fix j assume "j < Suc mid"
        then have "xs ! j \<le> xs ! mid"
          using "1.prems"(1,3) mid by (intro sorted_nth_mono) auto
        then show "xs ! j < v" using less by simp
      qed
      moreover have "bsearch_loop xs v (Suc mid) hi = Inl i"
        using "1.prems"(6) True neq less
        by (simp add: bsearch_loop.simps [of xs v lo hi] mid_def Let_def)
      ultimately show ?thesis
        using "1.IH"(1) [OF True mid_def neq less "1.prems"(1) _ "1.prems"(3)] "1.prems"(5) mid by simp
    next
      case greater: False
      have "\<forall>j. mid \<le> j \<and> j < length xs \<longrightarrow> v < xs ! j"
      proof (intro allI impI)
        fix j assume "mid \<le> j \<and> j < length xs"
        then have "xs ! mid \<le> xs ! j"
          using "1.prems"(1) by (intro sorted_nth_mono) auto
        then show "v < xs ! j" using greater neq by simp
      qed
      moreover have "bsearch_loop xs v lo mid = Inl i"
        using "1.prems"(6) True neq greater
        by (simp add: bsearch_loop.simps [of xs v lo hi] mid_def Let_def)
      ultimately show ?thesis
        using "1.IH"(2) [OF True mid_def neq greater "1.prems"(1) mid(1) _ "1.prems"(4)]
          "1.prems"(3) mid(2) by simp
    qed
  qed
qed

lemma binary_search_Inr: "binary_search xs v = Inr i \<Longrightarrow> i < length xs \<and> xs ! i = v"
  using bsearch_loop_Inr [of xs v 0 "length xs" i] by (simp add: binary_search_def)

lemma binary_search_Inl:
  assumes "sorted xs" and "binary_search xs v = Inl i"
  shows "i \<le> length xs" and "\<forall>x \<in> set (take i xs). x < v" and "\<forall>x \<in> set (drop i xs). v < x"
proof -
  have *: "i \<le> length xs \<and> (\<forall>j < i. xs ! j < v) \<and> (\<forall>j. i \<le> j \<and> j < length xs \<longrightarrow> v < xs ! j)"
    by (rule bsearch_loop_Inl [of xs 0 "length xs" v i]) (use assms in \<open>auto simp: binary_search_def\<close>)
  then show "i \<le> length xs" by simp
  show "\<forall>x \<in> set (take i xs). x < v" using * by (auto simp: in_set_conv_nth)
  show "\<forall>x \<in> set (drop i xs). v < x" using * by (auto simp: in_set_conv_nth)
qed

lemma binary_search_found_iff:
  assumes "sorted xs"
  shows "(\<exists>i. binary_search xs v = Inr i) \<longleftrightarrow> v \<in> set xs"
proof
  assume "\<exists>i. binary_search xs v = Inr i"
  then show "v \<in> set xs" by (metis binary_search_Inr nth_mem)
next
  assume v: "v \<in> set xs"
  show "\<exists>i. binary_search xs v = Inr i"
  proof (cases "binary_search xs v")
    case (Inl i)
    have "v \<in> set (take i xs) \<or> v \<in> set (drop i xs)"
      using v by (metis Un_iff append_take_drop_id set_append)
    then show ?thesis using binary_search_Inl [OF assms Inl] by auto
  qed simp
qed

section \<open>Little-endian encodings\<close>

lemma length_le_bytes [simp]: "length (le_bytes k n) = k"
  by (induction k arbitrary: n) auto

lemma le_val_le_bytes [std_simps]: "n < 256 ^ k \<Longrightarrow> le_val (le_bytes k n) = n"
proof (induction k arbitrary: n)
  case 0
  then show ?case by simp
next
  case (Suc k)
  have "n div 256 < 256 ^ k" using Suc.prems by (simp add: less_mult_imp_div_less mult.commute)
  with Suc.IH have "le_val (le_bytes k (n div 256)) = n div 256" by blast
  moreover have "unat (of_nat (n mod 256) :: byte) = n mod 256"
    by (simp add: unat_of_nat)
  ultimately show ?case by simp
qed

section \<open>Decimal numbers\<close>

lemma unat_digit_byte [simp]: "d < 10 \<Longrightarrow> unat (digit_byte d) = 48 + d"
  by (simp add: digit_byte_def unat_of_nat del: of_nat_add)

lemma is_digit_unat: "is_digit b \<longleftrightarrow> 48 \<le> unat b \<and> unat b \<le> 57"
  by (simp add: is_digit_def word_le_nat_alt)

lemma is_digit_digit_byte [simp]: "d < 10 \<Longrightarrow> is_digit (digit_byte d)"
  by (simp add: is_digit_unat)

lemma digits_val_append:
  "digits_val acc (xs @ ys) = Option.bind (digits_val acc xs) (\<lambda>a. digits_val a ys)"
  by (induction acc xs rule: digits_val.induct) auto

lemma dec_nat_not_Nil [simp]: "dec_nat n \<noteq> []"
  by (subst dec_nat.simps) simp

lemma dec_nat_digits: "b \<in> set (dec_nat n) \<Longrightarrow> is_digit b"
proof (induction n rule: dec_nat.induct)
  case (1 n)
  then show ?case by (auto simp: dec_nat.simps [of n] split: if_splits)
qed

lemma digits_val_dec_nat [std_simps]: "digits_val 0 (dec_nat n) = Some n"
proof (induction n rule: dec_nat.induct)
  case (1 n)
  show ?case
  proof (cases "n < 10")
    case True
    then show ?thesis by (simp add: dec_nat.simps [of n])
  next
    case False
    with "1.IH" show ?thesis
      by (simp add: dec_nat.simps [of n] digits_val_append)
  qed
qed

lemma is_digit_not_special [simp]:
  "is_digit b \<Longrightarrow> b \<noteq> CR" "is_digit b \<Longrightarrow> b \<noteq> LF"
  "is_digit b \<Longrightarrow> b \<noteq> PLUS" "is_digit b \<Longrightarrow> b \<noteq> MINUS" "is_digit b \<Longrightarrow> b < 128"
  by (auto simp: is_digit_def word_le_nat_alt word_less_nat_alt)

lemma dec_nat_no_CR [simp]: "CR \<notin> set (dec_nat n)"
  using dec_nat_digits by (metis is_digit_not_special(1))

lemma dec_int_no_CR [simp]: "CR \<notin> set (dec_int n)"
  by (simp add: dec_int_def)

lemma hd_dec_nat: "is_digit (hd (dec_nat n))"
  using dec_nat_digits [of "hd (dec_nat n)" n] by simp

lemma parse_unsigned_dec_nat [std_simps]: "n \<le> hi \<Longrightarrow> parse_unsigned hi (dec_nat n) = Some n"
  using hd_dec_nat [of n] digits_val_dec_nat [of n]
  by (cases "dec_nat n") (auto simp: parse_unsigned_def Let_def)

lemma parse_signed_dec_int [std_simps]:
  assumes "lo \<le> n" and "n \<le> hi"
  shows "parse_signed lo hi (dec_int n) = Some n"
proof (cases "n < 0")
  case True
  then show ?thesis
    using assms by (simp add: dec_int_def parse_signed_def Let_def std_simps)
next
  case False
  obtain b bs where b: "dec_nat (nat n) = b # bs" by (cases "dec_nat (nat n)") auto
  then have "is_digit b" using hd_dec_nat [of "nat n"] by simp
  with b False assms digits_val_dec_nat [of "nat n"] show ?thesis
    by (auto simp: dec_int_def parse_signed_def Let_def)
qed

lemma dec_int_inj: "dec_int a = dec_int b \<longleftrightarrow> a = b"
proof
  assume "dec_int a = dec_int b"
  then have "parse_signed (min a b) (max a b) (dec_int a) = parse_signed (min a b) (max a b) (dec_int b)"
    by simp
  then show "a = b" by (simp add: parse_signed_dec_int)
qed simp

lemma dec_nat_length: "n < 10 ^ k \<Longrightarrow> 0 < k \<Longrightarrow> length (dec_nat n) \<le> k"
proof (induction k arbitrary: n)
  case (Suc k)
  show ?case
  proof (cases "n < 10")
    case False
    then have "n div 10 < 10 ^ k" "0 < k" using Suc.prems by (auto simp: less_mult_imp_div_less mult.commute intro: gr0I)
    then show ?thesis using Suc.IH [of "n div 10"] False by (simp add: dec_nat.simps [of n])
  qed (simp add: dec_nat.simps)
qed simp

lemma dec_int_length:
  assumes "in_i64 v"
  shows "length (dec_int v) \<le> 20"
proof -
  have "nat v < nat (10 ^ 19)" "nat (- v) < nat (10 ^ 19)"
    using assms by (auto simp: in_i64_def simp del: nat_less_iff intro!: nat_mono_iff [THEN iffD2])
  then have "length (dec_nat (nat v)) \<le> 19" "length (dec_nat (nat (- v))) \<le> 19"
    by (simp_all add: dec_nat_length)
  then show ?thesis by (simp add: dec_int_def)
qed

lemma utf8_valid_ascii: "\<forall>b \<in> set bs. b < 128 \<Longrightarrow> utf8_valid bs"
  by (induction bs) auto

lemma utf8_lead_ranges:
  fixes b :: byte
  shows "b \<le> 223 \<Longrightarrow> b \<noteq> 224 \<and> b \<noteq> 237 \<and> b \<noteq> 240 \<and> b \<noteq> 244 \<and> b \<le> 244"
    and "224 \<le> b \<Longrightarrow> b \<le> 239 \<Longrightarrow> 194 \<le> b \<and> b \<le> 244 \<and> \<not> b \<le> 223 \<and> b \<noteq> 240 \<and> b \<noteq> 244"
    and "240 \<le> b \<Longrightarrow> 194 \<le> b \<and> \<not> b \<le> 223 \<and> \<not> b \<le> 239 \<and> b \<noteq> 224 \<and> b \<noteq> 237"
  by (auto simp: word_le_nat_alt)

lemma utf8_valid_ConsE:
  assumes valid: "utf8_valid (b # xs)"
  obtains "b < 128" "utf8_valid xs"
  | c cs where "\<not> b < 128" "194 \<le> b" "b \<le> 223" "xs = c # cs" "utf8_second b c" "utf8_valid cs"
  | c d ds where "\<not> b < 128" "224 \<le> b" "b \<le> 239" "xs = c # d # ds" "utf8_second b c" "utf8_cont d" "utf8_valid ds"
  | c d e es where "\<not> b < 128" "240 \<le> b" "b \<le> 244" "xs = c # d # e # es" "utf8_second b c" "utf8_cont d"
      "utf8_cont e" "utf8_valid es"
proof -
  note v = valid [unfolded utf8_valid.simps(2)]
  consider "b < 128" | "\<not> b < 128" "194 \<le> b \<and> b \<le> 223"
    | "\<not> b < 128" "\<not> (194 \<le> b \<and> b \<le> 223)" "224 \<le> b \<and> b \<le> 239"
    | "\<not> b < 128" "\<not> (194 \<le> b \<and> b \<le> 223)" "\<not> (224 \<le> b \<and> b \<le> 239)" "240 \<le> b \<and> b \<le> 244"
    using v by argo
  then show thesis
  proof cases
    case 1
    then show thesis using v that(1) by simp
  next
    case 2
    then show thesis using v that(2) utf8_lead_ranges(1) [of b]
      by (cases xs) (simp_all add: utf8_second_def)
  next
    case 3
    then have v': "case xs of c # d # cs \<Rightarrow> utf8_second b c \<and> utf8_cont d \<and> utf8_valid cs | _ \<Rightarrow> False"
      using v utf8_lead_ranges(2) [of b] by (auto simp: utf8_second_def split: list.splits if_splits)
    then show thesis using 3 that(3) by (simp split: list.splits)
  next
    case 4
    then have v': "case xs of c # d # e # cs \<Rightarrow> utf8_second b c \<and> utf8_cont d \<and> utf8_cont e \<and> utf8_valid cs | _ \<Rightarrow> False"
      using v utf8_lead_ranges(3) [of b] by (auto simp: utf8_second_def split: list.splits if_splits)
    then show thesis using 4 that(4) by (simp split: list.splits)
  qed
qed

lemma utf8_lossy_valid: "utf8_valid bs \<Longrightarrow> utf8_lossy bs = bs"
proof (induction bs rule: length_induct)
  case (1 bs)
  have IH: "length cs < length bs \<Longrightarrow> utf8_valid cs \<Longrightarrow> utf8_lossy cs = cs" for cs using 1 by blast
  show ?case
  proof (cases bs)
    case (Cons b xs)
    from 1(2) [unfolded Cons] show ?thesis
      by (cases rule: utf8_valid_ConsE) (simp_all add: Cons IH utf8_lead_ranges)
  qed simp
qed

text \<open>
  A well-formed sequence is a sequence of characters: an ASCII byte, or a sequence of bytes that are not ASCII. So it
  splits at every ASCII byte.
\<close>

lemma utf8_valid_charE:
  assumes "utf8_valid (b # xs)"
  obtains ch rest where "b # xs = ch @ rest" "ch \<noteq> []" "utf8_valid rest" "\<And>ys. utf8_valid (ch @ ys) = utf8_valid ys"
    "ch = [b] \<or> (\<forall>x \<in> set ch. \<not> x < 128)"
proof -
  have cont: "utf8_cont x \<Longrightarrow> \<not> x < 128" for x by (auto simp: utf8_cont_def)
  have second: "utf8_second b c \<Longrightarrow> \<not> c < 128" for c
    by (auto simp: utf8_second_def utf8_cont_def word_le_nat_alt word_less_nat_alt split: if_splits)
  from assms show thesis
  proof (cases rule: utf8_valid_ConsE)
    case 1
    then show thesis by (intro that [of "[b]" xs]) auto
  next
    case (2 c cs)
    then show thesis using second [of c] utf8_lead_ranges(1) [of b]
      by (intro that [of "[b, c]" cs]) (auto simp: utf8_second_def)
  next
    case (3 c d ds)
    then show thesis using second [of c] cont [of d] utf8_lead_ranges(2) [of b]
      by (intro that [of "[b, c, d]" ds]) (auto simp: utf8_second_def)
  next
    case (4 c d e es)
    then show thesis using second [of c] cont [of d] cont [of e] utf8_lead_ranges(3) [of b]
      by (intro that [of "[b, c, d, e]" es]) (auto simp: utf8_second_def)
  qed
qed

lemma utf8_valid_append: "utf8_valid xs \<Longrightarrow> utf8_valid (xs @ ys) = utf8_valid ys"
proof (induction xs rule: length_induct)
  case (1 xs)
  show ?case
  proof (cases xs)
    case (Cons b bs)
    from 1(2) [unfolded Cons] show ?thesis
    proof (rule utf8_valid_charE)
      fix ch rest
      assume ch: "b # bs = ch @ rest" "ch \<noteq> []" "utf8_valid rest" "\<And>ys. utf8_valid (ch @ ys) = utf8_valid ys"
      then have "length rest < length xs" "xs @ ys = ch @ (rest @ ys)" using Cons by auto
      with 1(1) ch(3,4) show ?thesis by simp
    qed
  qed simp
qed

lemma utf8_valid_split:
  "utf8_valid (xs @ a # ys) \<Longrightarrow> a < 128 \<Longrightarrow> utf8_valid xs \<and> utf8_valid ys"
proof (induction xs rule: length_induct)
  case (1 xs)
  show ?case
  proof (cases xs)
    case Nil
    then show ?thesis using 1(2,3) by simp
  next
    case (Cons b bs)
    with 1(2) have "utf8_valid (b # (bs @ a # ys))" by simp
    then obtain ch rest where ch: "b # (bs @ a # ys) = ch @ rest" "ch \<noteq> []" "utf8_valid rest"
      "\<And>ys. utf8_valid (ch @ ys) = utf8_valid ys" "ch = [b] \<or> (\<forall>x \<in> set ch. \<not> x < 128)"
      by (rule utf8_valid_charE) (rule that)
    have eq: "xs @ a # ys = ch @ rest" using ch(1) Cons by simp
    have "length ch \<le> length xs"
    proof (rule ccontr)
      assume "\<not> length ch \<le> length xs"
      then have "length xs < length ch" by simp
      then have "ch ! length xs = a" using arg_cong [OF eq, of "\<lambda>l. l ! length xs"] by (simp add: nth_append)
      then have "a \<in> set ch" using \<open>length xs < length ch\<close> by (metis nth_mem)
      then show False using ch(5) 1(3) \<open>length xs < length ch\<close> Cons by auto
    qed
    then obtain us where us: "xs = ch @ us" "rest = us @ a # ys"
      using eq by (auto simp: append_eq_append_conv2)
    then have "utf8_valid us \<and> utf8_valid ys" using 1(1) [rule_format, of us] 1(3) ch(2,3) by simp
    then show ?thesis using us(1) ch(4) by simp
  qed
qed

lemma utf8_valid_dec_nat [simp]: "utf8_valid (dec_nat n)"
  by (rule utf8_valid_ascii) (auto dest: dec_nat_digits)

lemma utf8_valid_dec_int [simp]: "utf8_valid (dec_int n)"
  by (simp add: dec_int_def)

lemma parse_signed_range: "parse_signed lo hi s = Some v \<Longrightarrow> lo \<le> v \<and> v \<le> hi"
  by (auto simp: parse_signed_def Let_def split: list.splits option.splits if_splits prod.splits)

lemma parse_unsigned_range: "parse_unsigned hi s = Some v \<Longrightarrow> v \<le> hi"
  by (auto simp: parse_unsigned_def Let_def split: list.splits option.splits if_splits)

section \<open>Substrings\<close>

text \<open>Where a byte string occurs in another; \<open>memmem::find\<close> returns the first such position.\<close>

definition occurs_at :: "bytes \<Rightarrow> bytes \<Rightarrow> nat \<Rightarrow> bool" where
  "occurs_at hay needle i \<longleftrightarrow> i + length needle \<le> length hay \<and> take (length needle) (drop i hay) = needle"

lemma find_occurrence:
  "find (occurs_at hay needle) [start..<Suc (length hay)] = Some i \<longleftrightarrow>
     start \<le> i \<and> occurs_at hay needle i \<and> (\<forall>j. start \<le> j \<and> j < i \<longrightarrow> \<not> occurs_at hay needle j)"
  (is "?L \<longleftrightarrow> ?R")
proof
  assume ?L
  then obtain k where k: "k < Suc (length hay) - start" "occurs_at hay needle (start + k)" "i = start + k"
      "\<forall>j < k. \<not> occurs_at hay needle (start + j)"
    by (auto simp: find_Some_iff simp del: upt_Suc)
  then show ?R by (metis le_add1 le_add_diff_inverse nat_add_left_cancel_less)
next
  assume r: ?R
  then have "i < Suc (length hay)" by (auto simp: occurs_at_def)
  with r show ?L
    by (auto simp: find_Some_iff simp del: upt_Suc intro!: exI [of _ "i - start"])
qed

lemma find_no_occurrence:
  "find (occurs_at hay needle) [start..<Suc (length hay)] = None \<longleftrightarrow>
     (\<forall>j \<ge> start. \<not> occurs_at hay needle j)"
  by (auto simp: find_None_iff occurs_at_def simp del: upt_Suc)

section \<open>Simulation\<close>

text \<open>
  A component and its specification run over the same sequence of operations. A step of the component
  may fail (\<open>None\<close>); \<open>ok\<close> restricts the operations by the specification's state. The locale is the
  interface between a component and its clients: it is interpreted where a component is refined.
\<close>

fun run_c :: "('s \<Rightarrow> 'op \<Rightarrow> ('out \<times> 's) option) \<Rightarrow> 's \<Rightarrow> 'op list \<Rightarrow> ('out list \<times> 's) option" where
  "run_c step s [] = Some ([], s)"
| "run_c step s (op # ops) =
     (case step s op of
        None \<Rightarrow> None
      | Some (out, s') \<Rightarrow>
          (case run_c step s' ops of None \<Rightarrow> None | Some (outs, s'') \<Rightarrow> Some (out # outs, s'')))"

fun run_a :: "('a \<Rightarrow> 'op \<Rightarrow> 'out \<times> 'a) \<Rightarrow> 'a \<Rightarrow> 'op list \<Rightarrow> 'out list \<times> 'a" where
  "run_a step a [] = ([], a)"
| "run_a step a (op # ops) =
     (let (out, a') = step a op; (outs, a'') = run_a step a' ops in (out # outs, a''))"

fun ok_ops :: "('a \<Rightarrow> 'op \<Rightarrow> 'out \<times> 'a) \<Rightarrow> ('a \<Rightarrow> 'op \<Rightarrow> bool) \<Rightarrow> 'a \<Rightarrow> 'op list \<Rightarrow> bool" where
  "ok_ops step ok a [] \<longleftrightarrow> True"
| "ok_ops step ok a (op # ops) \<longleftrightarrow> ok a op \<and> ok_ops step ok (snd (step a op)) ops"

locale simulation =
  fixes cstep :: "'s \<Rightarrow> 'op \<Rightarrow> ('out \<times> 's) option" and astep :: "'a \<Rightarrow> 'op \<Rightarrow> 'out \<times> 'a"
    and rel :: "'s \<Rightarrow> 'a \<Rightarrow> bool" and ok :: "'a \<Rightarrow> 'op \<Rightarrow> bool"
  assumes step: "rel s a \<Longrightarrow> ok a op \<Longrightarrow>
      \<exists>s'. cstep s op = Some (fst (astep a op), s') \<and> rel s' (snd (astep a op))"
begin

lemma run:
  "rel s a \<Longrightarrow> ok_ops astep ok a ops \<Longrightarrow>
     \<exists>s'. run_c cstep s ops = Some (fst (run_a astep a ops), s') \<and> rel s' (snd (run_a astep a ops))"
proof (induction ops arbitrary: s a)
  case (Cons op ops)
  obtain s1 where s1: "cstep s op = Some (fst (astep a op), s1)" "rel s1 (snd (astep a op))"
    using step [of s a op] Cons.prems by auto
  obtain s2 where "run_c cstep s1 ops = Some (fst (run_a astep (snd (astep a op)) ops), s2)"
      "rel s2 (snd (run_a astep (snd (astep a op)) ops))"
    using Cons.IH [OF s1(2)] Cons.prems(2) by auto
  with s1(1) show ?case by (simp add: split_beta Let_def)
qed simp

end

end
