(* ===== verification/Listpack.thy ===== *)
theory Listpack
  imports Prelude
begin

text \<open>
  The listpack byte encoding of senko-core/src/list.rs (\<open>ListpackNode\<close>, the \<open>lp_\<close> functions and
  the varint and string-header codecs), which list, set and hash values share. A borrowed slice
  of the buffer is its start offset and its bytes. The last byte of an entry is its encoded length,
  capped at 255; decoding steps to the next entry by that byte. \<open>lp_find\<close> searches with memmem,
  a parameter of the model, and verifies each hit. The first part has the definitions, the second
  the round trip of the encoding, the third the sequence interface and the lookups.
\<close>

section \<open>Nodes\<close>

text \<open>Links to other nodes are addresses; \<open>None\<close> is the null pointer.\<close>

type_synonym addr = nat

record listpack_node =
  node_data :: bytes
  node_count :: nat
  node_prev :: "addr option"
  node_next :: "addr option"

definition default_node :: listpack_node where
  "default_node = \<lparr>node_data = [], node_count = 0, node_prev = None, node_next = None\<rparr>"

section \<open>Codecs\<close>

fun write_varint :: "nat \<Rightarrow> bytes" where
  "write_varint value =
     (let byte = of_nat (value mod 128); value' = value div 128 in
      if value' \<noteq> 0 then (byte OR 128) # write_varint value' else [byte])"

declare write_varint.simps [simp del]

function read_varint_loop :: "bytes \<Rightarrow> nat \<Rightarrow> 64 word \<Rightarrow> nat \<Rightarrow> (64 word \<times> nat) option" where
  "read_varint_loop data offset value shift =
     (case get_at data offset of
        None \<Rightarrow> None
      | Some byte \<Rightarrow>
          (let value' = value OR push_bit shift (ucast (byte AND 127)) in
           if byte AND 128 = 0 then Some (value', offset + 1)
           else if 63 < shift + 7 then None
           else read_varint_loop data (offset + 1) value' (shift + 7)))"
  by pat_completeness auto
termination by (relation "measure (\<lambda>(_, _, _, shift). 64 - shift)") auto

declare read_varint_loop.simps [simp del]

definition read_varint :: "bytes \<Rightarrow> nat \<Rightarrow> (64 word \<times> nat) option" where
  "read_varint data offset = read_varint_loop data offset 0 0"

definition write_string_header :: "nat \<Rightarrow> bytes" where
  "write_string_header len =
     (if len \<le> 63 then [128 OR of_nat len]
      else if len < 2 ^ 16 then 224 # le_bytes 2 len
      else 240 # le_bytes 4 (len mod 2 ^ 32))"

definition read_string_header :: "bytes \<Rightarrow> (nat \<times> nat) option" where
  "read_string_header data =
     (case data of
        [] \<Rightarrow> None
      | first # _ \<Rightarrow>
          (if first AND 192 = 128 then Some (unat (first AND 63), 1)
           else if first = 224 then map_option (\<lambda>bs. (le_val bs, 3)) (slice data 1 3)
           else if first = 240 then map_option (\<lambda>bs. (le_val bs, 5)) (slice data 1 5)
           else None))"

definition checked_add64 :: "nat \<Rightarrow> nat \<Rightarrow> nat option" where
  "checked_add64 a b = (if a + b < 2 ^ 64 then Some (a + b) else None)"

section \<open>Entries\<close>

definition encode_entry :: "bytes \<Rightarrow> nat \<Rightarrow> bytes" where
  "encode_entry element prev_len =
     (let out = write_varint prev_len @ write_string_header (length element) @ element;
          backlen = sat_add64 (length out) 1
      in out @ [of_nat (min backlen 255)])"

definition decode_entry_at :: "bytes \<Rightarrow> nat \<Rightarrow> ((nat \<times> bytes) \<times> nat) option" where
  "decode_entry_at data offset =
     (if length data \<le> offset then None
      else case read_varint data offset of
        None \<Rightarrow> None
      | Some (_, cursor) \<Rightarrow>
          (if length data < cursor then None
           else case read_string_header (drop cursor data) of
             None \<Rightarrow> None
           | Some (payload_len, header_len) \<Rightarrow>
               (let cursor = cursor + header_len in
                case checked_add64 cursor payload_len of
                  None \<Rightarrow> None
                | Some payload_end \<Rightarrow>
                    (case slice data cursor payload_end of
                       None \<Rightarrow> None
                     | Some payload \<Rightarrow>
                         (case get_at data payload_end of
                            None \<Rightarrow> None
                          | Some b \<Rightarrow>
                              (case checked_add64 offset (unat b) of
                                 None \<Rightarrow> None
                               | Some next_offset \<Rightarrow> Some ((cursor, payload), next_offset)))))))"

fun encode_entries_loop :: "bytes list \<Rightarrow> nat \<Rightarrow> bytes" where
  "encode_entries_loop [] prev_len = []"
| "encode_entries_loop (entry # entries) prev_len =
     (let encoded = encode_entry entry prev_len
      in encoded @ encode_entries_loop entries (length encoded))"

definition encode_node_entries :: "listpack_node \<Rightarrow> bytes list \<Rightarrow> listpack_node" where
  "encode_node_entries node entries =
     node\<lparr>node_data := encode_entries_loop entries 0, node_count := length entries mod 2 ^ 16\<rparr>"

text \<open>\<open>ListpackIter::next\<close>, and the loop that collects from it: the last argument is
  \<open>count - yielded\<close>.\<close>

record listpack_iter =
  li_node :: listpack_node
  li_offset :: nat
  li_yielded :: nat

definition lp_iter :: "listpack_node \<Rightarrow> listpack_iter" where
  "lp_iter node = \<lparr>li_node = node, li_offset = 0, li_yielded = 0\<rparr>"

definition lp_iter_next :: "listpack_iter \<Rightarrow> (bytes \<times> listpack_iter) option" where
  "lp_iter_next it =
     (if node_count (li_node it) \<le> li_yielded it then None
      else case decode_entry_at (node_data (li_node it)) (li_offset it) of
             None \<Rightarrow> None
           | Some ((_, payload), next_offset) \<Rightarrow>
               Some (payload, it\<lparr>li_offset := next_offset, li_yielded := li_yielded it + 1\<rparr>))"

function lp_iter_collect :: "listpack_iter \<Rightarrow> bytes list" where
  "lp_iter_collect it =
     (case lp_iter_next it of None \<Rightarrow> [] | Some (payload, it') \<Rightarrow> payload # lp_iter_collect it')"
  by pat_completeness auto
termination
  by (relation "measure (\<lambda>it. node_count (li_node it) - li_yielded it)")
     (auto simp: lp_iter_next_def split: if_splits option.splits)

declare lp_iter_collect.simps [simp del]

definition decode_all_entries :: "listpack_node \<Rightarrow> bytes list" where
  "decode_all_entries node = lp_iter_collect (lp_iter node)"

section \<open>Operations\<close>

definition lp_push_front :: "listpack_node \<Rightarrow> bytes \<Rightarrow> listpack_node" where
  "lp_push_front node element =
     encode_node_entries node (insert_at 0 element (decode_all_entries node))"

definition lp_push_back :: "listpack_node \<Rightarrow> bytes \<Rightarrow> listpack_node" where
  "lp_push_back node element = encode_node_entries node (decode_all_entries node @ [element])"

definition lp_pop_front :: "listpack_node \<Rightarrow> (bytes \<times> listpack_node) option" where
  "lp_pop_front node =
     (case decode_all_entries node of
        [] \<Rightarrow> None
      | value # entries \<Rightarrow> Some (value, encode_node_entries node entries))"

definition lp_pop_back :: "listpack_node \<Rightarrow> (bytes \<times> listpack_node) option" where
  "lp_pop_back node =
     (let entries = decode_all_entries node in
      if entries = [] then None
      else Some (last entries, encode_node_entries node (butlast entries)))"

function lp_get_loop :: "bytes \<Rightarrow> nat \<Rightarrow> nat \<Rightarrow> nat \<Rightarrow> nat \<Rightarrow> bytes option" where
  "lp_get_loop data count index offset current =
     (if current < count then
        (case decode_entry_at data offset of
           None \<Rightarrow> None
         | Some ((_, payload), next_offset) \<Rightarrow>
             (if current = index then Some payload
              else lp_get_loop data count index next_offset (current + 1)))
      else None)"
  by pat_completeness auto
termination by (relation "measure (\<lambda>(_, count, _, _, current). count - current)") auto

declare lp_get_loop.simps [simp del]

definition lp_get :: "listpack_node \<Rightarrow> nat \<Rightarrow> bytes option" where
  "lp_get node index = lp_get_loop (node_data node) (node_count node) index 0 0"

definition lp_len :: "listpack_node \<Rightarrow> nat" where
  "lp_len node = node_count node"

definition lp_byte_size :: "listpack_node \<Rightarrow> nat" where
  "lp_byte_size node = length (node_data node)"

definition lp_delete_at :: "listpack_node \<Rightarrow> nat \<Rightarrow> listpack_node" where
  "lp_delete_at node index =
     (let entries = decode_all_entries node in
      if length entries \<le> index then node else encode_node_entries node (remove_at index entries))"

definition lp_insert_before :: "listpack_node \<Rightarrow> nat \<Rightarrow> bytes \<Rightarrow> listpack_node" where
  "lp_insert_before node index element =
     (let entries = decode_all_entries node
      in encode_node_entries node (insert_at (min index (length entries)) element entries))"

definition lp_insert_after :: "listpack_node \<Rightarrow> nat \<Rightarrow> bytes \<Rightarrow> listpack_node" where
  "lp_insert_after node index element =
     (let entries = decode_all_entries node
      in encode_node_entries node (insert_at (min (index + 1) (length entries)) element entries))"

definition lp_set :: "listpack_node \<Rightarrow> nat \<Rightarrow> bytes \<Rightarrow> listpack_node" where
  "lp_set node index element =
     (let entries = decode_all_entries node in
      if length entries \<le> index then node else encode_node_entries node (entries[index := element]))"

section \<open>Search\<close>

text \<open>
  The verification loop of \<open>lp_find\<close> runs until the cursor leaves the buffer or decoding fails. The
  cursor either grows or, where a length byte is zero, stays for ever; one unit of fuel per byte and
  one more separates the two, and \<open>OutOfFuel\<close> stands for the endless loop.
\<close>

fun lp_find_scan ::
    "nat \<Rightarrow> bytes \<Rightarrow> nat \<Rightarrow> nat \<Rightarrow> nat \<Rightarrow> nat \<Rightarrow> (unit, nat option) outcome" where
  "lp_find_scan 0 data offset elen cursor index = OutOfFuel"
| "lp_find_scan (Suc fuel) data offset elen cursor index =
     (if cursor < length data then
        (case decode_entry_at data cursor of
           None \<Rightarrow> Ok None
         | Some ((payload_offset, payload), next_cursor) \<Rightarrow>
             (if payload_offset = offset \<and> length payload = elen then Ok (Some index)
              else lp_find_scan fuel data offset elen next_cursor (index + 1)))
      else Ok None)"

fun lp_find_offsets :: "bytes \<Rightarrow> nat \<Rightarrow> nat list \<Rightarrow> (unit, nat option) outcome" where
  "lp_find_offsets data elen [] = Ok None"
| "lp_find_offsets data elen (offset # offsets) =
     (case lp_find_scan (Suc (length data)) data offset elen 0 0 of
        Ok (Some index) \<Rightarrow> Ok (Some index)
      | Ok None \<Rightarrow> lp_find_offsets data elen offsets
      | Err e \<Rightarrow> Err e | Panic \<Rightarrow> Panic | OutOfFuel \<Rightarrow> OutOfFuel)"

text \<open>\<open>find_iter\<close> is memmem::find_iter: haystack, needle, start offsets of the occurrences.\<close>

type_synonym find_iter = "bytes \<Rightarrow> bytes \<Rightarrow> nat list"

definition lp_find :: "find_iter \<Rightarrow> listpack_node \<Rightarrow> bytes \<Rightarrow> nat \<Rightarrow> (unit, nat option) outcome" where
  "lp_find find_iter node element skip =
     (if skip = 0 \<and> element \<noteq> [] then
        lp_find_offsets (node_data node) (length element) (find_iter (node_data node) element)
      else Ok (map_option fst
                (find (\<lambda>(index, value). index mod (skip + 1) = 0 \<and> value = element)
                   (enumerate 0 (decode_all_entries node)))))"

section \<open>Varints and string headers\<close>

lemma low_bits:
  fixes x :: byte
  assumes "d < 2 ^ k" and "k \<le> 7" and "x = of_nat d"
  shows "x AND mask k = x" and "unat x = d"
proof -
  have "d < 2 ^ 8" using assms(1,2) power_increasing [of k 7 "2 :: nat"] by simp
  then show u: "unat x = d" using assms(3) by (simp add: unat_of_nat)
  have "unat (x AND mask k) = unat x"
    using assms(1) u by (simp add: unsigned_take_bit_eq take_bit_nat_eq_self flip: take_bit_eq_mask)
  then show "x AND mask k = x" by (simp add: word_unat_eq_iff)
qed

lemma continuation_byte:
  fixes x :: byte
  assumes "x AND 127 = x"
  shows "(x OR 128) AND 127 = x" and "(x OR 128) AND 128 = 128" and "x AND 128 = 0"
proof -
  show "(x OR 128) AND 127 = x" using assms by (simp add: bit.conj_disj_distrib2)
  have "x AND 128 = (x AND 127) AND 128" using assms by simp
  then show "x AND 128 = 0" by (simp add: and.assoc)
  then show "(x OR 128) AND 128 = 128" by (simp add: bit.conj_disj_distrib2)
qed

lemma mask_numerals: "mask 7 = (127 :: 8 word)" "mask 6 = (63 :: 8 word)"
  by (simp_all add: mask_eq_exp_minus_1)

lemma varint_digit: "(of_nat (v mod 128) :: byte) AND 127 = of_nat (v mod 128)"
  using low_bits(1) [of "v mod 128" 7] by (simp add: mask_numerals)

lemma ucast_digit: "ucast (of_nat (v mod 128) :: byte) = (of_nat (v mod 128) :: 64 word)"
  by (simp add: word_unat_eq_iff unsigned_ucast_eq unat_of_nat take_bit_nat_eq_self)

lemma mod_128: "v mod 128 = take_bit 7 (v :: nat)"
  by (simp add: take_bit_eq_mod)

lemma of_nat_split7:
  "(of_nat v :: 64 word) = of_nat (v mod 128) OR push_bit 7 (of_nat (v div 128))"
proof -
  have "of_nat (v mod 128) AND push_bit 7 (of_nat (v div 128)) = (0 :: 64 word)"
    by (rule bit_eqI) (auto simp: bit_simps mod_128)
  then have "of_nat (v mod 128) OR push_bit 7 (of_nat (v div 128))
               = of_nat (v mod 128) + push_bit 7 (of_nat (v div 128) :: 64 word)"
    by (simp add: disjunctive_add_eq_or)
  also have "\<dots> = of_nat (v mod 128 + v div 128 * 128)"
    unfolding of_nat_add of_nat_mult by (simp add: push_bit_eq_mult)
  finally show ?thesis by simp
qed

lemma read_varint_loop_write:
  "shift \<le> 63 \<Longrightarrow> v < 2 ^ (64 - shift) \<Longrightarrow>
     read_varint_loop (pre @ write_varint v @ rest) (length pre) acc shift
       = Some (acc OR push_bit shift (of_nat v), length pre + length (write_varint v))"
proof (induction v arbitrary: pre acc shift rule: write_varint.induct)
  case (1 v)
  let ?b = "of_nat (v mod 128) :: byte"
  show ?case
  proof (cases "v div 128 = 0")
    case True
    then have "write_varint v = [?b]" by (simp add: write_varint.simps [of v])
    moreover have "v mod 128 = v" using True by (simp add: div_eq_0_iff)
    ultimately show ?thesis
      using varint_digit [of v] ucast_digit [of v]
      by (subst read_varint_loop.simps) (simp add: get_at_def continuation_byte(3))
  next
    case False
    then have w: "write_varint v = (?b OR 128) # write_varint (v div 128)"
      by (simp add: write_varint.simps [of v])
    have "(2 :: nat) ^ 7 < 2 ^ (64 - shift)" using False 1(3) by (simp add: div_eq_0_iff)
    then have s: "shift + 7 \<le> 63" using power_less_imp_less_exp [of "2 :: nat" 7 "64 - shift"] by simp
    have "(2 :: nat) ^ (64 - shift) = 2 ^ (57 - shift) * 128"
      using s power_add [of "2 :: nat" "57 - shift" 7] by simp
    then have v': "v div 128 < 2 ^ (64 - (shift + 7))" using 1(3) by (simp add: less_mult_imp_div_less)
    have "read_varint_loop ((pre @ [?b OR 128]) @ write_varint (v div 128) @ rest)
        (length (pre @ [?b OR 128])) (acc OR push_bit shift (of_nat (v mod 128))) (shift + 7)
      = Some ((acc OR push_bit shift (of_nat (v mod 128))) OR push_bit (shift + 7) (of_nat (v div 128)),
          length (pre @ [?b OR 128]) + length (write_varint (v div 128)))"
      by (rule 1(1)) (use False s v' in auto)
    moreover have "push_bit shift (of_nat v)
        = push_bit shift (of_nat (v mod 128)) OR push_bit (shift + 7) (of_nat (v div 128) :: 64 word)"
      by (subst of_nat_split7) (simp add: push_bit_or add.commute)
    ultimately show ?thesis
      using s varint_digit [of v] ucast_digit [of v] continuation_byte [of ?b]
      by (subst read_varint_loop.simps) (simp add: w get_at_def or.assoc)
  qed
qed

lemma read_varint_write:
  assumes "v < 2 ^ 64"
  shows "read_varint (pre @ write_varint v @ rest) (length pre)
           = Some (of_nat v, length pre + length (write_varint v))"
  using read_varint_loop_write [of 0 v pre rest 0] assms by (simp add: read_varint_def)

lemma short_header:
  fixes x :: byte
  assumes "x AND 63 = x"
  shows "(128 OR x) AND 192 = 128" and "(128 OR x) AND 63 = x"
proof -
  have "x AND 192 = (x AND 63) AND 192" using assms by simp
  also have "\<dots> = 0" by (simp add: and.assoc)
  finally show "(128 OR x) AND 192 = 128" by (simp add: bit.conj_disj_distrib2)
  show "(128 OR x) AND 63 = x" using assms by (simp add: bit.conj_disj_distrib2)
qed

lemma read_string_header_write:
  assumes "n < 2 ^ 32"
  shows "read_string_header (write_string_header n @ rest)
           = Some (n, length (write_string_header n))"
proof -
  consider "n \<le> 63" | "63 < n" "n < 2 ^ 16" | "2 ^ 16 \<le> n" by fastforce
  then show ?thesis
  proof cases
    case 1
    then show ?thesis
      using low_bits [of n 6] short_header [of "of_nat n"]
      by (simp add: write_string_header_def read_string_header_def mask_numerals)
  next
    case 2
    then show ?thesis
      using le_val_le_bytes [of n 2] slice_append_mid [of "[224]" "le_bytes 2 n" rest]
      by (simp add: write_string_header_def read_string_header_def numeral_3_eq_3)
  next
    case 3
    then show ?thesis
      using le_val_le_bytes [of n 4] slice_append_mid [of "[240]" "le_bytes 4 n" rest] assms
      by (simp add: write_string_header_def read_string_header_def)
  qed
qed

section \<open>Round trip of an entry and of a node\<close>

definition entry_header :: "bytes \<Rightarrow> nat \<Rightarrow> bytes" where
  "entry_header e prev_len = write_varint prev_len @ write_string_header (length e)"

lemma encode_entry_eq:
  assumes "length (encode_entry e p) < 2 ^ 64"
  shows "encode_entry e p
     = entry_header e p @ e @ [of_nat (min (length (entry_header e p) + length e + 1) 255)]"
  using assms by (simp add: encode_entry_def entry_header_def Let_def sat_add64_def add.assoc)

lemma length_encode_entry: "length (encode_entry e p) = length (entry_header e p) + length e + 1"
  by (simp add: encode_entry_def entry_header_def Let_def)

lemma write_varint_length: "p < 128 \<Longrightarrow> length (write_varint p) = 1"
  "p < 16384 \<Longrightarrow> length (write_varint p) \<le> 2"
  by (simp_all add: write_varint.simps [of p] write_varint.simps [of "p div 128"] Let_def)

lemma write_varint_not_Nil [simp]: "write_varint p \<noteq> []"
  by (simp add: write_varint.simps Let_def)

lemma entry_header_length:
  assumes "p \<le> 255"
  shows "length (entry_header e p) \<le> (if length e \<le> 63 then 3 else if length e < 2 ^ 16 then 5 else 7)"
  using write_varint_length(2) [of p] assms by (simp add: entry_header_def write_string_header_def)

lemma entry_header_pos: "2 \<le> length (entry_header e p)"
proof -
  have "write_varint p \<noteq> []" "write_string_header (length e) \<noteq> []"
    by (simp_all add: write_string_header_def)
  then show ?thesis by (cases "write_varint p"; cases "write_string_header (length e)")
    (simp_all add: entry_header_def)
qed

text \<open>An entry decodes to its payload whatever its size; the step to the next entry is capped.\<close>

lemma decode_entry_encode:
  assumes "p < 2 ^ 64" and "length e < 2 ^ 32" and "length pre + length (encode_entry e p) + 255 < 2 ^ 64"
  shows "decode_entry_at (pre @ encode_entry e p @ rest) (length pre)
     = Some ((length pre + length (entry_header e p), e), length pre + min (length (encode_entry e p)) 255)"
proof -
  define h where "h = write_string_header (length e)"
  define b :: byte where "b = of_nat (min (length (encode_entry e p)) 255)"
  have enc: "encode_entry e p = write_varint p @ h @ e @ [b]"
    using encode_entry_eq [of e p] assms(3) by (simp add: entry_header_def h_def b_def length_encode_entry add.assoc)
  let ?data = "pre @ write_varint p @ h @ e @ b # rest"
  let ?c = "length pre + length (write_varint p)"
  have v: "read_varint ?data (length pre) = Some (of_nat p, ?c)"
    using read_varint_write [OF assms(1), of pre "h @ e @ b # rest"] by simp
  have hd: "read_string_header (drop ?c ?data) = Some (length e, length h)"
    using read_string_header_write [OF assms(2), of "e @ b # rest"] by (simp add: h_def)
  have sl: "slice ?data (?c + length h) (?c + length h + length e) = Some e"
    using slice_append_mid [of "pre @ write_varint p @ h" e "b # rest"] by (simp add: add.assoc)
  have gb: "get_at ?data (?c + length h + length e) = Some b"
    by (simp add: get_at_def nth_append)
  have ub: "unat b = min (length (encode_entry e p)) 255" by (simp add: b_def unat_of_nat)
  have c1: "checked_add64 (?c + length h) (length e) = Some (?c + length h + length e)"
    using assms(3) by (simp add: checked_add64_def enc)
  have c2: "checked_add64 (length pre) (unat b) = Some (length pre + unat b)"
    using assms(3) ub by (simp add: checked_add64_def)
  have le: "\<not> length ?data \<le> length pre" "\<not> length ?data < ?c" by simp_all
  show ?thesis
    unfolding enc append_assoc append_Cons append_Nil decode_entry_at_def if_not_P [OF le(1)] v
      option.case prod.case if_not_P [OF le(2)] hd Let_def c1 sl gb c2
    using ub by (simp add: enc entry_header_def h_def)
qed

text \<open>Every entry whose encoding fits the length byte: at most 249 bytes of payload.\<close>

definition lp_entry_ok :: "bytes \<Rightarrow> bool" where
  "lp_entry_ok e \<longleftrightarrow> length e \<le> 249"

definition lp_ok :: "bytes list \<Rightarrow> bool" where
  "lp_ok es \<longleftrightarrow> length es < 2 ^ 16 \<and> (\<forall>e \<in> set es. lp_entry_ok e)"

lemma encode_entry_fits: "p \<le> 255 \<Longrightarrow> lp_entry_ok e \<Longrightarrow> length (encode_entry e p) \<le> 255"
  using entry_header_length [of p e] by (auto simp: length_encode_entry lp_entry_ok_def split: if_splits)

lemma decode_entry_ok:
  assumes "p \<le> 255" and "lp_entry_ok e" and "length pre < 2 ^ 32"
  shows "decode_entry_at (pre @ encode_entry e p @ rest) (length pre)
     = Some ((length pre + length (entry_header e p), e), length (pre @ encode_entry e p))"
  using decode_entry_encode [of p e pre rest] encode_entry_fits [OF assms(1,2)] assms
  by (simp add: lp_entry_ok_def)

lemma encode_entries_length:
  "p \<le> 255 \<Longrightarrow> \<forall>e \<in> set es. lp_entry_ok e \<Longrightarrow> length (encode_entries_loop es p) \<le> 255 * length es"
proof (induction es arbitrary: p)
  case (Cons e es)
  then have f: "length (encode_entry e p) \<le> 255" using encode_entry_fits by simp
  with Cons.IH [OF f] Cons.prems show ?case by (simp add: Let_def)
qed simp

lemma lp_iter_collect_encode:
  assumes "node_data node = pre @ encode_entries_loop es p" and "node_count node = k + length es"
    and "p \<le> 255" and "\<forall>e \<in> set es. lp_entry_ok e" and "length pre + 255 * length es < 2 ^ 32"
  shows "lp_iter_collect \<lparr>li_node = node, li_offset = length pre, li_yielded = k\<rparr> = es"
  using assms
proof (induction es arbitrary: pre p k)
  case Nil
  then show ?case by (simp add: lp_iter_collect.simps lp_iter_next_def)
next
  case (Cons e es)
  have f: "length (encode_entry e p) \<le> 255" using Cons.prems encode_entry_fits by simp
  have d: "node_data node = pre @ encode_entry e p @ encode_entries_loop es (length (encode_entry e p))"
    using Cons.prems(1) by (simp add: Let_def)
  have "decode_entry_at (node_data node) (length pre)
     = Some ((length pre + length (entry_header e p), e), length (pre @ encode_entry e p))"
    unfolding d using Cons.prems by (intro decode_entry_ok) auto
  moreover have "lp_iter_collect
      \<lparr>li_node = node, li_offset = length (pre @ encode_entry e p), li_yielded = k + 1\<rparr> = es"
    by (rule Cons.IH [where p = "length (encode_entry e p)"]) (use Cons.prems(2-) f d in simp_all)
  ultimately show ?case
    using Cons.prems(2) by (simp add: lp_iter_collect.simps [of "\<lparr>li_node = node, li_offset = length pre, li_yielded = k\<rparr>"] lp_iter_next_def)
qed

lemma decode_encode_node:
  assumes "lp_ok es"
  shows "decode_all_entries (encode_node_entries node es) = es"
proof -
  have "length es < 2 ^ 16" and "\<forall>e \<in> set es. lp_entry_ok e" using assms by (simp_all add: lp_ok_def)
  then have "lp_iter_collect
      \<lparr>li_node = encode_node_entries node es, li_offset = length ([] :: bytes), li_yielded = 0\<rparr> = es"
    by (intro lp_iter_collect_encode [where p = 0]) (simp_all add: encode_node_entries_def)
  then show ?thesis by (simp add: decode_all_entries_def lp_iter_def)
qed

section \<open>The sequence a node holds\<close>

definition lp_rep :: "listpack_node \<Rightarrow> bytes list \<Rightarrow> bool" where
  "lp_rep node es \<longleftrightarrow> lp_ok es \<and> encode_node_entries node es = node"

lemma encode_node_twice [simp]:
  "encode_node_entries (encode_node_entries node xs) ys = encode_node_entries node ys"
  by (simp add: encode_node_entries_def)

lemma lp_rep_encode: "lp_ok es \<Longrightarrow> lp_rep (encode_node_entries node es) es"
  by (simp add: lp_rep_def)

lemma lp_rep_ok: "lp_rep node es \<Longrightarrow> lp_ok es"
  by (simp add: lp_rep_def)

lemma lp_rep_decode: "lp_rep node es \<Longrightarrow> decode_all_entries node = es"
  using decode_encode_node [of es node] by (simp add: lp_rep_def)

lemma lp_rep_count: "lp_rep node es \<Longrightarrow> node_count node = length es"
  by (metis (no_types, lifting) encode_node_entries_def listpack_node.select_convs(2) lp_ok_def lp_rep_def
      mod_less listpack_node.simps(8) listpack_node.surjective listpack_node.update_convs(2))

lemma lp_rep_data: "lp_rep node es \<Longrightarrow> node_data node = encode_entries_loop es 0"
  unfolding lp_rep_def encode_node_entries_def by (cases node) simp

lemma lp_ok_mono: "lp_ok xs \<Longrightarrow> set ys \<subseteq> set xs \<Longrightarrow> length ys \<le> length xs \<Longrightarrow> lp_ok ys"
  by (auto simp: lp_ok_def)

lemma lp_ok_Nil [simp]: "lp_ok []"
  by (simp add: lp_ok_def)

lemma lp_rep_default: "lp_rep default_node []"
  by (simp add: lp_rep_def encode_node_entries_def default_node_def)

lemma lp_get_loop_encode:
  assumes "data = pre @ encode_entries_loop es p" and "count = k + length es" and "k \<le> i"
    and "p \<le> 255" and "\<forall>e \<in> set es. lp_entry_ok e" and "length pre + 255 * length es < 2 ^ 32"
  shows "lp_get_loop data count i (length pre) k = (if i < count then Some (es ! (i - k)) else None)"
  using assms
proof (induction es arbitrary: pre p k)
  case Nil
  then show ?case by (simp add: lp_get_loop.simps)
next
  case (Cons e es)
  have f: "length (encode_entry e p) \<le> 255" using Cons.prems encode_entry_fits by simp
  have d: "data = pre @ encode_entry e p @ encode_entries_loop es (length (encode_entry e p))"
    using Cons.prems(1) by (simp add: Let_def)
  have dec: "decode_entry_at data (length pre)
     = Some ((length pre + length (entry_header e p), e), length (pre @ encode_entry e p))"
    unfolding d using Cons.prems by (intro decode_entry_ok) auto
  have "lp_get_loop data count i (length (pre @ encode_entry e p)) (k + 1)
          = (if i < count then Some (es ! (i - (k + 1))) else None)" if "k < i"
    by (rule Cons.IH [where p = "length (encode_entry e p)"])
       (use Cons.prems(2-) f d that in simp_all)
  then show ?case
    using Cons.prems(2,3) dec by (subst lp_get_loop.simps) (auto simp: nth_Cons')
qed

lemma lp_get_rep:
  assumes "lp_rep node es"
  shows "lp_get node i = (if i < length es then Some (es ! i) else None)"
proof -
  have "length es < 2 ^ 16" and "\<forall>e \<in> set es. lp_entry_ok e"
    using assms by (simp_all add: lp_rep_def lp_ok_def)
  then have "lp_get_loop (node_data node) (node_count node) i (length ([] :: bytes)) 0
      = (if i < node_count node then Some (es ! (i - 0)) else None)"
    by (intro lp_get_loop_encode [where p = 0]) (simp_all add: lp_rep_data [OF assms] lp_rep_count [OF assms])
  then show ?thesis by (simp add: lp_get_def lp_rep_count [OF assms])
qed

text \<open>
  What the value encodings built on a listpack rely on: it is a sequence with the usual operations
  as long as its contents stay within what the encoding can hold.
\<close>

locale packed_sequence =
  fixes rep :: "'s \<Rightarrow> 'e list \<Rightarrow> bool" and ok :: "'e list \<Rightarrow> bool" and empty :: 's
    and push_front push_back :: "'s \<Rightarrow> 'e \<Rightarrow> 's"
    and pop_front pop_back :: "'s \<Rightarrow> ('e \<times> 's) option"
    and get :: "'s \<Rightarrow> nat \<Rightarrow> 'e option" and size :: "'s \<Rightarrow> nat"
    and entries :: "'s \<Rightarrow> 'e list"
    and delete_at :: "'s \<Rightarrow> nat \<Rightarrow> 's" and insert_before set_at :: "'s \<Rightarrow> nat \<Rightarrow> 'e \<Rightarrow> 's"
  assumes rep_ok: "rep s xs \<Longrightarrow> ok xs"
    and ok_mono: "ok xs \<Longrightarrow> set ys \<subseteq> set xs \<Longrightarrow> length ys \<le> length xs \<Longrightarrow> ok ys"
    and rep_empty: "rep empty []"
    and rep_entries: "rep s xs \<Longrightarrow> entries s = xs"
    and push_front_rep: "rep s xs \<Longrightarrow> ok (x # xs) \<Longrightarrow> rep (push_front s x) (x # xs)"
    and push_back_rep: "rep s xs \<Longrightarrow> ok (xs @ [x]) \<Longrightarrow> rep (push_back s x) (xs @ [x])"
    and pop_front_rep: "rep s (x # xs) \<Longrightarrow> \<exists>s'. pop_front s = Some (x, s') \<and> rep s' xs"
    and pop_back_rep: "rep s (xs @ [x]) \<Longrightarrow> \<exists>s'. pop_back s = Some (x, s') \<and> rep s' xs"
    and pop_empty: "rep s [] \<Longrightarrow> pop_front s = None \<and> pop_back s = None"
    and get_rep: "rep s xs \<Longrightarrow> get s i = (if i < length xs then Some (xs ! i) else None)"
    and size_rep: "rep s xs \<Longrightarrow> size s = length xs"
    and delete_rep: "rep s xs \<Longrightarrow> i < length xs \<Longrightarrow> rep (delete_at s i) (remove_at i xs)"
    and insert_rep: "rep s xs \<Longrightarrow> i \<le> length xs \<Longrightarrow> ok (insert_at i x xs) \<Longrightarrow>
                       rep (insert_before s i x) (insert_at i x xs)"
    and set_rep: "rep s xs \<Longrightarrow> i < length xs \<Longrightarrow> ok (xs[i := x]) \<Longrightarrow> rep (set_at s i x) (xs[i := x])"
begin

lemma rep_unique: "rep s xs \<Longrightarrow> rep s ys \<Longrightarrow> xs = ys"
  using rep_entries by metis

text \<open>Appending one element after the other to an empty sequence stores exactly them.\<close>

lemma rep_foldl_push_back: "rep s ys \<Longrightarrow> ok (ys @ xs) \<Longrightarrow> rep (foldl push_back s xs) (ys @ xs)"
proof (induction xs arbitrary: s ys)
  case (Cons x xs)
  have "ok (ys @ [x])" by (rule ok_mono [OF Cons.prems(2)]) auto
  then have "rep (push_back s x) (ys @ [x])" using Cons.prems(1) by (rule push_back_rep [rotated])
  then show ?case using Cons.IH [of "push_back s x" "ys @ [x]"] Cons.prems(2) by simp
qed simp

lemma rep_of_list: "ok xs \<Longrightarrow> rep (foldl push_back empty xs) xs"
  using rep_foldl_push_back [OF rep_empty, of xs] by simp

lemma pop_after_push:
  assumes "rep s xs" and "ok (x # xs)"
  shows "\<exists>s'. pop_front (push_front s x) = Some (x, s') \<and> rep s' xs"
    and "\<exists>s'. pop_back (push_back s x) = Some (x, s') \<and> rep s' xs"
  using pop_front_rep [OF push_front_rep [OF assms]] ok_mono [OF assms(2), of "xs @ [x]"]
    pop_back_rep [OF push_back_rep [OF assms(1)], of x] by auto

end

lemma lp_ok_remove_at: "lp_ok xs \<Longrightarrow> i < length xs \<Longrightarrow> lp_ok (remove_at i xs)"
  by (rule lp_ok_mono) (auto simp: remove_at_def dest: in_set_takeD in_set_dropD)

interpretation lp: packed_sequence lp_rep lp_ok default_node lp_push_front lp_push_back lp_pop_front
  lp_pop_back lp_get lp_len decode_all_entries lp_delete_at lp_insert_before lp_set
proof unfold_locales
  fix s :: listpack_node and x xs
  assume "lp_rep s (xs @ [x])"
  then show "\<exists>s'. lp_pop_back s = Some (x, s') \<and> lp_rep s' xs"
    using lp_rep_decode [of s "xs @ [x]"] lp_ok_mono [of "xs @ [x]" xs]
    by (auto simp: lp_pop_back_def Let_def lp_rep_def)
next
  fix s :: listpack_node and x xs
  assume "lp_rep s (x # xs)"
  then show "\<exists>s'. lp_pop_front s = Some (x, s') \<and> lp_rep s' xs"
    using lp_rep_decode [of s "x # xs"] lp_ok_mono [of "x # xs" xs]
    by (auto simp: lp_pop_front_def lp_rep_def)
qed (auto simp: lp_rep_default lp_rep_decode lp_rep_count lp_get_rep lp_push_front_def lp_push_back_def
      lp_pop_front_def lp_pop_back_def lp_len_def lp_delete_at_def lp_insert_before_def lp_set_def
      lp_rep_encode lp_ok_remove_at insert_at_def Let_def min_def intro: lp_ok_mono dest: lp_rep_ok)

section \<open>Searching a node\<close>

text \<open>
  What memmem documents of \<open>find_iter\<close>: the occurrences of the needle from left to right, each
  search resuming after the previous occurrence, so that occurrences do not overlap.
\<close>

function occurrences_from :: "bytes \<Rightarrow> bytes \<Rightarrow> nat \<Rightarrow> nat list" where
  "occurrences_from hay needle start =
     (case find (occurs_at hay needle) [start..<Suc (length hay)] of
        None \<Rightarrow> []
      | Some i \<Rightarrow> i # occurrences_from hay needle (i + max 1 (length needle)))"
  by pat_completeness auto
termination
  by (relation "measure (\<lambda>(hay, _, start). Suc (length hay) - start)")
     (auto simp: find_Some_iff max_def nth_append split: if_splits simp del: upt_Suc)

declare occurrences_from.simps [simp del]

definition memmem_law :: "find_iter \<Rightarrow> bool" where
  "memmem_law find_iter \<longleftrightarrow>
     (\<forall>hay needle. needle \<noteq> [] \<longrightarrow> find_iter hay needle = occurrences_from hay needle 0)"

definition reference_find_iter :: find_iter where
  "reference_find_iter hay needle = occurrences_from hay needle 0"

lemma reference_find_iter_law: "memmem_law reference_find_iter"
  by (simp add: memmem_law_def reference_find_iter_def)

lemma occurrences_from_sorted:
  "sorted_wrt (<) (occurrences_from hay needle start) \<and>
     (\<forall>i \<in> set (occurrences_from hay needle start). start \<le> i \<and> occurs_at hay needle i)"
proof (induction hay needle start rule: occurrences_from.induct)
  case (1 hay needle start)
  show ?case
  proof (cases "find (occurs_at hay needle) [start..<Suc (length hay)]")
    case None
    then show ?thesis by (simp add: occurrences_from.simps [of hay needle start] del: upt_Suc)
  next
    case (Some i)
    then have eq: "occurrences_from hay needle start
        = i # occurrences_from hay needle (i + max 1 (length needle))"
      by (simp add: occurrences_from.simps [of hay needle start] del: upt_Suc)
    have gt: "i < i + max 1 (length needle)" by simp
    show ?thesis
      unfolding eq using 1 [OF Some] Some [unfolded find_occurrence] gt
      by (auto simp del: max.absorb1 max.absorb2)
  qed
qed

lemma occurrences_from_complete:
  "occurs_at hay needle i \<Longrightarrow> start \<le> i \<Longrightarrow>
     (\<forall>j < i. occurs_at hay needle j \<longrightarrow> j + max 1 (length needle) \<le> i) \<Longrightarrow>
     i \<in> set (occurrences_from hay needle start)"
proof (induction hay needle start rule: occurrences_from.induct)
  case (1 hay needle start)
  then obtain f where f: "find (occurs_at hay needle) [start..<Suc (length hay)] = Some f"
    using find_no_occurrence [of hay needle start] by (cases "find (occurs_at hay needle) [start..<Suc (length hay)]") auto
  then have "f \<le> i" and "occurs_at hay needle f"
    using 1(2,3) unfolding find_occurrence by (meson not_le)+
  then show ?case
    using 1(1) [OF f 1(2)] 1(4) f
    by (cases "f = i") (auto simp: occurrences_from.simps [of hay needle start] simp del: upt_Suc)
qed

text \<open>Where the payloads lie: each entry's payload offset beside the payload.\<close>

fun layout :: "bytes list \<Rightarrow> nat \<Rightarrow> nat \<Rightarrow> (nat \<times> bytes) list" where
  "layout [] p base = []"
| "layout (e # es) p base =
     (base + length (entry_header e p), e)
       # layout es (length (encode_entry e p)) (base + length (encode_entry e p))"

lemma map_snd_layout [simp]: "map snd (layout es p base) = es"
  by (induction es p base rule: layout.induct) auto

lemma length_layout [simp]: "length (layout es p base) = length es"
  by (metis length_map map_snd_layout)

lemma layout_ge: "x \<in> set (layout es p base) \<Longrightarrow> base < fst x"
proof (induction es p base rule: layout.induct)
  case (2 e es p base)
  then show ?case using entry_header_pos [of e p] by (fastforce simp: length_encode_entry)
qed simp

lemma layout_sorted: "sorted_wrt (\<lambda>x y. fst x < fst y) (layout es p base)"
proof (induction es p base rule: layout.induct)
  case (2 e es p base)
  then show ?case using layout_ge by (fastforce simp: length_encode_entry)
qed simp

lemma layout_occurs:
  assumes "p \<le> 255" and "\<forall>e \<in> set es. lp_entry_ok e"
    and "(off, e) \<in> set (layout es p (length pre))"
  shows "occurs_at (pre @ encode_entries_loop es p) e off"
    and "length e \<le> 63 \<Longrightarrow> 0 < off \<and> (pre @ encode_entries_loop es p) ! (off - 1) = 128 OR of_nat (length e)"
proof -
  have "occurs_at (pre @ encode_entries_loop es p) e off \<and>
     (length e \<le> 63 \<longrightarrow> 0 < off \<and> (pre @ encode_entries_loop es p) ! (off - 1) = 128 OR of_nat (length e))"
    using assms
  proof (induction es arbitrary: pre p)
    case (Cons x es)
    have f: "length (encode_entry x p) \<le> 255" using Cons.prems encode_entry_fits by simp
    have eq: "pre @ encode_entries_loop (x # es) p
        = (pre @ encode_entry x p) @ encode_entries_loop es (length (encode_entry x p))"
      by (simp add: Let_def)
    show ?case
    proof (cases "(off, e) \<in> set (layout es (length (encode_entry x p)) (length (pre @ encode_entry x p)))")
      case True
      then show ?thesis unfolding eq using Cons.prems f by (intro Cons.IH) auto
    next
      case False
      then have oe: "off = length pre + length (entry_header x p)" "e = x" using Cons.prems by auto
      obtain t where t: "encode_entry x p = entry_header x p @ x @ t"
        using encode_entry_eq [of x p] f by auto
      have "length x \<le> 63 \<longrightarrow> entry_header x p ! (length (entry_header x p) - 1) = 128 OR of_nat (length x)"
        by (simp add: entry_header_def write_string_header_def nth_append)
      then show ?thesis
        unfolding eq t oe occurs_at_def using entry_header_pos [of x p]
        by (auto simp: nth_append)
    qed
  qed simp
  then show "occurs_at (pre @ encode_entries_loop es p) e off"
    and "length e \<le> 63 \<Longrightarrow> 0 < off \<and> (pre @ encode_entries_loop es p) ! (off - 1) = 128 OR of_nat (length e)"
    by auto
qed

lemma lp_find_scan_layout:
  assumes "data = pre @ encode_entries_loop es p" and "length es < fuel"
    and "p \<le> 255" and "\<forall>e \<in> set es. lp_entry_ok e" and "length pre + 255 * length es < 2 ^ 32"
  shows "lp_find_scan fuel data off n (length pre) k
     = Ok (map_option ((+) k) (position (\<lambda>x. fst x = off \<and> length (snd x) = n) (layout es p (length pre))))"
  using assms
proof (induction es arbitrary: pre p fuel k)
  case Nil
  then show ?case by (cases fuel) auto
next
  case (Cons e es)
  then obtain fuel' where fuel: "fuel = Suc fuel'" by (cases fuel) auto
  have f: "length (encode_entry e p) \<le> 255" using Cons.prems encode_entry_fits by simp
  have d: "data = pre @ encode_entry e p @ encode_entries_loop es (length (encode_entry e p))"
    using Cons.prems(1) by (simp add: Let_def)
  have dec: "decode_entry_at data (length pre)
     = Some ((length pre + length (entry_header e p), e), length (pre @ encode_entry e p))"
    unfolding d using Cons.prems by (intro decode_entry_ok) auto
  have "length pre < length data" unfolding d by (simp add: length_encode_entry)
  moreover have "lp_find_scan fuel' data off n (length (pre @ encode_entry e p)) (k + 1)
     = Ok (map_option ((+) (k + 1)) (position (\<lambda>x. fst x = off \<and> length (snd x) = n)
         (layout es (length (encode_entry e p)) (length (pre @ encode_entry e p)))))"
    by (rule Cons.IH) (use Cons.prems(2-) f d fuel in simp_all)
  ultimately show ?case
    using dec fuel by (auto simp: option.map_comp comp_def intro!: option.map_cong)
qed

text \<open>Scanning the hits in order finds the first entry whose payload lies at a hit.\<close>

lemma lp_find_offsets_scan:
  assumes "\<And>off. off \<in> set offs \<Longrightarrow> lp_find_scan (Suc (length data)) data off n 0 0 = Ok (g off)"
  shows "lp_find_offsets data n offs
           = Ok (case find (\<lambda>off. g off \<noteq> None) offs of None \<Rightarrow> None | Some off \<Rightarrow> g off)"
  using assms by (induction offs) auto

lemma sorted_find_first:
  assumes "sorted_wrt (<) (xs :: nat list)" and "x \<in> set xs" and "P x" and "\<forall>y < x. y \<in> set xs \<longrightarrow> \<not> P y"
  shows "find P xs = Some x"
  using assms
proof (induction xs)
  case (Cons a xs)
  then show ?case by (cases "x = a") auto
qed simp

lemma layout_position:
  assumes "(off, e) \<in> set (layout es p base)" and "position (\<lambda>x. x = e) es = Some k"
    and "layout es p base ! k = (off, e)"
  shows "position (\<lambda>x. fst x = off \<and> length (snd x) = length e) (layout es p base) = Some k"
proof -
  have k: "k < length es" using assms(2) by (rule position_less)
  have "fst (layout es p base ! j) < off" if "j < k" for j
    using sorted_wrt_nth_less [OF layout_sorted, of j k es p base] that k assms(3) by simp
  then show ?thesis using k assms(3) by (auto simp: position_Some_iff)
qed

lemma encode_entries_length_ge: "length es \<le> length (encode_entries_loop es p)"
proof (induction es arbitrary: p)
  case (Cons e es)
  show ?case using Cons.IH [of "length (encode_entry e p)"] by (simp add: Let_def length_encode_entry)
qed simp

lemma ascii_not_header: "(b :: byte) < 128 \<Longrightarrow> b \<noteq> 128 OR x"
proof
  assume "b < 128" and eq: "b = 128 OR x"
  then have "b AND 128 = 0"
    using low_bits(1) [of "unat b" 7 b] continuation_byte(3) [of b]
    by (simp add: word_less_nat_alt mask_numerals)
  moreover have "(128 OR x) AND 128 = 128" by (rule bit_eqI) (auto simp: bit_and_iff bit_or_iff)
  ultimately show False using eq by simp
qed

lemma occurs_at_nth: "occurs_at hay needle j \<Longrightarrow> i < length needle \<Longrightarrow> hay ! (j + i) = needle ! i"
  unfolding occurs_at_def by (metis (no_types) add_leD1 nth_drop nth_take)

lemma header_blocks_overlap:
  assumes "occurs_at hay needle j" and "j < off" and "off < j + length needle"
    and "hay ! (off - 1) = 128 OR x" and "\<forall>b \<in> set needle. b < 128"
  shows False
proof -
  have i: "off - 1 - j < length needle" and "j + (off - 1 - j) = off - 1" using assms(2,3) by simp_all
  then have "needle ! (off - 1 - j) = hay ! (off - 1)" using occurs_at_nth [OF assms(1) i] by simp
  then show False using assms(4,5) ascii_not_header nth_mem [OF i] by metis
qed

text \<open>The entry that starts at a given offset with a given payload length.\<close>

definition hit :: "(nat \<times> bytes) list \<Rightarrow> nat \<Rightarrow> nat \<Rightarrow> nat option" where
  "hit lay n off = position (\<lambda>x. fst x = off \<and> length (snd x) = n) lay"

lemma layout_nth: "k < length es \<Longrightarrow> snd (layout es p base ! k) = es ! k"
  by (metis length_layout map_snd_layout nth_map)

lemma hit_sound:
  assumes "hit (layout es p base) (length element) off = Some k"
    and "occurs_at data element off"
    and "\<And>e off. (off, e) \<in> set (layout es p base) \<Longrightarrow> occurs_at data e off"
  shows "es ! k = element" and "fst (layout es p base ! k) = off" and "k < length es"
proof -
  let ?x = "layout es p base ! k"
  have k: "k < length es" "fst ?x = off" "length (snd ?x) = length element"
    using assms(1) by (auto simp: hit_def position_Some_iff)
  have "?x \<in> set (layout es p base)" using k(1) by simp
  then have "occurs_at data (snd ?x) off" using assms(3) k(2) by (metis prod.collapse)
  with assms(2) k(3) have "snd ?x = element" by (metis occurs_at_def)
  with layout_nth [OF k(1)] k show "es ! k = element" "fst ?x = off" "k < length es" by simp_all
qed

lemma hit_first:
  assumes "position (\<lambda>x. x = element) es = Some k" and "layout es p base ! k = (off, element)"
    and "y < off" and "occurs_at data element y"
    and "\<And>e off. (off, e) \<in> set (layout es p base) \<Longrightarrow> occurs_at data e off"
  shows "hit (layout es p base) (length element) y = None"
proof (cases "hit (layout es p base) (length element) y")
  case (Some k')
  note s = hit_sound [OF Some assms(4,5)]
  have "k \<le> k'" using assms(1) s(1) by (auto simp: position_Some_iff not_less [symmetric])
  then have "off \<le> y"
    using sorted_wrt_nth_less [OF layout_sorted, of k k' es p base] s(2,3) assms(2)
    by (cases "k = k'") auto
  with assms(3) show ?thesis by simp
qed

lemma lp_find_scan_rep:
  assumes "lp_rep node es"
  shows "lp_find_scan (Suc (length (node_data node))) (node_data node) off n 0 0 = Ok (hit (layout es 0 0) n off)"
proof -
  have ok: "\<forall>e \<in> set es. lp_entry_ok e" "length es < 2 ^ 16" using assms by (auto simp: lp_rep_def lp_ok_def)
  have "lp_find_scan (Suc (length (node_data node))) (node_data node) off n (length ([] :: bytes)) 0
      = Ok (map_option ((+) 0) (position (\<lambda>x. fst x = off \<and> length (snd x) = n) (layout es 0 (length ([] :: bytes)))))"
    by (rule lp_find_scan_layout)
       (use ok lp_rep_data [OF assms] encode_entries_length_ge [of es 0] in simp_all)
  moreover have "map_option ((+) (0 :: nat)) v = v" for v by (cases v) simp_all
  ultimately show ?thesis by (simp add: hit_def del: lp_find_scan.simps)
qed

lemma lp_find_correct_aux:
  assumes law: "memmem_law find_iter" and rep: "lp_rep node es" and el: "element \<noteq> []"
    and short: "length element \<le> 63" and ascii: "\<forall>b \<in> set element. b < 128"
  shows "lp_find find_iter node element 0 = Ok (position (\<lambda>x. x = element) es)"
proof -
  let ?data = "node_data node" and ?lay = "layout es 0 0"
  let ?g = "hit ?lay (length element)" and ?offs = "occurrences_from ?data element 0"
  have data: "?data = [] @ encode_entries_loop es 0" using lp_rep_data [OF rep] by simp
  have ok: "\<forall>e \<in> set es. lp_entry_ok e" using rep by (simp add: lp_rep_def lp_ok_def)
  have occ: "occurs_at ?data e off" if "(off, e) \<in> set ?lay" for off e
    unfolding data by (rule layout_occurs(1)) (use ok that in simp_all)
  have offs: "sorted_wrt (<) ?offs" "\<And>off. off \<in> set ?offs \<Longrightarrow> occurs_at ?data element off"
    using occurrences_from_sorted by blast+
  have res: "lp_find find_iter node element 0
      = Ok (case find (\<lambda>off. ?g off \<noteq> None) ?offs of None \<Rightarrow> None | Some off \<Rightarrow> ?g off)"
    using law el lp_find_offsets_scan [OF lp_find_scan_rep [OF rep]]
    by (simp add: lp_find_def memmem_law_def)
  show ?thesis
  proof (cases "position (\<lambda>x. x = element) es")
    case None
    have "?g off = None" if "off \<in> set ?offs" for off
    proof (cases "?g off")
      case (Some k)
      have "es ! k = element" "k < length es" using hit_sound [OF Some offs(2) [OF that] occ] by auto
      then have "element \<in> set es" by auto
      with None show ?thesis by (auto simp: position_None_iff)
    qed
    then have "find (\<lambda>off. ?g off \<noteq> None) ?offs = None" by (auto simp: find_None_iff)
    with res None show ?thesis by simp
  next
    case (Some k)
    have k: "k < length es" "es ! k = element" using Some by (auto simp: position_Some_iff)
    obtain off where off: "?lay ! k = (off, element)"
      using layout_nth [OF k(1), of 0 0] k(2) by (metis prod.collapse)
    then have mem: "(off, element) \<in> set ?lay" using k(1) by (metis length_layout nth_mem)
    have hd: "?data ! (off - 1) = 128 OR of_nat (length element)"
      unfolding data by (rule layout_occurs(2) [THEN conjunct2]) (use ok mem short in simp_all)
    have "j + max 1 (length element) \<le> off" if "j < off" "occurs_at ?data element j" for j
    proof -
      have "j + length element \<le> off"
        using header_blocks_overlap [OF that(2,1) _ hd ascii] not_less by blast
      then show ?thesis using el by (cases element) simp_all
    qed
    then have "off \<in> set ?offs" using occ [OF mem] by (intro occurrences_from_complete) auto
    moreover have g: "?g off = Some k" unfolding hit_def by (rule layout_position [OF mem Some off])
    moreover have "?g y = None" if "y < off" "y \<in> set ?offs" for y
      by (rule hit_first [OF Some off that(1) offs(2) [OF that(2)] occ])
    ultimately have "find (\<lambda>off. ?g off \<noteq> None) ?offs = Some off"
      using offs(1) by (intro sorted_find_first) auto
    with res Some g show ?thesis by simp
  qed
qed

section \<open>Properties of the listpack\<close>

text \<open>C5. A node filled with entries that fit its length byte reads back as exactly these entries, by
  iteration, by index and by length, whatever the node held before.\<close>

theorem listpack_roundtrip:
  assumes "lp_ok es"
  shows "decode_all_entries (encode_node_entries node es) = es \<and>
         lp_len (encode_node_entries node es) = length es \<and>
         lp_get (encode_node_entries node es) i = (if i < length es then Some (es ! i) else None)"
  using lp_rep_encode [OF assms, of node] lp.rep_entries lp.size_rep lp.get_rep by blast

theorem listpack_roundtrip_witness:
  "lp_get (encode_node_entries default_node [[1, 2], [], replicate 249 7]) 2 = Some (replicate 249 7)"
  using listpack_roundtrip [of "[[1, 2], [], replicate 249 7]" default_node 2]
  by (simp add: lp_ok_def lp_entry_ok_def)

text \<open>Searching a node for a short ASCII element returns the index of its first occurrence, or
  nothing when it is absent, although the search runs over the raw bytes of the buffer.\<close>

theorem lp_find_correct:
  assumes "memmem_law find_iter" and "lp_ok es" and "element \<noteq> []" and "length element \<le> 63"
    and "\<forall>b \<in> set element. b < 128"
  shows "lp_find find_iter (encode_node_entries node es) element 0
           = Ok (position (\<lambda>x. x = element) es)"
  using lp_find_correct_aux [OF assms(1) lp_rep_encode [OF assms(2)] assms(3-5)] .

theorem lp_find_correct_witness:
  "lp_find reference_find_iter (encode_node_entries default_node [[97, 98, 97], [98, 97], [98]]) [98, 97] 0
     = Ok (Some 1)"
  using lp_find_correct [OF reference_find_iter_law, of "[[97, 98, 97], [98, 97], [98]]" "[98, 97]" default_node]
  by (simp add: lp_ok_def lp_entry_ok_def)

text \<open>The length byte of an entry is capped at 255, yet decoding steps by it: behind an entry of 253
  or more letters A every later entry is unreachable, while the count still includes it.\<close>

lemma long_entry_hides_rest:
  assumes "253 \<le> n" and "n < 2 ^ 16" and "length es < 2 ^ 16 - 1"
  shows "decode_all_entries (encode_node_entries node (replicate n 65 # es)) = [replicate n 65] \<and>
         lp_len (encode_node_entries node (replicate n 65 # es)) = Suc (length es)"
proof -
  let ?e = "replicate n (65 :: byte)" and ?node = "encode_node_entries node (replicate n 65 # es)"
  have h: "entry_header ?e 0 = 0 # 224 # le_bytes 2 n"
    using assms(1,2) by (simp add: entry_header_def write_varint.simps write_string_header_def)
  have enc: "encode_entry ?e 0 = (0 # 224 # le_bytes 2 n) @ ?e @ [255]"
    using encode_entry_eq [of ?e 0] h assms(1,2) by (simp add: length_encode_entry)
  obtain rest where d: "node_data ?node = [] @ encode_entry ?e 0 @ rest"
    by (simp add: encode_node_entries_def Let_def)
  have first: "decode_entry_at (node_data ?node) 0 = Some ((4, ?e), 255)"
    using decode_entry_encode [of 0 ?e "[]" rest] d h assms(1,2) by (simp add: length_encode_entry)
  have byte: "node_data ?node ! i = 65" "i < length (node_data ?node)" if i: "4 \<le> i" "i < 4 + n" for i
  proof -
    obtain pre rest' where "node_data ?node = pre @ ?e @ rest'" and "length pre = 4"
      using d enc by (intro that [of "0 # 224 # le_bytes 2 n" "255 # rest"]) simp_all
    then show "node_data ?node ! i = 65" "i < length (node_data ?node)"
      using i less_diff_conv2 [OF i(1)] by (simp_all add: nth_append add.commute)
  qed
  have "read_varint (node_data ?node) 255 = Some (65, 256)"
    using byte [of 255] assms(1) by (simp add: read_varint_def read_varint_loop.simps get_at_def)
  moreover have "read_string_header (drop 256 (node_data ?node)) = None"
    using byte [of 256] assms(1) by (simp add: read_string_header_def flip: Cons_nth_drop_Suc)
  ultimately have second: "decode_entry_at (node_data ?node) 255 = None"
    by (simp add: decode_entry_at_def)
  have "node_count ?node = Suc (length es)" using assms(3) by (simp add: encode_node_entries_def)
  then show ?thesis
    using first second
    by (simp add: decode_all_entries_def lp_iter_def lp_len_def lp_iter_collect.simps [of "lp_iter ?node"]
        lp_iter_collect.simps lp_iter_next_def)
qed

lemma long_entry_hides_rest_witness:
  "decode_all_entries (encode_node_entries default_node [replicate 300 65, [98]]) = [replicate 300 65]"
  using long_entry_hides_rest [of 300 "[[98]]" default_node] by simp

text \<open>memmem reports occurrences that do not overlap, and the header byte in front of a payload can
  be part of one: a two-byte element equal to its own header byte is stored but never found.\<close>

lemma lp_find_misses_overlap:
  assumes "memmem_law find_iter"
  shows "decode_all_entries (encode_node_entries node [[130, 130]]) = [[130, 130]] \<and>
         lp_find find_iter (encode_node_entries node [[130, 130]]) [130, 130] 0 = Ok None"
proof -
  have d: "node_data (encode_node_entries node [[130, 130]]) = [0, 130, 130, 130, 5]"
    by (simp add: encode_node_entries_def encode_entry_def write_varint.simps write_string_header_def
        Let_def sat_add64_def)
  let ?n = "encode_node_entries node [[130, 130]]"
  have rep: "lp_rep ?n [[130, 130]]" by (rule lp_rep_encode) (simp add: lp_ok_def lp_entry_ok_def)
  have "occurrences_from [0, 130, 130, 130, 5] [130, 130] 0 = [1]"
    by (simp add: occurrences_from.simps occurs_at_def upt_rec)
  then have "find_iter (node_data ?n) [130, 130] = [1]" using assms d by (simp add: memmem_law_def)
  moreover have "hit (layout [[130, 130]] 0 0) (length [130 :: byte, 130]) 1 = None"
    by (simp add: hit_def entry_header_def write_varint.simps write_string_header_def)
  then have "lp_find_scan (Suc (length (node_data ?n))) (node_data ?n) 1 (length [130 :: byte, 130]) 0 0 = Ok None"
    unfolding lp_find_scan_rep [OF rep] by simp
  ultimately show ?thesis
    using lp_rep_decode [OF rep] by (simp add: lp_find_def del: lp_find_scan.simps)
qed

lemma lp_find_misses_overlap_witness:
  "lp_find reference_find_iter (encode_node_entries default_node [[130, 130]]) [130, 130] 0 = Ok None"
  using lp_find_misses_overlap [OF reference_find_iter_law] by blast

end
