(* ===== verification/QuickList.thy ===== *)
theory QuickList
  imports Listpack "HOL-Library.Monad_Syntax"
begin

text \<open>
  The linked list of listpack nodes behind list values: \<open>QuickList\<close> of senko-core/src/list.rs. The
  code works on raw pointers, so the model has an explicit heap from addresses to nodes. Every
  operation is in the option monad: \<open>None\<close> is undefined behaviour (a read, write or free of memory
  that is not allocated) or a loop that does not end. The first part has the operations, the second
  the shape of a well-formed heap, the third the operations' refinement of plain lists.
\<close>

section \<open>State and memory\<close>

record quicklist =
  ql_heap :: "addr \<Rightarrow> listpack_node option"
  ql_fresh :: addr
  ql_head :: "addr option"
  ql_tail :: "addr option"
  ql_node_count :: nat
  ql_len :: nat
  ql_fill :: int

text \<open>\<open>Box::new\<close> returns an address that was never used before; \<open>drop(Box::from_raw(p))\<close> frees.\<close>

definition ql_load :: "quicklist \<Rightarrow> addr \<Rightarrow> listpack_node option" where
  "ql_load s a = ql_heap s a"

definition ql_store :: "quicklist \<Rightarrow> addr \<Rightarrow> listpack_node \<Rightarrow> quicklist option" where
  "ql_store s a n =
     (case ql_heap s a of None \<Rightarrow> None | Some _ \<Rightarrow> Some (s\<lparr>ql_heap := (ql_heap s)(a \<mapsto> n)\<rparr>))"

definition ql_alloc :: "quicklist \<Rightarrow> listpack_node \<Rightarrow> addr \<times> quicklist" where
  "ql_alloc s n =
     (ql_fresh s, s\<lparr>ql_heap := (ql_heap s)(ql_fresh s \<mapsto> n), ql_fresh := ql_fresh s + 1\<rparr>)"

definition ql_free :: "quicklist \<Rightarrow> addr \<Rightarrow> quicklist option" where
  "ql_free s a =
     (case ql_heap s a of None \<Rightarrow> None | Some _ \<Rightarrow> Some (s\<lparr>ql_heap := (ql_heap s)(a := None)\<rparr>))"

definition quicklist_new :: "int \<Rightarrow> quicklist" where
  "quicklist_new fill =
     \<lparr>ql_heap = Map.empty, ql_fresh = 0, ql_head = None, ql_tail = None, ql_node_count = 0,
      ql_len = 0, ql_fill = max fill 1\<rparr>"

section \<open>Node surgery\<close>

definition unlink_node :: "quicklist \<Rightarrow> addr \<Rightarrow> quicklist option" where
  "unlink_node s node = do {
     n \<leftarrow> ql_load s node;
     let prev = node_prev n;
     let next = node_next n;
     s \<leftarrow> (case prev of
            Some p \<Rightarrow> do { m \<leftarrow> ql_load s p; ql_store s p (m\<lparr>node_next := next\<rparr>) }
          | None \<Rightarrow> Some (s\<lparr>ql_head := next\<rparr>));
     s \<leftarrow> (case next of
            Some q \<Rightarrow> do { m \<leftarrow> ql_load s q; ql_store s q (m\<lparr>node_prev := prev\<rparr>) }
          | None \<Rightarrow> Some (s\<lparr>ql_tail := prev\<rparr>));
     s \<leftarrow> ql_free s node;
     let s = s\<lparr>ql_node_count := ql_node_count s - 1\<rparr>;
     Some (if ql_node_count s = 0 then s\<lparr>ql_head := None, ql_tail := None\<rparr> else s)
   }"

definition split_if_needed :: "quicklist \<Rightarrow> addr \<Rightarrow> quicklist option" where
  "split_if_needed s node = do {
     n \<leftarrow> ql_load s node;
     if int (node_count n) \<le> ql_fill s then Some s
     else do {
       let entries = decode_all_entries n;
       let midpoint = length entries div 2;
       s \<leftarrow> ql_store s node (encode_node_entries n (take midpoint entries));
       let new = (encode_node_entries default_node (drop midpoint entries))
                   \<lparr>node_prev := Some node, node_next := node_next n\<rparr>;
       let (new_node, s) = ql_alloc s new;
       s \<leftarrow> (case node_next n of
              Some q \<Rightarrow> do { m \<leftarrow> ql_load s q; ql_store s q (m\<lparr>node_prev := Some new_node\<rparr>) }
            | None \<Rightarrow> Some (s\<lparr>ql_tail := Some new_node\<rparr>));
       m \<leftarrow> ql_load s node;
       s \<leftarrow> ql_store s node (m\<lparr>node_next := Some new_node\<rparr>);
       Some (s\<lparr>ql_node_count := sat_add32 (ql_node_count s) 1\<rparr>)
     }
   }"

definition try_merge_with_next :: "quicklist \<Rightarrow> addr \<Rightarrow> quicklist option" where
  "try_merge_with_next s node = do {
     n \<leftarrow> ql_load s node;
     case node_next n of
       None \<Rightarrow> Some s
     | Some next \<Rightarrow> do {
         m \<leftarrow> ql_load s next;
         if ql_fill s div 2 < int (node_count n) + int (node_count m) then Some s
         else do {
           let merged = decode_all_entries n @ decode_all_entries m;
           s \<leftarrow> ql_store s node (encode_node_entries n merged);
           unlink_node s next
         }
       }
   }"

definition cleanup_after_mutation :: "quicklist \<Rightarrow> addr \<Rightarrow> quicklist option" where
  "cleanup_after_mutation s node = do {
     n \<leftarrow> ql_load s node;
     if node_count n = 0 then unlink_node s node
     else do {
       s \<leftarrow> try_merge_with_next s node;
       n \<leftarrow> ql_load s node;
       case node_prev n of None \<Rightarrow> Some s | Some prev \<Rightarrow> try_merge_with_next s prev
     }
   }"

partial_function (option) compress_loop :: "quicklist \<Rightarrow> addr option \<Rightarrow> quicklist option" where
  "compress_loop s p =
     (case p of
        None \<Rightarrow> Some s
      | Some node \<Rightarrow> do {
          n \<leftarrow> ql_load s node;
          s \<leftarrow> cleanup_after_mutation s node;
          compress_loop s (node_next n)
        })"

definition compress_empty_and_merge :: "quicklist \<Rightarrow> quicklist option" where
  "compress_empty_and_merge s = compress_loop s (ql_head s)"

partial_function (option) clear_loop :: "quicklist \<Rightarrow> addr option \<Rightarrow> quicklist option" where
  "clear_loop s p =
     (case p of
        None \<Rightarrow> Some s
      | Some node \<Rightarrow> do {
          n \<leftarrow> ql_load s node;
          s \<leftarrow> ql_free s node;
          clear_loop s (node_next n)
        })"

definition clear :: "quicklist \<Rightarrow> quicklist option" where
  "clear s = do {
     s \<leftarrow> clear_loop s (ql_head s);
     Some (s\<lparr>ql_head := None, ql_tail := None, ql_node_count := 0, ql_len := 0\<rparr>)
   }"

section \<open>Operations at the ends\<close>

definition first_node :: "quicklist \<Rightarrow> quicklist" where
  "first_node s =
     (let (node, s) = ql_alloc s default_node
      in s\<lparr>ql_head := Some node, ql_tail := Some node, ql_node_count := 1\<rparr>)"

definition push_front :: "quicklist \<Rightarrow> bytes \<Rightarrow> quicklist option" where
  "push_front s element = do {
     let s = (if ql_head s = None then first_node s else s);
     head \<leftarrow> ql_head s;
     n \<leftarrow> ql_load s head;
     s \<leftarrow> ql_store s head (lp_push_front n element);
     let s = s\<lparr>ql_len := sat_add64 (ql_len s) 1\<rparr>;
     split_if_needed s head
   }"

definition push_back :: "quicklist \<Rightarrow> bytes \<Rightarrow> quicklist option" where
  "push_back s element = do {
     let s = (if ql_tail s = None then first_node s else s);
     tail \<leftarrow> ql_tail s;
     n \<leftarrow> ql_load s tail;
     s \<leftarrow> ql_store s tail (lp_push_back n element);
     let s = s\<lparr>ql_len := sat_add64 (ql_len s) 1\<rparr>;
     split_if_needed s tail
   }"

definition pop_front :: "quicklist \<Rightarrow> (bytes option \<times> quicklist) option" where
  "pop_front s =
     (case ql_head s of
        None \<Rightarrow> Some (None, s)
      | Some head \<Rightarrow> do {
          n \<leftarrow> ql_load s head;
          case lp_pop_front n of
            None \<Rightarrow> Some (None, s)
          | Some (value, n') \<Rightarrow> do {
              s \<leftarrow> ql_store s head n';
              let s = s\<lparr>ql_len := ql_len s - 1\<rparr>;
              s \<leftarrow> cleanup_after_mutation s head;
              Some (Some value, s)
            }
        })"

definition pop_back :: "quicklist \<Rightarrow> (bytes option \<times> quicklist) option" where
  "pop_back s =
     (case ql_tail s of
        None \<Rightarrow> Some (None, s)
      | Some tail \<Rightarrow> do {
          n \<leftarrow> ql_load s tail;
          case lp_pop_back n of
            None \<Rightarrow> Some (None, s)
          | Some (value, n') \<Rightarrow> do {
              s \<leftarrow> ql_store s tail n';
              let s = s\<lparr>ql_len := ql_len s - 1\<rparr>;
              s \<leftarrow> cleanup_after_mutation s tail;
              Some (Some value, s)
            }
        })"

section \<open>Access by index\<close>

text \<open>\<open>as i64\<close>: the value wrapped into the signed 64-bit range.\<close>

definition to_i64 :: "int \<Rightarrow> int" where
  "to_i64 x = (x + 2 ^ 63) mod 2 ^ 64 - 2 ^ 63"

definition normalize_index :: "quicklist \<Rightarrow> int \<Rightarrow> nat option" where
  "normalize_index s index =
     (if ql_len s = 0 then None
      else let len = to_i64 (int (ql_len s));
               index = (if index < 0 then to_i64 (len + index) else index)
           in if 0 \<le> index \<and> index < len then Some (nat index) else None)"

definition normalize_range :: "quicklist \<Rightarrow> int \<Rightarrow> int \<Rightarrow> (nat \<times> nat) option" where
  "normalize_range s start stop =
     (if ql_len s = 0 then None
      else let len = to_i64 (int (ql_len s));
               start = (if start < 0 then to_i64 (len + start) else start);
               stop = (if stop < 0 then to_i64 (len + stop) else stop);
               start = (if start < 0 then 0 else start);
               stop = (if len \<le> stop then len - 1 else stop)
           in if stop < start \<or> len \<le> start then None else Some (nat start, nat stop))"

partial_function (option) index_forward ::
    "quicklist \<Rightarrow> nat \<Rightarrow> nat \<Rightarrow> addr option \<Rightarrow> bytes option option" where
  "index_forward s normalized traversed p =
     (if p = None then Some None
      else do {
          node \<leftarrow> p;
          n \<leftarrow> ql_load s node;
          if normalized < traversed + node_count n then Some (lp_get n (normalized - traversed))
          else index_forward s normalized (traversed + node_count n) (node_next n)
        })"

partial_function (option) index_backward ::
    "quicklist \<Rightarrow> nat \<Rightarrow> nat \<Rightarrow> addr option \<Rightarrow> bytes option option" where
  "index_backward s normalized traversed p =
     (if p = None then Some None
      else do {
          node \<leftarrow> p;
          n \<leftarrow> ql_load s node;
          if traversed - node_count n \<le> normalized
          then Some (lp_get n (normalized - (traversed - node_count n)))
          else index_backward s normalized (traversed - node_count n) (node_prev n)
        })"

definition index :: "quicklist \<Rightarrow> int \<Rightarrow> bytes option option" where
  "index s i =
     (case normalize_index s i of
        None \<Rightarrow> Some None
      | Some normalized \<Rightarrow>
          (if normalized < ql_len s div 2 then index_forward s normalized 0 (ql_head s)
           else index_backward s normalized (ql_len s) (ql_tail s)))"

partial_function (option) set_index_loop ::
    "quicklist \<Rightarrow> nat \<Rightarrow> bytes \<Rightarrow> nat \<Rightarrow> addr option \<Rightarrow> (bool \<times> quicklist) option" where
  "set_index_loop s normalized element traversed p =
     (case p of
        None \<Rightarrow> Some (False, s)
      | Some node \<Rightarrow> do {
          n \<leftarrow> ql_load s node;
          if normalized < traversed + node_count n then do {
            s \<leftarrow> ql_store s node (lp_set n (normalized - traversed) element);
            s \<leftarrow> split_if_needed s node;
            s \<leftarrow> cleanup_after_mutation s node;
            Some (True, s)
          }
          else set_index_loop s normalized element (traversed + node_count n) (node_next n)
        })"

definition set_index :: "quicklist \<Rightarrow> int \<Rightarrow> bytes \<Rightarrow> (bool \<times> quicklist) option" where
  "set_index s i element =
     (case normalize_index s i of
        None \<Rightarrow> Some (False, s)
      | Some normalized \<Rightarrow> set_index_loop s normalized element 0 (ql_head s))"

section \<open>Insertion next to a pivot\<close>

datatype insert_result = Found | NotFound | KeyMissing

definition found_at :: "find_iter \<Rightarrow> listpack_node \<Rightarrow> bytes \<Rightarrow> nat option option" where
  "found_at fi n pivot =
     (case lp_find fi n pivot 0 of Ok r \<Rightarrow> Some r | Err _ \<Rightarrow> None | Panic \<Rightarrow> None | OutOfFuel \<Rightarrow> None)"

definition insert_at_node ::
    "(listpack_node \<Rightarrow> nat \<Rightarrow> bytes \<Rightarrow> listpack_node) \<Rightarrow> quicklist \<Rightarrow> addr \<Rightarrow> listpack_node \<Rightarrow> nat \<Rightarrow> bytes
       \<Rightarrow> quicklist option" where
  "insert_at_node lp_insert s node n i element = do {
     s \<leftarrow> ql_store s node (lp_insert n i element);
     let s = s\<lparr>ql_len := sat_add64 (ql_len s) 1\<rparr>;
     split_if_needed s node
   }"

partial_function (option) insert_loop ::
    "find_iter \<Rightarrow> (listpack_node \<Rightarrow> nat \<Rightarrow> bytes \<Rightarrow> listpack_node) \<Rightarrow> quicklist \<Rightarrow> bytes \<Rightarrow> bytes
       \<Rightarrow> addr option \<Rightarrow> (insert_result \<times> quicklist) option" where
  "insert_loop fi lp_insert s pivot element p =
     (case p of
        None \<Rightarrow> Some (NotFound, s)
      | Some node \<Rightarrow> do {
          n \<leftarrow> ql_load s node;
          found \<leftarrow> found_at fi n pivot;
          case found of
            Some i \<Rightarrow> do {
              s \<leftarrow> insert_at_node lp_insert s node n i element;
              Some (Found, s)
            }
          | None \<Rightarrow> insert_loop fi lp_insert s pivot element (node_next n)
        })"

definition insert_before ::
    "find_iter \<Rightarrow> quicklist \<Rightarrow> bytes \<Rightarrow> bytes \<Rightarrow> (insert_result \<times> quicklist) option" where
  "insert_before fi s pivot element =
     (if ql_head s = None then Some (KeyMissing, s)
      else insert_loop fi lp_insert_before s pivot element (ql_head s))"

definition insert_after ::
    "find_iter \<Rightarrow> quicklist \<Rightarrow> bytes \<Rightarrow> bytes \<Rightarrow> (insert_result \<times> quicklist) option" where
  "insert_after fi s pivot element =
     (if ql_head s = None then Some (KeyMissing, s)
      else insert_loop fi lp_insert_after s pivot element (ql_head s))"

section \<open>Removal\<close>

text \<open>The two scans of one node's entries: entries left, number removed here, budget left.\<close>

function remove_forward ::
    "bytes list \<Rightarrow> bytes \<Rightarrow> nat \<Rightarrow> nat \<Rightarrow> int \<Rightarrow> bytes list \<times> nat \<times> int" where
  "remove_forward entries element i removed_here remaining =
     (if i < length entries \<and> 0 < remaining then
        (if entries ! i = element
         then remove_forward (remove_at i entries) element i (removed_here + 1) (remaining - 1)
         else remove_forward entries element (i + 1) removed_here remaining)
      else (entries, removed_here, remaining))"
  by pat_completeness auto
termination by (relation "measure (\<lambda>(entries, _, i, _, _). length entries - i)") auto

fun remove_backward ::
    "bytes list \<Rightarrow> bytes \<Rightarrow> nat \<Rightarrow> nat \<Rightarrow> int \<Rightarrow> bytes list \<times> nat \<times> int" where
  "remove_backward entries element 0 removed_here remaining = (entries, removed_here, remaining)"
| "remove_backward entries element (Suc i) removed_here remaining =
     (if 0 < remaining then
        (if entries ! i = element
         then remove_backward (remove_at i entries) element i (removed_here + 1) (remaining - 1)
         else remove_backward entries element i removed_here remaining)
      else (entries, removed_here, remaining))"

declare remove_forward.simps [simp del]

definition remove_in_node ::
    "bool \<Rightarrow> quicklist \<Rightarrow> addr \<Rightarrow> listpack_node \<Rightarrow> bytes \<Rightarrow> int \<Rightarrow> (nat \<times> int \<times> quicklist) option" where
  "remove_in_node forward s node n element remaining = do {
     let entries = decode_all_entries n;
     let (entries, removed_here, remaining) =
       (if forward then remove_forward entries element 0 0 remaining
        else remove_backward entries element (length entries) 0 remaining);
     if 0 < removed_here then do {
       s \<leftarrow> ql_store s node (encode_node_entries n entries);
       Some (removed_here, remaining, s\<lparr>ql_len := ql_len s - removed_here\<rparr>)
     }
     else Some (removed_here, remaining, s)
   }"

partial_function (option) remove_loop ::
    "bool \<Rightarrow> quicklist \<Rightarrow> bytes \<Rightarrow> int \<Rightarrow> nat \<Rightarrow> addr option \<Rightarrow> (nat \<times> quicklist) option" where
  "remove_loop forward s element remaining removed p =
     (if p = None \<or> remaining \<le> 0 then Some (removed, s)
      else do {
        node \<leftarrow> p;
        n \<leftarrow> ql_load s node;
        r \<leftarrow> remove_in_node forward s node n element remaining;
        remove_loop forward (snd (snd r)) element (fst (snd r)) (removed + fst r)
          (if forward then node_next n else node_prev n)
      })"

definition remove :: "quicklist \<Rightarrow> int \<Rightarrow> bytes \<Rightarrow> (nat \<times> quicklist) option" where
  "remove s count element =
     (if ql_head s = None then Some (0, s)
      else do {
        let forward = 0 \<le> count;
        let remaining = (if count = 0 then i64_max else to_i64 \<bar>count\<bar>);
        (removed, s) \<leftarrow> remove_loop forward s element remaining 0
                          (if forward then ql_head s else ql_tail s);
        if 0 < removed then do {
          s \<leftarrow> compress_empty_and_merge s;
          Some (removed, s)
        }
        else Some (removed, s)
      })"

section \<open>Iteration, ranges and copies\<close>

text \<open>\<open>QuickListIter\<close>, run to its end: the entries of a node, then the next node.\<close>

partial_function (option) iter_nodes :: "quicklist \<Rightarrow> addr option \<Rightarrow> bytes list option" where
  "iter_nodes s current =
     (case current of
        None \<Rightarrow> Some []
      | Some node \<Rightarrow> do {
          n \<leftarrow> ql_load s node;
          rest \<leftarrow> iter_nodes s (node_next n);
          Some (lp_iter_collect (lp_iter n) @ rest)
        })"

definition iter :: "quicklist \<Rightarrow> bytes list option" where
  "iter s = iter_nodes s (ql_head s)"

text \<open>\<open>QuickListRangeIter::next\<close>, run to its end.\<close>

partial_function (option) range_loop :: "quicklist \<Rightarrow> nat \<Rightarrow> nat \<Rightarrow> bytes list option" where
  "range_loop s next_index stop_index =
     (if stop_index < next_index then Some []
      else do {
        v \<leftarrow> index s (to_i64 (int next_index));
        case v of
          None \<Rightarrow> Some []
        | Some x \<Rightarrow> do {
            rest \<leftarrow> range_loop s (sat_add64 next_index 1) stop_index;
            Some (x # rest)
          }
      })"

definition ql_range :: "quicklist \<Rightarrow> int \<Rightarrow> int \<Rightarrow> bytes list option" where
  "ql_range s start stop =
     (case normalize_range s start stop of
        Some (start, stop) \<Rightarrow> range_loop s start stop
      | None \<Rightarrow> range_loop s 1 0)"

fun push_all :: "quicklist \<Rightarrow> bytes list \<Rightarrow> quicklist option" where
  "push_all s [] = Some s"
| "push_all s (v # vs) = do { s \<leftarrow> push_back s v; push_all s vs }"

fun kept_values :: "quicklist \<Rightarrow> nat list \<Rightarrow> bytes list option" where
  "kept_values s [] = Some []"
| "kept_values s (i # is) = do {
     v \<leftarrow> index s (to_i64 (int i));
     rest \<leftarrow> kept_values s is;
     Some (case v of None \<Rightarrow> rest | Some x \<Rightarrow> x # rest)
   }"

definition trim :: "quicklist \<Rightarrow> int \<Rightarrow> int \<Rightarrow> quicklist option" where
  "trim s start stop =
     (case normalize_range s start stop of
        None \<Rightarrow> clear s
      | Some (start, stop) \<Rightarrow> do {
          kept \<leftarrow> kept_values s [start..<Suc stop];
          s \<leftarrow> clear s;
          push_all s kept
        })"

definition clone :: "quicklist \<Rightarrow> quicklist option" where
  "clone s = do { values \<leftarrow> iter s; push_all (quicklist_new (ql_fill s)) values }"

section \<open>Positions of an element\<close>

text \<open>The loop body shared by the two scans of \<open>pos\<close>: an indexed value, the matches seen and the
  result so far; the loop stops once \<open>count\<close> results are found (zero means all).\<close>

fun pos_loop :: "bytes \<Rightarrow> nat \<Rightarrow> nat \<Rightarrow> (nat \<times> bytes) list \<Rightarrow> nat \<Rightarrow> int list \<Rightarrow> int list" where
  "pos_loop element target_rank count [] matches_seen out = out"
| "pos_loop element target_rank count ((i, value) # rest) matches_seen out =
     (if value = element then
        (if target_rank \<le> matches_seen + 1 then
           (let out = out @ [int i] in
            if count \<noteq> 0 \<and> count \<le> length out then out
            else pos_loop element target_rank count rest (matches_seen + 1) out)
         else pos_loop element target_rank count rest (matches_seen + 1) out)
      else pos_loop element target_rank count rest matches_seen out)"

text \<open>The values the backward scan reads, from the last one down, until an index has none.\<close>

fun indexed_back :: "quicklist \<Rightarrow> nat list \<Rightarrow> (nat \<times> bytes) list option" where
  "indexed_back s [] = Some []"
| "indexed_back s (scanned # rest) = do {
     let i = ql_len s - 1 - scanned;
     v \<leftarrow> index s (to_i64 (int i));
     case v of
       None \<Rightarrow> Some []
     | Some x \<Rightarrow> do { r \<leftarrow> indexed_back s rest; Some ((i, x) # r) }
   }"

definition pos :: "quicklist \<Rightarrow> bytes \<Rightarrow> int \<Rightarrow> nat \<Rightarrow> nat \<Rightarrow> int list option" where
  "pos s element rank count maxlen =
     (if ql_len s = 0 \<or> rank = 0 then Some []
      else do {
        let target_rank = nat \<bar>rank\<bar>;
        let scan_limit = (if maxlen = 0 then ql_len s else min maxlen (ql_len s));
        if 0 < rank then do {
          values \<leftarrow> iter s;
          Some (pos_loop element target_rank count (enumerate 0 (take scan_limit values)) 0 [])
        }
        else do {
          values \<leftarrow> indexed_back s [0..<scan_limit];
          Some (pos_loop element target_rank count values 0 [])
        }
      })"

section \<open>The shape of a well-formed heap\<close>

text \<open>
  A well-formed list is described by its nodes in order, each an address with its entries. \<open>seg\<close> is
  the heap of such a chain between two outer links.
\<close>

type_synonym nodes = "(addr \<times> bytes list) list"

definition mk_node :: "bytes list \<Rightarrow> addr option \<Rightarrow> addr option \<Rightarrow> listpack_node" where
  "mk_node es prev next =
     encode_node_entries \<lparr>node_data = [], node_count = 0, node_prev = prev, node_next = next\<rparr> es"

definition hd_addr :: "addr option \<Rightarrow> nodes \<Rightarrow> addr option" where
  "hd_addr next xs = (if xs = [] then next else Some (fst (hd xs)))"

definition last_addr :: "addr option \<Rightarrow> nodes \<Rightarrow> addr option" where
  "last_addr prev xs = (if xs = [] then prev else Some (fst (last xs)))"

fun seg :: "addr option \<Rightarrow> nodes \<Rightarrow> addr option \<Rightarrow> addr \<Rightarrow> listpack_node option" where
  "seg prev [] next = Map.empty"
| "seg prev ((a, es) # xs) next = (seg (Some a) xs next)(a \<mapsto> mk_node es prev (hd_addr next xs))"

lemma mk_node_simps [simp]:
  "node_prev (mk_node es p q) = p" "node_next (mk_node es p q) = q"
  "mk_node es p q\<lparr>node_next := q'\<rparr> = mk_node es p q'" "mk_node es p q\<lparr>node_prev := p'\<rparr> = mk_node es p' q"
  "encode_node_entries (mk_node es p q) fs = mk_node fs p q"
  "mk_node es p q\<lparr>node_prev := p', node_next := q'\<rparr> = mk_node es p' q'"
  by (simp_all add: mk_node_def encode_node_entries_def)

lemma mk_node_default: "encode_node_entries default_node es = mk_node es None None"
  by (simp add: mk_node_def default_node_def)

lemma mk_node_rep: "lp_ok es \<Longrightarrow> lp_rep (mk_node es p q) es"
  unfolding mk_node_def by (rule lp_rep_encode)

lemma mk_node_read [simp]:
  assumes "lp_ok es"
  shows "decode_all_entries (mk_node es p q) = es" and "node_count (mk_node es p q) = length es"
  using mk_node_rep [OF assms] by (auto simp: lp_rep_decode lp_rep_count)

lemma addr_simps [simp]:
  "hd_addr q [] = q" "hd_addr q ((a, es) # xs) = Some a" "last_addr p [] = p"
  "last_addr p (xs @ [(a, es)]) = Some a" "hd_addr q (xs @ ys) = hd_addr (hd_addr q ys) xs"
  "last_addr p (xs @ ys) = last_addr (last_addr p xs) ys" "last_addr p ((a, es) # xs) = last_addr (Some a) xs"
  by (simp_all add: hd_addr_def last_addr_def)

lemma dom_seg [simp]: "dom (seg p xs q) = fst ` set xs"
proof (induction p xs q rule: seg.induct)
  case (2 p a es xs q)
  then show ?case by (simp only: seg.simps dom_fun_upd) simp
qed simp

lemma seg_append: "seg p (xs @ ys) q = seg (last_addr p xs) ys q ++ seg p xs (hd_addr q ys)"
  by (induction xs arbitrary: p) auto

lemma seg_head_prev:
  "seg p ((a, es) # xs) q a = Some (mk_node es p (hd_addr q xs))"
  "(seg p ((a, es) # xs) q)(a \<mapsto> mk_node es p' (hd_addr q xs)) = seg p' ((a, es) # xs) q"
  by simp_all

lemma seg_last_next:
  assumes "a \<notin> fst ` set xs"
  shows "seg p (xs @ [(a, es)]) q a = Some (mk_node es (last_addr p xs) q)"
    and "(seg p (xs @ [(a, es)]) q)(a \<mapsto> mk_node es (last_addr p xs) q') = seg p (xs @ [(a, es)]) q'"
proof -
  have "seg p xs (Some a) a = None" using assms dom_seg [of p xs "Some a"] by blast
  then show "seg p (xs @ [(a, es)]) q a = Some (mk_node es (last_addr p xs) q)"
    by (simp add: seg_append map_add_def)
  show "(seg p (xs @ [(a, es)]) q)(a \<mapsto> mk_node es (last_addr p xs) q') = seg p (xs @ [(a, es)]) q'"
    using assms by (simp add: seg_append map_add_upd_left [symmetric])
qed

lemma seg_mid:
  assumes "a \<notin> fst ` set xs"
  shows "seg p (xs @ (a, es) # ys) q a = Some (mk_node es (last_addr p xs) (hd_addr q ys))"
    and "(seg p (xs @ (a, es) # ys) q)(a \<mapsto> mk_node es' (last_addr p xs) (hd_addr q ys))
           = seg p (xs @ (a, es') # ys) q"
proof -
  have "seg p xs (Some a) a = None" using assms dom_seg [of p xs "Some a"] by blast
  then show "seg p (xs @ (a, es) # ys) q a = Some (mk_node es (last_addr p xs) (hd_addr q ys))"
    by (simp add: seg_append map_add_def)
  show "(seg p (xs @ (a, es) # ys) q)(a \<mapsto> mk_node es' (last_addr p xs) (hd_addr q ys))
           = seg p (xs @ (a, es') # ys) q"
    using assms by (simp add: seg_append map_add_upd_left [symmetric])
qed

text \<open>The shape says nothing of the length counter and of how full the nodes are: both are restored
  at the end of an operation only.\<close>

definition ql_shape :: "quicklist \<Rightarrow> nodes \<Rightarrow> bool" where
  "ql_shape s xs \<longleftrightarrow>
     ql_heap s = seg None xs None \<and> distinct (map fst xs) \<and>
     ql_head s = hd_addr None xs \<and> ql_tail s = last_addr None xs \<and>
     ql_node_count s = length xs \<and> (\<forall>a \<in> fst ` set xs. a < ql_fresh s) \<and>
     (\<forall>es \<in> snd ` set xs. lp_ok es)"

lemma ql_shapeD:
  assumes "ql_shape s xs"
  shows "ql_heap s = seg None xs None" and "distinct (map fst xs)" and "ql_head s = hd_addr None xs"
    and "ql_tail s = last_addr None xs" and "ql_node_count s = length xs"
    and "a \<in> fst ` set xs \<Longrightarrow> a < ql_fresh s" and "es \<in> snd ` set xs \<Longrightarrow> lp_ok es"
  using assms by (auto simp: ql_shape_def)

lemma shape_load:
  assumes "ql_shape s (xs @ (a, es) # ys)"
  shows "ql_load s a = Some (mk_node es (last_addr None xs) (hd_addr None ys))"
  using ql_shapeD(1,2) [OF assms] seg_mid(1) [of a xs None es ys None] by (simp add: ql_load_def)

lemma shape_ok: "ql_shape s (xs @ (a, es) # ys) \<Longrightarrow> lp_ok es"
  by (simp add: ql_shape_def)

lemma shape_store:
  assumes "ql_shape s (xs @ (a, es) # ys)" and "lp_ok es'"
  shows "\<exists>s'. ql_store s a (mk_node es' (last_addr None xs) (hd_addr None ys)) = Some s' \<and>
           ql_shape s' (xs @ (a, es') # ys) \<and> ql_len s' = ql_len s \<and> ql_fill s' = ql_fill s"
proof -
  have "a \<notin> fst ` set xs" using ql_shapeD(2) [OF assms(1)] by auto
  then show ?thesis
    using assms ql_shapeD(1) [OF assms(1)] seg_mid(1) [of a xs None es ys None] seg_mid(2) [of a xs None es ys None es']
    by (auto simp: ql_store_def ql_shape_def)
qed

text \<open>Two lists are disjoint parts of a heap; a write to one part leaves the other.\<close>

lemma heap_parts_store:
  assumes "ql_heap s = B ++ A" and "A a = Some n"
  shows "ql_load s a = Some n"
    and "ql_store s a m = Some (s\<lparr>ql_heap := B ++ A(a \<mapsto> m)\<rparr>)"
  using assms by (simp_all add: ql_load_def ql_store_def)

lemma heap_parts_store_left:
  assumes "ql_heap s = B ++ A" and "A a = None" and "B a = Some n"
  shows "ql_load s a = Some n"
    and "ql_store s a m = Some (s\<lparr>ql_heap := B(a \<mapsto> m) ++ A\<rparr>)"
proof -
  show "ql_load s a = Some n" using assms by (simp add: ql_load_def map_add_def)
  have "a \<notin> dom A" using assms(2) by auto
  then show "ql_store s a m = Some (s\<lparr>ql_heap := B(a \<mapsto> m) ++ A\<rparr>)"
    using assms by (simp add: ql_store_def map_add_upd_left map_add_dom_app_simps)
qed

lemma shape_parts:
  assumes "ql_shape s (xs @ (a, es) # ys)"
  shows "ql_heap s = (seg (Some a) ys None)(a \<mapsto> mk_node es (last_addr None xs) (hd_addr None ys))
           ++ seg None xs (Some a)"
    and "a \<notin> fst ` set xs" and "a \<notin> fst ` set ys" and "fst ` set xs \<inter> fst ` set ys = {}"
    and "distinct (map fst xs)" and "distinct (map fst ys)"
  using ql_shapeD(1,2) [OF assms] by (auto simp: seg_append)

text \<open>Redirecting the link of the last node before, and of the first node after, a position.\<close>

lemma set_last_next:
  assumes "ql_heap s = B ++ seg None xs q" and "distinct (map fst xs)" and "last_addr None xs = Some p"
  shows "\<exists>m. ql_load s p = Some m \<and>
           ql_store s p (m\<lparr>node_next := q'\<rparr>) = Some (s\<lparr>ql_heap := B ++ seg None xs q'\<rparr>)"
proof -
  obtain xs' es where xs: "xs = xs' @ [(p, es)]"
    using assms(3) by (cases xs rule: rev_cases) (auto simp: last_addr_def)
  then have p: "p \<notin> fst ` set xs'" using assms(2) by auto
  show ?thesis
    using heap_parts_store [OF assms(1)] seg_last_next [OF p, of None es] xs
    by (simp flip: map_add_upd)
qed

lemma set_first_prev:
  assumes "ql_heap s = seg p ys None ++ A" and "fst ` set ys \<inter> dom A = {}" and "hd_addr None ys = Some q"
  shows "\<exists>m. ql_load s q = Some m \<and>
           ql_store s q (m\<lparr>node_prev := p'\<rparr>) = Some (s\<lparr>ql_heap := seg p' ys None ++ A\<rparr>)"
proof -
  obtain es ys' where ys: "ys = (q, es) # ys'" using assms(3) by (cases ys) (auto simp: hd_addr_def)
  then have q: "A q = None" using assms(2) by auto
  show ?thesis
    using heap_parts_store_left [OF assms(1) q, of "mk_node es p (hd_addr None ys')"] ys by simp
qed

lemma last_addr_None: "last_addr None xs = None \<longleftrightarrow> xs = []"
  and hd_addr_None: "hd_addr None xs = None \<longleftrightarrow> xs = []"
  by (simp_all add: last_addr_def hd_addr_def)

lemma unlink_shape:
  assumes sh: "ql_shape s (xs @ (a, es) # ys)"
  shows "\<exists>s'. unlink_node s a = Some s' \<and> ql_shape s' (xs @ ys) \<and>
           ql_len s' = ql_len s \<and> ql_fill s' = ql_fill s"
proof -
  let ?M = "[a \<mapsto> mk_node es (last_addr None xs) (hd_addr None ys)]"
  note parts = shape_parts [OF sh]
  have h0: "ql_heap s = (seg (Some a) ys None ++ ?M) ++ seg None xs (Some a)" using parts(1) by simp
  define s1 where "s1 = s\<lparr>ql_heap := (seg (Some a) ys None ++ ?M) ++ seg None xs (hd_addr None ys),
      ql_head := hd_addr None (xs @ ys)\<rparr>"
  define s2 where "s2 = s1\<lparr>ql_heap := seg (last_addr None xs) ys None ++ (?M ++ seg None xs (hd_addr None ys)),
      ql_tail := last_addr None (xs @ ys)\<rparr>"
  have st1: "(case last_addr None xs of
        Some p \<Rightarrow> do { m \<leftarrow> ql_load s p; ql_store s p (m\<lparr>node_next := hd_addr None ys\<rparr>) }
      | None \<Rightarrow> Some (s\<lparr>ql_head := hd_addr None ys\<rparr>)) = Some s1"
  proof (cases "last_addr None xs")
    case None
    then show ?thesis using h0 ql_shapeD(3) [OF sh] by (simp add: s1_def last_addr_None)
  next
    case (Some p)
    then have "hd_addr None (xs @ ys) = ql_head s"
      using ql_shapeD(3) [OF sh] by (auto simp: hd_addr_def last_addr_def split: if_splits)
    then show ?thesis using set_last_next [OF h0 parts(5) Some, of "hd_addr None ys"] Some
      by (auto simp: s1_def)
  qed
  have h1: "ql_heap s1 = seg (Some a) ys None ++ (?M ++ seg None xs (hd_addr None ys))"
    by (simp add: s1_def)
  have st2: "(case hd_addr None ys of
        Some q \<Rightarrow> do { m \<leftarrow> ql_load s1 q; ql_store s1 q (m\<lparr>node_prev := last_addr None xs\<rparr>) }
      | None \<Rightarrow> Some (s1\<lparr>ql_tail := last_addr None xs\<rparr>)) = Some s2"
  proof (cases "hd_addr None ys")
    case None
    then show ?thesis using h1 by (simp add: s2_def hd_addr_None)
  next
    case (Some q)
    then have "last_addr None (xs @ ys) = ql_tail s1"
      using ql_shapeD(4) [OF sh] by (auto simp: s1_def hd_addr_def last_addr_def split: if_splits)
    moreover have "fst ` set ys \<inter> dom (?M ++ seg None xs (hd_addr None ys)) = {}" using parts by auto
    ultimately show ?thesis
      using set_first_prev [OF h1 _ Some, of "last_addr None xs"] Some by (auto simp: s2_def)
  qed
  have "seg (last_addr None xs) ys None a = None" "seg None xs (hd_addr None ys) a = None"
    using parts(2,3) dom_seg by (metis domIff)+
  then have st3: "ql_free s2 a = Some (s2\<lparr>ql_heap := seg None (xs @ ys) None\<rparr>)"
    by (auto simp: s2_def ql_free_def seg_append map_add_def fun_eq_iff split: option.splits
        intro!: arg_cong [where f = "\<lambda>h. s1\<lparr>ql_heap := h, ql_tail := t\<rparr>" for t])
  define s3 where "s3 = s2\<lparr>ql_heap := seg None (xs @ ys) None, ql_node_count := ql_node_count s2 - 1\<rparr>"
  have "unlink_node s a
      = Some (if ql_node_count s3 = 0 then s3\<lparr>ql_head := None, ql_tail := None\<rparr> else s3)"
    unfolding unlink_node_def shape_load [OF sh] Option.bind.simps Let_def mk_node_simps st1 st2 st3
    by (simp add: s3_def)
  moreover have "ql_shape s3 (xs @ ys)" and "ql_node_count s3 = length (xs @ ys)"
      and "ql_len s3 = ql_len s" and "ql_fill s3 = ql_fill s"
    using sh by (auto simp: s3_def s2_def s1_def ql_shape_def)
  ultimately show ?thesis by (auto simp: ql_shape_def)
qed

lemma split_shape:
  assumes sh: "ql_shape s (xs @ (a, es) # ys)" and n: "Suc (length (xs @ (a, es) # ys)) < 2 ^ 32"
  shows "\<exists>s' zs. split_if_needed s a = Some s' \<and> ql_shape s' (xs @ zs @ ys) \<and>
           ql_len s' = ql_len s \<and> ql_fill s' = ql_fill s \<and>
           zs = (if int (length es) \<le> ql_fill s then [(a, es)]
                 else [(a, take (length es div 2) es), (ql_fresh s, drop (length es div 2) es)])"
proof (cases "int (length es) \<le> ql_fill s")
  case True
  then show ?thesis using shape_load [OF sh] shape_ok [OF sh] sh by (simp add: split_if_needed_def)
next
  case False
  let ?l = "take (length es div 2) es" and ?r = "drop (length es div 2) es" and ?b = "ql_fresh s"
  have ok: "lp_ok ?l" "lp_ok ?r"
    by (rule lp_ok_mono [OF shape_ok [OF sh]]; auto dest: in_set_takeD in_set_dropD)+
  obtain s1 where st1: "ql_store s a (mk_node ?l (last_addr None xs) (hd_addr None ys)) = Some s1"
      and sh1: "ql_shape s1 ((xs @ [(a, ?l)]) @ ys)"
      and same: "ql_len s1 = ql_len s" "ql_fill s1 = ql_fill s"
    using shape_store [OF sh ok(1)] by auto
  have fr: "ql_fresh s1 = ?b" using st1 by (auto simp: ql_store_def split: option.splits)
  have b: "?b \<notin> fst ` set (xs @ [(a, ?l)])" "?b \<notin> fst ` set ys"
    using ql_shapeD(6) [OF sh, of ?b] by auto
  define N where "N = mk_node ?r (Some a) (hd_addr None ys)"
  define s2 where "s2 = s1\<lparr>ql_heap := seg (Some a) ys None ++ ([?b \<mapsto> N] ++ seg None (xs @ [(a, ?l)]) (hd_addr None ys)),
      ql_fresh := ?b + 1\<rparr>"
  define s3 where "s3 = s2\<lparr>ql_heap := (seg (Some ?b) ys None ++ [?b \<mapsto> N]) ++ seg None (xs @ [(a, ?l)]) (hd_addr None ys),
      ql_tail := last_addr (Some ?b) ys\<rparr>"
  have "(seg (Some a) ys None ++ seg None (xs @ [(a, ?l)]) (hd_addr None ys))(?b \<mapsto> N)
      = seg (Some a) ys None ++ ([?b \<mapsto> N] ++ seg None (xs @ [(a, ?l)]) (hd_addr None ys))"
    using b(1) by (simp flip: map_add_upd_left)
  then have al: "ql_alloc s1 N = (?b, s2)"
    using ql_shapeD(1) [OF sh1] seg_append [of None "xs @ [(a, ?l)]" ys None]
    by (simp add: ql_alloc_def fr s2_def)
  have h2: "ql_heap s2 = seg (Some a) ys None ++ ([?b \<mapsto> N] ++ seg None (xs @ [(a, ?l)]) (hd_addr None ys))"
    by (simp add: s2_def)
  have st3: "(case hd_addr None ys of
        Some q \<Rightarrow> do { m \<leftarrow> ql_load s2 q; ql_store s2 q (m\<lparr>node_prev := Some ?b\<rparr>) }
      | None \<Rightarrow> Some (s2\<lparr>ql_tail := Some ?b\<rparr>)) = Some s3"
  proof (cases "hd_addr None ys")
    case None
    then show ?thesis by (simp add: s3_def s2_def hd_addr_None)
  next
    case (Some q)
    then have "last_addr (Some ?b) ys = ql_tail s2"
      using ql_shapeD(4) [OF sh1] by (auto simp: s2_def hd_addr_def last_addr_def split: if_splits)
    moreover have "fst ` set ys \<inter> dom ([?b \<mapsto> N] ++ seg None (xs @ [(a, ?l)]) (hd_addr None ys)) = {}"
      using b ql_shapeD(2) [OF sh1] by auto
    ultimately show ?thesis using set_first_prev [OF h2 _ Some, of "Some ?b"] Some by (auto simp: s3_def)
  qed
  have h3: "ql_heap s3 = (seg (Some ?b) ys None ++ [?b \<mapsto> N]) ++ seg None (xs @ [(a, ?l)]) (hd_addr None ys)"
    by (simp add: s3_def)
  define s4 where "s4 = s3\<lparr>ql_heap := (seg (Some ?b) ys None ++ [?b \<mapsto> N]) ++ seg None (xs @ [(a, ?l)]) (Some ?b)\<rparr>"
  have "distinct (map fst (xs @ [(a, ?l)]))" using ql_shapeD(2) [OF sh1] by auto
  then obtain m where st4: "ql_load s3 a = Some m" "ql_store s3 a (m\<lparr>node_next := Some ?b\<rparr>) = Some s4"
    using set_last_next [OF h3, of a "Some ?b"] by (auto simp: s4_def)
  have new: "(encode_node_entries default_node ?r)\<lparr>node_prev := Some a, node_next := hd_addr None ys\<rparr> = N"
    by (simp add: mk_node_default N_def)
  have "split_if_needed s a = Some (s4\<lparr>ql_node_count := sat_add32 (ql_node_count s4) 1\<rparr>)"
    unfolding split_if_needed_def shape_load [OF sh] Option.bind.simps Let_def
      mk_node_simps mk_node_read [OF shape_ok [OF sh]] st1 new al prod.case st3 st4 if_not_P [OF False] ..
  moreover have "\<forall>c \<in> fst ` set (xs @ [(a, ?l), (?b, ?r)] @ ys). c < Suc ?b"
    using ql_shapeD(6) [OF sh] by (auto intro: less_SucI)
  then have "ql_shape (s4\<lparr>ql_node_count := sat_add32 (ql_node_count s4) 1\<rparr>) (xs @ [(a, ?l), (?b, ?r)] @ ys)"
    using sh1 n fr ok b seg_append [of None "xs @ [(a, ?l)]" "(?b, ?r) # ys" None]
    by (simp add: ql_shape_def s4_def s3_def s2_def N_def sat_add32_def)
  moreover have "ql_len s4 = ql_len s" "ql_fill s4 = ql_fill s"
    using same by (simp_all add: s4_def s3_def s2_def)
  ultimately show ?thesis using False by auto
qed

lemma merge_shape:
  assumes sh: "ql_shape s (xs @ (a, es) # ys)" and f: "ql_fill s \<le> 2 ^ 16 - 2"
  shows "\<exists>s' zs. try_merge_with_next s a = Some s' \<and> ql_shape s' (xs @ zs) \<and>
           ql_len s' = ql_len s \<and> ql_fill s' = ql_fill s \<and>
           zs = (case ys of
                   (b, fs) # ys' \<Rightarrow>
                     (if int (length es + length fs) \<le> ql_fill s div 2 then (a, es @ fs) # ys'
                      else (a, es) # ys)
                 | [] \<Rightarrow> [(a, es)])"
proof (cases ys)
  case Nil
  then show ?thesis using shape_load [OF sh] sh by (simp add: try_merge_with_next_def)
next
  case (Cons y ys')
  obtain b fs where y: "y = (b, fs)" by (cases y)
  have sh': "ql_shape s ((xs @ [(a, es)]) @ (b, fs) # ys')" using sh Cons y by simp
  note ok = shape_ok [OF sh] shape_ok [OF sh']
  note loads = shape_load [OF sh] shape_load [OF sh']
  show ?thesis
  proof (cases "int (length es + length fs) \<le> ql_fill s div 2")
    case False
    then have "ql_fill s div 2 < int (length es) + int (length fs)" by simp
    then have "try_merge_with_next s a = Some s"
      using loads ok Cons y by (simp add: try_merge_with_next_def)
    then show ?thesis using sh Cons y False by simp
  next
    case True
    have "length (es @ fs) < 2 ^ 16" using True f by simp
    then have okm: "lp_ok (es @ fs)" using ok by (auto simp: lp_ok_def)
    obtain s1 where s1: "ql_store s a (mk_node (es @ fs) (last_addr None xs) (hd_addr None ys)) = Some s1"
        "ql_shape s1 ((xs @ [(a, es @ fs)]) @ (b, fs) # ys')" "ql_len s1 = ql_len s" "ql_fill s1 = ql_fill s"
      using shape_store [OF sh okm] Cons y by auto
    obtain s2 where s2: "unlink_node s1 b = Some s2" "ql_shape s2 ((xs @ [(a, es @ fs)]) @ ys')"
        "ql_len s2 = ql_len s1" "ql_fill s2 = ql_fill s1"
      using unlink_shape [OF s1(2)] by blast
    have "\<not> ql_fill s div 2 < int (length es) + int (length fs)" using True by simp
    then have "try_merge_with_next s a = Some s2"
      using loads ok s1(1) s2(1) Cons y by (simp add: try_merge_with_next_def)
    then show ?thesis using s1 s2 Cons y True by simp
  qed
qed

section \<open>Contents\<close>

definition contents :: "nodes \<Rightarrow> bytes list" where
  "contents xs = concat (map snd xs)"

text \<open>Between operations no node is empty and none exceeds the fill factor.\<close>

definition filled :: "int \<Rightarrow> nodes \<Rightarrow> bool" where
  "filled fill xs \<longleftrightarrow> (\<forall>es \<in> snd ` set xs. es \<noteq> [] \<and> int (length es) \<le> fill)"

lemma contents_simps [simp]:
  "contents [] = []" "contents ((a, es) # xs) = es @ contents xs" "contents (xs @ ys) = contents xs @ contents ys"
  by (simp_all add: contents_def)

lemma filled_simps [simp]:
  "filled f []" "filled f ((a, es) # xs) \<longleftrightarrow> es \<noteq> [] \<and> int (length es) \<le> f \<and> filled f xs"
  "filled f (xs @ ys) \<longleftrightarrow> filled f xs \<and> filled f ys"
  by (auto simp: filled_def)

lemma filled_length: "filled f xs \<Longrightarrow> length xs \<le> length (contents xs)"
proof (induction xs)
  case (Cons x xs)
  obtain a es where "x = (a, es)" by (cases x)
  with Cons show ?case by (cases es) auto
qed simp

lemma merge_filled:
  assumes sh: "ql_shape s (xs @ (a, es) # ys)" and f: "0 < ql_fill s" "ql_fill s \<le> 2 ^ 16 - 2"
    and fl: "filled (ql_fill s) (xs @ (a, es) # ys)"
  shows "\<exists>s' es' ys'. try_merge_with_next s a = Some s' \<and> ql_shape s' (xs @ (a, es') # ys') \<and>
           ql_len s' = ql_len s \<and> ql_fill s' = ql_fill s \<and> filled (ql_fill s) (xs @ (a, es') # ys') \<and>
           contents (xs @ (a, es') # ys') = contents (xs @ (a, es) # ys)"
proof -
  obtain s' zs where m: "try_merge_with_next s a = Some s'" "ql_shape s' (xs @ zs)"
      "ql_len s' = ql_len s" "ql_fill s' = ql_fill s"
    and zs: "zs = (case ys of
                   (b, fs) # ys' \<Rightarrow>
                     (if int (length es + length fs) \<le> ql_fill s div 2 then (a, es @ fs) # ys'
                      else (a, es) # ys)
                 | [] \<Rightarrow> [(a, es)])"
    using merge_shape [OF sh f(2)] by blast
  have "ql_fill s div 2 \<le> ql_fill s" using f(1) by simp
  then have "\<exists>es' ys'. zs = (a, es') # ys' \<and> filled (ql_fill s) zs \<and> contents zs = es @ contents ys"
    using zs fl by (cases ys) (auto split: if_splits)
  then obtain es' ys' where "zs = (a, es') # ys'" "filled (ql_fill s) zs" "contents zs = es @ contents ys"
    by blast
  then show ?thesis
    using m fl by (intro exI [of _ s'] exI [of _ es'] exI [of _ ys']) simp
qed

lemma cleanup_filled:
  assumes sh: "ql_shape s (xs @ (a, es) # ys)" and f: "0 < ql_fill s" "ql_fill s \<le> 2 ^ 16 - 2"
    and fl: "filled (ql_fill s) (xs @ ys)" "int (length es) \<le> ql_fill s"
  shows "\<exists>s' zs. cleanup_after_mutation s a = Some s' \<and> ql_shape s' zs \<and>
           ql_len s' = ql_len s \<and> ql_fill s' = ql_fill s \<and> filled (ql_fill s) zs \<and>
           contents zs = contents (xs @ (a, es) # ys)"
proof (cases "es = []")
  case True
  then obtain s' where "unlink_node s a = Some s'" "ql_shape s' (xs @ ys)"
      "ql_len s' = ql_len s" "ql_fill s' = ql_fill s"
    using unlink_shape [OF sh] by blast
  then show ?thesis
    using shape_load [OF sh] fl True
    by (intro exI [of _ s'] exI [of _ "xs @ ys"]) (simp add: cleanup_after_mutation_def)
next
  case False
  then have fl': "filled (ql_fill s) (xs @ (a, es) # ys)" using fl by simp
  obtain s1 es1 ys1 where s1: "try_merge_with_next s a = Some s1" "ql_shape s1 (xs @ (a, es1) # ys1)"
      "ql_len s1 = ql_len s" "ql_fill s1 = ql_fill s" "filled (ql_fill s) (xs @ (a, es1) # ys1)"
      "contents (xs @ (a, es1) # ys1) = contents (xs @ (a, es) # ys)"
    using merge_filled [OF sh f fl'] by blast
  have start: "cleanup_after_mutation s a
      = (case last_addr None xs of None \<Rightarrow> Some s1 | Some prev \<Rightarrow> try_merge_with_next s1 prev)"
    using shape_load [OF sh] shape_ok [OF sh] shape_load [OF s1(2)] s1(1) False
    by (simp add: cleanup_after_mutation_def)
  show ?thesis
  proof (cases xs rule: rev_cases)
    case Nil
    then show ?thesis using start s1 by (auto simp del: contents_simps filled_simps)
  next
    case (snoc xs' x)
    obtain p ps where x: "x = (p, ps)" by (cases x)
    have sh1: "ql_shape s1 (xs' @ (p, ps) # (a, es1) # ys1)" using s1(2) snoc x by simp
    obtain s2 es2 ys2 where s2: "try_merge_with_next s1 p = Some s2" "ql_shape s2 (xs' @ (p, es2) # ys2)"
        "ql_len s2 = ql_len s1" "ql_fill s2 = ql_fill s1" "filled (ql_fill s1) (xs' @ (p, es2) # ys2)"
        "contents (xs' @ (p, es2) # ys2) = contents (xs' @ (p, ps) # (a, es1) # ys1)"
      using merge_filled [OF sh1] s1(4,5) f snoc x by auto
    show ?thesis
      using start s2 s1(3,4,6) snoc x by (intro exI [of _ s2] exI [of _ "xs' @ (p, es2) # ys2"]) simp
  qed
qed

lemma split_filled:
  assumes sh: "ql_shape s (xs @ (a, es) # ys)" and f: "0 < ql_fill s"
    and fl: "filled (ql_fill s) (xs @ ys)" "es \<noteq> []" "int (length es) \<le> ql_fill s + 1"
    and n: "Suc (length (xs @ (a, es) # ys)) < 2 ^ 32"
  shows "\<exists>s' zs. split_if_needed s a = Some s' \<and> ql_shape s' zs \<and>
           ql_len s' = ql_len s \<and> ql_fill s' = ql_fill s \<and> filled (ql_fill s) zs \<and>
           contents zs = contents (xs @ (a, es) # ys)"
proof -
  obtain s' zs where sp: "split_if_needed s a = Some s'" "ql_shape s' (xs @ zs @ ys)"
      "ql_len s' = ql_len s" "ql_fill s' = ql_fill s"
    and zs: "zs = (if int (length es) \<le> ql_fill s then [(a, es)]
                 else [(a, take (length es div 2) es), (ql_fresh s, drop (length es div 2) es)])"
    using split_shape [OF sh n] by blast
  have "filled (ql_fill s) zs \<and> contents zs = es"
  proof (cases "int (length es) \<le> ql_fill s")
    case False
    then have "2 \<le> length es" and "int (length es - length es div 2) \<le> ql_fill s"
      using f fl(3) by linarith+
    then show ?thesis using False fl(3) zs by auto
  qed (use fl zs in simp)
  then show ?thesis using sp fl(1) by (intro exI [of _ s'] exI [of _ "xs @ zs @ ys"]) simp
qed

section \<open>The list a well-formed state holds\<close>

definition ql_inv :: "quicklist \<Rightarrow> nodes \<Rightarrow> bool" where
  "ql_inv s ns \<longleftrightarrow>
     ql_shape s ns \<and> filled (ql_fill s) ns \<and> ql_len s = length (contents ns) \<and>
     0 < ql_fill s \<and> ql_fill s \<le> 2 ^ 16 - 2 \<and> length (contents ns) < 2 ^ 32 - 1"

definition ql_rep :: "quicklist \<Rightarrow> bytes list \<Rightarrow> bool" where
  "ql_rep s vs \<longleftrightarrow> (\<exists>ns. ql_inv s ns \<and> contents ns = vs)"

lemma ql_rep_new: "fill \<le> 2 ^ 16 - 2 \<Longrightarrow> ql_rep (quicklist_new fill) []"
  unfolding ql_rep_def
  by (rule exI [of _ "[]"]) (auto simp: ql_inv_def ql_shape_def quicklist_new_def)

lemma ql_inv_nodes: "ql_inv s ns \<Longrightarrow> Suc (length ns) < 2 ^ 32"
  using filled_length [of "ql_fill s" ns] by (simp add: ql_inv_def)

lemma lp_ok_grow:
  assumes "lp_ok es" and "int (length es) \<le> f" and "f \<le> 2 ^ 16 - 2" and "lp_entry_ok e"
    and "set es' \<subseteq> insert e (set es)" and "length es' \<le> Suc (length es)"
  shows "lp_ok es'"
  using assms by (auto simp: lp_ok_def)

lemma lp_push_mk_node:
  assumes "lp_ok es"
  shows "lp_push_front (mk_node es p q) e = mk_node (e # es) p q"
    and "lp_push_back (mk_node es p q) e = mk_node (es @ [e]) p q"
    and "lp_insert_before (mk_node es p q) i e = mk_node (insert_at (min i (length es)) e es) p q"
    and "lp_insert_after (mk_node es p q) i e = mk_node (insert_at (min (i + 1) (length es)) e es) p q"
    and "lp_set (mk_node es p q) i e = mk_node (es[i := e]) p q"
  using assms
  by (simp_all add: lp_push_front_def lp_push_back_def lp_insert_before_def lp_insert_after_def lp_set_def
      insert_at_def Let_def list_update_beyond)

text \<open>Growing one node by an entry: store, count and split.\<close>

lemma grow_node:
  assumes sh: "ql_shape s (xs @ (a, es) # ys)" and fl: "filled (ql_fill s) (xs @ ys)" "int (length es) \<le> ql_fill s"
    and f: "0 < ql_fill s" "ql_fill s \<le> 2 ^ 16 - 2" and len: "ql_len s = length (contents xs @ es @ contents ys)"
    and bnd: "Suc (ql_len s) < 2 ^ 32 - 1" and e: "lp_entry_ok e"
    and es': "es' = insert_at i e es" and i: "i \<le> length es"
  shows "\<exists>s1 s2. ql_store s a (mk_node es' (last_addr None xs) (hd_addr None ys)) = Some s1 \<and>
           split_if_needed (s1\<lparr>ql_len := sat_add64 (ql_len s1) 1\<rparr>) a = Some s2 \<and>
           ql_rep s2 (contents xs @ es' @ contents ys)"
proof -
  have l: "length es' = Suc (length es)" "es' \<noteq> []" using es' i by (simp, simp add: insert_at_def)
  have "set es' = insert e (set es)" using es' by (simp add: set_insert_at)
  then have ok: "lp_ok es'" using lp_ok_grow [OF shape_ok [OF sh] fl(2) f(2) e] l(1) by simp
  obtain s1 where s1: "ql_store s a (mk_node es' (last_addr None xs) (hd_addr None ys)) = Some s1"
      "ql_shape s1 (xs @ (a, es') # ys)" "ql_len s1 = ql_len s" "ql_fill s1 = ql_fill s"
    using shape_store [OF sh ok] by blast
  let ?s1 = "s1\<lparr>ql_len := sat_add64 (ql_len s1) 1\<rparr>"
  have sh1: "ql_shape ?s1 (xs @ (a, es') # ys)" using s1(2) by (simp add: ql_shape_def)
  have "length xs + length ys \<le> length (contents xs @ es @ contents ys)"
    using filled_length [of "ql_fill s" "xs @ ys"] fl(1) by simp
  then have n: "Suc (length (xs @ (a, es') # ys)) < 2 ^ 32" using bnd len by simp
  obtain s2 zs where s2: "split_if_needed ?s1 a = Some s2" "ql_shape s2 zs" "ql_len s2 = ql_len ?s1"
      "ql_fill s2 = ql_fill ?s1" "filled (ql_fill ?s1) zs" "contents zs = contents (xs @ (a, es') # ys)"
    using split_filled [OF sh1 _ _ _ _ n] fl f s1(4) l by auto
  have "ql_inv s2 zs" using s2 s1 f bnd len l by (simp add: ql_inv_def sat_add64_def)
  then show ?thesis using s1(1) s2(1,6) by (auto simp: ql_rep_def)
qed

lemma first_node_shape:
  assumes "ql_shape s []"
  shows "ql_shape (first_node s) [(ql_fresh s, [])]" and "ql_head (first_node s) = Some (ql_fresh s)"
    and "ql_tail (first_node s) = Some (ql_fresh s)"
    and "ql_len (first_node s) = ql_len s" and "ql_fill (first_node s) = ql_fill s"
  using assms mk_node_default [of "[]"]
  by (auto simp: first_node_def ql_alloc_def ql_shape_def encode_node_entries_def default_node_def)

lemma push_front_rep:
  assumes "ql_rep s vs" and "lp_entry_ok e" and "Suc (length vs) < 2 ^ 32 - 1"
  shows "\<exists>s'. push_front s e = Some s' \<and> ql_rep s' (e # vs)"
proof -
  obtain ns where inv: "ql_inv s ns" and vs: "contents ns = vs" using assms(1) by (auto simp: ql_rep_def)
  define s0 where "s0 = (if ql_head s = None then first_node s else s)"
  have "\<exists>a es ys. ql_shape s0 ([] @ (a, es) # ys) \<and> ql_head s0 = Some a \<and> es @ contents ys = vs \<and>
      filled (ql_fill s0) ([] @ ys) \<and> int (length es) \<le> ql_fill s0"
  proof (cases ns)
    case Nil
    then have "ql_head s = None" "ql_shape s []" using inv by (auto simp: ql_inv_def ql_shape_def)
    with first_node_shape [of s] Nil vs inv show ?thesis by (auto simp: s0_def ql_inv_def)
  next
    case (Cons n ns')
    then show ?thesis using inv vs by (cases n) (auto simp: s0_def ql_inv_def ql_shape_def)
  qed
  then obtain a es ys where sh: "ql_shape s0 ([] @ (a, es) # ys)" and h: "ql_head s0 = Some a"
      and c: "es @ contents ys = vs" and fl: "filled (ql_fill s0) ([] @ ys)" "int (length es) \<le> ql_fill s0"
    by blast
  have f: "0 < ql_fill s0" "ql_fill s0 \<le> 2 ^ 16 - 2" "ql_len s0 = length vs"
    using inv vs by (auto simp: s0_def ql_inv_def first_node_def ql_alloc_def)
  have "\<exists>s1 s2. ql_store s0 a (mk_node (e # es) (last_addr None []) (hd_addr None ys)) = Some s1 \<and>
           split_if_needed (s1\<lparr>ql_len := sat_add64 (ql_len s1) 1\<rparr>) a = Some s2 \<and>
           ql_rep s2 (contents [] @ (e # es) @ contents ys)"
    by (rule grow_node [OF sh fl f(1,2), where i = 0])
       (use f(3) c assms(2,3) in \<open>auto simp: insert_at_def\<close>)
  then show ?thesis
    using h c shape_load [OF sh] shape_ok [OF sh]
    by (auto simp: push_front_def s0_def [symmetric] Let_def lp_push_mk_node)
qed

lemma push_back_rep:
  assumes "ql_rep s vs" and "lp_entry_ok e" and "Suc (length vs) < 2 ^ 32 - 1"
  shows "\<exists>s'. push_back s e = Some s' \<and> ql_rep s' (vs @ [e])"
proof -
  obtain ns where inv: "ql_inv s ns" and vs: "contents ns = vs" using assms(1) by (auto simp: ql_rep_def)
  define s0 where "s0 = (if ql_tail s = None then first_node s else s)"
  have "\<exists>xs a es. ql_shape s0 (xs @ (a, es) # []) \<and> ql_tail s0 = Some a \<and> contents xs @ es = vs \<and>
      filled (ql_fill s0) (xs @ []) \<and> int (length es) \<le> ql_fill s0"
  proof (cases ns rule: rev_cases)
    case Nil
    then have "ql_tail s = None" "ql_shape s []" using inv by (auto simp: ql_inv_def ql_shape_def)
    with first_node_shape [of s] Nil vs inv show ?thesis
      by (intro exI [of _ "[]"]) (auto simp: s0_def ql_inv_def)
  next
    case (snoc ns' n)
    then show ?thesis using inv vs by (cases n) (auto simp: s0_def ql_inv_def ql_shape_def)
  qed
  then obtain xs a es where sh: "ql_shape s0 (xs @ (a, es) # [])" and h: "ql_tail s0 = Some a"
      and c: "contents xs @ es = vs" and fl: "filled (ql_fill s0) (xs @ [])" "int (length es) \<le> ql_fill s0"
    by blast
  have f: "0 < ql_fill s0" "ql_fill s0 \<le> 2 ^ 16 - 2" "ql_len s0 = length vs"
    using inv vs by (auto simp: s0_def ql_inv_def first_node_def ql_alloc_def)
  have "\<exists>s1 s2. ql_store s0 a (mk_node (es @ [e]) (last_addr None xs) (hd_addr None [])) = Some s1 \<and>
           split_if_needed (s1\<lparr>ql_len := sat_add64 (ql_len s1) 1\<rparr>) a = Some s2 \<and>
           ql_rep s2 (contents xs @ (es @ [e]) @ contents [])"
    by (rule grow_node [OF sh fl f(1,2), where i = "length es"])
       (use f(3) c assms(2,3) in \<open>auto simp: insert_at_def\<close>)
  then show ?thesis
    using h c shape_load [OF sh] shape_ok [OF sh]
    by (auto simp: push_back_def s0_def [symmetric] Let_def lp_push_mk_node)
qed

text \<open>Shrinking one node: store, count and clean up.\<close>

lemma shrink_node:
  assumes inv: "ql_inv s (xs @ (a, es) # ys)" and ok: "lp_ok es'" and l: "length es' \<le> length es"
    and d: "d = length es - length es'"
  shows "\<exists>s1 s2. ql_store s a (mk_node es' (last_addr None xs) (hd_addr None ys)) = Some s1 \<and>
           cleanup_after_mutation (s1\<lparr>ql_len := ql_len s1 - d\<rparr>) a = Some s2 \<and>
           ql_rep s2 (contents xs @ es' @ contents ys)"
proof -
  have sh: "ql_shape s (xs @ (a, es) # ys)" using inv by (simp add: ql_inv_def)
  obtain s1 where s1: "ql_store s a (mk_node es' (last_addr None xs) (hd_addr None ys)) = Some s1"
      "ql_shape s1 (xs @ (a, es') # ys)" "ql_len s1 = ql_len s" "ql_fill s1 = ql_fill s"
    using shape_store [OF sh ok] by blast
  let ?s1 = "s1\<lparr>ql_len := ql_len s1 - d\<rparr>"
  have sh1: "ql_shape ?s1 (xs @ (a, es') # ys)" using s1(2) by (simp add: ql_shape_def)
  obtain s2 zs where s2: "cleanup_after_mutation ?s1 a = Some s2" "ql_shape s2 zs" "ql_len s2 = ql_len ?s1"
      "ql_fill s2 = ql_fill ?s1" "filled (ql_fill ?s1) zs" "contents zs = contents (xs @ (a, es') # ys)"
    using cleanup_filled [OF sh1] inv s1(4) l by (auto simp: ql_inv_def)
  have "ql_inv s2 zs" using s2 s1 inv l d by (auto simp: ql_inv_def)
  then show ?thesis using s1(1) s2(1,6) by (auto simp: ql_rep_def)
qed

lemma pop_front_rep:
  "ql_rep s [] \<Longrightarrow> pop_front s = Some (None, s)"
  "ql_rep s (v # vs) \<Longrightarrow> \<exists>s'. pop_front s = Some (Some v, s') \<and> ql_rep s' vs"
proof -
  assume "ql_rep s []"
  then obtain ns where "ql_inv s ns" "contents ns = []" by (auto simp: ql_rep_def)
  then have "ns = []" using filled_length [of "ql_fill s" ns] by (simp add: ql_inv_def)
  with \<open>ql_inv s ns\<close> show "pop_front s = Some (None, s)" by (simp add: pop_front_def ql_inv_def ql_shape_def)
next
  assume "ql_rep s (v # vs)"
  then obtain ns where inv: "ql_inv s ns" and c: "contents ns = v # vs" by (auto simp: ql_rep_def)
  then obtain a es ys where ns: "ns = [] @ (a, es) # ys" by (cases ns) auto
  then obtain es' where es: "es = v # es'" using inv c by (cases es) (auto simp: ql_inv_def)
  have sh: "ql_shape s ([] @ (a, es) # ys)" using inv ns by (simp add: ql_inv_def)
  have ok: "lp_ok es'" using lp_ok_mono [OF shape_ok [OF sh], of es'] es by auto
  have pop: "lp_pop_front (mk_node es None (hd_addr None ys)) = Some (v, mk_node es' None (hd_addr None ys))"
    using shape_ok [OF sh] es by (simp add: lp_pop_front_def)
  obtain s1 s2 where "ql_store s a (mk_node es' (last_addr None []) (hd_addr None ys)) = Some s1"
      "cleanup_after_mutation (s1\<lparr>ql_len := ql_len s1 - 1\<rparr>) a = Some s2"
      "ql_rep s2 (contents [] @ es' @ contents ys)"
    using shrink_node [OF inv [unfolded ns] ok, of 1] es by auto
  then show "\<exists>s'. pop_front s = Some (Some v, s') \<and> ql_rep s' vs"
    using shape_load [OF sh] pop c ns es sh by (auto simp: pop_front_def ql_shape_def)
qed

lemma pop_back_rep:
  "ql_rep s [] \<Longrightarrow> pop_back s = Some (None, s)"
  "ql_rep s (vs @ [v]) \<Longrightarrow> \<exists>s'. pop_back s = Some (Some v, s') \<and> ql_rep s' vs"
proof -
  assume "ql_rep s []"
  then obtain ns where "ql_inv s ns" "contents ns = []" by (auto simp: ql_rep_def)
  then have "ns = []" using filled_length [of "ql_fill s" ns] by (simp add: ql_inv_def)
  with \<open>ql_inv s ns\<close> show "pop_back s = Some (None, s)" by (simp add: pop_back_def ql_inv_def ql_shape_def)
next
  assume "ql_rep s (vs @ [v])"
  then obtain ns where inv: "ql_inv s ns" and c: "contents ns = vs @ [v]" by (auto simp: ql_rep_def)
  then obtain xs a es where ns: "ns = xs @ (a, es) # []" by (cases ns rule: rev_cases) auto
  then obtain es' where es: "es = es' @ [v]"
    using inv c by (cases es rule: rev_cases) (auto simp: ql_inv_def)
  have sh: "ql_shape s (xs @ (a, es) # [])" using inv ns by (simp add: ql_inv_def)
  have ok: "lp_ok es'" using lp_ok_mono [OF shape_ok [OF sh], of es'] es by auto
  have pop: "lp_pop_back (mk_node es (last_addr None xs) None) = Some (v, mk_node es' (last_addr None xs) None)"
    using shape_ok [OF sh] es by (simp add: lp_pop_back_def)
  obtain s1 s2 where "ql_store s a (mk_node es' (last_addr None xs) (hd_addr None [])) = Some s1"
      "cleanup_after_mutation (s1\<lparr>ql_len := ql_len s1 - 1\<rparr>) a = Some s2"
      "ql_rep s2 (contents xs @ es' @ contents [])"
    using shrink_node [OF inv [unfolded ns] ok, of 1] es by auto
  then show "\<exists>s'. pop_back s = Some (Some v, s') \<and> ql_rep s' vs"
    using shape_load [OF sh] pop c ns es sh by (auto simp: pop_back_def ql_shape_def)
qed

section \<open>Reading by index\<close>

text \<open>The position a signed index names in a list of \<open>n\<close> elements; negative indices count from the end.\<close>

definition list_index :: "nat \<Rightarrow> int \<Rightarrow> nat option" where
  "list_index n i =
     (let j = (if i < 0 then int n + i else i) in if 0 \<le> j \<and> j < int n then Some (nat j) else None)"

definition list_range :: "nat \<Rightarrow> int \<Rightarrow> int \<Rightarrow> (nat \<times> nat) option" where
  "list_range n start stop =
     (let a = max 0 (if start < 0 then int n + start else start);
          b = min (int n - 1) (if stop < 0 then int n + stop else stop)
      in if a \<le> b then Some (nat a, nat b) else None)"

lemma to_i64_id: "- (2 ^ 63) \<le> x \<Longrightarrow> x < 2 ^ 63 \<Longrightarrow> to_i64 x = x"
  by (simp add: to_i64_def)

lemma normalize_index_rep:
  assumes "ql_len s = n" and "n < 2 ^ 32" and "in_i64 i"
  shows "normalize_index s i = list_index n i"
proof -
  have "to_i64 (int n) = int n" "i < 0 \<Longrightarrow> to_i64 (int n + i) = int n + i"
    using assms(2,3) by (auto intro!: to_i64_id simp: in_i64_def)
  then show ?thesis
    using assms(1) by (auto simp: normalize_index_def list_index_def Let_def)
qed

lemma normalize_range_rep:
  assumes "ql_len s = n" and "n < 2 ^ 32" and "in_i64 i" and "in_i64 j"
  shows "normalize_range s i j = list_range n i j"
proof -
  have "to_i64 (int n) = int n" "i < 0 \<Longrightarrow> to_i64 (int n + i) = int n + i"
    "j < 0 \<Longrightarrow> to_i64 (int n + j) = int n + j"
    using assms(2-4) by (auto intro!: to_i64_id simp: in_i64_def)
  then show ?thesis
    using assms(1) by (auto simp: normalize_range_def list_range_def Let_def)
qed

lemma lp_get_mk_node: "lp_ok es \<Longrightarrow> i < length es \<Longrightarrow> lp_get (mk_node es p q) i = Some (es ! i)"
  using lp_get_rep [OF mk_node_rep] by simp

lemma index_forward_shape:
  assumes "ql_shape s (xs @ ys)" and "length (contents xs) \<le> k" and "k < length (contents (xs @ ys))"
  shows "index_forward s k (length (contents xs)) (hd_addr None ys) = Some (Some (contents (xs @ ys) ! k))"
  using assms
proof (induction ys arbitrary: xs)
  case Nil
  then show ?case by simp
next
  case (Cons y ys)
  obtain a es where y: "y = (a, es)" by (cases y)
  have sh: "ql_shape s (xs @ (a, es) # ys)" using Cons.prems(1) y by simp
  note ld = shape_load [OF sh] and ok = shape_ok [OF sh]
  show ?case
  proof (cases "k < length (contents xs) + length es")
    case True
    then have "k - length (contents xs) < length es" using Cons.prems(2) by linarith
    then show ?thesis
      using ld ok y True Cons.prems(2)
      by (subst index_forward.simps) (simp add: lp_get_mk_node nth_append)
  next
    case False
    have "index_forward s k (length (contents (xs @ [(a, es)]))) (hd_addr None ys)
        = Some (Some (contents ((xs @ [(a, es)]) @ ys) ! k))"
      using False Cons.prems(3) sh y by (intro Cons.IH) auto
    then show ?thesis using ld ok y False by (subst index_forward.simps) simp
  qed
qed

lemma index_backward_shape:
  assumes "ql_shape s (xs @ ys)" and "k < length (contents xs)"
  shows "index_backward s k (length (contents xs)) (last_addr None xs) = Some (Some (contents xs ! k))"
  using assms
proof (induction xs arbitrary: ys rule: rev_induct)
  case Nil
  then show ?case by simp
next
  case (snoc x xs)
  obtain a es where x: "x = (a, es)" by (cases x)
  have sh: "ql_shape s (xs @ (a, es) # ys)" using snoc.prems(1) x by simp
  note ld = shape_load [OF sh] and ok = shape_ok [OF sh]
  show ?case
  proof (cases "length (contents xs) \<le> k")
    case True
    then show ?thesis
      using ld ok x snoc.prems(2) by (subst index_backward.simps) (simp add: lp_get_mk_node nth_append)
  next
    case False
    then have "index_backward s k (length (contents xs)) (last_addr None xs) = Some (Some (contents xs ! k))"
      using snoc.IH [of "(a, es) # ys"] sh by simp
    then show ?thesis
      using ld ok x False by (subst index_backward.simps) (simp add: nth_append)
  qed
qed

lemma index_rep:
  assumes "ql_rep s vs" and "in_i64 i"
  shows "index s i = Some (map_option ((!) vs) (list_index (length vs) i))"
proof -
  obtain ns where inv: "ql_inv s ns" and vs: "contents ns = vs" using assms(1) by (auto simp: ql_rep_def)
  then have len: "ql_len s = length vs" "length vs < 2 ^ 32" and sh: "ql_shape s ns"
    by (auto simp: ql_inv_def)
  note n = normalize_index_rep [OF len assms(2)]
  show ?thesis
  proof (cases "list_index (length vs) i")
    case None
    then show ?thesis using n by (simp add: index_def)
  next
    case (Some k)
    then have k: "k < length vs" by (auto simp: list_index_def Let_def split: if_splits)
    have "index_forward s k 0 (ql_head s) = Some (Some (vs ! k))"
      using index_forward_shape [of s "[]" ns k] sh k vs by (simp add: ql_shape_def)
    moreover have "index_backward s k (ql_len s) (ql_tail s) = Some (Some (vs ! k))"
      using index_backward_shape [of s ns "[]" k] sh k vs len by (simp add: ql_shape_def)
    ultimately show ?thesis using n Some by (simp add: index_def)
  qed
qed

lemma set_index_loop_shape:
  assumes inv: "ql_inv s (xs @ ys)" and "length (contents xs) \<le> k" and "k < length (contents (xs @ ys))"
    and e: "lp_entry_ok e"
  shows "\<exists>s'. set_index_loop s k e (length (contents xs)) (hd_addr None ys) = Some (True, s') \<and>
           ql_rep s' ((contents (xs @ ys))[k := e])"
  using assms
proof (induction ys arbitrary: xs)
  case Nil
  then show ?case by simp
next
  case (Cons y ys)
  obtain a es where y: "y = (a, es)" by (cases y)
  have inv: "ql_inv s (xs @ (a, es) # ys)" using Cons.prems(1) y by simp
  then have sh: "ql_shape s (xs @ (a, es) # ys)" and fit: "int (length es) \<le> ql_fill s"
    by (simp_all add: ql_inv_def)
  note ld = shape_load [OF sh] and ok = shape_ok [OF sh]
  show ?case
  proof (cases "k < length (contents xs) + length es")
    case True
    let ?i = "k - length (contents xs)"
    have ok': "lp_ok (es[?i := e])"
      using ok e by (auto simp: lp_ok_def dest: set_update_subset_insert [THEN subsetD])
    obtain s1 s2 where st: "ql_store s a (mk_node (es[?i := e]) (last_addr None xs) (hd_addr None ys)) = Some s1"
        "cleanup_after_mutation (s1\<lparr>ql_len := ql_len s1 - 0\<rparr>) a = Some s2"
        "ql_rep s2 (contents xs @ es[?i := e] @ contents ys)"
      using shrink_node [OF inv ok', of 0] by auto
    have "ql_shape s1 (xs @ (a, es[?i := e]) # ys)" "ql_fill s1 = ql_fill s"
      using shape_store [OF sh ok'] st(1) by auto
    then have "split_if_needed s1 a = Some s1"
      using shape_load [of s1] ok' fit by (simp add: split_if_needed_def)
    moreover have "contents xs @ es[?i := e] @ contents ys = (contents (xs @ y # ys))[k := e]"
      using y True Cons.prems(2) less_diff_conv2 [of "length (contents xs)" k "length es"]
      by (simp add: list_update_append add.commute)
    ultimately show ?thesis
      using ld ok y True st by (subst set_index_loop.simps) (simp add: lp_push_mk_node)
  next
    case False
    have "\<exists>s'. set_index_loop s k e (length (contents (xs @ [(a, es)]))) (hd_addr None ys) = Some (True, s') \<and>
           ql_rep s' ((contents ((xs @ [(a, es)]) @ ys))[k := e])"
      using False Cons.prems(3,4) inv y by (intro Cons.IH) auto
    then show ?thesis using ld ok y False by (subst set_index_loop.simps) simp
  qed
qed

lemma set_index_rep:
  assumes "ql_rep s vs" and "in_i64 i" and "lp_entry_ok e"
  shows "case list_index (length vs) i of
           None \<Rightarrow> set_index s i e = Some (False, s)
         | Some k \<Rightarrow> \<exists>s'. set_index s i e = Some (True, s') \<and> ql_rep s' (vs[k := e])"
proof -
  obtain ns where inv: "ql_inv s ns" and vs: "contents ns = vs" using assms(1) by (auto simp: ql_rep_def)
  then have len: "ql_len s = length vs" "length vs < 2 ^ 32" and hd: "ql_head s = hd_addr None ns"
    by (auto simp: ql_inv_def ql_shape_def)
  note n = normalize_index_rep [OF len assms(2)]
  show ?thesis
  proof (cases "list_index (length vs) i")
    case (Some k)
    then have k: "k < length vs" by (auto simp: list_index_def Let_def split: if_splits)
    have "\<exists>s'. set_index_loop s k e (length (contents [])) (hd_addr None ns) = Some (True, s') \<and>
        ql_rep s' ((contents ([] @ ns))[k := e])"
      using inv k vs assms(3) by (intro set_index_loop_shape) auto
    then show ?thesis using n Some vs hd by (simp add: set_index_def)
  qed (use n in \<open>simp add: set_index_def\<close>)
qed

section \<open>Insertion next to a pivot\<close>

text \<open>Pivots that the byte search of a node handles: short ASCII strings, the empty one included.\<close>

definition pivot_ok :: "bytes \<Rightarrow> bool" where
  "pivot_ok p \<longleftrightarrow> length p \<le> 63 \<and> (\<forall>b \<in> set p. b < 128)"

lemma find_enumerate:
  "map_option fst (find (\<lambda>(i, v). v = x) (enumerate n vs)) = map_option ((+) n) (position (\<lambda>v. v = x) vs)"
proof (induction vs arbitrary: n)
  case (Cons v vs)
  show ?case using Cons.IH [of "Suc n"] by (auto simp: option.map_comp comp_def)
qed simp

lemma found_at_mk_node:
  assumes "memmem_law fi" and "lp_ok es" and "pivot_ok x"
  shows "found_at fi (mk_node es p q) x = Some (position (\<lambda>v. v = x) es)"
proof (cases "x = []")
  case True
  have "map_option ((+) (0 :: nat)) r = r" for r by (cases r) simp_all
  then show ?thesis
    using True assms(2) find_enumerate [of x 0 es] by (simp add: found_at_def lp_find_def)
next
  case False
  then show ?thesis
    using lp_find_correct_aux [OF assms(1) mk_node_rep [OF assms(2)] False] assms(3)
    by (simp add: found_at_def pivot_ok_def)
qed

lemma insert_at_append_left: "i \<le> length xs \<Longrightarrow> insert_at i v (xs @ ys) = insert_at i v xs @ ys"
  and insert_at_append_right: "insert_at (length xs + i) v (xs @ ys) = xs @ insert_at i v ys"
  by (simp_all add: insert_at_def)

lemma insert_loop_shape:
  assumes law: "memmem_law fi" and p: "pivot_ok pivot" and e: "lp_entry_ok e"
    and ins: "ins = (lp_insert_before, 0) \<or> ins = (lp_insert_after, 1)"
    and "ql_inv s (xs @ ys)" and "\<forall>v \<in> set (contents xs). v \<noteq> pivot"
    and bnd: "Suc (length (contents (xs @ ys))) < 2 ^ 32 - 1"
  shows "case position (\<lambda>v. v = pivot) (contents ys) of
           None \<Rightarrow> insert_loop fi (fst ins) s pivot e (hd_addr None ys) = Some (NotFound, s)
         | Some k \<Rightarrow> \<exists>s'. insert_loop fi (fst ins) s pivot e (hd_addr None ys) = Some (Found, s') \<and>
             ql_rep s' (contents xs @ insert_at (k + snd ins) e (contents ys))"
  using assms(5-)
proof (induction ys arbitrary: xs)
  case Nil
  then show ?case by (simp add: insert_loop.simps)
next
  case (Cons y ys)
  obtain a es where y: "y = (a, es)" by (cases y)
  have inv: "ql_inv s (xs @ (a, es) # ys)" using Cons.prems(1) y by simp
  then have sh: "ql_shape s (xs @ (a, es) # ys)" by (simp add: ql_inv_def)
  note ld = shape_load [OF sh] and ok = shape_ok [OF sh]
  note fnd = found_at_mk_node [OF law ok p]
  show ?case
  proof (cases "position (\<lambda>v. v = pivot) es")
    case None
    then have none: "\<forall>v \<in> set es. v \<noteq> pivot" by (simp add: position_None_iff)
    have "insert_loop fi (fst ins) s pivot e (hd_addr None (y # ys))
        = insert_loop fi (fst ins) s pivot e (hd_addr None ys)"
      using ld fnd None y by (subst insert_loop.simps) simp
    moreover have "position (\<lambda>v. v = pivot) (contents (y # ys))
        = map_option ((+) (length es)) (position (\<lambda>v. v = pivot) (contents ys))"
      using none y by (simp add: position_append_None)
    moreover have "insert_at (length es + k) e (contents (y # ys)) = es @ insert_at k e (contents ys)" for k
      using y by (simp add: insert_at_append_right)
    moreover have "case position (\<lambda>v. v = pivot) (contents ys) of
           None \<Rightarrow> insert_loop fi (fst ins) s pivot e (hd_addr None ys) = Some (NotFound, s)
         | Some k \<Rightarrow> \<exists>s'. insert_loop fi (fst ins) s pivot e (hd_addr None ys) = Some (Found, s') \<and>
             ql_rep s' (contents (xs @ [(a, es)]) @ insert_at (k + snd ins) e (contents ys))"
      by (rule Cons.IH) (use inv Cons.prems(2,3) none y in auto)
    ultimately show ?thesis
      by (cases "position (\<lambda>v. v = pivot) (contents ys)") (simp_all add: add.assoc)
  next
    case (Some k)
    have k: "k < length es" using Some by (rule position_less)
    then have k': "k + snd ins \<le> length es" using ins by auto
    have "fst ins (mk_node es p q) k e = mk_node (insert_at (k + snd ins) e es) p q" for p q
      using ins k by (auto simp: lp_push_mk_node [OF ok] min_def)
    moreover have "\<exists>s1 s2. ql_store s a (mk_node (insert_at (k + snd ins) e es) (last_addr None xs) (hd_addr None ys)) = Some s1 \<and>
           split_if_needed (s1\<lparr>ql_len := sat_add64 (ql_len s1) 1\<rparr>) a = Some s2 \<and>
           ql_rep s2 (contents xs @ insert_at (k + snd ins) e es @ contents ys)"
      by (rule grow_node [OF sh _ _ _ _ _ _ e refl]) (use inv Cons.prems(3) y k ins in \<open>auto simp: ql_inv_def\<close>)
    moreover have "position (\<lambda>v. v = pivot) (contents (y # ys)) = Some k"
      using Some y by (simp add: position_append_Some)
    moreover have "insert_at (k + snd ins) e (contents (y # ys)) = insert_at (k + snd ins) e es @ contents ys"
      using y k' by (simp add: insert_at_append_left)
    ultimately show ?thesis
      using ld fnd Some y by (subst insert_loop.simps) (auto simp: insert_at_node_def)
  qed
qed

lemma insert_rep:
  assumes "memmem_law fi" and "pivot_ok pivot" and "lp_entry_ok e" and rep: "ql_rep s vs"
    and "Suc (length vs) < 2 ^ 32 - 1"
    and ins: "ins = (insert_before, lp_insert_before, 0) \<or> ins = (insert_after, lp_insert_after, 1)"
  shows "if vs = [] then fst ins fi s pivot e = Some (KeyMissing, s)
         else case position (\<lambda>v. v = pivot) vs of
           None \<Rightarrow> fst ins fi s pivot e = Some (NotFound, s)
         | Some k \<Rightarrow> \<exists>s'. fst ins fi s pivot e = Some (Found, s') \<and> ql_rep s' (insert_at (k + snd (snd ins)) e vs)"
proof -
  obtain ns where inv: "ql_inv s ns" and vs: "contents ns = vs" using rep by (auto simp: ql_rep_def)
  have hd: "ql_head s = hd_addr None ns" and emp: "vs = [] \<longleftrightarrow> ns = []"
    using inv vs filled_length [of "ql_fill s" ns] by (auto simp: ql_inv_def ql_shape_def)
  have "case position (\<lambda>v. v = pivot) (contents ns) of
           None \<Rightarrow> insert_loop fi (fst (snd ins)) s pivot e (hd_addr None ns) = Some (NotFound, s)
         | Some k \<Rightarrow> \<exists>s'. insert_loop fi (fst (snd ins)) s pivot e (hd_addr None ns) = Some (Found, s') \<and>
             ql_rep s' (contents [] @ insert_at (k + snd (snd ins)) e (contents ns))"
    by (rule insert_loop_shape [OF assms(1-3)]) (use ins inv vs assms(5) in auto)
  then show ?thesis
    using hd emp vs ins
    by (cases ns) (auto simp: insert_before_def insert_after_def hd_addr_def split: option.splits)
qed

section \<open>Clearing, iterating, ranges, copies\<close>

lemma clear_loop_seg:
  assumes "ql_heap s = seg p ys None" and "distinct (map fst ys)"
  shows "clear_loop s (hd_addr None ys) = Some (s\<lparr>ql_heap := Map.empty\<rparr>)"
  using assms
proof (induction ys arbitrary: s p)
  case Nil
  then show ?case by (simp add: clear_loop.simps)
next
  case (Cons y ys)
  obtain a es where y: "y = (a, es)" by (cases y)
  have "a \<notin> dom (seg (Some a) ys None)" using Cons.prems(2) y by simp
  then have "seg (Some a) ys None a = None" by (simp only: domIff not_not)
  then have "(ql_heap s)(a := None) = seg (Some a) ys None"
    unfolding Cons.prems(1) y seg.simps fun_upd_upd by (rule fun_upd_idem)
  then have "clear_loop (s\<lparr>ql_heap := (ql_heap s)(a := None)\<rparr>) (hd_addr None ys)
      = Some (s\<lparr>ql_heap := Map.empty\<rparr>)"
    using Cons.IH [of "s\<lparr>ql_heap := (ql_heap s)(a := None)\<rparr>" "Some a"] Cons.prems(2) y by simp
  then show ?case
    using Cons.prems(1) y by (subst clear_loop.simps) (simp add: ql_load_def ql_free_def)
qed

lemma clear_rep: "ql_rep s vs \<Longrightarrow> \<exists>s'. clear s = Some s' \<and> ql_rep s' []"
proof -
  assume "ql_rep s vs"
  then obtain ns where inv: "ql_inv s ns" by (auto simp: ql_rep_def)
  then have c: "clear_loop s (ql_head s) = Some (s\<lparr>ql_heap := Map.empty\<rparr>)"
    using clear_loop_seg [of s None ns] by (simp add: ql_inv_def ql_shape_def)
  have "ql_inv (s\<lparr>ql_heap := Map.empty, ql_head := None, ql_tail := None, ql_node_count := 0, ql_len := 0\<rparr>) []"
    using inv by (simp add: ql_inv_def ql_shape_def)
  then show ?thesis using c by (auto simp: clear_def ql_rep_def)
qed

lemma iter_nodes_shape:
  "ql_shape s (xs @ ys) \<Longrightarrow> iter_nodes s (hd_addr None ys) = Some (contents ys)"
proof (induction ys arbitrary: xs)
  case Nil
  then show ?case by (simp add: iter_nodes.simps)
next
  case (Cons y ys)
  obtain a es where y: "y = (a, es)" by (cases y)
  then have sh: "ql_shape s (xs @ (a, es) # ys)" using Cons.prems by simp
  have "iter_nodes s (hd_addr None ys) = Some (contents ys)"
    using Cons.IH [of "xs @ [(a, es)]"] sh by simp
  then show ?case
    using shape_load [OF sh] mk_node_read(1) [OF shape_ok [OF sh]] y
    by (subst iter_nodes.simps) (simp add: decode_all_entries_def)
qed

lemma iter_rep: "ql_rep s vs \<Longrightarrow> iter s = Some vs"
  using iter_nodes_shape [of s "[]"] by (auto simp: ql_rep_def ql_inv_def ql_shape_def iter_def)

lemma ql_rep_ok:
  assumes "ql_rep s vs"
  shows "length vs < 2 ^ 32 - 1" and "\<forall>v \<in> set vs. lp_entry_ok v" and "ql_len s = length vs"
  using assms by (auto simp: ql_rep_def ql_inv_def ql_shape_def contents_def lp_ok_def)

lemma index_nat:
  assumes "ql_rep s vs" and "i < length vs"
  shows "index s (to_i64 (int i)) = Some (Some (vs ! i))"
proof -
  have i: "to_i64 (int i) = int i" "in_i64 (int i)"
    using ql_rep_ok(1) [OF assms(1)] assms(2) by (auto intro!: to_i64_id simp: in_i64_def)
  then show ?thesis using index_rep [OF assms(1) i(2)] assms(2) by (simp add: list_index_def)
qed

lemma range_loop_rep:
  assumes "ql_rep s vs" and "b < length vs" and "a \<le> Suc b"
  shows "range_loop s a b = Some (take (Suc b - a) (drop a vs))"
  using assms(3)
proof (induction "Suc b - a" arbitrary: a)
  case 0
  then show ?case by (simp add: range_loop.simps)
next
  case (Suc n)
  then have a: "a \<le> b" by simp
  have "sat_add64 a 1 = Suc a" using ql_rep_ok(1) [OF assms(1)] assms(2) a by (simp add: sat_add64_def)
  moreover have "range_loop s (Suc a) b = Some (take (Suc b - Suc a) (drop (Suc a) vs))"
    using Suc.hyps(1) [of "Suc a"] Suc.hyps(2) a by simp
  moreover have "take (Suc b - a) (drop a vs) = vs ! a # take (Suc b - Suc a) (drop (Suc a) vs)"
    using a assms(2) by (simp add: Cons_nth_drop_Suc [symmetric] Suc_diff_le)
  ultimately show ?case
    using a assms(2) index_nat [OF assms(1), of a] by (subst range_loop.simps) simp
qed

definition list_slice :: "'a list \<Rightarrow> (nat \<times> nat) option \<Rightarrow> 'a list" where
  "list_slice vs r = (case r of None \<Rightarrow> [] | Some (a, b) \<Rightarrow> take (Suc b - a) (drop a vs))"

lemma list_range_bounds: "list_range n i j = Some (a, b) \<Longrightarrow> a \<le> b \<and> b < n"
  by (auto simp: list_range_def Let_def split: if_splits)

lemma ql_range_rep:
  assumes "ql_rep s vs" and "in_i64 i" and "in_i64 j"
  shows "ql_range s i j = Some (list_slice vs (list_range (length vs) i j))"
proof -
  have "normalize_range s i j = list_range (length vs) i j"
    using normalize_range_rep [OF ql_rep_ok(3) [OF assms(1)] _ assms(2,3)] ql_rep_ok(1) [OF assms(1)] by simp
  moreover have "range_loop s 1 0 = Some []" by (simp add: range_loop.simps)
  ultimately show ?thesis
    using range_loop_rep [OF assms(1)] list_range_bounds [of "length vs" i j]
    by (auto simp: ql_range_def list_slice_def split: option.splits)
qed

lemma push_all_rep:
  assumes "ql_rep s vs" and "\<forall>v \<in> set ws. lp_entry_ok v" and "length vs + length ws < 2 ^ 32 - 1"
  shows "\<exists>s'. push_all s ws = Some s' \<and> ql_rep s' (vs @ ws)"
  using assms
proof (induction ws arbitrary: s vs)
  case (Cons w ws)
  obtain s1 where "push_back s w = Some s1" "ql_rep s1 (vs @ [w])"
    using push_back_rep [OF Cons.prems(1), of w] Cons.prems(2,3) by auto
  then show ?case using Cons.IH [of s1 "vs @ [w]"] Cons.prems(2,3) by simp
qed simp

lemma kept_values_rep:
  assumes "ql_rep s vs" and "\<forall>i \<in> set is. i < length vs"
  shows "kept_values s is = Some (map ((!) vs) is)"
  using assms(2) index_nat [OF assms(1)] by (induction "is") simp_all

lemma take_drop_nth: "a \<le> b \<Longrightarrow> b < length vs \<Longrightarrow> map ((!) vs) [a..<Suc b] = take (Suc b - a) (drop a vs)"
  by (rule nth_equalityI) (simp_all del: upt_Suc)

lemma trim_rep:
  assumes "ql_rep s vs" and "in_i64 i" and "in_i64 j"
  shows "\<exists>s'. trim s i j = Some s' \<and> ql_rep s' (list_slice vs (list_range (length vs) i j))"
proof -
  have n: "normalize_range s i j = list_range (length vs) i j"
    using normalize_range_rep [OF ql_rep_ok(3) [OF assms(1)] _ assms(2,3)] ql_rep_ok(1) [OF assms(1)] by simp
  obtain s0 where s0: "clear s = Some s0" "ql_rep s0 []" using clear_rep [OF assms(1)] by blast
  show ?thesis
  proof (cases "list_range (length vs) i j")
    case None
    then show ?thesis using n s0 by (simp add: trim_def list_slice_def)
  next
    case (Some r)
    obtain a b where r: "r = (a, b)" by (cases r)
    then have ab: "a \<le> b" "b < length vs" using Some list_range_bounds by auto
    let ?kept = "take (Suc b - a) (drop a vs)"
    have "kept_values s [a..<Suc b] = Some ?kept"
      using kept_values_rep [OF assms(1), of "[a..<Suc b]"] ab take_drop_nth [OF ab] by (simp del: upt_Suc)
    moreover have "\<exists>s'. push_all s0 ?kept = Some s' \<and> ql_rep s' ([] @ ?kept)"
    proof (rule push_all_rep [OF s0(2)])
      show "\<forall>v \<in> set ?kept. lp_entry_ok v"
        using ql_rep_ok(2) [OF assms(1)] by (auto dest: in_set_takeD in_set_dropD)
      show "length [] + length ?kept < 2 ^ 32 - 1" using ql_rep_ok(1) [OF assms(1)] ab by simp
    qed
    ultimately show ?thesis using n Some r s0(1) by (auto simp: trim_def list_slice_def simp del: upt_Suc)
  qed
qed

lemma clone_rep:
  assumes "ql_rep s vs"
  shows "\<exists>s'. clone s = Some s' \<and> ql_rep s' vs"
proof -
  have f: "ql_fill s \<le> 2 ^ 16 - 2" using assms by (auto simp: ql_rep_def ql_inv_def)
  show ?thesis
    using push_all_rep [OF ql_rep_new [OF f], of vs] ql_rep_ok(1,2) [OF assms] iter_rep [OF assms]
    by (simp add: clone_def)
qed

section \<open>Positions\<close>

text \<open>What \<open>pos\<close> reports: the matching indices in scan order, from the rank-th match on, at most
  \<open>count\<close> of them unless it is zero.\<close>

definition list_pos :: "bytes list \<Rightarrow> bytes \<Rightarrow> int \<Rightarrow> nat \<Rightarrow> nat \<Rightarrow> int list" where
  "list_pos vs element rank count maxlen =
     (if rank = 0 then []
      else let n = length vs;
               limit = (if maxlen = 0 then n else min maxlen n);
               scan = (if 0 < rank then [0..<limit] else map (\<lambda>k. n - 1 - k) [0..<limit]);
               hits = drop (nat \<bar>rank\<bar> - 1) (filter (\<lambda>i. vs ! i = element) scan)
           in map int (if count = 0 then hits else take count hits))"

lemma pos_loop_spec:
  assumes "1 \<le> target" and "count = 0 \<or> length out < count"
  shows "pos_loop element target count ivs seen out
     = out @ map int (let hits = drop (target - 1 - seen) (map fst (filter (\<lambda>iv. snd iv = element) ivs))
                      in if count = 0 then hits else take (count - length out) hits)"
  using assms(2)
proof (induction ivs arbitrary: seen out)
  case Nil
  then show ?case by (simp add: Let_def)
next
  case (Cons iv ivs)
  obtain i v where iv: "iv = (i, v)" by (cases iv)
  consider "v \<noteq> element" | "v = element" "seen + 1 < target" | "v = element" "target \<le> seen + 1"
    by linarith
  then show ?case
  proof cases
    case 1
    then show ?thesis using Cons iv by simp
  next
    case 2
    then have "target - 1 - seen = Suc (target - 1 - (seen + 1))" by simp
    then show ?thesis using 2 Cons.IH [OF Cons.prems, of "seen + 1"] iv by simp
  next
    case 3
    then have z: "target - 1 - seen = 0" "target - 1 - (seen + 1) = 0" by simp_all
    show ?thesis
    proof (cases "count \<noteq> 0 \<and> count \<le> length (out @ [int i])")
      case True
      then have "count - length out = 1" using Cons.prems by auto
      then show ?thesis using 3 z True iv by (simp add: Let_def)
    next
      case False
      then have "count = 0 \<or> count - length out = Suc (count - length (out @ [int i]))" by auto
      then show ?thesis
        using 3 z False iv Cons.IH [of "out @ [int i]" "seen + 1"] by (auto simp: Let_def)
    qed
  qed
qed

lemma indexed_back_rep:
  assumes "ql_rep s vs" and "\<forall>k \<in> set ks. k < length vs"
  shows "indexed_back s ks = Some (map (\<lambda>k. (length vs - 1 - k, vs ! (length vs - 1 - k))) ks)"
  using assms(2)
proof (induction ks)
  case (Cons k ks)
  then have "index s (to_i64 (int (length vs - 1 - k))) = Some (Some (vs ! (length vs - 1 - k)))"
    by (intro index_nat [OF assms(1)]) auto
  then show ?case using Cons ql_rep_ok(3) [OF assms(1)] by (simp add: Let_def)
qed simp

lemma enumerate_take: "n \<le> length vs \<Longrightarrow> enumerate 0 (take n vs) = map (\<lambda>i. (i, vs ! i)) [0..<n]"
  by (rule nth_equalityI) (auto simp: nth_enumerate_eq)

lemma filter_map_fst: "map fst (filter (\<lambda>iv. snd iv = x) (map (\<lambda>k. (f k, vs ! f k)) ks))
    = filter (\<lambda>i. vs ! i = x) (map f ks)"
  by (induction ks) auto

lemma pos_rep:
  assumes "ql_rep s vs"
  shows "pos s element rank count maxlen = Some (list_pos vs element rank count maxlen)"
proof (cases "rank = 0 \<or> vs = []")
  case True
  have "list_pos [] element rank count maxlen = []" "list_pos vs element 0 count maxlen = []"
    by (simp_all add: list_pos_def Let_def)
  then show ?thesis using True ql_rep_ok(3) [OF assms] by (auto simp: pos_def)
next
  case False
  define limit where "limit = (if maxlen = 0 then length vs else min maxlen (length vs))"
  define scan where "scan = (if 0 < rank then [0..<limit] else map (\<lambda>k. length vs - 1 - k) [0..<limit])"
  have l: "limit \<le> length vs" by (simp add: limit_def)
  have t: "1 \<le> nat \<bar>rank\<bar>" using False by linarith
  have bk: "indexed_back s [0..<limit] = Some (map (\<lambda>k. (length vs - 1 - k, vs ! (length vs - 1 - k))) [0..<limit])"
    by (rule indexed_back_rep [OF assms]) (use l in auto)
  have "pos s element rank count maxlen
      = Some (pos_loop element (nat \<bar>rank\<bar>) count (map (\<lambda>i. (i, vs ! i)) scan) 0 [])"
    unfolding pos_def ql_rep_ok(3) [OF assms] Let_def limit_def [symmetric] bk iter_rep [OF assms]
      Option.bind.simps enumerate_take [OF l]
    using False by (simp add: scan_def comp_def)
  also have "\<dots> = Some (list_pos vs element rank count maxlen)"
    unfolding list_pos_def Let_def limit_def [symmetric] scan_def [symmetric]
    using False pos_loop_spec [OF t, of count "[]" element "map (\<lambda>i. (i, vs ! i)) scan" 0]
      filter_map_fst [of element "\<lambda>i. i" vs scan]
    by (cases count) (simp_all add: Let_def)
  finally show ?thesis .
qed

section \<open>Removal\<close>

text \<open>The first \<open>k\<close> occurrences of an element taken out of a list.\<close>

fun remove_upto :: "int \<Rightarrow> bytes \<Rightarrow> bytes list \<Rightarrow> bytes list" where
  "remove_upto k x [] = []"
| "remove_upto k x (v # vs) =
     (if 0 < k \<and> v = x then remove_upto (k - 1) x vs else v # remove_upto k x vs)"

definition list_remove :: "int \<Rightarrow> bytes \<Rightarrow> bytes list \<Rightarrow> bytes list" where
  "list_remove count x vs =
     (if count = 0 then filter (\<lambda>v. v \<noteq> x) vs
      else if 0 < count then remove_upto count x vs
      else rev (remove_upto (- count) x (rev vs)))"

lemma remove_upto_none: "k \<le> 0 \<Longrightarrow> remove_upto k x vs = vs"
  by (induction vs) auto

lemma remove_upto_all: "int (length vs) \<le> k \<Longrightarrow> remove_upto k x vs = filter (\<lambda>v. v \<noteq> x) vs"
  by (induction k x vs rule: remove_upto.induct) auto

lemma remove_upto_length: "length (remove_upto k x vs) \<le> length vs"
  by (induction k x vs rule: remove_upto.induct) auto

lemma remove_upto_subset: "set (remove_upto k x vs) \<subseteq> set vs"
  by (induction k x vs rule: remove_upto.induct) auto

lemma remove_forward_spec:
  "i \<le> length entries \<Longrightarrow>
     fst (remove_forward entries x i r k) = take i entries @ remove_upto k x (drop i entries) \<and>
     fst (snd (remove_forward entries x i r k))
       = r + (length entries - i - length (remove_upto k x (drop i entries)))"
proof (induction entries x i r k rule: remove_forward.induct)
  case (1 entries x i r k)
  show ?case
  proof (cases "i < length entries \<and> 0 < k")
    case False
    then show ?thesis
      using 1(3) by (subst (1 2) remove_forward.simps) (auto simp: remove_upto_none)
  next
    case True
    then have d: "drop i entries = entries ! i # drop (Suc i) entries" by (simp add: Cons_nth_drop_Suc)
    show ?thesis
    proof (cases "entries ! i = x")
      case eq: True
      have "take i (remove_at i entries) = take i entries" "drop i (remove_at i entries) = drop (Suc i) entries"
        using True by (simp_all add: remove_at_def)
      moreover have "remove_upto k x (drop i entries) = remove_upto (k - 1) x (drop (Suc i) entries)"
        using d eq True by simp
      moreover have "length (remove_upto (k - 1) x (drop (Suc i) entries)) \<le> length entries - Suc i"
        using remove_upto_length [of "k - 1" x "drop (Suc i) entries"] by simp
      ultimately show ?thesis
        using 1(1) [OF True eq] True eq by (subst (1 2) remove_forward.simps) auto
    next
      case neq: False
      have "remove_upto k x (drop i entries) = entries ! i # remove_upto k x (drop (Suc i) entries)"
        using d neq by simp
      moreover have "take (Suc i) entries = take i entries @ [entries ! i]"
        using True by (simp add: take_Suc_conv_app_nth)
      ultimately show ?thesis
        using 1(2) [OF True neq] True neq by (subst (1 2) remove_forward.simps) auto
    qed
  qed
qed

lemma remove_backward_spec:
  "i \<le> length entries \<Longrightarrow>
     fst (remove_backward entries x i r k) = rev (remove_upto k x (rev (take i entries))) @ drop i entries \<and>
     fst (snd (remove_backward entries x i r k)) = r + (i - length (remove_upto k x (rev (take i entries))))"
proof (induction entries x i r k rule: remove_backward.induct)
  case (2 entries x i r k)
  then have t: "rev (take (Suc i) entries) = entries ! i # rev (take i entries)"
    by (simp add: take_Suc_conv_app_nth)
  have l: "length (remove_upto j x (rev (take i entries))) \<le> i" for j
    using remove_upto_length [of j x "rev (take i entries)"] 2(3) by simp
  consider "\<not> 0 < k" | "0 < k" "entries ! i = x" | "0 < k" "entries ! i \<noteq> x" by blast
  then show ?case
  proof cases
    case 1
    then show ?thesis using 2(3) by (simp add: remove_upto_none)
  next
    case 2
    have "take i (remove_at i entries) = take i entries" "drop i (remove_at i entries) = drop (Suc i) entries"
      using \<open>Suc i \<le> length entries\<close> by (simp_all add: remove_at_def)
    then show ?thesis
      using "2.IH"(1) [OF 2] \<open>Suc i \<le> length entries\<close> t l [of "k - 1"] 2 by (auto simp: Suc_diff_le)
  next
    case 3
    have "drop i entries = entries ! i # drop (Suc i) entries"
      using \<open>Suc i \<le> length entries\<close> by (simp add: Cons_nth_drop_Suc)
    then show ?thesis
      using "2.IH"(2) [OF 3] \<open>Suc i \<le> length entries\<close> t l [of k] 3 by (auto simp: Suc_diff_le)
  qed
qed (simp add: remove_upto_none)

lemma remove_budget:
  "int (fst (snd (remove_forward entries x i r k))) + snd (snd (remove_forward entries x i r k)) = int r + k"
  "int (fst (snd (remove_backward entries x j r k))) + snd (snd (remove_backward entries x j r k)) = int r + k"
proof (induction entries x i r k rule: remove_forward.induct)
  case (1 entries x i r k)
  {
    case 1
    then show ?case using "1.IH" by (subst (1 2) remove_forward.simps) auto
  next
    case 2
    show ?case by (induction entries x j r k rule: remove_backward.induct) auto
  }
qed

lemma remove_upto_same: "length (remove_upto k x vs) = length vs \<Longrightarrow> remove_upto k x vs = vs"
proof (induction k x vs rule: remove_upto.induct)
  case (2 k x v vs)
  then show ?case using remove_upto_length [of "k - 1" x vs] by (auto split: if_splits)
qed simp

text \<open>One scan direction on one node's entries.\<close>

definition scan_remove :: "bool \<Rightarrow> int \<Rightarrow> bytes \<Rightarrow> bytes list \<Rightarrow> bytes list" where
  "scan_remove forward k x es = (if forward then remove_upto k x es else rev (remove_upto k x (rev es)))"

lemma scan_remove_facts:
  "length (scan_remove forward k x es) \<le> length es" "set (scan_remove forward k x es) \<subseteq> set es"
  "length (scan_remove forward k x es) = length es \<Longrightarrow> scan_remove forward k x es = es"
  using remove_upto_length [of k x es] remove_upto_length [of k x "rev es"] remove_upto_subset [of k x es]
    remove_upto_subset [of k x "rev es"] remove_upto_same [of k x es] remove_upto_same [of k x "rev es"]
  by (auto simp: scan_remove_def)

lemma remove_in_node_shape:
  fixes forward :: bool and k :: int and x :: bytes
  assumes sh: "ql_shape s (xs @ (a, es) # ys)" and n: "n = mk_node es (last_addr None xs) (hd_addr None ys)"
  defines "es' \<equiv> scan_remove forward k x es"
  defines "d \<equiv> length es - length es'"
  shows "\<exists>s'. remove_in_node forward s a n x k = Some (d, k - int d, s') \<and>
           ql_shape s' (xs @ (a, es') # ys) \<and> ql_len s' = ql_len s - d \<and> ql_fill s' = ql_fill s"
proof -
  note ok = shape_ok [OF sh]
  let ?r = "if forward then remove_forward es x 0 0 k else remove_backward es x (length es) 0 k"
  have r: "?r = (es', d, k - int d)"
    using remove_forward_spec [of 0 es x 0 k] remove_backward_spec [of "length es" es x 0 k]
      remove_budget(1) [of es x 0 0 k] remove_budget(2) [of es x "length es" 0 k]
    by (auto simp: es'_def d_def scan_remove_def prod_eq_iff)
  have ok': "lp_ok es'"
    using lp_ok_mono [OF ok scan_remove_facts(2,1)] by (simp add: es'_def)
  obtain s1 where s1: "ql_store s a (mk_node es' (last_addr None xs) (hd_addr None ys)) = Some s1"
      "ql_shape s1 (xs @ (a, es') # ys)" "ql_len s1 = ql_len s" "ql_fill s1 = ql_fill s"
    using shape_store [OF sh ok'] by blast
  show ?thesis
  proof (cases "0 < d")
    case True
    have "ql_shape (s1\<lparr>ql_len := ql_len s1 - d\<rparr>) (xs @ (a, es') # ys)" using s1(2) by (simp add: ql_shape_def)
    then show ?thesis
      using True s1 ok by (simp add: remove_in_node_def n r)
  next
    case False
    then have "es' = es" using scan_remove_facts(1,3) [of forward k x es] by (simp add: es'_def d_def)
    then show ?thesis using False sh ok by (simp add: remove_in_node_def n r)
  qed
qed

lemma list_remove_scan:
  assumes "count \<noteq> i64_min" and "in_i64 count" and "int (length vs) \<le> i64_max"
  shows "scan_remove (0 \<le> count) (if count = 0 then i64_max else to_i64 \<bar>count\<bar>) x vs = list_remove count x vs"
    and "0 < (if count = 0 then i64_max else to_i64 \<bar>count\<bar>)"
proof -
  have "to_i64 \<bar>count\<bar> = \<bar>count\<bar>" using assms(1,2) by (intro to_i64_id) (auto simp: in_i64_def)
  then show "scan_remove (0 \<le> count) (if count = 0 then i64_max else to_i64 \<bar>count\<bar>) x vs = list_remove count x vs"
    using remove_upto_all [OF assms(3)] by (auto simp: scan_remove_def list_remove_def)
  show "0 < (if count = 0 then i64_max else to_i64 \<bar>count\<bar>)"
    using \<open>to_i64 \<bar>count\<bar> = \<bar>count\<bar>\<close> by simp
qed

lemma remove_single_rep:
  assumes rep: "ql_rep s vs" and one: "ql_node_count s \<le> 1" and c: "in_i64 count" "count \<noteq> i64_min"
  shows "\<exists>s'. remove s count x = Some (length vs - length (list_remove count x vs), s') \<and>
           ql_rep s' (list_remove count x vs)"
proof -
  obtain ns where inv: "ql_inv s ns" and vs: "contents ns = vs" using rep by (auto simp: ql_rep_def)
  then have sh: "ql_shape s ns" and len: "length ns \<le> 1" using one by (auto simp: ql_inv_def ql_shape_def)
  show ?thesis
  proof (cases ns)
    case Nil
    then have "ql_head s = None" "vs = []" using sh vs by (simp_all add: ql_shape_def)
    moreover have "list_remove count x [] = []" by (simp add: list_remove_def)
    ultimately show ?thesis using rep by (simp add: remove_def)
  next
    case (Cons n ns')
    then obtain a where ns: "ns = [] @ (a, vs) # []" using len vs by (cases n) auto
    define k where "k = (if count = 0 then i64_max else to_i64 \<bar>count\<bar>)"
    have vl: "int (length vs) \<le> i64_max" using inv vs by (simp add: ql_inv_def)
    note sc = list_remove_scan(1) [OF c(2,1) vl, of x, folded k_def]
      list_remove_scan(2) [OF c(2,1) vl, folded k_def]
    define vs' where "vs' = list_remove count x vs"
    define d where "d = length vs - length vs'"
    have le: "length vs' \<le> length vs" "d = 0 \<longrightarrow> vs' = vs"
      using scan_remove_facts(1,3) [of "0 \<le> count" k x vs] sc(1) by (auto simp: vs'_def d_def)
    have sh1: "ql_shape s ([] @ (a, vs) # [])" using sh ns by simp
    obtain s1 where s1: "remove_in_node (0 \<le> count) s a (mk_node vs None None) x k = Some (d, k - int d, s1)"
        "ql_shape s1 ([] @ (a, vs') # [])" "ql_len s1 = ql_len s - d" "ql_fill s1 = ql_fill s"
      using remove_in_node_shape [OF sh1 refl, of "0 \<le> count" x k] sc(1) by (auto simp: vs'_def d_def)
    have ends: "ql_head s = Some a" "ql_tail s = Some a" using sh ns by (simp_all add: ql_shape_def)
    have loop: "remove_loop (0 \<le> count) s x k 0 (Some a) = Some (d, s1)"
      using sc(2) s1(1) shape_load [OF sh1] by (subst remove_loop.simps) (simp add: remove_loop.simps)
    obtain s2 zs where s2: "cleanup_after_mutation s1 a = Some s2" "ql_shape s2 zs" "ql_len s2 = ql_len s1"
        "ql_fill s2 = ql_fill s1" "filled (ql_fill s1) zs" "contents zs = contents ([] @ (a, vs') # [])"
      using cleanup_filled [OF s1(2)] inv ns s1(4) le(1) by (auto simp: ql_inv_def)
    have "ql_inv s2 zs" using s2 s1 inv vs le(1) ns by (auto simp: ql_inv_def d_def)
    then have rep2: "ql_rep s2 vs'" using s2(6) by (auto simp: ql_rep_def)
    have "compress_empty_and_merge s1 = Some s2"
      using s1(2) s2(1) shape_load [OF s1(2)]
      by (simp add: compress_empty_and_merge_def ql_shape_def compress_loop.simps)
    moreover have "0 < d \<or> s1 = s"
      using s1(1) by (auto simp: remove_in_node_def Let_def bind_eq_Some_conv split: if_splits prod.splits)
    ultimately show ?thesis
      using loop ends rep2 le(2) rep
      by (cases "0 < d") (auto simp: remove_def Let_def k_def [symmetric] vs'_def [symmetric] d_def [symmetric])
  qed
qed

text \<open>
  Two nodes that shrink to a size at which they merge: the merge frees the second node, and the loop
  of \<open>compress_empty_and_merge\<close> then follows the pointer to it that it saved before the merge.
\<close>

lemma remove_two_nodes:
  assumes inv: "ql_inv s [(a, es), (b, fs)]" and hit: "x \<in> set es"
    and rest: "filter (\<lambda>v. v \<noteq> x) es \<noteq> []"
    and small: "int (length (filter (\<lambda>v. v \<noteq> x) (es @ fs))) \<le> ql_fill s div 2"
  shows "remove s 0 x = None"
proof -
  let ?es = "filter (\<lambda>v. v \<noteq> x) es" and ?fs = "filter (\<lambda>v. v \<noteq> x) fs"
  define d where "d = length es - length ?es"
  have lens: "int (length es) \<le> i64_max" "int (length fs) \<le> i64_max - int d" "length ?es \<le> length es"
    using inv by (auto simp: ql_inv_def d_def intro: le_trans)
  have "length ?es < length es" using hit by (intro length_filter_less) auto
  then have d: "0 < d" by (simp add: d_def)
  have scan: "scan_remove True i64_max x es = ?es" "scan_remove True (i64_max - int d) x fs = ?fs"
    using remove_upto_all [OF lens(1)] remove_upto_all [OF lens(2)] by (simp_all add: scan_remove_def)
  have sh: "ql_shape s ([] @ (a, es) # [(b, fs)])" using inv by (simp add: ql_inv_def)
  obtain s1 where s1: "remove_in_node True s a (mk_node es None (Some b)) x i64_max = Some (d, i64_max - int d, s1)"
      "ql_shape s1 ([(a, ?es)] @ (b, fs) # [])" "ql_fill s1 = ql_fill s"
    using remove_in_node_shape [OF sh refl, of True x i64_max] scan(1) by (auto simp: d_def)
  obtain s2 d2 where s2: "remove_in_node True s1 b (mk_node fs (Some a) None) x (i64_max - int d)
        = Some (d2, i64_max - int d - int d2, s2)"
      "ql_shape s2 ([] @ (a, ?es) # [(b, ?fs)])" "ql_fill s2 = ql_fill s1"
    using remove_in_node_shape [OF s1(2) refl, of True x "i64_max - int d"] scan(2) by auto
  have pos: "0 < i64_max - int d" using inv by (auto simp: ql_inv_def d_def)
  have loop: "remove_loop True s x i64_max 0 (ql_head s) = Some (d + d2, s2)"
    using s1(1) s2(1) shape_load [OF sh] shape_load [OF s1(2)] pos sh
    by (simp add: remove_loop.simps ql_shape_def)
  obtain s3 where s3: "try_merge_with_next s2 a = Some s3" "ql_shape s3 ([] @ (a, ?es @ ?fs) # [])"
    using merge_shape [OF s2(2)] small s1(3) s2(3) inv by (auto simp: ql_inv_def)
  have "cleanup_after_mutation s2 a = Some s3"
    using shape_load [OF s2(2)] shape_ok [OF s2(2)] shape_load [OF s3(2)] s3(1) rest
    by (simp add: cleanup_after_mutation_def)
  moreover have "b \<noteq> a" using ql_shapeD(2) [OF sh] by simp
  then have "ql_load s3 b = None" using ql_shapeD(1) [OF s3(2)] by (simp add: ql_load_def)
  ultimately have "compress_empty_and_merge s2 = None"
    using shape_load [OF s2(2)] s2(2)
    by (simp add: compress_empty_and_merge_def ql_shape_def compress_loop.simps [of s2] compress_loop.simps [of s3])
  moreover have "ql_head s \<noteq> None" using sh by (simp add: ql_shape_def)
  ultimately show ?thesis using loop d by (simp add: remove_def)
qed

text \<open>Pushing to the back of a one-node list, with the nodes it leaves.\<close>

lemma push_back_one_node:
  assumes inv: "ql_inv s [(a, es)]" and e: "lp_entry_ok e" and bnd: "Suc (length es) < 2 ^ 32 - 1"
  shows "\<exists>s'. push_back s e = Some s' \<and> ql_fill s' = ql_fill s \<and>
           ql_inv s' (if int (length es) < ql_fill s then [(a, es @ [e])]
                      else [(a, take (Suc (length es) div 2) (es @ [e])),
                            (ql_fresh s, drop (Suc (length es) div 2) (es @ [e]))])"
proof -
  have sh: "ql_shape s ([] @ (a, es) # [])" and f: "int (length es) \<le> ql_fill s" "ql_fill s \<le> 2 ^ 16 - 2"
    and len: "ql_len s = length es"
    using inv by (auto simp: ql_inv_def)
  have ok: "lp_ok (es @ [e])" using lp_ok_grow [OF shape_ok [OF sh] f e] by auto
  obtain s1 where s1: "ql_store s a (mk_node (es @ [e]) (last_addr None []) (hd_addr None [])) = Some s1"
      "ql_shape s1 ([] @ (a, es @ [e]) # [])" "ql_len s1 = ql_len s" "ql_fill s1 = ql_fill s"
    using shape_store [OF sh ok] by blast
  let ?s1 = "s1\<lparr>ql_len := sat_add64 (ql_len s1) 1\<rparr>"
  have sh1: "ql_shape ?s1 ([] @ (a, es @ [e]) # [])" using s1(2) by (simp add: ql_shape_def)
  have fr: "ql_fresh s1 = ql_fresh s" using s1(1) by (auto simp: ql_store_def split: option.splits)
  obtain s2 zs where s2: "split_if_needed ?s1 a = Some s2" "ql_shape s2 ([] @ zs @ [])"
      "ql_len s2 = ql_len ?s1" "ql_fill s2 = ql_fill ?s1"
    and zs: "zs = (if int (length (es @ [e])) \<le> ql_fill ?s1 then [(a, es @ [e])]
                 else [(a, take (length (es @ [e]) div 2) (es @ [e])),
                       (ql_fresh ?s1, drop (length (es @ [e]) div 2) (es @ [e]))])"
    using split_shape [OF sh1] by auto
  have "push_back s e = Some s2"
    using shape_load [OF sh] shape_ok [OF sh] s1(1) s2(1) sh
    by (simp add: push_back_def lp_push_mk_node ql_shape_def)
  moreover have "ql_inv s2 zs"
    using s2 zs s1(3,4) inv len bnd f(1)
    by (auto simp: ql_inv_def sat_add64_def)
  ultimately show ?thesis using zs s1(4) s2(4) fr by (auto simp: not_le)
qed

lemma push_all_one_node:
  assumes "ql_inv s [(a, es)]" and "\<forall>v \<in> set ws. lp_entry_ok v"
    and "int (length es + length ws) \<le> ql_fill s"
  shows "\<exists>s'. push_all s ws = Some s' \<and> ql_fill s' = ql_fill s \<and> ql_inv s' [(a, es @ ws)]"
  using assms
proof (induction ws arbitrary: s es)
  case (Cons w ws)
  have bnd: "Suc (length es) < 2 ^ 32 - 1" using Cons.prems(1,3) by (auto simp: ql_inv_def)
  have w: "lp_entry_ok w" and ws: "\<forall>v \<in> set ws. lp_entry_ok v" and lt: "int (length es) < ql_fill s"
    using Cons.prems(2,3) by auto
  obtain s1 where s1: "push_back s w = Some s1" "ql_fill s1 = ql_fill s" "ql_inv s1 [(a, es @ [w])]"
    using push_back_one_node [OF Cons.prems(1) w bnd] lt by auto
  have "int (length (es @ [w]) + length ws) \<le> ql_fill s1" using Cons.prems(3) s1(2) by simp
  with Cons.IH [OF s1(3) ws] s1 show ?case by auto
qed simp

lemma push_first_node:
  assumes "fill \<le> 2 ^ 16 - 2" and "lp_entry_ok v"
  shows "\<exists>s' a. push_back (quicklist_new fill) v = Some s' \<and> ql_fill s' = max fill 1 \<and> ql_inv s' [(a, [v])]"
proof -
  obtain s' where s': "push_back (quicklist_new fill) v = Some s'" "ql_rep s' ([] @ [v])"
    using push_back_rep [OF ql_rep_new [OF assms(1)] assms(2)] by auto
  then obtain ns where ns: "ql_inv s' ns" "contents ns = [v]" by (auto simp: ql_rep_def)
  then have "length ns \<le> 1" using filled_length [of "ql_fill s'" ns] by (simp add: ql_inv_def)
  then obtain a where "ns = [(a, [v])]" using ns(2) by (cases ns) auto
  moreover have "ql_fill s' = max fill 1"
    using s'(1) by (auto simp: push_back_def quicklist_new_def first_node_def ql_alloc_def split_if_needed_def
        ql_store_def Let_def bind_eq_Some_conv split: option.splits if_splits prod.splits)
  ultimately show ?thesis using s'(1) ns(1) by auto
qed

section \<open>Simulation of plain lists\<close>

datatype list_op =
    OpPushFront bytes | OpPushBack bytes | OpPopFront | OpPopBack | OpIndex int | OpSet int bytes
  | OpInsertBefore bytes bytes | OpInsertAfter bytes bytes | OpRange int int | OpTrim int int
  | OpPos bytes int nat nat | OpIter | OpLen

datatype list_out =
    Done | Value "bytes option" | Flag bool | Inserted insert_result | Values "bytes list"
  | Positions "int list" | Size nat

fun ql_step :: "find_iter \<Rightarrow> quicklist \<Rightarrow> list_op \<Rightarrow> (list_out \<times> quicklist) option" where
  "ql_step fi s (OpPushFront v) = map_option (\<lambda>s'. (Done, s')) (push_front s v)"
| "ql_step fi s (OpPushBack v) = map_option (\<lambda>s'. (Done, s')) (push_back s v)"
| "ql_step fi s OpPopFront = map_option (apfst Value) (pop_front s)"
| "ql_step fi s OpPopBack = map_option (apfst Value) (pop_back s)"
| "ql_step fi s (OpIndex i) = map_option (\<lambda>v. (Value v, s)) (index s i)"
| "ql_step fi s (OpSet i v) = map_option (apfst Flag) (set_index s i v)"
| "ql_step fi s (OpInsertBefore p v) = map_option (apfst Inserted) (insert_before fi s p v)"
| "ql_step fi s (OpInsertAfter p v) = map_option (apfst Inserted) (insert_after fi s p v)"
| "ql_step fi s (OpRange i j) = map_option (\<lambda>vs. (Values vs, s)) (ql_range s i j)"
| "ql_step fi s (OpTrim i j) = map_option (\<lambda>s'. (Done, s')) (trim s i j)"
| "ql_step fi s (OpPos v r c m) = map_option (\<lambda>is. (Positions is, s)) (pos s v r c m)"
| "ql_step fi s OpIter = map_option (\<lambda>vs. (Values vs, s)) (iter s)"
| "ql_step fi s OpLen = Some (Size (ql_len s), s)"

definition list_insert :: "bytes list \<Rightarrow> bytes \<Rightarrow> nat \<Rightarrow> bytes \<Rightarrow> list_out \<times> bytes list" where
  "list_insert vs p d v =
     (if vs = [] then (Inserted KeyMissing, vs)
      else case position (\<lambda>x. x = p) vs of
             None \<Rightarrow> (Inserted NotFound, vs)
           | Some k \<Rightarrow> (Inserted Found, insert_at (k + d) v vs))"

fun list_step :: "bytes list \<Rightarrow> list_op \<Rightarrow> list_out \<times> bytes list" where
  "list_step vs (OpPushFront v) = (Done, v # vs)"
| "list_step vs (OpPushBack v) = (Done, vs @ [v])"
| "list_step vs OpPopFront = (if vs = [] then (Value None, vs) else (Value (Some (hd vs)), tl vs))"
| "list_step vs OpPopBack = (if vs = [] then (Value None, vs) else (Value (Some (last vs)), butlast vs))"
| "list_step vs (OpIndex i) = (Value (map_option ((!) vs) (list_index (length vs) i)), vs)"
| "list_step vs (OpSet i v) =
     (case list_index (length vs) i of None \<Rightarrow> (Flag False, vs) | Some k \<Rightarrow> (Flag True, vs[k := v]))"
| "list_step vs (OpInsertBefore p v) = list_insert vs p 0 v"
| "list_step vs (OpInsertAfter p v) = list_insert vs p 1 v"
| "list_step vs (OpRange i j) = (Values (list_slice vs (list_range (length vs) i j)), vs)"
| "list_step vs (OpTrim i j) = (Done, list_slice vs (list_range (length vs) i j))"
| "list_step vs (OpPos v r c m) = (Positions (list_pos vs v r c m), vs)"
| "list_step vs OpIter = (Values vs, vs)"
| "list_step vs OpLen = (Size (length vs), vs)"

text \<open>Operations the refinement covers: elements that fit an entry, 64-bit indices, pivots the byte
  search handles, and fewer than \<open>2 ^ 32 - 1\<close> elements.\<close>

fun list_op_ok :: "bytes list \<Rightarrow> list_op \<Rightarrow> bool" where
  "list_op_ok vs (OpPushFront v) \<longleftrightarrow> lp_entry_ok v \<and> Suc (length vs) < 2 ^ 32 - 1"
| "list_op_ok vs (OpPushBack v) \<longleftrightarrow> lp_entry_ok v \<and> Suc (length vs) < 2 ^ 32 - 1"
| "list_op_ok vs (OpIndex i) \<longleftrightarrow> in_i64 i"
| "list_op_ok vs (OpSet i v) \<longleftrightarrow> in_i64 i \<and> lp_entry_ok v"
| "list_op_ok vs (OpInsertBefore p v) \<longleftrightarrow> pivot_ok p \<and> lp_entry_ok v \<and> Suc (length vs) < 2 ^ 32 - 1"
| "list_op_ok vs (OpInsertAfter p v) \<longleftrightarrow> pivot_ok p \<and> lp_entry_ok v \<and> Suc (length vs) < 2 ^ 32 - 1"
| "list_op_ok vs (OpRange i j) \<longleftrightarrow> in_i64 i \<and> in_i64 j"
| "list_op_ok vs (OpTrim i j) \<longleftrightarrow> in_i64 i \<and> in_i64 j"
| "list_op_ok vs _ \<longleftrightarrow> True"

lemma ql_step_refines:
  assumes law: "memmem_law fi" and rep: "ql_rep s vs" and ok: "list_op_ok vs op"
  shows "\<exists>s'. ql_step fi s op = Some (fst (list_step vs op), s') \<and> ql_rep s' (snd (list_step vs op))"
proof (cases op)
  case (OpPushFront v)
  then show ?thesis using push_front_rep [OF rep, of v] ok by auto
next
  case (OpPushBack v)
  then show ?thesis using push_back_rep [OF rep, of v] ok by auto
next
  case OpPopFront
  then show ?thesis using pop_front_rep [of s] rep by (cases vs) auto
next
  case OpPopBack
  then show ?thesis using pop_back_rep [of s] rep by (cases vs rule: rev_cases) auto
next
  case (OpIndex i)
  then show ?thesis using index_rep [OF rep, of i] rep ok by simp
next
  case (OpSet i v)
  then show ?thesis using set_index_rep [OF rep, of i v] rep ok by (auto split: option.splits)
next
  case (OpInsertBefore p v)
  then show ?thesis
    using insert_rep [OF law _ _ rep, of p v "(insert_before, lp_insert_before, 0)"] rep ok
    by (auto simp: list_insert_def split: option.splits if_splits)
next
  case (OpInsertAfter p v)
  then show ?thesis
    using insert_rep [OF law _ _ rep, of p v "(insert_after, lp_insert_after, 1)"] rep ok
    by (auto simp: list_insert_def split: option.splits if_splits)
next
  case (OpRange i j)
  then show ?thesis using ql_range_rep [OF rep, of i j] rep ok by simp
next
  case (OpTrim i j)
  then show ?thesis using trim_rep [OF rep, of i j] ok by auto
next
  case (OpPos v r c m)
  then show ?thesis using pos_rep [OF rep] rep by simp
next
  case OpIter
  then show ?thesis using iter_rep [OF rep] rep by simp
next
  case OpLen
  then show ?thesis using ql_rep_ok(3) [OF rep] rep by simp
qed

interpretation ql: simulation "ql_step reference_find_iter" list_step ql_rep list_op_ok
  by unfold_locales (rule ql_step_refines [OF reference_find_iter_law])

lemma ql_simulation: "memmem_law fi \<Longrightarrow> simulation (ql_step fi) list_step ql_rep list_op_ok"
  by unfold_locales (rule ql_step_refines)

lemma ql_rep_no_leak:
  assumes "ql_rep s vs"
  shows "card (dom (ql_heap s)) = ql_node_count s" and "ql_node_count s \<le> length vs"
proof -
  obtain ns where inv: "ql_inv s ns" and vs: "contents ns = vs" using assms by (auto simp: ql_rep_def)
  have "card (fst ` set ns) = length ns"
    using inv distinct_card [of "map fst ns"] by (simp add: ql_inv_def ql_shape_def)
  then show "card (dom (ql_heap s)) = ql_node_count s" using inv by (simp add: ql_inv_def ql_shape_def)
  show "ql_node_count s \<le> length vs"
    using inv vs filled_length [of "ql_fill s" ns] by (simp add: ql_inv_def ql_shape_def)
qed

section \<open>Properties of the linked list\<close>

text \<open>C6. Any sequence of pushes, pops, index reads and writes, pivot insertions, ranges, trims and
  position searches on a fresh list runs without touching freed memory, returns at every step what the
  same operations return on a plain list, and leaves a heap that holds exactly the linked nodes: no
  node leaks and no node is empty. Elements have at most 249 bytes, pivots at most 63 bytes, all ASCII, and
  the list stays below \<open>2 ^ 32 - 1\<close> elements. The removal of elements by value is not among the operations:
  it can read a node that it has freed (\<open>remove_use_after_free\<close>).\<close>

theorem quicklist_refines_list:
  assumes "memmem_law fi" and "fill \<le> 2 ^ 16 - 2" and "ok_ops list_step list_op_ok [] ops"
  shows "\<exists>s'. run_c (ql_step fi) (quicklist_new fill) ops = Some (fst (run_a list_step [] ops), s') \<and>
           iter s' = Some (snd (run_a list_step [] ops)) \<and>
           ql_len s' = length (snd (run_a list_step [] ops)) \<and>
           card (dom (ql_heap s')) = ql_node_count s' \<and> ql_node_count s' \<le> ql_len s'"
proof -
  obtain s' where s': "run_c (ql_step fi) (quicklist_new fill) ops = Some (fst (run_a list_step [] ops), s')"
      "ql_rep s' (snd (run_a list_step [] ops))"
    using simulation.run [OF ql_simulation [OF assms(1)] ql_rep_new [OF assms(2)] assms(3)] by blast
  then show ?thesis
    using iter_rep [OF s'(2)] ql_rep_ok(3) [OF s'(2)] ql_rep_no_leak [OF s'(2)] by auto
qed

theorem quicklist_refines_list_witness:
  "\<exists>s'. run_c (ql_step reference_find_iter) (quicklist_new 2)
          [OpPushBack [1], OpPushBack [2], OpPushFront [0], OpInsertAfter [1] [9], OpSet (- 1) [7], OpPopFront, OpRange 0 (- 1)]
     = Some ([Done, Done, Done, Inserted Found, Flag True, Value (Some [0]), Values [[1], [9], [7]]], s')"
proof -
  let ?ops = "[OpPushBack [1], OpPushBack [2], OpPushFront [0], OpInsertAfter [1] [9], OpSet (- 1) [7], OpPopFront, OpRange 0 (- 1)]"
  have r: "run_a list_step [] ?ops
      = ([Done, Done, Done, Inserted Found, Flag True, Value (Some [0]), Values [[1], [9], [7]]], [[1], [9], [7]])"
    by (simp add: list_insert_def insert_at_def list_index_def list_range_def list_slice_def Let_def)
  have "ok_ops list_step list_op_ok [] ?ops"
    by (simp add: lp_entry_ok_def pivot_ok_def in_i64_def list_insert_def insert_at_def list_index_def)
  then show ?thesis
    using quicklist_refines_list [OF reference_find_iter_law, of 2 ?ops] r by auto
qed

text \<open>On a list of at most one node, removing by count takes out the first, the last or all
  occurrences of the element as the sign of the count says, and returns how many were removed.\<close>

theorem remove_single_node:
  assumes "ql_rep s vs" and "ql_node_count s \<le> 1" and "in_i64 count" and "count \<noteq> i64_min"
  shows "\<exists>s'. remove s count x = Some (length vs - length (list_remove count x vs), s') \<and>
           iter s' = Some (list_remove count x vs) \<and> ql_rep s' (list_remove count x vs)"
  using remove_single_rep [OF assms, of x] iter_rep by blast

theorem remove_single_node_witness:
  "\<exists>s s'. push_all (quicklist_new 128) [[5], [6], [5], [5]] = Some s \<and> remove s (- 2) [5] = Some (2, s') \<and>
     iter s' = Some [[5], [6]]"
proof -
  obtain s0 a where s0: "push_back (quicklist_new 128) [5] = Some s0" "ql_fill s0 = 128" "ql_inv s0 [(a, [[5]])]"
    using push_first_node [of 128 "[5]"] by (auto simp: lp_entry_ok_def)
  obtain s where s: "push_all s0 [[6], [5], [5]] = Some s" "ql_inv s [(a, [[5], [6], [5], [5]])]"
    using push_all_one_node [OF s0(3), of "[[6], [5], [5]]"] s0(2) by (auto simp: lp_entry_ok_def)
  have rep: "ql_rep s [[5], [6], [5], [5]]" using s(2) by (auto simp: ql_rep_def)
  have one: "ql_node_count s \<le> 1" using s(2) by (simp add: ql_inv_def ql_shape_def)
  have "list_remove (- 2) [5] [[5], [6], [5], [5]] = [[5], [6]]" by (simp add: list_remove_def)
  then obtain s' where "remove s (- 2) [5] = Some (2, s')" "iter s' = Some [[5], [6]]"
    using remove_single_node [OF rep one, of "- 2" "[5]"] by (auto simp: in_i64_def)
  then show ?thesis using s0(1) s(1) by auto
qed

text \<open>Removing from a list of two nodes is a use after free when the two nodes shrink enough to be
  merged: with the default fill of 128, a list of b, 127 times a and c is well formed, and removing
  every a reads the freed second node.\<close>

theorem remove_use_after_free:
  "\<exists>s. push_all (quicklist_new 128) ([98] # replicate 127 [97] @ [[99]]) = Some s \<and>
     iter s = Some ([98] # replicate 127 [97] @ [[99]]) \<and> remove s 0 [97] = None"
proof -
  let ?vs = "[98] # replicate 127 [97] :: bytes list"
  obtain s0 a where s0: "push_back (quicklist_new 128) [98] = Some s0" "ql_fill s0 = 128" "ql_inv s0 [(a, [[98]])]"
    using push_first_node [of 128 "[98]"] by (auto simp: lp_entry_ok_def)
  obtain s1 where s1: "push_all s0 (replicate 127 [97]) = Some s1" "ql_fill s1 = 128" "ql_inv s1 [(a, ?vs)]"
    using push_all_one_node [OF s0(3), of "replicate 127 [97]"] s0(2) by (auto simp: lp_entry_ok_def)
  obtain s2 where s2: "push_back s1 [99] = Some s2" "ql_fill s2 = 128"
      and inv: "ql_inv s2 [(a, take 64 (?vs @ [[99]])), (ql_fresh s1, drop 64 (?vs @ [[99]]))]"
    using push_back_one_node [OF s1(3), of "[99]"] s1(2) by (auto simp: lp_entry_ok_def)
  have append: "push_all s (xs @ ys) = Option.bind (push_all s xs) (\<lambda>t. push_all t ys)" for s xs ys
    by (induction xs arbitrary: s) (simp_all add: bind_assoc)
  have es: "take 64 (?vs @ [[99]]) = [98] # replicate 63 [97]" by (simp add: take_Cons')
  have fs: "drop 64 (?vs @ [[99]]) = replicate 64 [97] @ [[99]]" by (simp add: drop_Cons')
  have inv': "ql_inv s2 [(a, [98] # replicate 63 [97]), (ql_fresh s1, replicate 64 [97] @ [[99]])]"
    using inv unfolding es fs .
  have "remove s2 0 [97] = None"
    by (rule remove_two_nodes [OF inv']) (use s2(2) in simp_all)
  moreover have "ql_rep s2 (?vs @ [[99]])"
    using inv unfolding ql_rep_def
    by (intro exI conjI) (assumption, simp only: contents_simps append_Nil2 append_take_drop_id)
  ultimately show ?thesis
    using s0(1) s1(1) s2(1) iter_rep [of s2 "?vs @ [[99]]"] append [of s0 "replicate 127 [97]" "[[99]]"]
    by (intro exI [of _ s2]) simp
qed

end
