(* ===== verification/SetValue.thy ===== *)
theory SetValue
  imports Listpack "HOL-Library.Monad_Syntax"
begin

text \<open>
  Set values: senko-core/src/set.rs. A set starts as a sorted integer array (\<open>IntSet\<close>), becomes a
  listpack when a member is not an integer, and a hash table when it grows or holds a long member.
  The hash table of the crate hashbrown and the search function of memchr are fields of the record
  \<open>set_deps\<close>; random choices are arguments. Operations are in the option monad where the listpack
  scan may not end (\<open>None\<close>). After the definitions: the three encodings, then the refinement of a
  mathematical set by the value as a whole.
\<close>

section \<open>Third-party functions\<close>

record 't set_deps =
  memmem_find :: "bytes \<Rightarrow> bytes \<Rightarrow> nat option"
  hs_new :: "nat \<Rightarrow> 't"
  hs_insert :: "'t \<Rightarrow> bytes \<Rightarrow> bool \<times> 't"
  hs_remove :: "'t \<Rightarrow> bytes \<Rightarrow> bool \<times> 't"
  hs_contains :: "'t \<Rightarrow> bytes \<Rightarrow> bool"
  hs_len :: "'t \<Rightarrow> nat"
  hs_iter :: "'t \<Rightarrow> bytes list"

section \<open>Integer sets\<close>

datatype int_set_encoding = Int16 | Int32 | Int64

fun encoding_rank :: "int_set_encoding \<Rightarrow> nat" where
  "encoding_rank Int16 = 0"
| "encoding_rank Int32 = 1"
| "encoding_rank Int64 = 2"

instantiation int_set_encoding :: linorder
begin

definition less_eq_int_set_encoding :: "int_set_encoding \<Rightarrow> int_set_encoding \<Rightarrow> bool" where
  "less_eq_int_set_encoding a b \<longleftrightarrow> encoding_rank a \<le> encoding_rank b"

definition less_int_set_encoding :: "int_set_encoding \<Rightarrow> int_set_encoding \<Rightarrow> bool" where
  "less_int_set_encoding a b \<longleftrightarrow> encoding_rank a < encoding_rank b"

instance
proof
  fix a b :: int_set_encoding
  show "a \<le> b \<Longrightarrow> b \<le> a \<Longrightarrow> a = b"
    by (cases a; cases b) (auto simp: less_eq_int_set_encoding_def)
qed (auto simp: less_eq_int_set_encoding_def less_int_set_encoding_def)

end

record int_set =
  is_data :: "int list"
  is_encoding :: int_set_encoding

definition encoding_for :: "int \<Rightarrow> int_set_encoding" where
  "encoding_for value =
     (if - (2 ^ 15) \<le> value \<and> value < 2 ^ 15 then Int16
      else if - (2 ^ 31) \<le> value \<and> value < 2 ^ 31 then Int32 else Int64)"

definition int_set_default :: int_set where
  "int_set_default = \<lparr>is_data = [], is_encoding = Int16\<rparr>"

definition int_set_insert :: "int_set \<Rightarrow> int \<Rightarrow> bool \<times> int_set" where
  "int_set_insert s val =
     (case binary_search (is_data s) val of
        Inr _ \<Rightarrow> (False, s)
      | Inl i \<Rightarrow> (True, s\<lparr>is_data := insert_at i val (is_data s),
                        is_encoding := max (is_encoding s) (encoding_for val)\<rparr>))"

definition int_set_remove :: "int_set \<Rightarrow> int \<Rightarrow> bool \<times> int_set" where
  "int_set_remove s val =
     (case binary_search (is_data s) val of
        Inr i \<Rightarrow> (True, s\<lparr>is_data := remove_at i (is_data s)\<rparr>)
      | Inl _ \<Rightarrow> (False, s))"

text \<open>The vector search compares four integers at a time and the rest one by one.\<close>

function avx2_search_loop :: "int \<Rightarrow> int list \<Rightarrow> nat \<Rightarrow> bool" where
  "avx2_search_loop needle data index =
     (if index + 4 \<le> length data then
        (if (\<exists>x \<in> set (take 4 (drop index data)). x = needle) then True
         else avx2_search_loop needle data (index + 4))
      else needle \<in> set (drop index data))"
  by pat_completeness auto
termination by (relation "measure (\<lambda>(_, data, index). length data - index)") auto

declare avx2_search_loop.simps [simp del]

definition avx2_search :: "int \<Rightarrow> int list \<Rightarrow> bool" where
  "avx2_search needle data = avx2_search_loop needle data 0"

definition simd_or_scalar_search :: "bool \<Rightarrow> int \<Rightarrow> int list \<Rightarrow> bool" where
  "simd_or_scalar_search avx2 needle data =
     (if avx2 then avx2_search needle data
      else case binary_search data needle of Inr _ \<Rightarrow> True | Inl _ \<Rightarrow> False)"

definition int_set_contains :: "bool \<Rightarrow> int_set \<Rightarrow> int \<Rightarrow> bool" where
  "int_set_contains avx2 s val =
     (if length (is_data s) \<le> 128 then simd_or_scalar_search avx2 val (is_data s)
      else case binary_search (is_data s) val of Inr _ \<Rightarrow> True | Inl _ \<Rightarrow> False)"

definition upgrade_needed :: "int \<Rightarrow> int_set_encoding \<Rightarrow> bool" where
  "upgrade_needed val current \<longleftrightarrow> current < encoding_for val"

section \<open>Listpack sets\<close>

text \<open>The copy of the entry decoder in this file: the varint reader returns a length.\<close>

function set_read_varint_loop :: "bytes \<Rightarrow> nat \<Rightarrow> nat \<Rightarrow> 64 word \<Rightarrow> nat \<Rightarrow> (64 word \<times> nat) option" where
  "set_read_varint_loop data offset index value shift =
     (case get_at data index of
        None \<Rightarrow> None
      | Some byte \<Rightarrow>
          (let value' = value OR push_bit shift (ucast (byte AND 127)) in
           if byte AND 128 = 0 then Some (value', index + 1 - offset)
           else if 64 \<le> shift + 7 then None
           else set_read_varint_loop data offset (index + 1) value' (shift + 7)))"
  by pat_completeness auto
termination by (relation "measure (\<lambda>(_, _, _, _, shift). 64 - shift)") auto

declare set_read_varint_loop.simps [simp del]

definition set_read_varint :: "bytes \<Rightarrow> nat \<Rightarrow> (64 word \<times> nat) option" where
  "set_read_varint data offset = set_read_varint_loop data offset offset 0 0"

definition set_decode_entry_at :: "bytes \<Rightarrow> nat \<Rightarrow> (bytes \<times> nat) option" where
  "set_decode_entry_at data offset =
     (if length data \<le> offset then None
      else do {
        (_, prevlen_len) \<leftarrow> set_read_varint data offset;
        cursor \<leftarrow> checked_add64 offset prevlen_len;
        rest \<leftarrow> (if length data < cursor then None else Some (drop cursor data));
        (payload_len, header_len) \<leftarrow> read_string_header rest;
        let cursor = cursor + header_len;
        payload_end \<leftarrow> checked_add64 cursor payload_len;
        payload \<leftarrow> slice data cursor payload_end;
        b \<leftarrow> get_at data payload_end;
        next_offset \<leftarrow> checked_add64 offset (unat b);
        Some (payload, next_offset)
      })"

text \<open>The scan runs until the cursor leaves the buffer; a zero length byte would hold it in place for
  ever, so the fuel is one unit per byte and one more and its exhaustion is \<open>None\<close>.\<close>

fun lp_set_scan :: "'t set_deps \<Rightarrow> nat \<Rightarrow> bytes \<Rightarrow> bytes \<Rightarrow> nat \<Rightarrow> bool option" where
  "lp_set_scan D 0 data member cursor = None"
| "lp_set_scan D (Suc fuel) data member cursor =
     (if cursor < length data then
        (case set_decode_entry_at data cursor of
           None \<Rightarrow> Some False
         | Some (payload, next_cursor) \<Rightarrow>
             (if memmem_find D payload member = Some 0 \<and> length payload = length member then Some True
              else lp_set_scan D fuel data member next_cursor))
      else Some False)"

definition lp_set_contains :: "'t set_deps \<Rightarrow> listpack_node \<Rightarrow> bytes \<Rightarrow> bool option" where
  "lp_set_contains D node member =
     (if member = [] then Some (list_ex (\<lambda>v. v = []) (decode_all_entries node))
      else lp_set_scan D (Suc (length (node_data node))) (node_data node) member 0)"

definition lp_set_insert :: "'t set_deps \<Rightarrow> listpack_node \<Rightarrow> bytes \<Rightarrow> (bool \<times> listpack_node) option" where
  "lp_set_insert D node member = do {
     found \<leftarrow> lp_set_contains D node member;
     Some (if found then (False, node) else (True, lp_push_back node member))
   }"

definition lp_set_remove :: "listpack_node \<Rightarrow> bytes \<Rightarrow> bool \<times> listpack_node" where
  "lp_set_remove node member =
     (case position (\<lambda>v. v = member) (decode_all_entries node) of
        None \<Rightarrow> (False, node)
      | Some i \<Rightarrow> (True, lp_delete_at node i))"

section \<open>Set objects\<close>

datatype 't set_encoding = Intset int_set | ListpackSet listpack_node | Hashtable 't

record 't set_object =
  so_inner :: "'t set_encoding"
  so_len :: nat

definition set_with_hasher :: "'t set_object" where
  "set_with_hasher = \<lparr>so_inner = Intset int_set_default, so_len = 0\<rparr>"

definition compact_from_bytes :: "bytes \<Rightarrow> bytes" where
  "compact_from_bytes member = utf8_lossy member"

definition set_parse_integer :: "bytes \<Rightarrow> int option" where
  "set_parse_integer member =
     (if utf8_valid member then parse_signed i64_min i64_max member else None)"

definition upgrade_intset_to_listpack :: "'t set_object \<Rightarrow> 't set_object" where
  "upgrade_intset_to_listpack s =
     (case so_inner s of
        Intset i \<Rightarrow> s\<lparr>so_inner := ListpackSet (foldl lp_push_back default_node (map dec_int (is_data i)))\<rparr>
      | _ \<Rightarrow> s)"

fun hs_insert_all :: "'t set_deps \<Rightarrow> 't \<Rightarrow> bytes list \<Rightarrow> 't" where
  "hs_insert_all D t [] = t"
| "hs_insert_all D t (v # vs) = hs_insert_all D (snd (hs_insert D t v)) vs"

definition upgrade_intset_to_hashtable :: "'t set_deps \<Rightarrow> 't set_object \<Rightarrow> 't set_object" where
  "upgrade_intset_to_hashtable D s =
     (case so_inner s of
        Intset i \<Rightarrow>
          s\<lparr>so_inner := Hashtable (hs_insert_all D (hs_new D (length (is_data i))) (map dec_int (is_data i)))\<rparr>
      | _ \<Rightarrow> s)"

definition upgrade_listpack_to_hashtable :: "'t set_deps \<Rightarrow> 't set_object \<Rightarrow> 't set_object" where
  "upgrade_listpack_to_hashtable D s =
     (case so_inner s of
        ListpackSet node \<Rightarrow>
          s\<lparr>so_inner := Hashtable (hs_insert_all D (hs_new D (lp_len node))
                          (map compact_from_bytes (decode_all_entries node)))\<rparr>
      | _ \<Rightarrow> s)"

definition ensure_encoding_for_insert ::
    "'t set_deps \<Rightarrow> bool \<Rightarrow> 't set_object \<Rightarrow> bytes \<Rightarrow> int option \<Rightarrow> 't set_object option" where
  "ensure_encoding_for_insert D avx2 s member int_value =
     (case so_inner s of
        Intset i \<Rightarrow>
          (let would_insert = (case int_value of None \<Rightarrow> True | Some v \<Rightarrow> \<not> int_set_contains avx2 i v) in
           if \<not> would_insert then Some s
           else let new_len = length (is_data i) + 1;
                    member_too_large = 64 < length member;
                    needs_direct_hashtable =
                      int_value = None \<and> (128 < new_len \<or> member_too_large) \<or> 512 < new_len
                in Some (if needs_direct_hashtable then upgrade_intset_to_hashtable D s
                         else if int_value = None then upgrade_intset_to_listpack s else s))
      | ListpackSet node \<Rightarrow> do {
          found \<leftarrow> lp_set_contains D node member;
          Some (if found then s
                else if 128 < lp_len node + 1 \<or> 64 < length member then upgrade_listpack_to_hashtable D s
                else s)
        }
      | Hashtable _ \<Rightarrow> Some s)"

definition set_add :: "'t set_deps \<Rightarrow> bool \<Rightarrow> 't set_object \<Rightarrow> bytes \<Rightarrow> (bool \<times> 't set_object) option" where
  "set_add D avx2 s member = do {
     let int_value = set_parse_integer member;
     s \<leftarrow> ensure_encoding_for_insert D avx2 s member int_value;
     (inserted, inner) \<leftarrow>
       (case so_inner s of
          Intset i \<Rightarrow> Some (case int_value of
                              None \<Rightarrow> (False, Intset i)
                            | Some v \<Rightarrow> apsnd Intset (int_set_insert i v))
        | ListpackSet node \<Rightarrow> map_option (apsnd ListpackSet) (lp_set_insert D node member)
        | Hashtable t \<Rightarrow> Some (apsnd Hashtable (hs_insert D t (compact_from_bytes member))));
     Some (inserted, s\<lparr>so_inner := inner, so_len := (if inserted then sat_add32 (so_len s) 1 else so_len s)\<rparr>)
   }"

definition set_remove :: "'t set_deps \<Rightarrow> 't set_object \<Rightarrow> bytes \<Rightarrow> bool \<times> 't set_object" where
  "set_remove D s member =
     (let (removed, inner) =
        (case so_inner s of
           Intset i \<Rightarrow> (case set_parse_integer member of
                          None \<Rightarrow> (False, Intset i)
                        | Some v \<Rightarrow> apsnd Intset (int_set_remove i v))
         | ListpackSet node \<Rightarrow> apsnd ListpackSet (lp_set_remove node member)
         | Hashtable t \<Rightarrow> apsnd Hashtable (hs_remove D t (utf8_lossy member)))
      in (removed, s\<lparr>so_inner := inner, so_len := (if removed then so_len s - 1 else so_len s)\<rparr>))"

definition set_contains :: "'t set_deps \<Rightarrow> bool \<Rightarrow> 't set_object \<Rightarrow> bytes \<Rightarrow> bool option" where
  "set_contains D avx2 s member =
     (case so_inner s of
        Intset i \<Rightarrow> Some (case set_parse_integer member of
                            None \<Rightarrow> False | Some v \<Rightarrow> int_set_contains avx2 i v)
      | ListpackSet node \<Rightarrow> lp_set_contains D node member
      | Hashtable t \<Rightarrow> Some (hs_contains D t (utf8_lossy member)))"

definition set_iter :: "'t set_deps \<Rightarrow> 't set_object \<Rightarrow> bytes list" where
  "set_iter D s =
     (case so_inner s of
        Intset i \<Rightarrow> map dec_int (is_data i)
      | ListpackSet node \<Rightarrow> decode_all_entries node
      | Hashtable t \<Rightarrow> hs_iter D t)"

text \<open>\<open>gen n\<close> is \<open>rng.gen_range(0..n)\<close>.\<close>

definition pop_random :: "'t set_deps \<Rightarrow> (nat \<Rightarrow> nat) \<Rightarrow> 't set_object \<Rightarrow> bytes option \<times> 't set_object" where
  "pop_random D gen s =
     (let r = (case so_inner s of
          Intset i \<Rightarrow>
            (if is_data i = [] then None
             else let k = gen (length (is_data i))
                  in Some (dec_int (is_data i ! k), Intset (i\<lparr>is_data := remove_at k (is_data i)\<rparr>)))
        | ListpackSet node \<Rightarrow>
            (if lp_len node = 0 then None
             else let k = gen (lp_len node)
                  in map_option (\<lambda>v. (v, ListpackSet (lp_delete_at node k))) (lp_get node k))
        | Hashtable t \<Rightarrow>
            (if hs_len D t = 0 then None
             else case get_at (hs_iter D t) (gen (hs_len D t)) of
                    None \<Rightarrow> None
                  | Some v \<Rightarrow> (case hs_remove D t v of
                                 (True, t') \<Rightarrow> Some (v, Hashtable t') | (False, _) \<Rightarrow> None)))
      in case r of
           None \<Rightarrow> (None, s)
         | Some (v, inner) \<Rightarrow> (Some v, s\<lparr>so_inner := inner, so_len := so_len s - 1\<rparr>))"

definition sample_random :: "'t set_deps \<Rightarrow> (nat \<Rightarrow> nat) \<Rightarrow> 't set_object \<Rightarrow> bytes option" where
  "sample_random D gen s =
     (case so_inner s of
        Intset i \<Rightarrow>
          (if is_data i = [] then None else Some (dec_int (is_data i ! gen (length (is_data i)))))
      | ListpackSet node \<Rightarrow> (if lp_len node = 0 then None else lp_get node (gen (lp_len node)))
      | Hashtable t \<Rightarrow> (if hs_len D t = 0 then None else get_at (hs_iter D t) (gen (hs_len D t))))"

text \<open>\<open>shuffle\<close> stands for \<open>SliceRandom::shuffle\<close>; the generator of each draw is a list element.\<close>

definition sample_n_distinct :: "'t set_deps \<Rightarrow> (bytes list \<Rightarrow> bytes list) \<Rightarrow> 't set_object \<Rightarrow> nat \<Rightarrow> bytes list" where
  "sample_n_distinct D shuffle s n =
     (if n = 0 \<or> so_len s = 0 then []
      else let members = shuffle (set_iter D s) in take (min n (length members)) members)"

fun sample_n_repeating :: "'t set_deps \<Rightarrow> (nat \<Rightarrow> nat) list \<Rightarrow> 't set_object \<Rightarrow> bytes list" where
  "sample_n_repeating D [] s = []"
| "sample_n_repeating D (gen # gens) s =
     (case sample_random D gen s of None \<Rightarrow> [] | Some v \<Rightarrow> v # sample_n_repeating D gens s)"

section \<open>What the code relies on of the third-party functions\<close>

text \<open>memmem::find returns the first occurrence; a hash set holds each element once, and its operations
  are those of a set.\<close>

definition set_laws :: "'t set_deps \<Rightarrow> bool" where
  "set_laws D \<longleftrightarrow>
     (\<forall>hay needle. memmem_find D hay needle = find (occurs_at hay needle) [0..<Suc (length hay)]) \<and>
     (\<forall>n. hs_iter D (hs_new D n) = []) \<and>
     (\<forall>t m. fst (hs_insert D t m) = (m \<notin> set (hs_iter D t))) \<and>
     (\<forall>t m. set (hs_iter D (snd (hs_insert D t m))) = insert m (set (hs_iter D t))) \<and>
     (\<forall>t m. fst (hs_remove D t m) = (m \<in> set (hs_iter D t))) \<and>
     (\<forall>t m. set (hs_iter D (snd (hs_remove D t m))) = set (hs_iter D t) - {m}) \<and>
     (\<forall>t m. hs_contains D t m = (m \<in> set (hs_iter D t))) \<and>
     (\<forall>t. hs_len D t = length (hs_iter D t)) \<and>
     (\<forall>t. distinct (hs_iter D t))"

lemma set_lawsD:
  assumes "set_laws D"
  shows "memmem_find D hay needle = find (occurs_at hay needle) [0..<Suc (length hay)]"
    and "hs_iter D (hs_new D n) = []"
    and "fst (hs_insert D t m) = (m \<notin> set (hs_iter D t))"
    and "set (hs_iter D (snd (hs_insert D t m))) = insert m (set (hs_iter D t))"
    and "fst (hs_remove D t m) = (m \<in> set (hs_iter D t))"
    and "set (hs_iter D (snd (hs_remove D t m))) = set (hs_iter D t) - {m}"
    and "hs_contains D t m = (m \<in> set (hs_iter D t))"
    and "hs_len D t = length (hs_iter D t)" and "distinct (hs_iter D t)"
  using assms by (auto simp: set_laws_def)

text \<open>An instance: a hash set as a list in insertion order.\<close>

definition reference_set_deps :: "bytes list set_deps" where
  "reference_set_deps =
     \<lparr>memmem_find = (\<lambda>hay needle. find (occurs_at hay needle) [0..<Suc (length hay)]),
      hs_new = (\<lambda>_. []), hs_insert = (\<lambda>t m. (m \<notin> set t, if m \<in> set t then t else t @ [m])),
      hs_remove = (\<lambda>t m. (m \<in> set t, removeAll m t)), hs_contains = (\<lambda>t m. m \<in> set t),
      hs_len = (\<lambda>t. length (remdups t)), hs_iter = remdups\<rparr>"

lemma reference_set_laws: "set_laws reference_set_deps"
  by (auto simp: set_laws_def reference_set_deps_def)

section \<open>Integer sets\<close>

definition int_set_inv :: "int_set \<Rightarrow> bool" where
  "int_set_inv s \<longleftrightarrow>
     sorted_wrt (<) (is_data s) \<and> (\<forall>v \<in> set (is_data s). in_i64 v \<and> encoding_for v \<le> is_encoding s)"

lemma avx2_search_loop_iff: "avx2_search_loop needle data i \<longleftrightarrow> needle \<in> set (drop i data)"
proof (induction needle data i rule: avx2_search_loop.induct)
  case (1 needle data i)
  have split: "set (drop i data) = set (take 4 (drop i data)) \<union> set (drop (i + 4) data)"
    by (metis append_take_drop_id drop_drop set_append add.commute)
  have eq: "avx2_search_loop needle data i \<longleftrightarrow>
      (if i + 4 \<le> length data
       then needle \<in> set (take 4 (drop i data)) \<or> avx2_search_loop needle data (i + 4)
       else needle \<in> set (drop i data))"
    by (subst avx2_search_loop.simps) (simp add: Bex_def)
  show ?case
  proof (cases "i + 4 \<le> length data \<and> needle \<notin> set (take 4 (drop i data))")
    case True
    then have "avx2_search_loop needle data (i + 4) \<longleftrightarrow> needle \<in> set (drop (i + 4) data)" using 1 by blast
    then show ?thesis unfolding eq using True by (simp add: split)
  next
    case False
    then consider "\<not> i + 4 \<le> length data" | "i + 4 \<le> length data" "needle \<in> set (take 4 (drop i data))"
      by blast
    then show ?thesis unfolding eq using split by cases simp_all
  qed
qed

lemma strict_sorted_list: "sorted_wrt (<) (xs :: int list) \<Longrightarrow> sorted xs \<and> distinct xs"
  by (simp add: strict_sorted_iff)

lemma bsearch_member:
  "sorted_wrt (<) (xs :: int list) \<Longrightarrow> (case binary_search xs v of Inr _ \<Rightarrow> True | Inl _ \<Rightarrow> False) = (v \<in> set xs)"
  using binary_search_found_iff [of xs v] strict_sorted_list [of xs]
  by (cases "binary_search xs v") auto

lemma int_set_contains_iff:
  assumes "int_set_inv s"
  shows "int_set_contains avx2 s v \<longleftrightarrow> v \<in> set (is_data s)"
  using bsearch_member [of "is_data s" v] assms
  by (simp add: int_set_contains_def simd_or_scalar_search_def avx2_search_def avx2_search_loop_iff int_set_inv_def)

lemma sorted_insert_at:
  fixes v :: int
  assumes "sorted_wrt (<) xs" and "\<forall>x \<in> set (take i xs). x < v" and "\<forall>x \<in> set (drop i xs). v < x"
  shows "sorted_wrt (<) (insert_at i v xs)"
proof -
  have "sorted_wrt (<) (take i xs)" "sorted_wrt (<) (drop i xs)"
    using assms(1) by (simp_all add: sorted_wrt_take sorted_wrt_drop)
  moreover have "\<forall>x \<in> set (take i xs). \<forall>y \<in> set (drop i xs). x < y"
    using assms(2,3) order.strict_trans by blast
  ultimately show ?thesis using assms(2,3) by (simp add: insert_at_def sorted_wrt_append)
qed

lemma int_set_insert_spec:
  assumes "int_set_inv s" and "in_i64 v"
  shows "fst (int_set_insert s v) = (v \<notin> set (is_data s))"
    and "set (is_data (snd (int_set_insert s v))) = insert v (set (is_data s))"
    and "int_set_inv (snd (int_set_insert s v))"
    and "length (is_data (snd (int_set_insert s v))) = length (is_data s) + (if v \<in> set (is_data s) then 0 else 1)"
proof -
  have so: "sorted (is_data s)" "sorted_wrt (<) (is_data s)"
    using assms(1) strict_sorted_list by (auto simp: int_set_inv_def)
  have "fst (int_set_insert s v) = (v \<notin> set (is_data s)) \<and>
    set (is_data (snd (int_set_insert s v))) = insert v (set (is_data s)) \<and>
    int_set_inv (snd (int_set_insert s v)) \<and>
    length (is_data (snd (int_set_insert s v))) = length (is_data s) + (if v \<in> set (is_data s) then 0 else 1)"
  proof (cases "binary_search (is_data s) v")
    case (Inr i)
    then have "v \<in> set (is_data s)" using binary_search_Inr by fastforce
    then show ?thesis using Inr assms(1) by (auto simp: int_set_insert_def)
  next
    case (Inl i)
    note b = binary_search_Inl [OF so(1) Inl]
    have "v \<notin> set (is_data s)" using Inl binary_search_found_iff [OF so(1), of v] by simp
    then show ?thesis
      using Inl b assms sorted_insert_at [OF so(2) b(2,3)]
      by (auto simp: int_set_insert_def int_set_inv_def set_insert_at le_max_iff_disj)
  qed
  then show "fst (int_set_insert s v) = (v \<notin> set (is_data s))"
    and "set (is_data (snd (int_set_insert s v))) = insert v (set (is_data s))"
    and "int_set_inv (snd (int_set_insert s v))"
    and "length (is_data (snd (int_set_insert s v))) = length (is_data s) + (if v \<in> set (is_data s) then 0 else 1)"
    by blast+
qed

lemma sorted_remove_at: "sorted_wrt (<) (xs :: int list) \<Longrightarrow> sorted_wrt (<) (remove_at i xs)"
proof -
  assume "sorted_wrt (<) xs"
  then have "sorted_wrt (<) (take i xs @ drop i xs)" by simp
  moreover have "set (drop (Suc i) xs) \<subseteq> set (drop i xs)" by (simp add: set_drop_subset_set_drop)
  ultimately show ?thesis
    using sorted_wrt_drop [of "(<)" "drop i xs" 1]
    by (auto simp: remove_at_def sorted_wrt_append simp del: append_take_drop_id)
qed

lemma int_set_drop_index:
  assumes "int_set_inv s" and "i < length (is_data s)"
  shows "int_set_inv (s\<lparr>is_data := remove_at i (is_data s)\<rparr>)"
    and "set (remove_at i (is_data s)) = set (is_data s) - {is_data s ! i}"
proof -
  have "distinct (is_data s)" using assms(1) strict_sorted_list by (simp add: int_set_inv_def)
  then show r: "set (remove_at i (is_data s)) = set (is_data s) - {is_data s ! i}"
    by (rule set_remove_at_distinct [OF _ assms(2)])
  show "int_set_inv (s\<lparr>is_data := remove_at i (is_data s)\<rparr>)"
    using assms(1) r sorted_remove_at by (auto simp: int_set_inv_def)
qed

lemma int_set_remove_spec:
  assumes "int_set_inv s"
  shows "fst (int_set_remove s v) = (v \<in> set (is_data s)) \<and>
    set (is_data (snd (int_set_remove s v))) = set (is_data s) - {v} \<and>
    int_set_inv (snd (int_set_remove s v)) \<and>
    length (is_data (snd (int_set_remove s v))) = length (is_data s) - (if v \<in> set (is_data s) then 1 else 0)"
proof (cases "binary_search (is_data s) v")
  case (Inr i)
  then have i: "i < length (is_data s)" "is_data s ! i = v" using binary_search_Inr by fastforce+
  then have "v \<in> set (is_data s)" by auto
  then show ?thesis using Inr i int_set_drop_index [OF assms i(1)] by (simp add: int_set_remove_def)
next
  case (Inl i)
  have "v \<notin> set (is_data s)"
    using Inl binary_search_found_iff [of "is_data s" v] strict_sorted_list assms by (simp add: int_set_inv_def)
  then show ?thesis using Inl assms by (simp add: int_set_remove_def)
qed

section \<open>Listpack sets\<close>

lemma read_varint_loop_bounds:
  "read_varint_loop data offset val shift = Some (v, i) \<Longrightarrow> offset < i \<and> i \<le> length data"
proof (induction data offset val shift arbitrary: v i rule: read_varint_loop.induct)
  case (1 data offset val shift)
  from "1.prems" show ?case
    by (subst (asm) read_varint_loop.simps)
       (use "1.IH" in \<open>fastforce simp: Let_def get_at_def split: option.splits if_splits\<close>)
qed

lemma set_read_varint_loop_eq:
  "offset \<le> index \<Longrightarrow> set_read_varint_loop data offset index val shift
     = map_option (\<lambda>(v, i). (v, i - offset)) (read_varint_loop data index val shift)"
proof (induction data offset index val shift rule: set_read_varint_loop.induct)
  case (1 data offset index val shift)
  then show ?case
    by (subst set_read_varint_loop.simps, subst read_varint_loop.simps)
       (simp add: Let_def split: option.splits)
qed

text \<open>The decoder of this file agrees with the one of the listpack.\<close>

lemma set_decode_entry_eq:
  assumes "length data < 2 ^ 64"
  shows "set_decode_entry_at data offset
           = map_option (\<lambda>((_, payload), nxt). (payload, nxt)) (decode_entry_at data offset)"
proof (cases "length data \<le> offset \<or> read_varint data offset = None")
  case True
  then show ?thesis
    using set_read_varint_loop_eq [of offset offset data 0 0]
    by (auto simp: set_decode_entry_at_def decode_entry_at_def set_read_varint_def read_varint_def)
next
  case False
  then obtain v c where rv: "read_varint data offset = Some (v, c)" by (metis not_None_eq surj_pair)
  then have c: "offset < c" "c \<le> length data"
    using read_varint_loop_bounds by (auto simp: read_varint_def)
  have srv: "set_read_varint data offset = Some (v, c - offset)"
    using rv set_read_varint_loop_eq [of offset offset data 0 0]
    by (simp add: set_read_varint_def read_varint_def)
  have "checked_add64 offset (c - offset) = Some c" using c assms by (simp add: checked_add64_def)
  then show ?thesis
    using False rv srv c
    by (simp add: set_decode_entry_at_def decode_entry_at_def Let_def split: option.splits prod.splits)
qed

lemma memmem_find_whole:
  assumes "set_laws D"
  shows "(memmem_find D payload member = Some 0 \<and> length payload = length member) \<longleftrightarrow> payload = member"
proof -
  have "memmem_find D payload member = Some 0 \<longleftrightarrow> occurs_at payload member 0"
    using set_lawsD(1) [OF assms, of payload member] find_occurrence [of payload member 0 0] by simp
  then show ?thesis by (auto simp: occurs_at_def)
qed

lemma lp_set_scan_encode:
  assumes D: "set_laws D" and "data = pre @ encode_entries_loop es p" and "length es < fuel"
    and "p \<le> 255" and "\<forall>e \<in> set es. lp_entry_ok e" and "length pre + 255 * length es < 2 ^ 32"
  shows "lp_set_scan D fuel data member (length pre) = Some (member \<in> set es)"
  using assms(2-)
proof (induction es arbitrary: pre p fuel)
  case Nil
  then show ?case by (cases fuel) auto
next
  case (Cons e es)
  then obtain fuel' where fuel: "fuel = Suc fuel'" by (cases fuel) auto
  have f: "length (encode_entry e p) \<le> 255" using Cons.prems encode_entry_fits by simp
  have d: "data = pre @ encode_entry e p @ encode_entries_loop es (length (encode_entry e p))"
    using Cons.prems(1) by (simp add: Let_def)
  have dec: "decode_entry_at data (length pre)
     = Some ((length pre + length (entry_header e p), e), length (pre @ encode_entry e p))"
    unfolding d using Cons.prems by (intro decode_entry_ok) auto
  have "length data < 2 ^ 64"
    unfolding d using f encode_entries_length [OF f, of es] Cons.prems(4,5) by simp
  then have dec': "set_decode_entry_at data (length pre) = Some (e, length (pre @ encode_entry e p))"
    using dec by (simp add: set_decode_entry_eq)
  have "length pre < length data" unfolding d by (simp add: length_encode_entry)
  moreover have "lp_set_scan D fuel' data member (length (pre @ encode_entry e p)) = Some (member \<in> set es)"
    by (rule Cons.IH [where p = "length (encode_entry e p)"]) (use Cons.prems(2-) f d fuel in simp_all)
  ultimately show ?case
    using dec' fuel memmem_find_whole [OF D, of e member] by auto
qed

lemma lp_set_contains_rep:
  assumes "set_laws D" and "lp_rep node es"
  shows "lp_set_contains D node member = Some (member \<in> set es)"
proof (cases "member = []")
  case True
  then show ?thesis using lp_rep_decode [OF assms(2)] by (auto simp: lp_set_contains_def list_ex_iff)
next
  case False
  have ok: "\<forall>e \<in> set es. lp_entry_ok e" "length es < 2 ^ 16" using assms(2) by (auto simp: lp_rep_def lp_ok_def)
  have "lp_set_scan D (Suc (length (node_data node))) (node_data node) member (length ([] :: bytes))
      = Some (member \<in> set es)"
    by (rule lp_set_scan_encode [OF assms(1), where p = 0])
       (use ok lp_rep_data [OF assms(2)] encode_entries_length_ge [of es 0] in simp_all)
  then show ?thesis using False by (simp add: lp_set_contains_def del: lp_set_scan.simps)
qed

lemma lp_set_remove_rep:
  assumes "lp_rep node es" and "distinct es"
  shows "fst (lp_set_remove node m) = (m \<in> set es) \<and>
         (\<exists>es'. lp_rep (snd (lp_set_remove node m)) es' \<and> distinct es' \<and> set es' = set es - {m} \<and>
                length es' = length es - (if m \<in> set es then 1 else 0))"
proof (cases "position (\<lambda>v. v = m) es")
  case None
  then show ?thesis
    unfolding lp_set_remove_def lp_rep_decode [OF assms(1)] None option.case
    using assms None by (auto simp: position_None_iff)
next
  case (Some i)
  then have i: "i < length es" "es ! i = m" by (auto simp: position_Some_iff)
  then have "m \<in> set es" by auto
  then show ?thesis
    unfolding lp_set_remove_def lp_rep_decode [OF assms(1)] Some option.case
    using i lp.delete_rep [OF assms(1) i(1)] set_remove_at_distinct [OF assms(2) i(1)]
      distinct_remove_at [OF assms(2)]
    by (auto intro!: exI [of _ "remove_at i es"])
qed

section \<open>Refinement of a mathematical set\<close>

text \<open>Members the three encodings agree on: valid UTF-8, and written the way the integer prints where
  they read as one.\<close>

definition member_ok :: "bytes \<Rightarrow> bool" where
  "member_ok m \<longleftrightarrow> utf8_valid m \<and> (case set_parse_integer m of None \<Rightarrow> True | Some v \<Rightarrow> m = dec_int v)"

lemma member_ok_iff: "member_ok m \<longleftrightarrow> utf8_valid m \<and> (\<forall>v. set_parse_integer m = Some v \<longrightarrow> m = dec_int v)"
  by (auto simp: member_ok_def split: option.splits)

definition enc_inv :: "'t set_deps \<Rightarrow> 't set_encoding \<Rightarrow> bool" where
  "enc_inv D e \<longleftrightarrow>
     (case e of
        Intset i \<Rightarrow> int_set_inv i \<and> length (is_data i) \<le> 512
      | ListpackSet node \<Rightarrow>
          lp_rep node (decode_all_entries node) \<and> distinct (decode_all_entries node) \<and>
          (\<forall>m \<in> set (decode_all_entries node). member_ok m \<and> length m \<le> 64) \<and>
          length (decode_all_entries node) \<le> 128
      | Hashtable t \<Rightarrow> \<forall>m \<in> set (hs_iter D t). member_ok m)"

definition set_inv :: "'t set_deps \<Rightarrow> 't set_object \<Rightarrow> bool" where
  "set_inv D s \<longleftrightarrow> so_len s = length (set_iter D s) \<and> so_len s < 2 ^ 32 \<and> enc_inv D (so_inner s)"

definition set_rep :: "'t set_deps \<Rightarrow> 't set_object \<Rightarrow> bytes set \<Rightarrow> bool" where
  "set_rep D s A \<longleftrightarrow> set_inv D s \<and> A = set (set_iter D s)"

lemma parse_dec_int: "in_i64 v \<Longrightarrow> set_parse_integer (dec_int v) = Some v"
  by (simp add: set_parse_integer_def in_i64_def parse_signed_dec_int)

lemma member_ok_dec_int: "in_i64 v \<Longrightarrow> member_ok (dec_int v)"
  by (auto simp: member_ok_iff parse_dec_int)

lemma parse_in_i64: "set_parse_integer m = Some v \<Longrightarrow> in_i64 v"
  using parse_signed_range [of i64_min i64_max m v] by (auto simp: set_parse_integer_def in_i64_def split: if_splits)

lemma int_member:
  assumes "int_set_inv i" and "member_ok m"
  shows "m \<in> dec_int ` set (is_data i) \<longleftrightarrow>
           (case set_parse_integer m of None \<Rightarrow> False | Some v \<Rightarrow> v \<in> set (is_data i))"
proof -
  have "set_parse_integer (dec_int v) = Some v" if "v \<in> set (is_data i)" for v
    using assms(1) that parse_dec_int by (simp add: int_set_inv_def)
  then show ?thesis using assms(2) by (force simp: member_ok_iff split: option.splits)
qed

lemma lossy_ok: "member_ok m \<Longrightarrow> utf8_lossy m = m" "member_ok m \<Longrightarrow> compact_from_bytes m = m"
  by (simp_all add: member_ok_iff utf8_lossy_valid compact_from_bytes_def)

lemma hs_insert_all_set:
  "set_laws D \<Longrightarrow> set (hs_iter D (hs_insert_all D t vs)) = set (hs_iter D t) \<union> set vs"
  by (induction vs arbitrary: t) (simp_all add: set_lawsD)

lemma hs_fresh_length:
  assumes "set_laws D" and "distinct vs"
  shows "length (hs_iter D (hs_insert_all D (hs_new D n) vs)) = length vs"
proof -
  have "set (hs_iter D (hs_insert_all D (hs_new D n) vs)) = set vs"
    using hs_insert_all_set [OF assms(1), of "hs_new D n" vs] set_lawsD(2) [OF assms(1)] by simp
  then show ?thesis using distinct_card [OF set_lawsD(9) [OF assms(1)]] distinct_card [OF assms(2)] by metis
qed

lemma int_data_distinct: "int_set_inv i \<Longrightarrow> distinct (map dec_int (is_data i))"
  using strict_sorted_list [of "is_data i"]
  by (simp add: int_set_inv_def distinct_map inj_on_def dec_int_inj)

lemma set_inv_distinct: "set_laws D \<Longrightarrow> set_inv D s \<Longrightarrow> distinct (set_iter D s)"
  by (auto simp: set_inv_def enc_inv_def set_iter_def set_lawsD int_data_distinct split: set_encoding.splits)

lemma set_rep_card: "set_laws D \<Longrightarrow> set_rep D s A \<Longrightarrow> so_len s = card A \<and> finite A"
  using set_inv_distinct [of D s] by (auto simp: set_rep_def set_inv_def enc_inv_def distinct_card)

lemma upgrade_to_hashtable:
  assumes D: "set_laws D" and inv: "set_inv D s"
  shows "set_inv D (upgrade_intset_to_hashtable D s) \<and>
         set (set_iter D (upgrade_intset_to_hashtable D s)) = set (set_iter D s)"
    and "set_inv D (upgrade_listpack_to_hashtable D s) \<and>
         set (set_iter D (upgrade_listpack_to_hashtable D s)) = set (set_iter D s)"
proof -
  show "set_inv D (upgrade_intset_to_hashtable D s) \<and>
         set (set_iter D (upgrade_intset_to_hashtable D s)) = set (set_iter D s)"
    using inv hs_insert_all_set [OF D] set_lawsD(2) [OF D] hs_fresh_length [OF D int_data_distinct]
    by (auto simp: upgrade_intset_to_hashtable_def set_inv_def enc_inv_def set_iter_def int_set_inv_def member_ok_dec_int
        split: set_encoding.splits)
  have lossy: "map compact_from_bytes (decode_all_entries node) = decode_all_entries node"
    if "so_inner s = ListpackSet node" for node
    using inv that by (intro map_idI) (simp add: set_inv_def enc_inv_def lossy_ok)
  show "set_inv D (upgrade_listpack_to_hashtable D s) \<and>
         set (set_iter D (upgrade_listpack_to_hashtable D s)) = set (set_iter D s)"
    using inv hs_insert_all_set [OF D] set_lawsD(2) [OF D] hs_fresh_length [OF D] lossy
    by (auto simp: upgrade_listpack_to_hashtable_def set_inv_def enc_inv_def set_iter_def split: set_encoding.splits)
qed

lemma upgrade_to_listpack:
  assumes inv: "set_inv D s" and i: "so_inner s = Intset i" and len: "length (is_data i) < 128"
  shows "set_inv D (upgrade_intset_to_listpack s)"
    and "set_iter D (upgrade_intset_to_listpack s) = set_iter D s"
    and "\<exists>node. so_inner (upgrade_intset_to_listpack s) = ListpackSet node"
proof -
  let ?ms = "map dec_int (is_data i)"
  have i64: "\<forall>v \<in> set (is_data i). in_i64 v" using inv i by (simp add: set_inv_def enc_inv_def int_set_inv_def)
  then have l: "\<forall>m \<in> set ?ms. length m \<le> 20" using dec_int_length by simp
  then have ok: "lp_ok ?ms" using len by (auto simp: lp_ok_def lp_entry_ok_def)
  then have rep: "lp_rep (foldl lp_push_back default_node ?ms) ?ms" by (rule lp.rep_of_list)
  have e: "decode_all_entries (foldl lp_push_back default_node ?ms) = ?ms" by (rule lp_rep_decode [OF rep])
  show "\<exists>node. so_inner (upgrade_intset_to_listpack s) = ListpackSet node"
    using i by (simp add: upgrade_intset_to_listpack_def)
  show it: "set_iter D (upgrade_intset_to_listpack s) = set_iter D s"
    using i e by (simp add: upgrade_intset_to_listpack_def set_iter_def)
  have "int_set_inv i" using inv i by (simp add: set_inv_def enc_inv_def)
  then show "set_inv D (upgrade_intset_to_listpack s)"
    using inv i it e rep l len i64 int_data_distinct [of i]
    by (auto simp: set_inv_def enc_inv_def upgrade_intset_to_listpack_def member_ok_dec_int intro: le_trans)
qed

lemma set_rep_empty: "set_rep D set_with_hasher {}"
  by (simp add: set_rep_def set_inv_def enc_inv_def set_iter_def set_with_hasher_def int_set_default_def int_set_inv_def)

text \<open>The encoding chosen before an insertion can take the member.\<close>

definition room_for :: "bytes \<Rightarrow> 't set_object \<Rightarrow> bool" where
  "room_for m s \<longleftrightarrow>
     (case so_inner s of
        Intset i \<Rightarrow> (case set_parse_integer m of
                       None \<Rightarrow> False | Some v \<Rightarrow> v \<in> set (is_data i) \<or> length (is_data i) < 512)
      | ListpackSet node \<Rightarrow> m \<in> set (decode_all_entries node) \<or>
                            length (decode_all_entries node) < 128 \<and> length m \<le> 64
      | Hashtable t \<Rightarrow> True)"

lemma ensure_encoding_intset:
  assumes D: "set_laws D" and inv: "set_inv D s" and Intset: "so_inner s = Intset i"
  shows "\<exists>s'. ensure_encoding_for_insert D avx2 s m (set_parse_integer m) = Some s' \<and>
           set_inv D s' \<and> set (set_iter D s') = set (set_iter D s) \<and> room_for m s'"
proof -
  have i: "int_set_inv i" "length (is_data i) \<le> 512" using inv Intset by (simp_all add: set_inv_def enc_inv_def)
  note c = int_set_contains_iff [OF i(1)]
  let ?would = "case set_parse_integer m of None \<Rightarrow> True | Some v \<Rightarrow> v \<notin> set (is_data i)"
  let ?full = "set_parse_integer m = None \<and> (127 < length (is_data i) \<or> 64 < length m) \<or> 511 < length (is_data i)"
  consider (keep) "\<not> ?would" | (table) "?would" "?full" | (pack) "set_parse_integer m = None" "\<not> ?full"
    | (room) v where "set_parse_integer m = Some v" "v \<notin> set (is_data i)" "\<not> ?full"
    by (cases "set_parse_integer m") auto
  then show ?thesis
  proof cases
    case keep
    then show ?thesis
      using Intset inv c
      by (intro exI [of _ s]) (auto simp: ensure_encoding_for_insert_def room_for_def split: option.splits)
  next
    case table
    then have "ensure_encoding_for_insert D avx2 s m (set_parse_integer m) = Some (upgrade_intset_to_hashtable D s)"
      using Intset c by (auto simp: ensure_encoding_for_insert_def Let_def split: option.splits)
    moreover have "room_for m (upgrade_intset_to_hashtable D s)"
      using Intset by (simp add: upgrade_intset_to_hashtable_def room_for_def)
    ultimately show ?thesis using upgrade_to_hashtable(1) [OF D inv] by blast
  next
    case pack
    then have e: "ensure_encoding_for_insert D avx2 s m (set_parse_integer m) = Some (upgrade_intset_to_listpack s)"
      using Intset by (simp add: ensure_encoding_for_insert_def Let_def)
    have "length (is_data i) < 128" using pack by simp
    note u = upgrade_to_listpack [OF inv Intset this]
    from u(3) obtain node where node: "so_inner (upgrade_intset_to_listpack s) = ListpackSet node" ..
    then have "decode_all_entries node = map dec_int (is_data i)" using u(2) Intset by (simp add: set_iter_def)
    then have "room_for m (upgrade_intset_to_listpack s)" using node pack by (simp add: room_for_def)
    then show ?thesis using e u by simp
  next
    case room
    then show ?thesis
      using Intset inv c
      by (intro exI [of _ s]) (simp add: ensure_encoding_for_insert_def Let_def room_for_def)
  qed
qed

lemma ensure_encoding_spec:
  assumes D: "set_laws D" and inv: "set_inv D s"
  shows "\<exists>s'. ensure_encoding_for_insert D avx2 s m (set_parse_integer m) = Some s' \<and>
           set_inv D s' \<and> set (set_iter D s') = set (set_iter D s) \<and> room_for m s'"
proof (cases "so_inner s")
  case (ListpackSet node)
  then have rep: "lp_rep node (decode_all_entries node)" using inv by (simp add: set_inv_def enc_inv_def)
  have c: "lp_set_contains D node m = Some (m \<in> set (decode_all_entries node))"
    and len: "lp_len node = length (decode_all_entries node)"
    using lp_set_contains_rep [OF D rep] lp.size_rep [OF rep] by simp_all
  show ?thesis
  proof (cases "m \<notin> set (decode_all_entries node) \<and> (127 < length (decode_all_entries node) \<or> 64 < length m)")
    case True
    then have "ensure_encoding_for_insert D avx2 s m (set_parse_integer m) = Some (upgrade_listpack_to_hashtable D s)"
      using ListpackSet c len by (auto simp: ensure_encoding_for_insert_def)
    moreover have "room_for m (upgrade_listpack_to_hashtable D s)"
      using ListpackSet by (simp add: upgrade_listpack_to_hashtable_def room_for_def)
    ultimately show ?thesis using upgrade_to_hashtable(2) [OF D inv] by blast
  next
    case False
    then show ?thesis
      using ListpackSet c len inv
      by (intro exI [of _ s]) (auto simp: ensure_encoding_for_insert_def room_for_def)
  qed
qed (use inv ensure_encoding_intset [OF D inv] in
      \<open>auto simp: ensure_encoding_for_insert_def room_for_def\<close>)

lemma enc_distinct: "set_laws D \<Longrightarrow> enc_inv D (so_inner s) \<Longrightarrow> distinct (set_iter D s)"
  by (auto simp: enc_inv_def set_iter_def set_lawsD int_data_distinct split: set_encoding.splits)

lemma set_repI:
  assumes "set_laws D" and "enc_inv D (so_inner s)" and "so_len s = card A" and "card A < 2 ^ 32"
    and "set (set_iter D s) = A"
  shows "set_rep D s A"
  using assms distinct_card [OF enc_distinct [OF assms(1,2)]] by (simp add: set_rep_def set_inv_def)

definition members :: "'t set_deps \<Rightarrow> 't set_encoding \<Rightarrow> bytes set" where
  "members D e = set (set_iter D \<lparr>so_inner = e, so_len = 0\<rparr>)"

lemma members_inner: "set (set_iter D s) = members D (so_inner s)"
  by (simp add: members_def set_iter_def)

lemma members_simps:
  "members D (Intset i) = dec_int ` set (is_data i)"
  "members D (ListpackSet node) = set (decode_all_entries node)"
  "members D (Hashtable t) = set (hs_iter D t)"
  by (simp_all add: members_def set_iter_def)

lemma add_intset:
  assumes "enc_inv D (Intset i)" and "member_ok m" and "set_parse_integer m = Some v"
    and "v \<in> set (is_data i) \<or> length (is_data i) < 512"
  shows "\<exists>i'. int_set_insert i v = (m \<notin> members D (Intset i), i') \<and>
           enc_inv D (Intset i') \<and> members D (Intset i') = insert m (members D (Intset i))"
proof -
  have i: "int_set_inv i" "length (is_data i) \<le> 512" using assms(1) by (simp_all add: enc_inv_def)
  have mv: "m = dec_int v" "in_i64 v" using assms(2,3) parse_in_i64 by (auto simp: member_ok_iff)
  show ?thesis
    using int_set_insert_spec [OF i(1) mv(2)] i(2) assms(4)
    by (intro exI [of _ "snd (int_set_insert i v)"])
       (auto simp: prod_eq_iff enc_inv_def members_simps mv(1) dec_int_inj)
qed

lemma add_listpack:
  assumes D: "set_laws D" and inv: "enc_inv D (ListpackSet node)" and m: "member_ok m"
    and room: "m \<in> set (decode_all_entries node) \<or> length (decode_all_entries node) < 128 \<and> length m \<le> 64"
  shows "\<exists>node'. lp_set_insert D node m = Some (m \<notin> members D (ListpackSet node), node') \<and>
           enc_inv D (ListpackSet node') \<and> members D (ListpackSet node') = insert m (members D (ListpackSet node))"
proof -
  let ?es = "decode_all_entries node"
  have e: "lp_rep node ?es" "distinct ?es" "\<forall>m \<in> set ?es. member_ok m \<and> length m \<le> 64" "length ?es \<le> 128"
    using inv by (simp_all add: enc_inv_def)
  note c = lp_set_contains_rep [OF D e(1), of m]
  show ?thesis
  proof (cases "m \<in> set ?es")
    case True
    then show ?thesis using c inv by (auto simp: lp_set_insert_def members_simps)
  next
    case False
    then have "lp_ok (?es @ [m])" using e room by (auto simp: lp_ok_def lp_entry_ok_def)
    then have r: "lp_rep (lp_push_back node m) (?es @ [m])" by (rule lp.push_back_rep [OF e(1)])
    show ?thesis
      using c False e room m r lp_rep_decode [OF r]
      by (intro exI [of _ "lp_push_back node m"]) (auto simp: lp_set_insert_def members_simps enc_inv_def)
  qed
qed

lemma add_hashtable:
  assumes "set_laws D" and "enc_inv D (Hashtable t)" and "member_ok m"
  shows "\<exists>t'. hs_insert D t (compact_from_bytes m) = (m \<notin> members D (Hashtable t), t') \<and>
           enc_inv D (Hashtable t') \<and> members D (Hashtable t') = insert m (members D (Hashtable t))"
  using set_lawsD(3,4) [OF assms(1), of t m] assms
  by (intro exI [of _ "snd (hs_insert D t m)"])
     (auto simp: prod_eq_iff enc_inv_def members_simps lossy_ok)

lemma set_add_rep:
  assumes D: "set_laws D" and rep: "set_rep D s A" and m: "member_ok m" and room: "card A < u32_max"
  shows "\<exists>s'. set_add D avx2 s m = Some (m \<notin> A, s') \<and> set_rep D s' (insert m A)"
proof -
  have "set_inv D s" and A: "A = set (set_iter D s)" using rep by (simp_all add: set_rep_def)
  then obtain s1 where s1: "ensure_encoding_for_insert D avx2 s m (set_parse_integer m) = Some s1"
      "set_inv D s1" "set (set_iter D s1) = A" "room_for m s1"
    using ensure_encoding_spec [OF D, of s avx2 m] by blast
  then have "set_rep D s1 A" by (simp add: set_rep_def)
  note len = set_rep_card [OF D this]
  have enc: "enc_inv D (so_inner s1)" "members D (so_inner s1) = A"
    using s1(2,3) by (simp_all add: set_inv_def members_inner)
  define len' where "len' = (if m \<notin> A then sat_add32 (so_len s1) 1 else so_len s1)"
  have len': "len' = card (insert m A)" "card (insert m A) < 2 ^ 32"
    using len room by (auto simp: len'_def sat_add32_def card_insert_if)
  have "\<exists>e. set_add D avx2 s m = Some (m \<notin> A, s1\<lparr>so_inner := e, so_len := len'\<rparr>) \<and>
          enc_inv D e \<and> members D e = insert m A"
  proof (cases "so_inner s1")
    case (Intset i)
    then obtain v where v: "set_parse_integer m = Some v" "v \<in> set (is_data i) \<or> length (is_data i) < 512"
      using s1(4) by (auto simp: room_for_def split: option.splits)
    then show ?thesis
      using add_intset [of D i m v] enc m Intset s1(1) by (auto simp: set_add_def len'_def)
  next
    case (ListpackSet node)
    then show ?thesis
      using add_listpack [OF D _ m, of node] enc s1(1,4)
      by (auto simp: set_add_def len'_def room_for_def)
  next
    case (Hashtable t)
    then show ?thesis
      using add_hashtable [OF D _ m, of t] enc s1(1) by (auto simp: set_add_def len'_def)
  qed
  then obtain e where e: "set_add D avx2 s m = Some (m \<notin> A, s1\<lparr>so_inner := e, so_len := len'\<rparr>)"
    "enc_inv D e" "members D e = insert m A" by blast
  have "set_rep D (s1\<lparr>so_inner := e, so_len := len'\<rparr>) (insert m A)"
    using e(2,3) len' by (intro set_repI [OF D]) (simp_all add: members_inner)
  with e(1) show ?thesis by blast
qed

text \<open>What a removal leaves: the encoding's invariant, the members without the one taken out, and the
  length one less when there was one.\<close>

lemma set_rep_removed:
  assumes D: "set_laws D" and rep: "set_rep D s A" and e: "enc_inv D e" "members D e = A - {m}"
  shows "set_rep D (s\<lparr>so_inner := e, so_len := (if m \<in> A then so_len s - 1 else so_len s)\<rparr>) (A - {m})"
proof -
  have A: "so_len s = card A" "finite A" "card A < 2 ^ 32"
    using set_rep_card [OF D rep] rep by (auto simp: set_rep_def set_inv_def)
  have "card (A - {m}) < 2 ^ 32" by (rule le_less_trans [OF card_Diff1_le A(3)])
  then show ?thesis
    using A(1,2) e by (intro set_repI [OF D]) (simp_all add: members_inner card_Diff_singleton_if)
qed

lemma remove_encoding:
  assumes D: "set_laws D" and inv: "enc_inv D e" and m: "member_ok m"
  shows "\<exists>e'. (case e of
           Intset i \<Rightarrow> (case set_parse_integer m of
                          None \<Rightarrow> (False, Intset i)
                        | Some v \<Rightarrow> apsnd Intset (int_set_remove i v))
         | ListpackSet node \<Rightarrow> apsnd ListpackSet (lp_set_remove node m)
         | Hashtable t \<Rightarrow> apsnd Hashtable (hs_remove D t (utf8_lossy m))) = (m \<in> members D e, e') \<and>
         enc_inv D e' \<and> members D e' = members D e - {m}"
proof (cases e)
  case (Intset i)
  then have i: "int_set_inv i" "length (is_data i) \<le> 512" using inv by (simp_all add: enc_inv_def)
  show ?thesis
  proof (cases "set_parse_integer m")
    case None
    then show ?thesis using Intset int_member [OF i(1) m] inv by (simp add: members_simps)
  next
    case (Some v)
    then have mv: "m = dec_int v" using m by (simp add: member_ok_iff)
    obtain b i' where r: "int_set_remove i v = (b, i')" by fastforce
    have "dec_int ` (set (is_data i) - {v}) = dec_int ` set (is_data i) - {m}"
      by (auto simp: mv dec_int_inj)
    then show ?thesis
      using Intset Some int_set_remove_spec [OF i(1), of v] i(2) int_member [OF i(1) m] r
      by (intro exI [of _ "Intset i'"]) (simp add: members_simps enc_inv_def)
  qed
next
  case (ListpackSet node)
  then have n: "lp_rep node (decode_all_entries node)" "distinct (decode_all_entries node)"
    "length (decode_all_entries node) \<le> 128" using inv by (simp_all add: enc_inv_def)
  obtain es where es: "lp_rep (snd (lp_set_remove node m)) es" "distinct es"
      "set es = set (decode_all_entries node) - {m}" "length es \<le> length (decode_all_entries node)"
    and f: "fst (lp_set_remove node m) = (m \<in> set (decode_all_entries node))"
    using lp_set_remove_rep [OF n(1,2), of m] by auto
  show ?thesis
    using ListpackSet inv es f n(3) lp_rep_decode [OF es(1)]
    by (intro exI [of _ "ListpackSet (snd (lp_set_remove node m))"])
       (auto simp: members_simps enc_inv_def prod_eq_iff)
next
  case (Hashtable t)
  then show ?thesis
    using set_lawsD(5,6) [OF D, of t m] inv
    by (intro exI [of _ "Hashtable (snd (hs_remove D t m))"])
       (auto simp: members_simps enc_inv_def prod_eq_iff lossy_ok(1) [OF m])
qed

lemma set_rep_encoding: "set_rep D s A \<Longrightarrow> enc_inv D (so_inner s) \<and> members D (so_inner s) = A"
  by (simp add: set_rep_def set_inv_def members_inner)

lemma set_remove_rep:
  assumes D: "set_laws D" and rep: "set_rep D s A" and m: "member_ok m"
  shows "\<exists>s'. set_remove D s m = (m \<in> A, s') \<and> set_rep D s' (A - {m})"
proof -
  obtain e where e: "set_remove D s m = (m \<in> A, s\<lparr>so_inner := e, so_len := (if m \<in> A then so_len s - 1 else so_len s)\<rparr>)"
    "enc_inv D e" "members D e = A - {m}"
    using remove_encoding [OF D _ m, of "so_inner s"] set_rep_encoding [OF rep]
    by (auto simp: set_remove_def)
  then show ?thesis using set_rep_removed [OF D rep e(2,3)] by blast
qed

lemma set_contains_rep:
  assumes "set_laws D" and "set_rep D s A" and "member_ok m"
  shows "set_contains D avx2 s m = Some (m \<in> A)"
proof (cases "so_inner s")
  case (Intset i)
  then have "int_set_inv i" using set_rep_encoding [OF assms(2)] by (simp add: enc_inv_def)
  then have "m \<in> dec_int ` set (is_data i) \<longleftrightarrow>
      (case set_parse_integer m of None \<Rightarrow> False | Some v \<Rightarrow> int_set_contains avx2 i v)"
    using int_member [OF _ assms(3)] int_set_contains_iff [of i avx2] by (auto split: option.splits)
  then show ?thesis
    using Intset set_rep_encoding [OF assms(2)] by (simp add: set_contains_def members_simps)
next
  case (ListpackSet node)
  then show ?thesis
    using lp_set_contains_rep [OF assms(1), of node] set_rep_encoding [OF assms(2)]
    by (auto simp: set_contains_def members_simps enc_inv_def)
next
  case (Hashtable t)
  then show ?thesis
    using set_rep_encoding [OF assms(2)] set_lawsD(7) [OF assms(1)]
    by (simp add: set_contains_def members_simps lossy_ok(1) [OF assms(3)])
qed

lemma set_iter_rep:
  assumes "set_laws D" and "set_rep D s A"
  shows "distinct (set_iter D s) \<and> set (set_iter D s) = A \<and> so_len s = card A"
  using assms set_inv_distinct [of D s] set_rep_card [OF assms] by (auto simp: set_rep_def)

lemma pop_intset:
  assumes inner: "so_inner s = Intset i" and inv: "enc_inv D (Intset i)" and ne: "members D (Intset i) \<noteq> {}"
    and gen: "\<forall>n > 0. gen n < n"
  shows "\<exists>m e. pop_random D gen s = (Some m, s\<lparr>so_inner := e, so_len := so_len s - 1\<rparr>) \<and>
           m \<in> members D (Intset i) \<and> enc_inv D e \<and> members D e = members D (Intset i) - {m}"
proof -
  define k where "k = gen (length (is_data i))"
  have i: "int_set_inv i" "length (is_data i) \<le> 512" "is_data i \<noteq> []" "k < length (is_data i)"
    using inv ne gen by (auto simp: enc_inv_def members_simps k_def)
  have "dec_int ` (set (is_data i) - {is_data i ! k}) = dec_int ` set (is_data i) - {dec_int (is_data i ! k)}"
    by (auto simp: dec_int_inj)
  then show ?thesis
    using inner i int_set_drop_index [OF i(1,4)]
    by (intro exI [of _ "dec_int (is_data i ! k)"] exI [of _ "Intset (i\<lparr>is_data := remove_at k (is_data i)\<rparr>)"])
       (auto simp: pop_random_def k_def [symmetric] enc_inv_def members_simps)
qed

lemma pop_listpack:
  assumes inner: "so_inner s = ListpackSet node" and inv: "enc_inv D (ListpackSet node)"
    and ne: "members D (ListpackSet node) \<noteq> {}" and gen: "\<forall>n > 0. gen n < n"
  shows "\<exists>m e. pop_random D gen s = (Some m, s\<lparr>so_inner := e, so_len := so_len s - 1\<rparr>) \<and>
           m \<in> members D (ListpackSet node) \<and> enc_inv D e \<and> members D e = members D (ListpackSet node) - {m}"
proof -
  let ?es = "decode_all_entries node"
  define k where "k = gen (length ?es)"
  have n: "lp_rep node ?es" "distinct ?es" "length ?es \<le> 128" "\<forall>m \<in> set ?es. member_ok m \<and> length m \<le> 64"
    using inv by (simp_all add: enc_inv_def)
  note len = lp.size_rep [OF n(1)]
  have k: "k < length ?es" "?es \<noteq> []" using ne gen by (auto simp: k_def members_simps)
  have r: "lp_rep (lp_delete_at node k) (remove_at k ?es)" by (rule lp.delete_rep [OF n(1) k(1)])
  have "pop_random D gen s
      = (Some (?es ! k), s\<lparr>so_inner := ListpackSet (lp_delete_at node k), so_len := so_len s - 1\<rparr>)"
    using inner k lp.get_rep [OF n(1), of k] len by (simp add: pop_random_def k_def [symmetric])
  then show ?thesis
    using n k r lp_rep_decode [OF r] set_remove_at_distinct [OF n(2) k(1)] distinct_remove_at [OF n(2), of k]
    by (intro exI [of _ "?es ! k"] exI [of _ "ListpackSet (lp_delete_at node k)"])
       (auto simp: enc_inv_def members_simps)
qed

lemma pop_hashtable:
  assumes D: "set_laws D" and inner: "so_inner s = Hashtable t" and inv: "enc_inv D (Hashtable t)"
    and ne: "members D (Hashtable t) \<noteq> {}" and gen: "\<forall>n > 0. gen n < n"
  shows "\<exists>m e. pop_random D gen s = (Some m, s\<lparr>so_inner := e, so_len := so_len s - 1\<rparr>) \<and>
           m \<in> members D (Hashtable t) \<and> enc_inv D e \<and> members D e = members D (Hashtable t) - {m}"
proof -
  define m where "m = hs_iter D t ! gen (length (hs_iter D t))"
  have ne': "hs_iter D t \<noteq> []" using ne by (auto simp: members_simps)
  then have "gen (length (hs_iter D t)) < length (hs_iter D t)" using gen by simp
  then have g: "get_at (hs_iter D t) (gen (length (hs_iter D t))) = Some m" and m: "m \<in> set (hs_iter D t)"
    by (simp_all add: m_def get_at_def)
  obtain t' where t': "hs_remove D t m = (True, t')" using set_lawsD(5) [OF D, of t m] m by (metis prod.collapse)
  show ?thesis
    using inner g m t' ne' set_lawsD(6) [OF D, of t m] set_lawsD(8) [OF D, of t] inv
    by (intro exI [of _ m] exI [of _ "Hashtable t'"]) (auto simp: pop_random_def enc_inv_def members_simps)
qed

lemma pop_random_rep:
  assumes D: "set_laws D" and rep: "set_rep D s A" and gen: "\<forall>n > 0. gen n < n" and ne: "A \<noteq> {}"
  shows "\<exists>m s'. pop_random D gen s = (Some m, s') \<and> m \<in> A \<and> set_rep D s' (A - {m})"
proof -
  have "\<exists>m e. pop_random D gen s = (Some m, s\<lparr>so_inner := e, so_len := so_len s - 1\<rparr>) \<and> m \<in> A \<and>
          enc_inv D e \<and> members D e = A - {m}"
  proof (cases "so_inner s")
    case (Intset i)
    then show ?thesis using pop_intset [OF Intset, of D gen] set_rep_encoding [OF rep] gen ne by simp
  next
    case (ListpackSet node)
    then show ?thesis using pop_listpack [OF ListpackSet, of D gen] set_rep_encoding [OF rep] gen ne by simp
  next
    case (Hashtable t)
    then show ?thesis using pop_hashtable [OF D Hashtable, of gen] set_rep_encoding [OF rep] gen ne by simp
  qed
  then show ?thesis using set_rep_removed [OF D rep] by fastforce
qed

text \<open>Repeated pops, one generator state after the other.\<close>

fun pop_each :: "'t set_deps \<Rightarrow> (nat \<Rightarrow> nat) list \<Rightarrow> 't set_object \<Rightarrow> bytes option list \<times> 't set_object" where
  "pop_each D [] s = ([], s)"
| "pop_each D (gen # gens) s =
     (let (v, s') = pop_random D gen s; (vs, s'') = pop_each D gens s' in (v # vs, s''))"

lemma pop_each_rep:
  assumes "set_laws D" and "set_rep D s A" and "\<forall>gen \<in> set gens. \<forall>n > 0. gen n < n" and "length gens = card A"
  shows "\<exists>vs s'. pop_each D gens s = (map Some vs, s') \<and> distinct vs \<and> set vs = A \<and> set_rep D s' {}"
  using assms(2-)
proof (induction gens arbitrary: s A)
  case Nil
  then show ?case using set_rep_card [OF assms(1) Nil.prems(1)] by simp
next
  case (Cons gen gens)
  have fin: "finite A" using set_rep_card [OF assms(1) Cons.prems(1)] by simp
  obtain m s1 where m: "pop_random D gen s = (Some m, s1)" "m \<in> A" "set_rep D s1 (A - {m})"
    using pop_random_rep [OF assms(1) Cons.prems(1), of gen] Cons.prems(2,3) by fastforce
  then obtain vs s2 where "pop_each D gens s1 = (map Some vs, s2)" "distinct vs" "set vs = A - {m}" "set_rep D s2 {}"
    using Cons.IH [OF m(3)] Cons.prems(2,3) fin by fastforce
  then show ?case using m by (intro exI [of _ "m # vs"] exI [of _ s2]) auto
qed

section \<open>Operation sequences\<close>

datatype set_op = SAdd bytes | SRemove bytes | SContains bytes | SLen | SIter

datatype set_out = SFlag bool | SSize nat | SMembers "bytes set"

fun set_step :: "'t set_deps \<Rightarrow> bool \<Rightarrow> 't set_object \<Rightarrow> set_op \<Rightarrow> (set_out \<times> 't set_object) option" where
  "set_step D avx2 s (SAdd m) = map_option (apfst SFlag) (set_add D avx2 s m)"
| "set_step D avx2 s (SRemove m) = Some (apfst SFlag (set_remove D s m))"
| "set_step D avx2 s (SContains m) = map_option (\<lambda>b. (SFlag b, s)) (set_contains D avx2 s m)"
| "set_step D avx2 s SLen = Some (SSize (so_len s), s)"
| "set_step D avx2 s SIter = Some (SMembers (set (set_iter D s)), s)"

fun abstract_set_step :: "bytes set \<Rightarrow> set_op \<Rightarrow> set_out \<times> bytes set" where
  "abstract_set_step A (SAdd m) = (SFlag (m \<notin> A), insert m A)"
| "abstract_set_step A (SRemove m) = (SFlag (m \<in> A), A - {m})"
| "abstract_set_step A (SContains m) = (SFlag (m \<in> A), A)"
| "abstract_set_step A SLen = (SSize (card A), A)"
| "abstract_set_step A SIter = (SMembers A, A)"

fun set_op_ok :: "bytes set \<Rightarrow> set_op \<Rightarrow> bool" where
  "set_op_ok A (SAdd m) \<longleftrightarrow> member_ok m \<and> card A < u32_max"
| "set_op_ok A (SRemove m) \<longleftrightarrow> member_ok m"
| "set_op_ok A (SContains m) \<longleftrightarrow> member_ok m"
| "set_op_ok A op \<longleftrightarrow> True"

lemma set_step_refines:
  assumes "set_laws D" and "set_rep D s A" and "set_op_ok A op"
  shows "\<exists>s'. set_step D avx2 s op = Some (fst (abstract_set_step A op), s') \<and>
           set_rep D s' (snd (abstract_set_step A op))"
  using assms set_iter_rep [OF assms(1,2)]
  by (cases op) (auto dest: set_add_rep [of D s A _ avx2] set_remove_rep [of D s A] simp: set_contains_rep)

lemma set_simulation: "set_laws D \<Longrightarrow> simulation (set_step D avx2) abstract_set_step (set_rep D) set_op_ok"
  by unfold_locales (rule set_step_refines)

interpretation sets: simulation "set_step reference_set_deps avx2" abstract_set_step "set_rep reference_set_deps"
  set_op_ok for avx2
  by (rule set_simulation [OF reference_set_laws])

section \<open>Properties of set values\<close>

text \<open>C9. Any sequence of insertions, removals, membership tests, lengths and iterations on a fresh set
  returns at every step what the same operations return on a mathematical set, through every change of
  encoding and whether or not the vector search is used; the final object iterates each member once and
  its stored length is the number of members. The members are UTF-8 texts, and one that reads as an integer
  is its canonical decimal spelling: other spellings are stored as the number and come back changed
  (\<open>noncanonical_integer_lost\<close>). The set has fewer than \<open>2 ^ 32\<close> members.\<close>

theorem set_refines_set:
  assumes "set_laws D" and "ok_ops abstract_set_step set_op_ok {} ops"
  shows "\<exists>s'. run_c (set_step D avx2) set_with_hasher ops = Some (fst (run_a abstract_set_step {} ops), s') \<and>
           distinct (set_iter D s') \<and> set (set_iter D s') = snd (run_a abstract_set_step {} ops) \<and>
           so_len s' = length (set_iter D s')"
proof -
  obtain s' where s': "run_c (set_step D avx2) set_with_hasher ops = Some (fst (run_a abstract_set_step {} ops), s')"
      "set_rep D s' (snd (run_a abstract_set_step {} ops))"
    using simulation.run [OF set_simulation [OF assms(1)] set_rep_empty assms(2)] by blast
  then show ?thesis using set_iter_rep [OF assms(1) s'(2)] distinct_card by fastforce
qed

theorem set_refines_set_witness:
  "\<exists>s'. run_c (set_step reference_set_deps True) set_with_hasher
          [SAdd [0x35], SAdd [0x37], SAdd [0x61], SContains [0x37], SRemove [0x35], SLen]
     = Some ([SFlag True, SFlag True, SFlag True, SFlag True, SFlag True, SSize 2], s')"
proof -
  let ?ops = "[SAdd [0x35], SAdd [0x37], SAdd [0x61], SContains [0x37], SRemove [0x35], SLen]"
  have "member_ok [0x35]" "member_ok [0x37]" "member_ok [0x61]"
    by code_simp+
  then have ok: "ok_ops abstract_set_step set_op_ok {} ?ops" by simp
  have "fst (run_a abstract_set_step {} ?ops) = [SFlag True, SFlag True, SFlag True, SFlag True, SFlag True, SSize 2]"
    by simp
  then show ?thesis using set_refines_set [OF reference_set_laws ok, of True] by auto
qed

text \<open>Popping a set as often as it has members, with any generator that stays in range, returns every
  member exactly once and leaves the set empty.\<close>

theorem pop_random_drains:
  assumes "set_laws D" and "set_rep D s A" and "\<forall>gen \<in> set gens. \<forall>n > 0. gen n < n" and "length gens = card A"
  shows "\<exists>vs s'. pop_each D gens s = (map Some vs, s') \<and> distinct vs \<and> set vs = A \<and>
           so_len s' = 0 \<and> set_iter D s' = []"
proof -
  obtain vs s' where "pop_each D gens s = (map Some vs, s')" "distinct vs" "set vs = A" "set_rep D s' {}"
    using pop_each_rep [OF assms] by blast
  then show ?thesis using set_iter_rep [OF assms(1), of s' "{}"] by auto
qed

theorem pop_random_drains_witness:
  "\<exists>s. set_add reference_set_deps True set_with_hasher [0x37] = Some (True, s) \<and>
     (\<exists>vs s'. pop_each reference_set_deps [\<lambda>_. 0] s = (map Some vs, s') \<and> distinct vs \<and> set vs = {[0x37]} \<and>
       so_len s' = 0 \<and> set_iter reference_set_deps s' = [])"
proof -
  have "member_ok [0x37]" by code_simp
  then obtain s where s: "set_add reference_set_deps True set_with_hasher [0x37] = Some (True, s)"
      "set_rep reference_set_deps s {[0x37]}"
    using set_add_rep [OF reference_set_laws set_rep_empty, of "[0x37]" True] by auto
  show ?thesis
    using s(1) pop_random_drains [OF reference_set_laws s(2), of "[\<lambda>_. 0]"] by simp
qed

text \<open>Encodings disagree about integers that are not written canonically: a set holding the member
  007 answers that it is a member while all members are integers, and no longer after a non-integer
  member was added; it then iterates 7, which nobody added.\<close>

lemma noncanonical_integer_lost:
  assumes "set_laws D"
  shows "\<exists>s1 s2. set_add D avx2 set_with_hasher [0x30, 0x30, 0x37] = Some (True, s1) \<and>
           set_contains D avx2 s1 [0x30, 0x30, 0x37] = Some True \<and>
           set_add D avx2 s1 [0x78] = Some (True, s2) \<and>
           set_contains D avx2 s2 [0x30, 0x30, 0x37] = Some False \<and>
           set (set_iter D s2) = {[0x37], [0x78]}"
proof -
  let ?n1 = "lp_push_back default_node [0x37]"
  define s1 where "s1 = (\<lparr>so_inner = Intset \<lparr>is_data = [7], is_encoding = Int16\<rparr>, so_len = 1\<rparr> :: 'a set_object)"
  define s2 where "s2 = (\<lparr>so_inner = ListpackSet (lp_push_back ?n1 [0x78]), so_len = 2\<rparr> :: 'a set_object)"
  have p: "set_parse_integer [0x30, 0x30, 0x37] = Some 7" "dec_int 7 = [0x37]" "set_parse_integer [0x78] = None"
      "int_set_insert int_set_default 7 = (True, \<lparr>is_data = [7], is_encoding = Int16\<rparr>)" by code_simp+
  have c: "\<not> int_set_contains avx2 int_set_default 7" "int_set_contains avx2 \<lparr>is_data = [7], is_encoding = Int16\<rparr> 7"
    using int_set_contains_iff [of int_set_default] int_set_contains_iff [of "\<lparr>is_data = [7], is_encoding = Int16\<rparr>"]
    by (simp_all add: int_set_inv_def int_set_default_def in_i64_def encoding_for_def)
  have r1: "lp_rep ?n1 [[0x37]]"
    using lp.push_back_rep [OF lp.rep_empty, of "[0x37]"] by (simp add: lp_ok_def lp_entry_ok_def)
  have r2: "lp_rep (lp_push_back ?n1 [0x78]) [[0x37], [0x78]]"
    using lp.push_back_rep [OF r1, of "[0x78]"] by (simp add: lp_ok_def lp_entry_ok_def)
  have "set_add D avx2 set_with_hasher [0x30, 0x30, 0x37] = Some (True, s1)"
    using p(1,4) c(1) by (simp add: set_add_def ensure_encoding_for_insert_def set_with_hasher_def s1_def
        sat_add32_def Let_def) (simp add: int_set_default_def)
  moreover have "set_contains D avx2 s1 [0x30, 0x30, 0x37] = Some True"
    using p(1) c(2) by (simp add: set_contains_def s1_def)
  moreover have "set_add D avx2 s1 [0x78] = Some (True, s2)"
    using p(2,3) lp_set_contains_rep [OF assms r1, of "[0x78]"]
    by (simp add: set_add_def ensure_encoding_for_insert_def s1_def s2_def upgrade_intset_to_listpack_def
        lp_set_insert_def sat_add32_def Let_def)
  moreover have "set_contains D avx2 s2 [0x30, 0x30, 0x37] = Some False"
    using lp_set_contains_rep [OF assms r2] by (simp add: set_contains_def s2_def)
  moreover have "set (set_iter D s2) = {[0x37], [0x78]}"
    using lp_rep_decode [OF r2] by (simp add: set_iter_def s2_def)
  ultimately show ?thesis by blast
qed

lemma noncanonical_integer_lost_witness:
  "\<exists>s1 s2. set_add reference_set_deps True set_with_hasher [0x30, 0x30, 0x37] = Some (True, s1) \<and>
     set_add reference_set_deps True s1 [0x78] = Some (True, s2) \<and>
     set_contains reference_set_deps True s2 [0x30, 0x30, 0x37] = Some False"
  using noncanonical_integer_lost [OF reference_set_laws, of True] by blast

end
