(* ===== verification/Value.thy ===== *)
theory Value
  imports Prelude
begin

text \<open>
  Values of the keyspace, senko-core/src/value.rs. A scalar is a byte string, an integer or a double;
  every other constructor of \<open>SenkoValue\<close> boxes an object and is its kind and the object, whose type is
  a parameter here. Parsing and printing of doubles and of JSON documents are parameters.
\<close>

datatype object_kind =
  Json | VectorSet | BloomFilter | CuckooFilter | CountMinSketch | TopK | TDigest |
  HashKind | ListKind | SetKind | StreamKind | ZSetKind

datatype 'o senko_value = Raw bytes | IntVal int | FloatVal f64 | Obj object_kind 'o

record 'o value_deps =
  str_parse_f64 :: "bytes \<Rightarrow> f64 option"
  f64_to_string :: "f64 \<Rightarrow> bytes"
  json_to_string :: "'o \<Rightarrow> bytes"

definition ascii :: "string \<Rightarrow> bytes" where
  "ascii s = map (\<lambda>c. of_nat (of_char c)) s"

definition encode_attempt :: "'o value_deps \<Rightarrow> bytes \<Rightarrow> 'o senko_value" where
  "encode_attempt V raw =
     (if utf8_valid raw then
        (case parse_signed i64_min i64_max raw of
           Some v \<Rightarrow> IntVal v
         | None \<Rightarrow> (case str_parse_f64 V raw of Some v \<Rightarrow> FloatVal v | None \<Rightarrow> Raw raw))
      else Raw raw)"

definition as_bytes :: "'o value_deps \<Rightarrow> 'o senko_value \<Rightarrow> bytes" where
  "as_bytes V v =
     (case v of
        Raw raw \<Rightarrow> raw
      | IntVal n \<Rightarrow> dec_int n
      | FloatVal x \<Rightarrow> f64_to_string V x
      | Obj Json j \<Rightarrow> json_to_string V j
      | Obj VectorSet _ \<Rightarrow> ascii ''[vectorset]''
      | Obj BloomFilter _ \<Rightarrow> ascii ''[bloom]''
      | Obj CuckooFilter _ \<Rightarrow> ascii ''[cuckoo]''
      | Obj CountMinSketch _ \<Rightarrow> ascii ''[cms]''
      | Obj TopK _ \<Rightarrow> ascii ''[topk]''
      | Obj TDigest _ \<Rightarrow> ascii ''[tdigest]''
      | Obj HashKind _ \<Rightarrow> ascii ''[hash]''
      | Obj ListKind _ \<Rightarrow> ascii ''[list]''
      | Obj SetKind _ \<Rightarrow> ascii ''[set]''
      | Obj StreamKind _ \<Rightarrow> ascii ''[stream]''
      | Obj ZSetKind _ \<Rightarrow> ascii ''[zset]'')"

section \<open>Round trip of scalars\<close>

text \<open>A string spelled the way the value it reads as prints.\<close>

definition canonical :: "'o value_deps \<Rightarrow> bytes \<Rightarrow> bool" where
  "canonical V raw \<longleftrightarrow>
     (case parse_signed i64_min i64_max raw of
        Some v \<Rightarrow> raw = dec_int v
      | None \<Rightarrow> (case str_parse_f64 V raw of Some x \<Rightarrow> raw = f64_to_string V x | None \<Rightarrow> True))"

lemma encode_attempt_bytes:
  "as_bytes V (encode_attempt V raw) = raw \<longleftrightarrow> \<not> utf8_valid raw \<or> canonical V raw"
  by (auto simp: encode_attempt_def as_bytes_def canonical_def split: option.splits)

lemma encode_attempt_idem:
  assumes "in_i64 n"
  shows "encode_attempt V (as_bytes V (IntVal n)) = IntVal n"
  using assms by (simp add: encode_attempt_def as_bytes_def in_i64_def parse_signed_dec_int)

text \<open>Storing a string and reading it back gives the same bytes unless it reads as a number and is
  not spelled the way that number prints: a string that is not valid UTF-8, a canonical integer and
  every non-numeric string come back unchanged, but 007 comes back as 7.\<close>

theorem encode_attempt_roundtrip:
  "(as_bytes V (encode_attempt V raw) = raw \<longleftrightarrow> (if utf8_valid raw then canonical V raw else True)) \<and>
   as_bytes V (encode_attempt V (ascii ''007'')) = ascii ''7''"
proof -
  have "utf8_valid (ascii ''007'')" "parse_signed i64_min i64_max (ascii ''007'') = Some 7" "dec_int 7 = ascii ''7''"
    by code_simp+
  then have "as_bytes V (encode_attempt V (ascii ''007'')) = ascii ''7''"
    by (simp add: encode_attempt_def as_bytes_def)
  then show ?thesis using encode_attempt_bytes by auto
qed

end
