(* ===== verification/Table.thy ===== *)
theory Table
  imports Prelude "HOL-Library.AList"
begin

text \<open>
  The hash tables of the hashbrown crate as the sources use them, together with their hasher: every
  lookup, insertion and removal hashes the key and compares keys as byte strings. The operations are
  parameters; \<open>table_laws\<close> is what the crate documents of them, and a list of pairs is an instance.
\<close>

record ('t, 'v) table_deps =
  ht_new :: 't
  ht_find :: "'t \<Rightarrow> bytes \<Rightarrow> 'v option"
  ht_replace :: "'t \<Rightarrow> bytes \<Rightarrow> 'v \<Rightarrow> 't"
  ht_insert_unique :: "'t \<Rightarrow> bytes \<Rightarrow> 'v \<Rightarrow> 't"
  ht_remove :: "'t \<Rightarrow> bytes \<Rightarrow> 't"
  ht_iter :: "'t \<Rightarrow> (bytes \<times> 'v) list"
  ht_len :: "'t \<Rightarrow> nat"

abbreviation ht_map :: "('t, 'v) table_deps \<Rightarrow> 't \<Rightarrow> bytes \<Rightarrow> 'v option" where
  "ht_map H t \<equiv> map_of (ht_iter H t)"

text \<open>\<open>ht_replace\<close> writes through the reference \<open>find_mut\<close> returns, \<open>ht_insert_unique\<close> requires a key
  that is not in the table, \<open>ht_remove\<close> removes the entry \<open>find_entry\<close> finds.\<close>

definition table_laws :: "('t, 'v) table_deps \<Rightarrow> bool" where
  "table_laws H \<longleftrightarrow>
     ht_iter H (ht_new H) = [] \<and>
     (\<forall>t. distinct (map fst (ht_iter H t))) \<and>
     (\<forall>t k. ht_find H t k = ht_map H t k) \<and>
     (\<forall>t k v. k \<in> dom (ht_map H t) \<longrightarrow> ht_map H (ht_replace H t k v) = (ht_map H t)(k \<mapsto> v)) \<and>
     (\<forall>t k v. k \<notin> dom (ht_map H t) \<longrightarrow> ht_map H (ht_insert_unique H t k v) = (ht_map H t)(k \<mapsto> v)) \<and>
     (\<forall>t k. ht_map H (ht_remove H t k) = (ht_map H t)(k := None)) \<and>
     (\<forall>t. ht_len H t = length (ht_iter H t))"

lemma table_lawsD:
  assumes "table_laws H"
  shows "ht_iter H (ht_new H) = []" and "distinct (map fst (ht_iter H t))"
    and "ht_find H t k = ht_map H t k"
    and "k \<in> dom (ht_map H t) \<Longrightarrow> ht_map H (ht_replace H t k v) = (ht_map H t)(k \<mapsto> v)"
    and "k \<notin> dom (ht_map H t) \<Longrightarrow> ht_map H (ht_insert_unique H t k v) = (ht_map H t)(k \<mapsto> v)"
    and "ht_map H (ht_remove H t k) = (ht_map H t)(k := None)"
    and "ht_len H t = length (ht_iter H t)"
  using assms by (auto simp: table_laws_def)

lemma ht_map_iff:
  assumes "table_laws H"
  shows "ht_map H t k = Some v \<longleftrightarrow> (k, v) \<in> set (ht_iter H t)"
  using table_lawsD(2) [OF assms] by (rule map_of_eq_Some_iff)

lemma ht_len_card: "table_laws H \<Longrightarrow> length (ht_iter H t) = card (dom (ht_map H t))"
  using distinct_card [OF table_lawsD(2), of H t] by (simp add: dom_map_of_conv_image_fst)

lemma ht_filter_card:
  assumes "table_laws H"
  shows "length (filter (\<lambda>(k, v). P v) (ht_iter H t)) = card {k. \<exists>v. ht_map H t k = Some v \<and> P v}"
proof -
  let ?xs = "filter (\<lambda>(k, v). P v) (ht_iter H t)"
  have "distinct (map fst ?xs)" using table_lawsD(2) [OF assms] by (rule distinct_map_filter)
  then have "length ?xs = card (fst ` set ?xs)" using distinct_card [of "map fst ?xs"] by simp
  also have "fst ` set ?xs = {k. \<exists>v. ht_map H t k = Some v \<and> P v}"
    by (force simp: ht_map_iff [OF assms])
  finally show ?thesis .
qed

text \<open>An instance: the entries in order of insertion.\<close>

definition reference_table :: "((bytes \<times> 'v) list, 'v) table_deps" where
  "reference_table =
     \<lparr>ht_new = [], ht_find = (\<lambda>t k. map_of t k), ht_replace = (\<lambda>t k v. (k, v) # filter (\<lambda>(k', _). k' \<noteq> k) t),
      ht_insert_unique = (\<lambda>t k v. (k, v) # t), ht_remove = (\<lambda>t k. filter (\<lambda>(k', _). k' \<noteq> k) t),
      ht_iter = (\<lambda>t. AList.clearjunk t), ht_len = (\<lambda>t. length (AList.clearjunk t))\<rparr>"

lemma map_of_filter_key: "map_of (filter (\<lambda>(k', _). k' \<noteq> k) xs) = (map_of xs)(k := None)"
  by (induction xs) (auto simp: fun_eq_iff)

lemma reference_table_laws: "table_laws reference_table"
  by (auto simp: table_laws_def reference_table_def map_of_filter_key map_of_clearjunk distinct_clearjunk
      delete_conv fun_eq_iff)

end
