(* ===== verification/HashValue.thy ===== *)
theory HashValue
  imports Value Table Listpack "HOL-Library.Monad_Syntax"
begin

text \<open>
  Hash values, senko-core/src/hash.rs: a table of fields with optional expiry times and, while the hash
  is small and has no expiring field, a packed copy of it (the listpack mirror) that lookups can search
  with memmem. The table is a parameter (theory Table), as is memmem. Times are milliseconds. The first
  part has the definitions, the second the refinement of a map with expiry, the third the packed copy.
\<close>

section \<open>Hash objects\<close>

record 'o hash_field =
  hf_value :: "'o senko_value"
  hf_expires_at :: "nat option"

record 't hash_object =
  ho_fields :: 't
  ho_field_count :: nat
  ho_has_field_expiry :: bool
  ho_listpack :: "bytes option"

record ('t, 'o) hash_deps =
  hd_table :: "('t, 'o hash_field) table_deps"
  hd_values :: "'o value_deps"
  hd_memmem :: "bytes \<Rightarrow> bytes \<Rightarrow> nat option"

abbreviation hmap :: "('t, 'o) hash_deps \<Rightarrow> 't hash_object \<Rightarrow> bytes \<Rightarrow> 'o hash_field option" where
  "hmap D h \<equiv> ht_map (hd_table D) (ho_fields h)"

definition is_expired :: "nat option \<Rightarrow> nat \<Rightarrow> bool" where
  "is_expired expires_at now_ms = (case expires_at of None \<Rightarrow> False | Some deadline \<Rightarrow> deadline \<le> now_ms)"

definition write_listpack_header :: "bytes option \<Rightarrow> bytes option" where
  "write_listpack_header listpack = map_option (\<lambda>_. le_bytes 4 4) listpack"

definition hash_with_hasher :: "('t, 'o) hash_deps \<Rightarrow> 't hash_object" where
  "hash_with_hasher D =
     \<lparr>ho_fields = ht_new (hd_table D), ho_field_count = 0, ho_has_field_expiry = False,
      ho_listpack = write_listpack_header (Some [])\<rparr>"

definition is_listpack :: "'t hash_object \<Rightarrow> bool" where
  "is_listpack h \<longleftrightarrow> ho_listpack h \<noteq> None"

definition upgrade_to_hashtable_hash :: "'t hash_object \<Rightarrow> 't hash_object" where
  "upgrade_to_hashtable_hash h = h\<lparr>ho_listpack := None\<rparr>"

section \<open>The packed copy\<close>

fun pack_entries :: "(bytes \<times> bytes) list \<Rightarrow> bytes option" where
  "pack_entries [] = Some []"
| "pack_entries ((field, val) # entries) =
     (if 255 < length field \<or> 255 < length val then None
      else map_option (\<lambda>rest. of_nat (length field) # field @ of_nat (length val) # val @ rest)
             (pack_entries entries))"

text \<open>Four little-endian bytes keep the length modulo 2^32, as the cast to \<open>u32\<close> does.\<close>

definition encode_listpack_entries :: "'t hash_object \<Rightarrow> (bytes \<times> bytes) list \<Rightarrow> 't hash_object" where
  "encode_listpack_entries h entries =
     (case pack_entries entries of
        None \<Rightarrow> upgrade_to_hashtable_hash h
      | Some body \<Rightarrow> h\<lparr>ho_listpack := Some (le_bytes 4 (4 + length body) @ body)\<rparr>)"

function decode_loop :: "bytes \<Rightarrow> nat \<Rightarrow> (bytes \<times> bytes) list" where
  "decode_loop data idx =
     (if idx < length data then
        (let field_len = unat (data ! idx); field_at = idx + 1 in
         if length data < field_at + field_len then []
         else let field = take field_len (drop field_at data); value_at = field_at + field_len in
              if length data \<le> value_at then []
              else let value_len = unat (data ! value_at); start = value_at + 1 in
                   if length data < start + value_len then []
                   else (field, take value_len (drop start data)) # decode_loop data (start + value_len))
      else [])"
  by pat_completeness auto
termination
  by (relation "measure (\<lambda>(data, idx). length data - idx)") auto

declare decode_loop.simps [simp del]

definition decode_listpack_entries :: "'t hash_object \<Rightarrow> (bytes \<times> bytes) list" where
  "decode_listpack_entries h = (case ho_listpack h of None \<Rightarrow> [] | Some data \<Rightarrow> decode_loop data 4)"

function entry_starts_loop :: "bytes \<Rightarrow> nat \<Rightarrow> nat \<Rightarrow> bool" where
  "entry_starts_loop data target idx =
     (if idx < length data then
        (if idx = target then True
         else case get_at data idx of
                None \<Rightarrow> False
              | Some field_len \<Rightarrow>
                  (case get_at data (idx + (1 + unat field_len)) of
                     None \<Rightarrow> False
                   | Some value_len \<Rightarrow>
                       entry_starts_loop data target (idx + (1 + unat field_len) + (1 + unat value_len))))
      else False)"
  by pat_completeness auto
termination
  by (relation "measure (\<lambda>(data, target, idx). length data - idx)") auto

declare entry_starts_loop.simps [simp del]

definition listpack_entry_starts_at :: "bytes \<Rightarrow> nat \<Rightarrow> bool" where
  "listpack_entry_starts_at data target = entry_starts_loop data target 4"

text \<open>The outer \<open>None\<close> is the panic of a slice that starts behind the buffer; the loop ends because the
  cursor moves behind every rejected hit.\<close>

function listpack_get_loop :: "(bytes \<Rightarrow> bytes \<Rightarrow> nat option) \<Rightarrow> bytes \<Rightarrow> bytes \<Rightarrow> nat \<Rightarrow> bytes option option" where
  "listpack_get_loop memmem data field cursor =
     (if length data < cursor then None
      else case memmem (drop cursor data) field of
             None \<Rightarrow> Some None
           | Some offset \<Rightarrow>
               (let field_start = cursor + offset in
                if field_start = 0 then Some None
                else if get_at data (field_start - 1) = None then None
                else if unat (data ! (field_start - 1)) \<noteq> length field
                      \<or> \<not> listpack_entry_starts_at data (field_start - 1)
                then listpack_get_loop memmem data field (field_start + 1)
                else Some (do {
                  value_len \<leftarrow> get_at data (field_start + length field);
                  slice data (field_start + length field + 1) (field_start + length field + 1 + unat value_len)
                })))"
  by pat_completeness auto
termination
  by (relation "measure (\<lambda>(_, data, field, cursor). Suc (length data) - cursor)") auto

declare listpack_get_loop.simps [simp del]

definition listpack_get :: "('t, 'o) hash_deps \<Rightarrow> 't hash_object \<Rightarrow> bytes \<Rightarrow> bytes option option" where
  "listpack_get D h field =
     (if field = [] \<or> 255 < length field then Some None
      else case ho_listpack h of
             None \<Rightarrow> Some None
           | Some data \<Rightarrow>
               (if length data < 4 then Some None else listpack_get_loop (hd_memmem D) data field 4))"

fun update_entry :: "bytes \<Rightarrow> bytes \<Rightarrow> (bytes \<times> bytes) list \<Rightarrow> (bytes \<times> bytes) list" where
  "update_entry field val [] = [(field, val)]"
| "update_entry field val ((f, v) # entries) =
     (if f = field then (f, val) # entries else (f, v) # update_entry field val entries)"

definition listpack_set :: "'t hash_object \<Rightarrow> bytes \<Rightarrow> bytes \<Rightarrow> 't hash_object" where
  "listpack_set h field val =
     (if 255 < length field \<or> 255 < length val then upgrade_to_hashtable_hash h
      else encode_listpack_entries h (update_entry field val (decode_listpack_entries h)))"

definition can_encode_listpack :: "('t, 'o) hash_deps \<Rightarrow> 't hash_object \<Rightarrow> bool" where
  "can_encode_listpack D h \<longleftrightarrow>
     \<not> (ho_has_field_expiry h \<or> 128 < ho_field_count h) \<and>
     list_all (\<lambda>(field, f). length field \<le> 64 \<and> length (as_bytes (hd_values D) (hf_value f)) \<le> 64)
       (ht_iter (hd_table D) (ho_fields h))"

definition refresh_encoding :: "('t, 'o) hash_deps \<Rightarrow> 't hash_object \<Rightarrow> 't hash_object" where
  "refresh_encoding D h =
     (if \<not> can_encode_listpack D h then upgrade_to_hashtable_hash h
      else encode_listpack_entries h
             (map (\<lambda>(field, f). (field, as_bytes (hd_values D) (hf_value f)))
                (ht_iter (hd_table D) (ho_fields h))))"

section \<open>Operations on fields\<close>

definition hash_get :: "('t, 'o) hash_deps \<Rightarrow> 't hash_object \<Rightarrow> bytes \<Rightarrow> nat \<Rightarrow> 'o hash_field option" where
  "hash_get D h field now_ms =
     (case ht_find (hd_table D) (ho_fields h) field of
        None \<Rightarrow> None
      | Some f \<Rightarrow> (if is_expired (hf_expires_at f) now_ms then None else Some f))"

definition any_expiry :: "('t, 'o) hash_deps \<Rightarrow> 't \<Rightarrow> bool" where
  "any_expiry D t \<longleftrightarrow> list_ex (\<lambda>(_, f). hf_expires_at f \<noteq> None) (ht_iter (hd_table D) t)"

definition hash_delete :: "('t, 'o) hash_deps \<Rightarrow> 't hash_object \<Rightarrow> bytes \<Rightarrow> bool \<times> 't hash_object" where
  "hash_delete D h field =
     (case ht_find (hd_table D) (ho_fields h) field of
        None \<Rightarrow> (False, h)
      | Some removed \<Rightarrow>
          (let fields = ht_remove (hd_table D) (ho_fields h) field;
               h1 = h\<lparr>ho_fields := fields, ho_field_count := ho_field_count h - 1\<rparr>;
               h2 = (if hf_expires_at removed \<noteq> None then h1\<lparr>ho_has_field_expiry := any_expiry D fields\<rparr> else h1)
           in (True, refresh_encoding D h2)))"

text \<open>The reference \<open>get_mut\<close> hands out is the field it refers to.\<close>

definition hash_get_mut :: "('t, 'o) hash_deps \<Rightarrow> 't hash_object \<Rightarrow> bytes \<Rightarrow> nat \<Rightarrow> 'o hash_field option \<times> 't hash_object" where
  "hash_get_mut D h field now_ms =
     (let expired = (case ht_find (hd_table D) (ho_fields h) field of
                       None \<Rightarrow> False | Some f \<Rightarrow> is_expired (hf_expires_at f) now_ms) in
      if expired then (None, snd (hash_delete D h field))
      else (ht_find (hd_table D) (ho_fields h) field, h))"

definition hash_set ::
    "('t, 'o) hash_deps \<Rightarrow> 't hash_object \<Rightarrow> bytes \<Rightarrow> 'o senko_value \<Rightarrow> nat option \<Rightarrow> bool \<times> 't hash_object" where
  "hash_set D h field val expires_at =
     (let f = \<lparr>hf_value = val, hf_expires_at = expires_at\<rparr>;
          has = ho_has_field_expiry h \<or> expires_at \<noteq> None in
      case ht_find (hd_table D) (ho_fields h) field of
        Some _ \<Rightarrow>
          (False, refresh_encoding D (h\<lparr>ho_fields := ht_replace (hd_table D) (ho_fields h) field f,
                                        ho_has_field_expiry := has\<rparr>))
      | None \<Rightarrow>
          (True, refresh_encoding D (h\<lparr>ho_fields := ht_insert_unique (hd_table D) (ho_fields h) field f,
                                       ho_field_count := sat_add32 (ho_field_count h) 1,
                                       ho_has_field_expiry := has\<rparr>)))"

definition hash_exists :: "('t, 'o) hash_deps \<Rightarrow> 't hash_object \<Rightarrow> bytes \<Rightarrow> nat \<Rightarrow> bool" where
  "hash_exists D h field now_ms \<longleftrightarrow> hash_get D h field now_ms \<noteq> None"

definition iter_live :: "('t, 'o) hash_deps \<Rightarrow> 't hash_object \<Rightarrow> nat \<Rightarrow> (bytes \<times> 'o hash_field) list" where
  "iter_live D h now_ms =
     filter (\<lambda>(_, f). \<not> is_expired (hf_expires_at f) now_ms) (ht_iter (hd_table D) (ho_fields h))"

definition hash_len :: "('t, 'o) hash_deps \<Rightarrow> 't hash_object \<Rightarrow> nat \<Rightarrow> nat" where
  "hash_len D h now_ms = (if \<not> ho_has_field_expiry h then ho_field_count h else length (iter_live D h now_ms))"

definition hash_is_empty :: "('t, 'o) hash_deps \<Rightarrow> 't hash_object \<Rightarrow> nat \<Rightarrow> bool" where
  "hash_is_empty D h now_ms \<longleftrightarrow> hash_len D h now_ms = 0"

fun delete_all :: "('t, 'o) hash_deps \<Rightarrow> 't hash_object \<Rightarrow> bytes list \<Rightarrow> 't hash_object" where
  "delete_all D h [] = h"
| "delete_all D h (field # rest) = delete_all D (snd (hash_delete D h field)) rest"

definition drain_expired :: "('t, 'o) hash_deps \<Rightarrow> 't hash_object \<Rightarrow> nat \<Rightarrow> nat \<times> 't hash_object" where
  "drain_expired D h now_ms =
     (if \<not> ho_has_field_expiry h then (0, h)
      else let expired = map fst (filter (\<lambda>(_, f). is_expired (hf_expires_at f) now_ms)
                                    (ht_iter (hd_table D) (ho_fields h)));
               h' = delete_all D h expired
           in (length expired, h'\<lparr>ho_has_field_expiry := any_expiry D (ho_fields h')\<rparr>))"

fun insert_all_unique :: "('t, 'v) table_deps \<Rightarrow> 't \<Rightarrow> (bytes \<times> 'v) list \<Rightarrow> 't" where
  "insert_all_unique H t [] = t"
| "insert_all_unique H t ((k, v) # entries) = insert_all_unique H (ht_insert_unique H t k v) entries"

definition hash_clone :: "('t, 'o) hash_deps \<Rightarrow> 't hash_object \<Rightarrow> 't hash_object" where
  "hash_clone D h =
     h\<lparr>ho_fields := insert_all_unique (hd_table D) (ht_new (hd_table D)) (ht_iter (hd_table D) (ho_fields h))\<rparr>"

section \<open>Refinement of a map with expiry\<close>

definition hash_laws :: "('t, 'o) hash_deps \<Rightarrow> bool" where
  "hash_laws D \<longleftrightarrow>
     table_laws (hd_table D) \<and>
     (\<forall>hay needle. hd_memmem D hay needle = find (occurs_at hay needle) [0..<Suc (length hay)])"

lemma hash_laws_table: "hash_laws D \<Longrightarrow> table_laws (hd_table D)"
  by (simp add: hash_laws_def)

definition packed_fields :: "('t, 'o) hash_deps \<Rightarrow> 't hash_object \<Rightarrow> (bytes \<times> bytes) list" where
  "packed_fields D h =
     map (\<lambda>(field, f). (field, as_bytes (hd_values D) (hf_value f))) (ht_iter (hd_table D) (ho_fields h))"

definition hash_inv :: "('t, 'o) hash_deps \<Rightarrow> 't hash_object \<Rightarrow> bool" where
  "hash_inv D h \<longleftrightarrow>
     ho_field_count h = length (ht_iter (hd_table D) (ho_fields h)) \<and> ho_field_count h < 2 ^ 32 \<and>
     (ho_has_field_expiry h \<or> \<not> any_expiry D (ho_fields h)) \<and>
     (case ho_listpack h of
        None \<Rightarrow> True
      | Some data \<Rightarrow> \<not> any_expiry D (ho_fields h) \<and>
          (\<exists>body. pack_entries (packed_fields D h) = Some body \<and>
                  data = le_bytes 4 (4 + length body) @ body))"

definition hash_rep :: "('t, 'o) hash_deps \<Rightarrow> 't hash_object \<Rightarrow> (bytes \<Rightarrow> 'o hash_field option) \<Rightarrow> bool" where
  "hash_rep D h m \<longleftrightarrow> hash_inv D h \<and> hmap D h = m"

lemma any_expiry_iff:
  "table_laws (hd_table D) \<Longrightarrow>
     any_expiry D t \<longleftrightarrow> (\<exists>k f. ht_map (hd_table D) t k = Some f \<and> hf_expires_at f \<noteq> None)"
  by (force simp: any_expiry_def list_ex_iff ht_map_iff)

lemma refresh_encoding_fields [simp]:
  "ho_fields (refresh_encoding D h) = ho_fields h"
  "ho_field_count (refresh_encoding D h) = ho_field_count h"
  "ho_has_field_expiry (refresh_encoding D h) = ho_has_field_expiry h"
  by (simp_all add: refresh_encoding_def upgrade_to_hashtable_hash_def encode_listpack_entries_def split: option.splits)

text \<open>Recomputing the packed copy establishes the invariant from the count and the expiry flag.\<close>

lemma refresh_encoding_inv:
  assumes "ho_field_count h = length (ht_iter (hd_table D) (ho_fields h))" and "ho_field_count h < 2 ^ 32"
    and "ho_has_field_expiry h \<or> \<not> any_expiry D (ho_fields h)"
  shows "hash_inv D (refresh_encoding D h)"
proof -
  have "packed_fields D (refresh_encoding D h) = packed_fields D h" by (simp add: packed_fields_def)
  then show ?thesis
    using assms
    by (auto simp: hash_inv_def refresh_encoding_def upgrade_to_hashtable_hash_def encode_listpack_entries_def
        can_encode_listpack_def packed_fields_def split: option.splits)
qed

lemma hash_rep_count: "table_laws (hd_table D) \<Longrightarrow> hash_rep D h m \<Longrightarrow> ho_field_count h = card (dom m) \<and> finite (dom m)"
  by (auto simp: hash_rep_def hash_inv_def ht_len_card finite_dom_map_of)

lemma hash_rep_new: "table_laws (hd_table D) \<Longrightarrow> hash_rep D (hash_with_hasher D) Map.empty"
  by (simp add: hash_rep_def hash_inv_def hash_with_hasher_def table_lawsD any_expiry_def packed_fields_def
      write_listpack_header_def)

lemma hash_get_rep:
  "table_laws (hd_table D) \<Longrightarrow> hash_rep D h m \<Longrightarrow>
     hash_get D h k now = (case m k of None \<Rightarrow> None
                                | Some f \<Rightarrow> if is_expired (hf_expires_at f) now then None else Some f)"
  by (simp add: hash_get_def hash_rep_def table_lawsD)

lemma hash_delete_rep:
  assumes T: "table_laws (hd_table D)" and rep: "hash_rep D h m"
  shows "fst (hash_delete D h k) = (k \<in> dom m) \<and> hash_rep D (snd (hash_delete D h k)) (m(k := None))"
proof (cases "m k")
  case None
  then have "hash_delete D h k = (False, h)" using rep by (simp add: hash_delete_def hash_rep_def table_lawsD [OF T])
  then show ?thesis using None rep by (auto simp: fun_upd_idem)
next
  case (Some f)
  let ?t = "ht_remove (hd_table D) (ho_fields h) k"
  have m: "hmap D h = m" using rep by (simp add: hash_rep_def)
  then have t: "ht_map (hd_table D) ?t = m(k := None)" by (simp add: table_lawsD [OF T])
  have c: "ho_field_count h = card (dom m)" "finite (dom m)" "ho_field_count h < 2 ^ 32"
    using hash_rep_count [OF T rep] rep by (auto simp: hash_rep_def hash_inv_def)
  have len: "length (ht_iter (hd_table D) ?t) = card (dom m) - 1"
    using ht_len_card [OF T, of ?t] t c(2) Some by (simp add: card_Diff_singleton_if domI)
  have old: "ho_has_field_expiry h \<or> \<not> any_expiry D (ho_fields h)" using rep by (simp add: hash_rep_def hash_inv_def)
  have flag: "ho_has_field_expiry h \<or> \<not> any_expiry D ?t"
    using old t m by (auto simp: any_expiry_iff [OF T] split: if_splits)
  show ?thesis
    using Some m t c len flag
    by (auto simp: hash_delete_def hash_rep_def table_lawsD [OF T] Let_def intro!: refresh_encoding_inv)
qed

lemma insert_all_unique_map:
  "table_laws H \<Longrightarrow> distinct (map fst es) \<Longrightarrow> dom (ht_map H t) \<inter> fst ` set es = {} \<Longrightarrow>
     ht_map H (insert_all_unique H t es) = ht_map H t ++ map_of es"
proof (induction es arbitrary: t)
  case (Cons e es)
  obtain k v where e: "e = (k, v)" by fastforce
  have k: "k \<notin> dom (ht_map H t)" "map_of es k = None" using Cons.prems e by (auto simp: map_of_eq_None_iff)
  note t = table_lawsD(5) [OF Cons.prems(1) k(1), of v]
  have "dom (ht_map H (ht_insert_unique H t k v)) \<inter> fst ` set es = {}"
    using Cons.prems(2,3) e unfolding t by auto
  then have IH: "ht_map H (insert_all_unique H (ht_insert_unique H t k v) es) = (ht_map H t)(k \<mapsto> v) ++ map_of es"
    using Cons.IH [of "ht_insert_unique H t k v"] Cons.prems(1,2) by (simp only: t list.simps distinct.simps simp_thms)
  show ?case
  proof
    fix x
    show "ht_map H (insert_all_unique H t (e # es)) x = (ht_map H t ++ map_of (e # es)) x"
      using k(2) fun_cong [OF IH, of x] by (simp add: e map_add_def split: option.split)
  qed
qed simp

text \<open>A clone holds the same fields, in a table of its own.\<close>

lemma hash_clone_map:
  assumes T: "table_laws (hd_table D)"
  shows "hmap D (hash_clone D h) = hmap D h"
  using insert_all_unique_map [OF T table_lawsD(2) [OF T]] table_lawsD(1) [OF T]
  by (simp add: hash_clone_def)

lemma hash_set_rep:
  assumes T: "table_laws (hd_table D)" and rep: "hash_rep D h m" and room: "card (dom m) < u32_max"
  shows "fst (hash_set D h k v e) = (k \<notin> dom m) \<and>
         hash_rep D (snd (hash_set D h k v e)) (m(k \<mapsto> \<lparr>hf_value = v, hf_expires_at = e\<rparr>))"
proof -
  let ?f = "\<lparr>hf_value = v, hf_expires_at = e\<rparr>"
  let ?t = "if k \<in> dom m then ht_replace (hd_table D) (ho_fields h) k ?f
            else ht_insert_unique (hd_table D) (ho_fields h) k ?f"
  have m: "hmap D h = m" using rep by (simp add: hash_rep_def)
  then have t: "ht_map (hd_table D) ?t = m(k \<mapsto> ?f)"
    using table_lawsD(4) [OF T, of k "ho_fields h" ?f] table_lawsD(5) [OF T, of k "ho_fields h" ?f] by auto
  have c: "ho_field_count h = card (dom m)" "finite (dom m)" "ho_field_count h < 2 ^ 32"
    using hash_rep_count [OF T rep] rep by (auto simp: hash_rep_def hash_inv_def)
  have len: "length (ht_iter (hd_table D) ?t) = (if k \<in> dom m then card (dom m) else Suc (card (dom m)))"
    using ht_len_card [OF T, of ?t] unfolding t using c(2) by (simp add: card_insert_if)
  have old: "ho_has_field_expiry h \<or> \<not> any_expiry D (ho_fields h)" using rep by (simp add: hash_rep_def hash_inv_def)
  have "any_expiry D ?t \<longrightarrow> any_expiry D (ho_fields h) \<or> e \<noteq> None"
    unfolding any_expiry_iff [OF T] t m by (auto split: if_splits)
  then have flag: "(ho_has_field_expiry h \<or> e \<noteq> None) \<or> \<not> any_expiry D ?t" using old by blast
  show ?thesis
  proof (cases "m k")
    case None
    then have "k \<notin> dom m" by auto
    note new = t [unfolded if_not_P [OF this]] len [unfolded if_not_P [OF this]] flag [unfolded if_not_P [OF this]]
    then have "hash_inv D (snd (hash_set D h k v e))"
      using None m c room
      by (simp add: hash_set_def table_lawsD(3) [OF T] sat_add32_def) (rule refresh_encoding_inv; simp)
    then show ?thesis using None m new(1) by (simp add: hash_set_def hash_rep_def table_lawsD(3) [OF T] domIff)
  next
    case (Some f)
    then have "k \<in> dom m" by auto
    note new = t [unfolded if_P [OF this]] len [unfolded if_P [OF this]] flag [unfolded if_P [OF this]]
    then have "hash_inv D (snd (hash_set D h k v e))"
      using Some m c by (simp add: hash_set_def table_lawsD(3) [OF T]) (rule refresh_encoding_inv; simp)
    then show ?thesis using Some m new(1) by (simp add: hash_set_def hash_rep_def table_lawsD(3) [OF T] domIff)
  qed
qed

lemma delete_all_rep:
  "table_laws (hd_table D) \<Longrightarrow> hash_rep D h m \<Longrightarrow> hash_rep D (delete_all D h ks) (m |` (- set ks))"
proof (induction ks arbitrary: h m)
  case (Cons k ks)
  then have "hash_rep D (snd (hash_delete D h k)) (m(k := None))" using hash_delete_rep by blast
  moreover have "m(k := None) |` (- set ks) = m |` (- set (k # ks))" by (auto simp: restrict_map_def)
  ultimately show ?case using Cons.IH [OF Cons.prems(1)] by force
qed (simp add: restrict_map_def)

lemma hash_inv_recount:
  assumes "hash_inv D h"
  shows "hash_inv D (h\<lparr>ho_has_field_expiry := any_expiry D (ho_fields h)\<rparr>)"
proof -
  have "packed_fields D (h\<lparr>ho_has_field_expiry := any_expiry D (ho_fields h)\<rparr>) = packed_fields D h"
    by (simp add: packed_fields_def)
  then show ?thesis using assms by (auto simp: hash_inv_def split: option.splits)
qed

definition live :: "(bytes \<Rightarrow> 'o hash_field option) \<Rightarrow> nat \<Rightarrow> bytes \<Rightarrow> 'o hash_field option" where
  "live m now = (\<lambda>k. case m k of None \<Rightarrow> None
                     | Some f \<Rightarrow> if is_expired (hf_expires_at f) now then None else Some f)"

lemma dom_live: "dom (live m now) = {k. \<exists>f. m k = Some f \<and> \<not> is_expired (hf_expires_at f) now}"
  by (auto simp: live_def split: option.splits if_splits)

lemma live_no_expiry: "\<forall>k f. m k = Some f \<longrightarrow> hf_expires_at f = None \<Longrightarrow> live m now = m"
  by (auto simp: live_def is_expired_def split: option.splits)

lemma hash_len_rep:
  assumes T: "table_laws (hd_table D)" and rep: "hash_rep D h m"
  shows "hash_len D h now = card (dom (live m now))"
proof (cases "ho_has_field_expiry h")
  case True
  then show ?thesis
    using rep ht_filter_card [OF T, of "\<lambda>f. \<not> is_expired (hf_expires_at f) now" "ho_fields h"]
    by (simp add: hash_len_def iter_live_def dom_live hash_rep_def)
next
  case False
  then have "\<not> any_expiry D (ho_fields h)" using rep by (simp add: hash_rep_def hash_inv_def)
  then have "live m now = m"
    using rep by (intro live_no_expiry) (auto simp: any_expiry_iff [OF T] hash_rep_def)
  then show ?thesis using False hash_rep_count [OF T rep] by (simp add: hash_len_def)
qed

lemma drain_expired_rep:
  assumes T: "table_laws (hd_table D)" and rep: "hash_rep D h m"
  shows "fst (drain_expired D h now) = card (dom m) - card (dom (live m now)) \<and>
         hash_rep D (snd (drain_expired D h now)) (live m now)"
proof (cases "ho_has_field_expiry h")
  case False
  then have "\<not> any_expiry D (ho_fields h)" using rep by (simp add: hash_rep_def hash_inv_def)
  then have "live m now = m"
    using rep by (intro live_no_expiry) (auto simp: any_expiry_iff [OF T] hash_rep_def)
  then show ?thesis using False rep by (simp add: drain_expired_def)
next
  case True
  let ?ks = "map fst (filter (\<lambda>(_, f). is_expired (hf_expires_at f) now) (ht_iter (hd_table D) (ho_fields h)))"
  let ?dead = "{k. \<exists>f. m k = Some f \<and> is_expired (hf_expires_at f) now}"
  have ks: "set ?ks = ?dead" using rep by (force simp: ht_map_iff [OF T, symmetric] hash_rep_def)
  have "length ?ks = card ?dead"
    using rep ht_filter_card [OF T, of "\<lambda>f. is_expired (hf_expires_at f) now" "ho_fields h"] by (simp add: hash_rep_def)
  moreover have "dom m = ?dead \<union> dom (live m now)" "?dead \<inter> dom (live m now) = {}" by (auto simp: dom_live)
  moreover have "finite (dom m)" using hash_rep_count [OF T rep] by simp
  ultimately have n: "length ?ks = card (dom m) - card (dom (live m now))"
    by (metis (no_types, lifting) card_Un_disjoint diff_add_inverse2 finite_Un)
  have "m |` (- ?dead) = live m now" by (auto simp: restrict_map_def live_def split: option.splits)
  then have "hash_rep D (delete_all D h ?ks) (live m now)"
    using delete_all_rep [OF T rep, of ?ks] ks by simp
  then have "hash_rep D ((delete_all D h ?ks)\<lparr>ho_has_field_expiry := any_expiry D (ho_fields (delete_all D h ?ks))\<rparr>) (live m now)"
    by (simp add: hash_rep_def hash_inv_recount)
  then show ?thesis using True n by (simp add: drain_expired_def Let_def)
qed

section \<open>The packed copy answers like the table\<close>

lemma pack_append:
  "pack_entries (xs @ ys) = Some body \<longleftrightarrow>
     (\<exists>bx by. pack_entries xs = Some bx \<and> pack_entries ys = Some by \<and> body = bx @ by)"
  by (induction xs arbitrary: body rule: pack_entries.induct) auto

lemma pack_entry:
  "pack_entries ((f, v) # es) = Some body \<longleftrightarrow>
     length f \<le> 255 \<and> length v \<le> 255 \<and>
     (\<exists>rest. pack_entries es = Some rest \<and>
        body = of_nat (length f) # f @ of_nat (length v) # v @ rest)"
  by auto

lemma unat_length_byte: "n \<le> 255 \<Longrightarrow> unat (of_nat n :: byte) = n"
  by (simp add: unat_of_nat)

lemma decode_loop_pack:
  "pack_entries es = Some body \<Longrightarrow> decode_loop (pre @ body) (length pre) = es"
proof (induction es arbitrary: pre body)
  case Nil
  then show ?case by (simp add: decode_loop.simps)
next
  case (Cons e es)
  obtain f v where e: "e = (f, v)" by fastforce
  then obtain rest where p: "length f \<le> 255" "length v \<le> 255" "pack_entries es = Some rest"
      "body = of_nat (length f) # f @ of_nat (length v) # v @ rest"
    using Cons.prems pack_entry by blast
  let ?pre = "pre @ of_nat (length f) # f @ of_nat (length v) # v"
  have "decode_loop (pre @ body) (length pre) = (f, v) # decode_loop (?pre @ rest) (length ?pre)"
    using p by (subst decode_loop.simps) (simp add: nth_append unat_length_byte Let_def ac_simps)
  then show ?case using Cons.IH [OF p(3), of ?pre] e by simp
qed

text \<open>Offsets at which the entries start.\<close>

fun starts :: "nat \<Rightarrow> (bytes \<times> bytes) list \<Rightarrow> nat list" where
  "starts p [] = []"
| "starts p ((f, v) # es) = p # starts (p + length f + length v + 2) es"

lemma entry_starts_pack:
  "pack_entries es = Some body \<Longrightarrow>
     entry_starts_loop (pre @ body) target (length pre) \<longleftrightarrow> target \<in> set (starts (length pre) es)"
proof (induction es arbitrary: pre body)
  case Nil
  then show ?case by (simp add: entry_starts_loop.simps)
next
  case (Cons e es)
  obtain f v where e: "e = (f, v)" by fastforce
  then obtain rest where p: "length f \<le> 255" "length v \<le> 255" "pack_entries es = Some rest"
      "body = of_nat (length f) # f @ of_nat (length v) # v @ rest"
    using Cons.prems pack_entry by blast
  let ?pre = "pre @ of_nat (length f) # f @ of_nat (length v) # v"
  have "entry_starts_loop (pre @ body) target (length pre) \<longleftrightarrow>
      target = length pre \<or> entry_starts_loop (?pre @ rest) target (length ?pre)"
    using p by (subst entry_starts_loop.simps) (auto simp: get_at_def nth_append unat_length_byte ac_simps)
  then show ?case using Cons.IH [OF p(3), of ?pre] e by (simp add: ac_simps)
qed

text \<open>What is stored at an offset where an entry starts.\<close>

lemma starts_entry:
  assumes "pack_entries es = Some body" and "target \<in> set (starts (length pre) es)"
  shows "\<exists>f v before after. (f, v) \<in> set es \<and> length f \<le> 255 \<and> length v \<le> 255 \<and> length before = target \<and>
           pre @ body = before @ of_nat (length f) # f @ of_nat (length v) # v @ after"
  using assms
proof (induction es arbitrary: pre body)
  case (Cons e es)
  obtain f v where e: "e = (f, v)" by fastforce
  then obtain rest where p: "length f \<le> 255" "length v \<le> 255" "pack_entries es = Some rest"
      "body = of_nat (length f) # f @ of_nat (length v) # v @ rest"
    using Cons.prems pack_entry by blast
  let ?pre = "pre @ of_nat (length f) # f @ of_nat (length v) # v"
  show ?case
  proof (cases "target = length pre")
    case True
    then show ?thesis using e p by (intro exI [of _ f] exI [of _ v] exI [of _ pre] exI [of _ rest]) simp
  next
    case False
    then have "target \<in> set (starts (length ?pre) es)" using Cons.prems(2) e by (simp add: ac_simps)
    from Cons.IH [OF p(3) this] show ?thesis using p(4) by (auto simp del: append_assoc) auto
  qed
qed simp

lemma entry_starts:
  assumes "pack_entries es = Some body" and "(f, v) \<in> set es"
  shows "\<exists>before after. length before \<in> set (starts (length pre) es) \<and>
           pre @ body = before @ of_nat (length f) # f @ of_nat (length v) # v @ after"
  using assms
proof (induction es arbitrary: pre body)
  case (Cons e es)
  obtain f' v' where e: "e = (f', v')" by fastforce
  then obtain rest where p: "pack_entries es = Some rest"
      "body = of_nat (length f') # f' @ of_nat (length v') # v' @ rest"
    using Cons.prems pack_entry by blast
  let ?pre = "pre @ of_nat (length f') # f' @ of_nat (length v') # v'"
  show ?case
  proof (cases "(f, v) = e")
    case True
    then show ?thesis using e p(2) by (intro exI [of _ pre] exI [of _ rest]) simp
  next
    case False
    then have "(f, v) \<in> set es" using Cons.prems(2) by auto
    from Cons.IH [OF p(1) this, of ?pre] obtain before after
      where "length before \<in> set (starts (length ?pre) es)"
        "?pre @ rest = before @ of_nat (length f) # f @ of_nat (length v) # v @ after" by blast
    then show ?thesis using e p(2) by (intro exI [of _ before] exI [of _ after]) (simp add: ac_simps)
  qed
qed simp

lemma occurs_at_drop: "c \<le> length hay \<Longrightarrow> occurs_at (drop c hay) needle i \<longleftrightarrow> occurs_at hay needle (c + i)"
  by (auto simp: occurs_at_def ac_simps)

lemma occurs_at_mid: "length before = i \<Longrightarrow> occurs_at (before @ needle @ after) needle i"
  by (auto simp: occurs_at_def)

lemma find_from:
  assumes "c \<le> length hay"
  shows "find (occurs_at (drop c hay) needle) [0..<Suc (length (drop c hay))] = None \<longleftrightarrow>
           (\<forall>j \<ge> c. \<not> occurs_at hay needle j)"
    and "find (occurs_at (drop c hay) needle) [0..<Suc (length (drop c hay))] = Some i \<Longrightarrow>
           occurs_at hay needle (c + i) \<and> (\<forall>j. c \<le> j \<and> j < c + i \<longrightarrow> \<not> occurs_at hay needle j)"
proof -
  have at: "occurs_at hay needle j \<longleftrightarrow> occurs_at (drop c hay) needle (j - c)" if "c \<le> j" for j
    using occurs_at_drop [OF assms, of needle "j - c"] that by simp
  show "find (occurs_at (drop c hay) needle) [0..<Suc (length (drop c hay))] = None \<longleftrightarrow>
           (\<forall>j \<ge> c. \<not> occurs_at hay needle j)"
    unfolding find_no_occurrence using at by (metis diff_add_inverse le0 le_add1)
  assume "find (occurs_at (drop c hay) needle) [0..<Suc (length (drop c hay))] = Some i"
  then have f: "occurs_at (drop c hay) needle i" "\<forall>j < i. \<not> occurs_at (drop c hay) needle j"
    unfolding find_occurrence by auto
  have "\<not> occurs_at hay needle j" if "c \<le> j" "j < c + i" for j
    using f(2) at [OF that(1)] that by (simp add: less_diff_conv2)
  then show "occurs_at hay needle (c + i) \<and> (\<forall>j. c \<le> j \<and> j < c + i \<longrightarrow> \<not> occurs_at hay needle j)"
    using f(1) occurs_at_drop [OF assms] by blast
qed

text \<open>A hit that passes the checks is the entry of the field.\<close>

lemma hit_is_entry:
  assumes pack: "pack_entries es = Some body" and data: "data = hdr @ body" "length hdr = 4"
    and hit: "occurs_at data field (Suc t)" "listpack_entry_starts_at data t" "unat (data ! t) = length field"
  shows "\<exists>v. (field, v) \<in> set es \<and>
           do { value_len \<leftarrow> get_at data (Suc t + length field);
                slice data (Suc t + length field + 1) (Suc t + length field + 1 + unat value_len) } = Some v"
proof -
  have "t \<in> set (starts (length hdr) es)"
    using hit(2) entry_starts_pack [OF pack, of hdr t] data by (simp add: listpack_entry_starts_at_def)
  from starts_entry [OF pack this] obtain f v before after where e: "(f, v) \<in> set es" "length f \<le> 255" "length v \<le> 255"
      "length before = t" "data = before @ of_nat (length f) # f @ of_nat (length v) # v @ after"
    unfolding data by blast
  have len: "length f = length field" using hit(3) e(2,4,5) by (simp add: nth_append unat_length_byte)
  then have "f = field" using hit(1) e(4,5) by (auto simp: occurs_at_def)
  then show ?thesis
    using e by (intro exI [of _ v]) (simp add: get_at_def nth_append unat_length_byte slice_def)
qed

text \<open>The field's entry, if any, is a hit at or behind the cursor; the loop finds it.\<close>

lemma stored_field_hit:
  assumes "pack_entries es = Some body" and "data = hdr @ body" "length hdr = 4" and "(field, v) \<in> set es"
    and "length field \<le> 255"
  shows "\<exists>t. listpack_entry_starts_at data t \<and> occurs_at data field (Suc t) \<and> unat (data ! t) = length field"
proof -
  obtain before after where b: "length before \<in> set (starts 4 es)"
      "data = before @ of_nat (length field) # field @ of_nat (length v) # v @ after"
    using entry_starts [OF assms(1,4), of hdr] assms(2,3) by auto
  then have "listpack_entry_starts_at data (length before)"
    using entry_starts_pack [OF assms(1), of hdr] assms(2,3) by (simp add: listpack_entry_starts_at_def)
  then show ?thesis
    using b assms(5) occurs_at_mid [of "before @ [of_nat (length field)]" "Suc (length before)" field]
    by (intro exI [of _ "length before"]) (auto simp: nth_append unat_length_byte)
qed

lemma listpack_get_loop_pack:
  assumes mm: "\<And>hay needle. memmem hay needle = find (occurs_at hay needle) [0..<Suc (length hay)]"
    and pack: "pack_entries es = Some body" and data: "data = hdr @ body" "length hdr = 4"
    and es: "distinct (map fst es)" and field: "field \<noteq> []" "length field \<le> 255"
    and cursor: "0 < cursor" "cursor \<le> length data"
      "\<And>t. listpack_entry_starts_at data t \<Longrightarrow> occurs_at data field (Suc t) \<Longrightarrow> unat (data ! t) = length field \<Longrightarrow>
         cursor \<le> Suc t"
  shows "listpack_get_loop memmem data field cursor = Some (map_of es field)"
  using cursor
proof (induction "length data - cursor" arbitrary: cursor rule: less_induct)
  case less
  show ?case
  proof (cases "memmem (drop cursor data) field")
    case None
    then have no: "\<forall>j \<ge> cursor. \<not> occurs_at data field j"
      unfolding mm using find_from(1) [OF less.prems(2)] by blast
    have "(field, v) \<notin> set es" for v
      using stored_field_hit [OF pack data _ field(2)] less.prems(3) no by blast
    then have "map_of es field = None" by (auto simp: map_of_eq_None_iff)
    then show ?thesis using None less.prems(2) by (subst listpack_get_loop.simps) simp
  next
    case (Some offset)
    define t where "t = cursor + offset - 1"
    have t: "cursor + offset = Suc t" using less.prems(1) by (simp add: t_def)
    have occ: "occurs_at data field (Suc t)" and first: "\<forall>j. cursor \<le> j \<and> j < Suc t \<longrightarrow> \<not> occurs_at data field j"
      using find_from(2) [OF less.prems(2), of field offset] Some unfolding mm t by auto
    then have lt: "Suc t < length data" using field(1) by (cases field) (auto simp: occurs_at_def)
    show ?thesis
    proof (cases "listpack_entry_starts_at data t \<and> unat (data ! t) = length field")
      case True
      with hit_is_entry [OF pack data occ] obtain v where v: "(field, v) \<in> set es"
          "do { value_len \<leftarrow> get_at data (Suc t + length field);
                slice data (Suc t + length field + 1) (Suc t + length field + 1 + unat value_len) } = Some v" by blast
      then have "map_of es field = Some v" using es by simp
      then show ?thesis
        using Some less.prems(2) True t v(2) lt by (subst listpack_get_loop.simps) (simp add: get_at_def)
    next
      case False
      have "Suc t + 1 \<le> Suc u" if "listpack_entry_starts_at data u" "occurs_at data field (Suc u)"
          "unat (data ! u) = length field" for u
        using less.prems(3) [OF that] first False that by (metis Suc_eq_plus1 Suc_leI Suc_less_eq linorder_neqE_nat)
      then have "listpack_get_loop memmem data field (Suc t + 1) = Some (map_of es field)"
        using lt t by (intro less.hyps) auto
      then show ?thesis
        using Some less.prems(2) False t lt by (subst listpack_get_loop.simps) (auto simp: get_at_def)
    qed
  qed
qed

lemma listpack_get_rep:
  assumes D: "hash_laws D" and rep: "hash_rep D h m" and lp: "is_listpack h"
    and field: "field \<noteq> []" "length field \<le> 255"
  shows "listpack_get D h field = Some (map_option (\<lambda>f. as_bytes (hd_values D) (hf_value f)) (m field))"
proof -
  obtain data body where l: "ho_listpack h = Some data" "pack_entries (packed_fields D h) = Some body"
      "data = le_bytes 4 (4 + length body) @ body"
    using rep lp by (auto simp: hash_rep_def hash_inv_def is_listpack_def split: option.splits)
  have es: "distinct (map fst (packed_fields D h))"
    using table_lawsD(2) [OF hash_laws_table [OF D], of "ho_fields h"] by (simp add: packed_fields_def case_prod_beta comp_def)
  have mm: "\<And>hay needle. hd_memmem D hay needle = find (occurs_at hay needle) [0..<Suc (length hay)]"
    using D by (simp add: hash_laws_def)
  have start: "4 \<le> Suc t" if "listpack_entry_starts_at data t" for t
  proof -
    have "4 \<le> t" if "t \<in> set (starts p es)" "4 \<le> p" for p es using that
      by (induction p es rule: starts.induct) auto
    then show ?thesis
      using that entry_starts_pack [OF l(2), of "le_bytes 4 (4 + length body)" t] l(3)
      by (fastforce simp: listpack_entry_starts_at_def)
  qed
  have "listpack_get_loop (hd_memmem D) data field 4 = Some (map_of (packed_fields D h) field)"
    by (rule listpack_get_loop_pack [OF mm l(2,3) _ es field]) (use start l(3) in auto)
  moreover have "map_of (packed_fields D h) = (\<lambda>k. map_option (\<lambda>f. as_bytes (hd_values D) (hf_value f)) (m k))"
    using rep by (auto simp: packed_fields_def map_of_map hash_rep_def fun_eq_iff comp_def)
  ultimately show ?thesis using l field by (simp add: listpack_get_def)
qed

section \<open>Operation sequences\<close>

datatype 'o hash_op = HSet bytes "'o senko_value" "nat option" | HDelete bytes | HGet bytes nat | HGetMut bytes nat
  | HExists bytes nat | HLen nat | HDrain nat

datatype 'o hash_out = HFlag bool | HField "'o hash_field option" | HCount nat

fun hash_step :: "('t, 'o) hash_deps \<Rightarrow> 't hash_object \<Rightarrow> 'o hash_op \<Rightarrow> ('o hash_out \<times> 't hash_object) option" where
  "hash_step D h (HSet k v e) = Some (apfst HFlag (hash_set D h k v e))"
| "hash_step D h (HDelete k) = Some (apfst HFlag (hash_delete D h k))"
| "hash_step D h (HGet k now) = Some (HField (hash_get D h k now), h)"
| "hash_step D h (HGetMut k now) = Some (apfst HField (hash_get_mut D h k now))"
| "hash_step D h (HExists k now) = Some (HFlag (hash_exists D h k now), h)"
| "hash_step D h (HLen now) = Some (HCount (hash_len D h now), h)"
| "hash_step D h (HDrain now) = Some (apfst HCount (drain_expired D h now))"

text \<open>The specification: a finite map from fields to values with expiry times.\<close>

fun field_map_step ::
    "(bytes \<Rightarrow> 'o hash_field option) \<Rightarrow> 'o hash_op \<Rightarrow> 'o hash_out \<times> (bytes \<Rightarrow> 'o hash_field option)" where
  "field_map_step m (HSet k v e) = (HFlag (k \<notin> dom m), m(k \<mapsto> \<lparr>hf_value = v, hf_expires_at = e\<rparr>))"
| "field_map_step m (HDelete k) = (HFlag (k \<in> dom m), m(k := None))"
| "field_map_step m (HGet k now) = (HField (live m now k), m)"
| "field_map_step m (HGetMut k now) = (HField (live m now k), if live m now k = None then m(k := None) else m)"
| "field_map_step m (HExists k now) = (HFlag (live m now k \<noteq> None), m)"
| "field_map_step m (HLen now) = (HCount (card (dom (live m now))), m)"
| "field_map_step m (HDrain now) = (HCount (card (dom m) - card (dom (live m now))), live m now)"

fun hash_op_ok :: "(bytes \<Rightarrow> 'o hash_field option) \<Rightarrow> 'o hash_op \<Rightarrow> bool" where
  "hash_op_ok m (HSet k v e) \<longleftrightarrow> card (dom m) < u32_max"
| "hash_op_ok m op \<longleftrightarrow> True"

lemma hash_get_live: "table_laws (hd_table D) \<Longrightarrow> hash_rep D h m \<Longrightarrow> hash_get D h k now = live m now k"
  by (simp add: hash_get_rep live_def)

lemma hash_get_mut_rep:
  assumes T: "table_laws (hd_table D)" and rep: "hash_rep D h m"
  shows "fst (hash_get_mut D h k now) = live m now k \<and>
         hash_rep D (snd (hash_get_mut D h k now)) (if live m now k = None then m(k := None) else m)"
proof (cases "m k")
  case None
  then show ?thesis
    using rep by (auto simp: hash_get_mut_def hash_rep_def table_lawsD(3) [OF T] live_def fun_upd_idem)
next
  case (Some f)
  then show ?thesis
    using rep hash_delete_rep [OF T rep, of k]
    by (auto simp: hash_get_mut_def table_lawsD(3) [OF T] live_def) (simp_all add: hash_rep_def)
qed

lemma hash_step_refines:
  assumes "table_laws (hd_table D)" and "hash_rep D h m" and "hash_op_ok m op"
  shows "\<exists>h'. hash_step D h op = Some (fst (field_map_step m op), h') \<and> hash_rep D h' (snd (field_map_step m op))"
  using assms hash_set_rep [OF assms(1,2)] hash_delete_rep [OF assms(1,2)] hash_get_mut_rep [OF assms(1,2)]
    drain_expired_rep [OF assms(1,2)] hash_len_rep [OF assms(1,2)] hash_get_live [OF assms(1,2)]
  by (cases op) (simp_all add: prod_eq_iff hash_exists_def)

lemma hash_simulation:
  "table_laws (hd_table D) \<Longrightarrow> simulation (hash_step D) field_map_step (hash_rep D) hash_op_ok"
  by unfold_locales (rule hash_step_refines)

text \<open>An instance of the parameters; doubles print as their bit pattern here.\<close>

definition reference_hash_deps :: "((bytes \<times> unit hash_field) list, unit) hash_deps" where
  "reference_hash_deps =
     \<lparr>hd_table = reference_table,
      hd_values = \<lparr>str_parse_f64 = (\<lambda>s. None), f64_to_string = (\<lambda>x. dec_nat (unat x)), json_to_string = (\<lambda>_. [])\<rparr>,
      hd_memmem = (\<lambda>hay needle. find (occurs_at hay needle) [0..<Suc (length hay)])\<rparr>"

lemma reference_hash_laws: "hash_laws reference_hash_deps"
  by (simp add: hash_laws_def reference_hash_deps_def reference_table_laws)

interpretation hashes: simulation "hash_step reference_hash_deps" field_map_step "hash_rep reference_hash_deps" hash_op_ok
  by (rule hash_simulation [OF hash_laws_table [OF reference_hash_laws]])

section \<open>Properties of hash values\<close>

text \<open>C10. Any sequence of field writes, deletions, reads, lengths and purges on a fresh hash returns at
  every step what the same operations return on a map from fields to values with expiry times, in which
  a field is visible until its deadline.\<close>

theorem hash_refines_map:
  assumes "hash_laws D" and "ok_ops field_map_step hash_op_ok Map.empty ops"
  shows "\<exists>h. run_c (hash_step D) (hash_with_hasher D) ops = Some (fst (run_a field_map_step Map.empty ops), h) \<and>
           (\<forall>k now. hash_get D h k now = live (snd (run_a field_map_step Map.empty ops)) now k)"
proof -
  note T = hash_laws_table [OF assms(1)]
  obtain h where "run_c (hash_step D) (hash_with_hasher D) ops = Some (fst (run_a field_map_step Map.empty ops), h)"
      "hash_rep D h (snd (run_a field_map_step Map.empty ops))"
    using simulation.run [OF hash_simulation [OF T] hash_rep_new [OF T] assms(2)] by blast
  then show ?thesis using hash_get_live [OF T] by blast
qed

theorem hash_refines_map_witness:
  "\<exists>h. run_c (hash_step reference_hash_deps) (hash_with_hasher reference_hash_deps)
         [HSet [1] (IntVal 5) (Some 100), HSet [2] (Raw [9]) None, HLen 100, HDrain 100, HExists [1] 0]
       = Some ([HFlag True, HFlag True, HCount 1, HCount 1, HFlag False], h)"
proof -
  let ?ops = "[HSet [1] (IntVal 5) (Some 100), HSet [2] (Raw [9]) None, HLen 100, HDrain 100, HExists [1] 0]
                :: unit hash_op list"
  define f1 f2 where "f1 = \<lparr>hf_value = IntVal 5 :: unit senko_value, hf_expires_at = Some 100\<rparr>"
    and "f2 = \<lparr>hf_value = Raw [9] :: unit senko_value, hf_expires_at = None\<rparr>"
  have l: "live [[1] \<mapsto> f1, [2] \<mapsto> f2] 100 = [[2] \<mapsto> f2]"
    by (auto simp: live_def is_expired_def f1_def f2_def fun_eq_iff)
  have "fst (run_a field_map_step Map.empty ?ops) = [HFlag True, HFlag True, HCount 1, HCount 1, HFlag False]"
    using l by (simp add: f1_def [symmetric] f2_def [symmetric]) (simp add: live_def)
  then show ?thesis
    using hash_refines_map [OF reference_hash_laws, of ?ops] by auto
qed

text \<open>After any sequence of operations the packed copy of a small hash, when there is one, decodes to
  exactly the stored fields, its lookup of any field returns what the table holds, and no field of the
  hash has an expiry time.\<close>

theorem listpack_mirror_exact:
  assumes "hash_laws D" and "ok_ops field_map_step hash_op_ok Map.empty ops"
    and "run_c (hash_step D) (hash_with_hasher D) ops = Some (outs, h)" and "is_listpack h"
  shows "decode_listpack_entries h = packed_fields D h \<and> \<not> any_expiry D (ho_fields h) \<and>
         (field \<noteq> [] \<and> length field \<le> 255 \<longrightarrow>
            listpack_get D h field =
              Some (map_option (\<lambda>f. as_bytes (hd_values D) (hf_value f)) (hash_get D h field now)))"
proof -
  note T = hash_laws_table [OF assms(1)]
  obtain m where rep: "hash_rep D h m"
    using simulation.run [OF hash_simulation [OF T] hash_rep_new [OF T] assms(2)] assms(3) by auto
  obtain data body where l: "ho_listpack h = Some data" "pack_entries (packed_fields D h) = Some body"
      "data = le_bytes 4 (4 + length body) @ body" and ne: "\<not> any_expiry D (ho_fields h)"
    using rep assms(4) by (auto simp: hash_rep_def hash_inv_def is_listpack_def split: option.splits)
  have "decode_listpack_entries h = packed_fields D h"
    using decode_loop_pack [OF l(2), of "le_bytes 4 (4 + length body)"] l(1,3)
    by (simp add: decode_listpack_entries_def)
  moreover have "live m now = m"
    using ne rep by (intro live_no_expiry) (auto simp: any_expiry_iff [OF T] hash_rep_def)
  ultimately show ?thesis
    using listpack_get_rep [OF assms(1) rep assms(4)] hash_get_live [OF T rep] ne by simp
qed

theorem listpack_mirror_exact_witness:
  "\<exists>h. run_c (hash_step reference_hash_deps) (hash_with_hasher reference_hash_deps)
         [HSet [97] (Raw [98]) None, HSet [98] (Raw [97]) None] = Some ([HFlag True, HFlag True], h) \<and>
       is_listpack h \<and> listpack_get reference_hash_deps h [97] = Some (Some [98]) \<and>
       listpack_get reference_hash_deps h [99] = Some None"
proof -
  let ?ops = "[HSet [97] (Raw [98]) None, HSet [98] (Raw [97]) None] :: unit hash_op list"
  define h where "h = snd (the (run_c (hash_step reference_hash_deps) (hash_with_hasher reference_hash_deps) ?ops))"
  have r: "run_c (hash_step reference_hash_deps) (hash_with_hasher reference_hash_deps) ?ops = Some ([HFlag True, HFlag True], h)"
    and lp: "is_listpack h" and g: "hash_get reference_hash_deps h [97] 0 = Some \<lparr>hf_value = Raw [98], hf_expires_at = None\<rparr>"
      "hash_get reference_hash_deps h [99] 0 = None"
    by (simp_all add: h_def reference_hash_deps_def reference_table_def hash_set_def hash_with_hasher_def hash_get_def
        refresh_encoding_def can_encode_listpack_def encode_listpack_entries_def as_bytes_def sat_add32_def
        is_listpack_def is_expired_def)
  have ok: "ok_ops field_map_step hash_op_ok Map.empty ?ops" by simp
  show ?thesis
    using r lp g listpack_mirror_exact [OF reference_hash_laws ok r lp, of "[97]" 0]
      listpack_mirror_exact [OF reference_hash_laws ok r lp, of "[99]" 0]
    by (auto simp: as_bytes_def)
qed

end
