(* ===== verification/Float64.thy ===== *)
theory Float64
  imports Prelude
begin

text \<open>
  The double precision arithmetic the sources use, on the 64-bit pattern of a double: classification,
  the comparisons of IEEE 754, for which every number is placed by its sign and magnitude and a NaN
  compares with nothing, and addition rounded to the nearest double, ties to even. Every finite double
  is an integer multiple of \<open>2 ^ - 1074\<close>, so the exact sum is an integer in that unit.
\<close>

definition f64_magnitude :: "f64 \<Rightarrow> nat" where
  "f64_magnitude x = unat x mod 2 ^ 63"

definition f64_negative :: "f64 \<Rightarrow> bool" where
  "f64_negative x \<longleftrightarrow> 2 ^ 63 \<le> unat x"

definition f64_inf_bits :: nat where
  "f64_inf_bits = 2047 * 2 ^ 52"

definition is_nan :: "f64 \<Rightarrow> bool" where
  "is_nan x \<longleftrightarrow> f64_inf_bits < f64_magnitude x"

definition f64_infinite :: "f64 \<Rightarrow> bool" where
  "f64_infinite x \<longleftrightarrow> f64_magnitude x = f64_inf_bits"

text \<open>The place of a number in the order of the doubles; both zeros have the same place.\<close>

definition f64_rank :: "f64 \<Rightarrow> int" where
  "f64_rank x = (if f64_negative x then - int (f64_magnitude x) else int (f64_magnitude x))"

definition f64_lt :: "f64 \<Rightarrow> f64 \<Rightarrow> bool" where
  "f64_lt x y \<longleftrightarrow> \<not> is_nan x \<and> \<not> is_nan y \<and> f64_rank x < f64_rank y"

definition f64_le :: "f64 \<Rightarrow> f64 \<Rightarrow> bool" where
  "f64_le x y \<longleftrightarrow> \<not> is_nan x \<and> \<not> is_nan y \<and> f64_rank x \<le> f64_rank y"

definition f64_eq :: "f64 \<Rightarrow> f64 \<Rightarrow> bool" where
  "f64_eq x y \<longleftrightarrow> \<not> is_nan x \<and> \<not> is_nan y \<and> f64_rank x = f64_rank y"

definition f64_zero :: f64 where
  "f64_zero = 0"

text \<open>The bits of a magnitude and a sign.\<close>

definition f64_signed :: "bool \<Rightarrow> nat \<Rightarrow> f64" where
  "f64_signed neg m = of_nat (if neg then 2 ^ 63 + m else m)"

definition f64_nan :: f64 where
  "f64_nan = of_nat (f64_inf_bits + 2 ^ 51)"

text \<open>A finite magnitude in units of \<open>2 ^ - 1074\<close>: exponent field \<open>e\<close> and mantissa field \<open>m\<close>.\<close>

definition f64_units :: "nat \<Rightarrow> nat" where
  "f64_units b = (let e = b div 2 ^ 52; m = b mod 2 ^ 52 in if e = 0 then m else (2 ^ 52 + m) * 2 ^ (e - 1))"

definition f64_value :: "f64 \<Rightarrow> int" where
  "f64_value x = (if f64_negative x then - int (f64_units (f64_magnitude x)) else int (f64_units (f64_magnitude x)))"

text \<open>Rounding shifts out \<open>k\<close> bits, to the even neighbour in a tie. The sum of the exponent and the
  mantissa carries into the exponent when rounding reaches the next power of two.\<close>

fun bit_length :: "nat \<Rightarrow> nat" where
  "bit_length n = (if n = 0 then 0 else Suc (bit_length (n div 2)))"

declare bit_length.simps [simp del]

definition round_shift :: "nat \<Rightarrow> nat \<Rightarrow> nat" where
  "round_shift n k =
     (let q = n div 2 ^ k; r = n mod 2 ^ k in
      if 2 ^ k < 2 * r \<or> (2 ^ k = 2 * r \<and> odd q) then q + 1 else q)"

definition f64_round :: "nat \<Rightarrow> nat" where
  "f64_round n = (let k = bit_length n - 53 in min f64_inf_bits (k * 2 ^ 52 + round_shift n k))"

definition f64_add :: "f64 \<Rightarrow> f64 \<Rightarrow> f64" where
  "f64_add x y =
     (if is_nan x \<or> is_nan y then f64_nan
      else if f64_infinite x then (if f64_infinite y \<and> f64_negative x \<noteq> f64_negative y then f64_nan else x)
      else if f64_infinite y then y
      else let s = f64_value x + f64_value y in
           if s = 0 then f64_signed (f64_negative x \<and> f64_negative y) 0
           else f64_signed (s < 0) (f64_round (nat \<bar>s\<bar>)))"

lemmas f64_compare_defs = f64_lt_def f64_le_def f64_eq_def

lemma f64_inf_bits_less: "f64_inf_bits < 2 ^ 63"
  by (simp add: f64_inf_bits_def)

lemma f64_magnitude_signed: "m < 2 ^ 63 \<Longrightarrow> f64_magnitude (f64_signed neg m) = m"
  by (simp add: f64_magnitude_def f64_signed_def unat_of_nat take_bit_nat_def)

lemma f64_round_le: "f64_round n \<le> f64_inf_bits"
  by (simp add: f64_round_def Let_def)

lemma is_nan_f64_nan [simp]: "is_nan f64_nan"
  by (simp add: is_nan_def f64_nan_def f64_magnitude_def f64_inf_bits_def)

lemma not_nan_signed: "m \<le> f64_inf_bits \<Longrightarrow> \<not> is_nan (f64_signed neg m)"
  using f64_inf_bits_less by (simp add: is_nan_def f64_magnitude_signed)

text \<open>A sum is a number unless a summand is not or the summands are opposite infinities.\<close>

lemma f64_add_nan_iff:
  "is_nan (f64_add x y) \<longleftrightarrow> is_nan x \<or> is_nan y \<or>
     (f64_infinite x \<and> f64_infinite y \<and> f64_negative x \<noteq> f64_negative y)"
  by (auto simp: f64_add_def Let_def not_nan_signed f64_round_le)

lemma f64_add_commute: "f64_add x y = f64_add y x" if "\<not> f64_infinite x \<or> \<not> f64_infinite y"
  using that by (auto simp: f64_add_def Let_def add.commute conj_commute)

section \<open>Products, quotients and square roots\<close>

text \<open>Rounding of the quotient of two natural numbers, in units of \<open>2 ^ - 1074\<close>, to the nearest double, ties to even.\<close>

definition f64_round_ratio :: "nat \<Rightarrow> nat \<Rightarrow> nat" where
  "f64_round_ratio p q =
     (let k = bit_length (p div q) - 53; d = q * 2 ^ k; n = p div d; r = p mod d;
          m = (if d < 2 * r \<or> (d = 2 * r \<and> odd n) then n + 1 else n)
      in min f64_inf_bits (k * 2 ^ 52 + m))"

definition f64_neg :: "f64 \<Rightarrow> f64" where
  "f64_neg x = f64_signed (\<not> f64_negative x) (f64_magnitude x)"

definition f64_abs :: "f64 \<Rightarrow> f64" where
  "f64_abs x = f64_signed False (f64_magnitude x)"

definition f64_sub :: "f64 \<Rightarrow> f64 \<Rightarrow> f64" where
  "f64_sub x y = (if is_nan y then f64_nan else f64_add x (f64_neg y))"

definition f64_mul :: "f64 \<Rightarrow> f64 \<Rightarrow> f64" where
  "f64_mul x y =
     (let neg = (f64_negative x \<noteq> f64_negative y) in
      if is_nan x \<or> is_nan y then f64_nan
      else if f64_infinite x then (if f64_magnitude y = 0 then f64_nan else f64_signed neg f64_inf_bits)
      else if f64_infinite y then (if f64_magnitude x = 0 then f64_nan else f64_signed neg f64_inf_bits)
      else f64_signed neg (f64_round_ratio (f64_units (f64_magnitude x) * f64_units (f64_magnitude y)) (2 ^ 1074)))"

definition f64_div :: "f64 \<Rightarrow> f64 \<Rightarrow> f64" where
  "f64_div x y =
     (let neg = (f64_negative x \<noteq> f64_negative y) in
      if is_nan x \<or> is_nan y then f64_nan
      else if f64_infinite x then (if f64_infinite y then f64_nan else f64_signed neg f64_inf_bits)
      else if f64_infinite y then f64_signed neg 0
      else if f64_magnitude y = 0 then (if f64_magnitude x = 0 then f64_nan else f64_signed neg f64_inf_bits)
      else f64_signed neg (f64_round_ratio (f64_units (f64_magnitude x) * 2 ^ 1074) (f64_units (f64_magnitude y))))"

text \<open>The integer square root, and the square root of a double: two more binary digits and a sticky digit decide the rounding.\<close>

definition floor_root :: "nat \<Rightarrow> nat" where
  "floor_root n = fold (\<lambda>i r. if (r + 2 ^ i) * (r + 2 ^ i) \<le> n then r + 2 ^ i else r) (rev [0..<bit_length n div 2 + 1]) 0"

definition f64_sqrt :: "f64 \<Rightarrow> f64" where
  "f64_sqrt x =
     (if is_nan x then f64_nan
      else if f64_magnitude x = 0 then x
      else if f64_negative x then f64_nan
      else if f64_infinite x then x
      else let n = f64_units (f64_magnitude x) * 2 ^ 1074 * 4; s = floor_root n
           in f64_signed False (f64_round_ratio (2 * s + of_bool (s * s \<noteq> n)) 4))"

text \<open>\<open>as f64\<close> of an integer, \<open>f64::min\<close> and \<open>f64::max\<close>, which ignore one operand that is no number.\<close>

definition f64_of_int :: "int \<Rightarrow> f64" where
  "f64_of_int n = f64_signed (n < 0) (f64_round (nat \<bar>n\<bar> * 2 ^ 1074))"

definition f64_min :: "f64 \<Rightarrow> f64 \<Rightarrow> f64" where
  "f64_min x y = (if is_nan x then y else if is_nan y then x else if f64_lt y x then y else x)"

definition f64_max :: "f64 \<Rightarrow> f64 \<Rightarrow> f64" where
  "f64_max x y = (if is_nan x then y else if is_nan y then x else if f64_lt x y then y else x)"


end
