(* ===== verification/BPTree.thy ===== *)
theory BPTree
  imports Float64 "HOL-Library.Monad_Syntax" "HOL-Library.List_Lexorder" "HOL-Library.Product_Lexorder"
begin

text \<open>
  The B+ tree behind large sorted sets (\<open>senko-core/src/zset/bptree.rs\<close>): leaves of at most 14
  entries chained in both directions, inner nodes of at most 21 separators with the sizes of their
  subtrees, all in an arena of slabs. Nodes refer to each other by arena index, so a descent, a walk
  along the leaves or the insertion into a subtree is a \<open>partial_function\<close>: \<open>None\<close> is a panic (a
  failed \<open>expect\<close>, index or drain) or a walk that does not end, and the theorems show that neither
  happens on the trees the operations build. Lengths and subtree sizes are 64-bit words.
\<close>

section \<open>Data\<close>

definition LEAF_CAPACITY :: nat where "LEAF_CAPACITY = 14"
definition INNER_CAPACITY :: nat where "INNER_CAPACITY = 21"
definition MIN_LEAF_ITEMS :: nat where "MIN_LEAF_ITEMS = LEAF_CAPACITY div 2"
definition MIN_INNER_KEYS :: nat where "MIN_INNER_KEYS = INNER_CAPACITY div 2"
definition SLAB_SIZE :: nat where "SLAB_SIZE = 256"

lemmas capacity_defs = LEAF_CAPACITY_def INNER_CAPACITY_def MIN_LEAF_ITEMS_def MIN_INNER_KEYS_def

type_synonym NodeId = nat

datatype InsertResult = Inserted | Updated f64

datatype ScoreBound = Inclusive f64 | Exclusive f64 | NegInf | PosInf

text \<open>\<open>LexBoundOwned\<close> has the same constructors, on owned bytes.\<close>

datatype LexBound = LexInclusive bytes | LexExclusive bytes | LexMin | LexMax

record ZSetEntry =
  score :: f64
  member :: bytes

text \<open>\<open>EntryKey\<close> has the fields of \<open>ZSetEntry\<close>, and \<open>from_entry\<close> copies them.\<close>

type_synonym EntryKey = ZSetEntry

record LeafNode =
  entries :: "ZSetEntry list"
  next_leaf :: "NodeId option"
  prev_leaf :: "NodeId option"

record InnerNode =
  keys :: "EntryKey list"
  children :: "NodeId list"
  child_sizes :: "64 word list"

datatype Node = Leaf LeafNode | Inner InnerNode

section \<open>The arena\<close>

record NodeArena =
  slabs :: "Node option list list"
  free_list :: "NodeId list"
  next_id :: nat
  live_nodes :: nat

definition arena_default :: NodeArena where
  "arena_default = \<lparr>slabs = [], free_list = [], next_id = 0, live_nodes = 0\<rparr>"

definition arena_slot :: "NodeArena \<Rightarrow> NodeId \<Rightarrow> Node option option" where
  "arena_slot a i = do { slab \<leftarrow> get_at (slabs a) (i div SLAB_SIZE); get_at slab (i mod SLAB_SIZE) }"

definition arena_set_slot :: "NodeArena \<Rightarrow> NodeId \<Rightarrow> Node \<Rightarrow> NodeArena option" where
  "arena_set_slot a i node = do {
     _ \<leftarrow> arena_slot a i;
     Some (a\<lparr>slabs := (slabs a)[i div SLAB_SIZE := (slabs a ! (i div SLAB_SIZE))[i mod SLAB_SIZE := Some node]]\<rparr>)
   }"

definition arena_alloc :: "NodeArena \<Rightarrow> Node \<Rightarrow> (NodeId \<times> NodeArena) option" where
  "arena_alloc a node =
     (let a = a\<lparr>live_nodes := live_nodes a + 1\<rparr> in
      if free_list a \<noteq> [] then
        let i = last (free_list a)
        in map_option (Pair i) (arena_set_slot (a\<lparr>free_list := butlast (free_list a)\<rparr>) i node)
      else
        let i = next_id a;
            a = (if i = length (slabs a) * SLAB_SIZE then a\<lparr>slabs := slabs a @ [replicate SLAB_SIZE None]\<rparr> else a)
        in map_option (Pair i) (arena_set_slot (a\<lparr>next_id := next_id a + 1\<rparr>) i node))"

definition arena_get :: "NodeArena \<Rightarrow> NodeId \<Rightarrow> Node option" where
  "arena_get a i = do { slot \<leftarrow> arena_slot a i; slot }"

text \<open>Writing through the reference \<open>get_mut\<close> returns.\<close>

definition arena_put :: "NodeArena \<Rightarrow> NodeId \<Rightarrow> Node \<Rightarrow> NodeArena option" where
  "arena_put a i node = do { _ \<leftarrow> arena_get a i; arena_set_slot a i node }"

definition arena_clear :: "NodeArena \<Rightarrow> NodeArena" where
  "arena_clear a = a\<lparr>slabs := [], free_list := [], next_id := 0, live_nodes := 0\<rparr>"

section \<open>Keys\<close>

datatype Ordering = Less | Equal | Greater

definition bytes_cmp :: "bytes \<Rightarrow> bytes \<Rightarrow> Ordering" where
  "bytes_cmp a b = (if a < b then Less else if a = b then Equal else Greater)"

definition scores_equal :: "f64 \<Rightarrow> f64 \<Rightarrow> bool" where
  "scores_equal lhs rhs = f64_eq lhs rhs"

definition compare_key :: "f64 \<Rightarrow> bytes \<Rightarrow> f64 \<Rightarrow> bytes \<Rightarrow> Ordering" where
  "compare_key score_a member_a score_b member_b =
     (if f64_lt score_a score_b then Less
      else if f64_lt score_b score_a then Greater
      else bytes_cmp member_a member_b)"

definition entry_matches :: "ZSetEntry \<Rightarrow> f64 \<Rightarrow> bytes \<Rightarrow> bool" where
  "entry_matches entry s m \<longleftrightarrow> scores_equal (score entry) s \<and> member entry = m"

text \<open>\<open>slice::partition_point\<close> on a slice partitioned by the predicate.\<close>

definition partition_point :: "('a \<Rightarrow> bool) \<Rightarrow> 'a list \<Rightarrow> nat" where
  "partition_point p xs = length (takeWhile p xs)"

definition lower_bound_entry :: "ZSetEntry list \<Rightarrow> f64 \<Rightarrow> bytes \<Rightarrow> nat" where
  "lower_bound_entry es s m = partition_point (\<lambda>entry. compare_key (score entry) (member entry) s m = Less) es"

definition child_index_for_key :: "EntryKey list \<Rightarrow> f64 \<Rightarrow> bytes \<Rightarrow> nat" where
  "child_index_for_key ks s m = partition_point (\<lambda>key. compare_key (score key) (member key) s m \<noteq> Greater) ks"

definition child_index_for_score_bound :: "EntryKey list \<Rightarrow> ScoreBound \<Rightarrow> nat" where
  "child_index_for_score_bound ks bound = (case bound of
      Inclusive s \<Rightarrow> partition_point (\<lambda>key. f64_lt (score key) s) ks
    | Exclusive s \<Rightarrow> partition_point (\<lambda>key. f64_le (score key) s) ks
    | NegInf \<Rightarrow> 0
    | PosInf \<Rightarrow> length ks)"

definition score_lower_predicate :: "f64 \<Rightarrow> ScoreBound \<Rightarrow> bool" where
  "score_lower_predicate s bound = (case bound of
      Inclusive mn \<Rightarrow> f64_lt s mn
    | Exclusive mn \<Rightarrow> f64_le s mn
    | NegInf \<Rightarrow> False
    | PosInf \<Rightarrow> True)"

definition score_within_upper_bound :: "f64 \<Rightarrow> ScoreBound \<Rightarrow> bool" where
  "score_within_upper_bound s bound = (case bound of
      Inclusive mx \<Rightarrow> f64_le s mx \<or> scores_equal s mx
    | Exclusive mx \<Rightarrow> f64_lt s mx \<and> \<not> scores_equal s mx
    | NegInf \<Rightarrow> False
    | PosInf \<Rightarrow> True)"

definition lex_within_lower_bound :: "bytes \<Rightarrow> LexBound \<Rightarrow> bool" where
  "lex_within_lower_bound m bound = (case bound of
      LexInclusive mn \<Rightarrow> mn \<le> m
    | LexExclusive mn \<Rightarrow> mn < m
    | LexMin \<Rightarrow> True
    | LexMax \<Rightarrow> False)"

definition lex_matches_upper_bound :: "bytes \<Rightarrow> LexBound \<Rightarrow> bool" where
  "lex_matches_upper_bound m bound = (case bound of
      LexInclusive mx \<Rightarrow> m \<le> mx
    | LexExclusive mx \<Rightarrow> m < mx
    | LexMin \<Rightarrow> False
    | LexMax \<Rightarrow> True)"

section \<open>The tree\<close>

record BPTree =
  root :: "NodeId option"
  leftmost :: "NodeId option"
  rightmost :: "NodeId option"
  tree_len :: "64 word"
  arena :: NodeArena
  member_scores :: "bytes \<rightharpoonup> f64"

definition bptree_new :: BPTree where
  "bptree_new = \<lparr>root = None, leftmost = None, rightmost = None, tree_len = 0, arena = arena_default, member_scores = Map.empty\<rparr>"

definition bptree_is_empty :: "BPTree \<Rightarrow> bool" where
  "bptree_is_empty t \<longleftrightarrow> tree_len t = 0"

definition node_count :: "BPTree \<Rightarrow> nat" where
  "node_count t = live_nodes (arena t)"

partial_function (option) height_loop :: "BPTree \<Rightarrow> NodeId \<Rightarrow> nat \<Rightarrow> nat option" where
  "height_loop t node_id h =
     (case arena_get (arena t) node_id of
        None \<Rightarrow> None
      | Some (Leaf _) \<Rightarrow> Some h
      | Some (Inner n) \<Rightarrow> do { c \<leftarrow> get_at (children n) 0; height_loop t c (h + 1) })"

definition height :: "BPTree \<Rightarrow> nat option" where
  "height t = (case root t of None \<Rightarrow> Some 0 | Some node_id \<Rightarrow> height_loop t node_id 1)"

definition bptree_clear :: "BPTree \<Rightarrow> BPTree" where
  "bptree_clear t = t\<lparr>root := None, leftmost := None, rightmost := None, tree_len := 0, member_scores := Map.empty,
     arena := arena_clear (arena t)\<rparr>"

definition leaf :: "BPTree \<Rightarrow> NodeId \<Rightarrow> LeafNode option" where
  "leaf t node_id = (case arena_get (arena t) node_id of Some (Leaf l) \<Rightarrow> Some l | _ \<Rightarrow> None)"

definition inner :: "BPTree \<Rightarrow> NodeId \<Rightarrow> InnerNode option" where
  "inner t node_id = (case arena_get (arena t) node_id of Some (Inner n) \<Rightarrow> Some n | _ \<Rightarrow> None)"

text \<open>Writing through \<open>leaf_mut\<close>, \<open>inner_mut\<close>, and allocating.\<close>

definition put_leaf :: "BPTree \<Rightarrow> NodeId \<Rightarrow> LeafNode \<Rightarrow> BPTree option" where
  "put_leaf t node_id l = do { _ \<leftarrow> leaf t node_id; a \<leftarrow> arena_put (arena t) node_id (Leaf l); Some (t\<lparr>arena := a\<rparr>) }"

definition put_inner :: "BPTree \<Rightarrow> NodeId \<Rightarrow> InnerNode \<Rightarrow> BPTree option" where
  "put_inner t node_id n = do { _ \<leftarrow> inner t node_id; a \<leftarrow> arena_put (arena t) node_id (Inner n); Some (t\<lparr>arena := a\<rparr>) }"

definition alloc_node :: "BPTree \<Rightarrow> Node \<Rightarrow> (NodeId \<times> BPTree) option" where
  "alloc_node t node = do { (i, a) \<leftarrow> arena_alloc (arena t) node; Some (i, t\<lparr>arena := a\<rparr>) }"

definition subtree_size :: "BPTree \<Rightarrow> NodeId \<Rightarrow> 64 word option" where
  "subtree_size t node_id = (case arena_get (arena t) node_id of
      None \<Rightarrow> None
    | Some (Leaf l) \<Rightarrow> Some (of_nat (length (entries l)))
    | Some (Inner n) \<Rightarrow> Some (sum_list (child_sizes n)))"

section \<open>Insertion\<close>

text \<open>\<open>SmallVec::insert\<close> and \<open>drain(k..)\<close> panic out of range.\<close>

definition vec_insert :: "nat \<Rightarrow> 'a \<Rightarrow> 'a list \<Rightarrow> 'a list option" where
  "vec_insert i x xs = (if i \<le> length xs then Some (insert_at i x xs) else None)"

definition vec_drain :: "nat \<Rightarrow> 'a list \<Rightarrow> ('a list \<times> 'a list) option" where
  "vec_drain k xs = (if k \<le> length xs then Some (drop k xs, take k xs) else None)"

definition split_leaf :: "BPTree \<Rightarrow> NodeId \<Rightarrow> ((EntryKey \<times> NodeId) option \<times> BPTree) option" where
  "split_leaf t node_id = do {
     l \<leftarrow> leaf t node_id;
     let next = next_leaf l;
     (right_entries, left_entries) \<leftarrow> vec_drain MIN_LEAF_ITEMS (entries l);
     t \<leftarrow> put_leaf t node_id (l\<lparr>entries := left_entries, next_leaf := None\<rparr>);
     (right_id, t) \<leftarrow> alloc_node t (Leaf \<lparr>entries = right_entries, next_leaf = next, prev_leaf = Some node_id\<rparr>);
     l \<leftarrow> leaf t node_id;
     t \<leftarrow> put_leaf t node_id (l\<lparr>next_leaf := Some right_id\<rparr>);
     t \<leftarrow> (case next of
             Some next_node \<Rightarrow> do { n \<leftarrow> leaf t next_node; put_leaf t next_node (n\<lparr>prev_leaf := Some right_id\<rparr>) }
           | None \<Rightarrow> Some (t\<lparr>rightmost := Some right_id\<rparr>));
     right \<leftarrow> leaf t right_id;
     separator \<leftarrow> get_at (entries right) 0;
     Some (Some (separator, right_id), t)
   }"

definition insert_into_leaf :: "BPTree \<Rightarrow> NodeId \<Rightarrow> ZSetEntry \<Rightarrow> ((EntryKey \<times> NodeId) option \<times> BPTree) option" where
  "insert_into_leaf t node_id entry = do {
     l \<leftarrow> leaf t node_id;
     es \<leftarrow> vec_insert (lower_bound_entry (entries l) (score entry) (member entry)) entry (entries l);
     t \<leftarrow> put_leaf t node_id (l\<lparr>entries := es\<rparr>);
     if length es \<le> LEAF_CAPACITY then Some (None, t) else split_leaf t node_id
   }"

text \<open>The conditional at the end of \<open>split_inner\<close> holds a \<open>debug_assert\<close> only. After the drain of the
  right separators the one at \<open>split_at\<close> is cut off by \<open>truncate\<close>.\<close>

definition split_inner :: "BPTree \<Rightarrow> NodeId \<Rightarrow> ((EntryKey \<times> NodeId) option \<times> BPTree) option" where
  "split_inner t node_id = do {
     n \<leftarrow> inner t node_id;
     let split_at = length (keys n) div 2;
     separator \<leftarrow> get_at (keys n) split_at;
     (right_keys, left_keys) \<leftarrow> vec_drain (split_at + 1) (keys n);
     (right_children, left_children) \<leftarrow> vec_drain (split_at + 1) (children n);
     (right_sizes, left_sizes) \<leftarrow> vec_drain (split_at + 1) (child_sizes n);
     t \<leftarrow> put_inner t node_id \<lparr>keys = take split_at left_keys, children = left_children, child_sizes = left_sizes\<rparr>;
     (right_id, t) \<leftarrow> alloc_node t (Inner \<lparr>keys = right_keys, children = right_children, child_sizes = right_sizes\<rparr>);
     Some (Some (separator, right_id), t)
   }"

text \<open>What \<open>insert_recursive\<close> does after the call on the child.\<close>

definition insert_child ::
    "BPTree \<Rightarrow> NodeId \<Rightarrow> nat \<Rightarrow> NodeId \<Rightarrow> (EntryKey \<times> NodeId) option \<Rightarrow> ((EntryKey \<times> NodeId) option \<times> BPTree) option" where
  "insert_child t node_id child_index child_id split = (case split of
      Some (separator, right_id) \<Rightarrow> do {
        left_size \<leftarrow> subtree_size t child_id;
        right_size \<leftarrow> subtree_size t right_id;
        n \<leftarrow> inner t node_id;
        ks \<leftarrow> vec_insert child_index separator (keys n);
        cs \<leftarrow> vec_insert (child_index + 1) right_id (children n);
        _ \<leftarrow> get_at (child_sizes n) child_index;
        ss \<leftarrow> vec_insert (child_index + 1) right_size ((child_sizes n)[child_index := left_size]);
        t \<leftarrow> put_inner t node_id \<lparr>keys = ks, children = cs, child_sizes = ss\<rparr>;
        if INNER_CAPACITY < length ks then split_inner t node_id else Some (None, t)
      }
    | None \<Rightarrow> do {
        n \<leftarrow> inner t node_id;
        size \<leftarrow> get_at (child_sizes n) child_index;
        t \<leftarrow> put_inner t node_id (n\<lparr>child_sizes := (child_sizes n)[child_index := size + 1]\<rparr>);
        Some (None, t)
      })"

partial_function (option) insert_recursive ::
    "BPTree \<Rightarrow> NodeId \<Rightarrow> ZSetEntry \<Rightarrow> ((EntryKey \<times> NodeId) option \<times> BPTree) option" where
  "insert_recursive t node_id entry =
     (case arena_get (arena t) node_id of
        None \<Rightarrow> None
      | Some (Leaf _) \<Rightarrow> insert_into_leaf t node_id entry
      | Some (Inner n) \<Rightarrow> do {
          let child_index = child_index_for_key (keys n) (score entry) (member entry);
          child_id \<leftarrow> get_at (children n) child_index;
          (split, t) \<leftarrow> insert_recursive t child_id entry;
          insert_child t node_id child_index child_id split
        })"

definition insert_new_entry :: "BPTree \<Rightarrow> ZSetEntry \<Rightarrow> BPTree option" where
  "insert_new_entry t entry = (case root t of
      None \<Rightarrow> do {
        (node_id, t) \<leftarrow> alloc_node t (Leaf \<lparr>entries = [entry], next_leaf = None, prev_leaf = None\<rparr>);
        Some (t\<lparr>root := Some node_id, leftmost := Some node_id, rightmost := Some node_id, tree_len := 1\<rparr>)
      }
    | Some r \<Rightarrow> do {
        (split, t) \<leftarrow> insert_recursive t r entry;
        t \<leftarrow> (case split of
                None \<Rightarrow> Some t
              | Some (separator, right_id) \<Rightarrow> do {
                  left_size \<leftarrow> subtree_size t r;
                  right_size \<leftarrow> subtree_size t right_id;
                  (new_root, t) \<leftarrow> alloc_node t
                    (Inner \<lparr>keys = [separator], children = [r, right_id], child_sizes = [left_size, right_size]\<rparr>);
                  Some (t\<lparr>root := Some new_root\<rparr>)
                });
        Some (t\<lparr>tree_len := tree_len t + 1\<rparr>)
      })"

section \<open>Searching\<close>

record SearchPath =
  path_leaf :: NodeId
  path_index :: nat
  found :: bool
  path_rank :: "64 word"

partial_function (option) search_loop :: "BPTree \<Rightarrow> EntryKey \<Rightarrow> NodeId \<Rightarrow> 64 word \<Rightarrow> SearchPath option" where
  "search_loop t key node_id rank =
     (case arena_get (arena t) node_id of
        None \<Rightarrow> None
      | Some (Leaf l) \<Rightarrow>
          (let index = lower_bound_entry (entries l) (score key) (member key)
           in Some \<lparr>path_leaf = node_id, path_index = index,
                    found = (case get_at (entries l) index of
                               None \<Rightarrow> False | Some entry \<Rightarrow> entry_matches entry (score key) (member key)),
                    path_rank = rank + of_nat index\<rparr>)
      | Some (Inner n) \<Rightarrow> do {
          let child_index = child_index_for_key (keys n) (score key) (member key);
          sizes \<leftarrow> slice (child_sizes n) 0 child_index;
          child_id \<leftarrow> get_at (children n) child_index;
          search_loop t key child_id (rank + sum_list sizes)
        })"

text \<open>The inner option is the one the code returns.\<close>

definition search_key :: "BPTree \<Rightarrow> EntryKey \<Rightarrow> SearchPath option option" where
  "search_key t key = (case root t of
      None \<Rightarrow> Some None
    | Some node_id \<Rightarrow> map_option Some (search_loop t key node_id 0))"

fun skip_children :: "64 word list \<Rightarrow> 64 word \<Rightarrow> nat \<times> 64 word" where
  "skip_children [] rank = (0, rank)"
| "skip_children (sz # sizes) rank =
     (if sz \<le> rank then (case skip_children sizes (rank - sz) of (i, r) \<Rightarrow> (Suc i, r)) else (0, rank))"

partial_function (option) locate_loop :: "BPTree \<Rightarrow> NodeId \<Rightarrow> 64 word \<Rightarrow> (NodeId \<times> nat) option option" where
  "locate_loop t node_id rank =
     (case arena_get (arena t) node_id of
        None \<Rightarrow> None
      | Some (Leaf l) \<Rightarrow> Some (if rank < of_nat (length (entries l)) then Some (node_id, unat rank) else None)
      | Some (Inner n) \<Rightarrow>
          (case skip_children (child_sizes n) rank of
             (child_index, rank) \<Rightarrow> do { child_id \<leftarrow> get_at (children n) child_index; locate_loop t child_id rank }))"

definition locate_by_rank :: "BPTree \<Rightarrow> 64 word \<Rightarrow> (NodeId \<times> nat) option option" where
  "locate_by_rank t rank = (case root t of None \<Rightarrow> Some None | Some node_id \<Rightarrow> locate_loop t node_id rank)"

record ScoreSearchHit =
  hit_leaf :: NodeId
  hit_index :: nat
  hit_rank :: "64 word"

partial_function (option) first_hit :: "BPTree \<Rightarrow> NodeId \<Rightarrow> nat \<Rightarrow> 64 word \<Rightarrow> ScoreSearchHit option option" where
  "first_hit t current_leaf index current_rank = do {
     l \<leftarrow> leaf t current_leaf;
     if index < length (entries l) then Some (Some \<lparr>hit_leaf = current_leaf, hit_index = index, hit_rank = current_rank\<rparr>)
     else case next_leaf l of
            None \<Rightarrow> Some None
          | Some next \<Rightarrow> first_hit t next 0 (current_rank + of_nat (length (entries l) - index))
   }"

partial_function (option) lower_bound_loop :: "BPTree \<Rightarrow> ScoreBound \<Rightarrow> NodeId \<Rightarrow> 64 word \<Rightarrow> ScoreSearchHit option option" where
  "lower_bound_loop t bound node_id rank =
     (case arena_get (arena t) node_id of
        None \<Rightarrow> None
      | Some (Leaf l) \<Rightarrow>
          (let index = partition_point (\<lambda>entry. score_lower_predicate (score entry) bound) (entries l)
           in first_hit t node_id index (rank + of_nat index))
      | Some (Inner n) \<Rightarrow> do {
          let child_index = min (child_index_for_score_bound (keys n) bound) (length (children n) - 1);
          sizes \<leftarrow> slice (child_sizes n) 0 child_index;
          child_id \<leftarrow> get_at (children n) child_index;
          lower_bound_loop t bound child_id (rank + sum_list sizes)
        })"

definition lower_bound_score :: "BPTree \<Rightarrow> ScoreBound \<Rightarrow> ScoreSearchHit option option" where
  "lower_bound_score t bound = (case root t of None \<Rightarrow> Some None | Some node_id \<Rightarrow> lower_bound_loop t bound node_id 0)"

definition entry_at :: "BPTree \<Rightarrow> NodeId \<Rightarrow> nat \<Rightarrow> ZSetEntry option option" where
  "entry_at t leaf_id index = map_option (\<lambda>l. get_at (entries l) index) (leaf t leaf_id)"

definition hit_score :: "BPTree \<Rightarrow> ScoreSearchHit \<Rightarrow> f64 option" where
  "hit_score t hit = do { l \<leftarrow> leaf t (hit_leaf hit); e \<leftarrow> get_at (entries l) (hit_index hit); Some (score e) }"

definition hit_advance :: "BPTree \<Rightarrow> ScoreSearchHit \<Rightarrow> (bool \<times> ScoreSearchHit) option" where
  "hit_advance t hit = do {
     l \<leftarrow> leaf t (hit_leaf hit);
     if hit_index hit + 1 < length (entries l)
     then Some (True, hit\<lparr>hit_index := hit_index hit + 1, hit_rank := hit_rank hit + 1\<rparr>)
     else case next_leaf l of
            None \<Rightarrow> Some (False, hit)
          | Some next \<Rightarrow> Some (True, hit\<lparr>hit_leaf := next, hit_index := 0, hit_rank := hit_rank hit + 1\<rparr>)
   }"

section \<open>Ranges\<close>

datatype IterStop = StopNone | StopScore ScoreBound | StopLex LexBound f64

record BPTreeRangeIter =
  current_leaf :: "NodeId option"
  iter_index :: nat
  remaining :: nat
  reversed :: bool
  iter_stop :: IterStop

definition empty_iter :: BPTreeRangeIter where
  "empty_iter = \<lparr>current_leaf = None, iter_index = 0, remaining = 0, reversed = False, iter_stop = StopNone\<rparr>"

definition stops_at :: "IterStop \<Rightarrow> ZSetEntry \<Rightarrow> bool" where
  "stops_at st entry = (case st of
      StopNone \<Rightarrow> False
    | StopScore mx \<Rightarrow> \<not> score_within_upper_bound (score entry) mx
    | StopLex mx s \<Rightarrow> \<not> scores_equal (score entry) s \<or> \<not> lex_matches_upper_bound (member entry) mx)"

text \<open>The index of the last entry of the leaf a reversed walk moves to.\<close>

definition last_index :: "BPTree \<Rightarrow> NodeId option \<Rightarrow> nat option" where
  "last_index t next = (case next of None \<Rightarrow> Some 0 | Some n \<Rightarrow> do { l \<leftarrow> leaf t n; Some (length (entries l) - 1) })"

partial_function (option) next_loop :: "BPTree \<Rightarrow> BPTreeRangeIter \<Rightarrow> ((f64 \<times> bytes) option \<times> BPTreeRangeIter) option" where
  "next_loop t it = (case current_leaf it of
      None \<Rightarrow> Some (None, it)
    | Some leaf_id \<Rightarrow> do {
        l \<leftarrow> leaf t leaf_id;
        if length (entries l) \<le> iter_index it then
          (let to = (if reversed it then prev_leaf l else next_leaf l)
           in do { i \<leftarrow> (if reversed it then last_index t to else Some 0);
                   next_loop t (it\<lparr>current_leaf := to, iter_index := i\<rparr>) })
        else
          (let entry = entries l ! iter_index it
           in if stops_at (iter_stop it) entry then Some (None, it\<lparr>current_leaf := None\<rparr>)
              else
                (let it' = it\<lparr>remaining := (if remaining it = u64_max then remaining it else remaining it - 1)\<rparr>
                 in do {
                   it' \<leftarrow> (if reversed it then
                            (if iter_index it = 0
                             then do { i \<leftarrow> last_index t (prev_leaf l); Some (it'\<lparr>current_leaf := prev_leaf l, iter_index := i\<rparr>) }
                             else Some (it'\<lparr>iter_index := iter_index it - 1\<rparr>))
                          else Some (it'\<lparr>iter_index := iter_index it + 1\<rparr>));
                   Some (Some (score entry, member entry), it')
                 }))
      })"

definition range_next :: "BPTree \<Rightarrow> BPTreeRangeIter \<Rightarrow> ((f64 \<times> bytes) option \<times> BPTreeRangeIter) option" where
  "range_next t it = (if remaining it = 0 then Some (None, it) else next_loop t it)"

partial_function (option) range_collect :: "BPTree \<Rightarrow> BPTreeRangeIter \<Rightarrow> (f64 \<times> bytes) list option" where
  "range_collect t it = do {
     (out, it) \<leftarrow> range_next t it;
     (case out of
        None \<Rightarrow> Some []
      | Some x \<Rightarrow> do { xs \<leftarrow> range_collect t it; Some (x # xs) })
   }"

definition bptree_range_by_rank :: "BPTree \<Rightarrow> 64 word \<Rightarrow> 64 word \<Rightarrow> BPTreeRangeIter option" where
  "bptree_range_by_rank t start stop =
     (if start > stop \<or> start \<ge> tree_len t then Some empty_iter
      else
        let stop = min stop (if tree_len t = 0 then 0 else tree_len t - 1)
        in do {
          at \<leftarrow> locate_by_rank t start;
          (case at of
             None \<Rightarrow> Some empty_iter
           | Some (leaf_id, index) \<Rightarrow>
               Some \<lparr>current_leaf = Some leaf_id, iter_index = index, remaining = unat (stop - start + 1),
                     reversed = False, iter_stop = StopNone\<rparr>)
        })"

definition bptree_range_by_score :: "BPTree \<Rightarrow> ScoreBound \<Rightarrow> ScoreBound \<Rightarrow> BPTreeRangeIter option" where
  "bptree_range_by_score t mn mx = do {
     hit \<leftarrow> lower_bound_score t mn;
     (case hit of
        None \<Rightarrow> Some empty_iter
      | Some hit \<Rightarrow> do {
          s \<leftarrow> hit_score t hit;
          if \<not> score_within_upper_bound s mx then Some empty_iter
          else Some \<lparr>current_leaf = Some (hit_leaf hit), iter_index = hit_index hit, remaining = u64_max,
                     reversed = False, iter_stop = StopScore mx\<rparr>
        })
   }"

partial_function (option) lex_start :: "BPTree \<Rightarrow> LexBound \<Rightarrow> f64 \<Rightarrow> ScoreSearchHit \<Rightarrow> ScoreSearchHit option option" where
  "lex_start t mn s hit = do {
     entry \<leftarrow> entry_at t (hit_leaf hit) (hit_index hit);
     (case entry of
        None \<Rightarrow> Some (Some hit)
      | Some entry \<Rightarrow>
          (if \<not> scores_equal (score entry) s then Some None
           else if lex_within_lower_bound (member entry) mn then Some (Some hit)
           else do {
             (more, hit) \<leftarrow> hit_advance t hit;
             if \<not> more then Some None else lex_start t mn s hit
           }))
   }"

definition bptree_range_by_lex :: "BPTree \<Rightarrow> LexBound \<Rightarrow> LexBound \<Rightarrow> f64 \<Rightarrow> BPTreeRangeIter option" where
  "bptree_range_by_lex t mn mx s = do {
     hit \<leftarrow> lower_bound_score t (Inclusive s);
     (case hit of
        None \<Rightarrow> Some empty_iter
      | Some hit \<Rightarrow> do {
          start \<leftarrow> lex_start t mn s hit;
          (case start of
             None \<Rightarrow> Some empty_iter
           | Some hit \<Rightarrow>
               Some \<lparr>current_leaf = Some (hit_leaf hit), iter_index = hit_index hit, remaining = u64_max,
                     reversed = False, iter_stop = StopLex mx s\<rparr>)
        })
   }"

definition count_in_score_range :: "BPTree \<Rightarrow> ScoreBound \<Rightarrow> ScoreBound \<Rightarrow> 64 word option" where
  "count_in_score_range t mn mx = do { it \<leftarrow> bptree_range_by_score t mn mx; xs \<leftarrow> range_collect t it; Some (of_nat (length xs)) }"

definition count_in_lex_range :: "BPTree \<Rightarrow> LexBound \<Rightarrow> LexBound \<Rightarrow> f64 \<Rightarrow> 64 word option" where
  "count_in_lex_range t mn mx s = do { it \<leftarrow> bptree_range_by_lex t mn mx s; xs \<leftarrow> range_collect t it; Some (of_nat (length xs)) }"

section \<open>Removal\<close>

partial_function (option) collect_loop :: "BPTree \<Rightarrow> NodeId option \<Rightarrow> ZSetEntry list option" where
  "collect_loop t current = (case current of
      None \<Rightarrow> Some []
    | Some node_id \<Rightarrow> do { l \<leftarrow> leaf t node_id; es \<leftarrow> collect_loop t (next_leaf l); Some (entries l @ es) })"

definition collect_entries :: "BPTree \<Rightarrow> ZSetEntry list option" where
  "collect_entries t = collect_loop t (leftmost t)"

fun insert_entries :: "BPTree \<Rightarrow> ZSetEntry list \<Rightarrow> BPTree option" where
  "insert_entries t [] = Some t"
| "insert_entries t (e # es) = do { t \<leftarrow> insert_new_entry t e; insert_entries t es }"

definition rebuild_tree :: "BPTree \<Rightarrow> BPTree option" where
  "rebuild_tree t = do {
     es \<leftarrow> collect_entries t;
     insert_entries (t\<lparr>root := None, leftmost := None, rightmost := None, tree_len := 0, arena := arena_clear (arena t)\<rparr>) es
   }"

definition remove_exact :: "BPTree \<Rightarrow> EntryKey \<Rightarrow> bool \<Rightarrow> (bool \<times> BPTree) option" where
  "remove_exact t key remove_from_index = do {
     path \<leftarrow> search_key t key;
     (case path of
        None \<Rightarrow> Some (False, t)
      | Some path \<Rightarrow>
          if \<not> found path then Some (False, t)
          else do {
            l \<leftarrow> leaf t (path_leaf path);
            removed \<leftarrow> get_at (entries l) (path_index path);
            t \<leftarrow> put_leaf t (path_leaf path) (l\<lparr>entries := remove_at (path_index path) (entries l)\<rparr>);
            let t = (if remove_from_index then t\<lparr>member_scores := (member_scores t)(member removed := None)\<rparr> else t);
            let t = t\<lparr>tree_len := tree_len t - 1\<rparr>;
            if tree_len t = 0
            then Some (True, t\<lparr>root := None, leftmost := None, rightmost := None, arena := arena_clear (arena t)\<rparr>)
            else do { t \<leftarrow> rebuild_tree t; Some (True, t) }
          })
   }"

section \<open>Operations\<close>

definition bptree_insert :: "BPTree \<Rightarrow> f64 \<Rightarrow> bytes \<Rightarrow> (InsertResult \<times> BPTree) option" where
  "bptree_insert t s m = (case member_scores t m of
      Some old_score \<Rightarrow>
        if scores_equal old_score s then Some (Updated old_score, t)
        else do {
          (_, t) \<leftarrow> remove_exact t \<lparr>score = old_score, member = m\<rparr> False;
          t \<leftarrow> insert_new_entry (t\<lparr>member_scores := (member_scores t)(m \<mapsto> s)\<rparr>) \<lparr>score = s, member = m\<rparr>;
          Some (Updated old_score, t)
        }
    | None \<Rightarrow> do {
        t \<leftarrow> insert_new_entry (t\<lparr>member_scores := (member_scores t)(m \<mapsto> s)\<rparr>) \<lparr>score = s, member = m\<rparr>;
        Some (Inserted, t)
      })"

definition bptree_remove :: "BPTree \<Rightarrow> bytes \<Rightarrow> (f64 option \<times> BPTree) option" where
  "bptree_remove t m =
     (if \<not> utf8_valid m then Some (None, t)
      else case member_scores t m of
             None \<Rightarrow> Some (None, t)
           | Some s \<Rightarrow> do {
               (removed, t) \<leftarrow> remove_exact t \<lparr>score = s, member = m\<rparr> True;
               Some (if removed then Some s else None, t)
             })"

definition bptree_get_score :: "BPTree \<Rightarrow> f64 \<Rightarrow> bytes \<Rightarrow> bool" where
  "bptree_get_score t s m \<longleftrightarrow> utf8_valid m \<and>
     (case member_scores t m of None \<Rightarrow> False | Some stored \<Rightarrow> scores_equal stored s)"

definition rank_of :: "BPTree \<Rightarrow> f64 \<Rightarrow> bytes \<Rightarrow> 64 word option option" where
  "rank_of t s m =
     (if \<not> utf8_valid m then Some None
      else do {
        path \<leftarrow> search_key t \<lparr>score = s, member = m\<rparr>;
        Some (case path of None \<Rightarrow> None | Some path \<Rightarrow> if found path then Some (path_rank path) else None)
      })"

definition rank_of_rev :: "BPTree \<Rightarrow> f64 \<Rightarrow> bytes \<Rightarrow> 64 word option option" where
  "rank_of_rev t s m = do { rank \<leftarrow> rank_of t s m; Some (map_option (\<lambda>rank. tree_len t - 1 - rank) rank) }"

text \<open>\<open>pop_min\<close> and \<open>pop_max\<close> differ in the leaf and the end of it they take.\<close>

definition pop_entry :: "BPTree \<Rightarrow> ZSetEntry \<Rightarrow> ((f64 \<times> bytes) option \<times> BPTree) option" where
  "pop_entry t e = do {
     (removed, t) \<leftarrow> remove_exact t \<lparr>score = score e, member = member e\<rparr> True;
     Some (if removed then Some (score e, member e) else None, t)
   }"

definition bptree_pop_min :: "BPTree \<Rightarrow> ((f64 \<times> bytes) option \<times> BPTree) option" where
  "bptree_pop_min t = (case leftmost t of
      None \<Rightarrow> Some (None, t)
    | Some leaf_id \<Rightarrow> do {
        l \<leftarrow> leaf t leaf_id;
        (case entries l of [] \<Rightarrow> Some (None, t) | first # _ \<Rightarrow> pop_entry t first)
      })"

definition bptree_pop_max :: "BPTree \<Rightarrow> ((f64 \<times> bytes) option \<times> BPTree) option" where
  "bptree_pop_max t = (case rightmost t of
      None \<Rightarrow> Some (None, t)
    | Some leaf_id \<Rightarrow> do {
        l \<leftarrow> leaf t leaf_id;
        (if entries l = [] then Some (None, t) else pop_entry t (last (entries l)))
      })"

section \<open>The arena is a map\<close>

text \<open>No operation returns a node to the free list, so the populated slots are those below \<open>next_id\<close>.\<close>

definition arena_ok :: "NodeArena \<Rightarrow> bool" where
  "arena_ok a \<longleftrightarrow> free_list a = [] \<and> (\<forall>s \<in> set (slabs a). length s = SLAB_SIZE) \<and>
     next_id a \<le> length (slabs a) * SLAB_SIZE \<and> (\<forall>i. arena_get a i \<noteq> None \<longleftrightarrow> i < next_id a)"

lemma SLAB_SIZE_pos [simp]: "0 < SLAB_SIZE"
  by (simp add: SLAB_SIZE_def)

lemma arena_ok_default: "arena_ok arena_default"
  by (simp add: arena_ok_def arena_default_def arena_get_def arena_slot_def get_at_def)

lemma arena_clear_default: "arena_clear a = arena_default"
  by (simp add: arena_clear_def arena_default_def)

lemma slot_in_range:
  assumes "\<forall>s \<in> set (slabs a). length s = SLAB_SIZE"
  shows "arena_slot a i \<noteq> None \<longleftrightarrow> i < length (slabs a) * SLAB_SIZE"
proof -
  have "i < length (slabs a) * SLAB_SIZE \<longleftrightarrow> i div SLAB_SIZE < length (slabs a)"
    by (simp add: less_mult_imp_div_less div_less_iff_less_mult)
  then show ?thesis using assms
    by (auto simp: arena_slot_def get_at_def bind_eq_None_conv)
qed

lemma slot_set:
  assumes "\<forall>s \<in> set (slabs a). length s = SLAB_SIZE" and "i < length (slabs a) * SLAB_SIZE"
  shows "\<exists>a'. arena_set_slot a i n = Some a' \<and> arena_get a' = (arena_get a)(i \<mapsto> n) \<and>
    next_id a' = next_id a \<and> free_list a' = free_list a \<and> length (slabs a') = length (slabs a) \<and> (\<forall>s \<in> set (slabs a'). length s = SLAB_SIZE)"
proof -
  have i: "i div SLAB_SIZE < length (slabs a)"
    using assms(2) by (simp add: less_mult_imp_div_less)
  define row where "row = (slabs a ! (i div SLAB_SIZE))[i mod SLAB_SIZE := Some n]"
  let ?a = "a\<lparr>slabs := (slabs a)[i div SLAB_SIZE := row]\<rparr>"
  have row: "length row = SLAB_SIZE" using assms(1) i by (simp add: row_def)
  have "arena_set_slot a i n = Some ?a"
    using slot_in_range [OF assms(1), of i] assms(2) by (auto simp: arena_set_slot_def row_def)
  moreover have "\<forall>s \<in> set (slabs ?a). length s = SLAB_SIZE"
    using assms(1) row by (auto dest!: set_update_subset_insert [THEN subsetD])
  moreover have "arena_get ?a j = ((arena_get a)(i \<mapsto> n)) j" for j
  proof (cases "j div SLAB_SIZE = i div SLAB_SIZE")
    case True
    have "j = i \<longleftrightarrow> j mod SLAB_SIZE = i mod SLAB_SIZE"
      using True by (metis div_mult_mod_eq)
    then show ?thesis
      using True i row assms(1) by (auto simp: arena_get_def arena_slot_def get_at_def row_def nth_list_update)
  next
    case False
    then show ?thesis by (auto simp: arena_get_def arena_slot_def get_at_def nth_list_update)
  qed
  ultimately show ?thesis by (intro exI [of _ ?a]) (auto simp: fun_eq_iff)
qed

lemma arena_put_map:
  assumes "arena_ok a" and "i < next_id a"
  shows "\<exists>a'. arena_put a i n = Some a' \<and> arena_ok a' \<and> next_id a' = next_id a \<and> arena_get a' = (arena_get a)(i \<mapsto> n)"
proof -
  have "i < length (slabs a) * SLAB_SIZE" using assms by (auto simp: arena_ok_def)
  from slot_set [OF _ this, of n] assms(1) obtain a' where a': "arena_set_slot a i n = Some a'"
      "arena_get a' = (arena_get a)(i \<mapsto> n)" "next_id a' = next_id a" "free_list a' = free_list a" "length (slabs a') = length (slabs a)"
      "\<forall>s \<in> set (slabs a'). length s = SLAB_SIZE"
    by (auto simp: arena_ok_def)
  obtain old where "arena_get a i = Some old" using assms by (auto simp: arena_ok_def)
  then have "arena_put a i n = Some a'" using a'(1) by (simp add: arena_put_def)
  then show ?thesis using a' assms by (auto simp: arena_ok_def)
qed

lemma arena_alloc_map:
  assumes "arena_ok a"
  shows "\<exists>a'. arena_alloc a n = Some (next_id a, a') \<and> arena_ok a' \<and> next_id a' = Suc (next_id a) \<and>
           arena_get a' = (arena_get a)(next_id a \<mapsto> n)"
proof -
  define a1 where "a1 = a\<lparr>live_nodes := live_nodes a + 1,
      slabs := (if next_id a = length (slabs a) * SLAB_SIZE then slabs a @ [replicate SLAB_SIZE None] else slabs a),
      next_id := next_id a + 1\<rparr>"
  have rows: "\<forall>s \<in> set (slabs a1). length s = SLAB_SIZE" and "next_id a < length (slabs a1) * SLAB_SIZE"
    using assms by (auto simp: a1_def arena_ok_def)
  then obtain a' where a': "arena_set_slot a1 (next_id a) n = Some a'" "arena_get a' = (arena_get a1)(next_id a \<mapsto> n)"
      "next_id a' = next_id a1" "free_list a' = free_list a1" "length (slabs a') = length (slabs a1)" "\<forall>s \<in> set (slabs a'). length s = SLAB_SIZE"
    using slot_set by blast
  have same: "next_id a' = Suc (next_id a)" "free_list a' = []"
    using assms a'(3,4) by (simp_all add: a1_def arena_ok_def)
  have "arena_alloc a n = map_option (Pair (next_id a)) (arena_set_slot a1 (next_id a) n)"
    using assms by (simp add: arena_alloc_def a1_def arena_ok_def Let_def)
  moreover have get: "arena_get a1 i = arena_get a i" for i
    by (auto simp: arena_get_def arena_slot_def get_at_def a1_def nth_append bind_eq_None_conv less_Suc_eq)
  moreover have "next_id a' \<le> length (slabs a') * SLAB_SIZE"
    using \<open>next_id a < length (slabs a1) * SLAB_SIZE\<close> same a'(5) by simp
  ultimately show ?thesis using a' same assms
    by (intro exI [of _ a']) (auto simp: arena_ok_def fun_eq_iff less_Suc_eq)
qed

text \<open>The tree after a write and after an allocation, and its nodes as a map.\<close>

abbreviation nodes :: "BPTree \<Rightarrow> NodeId \<Rightarrow> Node option" where
  "nodes t \<equiv> arena_get (arena t)"

abbreviation nxt :: "BPTree \<Rightarrow> NodeId" where
  "nxt t \<equiv> next_id (arena t)"

abbreviation good_arena :: "BPTree \<Rightarrow> bool" where
  "good_arena t \<equiv> arena_ok (arena t)"

definition set_node :: "BPTree \<Rightarrow> NodeId \<Rightarrow> Node \<Rightarrow> BPTree" where
  "set_node t i n = t\<lparr>arena := the (arena_put (arena t) i n)\<rparr>"

definition new_node :: "BPTree \<Rightarrow> Node \<Rightarrow> BPTree" where
  "new_node t n = t\<lparr>arena := snd (the (arena_alloc (arena t) n))\<rparr>"

lemma node_present: "good_arena t \<Longrightarrow> nodes t i = Some n \<Longrightarrow> i < nxt t"
  unfolding arena_ok_def by (metis option.distinct(1))

lemma set_node_fields [simp]:
  "root (set_node t i n) = root t" "leftmost (set_node t i n) = leftmost t" "rightmost (set_node t i n) = rightmost t"
  "tree_len (set_node t i n) = tree_len t" "member_scores (set_node t i n) = member_scores t"
  by (simp_all add: set_node_def)

lemma new_node_fields [simp]:
  "root (new_node t n) = root t" "leftmost (new_node t n) = leftmost t" "rightmost (new_node t n) = rightmost t"
  "tree_len (new_node t n) = tree_len t" "member_scores (new_node t n) = member_scores t"
  by (simp_all add: new_node_def)

lemma set_node_arena:
  assumes "good_arena t" and "i < nxt t"
  shows "arena_put (arena t) i n = Some (arena (set_node t i n))"
    and "nodes (set_node t i n) = (nodes t)(i \<mapsto> n)"
    and "good_arena (set_node t i n)" and "nxt (set_node t i n) = nxt t"
  using arena_put_map [OF assms, of n] by (auto simp: set_node_def)

lemma new_node_arena:
  assumes "good_arena t"
  shows "arena_alloc (arena t) n = Some (nxt t, arena (new_node t n))"
    and "nodes (new_node t n) = (nodes t)(nxt t \<mapsto> n)"
    and "good_arena (new_node t n)" and "nxt (new_node t n) = Suc (nxt t)"
  using arena_alloc_map [OF assms, of n] by (auto simp: new_node_def)

lemma set_node_eq: "good_arena t \<Longrightarrow> i < nxt t \<Longrightarrow> t\<lparr>arena := arena (set_node t i n)\<rparr> = set_node t i n"
  by (simp add: set_node_def)

lemma leaf_present: "nodes t i = Some (Leaf l) \<Longrightarrow> leaf t i = Some l"
  by (simp add: leaf_def)

lemma inner_present: "nodes t i = Some (Inner n) \<Longrightarrow> inner t i = Some n"
  by (simp add: inner_def)

lemma put_leaf_eq: "good_arena t \<Longrightarrow> nodes t i = Some (Leaf l0) \<Longrightarrow> put_leaf t i l = Some (set_node t i (Leaf l))"
  using node_present [of t i] set_node_arena(1) [of t i "Leaf l"]
  by (simp add: put_leaf_def leaf_present set_node_eq)

lemma put_inner_eq: "good_arena t \<Longrightarrow> nodes t i = Some (Inner n0) \<Longrightarrow> put_inner t i n = Some (set_node t i (Inner n))"
  using node_present [of t i] set_node_arena(1) [of t i "Inner n"]
  by (simp add: put_inner_def inner_present set_node_eq)

lemma alloc_node_eq: "good_arena t \<Longrightarrow> alloc_node t n = Some (nxt t, new_node t n)"
  using new_node_arena(1) [of t n] by (simp add: alloc_node_def)

section \<open>The tree of the nodes\<close>

text \<open>The order of the entries: by score, then by member.\<close>

definition key_of :: "ZSetEntry \<Rightarrow> int \<times> bytes" where
  "key_of e = (f64_rank (score e), member e)"

abbreviation number :: "ZSetEntry \<Rightarrow> bool" where
  "number e \<equiv> \<not> is_nan (score e)"

lemma compare_key_less:
  "number a \<Longrightarrow> \<not> is_nan s \<Longrightarrow> compare_key (score a) (member a) s m = Less \<longleftrightarrow> key_of a < (f64_rank s, m)"
  by (auto simp: compare_key_def bytes_cmp_def f64_compare_defs key_of_def less_prod_def)

lemma compare_key_not_greater:
  "number a \<Longrightarrow> \<not> is_nan s \<Longrightarrow> compare_key (score a) (member a) s m \<noteq> Greater \<longleftrightarrow> key_of a \<le> (f64_rank s, m)"
  by (auto simp: compare_key_def bytes_cmp_def f64_compare_defs key_of_def less_eq_prod_def)

text \<open>A tree with the arena index of every node.\<close>

datatype btree = BLeaf NodeId "ZSetEntry list" | BNode NodeId "btree list" "EntryKey list"

fun bid :: "btree \<Rightarrow> NodeId" where
  "bid (BLeaf i es) = i"
| "bid (BNode i ts ks) = i"

fun flat :: "btree \<Rightarrow> ZSetEntry list" where
  "flat (BLeaf i es) = es"
| "flat (BNode i ts ks) = concat (map flat ts)"

fun lids :: "btree \<Rightarrow> NodeId list" where
  "lids (BLeaf i es) = [i]"
| "lids (BNode i ts ks) = concat (map lids ts)"

fun ids :: "btree \<Rightarrow> NodeId list" where
  "ids (BLeaf i es) = [i]"
| "ids (BNode i ts ks) = i # concat (map ids ts)"

abbreviation flats :: "btree list \<Rightarrow> ZSetEntry list" where "flats ts \<equiv> concat (map flat ts)"
abbreviation idss :: "btree list \<Rightarrow> NodeId list" where "idss ts \<equiv> concat (map ids ts)"
abbreviation lidss :: "btree list \<Rightarrow> NodeId list" where "lidss ts \<equiv> concat (map lids ts)"

definition node_of :: "btree list \<Rightarrow> EntryKey list \<Rightarrow> InnerNode" where
  "node_of ts ks = \<lparr>keys = ks, children = map bid ts, child_sizes = map (\<lambda>t. of_nat (length (flat t))) ts\<rparr>"

text \<open>What a node holds, its links apart.\<close>

definition body :: "(NodeId \<Rightarrow> Node option) \<Rightarrow> NodeId \<Rightarrow> (ZSetEntry list + InnerNode) option" where
  "body M i = (case M i of None \<Rightarrow> None | Some (Leaf l) \<Rightarrow> Some (Inl (entries l)) | Some (Inner n) \<Rightarrow> Some (Inr n))"

fun holds :: "(NodeId \<Rightarrow> Node option) \<Rightarrow> btree \<Rightarrow> bool" where
  "holds M (BLeaf i es) \<longleftrightarrow> body M i = Some (Inl es)"
| "holds M (BNode i ts ks) \<longleftrightarrow> body M i = Some (Inr (node_of ts ks)) \<and> (\<forall>t \<in> set ts. holds M t)"

text \<open>The links of consecutive leaves, between a leaf before and a leaf after them.\<close>

definition hd_or :: "'a list \<Rightarrow> 'a option \<Rightarrow> 'a option" where
  "hd_or xs d = (case xs of [] \<Rightarrow> d | x # _ \<Rightarrow> Some x)"

definition last_or :: "'a list \<Rightarrow> 'a option \<Rightarrow> 'a option" where
  "last_or xs d = (if xs = [] then d else Some (last xs))"

fun chain :: "(NodeId \<Rightarrow> Node option) \<Rightarrow> NodeId option \<Rightarrow> NodeId list \<Rightarrow> NodeId option \<Rightarrow> bool" where
  "chain M pv [] nx \<longleftrightarrow> True"
| "chain M pv (i # is) nx \<longleftrightarrow>
     (\<exists>l. M i = Some (Leaf l) \<and> prev_leaf l = pv \<and> next_leaf l = hd_or is nx) \<and> chain M (Some i) is nx"

text \<open>Balance, fill and order. A node other than the root is at least half full.\<close>

fun balanced :: "nat \<Rightarrow> btree \<Rightarrow> bool" where
  "balanced h (BLeaf i es) \<longleftrightarrow> h = 0"
| "balanced h (BNode i ts ks) \<longleftrightarrow> (case h of 0 \<Rightarrow> False | Suc h' \<Rightarrow> \<forall>t \<in> set ts. balanced h' t)"

fun sized :: "bool \<Rightarrow> btree \<Rightarrow> bool" where
  "sized is_root (BLeaf i es) \<longleftrightarrow> (if is_root then 1 else MIN_LEAF_ITEMS) \<le> length es \<and> length es \<le> LEAF_CAPACITY"
| "sized is_root (BNode i ts ks) \<longleftrightarrow> length ts = Suc (length ks) \<and>
     (if is_root then 1 else MIN_INNER_KEYS) \<le> length ks \<and> length ks \<le> INNER_CAPACITY \<and> (\<forall>t \<in> set ts. sized False t)"

definition above :: "(int \<times> bytes) option \<Rightarrow> int \<times> bytes \<Rightarrow> bool" where
  "above lo x \<longleftrightarrow> (case lo of None \<Rightarrow> True | Some k \<Rightarrow> k \<le> x)"

definition below :: "(int \<times> bytes) option \<Rightarrow> int \<times> bytes \<Rightarrow> bool" where
  "below hi x \<longleftrightarrow> (case hi of None \<Rightarrow> True | Some k \<Rightarrow> x < k)"

fun ordered :: "(int \<times> bytes) option \<Rightarrow> btree \<Rightarrow> (int \<times> bytes) option \<Rightarrow> bool"
and ordereds :: "(int \<times> bytes) option \<Rightarrow> btree list \<Rightarrow> EntryKey list \<Rightarrow> (int \<times> bytes) option \<Rightarrow> bool" where
  "ordered lo (BLeaf i es) hi \<longleftrightarrow> (\<forall>e \<in> set es. number e \<and> above lo (key_of e) \<and> below hi (key_of e))"
| "ordered lo (BNode i ts ks) hi \<longleftrightarrow> ordereds lo ts ks hi"
| "ordereds lo [] ks hi \<longleftrightarrow> False"
| "ordereds lo (t # ts) [] hi \<longleftrightarrow> ts = [] \<and> ordered lo t hi"
| "ordereds lo (t # ts) (k # ks) hi \<longleftrightarrow>
     number k \<and> ordered lo t (Some (key_of k)) \<and> ordereds (Some (key_of k)) ts ks hi"

section \<open>Lemmas on trees, links and bounds\<close>

lemma body_Inl: "body M i = Some (Inl es) \<longleftrightarrow> (\<exists>l. M i = Some (Leaf l) \<and> entries l = es)"
  by (auto simp: body_def split: option.splits Node.splits)

lemma body_Inr: "body M i = Some (Inr n) \<longleftrightarrow> M i = Some (Inner n)"
  by (auto simp: body_def split: option.splits Node.splits)

lemma body_Leaf: "M i = Some (Leaf l) \<Longrightarrow> body M i = Some (Inl (entries l))"
  by (simp add: body_def)

lemma body_upd [simp]: "body (M(i \<mapsto> n)) j = (if j = i then body (\<lambda>_. Some n) i else body M j)"
  by (simp add: body_def)

lemma body_const [simp]: "body (\<lambda>_. Some (Leaf l)) i = Some (Inl (entries l))" "body (\<lambda>_. Some (Inner n)) i = Some (Inr n)"
  by (simp_all add: body_def)

lemma bid_in_ids [simp]: "bid t \<in> set (ids t)"
  by (cases t) auto

lemma lids_subset: "set (lids t) \<subseteq> set (ids t)"
  by (induction t) auto

lemma holds_cong: "(\<And>i. i \<in> set (ids t) \<Longrightarrow> body M' i = body M i) \<Longrightarrow> holds M' t = holds M t"
  by (induction t) auto

lemma holds_present: "holds M t \<Longrightarrow> i \<in> set (ids t) \<Longrightarrow> M i \<noteq> None"
  by (induction t) (auto simp: body_Inl body_Inr)

lemma holds_below: "good_arena t \<Longrightarrow> holds (nodes t) b \<Longrightarrow> i \<in> set (ids b) \<Longrightarrow> i < nxt t"
  using holds_present node_present by blast

lemma hd_or_simps [simp]: "hd_or [] d = d" "hd_or (x # xs) d = Some x" "hd_or (xs @ ys) d = hd_or xs (hd_or ys d)"
  by (auto simp: hd_or_def split: list.splits)

lemma last_or_simps [simp]: "last_or [] d = d" "last_or (x # xs) d = last_or xs (Some x)"
    "last_or (xs @ ys) d = last_or ys (last_or xs d)"
  by (auto simp: last_or_def)

lemma chain_append:
  "chain M pv (xs @ ys) nx \<longleftrightarrow> chain M pv xs (hd_or ys nx) \<and> chain M (last_or xs pv) ys nx"
  by (induction xs arbitrary: pv) auto

lemma chain_cong: "(\<And>i. i \<in> set xs \<Longrightarrow> M' i = M i) \<Longrightarrow> chain M' pv xs nx = chain M pv xs nx"
  by (induction xs arbitrary: pv) auto

lemma chain_upd [simp]: "i \<notin> set xs \<Longrightarrow> chain (M(i \<mapsto> n)) pv xs nx = chain M pv xs nx"
  by (rule chain_cong) auto

lemma sized_not_Nil: "sized r t \<Longrightarrow> flat t \<noteq> []"
proof (induction t arbitrary: r)
  case (BLeaf i es)
  then show ?case by (auto simp: capacity_defs split: if_splits)
next
  case (BNode i ts ks)
  then obtain t ts' where "ts = t # ts'" by (cases ts) auto
  with BNode show ?case by auto
qed

lemma lids_not_Nil: "sized r t \<Longrightarrow> lids t \<noteq> []"
proof (induction t arbitrary: r)
  case (BNode i ts ks)
  then obtain t ts' where "ts = t # ts'" by (cases ts) auto
  with BNode show ?case by auto
qed simp

lemma sized_weaken: "sized False t \<Longrightarrow> sized r t"
  by (cases t) (auto simp: capacity_defs)

lemma above_below_less: "above lo x \<Longrightarrow> below hi x \<Longrightarrow> lo = Some a \<Longrightarrow> hi = Some b \<Longrightarrow> a < b"
  by (auto simp: above_def below_def)

lemma above_trans: "above lo y \<Longrightarrow> y \<le> x \<Longrightarrow> above lo x"
  by (auto simp: above_def split: option.splits)

lemma below_trans: "below hi y \<Longrightarrow> x \<le> y \<Longrightarrow> below hi x"
  by (auto simp: below_def split: option.splits)

lemma ordereds_bounds:
  assumes "\<And>t lo hi e. t \<in> set ts \<Longrightarrow> ordered lo t hi \<Longrightarrow> e \<in> set (flat t) \<Longrightarrow>
             number e \<and> above lo (key_of e) \<and> below hi (key_of e)"
    and "\<And>t. t \<in> set ts \<Longrightarrow> flat t \<noteq> []"
  shows "ordereds lo ts ks hi \<Longrightarrow> e \<in> set (flats ts) \<Longrightarrow> number e \<and> above lo (key_of e) \<and> below hi (key_of e)"
  using assms
proof (induction ts arbitrary: lo ks e)
  case (Cons t ts)
  show ?case
  proof (cases ks)
    case Nil
    then show ?thesis using Cons.prems by auto
  next
    case (Cons k ks')
    have rest: "number x \<and> above (Some (key_of k)) (key_of x) \<and> below hi (key_of x)" if "x \<in> set (flats ts)" for x
      using Cons.IH [of "Some (key_of k)" ks' x] Cons.prems that Cons by auto
    have "ts \<noteq> []" using Cons.prems(1) Cons by auto
    define y where "y = hd (flat (hd ts))"
    have y: "y \<in> set (flats ts)" using \<open>ts \<noteq> []\<close> Cons.prems(4) [of "hd ts"] by (cases ts) (auto simp: y_def)
    define z where "z = hd (flat t)"
    have z: "z \<in> set (flat t)" using Cons.prems(4) [of t] by (simp add: z_def)
    have first: "number x \<and> above lo (key_of x) \<and> key_of x < key_of k" if "x \<in> set (flat t)" for x
      using Cons.prems(3) [of t lo "Some (key_of k)" x] Cons.prems(1) Cons that by (auto simp: below_def)
    from rest [OF y] first [OF z] have "above lo (key_of k)" "below hi (key_of k)"
      using above_trans [of lo "key_of z" "key_of k"] below_trans [of hi "key_of y" "key_of k"] by (auto simp: above_def)
    then show ?thesis using Cons.prems(2) first [of e] rest [of e] above_trans [of lo "key_of k" "key_of e"]
        below_trans [of hi "key_of k" "key_of e"] by (auto simp: above_def)
  qed
qed simp

lemma ordered_bounds:
  "sized r t \<Longrightarrow> ordered lo t hi \<Longrightarrow> e \<in> set (flat t) \<Longrightarrow> number e \<and> above lo (key_of e) \<and> below hi (key_of e)"
proof (induction t arbitrary: r lo hi e)
  case (BNode i ts ks)
  have "\<And>t lo hi e. t \<in> set ts \<Longrightarrow> ordered lo t hi \<Longrightarrow> e \<in> set (flat t) \<Longrightarrow>
          number e \<and> above lo (key_of e) \<and> below hi (key_of e)"
    using BNode.IH BNode.prems(1) by auto
  moreover have "\<And>t. t \<in> set ts \<Longrightarrow> flat t \<noteq> []" using BNode.prems(1) sized_not_Nil by auto
  ultimately show ?case using ordereds_bounds [of ts lo ks hi e] BNode.prems(2,3) by auto
qed auto

lemma ordereds_bounds_sized:
  "\<forall>t \<in> set ts. sized False t \<Longrightarrow> ordereds lo ts ks hi \<Longrightarrow> e \<in> set (flats ts) \<Longrightarrow>
     number e \<and> above lo (key_of e) \<and> below hi (key_of e)"
  by (rule ordereds_bounds [of ts lo ks hi e]) (auto dest: ordered_bounds sized_not_Nil)

lemma ordereds_append:
  "length ts1 = Suc (length ks1) \<Longrightarrow>
     ordereds lo (ts1 @ ts2) (ks1 @ k # ks2) hi \<longleftrightarrow>
       number k \<and> ordereds lo ts1 ks1 (Some (key_of k)) \<and> ordereds (Some (key_of k)) ts2 ks2 hi"
proof (induction ks1 arbitrary: lo ts1)
  case Nil
  then obtain t where "ts1 = [t]" by (cases ts1) auto
  then show ?case by auto
next
  case (Cons k' ks1)
  then obtain t ts where "ts1 = t # ts" by (cases ts1) auto
  with Cons show ?case by auto
qed

lemma ordereds_length: "ordereds lo ts ks hi \<Longrightarrow> length ts = Suc (length ks)"
  by (induction ks arbitrary: lo ts) (case_tac [!] ts, auto)

lemma insort_append_left: "\<forall>x \<in> set xs. f x < f e \<Longrightarrow> insort_key f e (xs @ ys) = xs @ insort_key f e ys"
  by (induction xs) auto

lemma insort_append_right: "\<forall>y \<in> set ys. f e \<le> f y \<Longrightarrow> insort_key f e (xs @ ys) = insort_key f e xs @ ys"
  by (induction xs) (auto, cases ys, auto)

lemma insort_takeWhile:
  "insort_key f e xs = takeWhile (\<lambda>x. f x < f e) xs @ e # dropWhile (\<lambda>x. f x < f e) xs"
  by (induction xs) auto

lemma insort_insert_at: "insort_key f e xs = insert_at (length (takeWhile (\<lambda>x. f x < f e) xs)) e xs"
  by (simp add: insort_takeWhile insert_at_def takeWhile_eq_take [symmetric] dropWhile_eq_drop)

lemma ordereds_numbers: "ordereds lo ts ks hi \<Longrightarrow> k \<in> set ks \<Longrightarrow> number k"
  by (induction ks arbitrary: lo ts) (case_tac [!] ts, auto)

text \<open>The child at an index, with its bounds, and what may replace it.\<close>

abbreviation low_key :: "(int \<times> bytes) option \<Rightarrow> EntryKey list \<Rightarrow> (int \<times> bytes) option" where
  "low_key lo ks \<equiv> last_or (map key_of ks) lo"

abbreviation high_key :: "EntryKey list \<Rightarrow> (int \<times> bytes) option \<Rightarrow> (int \<times> bytes) option" where
  "high_key ks hi \<equiv> hd_or (map key_of ks) hi"

lemma ordereds_single: "ordered lo b hi \<Longrightarrow> ordereds lo [b] [] hi"
  by simp

lemma ordereds_replace_head:
  assumes "ordereds lo (b # ts2) ks2 hi" and "ordereds lo bs ks' (high_key ks2 hi)"
  shows "ordereds lo (bs @ ts2) (ks' @ ks2) hi"
proof (cases ks2)
  case Nil
  then show ?thesis using assms by auto
next
  case (Cons k ks)
  then show ?thesis using assms ordereds_append [OF ordereds_length [OF assms(2)], of lo ts2 k ks hi] by auto
qed

lemma ordereds_focus:
  assumes "length ts1 = length ks1" and "ordereds lo (ts1 @ b # ts2) (ks1 @ ks2) hi"
  shows "ordered (low_key lo ks1) b (high_key ks2 hi) \<and>
    (\<forall>bs ks'. ordereds (low_key lo ks1) bs ks' (high_key ks2 hi) \<longrightarrow> ordereds lo (ts1 @ bs @ ts2) (ks1 @ ks' @ ks2) hi)"
  using assms
proof (induction ts1 ks1 arbitrary: lo rule: list_induct2)
  case Nil
  then have "ordered lo b (high_key ks2 hi)" by (cases ks2) auto
  then show ?case using Nil ordereds_replace_head by fastforce
next
  case (Cons t ts1 k ks1)
  then show ?case by auto
qed

lemma ordereds_left:
  assumes "length ts1 = length ks1" and "ordereds lo (ts1 @ b # ts2) (ks1 @ ks2) hi" and "ts1 \<noteq> []"
  shows "ordereds lo ts1 (butlast ks1) (Some (key_of (last ks1)))"
proof -
  obtain ks k where "ks1 = ks @ [k]" using assms(1,3) by (cases ks1 rule: rev_cases) auto
  then show ?thesis using assms(1,2) ordereds_append [of ts1 ks lo "b # ts2" k ks2 hi] by simp
qed

lemma ordereds_right:
  assumes "length ts1 = length ks1" and "ordereds lo (ts1 @ b # ts2) (ks1 @ k # ks2) hi"
  shows "ordereds (Some (key_of k)) ts2 ks2 hi"
  using ordereds_append [of "ts1 @ [b]" ks1 lo ts2 k ks2 hi] assms by simp

lemma child_left_less:
  assumes "length ts1 = length ks1" and "ordereds lo (ts1 @ b # ts2) (ks1 @ ks2) hi"
    and "\<forall>t \<in> set ts1. sized False t" and "\<forall>k \<in> set ks1. key_of k \<le> kk" and "x \<in> set (flats ts1)"
  shows "key_of x < kk"
proof -
  have "ts1 \<noteq> []" using assms(5) by auto
  then have "last ks1 \<in> set ks1" using assms(1) by (cases ks1) auto
  moreover have "below (Some (key_of (last ks1))) (key_of x)"
    using ordereds_bounds_sized [OF assms(3) ordereds_left [OF assms(1,2) \<open>ts1 \<noteq> []\<close>] assms(5)] by simp
  ultimately show ?thesis using assms(4) by (fastforce simp: below_def)
qed

lemma child_right_greater:
  assumes "length ts1 = length ks1" and "ordereds lo (ts1 @ b # ts2) (ks1 @ ks2) hi"
    and "\<forall>t \<in> set ts2. sized False t" and "ks2 \<noteq> [] \<Longrightarrow> kk < key_of (hd ks2)" and "x \<in> set (flats ts2)"
  shows "kk < key_of x"
proof (cases ks2)
  case Nil
  then have "ts2 = []" using ordereds_length [OF assms(2)] assms(1) by simp
  then show ?thesis using assms(5) by simp
next
  case (Cons k ks)
  have "above (Some (key_of k)) (key_of x)"
    using ordereds_bounds_sized [OF assms(3) ordereds_right assms(5)] assms(1,2) Cons by auto
  then show ?thesis using assms(4) Cons by (auto simp: above_def)
qed

lemma child_index_eq:
  assumes "\<forall>k \<in> set ks. number k" and "\<not> is_nan s"
  shows "child_index_for_key ks s m = length (takeWhile (\<lambda>k. key_of k \<le> (f64_rank s, m)) ks)"
proof -
  have "takeWhile (\<lambda>k. compare_key (score k) (member k) s m \<noteq> Greater) ks = takeWhile (\<lambda>k. key_of k \<le> (f64_rank s, m)) ks"
    using assms compare_key_not_greater by (intro takeWhile_cong) auto
  then show ?thesis by (simp add: child_index_for_key_def partition_point_def)
qed

lemma lower_bound_eq:
  assumes "\<forall>e \<in> set es. number e" and "\<not> is_nan s"
  shows "lower_bound_entry es s m = length (takeWhile (\<lambda>e. key_of e < (f64_rank s, m)) es)"
proof -
  have "takeWhile (\<lambda>e. compare_key (score e) (member e) s m = Less) es = takeWhile (\<lambda>e. key_of e < (f64_rank s, m)) es"
    using assms compare_key_less by (intro takeWhile_cong) auto
  then show ?thesis by (simp add: lower_bound_entry_def partition_point_def)
qed

text \<open>The descent by a key splits the children around the one it takes.\<close>

lemma child_of_key:
  assumes "ordereds lo ts ks hi" and "\<forall>t \<in> set ts. sized False t" and "\<not> is_nan s"
    and "above lo (f64_rank s, m)" and "below hi (f64_rank s, m)"
  obtains ts1 b ts2 ks1 ks2 where "ts = ts1 @ b # ts2" and "ks = ks1 @ ks2"
    and "length ts1 = child_index_for_key ks s m" and "length ks1 = child_index_for_key ks s m"
    and "ordered (low_key lo ks1) b (high_key ks2 hi)"
    and "above (low_key lo ks1) (f64_rank s, m)" and "below (high_key ks2 hi) (f64_rank s, m)"
    and "\<forall>x \<in> set (flats ts1). key_of x < (f64_rank s, m)" and "\<forall>x \<in> set (flats ts2). (f64_rank s, m) < key_of x"
    and "\<And>bs ks'. ordereds (low_key lo ks1) bs ks' (high_key ks2 hi) \<Longrightarrow> ordereds lo (ts1 @ bs @ ts2) (ks1 @ ks' @ ks2) hi"
proof -
  let ?kk = "(f64_rank s, m)" and ?c = "child_index_for_key ks s m"
  define ks1 where "ks1 = takeWhile (\<lambda>k. key_of k \<le> ?kk) ks"
  define ks2 where "ks2 = dropWhile (\<lambda>k. key_of k \<le> ?kk) ks"
  have c: "?c = length ks1"
    using child_index_eq [of ks s m] ordereds_numbers [OF assms(1)] assms(3) by (simp add: ks1_def)
  have ks: "ks = ks1 @ ks2" by (simp add: ks1_def ks2_def)
  have "?c < length ts" using ordereds_length [OF assms(1)] c ks by simp
  then have ts: "ts = take ?c ts @ ts ! ?c # drop (Suc ?c) ts" by (simp add: id_take_nth_drop)
  have len: "length (take ?c ts) = length ks1" using \<open>?c < length ts\<close> c by simp
  have ord: "ordereds lo (take ?c ts @ ts ! ?c # drop (Suc ?c) ts) (ks1 @ ks2) hi" using assms(1) ts ks by simp
  have le: "\<forall>k \<in> set ks1. key_of k \<le> ?kk" by (auto simp: ks1_def dest: set_takeWhileD)
  have gt: "?kk < key_of (hd ks2)" if "ks2 \<noteq> []" using hd_dropWhile [of "\<lambda>k. key_of k \<le> ?kk" ks] that by (simp add: ks2_def not_le)
  note focus = ordereds_focus [OF len ord]
  show thesis
  proof (rule that [OF ts ks])
    show "above (low_key lo ks1) ?kk" using le assms(4) by (auto simp: last_or_def above_def last_map)
    show "below (high_key ks2 hi) ?kk" using gt assms(5) by (cases ks2) (auto simp: below_def)
    show "\<forall>x \<in> set (flats (take ?c ts)). key_of x < ?kk"
      using child_left_less [OF len ord _ le] assms(2) by (auto dest: in_set_takeD)
    show "\<forall>x \<in> set (flats (drop (Suc ?c) ts)). ?kk < key_of x"
      using child_right_greater [OF len ord _ gt] assms(2) by (auto dest: in_set_dropD)
    show "length (take ?c ts) = ?c" "length ks1 = ?c" using len c by simp_all
    show "ordered (low_key lo ks1) (ts ! ?c) (high_key ks2 hi)" using focus by simp
    show "ordereds lo (take ?c ts @ bs @ drop (Suc ?c) ts) (ks1 @ ks' @ ks2) hi"
      if "ordereds (low_key lo ks1) bs ks' (high_key ks2 hi)" for bs ks' using focus that by blast
  qed
qed

section \<open>Insertion into a subtree\<close>

definition same_meta :: "BPTree \<Rightarrow> BPTree \<Rightarrow> bool" where
  "same_meta t t' \<longleftrightarrow> root t' = root t \<and> leftmost t' = leftmost t \<and> tree_len t' = tree_len t \<and> member_scores t' = member_scores t"

lemma same_meta_trans: "same_meta t t1 \<Longrightarrow> same_meta t1 t2 \<Longrightarrow> same_meta t t2"
  by (simp add: same_meta_def)

lemma same_meta_nodes [simp]: "same_meta t t" "same_meta t (set_node t i n)" "same_meta t (new_node t n)"
    "same_meta t (t'\<lparr>rightmost := x\<rparr>) = same_meta t t'"
  by (simp_all add: same_meta_def)

lemmas arena_simps = set_node_arena new_node_arena leaf_present inner_present put_leaf_eq put_inner_eq alloc_node_eq
  node_present

lemma split_leaf_spec:
  assumes good: "good_arena t" and i: "nodes t i = Some (Leaf l)" and len: "MIN_LEAF_ITEMS < length (entries l)"
    and j: "\<And>j. next_leaf l = Some j \<Longrightarrow> nodes t j = Some (Leaf lj) \<and> j \<noteq> i"
  shows "\<exists>t'. split_leaf t i = Some (Some (entries l ! MIN_LEAF_ITEMS, nxt t), t') \<and> good_arena t' \<and> nxt t' = Suc (nxt t) \<and>
     same_meta t t' \<and> rightmost t' = (if next_leaf l = None then Some (nxt t) else rightmost t) \<and>
     nodes t' = (case next_leaf l of
         None \<Rightarrow> (nodes t)(i \<mapsto> Leaf (l\<lparr>entries := take MIN_LEAF_ITEMS (entries l), next_leaf := Some (nxt t)\<rparr>),
           nxt t \<mapsto> Leaf \<lparr>entries = drop MIN_LEAF_ITEMS (entries l), next_leaf = None, prev_leaf = Some i\<rparr>)
       | Some j \<Rightarrow> (nodes t)(i \<mapsto> Leaf (l\<lparr>entries := take MIN_LEAF_ITEMS (entries l), next_leaf := Some (nxt t)\<rparr>),
           nxt t \<mapsto> Leaf \<lparr>entries = drop MIN_LEAF_ITEMS (entries l), next_leaf = Some j, prev_leaf = Some i\<rparr>,
           j \<mapsto> Leaf (lj\<lparr>prev_leaf := Some (nxt t)\<rparr>)))"
proof -
  let ?le = "take MIN_LEAF_ITEMS (entries l)" and ?ri = "drop MIN_LEAF_ITEMS (entries l)"
  let ?rl = "\<lparr>entries = ?ri, next_leaf = next_leaf l, prev_leaf = Some i\<rparr>"
  let ?l1 = "l\<lparr>entries := ?le, next_leaf := None\<rparr>" and ?l2 = "l\<lparr>entries := ?le, next_leaf := Some (nxt t)\<rparr>"
  define t1 where "t1 = set_node t i (Leaf ?l1)"
  define t2 where "t2 = new_node t1 (Leaf ?rl)"
  define t3 where "t3 = set_node t2 i (Leaf ?l2)"
  have i_less: "i < nxt t" using good i by (rule node_present)
  have t1: "good_arena t1" "nodes t1 = (nodes t)(i \<mapsto> Leaf ?l1)" "nxt t1 = nxt t" "same_meta t t1" "rightmost t1 = rightmost t"
    "put_leaf t i ?l1 = Some t1"
    using good i i_less by (simp_all add: t1_def arena_simps)
  have t2: "good_arena t2" "nodes t2 = (nodes t1)(nxt t \<mapsto> Leaf ?rl)" "nxt t2 = Suc (nxt t)" "same_meta t1 t2" "rightmost t2 = rightmost t"
    "alloc_node t1 (Leaf ?rl) = Some (nxt t, t2)"
    using t1 by (simp_all add: t2_def arena_simps)
  have leaf2: "leaf t2 i = Some ?l1" using t1(2) t2(2) i_less by (simp add: leaf_def)
  have t3: "good_arena t3" "nodes t3 = (nodes t)(i \<mapsto> Leaf ?l2, nxt t \<mapsto> Leaf ?rl)" "nxt t3 = Suc (nxt t)" "same_meta t2 t3"
    "rightmost t3 = rightmost t" "put_leaf t2 i ?l2 = Some t3"
    using t1 t2 i_less by (auto simp: t3_def arena_simps fun_eq_iff put_leaf_eq [of t2 i ?l1])
  have meta: "same_meta t t3" using t1(4) t2(4) t3(4) same_meta_trans by blast
  have right: "?ri \<noteq> []" "?ri ! 0 = entries l ! MIN_LEAF_ITEMS" using len by auto
  note pre = leaf_present [OF i] t1(6) t2(6) leaf2 t3(6)
  show ?thesis
  proof (cases "next_leaf l")
    case None
    have "leaf t3 (nxt t) = Some ?rl" using t3(2) by (simp add: leaf_def)
    then have "leaf (t3\<lparr>rightmost := Some (nxt t)\<rparr>) (nxt t) = Some ?rl" by (simp add: leaf_def)
    then have "split_leaf t i = Some (Some (entries l ! MIN_LEAF_ITEMS, nxt t), t3\<lparr>rightmost := Some (nxt t)\<rparr>)"
      using None len right pre by (simp add: split_leaf_def get_at_def vec_drain_def)
    then show ?thesis using None t3 meta by simp
  next
    case (Some j)
    define t4 where "t4 = set_node t3 j (Leaf (lj\<lparr>prev_leaf := Some (nxt t)\<rparr>))"
    have j': "nodes t j = Some (Leaf lj)" "j \<noteq> i" using j [OF Some] by auto
    then have "j < nxt t" using good by (auto intro: node_present)
    then have "nodes t3 j = Some (Leaf lj)" using j' t3(2) by simp
    then have t4: "good_arena t4" "nodes t4 = (nodes t3)(j \<mapsto> Leaf (lj\<lparr>prev_leaf := Some (nxt t)\<rparr>))" "nxt t4 = Suc (nxt t)"
        "same_meta t3 t4" "rightmost t4 = rightmost t" "put_leaf t3 j (lj\<lparr>prev_leaf := Some (nxt t)\<rparr>) = Some t4" "leaf t3 j = Some lj"
      using t3 \<open>j < nxt t\<close> by (simp_all add: t4_def arena_simps)
    have "leaf t4 (nxt t) = Some ?rl" using t4(2) t3(2) \<open>j < nxt t\<close> by (simp add: leaf_def)
    then have "split_leaf t i = Some (Some (entries l ! MIN_LEAF_ITEMS, nxt t), t4)"
      using Some len right pre t4(6,7) by (simp add: split_leaf_def get_at_def vec_drain_def)
    then show ?thesis using Some t4 t3 meta same_meta_trans [OF meta t4(4)] by simp
  qed
qed

text \<open>Trees placed between leaves: the arena holds them, every node once, and their leaves are linked
  with the leaves before and after.\<close>

definition placed :: "BPTree \<Rightarrow> NodeId list \<Rightarrow> btree list \<Rightarrow> NodeId list \<Rightarrow> bool" where
  "placed t pre bs post \<longleftrightarrow> good_arena t \<and> (\<forall>b \<in> set bs. holds (nodes t) b) \<and> distinct (pre @ post @ idss bs) \<and>
     chain (nodes t) None (pre @ lidss bs @ post) None \<and> rightmost t = last_or (pre @ lidss bs @ post) None"

definition split_of :: "btree list \<Rightarrow> EntryKey list \<Rightarrow> (EntryKey \<times> NodeId) option" where
  "split_of bs ks = (case ks of k # _ \<Rightarrow> Some (k, bid (bs ! 1)) | [] \<Rightarrow> None)"

definition fits :: "bool \<Rightarrow> btree list \<Rightarrow> EntryKey list \<Rightarrow> bool" where
  "fits r bs ks \<longleftrightarrow> (\<exists>b. bs = [b] \<and> ks = [] \<and> sized r b) \<or> (\<exists>b1 b2 k. bs = [b1, b2] \<and> ks = [k] \<and> sized False b1 \<and> sized False b2)"

text \<open>The subtree \<open>b\<close> is replaced by \<open>bs\<close>; other nodes keep what they hold.\<close>

definition becomes :: "BPTree \<Rightarrow> BPTree \<Rightarrow> btree \<Rightarrow> btree list \<Rightarrow> bool" where
  "becomes t t' b bs \<longleftrightarrow> same_meta t t' \<and> nxt t \<le> nxt t' \<and> bid (hd bs) = bid b \<and> hd (lidss bs) = hd (lids b) \<and>
     set (idss bs) \<subseteq> set (ids b) \<union> {nxt t..<nxt t'} \<and>
     (\<forall>i < nxt t. i \<notin> set (ids b) \<longrightarrow> body (nodes t') i = body (nodes t) i)"

lemma chain_present: "chain M pv xs nx \<Longrightarrow> i \<in> set xs \<Longrightarrow> \<exists>l. M i = Some (Leaf l)"
  by (induction xs arbitrary: pv) auto

lemma placed_outside_below:
  assumes "placed t pre bs post" and "i \<in> set (pre @ post)"
  shows "i < nxt t"
proof -
  obtain l where "nodes t i = Some (Leaf l)"
    using chain_present [of "nodes t" None "pre @ lidss bs @ post" None i] assms by (auto simp: placed_def)
  then show ?thesis using assms(1) node_present by (auto simp: placed_def)
qed

lemma placed_leaf:
  assumes "placed t pre [BLeaf i es] post"
  obtains l where "nodes t i = Some (Leaf l)" and "entries l = es"
    and "prev_leaf l = last_or pre None" and "next_leaf l = hd_or post None"
    and "chain (nodes t) None pre (Some i)" and "chain (nodes t) (Some i) post None"
    and "i < nxt t" and "i \<notin> set pre" and "i \<notin> set post"
  using assms node_present by (auto simp: placed_def chain_append body_Inl)

lemma insert_leaf_keep:
  assumes p: "placed t pre [BLeaf i es] post"
  shows "\<exists>l t'. leaf t i = Some l \<and> entries l = es \<and> put_leaf t i (l\<lparr>entries := es'\<rparr>) = Some t' \<and>
           placed t' pre [BLeaf i es'] post \<and> becomes t t' (BLeaf i es) [BLeaf i es']"
proof -
  obtain l where l: "nodes t i = Some (Leaf l)" "entries l = es" "prev_leaf l = last_or pre None" "next_leaf l = hd_or post None"
    "chain (nodes t) None pre (Some i)" "chain (nodes t) (Some i) post None" "i < nxt t" "i \<notin> set pre" "i \<notin> set post"
    using placed_leaf [OF p] .
  define t' where "t' = set_node t i (Leaf (l\<lparr>entries := es'\<rparr>))"
  have good: "good_arena t" using p by (simp add: placed_def)
  have t': "nodes t' = (nodes t)(i \<mapsto> Leaf (l\<lparr>entries := es'\<rparr>))" "good_arena t'" "nxt t' = nxt t" "same_meta t t'"
      "rightmost t' = rightmost t"
    using good l(7) by (simp_all add: t'_def arena_simps)
  have "chain (nodes t') None pre (Some i)" "chain (nodes t') (Some i) post None"
    using l(5,6,8,9) t'(1) by simp_all
  then have "placed t' pre [BLeaf i es'] post"
    using p l t' by (auto simp: placed_def chain_append)
  moreover have "becomes t t' (BLeaf i es) [BLeaf i es']" using t' by (auto simp: becomes_def)
  ultimately show ?thesis using l(1,2) good by (auto simp: t'_def arena_simps)
qed

lemma split_leaf_placed:
  assumes p: "placed t pre [BLeaf i es] post" and len: "MIN_LEAF_ITEMS < length es"
  shows "\<exists>t'. split_leaf t i = Some (Some (es ! MIN_LEAF_ITEMS, nxt t), t') \<and>
           placed t' pre [BLeaf i (take MIN_LEAF_ITEMS es), BLeaf (nxt t) (drop MIN_LEAF_ITEMS es)] post \<and>
           becomes t t' (BLeaf i es) [BLeaf i (take MIN_LEAF_ITEMS es), BLeaf (nxt t) (drop MIN_LEAF_ITEMS es)]"
proof -
  obtain l where l: "nodes t i = Some (Leaf l)" "entries l = es" "prev_leaf l = last_or pre None" "next_leaf l = hd_or post None"
    "chain (nodes t) None pre (Some i)" "chain (nodes t) (Some i) post None" "i < nxt t" "i \<notin> set pre" "i \<notin> set post"
    using placed_leaf [OF p] .
  have good: "good_arena t" using p by (simp add: placed_def)
  have out: "nxt t \<notin> set pre" "nxt t \<notin> set post" "nxt t \<noteq> i"
    using placed_outside_below [OF p] l(7) by auto
  have dist: "distinct pre" "distinct post" "set pre \<inter> set post = {}" using p by (auto simp: placed_def)
  let ?a = "Leaf (l\<lparr>entries := take MIN_LEAF_ITEMS es, next_leaf := Some (nxt t)\<rparr>)"
  let ?b = "\<lambda>nx. Leaf \<lparr>entries = drop MIN_LEAF_ITEMS es, next_leaf = nx, prev_leaf = Some i\<rparr>"
  show ?thesis
  proof (cases post)
    case Nil
    then obtain t' where t': "split_leaf t i = Some (Some (es ! MIN_LEAF_ITEMS, nxt t), t')" "good_arena t'" "nxt t' = Suc (nxt t)"
        "same_meta t t'" "rightmost t' = Some (nxt t)" "nodes t' = (nodes t)(i \<mapsto> ?a, nxt t \<mapsto> ?b None)"
      using split_leaf_spec [OF good l(1)] len l(2,4) by auto
    have "chain (nodes t') None pre (Some i)"
      using l(5,8) out t'(6) by simp
    then have "placed t' pre [BLeaf i (take MIN_LEAF_ITEMS es), BLeaf (nxt t) (drop MIN_LEAF_ITEMS es)] post"
      using p l t' out Nil by (auto simp: placed_def chain_append)
    then show ?thesis using t' l(7) by (auto simp: becomes_def)
  next
    case (Cons j post')
    then obtain lj where lj: "nodes t j = Some (Leaf lj)" "prev_leaf lj = Some i" "next_leaf lj = hd_or post' None"
        "chain (nodes t) (Some j) post' None" using l(6) by auto
    have ji: "j \<noteq> i" "j \<noteq> nxt t" "j \<notin> set pre" "j \<notin> set post'" using l(9) out dist Cons by auto
    obtain t' where t': "split_leaf t i = Some (Some (es ! MIN_LEAF_ITEMS, nxt t), t')" "good_arena t'" "nxt t' = Suc (nxt t)"
        "same_meta t t'" "rightmost t' = rightmost t"
        "nodes t' = (nodes t)(i \<mapsto> ?a, nxt t \<mapsto> ?b (Some j), j \<mapsto> Leaf (lj\<lparr>prev_leaf := Some (nxt t)\<rparr>))"
      using split_leaf_spec [OF good l(1), of lj] len l(2,4) lj(1) ji(1) Cons by auto
    have "chain (nodes t') None pre (Some i)" "chain (nodes t') (Some j) post' None"
      using l(5,8,9) out ji lj(4) t'(6) Cons by simp_all
    then have "placed t' pre [BLeaf i (take MIN_LEAF_ITEMS es), BLeaf (nxt t) (drop MIN_LEAF_ITEMS es)] post"
      using p l t' out ji lj Cons by (auto simp: placed_def chain_append)
    moreover have "body (nodes t') j = body (nodes t) j" using t'(6) lj(1) by (simp add: body_Leaf)
    ultimately show ?thesis using t' l(7) by (auto simp: becomes_def)
  qed
qed

lemma becomes_trans:
  assumes "becomes t t1 b [b1]" and "becomes t1 t2 b1 bs"
  shows "becomes t t2 b bs"
proof -
  have le: "nxt t \<le> nxt t1" "nxt t1 \<le> nxt t2" and sub: "set (ids b1) \<subseteq> set (ids b) \<union> {nxt t..<nxt t1}"
      "set (idss bs) \<subseteq> set (ids b1) \<union> {nxt t1..<nxt t2}"
    using assms by (simp_all add: becomes_def)
  have "{nxt t..<nxt t1} \<union> {nxt t1..<nxt t2} = {nxt t..<nxt t2}" using le by auto
  then have "set (idss bs) \<subseteq> set (ids b) \<union> {nxt t..<nxt t2}" using sub by blast
  moreover have "body (nodes t2) i = body (nodes t) i" if "i < nxt t" "i \<notin> set (ids b)" for i
  proof -
    have "i \<notin> set (ids b1)" using sub(1) that by auto
    then show ?thesis using assms that le by (simp add: becomes_def)
  qed
  moreover have "same_meta t t2" using assms same_meta_trans [of t t1 t2] by (simp add: becomes_def)
  ultimately show ?thesis using assms by (simp add: becomes_def)
qed

abbreviation strict :: "ZSetEntry list \<Rightarrow> bool" where
  "strict xs \<equiv> sorted_wrt (\<lambda>x y. key_of x < key_of y) xs"

text \<open>What insertion into a subtree achieves.\<close>

definition inserted ::
    "BPTree \<Rightarrow> NodeId list \<Rightarrow> btree \<Rightarrow> NodeId list \<Rightarrow> ZSetEntry \<Rightarrow> bool \<Rightarrow> nat \<Rightarrow> (int \<times> bytes) option \<Rightarrow> (int \<times> bytes) option
      \<Rightarrow> ((EntryKey \<times> NodeId) option \<times> BPTree) option \<Rightarrow> bool" where
  "inserted t pre b post e r h lo hi result \<longleftrightarrow>
     (\<exists>bs ks t'. result = Some (split_of bs ks, t') \<and> placed t' pre bs post \<and> becomes t t' b bs \<and> fits r bs ks \<and>
        (\<forall>b \<in> set bs. balanced h b) \<and> ordereds lo bs ks hi \<and> flats bs = insort_key key_of e (flat b))"

lemma insert_into_leaf_spec:
  assumes p: "placed t pre [BLeaf i es] post" and size: "sized r (BLeaf i es)" and ord: "ordered lo (BLeaf i es) hi"
    and e: "number e" "above lo (key_of e)" "below hi (key_of e)" and str: "strict (insort_key key_of e es)"
  shows "inserted t pre (BLeaf i es) post e r 0 lo hi (insert_into_leaf t i e)"
proof -
  define es' where "es' = insort_key key_of e es"
  obtain l t1 where l: "leaf t i = Some l" "entries l = es" "put_leaf t i (l\<lparr>entries := es'\<rparr>) = Some t1"
      and t1: "placed t1 pre [BLeaf i es'] post" "becomes t t1 (BLeaf i es) [BLeaf i es']"
    using insert_leaf_keep [OF p, of es'] by blast
  have "lower_bound_entry es (score e) (member e) = length (takeWhile (\<lambda>x. key_of x < key_of e) es)"
    using lower_bound_eq [of es "score e" "member e"] ord e(1) by (simp add: key_of_def)
  then have ins: "insert_at (lower_bound_entry es (score e) (member e)) e es = es'"
      "lower_bound_entry es (score e) (member e) \<le> length es"
    by (simp_all add: es'_def insort_insert_at length_takeWhile_le)
  have len: "length es' = Suc (length es)" by (simp add: es'_def)
  have ord': "\<forall>x \<in> set es'. number x \<and> above lo (key_of x) \<and> below hi (key_of x)"
    using ord e by (auto simp: es'_def set_insort_key)
  have run: "insert_into_leaf t i e = (if length es' \<le> LEAF_CAPACITY then Some (None, t1) else split_leaf t1 i)"
    using l ins by (simp add: insert_into_leaf_def vec_insert_def)
  show ?thesis
  proof (cases "length es' \<le> LEAF_CAPACITY")
    case True
    have "sized r (BLeaf i es')" using True size len by (auto split: if_splits)
    then show ?thesis unfolding inserted_def
      using t1 run True ord' by (intro exI [of _ "[BLeaf i es']"] exI [of _ "[]"] exI [of _ t1]) (simp add: split_of_def fits_def es'_def)
  next
    case False
    let ?k = "MIN_LEAF_ITEMS" and ?bs = "[BLeaf i (take MIN_LEAF_ITEMS es'), BLeaf (nxt t1) (drop MIN_LEAF_ITEMS es')]"
    have len15: "length es' = 15" using False size len by (auto simp: capacity_defs split: if_splits)
    then obtain t2 where t2: "split_leaf t1 i = Some (Some (es' ! ?k, nxt t1), t2)" "placed t2 pre ?bs post"
        "becomes t1 t2 (BLeaf i es') ?bs"
      using split_leaf_placed [OF t1(1)] by (auto simp: capacity_defs)
    have es: "es' = take ?k es' @ es' ! ?k # drop (Suc ?k) es'" "drop ?k es' = es' ! ?k # drop (Suc ?k) es'"
      using len15 id_take_nth_drop [of ?k es'] Cons_nth_drop_Suc [of ?k es'] by (simp_all add: capacity_defs)
    have "strict (take ?k es' @ es' ! ?k # drop (Suc ?k) es')" using str es(1) by (simp add: es'_def)
    then have "\<forall>x \<in> set (take ?k es'). key_of x < key_of (es' ! ?k)"
        "\<forall>x \<in> set (drop ?k es'). key_of (es' ! ?k) \<le> key_of x"
      by (auto simp: sorted_wrt_append es(2) order_less_imp_le)
    moreover have "\<forall>x \<in> set (take ?k es') \<union> set (drop ?k es') \<union> {es' ! ?k}. x \<in> set es'"
      using len15 by (auto simp: capacity_defs dest: in_set_takeD in_set_dropD)
    ultimately have "ordereds lo ?bs [es' ! ?k] hi" using ord' by (auto simp: above_def below_def)
    moreover have "fits r ?bs [es' ! ?k]" using len15 by (simp add: fits_def capacity_defs)
    ultimately show ?thesis unfolding inserted_def
      using t2 run False becomes_trans [OF t1(2) t2(3)]
      by (intro exI [of _ ?bs] exI [of _ "[es' ! ?k]"] exI [of _ t2]) (simp add: split_of_def es'_def)
  qed
qed

lemma subtree_size_holds: "holds (nodes t) b \<Longrightarrow> subtree_size t (bid b) = Some (of_nat (length (flat b)))"
proof (cases b)
  case (BNode i ts ks)
  moreover assume "holds (nodes t) b"
  moreover have "sum_list (map (\<lambda>t. word_of_nat (length (flat t)) :: 64 word) ts) = word_of_nat (length (flats ts))"
    by (induction ts) auto
  ultimately show ?thesis by (simp add: subtree_size_def body_Inr node_of_def)
qed (auto simp: subtree_size_def body_Inl)

lemma lidss_subset: "set (lidss ts) \<subseteq> set (idss ts)"
  using lids_subset by fastforce

lemma distinct_lidss:
  assumes "\<And>t. t \<in> set ts \<Longrightarrow> distinct (ids t) \<Longrightarrow> distinct (lids t)"
  shows "distinct (idss ts) \<Longrightarrow> distinct (lidss ts)"
  using assms
proof (induction ts)
  case (Cons t ts)
  have "set (ids t) \<inter> set (idss ts) = {}" "distinct (ids t)" "distinct (idss ts)" using Cons.prems(1) by simp_all
  then have "set (lids t) \<inter> set (lidss ts) = {}" "distinct (lids t)" "distinct (lidss ts)"
    using lids_subset [of t] lidss_subset [of ts] Cons.IH Cons.prems(2) by (blast, simp_all)
  then show ?case by (simp only: list.map concat.simps distinct_append)
qed simp

lemma distinct_lids: "distinct (ids t) \<Longrightarrow> distinct (lids t)"
  by (induction t) (auto intro!: distinct_lidss)

lemma lidss_take_drop: "lidss (take n ts) @ lidss (drop n ts) = lidss ts"
  by (simp add: concat_append [symmetric] map_append [symmetric] del: concat_append map_append)

lemma idss_take_drop: "idss (take n ts) @ idss (drop n ts) = idss ts"
  by (simp add: concat_append [symmetric] map_append [symmetric] del: concat_append map_append)

lemma flats_take_drop: "flats (take n ts) @ flats (drop n ts) = flats ts"
  by (simp add: concat_append [symmetric] map_append [symmetric] del: concat_append map_append)

lemma placed_child:
  assumes "placed t pre [BNode i (ts1 @ b # ts2) ks] post"
  shows "placed t (pre @ lidss ts1) [b] (lidss ts2 @ post)"
proof -
  have "distinct (lidss ts1)" "distinct (lidss ts2)" using assms distinct_lidss distinct_lids by (auto simp: placed_def)
  moreover have "set (lidss ts1) \<subseteq> set (idss ts1)" "set (lidss ts2) \<subseteq> set (idss ts2)" by (rule lidss_subset)+
  moreover have "distinct ((pre @ x) @ (y @ post) @ ids b)"
    if "distinct (pre @ post @ i # x' @ ids b @ y')" "distinct x" "distinct y" "set x \<subseteq> set x'" "set y \<subseteq> set y'"
    for x y x' y' using that by auto
  moreover have "distinct (pre @ post @ i # idss ts1 @ ids b @ idss ts2)" using assms by (simp add: placed_def)
  ultimately have "distinct ((pre @ lidss ts1) @ (lidss ts2 @ post) @ ids b)" by blast
  then show ?thesis using assms by (simp add: placed_def)
qed

lemma put_node:
  assumes p: "placed t pre [BNode i ts ks] post"
  shows "inner t i = Some (node_of ts ks)" and "i < nxt t" and "put_inner t i n = Some (set_node t i (Inner n))"
proof -
  have n: "nodes t i = Some (Inner (node_of ts ks))" and "good_arena t" using p by (auto simp: placed_def body_Inr)
  then show "inner t i = Some (node_of ts ks)" "i < nxt t" "put_inner t i n = Some (set_node t i (Inner n))"
    by (auto simp: arena_simps)
qed

lemma split_inner_placed:
  assumes p: "placed t pre [BNode i ts ks] post" and len: "length ts = Suc (length ks)" and "ks \<noteq> []"
  defines "m \<equiv> length ks div 2"
  shows "\<exists>t'. split_inner t i = Some (Some (ks ! m, nxt t), t') \<and>
           placed t' pre [BNode i (take (Suc m) ts) (take m ks), BNode (nxt t) (drop (Suc m) ts) (drop (Suc m) ks)] post \<and>
           becomes t t' (BNode i ts ks) [BNode i (take (Suc m) ts) (take m ks), BNode (nxt t) (drop (Suc m) ts) (drop (Suc m) ks)]"
proof -
  let ?L = "node_of (take (Suc m) ts) (take m ks)" and ?R = "node_of (drop (Suc m) ts) (drop (Suc m) ks)"
  let ?bs = "[BNode i (take (Suc m) ts) (take m ks), BNode (nxt t) (drop (Suc m) ts) (drop (Suc m) ks)]"
  have m: "m < length ks" using assms(3) by (simp add: m_def)
  have good: "good_arena t" using p by (simp add: placed_def)
  note i = put_node [OF p]
  have holds: "\<forall>b \<in> set ts. holds (nodes t) b" and dist: "distinct (pre @ post @ i # idss ts)" using p by (auto simp: placed_def)
  define t1 where "t1 = set_node t i (Inner ?L)"
  define t2 where "t2 = new_node t1 (Inner ?R)"
  have t1: "good_arena t1" "nodes t1 = (nodes t)(i \<mapsto> Inner ?L)" "nxt t1 = nxt t" "same_meta t t1" "rightmost t1 = rightmost t"
    "put_inner t i ?L = Some t1"
    using good i by (simp_all add: t1_def arena_simps)
  have t2: "good_arena t2" "nodes t2 = (nodes t)(i \<mapsto> Inner ?L, nxt t \<mapsto> Inner ?R)" "nxt t2 = Suc (nxt t)" "same_meta t t2"
    "rightmost t2 = rightmost t" "alloc_node t1 (Inner ?R) = Some (nxt t, t2)"
    using t1 same_meta_trans [of t t1 t2] by (simp_all add: t2_def arena_simps)
  have "split_inner t i = Some (Some (ks ! m, nxt t), t2)"
    using i t1(6) t2(6) m len unfolding split_inner_def m_def
    by (simp add: node_of_def get_at_def vec_drain_def Let_def take_map drop_map min_def)
  moreover have below: "x < nxt t" if "x \<in> set (idss ts)" for x using holds holds_below [OF good] that by auto
  have "nxt t \<notin> set (idss ts)" "i \<notin> set (idss ts)" using below [of "nxt t"] dist by auto
  note contra_subsetD [OF lidss_subset this(1)] contra_subsetD [OF lidss_subset this(2)]
  then have out: "nxt t \<notin> set (pre @ lidss ts @ post)" "i \<notin> set (pre @ lidss ts @ post)" "nxt t \<noteq> i"
    using placed_outside_below [OF p] dist i(2) by auto
  have "holds (nodes t2) b = holds (nodes t) b" if "b \<in> set ts" for b
    using that dist below by (intro holds_cong) (fastforce simp: t2(2))
  then have "\<forall>b \<in> set ?bs. holds (nodes t2) b"
    using holds t2(2) out(3) by (auto dest: in_set_takeD in_set_dropD)
  moreover have "chain (nodes t2) None (pre @ lidss ts @ post) None"
    using p out unfolding t2(2) by (auto simp: placed_def)
  moreover have "distinct (pre @ post @ idss ?bs)" and "set (idss ?bs) = insert i (insert (nxt t) (set (idss ts)))"
    using dist below out placed_outside_below [OF p] idss_take_drop [of "Suc m" ts, symmetric] by auto
  ultimately show ?thesis using t2 p i(2) lidss_take_drop [of "Suc m" ts]
    by (intro exI [of _ t2]) (auto simp: placed_def becomes_def hd_append)
qed

lemma replace_child:
  fixes ks' :: "EntryKey list"
  assumes p: "placed t pre [BNode i (ts1 @ b # ts2) ks] post" and p1: "placed t1 (pre @ lidss ts1) bs (lidss ts2 @ post)"
    and bc: "becomes t t1 b bs" and ne: "lids b \<noteq> []" "lidss bs \<noteq> []"
  defines "t2 \<equiv> set_node t1 i (Inner (node_of (ts1 @ bs @ ts2) ks'))"
  shows "inner t1 i = Some (node_of (ts1 @ b # ts2) ks)"
    and "put_inner t1 i (node_of (ts1 @ bs @ ts2) ks') = Some t2"
    and "placed t2 pre [BNode i (ts1 @ bs @ ts2) ks'] post"
    and "becomes t t2 (BNode i (ts1 @ b # ts2) ks) [BNode i (ts1 @ bs @ ts2) ks']"
proof -
  have good: "good_arena t" "good_arena t1" using p p1 by (simp_all add: placed_def)
  define X Y N where "X = idss ts1" and "Y = idss ts2" and "N = idss bs"
  have dist: "distinct (pre @ post @ i # X @ ids b @ Y)" using p by (simp add: placed_def X_def Y_def)
  have hold: "\<forall>c \<in> set ts1 \<union> set ts2. holds (nodes t) c" using p by (auto simp: placed_def)
  note i = put_node [OF p]
  have le: "nxt t \<le> nxt t1" and sub: "set N \<subseteq> set (ids b) \<union> {nxt t..<nxt t1}"
    and frame: "\<And>j. j < nxt t \<Longrightarrow> j \<notin> set (ids b) \<Longrightarrow> body (nodes t1) j = body (nodes t) j"
    using bc by (auto simp: becomes_def N_def)
  have ib: "i \<notin> set (ids b)" using dist by simp
  then have "body (nodes t1) i = Some (Inr (node_of (ts1 @ b # ts2) ks))"
    using frame [OF i(2)] p by (simp add: placed_def)
  then have node: "nodes t1 i = Some (Inner (node_of (ts1 @ b # ts2) ks))" by (simp add: body_Inr)
  then show "inner t1 i = Some (node_of (ts1 @ b # ts2) ks)" by (rule inner_present)
  show "put_inner t1 i (node_of (ts1 @ bs @ ts2) ks') = Some t2"
    using put_inner_eq [OF good(2) node] by (simp add: t2_def)
  have t2: "nodes t2 = (nodes t1)(i \<mapsto> Inner (node_of (ts1 @ bs @ ts2) ks'))" "good_arena t2" "nxt t2 = nxt t1"
      "same_meta t1 t2" "rightmost t2 = rightmost t1"
    using good i(2) le by (simp_all add: t2_def arena_simps)
  have below: "j < nxt t" if "j \<in> set pre \<union> set post \<union> set X \<union> set Y" for j
    using placed_outside_below [OF p] holds_below [OF good(1)] hold that by (auto simp: X_def Y_def)
  have new: "j \<notin> set N" if "j < nxt t" "j \<notin> set (ids b)" for j using sub that by auto
  have away: "j \<notin> set (ids b) \<and> j \<noteq> i \<and> j \<notin> set N" if "j \<in> set pre \<union> set post \<union> set X \<union> set Y" for j
    using that dist new [OF below [OF that]] by auto
  have iN: "i \<notin> set N" using new [OF i(2) ib] .
  have "holds (nodes t2) c" if c: "c \<in> set ts1 \<union> set ts2" for c
  proof -
    have "body (nodes t2) j = body (nodes t) j" if "j \<in> set (ids c)" for j
    proof -
      have "j \<in> set pre \<union> set post \<union> set X \<union> set Y" using that c by (auto simp: X_def Y_def)
      then show ?thesis using away [of j] below [of j] frame [of j] t2(1) by simp
    qed
    then show ?thesis using hold c holds_cong [of c "nodes t2" "nodes t"] by auto
  qed
  moreover have "holds (nodes t2) c" if "c \<in> set bs" for c
  proof -
    have "i \<notin> set (ids c)" using iN that by (auto simp: N_def)
    then have "holds (nodes t2) c = holds (nodes t1) c" using t2(1) by (intro holds_cong) auto
    then show ?thesis using p1 that by (simp add: placed_def)
  qed
  moreover have "distinct (pre @ post @ i # X @ N @ Y)"
  proof -
    have "distinct N" using p1 by (simp add: placed_def N_def)
    then show ?thesis using dist iN away by (simp add: distinct_append disjoint_iff) blast
  qed
  moreover have "chain (nodes t2) None (pre @ lidss (ts1 @ bs @ ts2) @ post) None"
  proof -
    have "i \<notin> set X" "i \<notin> set Y" "i \<notin> set pre" "i \<notin> set post" using dist by auto
    then have "i \<notin> set (pre @ (lidss ts1 @ lidss bs @ lidss ts2) @ post)"
      using subsetD [OF lidss_subset [of ts1], of i] subsetD [OF lidss_subset [of bs], of i]
        subsetD [OF lidss_subset [of ts2], of i] iN by (auto simp: X_def Y_def N_def)
    then show ?thesis using p1 t2(1) by (simp add: placed_def)
  qed
  ultimately show "placed t2 pre [BNode i (ts1 @ bs @ ts2) ks'] post"
    using t2 p1 by (auto simp: placed_def X_def Y_def N_def)
  have "hd (lidss (ts1 @ bs @ ts2)) = hd (lidss (ts1 @ b # ts2))" using bc ne by (auto simp: becomes_def hd_append)
  moreover have "same_meta t t2" using bc t2(4) same_meta_trans [of t t1 t2] by (simp add: becomes_def)
  moreover have "set (X @ N @ Y) \<subseteq> set (X @ ids b @ Y) \<union> {nxt t..<nxt t2}" using sub t2(3) by auto
  ultimately show "becomes t t2 (BNode i (ts1 @ b # ts2) ks) [BNode i (ts1 @ bs @ ts2) ks']"
    using le t2 frame by (auto simp: becomes_def X_def Y_def N_def)
qed

lemma insert_child_eq:
  assumes p1: "placed t1 pre bs post" and fit: "fits r bs ks'" and bid: "bid (hd bs) = bid b"
    and size: "length (flats bs) = Suc (length (flat b))" and len: "length ks1 = length ts1" "length ts2 = length ks2"
    and cap: "length (ks1 @ ks2) \<le> INNER_CAPACITY"
    and node: "inner t1 i = Some (node_of (ts1 @ b # ts2) (ks1 @ ks2))"
    and put: "put_inner t1 i (node_of (ts1 @ bs @ ts2) (ks1 @ ks' @ ks2)) = Some t2"
  shows "insert_child t1 i (length ts1) (bid b) (split_of bs ks') =
    (if INNER_CAPACITY < length (ks1 @ ks' @ ks2) then split_inner t2 i else Some (None, t2))"
  using fit unfolding fits_def
proof (elim disjE exE conjE)
  fix b' assume b': "bs = [b']" "ks' = []"
  have "(node_of (ts1 @ b # ts2) (ks1 @ ks2))\<lparr>child_sizes := (map (\<lambda>t. of_nat (length (flat t))) (ts1 @ b # ts2))
          [length ts1 := of_nat (length (flat b)) + 1]\<rparr> = node_of (ts1 @ bs @ ts2) (ks1 @ ks' @ ks2)"
    using b' bid size by (simp add: node_of_def list_update_append)
  then show ?thesis using b' node put cap
    by (simp add: insert_child_def split_of_def node_of_def get_at_def nth_append)
next
  fix b1 b2 k assume b': "bs = [b1, b2]" "ks' = [k]"
  have "subtree_size t1 (bid b1) = Some (of_nat (length (flat b1)))" "subtree_size t1 (bid b2) = Some (of_nat (length (flat b2)))"
    using p1 b' subtree_size_holds by (auto simp: placed_def)
  then show ?thesis using b' node put bid len
    by (simp add: insert_child_def split_of_def node_of_def get_at_def nth_append vec_insert_def insert_at_def
        list_update_append)
qed

lemma fits_facts:
  assumes "fits r bs ks"
  shows "bs \<noteq> []" and "\<forall>b \<in> set bs. sized r b" and "lidss bs \<noteq> []"
proof -
  show "bs \<noteq> []" and all: "\<forall>b \<in> set bs. sized r b"
    using assms by (auto simp: fits_def intro: sized_weaken)
  then show "lidss bs \<noteq> []" using lids_not_Nil by (cases bs) auto
qed

text \<open>Cutting an overfull inner node.\<close>

lemma split_inner_inserted:
  assumes p: "placed t2 pre [BNode i ts ks] post" and bc: "becomes t t2 b [BNode i ts ks]"
    and size: "\<forall>t \<in> set ts. sized False t" and len: "length ks = Suc INNER_CAPACITY"
    and bal: "\<forall>t \<in> set ts. balanced h t" and ord: "ordereds lo ts ks hi" and flat: "flats ts = insort_key key_of e (flat b)"
  shows "inserted t pre b post e r (Suc h) lo hi (split_inner t2 i)"
proof -
  let ?m = "length ks div 2"
  let ?bs = "[BNode i (take (Suc ?m) ts) (take ?m ks), BNode (nxt t2) (drop (Suc ?m) ts) (drop (Suc ?m) ks)]"
  have lts: "length ts = Suc (length ks)" using ord by (rule ordereds_length)
  obtain t3 where t3: "split_inner t2 i = Some (Some (ks ! ?m, nxt t2), t3)" "placed t3 pre ?bs post"
      "becomes t2 t3 (BNode i ts ks) ?bs"
    using split_inner_placed [OF p lts] len by force
  have m: "?m < length ks" "?m = 11" using len by (simp_all add: capacity_defs)
  have "ks = take ?m ks @ ks ! ?m # drop (Suc ?m) ks" "ts = take (Suc ?m) ts @ drop (Suc ?m) ts"
    using m(1) by (simp_all add: id_take_nth_drop)
  then have "number (ks ! ?m) \<and> ordereds lo (take (Suc ?m) ts) (take ?m ks) (Some (key_of (ks ! ?m))) \<and>
      ordereds (Some (key_of (ks ! ?m))) (drop (Suc ?m) ts) (drop (Suc ?m) ks) hi"
    using ordereds_append [of "take (Suc ?m) ts" "take ?m ks" lo "drop (Suc ?m) ts" "ks ! ?m" "drop (Suc ?m) ks" hi]
      ord m lts by simp
  then have "ordereds lo ?bs [ks ! ?m] hi" by simp
  moreover have "fits r ?bs [ks ! ?m]"
    using size lts len m(2) by (auto simp: fits_def capacity_defs dest: in_set_takeD in_set_dropD)
  moreover have "\<forall>c \<in> set ?bs. balanced (Suc h) c" using bal by (auto dest: in_set_takeD in_set_dropD)
  moreover have "flats ?bs = insort_key key_of e (flat b)" using flat flats_take_drop [of "Suc ?m" ts] by simp
  ultimately show ?thesis unfolding inserted_def
    using t3(1,2) becomes_trans [OF bc t3(3)]
    by (intro exI [of _ ?bs] exI [of _ "[ks ! ?m]"] exI [of _ t3]) (simp add: split_of_def)
qed

lemma insert_recursive_spec:
  assumes "placed t pre [b] post" and "sized r b" and "balanced h b" and "ordered lo b hi"
    and "number e" and "above lo (key_of e)" and "below hi (key_of e)" and "strict (insort_key key_of e (flat b))"
  shows "inserted t pre b post e r h lo hi (insert_recursive t (bid b) e)"
  using assms
proof (induction b arbitrary: t pre post r h lo hi)
  case (BLeaf i es)
  then have "h = 0" and "body (nodes t) i = Some (Inl es)" by (simp_all add: placed_def)
  moreover then have "insert_recursive t i e = insert_into_leaf t i e" by (auto simp: body_Inl insert_recursive.simps)
  ultimately show ?case using insert_into_leaf_spec [OF BLeaf.prems(1,2,4-7)] BLeaf.prems(8) by simp
next
  case (BNode i ts ks)
  obtain h' where h: "h = Suc h'" "\<forall>t \<in> set ts. balanced h' t" using BNode.prems(3) by (auto split: nat.splits)
  have ord: "ordereds lo ts ks hi" and size: "\<forall>t \<in> set ts. sized False t" and cap: "length ks \<le> INNER_CAPACITY"
    using BNode.prems by auto
  let ?c = "child_index_for_key ks (score e) (member e)"
  have key: "key_of e = (f64_rank (score e), member e)" by (simp add: key_of_def)
  obtain ts1 b ts2 ks1 ks2 where ts: "ts = ts1 @ b # ts2" and ks: "ks = ks1 @ ks2" and c: "length ts1 = ?c" "length ks1 = ?c"
    and ordb: "ordered (low_key lo ks1) b (high_key ks2 hi)" "above (low_key lo ks1) (key_of e)" "below (high_key ks2 hi) (key_of e)"
    and sides: "\<forall>x \<in> set (flats ts1). key_of x < key_of e" "\<forall>x \<in> set (flats ts2). key_of e < key_of x"
    and refocus: "\<And>bs ks'. ordereds (low_key lo ks1) bs ks' (high_key ks2 hi) \<Longrightarrow> ordereds lo (ts1 @ bs @ ts2) (ks1 @ ks' @ ks2) hi"
    using child_of_key [OF ord size, of "score e" "member e"] BNode.prems(5-7) unfolding key by metis
  have b: "sized False b" "balanced h' b" using size h(2) ts by simp_all
  have flat: "insort_key key_of e (flats ts) = flats ts1 @ insort_key key_of e (flat b) @ flats ts2"
    using sides by (simp add: ts insort_append_left insort_append_right order_less_imp_le)
  have p: "placed t pre [BNode i (ts1 @ b # ts2) ks] post" using BNode.prems(1) ts by simp
  have str: "strict (insort_key key_of e (flat b))" using BNode.prems(8) flat by (simp add: sorted_wrt_append)
  have "b \<in> set ts" using ts by simp
  from BNode.IH [OF this placed_child [OF p] b ordb(1) BNode.prems(5) ordb(2,3) str]
  obtain bs ks' t1 where run: "insert_recursive t (bid b) e = Some (split_of bs ks', t1)"
      and t1: "placed t1 (pre @ lidss ts1) bs (lidss ts2 @ post)" "becomes t t1 b bs" "fits False bs ks'"
      "\<forall>b \<in> set bs. balanced h' b" "ordereds (low_key lo ks1) bs ks' (high_key ks2 hi)" "flats bs = insort_key key_of e (flat b)"
    by (auto simp: inserted_def)
  define t2 where "t2 = set_node t1 i (Inner (node_of (ts1 @ bs @ ts2) (ks1 @ ks' @ ks2)))"
  note child = p t1(1,2) lids_not_Nil [OF b(1)] fits_facts(3) [OF t1(3)]
  note t2 = replace_child(1) [OF child] replace_child(2-4) [OF child, of "ks1 @ ks' @ ks2", folded t2_def]
  have ord2: "ordereds lo (ts1 @ bs @ ts2) (ks1 @ ks' @ ks2) hi" using refocus [OF t1(5)] .
  have lens: "length ks1 = length ts1" "length ts2 = length ks2" using c ordereds_length [OF ord] ts ks by simp_all
  have step: "insert_recursive t i e =
      (if INNER_CAPACITY < length (ks1 @ ks' @ ks2) then split_inner t2 i else Some (None, t2))"
  proof -
    have "nodes t i = Some (Inner (node_of ts ks))" using BNode.prems(1) by (simp add: placed_def body_Inr)
    moreover have "get_at (children (node_of ts ks)) ?c = Some (bid b)" using ts c by (simp add: node_of_def get_at_def nth_append)
    ultimately have "insert_recursive t i e = insert_child t1 i (length ts1) (bid b) (split_of bs ks')"
      using run c(1) by (subst insert_recursive.simps) (simp add: node_of_def)
    also have "\<dots> = (if INNER_CAPACITY < length (ks1 @ ks' @ ks2) then split_inner t2 i else Some (None, t2))"
      using t1(2,6) t2(1,2) cap ks lens by (intro insert_child_eq [OF t1(1,3)]) (auto simp: becomes_def)
    finally show ?thesis .
  qed
  have sz: "\<forall>t \<in> set (ts1 @ bs @ ts2). sized False t" and bal: "\<forall>t \<in> set (ts1 @ bs @ ts2). balanced h' t"
    using size fits_facts(2) [OF t1(3)] h(2) t1(4) ts by auto
  have flats: "flats (ts1 @ bs @ ts2) = insort_key key_of e (flat (BNode i ts ks))" using flat t1(6) by simp
  have lk: "length ks \<le> length (ks1 @ ks' @ ks2)" "length (ks1 @ ks' @ ks2) \<le> Suc (length ks)"
    using t1(3) ks by (auto simp: fits_def)
  show ?case
  proof (cases "INNER_CAPACITY < length (ks1 @ ks' @ ks2)")
    case True
    then have "length (ks1 @ ks' @ ks2) = Suc INNER_CAPACITY" using lk cap by simp
    from split_inner_inserted [OF t2(3) t2(4) [folded ts] sz this bal ord2 flats]
    show ?thesis using step True h(1) ts by simp
  next
    case False
    let ?b' = "BNode i (ts1 @ bs @ ts2) (ks1 @ ks' @ ks2)"
    have "sized r ?b'" using sz False lk BNode.prems(2) ordereds_length [OF ord2] by (auto split: if_splits)
    moreover have "ordereds lo [?b'] [] hi" "balanced h ?b'" "flats [?b'] = insort_key key_of e (flat (BNode i ts ks))"
      using ord2 bal h(1) flats by simp_all
    ultimately show ?thesis unfolding inserted_def
      using t2(3,4) ts step False by (intro exI [of _ "[?b']"] exI [of _ "[]"] exI [of _ t2]) (simp add: split_of_def fits_def)
  qed
qed

section \<open>The tree and its list of entries\<close>

definition tree_shape :: "BPTree \<Rightarrow> ZSetEntry list \<Rightarrow> bool" where
  "tree_shape t xs \<longleftrightarrow> good_arena t \<and> strict xs \<and> (\<forall>x \<in> set xs. number x) \<and> tree_len t = of_nat (length xs) \<and>
     (if xs = [] then root t = None \<and> leftmost t = None \<and> rightmost t = None
      else \<exists>b h. root t = Some (bid b) \<and> flat b = xs \<and> placed t [] [b] [] \<and> sized True b \<and> balanced h b \<and>
             ordered None b None \<and> leftmost t = Some (hd (lids b)))"

lemma strict_iff: "strict xs \<longleftrightarrow> sorted (map key_of xs) \<and> distinct (map key_of xs)"
  by (simp add: sorted_wrt_map [symmetric] strict_sorted_iff [symmetric])

lemma strict_insort: "strict xs \<Longrightarrow> key_of e \<notin> key_of ` set xs \<Longrightarrow> strict (insort_key key_of e xs)"
proof (induction xs)
  case (Cons x xs)
  then show ?case by (cases "key_of e \<le> key_of x") (fastforce simp: set_insort_key)+
qed simp

lemma tree_shape_empty: "good_arena t \<Longrightarrow> root t = None \<Longrightarrow> leftmost t = None \<Longrightarrow> rightmost t = None \<Longrightarrow> tree_len t = 0 \<Longrightarrow>
    tree_shape t []"
  by (simp add: tree_shape_def)

lemma placed_update:
  "placed (t\<lparr>root := x, leftmost := y, tree_len := z, member_scores := w\<rparr>) pre bs post = placed t pre bs post"
  by (simp add: placed_def)

lemma placed_new_root:
  assumes p: "placed t [] [b1, b2] []"
  shows "placed (new_node t (Inner (node_of [b1, b2] [k]))) [] [BNode (nxt t) [b1, b2] [k]] []"
proof -
  let ?t = "new_node t (Inner (node_of [b1, b2] [k]))"
  have good: "good_arena t" using p by (simp add: placed_def)
  have t: "nodes ?t = (nodes t)(nxt t \<mapsto> Inner (node_of [b1, b2] [k]))" "good_arena ?t" "rightmost ?t = rightmost t"
    using good by (simp_all add: arena_simps)
  have new: "nxt t \<notin> set (ids b)" if "b \<in> {b1, b2}" for b
    using holds_below [OF good, of b "nxt t"] p that by (auto simp: placed_def)
  then have "nxt t \<notin> set (lids b)" if "b \<in> {b1, b2}" for b using lids_subset [of b] that by auto
  moreover have "holds (nodes ?t) b = holds (nodes t) b" if "b \<in> {b1, b2}" for b
    using new [OF that] by (intro holds_cong) (auto simp: t(1))
  ultimately show ?thesis using p t new by (simp add: placed_def)
qed

lemma insert_new_entry_spec:
  assumes shape: "tree_shape t xs" and e: "number e" "key_of e \<notin> key_of ` set xs"
  shows "\<exists>t'. insert_new_entry t e = Some t' \<and> tree_shape t' (insort_key key_of e xs) \<and> member_scores t' = member_scores t"
proof (cases "xs = []")
  case True
  define t1 where "t1 = new_node t (Leaf \<lparr>entries = [e], next_leaf = None, prev_leaf = None\<rparr>)"
  define t2 where "t2 = t1\<lparr>root := Some (nxt t), leftmost := Some (nxt t), rightmost := Some (nxt t), tree_len := 1\<rparr>"
  have good: "good_arena t" and "root t = None" using shape True by (simp_all add: tree_shape_def)
  then have run: "insert_new_entry t e = Some t2"
    by (simp add: insert_new_entry_def alloc_node_eq t1_def t2_def)
  have n: "nodes t2 = (nodes t)(nxt t \<mapsto> Leaf \<lparr>entries = [e], next_leaf = None, prev_leaf = None\<rparr>)" "good_arena t2"
    using good by (simp_all add: t1_def t2_def arena_simps)
  then have "placed t2 [] [BLeaf (nxt t) [e]] []" by (simp add: placed_def t2_def)
  moreover have "sized True (BLeaf (nxt t) [e])" "ordered None (BLeaf (nxt t) [e]) None"
    using e(1) by (simp_all add: capacity_defs above_def below_def)
  ultimately have "tree_shape t2 [e]" using n e(1) unfolding tree_shape_def
    by (auto simp: t2_def intro!: exI [of _ "BLeaf (nxt t) [e]"] exI [of _ 0])
  then show ?thesis using run True by (simp add: t2_def t1_def)
next
  case False
  then obtain b h where b: "root t = Some (bid b)" "flat b = xs" "placed t [] [b] []" "sized True b" "balanced h b"
      "ordered None b None" "leftmost t = Some (hd (lids b))"
    using shape by (auto simp: tree_shape_def)
  have str: "strict (insort_key key_of e (flat b))" using shape e(2) b(2) by (auto simp: tree_shape_def intro: strict_insort)
  obtain bs ks t1 where run: "insert_recursive t (bid b) e = Some (split_of bs ks, t1)"
      and t1: "placed t1 [] bs []" "becomes t t1 b bs" "fits True bs ks" "\<forall>b \<in> set bs. balanced h b" "ordereds None bs ks None"
        "flats bs = insort_key key_of e (flat b)"
    using insert_recursive_spec [OF b(3-6) e(1) _ _ str] by (auto simp: inserted_def above_def below_def)
  have meta: "root t1 = Some (bid b)" "leftmost t1 = Some (hd (lidss bs))" "tree_len t1 = of_nat (length xs)" "member_scores t1 = member_scores t"
    using t1(2) b(1,7) shape by (auto simp: becomes_def same_meta_def tree_shape_def)
  have num: "\<forall>x \<in> set (insort_key key_of e xs). number x" using shape e(1) by (auto simp: tree_shape_def set_insort_key)
  have ne: "insort_key key_of e xs \<noteq> []" by (simp add: insort_takeWhile)
  show ?thesis
  proof (cases ks)
    case Nil
    then obtain b' where b': "bs = [b']" "sized True b'" using t1(3) by (auto simp: fits_def)
    define t2 where "t2 = t1\<lparr>tree_len := tree_len t1 + 1\<rparr>"
    have go: "insert_new_entry t e = Some t2" using b(1) run Nil by (simp add: insert_new_entry_def split_of_def t2_def)
    have "placed t2 [] [b'] []" "bid b' = bid b" using t1(1,2) b' by (auto simp: t2_def placed_def becomes_def)
    moreover have "ordered None b' None" using t1(5) b'(1) Nil by simp
    ultimately have "tree_shape t2 (insort_key key_of e xs)" unfolding tree_shape_def
      using t1 b' meta num ne b(2) str by (auto simp: t2_def placed_def intro!: exI [of _ b'] exI [of _ h])
    then show ?thesis using go meta by (auto simp: t2_def)
  next
    case (Cons k ks')
    then obtain b1 b2 where b': "bs = [b1, b2]" "ks = [k]" "sized False b1" "sized False b2" using t1(3) by (auto simp: fits_def)
    let ?b = "BNode (nxt t1) [b1, b2] [k]"
    define t2 where "t2 = new_node t1 (Inner (node_of [b1, b2] [k]))"
    define t3 where "t3 = t2\<lparr>root := Some (nxt t1), tree_len := tree_len t2 + 1\<rparr>"
    have hold: "holds (nodes t1) b1" "holds (nodes t1) b2" "good_arena t1" "bid b1 = bid b"
      using t1(1,2) b' by (auto simp: placed_def becomes_def)
    then have "insert_new_entry t e = Some t3"
      using b(1) run b'(1,2) subtree_size_holds [OF hold(1)] subtree_size_holds [OF hold(2)]
      by (simp add: insert_new_entry_def split_of_def alloc_node_eq t2_def t3_def node_of_def)
    moreover have "placed t3 [] [?b] []"
      using placed_new_root [of t1 b1 b2 k] t1(1) b'(1) by (simp add: t2_def t3_def placed_def)
    moreover have "sized True ?b" "balanced (Suc h) ?b" "ordered None ?b None" "flat ?b = insort_key key_of e xs"
        "hd (lids ?b) = hd (lidss bs)"
      using b' t1(4-6) b(2) by (simp_all add: capacity_defs)
    ultimately show ?thesis unfolding tree_shape_def
      using meta num ne str b(2) by (auto simp: t2_def t3_def placed_def intro!: exI [of _ ?b] exI [of _ "Suc h"])
  qed
qed

lemma strict_append_insort:
  assumes "strict (xs @ e # es)"
  shows "insort_key key_of e xs = xs @ [e]" and "key_of e \<notin> key_of ` set xs"
proof -
  have "\<forall>x \<in> set xs. key_of x < key_of e" using assms by (auto simp: sorted_wrt_append)
  then show "insort_key key_of e xs = xs @ [e]" "key_of e \<notin> key_of ` set xs"
    using insort_append_left [of xs key_of e "[]"] by auto
qed

lemma insert_entries_spec:
  "tree_shape t xs \<Longrightarrow> strict (xs @ es) \<Longrightarrow> \<forall>e \<in> set es. number e \<Longrightarrow>
     \<exists>t'. insert_entries t es = Some t' \<and> tree_shape t' (xs @ es) \<and> member_scores t' = member_scores t"
proof (induction es arbitrary: t xs)
  case (Cons e es)
  note se = strict_append_insort [OF Cons.prems(2)]
  obtain t1 where t1: "insert_new_entry t e = Some t1" "tree_shape t1 (xs @ [e])" "member_scores t1 = member_scores t"
    using insert_new_entry_spec [OF Cons.prems(1) _ se(2)] Cons.prems(3) se(1) by auto
  then show ?case using Cons.IH [OF t1(2)] Cons.prems(2,3) by auto
qed simp

section \<open>Descents\<close>

fun leaves :: "btree \<Rightarrow> (NodeId \<times> ZSetEntry list) list" where
  "leaves (BLeaf i es) = [(i, es)]"
| "leaves (BNode i ts ks) = concat (map leaves ts)"

abbreviation held :: "(NodeId \<times> ZSetEntry list) list \<Rightarrow> ZSetEntry list" where
  "held ls \<equiv> concat (map snd ls)"

lemma leaves_lids: "map fst (leaves b) = lids b"
  by (induction b) (auto simp: map_concat o_def cong: map_cong)

lemma held_concat: "held (concat lss) = concat (map held lss)"
  by (induction lss) auto

lemma leaves_flat: "held (leaves b) = flat b"
  by (induction b) (auto simp: held_concat o_def cong: map_cong)

lemma leaves_body: "holds M b \<Longrightarrow> (i, es) \<in> set (leaves b) \<Longrightarrow> body M i = Some (Inl es)"
  by (induction b) auto

lemma leaves_not_Nil: "sized r b \<Longrightarrow> (i, es) \<in> set (leaves b) \<Longrightarrow> es \<noteq> []"
  by (induction b arbitrary: r) (auto simp: capacity_defs split: if_splits)

lemma sum_sizes: "sum_list (map (\<lambda>t. word_of_nat (length (flat t)) :: 64 word) ts) = word_of_nat (length (flats ts))"
  by (induction ts) auto

text \<open>A descent looks for the end of a prefix of the entries: \<open>q\<close> decides by a separator that \<open>P\<close> holds of
  the entries to its left, and otherwise that \<open>R\<close> holds of those to its right.\<close>

definition follows :: "(EntryKey \<Rightarrow> bool) \<Rightarrow> (ZSetEntry \<Rightarrow> bool) \<Rightarrow> (ZSetEntry \<Rightarrow> bool) \<Rightarrow> bool" where
  "follows q P R \<longleftrightarrow> (\<forall>k x. number k \<longrightarrow> number x \<longrightarrow>
     (q k \<longrightarrow> key_of x < key_of k \<longrightarrow> P x) \<and> (\<not> q k \<longrightarrow> key_of k \<le> key_of x \<longrightarrow> R x))"

lemma child_of_predicate:
  assumes "ordereds lo ts ks hi" and size: "\<forall>t \<in> set ts. sized False t" and "follows q P R"
  obtains ts1 b ts2 lo' hi' where "ts = ts1 @ b # ts2" and "length ts1 = length (takeWhile q ks)"
    and "ordered lo' b hi'" and "\<forall>x \<in> set (flats ts1). P x" and "\<forall>x \<in> set (flats ts2). R x"
proof -
  define ks1 where "ks1 = takeWhile q ks"
  define ks2 where "ks2 = dropWhile q ks"
  have ks: "ks = ks1 @ ks2" by (simp add: ks1_def ks2_def)
  let ?c = "length ks1"
  have "?c < length ts" using ordereds_length [OF assms(1)] ks by simp
  then have ts: "ts = take ?c ts @ ts ! ?c # drop (Suc ?c) ts" and len: "length (take ?c ts) = length ks1"
    by (simp_all add: id_take_nth_drop)
  have ord: "ordereds lo (take ?c ts @ ts ! ?c # drop (Suc ?c) ts) (ks1 @ ks2) hi" using assms(1) ts ks by simp
  have sz: "\<forall>t \<in> set (take ?c ts). sized False t" "\<forall>t \<in> set (drop (Suc ?c) ts). sized False t"
    using size by (auto dest: in_set_takeD in_set_dropD)
  have num: "\<forall>k \<in> set ks. number k" using ordereds_numbers [OF assms(1)] by blast
  have "P x" if x: "x \<in> set (flats (take ?c ts))" for x
  proof -
    have ne: "take ?c ts \<noteq> []" using x by auto
    then have "last ks1 \<in> set ks1" using len by (cases ks1) auto
    then have "q (last ks1)" "number (last ks1)" using num by (auto simp: ks1_def dest: set_takeWhileD)
    moreover have "number x" "key_of x < key_of (last ks1)"
      using ordereds_bounds_sized [OF sz(1) ordereds_left [OF len ord ne] x] by (auto simp: below_def)
    ultimately show ?thesis using assms(3) by (auto simp: follows_def)
  qed
  moreover have "R x" if x: "x \<in> set (flats (drop (Suc ?c) ts))" for x
  proof (cases ks2)
    case Nil
    then show ?thesis using x ordereds_length [OF ord] len by auto
  next
    case (Cons k ks3)
    have "\<not> q k" using Cons by (simp add: ks2_def dropWhile_eq_Cons_conv)
    moreover have "number k" using num ks Cons by simp
    moreover have "number x" "key_of k \<le> key_of x"
      using ordereds_bounds_sized [OF sz(2) ordereds_right [OF len ord [unfolded Cons]] x] by (auto simp: above_def)
    ultimately show ?thesis using assms(3) by (auto simp: follows_def)
  qed
  moreover have "ordered (low_key lo ks1) (ts ! ?c) (high_key ks2 hi)" using ordereds_focus [OF len ord] by blast
  ultimately show thesis using that [OF ts] len ks1_def by blast
qed

text \<open>Where a descent ends: \<open>P\<close> holds of the entries of the leaves before, \<open>R\<close> of those after.\<close>

definition reaches :: "btree \<Rightarrow> (ZSetEntry \<Rightarrow> bool) \<Rightarrow> (ZSetEntry \<Rightarrow> bool) \<Rightarrow> (NodeId \<times> ZSetEntry list) list \<Rightarrow> NodeId \<Rightarrow> ZSetEntry list
    \<Rightarrow> (NodeId \<times> ZSetEntry list) list \<Rightarrow> bool" where
  "reaches b P R ls1 i es ls2 \<longleftrightarrow> leaves b = ls1 @ (i, es) # ls2 \<and> (\<forall>x \<in> set (held ls1). P x) \<and> (\<forall>x \<in> set (held ls2). R x)"

lemma reaches_child:
  assumes "reaches b P R ls1 i es ls2" and "\<forall>x \<in> set (flats ts1). P x" and "\<forall>x \<in> set (flats ts2). R x"
  shows "reaches (BNode j (ts1 @ b # ts2) ks) P R (concat (map leaves ts1) @ ls1) i es (ls2 @ concat (map leaves ts2))"
proof -
  have held: "held (concat (map leaves ts)) = flats ts" for ts by (simp add: held_concat o_def leaves_flat)
  have "leaves (BNode j (ts1 @ b # ts2) ks) = (concat (map leaves ts1) @ ls1) @ (i, es) # ls2 @ concat (map leaves ts2)"
    using assms(1) by (simp add: reaches_def)
  moreover have "\<forall>x \<in> set (held (concat (map leaves ts1) @ ls1)). P x" "\<forall>x \<in> set (held (ls2 @ concat (map leaves ts2))). R x"
    using assms unfolding reaches_def map_append concat_append set_append held by auto
  ultimately show ?thesis unfolding reaches_def by blast
qed

lemma search_loop_spec:
  fixes m :: bytes
  assumes "holds (nodes t) b" and "sized r b" and "ordered lo b hi" and "\<not> is_nan s"
  defines "kk \<equiv> (f64_rank s, m)"
  shows "\<exists>ls1 i es ls2. reaches b (\<lambda>x. key_of x < kk) (\<lambda>x. kk < key_of x) ls1 i es ls2 \<and>
     search_loop t \<lparr>score = s, member = m\<rparr> (bid b) rank = Some \<lparr>path_leaf = i, path_index = length (takeWhile (\<lambda>x. key_of x < kk) es),
       found = (case get_at es (length (takeWhile (\<lambda>x. key_of x < kk) es)) of None \<Rightarrow> False | Some x \<Rightarrow> key_of x = kk),
       path_rank = rank + of_nat (length (held ls1) + length (takeWhile (\<lambda>x. key_of x < kk) es))\<rparr>"
  using assms(1-3)
proof (induction b arbitrary: r lo hi rank)
  case (BLeaf i es)
  then obtain l where l: "nodes t i = Some (Leaf l)" "entries l = es" by (auto simp: body_Inl)
  have num: "\<forall>e \<in> set es. number e" using BLeaf.prems by simp
  then have lb: "lower_bound_entry es s m = length (takeWhile (\<lambda>x. key_of x < kk) es)"
    using lower_bound_eq [OF num assms(4), of m] by (simp add: kk_def)
  have "entry_matches x s m \<longleftrightarrow> key_of x = kk" if "x \<in> set es" for x
    using num that assms(4) by (auto simp: entry_matches_def scores_equal_def f64_eq_def key_of_def kk_def)
  then have "(case get_at es j of None \<Rightarrow> False | Some x \<Rightarrow> entry_matches x s m) =
      (case get_at es j of None \<Rightarrow> False | Some x \<Rightarrow> key_of x = kk)" for j
    by (auto simp: get_at_def split: option.splits)
  then have "search_loop t \<lparr>score = s, member = m\<rparr> i rank = Some \<lparr>path_leaf = i, path_index = length (takeWhile (\<lambda>x. key_of x < kk) es),
       found = (case get_at es (length (takeWhile (\<lambda>x. key_of x < kk) es)) of None \<Rightarrow> False | Some x \<Rightarrow> key_of x = kk),
       path_rank = rank + of_nat (length (takeWhile (\<lambda>x. key_of x < kk) es))\<rparr>"
    using l lb by (simp add: search_loop.simps Let_def cong: option.case_cong)
  then show ?case by (intro exI [of _ "[]"] exI [of _ i] exI [of _ es]) (simp add: reaches_def)
next
  case (BNode i ts ks)
  have ord: "ordereds lo ts ks hi" and size: "\<forall>t \<in> set ts. sized False t" using BNode.prems by auto
  have fol: "follows (\<lambda>k. key_of k \<le> kk) (\<lambda>x. key_of x < kk) (\<lambda>x. kk < key_of x)" by (auto simp: follows_def)
  obtain ts1 b ts2 lo' hi' where ts: "ts = ts1 @ b # ts2" and len: "length ts1 = length (takeWhile (\<lambda>k. key_of k \<le> kk) ks)"
      and b: "ordered lo' b hi'" and sides: "\<forall>x \<in> set (flats ts1). key_of x < kk" "\<forall>x \<in> set (flats ts2). kk < key_of x"
    using child_of_predicate [OF ord size fol] by metis
  have c: "child_index_for_key ks s m = length ts1"
    using child_index_eq [OF _ assms(4)] ordereds_numbers [OF ord] len by (simp add: kk_def)
  have "b \<in> set ts" "holds (nodes t) b" "sized False b" using ts size BNode.prems(1) by auto
  from BNode.IH [OF this b, of "rank + of_nat (length (flats ts1))"]
  obtain ls1 j es ls2 where r: "reaches b (\<lambda>x. key_of x < kk) (\<lambda>x. kk < key_of x) ls1 j es ls2"
    and run: "search_loop t \<lparr>score = s, member = m\<rparr> (bid b) (rank + of_nat (length (flats ts1))) =
      Some \<lparr>path_leaf = j, path_index = length (takeWhile (\<lambda>x. key_of x < kk) es),
       found = (case get_at es (length (takeWhile (\<lambda>x. key_of x < kk) es)) of None \<Rightarrow> False | Some x \<Rightarrow> key_of x = kk),
       path_rank = rank + of_nat (length (flats ts1)) + of_nat (length (held ls1) + length (takeWhile (\<lambda>x. key_of x < kk) es))\<rparr>"
    by blast
  have "search_loop t \<lparr>score = s, member = m\<rparr> i rank = search_loop t \<lparr>score = s, member = m\<rparr> (bid b) (rank + of_nat (length (flats ts1)))"
    using BNode.prems(1) ts c by (subst search_loop.simps) (simp add: body_Inr node_of_def slice_def get_at_def nth_append sum_sizes)
  moreover have "length (held (concat (map leaves ts1) @ ls1)) = length (flats ts1) + length (held ls1)"
    by (simp add: held_concat o_def leaves_flat)
  ultimately show ?case using run reaches_child [OF r sides] ts
    by (intro exI [of _ "concat (map leaves ts1) @ ls1"] exI [of _ j] exI [of _ es] exI [of _ "ls2 @ concat (map leaves ts2)"]) simp
qed

section \<open>Walks along the leaves\<close>

fun walk :: "(NodeId \<Rightarrow> Node option) \<Rightarrow> (NodeId \<times> ZSetEntry list) list \<Rightarrow> bool" where
  "walk M [] \<longleftrightarrow> True"
| "walk M ((i, es) # ls) \<longleftrightarrow>
     (\<exists>l. M i = Some (Leaf l) \<and> entries l = es \<and> next_leaf l = hd_or (map fst ls) None) \<and> walk M ls"

lemma walk_append: "walk M (ls1 @ ls2) \<Longrightarrow> walk M ls2"
  by (induction ls1) auto

lemma walk_chain:
  "chain M pv (map fst ls) None \<Longrightarrow> \<forall>(i, es) \<in> set ls. body M i = Some (Inl es) \<Longrightarrow> walk M ls"
  by (induction ls arbitrary: pv) (auto simp: body_Inl)

lemma placed_walk:
  assumes "placed t [] [b] []"
  shows "walk (nodes t) (leaves b)"
  using assms by (intro walk_chain [of _ None]) (auto simp: placed_def leaves_lids intro: leaves_body)

text \<open>A place in the tree and the entries from there on.\<close>

definition at_entry :: "BPTree \<Rightarrow> NodeId \<Rightarrow> nat \<Rightarrow> ZSetEntry list \<Rightarrow> bool" where
  "at_entry t i index rest \<longleftrightarrow>
     (\<exists>es ls. walk (nodes t) ((i, es) # ls) \<and> (\<forall>p \<in> set ls. snd p \<noteq> []) \<and> index \<le> length es \<and> rest = drop index es @ held ls)"

lemma first_hit_walk:
  "walk (nodes t) ((i, es) # ls) \<Longrightarrow> index \<le> length es \<Longrightarrow> rest = drop index es @ held ls \<Longrightarrow>
     \<forall>p \<in> set ls. snd p \<noteq> [] \<Longrightarrow>
     (rest = [] \<longrightarrow> first_hit t i index rank = Some None) \<and>
     (rest \<noteq> [] \<longrightarrow> (\<exists>hit. first_hit t i index rank = Some (Some hit) \<and> at_entry t (hit_leaf hit) (hit_index hit) rest \<and>
        entry_at t (hit_leaf hit) (hit_index hit) = Some (Some (hd rest))))"
proof (induction ls arbitrary: i es index rank)
  case Nil
  then obtain l where l: "nodes t i = Some (Leaf l)" "entries l = es" "next_leaf l = None" by auto
  have "at_entry t i index rest" using Nil unfolding at_entry_def by blast
  then show ?case using Nil.prems(2,3) l
    by (subst (1 2) first_hit.simps) (auto simp: leaf_present entry_at_def get_at_def hd_drop_conv_nth)
next
  case (Cons p ls)
  obtain j es' where p: "p = (j, es')" by (cases p)
  obtain l where l: "nodes t i = Some (Leaf l)" "entries l = es" "next_leaf l = Some j" using Cons.prems(1) p by auto
  show ?case
  proof (cases "index < length es")
    case True
    then have "rest \<noteq> []" "hd rest = es ! index" using Cons.prems(3) by (auto simp: hd_append hd_drop_conv_nth)
    then show ?thesis using True l Cons.prems
      by (subst (1 2) first_hit.simps)
        (auto simp: leaf_present at_entry_def entry_at_def get_at_def intro!: exI [of _ es] exI [of _ "p # ls"])
  next
    case False
    then have "first_hit t i index rank = first_hit t j 0 (rank + of_nat (length (entries l) - index))"
      using l by (subst first_hit.simps) (simp add: leaf_present)
    moreover have "walk (nodes t) ((j, es') # ls)" "rest = drop 0 es' @ held ls" using Cons.prems p False by auto
    ultimately show ?thesis using Cons.IH [of j es' 0] Cons.prems(4) by simp
  qed
qed

lemma takeWhile_const [simp]: "takeWhile (\<lambda>_. True) xs = xs" "takeWhile (\<lambda>_. False) xs = []"
  by (induction xs) auto

lemma child_index_score_eq:
  "child_index_for_score_bound ks bound = length (takeWhile (\<lambda>k. score_lower_predicate (score k) bound) ks)"
  by (cases bound) (simp_all add: child_index_for_score_bound_def score_lower_predicate_def partition_point_def)

lemma follows_score:
  "follows (\<lambda>k. score_lower_predicate (score k) bound) (\<lambda>x. score_lower_predicate (score x) bound)
     (\<lambda>x. \<not> score_lower_predicate (score x) bound)"
  by (cases bound) (auto simp: follows_def score_lower_predicate_def f64_compare_defs key_of_def less_prod_def less_eq_prod_def)

lemma lower_bound_loop_spec:
  fixes bound :: ScoreBound
  assumes "holds (nodes t) b" and "sized r b" and "ordered lo b hi"
  defines "P \<equiv> \<lambda>x. score_lower_predicate (score x) bound"
  shows "\<exists>ls1 i es ls2 rank'. reaches b P (\<lambda>x. \<not> P x) ls1 i es ls2 \<and>
     lower_bound_loop t bound (bid b) rank = first_hit t i (length (takeWhile P es)) rank'"
  using assms(1-3)
proof (induction b arbitrary: r lo hi rank)
  case (BLeaf i es)
  then have "lower_bound_loop t bound i rank = first_hit t i (length (takeWhile P es)) (rank + of_nat (length (takeWhile P es)))"
    by (auto simp: lower_bound_loop.simps body_Inl partition_point_def P_def Let_def)
  moreover have "reaches (BLeaf i es) P (\<lambda>x. \<not> P x) [] i es []" by (simp add: reaches_def)
  ultimately show ?case by force
next
  case (BNode i ts ks)
  have ord: "ordereds lo ts ks hi" and size: "\<forall>t \<in> set ts. sized False t" using BNode.prems by auto
  obtain ts1 b ts2 lo' hi' where ts: "ts = ts1 @ b # ts2" and len: "length ts1 = child_index_for_score_bound ks bound"
      and b: "ordered lo' b hi'" and sides: "\<forall>x \<in> set (flats ts1). P x" "\<forall>x \<in> set (flats ts2). \<not> P x"
    using child_of_predicate [OF ord size follows_score [of bound]] unfolding child_index_score_eq P_def by metis
  have "b \<in> set ts" "holds (nodes t) b" "sized False b" using ts size BNode.prems(1) by auto
  from BNode.IH [OF this b, of "rank + of_nat (length (flats ts1))"]
  obtain ls1 j es ls2 rank' where r: "reaches b P (\<lambda>x. \<not> P x) ls1 j es ls2"
    and run: "lower_bound_loop t bound (bid b) (rank + of_nat (length (flats ts1))) = first_hit t j (length (takeWhile P es)) rank'"
    by blast
  have "lower_bound_loop t bound i rank = lower_bound_loop t bound (bid b) (rank + of_nat (length (flats ts1)))"
    using BNode.prems(1) ts len [symmetric]
    by (subst lower_bound_loop.simps) (simp add: body_Inr node_of_def slice_def get_at_def nth_append sum_sizes)
  then show ?case using run reaches_child [OF r sides, of i ks] ts by (metis bid.simps(2))
qed

lemma reaches_dropWhile:
  assumes reach: "reaches b P R ls1 i es ls2" and "\<And>x. R x \<Longrightarrow> \<not> P x"
  shows "dropWhile P (flat b) = dropWhile P es @ held ls2"
    and "takeWhile P (flat b) = held ls1 @ takeWhile P es"
proof -
  have flat: "flat b = held ls1 @ es @ held ls2" using assms leaves_flat [of b] by (simp add: reaches_def)
  have stop: "dropWhile P (held ls2) = held ls2" "takeWhile P (held ls2) = []"
  proof -
    have "\<forall>x \<in> set (held ls2). \<not> P x" using assms by (simp add: reaches_def)
    then show "dropWhile P (held ls2) = held ls2" "takeWhile P (held ls2) = []"
      by (cases "held ls2"; simp del: set_concat concat_eq_Nil_conv)+
  qed
  have all: "\<forall>x \<in> set (held ls1). P x" using assms by (simp add: reaches_def)
  show "dropWhile P (flat b) = dropWhile P es @ held ls2"
    using all stop(1) unfolding flat by (auto simp: dropWhile_append)
  show "takeWhile P (flat b) = held ls1 @ takeWhile P es"
    using all stop(2) unfolding flat by (auto simp: takeWhile_append takeWhile_eq_all_conv [THEN iffD2])
qed

lemma unat_of_nat64: "a < 2 ^ 64 \<Longrightarrow> unat (of_nat a :: 64 word) = a"
  by (simp add: unat_of_nat take_bit_nat_eq_self)

lemma word_of_nat_le_iff: "a < 2 ^ 64 \<Longrightarrow> b < 2 ^ 64 \<Longrightarrow> (of_nat a :: 64 word) \<le> of_nat b \<longleftrightarrow> a \<le> b"
  by (simp add: word_le_nat_alt unat_of_nat64)

lemma word_of_nat_less_iff: "a < 2 ^ 64 \<Longrightarrow> b < 2 ^ 64 \<Longrightarrow> (of_nat a :: 64 word) < of_nat b \<longleftrightarrow> a < b"
  by (simp add: word_less_nat_alt unat_of_nat64)

lemma skip_children_spec:
  "n < length (flats ts) \<Longrightarrow> length (flats ts) < 2 ^ 64 \<Longrightarrow>
     \<exists>ts1 b ts2. ts = ts1 @ b # ts2 \<and> length (flats ts1) \<le> n \<and> n < length (flats ts1) + length (flat b) \<and>
       skip_children (map (\<lambda>t. of_nat (length (flat t))) ts) (of_nat n) = (length ts1, of_nat (n - length (flats ts1)))"
proof (induction ts arbitrary: n)
  case (Cons t ts)
  show ?case
  proof (cases "length (flat t) \<le> n")
    case True
    then have "n - length (flat t) < length (flats ts)" "length (flats ts) < 2 ^ 64" using Cons.prems by auto
    from Cons.IH [OF this] obtain ts1 b ts2 where ts: "ts = ts1 @ b # ts2" "length (flats ts1) \<le> n - length (flat t)"
        "n - length (flat t) < length (flats ts1) + length (flat b)"
        "skip_children (map (\<lambda>t. of_nat (length (flat t))) ts) (of_nat (n - length (flat t))) =
           (length ts1, of_nat (n - length (flat t) - length (flats ts1)))" by blast
    have "(of_nat n :: 64 word) - of_nat (length (flat t)) = of_nat (n - length (flat t))" using True by (simp add: of_nat_diff)
    then show ?thesis using ts True Cons.prems word_of_nat_le_iff [of "length (flat t)" n]
      by (intro exI [of _ "t # ts1"] exI [of _ b] exI [of _ ts2]) auto
  next
    case False
    then show ?thesis using Cons.prems word_of_nat_le_iff [of "length (flat t)" n]
      by (intro exI [of _ "[]"] exI [of _ t] exI [of _ ts]) auto
  qed
qed simp

lemma length_flat_child: "length (flat b) \<le> length (flats (ts1 @ b # ts2))"
  by simp

lemma locate_loop_spec:
  "holds (nodes t) b \<Longrightarrow> n < length (flat b) \<Longrightarrow> length (flat b) < 2 ^ 64 \<Longrightarrow>
     \<exists>ls1 i es ls2. leaves b = ls1 @ (i, es) # ls2 \<and> length (held ls1) \<le> n \<and> n < length (held ls1) + length es \<and>
       locate_loop t (bid b) (of_nat n) = Some (Some (i, n - length (held ls1)))"
proof (induction b arbitrary: n)
  case (BLeaf i es)
  then show ?case using word_of_nat_less_iff [of n "length es"]
    by (intro exI [of _ "[]"] exI [of _ i] exI [of _ es]) (auto simp: locate_loop.simps body_Inl unat_of_nat64)
next
  case (BNode i ts ks)
  obtain ts1 b ts2 where ts: "ts = ts1 @ b # ts2" "length (flats ts1) \<le> n" "n < length (flats ts1) + length (flat b)"
      and skip: "skip_children (map (\<lambda>t. of_nat (length (flat t))) ts) (of_nat n) = (length ts1, of_nat (n - length (flats ts1)))"
    using skip_children_spec [of n ts] BNode.prems by auto
  have "b \<in> set ts" "holds (nodes t) b" "n - length (flats ts1) < length (flat b)" "length (flat b) < 2 ^ 64"
    using ts BNode.prems length_flat_child [of b ts1 ts2] by auto
  from BNode.IH [OF this] obtain ls1 j es ls2 where ls: "leaves b = ls1 @ (j, es) # ls2" "length (held ls1) \<le> n - length (flats ts1)"
      "n - length (flats ts1) < length (held ls1) + length es"
      "locate_loop t (bid b) (of_nat (n - length (flats ts1))) = Some (Some (j, n - length (flats ts1) - length (held ls1)))" by blast
  let ?ls = "concat (map leaves ts1) @ ls1"
  have "locate_loop t i (of_nat n) = locate_loop t (bid b) (of_nat (n - length (flats ts1)))"
    using BNode.prems(1) skip ts(1) by (subst locate_loop.simps) (simp add: body_Inr node_of_def get_at_def nth_append)
  moreover have len: "length (held ?ls) = length (flats ts1) + length (held ls1)"
    by (simp add: held_concat o_def leaves_flat)
  ultimately have run: "locate_loop t (bid (BNode i ts ks)) (of_nat n) = Some (Some (j, n - length (held ?ls)))" using ls(4) by simp
  show ?case
  proof (intro exI conjI)
    show "leaves (BNode i ts ks) = ?ls @ (j, es) # ls2 @ concat (map leaves ts2)" using ts(1) ls(1) by simp
    show "length (held ?ls) \<le> n" "n < length (held ?ls) + length es" using ls(2,3) ts(2,3) unfolding len by linarith+
  qed (rule run)
qed

section \<open>Ranges\<close>

abbreviation pair_of :: "ZSetEntry \<Rightarrow> f64 \<times> bytes" where
  "pair_of e \<equiv> (score e, member e)"

definition iter_at :: "BPTree \<Rightarrow> BPTreeRangeIter \<Rightarrow> ZSetEntry list \<Rightarrow> bool" where
  "iter_at t it rest \<longleftrightarrow> \<not> reversed it \<and> (\<exists>i. current_leaf it = Some i \<and> at_entry t i (iter_index it) rest)"

definition count_down :: "nat \<Rightarrow> nat" where
  "count_down n = (if n = u64_max then n else n - 1)"

lemma next_loop_walk:
  "walk (nodes t) ((i, es) # ls) \<Longrightarrow> iter_index it \<le> length es \<Longrightarrow> current_leaf it = Some i \<Longrightarrow> \<not> reversed it \<Longrightarrow>
   rest = drop (iter_index it) es @ held ls \<Longrightarrow> \<forall>p \<in> set ls. snd p \<noteq> [] \<Longrightarrow>
     (case rest of
        [] \<Rightarrow> \<exists>it'. next_loop t it = Some (None, it')
      | e # rest' \<Rightarrow>
          if stops_at (iter_stop it) e then \<exists>it'. next_loop t it = Some (None, it')
          else \<exists>it'. next_loop t it = Some (Some (pair_of e), it') \<and> iter_at t it' rest' \<and>
                 remaining it' = count_down (remaining it) \<and> iter_stop it' = iter_stop it)"
proof (induction ls arbitrary: i es it)
  case Nil
  then obtain l where l: "nodes t i = Some (Leaf l)" "entries l = es" "next_leaf l = None" by auto
  show ?case
  proof (cases "iter_index it < length es")
    case True
    then have rest: "rest = es ! iter_index it # drop (Suc (iter_index it)) es" using Nil.prems(5) by (simp add: Cons_nth_drop_Suc)
    have "at_entry t i (Suc (iter_index it)) (drop (Suc (iter_index it)) es)"
      using Nil.prems(1) True unfolding at_entry_def by (intro exI [of _ es] exI [of _ "[]"]) auto
    then show ?thesis using True rest l Nil.prems
      by (subst (1 2 3) next_loop.simps) (auto simp: leaf_present Let_def iter_at_def count_down_def)
  next
    case False
    have "next_loop t (it\<lparr>current_leaf := None, iter_index := 0\<rparr>) = Some (None, it\<lparr>current_leaf := None, iter_index := 0\<rparr>)"
      by (subst next_loop.simps) simp
    then have "\<exists>it'. next_loop t it = Some (None, it')"
      using False l Nil.prems by (subst next_loop.simps) (simp add: leaf_present Let_def)
    then show ?thesis using False Nil.prems by simp
  qed
next
  case (Cons p ls)
  obtain j es' where p: "p = (j, es')" by (cases p)
  obtain l where l: "nodes t i = Some (Leaf l)" "entries l = es" "next_leaf l = Some j" using Cons.prems(1) p by auto
  show ?case
  proof (cases "iter_index it < length es")
    case True
    then have rest: "rest = es ! iter_index it # drop (Suc (iter_index it)) es @ held (p # ls)"
      using Cons.prems(5) by (simp add: Cons_nth_drop_Suc [symmetric])
    have "at_entry t i (Suc (iter_index it)) (drop (Suc (iter_index it)) es @ held (p # ls))"
      using Cons.prems(1,6) True unfolding at_entry_def by (intro exI [of _ es] exI [of _ "p # ls"]) auto
    then show ?thesis using True rest l Cons.prems
      by (subst (1 2 3) next_loop.simps) (auto simp: leaf_present Let_def iter_at_def count_down_def)
  next
    case False
    let ?it = "it\<lparr>current_leaf := Some j, iter_index := 0\<rparr>"
    have "next_loop t it = next_loop t ?it"
      using False l Cons.prems by (subst next_loop.simps) (simp add: leaf_present Let_def)
    moreover have "rest = drop (iter_index ?it) es' @ held ls" using Cons.prems(5) p False by simp
    ultimately show ?thesis using Cons.IH [of j es' ?it] Cons.prems(1,4,6) p by (simp cong: list.case_cong if_cong)
  qed
qed

lemma next_loop_iter:
  assumes "iter_at t it rest"
  shows "case rest of
        [] \<Rightarrow> \<exists>it'. next_loop t it = Some (None, it')
      | e # rest' \<Rightarrow>
          if stops_at (iter_stop it) e then \<exists>it'. next_loop t it = Some (None, it')
          else \<exists>it'. next_loop t it = Some (Some (pair_of e), it') \<and> iter_at t it' rest' \<and>
                 remaining it' = count_down (remaining it) \<and> iter_stop it' = iter_stop it"
  using assms next_loop_walk unfolding iter_at_def at_entry_def by blast

definition take_at_most :: "nat \<Rightarrow> 'a list \<Rightarrow> 'a list" where
  "take_at_most n xs = (if n = u64_max then xs else take n xs)"

lemma take_at_most_simps: "take_at_most 0 xs = []" "n \<noteq> 0 \<Longrightarrow> n \<le> u64_max \<Longrightarrow> take_at_most n (x # xs) = x # take_at_most (count_down n) xs"
    "take_at_most n [] = []"
  by (auto simp: take_at_most_def count_down_def take_Cons')

lemma range_collect_iter:
  "iter_at t it rest \<Longrightarrow> remaining it \<le> u64_max \<Longrightarrow>
     range_collect t it = Some (map pair_of (takeWhile (\<lambda>e. \<not> stops_at (iter_stop it) e) (take_at_most (remaining it) rest)))"
proof (induction rest arbitrary: it)
  case Nil
  then show ?case using next_loop_iter [OF Nil.prems(1)] by (subst range_collect.simps) (auto simp: range_next_def take_at_most_simps)
next
  case (Cons e rest)
  show ?case
  proof (cases "remaining it = 0")
    case True
    then show ?thesis by (subst range_collect.simps) (simp add: range_next_def take_at_most_simps)
  next
    case False
    show ?thesis
    proof (cases "stops_at (iter_stop it) e")
      case True
      then show ?thesis using False next_loop_iter [OF Cons.prems(1)] Cons.prems(2)
        by (subst range_collect.simps) (auto simp: range_next_def take_at_most_simps)
    next
      case go: False
      then obtain it' where it': "next_loop t it = Some (Some (pair_of e), it')" "iter_at t it' rest"
          "remaining it' = count_down (remaining it)" "iter_stop it' = iter_stop it"
        using next_loop_iter [OF Cons.prems(1)] by auto
      then show ?thesis using False go Cons.IH [OF it'(2)] Cons.prems(2)
        by (subst range_collect.simps) (simp add: range_next_def take_at_most_simps count_down_def)
    qed
  qed
qed

lemma range_collect_empty: "range_collect t empty_iter = Some []"
  by (subst range_collect.simps) (simp add: range_next_def empty_iter_def)

section \<open>What the operations compute\<close>

abbreviation precedes :: "int \<times> bytes \<Rightarrow> ZSetEntry \<Rightarrow> bool" where
  "precedes kk x \<equiv> key_of x < kk"

lemma tree_shapeE:
  assumes "tree_shape t xs" and "xs \<noteq> []"
  obtains b h where "root t = Some (bid b)" and "flat b = xs" and "placed t [] [b] []" and "sized True b" and "balanced h b"
    and "ordered None b None" and "leftmost t = Some (hd (lids b))" and "walk (nodes t) (leaves b)"
    and "\<forall>p \<in> set (leaves b). snd p \<noteq> []" and "holds (nodes t) b" and "good_arena t"
proof -
  obtain b h where b: "root t = Some (bid b)" "flat b = xs" "placed t [] [b] []" "sized True b" "balanced h b" "ordered None b None"
      "leftmost t = Some (hd (lids b))"
    using assms by (auto simp: tree_shape_def)
  moreover have "\<forall>p \<in> set (leaves b). snd p \<noteq> []" using leaves_not_Nil [OF b(4)] by auto
  ultimately show thesis using that placed_walk [OF b(3)] b(3) by (auto simp: placed_def)
qed

lemma search_key_spec:
  fixes m :: bytes
  assumes shape: "tree_shape t xs" and "\<not> is_nan s" and ne: "xs \<noteq> []"
  defines "kk \<equiv> (f64_rank s, m)"
  obtains b ls1 es ls2 path where "flat b = xs" and "placed t [] [b] []" and "leftmost t = Some (hd (lids b))"
    and "search_key t \<lparr>score = s, member = m\<rparr> = Some (Some path)"
    and "reaches b (precedes kk) (\<lambda>x. kk < key_of x) ls1 (path_leaf path) es ls2"
    and "path_index path = length (takeWhile (precedes kk) es)"
    and "path_rank path = of_nat (length (takeWhile (precedes kk) xs))" and "found path \<longleftrightarrow> kk \<in> key_of ` set xs"
    and "found path \<Longrightarrow> path_index path < length es \<and> key_of (es ! path_index path) = kk"
proof -
  obtain b h where b: "root t = Some (bid b)" "flat b = xs" "placed t [] [b] []" "sized True b" "balanced h b" "ordered None b None"
      "leftmost t = Some (hd (lids b))" "holds (nodes t) b"
    using tree_shapeE [OF shape ne] by metis
  obtain ls1 i es ls2 where r: "reaches b (precedes kk) (\<lambda>x. kk < key_of x) ls1 i es ls2"
    and run: "search_loop t \<lparr>score = s, member = m\<rparr> (bid b) 0 = Some \<lparr>path_leaf = i, path_index = length (takeWhile (precedes kk) es),
       found = (case get_at es (length (takeWhile (precedes kk) es)) of None \<Rightarrow> False | Some x \<Rightarrow> key_of x = kk),
       path_rank = 0 + of_nat (length (held ls1) + length (takeWhile (precedes kk) es))\<rparr>" (is "_ = Some ?path")
    using search_loop_spec [OF b(8,4,6) assms(2), where m = m] unfolding kk_def by metis
  have flat: "xs = held ls1 @ es @ held ls2" using r b(2) leaves_flat [of b] by (simp add: reaches_def)
  have "takeWhile (precedes kk) xs = held ls1 @ takeWhile (precedes kk) es" using reaches_dropWhile(2) [OF r] b(2) by fastforce
  then have rank: "path_rank ?path = of_nat (length (takeWhile (precedes kk) xs))" by simp
  have es: "es = takeWhile (precedes kk) es @ dropWhile (precedes kk) es" by simp
  have "strict es" using shape flat by (simp add: tree_shape_def sorted_wrt_append)
  have fi: "found ?path \<longleftrightarrow> kk \<in> key_of ` set es"
  proof (cases "dropWhile (precedes kk) es")
    case Nil
    then have "\<forall>x \<in> set es. key_of x < kk" by simp
    moreover then have "length (takeWhile (precedes kk) es) = length es" by (simp add: takeWhile_eq_all_conv [THEN iffD2])
    ultimately show ?thesis by (auto simp: get_at_def)
  next
    case (Cons y ys)
    then have "get_at es (length (takeWhile (precedes kk) es)) = Some y" by (subst (1) es) (simp add: get_at_def nth_append)
    moreover have "\<not> key_of y < kk" using Cons by (simp add: dropWhile_eq_Cons_conv)
    moreover have "strict (takeWhile (precedes kk) es @ y # ys)" using \<open>strict es\<close> Cons es by metis
    then have "\<forall>z \<in> set ys. key_of y < key_of z" by (simp add: sorted_wrt_append)
    moreover have "set es = set (takeWhile (precedes kk) es) \<union> insert y (set ys)" using es Cons by (metis set_append list.simps(15))
    ultimately show ?thesis by (auto dest: set_takeWhileD)
  qed
  moreover have "kk \<in> key_of ` set xs \<longleftrightarrow> kk \<in> key_of ` set es"
    using r flat unfolding reaches_def set_append by (auto simp del: set_concat)
  moreover have "found ?path \<Longrightarrow> path_index ?path < length es \<and> key_of (es ! path_index ?path) = kk"
    by (auto simp: get_at_def split: if_splits)
  ultimately show thesis
    using that [OF b(2,3,7), of ?path ls1 es ls2] run r rank b(1) by (simp add: search_key_def)
qed

lemma rank_of_spec:
  assumes shape: "tree_shape t xs" and "\<not> is_nan s"
  shows "rank_of t s m = Some (if utf8_valid m \<and> (f64_rank s, m) \<in> key_of ` set xs
     then Some (of_nat (length (takeWhile (precedes (f64_rank s, m)) xs))) else None)"
proof (cases "xs = []")
  case True
  then have "root t = None" using shape by (simp add: tree_shape_def)
  then show ?thesis using True by (simp add: rank_of_def search_key_def)
next
  case False
  show ?thesis by (rule search_key_spec [OF shape assms(2) False, of m]) (auto simp: rank_of_def)
qed

lemma collect_loop_walk: "walk (nodes t) ls \<Longrightarrow> collect_loop t (hd_or (map fst ls) None) = Some (held ls)"
proof (induction ls)
  case Nil
  then show ?case by (simp add: collect_loop.simps)
next
  case (Cons p ls)
  then show ?case by (cases p) (auto simp: collect_loop.simps leaf_present)
qed

lemma walk_update:
  assumes "walk M (ls1 @ (i, es) # ls2)" and "distinct (map fst (ls1 @ (i, es) # ls2))" and "M i = Some (Leaf l)"
  shows "walk (M(i \<mapsto> Leaf (l\<lparr>entries := es'\<rparr>))) (ls1 @ (i, es') # ls2)"
proof -
  have keep: "i \<notin> fst ` set ls \<Longrightarrow> walk (M(i \<mapsto> n)) ls = walk M ls" for ls n
    by (induction ls) auto
  show ?thesis using assms
  proof (induction ls1)
    case Nil
    then show ?case using keep [of ls2] by (simp add: fun_upd_same del: fun_upd_apply)
  next
    case (Cons p ls1)
    then show ?case by (cases p) auto
  qed
qed

text \<open>Removing the entry with a key.\<close>

abbreviation without :: "int \<times> bytes \<Rightarrow> ZSetEntry list \<Rightarrow> ZSetEntry list" where
  "without kk xs \<equiv> filter (\<lambda>x. key_of x \<noteq> kk) xs"

lemma without_middle:
  assumes "reaches b (precedes kk) (\<lambda>x. kk < key_of x) ls1 i es ls2" and "strict es" and "n < length es" and "key_of (es ! n) = kk"
  shows "without kk (flat b) = held ls1 @ remove_at n es @ held ls2"
proof -
  have es: "es = take n es @ es ! n # drop (Suc n) es" using assms(3) by (simp add: id_take_nth_drop)
  then have "strict (take n es @ es ! n # drop (Suc n) es)" using assms(2) by simp
  then have "\<forall>x \<in> set (take n es). key_of x \<noteq> kk" "\<forall>x \<in> set (drop (Suc n) es). key_of x \<noteq> kk"
    using assms(4) by (auto simp: sorted_wrt_append)
  then have mid: "without kk es = remove_at n es"
    using assms(4) by (subst es) (simp add: remove_at_def filter_id_conv)
  have "without kk (held ls1) = held ls1" "without kk (held ls2) = held ls2"
    using assms(1) unfolding reaches_def filter_id_conv by auto
  moreover have "flat b = held ls1 @ es @ held ls2" using assms(1) leaves_flat [of b] by (simp add: reaches_def)
  ultimately show ?thesis using mid by (simp only: filter_append)
qed

lemma remove_exact_found:
  assumes shape: "tree_shape t xs" and s: "\<not> is_nan s" and "length xs < 2 ^ 64" and mem: "(f64_rank s, m) \<in> key_of ` set xs"
  shows "\<exists>t'. remove_exact t \<lparr>score = s, member = m\<rparr> flag = Some (True, t') \<and>
     tree_shape t' (without (f64_rank s, m) xs) \<and>
     member_scores t' = (if flag then (member_scores t)(m := None) else member_scores t)"
proof -
  let ?kk = "(f64_rank s, m)" and ?key = "\<lparr>score = s, member = m\<rparr>"
  have ne: "xs \<noteq> []" using mem by auto
  obtain b ls1 es ls2 path where b: "flat b = xs" "placed t [] [b] []" "leftmost t = Some (hd (lids b))"
    and path: "search_key t ?key = Some (Some path)" "reaches b (precedes ?kk) (\<lambda>x. ?kk < key_of x) ls1 (path_leaf path) es ls2"
      "path_index path < length es" "key_of (es ! path_index path) = ?kk" "found path"
    using search_key_spec [OF shape s ne, of m] mem by metis
  let ?i = "path_leaf path" and ?n = "path_index path"
  let ?es' = "remove_at ?n es"
  have lv: "leaves b = ls1 @ (?i, es) # ls2" using path(2) by (simp add: reaches_def)
  have flat: "xs = held ls1 @ es @ held ls2" using lv b(1) leaves_flat [of b] by simp
  have strs: "strict xs" "\<forall>x \<in> set xs. number x" and len: "tree_len t = of_nat (length xs)" and good: "good_arena t"
    using shape by (simp_all add: tree_shape_def)
  have "strict es" using strs(1) unfolding flat by (simp add: sorted_wrt_append)
  then have wo: "without ?kk xs = held ls1 @ ?es' @ held ls2" using without_middle [OF path(2) _ path(3,4)] b(1) by simp
  have "length (without ?kk xs) = length (held ls1) + (length es - 1) + length (held ls2)" using path(3) by (simp add: wo)
  moreover have "length xs = length (held ls1) + length es + length (held ls2)" by (subst flat) simp
  ultimately have length: "length xs = Suc (length (without ?kk xs))" using path(3) by simp
  have walk: "walk (nodes t) (ls1 @ (?i, es) # ls2)" using placed_walk [OF b(2)] lv by simp
  then obtain l where l: "nodes t ?i = Some (Leaf l)" "entries l = es" using walk_append [OF walk] by auto
  define t1 where "t1 = set_node t ?i (Leaf (l\<lparr>entries := ?es'\<rparr>))"
  define t2 where "t2 = (if flag then t1\<lparr>member_scores := (member_scores t1)(m := None)\<rparr> else t1)\<lparr>tree_len := tree_len t1 - 1\<rparr>"
  have t1: "put_leaf t ?i (l\<lparr>entries := ?es'\<rparr>) = Some t1" "nodes t1 = (nodes t)(?i \<mapsto> Leaf (l\<lparr>entries := ?es'\<rparr>))"
      "leftmost t1 = leftmost t" "tree_len t1 = tree_len t" "member_scores t1 = member_scores t"
    using good l node_present [OF good l(1)] by (simp_all add: t1_def arena_simps)
  have mm: "member (es ! ?n) = m" using path(4) by (simp add: key_of_def)
  have t2: "nodes t2 = nodes t1" "leftmost t2 = leftmost t" "tree_len t2 = of_nat (length (without ?kk xs))"
      "member_scores t2 = (if flag then (member_scores t)(m := None) else member_scores t)"
    using t1 len length by (simp_all add: t2_def)
  have run: "remove_exact t ?key flag =
      (if tree_len t2 = 0 then Some (True, t2\<lparr>root := None, leftmost := None, rightmost := None, arena := arena_clear (arena t2)\<rparr>)
       else do { t \<leftarrow> rebuild_tree t2; Some (True, t) })"
    using path l t1(1,4) mm by (auto simp: remove_exact_def leaf_present get_at_def t2_def Let_def)
  have sub: "strict (without ?kk xs)" "\<forall>x \<in> set (without ?kk xs). number x"
    using strs by (auto simp: sorted_wrt_filter)
  show ?thesis
  proof (cases "without ?kk xs = []")
    case True
    then show ?thesis using run t2 sub
      by (auto simp: tree_shape_def arena_clear_default arena_ok_default)
  next
    case False
    have "(of_nat (length (without ?kk xs)) :: 64 word) \<noteq> 0"
      using unat_of_nat64 [of "length (without ?kk xs)"] False assms(3) length by (metis Suc_lessD length_0_conv unat_0)
    then have nz: "tree_len t2 \<noteq> 0" using t2(3) by simp
    have dist: "distinct (map fst (ls1 @ (?i, es) # ls2))"
      using b(2) lv distinct_lids [of b] leaves_lids [of b] by (simp add: placed_def)
    have "walk (nodes t2) (ls1 @ (?i, ?es') # ls2)"
      using walk_update [OF walk dist l(1)] t1(2) t2(1) by simp
    from collect_loop_walk [OF this] have "collect_entries t2 = Some (without ?kk xs)"
      using b(3) t2(2) leaves_lids [of b, symmetric] lv wo by (cases ls1) (auto simp: collect_entries_def)
    moreover have "tree_shape (t2\<lparr>root := None, leftmost := None, rightmost := None, tree_len := 0, arena := arena_clear (arena t2)\<rparr>) []"
      by (simp add: tree_shape_def arena_clear_default arena_ok_default)
    ultimately obtain t3 where "rebuild_tree t2 = Some t3" "tree_shape t3 (without ?kk xs)" "member_scores t3 = member_scores t2"
      using insert_entries_spec [of _ "[]" "without ?kk xs"] sub by (fastforce simp: rebuild_tree_def)
    then show ?thesis using run nz t2(4) by auto
  qed
qed

section \<open>Ranges of the tree\<close>

lemma at_entry_leaves:
  assumes "walk (nodes t) (leaves b)" and "\<forall>p \<in> set (leaves b). snd p \<noteq> []" and "leaves b = ls1 @ (i, es) # ls2" and "index \<le> length es"
  shows "at_entry t i index (drop index es @ held ls2)"
  unfolding at_entry_def using assms walk_append [of "nodes t" ls1 "(i, es) # ls2"] by (intro exI [of _ es] exI [of _ ls2]) auto

lemma take_at_most_take: "n \<le> u64_max \<Longrightarrow> length xs \<le> u64_max \<Longrightarrow> take_at_most n xs = take n xs"
  by (simp add: take_at_most_def)

definition collected :: "BPTree \<Rightarrow> BPTreeRangeIter option \<Rightarrow> (f64 \<times> bytes) list option" where
  "collected t it = do { it \<leftarrow> it; range_collect t it }"

lemma range_by_rank_spec:
  assumes shape: "tree_shape t xs" and len: "length xs < 2 ^ 64"
  shows "collected t (bptree_range_by_rank t start fin) =
    Some (map pair_of (take (Suc (unat fin) - unat start) (drop (unat start) xs)))"
proof (cases "start > fin \<or> start \<ge> tree_len t")
  case True
  have "tree_len t = of_nat (length xs)" using shape by (simp add: tree_shape_def)
  then have "unat start > unat fin \<or> unat start \<ge> length xs"
    using True unat_of_nat64 [OF len] by (auto simp: word_less_nat_alt word_le_nat_alt)
  then show ?thesis using True by (auto simp: collected_def bptree_range_by_rank_def range_collect_empty)
next
  case False
  have tl: "tree_len t = of_nat (length xs)" using shape by (simp add: tree_shape_def)
  have nat: "unat start \<le> unat fin" "unat start < length xs"
    using False unat_of_nat64 [OF len] tl by (auto simp: word_less_nat_alt word_le_nat_alt not_less not_le)
  then have ne: "xs \<noteq> []" by auto
  obtain b h where b: "root t = Some (bid b)" "flat b = xs" "walk (nodes t) (leaves b)" "\<forall>p \<in> set (leaves b). snd p \<noteq> []" "holds (nodes t) b"
    using tree_shapeE [OF shape ne] by metis
  obtain ls1 i es ls2 where lv: "leaves b = ls1 @ (i, es) # ls2" "length (held ls1) \<le> unat start" "unat start < length (held ls1) + length es"
      "locate_loop t (bid b) start = Some (Some (i, unat start - length (held ls1)))"
    using locate_loop_spec [OF b(5), of "unat start"] nat(2) len b(2) by auto
  define stop where "stop = min fin (tree_len t - 1)"
  have "tree_len t \<noteq> 0" using tl unat_of_nat64 [OF len] ne by (metis length_0_conv unat_0)
  moreover have "unat (tree_len t - 1) = length xs - 1"
  proof -
    have "tree_len t - 1 = of_nat (length xs - 1)" using tl ne by (simp add: of_nat_diff Suc_leI)
    moreover have "length xs - 1 < 2 ^ 64" using len by simp
    ultimately show ?thesis using unat_of_nat64 by metis
  qed
  then have us: "unat stop = min (unat fin) (length xs - 1)" by (simp add: stop_def min_def word_le_nat_alt)
  then have rem: "unat (stop - start + 1) = Suc (unat stop - unat start)"
  proof -
    have "unat start \<le> unat stop" using us nat by simp
    then have "stop - start + 1 = of_nat (Suc (unat stop - unat start))" by (simp add: of_nat_diff)
    moreover have "Suc (unat stop - unat start) < 2 ^ 64" using us nat len by simp
    ultimately show ?thesis using unat_of_nat64 by metis
  qed
  define it where "it = \<lparr>current_leaf = Some i, iter_index = unat start - length (held ls1), remaining = unat (stop - start + 1),
      reversed = False, iter_stop = StopNone\<rparr>"
  have run: "bptree_range_by_rank t start fin = Some it"
    using False \<open>tree_len t \<noteq> 0\<close> b(1) lv(4) by (simp add: bptree_range_by_rank_def locate_by_rank_def it_def stop_def Let_def)
  have xs: "xs = held ls1 @ es @ held ls2" using lv(1) b(2) leaves_flat [of b] by simp
  then have "drop (unat start) xs = drop (unat start - length (held ls1)) es @ held ls2" using lv(2,3) by simp
  then have "iter_at t it (drop (unat start) xs)"
    using at_entry_leaves [OF b(3,4) lv(1), of "unat start - length (held ls1)"] lv(2,3) by (simp add: iter_at_def it_def)
  moreover have "remaining it \<le> u64_max" using rem us nat len by (simp add: it_def)
  ultimately have "range_collect t it = Some (map pair_of (take (unat (stop - start + 1)) (drop (unat start) xs)))"
    using range_collect_iter [of t it] len by (simp add: it_def stops_at_def take_at_most_take)
  moreover have "take (unat (stop - start + 1)) (drop (unat start) xs) = take (Suc (unat fin) - unat start) (drop (unat start) xs)"
    using nat unfolding rem us by (auto simp: min_def Suc_diff_le take_all_iff)
  ultimately show ?thesis using run by (simp add: collected_def)
qed

lemma prefix_filter:
  "sorted_wrt (\<lambda>x y. P y \<longrightarrow> P x) xs \<Longrightarrow> takeWhile P xs = filter P xs \<and> dropWhile P xs = filter (\<lambda>x. \<not> P x) xs"
proof (induction xs)
  case (Cons x xs)
  show ?case
  proof (cases "P x")
    case False
    then have none: "\<forall>y \<in> set xs. \<not> P y" using Cons.prems by auto
    then have "filter P xs = []" "filter (\<lambda>x. \<not> P x) xs = xs" by (simp_all add: filter_empty_conv filter_id_conv)
    then show ?thesis using False by simp
  qed (use Cons in simp)
qed simp

lemma strict_mono:
  assumes "strict xs" and "\<forall>x \<in> set xs. number x"
    and "\<And>x y. x \<in> set xs \<Longrightarrow> y \<in> set xs \<Longrightarrow> number x \<Longrightarrow> number y \<Longrightarrow> key_of x < key_of y \<Longrightarrow> P y \<Longrightarrow> P x"
  shows "sorted_wrt (\<lambda>x y. P y \<longrightarrow> P x) xs"
  using assms by (induction xs) auto

lemma lower_mono: "number x \<Longrightarrow> number y \<Longrightarrow> key_of x < key_of y \<Longrightarrow> score_lower_predicate (score y) b \<Longrightarrow> score_lower_predicate (score x) b"
  by (cases b) (auto simp: score_lower_predicate_def f64_compare_defs key_of_def less_prod_def)

lemma upper_mono: "number x \<Longrightarrow> number y \<Longrightarrow> key_of x < key_of y \<Longrightarrow> score_within_upper_bound (score y) b \<Longrightarrow> score_within_upper_bound (score x) b"
  by (cases b) (auto simp: score_within_upper_bound_def scores_equal_def f64_compare_defs key_of_def less_prod_def)

lemma lower_bound_score_spec:
  fixes mn :: ScoreBound
  assumes shape: "tree_shape t xs"
  defines "rest \<equiv> filter (\<lambda>x. \<not> score_lower_predicate (score x) mn) xs"
  shows "(rest = [] \<longrightarrow> lower_bound_score t mn = Some None) \<and>
    (rest \<noteq> [] \<longrightarrow> (\<exists>hit. lower_bound_score t mn = Some (Some hit) \<and> at_entry t (hit_leaf hit) (hit_index hit) rest \<and>
        entry_at t (hit_leaf hit) (hit_index hit) = Some (Some (hd rest))))"
proof (cases "xs = []")
  case True
  then show ?thesis using shape by (simp add: rest_def tree_shape_def lower_bound_score_def)
next
  case False
  let ?P = "\<lambda>x. score_lower_predicate (score x) mn"
  obtain b h where b: "root t = Some (bid b)" "flat b = xs" "sized True b" "ordered None b None" "walk (nodes t) (leaves b)"
      "\<forall>p \<in> set (leaves b). snd p \<noteq> []" "holds (nodes t) b"
    using tree_shapeE [OF shape False] by metis
  obtain ls1 i es ls2 rank where r: "reaches b ?P (\<lambda>x. \<not> ?P x) ls1 i es ls2"
      and run: "lower_bound_loop t mn (bid b) 0 = first_hit t i (length (takeWhile ?P es)) rank"
    using lower_bound_loop_spec [OF b(7,3,4), of mn] by blast
  have "strict xs" "\<forall>x \<in> set xs. number x" using shape by (simp_all add: tree_shape_def)
  then have "sorted_wrt (\<lambda>x y. ?P y \<longrightarrow> ?P x) xs" using lower_mono by (intro strict_mono) blast+
  then have "rest = dropWhile ?P xs" using prefix_filter [of ?P xs] by (simp add: rest_def)
  also have "\<dots> = drop (length (takeWhile ?P es)) es @ held ls2"
    using reaches_dropWhile(1) [OF r] b(2) by (simp add: dropWhile_eq_drop)
  finally have rest: "rest = drop (length (takeWhile ?P es)) es @ held ls2" .
  have lv: "leaves b = ls1 @ (i, es) # ls2" using r by (simp add: reaches_def)
  have "walk (nodes t) ((i, es) # ls2)" "\<forall>p \<in> set ls2. snd p \<noteq> []"
    using walk_append [of "nodes t" ls1 "(i, es) # ls2"] b(5,6) lv by (simp_all del: walk.simps)
  from first_hit_walk [OF this(1) length_takeWhile_le rest this(2), of rank]
  show ?thesis using run b(1) by (simp add: lower_bound_score_def)
qed

lemma hit_score_entry: "entry_at t (hit_leaf hit) (hit_index hit) = Some (Some e) \<Longrightarrow> hit_score t hit = Some (score e)"
  by (auto simp: entry_at_def hit_score_def)

lemma at_entry_iter:
  "at_entry t i index rest \<Longrightarrow> range_collect t \<lparr>current_leaf = Some i, iter_index = index, remaining = u64_max, reversed = False, iter_stop = st\<rparr> =
     Some (map pair_of (takeWhile (\<lambda>e. \<not> stops_at st e) rest))"
  using range_collect_iter [of t "\<lparr>current_leaf = Some i, iter_index = index, remaining = u64_max, reversed = False, iter_stop = st\<rparr>" rest]
  by (simp add: iter_at_def take_at_most_def)

lemma range_by_score_spec:
  assumes shape: "tree_shape t xs"
  shows "collected t (bptree_range_by_score t mn mx) =
    Some (map pair_of (filter (\<lambda>e. \<not> score_lower_predicate (score e) mn \<and> score_within_upper_bound (score e) mx) xs))"
proof -
  let ?up = "\<lambda>e. score_within_upper_bound (score e) mx"
  define rest where "rest = filter (\<lambda>x. \<not> score_lower_predicate (score x) mn) xs"
  have "strict rest" "\<forall>x \<in> set rest. number x" using shape by (auto simp: tree_shape_def rest_def sorted_wrt_filter)
  then have "sorted_wrt (\<lambda>x y. ?up y \<longrightarrow> ?up x) rest" using upper_mono by (intro strict_mono) blast+
  then have up: "takeWhile ?up rest = filter ?up rest" using prefix_filter [of ?up rest] by simp
  have ff: "filter (\<lambda>e. \<not> score_lower_predicate (score e) mn \<and> ?up e) xs = filter ?up rest"
    by (simp add: rest_def conj_commute)
  note low = lower_bound_score_spec [OF shape, of mn, folded rest_def]
  show ?thesis
  proof (cases rest)
    case Nil
    then show ?thesis using low ff by (simp add: collected_def bptree_range_by_score_def range_collect_empty)
  next
    case (Cons e rest')
    then obtain hit where hit: "lower_bound_score t mn = Some (Some hit)" "at_entry t (hit_leaf hit) (hit_index hit) rest"
        "entry_at t (hit_leaf hit) (hit_index hit) = Some (Some e)" using low by auto
    show ?thesis
    proof (cases "?up e")
      case True
      then show ?thesis using hit(1) hit_score_entry [OF hit(3)] at_entry_iter [OF hit(2), of "StopScore mx"] up ff
        by (simp add: collected_def bptree_range_by_score_def stops_at_def)
    next
      case False
      then have "filter ?up rest = []" using up Cons by simp
      then show ?thesis using False hit(1) hit_score_entry [OF hit(3)] ff
        by (simp add: collected_def bptree_range_by_score_def range_collect_empty)
    qed
  qed
qed

lemma hit_advance_entry:
  assumes "at_entry t (hit_leaf hit) (hit_index hit) (e # rest)" and "entry_at t (hit_leaf hit) (hit_index hit) = Some (Some e)"
  shows "if rest = [] then \<exists>hit'. hit_advance t hit = Some (False, hit')
    else \<exists>hit'. hit_advance t hit = Some (True, hit') \<and> at_entry t (hit_leaf hit') (hit_index hit') rest \<and>
           entry_at t (hit_leaf hit') (hit_index hit') = Some (Some (hd rest))"
proof -
  let ?i = "hit_leaf hit" and ?n = "hit_index hit"
  obtain es ls where w: "walk (nodes t) ((?i, es) # ls)" "\<forall>p \<in> set ls. snd p \<noteq> []" "?n \<le> length es" "e # rest = drop ?n es @ held ls"
    using assms(1) by (auto simp: at_entry_def)
  then obtain l where l: "nodes t ?i = Some (Leaf l)" "entries l = es" "next_leaf l = hd_or (map fst ls) None" by auto
  then have n: "?n < length es" using assms(2) by (auto simp: entry_at_def leaf_present get_at_def split: if_splits)
  then have rest: "rest = drop (Suc ?n) es @ held ls" using w(4) by (simp add: Cons_nth_drop_Suc [symmetric])
  show ?thesis
  proof (cases "Suc ?n < length es")
    case True
    then have "rest \<noteq> []" "hd rest = es ! Suc ?n" using rest by (auto simp: hd_append hd_drop_conv_nth)
    moreover have "at_entry t ?i (Suc ?n) rest" unfolding at_entry_def using w rest n by (intro exI [of _ es] exI [of _ ls]) auto
    ultimately show ?thesis using True l by (simp add: hit_advance_def leaf_present entry_at_def get_at_def)
  next
    case False
    then have rest': "rest = held ls" using rest by simp
    show ?thesis
    proof (cases ls)
      case Nil
      then show ?thesis using False l rest' by (simp add: hit_advance_def leaf_present)
    next
      case (Cons p ls')
      obtain j es' where p: "p = (j, es')" by (cases p)
      obtain l' where l': "nodes t j = Some (Leaf l')" "entries l' = es'" using w(1) Cons p by auto
      have "es' \<noteq> []" "hd rest = es' ! 0" "rest \<noteq> []" using w(2) Cons p rest' by (auto simp: hd_conv_nth hd_append)
      moreover have "at_entry t j 0 rest" unfolding at_entry_def using w Cons p rest' by (intro exI [of _ es'] exI [of _ ls']) auto
      ultimately show ?thesis using False l l' Cons p by (simp add: hit_advance_def leaf_present entry_at_def get_at_def)
    qed
  qed
qed

lemma lex_start_spec:
  fixes s :: f64 and mn :: LexBound
  assumes "at_entry t (hit_leaf hit) (hit_index hit) rest" and "rest \<noteq> []"
    and "entry_at t (hit_leaf hit) (hit_index hit) = Some (Some (hd rest))"
  defines "skip \<equiv> \<lambda>e. scores_equal (score e) s \<and> \<not> lex_within_lower_bound (member e) mn"
  shows "case dropWhile skip rest of
      [] \<Rightarrow> lex_start t mn s hit = Some None
    | e # rest' \<Rightarrow>
        if scores_equal (score e) s
        then \<exists>hit'. lex_start t mn s hit = Some (Some hit') \<and> at_entry t (hit_leaf hit') (hit_index hit') (e # rest')
        else lex_start t mn s hit = Some None"
  using assms(1-3)
proof (induction rest arbitrary: hit)
  case (Cons e rest)
  have at: "entry_at t (hit_leaf hit) (hit_index hit) = Some (Some e)" using Cons.prems(3) by simp
  show ?case
  proof (cases "skip e")
    case False
    then have d: "dropWhile skip (e # rest) = e # rest" by simp
    show ?thesis unfolding d using False at Cons.prems(1) by (subst (1 2) lex_start.simps) (auto simp: skip_def)
  next
    case True
    note adv = hit_advance_entry [OF Cons.prems(1) at]
    show ?thesis
    proof (cases "rest = []")
      case Nil: True
      then show ?thesis using True at adv by (subst (1 2) lex_start.simps) (auto simp: skip_def)
    next
      case False
      then obtain hit' where hit': "hit_advance t hit = Some (True, hit')" "at_entry t (hit_leaf hit') (hit_index hit') rest"
          "entry_at t (hit_leaf hit') (hit_index hit') = Some (Some (hd rest))" using adv by auto
      have "lex_start t mn s hit = lex_start t mn s hit'" using True at hit'(1) by (subst lex_start.simps) (simp add: skip_def)
      then show ?thesis using Cons.IH [OF hit'(2) False hit'(3)] True by (simp cong: list.case_cong if_cong)
    qed
  qed
qed simp

lemma lex_lower_mono: "m < m' \<Longrightarrow> lex_within_lower_bound m b \<Longrightarrow> lex_within_lower_bound m' b"
  by (cases b) (auto simp: lex_within_lower_bound_def)

lemma lex_upper_mono: "m < m' \<Longrightarrow> lex_matches_upper_bound m' b \<Longrightarrow> lex_matches_upper_bound m b"
  by (cases b) (auto simp: lex_matches_upper_bound_def)

lemma same_score_order:
  assumes "key_of x < key_of y" and "scores_equal (score y) s" and "\<not> score_lower_predicate (score x) (Inclusive s)"
    and "number x" and "number y"
  shows "scores_equal (score x) s \<and> member x < member y"
  using assms by (auto simp: scores_equal_def score_lower_predicate_def f64_compare_defs key_of_def less_prod_def)

lemma lex_filter:
  fixes s :: f64 and mn mx :: LexBound
  assumes "strict rest" and "\<forall>x \<in> set rest. number x \<and> \<not> score_lower_predicate (score x) (Inclusive s)"
  defines "eq \<equiv> \<lambda>e. scores_equal (score e) s" and "low \<equiv> \<lambda>e. lex_within_lower_bound (member e) mn"
    and "up \<equiv> \<lambda>e. lex_matches_upper_bound (member e) mx"
  shows "takeWhile (\<lambda>e. eq e \<and> up e) (dropWhile (\<lambda>e. eq e \<and> \<not> low e) rest) = filter (\<lambda>e. eq e \<and> low e \<and> up e) rest"
proof -
  have "sorted_wrt (\<lambda>x y. eq y \<and> \<not> low y \<longrightarrow> eq x \<and> \<not> low x) rest"
    using assms(1,2) same_score_order lex_lower_mono unfolding eq_def low_def by (intro strict_mono) blast+
  then have drop: "dropWhile (\<lambda>e. eq e \<and> \<not> low e) rest = filter (\<lambda>e. \<not> (eq e \<and> \<not> low e)) rest" (is "_ = ?r")
    using prefix_filter [of "\<lambda>e. eq e \<and> \<not> low e" rest] by simp
  have "strict ?r" using assms(1) by (rule sorted_wrt_filter)
  then have "sorted_wrt (\<lambda>x y. eq y \<and> up y \<longrightarrow> eq x \<and> up x) ?r"
    using assms(2) same_score_order lex_upper_mono unfolding eq_def up_def by (intro strict_mono) (auto, blast+)
  then have "takeWhile (\<lambda>e. eq e \<and> up e) ?r = filter (\<lambda>e. eq e \<and> up e) ?r"
    using prefix_filter [of "\<lambda>e. eq e \<and> up e" ?r] by simp
  also have "\<dots> = filter (\<lambda>e. eq e \<and> low e \<and> up e) rest" by (auto simp: filter_filter intro!: filter_cong)
  finally show ?thesis by (simp only: drop)
qed

lemma range_by_lex_spec:
  assumes shape: "tree_shape t xs"
  shows "collected t (bptree_range_by_lex t mn mx s) =
    Some (map pair_of (filter (\<lambda>e. scores_equal (score e) s \<and> lex_within_lower_bound (member e) mn \<and> lex_matches_upper_bound (member e) mx) xs))"
    (is "_ = Some (map _ (filter ?sel xs))")
proof -
  let ?skip = "\<lambda>e. scores_equal (score e) s \<and> \<not> lex_within_lower_bound (member e) mn"
  let ?take = "\<lambda>e. scores_equal (score e) s \<and> lex_matches_upper_bound (member e) mx"
  define rest where "rest = filter (\<lambda>x. \<not> score_lower_predicate (score x) (Inclusive s)) xs"
  have "strict rest" and low: "\<forall>x \<in> set rest. number x \<and> \<not> score_lower_predicate (score x) (Inclusive s)"
    using shape by (auto simp: tree_shape_def rest_def sorted_wrt_filter)
  then have sel: "takeWhile ?take (dropWhile ?skip rest) = filter ?sel rest" by (rule lex_filter)
  also have "\<dots> = filter ?sel xs"
    unfolding rest_def filter_filter by (rule filter_cong) (auto simp: scores_equal_def score_lower_predicate_def f64_compare_defs)
  finally have res: "takeWhile ?take (dropWhile ?skip rest) = filter ?sel xs" .
  have stops: "(\<lambda>e. \<not> stops_at (StopLex mx s) e) = ?take" by (auto simp: stops_at_def)
  note hits = lower_bound_score_spec [OF shape, of "Inclusive s", folded rest_def]
  show ?thesis
  proof (cases "rest = []")
    case True
    then show ?thesis using hits res by (simp add: collected_def bptree_range_by_lex_def range_collect_empty)
  next
    case False
    then obtain hit where hit: "lower_bound_score t (Inclusive s) = Some (Some hit)" "at_entry t (hit_leaf hit) (hit_index hit) rest"
        "entry_at t (hit_leaf hit) (hit_index hit) = Some (Some (hd rest))" using hits by auto
    note start = lex_start_spec [OF hit(2) False hit(3), where s = s and mn = mn]
    show ?thesis
    proof (cases "\<exists>e rest'. dropWhile ?skip rest = e # rest' \<and> scores_equal (score e) s")
      case True
      then obtain hit' where "lex_start t mn s hit = Some (Some hit')" "at_entry t (hit_leaf hit') (hit_index hit') (dropWhile ?skip rest)"
        using start by auto
      then show ?thesis using hit(1) at_entry_iter [of t "hit_leaf hit'" "hit_index hit'" _ "StopLex mx s"] res
        by (simp add: collected_def bptree_range_by_lex_def stops)
    next
      case empty: False
      then have "lex_start t mn s hit = Some None" and "takeWhile ?take (dropWhile ?skip rest) = []"
        using start by (cases "dropWhile ?skip rest"; simp del: dropWhile_eq_Nil_conv)+
      then show ?thesis using hit(1) res by (simp add: collected_def bptree_range_by_lex_def range_collect_empty)
    qed
  qed
qed

section \<open>A sorted list\<close>

text \<open>The specification: the entries of the sorted set as a list in order.\<close>

datatype tree_op = TInsert f64 bytes | TRemove bytes | TScore f64 bytes | TRank f64 bytes | TRevRank f64 bytes
  | TRangeRank "64 word" "64 word" | TRangeScore ScoreBound ScoreBound | TRangeLex LexBound LexBound f64
  | TCountScore ScoreBound ScoreBound | TCountLex LexBound LexBound f64 | TPopMin | TPopMax | TLen | TClear

datatype tree_out = OInsert InsertResult | OScore "f64 option" | OFlag bool | ORank "64 word option"
  | OEntries "(f64 \<times> bytes) list" | OEntry "(f64 \<times> bytes) option" | OCount "64 word" | ODone

fun tree_step :: "BPTree \<Rightarrow> tree_op \<Rightarrow> (tree_out \<times> BPTree) option" where
  "tree_step t (TInsert s m) = map_option (apfst OInsert) (bptree_insert t s m)"
| "tree_step t (TRemove m) = map_option (apfst OScore) (bptree_remove t m)"
| "tree_step t (TScore s m) = Some (OFlag (bptree_get_score t s m), t)"
| "tree_step t (TRank s m) = map_option (\<lambda>r. (ORank r, t)) (rank_of t s m)"
| "tree_step t (TRevRank s m) = map_option (\<lambda>r. (ORank r, t)) (rank_of_rev t s m)"
| "tree_step t (TRangeRank a b) = map_option (\<lambda>xs. (OEntries xs, t)) (collected t (bptree_range_by_rank t a b))"
| "tree_step t (TRangeScore mn mx) = map_option (\<lambda>xs. (OEntries xs, t)) (collected t (bptree_range_by_score t mn mx))"
| "tree_step t (TRangeLex mn mx s) = map_option (\<lambda>xs. (OEntries xs, t)) (collected t (bptree_range_by_lex t mn mx s))"
| "tree_step t (TCountScore mn mx) = map_option (\<lambda>n. (OCount n, t)) (count_in_score_range t mn mx)"
| "tree_step t (TCountLex mn mx s) = map_option (\<lambda>n. (OCount n, t)) (count_in_lex_range t mn mx s)"
| "tree_step t TPopMin = map_option (apfst OEntry) (bptree_pop_min t)"
| "tree_step t TPopMax = map_option (apfst OEntry) (bptree_pop_max t)"
| "tree_step t TLen = Some (OCount (tree_len t), t)"
| "tree_step t TClear = Some (ODone, bptree_clear t)"

definition score_of :: "ZSetEntry list \<Rightarrow> bytes \<Rightarrow> f64 option" where
  "score_of xs m = map_of (map (\<lambda>e. (member e, score e)) xs) m"

definition drop_member :: "bytes \<Rightarrow> ZSetEntry list \<Rightarrow> ZSetEntry list" where
  "drop_member m xs = filter (\<lambda>e. member e \<noteq> m) xs"

definition put_member :: "f64 \<Rightarrow> bytes \<Rightarrow> ZSetEntry list \<Rightarrow> ZSetEntry list" where
  "put_member s m xs = insort_key key_of \<lparr>score = s, member = m\<rparr> (drop_member m xs)"

definition in_score_range :: "ScoreBound \<Rightarrow> ScoreBound \<Rightarrow> ZSetEntry list \<Rightarrow> ZSetEntry list" where
  "in_score_range mn mx xs = filter (\<lambda>e. \<not> score_lower_predicate (score e) mn \<and> score_within_upper_bound (score e) mx) xs"

definition in_lex_range :: "LexBound \<Rightarrow> LexBound \<Rightarrow> f64 \<Rightarrow> ZSetEntry list \<Rightarrow> ZSetEntry list" where
  "in_lex_range mn mx s xs = filter (\<lambda>e. scores_equal (score e) s \<and> lex_within_lower_bound (member e) mn \<and>
     lex_matches_upper_bound (member e) mx) xs"

definition rank_in :: "ZSetEntry list \<Rightarrow> f64 \<Rightarrow> bytes \<Rightarrow> nat option" where
  "rank_in xs s m = position (\<lambda>e. key_of e = (f64_rank s, m)) xs"

fun sorted_list_step :: "ZSetEntry list \<Rightarrow> tree_op \<Rightarrow> tree_out \<times> ZSetEntry list" where
  "sorted_list_step xs (TInsert s m) = (case score_of xs m of
      None \<Rightarrow> (OInsert Inserted, put_member s m xs)
    | Some old \<Rightarrow> (OInsert (Updated old), if f64_eq old s then xs else put_member s m xs))"
| "sorted_list_step xs (TRemove m) = (OScore (score_of xs m), drop_member m xs)"
| "sorted_list_step xs (TScore s m) = (OFlag (case score_of xs m of None \<Rightarrow> False | Some old \<Rightarrow> f64_eq old s), xs)"
| "sorted_list_step xs (TRank s m) = (ORank (map_option of_nat (rank_in xs s m)), xs)"
| "sorted_list_step xs (TRevRank s m) = (ORank (map_option (\<lambda>r. of_nat (length xs - 1 - r)) (rank_in xs s m)), xs)"
| "sorted_list_step xs (TRangeRank a b) = (OEntries (map pair_of (take (Suc (unat b) - unat a) (drop (unat a) xs))), xs)"
| "sorted_list_step xs (TRangeScore mn mx) = (OEntries (map pair_of (in_score_range mn mx xs)), xs)"
| "sorted_list_step xs (TRangeLex mn mx s) = (OEntries (map pair_of (in_lex_range mn mx s xs)), xs)"
| "sorted_list_step xs (TCountScore mn mx) = (OCount (of_nat (length (in_score_range mn mx xs))), xs)"
| "sorted_list_step xs (TCountLex mn mx s) = (OCount (of_nat (length (in_lex_range mn mx s xs))), xs)"
| "sorted_list_step xs TPopMin = (if xs = [] then (OEntry None, xs) else (OEntry (Some (pair_of (hd xs))), tl xs))"
| "sorted_list_step xs TPopMax = (if xs = [] then (OEntry None, xs) else (OEntry (Some (pair_of (last xs))), butlast xs))"
| "sorted_list_step xs TLen = (OCount (of_nat (length xs)), xs)"
| "sorted_list_step xs TClear = (ODone, [])"

text \<open>Scores are numbers, members are valid UTF-8 (they are strings), and the length fits a word.\<close>

fun tree_op_ok :: "ZSetEntry list \<Rightarrow> tree_op \<Rightarrow> bool" where
  "tree_op_ok xs (TInsert s m) \<longleftrightarrow> \<not> is_nan s \<and> utf8_valid m \<and> Suc (length xs) < 2 ^ 64"
| "tree_op_ok xs (TRank s m) \<longleftrightarrow> \<not> is_nan s"
| "tree_op_ok xs (TRevRank s m) \<longleftrightarrow> \<not> is_nan s"
| "tree_op_ok xs op \<longleftrightarrow> True"

definition tree_rep :: "BPTree \<Rightarrow> ZSetEntry list \<Rightarrow> bool" where
  "tree_rep t xs \<longleftrightarrow> tree_shape t xs \<and> member_scores t = score_of xs \<and> distinct (map member xs) \<and>
     (\<forall>x \<in> set xs. utf8_valid (member x)) \<and> length xs < 2 ^ 64"

lemma entry_eq: "\<lparr>score = s, member = m\<rparr> = e \<longleftrightarrow> s = score e \<and> m = member e" for e :: ZSetEntry
  by (cases e) simp

lemma entry_id [simp]: "\<lparr>score = score e, member = member e\<rparr> = e" for e :: ZSetEntry
  by (cases e) simp

lemma score_of_iff: "distinct (map member xs) \<Longrightarrow> score_of xs m = Some s \<longleftrightarrow> \<lparr>score = s, member = m\<rparr> \<in> set xs"
proof -
  assume "distinct (map member xs)"
  then have "score_of xs m = Some s \<longleftrightarrow> (m, s) \<in> (\<lambda>e. (member e, score e)) ` set xs"
    unfolding score_of_def by (subst map_of_eq_Some_iff) (simp_all add: o_def)
  also have "\<dots> \<longleftrightarrow> (\<exists>e \<in> set xs. \<lparr>score = s, member = m\<rparr> = e)" unfolding image_iff entry_eq by auto
  finally show ?thesis by simp
qed

lemma score_of_None: "score_of xs m = None \<longleftrightarrow> m \<notin> member ` set xs"
  by (auto simp: score_of_def map_of_eq_None_iff image_iff)

lemma distinct_drop_member: "distinct (map member xs) \<Longrightarrow> distinct (map member (drop_member m xs))"
  by (simp add: drop_member_def distinct_map_filter)

lemma distinct_put_member: "distinct (map member xs) \<Longrightarrow> distinct (map member (put_member s m xs))"
proof -
  assume "distinct (map member xs)"
  then have d: "distinct (map member (drop_member m xs))" by (rule distinct_drop_member)
  have "m \<notin> member ` set (drop_member m xs)" by (auto simp: drop_member_def)
  moreover have "distinct (map member (insort_key f e ys)) \<longleftrightarrow> member e \<notin> member ` set ys \<and> distinct (map member ys)"
    for f :: "ZSetEntry \<Rightarrow> int \<times> bytes" and e ys
    by (induction ys) (auto simp: set_insort_key)
  ultimately show ?thesis using d by (simp add: put_member_def)
qed

lemma score_of_drop: "score_of (drop_member m xs) = (score_of xs)(m := None)"
  by (induction xs) (auto simp: score_of_def drop_member_def fun_eq_iff)

lemma score_of_put: "distinct (map member xs) \<Longrightarrow> score_of (put_member s m xs) = (score_of xs)(m \<mapsto> s)"
proof
  fix k
  assume d: "distinct (map member xs)"
  let ?e = "\<lparr>score = s, member = m\<rparr>"
  have iff: "score_of (put_member s m xs) k = Some v \<longleftrightarrow> \<lparr>score = v, member = k\<rparr> = ?e \<or> score_of (drop_member m xs) k = Some v" for v
    using score_of_iff [OF distinct_put_member [OF d], of s m k v] score_of_iff [OF distinct_drop_member [OF d], of m k v]
    by (auto simp: put_member_def set_insort_key)
  show "score_of (put_member s m xs) k = ((score_of xs)(m \<mapsto> s)) k"
  proof (cases "k = m")
    case True
    then show ?thesis using iff [of s] by simp
  next
    case False
    then have "score_of (put_member s m xs) k = Some v \<longleftrightarrow> score_of xs k = Some v" for v
      using iff [of v] by (simp add: score_of_drop)
    then show ?thesis using False by (metis fun_upd_other not_None_eq)
  qed
qed

lemma score_of_key:
  assumes "distinct (map member xs)" and "score_of xs m = Some s"
  shows "(f64_rank s, m) \<in> key_of ` set xs" and "without (f64_rank s, m) xs = drop_member m xs"
proof -
  have e: "\<lparr>score = s, member = m\<rparr> \<in> set xs" using assms score_of_iff by blast
  then show "(f64_rank s, m) \<in> key_of ` set xs" by (force simp: key_of_def image_iff)
  have "score x = s" if "x \<in> set xs" "member x = m" for x
    using inj_onD [OF distinct_map [THEN iffD1, THEN conjunct2, OF assms(1)], of x "\<lparr>score = s, member = m\<rparr>"] e that by auto
  then have "member x = m \<Longrightarrow> key_of x = (f64_rank s, m)" if "x \<in> set xs" for x using that by (auto simp: key_of_def)
  then have "key_of x = (f64_rank s, m) \<longleftrightarrow> member x = m" if "x \<in> set xs" for x using that by (auto simp: key_of_def)
  then show "without (f64_rank s, m) xs = drop_member m xs" by (auto simp: drop_member_def intro!: filter_cong)
qed

lemma tree_shape_member_scores [simp]: "tree_shape (t\<lparr>member_scores := f\<rparr>) xs = tree_shape t xs"
  by (simp add: tree_shape_def placed_def)

lemma drop_member_absent: "score_of xs m = None \<Longrightarrow> drop_member m xs = xs"
  by (auto simp: drop_member_def filter_id_conv score_of_None)

lemma length_drop_member: "length (drop_member m xs) \<le> length xs"
  by (simp add: drop_member_def)

lemma remove_exact_rep:
  assumes rep: "tree_rep t xs" and m: "score_of xs m = Some s"
  shows "\<exists>t'. remove_exact t \<lparr>score = s, member = m\<rparr> flag = Some (True, t') \<and> tree_shape t' (drop_member m xs) \<and>
     member_scores t' = (if flag then score_of (drop_member m xs) else score_of xs)"
proof -
  have d: "distinct (map member xs)" "length xs < 2 ^ 64" "tree_shape t xs" "member_scores t = score_of xs"
    using rep by (simp_all add: tree_rep_def)
  have "\<not> is_nan s" using m score_of_iff [OF d(1)] d(3) by (auto simp: tree_shape_def)
  from remove_exact_found [OF d(3) this d(2) score_of_key(1) [OF d(1) m], of flag]
  show ?thesis using d(4) by (auto simp: score_of_key(2) [OF d(1) m] score_of_drop)
qed

lemma drop_member_rep:
  "tree_rep t xs \<Longrightarrow> tree_shape t' (drop_member m xs) \<Longrightarrow> member_scores t' = score_of (drop_member m xs) \<Longrightarrow>
     tree_rep t' (drop_member m xs)"
  using distinct_drop_member [of xs m] le_less_trans [OF length_drop_member [of m xs]]
  by (auto simp: tree_rep_def drop_member_def)

lemma insert_new_rep:
  assumes rep: "tree_rep t0 xs" and shape: "tree_shape t (drop_member m xs)" "member_scores t = (score_of xs)(m \<mapsto> s)"
    and s: "\<not> is_nan s" and m: "utf8_valid m" and len: "Suc (length xs) < 2 ^ 64"
  shows "\<exists>t'. insert_new_entry t \<lparr>score = s, member = m\<rparr> = Some t' \<and> tree_rep t' (put_member s m xs)"
proof -
  let ?e = "\<lparr>score = s, member = m\<rparr>"
  have d: "distinct (map member xs)" "\<forall>x \<in> set xs. utf8_valid (member x)" using rep by (simp_all add: tree_rep_def)
  have "key_of ?e \<notin> key_of ` set (drop_member m xs)" by (auto simp: key_of_def drop_member_def)
  with insert_new_entry_spec [OF shape(1), of ?e] s obtain t' where t': "insert_new_entry t ?e = Some t'"
      "tree_shape t' (put_member s m xs)" "member_scores t' = (score_of xs)(m \<mapsto> s)"
    using shape(2) by (auto simp: put_member_def)
  moreover have "length (put_member s m xs) < 2 ^ 64" using length_drop_member [of m xs] len by (simp add: put_member_def)
  moreover have "\<forall>x \<in> set (put_member s m xs). utf8_valid (member x)"
    using d(2) m by (auto simp: put_member_def set_insort_key drop_member_def)
  ultimately show ?thesis using distinct_put_member [OF d(1)] score_of_put [OF d(1)] by (auto simp: tree_rep_def)
qed

lemma bptree_insert_rep:
  assumes rep: "tree_rep t xs" and ok: "tree_op_ok xs (TInsert s m)"
  shows "\<exists>t'. tree_step t (TInsert s m) = Some (fst (sorted_list_step xs (TInsert s m)), t') \<and>
           tree_rep t' (snd (sorted_list_step xs (TInsert s m)))"
proof (cases "score_of xs m")
  case None
  have ms: "member_scores t = score_of xs" "tree_shape t xs" using rep by (simp_all add: tree_rep_def)
  obtain t' where "insert_new_entry (t\<lparr>member_scores := (score_of xs)(m \<mapsto> s)\<rparr>) \<lparr>score = s, member = m\<rparr> = Some t'"
      "tree_rep t' (put_member s m xs)"
    using insert_new_rep [OF rep, of "t\<lparr>member_scores := (score_of xs)(m \<mapsto> s)\<rparr>" m s] ok ms(2) drop_member_absent [OF None] by auto
  then show ?thesis using None ms(1) by (simp add: bptree_insert_def)
next
  case (Some old)
  have ms: "member_scores t = score_of xs" "tree_shape t xs" using rep by (simp_all add: tree_rep_def)
  show ?thesis
  proof (cases "f64_eq old s")
    case True
    then show ?thesis using Some ms rep by (simp add: bptree_insert_def scores_equal_def)
  next
    case False
    obtain t1 where t1: "remove_exact t \<lparr>score = old, member = m\<rparr> False = Some (True, t1)" "tree_shape t1 (drop_member m xs)"
        "member_scores t1 = score_of xs"
      using remove_exact_rep [OF rep Some, of False] by auto
    obtain t' where "insert_new_entry (t1\<lparr>member_scores := (score_of xs)(m \<mapsto> s)\<rparr>) \<lparr>score = s, member = m\<rparr> = Some t'"
        "tree_rep t' (put_member s m xs)"
      using insert_new_rep [OF rep, of "t1\<lparr>member_scores := (score_of xs)(m \<mapsto> s)\<rparr>" m s] ok t1(2) by auto
    then show ?thesis using Some False t1 ms(1) by (simp add: bptree_insert_def scores_equal_def)
  qed
qed

lemma bptree_remove_rep:
  assumes rep: "tree_rep t xs"
  shows "\<exists>t'. bptree_remove t m = Some (score_of xs m, t') \<and> tree_rep t' (drop_member m xs)"
proof (cases "score_of xs m")
  case None
  then show ?thesis using rep drop_member_absent [OF None] by (auto simp: bptree_remove_def tree_rep_def)
next
  case (Some s)
  obtain t' where t': "remove_exact t \<lparr>score = s, member = m\<rparr> True = Some (True, t')" "tree_shape t' (drop_member m xs)"
      "member_scores t' = score_of (drop_member m xs)"
    using remove_exact_rep [OF rep Some, of True] by auto
  have "utf8_valid m" "member_scores t = score_of xs"
    using rep Some score_of_iff [of xs m s] by (auto simp: tree_rep_def)
  then show ?thesis using t' Some drop_member_rep [OF rep t'(2,3)] by (simp add: bptree_remove_def)
qed

lemma position_takeWhile:
  assumes "strict xs" and "kk \<in> key_of ` set xs"
  shows "position (\<lambda>e. key_of e = kk) xs = Some (length (takeWhile (precedes kk) xs))"
  using assms
proof (induction xs)
  case (Cons x xs)
  show ?case
  proof (cases "key_of x = kk")
    case False
    then have "kk \<in> key_of ` set xs" using Cons.prems by auto
    moreover then have "key_of x < kk" using Cons.prems by auto
    ultimately show ?thesis using False Cons by simp
  qed simp
qed simp

lemma rank_of_rep:
  assumes rep: "tree_rep t xs" and s: "\<not> is_nan s"
  shows "rank_of t s m = Some (map_option of_nat (rank_in xs s m))"
proof (cases "(f64_rank s, m) \<in> key_of ` set xs")
  case True
  then have "utf8_valid m" using rep by (auto simp: tree_rep_def key_of_def)
  then show ?thesis
    using True rank_of_spec [of t xs s m] rep s position_takeWhile [of xs "(f64_rank s, m)"]
    by (auto simp: rank_in_def tree_rep_def tree_shape_def)
next
  case False
  then have "rank_in xs s m = None" by (force simp: rank_in_def position_None_iff)
  then show ?thesis using False rank_of_spec [of t xs s m] rep s by (auto simp: tree_rep_def)
qed

lemma rank_in_less: "rank_in xs s m = Some r \<Longrightarrow> r < length xs"
  by (simp add: rank_in_def position_less)

lemma rank_of_rev_rep:
  assumes rep: "tree_rep t xs" and s: "\<not> is_nan s"
  shows "rank_of_rev t s m = Some (map_option (\<lambda>r. of_nat (length xs - 1 - r)) (rank_in xs s m))"
proof (cases "rank_in xs s m")
  case (Some r)
  have "tree_len t = of_nat (length xs)" using rep by (simp add: tree_rep_def tree_shape_def)
  moreover have "(of_nat (length xs) :: 64 word) - 1 - of_nat r = of_nat (length xs - 1 - r)"
    using rank_in_less [OF Some] by (simp add: of_nat_diff)
  ultimately show ?thesis using Some rank_of_rep [OF rep s] by (simp add: rank_of_rev_def)
qed (use rank_of_rep [OF rep s] in \<open>simp add: rank_of_rev_def\<close>)

lemma pop_entry_rep:
  assumes rep: "tree_rep t xs" and e: "e \<in> set xs"
  shows "\<exists>t'. pop_entry t e = Some (Some (pair_of e), t') \<and> tree_rep t' (drop_member (member e) xs)"
proof -
  have "score_of xs (member e) = Some (score e)" using rep e score_of_iff [of xs "member e" "score e"] by (simp add: tree_rep_def)
  from remove_exact_rep [OF rep this, of True] obtain t' where
    "remove_exact t \<lparr>score = score e, member = member e\<rparr> True = Some (True, t')" "tree_shape t' (drop_member (member e) xs)"
    "member_scores t' = score_of (drop_member (member e) xs)" by auto
  then show ?thesis using drop_member_rep [OF rep] by (auto simp: pop_entry_def)
qed

lemma drop_member_ends:
  "distinct (map member (e # xs)) \<Longrightarrow> drop_member (member e) (e # xs) = xs"
  "distinct (map member (xs @ [e])) \<Longrightarrow> drop_member (member e) (xs @ [e]) = xs"
  by (auto simp: drop_member_def filter_id_conv) (metis image_eqI)+

lemma bptree_pop_min_rep:
  assumes rep: "tree_rep t xs"
  shows "\<exists>t'. tree_step t TPopMin = Some (fst (sorted_list_step xs TPopMin), t') \<and> tree_rep t' (snd (sorted_list_step xs TPopMin))"
proof (cases xs)
  case Nil
  then show ?thesis using rep by (simp add: bptree_pop_min_def tree_rep_def tree_shape_def)
next
  case (Cons e xs')
  have shape: "tree_shape t xs" "xs \<noteq> []" "distinct (map member xs)" using rep Cons by (simp_all add: tree_rep_def)
  obtain b h where b: "flat b = xs" "leftmost t = Some (hd (lids b))" "walk (nodes t) (leaves b)" "\<forall>p \<in> set (leaves b). snd p \<noteq> []"
    using tree_shapeE [OF shape(1,2)] by metis
  have "leaves b \<noteq> []" using b(1) shape(2) leaves_flat [of b] by auto
  then obtain i es ls where lv: "leaves b = (i, es) # ls" by (cases "leaves b") auto
  then obtain es' where es: "es = e # es'" using b(1,4) Cons leaves_flat [of b] by (cases es) auto
  have "leftmost t = Some i" using b(2) lv leaves_lids [of b, symmetric] by simp
  moreover obtain l where "leaf t i = Some l" "entries l = e # es'" using b(3) lv es by (auto simp: leaf_present)
  ultimately have "bptree_pop_min t = pop_entry t e" by (simp add: bptree_pop_min_def)
  then show ?thesis using pop_entry_rep [OF rep, of e] Cons drop_member_ends(1) [of e xs'] shape(3) by auto
qed

lemma bptree_pop_max_rep:
  assumes rep: "tree_rep t xs"
  shows "\<exists>t'. tree_step t TPopMax = Some (fst (sorted_list_step xs TPopMax), t') \<and> tree_rep t' (snd (sorted_list_step xs TPopMax))"
proof (cases xs rule: rev_cases)
  case Nil
  then show ?thesis using rep by (simp add: bptree_pop_max_def tree_rep_def tree_shape_def)
next
  case (snoc xs' e)
  have shape: "tree_shape t xs" "xs \<noteq> []" "distinct (map member xs)" using rep snoc by (simp_all add: tree_rep_def)
  obtain b h where b: "flat b = xs" "placed t [] [b] []" "walk (nodes t) (leaves b)" "\<forall>p \<in> set (leaves b). snd p \<noteq> []"
    using tree_shapeE [OF shape(1,2)] by metis
  have "leaves b \<noteq> []" using b(1) shape(2) leaves_flat [of b] by auto
  then obtain i es ls where lv: "leaves b = ls @ [(i, es)]" by (cases "leaves b" rule: rev_cases) auto
  then have es: "es \<noteq> []" "last es = e" using b(1,4) snoc leaves_flat [of b] by (auto simp: last_append dest!: arg_cong [of _ _ last])
  have "rightmost t = Some i" using b(2) lv leaves_lids [of b, symmetric] by (simp add: placed_def)
  moreover obtain l where "leaf t i = Some l" "entries l = es" using walk_append [of "nodes t" ls "[(i, es)]"] b(3) lv by (auto simp: leaf_present)
  ultimately have "bptree_pop_max t = pop_entry t e" using es by (simp add: bptree_pop_max_def)
  then show ?thesis using pop_entry_rep [OF rep, of e] snoc drop_member_ends(2) [of xs' e] shape(3) by auto
qed

lemma tree_rep_empty: "tree_rep bptree_new []" "tree_rep (bptree_clear t) []"
  by (simp_all add: tree_rep_def tree_shape_def bptree_new_def bptree_clear_def arena_ok_default arena_clear_default score_of_def fun_eq_iff)

interpretation bpt: simulation tree_step sorted_list_step tree_rep tree_op_ok
proof
  fix t xs op
  assume rep: "tree_rep t xs" and ok: "tree_op_ok xs op"
  have shape: "tree_shape t xs" "length xs < 2 ^ 64" "member_scores t = score_of xs" using rep by (simp_all add: tree_rep_def)
  show "\<exists>t'. tree_step t op = Some (fst (sorted_list_step xs op), t') \<and> tree_rep t' (snd (sorted_list_step xs op))"
  proof (cases op)
    case (TInsert s m)
    then show ?thesis using bptree_insert_rep [OF rep] ok by simp
  next
    case (TRemove m)
    then show ?thesis using bptree_remove_rep [OF rep, of m] by auto
  next
    case (TScore s m)
    have "m \<in> member ` set xs \<Longrightarrow> utf8_valid m" using rep by (auto simp: tree_rep_def)
    then have "bptree_get_score t s m = (case score_of xs m of None \<Rightarrow> False | Some old \<Rightarrow> f64_eq old s)"
      using shape(3) score_of_None [of xs m] by (auto simp: bptree_get_score_def scores_equal_def split: option.splits)
    then show ?thesis using TScore rep by simp
  next
    case (TCountScore mn mx)
    then show ?thesis using range_by_score_spec [OF shape(1), of mn mx] rep
      by (auto simp: count_in_score_range_def collected_def in_score_range_def bind_eq_Some_conv)
  next
    case (TCountLex mn mx s)
    then show ?thesis using range_by_lex_spec [OF shape(1), of mn mx s] rep
      by (auto simp: count_in_lex_range_def collected_def in_lex_range_def bind_eq_Some_conv)
  qed (use rep ok shape rank_of_rep rank_of_rev_rep range_by_rank_spec range_by_score_spec range_by_lex_spec bptree_pop_min_rep
        bptree_pop_max_rep tree_rep_empty in \<open>auto simp: in_score_range_def in_lex_range_def tree_shape_def\<close>)
qed

lemma collect_entries_rep:
  assumes "tree_rep t xs"
  shows "collect_entries t = Some xs"
proof (cases "xs = []")
  case True
  then show ?thesis using assms by (simp add: collect_entries_def collect_loop.simps tree_rep_def tree_shape_def)
next
  case False
  have "tree_shape t xs" using assms by (simp add: tree_rep_def)
  from tree_shapeE [OF this False] obtain b h where b: "flat b = xs" "leftmost t = Some (hd (lids b))" "walk (nodes t) (leaves b)" "sized True b"
    by metis
  then show ?thesis using collect_loop_walk [OF b(3)] leaves_lids [of b] leaves_flat [of b] lids_not_Nil [OF b(4)]
    by (cases "lids b") (simp_all add: collect_entries_def)
qed

section \<open>Height\<close>

lemma sized_length: "sized False b \<Longrightarrow> balanced h b \<Longrightarrow> 7 * 11 ^ h \<le> length (flat b)"
proof (induction b arbitrary: h)
  case (BLeaf i es)
  then show ?case by (simp add: capacity_defs)
next
  case (BNode i ts ks)
  obtain h' where h: "h = Suc h'" "\<forall>t \<in> set ts. balanced h' t" using BNode.prems(2) by (auto split: nat.splits)
  have "\<forall>t \<in> set ts. 7 * 11 ^ h' \<le> length (flat t)" using BNode.IH BNode.prems(1) h(2) by auto
  then have "length ts * (7 * 11 ^ h') \<le> length (flats ts)" by (induction ts) auto
  moreover have "11 \<le> length ts" using BNode.prems(1) by (simp add: capacity_defs)
  then have "11 * (7 * 11 ^ h') \<le> length ts * (7 * 11 ^ h')" by (rule mult_le_mono1)
  ultimately have "11 * (7 * 11 ^ h') \<le> length (flats ts)" by (meson le_trans)
  then show ?case using h(1) by simp
qed

lemma height_loop_holds: "holds (nodes t) b \<Longrightarrow> sized r b \<Longrightarrow> balanced h b \<Longrightarrow> height_loop t (bid b) n = Some (n + h)"
proof (induction b arbitrary: r h n)
  case (BLeaf i es)
  then show ?case by (auto simp: height_loop.simps body_Inl)
next
  case (BNode i ts ks)
  obtain h' where h: "h = Suc h'" "\<forall>t \<in> set ts. balanced h' t" using BNode.prems(3) by (auto split: nat.splits)
  obtain b ts' where ts: "ts = b # ts'" using BNode.prems(2) by (cases ts) auto
  have "height_loop t (bid b) (n + 1) = Some (n + 1 + h')" using BNode.IH [of b False h' "n + 1"] BNode.prems(1,2) h(2) ts by simp
  then show ?case using BNode.prems(1) ts h(1) by (simp add: height_loop.simps [of t i] body_Inr node_of_def get_at_def)
qed

lemma height_shape:
  assumes "tree_shape t xs" and "xs \<noteq> []"
  shows "\<exists>h. height t = Some (Suc h) \<and> (case h of 0 \<Rightarrow> True | Suc h' \<Rightarrow> 14 * 11 ^ h' \<le> length xs)"
proof -
  obtain b h where b: "root t = Some (bid b)" "flat b = xs" "sized True b" "balanced h b" "holds (nodes t) b"
    using tree_shapeE [OF assms] by metis
  have "height t = Some (Suc h)" using b(1) height_loop_holds [OF b(5,3,4), of 1] by (simp add: height_def)
  moreover have "case h of 0 \<Rightarrow> True | Suc h' \<Rightarrow> 14 * 11 ^ h' \<le> length xs"
  proof (cases b)
    case (BNode i ts ks)
    then obtain h' where h: "h = Suc h'" "\<forall>t \<in> set ts. balanced h' t" using b(4) by (auto split: nat.splits)
    obtain b1 b2 ts' where ts: "ts = b1 # b2 # ts'" using b(3) BNode by (cases ts; cases "tl ts") auto
    then have "7 * 11 ^ h' \<le> length (flat b1)" "7 * 11 ^ h' \<le> length (flat b2)" using sized_length b(3) BNode h(2) by auto
    then show ?thesis using h(1) by (simp add: b(2) [symmetric] BNode ts)
  qed (use b(4) in simp)
  ultimately show ?thesis by blast
qed

section \<open>Properties\<close>

text \<open>C8. The B+ tree is a sorted list: whatever the sequence of insertions, score changes, removals and pops, no
  operation panics or runs forever, and every lookup, rank, reverse rank, range by rank, score or member, count and
  length is the one computed on the list of entries ordered by score and member; the leaves hold that list in the end.\<close>

theorem bptree_refines_sorted_list:
  assumes "ok_ops sorted_list_step tree_op_ok [] ops"
  shows "\<exists>t. run_c tree_step bptree_new ops = Some (fst (run_a sorted_list_step [] ops), t) \<and>
           collect_entries t = Some (snd (run_a sorted_list_step [] ops))"
  using bpt.run [OF tree_rep_empty(1) assms] collect_entries_rep by blast

theorem bptree_refines_sorted_list_witness:
  "\<exists>t. run_c tree_step bptree_new [TInsert 0 [98], TInsert 4607182418800017408 [97], TRank 0 [98], TInsert 4611686018427387904 [98],
       TRangeScore NegInf (Exclusive 4611686018427387904), TPopMax, TLen] =
     Some ([OInsert Inserted, OInsert Inserted, ORank (Some 0), OInsert (Updated 0), OEntries [(4607182418800017408, [97])],
       OEntry (Some (4611686018427387904, [98])), OCount 1], t) \<and>
     collect_entries t = Some [\<lparr>score = 4607182418800017408, member = [97]\<rparr>]"
proof -
  let ?ops = "[TInsert 0 [98], TInsert 4607182418800017408 [97], TRank 0 [98], TInsert 4611686018427387904 [98],
       TRangeScore NegInf (Exclusive 4611686018427387904), TPopMax, TLen]"
  note facts = score_of_def put_member_def drop_member_def rank_in_def in_score_range_def key_of_def f64_compare_defs f64_rank_def
    f64_magnitude_def f64_negative_def is_nan_def f64_inf_bits_def score_lower_predicate_def score_within_upper_bound_def scores_equal_def
    less_eq_prod_def
  have "ok_ops sorted_list_step tree_op_ok [] ?ops" by (simp add: facts)
  moreover have "run_a sorted_list_step [] ?ops = ([OInsert Inserted, OInsert Inserted, ORank (Some 0), OInsert (Updated 0),
       OEntries [(4607182418800017408, [97])], OEntry (Some (4611686018427387904, [98])), OCount 1],
     [\<lparr>score = 4607182418800017408, member = [97]\<rparr>])" by (simp add: facts)
  ultimately show ?thesis using bptree_refines_sorted_list [of ?ops] by simp
qed

text \<open>The height of the tree is logarithmic: after any sequence of operations that leaves it non-empty, \<open>height\<close>
  returns, and a tree of height \<open>h + 2\<close> holds at least \<open>14 * 11 ^ h\<close> entries.\<close>

theorem bptree_height_logarithmic:
  assumes "ok_ops sorted_list_step tree_op_ok [] ops" and "snd (run_a sorted_list_step [] ops) \<noteq> []"
  shows "\<exists>outs t h. run_c tree_step bptree_new ops = Some (outs, t) \<and> height t = Some (Suc h) \<and>
           (case h of 0 \<Rightarrow> True | Suc h' \<Rightarrow> 14 * 11 ^ h' \<le> length (snd (run_a sorted_list_step [] ops)))"
proof -
  obtain t where t: "run_c tree_step bptree_new ops = Some (fst (run_a sorted_list_step [] ops), t)"
      "tree_rep t (snd (run_a sorted_list_step [] ops))"
    using bpt.run [OF tree_rep_empty(1) assms(1)] by blast
  then show ?thesis using height_shape [OF _ assms(2), of t] by (auto simp: tree_rep_def)
qed

theorem bptree_height_logarithmic_witness:
  "\<exists>outs t h. run_c tree_step bptree_new [TInsert 0 [98], TInsert 0 [97]] = Some (outs, t) \<and> height t = Some (Suc h) \<and>
     (case h of 0 \<Rightarrow> True | Suc h' \<Rightarrow> 14 * 11 ^ h' \<le> (2 :: nat))"
proof -
  let ?ops = "[TInsert 0 [98], TInsert 0 [97]]"
  note facts = score_of_def put_member_def drop_member_def key_of_def f64_rank_def f64_magnitude_def f64_negative_def is_nan_def
    f64_inf_bits_def less_eq_prod_def
  have ok: "ok_ops sorted_list_step tree_op_ok [] ?ops" and len: "length (snd (run_a sorted_list_step [] ?ops)) = 2"
    by (simp_all add: facts)
  have "snd (run_a sorted_list_step [] ?ops) \<noteq> []" using len by (metis list.size(3) zero_neq_numeral)
  from bptree_height_logarithmic [OF ok this] show ?thesis unfolding len .
qed

end
