(* ===== verification/ZSet.thy ===== *)
theory ZSet
  imports BPTree Listpack Table "HOL-Library.Multiset" "HOL-Library.Sublist"
begin

text \<open>
  Sorted set values (\<open>senko-core/src/zset/object.rs\<close>): a listpack of members and scores in order while
  the set is small, a B+ tree with an index from members to scores afterwards. The index is a hash
  map of the crate hashbrown, whose operations are the parameter \<open>zd_index\<close>; \<open>zd_parse_f64\<close> is
  \<open>str::parse::<f64>\<close>, which only a score not stored in eight bytes would reach; random choices are
  arguments. Operations are in the option monad: \<open>None\<close> is a panic or a loop that does not end. After
  the definitions: the two encodings, and the refinement of the sorted list of entries by the value.
\<close>

record 't zset_deps =
  zd_index :: "('t, f64) table_deps"
  zd_parse_f64 :: "bytes \<Rightarrow> f64 option"

section \<open>Listpack encoding\<close>

definition ZSET_LISTPACK_MAX_ENTRIES :: nat where "ZSET_LISTPACK_MAX_ENTRIES = 128"
definition ZSET_LISTPACK_MAX_MEMBER_SIZE :: nat where "ZSET_LISTPACK_MAX_MEMBER_SIZE = 64"

definition decode_lp_score :: "'t zset_deps \<Rightarrow> bytes \<Rightarrow> f64 option" where
  "decode_lp_score D bs =
     (if length bs = 8 then Some (of_nat (le_val bs))
      else if utf8_valid bs then zd_parse_f64 D bs else None)"

fun lp_zset_pairs :: "'t zset_deps \<Rightarrow> bytes list \<Rightarrow> (f64 \<times> bytes) list" where
  "lp_zset_pairs D (m # s # raw) =
     ((case decode_lp_score D s of Some v \<Rightarrow> v | None \<Rightarrow> f64_zero), utf8_lossy m) # lp_zset_pairs D raw"
| "lp_zset_pairs D _ = []"

definition lp_zset_entries :: "'t zset_deps \<Rightarrow> listpack_node \<Rightarrow> (f64 \<times> bytes) list" where
  "lp_zset_entries D node = lp_zset_pairs D (decode_all_entries node)"

partial_function (option) lp_clear_loop :: "listpack_node \<Rightarrow> listpack_node option" where
  "lp_clear_loop node = (if 0 < lp_len node then lp_clear_loop (lp_delete_at node 0) else Some node)"

fun lp_push_pairs :: "listpack_node \<Rightarrow> (f64 \<times> bytes) list \<Rightarrow> listpack_node" where
  "lp_push_pairs node [] = node"
| "lp_push_pairs node ((s, m) # es) = lp_push_pairs (lp_push_back (lp_push_back node m) (le_bytes 8 (unat s))) es"

definition rewrite_lp_from_entries :: "listpack_node \<Rightarrow> (f64 \<times> bytes) list \<Rightarrow> listpack_node option" where
  "rewrite_lp_from_entries node es = map_option (\<lambda>node. lp_push_pairs node es) (lp_clear_loop node)"

definition compare_score_member :: "f64 \<Rightarrow> bytes \<Rightarrow> f64 \<Rightarrow> bytes \<Rightarrow> Ordering" where
  "compare_score_member left_score left_member right_score right_member =
     (if f64_lt left_score right_score then Less
      else if f64_lt right_score left_score then Greater
      else bytes_cmp left_member right_member)"

definition lp_zset_score :: "'t zset_deps \<Rightarrow> listpack_node \<Rightarrow> bytes \<Rightarrow> f64 option" where
  "lp_zset_score D node m = map_option fst (find (\<lambda>(_, existing). existing = m) (lp_zset_entries D node))"

definition lp_zset_insert :: "'t zset_deps \<Rightarrow> listpack_node \<Rightarrow> f64 \<Rightarrow> bytes \<Rightarrow> (bool \<times> listpack_node) option" where
  "lp_zset_insert D node s m =
     (if lp_zset_score D node m \<noteq> None then Some (False, node)
      else
        (let es = lp_zset_entries D node;
             at = partition_point (\<lambda>(existing_score, existing_member).
                    compare_score_member existing_score existing_member s m = Less) es
         in map_option (Pair True) (rewrite_lp_from_entries node (insert_at at (s, utf8_lossy m) es))))"

definition lp_zset_remove :: "'t zset_deps \<Rightarrow> listpack_node \<Rightarrow> bytes \<Rightarrow> (f64 option \<times> listpack_node) option" where
  "lp_zset_remove D node m =
     (let es = lp_zset_entries D node
      in case position (\<lambda>(_, existing). existing = m) es of
           None \<Rightarrow> Some (None, node)
         | Some i \<Rightarrow> map_option (Pair (Some (fst (es ! i)))) (rewrite_lp_from_entries node (remove_at i es)))"

definition lp_zset_rank :: "'t zset_deps \<Rightarrow> listpack_node \<Rightarrow> bytes \<Rightarrow> 64 word option" where
  "lp_zset_rank D node m = map_option of_nat (position (\<lambda>(_, existing). existing = m) (lp_zset_entries D node))"

definition lp_zset_range_by_rank :: "'t zset_deps \<Rightarrow> listpack_node \<Rightarrow> nat \<Rightarrow> nat \<Rightarrow> (f64 \<times> bytes) list" where
  "lp_zset_range_by_rank D node start stop =
     (let es = lp_zset_entries D node in
      if es = [] then []
      else let start = min start (length es - 1); stop = min stop (length es - 1)
           in if stop < start then [] else take (Suc stop - start) (drop start es))"

definition score_in_range :: "f64 \<Rightarrow> ScoreBound \<Rightarrow> ScoreBound \<Rightarrow> bool" where
  "score_in_range s mn mx \<longleftrightarrow>
     (case mn of Inclusive v \<Rightarrow> f64_le v s | Exclusive v \<Rightarrow> f64_lt v s | NegInf \<Rightarrow> True | PosInf \<Rightarrow> False) \<and>
     (case mx of Inclusive v \<Rightarrow> f64_le s v | Exclusive v \<Rightarrow> f64_lt s v | NegInf \<Rightarrow> False | PosInf \<Rightarrow> True)"

definition lp_zset_range_by_score :: "'t zset_deps \<Rightarrow> listpack_node \<Rightarrow> ScoreBound \<Rightarrow> ScoreBound \<Rightarrow> (f64 \<times> bytes) list" where
  "lp_zset_range_by_score D node mn mx = filter (\<lambda>(s, _). score_in_range s mn mx) (lp_zset_entries D node)"

section \<open>Sorted set objects\<close>

datatype 't ZSetEncoding = ZListpack listpack_node | ZTree BPTree 't

record 't ZSetObject =
  zset_inner :: "'t ZSetEncoding"
  zset_len :: nat
  generation :: "64 word"

datatype ZAddCond = Always | NX | XX

record ZAddOptions =
  opt_condition :: ZAddCond
  opt_gt :: bool
  opt_lt :: bool
  opt_ch :: bool
  opt_incr :: bool

record ZAddResult =
  added :: nat
  changed :: nat
  new_score :: "f64 option"

definition zadd_default :: ZAddOptions where
  "zadd_default = \<lparr>opt_condition = Always, opt_gt = False, opt_lt = False, opt_ch = False, opt_incr = False\<rparr>"

definition zset_with_hasher :: "'t ZSetObject" where
  "zset_with_hasher = \<lparr>zset_inner = ZListpack default_node, zset_len = 0, generation = 0\<rparr>"

definition bump_generation :: "'t ZSetObject \<Rightarrow> 't ZSetObject" where
  "bump_generation z = z\<lparr>generation := generation z + 1\<rparr>"

text \<open>\<open>HashMap::insert\<close> on the index.\<close>

definition index_insert :: "'t zset_deps \<Rightarrow> 't \<Rightarrow> bytes \<Rightarrow> f64 \<Rightarrow> 't" where
  "index_insert D t m s = (case ht_find (zd_index D) t m of
      Some _ \<Rightarrow> ht_replace (zd_index D) t m s
    | None \<Rightarrow> ht_insert_unique (zd_index D) t m s)"

definition zset_score :: "'t zset_deps \<Rightarrow> 't ZSetObject \<Rightarrow> bytes \<Rightarrow> f64 option" where
  "zset_score D z m = (case zset_inner z of
      ZListpack node \<Rightarrow> lp_zset_score D node m
    | ZTree _ member_index \<Rightarrow> (if utf8_valid m then ht_find (zd_index D) member_index m else None))"

fun upgrade_entries :: "'t zset_deps \<Rightarrow> BPTree \<Rightarrow> 't \<Rightarrow> (f64 \<times> bytes) list \<Rightarrow> (BPTree \<times> 't) option" where
  "upgrade_entries D tree member_index [] = Some (tree, member_index)"
| "upgrade_entries D tree member_index ((s, m) # es) = do {
     (_, tree) \<leftarrow> bptree_insert tree s m;
     upgrade_entries D tree (index_insert D member_index m s) es
   }"

definition upgrade_listpack_to_bptree :: "'t zset_deps \<Rightarrow> 't ZSetObject \<Rightarrow> 't ZSetObject option" where
  "upgrade_listpack_to_bptree D z = (case zset_inner z of
      ZTree _ _ \<Rightarrow> Some z
    | ZListpack node \<Rightarrow> do {
        (tree, member_index) \<leftarrow> upgrade_entries D bptree_new (ht_new (zd_index D)) (lp_zset_entries D node);
        Some (bump_generation (z\<lparr>zset_inner := ZTree tree member_index\<rparr>))
      })"

definition zset_ensure_encoding :: "'t zset_deps \<Rightarrow> 't ZSetObject \<Rightarrow> bytes \<Rightarrow> 't ZSetObject option" where
  "zset_ensure_encoding D z m = (case zset_inner z of
      ZTree _ _ \<Rightarrow> Some z
    | ZListpack node \<Rightarrow>
        if lp_zset_score D node m \<noteq> None then Some z
        else if ZSET_LISTPACK_MAX_ENTRIES < zset_len z + 1 \<or> ZSET_LISTPACK_MAX_MEMBER_SIZE < length m
             then upgrade_listpack_to_bptree D z
             else Some z)"

text \<open>Writing the score of a member: the two arms of \<open>add\<close> that change the encoding.\<close>

definition zset_update :: "'t zset_deps \<Rightarrow> 't ZSetEncoding \<Rightarrow> f64 \<Rightarrow> bytes \<Rightarrow> 't ZSetEncoding option" where
  "zset_update D enc s m = (case enc of
      ZListpack node \<Rightarrow> do {
        (_, node) \<leftarrow> lp_zset_remove D node m;
        (_, node) \<leftarrow> lp_zset_insert D node s m;
        Some (ZListpack node)
      }
    | ZTree tree member_index \<Rightarrow> do {
        (_, tree) \<leftarrow> bptree_insert tree s m;
        Some (ZTree tree (index_insert D member_index m s))
      })"

definition zset_insert :: "'t zset_deps \<Rightarrow> 't ZSetEncoding \<Rightarrow> f64 \<Rightarrow> bytes \<Rightarrow> 't ZSetEncoding option" where
  "zset_insert D enc s m = (case enc of
      ZListpack node \<Rightarrow> do { (_, node) \<leftarrow> lp_zset_insert D node s m; Some (ZListpack node) }
    | ZTree tree member_index \<Rightarrow> do {
        (_, tree) \<leftarrow> bptree_insert tree s m;
        Some (ZTree tree (index_insert D member_index m s))
      })"

definition zset_add :: "'t zset_deps \<Rightarrow> 't ZSetObject \<Rightarrow> f64 \<Rightarrow> bytes \<Rightarrow> ZAddOptions \<Rightarrow> (ZAddResult \<times> 't ZSetObject) option" where
  "zset_add D z s m opts =
     (if is_nan s then Some (\<lparr>added = 0, changed = 0, new_score = None\<rparr>, z)
      else
        let current_score = zset_score D z m in
        if opt_condition opts = NX \<and> current_score \<noteq> None then Some (\<lparr>added = 0, changed = 0, new_score = current_score\<rparr>, z)
        else if opt_condition opts = XX \<and> current_score = None then Some (\<lparr>added = 0, changed = 0, new_score = None\<rparr>, z)
        else
          let target_score = (if opt_incr opts then f64_add (case current_score of Some c \<Rightarrow> c | None \<Rightarrow> f64_zero) s else s);
              report = (\<lambda>x. if opt_incr opts then Some x else None)
          in case current_score of
               Some existing \<Rightarrow>
                 if opt_gt opts \<and> f64_le target_score existing then Some (\<lparr>added = 0, changed = 0, new_score = report existing\<rparr>, z)
                 else if opt_lt opts \<and> f64_le existing target_score then Some (\<lparr>added = 0, changed = 0, new_score = report existing\<rparr>, z)
                 else if f64_eq existing target_score then Some (\<lparr>added = 0, changed = 0, new_score = report existing\<rparr>, z)
                 else do {
                   enc \<leftarrow> zset_update D (zset_inner z) target_score m;
                   Some (\<lparr>added = 0, changed = of_bool (opt_ch opts), new_score = report target_score\<rparr>,
                         bump_generation (z\<lparr>zset_inner := enc\<rparr>))
                 }
             | None \<Rightarrow> do {
                 z \<leftarrow> zset_ensure_encoding D z m;
                 enc \<leftarrow> zset_insert D (zset_inner z) target_score m;
                 Some (\<lparr>added = 1, changed = 1, new_score = report target_score\<rparr>,
                       bump_generation (z\<lparr>zset_inner := enc, zset_len := sat_add32 (zset_len z) 1\<rparr>))
               })"

definition zset_remove :: "'t zset_deps \<Rightarrow> 't ZSetObject \<Rightarrow> bytes \<Rightarrow> (f64 option \<times> 't ZSetObject) option" where
  "zset_remove D z m = do {
     (removed, enc) \<leftarrow> (case zset_inner z of
         ZListpack node \<Rightarrow> map_option (apsnd ZListpack) (lp_zset_remove D node m)
       | ZTree tree member_index \<Rightarrow>
           if \<not> utf8_valid m then Some (None, zset_inner z)
           else do {
             (removed, tree) \<leftarrow> bptree_remove tree m;
             Some (removed, ZTree tree (if removed \<noteq> None then ht_remove (zd_index D) member_index m else member_index))
           });
     Some (removed, if removed = None then z\<lparr>zset_inner := enc\<rparr>
                    else bump_generation (z\<lparr>zset_inner := enc, zset_len := zset_len z - 1\<rparr>))
   }"

definition zset_rank :: "'t zset_deps \<Rightarrow> 't ZSetObject \<Rightarrow> bytes \<Rightarrow> bool \<Rightarrow> 64 word option option" where
  "zset_rank D z m reverse = (case zset_inner z of
      ZListpack node \<Rightarrow>
        Some (map_option (\<lambda>rank. if reverse then of_nat (zset_len z) - 1 - rank else rank) (lp_zset_rank D node m))
    | ZTree tree member_index \<Rightarrow>
        if \<not> utf8_valid m then Some None
        else case ht_find (zd_index D) member_index m of
               None \<Rightarrow> Some None
             | Some s \<Rightarrow> if reverse then rank_of_rev tree s m else rank_of tree s m)"

section \<open>Ranges\<close>

definition normalize_rank_bounds :: "nat \<Rightarrow> int \<Rightarrow> int \<Rightarrow> bool \<Rightarrow> (nat \<times> nat) option" where
  "normalize_rank_bounds len start stop reverse =
     (if len = 0 then None
      else
        let len_i64 = int len;
            normalize = (\<lambda>index. if index < 0 then len_i64 + index else index);
            start = max (normalize start) 0;
            stop = normalize stop
        in if stop < 0 \<or> len_i64 \<le> start then None
           else let stop = min stop (len_i64 - 1) in
                if stop < start then None
                else if reverse then Some (nat (len_i64 - 1 - stop), nat (len_i64 - 1 - start))
                else Some (nat start, nat stop))"

definition apply_limit :: "'a list \<Rightarrow> (int \<times> int) option \<Rightarrow> 'a list" where
  "apply_limit es limit = (case limit of
      None \<Rightarrow> es
    | Some (offset, cnt) \<Rightarrow> if cnt \<le> 0 then [] else take (nat cnt) (drop (nat (max offset 0)) es))"

definition zset_range_by_rank ::
    "'t zset_deps \<Rightarrow> 't ZSetObject \<Rightarrow> int \<Rightarrow> int \<Rightarrow> bool \<Rightarrow> (int \<times> int) option \<Rightarrow> (f64 \<times> bytes) list option" where
  "zset_range_by_rank D z start stop reverse limit = (case normalize_rank_bounds (zset_len z) start stop reverse of
      None \<Rightarrow> Some []
    | Some (start, stop) \<Rightarrow> do {
        es \<leftarrow> (case zset_inner z of
            ZListpack node \<Rightarrow> Some (lp_zset_range_by_rank D node start stop)
          | ZTree tree _ \<Rightarrow> collected tree (bptree_range_by_rank tree (of_nat start) (of_nat stop)));
        Some (apply_limit (if reverse then rev es else es) limit)
      })"

definition zset_range_by_score ::
    "'t zset_deps \<Rightarrow> 't ZSetObject \<Rightarrow> ScoreBound \<Rightarrow> ScoreBound \<Rightarrow> bool \<Rightarrow> (int \<times> int) option \<Rightarrow> (f64 \<times> bytes) list option" where
  "zset_range_by_score D z mn mx reverse limit = do {
     es \<leftarrow> (case zset_inner z of
         ZListpack node \<Rightarrow> Some (lp_zset_range_by_score D node mn mx)
       | ZTree tree _ \<Rightarrow> collected tree (bptree_range_by_score tree mn mx));
     Some (apply_limit (if reverse then rev es else es) limit)
   }"

definition all_entries :: "'t zset_deps \<Rightarrow> 't ZSetObject \<Rightarrow> (f64 \<times> bytes) list option" where
  "all_entries D z = (case zset_inner z of
      ZListpack node \<Rightarrow> Some (lp_zset_entries D node)
    | ZTree tree _ \<Rightarrow>
        if bptree_is_empty tree then Some [] else collected tree (bptree_range_by_rank tree 0 (tree_len tree - 1)))"

definition all_scores_equal :: "'t zset_deps \<Rightarrow> 't ZSetObject \<Rightarrow> bool option" where
  "all_scores_equal D z = do {
     es \<leftarrow> all_entries D z;
     Some (case es of [] \<Rightarrow> True | (first, _) # es \<Rightarrow> list_all (\<lambda>(s, _). f64_eq s first) es)
   }"

definition lex_contains :: "bytes \<Rightarrow> LexBound \<Rightarrow> LexBound \<Rightarrow> bool" where
  "lex_contains m mn mx \<longleftrightarrow>
     (case mn of LexInclusive v \<Rightarrow> v \<le> m | LexExclusive v \<Rightarrow> v < m | LexMin \<Rightarrow> True | LexMax \<Rightarrow> False) \<and>
     (case mx of LexInclusive v \<Rightarrow> m \<le> v | LexExclusive v \<Rightarrow> m < v | LexMin \<Rightarrow> False | LexMax \<Rightarrow> True)"

definition zset_range_by_lex ::
    "'t zset_deps \<Rightarrow> 't ZSetObject \<Rightarrow> LexBound \<Rightarrow> LexBound \<Rightarrow> bool \<Rightarrow> (int \<times> int) option \<Rightarrow> (f64 \<times> bytes) list option" where
  "zset_range_by_lex D z mn mx reverse limit = do {
     same \<leftarrow> all_scores_equal D z;
     if \<not> same then Some []
     else do {
       es \<leftarrow> all_entries D z;
       let es = filter (\<lambda>(_, m). lex_contains m mn mx) es;
       Some (apply_limit (if reverse then rev es else es) limit)
     }
   }"

definition count_by_score :: "'t zset_deps \<Rightarrow> 't ZSetObject \<Rightarrow> ScoreBound \<Rightarrow> ScoreBound \<Rightarrow> 64 word option" where
  "count_by_score D z mn mx = map_option (\<lambda>es. of_nat (length es)) (zset_range_by_score D z mn mx False None)"

definition count_by_lex :: "'t zset_deps \<Rightarrow> 't ZSetObject \<Rightarrow> LexBound \<Rightarrow> LexBound \<Rightarrow> 64 word option" where
  "count_by_lex D z mn mx = map_option (\<lambda>es. of_nat (length es)) (zset_range_by_lex D z mn mx False None)"

section \<open>Pops and random members\<close>

definition pop_once :: "'t zset_deps \<Rightarrow> 't ZSetEncoding \<Rightarrow> bool \<Rightarrow> ((f64 \<times> bytes) option \<times> 't ZSetEncoding) option" where
  "pop_once D enc mx = (case enc of
      ZListpack node \<Rightarrow>
        (let es = lp_zset_entries D node in
         if es = [] then Some (None, enc)
         else if mx then map_option (\<lambda>node. (Some (last es), ZListpack node)) (rewrite_lp_from_entries node (butlast es))
         else map_option (\<lambda>node. (Some (hd es), ZListpack node)) (rewrite_lp_from_entries node (tl es)))
    | ZTree tree member_index \<Rightarrow> do {
        (item, tree) \<leftarrow> (if mx then bptree_pop_max tree else bptree_pop_min tree);
        Some (item, ZTree tree (case item of None \<Rightarrow> member_index | Some (_, m) \<Rightarrow> ht_remove (zd_index D) member_index m))
      })"

fun pop_loop :: "'t zset_deps \<Rightarrow> nat \<Rightarrow> 't ZSetObject \<Rightarrow> bool \<Rightarrow> ((f64 \<times> bytes) list \<times> 't ZSetObject) option" where
  "pop_loop D 0 z mx = Some ([], z)"
| "pop_loop D (Suc cnt) z mx = do {
     (popped, enc) \<leftarrow> pop_once D (zset_inner z) mx;
     (case popped of
        None \<Rightarrow> Some ([], z\<lparr>zset_inner := enc\<rparr>)
      | Some item \<Rightarrow> do {
          (out, z) \<leftarrow> pop_loop D cnt (z\<lparr>zset_inner := enc, zset_len := zset_len z - 1\<rparr>) mx;
          Some (item # out, z)
        })
   }"

definition pop_edge :: "'t zset_deps \<Rightarrow> 't ZSetObject \<Rightarrow> nat \<Rightarrow> bool \<Rightarrow> ((f64 \<times> bytes) list \<times> 't ZSetObject) option" where
  "pop_edge D z cnt mx = do {
     (out, z) \<leftarrow> pop_loop D cnt z mx;
     Some (out, if out \<noteq> [] then bump_generation z else z)
   }"

definition zset_pop_min :: "'t zset_deps \<Rightarrow> 't ZSetObject \<Rightarrow> nat \<Rightarrow> ((f64 \<times> bytes) list \<times> 't ZSetObject) option" where
  "zset_pop_min D z cnt = pop_edge D z cnt False"

definition zset_pop_max :: "'t zset_deps \<Rightarrow> 't ZSetObject \<Rightarrow> nat \<Rightarrow> ((f64 \<times> bytes) list \<times> 't ZSetObject) option" where
  "zset_pop_max D z cnt = pop_edge D z cnt True"

text \<open>\<open>gen n\<close> is \<open>rng.gen_range(0..n)\<close>, one generator for every draw; \<open>shuffle\<close> is \<open>SliceRandom::shuffle\<close>.\<close>

definition random_member :: "'t zset_deps \<Rightarrow> (nat \<Rightarrow> nat) \<Rightarrow> 't ZSetObject \<Rightarrow> (bytes \<times> f64) option" where
  "random_member D gen z = (case zset_inner z of
      ZListpack node \<Rightarrow>
        (let len = lp_len node div 2 in
         if len = 0 then None
         else case get_at (lp_zset_entries D node) (gen len) of
                None \<Rightarrow> None
              | Some (_, m) \<Rightarrow> map_option (Pair m) (zset_score D z m))
    | ZTree _ member_index \<Rightarrow>
        if ht_len (zd_index D) member_index = 0 then None
        else get_at (ht_iter (zd_index D) member_index) (gen (ht_len (zd_index D) member_index)))"

definition random_members_distinct ::
    "'t zset_deps \<Rightarrow> ((bytes \<times> f64) list \<Rightarrow> (bytes \<times> f64) list) \<Rightarrow> 't ZSetObject \<Rightarrow> nat \<Rightarrow> (bytes \<times> f64) list option" where
  "random_members_distinct D shuffle z n = do {
     es \<leftarrow> all_entries D z;
     let es = shuffle (map (\<lambda>(s, m). (m, s)) es);
     Some (take (min n (length es)) es)
   }"

definition random_members_repeating ::
    "'t zset_deps \<Rightarrow> (nat \<Rightarrow> nat) list \<Rightarrow> 't ZSetObject \<Rightarrow> (bytes \<times> f64) list option" where
  "random_members_repeating D gens z = do {
     es \<leftarrow> all_entries D z;
     Some (if es = [] then [] else map (\<lambda>gen. case es ! gen (length es) of (s, m) \<Rightarrow> (m, s)) gens)
   }"

section \<open>The listpack encoding\<close>

definition zflat :: "ZSetEntry list \<Rightarrow> bytes list" where
  "zflat xs = concat (map (\<lambda>e. [member e, le_bytes 8 (unat (score e))]) xs)"

lemma zflat_simps [simp]:
  "zflat [] = []" "zflat (e # xs) = member e # le_bytes 8 (unat (score e)) # zflat xs" "zflat (xs @ ys) = zflat xs @ zflat ys"
  by (simp_all add: zflat_def)

text \<open>The entries of a sorted set: in order, without NaN, members distinct and valid UTF-8.\<close>

definition zset_ok :: "ZSetEntry list \<Rightarrow> bool" where
  "zset_ok xs \<longleftrightarrow> strict xs \<and> (\<forall>x \<in> set xs. number x) \<and> distinct (map member xs) \<and> (\<forall>x \<in> set xs. utf8_valid (member x))"

definition lp_small :: "ZSetEntry list \<Rightarrow> bool" where
  "lp_small xs \<longleftrightarrow> length xs \<le> ZSET_LISTPACK_MAX_ENTRIES \<and> (\<forall>x \<in> set xs. length (member x) \<le> ZSET_LISTPACK_MAX_MEMBER_SIZE)"

lemma length_zflat [simp]: "length (zflat xs) = 2 * length xs"
  by (induction xs) simp_all

lemma lp_small_ok: "lp_small xs \<Longrightarrow> lp_ok (zflat xs)"
  by (auto simp: lp_small_def lp_ok_def lp_entry_ok_def zflat_def ZSET_LISTPACK_MAX_ENTRIES_def ZSET_LISTPACK_MAX_MEMBER_SIZE_def
      length_concat o_def sum_list_triv)

lemma decode_score_bytes: "decode_lp_score D (le_bytes 8 (unat (s :: f64))) = Some s"
proof -
  have "unat s < 256 ^ 8" using unsigned_less [of s] by simp
  then show ?thesis by (simp add: decode_lp_score_def le_val_le_bytes)
qed

lemma lp_zset_pairs_flat: "\<forall>x \<in> set xs. utf8_valid (member x) \<Longrightarrow> lp_zset_pairs D (zflat xs) = map pair_of xs"
  by (induction xs) (simp_all add: decode_score_bytes utf8_lossy_valid)

lemma lp_entries_rep:
  "lp_rep node (zflat xs) \<Longrightarrow> \<forall>x \<in> set xs. utf8_valid (member x) \<Longrightarrow> lp_zset_entries D node = map pair_of xs"
  by (simp add: lp_zset_entries_def lp_rep_decode lp_zset_pairs_flat)

lemma lp_clear_rep: "lp_rep node es \<Longrightarrow> \<exists>node'. lp_clear_loop node = Some node' \<and> lp_rep node' []"
proof (induction "length es" arbitrary: node es)
  case 0
  then show ?case using lp.size_rep [of node es] by (simp add: lp_clear_loop.simps)
next
  case (Suc n)
  have "lp_rep (lp_delete_at node 0) (remove_at 0 es)" using lp.delete_rep [OF Suc.prems, of 0] Suc.hyps(2) by (cases es) simp_all
  moreover have "n = length (remove_at 0 es)" using Suc.hyps(2) by (simp add: remove_at_def)
  ultimately have "\<exists>node'. lp_clear_loop (lp_delete_at node 0) = Some node' \<and> lp_rep node' []" using Suc.hyps(1) by blast
  then show ?case using lp.size_rep [OF Suc.prems] Suc.hyps(2) by (cases es) (simp_all add: lp_clear_loop.simps [of node])
qed

lemma lp_push_rep: "lp_rep node es \<Longrightarrow> lp_ok (es @ zflat xs) \<Longrightarrow> lp_rep (lp_push_pairs node (map pair_of xs)) (es @ zflat xs)"
proof (induction xs arbitrary: node es)
  case (Cons e xs)
  let ?s = "le_bytes 8 (unat (score e))"
  have "lp_ok (es @ [member e])" "lp_ok ((es @ [member e]) @ [?s])" by (rule lp_ok_mono [OF Cons.prems(2)]; auto)+
  then have "lp_rep (lp_push_back (lp_push_back node (member e)) ?s) ((es @ [member e]) @ [?s])"
    using Cons.prems(1) by (intro lp.push_back_rep)
  then show ?case using Cons.IH Cons.prems(2) by fastforce
qed simp

lemma rewrite_rep:
  assumes "lp_rep node es" and "lp_small xs"
  shows "\<exists>node'. rewrite_lp_from_entries node (map pair_of xs) = Some node' \<and> lp_rep node' (zflat xs)"
  using lp_clear_rep [OF assms(1)] lp_push_rep [of _ "[]" xs] lp_small_ok [OF assms(2)]
  by (auto simp: rewrite_lp_from_entries_def)

lemma find_pair_of: "map_option fst (find (\<lambda>(_, existing). existing = m) (map pair_of xs)) = score_of xs m"
  by (induction xs) (auto simp: score_of_def)

lemma position_map: "position p (map f xs) = position (\<lambda>x. p (f x)) xs"
  by (induction xs) simp_all

lemma position_cong: "(\<And>x. x \<in> set xs \<Longrightarrow> p x = q x) \<Longrightarrow> position p xs = position q xs"
  by (induction xs) simp_all

lemma lp_score_rep:
  "lp_rep node (zflat xs) \<Longrightarrow> \<forall>x \<in> set xs. utf8_valid (member x) \<Longrightarrow> lp_zset_score D node m = score_of xs m"
  by (simp add: lp_zset_score_def lp_entries_rep find_pair_of)

lemma put_member_absent: "score_of xs m = None \<Longrightarrow> put_member s m xs = insort_key key_of \<lparr>score = s, member = m\<rparr> xs"
  by (simp add: put_member_def drop_member_absent)

lemma insert_at_map: "insert_at i (f x) (map f xs) = map f (insert_at i x xs)"
  by (simp add: insert_at_def take_map drop_map)

lemma compare_member_less:
  "number e \<Longrightarrow> \<not> is_nan s \<Longrightarrow> compare_score_member (score e) (member e) s m = Less \<longleftrightarrow> key_of e < key_of \<lparr>score = s, member = m\<rparr>"
  using compare_key_less [of e s m] by (simp add: compare_score_member_def compare_key_def key_of_def)

lemma lp_insert_rep:
  assumes rep: "lp_rep node (zflat xs)" and ok: "zset_ok xs" and m: "score_of xs m = None" "utf8_valid m" "\<not> is_nan s"
    and small: "lp_small (put_member s m xs)"
  shows "\<exists>node'. lp_zset_insert D node s m = Some (True, node') \<and> lp_rep node' (zflat (put_member s m xs))"
proof -
  let ?e = "\<lparr>score = s, member = m\<rparr>"
  have u: "\<forall>x \<in> set xs. utf8_valid (member x)" and n: "\<forall>x \<in> set xs. number x" using ok by (simp_all add: zset_ok_def)
  have "takeWhile (\<lambda>e. compare_score_member (score e) (member e) s m = Less) xs = takeWhile (\<lambda>e. key_of e < key_of ?e) xs"
    using n m(3) by (intro takeWhile_cong) (simp_all add: compare_member_less)
  then have "insert_at (partition_point (\<lambda>(s', m'). compare_score_member s' m' s m = Less) (map pair_of xs)) (s, utf8_lossy m) (map pair_of xs)
     = map pair_of (put_member s m xs)"
    using insert_at_map [of _ pair_of ?e xs] m
    by (simp add: partition_point_def takeWhile_map o_def put_member_absent insort_insert_at utf8_lossy_valid)
  then show ?thesis using rewrite_rep [OF rep small] m(1)
    by (auto simp: lp_zset_insert_def lp_score_rep [OF rep u] lp_entries_rep [OF rep u] Let_def)
qed

lemma remove_position_member:
  "distinct (map member xs) \<Longrightarrow> position (\<lambda>e. member e = m) xs = Some i \<Longrightarrow> remove_at i xs = drop_member m xs \<and> score_of xs m = Some (score (xs ! i))"
proof (induction xs arbitrary: i)
  case (Cons e xs)
  then show ?case
    using drop_member_ends(1) [of e xs]
    by (cases i) (auto simp: remove_at_def drop_member_def score_of_def split: if_splits)
qed simp

lemma lp_small_mono: "lp_small xs \<Longrightarrow> set ys \<subseteq> set xs \<Longrightarrow> length ys \<le> length xs \<Longrightarrow> lp_small ys"
  by (auto simp: lp_small_def)

lemma lp_small_drop: "lp_small xs \<Longrightarrow> lp_small (drop_member m xs)"
  by (rule lp_small_mono) (auto simp: drop_member_def)

lemma remove_at_map: "remove_at i (map f xs) = map f (remove_at i xs)"
  by (simp add: remove_at_def take_map drop_map)

lemma score_of_position: "position (\<lambda>e. member e = m) xs = None \<longleftrightarrow> score_of xs m = None"
  by (auto simp: position_None_iff score_of_None)

lemma lp_remove_rep:
  assumes rep: "lp_rep node (zflat xs)" and ok: "zset_ok xs" and small: "lp_small xs"
  shows "\<exists>node'. lp_zset_remove D node m = Some (score_of xs m, node') \<and> lp_rep node' (zflat (drop_member m xs))"
proof -
  have u: "\<forall>x \<in> set xs. utf8_valid (member x)" and d: "distinct (map member xs)" using ok by (simp_all add: zset_ok_def)
  have p: "position (\<lambda>(_, existing). existing = m) (map pair_of xs) = position (\<lambda>e. member e = m) xs" by (simp add: position_map)
  show ?thesis
  proof (cases "position (\<lambda>e. member e = m) xs")
    case None
    then show ?thesis using rep p score_of_position [of m xs]
      by (simp add: lp_zset_remove_def lp_entries_rep [OF rep u] drop_member_absent)
  next
    case (Some i)
    then show ?thesis
      using rewrite_rep [OF rep lp_small_drop [OF small], of m] p remove_position_member [OF d Some] position_less [OF Some]
      by (auto simp: lp_zset_remove_def lp_entries_rep [OF rep u] remove_at_map)
  qed
qed


section \<open>The sorted list a value holds\<close>

definition index_rep :: "'t zset_deps \<Rightarrow> 't \<Rightarrow> ZSetEntry list \<Rightarrow> bool" where
  "index_rep D member_index xs \<longleftrightarrow> ht_map (zd_index D) member_index = score_of xs"

definition enc_rep :: "'t zset_deps \<Rightarrow> 't ZSetEncoding \<Rightarrow> ZSetEntry list \<Rightarrow> bool" where
  "enc_rep D enc xs \<longleftrightarrow> (case enc of
      ZListpack node \<Rightarrow> lp_small xs \<and> lp_rep node (zflat xs)
    | ZTree tree member_index \<Rightarrow> tree_rep tree xs \<and> index_rep D member_index xs)"

definition zset_rep :: "'t zset_deps \<Rightarrow> 't ZSetObject \<Rightarrow> ZSetEntry list \<Rightarrow> bool" where
  "zset_rep D z xs \<longleftrightarrow> zset_ok xs \<and> zset_len z = length xs \<and> length xs < 2 ^ 32 \<and> enc_rep D (zset_inner z) xs"

abbreviation zset_laws :: "'t zset_deps \<Rightarrow> bool" where
  "zset_laws D \<equiv> table_laws (zd_index D)"

lemma zset_okD:
  "zset_ok xs \<Longrightarrow> strict xs" "zset_ok xs \<Longrightarrow> \<forall>x \<in> set xs. number x" "zset_ok xs \<Longrightarrow> distinct (map member xs)"
  "zset_ok xs \<Longrightarrow> \<forall>x \<in> set xs. utf8_valid (member x)"
  by (simp_all add: zset_ok_def)

lemma listpack_entries: "zset_rep D z xs \<Longrightarrow> zset_inner z = ZListpack node \<Longrightarrow> lp_zset_entries D node = map pair_of xs"
  by (rule lp_entries_rep) (simp_all add: zset_rep_def enc_rep_def zset_ok_def)

lemma zset_ok_drop: "zset_ok xs \<Longrightarrow> zset_ok (drop_member m xs)"
  by (auto simp: zset_ok_def distinct_drop_member sorted_wrt_filter drop_member_def intro: distinct_map_filter)

lemma zset_ok_sublist: "zset_ok (ys @ xs @ zs) \<Longrightarrow> zset_ok xs"
  by (auto simp: zset_ok_def sorted_wrt_append)

lemma put_member_perm: "set (put_member s m xs) = insert \<lparr>score = s, member = m\<rparr> (set (drop_member m xs))"
  "length (put_member s m xs) = Suc (length (drop_member m xs))"
  by (simp_all add: put_member_def set_insort_key)

lemma zset_ok_put:
  assumes ok: "zset_ok xs" and s: "\<not> is_nan s" and m: "utf8_valid m"
  shows "zset_ok (put_member s m xs)"
proof -
  let ?e = "\<lparr>score = s, member = m\<rparr>"
  have d: "zset_ok (drop_member m xs)" using ok by (rule zset_ok_drop)
  have "key_of ?e \<notin> key_of ` set (drop_member m xs)" by (auto simp: drop_member_def key_of_def)
  then have "strict (put_member s m xs)"
    using zset_okD(1) [OF d] by (auto simp: strict_iff put_member_def sorted_insort_key distinct_map distinct_insort set_insort_key)
  then show ?thesis
    using d s m distinct_put_member [OF zset_okD(3) [OF ok], of s m] by (auto simp: zset_ok_def put_member_perm)
qed

lemma length_drop_present:
  assumes "distinct (map member xs)" and "score_of xs m = Some s"
  shows "Suc (length (drop_member m xs)) = length xs"
proof -
  obtain i where i: "position (\<lambda>e. member e = m) xs = Some i" using assms(2) score_of_position [of m xs] by fastforce
  then have "length (drop_member m xs) = length xs - 1"
    using remove_position_member [OF assms(1) i] position_less [OF i] length_remove_at [of i xs] by metis
  then show ?thesis using position_less [OF i] by simp
qed

lemma index_rep_insert:
  assumes "zset_laws D" and "index_rep D t xs" and "distinct (map member xs)"
  shows "index_rep D (index_insert D t m s) (put_member s m xs)"
  using table_lawsD(3-5) [OF assms(1)] assms(2,3)
  by (auto simp: index_rep_def index_insert_def score_of_put domIff split: option.split)

lemma index_rep_remove:
  assumes "zset_laws D" and "index_rep D t xs"
  shows "index_rep D (ht_remove (zd_index D) t m) (drop_member m xs)"
  using table_lawsD(6) [OF assms(1)] assms(2) by (simp add: index_rep_def score_of_drop)

lemma index_rep_find: "zset_laws D \<Longrightarrow> index_rep D t xs \<Longrightarrow> ht_find (zd_index D) t m = score_of xs m"
  by (simp add: index_rep_def table_lawsD(3))

lemma score_of_utf8: "zset_ok xs \<Longrightarrow> score_of xs m = Some s \<Longrightarrow> utf8_valid m"
  using score_of_None [of xs m] by (auto simp: zset_ok_def)

lemma score_of_number: "zset_ok xs \<Longrightarrow> score_of xs m = Some s \<Longrightarrow> \<not> is_nan s"
  using score_of_iff [of xs m s] by (auto simp: zset_ok_def)

lemma score_rep:
  assumes "zset_laws D" and "zset_rep D z xs"
  shows "zset_score D z m = score_of xs m"
  using assms lp_score_rep [of _ xs D m] index_rep_find [of D _ xs m] score_of_utf8 [of xs m]
  by (cases "score_of xs m") (auto simp: zset_rep_def enc_rep_def zset_score_def zset_ok_def split: ZSetEncoding.splits)

subsection \<open>Insertion and removal\<close>

lemma tree_insert_rep:
  assumes "tree_rep t xs" and "\<not> is_nan s" and "utf8_valid m" and "Suc (length xs) < 2 ^ 64"
    and "case score_of xs m of None \<Rightarrow> True | Some old \<Rightarrow> \<not> f64_eq old s"
  shows "\<exists>r t'. bptree_insert t s m = Some (r, t') \<and> tree_rep t' (put_member s m xs)"
  using bptree_insert_rep [OF assms(1), of s m] assms(2-) by (auto split: option.splits)

lemma put_last:
  assumes "strict (ys @ [e])" and "distinct (map member (ys @ [e]))"
  shows "put_member (score e) (member e) ys = ys @ [e]"
proof -
  have "drop_member (member e) ys = ys" using assms(2) by (intro drop_member_absent) (simp add: score_of_None)
  moreover have "insort_key key_of e ys = ys @ [e]" using assms(1) insort_append_right by (induction ys) (auto simp: sorted_wrt_append)
  ultimately show ?thesis by (simp add: put_member_def)
qed

lemma upgrade_entries_rep:
  assumes laws: "zset_laws D"
  shows "tree_rep t ys \<Longrightarrow> index_rep D idx ys \<Longrightarrow> zset_ok (ys @ xs) \<Longrightarrow> length (ys @ xs) < 2 ^ 32 \<Longrightarrow>
     \<exists>t' idx'. upgrade_entries D t idx (map pair_of xs) = Some (t', idx') \<and> tree_rep t' (ys @ xs) \<and> index_rep D idx' (ys @ xs)"
proof (induction xs arbitrary: t idx ys)
  case (Cons e xs)
  have ok: "zset_ok (ys @ [e])" using Cons.prems(3) zset_ok_sublist [of "[]" "ys @ [e]" xs] by simp
  have put: "put_member (score e) (member e) ys = ys @ [e]" using ok by (intro put_last) (simp_all add: zset_ok_def)
  have none: "score_of ys (member e) = None" using ok by (auto simp: score_of_None zset_ok_def)
  obtain r t' where t': "bptree_insert t (score e) (member e) = Some (r, t')" "tree_rep t' (ys @ [e])"
    using tree_insert_rep [OF Cons.prems(1), of "score e" "member e"] Cons.prems(3,4) none put by (auto simp: zset_ok_def)
  have "index_rep D (index_insert D idx (member e) (score e)) (ys @ [e])"
    using index_rep_insert [OF laws Cons.prems(2)] put ok by (metis zset_okD(3) zset_ok_sublist append_Nil)
  from Cons.IH [OF t'(2) this] Cons.prems(3,4) show ?case by (simp add: t'(1))
qed simp

lemma upgrade_rep:
  assumes laws: "zset_laws D" and rep: "zset_rep D z xs"
  shows "\<exists>z'. upgrade_listpack_to_bptree D z = Some z' \<and> zset_rep D z' xs \<and> (\<exists>t idx. zset_inner z' = ZTree t idx)"
proof (cases "zset_inner z")
  case (ZListpack node)
  have "index_rep D (ht_new (zd_index D)) []" using table_lawsD(1) [OF laws] by (auto simp: index_rep_def score_of_def)
  from upgrade_entries_rep [OF laws tree_rep_empty(1) this, of xs] ZListpack rep show ?thesis
    by (auto simp: upgrade_listpack_to_bptree_def zset_rep_def enc_rep_def bump_generation_def lp_entries_rep zset_okD)
qed (use rep in \<open>simp add: upgrade_listpack_to_bptree_def\<close>)

definition fits :: "'t ZSetEncoding \<Rightarrow> ZSetEntry list \<Rightarrow> bool" where
  "fits enc xs \<longleftrightarrow> (case enc of ZListpack _ \<Rightarrow> lp_small xs | ZTree _ _ \<Rightarrow> True)"

lemma ensure_rep:
  assumes laws: "zset_laws D" and rep: "zset_rep D z xs" and m: "score_of xs m = None"
  shows "\<exists>z'. zset_ensure_encoding D z m = Some z' \<and> zset_rep D z' xs \<and> fits (zset_inner z') (put_member s m xs)"
proof (cases "zset_inner z")
  case (ZListpack node)
  have sc: "lp_zset_score D node m = None" using score_rep [OF laws rep, of m] m ZListpack by (simp add: zset_score_def)
  have small: "lp_small xs" using rep ZListpack by (simp add: zset_rep_def enc_rep_def)
  show ?thesis
  proof (cases "ZSET_LISTPACK_MAX_ENTRIES < zset_len z + 1 \<or> ZSET_LISTPACK_MAX_MEMBER_SIZE < length m")
    case True
    then show ?thesis using upgrade_rep [OF laws rep] ZListpack sc by (auto simp: zset_ensure_encoding_def fits_def)
  next
    case False
    then have "lp_small (put_member s m xs)"
      using small rep by (auto simp: lp_small_def put_member_perm drop_member_absent [OF m] zset_rep_def)
    then show ?thesis using False rep ZListpack sc by (simp add: zset_ensure_encoding_def fits_def)
  qed
qed (use rep in \<open>simp add: zset_ensure_encoding_def fits_def\<close>)

lemma insert_enc_rep:
  assumes laws: "zset_laws D" and rep: "zset_rep D z xs" and m: "score_of xs m = None" "utf8_valid m" "\<not> is_nan s"
    and fit: "fits (zset_inner z) (put_member s m xs)"
  shows "\<exists>enc. zset_insert D (zset_inner z) s m = Some enc \<and> enc_rep D enc (put_member s m xs)"
proof (cases "zset_inner z")
  case (ZListpack node)
  then show ?thesis using rep fit lp_insert_rep [of node xs m s D] m by (auto simp: zset_rep_def enc_rep_def fits_def zset_insert_def)
next
  case (ZTree t idx)
  have t: "tree_rep t xs" "index_rep D idx xs" using rep ZTree by (simp_all add: zset_rep_def enc_rep_def)
  then show ?thesis using ZTree rep m tree_insert_rep [of t xs s m] index_rep_insert [OF laws t(2)]
    by (auto simp: zset_rep_def enc_rep_def zset_insert_def zset_okD(3))
qed

lemma update_enc_rep:
  assumes laws: "zset_laws D" and rep: "zset_rep D z xs" and m: "score_of xs m = Some old" "\<not> f64_eq old s" "\<not> is_nan s"
  shows "\<exists>enc. zset_update D (zset_inner z) s m = Some enc \<and> enc_rep D enc (put_member s m xs)"
proof -
  have ok: "zset_ok xs" using rep by (simp add: zset_rep_def)
  have u: "utf8_valid m" using score_of_utf8 [OF ok m(1)] .
  have len: "length (put_member s m xs) = length xs" using length_drop_present [OF zset_okD(3) [OF ok] m(1)] by (simp add: put_member_perm)
  show ?thesis
  proof (cases "zset_inner z")
    case (ZListpack node)
    then have lp: "lp_rep node (zflat xs)" "lp_small xs" using rep by (simp_all add: zset_rep_def enc_rep_def)
    obtain node1 where n1: "lp_zset_remove D node m = Some (Some old, node1)" "lp_rep node1 (zflat (drop_member m xs))"
      using lp_remove_rep [OF lp(1) ok lp(2), of D m] m(1) by auto
    have put: "put_member s m (drop_member m xs) = put_member s m xs" by (simp add: put_member_def drop_member_def)
    have "m \<in> member ` set xs" using m(1) score_of_None [of xs m] by auto
    then have small: "lp_small (put_member s m xs)" using lp(2) len by (auto simp: lp_small_def put_member_perm drop_member_def)
    obtain node2 where "lp_zset_insert D node1 s m = Some (True, node2)" "lp_rep node2 (zflat (put_member s m xs))"
      using lp_insert_rep [OF n1(2) zset_ok_drop [OF ok], of m s D] m(3) u small by (auto simp: put score_of_drop)
    then show ?thesis using ZListpack n1(1) small by (simp add: zset_update_def enc_rep_def)
  next
    case (ZTree t idx)
    then have t: "tree_rep t xs" "index_rep D idx xs" using rep by (simp_all add: zset_rep_def enc_rep_def)
    then show ?thesis using ZTree rep m u tree_insert_rep [of t xs s m] index_rep_insert [OF laws t(2)]
      by (auto simp: zset_rep_def enc_rep_def zset_update_def zset_okD(3))
  qed
qed


section \<open>The specification\<close>

text \<open>A sorted set is the list of its entries in order of score and member.\<close>

type_synonym limit = "(int \<times> int) option"

datatype zset_op = ZAdd f64 bytes ZAddOptions | ZRem bytes | ZScore bytes | ZRank bytes bool
  | ZRangeRank int int bool limit | ZRangeScore ScoreBound ScoreBound bool limit | ZRangeLex LexBound LexBound bool limit
  | ZCountScore ScoreBound ScoreBound | ZCountLex LexBound LexBound | ZPopMin nat | ZPopMax nat | ZCard

datatype zset_out = RAdd ZAddResult | RScore "f64 option" | RRank "64 word option" | REntries "(f64 \<times> bytes) list" | RCount nat

fun zset_step :: "'t zset_deps \<Rightarrow> 't ZSetObject \<Rightarrow> zset_op \<Rightarrow> (zset_out \<times> 't ZSetObject) option" where
  "zset_step D z (ZAdd s m opts) = map_option (apfst RAdd) (zset_add D z s m opts)"
| "zset_step D z (ZRem m) = map_option (apfst RScore) (zset_remove D z m)"
| "zset_step D z (ZScore m) = Some (RScore (zset_score D z m), z)"
| "zset_step D z (ZRank m reverse) = map_option (\<lambda>r. (RRank r, z)) (zset_rank D z m reverse)"
| "zset_step D z (ZRangeRank a b reverse lim) = map_option (\<lambda>es. (REntries es, z)) (zset_range_by_rank D z a b reverse lim)"
| "zset_step D z (ZRangeScore mn mx reverse lim) = map_option (\<lambda>es. (REntries es, z)) (zset_range_by_score D z mn mx reverse lim)"
| "zset_step D z (ZRangeLex mn mx reverse lim) = map_option (\<lambda>es. (REntries es, z)) (zset_range_by_lex D z mn mx reverse lim)"
| "zset_step D z (ZCountScore mn mx) = map_option (\<lambda>n. (RCount (unat n), z)) (count_by_score D z mn mx)"
| "zset_step D z (ZCountLex mn mx) = map_option (\<lambda>n. (RCount (unat n), z)) (count_by_lex D z mn mx)"
| "zset_step D z (ZPopMin n) = map_option (apfst REntries) (zset_pop_min D z n)"
| "zset_step D z (ZPopMax n) = map_option (apfst REntries) (zset_pop_max D z n)"
| "zset_step D z ZCard = Some (RCount (zset_len z), z)"

text \<open>The score an addition asks for, and whether the options let it be written.\<close>

definition add_target :: "ZSetEntry list \<Rightarrow> f64 \<Rightarrow> bytes \<Rightarrow> ZAddOptions \<Rightarrow> f64" where
  "add_target xs s m opts =
     (if opt_incr opts then f64_add (case score_of xs m of Some old \<Rightarrow> old | None \<Rightarrow> f64_zero) s else s)"

definition add_writes :: "ZSetEntry list \<Rightarrow> f64 \<Rightarrow> bytes \<Rightarrow> ZAddOptions \<Rightarrow> bool" where
  "add_writes xs target m opts = (case score_of xs m of
      None \<Rightarrow> opt_condition opts \<noteq> XX
    | Some old \<Rightarrow> opt_condition opts \<noteq> NX \<and> \<not> f64_eq old target \<and>
        (opt_gt opts \<longrightarrow> f64_lt old target) \<and> (opt_lt opts \<longrightarrow> f64_lt target old))"

definition add_spec :: "ZSetEntry list \<Rightarrow> f64 \<Rightarrow> bytes \<Rightarrow> ZAddOptions \<Rightarrow> ZAddResult \<times> ZSetEntry list" where
  "add_spec xs s m opts =
     (let fresh = (score_of xs m = None); target = add_target xs s m opts; writes = add_writes xs target m opts;
          xs' = (if writes then put_member target m xs else xs)
      in (\<lparr>added = of_bool (writes \<and> fresh), changed = of_bool (writes \<and> (fresh \<or> opt_ch opts)),
           new_score = (if opt_incr opts \<or> (opt_condition opts = NX \<and> \<not> fresh) then score_of xs' m else None)\<rparr>, xs'))"

definition member_rank :: "ZSetEntry list \<Rightarrow> bytes \<Rightarrow> nat option" where
  "member_rank xs m = position (\<lambda>e. member e = m) xs"

definition directed :: "bool \<Rightarrow> 'a list \<Rightarrow> 'a list" where
  "directed reverse xs = (if reverse then rev xs else xs)"

text \<open>The elements from one index to another, both included, negative indices counting from the end.\<close>

definition rank_slice :: "'a list \<Rightarrow> int \<Rightarrow> int \<Rightarrow> 'a list" where
  "rank_slice xs start stop =
     (let pos = (\<lambda>i. if i < 0 then int (length xs) + i else i)
      in drop (nat (pos start)) (take (nat (pos stop + 1)) xs))"

definition same_scores :: "ZSetEntry list \<Rightarrow> bool" where
  "same_scores xs \<longleftrightarrow> (\<forall>x \<in> set xs. \<forall>y \<in> set xs. f64_eq (score x) (score y))"

definition by_score :: "ScoreBound \<Rightarrow> ScoreBound \<Rightarrow> ZSetEntry list \<Rightarrow> ZSetEntry list" where
  "by_score mn mx xs = filter (\<lambda>e. score_in_range (score e) mn mx) xs"

definition by_lex :: "LexBound \<Rightarrow> LexBound \<Rightarrow> ZSetEntry list \<Rightarrow> ZSetEntry list" where
  "by_lex mn mx xs = (if same_scores xs then filter (\<lambda>e. lex_contains (member e) mn mx) xs else [])"

fun zset_spec_step :: "ZSetEntry list \<Rightarrow> zset_op \<Rightarrow> zset_out \<times> ZSetEntry list" where
  "zset_spec_step xs (ZAdd s m opts) = apfst RAdd (add_spec xs s m opts)"
| "zset_spec_step xs (ZRem m) = (RScore (score_of xs m), drop_member m xs)"
| "zset_spec_step xs (ZScore m) = (RScore (score_of xs m), xs)"
| "zset_spec_step xs (ZRank m reverse) =
     (RRank (map_option (\<lambda>r. of_nat (if reverse then length xs - 1 - r else r)) (member_rank xs m)), xs)"
| "zset_spec_step xs (ZRangeRank a b reverse lim) = (REntries (apply_limit (map pair_of (rank_slice (directed reverse xs) a b)) lim), xs)"
| "zset_spec_step xs (ZRangeScore mn mx reverse lim) = (REntries (apply_limit (map pair_of (directed reverse (by_score mn mx xs))) lim), xs)"
| "zset_spec_step xs (ZRangeLex mn mx reverse lim) = (REntries (apply_limit (map pair_of (directed reverse (by_lex mn mx xs))) lim), xs)"
| "zset_spec_step xs (ZCountScore mn mx) = (RCount (length (by_score mn mx xs)), xs)"
| "zset_spec_step xs (ZCountLex mn mx) = (RCount (length (by_lex mn mx xs)), xs)"
| "zset_spec_step xs (ZPopMin n) = (REntries (map pair_of (take n xs)), drop n xs)"
| "zset_spec_step xs (ZPopMax n) = (REntries (map pair_of (take n (rev xs))), take (length xs - n) xs)"
| "zset_spec_step xs ZCard = (RCount (length xs), xs)"

definition bound_number :: "ScoreBound \<Rightarrow> bool" where
  "bound_number b \<longleftrightarrow> (case b of Inclusive v \<Rightarrow> \<not> is_nan v | Exclusive v \<Rightarrow> \<not> is_nan v | _ \<Rightarrow> True)"

text \<open>Members are strings, no score is NaN, not even as the sum of an increment, and there are fewer than \<open>2 ^ 32\<close> members.\<close>

fun zset_op_ok :: "ZSetEntry list \<Rightarrow> zset_op \<Rightarrow> bool" where
  "zset_op_ok xs (ZAdd s m opts) \<longleftrightarrow>
     utf8_valid m \<and> \<not> is_nan s \<and> \<not> is_nan (add_target xs s m opts) \<and> Suc (length xs) < 2 ^ 32"
| "zset_op_ok xs (ZRangeScore mn mx _ _) \<longleftrightarrow> bound_number mn \<and> bound_number mx"
| "zset_op_ok xs (ZCountScore mn mx) \<longleftrightarrow> bound_number mn \<and> bound_number mx"
| "zset_op_ok xs op \<longleftrightarrow> True"

subsection \<open>Each operation\<close>

lemma rep_update:
  "zset_ok xs \<Longrightarrow> length xs < 2 ^ 32 \<Longrightarrow> enc_rep D enc xs \<Longrightarrow>
     zset_rep D (z\<lparr>zset_inner := enc, zset_len := length xs\<rparr>) xs"
  by (simp add: zset_rep_def)

lemma bump_fields [simp]: "zset_inner (bump_generation z) = zset_inner z" "zset_len (bump_generation z) = zset_len z"
  by (simp_all add: bump_generation_def)

lemma rep_bump [simp]: "zset_rep D (bump_generation z) xs = zset_rep D z xs"
  by (simp add: zset_rep_def bump_generation_def)

lemma not_le_lt: "\<not> is_nan a \<Longrightarrow> \<not> is_nan b \<Longrightarrow> \<not> f64_le a b \<longleftrightarrow> f64_lt b a"
  by (auto simp: f64_compare_defs)

text \<open>\<open>add\<close> with the score of the member and the requested score at hand.\<close>

lemma add_fresh:
  assumes "zset_score D z m = None" and "\<not> is_nan s" and "opt_condition opts \<noteq> XX"
    and "(if opt_incr opts then f64_add f64_zero s else s) = target"
  shows "zset_add D z s m opts = do {
     z \<leftarrow> zset_ensure_encoding D z m;
     enc \<leftarrow> zset_insert D (zset_inner z) target m;
     Some (\<lparr>added = 1, changed = 1, new_score = (if opt_incr opts then Some target else None)\<rparr>,
           bump_generation (z\<lparr>zset_inner := enc, zset_len := sat_add32 (zset_len z) 1\<rparr>))
   }"
  unfolding zset_add_def Let_def assms(1) option.case assms(4) using assms(2,3) by simp

lemma add_present:
  assumes "zset_score D z m = Some old" and "\<not> is_nan s" and "opt_condition opts \<noteq> NX"
    and "(if opt_incr opts then f64_add old s else s) = target" and "\<not> is_nan old" and "\<not> is_nan target"
  shows "zset_add D z s m opts =
     (if (opt_gt opts \<longrightarrow> f64_lt old target) \<and> (opt_lt opts \<longrightarrow> f64_lt target old) \<and> \<not> f64_eq old target
      then do {
        enc \<leftarrow> zset_update D (zset_inner z) target m;
        Some (\<lparr>added = 0, changed = of_bool (opt_ch opts), new_score = (if opt_incr opts then Some target else None)\<rparr>,
              bump_generation (z\<lparr>zset_inner := enc\<rparr>))
      }
      else Some (\<lparr>added = 0, changed = 0, new_score = (if opt_incr opts then Some old else None)\<rparr>, z))"
  unfolding zset_add_def Let_def assms(1) option.case assms(4) not_le_lt [OF assms(5,6), symmetric] not_le_lt [OF assms(6,5), symmetric]
  using assms(2,3) by simp

lemma add_skips:
  assumes "zset_score D z m = sc" and "\<not> is_nan s"
    and "opt_condition opts = NX \<and> sc \<noteq> None \<or> opt_condition opts = XX \<and> sc = None"
  shows "zset_add D z s m opts = Some (\<lparr>added = 0, changed = 0, new_score = sc\<rparr>, z)"
  using assms by (auto simp: zset_add_def)

lemma add_rep:
  assumes laws: "zset_laws D" and rep: "zset_rep D z xs" and ok: "zset_op_ok xs (ZAdd s m opts)"
  shows "\<exists>z'. zset_add D z s m opts = Some (fst (add_spec xs s m opts), z') \<and> zset_rep D z' (snd (add_spec xs s m opts))"
proof -
  define target where "target = add_target xs s m opts"
  have xs: "zset_ok xs" "zset_len z = length xs" "length xs < 2 ^ 32" using rep by (simp_all add: zset_rep_def)
  have nn: "utf8_valid m" "\<not> is_nan s" "\<not> is_nan target" "Suc (length xs) < 2 ^ 32" using ok by (simp_all add: target_def)
  have put: "zset_ok (put_member target m xs)" using xs(1) nn by (intro zset_ok_put)
  note sc = score_rep [OF laws rep, of m]
  note spec = add_spec_def Let_def target_def [symmetric] add_writes_def score_of_put [OF zset_okD(3) [OF xs(1)]]
  consider "opt_condition opts = NX \<and> score_of xs m \<noteq> None \<or> opt_condition opts = XX \<and> score_of xs m = None"
    | "score_of xs m = None" "opt_condition opts \<noteq> XX" | old where "score_of xs m = Some old" "opt_condition opts \<noteq> NX"
    by (cases "score_of xs m") auto
  then show ?thesis
  proof cases
    case 1
    then show ?thesis using add_skips [OF sc nn(2) 1] rep by (auto simp: spec)
  next
    case 2
    have len: "length (put_member target m xs) = Suc (length xs)" by (simp add: put_member_perm drop_member_absent [OF 2(1)])
    obtain z1 where z1: "zset_ensure_encoding D z m = Some z1" "zset_rep D z1 xs" "fits (zset_inner z1) (put_member target m xs)"
      using ensure_rep [OF laws rep 2(1)] by blast
    obtain enc where enc: "zset_insert D (zset_inner z1) target m = Some enc" "enc_rep D enc (put_member target m xs)"
      using insert_enc_rep [OF laws z1(2) 2(1) nn(1,3) z1(3)] by blast
    have "sat_add32 (zset_len z1) 1 = length (put_member target m xs)"
      using z1(2) nn(4) len by (simp add: zset_rep_def sat_add32_def)
    moreover have "(if opt_incr opts then f64_add f64_zero s else s) = target" by (simp add: target_def add_target_def 2(1))
    ultimately show ?thesis
      using add_fresh [OF sc [unfolded 2(1)] nn(2) 2(2)] z1(1) enc(1) rep_update [OF put _ enc(2), of z1] nn(4) len 2 by (simp add: spec)
  next
    case 3
    have len: "length (put_member target m xs) = length xs"
      using length_drop_present [OF zset_okD(3) [OF xs(1)] 3(1)] by (simp add: put_member_perm)
    have "(if opt_incr opts then f64_add old s else s) = target" by (simp add: target_def add_target_def 3(1))
    note add = add_present [OF sc [unfolded 3(1)] nn(2) 3(2) this score_of_number [OF xs(1) 3(1)] nn(3)]
    show ?thesis
    proof (cases "add_writes xs target m opts")
      case True
      then obtain enc where "zset_update D (zset_inner z) target m = Some enc" "enc_rep D enc (put_member target m xs)"
        using update_enc_rep [OF laws rep 3(1) _ nn(3)] 3(1) by (auto simp: add_writes_def)
      then show ?thesis using True add 3 put xs len by (auto simp: spec zset_rep_def)
    next
      case False
      then show ?thesis using add 3 rep by (auto simp: spec)
    qed
  qed
qed


lemma remove_rep:
  assumes laws: "zset_laws D" and rep: "zset_rep D z xs"
  shows "\<exists>z'. zset_remove D z m = Some (score_of xs m, z') \<and> zset_rep D z' (drop_member m xs)"
proof -
  have ok: "zset_ok xs" "zset_len z = length xs" "length xs < 2 ^ 32" using rep by (simp_all add: zset_rep_def)
  obtain enc where enc: "(case zset_inner z of
         ZListpack node \<Rightarrow> map_option (apsnd ZListpack) (lp_zset_remove D node m)
       | ZTree tree member_index \<Rightarrow>
           if \<not> utf8_valid m then Some (None, zset_inner z)
           else do {
             (removed, tree) \<leftarrow> bptree_remove tree m;
             Some (removed, ZTree tree (if removed \<noteq> None then ht_remove (zd_index D) member_index m else member_index))
           }) = Some (score_of xs m, enc)" and "enc_rep D enc (drop_member m xs)"
  proof (cases "zset_inner z")
    case (ZListpack node)
    then show ?thesis using that rep lp_remove_rep [of node xs D m] lp_small_drop [of xs m] by (auto simp: zset_rep_def enc_rep_def)
  next
    case (ZTree t idx)
    then have t: "tree_rep t xs" "index_rep D idx xs" using rep by (simp_all add: zset_rep_def enc_rep_def)
    have none: "score_of xs m = None" if "\<not> utf8_valid m" using that score_of_utf8 [OF ok(1), of m] by (cases "score_of xs m") auto
    show ?thesis
      using that ZTree bptree_remove_rep [OF t(1), of m] index_rep_remove [OF laws t(2), of m] none rep t drop_member_absent [of xs m]
      by (cases "utf8_valid m"; cases "score_of xs m") (auto simp: enc_rep_def)
  qed
  then show ?thesis
    using ok zset_ok_drop [OF ok(1), of m] length_drop_present [OF zset_okD(3) [OF ok(1)], of m] drop_member_absent [of xs m]
    by (cases "score_of xs m") (auto simp: zset_remove_def zset_rep_def)
qed

lemma member_rank_key:
  assumes ok: "zset_ok xs" and m: "score_of xs m = Some s"
  shows "rank_in xs s m = member_rank xs m"
  unfolding rank_in_def member_rank_def
proof (rule position_cong)
  fix e assume "e \<in> set xs"
  then have "score_of xs (member e) = Some (score e)" using score_of_iff [OF zset_okD(3) [OF ok], of "member e" "score e"] by simp
  then show "(key_of e = (f64_rank s, m)) = (member e = m)" using m by (auto simp: key_of_def)
qed

lemma rank_rep:
  assumes laws: "zset_laws D" and rep: "zset_rep D z xs"
  shows "zset_rank D z m reverse = Some (map_option (\<lambda>r. of_nat (if reverse then length xs - 1 - r else r)) (member_rank xs m))"
proof (cases "zset_inner z")
  case (ZListpack node)
  have r: "r < length xs" if "member_rank xs m = Some r" for r using that by (simp add: member_rank_def position_less)
  have "lp_zset_rank D node m = map_option of_nat (member_rank xs m)"
    using rep ZListpack lp_entries_rep [of node xs D]
    by (auto simp: lp_zset_rank_def zset_rep_def enc_rep_def zset_okD(4) position_map member_rank_def)
  then show ?thesis using ZListpack rep r
    by (cases "member_rank xs m") (auto simp: zset_rank_def zset_rep_def of_nat_diff)
next
  case (ZTree t idx)
  then have t: "tree_rep t xs" "index_rep D idx xs" and ok: "zset_ok xs" using rep by (simp_all add: zset_rep_def enc_rep_def)
  show ?thesis
  proof (cases "score_of xs m")
    case None
    then have "member_rank xs m = None" using score_of_position [of m xs] by (simp add: member_rank_def)
    then show ?thesis using ZTree index_rep_find [OF laws t(2), of m] None by (simp add: zset_rank_def)
  next
    case (Some s)
    have nn: "\<not> is_nan s" and u: "utf8_valid m" using score_of_number [OF ok Some] score_of_utf8 [OF ok Some] by simp_all
    show ?thesis
      using ZTree index_rep_find [OF laws t(2), of m] Some u rank_of_rep [OF t(1) nn, of m] rank_of_rev_rep [OF t(1) nn, of m]
      by (simp add: zset_rank_def member_rank_key [OF ok Some])
  qed
qed

subsection \<open>Ranges\<close>

lemma rev_slice: "a \<le> b \<Longrightarrow> b < length xs \<Longrightarrow>
    rev (take (Suc b - a) (drop a xs)) = take (Suc b - a) (drop (length xs - 1 - b) (rev xs))"
proof -
  assume a: "a \<le> b" and b: "b < length xs"
  have "rev (take (Suc b - a) (drop a xs)) = rev (drop a (take (Suc b) xs))" using a by (simp add: drop_take)
  also have "\<dots> = take (Suc b - a) (drop (length xs - Suc b) (rev xs))" using b by (simp add: rev_drop rev_take min_absorb1)
  finally show ?thesis by simp
qed

lemma slice_clamp:
  fixes p q :: int and xs :: "'a list"
  defines "n \<equiv> int (length xs)"
  shows "drop (nat p) (take (nat (q + 1)) xs) =
    (if q < 0 \<or> n \<le> max p 0 \<or> min q (n - 1) < max p 0 then []
     else take (Suc (nat (min q (n - 1))) - nat (max p 0)) (drop (nat (max p 0)) xs))"
proof -
  have p: "nat p = nat (max p 0)" by simp
  show ?thesis
  proof (cases "q < n")
    case True
    then show ?thesis unfolding p n_def by (auto simp: drop_take min_def max_def nat_add_distrib split: if_splits)
  next
    case False
    then have "take (nat (q + 1)) xs = xs" and "take (Suc (nat (n - 1)) - nat (max p 0)) (drop (nat (max p 0)) xs) = drop (nat (max p 0)) xs"
      by (auto simp: n_def)
    then show ?thesis unfolding p using False by (auto simp: min_def max_def n_def split: if_splits)
  qed
qed

lemma rank_slice_forward:
  "rank_slice xs start stop = (case normalize_rank_bounds (length xs) start stop False of
     None \<Rightarrow> [] | Some (a, b) \<Rightarrow> take (Suc b - a) (drop a xs))"
  unfolding rank_slice_def Let_def slice_clamp normalize_rank_bounds_def by (cases xs) simp_all

lemma normalize_bounds: "normalize_rank_bounds n start stop reverse = Some (a, b) \<Longrightarrow> a \<le> b \<and> b < n"
  by (auto simp: normalize_rank_bounds_def Let_def max_def min_def split: if_splits)

lemma normalize_reverse: "normalize_rank_bounds n start stop True =
    map_option (\<lambda>(a, b). (n - 1 - b, n - 1 - a)) (normalize_rank_bounds n start stop False)"
  by (auto simp: normalize_rank_bounds_def Let_def max_def min_def nat_diff_distrib split: if_splits)

lemma rank_slice_normalize:
  "rank_slice (directed reverse xs) start stop = (case normalize_rank_bounds (length xs) start stop reverse of
     None \<Rightarrow> [] | Some (a, b) \<Rightarrow> directed reverse (take (Suc b - a) (drop a xs)))"
proof (cases reverse)
  case True
  have "rev (take (Suc (b - a)) (drop (length xs - Suc b) xs)) = take (Suc (b - a)) (drop a (rev xs))"
    if "a \<le> b" "b < length xs" for a b
    using that rev_slice [of "length xs - Suc b" "length xs - Suc a" xs] by (simp add: Suc_diff_le)
  then show ?thesis using True rank_slice_forward [of "rev xs" start stop] normalize_bounds [of "length xs" start stop False]
    by (auto simp: directed_def normalize_reverse Suc_diff_le split: option.split)
next
  case False
  then show ?thesis using rank_slice_forward [of xs start stop] by (simp add: directed_def split: option.split)
qed


lemma apply_limit_map: "apply_limit (map f xs) lim = map f (apply_limit xs lim)"
  by (simp add: apply_limit_def take_map drop_map split: option.split)

lemma directed_map: "directed reverse (map f xs) = map f (directed reverse xs)"
  by (simp add: directed_def rev_map)

lemma range_by_rank_rep:
  assumes rep: "zset_rep D z xs"
  shows "zset_range_by_rank D z start stop reverse lim = Some (apply_limit (map pair_of (rank_slice (directed reverse xs) start stop)) lim)"
proof (cases "normalize_rank_bounds (length xs) start stop reverse")
  case None
  then show ?thesis using rep by (simp add: zset_range_by_rank_def zset_rep_def rank_slice_normalize apply_limit_def split: option.split)
next
  case (Some ab)
  obtain a b where ab: "ab = (a, b)" by fastforce
  have le: "a \<le> b" "b < length xs" using normalize_bounds Some ab by blast+
  have len: "zset_len z = length xs" "length xs < 2 ^ 32" using rep by (simp_all add: zset_rep_def)
  have "(case zset_inner z of
            ZListpack node \<Rightarrow> Some (lp_zset_range_by_rank D node a b)
          | ZTree tree _ \<Rightarrow> collected tree (bptree_range_by_rank tree (of_nat a) (of_nat b)))
     = Some (map pair_of (take (Suc b - a) (drop a xs)))"
  proof (cases "zset_inner z")
    case (ZListpack node)
    then have "lp_zset_entries D node = map pair_of xs" by (rule listpack_entries [OF rep])
    then show ?thesis using ZListpack le by (auto simp: lp_zset_range_by_rank_def Let_def take_map drop_map min_absorb1)
  next
    case (ZTree t idx)
    then have t: "tree_shape t xs" using rep by (simp add: zset_rep_def enc_rep_def tree_rep_def)
    have "unat (of_nat a :: 64 word) = a" "unat (of_nat b :: 64 word) = b" using le len(2) by (simp_all add: unat_of_nat64)
    then show ?thesis using ZTree range_by_rank_spec [OF t] len(2) by simp
  qed
  then show ?thesis using Some ab len
    unfolding rank_slice_normalize by (simp add: zset_range_by_rank_def directed_def rev_map)
qed

lemma score_bounds_agree:
  assumes "\<not> is_nan s" and "bound_number mn" and "bound_number mx"
  shows "score_in_range s mn mx \<longleftrightarrow> \<not> score_lower_predicate s mn \<and> score_within_upper_bound s mx"
  using assms by (cases mn; cases mx) (auto simp: score_in_range_def score_lower_predicate_def score_within_upper_bound_def bound_number_def
      scores_equal_def f64_compare_defs)

lemma range_by_score_rep:
  assumes rep: "zset_rep D z xs" and b: "bound_number mn" "bound_number mx"
  shows "zset_range_by_score D z mn mx reverse lim = Some (apply_limit (map pair_of (directed reverse (by_score mn mx xs))) lim)"
proof -
  have "(case zset_inner z of ZListpack node \<Rightarrow> Some (lp_zset_range_by_score D node mn mx)
       | ZTree tree _ \<Rightarrow> collected tree (bptree_range_by_score tree mn mx)) = Some (map pair_of (by_score mn mx xs))"
  proof (cases "zset_inner z")
    case (ZListpack node)
    then have "lp_zset_entries D node = map pair_of xs" by (rule listpack_entries [OF rep])
    then show ?thesis using ZListpack by (simp add: lp_zset_range_by_score_def by_score_def filter_map o_def)
  next
    case (ZTree t idx)
    then have t: "tree_shape t xs" using rep by (simp add: zset_rep_def enc_rep_def tree_rep_def)
    have n: "\<forall>x \<in> set xs. number x" using rep zset_okD(2) by (auto simp: zset_rep_def)
    have "filter (\<lambda>e. \<not> score_lower_predicate (score e) mn \<and> score_within_upper_bound (score e) mx) xs = by_score mn mx xs"
      unfolding by_score_def using n by (intro filter_cong) (simp_all add: score_bounds_agree b)
    then show ?thesis using ZTree range_by_score_spec [OF t] by simp
  qed
  then show ?thesis unfolding directed_map [symmetric] by (simp add: zset_range_by_score_def directed_def)
qed

lemma all_entries_rep:
  assumes rep: "zset_rep D z xs"
  shows "all_entries D z = Some (map pair_of xs)"
proof (cases "zset_inner z")
  case (ZListpack node)
  then show ?thesis by (simp add: all_entries_def listpack_entries [OF rep])
next
  case (ZTree t idx)
  then have t: "tree_shape t xs" "length xs < 2 ^ 32" using rep by (simp_all add: zset_rep_def enc_rep_def tree_rep_def)
  then have len: "tree_len t = of_nat (length xs)" by (simp add: tree_shape_def)
  show ?thesis
  proof (cases xs)
    case Nil
    then show ?thesis using ZTree len by (simp add: all_entries_def bptree_is_empty_def)
  next
    case (Cons e ys)
    have u: "unat (of_nat (length xs) - 1 :: 64 word) = length xs - 1"
      using t(2) Cons unat_of_nat64 [of "length xs - 1"] by (simp add: of_nat_diff)
    have "(of_nat (length xs) :: 64 word) \<noteq> 0" using unat_of_nat64 [of "length xs"] t(2) Cons by auto
    then show ?thesis
      using ZTree range_by_rank_spec [OF t(1), of 0 "tree_len t - 1"] t(2) u Cons by (simp add: all_entries_def bptree_is_empty_def len)
  qed
qed

lemma all_scores_equal_rep:
  assumes rep: "zset_rep D z xs"
  shows "all_scores_equal D z = Some (same_scores xs)"
proof -
  have "\<forall>x \<in> set xs. number x" using rep zset_okD(2) by (auto simp: zset_rep_def)
  then show ?thesis
    by (cases xs) (auto simp: all_scores_equal_def all_entries_rep [OF rep] same_scores_def list_all_iff f64_compare_defs)
qed

lemma range_by_lex_rep:
  assumes rep: "zset_rep D z xs"
  shows "zset_range_by_lex D z mn mx reverse lim = Some (apply_limit (map pair_of (directed reverse (by_lex mn mx xs))) lim)"
proof -
  have f: "filter (\<lambda>(_, m). lex_contains m mn mx) (map pair_of xs) = map pair_of (filter (\<lambda>e. lex_contains (member e) mn mx) xs)"
    by (simp add: filter_map o_def)
  show ?thesis
    unfolding zset_range_by_lex_def all_scores_equal_rep [OF rep] all_entries_rep [OF rep] by_lex_def directed_map [symmetric]
    using f by (auto simp: directed_def apply_limit_def Let_def split: option.split)
qed

lemma count_rep:
  assumes rep: "zset_rep D z xs"
  shows "bound_number mn \<Longrightarrow> bound_number mx \<Longrightarrow> map_option unat (count_by_score D z mn mx) = Some (length (by_score mn mx xs))"
    and "map_option unat (count_by_lex D z mn' mx') = Some (length (by_lex mn' mx' xs))"
proof -
  have "length (by_score mn mx xs) < 2 ^ 64" "length (by_lex mn' mx' xs) < 2 ^ 64"
    using rep le_less_trans [OF length_filter_le, of xs "2 ^ 64"] by (auto simp: zset_rep_def by_score_def by_lex_def)
  then show "bound_number mn \<Longrightarrow> bound_number mx \<Longrightarrow> map_option unat (count_by_score D z mn mx) = Some (length (by_score mn mx xs))"
    and "map_option unat (count_by_lex D z mn' mx') = Some (length (by_lex mn' mx' xs))"
    using rep by (simp_all add: count_by_score_def count_by_lex_def range_by_score_rep range_by_lex_rep apply_limit_def directed_def unat_of_nat64)
qed


subsection \<open>Pops\<close>

lemma pop_once_rep:
  assumes laws: "zset_laws D" and rep: "zset_rep D z xs" and ne: "xs \<noteq> []"
  shows "\<exists>enc. pop_once D (zset_inner z) mx = Some (Some (pair_of (if mx then last xs else hd xs)), enc) \<and>
           zset_rep D (z\<lparr>zset_inner := enc, zset_len := zset_len z - 1\<rparr>) (if mx then butlast xs else tl xs)"
proof -
  let ?e = "if mx then last xs else hd xs" and ?ys = "if mx then butlast xs else tl xs"
  have ok: "zset_ok xs" "zset_len z = length xs" "length xs < 2 ^ 32" using rep by (simp_all add: zset_rep_def)
  have sub: "zset_ok ?ys" using ok(1) zset_ok_sublist [of "[]" "butlast xs" "[last xs]"] zset_ok_sublist [of "[hd xs]" "tl xs" "[]"] ne by simp
  have drop: "drop_member (member ?e) xs = ?ys"
    using drop_member_ends(1) [of "hd xs" "tl xs"] drop_member_ends(2) [of "butlast xs" "last xs"] zset_okD(3) [OF ok(1)] ne by simp
  have "\<exists>enc. pop_once D (zset_inner z) mx = Some (Some (pair_of ?e), enc) \<and> enc_rep D enc ?ys"
  proof (cases "zset_inner z")
    case (ZListpack node)
    then have lp: "lp_rep node (zflat xs)" "lp_small xs" using rep by (simp_all add: zset_rep_def enc_rep_def)
    have "lp_small ?ys" using lp(2) lp_small_mono [of xs "butlast xs"] lp_small_mono [of xs "tl xs"] set_mono_suffix [OF suffix_tl, of xs] in_set_butlastD [of _ xs] by auto
    then show ?thesis using rewrite_rep [OF lp(1), of ?ys] ZListpack ne
      by (auto simp: pop_once_def listpack_entries [OF rep] enc_rep_def Let_def last_map hd_map map_butlast map_tl split: if_splits)
  next
    case (ZTree t idx)
    then have t: "tree_rep t xs" "index_rep D idx xs" using rep by (simp_all add: zset_rep_def enc_rep_def)
    show ?thesis
      using ZTree bptree_pop_min_rep [OF t(1)] bptree_pop_max_rep [OF t(1)] index_rep_remove [OF laws t(2), of "member ?e"] ne drop
      by (auto simp: pop_once_def enc_rep_def split: if_splits)
  qed
  then show ?thesis using sub ok ne by (auto simp: zset_rep_def)
qed

lemma pop_once_empty:
  assumes rep: "zset_rep D z []"
  shows "\<exists>enc. pop_once D (zset_inner z) mx = Some (None, enc) \<and> zset_rep D (z\<lparr>zset_inner := enc\<rparr>) []"
proof (cases "zset_inner z")
  case (ZListpack node)
  then show ?thesis using rep listpack_entries [OF rep ZListpack] by (auto simp: pop_once_def zset_rep_def)
next
  case (ZTree t idx)
  then have t: "tree_rep t []" "index_rep D idx []" using rep by (simp_all add: zset_rep_def enc_rep_def)
  show ?thesis using ZTree rep bptree_pop_min_rep [OF t(1)] bptree_pop_max_rep [OF t(1)] t(2)
    by (auto simp: pop_once_def zset_rep_def enc_rep_def)
qed

definition pop_spec :: "bool \<Rightarrow> nat \<Rightarrow> ZSetEntry list \<Rightarrow> ZSetEntry list \<times> ZSetEntry list" where
  "pop_spec mx n xs = (if mx then (take n (rev xs), take (length xs - n) xs) else (take n xs, drop n xs))"

lemma pop_spec_Suc:
  assumes "xs \<noteq> []"
  shows "pop_spec mx (Suc n) xs = apfst ((#) (if mx then last xs else hd xs)) (pop_spec mx n (if mx then butlast xs else tl xs))"
proof (cases mx)
  case True
  then show ?thesis using assms by (cases xs rule: rev_cases) (auto simp: pop_spec_def)
next
  case False
  then show ?thesis using assms by (cases xs) (auto simp: pop_spec_def)
qed

lemma pop_loop_rep:
  assumes laws: "zset_laws D"
  shows "zset_rep D z xs \<Longrightarrow> \<exists>z'. pop_loop D n z mx = Some (map pair_of (fst (pop_spec mx n xs)), z') \<and> zset_rep D z' (snd (pop_spec mx n xs))"
proof (induction n arbitrary: z xs)
  case 0
  then show ?case by (simp add: pop_spec_def)
next
  case (Suc n)
  show ?case
  proof (cases "xs = []")
    case True
    then show ?thesis using pop_once_empty [of D z mx] Suc.prems by (auto simp: pop_spec_def)
  next
    case False
    obtain enc where enc: "pop_once D (zset_inner z) mx = Some (Some (pair_of (if mx then last xs else hd xs)), enc)"
        "zset_rep D (z\<lparr>zset_inner := enc, zset_len := zset_len z - 1\<rparr>) (if mx then butlast xs else tl xs)"
      using pop_once_rep [OF laws Suc.prems False] by blast
    from Suc.IH [OF enc(2)] show ?thesis unfolding pop_spec_Suc [OF False] by (auto simp: enc(1))
  qed
qed

lemma pop_edge_rep:
  assumes "zset_laws D" and "zset_rep D z xs"
  shows "\<exists>z'. pop_edge D z n mx = Some (map pair_of (fst (pop_spec mx n xs)), z') \<and> zset_rep D z' (snd (pop_spec mx n xs))"
  using pop_loop_rep [OF assms, of n mx] by (auto simp: pop_edge_def)

section \<open>The refinement\<close>

lemma zset_step_refines:
  assumes laws: "zset_laws D" and rep: "zset_rep D z xs" and ok: "zset_op_ok xs op"
  shows "\<exists>z'. zset_step D z op = Some (fst (zset_spec_step xs op), z') \<and> zset_rep D z' (snd (zset_spec_step xs op))"
proof (cases op)
  case (ZAdd s m opts)
  then show ?thesis using add_rep [OF laws rep, of s m opts] ok by auto
next
  case (ZRem m)
  then show ?thesis using remove_rep [OF laws rep, of m] by auto
next
  case (ZPopMin n)
  then show ?thesis using pop_edge_rep [OF laws rep, of n False] by (auto simp: zset_pop_min_def pop_spec_def)
next
  case (ZPopMax n)
  then show ?thesis using pop_edge_rep [OF laws rep, of n True] by (auto simp: zset_pop_max_def pop_spec_def)
next
  case (ZCountScore mn mx)
  then show ?thesis using count_rep(1) [OF rep, of mn mx] rep ok by auto
next
  case (ZCountLex mn mx)
  then show ?thesis using count_rep(2) [OF rep, of mn mx] rep by auto
next
  case ZCard
  then show ?thesis using rep by (simp add: zset_rep_def)
qed (use rep ok in \<open>simp_all add: score_rep [OF laws rep] rank_rep [OF laws rep] range_by_rank_rep [OF rep] range_by_lex_rep [OF rep]
    range_by_score_rep [OF rep]\<close>)

lemma zset_rep_empty: "zset_rep D zset_with_hasher []"
  by (simp add: zset_rep_def zset_with_hasher_def zset_ok_def enc_rep_def lp_small_def lp_rep_default)

definition reference_zset_deps :: "(bytes \<times> f64) list zset_deps" where
  "reference_zset_deps = \<lparr>zd_index = reference_table, zd_parse_f64 = (\<lambda>_. None)\<rparr>"

lemma reference_zset_laws: "zset_laws reference_zset_deps"
  by (simp add: reference_zset_deps_def reference_table_laws)

lemma zset_simulation: "zset_laws D \<Longrightarrow> simulation (zset_step D) zset_spec_step (zset_rep D) zset_op_ok"
  by unfold_locales (rule zset_step_refines)

interpretation zsets: simulation "zset_step reference_zset_deps" zset_spec_step "zset_rep reference_zset_deps" zset_op_ok
  by (rule zset_simulation [OF reference_zset_laws])

subsection \<open>Random members\<close>

lemma random_member_rep:
  assumes laws: "zset_laws D" and rep: "zset_rep D z xs" and gen: "\<forall>n > 0. gen n < n"
  shows "case random_member D gen z of None \<Rightarrow> xs = [] | Some (m, s) \<Rightarrow> score_of xs m = Some s"
proof (cases "zset_inner z")
  case (ZListpack node)
  have es: "lp_zset_entries D node = map pair_of xs" by (rule listpack_entries [OF rep ZListpack])
  have len: "lp_len node = 2 * length xs" using rep ZListpack lp.size_rep [of node "zflat xs"] by (simp add: zset_rep_def enc_rep_def)
  have d: "distinct (map member xs)" using rep by (simp add: zset_rep_def zset_ok_def)
  show ?thesis
  proof (cases "xs = []")
    case False
    then have i: "gen (length xs) < length xs" using gen by simp
    then have "score_of xs (member (xs ! gen (length xs))) = Some (score (xs ! gen (length xs)))" using score_of_iff [OF d] by simp
    then show ?thesis using ZListpack es len False i by (simp add: random_member_def Let_def get_at_def score_rep [OF laws rep])
  qed (use ZListpack len in \<open>simp add: random_member_def\<close>)
next
  case (ZTree t idx)
  then have m: "ht_map (zd_index D) idx = score_of xs" using rep by (simp add: zset_rep_def enc_rep_def index_rep_def)
  let ?es = "ht_iter (zd_index D) idx"
  have "xs = []" if "?es = []" using m that by (cases xs) (auto simp: score_of_def fun_eq_iff split: if_splits)
  moreover have "score_of xs (fst (?es ! i)) = Some (snd (?es ! i))" if "i < length ?es" for i
    using ht_map_iff [OF laws, of idx "fst (?es ! i)" "snd (?es ! i)"] that m by simp
  moreover have "gen (length ?es) < length ?es" if "?es \<noteq> []" using gen that by simp
  ultimately show ?thesis using ZTree table_lawsD(7) [OF laws, of idx]
    by (cases "?es = []") (fastforce simp: random_member_def get_at_def)+
qed


lemma random_distinct_rep:
  assumes "zset_rep D z xs" and "mset (shuffle (map (\<lambda>e. (member e, score e)) xs)) = mset (map (\<lambda>e. (member e, score e)) xs)"
  shows "\<exists>out. random_members_distinct D shuffle z n = Some out \<and> length out = min n (length xs) \<and> distinct (map fst out) \<and>
           (\<forall>(m, s) \<in> set out. score_of xs m = Some s)"
proof -
  let ?ps = "map (\<lambda>e. (member e, score e)) xs"
  have d: "distinct (map member xs)" using assms(1) by (simp add: zset_rep_def zset_ok_def)
  have len: "length (shuffle ?ps) = length xs" using mset_eq_length [OF assms(2)] by simp
  have set: "set (shuffle ?ps) = set ?ps" using mset_eq_setD [OF assms(2)] .
  have "mset (map fst (shuffle ?ps)) = mset (map fst ?ps)" unfolding mset_map assms(2) ..
  then have "distinct (map fst (shuffle ?ps))" using mset_eq_imp_distinct_iff d by (fastforce simp: o_def)
  then have "distinct (map fst (take (min n (length xs)) (shuffle ?ps)))" by (simp add: take_map [symmetric] distinct_take)
  moreover have "score_of xs m = Some s" if "(m, s) \<in> set (take (min n (length xs)) (shuffle ?ps))" for m s
    using in_set_takeD [OF that] set score_of_iff [OF d, of m s] by auto
  ultimately show ?thesis using len by (auto simp: random_members_distinct_def all_entries_rep [OF assms(1)] o_def Let_def)
qed

text \<open>Where the two encodings differ: a range whose lower bound is NaN is empty on a listpack, but not on a tree.\<close>

lemma nan_bound_differs:
  assumes "is_nan v" and "\<not> is_nan s"
  shows "\<not> score_in_range s (Inclusive v) PosInf" and "\<not> score_lower_predicate s (Inclusive v) \<and> score_within_upper_bound s PosInf"
  using assms by (simp_all add: score_in_range_def score_lower_predicate_def score_within_upper_bound_def f64_compare_defs)

section \<open>Properties of sorted sets\<close>

text \<open>C7. A sorted set value is the list of its entries ordered by score and member: through any sequence of additions with
  their options, removals, pops, lookups, ranks, ranges and counts, and through the change from listpack to tree, no operation
  panics or runs forever, every result is the one computed on the list, and the value holds that list and its length in the end.
  Members are UTF-8 texts, fewer than \<open>2 ^ 32\<close>, and neither a score, nor the sum of an increment, nor a bound of a range or
  count by score is NaN: for a NaN bound the two encodings answer differently (\<open>nan_bound_differs\<close>).\<close>

theorem zset_refines_sorted_list:
  assumes "zset_laws D" and "ok_ops zset_spec_step zset_op_ok [] ops"
  shows "\<exists>z. run_c (zset_step D) zset_with_hasher ops = Some (fst (run_a zset_spec_step [] ops), z) \<and>
           all_entries D z = Some (map pair_of (snd (run_a zset_spec_step [] ops))) \<and>
           zset_len z = length (snd (run_a zset_spec_step [] ops))"
proof -
  obtain z where "run_c (zset_step D) zset_with_hasher ops = Some (fst (run_a zset_spec_step [] ops), z)"
      "zset_rep D z (snd (run_a zset_spec_step [] ops))"
    using simulation.run [OF zset_simulation [OF assms(1)] zset_rep_empty assms(2)] by blast
  then show ?thesis using all_entries_rep by (auto simp: zset_rep_def)
qed

theorem zset_refines_sorted_list_witness:
  "\<exists>z. run_c (zset_step reference_zset_deps) zset_with_hasher
       [ZAdd 0 [98] zadd_default, ZAdd 4607182418800017408 [97] zadd_default,
        ZAdd 4611686018427387904 [98] (zadd_default\<lparr>opt_condition := NX\<rparr>), ZAdd 4607182418800017408 [98] (zadd_default\<lparr>opt_gt := True, opt_ch := True\<rparr>),
        ZRank [98] False, ZRangeRank 0 (-1) True None, ZPopMin 1, ZCard] =
     Some ([RAdd \<lparr>added = 1, changed = 1, new_score = None\<rparr>, RAdd \<lparr>added = 1, changed = 1, new_score = None\<rparr>,
        RAdd \<lparr>added = 0, changed = 0, new_score = Some 0\<rparr>, RAdd \<lparr>added = 0, changed = 1, new_score = None\<rparr>,
        RRank (Some 1), REntries [(4607182418800017408, [98]), (4607182418800017408, [97])],
        REntries [(4607182418800017408, [97])], RCount 1], z) \<and>
     all_entries reference_zset_deps z = Some [(4607182418800017408, [98])] \<and> zset_len z = 1"
proof -
  let ?ops = "[ZAdd 0 [98] zadd_default, ZAdd 4607182418800017408 [97] zadd_default,
        ZAdd 4611686018427387904 [98] (zadd_default\<lparr>opt_condition := NX\<rparr>), ZAdd 4607182418800017408 [98] (zadd_default\<lparr>opt_gt := True, opt_ch := True\<rparr>),
        ZRank [98] False, ZRangeRank 0 (-1) True None, ZPopMin 1, ZCard]"
  note facts = zadd_default_def score_of_def put_member_def drop_member_def add_spec_def add_target_def add_writes_def key_of_def f64_compare_defs
    f64_rank_def f64_magnitude_def f64_negative_def is_nan_def f64_inf_bits_def less_eq_prod_def Let_def member_rank_def rank_slice_def
    directed_def apply_limit_def
  let ?one = "4607182418800017408 :: f64"
  let ?b0 = "\<lparr>score = 0, member = [98]\<rparr>" and ?a1 = "\<lparr>score = ?one, member = [97]\<rparr>" and ?b1 = "\<lparr>score = ?one, member = [98]\<rparr>"
  have 1: "add_spec [] 0 [98] zadd_default = (\<lparr>added = 1, changed = 1, new_score = None\<rparr>, [?b0])" by (simp add: facts)
  have 2: "add_spec [?b0] ?one [97] zadd_default = (\<lparr>added = 1, changed = 1, new_score = None\<rparr>, [?b0, ?a1])" by (simp add: facts)
  have 3: "add_spec [?b0, ?a1] 4611686018427387904 [98] (zadd_default\<lparr>opt_condition := NX\<rparr>) =
      (\<lparr>added = 0, changed = 0, new_score = Some 0\<rparr>, [?b0, ?a1])" by (simp add: facts)
  have 4: "add_spec [?b0, ?a1] ?one [98] (zadd_default\<lparr>opt_gt := True, opt_ch := True\<rparr>) =
      (\<lparr>added = 0, changed = 1, new_score = None\<rparr>, [?a1, ?b1])" by (simp add: facts)
  have rest: "fst (zset_spec_step [?a1, ?b1] (ZRank [98] False)) = RRank (Some 1)"
      "fst (zset_spec_step [?a1, ?b1] (ZRangeRank 0 (-1) True None)) = REntries [(?one, [98]), (?one, [97])]"
      "zset_spec_step [?a1, ?b1] (ZPopMin 1) = (REntries [(?one, [97])], [?b1])" "zset_spec_step [?b1] ZCard = (RCount 1, [?b1])"
    by (simp_all add: member_rank_def rank_slice_def directed_def apply_limit_def)
  have same: "snd (zset_spec_step xs (ZRank m r)) = xs" "snd (zset_spec_step xs (ZRangeRank a b r lim)) = xs" for xs m r a b lim by simp_all
  have add: "zset_spec_step xs (ZAdd s m opts) = apfst RAdd (add_spec xs s m opts)" for xs s m opts by simp
  have "ok_ops zset_spec_step zset_op_ok [] ?ops"
    by (simp del: zset_spec_step.simps add: add 1 2 3 4 same rest) (simp add: add_target_def zadd_default_def is_nan_def f64_magnitude_def f64_inf_bits_def)
  moreover have "run_a zset_spec_step [] ?ops =
     ([RAdd \<lparr>added = 1, changed = 1, new_score = None\<rparr>, RAdd \<lparr>added = 1, changed = 1, new_score = None\<rparr>,
        RAdd \<lparr>added = 0, changed = 0, new_score = Some 0\<rparr>, RAdd \<lparr>added = 0, changed = 1, new_score = None\<rparr>,
        RRank (Some 1), REntries [(?one, [98]), (?one, [97])], REntries [(?one, [97])], RCount 1], [?b1])"
    by (simp del: zset_spec_step.simps add: add 1 2 3 4 same rest split_beta Let_def) simp
  ultimately show ?thesis using zset_refines_sorted_list [OF reference_zset_laws, of ?ops] by simp
qed

end
