(* ===== verification/TimerWheel.thy ===== *)
theory TimerWheel
  imports Prelude "HOL-Library.Multiset"
begin

text \<open>
  The timer wheels of senko-store/src/expiry.rs: 512 slots of 100 milliseconds and an ordered overflow
  map for deadlines further away. The key wheel and the field wheel have the same code at different entry
  types, so the model is generic in the entry. The slots are a list of 512 lists; the B-tree map is an
  association list in ascending order of its keys. The second part gives a wheel the multiset of its
  pending entries with the tick at which each fires, and shows that scheduling adds to it and advancing
  takes out exactly what is due.
\<close>

abbreviation WHEEL_SLOTS :: nat where "WHEEL_SLOTS \<equiv> 512"
abbreviation WHEEL_RESOLUTION_MS :: nat where "WHEEL_RESOLUTION_MS \<equiv> 100"
abbreviation WHEEL_SPAN_MS :: nat where "WHEEL_SPAN_MS \<equiv> 51200"

record 'e wheel =
  tw_slots :: "'e option list list"
  tw_overflow :: "(nat \<times> 'e option list) list"
  last_tick_ms :: nat
  tw_rotations :: nat

definition align_tick :: "nat \<Rightarrow> nat" where
  "align_tick ms = ms - ms mod WHEEL_RESOLUTION_MS"

definition slot_index :: "nat \<Rightarrow> nat" where
  "slot_index deadline_ms = (align_tick deadline_ms div WHEEL_RESOLUTION_MS) mod WHEEL_SLOTS"

definition normalize_deadline :: "nat \<Rightarrow> nat \<Rightarrow> nat" where
  "normalize_deadline deadline_ms current_tick =
     (if deadline_ms \<le> current_tick then sat_add64 current_tick WHEEL_RESOLUTION_MS else deadline_ms)"

definition wheel_new :: "nat \<Rightarrow> 'e wheel" where
  "wheel_new now_ms =
     \<lparr>tw_slots = replicate WHEEL_SLOTS [], tw_overflow = [], last_tick_ms = align_tick now_ms, tw_rotations = 0\<rparr>"

text \<open>\<open>overflow.entry(k).or_default().push(e)\<close>.\<close>

fun btree_push :: "nat \<Rightarrow> 'v \<Rightarrow> (nat \<times> 'v list) list \<Rightarrow> (nat \<times> 'v list) list" where
  "btree_push k e [] = [(k, [e])]"
| "btree_push k e ((k', es) # m) =
     (if k < k' then (k, [e]) # (k', es) # m
      else if k = k' then (k', es @ [e]) # m
      else (k', es) # btree_push k e m)"

definition schedule :: "'e wheel \<Rightarrow> 'e \<Rightarrow> nat \<Rightarrow> 'e wheel" where
  "schedule w e expires_at =
     (let current_tick = align_tick (last_tick_ms w);
          scheduled_at = normalize_deadline expires_at current_tick in
      if scheduled_at \<le> sat_add64 current_tick WHEEL_SPAN_MS then
        let i = slot_index scheduled_at in w\<lparr>tw_slots := (tw_slots w)[i := tw_slots w ! i @ [Some e]]\<rparr>
      else w\<lparr>tw_overflow := btree_push (align_tick scheduled_at) (Some e) (tw_overflow w)\<rparr>)"

definition schedule_key :: "bytes wheel \<Rightarrow> bytes \<Rightarrow> nat \<Rightarrow> bytes wheel" where
  "schedule_key w key expires_at = schedule w key expires_at"

definition schedule_field :: "(bytes \<times> bytes) wheel \<Rightarrow> bytes \<Rightarrow> bytes \<Rightarrow> nat \<Rightarrow> (bytes \<times> bytes) wheel" where
  "schedule_field w key field expires_at = schedule w (key, field) expires_at"

definition tombstone_where :: "('e \<Rightarrow> bool) \<Rightarrow> 'e option list \<Rightarrow> 'e option list" where
  "tombstone_where p es =
     map (\<lambda>e. case e of None \<Rightarrow> None | Some c \<Rightarrow> if p c then None else Some c) es"

definition tombstone :: "bytes wheel \<Rightarrow> bytes \<Rightarrow> nat option \<Rightarrow> bytes wheel" where
  "tombstone w key expires_at =
     (case expires_at of
        None \<Rightarrow> w
      | Some deadline \<Rightarrow>
          (let aligned = align_tick deadline in
           if aligned \<le> sat_add64 (last_tick_ms w) WHEEL_SPAN_MS then
             let i = slot_index aligned
             in w\<lparr>tw_slots := (tw_slots w)[i := tombstone_where (\<lambda>c. c = key) (tw_slots w ! i)]\<rparr>
           else case map_of (tw_overflow w) aligned of
                  None \<Rightarrow> w
                | Some es \<Rightarrow>
                    (let es' = tombstone_where (\<lambda>c. c = key) es in
                     w\<lparr>tw_overflow :=
                         (if list_all (\<lambda>e. e = None) es' then filter (\<lambda>(k, _). k \<noteq> aligned) (tw_overflow w)
                          else map (\<lambda>(k, v). (k, if k = aligned then es' else v)) (tw_overflow w))\<rparr>)))"

definition update_expiry :: "bytes wheel \<Rightarrow> bytes \<Rightarrow> nat option \<Rightarrow> nat option \<Rightarrow> bytes wheel" where
  "update_expiry w key old_expires_at new_expires_at =
     (let w' = tombstone w key old_expires_at in
      case new_expires_at of None \<Rightarrow> w' | Some deadline \<Rightarrow> schedule_key w' key deadline)"

definition tombstone_key :: "(bytes \<times> bytes) wheel \<Rightarrow> bytes \<Rightarrow> (bytes \<times> bytes) wheel" where
  "tombstone_key w key =
     w\<lparr>tw_slots := map (tombstone_where (\<lambda>(k, _). k = key)) (tw_slots w),
       tw_overflow :=
         filter (\<lambda>(_, es). \<not> list_all (\<lambda>e. e = None) es)
           (map (\<lambda>(d, es). (d, tombstone_where (\<lambda>(k, _). k = key) es)) (tw_overflow w))\<rparr>"

fun flatten :: "'e option list \<Rightarrow> 'e list" where
  "flatten [] = []"
| "flatten (None # es) = flatten es"
| "flatten (Some e # es) = e # flatten es"

text \<open>The keys to promote are the front of the ordered map.\<close>

definition promote_one :: "'e option list list \<Rightarrow> nat \<times> 'e option list \<Rightarrow> 'e option list list" where
  "promote_one slots d = (let i = slot_index (fst d) in slots[i := slots ! i @ snd d])"

definition promote_overflow :: "'e wheel \<Rightarrow> 'e wheel" where
  "promote_overflow w =
     (let promote_until = sat_add64 (last_tick_ms w) WHEEL_SPAN_MS;
          due = takeWhile (\<lambda>(d, _). d \<le> promote_until) (tw_overflow w) in
      w\<lparr>tw_slots := foldl promote_one (tw_slots w) due,
        tw_overflow := dropWhile (\<lambda>(d, _). d \<le> promote_until) (tw_overflow w)\<rparr>)"

definition tick :: "'e wheel \<Rightarrow> 'e list \<times> 'e wheel" where
  "tick w =
     (let t = sat_add64 (last_tick_ms w) WHEEL_RESOLUTION_MS;
          slot = slot_index t;
          fired = flatten (tw_slots w ! slot);
          w1 = w\<lparr>last_tick_ms := t, tw_slots := (tw_slots w)[slot := []]\<rparr>
      in (fired, if slot = WHEEL_SLOTS - 1
                 then promote_overflow (w1\<lparr>tw_rotations := sat_add64 (tw_rotations w) 1\<rparr>) else w1))"

text \<open>The loop target is an unsigned 64-bit number, which bounds the recursion.\<close>

function advance_loop :: "nat \<Rightarrow> 'e wheel \<Rightarrow> 'e list \<times> 'e wheel" where
  "advance_loop target w =
     (if last_tick_ms w < min target u64_max then
        let (fired, w') = tick w; (more, w'') = advance_loop target w' in (fired @ more, w'')
      else ([], w))"
  by pat_completeness auto
termination
proof (relation "measure (\<lambda>(target, w). u64_max - last_tick_ms w)")
  fix target and w :: "'e wheel" and x y z
  assume "last_tick_ms w < min target u64_max" and "x = tick w" and "(y, z) = x"
  moreover then have "last_tick_ms z = sat_add64 (last_tick_ms w) WHEEL_RESOLUTION_MS"
    by (auto simp: tick_def Let_def promote_overflow_def split: if_splits)
  ultimately show "((target, z), target, w) \<in> measure (\<lambda>(target, w). u64_max - last_tick_ms w)"
    by (auto simp: sat_add64_def)
qed simp

declare advance_loop.simps [simp del]

definition advance :: "'e wheel \<Rightarrow> nat \<Rightarrow> 'e list \<times> 'e wheel" where
  "advance w now_ms = advance_loop (align_tick now_ms) w"

text \<open>The field wheel runs the same loop on its own entries.\<close>

definition advance_fields :: "(bytes \<times> bytes) wheel \<Rightarrow> nat \<Rightarrow> (bytes \<times> bytes) list \<times> (bytes \<times> bytes) wheel" where
  "advance_fields w now_ms = advance_loop (align_tick now_ms) w"

section \<open>Pending entries\<close>

text \<open>The tick at which a slot is drained next, for a current tick \<open>t\<close>.\<close>

definition due :: "nat \<Rightarrow> nat \<Rightarrow> nat" where
  "due t i = t + 100 * (if slot_index t < i then i - slot_index t else i + 512 - slot_index t)"

text \<open>The tick at which an overflow deadline fires: a deadline that is the tick of the next promotion
  itself reaches its slot just after the slot was drained.\<close>

definition overflow_due :: "nat \<Rightarrow> nat \<Rightarrow> nat" where
  "overflow_due t a = (if a = due t 511 then a + WHEEL_SPAN_MS else a)"

definition slot_pending :: "nat \<Rightarrow> 'e option list \<Rightarrow> (nat \<times> 'e) multiset" where
  "slot_pending a es = image_mset (Pair a) (mset (flatten es))"

definition pending :: "'e wheel \<Rightarrow> (nat \<times> 'e) multiset" where
  "pending w =
     (\<Sum>i < 512. slot_pending (due (last_tick_ms w) i) (tw_slots w ! i)) +
     (\<Sum>(a, es) \<leftarrow> tw_overflow w. slot_pending (overflow_due (last_tick_ms w) a) es)"

abbreviation time_limit :: nat where "time_limit \<equiv> u64_max - 200000"

definition wheel_inv :: "'e wheel \<Rightarrow> bool" where
  "wheel_inv w \<longleftrightarrow>
     length (tw_slots w) = 512 \<and> last_tick_ms w mod 100 = 0 \<and> last_tick_ms w \<le> time_limit \<and>
     sorted_wrt (<) (map fst (tw_overflow w)) \<and>
     (\<forall>a \<in> fst ` set (tw_overflow w). a mod 100 = 0 \<and> due (last_tick_ms w) 511 \<le> a)"

lemma align_tick_le: "align_tick ms \<le> ms" and align_tick_mod [simp]: "align_tick ms mod 100 = 0"
  and align_tick_lt: "ms < align_tick ms + 100"
proof -
  show "align_tick ms \<le> ms" by (simp add: align_tick_def)
  show "align_tick ms mod 100 = 0" by (simp add: align_tick_def minus_mod_eq_mult_div)
  show "ms < align_tick ms + 100" using mod_less_divisor [of 100 ms] by (simp add: align_tick_def)
qed

lemma align_tick_idem: "ms mod 100 = 0 \<Longrightarrow> align_tick ms = ms"
  by (simp add: align_tick_def)

lemma slot_index_tick: "slot_index (100 * n) = n mod 512"
  by (simp add: slot_index_def align_tick_def)

lemma slot_index_align [simp]: "slot_index (align_tick d) = slot_index d"
  by (simp add: slot_index_def align_tick_idem)

lemma slot_index_less [simp]: "slot_index d < 512"
  by (simp add: slot_index_def)

lemma flatten_append [simp]: "flatten (xs @ ys) = flatten xs @ flatten ys"
  by (induction xs rule: flatten.induct) auto

lemma slot_pending_simps [simp]:
  "slot_pending a [] = {#}" "slot_pending a (xs @ ys) = slot_pending a xs + slot_pending a ys"
  "slot_pending a [Some e] = {#(a, e)#}"
  by (simp_all add: slot_pending_def)

text \<open>A tick between the current one and one turn of the wheel later is the next time its slot is drained.\<close>

lemma due_slot:
  assumes "t mod 100 = 0" and "a mod 100 = 0" and "t < a" and "a \<le> t + WHEEL_SPAN_MS"
  shows "due t (slot_index a) = a"
proof -
  obtain n k where n: "t = 100 * n" "a = 100 * k" using assms(1,2) by (auto simp: mod_eq_0_iff_dvd elim!: dvdE)
  define j where "j = k - n"
  have j: "k = n + j" "0 < j" "j \<le> 512" using assms(3,4) n by (auto simp: j_def)
  have "(n + j) mod 512 = (if n mod 512 + j < 512 then n mod 512 + j else n mod 512 + j - 512)"
    using j(3) by (cases "j = 512") (auto simp: mod_add_eq [of n 512 j, symmetric] le_mod_geq)
  moreover have "slot_index a = (n + j) mod 512" using n(2) j(1) slot_index_tick [of "n + j"] by simp
  ultimately show ?thesis
    using j n by (auto simp: due_def slot_index_tick)
qed

lemma due_self: "due t (slot_index t) = t + WHEEL_SPAN_MS"
  by (simp add: due_def)

lemma due_bounds: "i < 512 \<Longrightarrow> t < due t i \<and> due t i \<le> t + WHEEL_SPAN_MS"
  using slot_index_less [of t] by (auto simp: due_def simp del: slot_index_less)

lemma due_step:
  assumes "t mod 100 = 0" and "i < 512" and "i \<noteq> slot_index (t + 100)"
  shows "due (t + 100) i = due t i"
proof -
  obtain n where n: "t = 100 * n" using assms(1) by (auto simp: mod_eq_0_iff_dvd elim!: dvdE)
  then have "slot_index (t + 100) = Suc n mod 512" using slot_index_tick [of "Suc n"] by (simp add: algebra_simps)
  then show ?thesis
    using assms(2,3) n by (auto simp: due_def slot_index_tick mod_Suc)
qed

lemma pending_after:
  assumes "wheel_inv w" and "p \<in># pending w"
  shows "last_tick_ms w < fst p"
proof -
  consider i where "i < 512" "p \<in># slot_pending (due (last_tick_ms w) i) (tw_slots w ! i)"
    | a es where "(a, es) \<in> set (tw_overflow w)" "p \<in># slot_pending (overflow_due (last_tick_ms w) a) es"
    using assms(2) by (auto simp: pending_def set_mset_sum)
  then show ?thesis
  proof cases
    case 1
    then show ?thesis using due_bounds [of i "last_tick_ms w"] by (auto simp: slot_pending_def)
  next
    case 2
    then have "due (last_tick_ms w) 511 \<le> a" using assms(1) by (auto simp: wheel_inv_def)
    then show ?thesis
      using 2(2) due_bounds [of 511 "last_tick_ms w"] by (auto simp: slot_pending_def overflow_due_def split: if_splits)
  qed
qed

text \<open>Adding to one slot adds the entries at the slot's next tick.\<close>

lemma slots_append:
  assumes "length slots = 512" and "i < 512"
  shows "(\<Sum>j < 512. slot_pending (due t j) (slots[i := slots ! i @ es] ! j))
       = (\<Sum>j < 512. slot_pending (due t j) (slots ! j)) + slot_pending (due t i) es"
proof -
  have "(\<Sum>j < 512. slot_pending (due t j) (slots[i := slots ! i @ es] ! j))
      = (\<Sum>j < 512. slot_pending (due t j) (slots ! j) + (if j = i then slot_pending (due t i) es else {#}))"
    using assms by (intro sum.cong) (auto simp: nth_list_update)
  also have "\<dots> = (\<Sum>j < 512. slot_pending (due t j) (slots ! j)) + slot_pending (due t i) es"
    using assms(2) by (simp add: sum.distrib)
  finally show ?thesis .
qed

lemma promote_pending:
  assumes "length slots = 512" and "t mod 100 = 0"
    and "\<forall>a \<in> fst ` set ds. a mod 100 = 0 \<and> t \<le> a \<and> a \<le> t + WHEEL_SPAN_MS" and "slot_index t = 511"
  shows "length (foldl promote_one slots ds) = 512 \<and>
     (\<Sum>j < 512. slot_pending (due t j) (foldl promote_one slots ds ! j))
       = (\<Sum>j < 512. slot_pending (due t j) (slots ! j)) +
         (\<Sum>(a, es) \<leftarrow> ds. slot_pending (if a = t then a + WHEEL_SPAN_MS else a) es)"
  using assms(1,3)
proof (induction ds arbitrary: slots)
  case (Cons d ds)
  obtain a es where d: "d = (a, es)" by fastforce
  have "due t (slot_index a) = (if a = t then a + WHEEL_SPAN_MS else a)"
    using Cons.prems(2) d due_slot [OF assms(2), of a] due_self [of t] by auto
  then show ?case
    using Cons.IH [of "promote_one slots d"] Cons.prems slots_append [of slots "slot_index a" t es] d
    by (simp add: promote_one_def Let_def ac_simps)
qed simp

lemma takeWhile_upto:
  assumes "sorted_wrt (<) (map fst (m :: (nat \<times> 'v) list))"
  shows "\<forall>a \<in> fst ` set (takeWhile (\<lambda>(d, _). d \<le> p) m). a \<le> p"
    and "\<forall>a \<in> fst ` set (dropWhile (\<lambda>(d, _). d \<le> p) m). p < a"
    and "sorted_wrt (<) (map fst (dropWhile (\<lambda>(d, _). d \<le> p) m))"
  using assms by (induction m) (auto dest: set_takeWhileD)

text \<open>One tick fires the entries due at it and keeps the others pending.\<close>

lemma drain_pending:
  assumes "length slots = 512" and "t mod 100 = 0"
  shows "(\<Sum>j < 512. slot_pending (due t j) (slots ! j))
       = slot_pending (t + 100) (slots ! slot_index (t + 100)) +
         (\<Sum>j < 512. slot_pending (due (t + 100) j) (slots[slot_index (t + 100) := []] ! j))"
proof -
  let ?s = "slot_index (t + 100)"
  have "due t ?s = t + 100" using due_slot [OF assms(2), of "t + 100"] assms(2) by simp
  then have "(\<Sum>j < 512. slot_pending (due t j) (slots ! j))
      = slot_pending (t + 100) (slots ! ?s) + (\<Sum>j \<in> {..<512} - {?s}. slot_pending (due t j) (slots ! j))"
    by (subst sum.remove [of _ ?s]) auto
  also have "(\<Sum>j \<in> {..<512} - {?s}. slot_pending (due t j) (slots ! j))
      = (\<Sum>j \<in> {..<512} - {?s}. slot_pending (due (t + 100) j) (slots[?s := []] ! j))"
    using due_step [OF assms(2)] by (intro sum.cong) auto
  also have "\<dots> = (\<Sum>j < 512. slot_pending (due (t + 100) j) (slots[?s := []] ! j))"
    using assms(1) by (subst sum.remove [of "{..<512}" ?s]) auto
  finally show ?thesis .
qed

lemma due_511_step:
  assumes "t mod 100 = 0" and "slot_index (t + 100) \<noteq> 511"
  shows "due (t + 100) 511 = due t 511"
  using due_step [of t 511] assms by simp

text \<open>A tick that ends a turn: the deadlines within the next turn move into their slots.\<close>

lemma promote_spec:
  assumes w: "length (tw_slots w) = 512" "t = last_tick_ms w" "t mod 100 = 0" "t \<le> time_limit" "slot_index t = 511"
      "sorted_wrt (<) (map fst (tw_overflow w))" "\<forall>a \<in> fst ` set (tw_overflow w). a mod 100 = 0 \<and> t \<le> a"
  shows "wheel_inv (promote_overflow w)"
    and "pending (promote_overflow w) = (\<Sum>j < 512. slot_pending (due t j) (tw_slots w ! j)) +
           (\<Sum>(a, es) \<leftarrow> tw_overflow w. slot_pending (if a = t then a + WHEEL_SPAN_MS else a) es)"
proof -
  let ?p = "t + WHEEL_SPAN_MS"
  let ?ds = "takeWhile (\<lambda>(d, _). d \<le> ?p) (tw_overflow w)" and ?rest = "dropWhile (\<lambda>(d, _). d \<le> ?p) (tw_overflow w)"
  have sat: "sat_add64 t WHEEL_SPAN_MS = ?p" using w(4) by (simp add: sat_add64_def)
  have d: "due t 511 = ?p" using due_self [of t] w(5) by simp
  note tw = takeWhile_upto [OF w(6), of ?p]
  have ds: "\<forall>a \<in> fst ` set ?ds. a mod 100 = 0 \<and> t \<le> a \<and> a \<le> ?p"
    using w(7) tw(1) by (auto dest!: set_takeWhileD)
  note pr = promote_pending [OF w(1,3) ds w(5)]
  have "\<forall>a \<in> fst ` set ?rest. a mod 100 = 0" using w(7) by (auto dest!: set_dropWhileD)
  then show "wheel_inv (promote_overflow w)"
    using sat d pr tw(2,3) w(2,3,4) by (auto simp: wheel_inv_def promote_overflow_def Let_def less_imp_le)
  have rest: "(\<Sum>(a, es) \<leftarrow> ?rest. slot_pending (overflow_due t a) es)
      = (\<Sum>(a, es) \<leftarrow> ?rest. slot_pending (if a = t then a + WHEEL_SPAN_MS else a) es)"
    using tw(2) d by (intro arg_cong [where f = sum_list] map_cong) (auto simp: overflow_due_def)
  have "tw_overflow w = ?ds @ ?rest" by simp
  then have "(\<Sum>(a, es) \<leftarrow> tw_overflow w. slot_pending (if a = t then a + WHEEL_SPAN_MS else a) es)
      = (\<Sum>(a, es) \<leftarrow> ?ds. slot_pending (if a = t then a + WHEEL_SPAN_MS else a) es)
        + (\<Sum>(a, es) \<leftarrow> ?rest. slot_pending (if a = t then a + WHEEL_SPAN_MS else a) es)"
    by (metis (no_types) map_append sum_list.append)
  then show "pending (promote_overflow w) = (\<Sum>j < 512. slot_pending (due t j) (tw_slots w ! j)) +
           (\<Sum>(a, es) \<leftarrow> tw_overflow w. slot_pending (if a = t then a + WHEEL_SPAN_MS else a) es)"
    using sat pr rest w(2) by (simp add: pending_def promote_overflow_def Let_def ac_simps)
qed

lemma tick_spec:
  assumes inv: "wheel_inv w" and lim: "last_tick_ms w + 100 \<le> time_limit"
  shows "last_tick_ms (snd (tick w)) = last_tick_ms w + 100 \<and> wheel_inv (snd (tick w)) \<and>
    pending w = image_mset (Pair (last_tick_ms w + 100)) (mset (fst (tick w))) + pending (snd (tick w))"
proof -
  let ?t = "last_tick_ms w"
  let ?s = "slot_index (?t + 100)"
  have w: "length (tw_slots w) = 512" "?t mod 100 = 0" "sorted_wrt (<) (map fst (tw_overflow w))"
      "\<forall>a \<in> fst ` set (tw_overflow w). a mod 100 = 0 \<and> due ?t 511 \<le> a"
    using inv by (simp_all add: wheel_inv_def)
  have sat: "sat_add64 ?t 100 = ?t + 100" using lim by (simp add: sat_add64_def)
  have t': "(?t + 100) mod 100 = 0" using w(2) by simp
  note drain = drain_pending [OF w(1,2)]
  show ?thesis
  proof (cases "?s = 511")
    case False
    then show ?thesis
      using w sat lim t' due_511_step [OF w(2) False] drain
      by (simp add: tick_def Let_def wheel_inv_def pending_def overflow_due_def slot_pending_def [of "?t + 100"])
  next
    case True
    define w1 where "w1 = w\<lparr>last_tick_ms := ?t + 100, tw_slots := (tw_slots w)[511 := []],
                            tw_rotations := sat_add64 (tw_rotations w) 1\<rparr>"
    have tk: "tick w = (flatten (tw_slots w ! 511), promote_overflow w1)"
      using sat True by (simp add: tick_def Let_def w1_def)
    have d: "due ?t 511 = ?t + 100" using due_slot [OF w(2) t'] True by simp
    have w1: "length (tw_slots w1) = 512" "?t + 100 = last_tick_ms w1" "sorted_wrt (<) (map fst (tw_overflow w1))"
        "\<forall>a \<in> fst ` set (tw_overflow w1). a mod 100 = 0 \<and> ?t + 100 \<le> a"
      using w d by (simp_all add: w1_def)
    note pr = promote_spec [OF w1(1,2) t' lim True w1(3,4)]
    have "last_tick_ms (promote_overflow w1) = ?t + 100" by (simp add: promote_overflow_def Let_def w1_def)
    moreover have "pending w = slot_pending (?t + 100) (tw_slots w ! 511) + pending (promote_overflow w1)"
      using pr(2) drain True d by (simp add: pending_def [of w] overflow_due_def w1_def)
    ultimately show ?thesis using tk pr(1) by (simp add: slot_pending_def)
  qed
qed

section \<open>Scheduling and advancing\<close>

text \<open>The tick at which an entry scheduled now for a deadline fires.\<close>

definition fire_tick :: "nat \<Rightarrow> nat \<Rightarrow> nat" where
  "fire_tick t deadline =
     (let at = normalize_deadline deadline t; a = align_tick at in
      if at \<le> t + WHEEL_SPAN_MS then (if a = t then t + WHEEL_SPAN_MS else a) else overflow_due t a)"

lemma btree_push_sum:
  "(\<Sum>(a, es) \<leftarrow> btree_push k (Some e) m. slot_pending (f a) es)
     = add_mset (f k, e) (\<Sum>(a, es) \<leftarrow> m. slot_pending (f a) es)"
  by (induction k "Some e" m rule: btree_push.induct) auto

lemma btree_push_keys: "fst ` set (btree_push k e m) = insert k (fst ` set m)"
  by (induction k e m rule: btree_push.induct) auto

lemma btree_push_sorted:
  "sorted_wrt (<) (map fst m) \<Longrightarrow> sorted_wrt (<) (map fst (btree_push k e m))"
proof (induction k e m rule: btree_push.induct)
  case (2 k e k' es m)
  then show ?case using btree_push_keys [of k e m] by auto
qed simp

lemma align_tick_mono: "a \<le> b \<Longrightarrow> align_tick a \<le> align_tick b"
proof -
  assume "a \<le> b"
  then have "100 * (a div 100) \<le> 100 * (b div 100)" by (simp add: div_le_mono)
  then show ?thesis by (simp add: align_tick_def minus_mod_eq_mult_div)
qed

lemma normalize_after: "t \<le> time_limit \<Longrightarrow> t < normalize_deadline d t"
  by (auto simp: normalize_deadline_def sat_add64_def)

lemma schedule_spec:
  assumes inv: "wheel_inv w"
  shows "wheel_inv (schedule w e d) \<and> last_tick_ms (schedule w e d) = last_tick_ms w \<and>
         pending (schedule w e d) = add_mset (fire_tick (last_tick_ms w) d, e) (pending w)"
proof -
  let ?t = "last_tick_ms w"
  define at where "at = normalize_deadline d ?t"
  have w: "length (tw_slots w) = 512" "?t mod 100 = 0" "?t \<le> time_limit" "sorted_wrt (<) (map fst (tw_overflow w))"
      "\<forall>a \<in> fst ` set (tw_overflow w). a mod 100 = 0 \<and> due ?t 511 \<le> a"
    using inv by (simp_all add: wheel_inv_def)
  have cur: "align_tick ?t = ?t" using w(2) by (rule align_tick_idem)
  have sat: "sat_add64 ?t WHEEL_SPAN_MS = ?t + WHEEL_SPAN_MS" using w(3) by (simp add: sat_add64_def)
  have at: "?t < at" unfolding at_def using w(3) by (rule normalize_after)
  have ge: "?t \<le> align_tick at" using align_tick_mono [of ?t at] at cur by simp
  show ?thesis
  proof (cases "at \<le> ?t + WHEEL_SPAN_MS")
    case True
    have le: "align_tick at \<le> ?t + WHEEL_SPAN_MS" using align_tick_le [of at] True by simp
    have "due ?t (slot_index at) = fire_tick ?t d"
    proof (cases "align_tick at = ?t")
      case True
      then have "slot_index at = slot_index ?t" using slot_index_align by metis
      then show ?thesis using True \<open>at \<le> ?t + WHEEL_SPAN_MS\<close> due_self [of ?t] by (simp add: fire_tick_def at_def)
    next
      case False
      then have "due ?t (slot_index (align_tick at)) = align_tick at" using due_slot [OF w(2), of "align_tick at"] ge le by simp
      then show ?thesis using True False by (simp add: fire_tick_def at_def)
    qed
    then show ?thesis
      using True w slots_append [OF w(1), of "slot_index at" ?t "[Some e]"] cur sat
      by (simp add: schedule_def at_def [symmetric] Let_def wheel_inv_def pending_def)
  next
    case False
    have "?t + WHEEL_SPAN_MS \<le> align_tick at"
      using align_tick_mono [of "?t + WHEEL_SPAN_MS" at] False align_tick_idem [of "?t + WHEEL_SPAN_MS"] w(2)
      by (simp add: mod_add_left_eq [of ?t 100 51200, symmetric] del: mod_add_left_eq)
    then have "due ?t 511 \<le> align_tick at" using due_bounds [of 511 ?t] by simp
    then show ?thesis
      using False w cur sat btree_push_keys [of "align_tick at" "Some e" "tw_overflow w"]
        btree_push_sorted [OF w(4), of "align_tick at" "Some e"]
        btree_push_sum [of "overflow_due ?t" "align_tick at" e "tw_overflow w"]
      by (auto simp: schedule_def at_def [symmetric] Let_def wheel_inv_def pending_def fire_tick_def)
  qed
qed

lemma filter_Pair:
  "filter_mset (\<lambda>p. P (fst p)) (image_mset (Pair a) M) = (if P a then image_mset (Pair a) M else {#})"
  by (induction M) auto

lemma advance_loop_spec:
  assumes "wheel_inv w" and "target mod 100 = 0" and "target \<le> time_limit"
  shows "let (fired, w') = advance_loop target w in
    wheel_inv w' \<and> last_tick_ms w' = max (last_tick_ms w) target \<and>
    mset fired = image_mset snd (filter_mset (\<lambda>p. fst p \<le> target) (pending w)) \<and>
    pending w' = filter_mset (\<lambda>p. target < fst p) (pending w)"
  using assms
proof (induction target w rule: advance_loop.induct)
  case (1 target w)
  show ?case
  proof (cases "last_tick_ms w < target")
    case False
    then have "\<forall>p \<in># pending w. target < fst p" using pending_after [OF 1(2)] by fastforce
    then have "filter_mset (\<lambda>p. fst p \<le> target) (pending w) = {#}" "filter_mset (\<lambda>p. target < fst p) (pending w) = pending w"
      by (auto simp: filter_mset_eq_mempty_iff filter_mset_eq_conv)
    then show ?thesis using False 1(2) by (simp add: advance_loop.simps)
  next
    case True
    let ?t = "last_tick_ms w"
    obtain fired w' where tk: "tick w = (fired, w')" by fastforce
    obtain more w'' where ad: "advance_loop target w' = (more, w'')" by fastforce
    have "?t mod 100 = 0" using 1(2) by (simp add: wheel_inv_def)
    then have le: "?t + 100 \<le> target" using True 1(3) by (auto simp: mod_eq_0_iff_dvd elim!: dvdE)
    note ts = tick_spec [OF 1(2), unfolded tk fst_conv snd_conv]
    have w': "last_tick_ms w' = ?t + 100" "wheel_inv w'"
        "pending w = image_mset (Pair (?t + 100)) (mset fired) + pending w'"
      using ts le 1(4) by auto
    have IH: "wheel_inv w''" "last_tick_ms w'' = max (?t + 100) target"
        "mset more = image_mset snd (filter_mset (\<lambda>p. fst p \<le> target) (pending w'))"
        "pending w'' = filter_mset (\<lambda>p. target < fst p) (pending w')"
      using 1(1) [OF _ refl tk [symmetric] w'(2) 1(3,4)] True 1(4) unfolding w'(1) ad by auto
    have "advance_loop target w = (fired @ more, w'')"
      using True 1(4) tk ad by (subst advance_loop.simps) simp
    moreover have "filter_mset (\<lambda>p. fst p \<le> target) (pending w)
          = image_mset (Pair (?t + 100)) (mset fired) + filter_mset (\<lambda>p. fst p \<le> target) (pending w')"
        "filter_mset (\<lambda>p. target < fst p) (pending w) = filter_mset (\<lambda>p. target < fst p) (pending w')"
      using le unfolding w'(3) filter_union_mset filter_Pair [of "\<lambda>a. a \<le> target"] filter_Pair [of "\<lambda>a. target < a"]
      by auto
    ultimately show ?thesis using IH le by (simp add: image_mset.compositionality comp_def)
  qed
qed

lemma advance_spec:
  assumes "wheel_inv w" and "now \<le> time_limit"
  obtains fired w' where "advance w now = (fired, w')" and "wheel_inv w'"
    and "last_tick_ms w' = max (last_tick_ms w) (align_tick now)"
    and "mset fired = image_mset snd (filter_mset (\<lambda>p. fst p \<le> align_tick now) (pending w))"
    and "pending w' = filter_mset (\<lambda>p. align_tick now < fst p) (pending w)"
proof -
  have "align_tick now \<le> time_limit" using align_tick_le assms(2) by (rule le_trans)
  from advance_loop_spec [OF assms(1) align_tick_mod this]
  show ?thesis by (cases "advance_loop (align_tick now) w") (auto simp: advance_def intro: that)
qed

lemma wheel_new_inv:
  "now \<le> time_limit \<Longrightarrow> wheel_inv (wheel_new now :: 'e wheel) \<and> pending (wheel_new now :: 'e wheel) = {#}"
  using align_tick_le [of now] by (auto simp: wheel_inv_def wheel_new_def pending_def)

section \<open>Operation sequences\<close>

datatype 'e wheel_op = WSchedule 'e nat | WAdvance nat

fun wheel_step :: "'e wheel \<Rightarrow> 'e wheel_op \<Rightarrow> ('e multiset \<times> 'e wheel) option" where
  "wheel_step w (WSchedule e d) = Some ({#}, schedule w e d)"
| "wheel_step w (WAdvance now) = Some (apfst mset (advance w now))"

text \<open>The specification: the current tick and the multiset of pending entries with their ticks.\<close>

fun pending_step :: "nat \<times> (nat \<times> 'e) multiset \<Rightarrow> 'e wheel_op \<Rightarrow> 'e multiset \<times> (nat \<times> (nat \<times> 'e) multiset)" where
  "pending_step (t, M) (WSchedule e d) = ({#}, (t, add_mset (fire_tick t d, e) M))"
| "pending_step (t, M) (WAdvance now) =
     (image_mset snd (filter_mset (\<lambda>p. fst p \<le> align_tick now) M),
      (max t (align_tick now), filter_mset (\<lambda>p. align_tick now < fst p) M))"

fun wheel_op_ok :: "nat \<times> (nat \<times> 'e) multiset \<Rightarrow> 'e wheel_op \<Rightarrow> bool" where
  "wheel_op_ok s (WSchedule e d) \<longleftrightarrow> True"
| "wheel_op_ok s (WAdvance now) \<longleftrightarrow> now \<le> time_limit"

definition wheel_rep :: "'e wheel \<Rightarrow> nat \<times> (nat \<times> 'e) multiset \<Rightarrow> bool" where
  "wheel_rep w s \<longleftrightarrow> wheel_inv w \<and> s = (last_tick_ms w, pending w)"

interpretation tw: simulation wheel_step pending_step wheel_rep wheel_op_ok
proof
  fix w :: "'e wheel" and s op
  assume "wheel_rep w s" and ok: "wheel_op_ok s op"
  then have inv: "wheel_inv w" and s: "s = (last_tick_ms w, pending w)" by (simp_all add: wheel_rep_def)
  show "\<exists>w'. wheel_step w op = Some (fst (pending_step s op), w') \<and> wheel_rep w' (snd (pending_step s op))"
  proof (cases op)
    case (WSchedule e d)
    then show ?thesis using schedule_spec [OF inv, of e d] s by (simp add: wheel_rep_def)
  next
    case (WAdvance now)
    then have "now \<le> time_limit" using ok by simp
    then obtain fired w' where "advance w now = (fired, w')" "wheel_inv w'"
        "last_tick_ms w' = max (last_tick_ms w) (align_tick now)"
        "mset fired = image_mset snd (filter_mset (\<lambda>p. fst p \<le> align_tick now) (pending w))"
        "pending w' = filter_mset (\<lambda>p. align_tick now < fst p) (pending w)"
      using advance_spec [OF inv] by blast
    then show ?thesis using WAdvance s by (simp add: wheel_rep_def)
  qed
qed

lemma schedule_fires_iff:
  assumes "wheel_inv w" and "e \<notin># image_mset snd (pending w)" and "now \<le> time_limit"
  shows "e \<in> set (fst (advance (schedule w e d) now)) \<longleftrightarrow> fire_tick (last_tick_ms w) d \<le> align_tick now"
proof -
  have s: "wheel_inv (schedule w e d)" "pending (schedule w e d) = add_mset (fire_tick (last_tick_ms w) d, e) (pending w)"
    using schedule_spec [OF assms(1), of e d] by simp_all
  obtain fired w' where a: "advance (schedule w e d) now = (fired, w')"
      "mset fired = image_mset snd (filter_mset (\<lambda>p. fst p \<le> align_tick now) (pending (schedule w e d)))"
    using advance_spec [OF s(1) assms(3)] by metis
  have "e \<in> set fired \<longleftrightarrow> e \<in># image_mset snd (filter_mset (\<lambda>p. fst p \<le> align_tick now) (pending (schedule w e d)))"
    using a(2) by (metis set_mset_mset)
  then show ?thesis using a(1) s(2) assms(2) by auto
qed

section \<open>Properties of the timer wheel\<close>

text \<open>C11. Over any sequence of schedulings and advances, every scheduled entry fires exactly once, in the
  advance that reaches the tick computed when it was scheduled, and no other entry fires: the slots,
  their wrap-around and the promotions from the overflow map neither lose nor duplicate an entry.\<close>

theorem wheel_fires_exactly_once:
  assumes "now \<le> time_limit" and "ok_ops pending_step wheel_op_ok (align_tick now, {#}) ops"
  shows "\<exists>w'. run_c wheel_step (wheel_new now) ops
           = Some (fst (run_a pending_step (align_tick now, {#}) ops), w') \<and>
         pending w' = snd (snd (run_a pending_step (align_tick now, {#}) ops))"
proof -
  have "wheel_rep (wheel_new now) (align_tick now, {#})"
    using wheel_new_inv [OF assms(1)] by (simp add: wheel_rep_def) (simp add: wheel_new_def)
  from tw.run [OF this assms(2)] show ?thesis by (auto simp: wheel_rep_def)
qed

theorem wheel_fires_exactly_once_witness:
  "\<exists>w'. run_c wheel_step (wheel_new 0) [WSchedule (7 :: nat) 60000, WSchedule 8 150, WAdvance 120, WAdvance 60000]
     = Some ([{#}, {#}, {#8#}, {#7#}], w')"
proof -
  let ?ops = "[WSchedule (7 :: nat) 60000, WSchedule 8 150, WAdvance 120, WAdvance 60000]"
  have "fire_tick 0 60000 = 60000" "fire_tick 0 150 = 100" "align_tick 0 = 0" "align_tick 120 = 100" "align_tick 60000 = 60000"
    by (simp_all add: fire_tick_def normalize_deadline_def align_tick_def overflow_due_def due_def slot_index_def)
  then have "fst (run_a pending_step (align_tick 0, {#}) ?ops) = [{#}, {#}, {#8#}, {#7#}]" by simp
  then show ?thesis using wheel_fires_exactly_once [of 0 ?ops] by auto
qed

text \<open>The tick at which an entry fires, from its deadline.\<close>

definition firing_tick :: "nat \<Rightarrow> nat \<Rightarrow> nat" where
  "firing_tick t d =
     (if d \<le> t then t + WHEEL_RESOLUTION_MS
      else if align_tick d = t \<or> slot_index t = 511 \<and> align_tick d = t + WHEEL_SPAN_MS \<and> d \<noteq> t + WHEEL_SPAN_MS
      then align_tick d + WHEEL_SPAN_MS
      else align_tick d)"

lemma fire_tick_firing:
  assumes "t mod 100 = 0" and "t \<le> time_limit"
  shows "fire_tick t d = firing_tick t d"
proof (cases "d \<le> t")
  case True
  have "align_tick (t + 100) = t + 100" using assms(1) by (simp add: align_tick_def)
  then show ?thesis using True assms by (simp add: fire_tick_def firing_tick_def normalize_deadline_def sat_add64_def Let_def)
next
  case False
  have "(t + WHEEL_SPAN_MS) mod 100 = 0" using assms(1) by (auto simp: mod_eq_0_iff_dvd)
  then have s: "align_tick (t + WHEEL_SPAN_MS) = t + WHEEL_SPAN_MS" by (simp add: align_tick_idem)
  have due: "due t 511 = t + WHEEL_SPAN_MS \<longleftrightarrow> slot_index t = 511"
    using slot_index_less [of t] by (auto simp: due_def simp del: slot_index_less)
  show ?thesis
  proof (cases "d \<le> t + WHEEL_SPAN_MS")
    case True
    then show ?thesis
      using False align_tick_le [of d] by (auto simp: fire_tick_def firing_tick_def normalize_deadline_def Let_def)
  next
    case late: False
    then have "t + WHEEL_SPAN_MS \<le> align_tick d" using align_tick_mono [of "t + WHEEL_SPAN_MS" d] s by simp
    moreover from this have "align_tick d = due t 511 \<longleftrightarrow> slot_index t = 511 \<and> align_tick d = t + WHEEL_SPAN_MS"
      using due due_bounds [of 511 t] by auto
    ultimately show ?thesis
      using False late by (simp add: fire_tick_def firing_tick_def normalize_deadline_def overflow_due_def Let_def)
  qed
qed

text \<open>An entry that is not scheduled again stays pending until an advance reaches its tick.\<close>

lemma pending_until:
  assumes "\<forall>d. WSchedule e d \<notin> set ops"
  shows "(k, e) \<in># snd (snd (run_a pending_step (t, M) ops)) \<longleftrightarrow>
           (k, e) \<in># M \<and> (\<forall>n. WAdvance n \<in> set ops \<longrightarrow> align_tick n < k)"
  using assms
proof (induction ops arbitrary: t M)
  case (Cons op ops)
  then have IH: "(k, e) \<in># snd (snd (run_a pending_step (t', M') ops)) \<longleftrightarrow>
      (k, e) \<in># M' \<and> (\<forall>n. WAdvance n \<in> set ops \<longrightarrow> align_tick n < k)" for t' M' by simp
  show ?case using Cons.prems by (cases op) (auto simp: IH split_beta Let_def)
qed simp

lemma wheel_ops_ok:
  "(\<And>n. WAdvance n \<in> set ops \<Longrightarrow> n \<le> time_limit) \<Longrightarrow> ok_ops pending_step wheel_op_ok s ops"
proof (induction ops arbitrary: s)
  case (Cons op ops)
  then show ?case by (cases op) auto
qed simp

text \<open>C12. The tick at which an entry fires follows from its deadline and the tick of the wheel when it is scheduled: the next
  tick for a deadline that has passed, otherwise the tick of the deadline, with two exceptions in which the entry fires one
  turn of 51.2 seconds late: a deadline later within the current tick, and one within the tick that is exactly a turn ahead
  but after its start, scheduled while the wheel stands at its last slot. Whatever advances and schedulings of other entries
  follow, the entry fires in the first advance that reaches this tick and in no other.\<close>

theorem scheduled_fires_on_time:
  assumes "wheel_inv w" and "e \<notin># image_mset snd (pending w)" and "\<forall>d. WSchedule e d \<notin> set ops"
    and "\<And>n. WAdvance n \<in> set (ops @ [WAdvance now]) \<Longrightarrow> n \<le> time_limit"
  shows "\<exists>outs w'. run_c wheel_step (schedule w e d) ops = Some (outs, w') \<and>
    (e \<in> set (fst (advance w' now)) \<longleftrightarrow>
       firing_tick (last_tick_ms w) d \<le> align_tick now \<and>
       (\<forall>n. WAdvance n \<in> set ops \<longrightarrow> align_tick n < firing_tick (last_tick_ms w) d))"
proof -
  let ?k = "firing_tick (last_tick_ms w) d" and ?M = "pending (schedule w e d)"
  let ?a = "snd (run_a pending_step (last_tick_ms (schedule w e d), ?M) ops)"
  have "last_tick_ms w mod 100 = 0" "last_tick_ms w \<le> time_limit" using assms(1) by (auto simp: wheel_inv_def)
  then have s: "wheel_inv (schedule w e d)" "?M = add_mset (?k, e) (pending w)"
    using schedule_spec [OF assms(1), of e d] fire_tick_firing by simp_all
  then have rep: "wheel_rep (schedule w e d) (last_tick_ms (schedule w e d), ?M)" by (simp add: wheel_rep_def)
  obtain w' where w': "run_c wheel_step (schedule w e d) ops =
      Some (fst (run_a pending_step (last_tick_ms (schedule w e d), ?M) ops), w')" "wheel_rep w' ?a"
    using tw.run [OF rep wheel_ops_ok [of ops]] assms(4) by auto
  have inv: "wheel_inv w'" "pending w' = snd ?a" using w'(2) by (auto simp: wheel_rep_def)
  obtain fired w'' where a: "advance w' now = (fired, w'')"
      "mset fired = image_mset snd (filter_mset (\<lambda>p. fst p \<le> align_tick now) (pending w'))"
    using advance_spec [OF inv(1), of now] assms(4) by (metis in_set_conv_decomp)
  have "e \<in> set fired \<longleftrightarrow> (\<exists>k. (k, e) \<in># pending w' \<and> k \<le> align_tick now)"
    using arg_cong [OF a(2), of set_mset] by force
  also have "\<dots> \<longleftrightarrow> ?k \<le> align_tick now \<and> (\<forall>n. WAdvance n \<in> set ops \<longrightarrow> align_tick n < ?k)"
    using assms(2) unfolding inv(2) pending_until [OF assms(3)] s(2) by force
  finally show ?thesis using w'(1) a(1) by auto
qed

text \<open>A deadline at 250 ms with advances to 150 ms and 260 ms, and another entry in between.\<close>

theorem scheduled_fires_on_time_witness:
  "\<exists>outs w'. run_c wheel_step (schedule (wheel_new 0) (7 :: nat) 250) [WAdvance 150, WSchedule 8 170] = Some (outs, w') \<and>
     7 \<in> set (fst (advance w' 260))"
proof -
  have w: "wheel_inv (wheel_new 0 :: nat wheel)" "(7 :: nat) \<notin># image_mset snd (pending (wheel_new 0))"
    using wheel_new_inv [where ?'e = nat and now = 0] by simp_all
  have t: "firing_tick 0 250 = 200" "align_tick 260 = 200" "align_tick 150 = 100" "last_tick_ms (wheel_new 0 :: nat wheel) = 0"
    by (simp_all add: align_tick_def wheel_new_def firing_tick_def)
  show ?thesis
    using scheduled_fires_on_time [OF w, of "[WAdvance 150, WSchedule 8 170]" 260 250] t by fastforce
qed

text \<open>An entry whose deadline lies in the current tick is put into the slot that was just drained: it
  fires a full turn of 51.2 seconds later.\<close>

lemma current_tick_fires_late:
  assumes "wheel_inv w" and "e \<notin># image_mset snd (pending w)" and "now \<le> time_limit"
    and "last_tick_ms w < d" and "align_tick d = last_tick_ms w"
  shows "e \<in> set (fst (advance (schedule w e d) now)) \<longleftrightarrow> last_tick_ms w + WHEEL_SPAN_MS \<le> align_tick now"
proof -
  have "fire_tick (last_tick_ms w) d = last_tick_ms w + WHEEL_SPAN_MS"
    using assms(4,5) align_tick_lt [of d] by (auto simp: fire_tick_def normalize_deadline_def Let_def)
  then show ?thesis using schedule_fires_iff [OF assms(1-3), of d] by simp
qed

lemma current_tick_fires_late_witness:
  "7 \<notin> set (fst (advance (schedule (wheel_new 0) (7 :: nat) 50) 51199)) \<and>
   7 \<in> set (fst (advance (schedule (wheel_new 0) (7 :: nat) 50) 51200))"
proof -
  have w: "wheel_inv (wheel_new 0 :: nat wheel)" "(7 :: nat) \<notin># image_mset snd (pending (wheel_new 0))"
    using wheel_new_inv [where ?'e = nat and now = 0] by simp_all
  have t: "align_tick 50 = 0" "align_tick 51199 = 51100" "align_tick 51200 = 51200" "last_tick_ms (wheel_new 0 :: nat wheel) = 0"
    by (simp_all add: align_tick_def wheel_new_def)
  show ?thesis
    using current_tick_fires_late [OF w, of 51199 50] current_tick_fires_late [OF w, of 51200 50] t by simp
qed

end
