(* ===== verification/RespProtocol.thy ===== *)
theory RespProtocol
  imports Float64
begin

text \<open>
  The RESP protocol of the crate senko-proto: frames and aggregates (frame.rs), the zero-copy
  parser (parser.rs), the serializer with its exact buffer sizing (serializer.rs) and the
  aggregate iterator. Byte slices are byte lists, \<open>usize\<close> values are natural numbers with the
  64-bit wrap-around of release builds written out where an attacker-controlled length enters,
  and a slice out of range is a panic. The crates memchr, itoa and ryu, and the decimal
  conversion of floating-point numbers, are fields of the record \<open>resp_deps\<close>; the predicate
  \<open>resp_laws\<close> states what the code relies on. The property theorems are at the end of the theory.
\<close>

section \<open>Third-party functions\<close>

record resp_deps =
  memchr :: "byte \<Rightarrow> bytes \<Rightarrow> nat option"
  itoa :: "int \<Rightarrow> bytes"
  ryu :: "f64 \<Rightarrow> bytes"
  str_to_f64 :: "bytes \<Rightarrow> f64 option"

section \<open>Frames\<close>

datatype aggregate_kind = KArray | KMap | KSet | KPush

datatype aggregate_encoding = EncResp | EncInline

record aggregate =
  kind :: aggregate_kind
  len :: nat
  data :: bytes
  encoding :: aggregate_encoding

datatype frame =
    SimpleString bytes
  | SimpleError bytes
  | Integer int
  | BulkString bytes
  | Array aggregate
  | Null
  | Boolean bool
  | Double f64
  | BigNumber bytes
  | BlobError bytes
  | VerbatimString bytes bytes
  | Map aggregate
  | Set aggregate
  | Push aggregate

fun frame_aggregate :: "frame \<Rightarrow> aggregate option" where
  "frame_aggregate (Array a) = Some a"
| "frame_aggregate (Map a) = Some a"
| "frame_aggregate (Set a) = Some a"
| "frame_aggregate (Push a) = Some a"
| "frame_aggregate _ = None"

datatype parse_status = Complete frame nat | Incomplete nat

datatype resp_error = Utf8Error | ParseIntError | ParseFloatError | Protocol string

type_synonym presult = "(resp_error, parse_status) outcome"

section \<open>The parser\<close>

definition find_crlf :: "resp_deps \<Rightarrow> bytes \<Rightarrow> nat \<Rightarrow> (bytes \<times> nat) option" where
  "find_crlf D input start =
     (if length input < start then None
      else case memchr D CR (drop start input) of
             None \<Rightarrow> None
           | Some rel \<Rightarrow>
               (let pos = start + rel in
                if get_at input (pos + 1) \<noteq> Some LF then None
                else Some (take rel (drop start input), pos + 2)))"

definition is_blank :: "byte \<Rightarrow> bool" where
  "is_blank b \<longleftrightarrow> b = SP \<or> b = TAB"

definition trim_ascii_whitespace :: "bytes \<Rightarrow> bytes" where
  "trim_ascii_whitespace input = rev (dropWhile is_blank (rev (dropWhile is_blank input)))"

fun count_inline_loop :: "nat \<Rightarrow> bool \<Rightarrow> bytes \<Rightarrow> nat" where
  "count_inline_loop count in_token [] = count"
| "count_inline_loop count in_token (b # bs) =
     (if is_blank b then count_inline_loop count False bs
      else if \<not> in_token then count_inline_loop (count + 1) True bs
      else count_inline_loop count in_token bs)"

definition count_inline_args :: "bytes \<Rightarrow> nat" where
  "count_inline_args input = count_inline_loop 0 False input"

definition parse_i64 :: "bytes \<Rightarrow> (resp_error, int) outcome" where
  "parse_i64 input =
     (if \<not> utf8_valid input then Err Utf8Error
      else case parse_signed i64_min i64_max input of None \<Rightarrow> Err ParseIntError | Some v \<Rightarrow> Ok v)"

definition parse_isize :: "bytes \<Rightarrow> (resp_error, int) outcome" where
  "parse_isize input =
     (if \<not> utf8_valid input then Err Utf8Error
      else case parse_signed i64_min i64_max input of None \<Rightarrow> Err ParseIntError | Some v \<Rightarrow> Ok v)"

definition parse_usize :: "bytes \<Rightarrow> (resp_error, nat) outcome" where
  "parse_usize input =
     (if \<not> utf8_valid input then Err Utf8Error
      else case parse_unsigned u64_max input of None \<Rightarrow> Err ParseIntError | Some v \<Rightarrow> Ok v)"

definition parse_line_prefixed :: "resp_deps \<Rightarrow> bytes \<Rightarrow> (bytes \<Rightarrow> frame) \<Rightarrow> presult" where
  "parse_line_prefixed D input build =
     (case find_crlf D input 1 of
        None \<Rightarrow> Ok (Incomplete (length input + 2))
      | Some (line, consumed) \<Rightarrow> Ok (Complete (build line) consumed))"

definition parse_integer :: "resp_deps \<Rightarrow> bytes \<Rightarrow> presult" where
  "parse_integer D input =
     (case find_crlf D input 1 of
        None \<Rightarrow> Ok (Incomplete (length input + 2))
      | Some (line, consumed) \<Rightarrow>
          (case parse_i64 line of
             Ok value \<Rightarrow> Ok (Complete (Integer value) consumed)
           | Err e \<Rightarrow> Err e | Panic \<Rightarrow> Panic | OutOfFuel \<Rightarrow> OutOfFuel))"

definition parse_null :: "bytes \<Rightarrow> presult" where
  "parse_null input =
     (if length input < 3 then Ok (Incomplete 3)
      else if take 3 input \<noteq> [95, CR, LF] then Err (Protocol ''invalid null frame'')
      else Ok (Complete Null 3))"

definition parse_boolean :: "bytes \<Rightarrow> presult" where
  "parse_boolean input =
     (if length input < 4 then Ok (Incomplete 4)
      else if take 4 input = [35, 116, CR, LF] then Ok (Complete (Boolean True) 4)
      else if take 4 input = [35, 102, CR, LF] then Ok (Complete (Boolean False) 4)
      else Err (Protocol ''invalid boolean frame''))"

definition parse_double :: "resp_deps \<Rightarrow> bytes \<Rightarrow> presult" where
  "parse_double D input =
     (case find_crlf D input 1 of
        None \<Rightarrow> Ok (Incomplete (length input + 2))
      | Some (line, consumed) \<Rightarrow>
          (if \<not> utf8_valid line then Err Utf8Error
           else case str_to_f64 D line of
                  None \<Rightarrow> Err ParseFloatError
                | Some value \<Rightarrow> Ok (Complete (Double value) consumed)))"

text \<open>
  The common tail of the length-prefixed frames: the two bytes after the payload are compared
  with CRLF, then the payload is sliced. The index expressions wrap at 64 bits.
\<close>

definition crlf_payload :: "bytes \<Rightarrow> nat \<Rightarrow> nat \<Rightarrow> string \<Rightarrow> (resp_error, bytes) outcome" where
  "crlf_payload input header_consumed n msg =
     (let stop = wrap64 (header_consumed + n); total = wrap64 (header_consumed + n + 2) in
      case slice input stop total of
        None \<Rightarrow> Panic
      | Some tail \<Rightarrow>
          (if tail \<noteq> crlf then Err (Protocol msg)
           else case slice input header_consumed stop of None \<Rightarrow> Panic | Some d \<Rightarrow> Ok d))"

definition parse_bulk_string :: "resp_deps \<Rightarrow> bytes \<Rightarrow> presult" where
  "parse_bulk_string D input =
     (case find_crlf D input 1 of
        None \<Rightarrow> Ok (Incomplete (length input + 2))
      | Some (line, header_consumed) \<Rightarrow>
          (case parse_isize line of
             Err e \<Rightarrow> Err e | Panic \<Rightarrow> Panic | OutOfFuel \<Rightarrow> OutOfFuel
           | Ok n \<Rightarrow>
               (if n < 0 then Ok (Complete Null header_consumed)
                else let total = wrap64 (header_consumed + nat n + 2) in
                  if length input < total then Ok (Incomplete total)
                  else case crlf_payload input header_consumed (nat n)
                              ''bulk string missing trailing CRLF'' of
                         Ok d \<Rightarrow> Ok (Complete (BulkString d) total)
                       | Err e \<Rightarrow> Err e | Panic \<Rightarrow> Panic | OutOfFuel \<Rightarrow> OutOfFuel)))"

definition parse_blob_error :: "resp_deps \<Rightarrow> bytes \<Rightarrow> presult" where
  "parse_blob_error D input =
     (case find_crlf D input 1 of
        None \<Rightarrow> Ok (Incomplete (length input + 2))
      | Some (line, header_consumed) \<Rightarrow>
          (case parse_usize line of
             Err e \<Rightarrow> Err e | Panic \<Rightarrow> Panic | OutOfFuel \<Rightarrow> OutOfFuel
           | Ok n \<Rightarrow>
               (let total = wrap64 (header_consumed + n + 2) in
                if length input < total then Ok (Incomplete total)
                else case crlf_payload input header_consumed n
                            ''blob error missing trailing CRLF'' of
                       Ok d \<Rightarrow> Ok (Complete (BlobError d) total)
                     | Err e \<Rightarrow> Err e | Panic \<Rightarrow> Panic | OutOfFuel \<Rightarrow> OutOfFuel)))"

definition parse_verbatim_string :: "resp_deps \<Rightarrow> bytes \<Rightarrow> presult" where
  "parse_verbatim_string D input =
     (case find_crlf D input 1 of
        None \<Rightarrow> Ok (Incomplete (length input + 2))
      | Some (line, header_consumed) \<Rightarrow>
          (case parse_usize line of
             Err e \<Rightarrow> Err e | Panic \<Rightarrow> Panic | OutOfFuel \<Rightarrow> OutOfFuel
           | Ok n \<Rightarrow>
               (let total = wrap64 (header_consumed + n + 2) in
                if length input < total then Ok (Incomplete total)
                else if n < 4 then Err (Protocol ''verbatim string too short'')
                else case crlf_payload input header_consumed n
                            ''verbatim string missing trailing CRLF'' of
                       Err e \<Rightarrow> Err e | Panic \<Rightarrow> Panic | OutOfFuel \<Rightarrow> OutOfFuel
                     | Ok payload \<Rightarrow>
                         (if get_at payload 3 \<noteq> Some 58
                          then Err (Protocol ''verbatim string missing format separator'')
                          else Ok (Complete (VerbatimString (take 3 payload) (drop 4 payload))
                                     total)))))"

definition mk_aggregate_frame :: "aggregate_kind \<Rightarrow> aggregate \<Rightarrow> frame" where
  "mk_aggregate_frame k a =
     (case k of KArray \<Rightarrow> Array a | KMap \<Rightarrow> Map a | KSet \<Rightarrow> Set a | KPush \<Rightarrow> Push a)"

text \<open>
  The element loop of \<open>parse_aggregate\<close>: \<open>pf\<close> is the recursive \<open>parse_frame\<close> call, the last
  argument counts the elements still expected. \<open>Inr\<close> is the position after the last element,
  \<open>Inl\<close> the number of bytes needed, a sum that wraps at 64 bits.
\<close>

fun agg_loop :: "(bytes \<Rightarrow> bool \<Rightarrow> presult) \<Rightarrow> bytes \<Rightarrow> nat \<Rightarrow> nat \<Rightarrow> (resp_error, nat + nat) outcome"
  where
  "agg_loop pf input consumed 0 = Ok (Inr consumed)"
| "agg_loop pf input consumed (Suc n) =
     (if length input < consumed then Panic
      else case pf (drop consumed input) False of
             Ok (Complete _ used) \<Rightarrow> agg_loop pf input (consumed + used) n
           | Ok (Incomplete needed) \<Rightarrow> Ok (Inl (wrap64 (consumed + needed)))
           | Err e \<Rightarrow> Err e | Panic \<Rightarrow> Panic | OutOfFuel \<Rightarrow> OutOfFuel)"

definition agg_expected :: "aggregate_kind \<Rightarrow> nat \<Rightarrow> nat" where
  "agg_expected k n = (case k of KMap \<Rightarrow> sat_mul64 n 2 | _ \<Rightarrow> n)"

definition parse_aggregate ::
    "resp_deps \<Rightarrow> (bytes \<Rightarrow> bool \<Rightarrow> presult) \<Rightarrow> bytes \<Rightarrow> aggregate_kind \<Rightarrow> presult" where
  "parse_aggregate D pf input k =
     (case find_crlf D input 1 of
        None \<Rightarrow> Ok (Incomplete (length input + 2))
      | Some (line, header_consumed) \<Rightarrow>
          (case parse_isize line of
             Err e \<Rightarrow> Err e | Panic \<Rightarrow> Panic | OutOfFuel \<Rightarrow> OutOfFuel
           | Ok n \<Rightarrow>
               (if n < 0 then Ok (Complete Null header_consumed)
                else case agg_loop pf input header_consumed (agg_expected k (nat n)) of
                       Err e \<Rightarrow> Err e | Panic \<Rightarrow> Panic | OutOfFuel \<Rightarrow> OutOfFuel
                     | Ok (Inl needed) \<Rightarrow> Ok (Incomplete needed)
                     | Ok (Inr consumed) \<Rightarrow>
                         Ok (Complete
                           (mk_aggregate_frame k
                              \<lparr>kind = k, len = nat n,
                               data = take (consumed - header_consumed) (drop header_consumed input),
                               encoding = EncResp\<rparr>)
                           consumed))))"

definition parse_inline :: "resp_deps \<Rightarrow> bytes \<Rightarrow> presult" where
  "parse_inline D input =
     (case find_crlf D input 0 of
        None \<Rightarrow> Ok (Incomplete (length input + 2))
      | Some (line, consumed) \<Rightarrow>
          (let trimmed = trim_ascii_whitespace line in
           if trimmed = [] then Err (Protocol ''empty inline command'')
           else Ok (Complete (Array \<lparr>kind = KArray, len = count_inline_args trimmed,
                                     data = trimmed, encoding = EncInline\<rparr>) consumed)))"

primrec parse_frame :: "resp_deps \<Rightarrow> nat \<Rightarrow> bytes \<Rightarrow> bool \<Rightarrow> presult" where
  "parse_frame D 0 = (\<lambda>input inline. OutOfFuel)"
| "parse_frame D (Suc fuel) = (\<lambda>input inline.
     (case input of
        [] \<Rightarrow> Ok (Incomplete 1)
      | prefix # _ \<Rightarrow>
          (if prefix = 43 then parse_line_prefixed D input SimpleString
           else if prefix = 45 then parse_line_prefixed D input SimpleError
           else if prefix = 58 then parse_integer D input
           else if prefix = 36 then parse_bulk_string D input
           else if prefix = 42 then parse_aggregate D (parse_frame D fuel) input KArray
           else if prefix = 95 then parse_null input
           else if prefix = 35 then parse_boolean input
           else if prefix = 44 then parse_double D input
           else if prefix = 40 then parse_line_prefixed D input BigNumber
           else if prefix = 33 then parse_blob_error D input
           else if prefix = 61 then parse_verbatim_string D input
           else if prefix = 37 then parse_aggregate D (parse_frame D fuel) input KMap
           else if prefix = 126 then parse_aggregate D (parse_frame D fuel) input KSet
           else if prefix = 62 then parse_aggregate D (parse_frame D fuel) input KPush
           else if prefix = CR \<or> prefix = LF then Err (Protocol ''unexpected line break'')
           else if inline then parse_inline D input
           else Err (Protocol ''unsupported RESP type prefix''))))"

text \<open>
  \<open>RespParser::parse\<close>. Each nested aggregate consumes a header of at least three bytes, so one
  unit of fuel per input byte and one more is enough (\<open>parse_total\<close>).
\<close>

definition parse :: "resp_deps \<Rightarrow> bytes \<Rightarrow> presult" where
  "parse D input = parse_frame D (Suc (length input)) input True"

section \<open>The aggregate iterator\<close>

record frame_iter =
  it_aggregate :: aggregate
  it_consumed :: nat
  it_emitted :: nat

definition aggregate_iter :: "aggregate \<Rightarrow> frame_iter" where
  "aggregate_iter a = \<lparr>it_aggregate = a, it_consumed = 0, it_emitted = 0\<rparr>"

definition iter_next ::
    "resp_deps \<Rightarrow> frame_iter \<Rightarrow> (resp_error, frame) outcome option \<times> frame_iter" where
  "iter_next D it =
     (let a = it_aggregate it in
      if it_emitted it = len a then (None, it)
      else if length (data a) < it_consumed it then (Some Panic, it)
      else case encoding a of
        EncResp \<Rightarrow>
          (case parse D (drop (it_consumed it) (data a)) of
             Ok (Complete f used) \<Rightarrow>
               (Some (Ok f), it\<lparr>it_consumed := it_consumed it + used,
                               it_emitted := it_emitted it + 1\<rparr>)
           | Ok (Incomplete _) \<Rightarrow> (Some (Err (Protocol ''aggregate data ended mid-frame'')), it)
           | Err e \<Rightarrow> (Some (Err e), it)
           | Panic \<Rightarrow> (Some Panic, it)
           | OutOfFuel \<Rightarrow> (Some OutOfFuel, it))
      | EncInline \<Rightarrow>
          (let remaining = drop (it_consumed it) (data a);
               next = (case position is_blank remaining of Some i \<Rightarrow> i | None \<Rightarrow> length remaining);
               skipped = length (takeWhile is_blank (drop next remaining))
           in (Some (Ok (BulkString (take next remaining))),
               it\<lparr>it_consumed := it_consumed it + next + skipped,
                  it_emitted := it_emitted it + 1\<rparr>)))"

text \<open>
  The client's loop over an aggregate (the command dispatcher collects the frames and stops at
  the first error); the second argument bounds the number of calls, one more than \<open>len\<close>.
\<close>

fun iter_collect :: "resp_deps \<Rightarrow> nat \<Rightarrow> frame_iter \<Rightarrow> (resp_error, frame list) outcome" where
  "iter_collect D 0 it = OutOfFuel"
| "iter_collect D (Suc n) it =
     (case iter_next D it of
        (None, _) \<Rightarrow> Ok []
      | (Some (Ok f), it') \<Rightarrow>
          (case iter_collect D n it' of
             Ok fs \<Rightarrow> Ok (f # fs)
           | Err e \<Rightarrow> Err e | Panic \<Rightarrow> Panic | OutOfFuel \<Rightarrow> OutOfFuel)
      | (Some (Err e), _) \<Rightarrow> Err e
      | (Some Panic, _) \<Rightarrow> Panic
      | (Some OutOfFuel, _) \<Rightarrow> OutOfFuel)"

definition collect_frames :: "resp_deps \<Rightarrow> aggregate \<Rightarrow> (resp_error, frame list) outcome" where
  "collect_frames D a = iter_collect D (Suc (len a)) (aggregate_iter a)"

section \<open>The serializer\<close>

definition write_simple_string :: "bytes \<Rightarrow> bytes \<Rightarrow> bytes" where
  "write_simple_string out value = out @ [43] @ value @ crlf"

definition write_error :: "bytes \<Rightarrow> bytes \<Rightarrow> bytes" where
  "write_error out value = out @ [45] @ value @ crlf"

definition write_integer :: "resp_deps \<Rightarrow> bytes \<Rightarrow> int \<Rightarrow> bytes" where
  "write_integer D out value = out @ [58] @ itoa D value @ crlf"

definition write_bulk_string :: "resp_deps \<Rightarrow> bytes \<Rightarrow> bytes \<Rightarrow> bytes" where
  "write_bulk_string D out value = out @ [36] @ itoa D (int (length value)) @ crlf @ value @ crlf"

definition write_null :: "bytes \<Rightarrow> bytes" where
  "write_null out = out @ [95, CR, LF]"

definition write_array_header :: "resp_deps \<Rightarrow> bytes \<Rightarrow> nat \<Rightarrow> bytes" where
  "write_array_header D out n = out @ [42] @ itoa D (int n) @ crlf"

definition write_raw_map_header :: "resp_deps \<Rightarrow> bytes \<Rightarrow> nat \<Rightarrow> bytes" where
  "write_raw_map_header D out n = out @ [37] @ itoa D (int n) @ crlf"

definition write_ok :: "bytes \<Rightarrow> bytes" where
  "write_ok out = out @ [43, 79, 75, CR, LF]"

definition write_nil_bulk :: "bytes \<Rightarrow> bytes" where
  "write_nil_bulk out = out @ [36, 45, 49, CR, LF]"

definition write_aggregate :: "resp_deps \<Rightarrow> bytes \<Rightarrow> aggregate \<Rightarrow> bytes" where
  "write_aggregate D out a =
     (case encoding a of
        EncResp \<Rightarrow>
          out @ [case kind a of KArray \<Rightarrow> 42 | KMap \<Rightarrow> 37 | KSet \<Rightarrow> 126 | KPush \<Rightarrow> 62]
              @ itoa D (int (len a)) @ crlf @ data a
      | EncInline \<Rightarrow> out @ data a @ crlf)"

fun write_frame :: "resp_deps \<Rightarrow> bytes \<Rightarrow> frame \<Rightarrow> bytes" where
  "write_frame D out (SimpleString value) = write_simple_string out value"
| "write_frame D out (SimpleError value) = write_error out value"
| "write_frame D out (Integer value) = write_integer D out value"
| "write_frame D out (BulkString value) = write_bulk_string D out value"
| "write_frame D out (Array a) = write_aggregate D out a"
| "write_frame D out Null = write_null out"
| "write_frame D out (Boolean value) =
     out @ (if value then [35, 116, CR, LF] else [35, 102, CR, LF])"
| "write_frame D out (Double value) = out @ [44] @ ryu D value @ crlf"
| "write_frame D out (BigNumber value) = out @ [40] @ value @ crlf"
| "write_frame D out (BlobError value) =
     out @ [33] @ itoa D (int (length value)) @ crlf @ value @ crlf"
| "write_frame D out (VerbatimString enc d) =
     out @ [61] @ itoa D (int (length enc + 1 + length d)) @ crlf @ enc @ [58] @ d @ crlf"
| "write_frame D out (Map a) = write_aggregate D out a"
| "write_frame D out (Set a) = write_aggregate D out a"
| "write_frame D out (Push a) = write_aggregate D out a"

definition serialize :: "resp_deps \<Rightarrow> frame \<Rightarrow> bytes" where
  "serialize D f = write_frame D [] f"

fun decimal_len_loop :: "nat \<Rightarrow> nat \<Rightarrow> nat" where
  "decimal_len_loop value digits =
     (if 10 \<le> value then decimal_len_loop (value div 10) (digits + 1) else digits)"

declare decimal_len_loop.simps [simp del]

definition decimal_len :: "nat \<Rightarrow> nat" where
  "decimal_len value = decimal_len_loop value 1"

definition integer_wire_len :: "int \<Rightarrow> nat" where
  "integer_wire_len value =
     1 + (if value = -1 then 2
          else if value < 0 then 1 + decimal_len (nat \<bar>value\<bar>)
          else decimal_len (nat value)) + 2"

definition double_len :: "resp_deps \<Rightarrow> f64 \<Rightarrow> nat" where
  "double_len D value = length (ryu D value)"

definition aggregate_wire_len :: "aggregate \<Rightarrow> nat" where
  "aggregate_wire_len a =
     (case encoding a of
        EncResp \<Rightarrow> 1 + decimal_len (len a) + 2 + length (data a)
      | EncInline \<Rightarrow> length (data a) + 2)"

fun encoded_len :: "resp_deps \<Rightarrow> frame \<Rightarrow> nat" where
  "encoded_len D (SimpleString value) = 1 + length value + 2"
| "encoded_len D (SimpleError value) = 1 + length value + 2"
| "encoded_len D (BigNumber value) = 1 + length value + 2"
| "encoded_len D (Integer value) = integer_wire_len value"
| "encoded_len D (BulkString value) = 1 + decimal_len (length value) + 2 + length value + 2"
| "encoded_len D (BlobError value) = 1 + decimal_len (length value) + 2 + length value + 2"
| "encoded_len D (Array a) = aggregate_wire_len a"
| "encoded_len D (Map a) = aggregate_wire_len a"
| "encoded_len D (Set a) = aggregate_wire_len a"
| "encoded_len D (Push a) = aggregate_wire_len a"
| "encoded_len D Null = 3"
| "encoded_len D (Boolean _) = 4"
| "encoded_len D (Double value) = 1 + double_len D value + 2"
| "encoded_len D (VerbatimString enc d) =
     (let payload_len = length enc + 1 + length d in 1 + decimal_len payload_len + 2 + payload_len + 2)"


section \<open>What the code relies on of the third-party functions\<close>

text \<open>
  memchr returns the index of the first occurrence; itoa prints decimal; ryu prints one line of
  ASCII that \<open>str::parse\<close> reads back as the same number unless it is not a number.
\<close>

definition resp_laws :: "resp_deps \<Rightarrow> bool" where
  "resp_laws D \<longleftrightarrow>
     (\<forall>b xs. memchr D b xs = position (\<lambda>x. x = b) xs) \<and>
     (\<forall>n. itoa D n = dec_int n) \<and>
     (\<forall>x. CR \<notin> set (ryu D x)) \<and>
     (\<forall>x. utf8_valid (ryu D x)) \<and>
     (\<forall>x. \<not> is_nan x \<longrightarrow> str_to_f64 D (ryu D x) = Some x)"

lemma resp_lawsD:
  assumes "resp_laws D"
  shows "memchr D b xs = position (\<lambda>x. x = b) xs"
    and "itoa D n = dec_int n"
    and "CR \<notin> set (ryu D x)"
    and "utf8_valid (ryu D x)"
    and "\<not> is_nan x \<Longrightarrow> str_to_f64 D (ryu D x) = Some x"
  using assms by (auto simp: resp_laws_def)

text \<open>A concrete instance of the record: it prints a double by its bit pattern.\<close>

definition reference_deps :: resp_deps where
  "reference_deps =
     \<lparr>memchr = (\<lambda>b. position (\<lambda>x. x = b)), itoa = dec_int, ryu = (\<lambda>x. dec_nat (unat x)),
      str_to_f64 = (\<lambda>s. map_option of_nat (parse_unsigned u64_max s))\<rparr>"

lemma reference_deps_laws: "resp_laws reference_deps"
proof -
  have "parse_unsigned u64_max (dec_nat (unat (x :: f64))) = Some (unat x)" for x
    using unsigned_less [of x, where 'a = nat] by (intro parse_unsigned_dec_nat) simp
  then show ?thesis by (simp add: resp_laws_def reference_deps_def)
qed

section \<open>Dispatch\<close>

lemma if_both:
  "(c \<Longrightarrow> P a b) \<Longrightarrow> (\<not> c \<Longrightarrow> P a' b') \<Longrightarrow> P (if c then a else a') (if c then b else b')"
  by simp

text \<open>To show a property of the dispatch, show it of every branch; the branches are named alike in
  a comparison of two fuels or two inputs.\<close>

lemma parse_frame_dispatch:
  assumes "\<And>build. P (parse_line_prefixed D (b # bs) build) (parse_line_prefixed D (b # cs) build)"
    and "P (parse_integer D (b # bs)) (parse_integer D (b # cs))"
    and "P (parse_double D (b # bs)) (parse_double D (b # cs))"
    and "P (parse_inline D (b # bs)) (parse_inline D (b # cs))"
    and "P (parse_null (b # bs)) (parse_null (b # cs))"
    and "P (parse_boolean (b # bs)) (parse_boolean (b # cs))"
    and "P (parse_bulk_string D (b # bs)) (parse_bulk_string D (b # cs))"
    and "P (parse_blob_error D (b # bs)) (parse_blob_error D (b # cs))"
    and "P (parse_verbatim_string D (b # bs)) (parse_verbatim_string D (b # cs))"
    and "\<And>k. P (parse_aggregate D (parse_frame D f) (b # bs) k)
                (parse_aggregate D (parse_frame D g) (b # cs) k)"
    and "\<And>e. P (Err e) (Err e)"
  shows "P (parse_frame D (Suc f) (b # bs) inl) (parse_frame D (Suc g) (b # cs) inl)"
  unfolding parse_frame.simps list.case by (intro if_both [where P = P] assms)

section \<open>Bounds of one step\<close>

lemma find_crlf_SomeD:
  "find_crlf D input start = Some (line, c) \<Longrightarrow>
     start + 2 \<le> c \<and> c \<le> length input \<and> line = take (c - 2 - start) (drop start input)"
  by (auto simp: find_crlf_def Let_def get_at_Some_iff split: option.splits if_splits)

lemma crlf_payload_OkD:
  assumes "crlf_payload input h n msg = Ok d" and "h \<le> length input"
  shows "wrap64 (h + n + 2) = wrap64 (h + n) + 2" and "h \<le> wrap64 (h + n)"
    and "wrap64 (h + n + 2) \<le> length input"
proof -
  from assms(1) obtain t where t: "slice input (wrap64 (h + n)) (wrap64 (h + n + 2)) = Some t"
      and tc: "t = crlf" and h: "slice input h (wrap64 (h + n)) = Some d"
    by (auto simp: crlf_payload_def Let_def split: option.splits if_splits)
  from t have le: "wrap64 (h + n) \<le> wrap64 (h + n + 2)" "wrap64 (h + n + 2) \<le> length input"
    and teq: "t = take (wrap64 (h + n + 2) - wrap64 (h + n)) (drop (wrap64 (h + n)) input)"
    by (auto simp: slice_Some_iff)
  have "length t = wrap64 (h + n + 2) - wrap64 (h + n)" using le by (simp add: teq)
  with tc le show "wrap64 (h + n + 2) = wrap64 (h + n) + 2" by simp
  show "h \<le> wrap64 (h + n)" using h by (simp add: slice_Some_iff)
  show "wrap64 (h + n + 2) \<le> length input" by (rule le)
qed

text \<open>\<open>bounded n r\<close>: a complete frame uses between one and \<open>n\<close> bytes.\<close>

definition bounded :: "nat \<Rightarrow> presult \<Rightarrow> bool" where
  "bounded n r \<longleftrightarrow>
     (case r of Ok (Complete _ u) \<Rightarrow> 0 < u \<and> u \<le> n | _ \<Rightarrow> True)"

lemma bounded_simps [simp]:
  "bounded n (Ok (Complete f u)) \<longleftrightarrow> 0 < u \<and> u \<le> n" "bounded n (Ok (Incomplete k))"
  "bounded n (Err e)" "bounded n Panic" "bounded n OutOfFuel"
  by (auto simp: bounded_def)

lemma bounded_line_parsers:
  "bounded (length input) (parse_line_prefixed D input build)"
  "bounded (length input) (parse_integer D input)"
  "bounded (length input) (parse_double D input)"
  "bounded (length input) (parse_inline D input)"
  by (auto simp: parse_line_prefixed_def parse_integer_def parse_double_def parse_inline_def Let_def
      split: option.splits outcome.splits dest!: find_crlf_SomeD)

lemma bounded_fixed_parsers:
  "bounded (length input) (parse_null input)" "bounded (length input) (parse_boolean input)"
  by (auto simp: parse_null_def parse_boolean_def)

lemma bounded_payload_parsers:
  "bounded (length input) (parse_bulk_string D input)"
  "bounded (length input) (parse_blob_error D input)"
  "bounded (length input) (parse_verbatim_string D input)"
  by (auto simp: parse_bulk_string_def parse_blob_error_def parse_verbatim_string_def Let_def
      split: option.splits outcome.splits dest!: find_crlf_SomeD crlf_payload_OkD(1))

lemma agg_loop_bounded:
  assumes pf: "\<And>xs. bounded (length xs) (pf xs False)" and "c \<le> length input"
  shows "case agg_loop pf input c n of
           Ok (Inr c') \<Rightarrow> c \<le> c' \<and> c' \<le> length input
         | _ \<Rightarrow> True"
  using assms(2)
proof (induction n arbitrary: c)
  case 0
  then show ?case by simp
next
  case (Suc n)
  show ?case
  proof (cases "pf (drop c input) False")
    case (Ok st)
    show ?thesis
    proof (cases st)
      case (Complete f u)
      with Ok pf [of "drop c input"] Suc.prems have u: "0 < u" "c + u \<le> length input" by auto
      from Suc.IH [OF u(2)] u Suc.prems Ok Complete show ?thesis
        by (auto split: outcome.splits sum.splits)
    next
      case (Incomplete k)
      with Ok pf [of "drop c input"] Suc.prems show ?thesis by auto
    qed
  qed (use Suc.prems in auto)
qed

lemma bounded_parse_aggregate:
  assumes "\<And>xs. bounded (length xs) (pf xs False)"
  shows "bounded (length input) (parse_aggregate D pf input k)"
proof (cases "find_crlf D input 1")
  case None
  then show ?thesis by (simp add: parse_aggregate_def)
next
  case (Some r)
  obtain line h where r: "r = (line, h)" by (cases r)
  have h: "3 \<le> h" "h \<le> length input" using find_crlf_SomeD [of D input 1 line h] Some r by auto
  show ?thesis
    using agg_loop_bounded [of pf h input "agg_expected k n" for n, OF assms h(2)] h Some r
    by (force simp: parse_aggregate_def split: outcome.splits sum.splits)
qed

lemma bounded_parse_frame: "bounded (length input) (parse_frame D fuel input inl)"
proof (induction fuel arbitrary: input inl)
  case 0
  then show ?case by simp
next
  case (Suc fuel)
  show ?case
  proof (cases input)
    case (Cons b bs)
    have agg: "bounded (length input) (parse_aggregate D (parse_frame D fuel) input k)" for k
      by (rule bounded_parse_aggregate) (rule Suc.IH)
    show ?thesis
      unfolding Cons
      by (rule parse_frame_dispatch [where P = "\<lambda>r _. bounded (length (b # bs)) r"];
          (rule bounded_line_parsers bounded_fixed_parsers bounded_payload_parsers
             agg [unfolded Cons] bounded_simps))
  qed simp
qed

section \<open>Fuel\<close>

lemma no_fuel_leaf:
  "parse_line_prefixed D input build \<noteq> OutOfFuel" "parse_integer D input \<noteq> OutOfFuel"
  "parse_double D input \<noteq> OutOfFuel" "parse_inline D input \<noteq> OutOfFuel"
  "parse_null input \<noteq> OutOfFuel" "parse_boolean input \<noteq> OutOfFuel"
  "parse_bulk_string D input \<noteq> OutOfFuel" "parse_blob_error D input \<noteq> OutOfFuel"
  "parse_verbatim_string D input \<noteq> OutOfFuel"
  by (auto simp: parse_line_prefixed_def parse_integer_def parse_double_def parse_inline_def
      parse_null_def parse_boolean_def parse_bulk_string_def parse_blob_error_def
      parse_verbatim_string_def parse_i64_def parse_isize_def parse_usize_def crlf_payload_def
      Let_def split: option.splits if_splits outcome.splits)

lemma agg_loop_fuel:
  assumes "\<And>xs. length xs < length input \<Longrightarrow> pf xs False \<noteq> OutOfFuel"
    and "\<And>xs. bounded (length xs) (pf xs False)" and "0 < c" and "c \<le> length input"
  shows "agg_loop pf input c n \<noteq> OutOfFuel"
  using assms(3,4)
proof (induction n arbitrary: c)
  case 0
  then show ?case by simp
next
  case (Suc n)
  have nf: "pf (drop c input) False \<noteq> OutOfFuel" using Suc.prems by (intro assms(1)) simp
  show ?case
  proof (cases "pf (drop c input) False")
    case (Ok st)
    show ?thesis
    proof (cases st)
      case (Complete f u)
      with Ok assms(2) [of "drop c input"] Suc.prems have u: "0 < u" "c + u \<le> length input" by auto
      from Suc.IH [OF _ u(2)] u Suc.prems Ok Complete show ?thesis by auto
    next
      case (Incomplete k)
      with Ok Suc.prems show ?thesis by auto
    qed
  qed (use Suc.prems nf in auto)
qed

lemma parse_frame_fuel: "length input < fuel \<Longrightarrow> parse_frame D fuel input inl \<noteq> OutOfFuel"
proof (induction fuel arbitrary: input inl)
  case 0
  then show ?case by simp
next
  case (Suc fuel)
  have agg: "parse_aggregate D (parse_frame D fuel) input k \<noteq> OutOfFuel" for k
  proof (cases "find_crlf D input 1")
    case (Some r)
    obtain line h where r: "r = (line, h)" by (cases r)
    have h: "0 < h" "h \<le> length input" using find_crlf_SomeD [of D input 1 line h] Some r by auto
    have "agg_loop (parse_frame D fuel) input h n \<noteq> OutOfFuel" for n
      using Suc h by (intro agg_loop_fuel bounded_parse_frame) auto
    with Some r show ?thesis
      by (auto simp: parse_aggregate_def parse_isize_def split: outcome.splits option.splits sum.splits)
  qed (simp add: parse_aggregate_def)
  show ?case
  proof (cases input)
    case (Cons b bs)
    show ?thesis
      unfolding Cons
      by (rule parse_frame_dispatch [where P = "\<lambda>r _. r \<noteq> OutOfFuel"])
         (rule no_fuel_leaf agg [unfolded Cons] outcome.distinct)+
  qed simp
qed

text \<open>More fuel never changes a result.\<close>

lemma agg_loop_mono:
  assumes "\<And>xs. pf xs False \<noteq> OutOfFuel \<Longrightarrow> pf' xs False = pf xs False"
    and "agg_loop pf input c n \<noteq> OutOfFuel"
  shows "agg_loop pf' input c n = agg_loop pf input c n"
  using assms(2)
proof (induction n arbitrary: c)
  case 0
  then show ?case by simp
next
  case (Suc n)
  show ?case
  proof (cases "length input < c")
    case False
    with Suc.prems have nf: "pf (drop c input) False \<noteq> OutOfFuel" by auto
    from assms(1) [OF nf] show ?thesis
      using Suc.prems Suc.IH False by (auto split: outcome.splits parse_status.splits)
  qed simp
qed

lemma parse_frame_Suc_fuel:
  "parse_frame D fuel input inl \<noteq> OutOfFuel \<Longrightarrow>
     parse_frame D (Suc fuel) input inl = parse_frame D fuel input inl"
proof (induction fuel arbitrary: input inl)
  case 0
  then show ?case by simp
next
  case (Suc fuel)
  have agg: "parse_aggregate D (parse_frame D (Suc fuel)) input k
               = parse_aggregate D (parse_frame D fuel) input k"
    if "parse_aggregate D (parse_frame D fuel) input k \<noteq> OutOfFuel" for k
  proof -
    have "agg_loop (parse_frame D (Suc fuel)) input h n = agg_loop (parse_frame D fuel) input h n"
      if "agg_loop (parse_frame D fuel) input h n \<noteq> OutOfFuel" for h n
      using that by (intro agg_loop_mono) (auto intro: Suc.IH simp del: parse_frame.simps)
    with that show ?thesis
      by (auto simp: parse_aggregate_def split: option.splits outcome.splits sum.splits
          simp del: parse_frame.simps)
  qed
  show ?case
  proof (cases input)
    case Nil
    then show ?thesis by simp
  next
    case (Cons b bs)
    have "parse_frame D (Suc fuel) (b # bs) inl \<noteq> OutOfFuel \<longrightarrow>
            parse_frame D (Suc (Suc fuel)) (b # bs) inl = parse_frame D (Suc fuel) (b # bs) inl"
      by (rule parse_frame_dispatch [where P = "\<lambda>r r'. r \<noteq> OutOfFuel \<longrightarrow> r' = r"])
         (use agg [unfolded Cons] in \<open>simp_all del: parse_frame.simps\<close>)
    with Suc.prems Cons show ?thesis by (simp only: simp_thms)
  qed
qed

lemma parse_frame_add_fuel:
  "parse_frame D fuel input inl \<noteq> OutOfFuel \<Longrightarrow>
     parse_frame D (fuel + k) input inl = parse_frame D fuel input inl"
  by (induction k) (use parse_frame_Suc_fuel in \<open>auto simp del: parse_frame.simps\<close>)

lemma parse_frame_enough:
  assumes "length input < fuel"
  shows "parse_frame D fuel input inl = parse_frame D (Suc (length input)) input inl"
  using parse_frame_add_fuel [of D "Suc (length input)" input inl "fuel - Suc (length input)"]
    parse_frame_fuel [of input "Suc (length input)" D inl] assms by (simp del: parse_frame.simps)


section \<open>A settled result does not depend on what follows\<close>

definition settled :: "presult \<Rightarrow> bool" where
  "settled r \<longleftrightarrow> (case r of Ok (Incomplete _) \<Rightarrow> False | OutOfFuel \<Rightarrow> False | _ \<Rightarrow> True)"

lemma settled_simps [simp]:
  "settled (Ok (Complete f u))" "\<not> settled (Ok (Incomplete k))" "settled (Err e)"
  "settled Panic" "\<not> settled OutOfFuel"
  by (auto simp: settled_def)

lemma find_crlf_append:
  assumes "resp_laws D" and "find_crlf D input start = Some r"
  shows "find_crlf D (input @ rest) start = Some r"
proof -
  from assms obtain rel where start: "start \<le> length input"
      and rel: "position (\<lambda>x. x = CR) (drop start input) = Some rel"
      and lf: "get_at input (start + rel + 1) = Some LF"
      and r: "r = (take rel (drop start input), start + rel + 2)"
    by (auto simp: find_crlf_def resp_lawsD(1) Let_def split: option.splits if_splits)
  have "position (\<lambda>x. x = CR) (drop start (input @ rest)) = Some rel"
    using position_append_Some [OF rel] start by simp
  moreover have "get_at (input @ rest) (start + rel + 1) = Some LF"
    using lf by (auto simp: get_at_Some_iff nth_append)
  ultimately show ?thesis
    using assms(1) start lf r position_less [OF rel]
    by (simp add: find_crlf_def resp_lawsD(1) Let_def)
qed

lemma slice_append_eq: "b \<le> length xs \<Longrightarrow> slice (xs @ ys) a b = slice xs a b"
  by (auto simp: slice_def)

lemma crlf_payload_append:
  assumes "wrap64 (h + n + 2) \<le> length input"
  shows "crlf_payload (input @ rest) h n msg = crlf_payload input h n msg"
proof (cases "slice input (wrap64 (h + n)) (wrap64 (h + n + 2))")
  case None
  then show ?thesis
    using slice_append_eq [OF assms] by (simp add: crlf_payload_def)
next
  case (Some t)
  then have "wrap64 (h + n) \<le> length input" using assms by (auto simp: slice_Some_iff)
  then show ?thesis
    using Some slice_append_eq [OF assms] slice_append_eq [of "wrap64 (h + n)" input rest h]
    by (simp add: crlf_payload_def)
qed

lemma line_parsers_append:
  assumes D: "resp_laws D"
  shows "settled (parse_line_prefixed D input build) \<longrightarrow>
      parse_line_prefixed D (input @ rest) build = parse_line_prefixed D input build"
    and "settled (parse_integer D input) \<longrightarrow> parse_integer D (input @ rest) = parse_integer D input"
    and "settled (parse_double D input) \<longrightarrow> parse_double D (input @ rest) = parse_double D input"
    and "settled (parse_inline D input) \<longrightarrow> parse_inline D (input @ rest) = parse_inline D input"
  by (auto simp: parse_line_prefixed_def parse_integer_def parse_double_def parse_inline_def
      find_crlf_append [OF D] split: option.splits)

lemma fixed_parsers_append:
  "settled (parse_null input) \<longrightarrow> parse_null (input @ rest) = parse_null input"
  "settled (parse_boolean input) \<longrightarrow> parse_boolean (input @ rest) = parse_boolean input"
  by (auto simp: parse_null_def parse_boolean_def split: if_splits)

lemma payload_parsers_append:
  assumes D: "resp_laws D"
  shows "settled (parse_bulk_string D input) \<longrightarrow>
      parse_bulk_string D (input @ rest) = parse_bulk_string D input"
    and "settled (parse_blob_error D input) \<longrightarrow>
      parse_blob_error D (input @ rest) = parse_blob_error D input"
    and "settled (parse_verbatim_string D input) \<longrightarrow>
      parse_verbatim_string D (input @ rest) = parse_verbatim_string D input"
  by (auto simp: parse_bulk_string_def parse_blob_error_def parse_verbatim_string_def Let_def
      find_crlf_append [OF D] crlf_payload_append split: option.splits outcome.splits if_splits)

lemma agg_loop_append:
  assumes pf: "\<And>xs. settled (pf xs False) \<Longrightarrow> pf (xs @ rest) False = pf xs False"
    and bd: "\<And>xs. bounded (length xs) (pf xs False)"
    and "c \<le> length input" and "agg_loop pf input c n = r" and "r \<noteq> OutOfFuel"
    and "\<And>k. r \<noteq> Ok (Inl k)"
  shows "agg_loop pf (input @ rest) c n = r"
  using assms(3-)
proof (induction n arbitrary: c)
  case 0
  then show ?case by simp
next
  case (Suc n)
  have st: "settled (pf (drop c input) False)"
    using Suc.prems by (auto simp: settled_def split: outcome.splits parse_status.splits)
  have eq: "pf (drop c (input @ rest)) False = pf (drop c input) False"
    using pf [OF st] Suc.prems(1) by simp
  show ?case
  proof (cases "\<exists>f u. pf (drop c input) False = Ok (Complete f u)")
    case True
    then obtain f u where fu: "pf (drop c input) False = Ok (Complete f u)" by blast
    have "c + u \<le> length input" using bd [of "drop c input"] fu Suc.prems(1) by simp linarith
    with Suc.IH [of "c + u"] Suc.prems fu eq show ?thesis by simp
  next
    case False
    with st eq Suc.prems show ?thesis
      by (auto split: outcome.splits parse_status.splits)
  qed
qed

lemma parse_aggregate_append:
  assumes D: "resp_laws D"
    and pf: "\<And>xs. settled (pf xs False) \<Longrightarrow> pf (xs @ rest) False = pf xs False"
    and bd: "\<And>xs. bounded (length xs) (pf xs False)"
  shows "settled (parse_aggregate D pf input k) \<longrightarrow>
           parse_aggregate D pf (input @ rest) k = parse_aggregate D pf input k"
proof (cases "find_crlf D input 1")
  case None
  then show ?thesis by (simp add: parse_aggregate_def)
next
  case (Some r)
  obtain line h where r: "r = (line, h)" by (cases r)
  have h: "h \<le> length input" using find_crlf_SomeD [of D input 1 line h] Some r by auto
  have f: "find_crlf D (input @ rest) 1 = Some (line, h)"
    using find_crlf_append [OF D] Some r by blast
  show ?thesis
  proof (cases "parse_isize line")
    case (Ok n)
    let ?e = "agg_expected k (nat n)"
    have app: "agg_loop pf (input @ rest) h ?e = agg_loop pf input h ?e"
      if "agg_loop pf input h ?e \<noteq> OutOfFuel" "\<And>j. agg_loop pf input h ?e \<noteq> Ok (Inl j)"
      by (rule agg_loop_append [where pf = pf, OF _ bd h refl]) (use that pf in auto)
    have bnd: "c \<le> length input" if "agg_loop pf input h ?e = Ok (Inr c)" for c
      using agg_loop_bounded [of pf h input ?e, OF bd h] that by simp
    show ?thesis
      using Some r f Ok app bnd
      by (auto simp: parse_aggregate_def split: outcome.splits sum.splits)
  qed (use Some r f in \<open>auto simp: parse_aggregate_def\<close>)
qed

lemma parse_frame_append:
  assumes D: "resp_laws D"
  shows "settled (parse_frame D fuel input inl) \<Longrightarrow>
           parse_frame D fuel (input @ rest) inl = parse_frame D fuel input inl"
proof (induction fuel arbitrary: input inl)
  case 0
  then show ?case by simp
next
  case (Suc fuel)
  show ?case
  proof (cases input)
    case Nil
    with Suc.prems show ?thesis by simp
  next
    case (Cons b bs)
    have agg: "settled (parse_aggregate D (parse_frame D fuel) (b # bs) k) \<longrightarrow>
        parse_aggregate D (parse_frame D fuel) (b # bs @ rest) k
          = parse_aggregate D (parse_frame D fuel) (b # bs) k" for k
      using parse_aggregate_append [of D "parse_frame D fuel" rest "b # bs" k,
          OF D Suc.IH bounded_parse_frame] by simp
    have "settled (parse_frame D (Suc fuel) (b # bs) inl) \<longrightarrow>
            parse_frame D (Suc fuel) (b # bs @ rest) inl = parse_frame D (Suc fuel) (b # bs) inl"
      by (rule parse_frame_dispatch [where P = "\<lambda>r r'. settled r \<longrightarrow> r' = r"])
         (use agg line_parsers_append [OF D, where input = "b # bs" and rest = rest]
            fixed_parsers_append [where input = "b # bs" and rest = rest]
            payload_parsers_append [OF D, where input = "b # bs" and rest = rest]
          in \<open>simp_all del: parse_frame.simps\<close>)
    with Suc.prems Cons show ?thesis by (simp del: parse_frame.simps)
  qed
qed

lemma parse_append:
  assumes "resp_laws D" and "settled (parse D input)"
  shows "parse D (input @ rest) = parse D input"
proof -
  have nf: "parse_frame D (Suc (length input)) input True \<noteq> OutOfFuel"
    by (rule parse_frame_fuel) simp
  have "parse D (input @ rest) = parse_frame D (Suc (length (input @ rest))) (input @ rest) True"
    by (simp only: parse_def)
  also have "\<dots> = parse_frame D (Suc (length (input @ rest))) input True"
  proof (rule parse_frame_append [OF assms(1)])
    show "settled (parse_frame D (Suc (length (input @ rest))) input True)"
      using assms(2) parse_frame_add_fuel [OF nf, of "length rest"]
      by (simp add: parse_def del: parse_frame.simps)
  qed
  also have "\<dots> = parse D input"
    using parse_frame_add_fuel [OF nf, of "length rest"]
    by (simp add: parse_def del: parse_frame.simps)
  finally show ?thesis .
qed


section \<open>Values and their frames\<close>

text \<open>
  A reply as a tree. \<open>frame_of\<close> is the frame a caller of the serializer builds for it: an aggregate
  carries the serialized elements, and the header of a map counts pairs.
\<close>

datatype rval =
    VSimple bytes | VError bytes | VInt int | VBulk bytes | VNull | VBool bool | VDouble f64
  | VBig bytes | VBlob bytes | VVerbatim bytes bytes | VAgg aggregate_kind "rval list"

definition header_len :: "aggregate_kind \<Rightarrow> 'a list \<Rightarrow> nat" where
  "header_len k vs = (if k = KMap then length vs div 2 else length vs)"

fun frame_of :: "resp_deps \<Rightarrow> rval \<Rightarrow> frame" where
  "frame_of D (VSimple s) = SimpleString s"
| "frame_of D (VError s) = SimpleError s"
| "frame_of D (VInt n) = Integer n"
| "frame_of D (VBulk s) = BulkString s"
| "frame_of D VNull = Null"
| "frame_of D (VBool b) = Boolean b"
| "frame_of D (VDouble x) = Double x"
| "frame_of D (VBig s) = BigNumber s"
| "frame_of D (VBlob s) = BlobError s"
| "frame_of D (VVerbatim e d) = VerbatimString e d"
| "frame_of D (VAgg k vs) =
     mk_aggregate_frame k
       \<lparr>kind = k, len = header_len k vs,
        data = concat (map (\<lambda>v. serialize D (frame_of D v)) vs), encoding = EncResp\<rparr>"

definition wire :: "resp_deps \<Rightarrow> rval \<Rightarrow> bytes" where
  "wire D v = serialize D (frame_of D v)"

text \<open>What a value needs so that it survives the wire: line payloads hold no carriage return,
  integers fit, a double is a number, a verbatim string has a three-byte format and a map an even
  number of elements.\<close>

fun wf_val :: "rval \<Rightarrow> bool" where
  "wf_val (VSimple s) \<longleftrightarrow> CR \<notin> set s"
| "wf_val (VError s) \<longleftrightarrow> CR \<notin> set s"
| "wf_val (VInt n) \<longleftrightarrow> in_i64 n"
| "wf_val (VDouble x) \<longleftrightarrow> \<not> is_nan x"
| "wf_val (VBig s) \<longleftrightarrow> CR \<notin> set s"
| "wf_val (VVerbatim e d) \<longleftrightarrow> length e = 3"
| "wf_val (VAgg k vs) \<longleftrightarrow> (k = KMap \<longrightarrow> even (length vs)) \<and> (\<forall>v \<in> set vs. wf_val v)"
| "wf_val _ \<longleftrightarrow> True"

lemma serialize_aggregate:
  "serialize D (mk_aggregate_frame k a) = write_aggregate D [] a"
  by (cases k) (simp_all add: mk_aggregate_frame_def serialize_def)

lemma find_crlf_line:
  assumes "resp_laws D" and "CR \<notin> set line"
  shows "find_crlf D (pre @ line @ CR # LF # rest) (length pre)
           = Some (line, length pre + length line + 2)"
proof -
  have "position (\<lambda>x. x = CR) (line @ CR # LF # rest) = Some (length line)"
    using assms(2) by (subst position_append_None) auto
  then show ?thesis
    using assms(1) by (simp add: find_crlf_def resp_lawsD(1) Let_def get_at_def nth_append)
qed

lemmas find_crlf_line1 = find_crlf_line [where pre = "[p]" for p, simplified]

lemma crlf_payload_ok:
  assumes "length pre + length d + 2 < 2 ^ 64"
  shows "crlf_payload (pre @ d @ CR # LF # rest) (length pre) (length d) msg = Ok d"
  using assms slice_append_mid [of "pre @ d" crlf rest] slice_append_mid [of pre d "CR # LF # rest"]
  by (simp add: crlf_payload_def wrap64_def)

lemma parse_isize_dec: "n < 2 ^ 63 \<Longrightarrow> parse_isize (dec_int (int n)) = Ok (int n)"
  by (simp add: parse_isize_def parse_signed_dec_int)

lemma parse_usize_dec: "n < 2 ^ 64 \<Longrightarrow> parse_usize (dec_int (int n)) = Ok n"
  by (simp add: parse_usize_def dec_int_def parse_unsigned_dec_nat)

lemma length_prefixed_roundtrip:
  fixes d :: bytes
  defines "h \<equiv> dec_int (int (length d))"
  assumes D: "resp_laws D" and n: "length d + length h + 5 < 2 ^ 63"
  shows "parse_bulk_string D (36 # h @ CR # LF # d @ CR # LF # rest)
           = Ok (Complete (BulkString d) (length h + length d + 5))"
    and "parse_blob_error D (33 # h @ CR # LF # d @ CR # LF # rest)
           = Ok (Complete (BlobError d) (length h + length d + 5))"
    and "length e = 3 \<Longrightarrow> d = e @ 58 # t \<Longrightarrow>
         parse_verbatim_string D (61 # h @ CR # LF # d @ CR # LF # rest)
           = Ok (Complete (VerbatimString e t) (length h + length d + 5))"
proof -
  have f: "find_crlf D (p # h @ CR # LF # x) 1 = Some (h, length h + 3)" for p x
    using find_crlf_line1 [OF D, of h p x] by (simp add: h_def)
  have c: "crlf_payload (p # h @ CR # LF # d @ CR # LF # rest) (length h + 3) (length d) msg = Ok d"
    for p msg
    using crlf_payload_ok [of "p # h @ [CR, LF]" d rest msg] n by (simp add: numeral_3_eq_3)
  have w: "wrap64 (length h + 3 + length d + 2) = length h + length d + 5"
    using n by (simp add: wrap64_def)
  have p: "parse_isize h = Ok (int (length d))" "parse_usize h = Ok (length d)"
    using n by (simp_all add: h_def parse_isize_dec parse_usize_dec)
  show "parse_bulk_string D (36 # h @ CR # LF # d @ CR # LF # rest)
           = Ok (Complete (BulkString d) (length h + length d + 5))"
    unfolding parse_bulk_string_def f option.case prod.case p outcome.case Let_def nat_int c w by simp
  show "parse_blob_error D (33 # h @ CR # LF # d @ CR # LF # rest)
           = Ok (Complete (BlobError d) (length h + length d + 5))"
    unfolding parse_blob_error_def f option.case prod.case p outcome.case Let_def c w by simp
  show "parse_verbatim_string D (61 # h @ CR # LF # d @ CR # LF # rest)
           = Ok (Complete (VerbatimString e t) (length h + length d + 5))"
    if e: "length e = 3" "d = e @ 58 # t"
    unfolding parse_verbatim_string_def f option.case prod.case p outcome.case Let_def c w
    using e by (simp add: get_at_def nth_append)
qed

lemma wire_pos: "3 \<le> length (wire D v)"
proof (cases v)
  case (VAgg k vs)
  then show ?thesis by (simp add: wire_def serialize_aggregate write_aggregate_def)
qed (simp_all add: wire_def serialize_def write_simple_string_def write_error_def write_integer_def
      write_bulk_string_def write_null_def)

lemma length_wires: "3 * length vs \<le> length (concat (map (wire D) vs))"
proof (induction vs)
  case (Cons v vs)
  then show ?case using wire_pos [of D v] by simp
qed simp

lemma wire_agg:
  assumes "resp_laws D"
  shows "wire D (VAgg k vs)
     = (case k of KArray \<Rightarrow> 42 | KMap \<Rightarrow> 37 | KSet \<Rightarrow> 126 | KPush \<Rightarrow> 62)
        # dec_int (int (header_len k vs)) @ CR # LF # concat (map (wire D) vs)"
  using assms
  by (simp add: wire_def serialize_aggregate write_aggregate_def resp_lawsD(2) wire_def [abs_def])

lemma agg_loop_wires:
  assumes "\<And>v rest. v \<in> set vs \<Longrightarrow> length (wire D v @ rest) < N \<Longrightarrow>
             pf (wire D v @ rest) False = Ok (Complete (frame_of D v) (length (wire D v)))"
    and "length (concat (map (wire D) vs) @ rest) < N"
  shows "agg_loop pf (pre @ concat (map (wire D) vs) @ rest) (length pre) (length vs)
           = Ok (Inr (length pre + length (concat (map (wire D) vs))))"
  using assms
proof (induction vs arbitrary: pre)
  case Nil
  then show ?case by simp
next
  case (Cons v vs)
  have "pf (wire D v @ concat (map (wire D) vs) @ rest) False
          = Ok (Complete (frame_of D v) (length (wire D v)))"
    using Cons.prems by simp
  moreover have "agg_loop pf ((pre @ wire D v) @ concat (map (wire D) vs) @ rest)
      (length (pre @ wire D v)) (length vs)
        = Ok (Inr (length (pre @ wire D v) + length (concat (map (wire D) vs))))"
    using Cons.prems by (intro Cons.IH) auto
  ultimately show ?case by (simp add: add.assoc)
qed

lemma wire_leaf:
  assumes "resp_laws D"
  shows "wire D (VSimple s) = 43 # s @ [CR, LF]" "wire D (VError s) = 45 # s @ [CR, LF]"
    "wire D (VInt n) = 58 # dec_int n @ [CR, LF]"
    "wire D (VBulk s) = 36 # dec_int (int (length s)) @ CR # LF # s @ [CR, LF]"
    "wire D VNull = [95, CR, LF]" "wire D (VBool b) = [35, if b then 116 else 102, CR, LF]"
    "wire D (VDouble x) = 44 # ryu D x @ [CR, LF]" "wire D (VBig s) = 40 # s @ [CR, LF]"
    "wire D (VBlob s) = 33 # dec_int (int (length s)) @ CR # LF # s @ [CR, LF]"
    "wire D (VVerbatim e d) = 61 # dec_int (int (length (e @ 58 # d))) @ CR # LF # (e @ 58 # d) @ [CR, LF]"
  using assms
  by (simp_all add: wire_def serialize_def write_simple_string_def write_error_def write_integer_def
      write_bulk_string_def write_null_def resp_lawsD(2))

lemma parse_line_roundtrip:
  assumes "resp_laws D" and "CR \<notin> set s"
  shows "parse_line_prefixed D (p # s @ CR # LF # rest) build = Ok (Complete (build s) (length s + 3))"
  using find_crlf_line1 [OF assms, of p rest] by (simp add: parse_line_prefixed_def)

lemma parse_integer_roundtrip:
  assumes "resp_laws D" and "in_i64 n"
  shows "parse_integer D (p # dec_int n @ CR # LF # rest)
           = Ok (Complete (Integer n) (length (dec_int n) + 3))"
proof -
  have "parse_i64 (dec_int n) = Ok n"
    using assms(2) by (auto simp: parse_i64_def in_i64_def parse_signed_dec_int)
  then show ?thesis
    using find_crlf_line1 [OF assms(1) dec_int_no_CR, of p n rest] by (simp add: parse_integer_def)
qed

lemma parse_double_roundtrip:
  assumes "resp_laws D" and "\<not> is_nan x"
  shows "parse_double D (p # ryu D x @ CR # LF # rest)
           = Ok (Complete (Double x) (length (ryu D x) + 3))"
  using find_crlf_line1 [OF assms(1) resp_lawsD(3) [OF assms(1)], of p x rest] resp_lawsD [OF assms(1)]
    assms(2) by (simp add: parse_double_def)

lemma parse_fixed_roundtrip:
  "parse_null (95 # CR # LF # rest) = Ok (Complete Null 3)"
  "parse_boolean (35 # (if b then 116 else 102) # CR # LF # rest) = Ok (Complete (Boolean b) 4)"
  by (simp_all add: parse_null_def parse_boolean_def)

lemmas leaf_roundtrip = wire_leaf parse_line_roundtrip parse_integer_roundtrip parse_double_roundtrip

lemma parse_aggregate_roundtrip:
  assumes D: "resp_laws D" and wf: "wf_val (VAgg k vs)" and len: "length (wire D (VAgg k vs)) < 2 ^ 63"
    and pf: "\<And>v rest. v \<in> set vs \<Longrightarrow> length (wire D v @ rest) < N \<Longrightarrow>
             pf (wire D v @ rest) False = Ok (Complete (frame_of D v) (length (wire D v)))"
    and N: "length (wire D (VAgg k vs) @ rest) \<le> N"
  shows "parse_aggregate D pf (wire D (VAgg k vs) @ rest) k
           = Ok (Complete (frame_of D (VAgg k vs)) (length (wire D (VAgg k vs))))"
proof -
  define h body where hb: "h = dec_int (int (header_len k vs))" "body = concat (map (wire D) vs)"
  obtain p where w: "wire D (VAgg k vs) = p # h @ CR # LF # body"
    by (simp add: wire_agg [OF D] hb)
  have vs: "length vs \<le> length body" using length_wires [of vs D] by (simp add: hb)
  have hl: "header_len k vs \<le> length vs" by (simp add: header_len_def)
  have ps: "parse_isize h = Ok (int (header_len k vs))"
    unfolding hb by (rule parse_isize_dec) (use len w vs hl in simp)
  have ex: "agg_expected k (header_len k vs) = length vs"
    using wf len w vs
    by (cases k) (auto simp: agg_expected_def header_len_def sat_mul64_def elim!: evenE)
  have f: "find_crlf D (p # h @ CR # LF # body @ rest) 1 = Some (h, length h + 3)"
    using find_crlf_line1 [OF D, of h p "body @ rest"] by (simp add: hb)
  have "agg_loop pf ((p # h @ [CR, LF]) @ body @ rest) (length (p # h @ [CR, LF])) (length vs)
          = Ok (Inr (length (p # h @ [CR, LF]) + length body))"
    unfolding hb(2) by (rule agg_loop_wires [where N = N]) (use pf N w hb in auto)
  then have l: "agg_loop pf (p # h @ CR # LF # body @ rest) (length h + 3) (length vs)
          = Ok (Inr (length h + 3 + length body))"
    by (simp add: numeral_3_eq_3)
  show ?thesis
    unfolding w parse_aggregate_def append_Cons append_assoc f option.case prod.case ps outcome.case
      nat_int ex l sum.case frame_of.simps
    by (simp add: wire_def [abs_def] hb(2) numeral_3_eq_3)
qed

lemma parse_frame_wire:
  assumes D: "resp_laws D"
  shows "wf_val v \<Longrightarrow> length (wire D v) < 2 ^ 63 \<Longrightarrow> length (wire D v @ rest) < fuel \<Longrightarrow>
     parse_frame D fuel (wire D v @ rest) inl
       = Ok (Complete (frame_of D v) (length (wire D v)))"
proof (induction v arbitrary: rest fuel inl)
  case (VAgg k vs)
  then obtain f where f: "fuel = Suc f" by (cases fuel) auto
  have sub: "length (wire D v) \<le> length (wire D (VAgg k vs))" if "v \<in> set vs" for v
    using that by (auto simp: wire_agg [OF D] in_set_conv_decomp)
  have "parse_aggregate D (parse_frame D f) (wire D (VAgg k vs) @ rest) k
           = Ok (Complete (frame_of D (VAgg k vs)) (length (wire D (VAgg k vs))))"
  proof (rule parse_aggregate_roundtrip [OF D VAgg.prems(1,2), where N = f])
    fix v rest
    assume v: "v \<in> set vs" and "length (wire D v @ rest) < f"
    then show "parse_frame D f (wire D v @ rest) False
                 = Ok (Complete (frame_of D v) (length (wire D v)))"
      using VAgg.prems(1,2) sub [OF v] by (intro VAgg.IH) auto
  qed (use VAgg.prems(3) f in simp)
  then show ?case
    by (cases k) (simp_all add: f wire_agg [OF D] del: frame_of.simps)
next
  case (VBulk s)
  then show ?case
    using length_prefixed_roundtrip(1) [OF D, of s rest] by (cases fuel) (simp_all add: wire_leaf [OF D])
next
  case (VBlob s)
  then show ?case
    using length_prefixed_roundtrip(2) [OF D, of s rest] by (cases fuel) (simp_all add: wire_leaf [OF D])
next
  case (VVerbatim e d)
  then show ?case
    using length_prefixed_roundtrip(3) [OF D, of "e @ 58 # d" e d rest]
    by (cases fuel) (simp_all add: wire_leaf [OF D])
next
  case (VSimple s)
  then show ?case by (cases fuel) (simp_all add: leaf_roundtrip [OF D] parse_fixed_roundtrip)
next
  case (VError s)
  then show ?case by (cases fuel) (simp_all add: leaf_roundtrip [OF D] parse_fixed_roundtrip)
next
  case (VInt n)
  then show ?case by (cases fuel) (simp_all add: leaf_roundtrip [OF D] parse_fixed_roundtrip)
next
  case VNull
  then show ?case by (cases fuel) (simp_all add: leaf_roundtrip [OF D] parse_fixed_roundtrip)
next
  case (VBool b)
  then show ?case by (cases fuel) (simp_all add: leaf_roundtrip [OF D] parse_fixed_roundtrip)
next
  case (VDouble x)
  then show ?case by (cases fuel) (simp_all add: leaf_roundtrip [OF D] parse_fixed_roundtrip)
next
  case (VBig s)
  then show ?case by (cases fuel) (simp_all add: leaf_roundtrip [OF D] parse_fixed_roundtrip)
qed

section \<open>Iterating over a parsed aggregate\<close>

lemma iter_next_resp:
  assumes "encoding a = EncResp" and "e \<noteq> len a" and "c \<le> length (data a)"
    and "parse D (drop c (data a)) = Ok (Complete f u)"
  shows "iter_next D \<lparr>it_aggregate = a, it_consumed = c, it_emitted = e\<rparr>
     = (Some (Ok f), \<lparr>it_aggregate = a, it_consumed = c + u, it_emitted = e + 1\<rparr>)"
  using assms by (simp add: iter_next_def Let_def)

lemma parse_wire:
  assumes "resp_laws D" and "wf_val v" and "length (wire D v) < 2 ^ 63"
  shows "parse D (wire D v @ rest) = Ok (Complete (frame_of D v) (length (wire D v)))"
  unfolding parse_def by (rule parse_frame_wire [OF assms]) simp

lemma iter_collect_wires:
  assumes D: "resp_laws D" and a: "encoding a = EncResp" "data a = pre @ concat (map (wire D) ws) @ rest"
    and len: "len a = e + length ws" and wf: "\<forall>v \<in> set ws. wf_val v \<and> length (wire D v) < 2 ^ 63"
  shows "iter_collect D (Suc (length ws)) \<lparr>it_aggregate = a, it_consumed = length pre, it_emitted = e\<rparr>
           = Ok (map (frame_of D) ws)"
  using a len wf
proof (induction ws arbitrary: pre e)
  case Nil
  then show ?case by (simp add: iter_next_def Let_def)
next
  case (Cons w ws)
  have "parse D (drop (length pre) (data a)) = Ok (Complete (frame_of D w) (length (wire D w)))"
    using Cons.prems parse_wire [OF D, of w] by simp
  then have "iter_next D \<lparr>it_aggregate = a, it_consumed = length pre, it_emitted = e\<rparr>
     = (Some (Ok (frame_of D w)),
        \<lparr>it_aggregate = a, it_consumed = length (pre @ wire D w), it_emitted = e + 1\<rparr>)"
    using Cons.prems by (subst iter_next_resp) auto
  moreover have "iter_collect D (Suc (length ws))
       \<lparr>it_aggregate = a, it_consumed = length (pre @ wire D w), it_emitted = e + 1\<rparr>
         = Ok (map (frame_of D) ws)"
    using Cons.prems by (intro Cons.IH) auto
  ultimately show ?case by (simp del: iter_collect.simps add: iter_collect.simps(2) [of D "Suc (length ws)"])
qed

subsection \<open>Inline commands\<close>

text \<open>The words of a line: its maximal runs of bytes that are neither space nor tab.\<close>

function words_of :: "bytes \<Rightarrow> bytes list" where
  "words_of [] = []"
| "words_of (b # bs) =
     (if is_blank b then words_of bs
      else takeWhile (Not \<circ> is_blank) (b # bs) # words_of (dropWhile (Not \<circ> is_blank) bs))"
  by pat_completeness auto
termination by (relation "measure length") (auto simp: less_Suc_eq_le length_dropWhile_le)

lemma words_of_dropWhile [simp]: "words_of (dropWhile is_blank xs) = words_of xs"
  by (induction xs) auto

lemma words_of_blank_suffix: "\<forall>b \<in> set ys. is_blank b \<Longrightarrow> words_of (xs @ ys) = words_of xs"
proof (induction xs rule: words_of.induct)
  case 1
  then show ?case by (induction ys) auto
next
  case (2 b bs)
  have t: "takeWhile (Not \<circ> is_blank) (bs @ ys) = takeWhile (Not \<circ> is_blank) bs"
    using 2(3) by (induction bs) (cases ys; auto)+
  have d: "words_of (dropWhile (Not \<circ> is_blank) (bs @ ys))
             = words_of (dropWhile (Not \<circ> is_blank) bs @ ys)"
    by (cases "\<exists>x \<in> set bs. is_blank x")
       (use 2(3) in \<open>auto simp: dropWhile_append1 dropWhile_append2 comp_def dropWhile_eq_self_iff hd_in_set
         intro!: arg_cong [of _ _ words_of]\<close>)
  show ?case using 2 t d by auto
qed

lemma words_of_trim: "words_of (trim_ascii_whitespace line) = words_of line"
proof -
  let ?xs = "dropWhile is_blank line"
  have "?xs = rev (dropWhile is_blank (rev ?xs)) @ rev (takeWhile is_blank (rev ?xs))"
    by (metis rev_append rev_rev_ident takeWhile_dropWhile_id)
  moreover have "\<forall>b \<in> set (rev (takeWhile is_blank (rev ?xs))). is_blank b"
    by (auto dest: set_takeWhileD)
  ultimately have "words_of ?xs = words_of (rev (dropWhile is_blank (rev ?xs)))"
    using words_of_blank_suffix by metis
  then show ?thesis by (simp add: trim_ascii_whitespace_def)
qed

lemma words_of_Nil_iff: "words_of xs = [] \<longleftrightarrow> (\<forall>b \<in> set xs. is_blank b)"
  by (induction xs rule: words_of.induct) auto

lemma trim_Nil_iff: "trim_ascii_whitespace line = [] \<longleftrightarrow> words_of line = []"
  by (metis trim_ascii_whitespace_def words_of_trim words_of_Nil_iff dropWhile_eq_Nil_conv
      rev_is_Nil_conv set_rev words_of.simps(1))

lemma count_inline_loop_words:
  "count_inline_loop c False bs = c + length (words_of bs)"
  "count_inline_loop c True bs = c + length (words_of (dropWhile (Not \<circ> is_blank) bs))"
  by (induction bs arbitrary: c) auto

lemma position_default:
  "(case position p xs of Some i \<Rightarrow> i | None \<Rightarrow> length xs) = length (takeWhile (Not \<circ> p) xs)"
  by (induction xs) (auto split: option.splits)

lemma iter_next_inline:
  assumes "encoding a = EncInline" and "e \<noteq> len a" and "data a = pre @ rem"
  shows "iter_next D \<lparr>it_aggregate = a, it_consumed = length pre, it_emitted = e\<rparr>
     = (let w = takeWhile (Not \<circ> is_blank) rem; r = dropWhile (Not \<circ> is_blank) rem in
        (Some (Ok (BulkString w)),
         \<lparr>it_aggregate = a, it_consumed = length (pre @ w @ takeWhile is_blank r), it_emitted = e + 1\<rparr>))"
  using assms
  by (simp add: iter_next_def Let_def position_default takeWhile_eq_take [symmetric]
      dropWhile_eq_drop [symmetric])

lemma iter_collect_inline:
  assumes "encoding a = EncInline" and "data a = pre @ rem" and "len a = e + length (words_of rem)"
    and "rem = [] \<or> \<not> is_blank (hd rem)"
  shows "iter_collect D (Suc (length (words_of rem)))
           \<lparr>it_aggregate = a, it_consumed = length pre, it_emitted = e\<rparr>
           = Ok (map BulkString (words_of rem))"
  using assms
proof (induction "length (words_of rem)" arbitrary: pre rem e)
  case 0
  then show ?case by (simp add: iter_next_def Let_def)
next
  case (Suc n)
  then obtain b bs where rem: "rem = b # bs" "\<not> is_blank b" by (cases rem) auto
  define w r where w: "w = takeWhile (Not \<circ> is_blank) rem" and r: "r = dropWhile (Not \<circ> is_blank) rem"
  define blanks where b: "blanks = takeWhile is_blank r"
  let ?rem' = "dropWhile is_blank r"
  have ws: "words_of rem = w # words_of ?rem'" using rem by (simp add: w r)
  have d: "data a = (pre @ w @ blanks) @ ?rem'" using Suc.prems(2) by (simp add: w r b)
  have "iter_next D \<lparr>it_aggregate = a, it_consumed = length pre, it_emitted = e\<rparr>
     = (Some (Ok (BulkString w)),
        \<lparr>it_aggregate = a, it_consumed = length (pre @ w @ blanks), it_emitted = e + 1\<rparr>)"
    by (subst iter_next_inline [OF Suc.prems(1) _ Suc.prems(2)])
       (use Suc.prems(3) ws in \<open>simp_all add: Let_def w r b\<close>)
  moreover have "?rem' = [] \<or> \<not> is_blank (hd ?rem')"
    using hd_dropWhile [of is_blank r] by auto
  then have "iter_collect D (Suc (length (words_of ?rem')))
       \<lparr>it_aggregate = a, it_consumed = length (pre @ w @ blanks), it_emitted = e + 1\<rparr>
         = Ok (map BulkString (words_of ?rem'))"
    using Suc.hyps(2) Suc.prems(1,3) ws d by (intro Suc.hyps(1)) auto
  ultimately show ?case
    unfolding ws by (simp del: iter_collect.simps add: iter_collect.simps(2) [of D "Suc n" for n])
qed

lemma hd_trim: "trim_ascii_whitespace line = [] \<or> \<not> is_blank (hd (trim_ascii_whitespace line))"
proof -
  have "takeWhile is_blank (rev (dropWhile is_blank (rev xs))) = []"
    if "xs = [] \<or> \<not> is_blank (hd xs)" for xs
    using that by (cases xs) (auto simp: dropWhile_append3)
  then show ?thesis
    using hd_dropWhile [of is_blank line] unfolding trim_ascii_whitespace_def
    by (metis takeWhile_eq_Nil_iff)
qed

section \<open>Panics\<close>

lemma crlf_payload_no_panic:
  assumes "h + n + 2 \<le> length input" and "length input < 2 ^ 63 - 1"
  shows "crlf_payload input h n msg \<noteq> Panic"
  using assms by (auto simp: crlf_payload_def wrap64_def slice_def Let_def split: option.splits)

lemma parse_bulk_no_panic:
  assumes "length input < 2 ^ 63 - 1"
  shows "parse_bulk_string D input \<noteq> Panic"
proof (cases "find_crlf D input 1")
  case None
  then show ?thesis by (simp add: parse_bulk_string_def)
next
  case (Some r)
  obtain line h where r: "r = (line, h)" by (cases r)
  have h: "h \<le> length input" using find_crlf_SomeD Some r by blast
  have np: "crlf_payload input h (nat n) msg \<noteq> Panic"
    if "parse_signed i64_min i64_max line = Some n" "\<not> length input < wrap64 (h + nat n + 2)" for n msg
  proof -
    have "nat n < 2 ^ 63" using parse_signed_range [OF that(1)]
      by (cases "0 \<le> n") (auto simp: nat_less_iff)
    then have "h + nat n + 2 < 2 ^ 64" using h assms by simp
    then show ?thesis using that(2) assms by (intro crlf_payload_no_panic) (auto simp: wrap64_def)
  qed
  then show ?thesis
    using Some r
    by (auto simp: parse_bulk_string_def parse_isize_def Let_def split: option.splits outcome.splits)
qed

lemma agg_loop_no_panic:
  assumes pf: "\<And>c. c \<le> length input \<Longrightarrow> pf (drop c input) False \<noteq> Panic"
    and bd: "\<And>xs. bounded (length xs) (pf xs False)" and "c \<le> length input"
  shows "agg_loop pf input c n \<noteq> Panic"
  using assms(3)
proof (induction n arbitrary: c)
  case (Suc n)
  have "c + u \<le> length input" if "pf (drop c input) False = Ok (Complete f u)" for f u
    using bd [of "drop c input"] that Suc.prems by simp linarith
  then show ?case using pf [of c] Suc by (auto split: outcome.splits parse_status.splits)
qed simp

lemma parse_frame_no_panic:
  "length input < 2 ^ 63 - 1 \<Longrightarrow> 33 \<notin> set input \<Longrightarrow> 61 \<notin> set input \<Longrightarrow>
     parse_frame D fuel input inl \<noteq> Panic"
proof (induction fuel arbitrary: input inl)
  case (Suc fuel)
  have sub: "parse_frame D fuel (drop c input) False \<noteq> Panic" for c
    using Suc.prems in_set_dropD [of _ c input] by (intro Suc.IH) auto
  have agg: "parse_aggregate D (parse_frame D fuel) input k \<noteq> Panic" for k
  proof (cases "find_crlf D input 1")
    case (Some r)
    obtain line h where r: "r = (line, h)" by (cases r)
    have "h \<le> length input" using find_crlf_SomeD Some r by blast
    then have "agg_loop (parse_frame D fuel) input h n \<noteq> Panic" for n
      by (intro agg_loop_no_panic sub bounded_parse_frame)
    with Some r show ?thesis
      by (auto simp: parse_aggregate_def parse_isize_def split: outcome.splits option.splits sum.splits)
  qed (simp add: parse_aggregate_def)
  have line: "parse_line_prefixed D input build \<noteq> Panic" "parse_integer D input \<noteq> Panic"
    "parse_double D input \<noteq> Panic" "parse_inline D input \<noteq> Panic" "parse_null input \<noteq> Panic"
    "parse_boolean input \<noteq> Panic" for build
    by (auto simp: parse_line_prefixed_def parse_integer_def parse_double_def parse_inline_def Let_def
        parse_null_def parse_boolean_def parse_i64_def split: option.splits)
  show ?case
  proof (cases input)
    case (Cons b bs)
    have "b \<noteq> 33" "b \<noteq> 61" using Cons Suc.prems by auto
    show ?thesis
      unfolding Cons parse_frame.simps list.case
      by (intro if_both [where P = "\<lambda>r _. r \<noteq> Panic"];
          (rule agg [unfolded Cons] line [unfolded Cons] parse_bulk_no_panic [OF Suc.prems(1), unfolded Cons] outcome.distinct
           | use \<open>b \<noteq> 33\<close> \<open>b \<noteq> 61\<close> in simp))
  qed simp
qed simp

section \<open>Progress of the connection loop\<close>















section \<open>Lengths\<close>

lemma decimal_len_loop_add: "decimal_len_loop n d = decimal_len_loop n 0 + d"
proof (induction n arbitrary: d rule: less_induct)
  case (less n)
  show ?case
    using less.IH [of "n div 10" "d + 1"] less.IH [of "n div 10" 1]
    by (auto simp: decimal_len_loop.simps [of n])
qed

lemma decimal_len_dec: "decimal_len n = length (dec_nat n)"
proof (induction n rule: less_induct)
  case (less n)
  show ?case
    using less.IH [of "n div 10"] decimal_len_loop_add [of "n div 10" 1]
      decimal_len_loop_add [of "n div 10" "Suc 1"]
    by (auto simp: decimal_len_def decimal_len_loop.simps [of n] dec_nat.simps [of n])
qed

lemma integer_wire_len_dec: "integer_wire_len n = length (dec_int n) + 3"
  by (auto simp: integer_wire_len_def dec_int_def decimal_len_dec dec_nat.simps [of "Suc 0"])

section \<open>Properties of the protocol layer\<close>

text \<open>A small reply used by the witnesses: a map whose value is an array.\<close>

definition sample_reply :: rval where
  "sample_reply = VAgg KMap [VBulk [107], VAgg KArray [VInt (- 7), VSimple [79, 75]]]"

text \<open>C1. Serializing a reply and parsing it back gives the same frame and consumes exactly the
  bytes the serializer wrote, whatever follows them in the buffer: for every kind of frame, with
  aggregates nested to any depth.\<close>

theorem resp_roundtrip:
  assumes "resp_laws D" and "wf_val v" and "length (serialize D (frame_of D v)) < 2 ^ 63"
  shows "parse D (serialize D (frame_of D v) @ rest)
           = Ok (Complete (frame_of D v) (length (serialize D (frame_of D v))))"
  using parse_wire [of D v rest] assms by (simp add: wire_def)

lemma sample_reply_wire:
  "serialize reference_deps (frame_of reference_deps sample_reply)
     = [37, 49, CR, LF, 36, 49, CR, LF, 107, CR, LF,
        42, 50, CR, LF, 58, 45, 55, CR, LF, 43, 79, 75, CR, LF]"
  by (simp add: sample_reply_def serialize_aggregate write_aggregate_def header_len_def)
     (simp add: reference_deps_def serialize_def write_simple_string_def write_integer_def
       write_bulk_string_def dec_int_def dec_nat.simps digit_byte_def mk_aggregate_frame_def
       write_aggregate_def)

theorem resp_roundtrip_witness:
  "parse reference_deps (serialize reference_deps (frame_of reference_deps sample_reply) @ [58])
     = Ok (Complete (frame_of reference_deps sample_reply) 25)"
  using resp_roundtrip [OF reference_deps_laws, of sample_reply "[58]"] sample_reply_wire
  by (simp add: sample_reply_def in_i64_def)

text \<open>C2. Incremental parsing: a verdict reached on a prefix of the stream (a frame, an error or a
  panic) is the verdict on every extension of it, so bytes that arrive later never change a frame
  that was handed out.\<close>

theorem parse_prefix_stable:
  assumes "resp_laws D" and "\<And>k. parse D input \<noteq> Ok (Incomplete k)"
  shows "parse D (input @ rest) = parse D input"
proof (rule parse_append [OF assms(1)])
  have "parse D input \<noteq> OutOfFuel" unfolding parse_def by (rule parse_frame_fuel) simp
  then show "settled (parse D input)"
    using assms(2) by (auto simp: settled_def split: outcome.splits parse_status.splits)
qed

theorem parse_prefix_stable_witness:
  "parse reference_deps ([43, 79, 75, CR, LF] @ [36, 53]) = Ok (Complete (SimpleString [79, 75]) 5)"
proof -
  have "parse reference_deps [43, 79, 75, CR, LF] = Ok (Complete (SimpleString [79, 75]) 5)"
    using parse_line_roundtrip [OF reference_deps_laws, of "[79, 75]" 43 "[]"]
    by (simp add: parse_def)
  then show ?thesis using parse_prefix_stable [OF reference_deps_laws, of "[43, 79, 75, CR, LF]"] by simp
qed

text \<open>A frame cut short is never misread: every proper prefix of a serialized reply parses to
  Incomplete.\<close>

theorem truncated_frame_incomplete:
  assumes D: "resp_laws D" and "wf_val v" and "length (serialize D (frame_of D v)) < 2 ^ 63"
    and n: "n < length (serialize D (frame_of D v))"
  shows "\<exists>k. parse D (take n (serialize D (frame_of D v))) = Ok (Incomplete k)"
proof -
  let ?w = "serialize D (frame_of D v)"
  let ?r = "parse D (take n ?w)"
  have b: "bounded (length (take n ?w)) ?r" unfolding parse_def by (rule bounded_parse_frame)
  have nf: "?r \<noteq> OutOfFuel" unfolding parse_def by (rule parse_frame_fuel) simp
  have "\<not> settled ?r"
  proof
    assume "settled ?r"
    then have "?r = parse D (take n ?w @ drop n ?w)" using parse_append [OF D] by metis
    also have "\<dots> = Ok (Complete (frame_of D v) (length ?w))"
      using parse_wire [of D v "[]"] assms by (simp add: wire_def)
    finally show False using b n by simp
  qed
  with nf show ?thesis
    by (auto simp: settled_def split: outcome.splits parse_status.splits)
qed

theorem truncated_frame_incomplete_witness:
  "\<exists>k. parse reference_deps (take 24 (serialize reference_deps (frame_of reference_deps sample_reply)))
     = Ok (Incomplete k)"
  using truncated_frame_incomplete [OF reference_deps_laws, of sample_reply 24] sample_reply_wire
  by (simp add: sample_reply_def in_i64_def)



text \<open>An array of one blob error that announces 18446744073709551590 bytes: the parser has 27 bytes and
  asks for 3.\<close>

lemma nested_length_wraps:
  assumes "resp_laws D"
  shows "parse D ([42, 49, CR, LF, 33] @ dec_nat 18446744073709551590 @ crlf) = Ok (Incomplete 3)"
proof -
  let ?l = "dec_nat 18446744073709551590"
  have len: "length ?l = 20" by (simp add: dec_nat.simps)
  have f: "find_crlf D (33 # ?l @ [CR, LF]) 1 = Some (?l, 23)"
    using find_crlf_line1 [OF assms, of ?l 33 "[]"] len by simp
  have "parse_usize ?l = Ok 18446744073709551590"
    by (simp add: parse_usize_def parse_unsigned_dec_nat)
  then have b: "parse_blob_error D (33 # ?l @ [CR, LF]) = Ok (Incomplete 18446744073709551615)"
    unfolding parse_blob_error_def f by (simp add: wrap64_def len)
  have "find_crlf D (42 # 49 # CR # LF # 33 # ?l @ [CR, LF]) 1 = Some ([49], 4)"
    using find_crlf_line1 [OF assms, of "[49]" 42 "33 # ?l @ [CR, LF]"] by simp
  moreover have "parse_isize [49] = Ok 1" by code_simp
  ultimately show ?thesis by (simp add: parse_def parse_aggregate_def agg_expected_def wrap64_def b)
qed

text \<open>The serializer reserves exactly the bytes it writes: \<open>encoded_len\<close> is the length of the
  serialized frame, for every frame.\<close>

theorem encoded_len_exact:
  assumes "resp_laws D"
  shows "length (serialize D f) = encoded_len D f"
proof -
  have [simp]: "length (write_aggregate D [] a) = aggregate_wire_len a" for a
    using assms by (cases "encoding a")
      (simp_all add: write_aggregate_def aggregate_wire_len_def resp_lawsD(2) dec_int_def decimal_len_dec)
  show ?thesis
    using assms
    by (cases f)
       (simp_all add: serialize_def write_simple_string_def write_error_def write_integer_def
         write_bulk_string_def write_null_def resp_lawsD(2) integer_wire_len_dec decimal_len_dec
         double_len_def dec_int_def Let_def nat_add_distrib)
qed

theorem encoded_len_exact_witness:
  "length (serialize reference_deps (Integer (- 42))) = 6"
  using encoded_len_exact [OF reference_deps_laws, of "Integer (- 42)"]
  by (simp add: integer_wire_len_dec dec_int_def dec_nat.simps)

text \<open>Iterating over a parsed aggregate returns the frames of its first \<open>len\<close> elements in order and
  then stops. For arrays, sets and pushes these are all the elements; the header of a map counts
  pairs, so for a map they are only the first half of its keys and values.\<close>

theorem collect_frames_spec:
  assumes D: "resp_laws D" and wf: "wf_val (VAgg k vs)"
    and len: "length (serialize D (frame_of D (VAgg k vs))) < 2 ^ 63"
    and a: "frame_aggregate (frame_of D (VAgg k vs)) = Some a"
  shows "collect_frames D a = Ok (map (frame_of D) (take (header_len k vs) vs))"
proof -
  define ws where "ws = take (header_len k vs) vs"
  have hl: "length ws = header_len k vs" by (auto simp: ws_def header_len_def)
  have a': "encoding a = EncResp" "len a = length ws" "data a = concat (map (wire D) vs)"
    using a hl by (cases k; simp add: mk_aggregate_frame_def wire_def [abs_def]; metis aggregate.simps)+
  have "length (wire D v) < 2 ^ 63" if "v \<in> set vs" for v
  proof -
    have "length (wire D v) \<le> length (wire D (VAgg k vs))"
      using that by (auto simp: wire_agg [OF D] in_set_conv_decomp)
    then show ?thesis using len by (simp add: wire_def del: frame_of.simps)
  qed
  then have "iter_collect D (Suc (length ws)) \<lparr>it_aggregate = a, it_consumed = length ([] :: bytes), it_emitted = 0\<rparr>
           = Ok (map (frame_of D) ws)"
    using wf a'
    by (intro iter_collect_wires [OF D, where rest = "concat (map (wire D) (drop (header_len k vs) vs))"])
       (auto simp: ws_def dest: in_set_takeD simp flip: concat_append map_append)
  then show ?thesis using a'(2) by (simp add: collect_frames_def aggregate_iter_def ws_def)
qed

theorem collect_frames_spec_witness:
  "\<exists>a. frame_aggregate (frame_of reference_deps sample_reply) = Some a \<and>
       collect_frames reference_deps a = Ok [BulkString [107]]"
  using collect_frames_spec [OF reference_deps_laws, of KMap
      "[VBulk [107], VAgg KArray [VInt (- 7), VSimple [79, 75]]]"]
    sample_reply_wire
  by (simp add: sample_reply_def in_i64_def header_len_def mk_aggregate_frame_def)

text \<open>An inline command line becomes an array whose iteration yields exactly the words of the line,
  in order, as bulk strings; the line break is consumed.\<close>

theorem inline_command_words:
  assumes D: "resp_laws D" and "CR \<notin> set line" and "words_of line \<noteq> []"
    and p: "hd line \<notin> {43, 45, 58, 36, 42, 95, 35, 44, 40, 33, 61, 37, 126, 62, LF}"
  shows "\<exists>a. parse D (line @ crlf @ rest) = Ok (Complete (Array a) (length line + 2)) \<and>
             collect_frames D a = Ok (map BulkString (words_of line))"
proof -
  let ?t = "trim_ascii_whitespace line"
  let ?a = "\<lparr>kind = KArray, len = count_inline_args ?t, data = ?t, encoding = EncInline\<rparr>"
  obtain b bs where l: "line = b # bs" using assms(3) by (cases line) auto
  have n: "count_inline_args ?t = length (words_of line)"
    by (simp add: count_inline_args_def count_inline_loop_words words_of_trim)
  have "find_crlf D (line @ crlf @ rest) 0 = Some (line, length line + 2)"
    using find_crlf_line [OF D assms(2), of "[]" rest] by simp
  then have i: "parse_inline D (line @ crlf @ rest) = Ok (Complete (Array ?a) (length line + 2))"
    using assms(3) by (simp add: parse_inline_def Let_def trim_Nil_iff)
  have "parse D (line @ crlf @ rest) = parse_inline D (line @ crlf @ rest)"
    using p assms(2) by (simp add: parse_def l)
  moreover have "collect_frames D ?a = Ok (map BulkString (words_of line))"
    using iter_collect_inline [of ?a "[]" ?t 0 D] hd_trim [of line] n
    by (simp add: collect_frames_def aggregate_iter_def words_of_trim del: iter_collect.simps)
  ultimately show ?thesis using i by auto
qed

theorem inline_command_words_witness:
  "\<exists>a. parse reference_deps ([71, 69, 84, 32, 32, 107, 32] @ crlf) = Ok (Complete (Array a) 9) \<and>
       collect_frames reference_deps a = Ok [BulkString [71, 69, 84], BulkString [107]]"
proof -
  let ?l = "[71, 69, 84, 32, 32, 107, 32] :: bytes"
  have "length ?l = 7" and "words_of ?l = [[71, 69, 84], [107]]" by (simp_all add: is_blank_def)
  then show ?thesis
    using inline_command_words [OF reference_deps_laws, of ?l "[]"] by (simp del: list.size words_of.simps)
qed

text \<open>C4. Input without a blob-error or verbatim-string prefix byte never makes the parser panic: its
  slice expressions stay in range, also for the largest lengths a bulk string header can announce.\<close>

theorem parse_no_panic:
  assumes "length input < 2 ^ 63 - 1" and "33 \<notin> set input" and "61 \<notin> set input"
  shows "parse D input \<noteq> Panic"
  unfolding parse_def by (rule parse_frame_no_panic [OF assms])

theorem parse_no_panic_witness:
  "parse reference_deps ([36] @ dec_nat 9223372036854775807 @ crlf) \<noteq> Panic"
proof -
  have len: "length (dec_nat 9223372036854775807) = 19" by (simp add: dec_nat.simps)
  have "33 \<notin> set (dec_nat n)" "61 \<notin> set (dec_nat n)" for n
    using dec_nat_digits [of 33 n] dec_nat_digits [of 61 n] by (auto simp: is_digit_def)
  then show ?thesis using len by (intro parse_no_panic) auto
qed

text \<open>The length of a blob error is not bounded before it is added to the header length: the
  announced length 18446744073709551614 wraps, passes the completeness test and makes the parser
  slice out of range and panic on 23 bytes sent by a client.\<close>

lemma blob_error_length_panics:
  assumes "resp_laws D"
  shows "parse D ([33] @ dec_nat 18446744073709551614 @ crlf) = Panic"
proof -
  let ?l = "dec_nat 18446744073709551614"
  have len: "length ?l = 20" by (simp add: dec_nat.simps)
  have f: "find_crlf D (33 # ?l @ [CR, LF]) 1 = Some (?l, 23)"
    using find_crlf_line1 [OF assms, of ?l 33 "[]"] len by simp
  have "parse_usize ?l = Ok 18446744073709551614"
    by (simp add: parse_usize_def parse_unsigned_dec_nat)
  then have "parse_blob_error D (33 # ?l @ [CR, LF]) = Panic"
    unfolding parse_blob_error_def f
    by (simp add: wrap64_def crlf_payload_def slice_def len)
  then show ?thesis by (simp add: parse_def)
qed

lemma blob_error_length_panics_witness:
  "parse reference_deps ([33] @ dec_nat 18446744073709551614 @ crlf) = Panic"
  by (rule blob_error_length_panics [OF reference_deps_laws])

end
