(* ===== verification/Store.thy ===== *)
theory Store
  imports HashValue TimerWheel
begin

text \<open>
  The keyspace of a shard, senko-store/src/store.rs with the memory accounting of eviction.rs: two hash
  tables while a resize is in progress, entries with expiry times, the timer wheels, versions for
  watched keys and eviction. The clock is an argument of every operation that reads it. The tables are
  parameters (theory Table) with their buckets; the sizes of boxed objects and of the entry type are
  parameters too. The first part has the definitions; the second shows that the two tables behave as one
  map through every step of a resize; the third is the refinement of a map with deadlines and the
  behaviour of active expiry, memory accounting and versions.
\<close>

section \<open>Entries and options\<close>

text \<open>A boxed object: hashes, which expiry looks into, and the other kinds. The objects in the fields of a
  hash have a type of their own.\<close>

datatype ('h, 'x) object = HashObj "'h hash_object" | OtherObj 'x

record 'o entry =
  en_value :: "'o senko_value"
  en_expires_at :: "nat option"
  en_lru_clock :: nat

datatype set_condition = Always | NX | XX | IfEq bytes | IfNe bytes | IfDeq bytes | IfDne bytes

datatype set_expiry = NoExpiry | Ex nat | Px nat | ExAt nat | PxAt nat | KeepTtl

record set_options =
  so_condition :: set_condition
  so_expiry :: set_expiry
  so_get_old :: bool

record 'o set_result =
  sr_applied :: bool
  sr_old_value :: "'o senko_value option"

record ('t, 'e) bucket_deps =
  bd_table :: "('t, 'e) table_deps"
  with_capacity :: "nat \<Rightarrow> 't"
  num_buckets :: "'t \<Rightarrow> nat"
  get_bucket :: "'t \<Rightarrow> nat \<Rightarrow> (bytes \<times> 'e) option"

record ('t, 'h, 'x, 'f) store_deps =
  sd_buckets :: "('t, ('h, 'x) object entry) bucket_deps"
  sd_hash :: "('h, 'f) hash_deps"
  sd_values :: "('h, 'x) object value_deps"
  sd_object_bytes :: "object_kind \<Rightarrow> ('h, 'x) object \<Rightarrow> nat"
  sd_entry_size :: nat
  sd_is_empty :: "object_kind \<Rightarrow> 'x \<Rightarrow> bool"
  sd_default :: "object_kind \<Rightarrow> 'x"

abbreviation sd_table :: "('t, 'h, 'x, 'f) store_deps \<Rightarrow> ('t, ('h, 'x) object entry) table_deps" where
  "sd_table D \<equiv> bd_table (sd_buckets D)"

record 't rehash_state =
  rh_table :: 't
  rh_scan_bucket :: nat

record 't store =
  st_primary :: 't
  st_resize :: "'t rehash_state option"
  st_global_version :: nat
  st_per_key_version :: "bytes \<Rightarrow> nat option"
  st_expiry_wheel :: "bytes wheel"
  st_field_expiry_wheel :: "(bytes \<times> bytes) wheel"
  st_clock_ms :: nat
  st_max_memory :: "nat option"
  st_memory :: nat
  st_total_commands :: nat
  st_eviction_seed :: "64 word"
  st_no_touch :: bool

definition store_new :: "('t, 'h, 'x, 'f) store_deps \<Rightarrow> nat option \<Rightarrow> nat \<Rightarrow> 't store" where
  "store_new D max_memory now =
     \<lparr>st_primary = with_capacity (sd_buckets D) 64, st_resize = None, st_global_version = 0,
      st_per_key_version = Map.empty, st_expiry_wheel = wheel_new now, st_field_expiry_wheel = wheel_new now,
      st_clock_ms = now, st_max_memory = max_memory, st_memory = 0, st_total_commands = 0,
      st_eviction_seed = of_nat now, st_no_touch = False\<rparr>"

definition record_command :: "'t store \<Rightarrow> 't store" where
  "record_command s = s\<lparr>st_total_commands := sat_add64 (st_total_commands s) 1\<rparr>"

definition set_no_touch :: "'t store \<Rightarrow> bool \<Rightarrow> 't store" where
  "set_no_touch s no_touch = s\<lparr>st_no_touch := no_touch\<rparr>"

definition next_random_seed :: "'t store \<Rightarrow> 64 word \<times> 't store" where
  "next_random_seed s =
     (let seed = st_eviction_seed s * 6364136223846793005 + (of_nat (st_clock_ms s) OR 1)
      in (seed, s\<lparr>st_eviction_seed := seed\<rparr>))"

definition lru_clock :: "nat \<Rightarrow> nat" where
  "lru_clock now_ms = (now_ms div 10000) mod 2 ^ 32"

definition value_hash :: "('h, 'x) object senko_value \<Rightarrow> 'h hash_object option" where
  "value_hash v = (case v of Obj HashKind (HashObj h) \<Rightarrow> Some h | _ \<Rightarrow> None)"

definition value_type_name :: "'o senko_value \<Rightarrow> bytes" where
  "value_type_name v =
     (case v of
        Raw _ \<Rightarrow> ascii ''string'' | IntVal _ \<Rightarrow> ascii ''string'' | FloatVal _ \<Rightarrow> ascii ''string''
      | Obj HashKind _ \<Rightarrow> ascii ''hash'' | Obj ListKind _ \<Rightarrow> ascii ''list'' | Obj SetKind _ \<Rightarrow> ascii ''set''
      | Obj StreamKind _ \<Rightarrow> ascii ''stream'' | Obj ZSetKind _ \<Rightarrow> ascii ''zset'' | Obj Json _ \<Rightarrow> ascii ''json''
      | Obj VectorSet _ \<Rightarrow> ascii ''vectorset'' | Obj BloomFilter _ \<Rightarrow> ascii ''MBbloom--''
      | Obj CuckooFilter _ \<Rightarrow> ascii ''cuckooFilter'' | Obj CountMinSketch _ \<Rightarrow> ascii ''CMSk--''
      | Obj TopK _ \<Rightarrow> ascii ''topk'' | Obj TDigest _ \<Rightarrow> ascii ''TDIS-TYPE'')"

definition condition_matches ::
    "('t, 'h, 'x, 'f) store_deps \<Rightarrow> set_condition \<Rightarrow> ('h, 'x) object entry option \<Rightarrow> bool" where
  "condition_matches D condition current =
     (let text = (\<lambda>e. as_bytes (sd_values D) (en_value e)) in
      case condition of
        Always \<Rightarrow> True
      | NX \<Rightarrow> current = None
      | XX \<Rightarrow> current \<noteq> None
      | IfEq expected \<Rightarrow> (case current of None \<Rightarrow> False | Some e \<Rightarrow> text e = expected)
      | IfNe expected \<Rightarrow> (case current of None \<Rightarrow> False | Some e \<Rightarrow> text e \<noteq> expected)
      | IfDeq expected \<Rightarrow> (case current of None \<Rightarrow> True | Some e \<Rightarrow> text e = expected)
      | IfDne expected \<Rightarrow> (case current of None \<Rightarrow> True | Some e \<Rightarrow> text e \<noteq> expected))"

definition expiry_from_option :: "set_expiry \<Rightarrow> 'o entry option \<Rightarrow> nat \<Rightarrow> nat option" where
  "expiry_from_option expiry current now_ms =
     (case expiry of
        NoExpiry \<Rightarrow> None
      | Ex seconds \<Rightarrow> Some (sat_add64 now_ms (sat_mul64 seconds 1000))
      | Px milliseconds \<Rightarrow> Some (sat_add64 now_ms milliseconds)
      | ExAt seconds \<Rightarrow> Some (sat_mul64 seconds 1000)
      | PxAt milliseconds \<Rightarrow> Some milliseconds
      | KeepTtl \<Rightarrow> (case current of None \<Rightarrow> None | Some e \<Rightarrow> en_expires_at e))"

section \<open>Memory accounting\<close>

text \<open>\<open>AtomicUsize::fetch_add\<close> and \<open>fetch_sub\<close> wrap around.\<close>

definition memory_add :: "nat \<Rightarrow> nat \<Rightarrow> nat" where
  "memory_add used b = wrap64 (used + b)"

definition memory_sub :: "nat \<Rightarrow> nat \<Rightarrow> nat" where
  "memory_sub used b = wrap64 (used + (2 ^ 64 - wrap64 b))"

definition should_evict :: "nat \<Rightarrow> nat option \<Rightarrow> bool" where
  "should_evict used_memory max_memory =
     (case max_memory of
        None \<Rightarrow> False
      | Some limit \<Rightarrow> sat_mul64 limit 90 < sat_mul64 used_memory 100)"

definition value_bytes :: "('t, 'h, 'x, 'f) store_deps \<Rightarrow> ('h, 'x) object entry \<Rightarrow> nat" where
  "value_bytes D e =
     (case en_value e of Raw raw \<Rightarrow> length raw | IntVal _ \<Rightarrow> 8 | FloatVal _ \<Rightarrow> 8 | Obj k x \<Rightarrow> sd_object_bytes D k x)"

definition entry_bytes :: "('t, 'h, 'x, 'f) store_deps \<Rightarrow> bytes \<Rightarrow> ('h, 'x) object entry \<Rightarrow> nat" where
  "entry_bytes D key e = length key + value_bytes D e + sd_entry_size D"

section \<open>Slots\<close>

definition find_slot :: "('t, 'h, 'x, 'f) store_deps \<Rightarrow> 't store \<Rightarrow> bytes \<Rightarrow> ('h, 'x) object entry option" where
  "find_slot D s key =
     (case ht_find (sd_table D) (st_primary s) key of
        Some e \<Rightarrow> Some e
      | None \<Rightarrow> (case st_resize s of
                   None \<Rightarrow> None
                 | Some resize \<Rightarrow> ht_find (sd_table D) (rh_table resize) key))"

text \<open>A write through the reference \<open>find_slot_mut\<close> returns.\<close>

definition write_slot :: "('t, 'h, 'x, 'f) store_deps \<Rightarrow> 't store \<Rightarrow> bytes \<Rightarrow> ('h, 'x) object entry \<Rightarrow> 't store" where
  "write_slot D s key e =
     (case ht_find (sd_table D) (st_primary s) key of
        Some _ \<Rightarrow> s\<lparr>st_primary := ht_replace (sd_table D) (st_primary s) key e\<rparr>
      | None \<Rightarrow> (case st_resize s of
                   None \<Rightarrow> s
                 | Some resize \<Rightarrow>
                     s\<lparr>st_resize := Some (resize\<lparr>rh_table := ht_replace (sd_table D) (rh_table resize) key e\<rparr>)\<rparr>))"

definition tombstone_field_expiries_for_value ::
    "bytes \<Rightarrow> ('h, 'x) object senko_value \<Rightarrow> 't store \<Rightarrow> 't store" where
  "tombstone_field_expiries_for_value key v s =
     (case value_hash v of
        Some h \<Rightarrow> (if ho_has_field_expiry h
                   then s\<lparr>st_field_expiry_wheel := tombstone_key (st_field_expiry_wheel s) key\<rparr> else s)
      | None \<Rightarrow> s)"

definition forget_entry :: "('t, 'h, 'x, 'f) store_deps \<Rightarrow> 't store \<Rightarrow> bytes \<Rightarrow> ('h, 'x) object entry \<Rightarrow> 't store" where
  "forget_entry D s key e =
     (let s1 = s\<lparr>st_expiry_wheel := tombstone (st_expiry_wheel s) key (en_expires_at e)\<rparr>;
          s2 = tombstone_field_expiries_for_value key (en_value e) s1
      in s2\<lparr>st_memory := memory_sub (st_memory s2) (entry_bytes D key e)\<rparr>)"

definition remove_slot ::
    "('t, 'h, 'x, 'f) store_deps \<Rightarrow> 't store \<Rightarrow> bytes \<Rightarrow> ('h, 'x) object entry option \<times> 't store" where
  "remove_slot D s key =
     (case ht_find (sd_table D) (st_primary s) key of
        Some e \<Rightarrow> (Some e, forget_entry D (s\<lparr>st_primary := ht_remove (sd_table D) (st_primary s) key\<rparr>) key e)
      | None \<Rightarrow>
          (case st_resize s of
             None \<Rightarrow> (None, s)
           | Some resize \<Rightarrow>
               (case ht_find (sd_table D) (rh_table resize) key of
                  None \<Rightarrow> (None, s)
                | Some e \<Rightarrow>
                    (Some e, forget_entry D
                       (s\<lparr>st_resize := Some (resize\<lparr>rh_table := ht_remove (sd_table D) (rh_table resize) key\<rparr>)\<rparr>) key e))))"

definition remove_if_expired :: "('t, 'h, 'x, 'f) store_deps \<Rightarrow> 't store \<Rightarrow> bytes \<Rightarrow> nat \<Rightarrow> bool \<times> 't store" where
  "remove_if_expired D s key now_ms =
     (let expired = (case find_slot D s key of None \<Rightarrow> False | Some e \<Rightarrow> is_expired (en_expires_at e) now_ms)
      in if expired then (True, snd (remove_slot D s key)) else (False, s))"

definition insert_or_replace ::
    "('t, 'h, 'x, 'f) store_deps \<Rightarrow> 't store \<Rightarrow> bytes \<Rightarrow> ('h, 'x) object entry \<Rightarrow> 't store" where
  "insert_or_replace D s key e =
     (case ht_find (sd_table D) (st_primary s) key of
        Some old \<Rightarrow>
          (let s1 = s\<lparr>st_primary := ht_replace (sd_table D) (st_primary s) key e,
                      st_expiry_wheel := tombstone (st_expiry_wheel s) key (en_expires_at old)\<rparr>;
               s2 = tombstone_field_expiries_for_value key (en_value old) s1;
               old_bytes = entry_bytes D key old; new_bytes = entry_bytes D key e
           in s2\<lparr>st_memory := (if old_bytes \<le> new_bytes then memory_add (st_memory s2) (new_bytes - old_bytes)
                               else memory_sub (st_memory s2) (old_bytes - new_bytes))\<rparr>)
      | None \<Rightarrow>
          (let s1 = (case st_resize s of
                       None \<Rightarrow> s
                     | Some resize \<Rightarrow>
                         (case ht_find (sd_table D) (rh_table resize) key of
                            None \<Rightarrow> s
                          | Some old \<Rightarrow>
                              forget_entry D (s\<lparr>st_resize := Some (resize\<lparr>rh_table := ht_remove (sd_table D) (rh_table resize) key\<rparr>)\<rparr>)
                                key old))
           in s1\<lparr>st_memory := memory_add (st_memory s1) (entry_bytes D key e),
                 st_primary := ht_insert_unique (sd_table D) (st_primary s1) key e\<rparr>))"

section \<open>Resizing\<close>

definition maybe_start_resize :: "('t, 'h, 'x, 'f) store_deps \<Rightarrow> 't store \<Rightarrow> 't store" where
  "maybe_start_resize D s =
     (if st_resize s \<noteq> None then s
      else let buckets = max (num_buckets (sd_buckets D) (st_primary s)) 1 in
           if ht_len (sd_table D) (st_primary s) * 4 \<le> buckets * 3 then s
           else s\<lparr>st_primary := with_capacity (sd_buckets D) (max (buckets * 2) 64),
                  st_resize := Some \<lparr>rh_table = st_primary s, rh_scan_bucket = 0\<rparr>\<rparr>)"

text \<open>The loop has no bound of its own: it ends after eight moves or when the old table is empty, and
  \<open>None\<close> is that it does not end.\<close>

partial_function (option) rehash_loop :: "('t, 'h, 'x, 'f) store_deps \<Rightarrow> nat \<Rightarrow> 't store \<Rightarrow> 't store option" where
  "rehash_loop D migrated s =
     (if 8 \<le> migrated then Some s
      else case st_resize s of
             None \<Rightarrow> Some s
           | Some resize \<Rightarrow>
               (if ht_len (sd_table D) (rh_table resize) = 0 then Some (s\<lparr>st_resize := None\<rparr>)
                else case get_bucket (sd_buckets D) (rh_table resize)
                            (if num_buckets (sd_buckets D) (rh_table resize) \<le> rh_scan_bucket resize then 0
                             else rh_scan_bucket resize) of
                       None \<Rightarrow>
                         rehash_loop D migrated (s\<lparr>st_resize := Some (resize\<lparr>rh_scan_bucket :=
                           Suc (if num_buckets (sd_buckets D) (rh_table resize) \<le> rh_scan_bucket resize then 0
                                else rh_scan_bucket resize)\<rparr>)\<rparr>)
                     | Some (key, _) \<Rightarrow>
                         (case ht_find (sd_table D) (rh_table resize) key of
                            None \<Rightarrow>
                              rehash_loop D migrated (s\<lparr>st_resize := Some (resize\<lparr>rh_scan_bucket :=
                                Suc (if num_buckets (sd_buckets D) (rh_table resize) \<le> rh_scan_bucket resize then 0
                                     else rh_scan_bucket resize)\<rparr>)\<rparr>)
                          | Some e \<Rightarrow>
                              rehash_loop D (Suc migrated)
                                (s\<lparr>st_resize := Some (resize\<lparr>rh_scan_bucket :=
                                     Suc (if num_buckets (sd_buckets D) (rh_table resize) \<le> rh_scan_bucket resize then 0
                                          else rh_scan_bucket resize),
                                     rh_table := ht_remove (sd_table D) (rh_table resize) key\<rparr>),
                                   st_primary := ht_insert_unique (sd_table D) (st_primary s) key e\<rparr>))))"

definition finish_resize :: "('t, 'h, 'x, 'f) store_deps \<Rightarrow> 't store \<Rightarrow> 't store" where
  "finish_resize D s =
     (case st_resize s of
        None \<Rightarrow> s
      | Some resize \<Rightarrow> (if ht_len (sd_table D) (rh_table resize) = 0 then s\<lparr>st_resize := None\<rparr> else s))"

definition incremental_rehash_step :: "('t, 'h, 'x, 'f) store_deps \<Rightarrow> 't store \<Rightarrow> 't store option" where
  "incremental_rehash_step D s = map_option (finish_resize D) (rehash_loop D 0 s)"

section \<open>Eviction\<close>

definition entry_count :: "('t, 'h, 'x, 'f) store_deps \<Rightarrow> 't store \<Rightarrow> nat" where
  "entry_count D s =
     ht_len (sd_table D) (st_primary s) +
     (case st_resize s of None \<Rightarrow> 0 | Some resize \<Rightarrow> ht_len (sd_table D) (rh_table resize))"

definition all_slots :: "('t, 'h, 'x, 'f) store_deps \<Rightarrow> 't store \<Rightarrow> (bytes \<times> ('h, 'x) object entry) list" where
  "all_slots D s =
     ht_iter (sd_table D) (st_primary s) @
     (case st_resize s of None \<Rightarrow> [] | Some resize \<Rightarrow> ht_iter (sd_table D) (rh_table resize))"

definition iter_live_slots :: "('t, 'h, 'x, 'f) store_deps \<Rightarrow> 't store \<Rightarrow> (bytes \<times> ('h, 'x) object entry) list" where
  "iter_live_slots D s = filter (\<lambda>(_, e). \<not> is_expired (en_expires_at e) (st_clock_ms s)) (all_slots D s)"

fun oldest_of :: "(bytes \<times> nat) option \<Rightarrow> (bytes \<times> nat) list \<Rightarrow> (bytes \<times> nat) option" where
  "oldest_of oldest [] = oldest"
| "oldest_of oldest ((key, lru) # rest) =
     oldest_of (case oldest of
                  Some (candidate, lru') \<Rightarrow> (if lru < lru' then Some (key, lru) else Some (candidate, lru'))
                | None \<Rightarrow> Some (key, lru)) rest"

definition sample_eviction_candidate :: "('t, 'h, 'x, 'f) store_deps \<Rightarrow> 't store \<Rightarrow> bytes option \<times> 't store" where
  "sample_eviction_candidate D s =
     (let total = entry_count D s in
      if total = 0 then (None, s)
      else let (seed, s1) = next_random_seed s;
               start = unat seed mod total;
               live = map (\<lambda>(key, e). (key, en_lru_clock e)) (iter_live_slots D s1) in
           if live = [] then (None, s1)
           else let start' = start mod length live;
                    sample = map (\<lambda>offset. live ! ((start' + offset) mod length live)) [0..<min 5 (length live)]
                in (map_option fst (oldest_of None sample), s1))"

definition maybe_evict :: "('t, 'h, 'x, 'f) store_deps \<Rightarrow> 't store \<Rightarrow> 't store" where
  "maybe_evict D s =
     (if \<not> should_evict (st_memory s) (st_max_memory s) then s
      else case sample_eviction_candidate D s of
             (None, s1) \<Rightarrow> s1
           | (Some victim, s1) \<Rightarrow> snd (remove_slot D s1 victim))"

section \<open>Reads and writes\<close>

text \<open>\<open>refresh_clock\<close> followed by a step of the resize and the removal of the key if it is expired, with
  which most operations begin.\<close>

definition begin_op :: "('t, 'h, 'x, 'f) store_deps \<Rightarrow> 't store \<Rightarrow> nat \<Rightarrow> 't store option" where
  "begin_op D s now = incremental_rehash_step D (s\<lparr>st_clock_ms := now\<rparr>)"

definition touch_entry :: "('t, 'h, 'x, 'f) store_deps \<Rightarrow> 't store \<Rightarrow> bytes \<Rightarrow> ('h, 'x) object entry \<Rightarrow> nat \<Rightarrow> 't store" where
  "touch_entry D s key e now_lru =
     (if \<not> st_no_touch s \<and> en_lru_clock e \<noteq> now_lru then write_slot D s key (e\<lparr>en_lru_clock := now_lru\<rparr>) else s)"

text \<open>\<open>get\<close> and \<open>get_cloned\<close> read the clock only for an entry with a deadline.\<close>

definition store_get ::
    "('t, 'h, 'x, 'f) store_deps \<Rightarrow> 't store \<Rightarrow> bytes \<Rightarrow> nat \<Rightarrow> ('h, 'x) object senko_value option \<times> 't store" where
  "store_get D s key now =
     (case find_slot D s key of
        None \<Rightarrow> (None, s)
      | Some e \<Rightarrow>
          (case en_expires_at e of
             Some deadline \<Rightarrow>
               (if deadline \<le> now then (None, snd (remove_slot D s key))
                else (Some (en_value e), touch_entry D s key e (lru_clock now)))
           | None \<Rightarrow> (Some (en_value e), touch_entry D s key e (lru_clock (st_clock_ms s)))))"

text \<open>The entry \<open>get_mut\<close> hands out a reference to.\<close>

definition store_get_mut ::
    "('t, 'h, 'x, 'f) store_deps \<Rightarrow> 't store \<Rightarrow> bytes \<Rightarrow> nat \<Rightarrow> ('h, 'x) object entry option \<times> 't store" where
  "store_get_mut D s key now =
     (case find_slot D s key of
        None \<Rightarrow> (None, s)
      | Some e \<Rightarrow>
          (if is_expired (en_expires_at e) now then (None, snd (remove_slot D s key))
           else let s' = touch_entry D s key e (lru_clock (if en_expires_at e = None then st_clock_ms s else now))
                in (find_slot D s' key, s')))"

definition touch :: "('t, 'h, 'x, 'f) store_deps \<Rightarrow> 't store \<Rightarrow> bytes \<Rightarrow> nat \<Rightarrow> bool \<times> 't store" where
  "touch D s key now = apfst (\<lambda>e. e \<noteq> None) (store_get_mut D s key now)"

definition store_set ::
    "('t, 'h, 'x, 'f) store_deps \<Rightarrow> 't store \<Rightarrow> bytes \<Rightarrow> ('h, 'x) object senko_value \<Rightarrow> set_options \<Rightarrow> nat \<Rightarrow>
       (('h, 'x) object set_result \<times> 't store) option" where
  "store_set D s key val opts now = do {
     s1 \<leftarrow> begin_op D s now;
     let s2 = snd (remove_if_expired D s1 key now);
     let existing = find_slot D s2 key;
     let old_value = (if so_get_old opts then map_option en_value existing else None);
     let expires_at = expiry_from_option (so_expiry opts) existing now;
     Some (if \<not> condition_matches D (so_condition opts) existing then
             (\<lparr>sr_applied = False, sr_old_value = old_value\<rparr>, s2)
           else let e = \<lparr>en_value = val, en_expires_at = expires_at, en_lru_clock = lru_clock now\<rparr>;
                    s3 = insert_or_replace D s2 key e;
                    s4 = s3\<lparr>st_expiry_wheel := update_expiry (st_expiry_wheel s3) key None expires_at\<rparr>
                in (\<lparr>sr_applied = True, sr_old_value = old_value\<rparr>, maybe_evict D (maybe_start_resize D s4)))
   }"

definition store_delete ::
    "('t, 'h, 'x, 'f) store_deps \<Rightarrow> 't store \<Rightarrow> bytes \<Rightarrow> nat \<Rightarrow> (bool \<times> 't store) option" where
  "store_delete D s key now = do {
     s1 \<leftarrow> begin_op D s now;
     Some (apfst (\<lambda>e. e \<noteq> None) (remove_slot D (snd (remove_if_expired D s1 key now)) key))
   }"

definition delete_with_type ::
    "('t, 'h, 'x, 'f) store_deps \<Rightarrow> 't store \<Rightarrow> bytes \<Rightarrow> nat \<Rightarrow> (bytes option \<times> 't store) option" where
  "delete_with_type D s key now = do {
     s1 \<leftarrow> begin_op D s now;
     Some (apfst (map_option (\<lambda>e. value_type_name (en_value e)))
             (remove_slot D (snd (remove_if_expired D s1 key now)) key))
   }"

definition store_exists :: "('t, 'h, 'x, 'f) store_deps \<Rightarrow> 't store \<Rightarrow> bytes \<Rightarrow> nat \<Rightarrow> bool" where
  "store_exists D s key now =
     (case find_slot D s key of None \<Rightarrow> False | Some e \<Rightarrow> \<not> is_expired (en_expires_at e) now)"

text \<open>Casts to \<open>i64\<close> keep the low 64 bits.\<close>

definition as_i64 :: "nat \<Rightarrow> int" where
  "as_i64 n = sint (of_nat n :: 64 word)"

definition ttl_ms :: "('t, 'h, 'x, 'f) store_deps \<Rightarrow> 't store \<Rightarrow> bytes \<Rightarrow> nat \<Rightarrow> int option" where
  "ttl_ms D s key now =
     (case find_slot D s key of
        None \<Rightarrow> None
      | Some e \<Rightarrow> (case en_expires_at e of
                      None \<Rightarrow> Some (- 1)
                    | Some deadline \<Rightarrow> (if deadline \<le> now then None else Some (as_i64 (deadline - now)))))"

text \<open>Read an unexpired entry after the usual start of an operation.\<close>

definition read_live ::
    "('t, 'h, 'x, 'f) store_deps \<Rightarrow> 't store \<Rightarrow> bytes \<Rightarrow> nat \<Rightarrow> (('h, 'x) object entry option \<times> 't store) option" where
  "read_live D s key now = do {
     s1 \<leftarrow> begin_op D s now;
     Some (case remove_if_expired D s1 key now of
             (True, s2) \<Rightarrow> (None, s2)
           | (False, s2) \<Rightarrow> (find_slot D s2 key, s2))
   }"

definition type_name ::
    "('t, 'h, 'x, 'f) store_deps \<Rightarrow> 't store \<Rightarrow> bytes \<Rightarrow> nat \<Rightarrow> (bytes option \<times> 't store) option" where
  "type_name D s key now = map_option (apfst (map_option (\<lambda>e. value_type_name (en_value e)))) (read_live D s key now)"

definition clone_entry ::
    "('t, 'h, 'x, 'f) store_deps \<Rightarrow> 't store \<Rightarrow> bytes \<Rightarrow> nat \<Rightarrow> (('h, 'x) object entry option \<times> 't store) option" where
  "clone_entry D s key now = read_live D s key now"

definition memory_usage ::
    "('t, 'h, 'x, 'f) store_deps \<Rightarrow> 't store \<Rightarrow> bytes \<Rightarrow> nat \<Rightarrow> (nat option \<times> 't store) option" where
  "memory_usage D s key now = map_option (apfst (map_option (entry_bytes D key))) (read_live D s key now)"

definition expiretime_ms ::
    "('t, 'h, 'x, 'f) store_deps \<Rightarrow> 't store \<Rightarrow> bytes \<Rightarrow> nat \<Rightarrow> (int option \<times> 't store) option" where
  "expiretime_ms D s key now =
     map_option (apfst (map_option (\<lambda>e. case en_expires_at e of None \<Rightarrow> - 1 | Some deadline \<Rightarrow> as_i64 deadline)))
       (read_live D s key now)"

definition expiry_count :: "('t, 'h, 'x, 'f) store_deps \<Rightarrow> 't store \<Rightarrow> nat" where
  "expiry_count D s = length (filter (\<lambda>(_, e). en_expires_at e \<noteq> None) (all_slots D s))"

definition live_entries_snapshot ::
    "('t, 'h, 'x, 'f) store_deps \<Rightarrow> 't store \<Rightarrow> nat \<Rightarrow> (bytes \<times> bytes \<times> nat option \<times> nat) list" where
  "live_entries_snapshot D s now =
     filter (\<lambda>(_, _, expires_at, _). \<not> is_expired expires_at now)
       (map (\<lambda>(key, e). (key, value_type_name (en_value e), en_expires_at e, en_lru_clock e)) (all_slots D s))"

definition live_keys_snapshot :: "('t, 'h, 'x, 'f) store_deps \<Rightarrow> 't store \<Rightarrow> nat \<Rightarrow> bytes list" where
  "live_keys_snapshot D s now = map fst (live_entries_snapshot D s now)"

text \<open>The snapshot sent to a replica clones every key that is live when it starts; every clone reads the
  clock again. \<open>clock i\<close> is the \<open>i\<close>-th reading and \<open>dump_value\<close> the serialization of a value.\<close>

fun collect_dumps ::
    "('t, 'h, 'x, 'f) store_deps \<Rightarrow> (('h, 'x) object senko_value \<Rightarrow> nat option \<Rightarrow> bytes) \<Rightarrow> (nat \<Rightarrow> nat) \<Rightarrow> 't store \<Rightarrow>
       bytes list \<Rightarrow> ((bytes \<times> bytes \<times> nat option) list \<times> 't store) option" where
  "collect_dumps D dump_value clock s [] = Some ([], s)"
| "collect_dumps D dump_value clock s (key # keys) = do {
     (e, s1) \<leftarrow> clone_entry D s key (clock 0);
     (rest, s2) \<leftarrow> collect_dumps D dump_value (\<lambda>i. clock (Suc i)) s1 keys;
     Some ((case e of None \<Rightarrow> rest | Some e' \<Rightarrow> (key, dump_value (en_value e') (en_expires_at e'), en_expires_at e') # rest), s2)
   }"

definition replication_snapshot ::
    "('t, 'h, 'x, 'f) store_deps \<Rightarrow> (('h, 'x) object senko_value \<Rightarrow> nat option \<Rightarrow> bytes) \<Rightarrow> (nat \<Rightarrow> nat) \<Rightarrow> 't store \<Rightarrow>
       ((bytes \<times> bytes \<times> nat option) list \<times> 't store) option" where
  "replication_snapshot D dump_value clock s =
     collect_dumps D dump_value (\<lambda>i. clock (Suc i)) s (live_keys_snapshot D s (clock 0))"

section \<open>Renaming, copying and expiry\<close>

fun schedule_fields :: "(bytes \<times> bytes) wheel \<Rightarrow> bytes \<Rightarrow> (bytes \<times> 'o hash_field) list \<Rightarrow> (bytes \<times> bytes) wheel" where
  "schedule_fields w key [] = w"
| "schedule_fields w key ((field, f) # rest) =
     schedule_fields (case hf_expires_at f of None \<Rightarrow> w | Some expires_at \<Rightarrow> schedule_field w key field expires_at) key rest"

definition schedule_field_expiries_for_value ::
    "('t, 'h, 'x, 'f) store_deps \<Rightarrow> bytes \<Rightarrow> ('h, 'x) object senko_value \<Rightarrow> 't store \<Rightarrow> 't store" where
  "schedule_field_expiries_for_value D key v s =
     (case value_hash v of
        None \<Rightarrow> s
      | Some h \<Rightarrow>
          (if \<not> ho_has_field_expiry h then s
           else s\<lparr>st_field_expiry_wheel :=
                    schedule_fields (st_field_expiry_wheel s) key (iter_live (sd_hash D) h (st_clock_ms s))\<rparr>))"

definition rename ::
    "('t, 'h, 'x, 'f) store_deps \<Rightarrow> 't store \<Rightarrow> bytes \<Rightarrow> bytes \<Rightarrow> nat \<Rightarrow> ((bytes \<times> bytes option) option \<times> 't store) option" where
  "rename D s source dest now = do {
     s1 \<leftarrow> begin_op D s now;
     Some (case remove_if_expired D s1 source now of
       (True, s2) \<Rightarrow> (None, s2)
     | (False, s2) \<Rightarrow>
         (let s3 = snd (remove_if_expired D s2 dest now) in
          case remove_slot D s3 source of
            (None, s4) \<Rightarrow> (None, s4)
          | (Some e, s4) \<Rightarrow>
              (let (overwritten, s5) = remove_slot D s4 dest;
                   s6 = insert_or_replace D s5 dest (e\<lparr>en_lru_clock := lru_clock now\<rparr>);
                   s7 = s6\<lparr>st_expiry_wheel := update_expiry (st_expiry_wheel s6) dest None (en_expires_at e)\<rparr>;
                   s8 = (case find_slot D s7 dest of
                           None \<Rightarrow> s7
                         | Some new \<Rightarrow> schedule_field_expiries_for_value D dest (en_value new) s7)
               in (Some (value_type_name (en_value e), map_option (\<lambda>o'. value_type_name (en_value o')) overwritten),
                   maybe_start_resize D s8))))
   }"

definition copy_from_entry ::
    "('t, 'h, 'x, 'f) store_deps \<Rightarrow> 't store \<Rightarrow> bytes \<Rightarrow> ('h, 'x) object entry \<Rightarrow> nat option \<Rightarrow> nat \<Rightarrow>
       (bytes option \<times> 't store) option" where
  "copy_from_entry D s dest source_entry new_expires_at now = do {
     s1 \<leftarrow> begin_op D s now;
     let s2 = snd (remove_if_expired D s1 dest now);
     let (overwritten, s3) = remove_slot D s2 dest;
     let s4 = insert_or_replace D s3 dest
                \<lparr>en_value = en_value source_entry, en_expires_at = new_expires_at, en_lru_clock = lru_clock now\<rparr>;
     let s5 = s4\<lparr>st_expiry_wheel := update_expiry (st_expiry_wheel s4) dest None new_expires_at\<rparr>;
     let s6 = schedule_field_expiries_for_value D dest (en_value source_entry) s5;
     Some (map_option (\<lambda>e. value_type_name (en_value e)) overwritten, maybe_evict D (maybe_start_resize D s6))
   }"

definition write_expiry :: "('t, 'h, 'x, 'f) store_deps \<Rightarrow> 't store \<Rightarrow> bytes \<Rightarrow> nat option \<Rightarrow> nat \<Rightarrow> 't store option" where
  "write_expiry D s key expires_at now = do {
     s1 \<leftarrow> begin_op D s now;
     Some (case remove_if_expired D s1 key now of
       (True, s2) \<Rightarrow> s2
     | (False, s2) \<Rightarrow>
         (case find_slot D s2 key of
            None \<Rightarrow> s2
          | Some e \<Rightarrow>
              (let s3 = write_slot D s2 key (e\<lparr>en_expires_at := expires_at\<rparr>)
               in s3\<lparr>st_expiry_wheel := update_expiry (st_expiry_wheel s3) key (en_expires_at e) expires_at\<rparr>)))
   }"

definition store_set_expiry :: "('t, 'h, 'x, 'f) store_deps \<Rightarrow> 't store \<Rightarrow> bytes \<Rightarrow> nat \<Rightarrow> nat \<Rightarrow> 't store option" where
  "store_set_expiry D s key expires_at now = write_expiry D s key (Some expires_at) now"

definition remove_expiry :: "('t, 'h, 'x, 'f) store_deps \<Rightarrow> 't store \<Rightarrow> bytes \<Rightarrow> nat \<Rightarrow> 't store option" where
  "remove_expiry D s key now = write_expiry D s key None now"

definition clear_store :: "('t, 'h, 'x, 'f) store_deps \<Rightarrow> 't store \<Rightarrow> nat \<Rightarrow> 't store" where
  "clear_store D s now =
     s\<lparr>st_clock_ms := now, st_primary := with_capacity (sd_buckets D) 64, st_resize := None,
       st_global_version := 0, st_per_key_version := Map.empty, st_expiry_wheel := wheel_new now,
       st_field_expiry_wheel := wheel_new now, st_memory := 0\<rparr>"

text \<open>Active expiry. The hash of a key is updated in place; the key goes when no live field is left.\<close>

fun expire_keys :: "('t, 'h, 'x, 'f) store_deps \<Rightarrow> 't store \<Rightarrow> bytes list \<Rightarrow> nat \<times> 't store" where
  "expire_keys D s [] = (0, s)"
| "expire_keys D s (key # keys) =
     (let (removed, s1) = remove_if_expired D s key (st_clock_ms s); (n, s2) = expire_keys D s1 keys
      in ((if removed then 1 else 0) + n, s2))"

definition update_hash ::
    "('t, 'h, 'x, 'f) store_deps \<Rightarrow> 't store \<Rightarrow> bytes \<Rightarrow> ('h hash_object \<Rightarrow> 'h hash_object) \<Rightarrow> bool \<times> 't store" where
  "update_hash D s key f =
     (case find_slot D s key of
        None \<Rightarrow> (False, s)
      | Some e \<Rightarrow>
          (case value_hash (en_value e) of
             None \<Rightarrow> (False, s)
           | Some h \<Rightarrow>
               (let h' = f h; s1 = write_slot D s key (e\<lparr>en_value := Obj HashKind (HashObj h')\<rparr>) in
                if hash_is_empty (sd_hash D) h' (st_clock_ms s) then apfst (\<lambda>r. r \<noteq> None) (remove_slot D s1 key)
                else (False, s1))))"

fun expire_fields :: "('t, 'h, 'x, 'f) store_deps \<Rightarrow> 't store \<Rightarrow> (bytes \<times> bytes) list \<Rightarrow> nat \<times> 't store" where
  "expire_fields D s [] = (0, s)"
| "expire_fields D s ((key, field) # rest) =
     (let (removed, s1) = update_hash D s key (\<lambda>h. snd (hash_get_mut (sd_hash D) h field (st_clock_ms s)));
          (n, s2) = expire_fields D s1 rest
      in ((if removed then 1 else 0) + n, s2))"

fun drain_hashes :: "('t, 'h, 'x, 'f) store_deps \<Rightarrow> 't store \<Rightarrow> bytes list \<Rightarrow> nat \<times> 't store" where
  "drain_hashes D s [] = (0, s)"
| "drain_hashes D s (key # keys) =
     (let (removed, s1) = update_hash D s key (\<lambda>h. snd (drain_expired (sd_hash D) h (st_clock_ms s)));
          (n, s2) = drain_hashes D s1 keys
      in ((if removed then 1 else 0) + n, s2))"

definition has_field_ttl :: "('h, 'x) object entry \<Rightarrow> bool" where
  "has_field_ttl e = (case value_hash (en_value e) of None \<Rightarrow> False | Some h \<Rightarrow> ho_has_field_expiry h)"

definition advance_expiry_wheel ::
    "('t, 'h, 'x, 'f) store_deps \<Rightarrow> 't store \<Rightarrow> nat \<Rightarrow> (nat \<times> 't store) option" where
  "advance_expiry_wheel D s now_ms = do {
     let s0 = s\<lparr>st_clock_ms := max (st_clock_ms s) now_ms\<rparr>;
     s1 \<leftarrow> incremental_rehash_step D s0;
     let (expired, w) = advance (st_expiry_wheel s1) (st_clock_ms s1);
     let (expired_fields, fw) = advance_fields (st_field_expiry_wheel s1) (st_clock_ms s1);
     let s2 = s1\<lparr>st_expiry_wheel := w, st_field_expiry_wheel := fw\<rparr>;
     let (n1, s3) = expire_keys D s2 expired;
     let (n2, s4) = expire_fields D s3 expired_fields;
     let keys_with_field_ttl = map fst (filter (\<lambda>(_, e). has_field_ttl e) (all_slots D s4));
     let (n3, s5) = drain_hashes D s4 keys_with_field_ttl;
     Some (n1 + n2 + n3, s5)
   }"

definition schedule_hash_field_expiry :: "'t store \<Rightarrow> bytes \<Rightarrow> bytes \<Rightarrow> nat \<Rightarrow> 't store" where
  "schedule_hash_field_expiry s key field expires_at =
     s\<lparr>st_field_expiry_wheel := schedule_field (st_field_expiry_wheel s) key field expires_at\<rparr>"

section \<open>Access to hash values\<close>

definition remove_if_empty_hash :: "('t, 'h, 'x, 'f) store_deps \<Rightarrow> 't store \<Rightarrow> bytes \<Rightarrow> nat \<Rightarrow> bool \<times> 't store" where
  "remove_if_empty_hash D s key clock_snapshot =
     (case find_slot D s key of
        None \<Rightarrow> (False, s)
      | Some e \<Rightarrow>
          (case value_hash (en_value e) of
             None \<Rightarrow> (False, s)
           | Some h \<Rightarrow> (if hash_is_empty (sd_hash D) h clock_snapshot then (True, snd (remove_slot D s key)) else (False, s))))"

definition get_hash ::
    "('t, 'h, 'x, 'f) store_deps \<Rightarrow> 't store \<Rightarrow> bytes \<Rightarrow> nat \<Rightarrow> 'h hash_object option \<times> 't store" where
  "get_hash D s key now =
     (case store_get D s key now of
        (None, s1) \<Rightarrow> (None, s1)
      | (Some _, s1) \<Rightarrow>
          (case remove_if_empty_hash D s1 key (st_clock_ms s) of
             (True, s2) \<Rightarrow> (None, s2)
           | (False, s2) \<Rightarrow> (case find_slot D s2 key of None \<Rightarrow> (None, s2) | Some e \<Rightarrow> (value_hash (en_value e), s2))))"

definition get_hash_mut ::
    "('t, 'h, 'x, 'f) store_deps \<Rightarrow> 't store \<Rightarrow> bytes \<Rightarrow> nat \<Rightarrow> 'h hash_object option \<times> 't store" where
  "get_hash_mut D s key now =
     (let e = find_slot D s key in
      if (case e of None \<Rightarrow> False | Some e' \<Rightarrow> is_expired (en_expires_at e') now) then (None, snd (remove_slot D s key))
      else case remove_if_empty_hash D s key (st_clock_ms s) of
             (True, s1) \<Rightarrow> (None, s1)
           | (False, s1) \<Rightarrow>
               (case find_slot D s1 key of
                  None \<Rightarrow> (None, s1)
                | Some e' \<Rightarrow>
                    (value_hash (en_value e'),
                     touch_entry D s1 key e' (lru_clock (if en_expires_at e' = None then st_clock_ms s else now)))))"

definition get_or_create_hash ::
    "('t, 'h, 'x, 'f) store_deps \<Rightarrow> 't store \<Rightarrow> bytes \<Rightarrow> nat \<Rightarrow> ('h hash_object \<times> 't store) option" where
  "get_or_create_hash D s key now = do {
     s1 \<leftarrow> begin_op D s now;
     let s2 = snd (remove_if_expired D s1 key now);
     let exists_as_hash = (case find_slot D s2 key of None \<Rightarrow> False | Some e \<Rightarrow> value_hash (en_value e) \<noteq> None);
     let s3 = (if exists_as_hash then s2
               else insert_or_replace D s2 key
                      \<lparr>en_value = Obj HashKind (HashObj (hash_with_hasher (sd_hash D))), en_expires_at = None,
                       en_lru_clock = lru_clock now\<rparr>);
     e \<leftarrow> find_slot D s3 key;
     h \<leftarrow> value_hash (en_value e);
     Some (h, s3)
   }"

section \<open>Access to lists, sets, streams and sorted sets\<close>

text \<open>The accessors of the other containers repeat those of hashes; only a stream may be empty. The test
  for emptiness and the empty container are \<open>sd_is_empty\<close> and \<open>sd_default\<close>.\<close>

definition value_object :: "object_kind \<Rightarrow> ('h, 'x) object senko_value \<Rightarrow> 'x option" where
  "value_object kind v = (case v of Obj k (OtherObj x) \<Rightarrow> (if k = kind then Some x else None) | _ \<Rightarrow> None)"

definition remove_object_if_empty ::
    "('t, 'h, 'x, 'f) store_deps \<Rightarrow> object_kind \<Rightarrow> 't store \<Rightarrow> bytes \<Rightarrow> bool \<times> 't store" where
  "remove_object_if_empty D kind s key =
     (case find_slot D s key of
        None \<Rightarrow> (False, s)
      | Some e \<Rightarrow>
          (case value_object kind (en_value e) of
             None \<Rightarrow> (False, s)
           | Some x \<Rightarrow> (if sd_is_empty D kind x then (True, snd (remove_slot D s key)) else (False, s))))"

definition get_object ::
    "('t, 'h, 'x, 'f) store_deps \<Rightarrow> object_kind \<Rightarrow> 't store \<Rightarrow> bytes \<Rightarrow> nat \<Rightarrow> 'x option \<times> 't store" where
  "get_object D kind s key now =
     (case store_get D s key now of
        (None, s1) \<Rightarrow> (None, s1)
      | (Some _, s1) \<Rightarrow>
          (case (if kind = StreamKind then (False, s1) else remove_object_if_empty D kind s1 key) of
             (True, s2) \<Rightarrow> (None, s2)
           | (False, s2) \<Rightarrow>
               (case find_slot D s2 key of None \<Rightarrow> (None, s2) | Some e \<Rightarrow> (value_object kind (en_value e), s2))))"

definition get_object_mut ::
    "('t, 'h, 'x, 'f) store_deps \<Rightarrow> object_kind \<Rightarrow> 't store \<Rightarrow> bytes \<Rightarrow> nat \<Rightarrow> 'x option \<times> 't store" where
  "get_object_mut D kind s key now =
     (let e = find_slot D s key in
      if (case e of None \<Rightarrow> False | Some e' \<Rightarrow> is_expired (en_expires_at e') now) then (None, snd (remove_slot D s key))
      else case (if kind = StreamKind then (False, s) else remove_object_if_empty D kind s key) of
             (True, s1) \<Rightarrow> (None, s1)
           | (False, s1) \<Rightarrow>
               (case find_slot D s1 key of
                  None \<Rightarrow> (None, s1)
                | Some e' \<Rightarrow>
                    (value_object kind (en_value e'),
                     touch_entry D s1 key e' (lru_clock (if en_expires_at e' = None then st_clock_ms s else now)))))"

definition get_or_create_object ::
    "('t, 'h, 'x, 'f) store_deps \<Rightarrow> object_kind \<Rightarrow> 't store \<Rightarrow> bytes \<Rightarrow> nat \<Rightarrow> ('x \<times> 't store) option" where
  "get_or_create_object D kind s key now = do {
     s1 \<leftarrow> begin_op D s now;
     let s2 = snd (remove_if_expired D s1 key now);
     let exists_as_kind = (case find_slot D s2 key of None \<Rightarrow> False | Some e \<Rightarrow> value_object kind (en_value e) \<noteq> None);
     let s3 = (if exists_as_kind then s2
               else insert_or_replace D s2 key
                      \<lparr>en_value = Obj kind (OtherObj (sd_default D kind)), en_expires_at = None, en_lru_clock = lru_clock now\<rparr>);
     e \<leftarrow> find_slot D s3 key;
     x \<leftarrow> value_object kind (en_value e);
     Some (x, s3)
   }"

definition get_list where "get_list D = get_object D ListKind"
definition get_list_mut where "get_list_mut D = get_object_mut D ListKind"
definition get_or_create_list where "get_or_create_list D = get_or_create_object D ListKind"
definition remove_list_if_empty where "remove_list_if_empty D s key = snd (remove_object_if_empty D ListKind s key)"

definition get_set where "get_set D = get_object D SetKind"
definition get_set_mut where "get_set_mut D = get_object_mut D SetKind"
definition get_or_create_set where "get_or_create_set D = get_or_create_object D SetKind"
definition remove_set_if_empty where "remove_set_if_empty D s key = snd (remove_object_if_empty D SetKind s key)"

definition get_stream where "get_stream D = get_object D StreamKind"
definition get_stream_mut where "get_stream_mut D = get_object_mut D StreamKind"
definition get_or_create_stream where "get_or_create_stream D = get_or_create_object D StreamKind"

definition get_zset where "get_zset D = get_object D ZSetKind"
definition get_zset_mut where "get_zset_mut D = get_object_mut D ZSetKind"
definition get_or_create_zset where "get_or_create_zset D = get_or_create_object D ZSetKind"
definition remove_zset_if_empty where "remove_zset_if_empty D s key = snd (remove_object_if_empty D ZSetKind s key)"

section \<open>Introspection\<close>

definition bucket_snapshot ::
    "('t, 'h, 'x, 'f) store_deps \<Rightarrow> 't store \<Rightarrow> nat \<Rightarrow> nat \<Rightarrow> (bytes \<times> bytes \<times> nat option) option" where
  "bucket_snapshot D s table_index bucket =
     map_option (\<lambda>(key, e). (key, value_type_name (en_value e), en_expires_at e))
       (if table_index = 0 then get_bucket (sd_buckets D) (st_primary s) bucket
        else if table_index = 1 then
          (case st_resize s of None \<Rightarrow> None | Some resize \<Rightarrow> get_bucket (sd_buckets D) (rh_table resize) bucket)
        else None)"

definition table_bucket_counts :: "('t, 'h, 'x, 'f) store_deps \<Rightarrow> 't store \<Rightarrow> nat \<times> nat" where
  "table_bucket_counts D s =
     (max (num_buckets (sd_buckets D) (st_primary s)) 1,
      case st_resize s of None \<Rightarrow> 0 | Some resize \<Rightarrow> max (num_buckets (sd_buckets D) (rh_table resize)) 1)"

section \<open>Versions\<close>

definition key_version :: "'t store \<Rightarrow> bytes \<Rightarrow> nat" where
  "key_version s key = (case st_per_key_version s key of None \<Rightarrow> 0 | Some v \<Rightarrow> v)"

text \<open>Keys are stored as UTF-8 strings; other byte strings name no stored key.\<close>

definition notify_watchers :: "('t, 'h, 'x, 'f) store_deps \<Rightarrow> 't store \<Rightarrow> bytes \<Rightarrow> nat \<times> 't store" where
  "notify_watchers D s key =
     (let version = sat_add64 (st_global_version s) 1; s1 = s\<lparr>st_global_version := version\<rparr> in
      (version,
       if utf8_valid key \<or> find_slot D s1 key \<noteq> None
       then s1\<lparr>st_per_key_version := (st_per_key_version s1)(key \<mapsto> version)\<rparr> else s1))"

section \<open>What the store relies on of its tables\<close>

definition bucket_laws :: "('t, 'e) bucket_deps \<Rightarrow> bool" where
  "bucket_laws B \<longleftrightarrow>
     table_laws (bd_table B) \<and>
     (\<forall>n. ht_iter (bd_table B) (with_capacity B n) = []) \<and>
     (\<forall>t b k e. get_bucket B t b = Some (k, e) \<longrightarrow> (k, e) \<in> set (ht_iter (bd_table B) t)) \<and>
     (\<forall>t. ht_iter (bd_table B) t \<noteq> [] \<longrightarrow> (\<exists>b < num_buckets B t. get_bucket B t b \<noteq> None))"

definition store_laws :: "('t, 'h, 'x, 'f) store_deps \<Rightarrow> bool" where
  "store_laws D \<longleftrightarrow> bucket_laws (sd_buckets D) \<and> hash_laws (sd_hash D)"

lemma store_lawsD:
  assumes "store_laws D"
  shows "table_laws (sd_table D)"
    and "ht_iter (sd_table D) (with_capacity (sd_buckets D) n) = []"
    and "get_bucket (sd_buckets D) t b = Some (k, e) \<Longrightarrow> ht_map (sd_table D) t k = Some e"
    and "ht_iter (sd_table D) t \<noteq> [] \<Longrightarrow> \<exists>b < num_buckets (sd_buckets D) t. get_bucket (sd_buckets D) t b \<noteq> None"
    and "ht_find (sd_table D) t k = ht_map (sd_table D) t k"
    and "ht_map (sd_table D) (ht_remove (sd_table D) t k) = (ht_map (sd_table D) t)(k := None)"
    and "ht_len (sd_table D) t = length (ht_iter (sd_table D) t)"
proof -
  have T: "table_laws (sd_table D)" using assms by (simp add: store_laws_def bucket_laws_def)
  then show "table_laws (sd_table D)" .
  show "ht_iter (sd_table D) (with_capacity (sd_buckets D) n) = []"
    and "ht_iter (sd_table D) t \<noteq> [] \<Longrightarrow> \<exists>b < num_buckets (sd_buckets D) t. get_bucket (sd_buckets D) t b \<noteq> None"
    using assms by (simp_all add: store_laws_def bucket_laws_def)
  show "get_bucket (sd_buckets D) t b = Some (k, e) \<Longrightarrow> ht_map (sd_table D) t k = Some e"
    using assms ht_map_iff [OF T] by (simp add: store_laws_def bucket_laws_def)
  show "ht_find (sd_table D) t k = ht_map (sd_table D) t k"
    and "ht_map (sd_table D) (ht_remove (sd_table D) t k) = (ht_map (sd_table D) t)(k := None)"
    and "ht_len (sd_table D) t = length (ht_iter (sd_table D) t)" by (simp_all add: table_lawsD [OF T])
qed

section \<open>Two tables as one map\<close>

definition resize_map :: "('t, 'h, 'x, 'f) store_deps \<Rightarrow> 't store \<Rightarrow> bytes \<Rightarrow> ('h, 'x) object entry option" where
  "resize_map D s = (case st_resize s of None \<Rightarrow> Map.empty | Some r \<Rightarrow> ht_map (sd_table D) (rh_table r))"

abbreviation primary_map :: "('t, 'h, 'x, 'f) store_deps \<Rightarrow> 't store \<Rightarrow> bytes \<Rightarrow> ('h, 'x) object entry option" where
  "primary_map D s \<equiv> ht_map (sd_table D) (st_primary s)"

definition entries_bytes :: "('t, 'h, 'x, 'f) store_deps \<Rightarrow> (bytes \<Rightarrow> ('h, 'x) object entry option) \<Rightarrow> nat" where
  "entries_bytes D m = (\<Sum>k \<in> dom m. entry_bytes D k (the (m k)))"

text \<open>No key is in both tables, and the memory counter is the size of all entries.\<close>

definition store_inv :: "('t, 'h, 'x, 'f) store_deps \<Rightarrow> 't store \<Rightarrow> bool" where
  "store_inv D s \<longleftrightarrow>
     dom (primary_map D s) \<inter> dom (resize_map D s) = {} \<and>
     st_memory s = wrap64 (entries_bytes D (find_slot D s))"

lemma find_slot_eq: "store_laws D \<Longrightarrow> find_slot D s = resize_map D s ++ primary_map D s"
  by (auto simp: find_slot_def resize_map_def fun_eq_iff map_add_def store_lawsD split: option.splits)

lemma find_slot_all_slots:
  assumes "store_laws D" and "store_inv D s"
  shows "find_slot D s k = Some e \<longleftrightarrow> (k, e) \<in> set (all_slots D s)"
proof -
  have disj: "dom (primary_map D s) \<inter> dom (resize_map D s) = {}" using assms(2) by (simp add: store_inv_def)
  show ?thesis
    unfolding find_slot_eq [OF assms(1)] using disj
    by (auto simp: all_slots_def resize_map_def map_add_Some_iff ht_map_iff [OF store_lawsD(1) [OF assms(1)], symmetric]
        disjoint_iff domIff split: option.splits)
qed

lemma finite_find_slot: "store_laws D \<Longrightarrow> finite (dom (find_slot D s))"
  by (simp add: find_slot_eq resize_map_def finite_dom_map_of split: option.splits)

lemma entries_bytes_upd:
  assumes "finite (dom m)"
  shows "entries_bytes D (m(k \<mapsto> e)) + (case m k of None \<Rightarrow> 0 | Some old \<Rightarrow> entry_bytes D k old) = entries_bytes D m + entry_bytes D k e"
    and "entries_bytes D (m(k := None)) + (case m k of None \<Rightarrow> 0 | Some old \<Rightarrow> entry_bytes D k old) = entries_bytes D m"
proof -
  let ?r = "\<Sum>x \<in> dom m - {k}. entry_bytes D x (the (m x))"
  have r: "entries_bytes D m = (case m k of None \<Rightarrow> 0 | Some old \<Rightarrow> entry_bytes D k old) + ?r"
    using assms by (cases "m k") (auto simp: entries_bytes_def sum.remove [of "dom m" k] domIff)
  have "entries_bytes D (m(k := None)) = ?r"
    unfolding entries_bytes_def by (intro sum.cong) auto
  then show "entries_bytes D (m(k := None)) + (case m k of None \<Rightarrow> 0 | Some old \<Rightarrow> entry_bytes D k old) = entries_bytes D m"
    using r by simp
  have "entries_bytes D (m(k \<mapsto> e)) = entry_bytes D k e + (\<Sum>x \<in> dom m - {k}. entry_bytes D x (the ((m(k \<mapsto> e)) x)))"
    using assms by (simp add: entries_bytes_def sum.insert_remove)
  also have "(\<Sum>x \<in> dom m - {k}. entry_bytes D x (the ((m(k \<mapsto> e)) x))) = ?r" by (intro sum.cong) auto
  finally show "entries_bytes D (m(k \<mapsto> e)) + (case m k of None \<Rightarrow> 0 | Some old \<Rightarrow> entry_bytes D k old) = entries_bytes D m + entry_bytes D k e"
    using r by linarith
qed

lemma memory_add_wrap: "memory_add (wrap64 a) b = wrap64 (a + b)"
  by (simp add: memory_add_def wrap64_def mod_add_left_eq)

lemma mod_sub_wrap:
  fixes M :: nat
  assumes "b \<le> a" and "0 < M"
  shows "(a mod M + (M - b mod M)) mod M = (a - b) mod M"
proof -
  have "(a mod M + (M - b mod M)) mod M = (a + (M - b mod M)) mod M" by (rule mod_add_left_eq)
  also have "a + (M - b mod M) = (a - b) + (M + M * (b div M))"
    using assms mult_div_mod_eq [of M b] mod_less_divisor [of M b] by linarith
  also have "M + M * (b div M) = M * Suc (b div M)" by simp
  finally show ?thesis by (metis mod_mult_self2)
qed

lemma memory_sub_wrap: "b \<le> a \<Longrightarrow> memory_sub (wrap64 a) b = wrap64 (a - b)"
  using mod_sub_wrap [of b a 18446744073709551616] by (simp add: memory_sub_def wrap64_def)

text \<open>The parts of a store no slot operation touches.\<close>

definition same_env :: "'t store \<Rightarrow> 't store \<Rightarrow> bool" where
  "same_env s s' \<longleftrightarrow>
     st_clock_ms s' = st_clock_ms s \<and> st_max_memory s' = st_max_memory s \<and> st_no_touch s' = st_no_touch s \<and>
     st_global_version s' = st_global_version s \<and> st_per_key_version s' = st_per_key_version s"

lemma same_env_refl [simp]: "same_env s s"
  by (simp add: same_env_def)

lemma same_env_trans: "same_env s s' \<Longrightarrow> same_env s' s'' \<Longrightarrow> same_env s s''"
  by (simp add: same_env_def)

lemma same_env_update [simp]:
  "same_env s (s'\<lparr>st_primary := t\<rparr>) = same_env s s'" "same_env s (s'\<lparr>st_resize := r\<rparr>) = same_env s s'"
  "same_env s (s'\<lparr>st_memory := n\<rparr>) = same_env s s'" "same_env s (s'\<lparr>st_expiry_wheel := w\<rparr>) = same_env s s'"
  "same_env s (s'\<lparr>st_field_expiry_wheel := fw\<rparr>) = same_env s s'" "same_env s (s'\<lparr>st_eviction_seed := x\<rparr>) = same_env s s'"
  by (simp_all add: same_env_def)

lemma tombstone_field_simps [simp]:
  "st_primary (tombstone_field_expiries_for_value key v s) = st_primary s"
  "st_resize (tombstone_field_expiries_for_value key v s) = st_resize s"
  "st_memory (tombstone_field_expiries_for_value key v s) = st_memory s"
  "same_env s' (tombstone_field_expiries_for_value key v s) = same_env s' s"
  "\<not> has_field_ttl e \<Longrightarrow> tombstone_field_expiries_for_value key (en_value e) s = s"
  by (auto simp: tombstone_field_expiries_for_value_def has_field_ttl_def same_env_def split: option.splits)

lemma forget_entry_simps [simp]:
  "st_primary (forget_entry D s key e) = st_primary s" "st_resize (forget_entry D s key e) = st_resize s"
  "st_memory (forget_entry D s key e) = memory_sub (st_memory s) (entry_bytes D key e)"
  "same_env s' (forget_entry D s key e) = same_env s' s"
  "\<not> has_field_ttl e \<Longrightarrow> st_field_expiry_wheel (forget_entry D s key e) = st_field_expiry_wheel s"
  by (simp_all add: forget_entry_def Let_def)

lemma find_slot_cong: "st_primary s = st_primary s' \<Longrightarrow> st_resize s = st_resize s' \<Longrightarrow> find_slot D s = find_slot D s'"
  by (rule ext) (simp add: find_slot_def cong: option.case_cong)

text \<open>A slot operation: what it does to the map, the invariant and the rest.\<close>

definition slot_op :: "('t, 'h, 'x, 'f) store_deps \<Rightarrow> 't store \<Rightarrow> 't store \<Rightarrow> (bytes \<Rightarrow> ('h, 'x) object entry option) \<Rightarrow> bool" where
  "slot_op D s s' m \<longleftrightarrow> store_inv D s' \<and> find_slot D s' = m \<and> same_env s s'"

lemma entries_bytes_remove:
  "finite (dom m) \<Longrightarrow> m k = Some e \<Longrightarrow>
     entry_bytes D k e \<le> entries_bytes D m \<and> entries_bytes D (m(k := None)) = entries_bytes D m - entry_bytes D k e"
  using entries_bytes_upd(2) [of m D k] by simp

lemma remove_slot_spec:
  assumes D: "store_laws D" and inv: "store_inv D s"
  shows "fst (remove_slot D s k) = find_slot D s k"
    and "slot_op D s (snd (remove_slot D s k)) ((find_slot D s)(k := None))"
    and "(\<And>e. find_slot D s k = Some e \<Longrightarrow> \<not> has_field_ttl e) \<Longrightarrow>
           st_field_expiry_wheel (snd (remove_slot D s k)) = st_field_expiry_wheel s"
proof -
  have disj: "dom (primary_map D s) \<inter> dom (resize_map D s) = {}" and mem: "st_memory s = wrap64 (entries_bytes D (find_slot D s))"
    using inv by (simp_all add: store_inv_def)
  note L = store_lawsD [OF D]
  show "fst (remove_slot D s k) = find_slot D s k"
    by (auto simp: remove_slot_def find_slot_def split: option.splits)
  show "st_field_expiry_wheel (snd (remove_slot D s k)) = st_field_expiry_wheel s"
    if "\<And>e. find_slot D s k = Some e \<Longrightarrow> \<not> has_field_ttl e"
    using that by (auto simp: remove_slot_def find_slot_def split: option.splits)
  have m: "find_slot D (snd (remove_slot D s k)) = (find_slot D s)(k := None)"
    and d: "dom (primary_map D (snd (remove_slot D s k))) \<inter> dom (resize_map D (snd (remove_slot D s k))) = {}"
    using disj unfolding find_slot_eq [OF D]
    by (auto simp: remove_slot_def resize_map_def L(5,6) map_add_def fun_eq_iff domIff split: option.splits)
  have env: "same_env s (snd (remove_slot D s k))"
    by (auto simp: remove_slot_def split: option.splits)
  have "st_memory (snd (remove_slot D s k)) = wrap64 (entries_bytes D ((find_slot D s)(k := None)))"
  proof (cases "find_slot D s k")
    case None
    then have "remove_slot D s k = (None, s)" by (auto simp: remove_slot_def find_slot_def split: option.splits)
    then show ?thesis using mem None by (simp add: fun_upd_idem)
  next
    case (Some e)
    then have "st_memory (snd (remove_slot D s k)) = memory_sub (st_memory s) (entry_bytes D k e)"
      by (auto simp: remove_slot_def find_slot_def split: option.splits)
    then show ?thesis
      using mem entries_bytes_remove [OF finite_find_slot [OF D] Some, of D] by (simp add: memory_sub_wrap)
  qed
  then show "slot_op D s (snd (remove_slot D s k)) ((find_slot D s)(k := None))"
    using m d env by (simp add: slot_op_def store_inv_def)
qed

text \<open>A write through a reference that keeps the value: expiry times and access clocks.\<close>

lemma write_slot_spec:
  assumes D: "store_laws D" and inv: "store_inv D s" and k: "find_slot D s k = Some e0" and v: "en_value e = en_value e0"
  shows "slot_op D s (write_slot D s k e) ((find_slot D s)(k \<mapsto> e)) \<and>
         st_field_expiry_wheel (write_slot D s k e) = st_field_expiry_wheel s"
proof -
  have disj: "dom (primary_map D s) \<inter> dom (resize_map D s) = {}" and mem: "st_memory s = wrap64 (entries_bytes D (find_slot D s))"
    using inv by (simp_all add: store_inv_def)
  note L = store_lawsD [OF D]
  have m: "find_slot D (write_slot D s k e) = (find_slot D s)(k \<mapsto> e)"
    and d: "dom (primary_map D (write_slot D s k e)) \<inter> dom (resize_map D (write_slot D s k e)) = {}"
  proof -
    consider e1 where "primary_map D s k = Some e1"
      | r where "primary_map D s k = None" "st_resize s = Some r" "ht_map (sd_table D) (rh_table r) k = Some e0"
      using k unfolding find_slot_eq [OF D] by (auto simp: resize_map_def split: option.splits)
    then have "find_slot D (write_slot D s k e) = (find_slot D s)(k \<mapsto> e) \<and>
        dom (primary_map D (write_slot D s k e)) \<inter> dom (resize_map D (write_slot D s k e)) = {}"
    proof cases
      case 1
      then have "k \<in> dom (primary_map D s)" by auto
      note rep = table_lawsD(4) [OF L(1) this, of e]
      show ?thesis
        using 1 disj rep unfolding find_slot_eq [OF D]
        by (auto simp: write_slot_def L(5) resize_map_def)
    next
      case 2
      then have "k \<in> dom (ht_map (sd_table D) (rh_table r))" by auto
      note rep = table_lawsD(4) [OF L(1) this, of e]
      show ?thesis
        using 2 disj rep unfolding find_slot_eq [OF D]
        by (auto simp: write_slot_def L(5) resize_map_def map_add_def fun_eq_iff disjoint_iff domIff split: option.splits if_splits)
    qed
    then show "find_slot D (write_slot D s k e) = (find_slot D s)(k \<mapsto> e)"
      and "dom (primary_map D (write_slot D s k e)) \<inter> dom (resize_map D (write_slot D s k e)) = {}" by auto
  qed
  have "entry_bytes D k e = entry_bytes D k e0" using v by (simp add: entry_bytes_def value_bytes_def)
  then have "entries_bytes D ((find_slot D s)(k \<mapsto> e)) = entries_bytes D (find_slot D s)"
    using entries_bytes_upd(1) [OF finite_find_slot [OF D], of D s k e] k by simp
  moreover have "st_memory (write_slot D s k e) = st_memory s" "same_env s (write_slot D s k e)"
      "st_field_expiry_wheel (write_slot D s k e) = st_field_expiry_wheel s"
    by (auto simp: write_slot_def split: option.splits)
  ultimately show ?thesis using m d mem by (simp add: slot_op_def store_inv_def)
qed

lemma insert_or_replace_map:
  assumes D: "store_laws D" and disj: "dom (primary_map D s) \<inter> dom (resize_map D s) = {}"
  shows "find_slot D (insert_or_replace D s k e) = (find_slot D s)(k \<mapsto> e) \<and>
         dom (primary_map D (insert_or_replace D s k e)) \<inter> dom (resize_map D (insert_or_replace D s k e)) = {}"
proof -
  note L = store_lawsD [OF D]
  show ?thesis
  proof (cases "primary_map D s k")
    case (Some old)
    then have "k \<in> dom (primary_map D s)" by auto
    note rep = table_lawsD(4) [OF L(1) this, of e]
    show ?thesis
      using Some disj rep unfolding find_slot_eq [OF D]
      by (auto simp: insert_or_replace_def L(5) resize_map_def Let_def)
  next
    case None
    then have "k \<notin> dom (primary_map D s)" by auto
    note ins = table_lawsD(5) [OF L(1) this, of e]
    show ?thesis
    proof (cases "st_resize s")
      case None
      then show ?thesis
        using \<open>primary_map D s k = None\<close> ins unfolding find_slot_eq [OF D]
        by (auto simp: insert_or_replace_def L(5) resize_map_def)
    next
      case (Some r)
      then show ?thesis
        using \<open>primary_map D s k = None\<close> disj ins unfolding find_slot_eq [OF D]
        by (cases "ht_map (sd_table D) (rh_table r) k")
           (auto simp: insert_or_replace_def L(5,6) resize_map_def map_add_def fun_eq_iff disjoint_iff domIff
             split: option.splits if_splits)
    qed
  qed
qed

lemma insert_or_replace_spec:
  assumes D: "store_laws D" and inv: "store_inv D s"
  shows "slot_op D s (insert_or_replace D s k e) ((find_slot D s)(k \<mapsto> e))"
    and "(\<And>e'. find_slot D s k = Some e' \<Longrightarrow> \<not> has_field_ttl e') \<Longrightarrow>
           st_field_expiry_wheel (insert_or_replace D s k e) = st_field_expiry_wheel s"
proof -
  have disj: "dom (primary_map D s) \<inter> dom (resize_map D s) = {}" and mem: "st_memory s = wrap64 (entries_bytes D (find_slot D s))"
    using inv by (simp_all add: store_inv_def)
  note m = insert_or_replace_map [OF D disj, of k e]
  note upd = entries_bytes_upd(1) [OF finite_find_slot [OF D], of D s k e]
  show "st_field_expiry_wheel (insert_or_replace D s k e) = st_field_expiry_wheel s"
    if "\<And>e'. find_slot D s k = Some e' \<Longrightarrow> \<not> has_field_ttl e'"
    using that by (auto simp: insert_or_replace_def find_slot_def Let_def split: option.splits)
  have env: "same_env s (insert_or_replace D s k e)"
    by (auto simp: insert_or_replace_def Let_def split: option.splits)
  have "st_memory (insert_or_replace D s k e) = wrap64 (entries_bytes D ((find_slot D s)(k \<mapsto> e)))"
  proof (cases "find_slot D s k")
    case None
    then have "st_memory (insert_or_replace D s k e) = memory_add (st_memory s) (entry_bytes D k e)"
      by (auto simp: insert_or_replace_def find_slot_def Let_def split: option.splits)
    then show ?thesis using upd None mem by (simp add: memory_add_wrap)
  next
    case (Some old)
    have le: "entry_bytes D k old \<le> entries_bytes D (find_slot D s)"
      using entries_bytes_remove [OF finite_find_slot [OF D] Some, of D] by simp
    have "st_memory (insert_or_replace D s k e) =
            (if entry_bytes D k old \<le> entry_bytes D k e then memory_add (st_memory s) (entry_bytes D k e - entry_bytes D k old)
             else memory_sub (st_memory s) (entry_bytes D k old - entry_bytes D k e)) \<or>
          st_memory (insert_or_replace D s k e)
            = memory_add (memory_sub (st_memory s) (entry_bytes D k old)) (entry_bytes D k e)"
      using Some by (auto simp: insert_or_replace_def find_slot_def Let_def split: option.splits)
    moreover have "entries_bytes D ((find_slot D s)(k \<mapsto> e)) = entries_bytes D (find_slot D s) - entry_bytes D k old + entry_bytes D k e"
      using upd Some le by simp
    ultimately show ?thesis
      using le mem by (auto simp: memory_add_wrap memory_sub_wrap)
  qed
  then show "slot_op D s (insert_or_replace D s k e) ((find_slot D s)(k \<mapsto> e))"
    using m env by (simp add: slot_op_def store_inv_def)
qed

section \<open>Incremental resizing\<close>

text \<open>A step that moves entries between the tables or starts a resize: the map and everything else stay.\<close>

definition table_step :: "('t, 'h, 'x, 'f) store_deps \<Rightarrow> 't store \<Rightarrow> 't store \<Rightarrow> bool" where
  "table_step D s s' \<longleftrightarrow>
     slot_op D s s' (find_slot D s) \<and> st_expiry_wheel s' = st_expiry_wheel s \<and>
     st_field_expiry_wheel s' = st_field_expiry_wheel s \<and> st_memory s' = st_memory s"

lemma table_step_trans: "table_step D s s' \<Longrightarrow> table_step D s' s'' \<Longrightarrow> table_step D s s''"
  by (auto simp: table_step_def slot_op_def intro: same_env_trans)

lemma maybe_start_resize_spec:
  assumes D: "store_laws D" and inv: "store_inv D s"
  shows "table_step D s (maybe_start_resize D s)"
proof -
  have "find_slot D (maybe_start_resize D s) = find_slot D s"
    unfolding find_slot_eq [OF D]
    by (auto simp: maybe_start_resize_def Let_def resize_map_def store_lawsD(2) [OF D])
  then show ?thesis
    using inv
    by (auto simp: table_step_def slot_op_def store_inv_def maybe_start_resize_def Let_def resize_map_def
        store_lawsD(2) [OF D])
qed

definition left_to_move :: "('t, 'h, 'x, 'f) store_deps \<Rightarrow> 't store \<Rightarrow> nat" where
  "left_to_move D s = (case st_resize s of None \<Rightarrow> 0 | Some r \<Rightarrow> length (ht_iter (sd_table D) (rh_table r)))"

abbreviation bucket_at :: "('t, 'h, 'x, 'f) store_deps \<Rightarrow> 't rehash_state \<Rightarrow> nat" where
  "bucket_at D r \<equiv> if num_buckets (sd_buckets D) (rh_table r) \<le> rh_scan_bucket r then 0 else rh_scan_bucket r"

text \<open>The scan reaches an occupied bucket, wrapping around at the end of the table.\<close>

lemma rehash_scan:
  assumes D: "store_laws D" and n: "n < 8" and r: "st_resize s = Some r" and ne: "ht_iter (sd_table D) (rh_table r) \<noteq> []"
  shows "\<exists>c key e. rehash_loop D n s = rehash_loop D n (s\<lparr>st_resize := Some (r\<lparr>rh_scan_bucket := c\<rparr>)\<rparr>) \<and>
           get_bucket (sd_buckets D) (rh_table r) (bucket_at D (r\<lparr>rh_scan_bucket := c\<rparr>)) = Some (key, e)"
proof -
  let ?nb = "num_buckets (sd_buckets D) (rh_table r)"
  obtain b0 where b0: "b0 < ?nb" "get_bucket (sd_buckets D) (rh_table r) b0 \<noteq> None"
    using store_lawsD(4) [OF D ne] by blast
  define d where "d = (\<lambda>c. let pos = (if ?nb \<le> c then 0 else c) in if pos \<le> b0 then b0 - pos else ?nb - pos + b0)"
  have "\<exists>c' key e. rehash_loop D n (s\<lparr>st_resize := Some (r\<lparr>rh_scan_bucket := c\<rparr>)\<rparr>)
            = rehash_loop D n (s\<lparr>st_resize := Some (r\<lparr>rh_scan_bucket := c'\<rparr>)\<rparr>) \<and>
          get_bucket (sd_buckets D) (rh_table r) (bucket_at D (r\<lparr>rh_scan_bucket := c'\<rparr>)) = Some (key, e)" for c
  proof (induction "d c" arbitrary: c rule: less_induct)
    case less
    let ?pos = "if ?nb \<le> c then 0 else c"
    show ?case
    proof (cases "get_bucket (sd_buckets D) (rh_table r) ?pos")
      case None
      then have "?pos \<noteq> b0" using b0(2) by metis
      then have "d (Suc ?pos) < d c" using b0(1) by (auto simp: d_def Let_def)
      moreover have "rehash_loop D n (s\<lparr>st_resize := Some (r\<lparr>rh_scan_bucket := c\<rparr>)\<rparr>)
          = rehash_loop D n (s\<lparr>st_resize := Some (r\<lparr>rh_scan_bucket := Suc ?pos\<rparr>)\<rparr>)"
        using None n ne by (subst rehash_loop.simps) (auto simp: store_lawsD(7) [OF D])
      ultimately show ?thesis using less by metis
    next
      case (Some p)
      then show ?thesis by (intro exI [of _ c]) (auto simp: prod_eq_iff)
    qed
  qed
  moreover have "s\<lparr>st_resize := Some (r\<lparr>rh_scan_bucket := rh_scan_bucket r\<rparr>)\<rparr> = s" using r by simp
  ultimately show ?thesis by metis
qed

lemma move_spec:
  assumes D: "store_laws D" and inv: "store_inv D s" and r: "st_resize s = Some r"
    and k: "ht_map (sd_table D) (rh_table r) k = Some e"
    and s': "s' = s\<lparr>st_resize := Some (r\<lparr>rh_scan_bucket := c, rh_table := ht_remove (sd_table D) (rh_table r) k\<rparr>),
                     st_primary := ht_insert_unique (sd_table D) (st_primary s) k e\<rparr>"
  shows "table_step D s s' \<and> left_to_move D s' = left_to_move D s - 1"
proof -
  note L = store_lawsD [OF D]
  have disj: "dom (primary_map D s) \<inter> dom (ht_map (sd_table D) (rh_table r)) = {}"
    using inv r by (simp add: store_inv_def resize_map_def)
  then have "k \<notin> dom (primary_map D s)" using k by auto
  note ins = table_lawsD(5) [OF L(1) this, of e]
  have p': "primary_map D s' = (primary_map D s)(k \<mapsto> e)" using ins s' by simp
  have r': "resize_map D s' = (ht_map (sd_table D) (rh_table r))(k := None)" using s' by (simp add: resize_map_def L(6))
  have m: "find_slot D s' = find_slot D s"
    unfolding find_slot_eq [OF D] p' r' using r k disj
    by (auto simp: resize_map_def map_add_def fun_eq_iff split: option.splits)
  have "dom (primary_map D s') \<inter> dom (resize_map D s') = {}"
    unfolding p' r' using disj by auto
  moreover have "length (ht_iter (sd_table D) (ht_remove (sd_table D) (rh_table r) k)) = length (ht_iter (sd_table D) (rh_table r)) - 1"
    using ht_len_card [OF L(1), of "ht_remove (sd_table D) (rh_table r) k"] ht_len_card [OF L(1), of "rh_table r"] k
    by (simp add: L(6) card_Diff_singleton_if domI finite_dom_map_of)
  ultimately show ?thesis
    using m inv s' r by (simp add: table_step_def slot_op_def store_inv_def left_to_move_def)
qed

lemma rehash_loop_spec:
  assumes D: "store_laws D" and "store_inv D s" and "n \<le> 8"
  shows "\<exists>s'. rehash_loop D n s = Some s' \<and> table_step D s s' \<and> left_to_move D s' = left_to_move D s - (8 - n)"
  using assms(2,3)
proof (induction "8 - n" arbitrary: n s)
  case 0
  then show ?case by (subst rehash_loop.simps) (simp add: table_step_def slot_op_def)
next
  case (Suc x)
  note L = store_lawsD [OF D]
  show ?case
  proof (cases "st_resize s")
    case None
    then have "rehash_loop D n s = Some s" by (subst rehash_loop.simps) simp
    then show ?thesis using Suc.prems(1) None by (simp add: table_step_def slot_op_def left_to_move_def)
  next
    case (Some r)
    show ?thesis
    proof (cases "ht_iter (sd_table D) (rh_table r) = []")
      case True
      let ?s' = "s\<lparr>st_resize := None\<rparr>"
      have "find_slot D ?s' = find_slot D s"
        unfolding find_slot_eq [OF D] using Some True by (simp add: resize_map_def)
      then have "table_step D s ?s'"
        using Suc.prems(1) by (simp add: table_step_def slot_op_def store_inv_def resize_map_def)
      moreover have "rehash_loop D n s = Some ?s'"
        using Suc.hyps(2) Some True by (subst rehash_loop.simps) (simp add: L(7))
      ultimately show ?thesis using Some True by (simp add: left_to_move_def)
    next
      case False
      have n: "n < 8" using Suc.hyps(2) by simp
      obtain c key e where c: "rehash_loop D n s = rehash_loop D n (s\<lparr>st_resize := Some (r\<lparr>rh_scan_bucket := c\<rparr>)\<rparr>)"
          "get_bucket (sd_buckets D) (rh_table r) (bucket_at D (r\<lparr>rh_scan_bucket := c\<rparr>)) = Some (key, e)"
        using rehash_scan [OF D n Some False] by blast
      have k: "ht_map (sd_table D) (rh_table r) key = Some e" by (rule L(3) [OF c(2)])
      define s1 where "s1 = s\<lparr>st_resize := Some (r\<lparr>rh_scan_bucket := Suc (bucket_at D (r\<lparr>rh_scan_bucket := c\<rparr>)),
            rh_table := ht_remove (sd_table D) (rh_table r) key\<rparr>),
          st_primary := ht_insert_unique (sd_table D) (st_primary s) key e\<rparr>"
      have "rehash_loop D n s = rehash_loop D (Suc n) s1"
        unfolding c(1) using n c(2) k False by (subst rehash_loop.simps) (simp add: L(5,7) s1_def)
      moreover have s1: "table_step D s s1 \<and> left_to_move D s1 = left_to_move D s - 1"
        by (rule move_spec [OF D Suc.prems(1) Some k s1_def])
      moreover have "store_inv D s1" using s1 by (simp add: table_step_def slot_op_def)
      ultimately show ?thesis
        using Suc.hyps(1) [of "Suc n" s1] Suc.hyps(2) n by (fastforce intro: table_step_trans)
    qed
  qed
qed

lemma finish_resize_spec:
  assumes D: "store_laws D" and inv: "store_inv D s"
  shows "table_step D s (finish_resize D s) \<and> left_to_move D (finish_resize D s) = left_to_move D s \<and>
         (st_resize (finish_resize D s) = None \<longleftrightarrow> left_to_move D s = 0)"
proof -
  have "find_slot D (finish_resize D s) = find_slot D s"
    unfolding find_slot_eq [OF D]
    by (auto simp: finish_resize_def resize_map_def store_lawsD(7) [OF D] split: option.splits)
  then show ?thesis
    using inv
    by (auto simp: table_step_def slot_op_def store_inv_def finish_resize_def left_to_move_def resize_map_def
        store_lawsD(7) [OF D] split: option.splits if_splits)
qed

lemma incremental_rehash_step_spec:
  assumes D: "store_laws D" and inv: "store_inv D s"
  shows "\<exists>s'. incremental_rehash_step D s = Some s' \<and> table_step D s s' \<and>
           left_to_move D s' = left_to_move D s - 8 \<and> (st_resize s' = None \<longleftrightarrow> left_to_move D s \<le> 8)"
proof -
  obtain s1 where s1: "rehash_loop D 0 s = Some s1" "table_step D s s1" "left_to_move D s1 = left_to_move D s - 8"
    using rehash_loop_spec [OF D inv, of 0] by auto
  have "store_inv D s1" using s1(2) by (simp add: table_step_def slot_op_def)
  from finish_resize_spec [OF D this] s1 show ?thesis
    by (intro exI [of _ "finish_resize D s1"]) (auto simp: incremental_rehash_step_def intro: table_step_trans)
qed

section \<open>Operations on the map\<close>

lemma begin_op_spec:
  assumes D: "store_laws D" and inv: "store_inv D s"
  shows "\<exists>s'. begin_op D s now = Some s' \<and> table_step D (s\<lparr>st_clock_ms := now\<rparr>) s'"
proof -
  have "store_inv D (s\<lparr>st_clock_ms := now\<rparr>)"
    using inv find_slot_cong [of "s\<lparr>st_clock_ms := now\<rparr>" s D] by (simp add: store_inv_def resize_map_def)
  from incremental_rehash_step_spec [OF D this] show ?thesis by (auto simp: begin_op_def)
qed

lemma remove_if_expired_spec:
  assumes D: "store_laws D" and inv: "store_inv D s"
  shows "fst (remove_if_expired D s k now) = (case find_slot D s k of None \<Rightarrow> False | Some e \<Rightarrow> is_expired (en_expires_at e) now)"
    and "slot_op D s (snd (remove_if_expired D s k now))
           (if fst (remove_if_expired D s k now) then (find_slot D s)(k := None) else find_slot D s)"
    and "(\<And>e. find_slot D s k = Some e \<Longrightarrow> \<not> has_field_ttl e) \<Longrightarrow>
           st_field_expiry_wheel (snd (remove_if_expired D s k now)) = st_field_expiry_wheel s"
  using remove_slot_spec [OF D inv, of k] inv
  by (auto simp: remove_if_expired_def slot_op_def)

text \<open>A store without eviction whose hashes have no expiring fields; the field wheel is empty.\<close>

definition good :: "('t, 'h, 'x, 'f) store_deps \<Rightarrow> 't store \<Rightarrow> bool" where
  "good D s \<longleftrightarrow>
     store_inv D s \<and> st_max_memory s = None \<and> (\<forall>k e. find_slot D s k = Some e \<longrightarrow> \<not> has_field_ttl e) \<and>
     wheel_inv (st_field_expiry_wheel s) \<and> pending (st_field_expiry_wheel s) = {#}"

definition good_op :: "('t, 'h, 'x, 'f) store_deps \<Rightarrow> 't store \<Rightarrow> 't store \<Rightarrow> (bytes \<Rightarrow> ('h, 'x) object entry option) \<Rightarrow> bool" where
  "good_op D s s' m \<longleftrightarrow> good D s' \<and> find_slot D s' = m \<and> st_clock_ms s' = st_clock_ms s"

lemma slot_op_good:
  assumes "good D s" and "slot_op D s s' m" and "st_field_expiry_wheel s' = st_field_expiry_wheel s"
    and "\<And>k e. m k = Some e \<Longrightarrow> \<not> has_field_ttl e"
  shows "good_op D s s' m"
  using assms by (simp add: good_op_def good_def slot_op_def same_env_def)

lemma good_inv: "good D s \<Longrightarrow> store_inv D s" and good_plain: "good D s \<Longrightarrow> find_slot D s k = Some e \<Longrightarrow> \<not> has_field_ttl e"
  by (simp_all add: good_def)

lemma good_remove_slot:
  assumes D: "store_laws D" and g: "good D s"
  shows "good_op D s (snd (remove_slot D s k)) ((find_slot D s)(k := None))"
  using remove_slot_spec [OF D good_inv [OF g], of k] good_plain [OF g]
  by (intro slot_op_good [OF g]) (auto split: if_splits)

lemma good_remove_if_expired:
  assumes D: "store_laws D" and g: "good D s"
  shows "good_op D s (snd (remove_if_expired D s k now))
           (if fst (remove_if_expired D s k now) then (find_slot D s)(k := None) else find_slot D s)"
  using remove_if_expired_spec [OF D good_inv [OF g], of k now] good_plain [OF g]
  by (intro slot_op_good [OF g]) (auto split: if_splits)

lemma good_insert:
  assumes D: "store_laws D" and g: "good D s" and e: "\<not> has_field_ttl e"
  shows "good_op D s (insert_or_replace D s k e) ((find_slot D s)(k \<mapsto> e))"
  using insert_or_replace_spec [OF D good_inv [OF g], of k e] good_plain [OF g] e
  by (intro slot_op_good [OF g]) (auto split: if_splits)

lemma good_write:
  assumes D: "store_laws D" and g: "good D s" and k: "find_slot D s k = Some e0" and v: "en_value e = en_value e0"
  shows "good_op D s (write_slot D s k e) ((find_slot D s)(k \<mapsto> e))"
proof -
  have "\<not> has_field_ttl e" using good_plain [OF g k] v by (simp add: has_field_ttl_def)
  then show ?thesis
    using write_slot_spec [OF D good_inv [OF g] k v] good_plain [OF g]
    by (intro slot_op_good [OF g]) (auto split: if_splits)
qed

lemma good_table_step: "good D s \<Longrightarrow> table_step D s s' \<Longrightarrow> good_op D s s' (find_slot D s)"
  using good_plain by (intro slot_op_good) (auto simp: table_step_def)

lemma good_wheel:
  assumes "good D s"
  shows "good_op D s (s\<lparr>st_expiry_wheel := w\<rparr>) (find_slot D s)"
  using assms find_slot_cong [of "s\<lparr>st_expiry_wheel := w\<rparr>" s D]
  by (simp add: good_op_def good_def store_inv_def resize_map_def)

lemma good_finish:
  assumes D: "store_laws D" and g: "good D s"
  shows "good_op D s (maybe_evict D (maybe_start_resize D s)) (find_slot D s)"
    and "good_op D s (maybe_start_resize D s) (find_slot D s)"
proof -
  show r: "good_op D s (maybe_start_resize D s) (find_slot D s)"
    by (rule good_table_step [OF g maybe_start_resize_spec [OF D good_inv [OF g]]])
  then have "maybe_evict D (maybe_start_resize D s) = maybe_start_resize D s"
    by (simp add: maybe_evict_def should_evict_def good_op_def good_def)
  with r show "good_op D s (maybe_evict D (maybe_start_resize D s)) (find_slot D s)" by simp
qed

lemma good_touch:
  assumes "store_laws D" and "good D s" and "find_slot D s k = Some e"
  shows "\<exists>lru. good_op D s (touch_entry D s k e now_lru) ((find_slot D s)(k \<mapsto> e\<lparr>en_lru_clock := lru\<rparr>))"
proof (cases "\<not> st_no_touch s \<and> en_lru_clock e \<noteq> now_lru")
  case True
  then show ?thesis using good_write [OF assms, of "e\<lparr>en_lru_clock := now_lru\<rparr>"] by (auto simp: touch_entry_def)
next
  case False
  then show ?thesis
    using assms(2,3) by (intro exI [of _ "en_lru_clock e"]) (auto simp: touch_entry_def good_op_def fun_upd_idem)
qed

lemma good_begin:
  assumes D: "store_laws D" and g: "good D s"
  shows "\<exists>s'. begin_op D s now = Some s' \<and> good D s' \<and> find_slot D s' = find_slot D s \<and> st_clock_ms s' = now"
proof -
  let ?s = "s\<lparr>st_clock_ms := now\<rparr>"
  have f: "find_slot D ?s = find_slot D s" by (rule find_slot_cong) simp_all
  have g': "good D ?s" using g f by (simp add: good_def store_inv_def resize_map_def)
  obtain s' where "begin_op D s now = Some s'" "table_step D ?s s'" using begin_op_spec [OF D good_inv [OF g]] by blast
  with good_table_step [OF g'] f show ?thesis by (auto simp: good_op_def)
qed

section \<open>The visible keyspace\<close>

text \<open>The specification of a keyspace: values with deadlines; what has expired is not there.\<close>

type_synonym 'v keyspace = "bytes \<Rightarrow> ('v \<times> nat option) option"

definition purge :: "nat \<Rightarrow> 'v keyspace \<Rightarrow> 'v keyspace" where
  "purge now m = (\<lambda>k. case m k of None \<Rightarrow> None | Some (v, d) \<Rightarrow> if is_expired d now then None else Some (v, d))"

definition timed :: "'o entry \<Rightarrow> 'o senko_value \<times> nat option" where
  "timed e = (en_value e, en_expires_at e)"

definition visible :: "('t, 'h, 'x, 'f) store_deps \<Rightarrow> nat \<Rightarrow> 't store \<Rightarrow> ('h, 'x) object senko_value keyspace" where
  "visible D now s = purge now (\<lambda>k. map_option timed (find_slot D s k))"

lemma purge_purge: "t \<le> now \<Longrightarrow> purge now (purge t m) = purge now m"
  by (auto simp: purge_def is_expired_def fun_eq_iff split: option.splits)

lemma purge_remove: "purge now (\<lambda>k'. map_option timed ((M(k := None)) k')) = (purge now (\<lambda>k'. map_option timed (M k')))(k := None)"
  by (auto simp: purge_def fun_eq_iff)

lemma purge_insert:
  "purge now (\<lambda>k'. map_option timed ((M(k \<mapsto> e)) k')) = purge now ((purge now (\<lambda>k'. map_option timed (M k')))(k \<mapsto> timed e))"
  by (auto simp: purge_def fun_eq_iff timed_def split: option.splits if_splits)

lemma visible_at:
  "visible D now s k = (case find_slot D s k of None \<Rightarrow> None
     | Some e \<Rightarrow> if is_expired (en_expires_at e) now then None else Some (timed e))"
  by (auto simp: visible_def purge_def timed_def split: option.splits)

lemma visible_cong: "find_slot D s = find_slot D s' \<Longrightarrow> visible D now s = visible D now s'"
  by (simp add: visible_def)

lemma visible_remove: "find_slot D s' = (find_slot D s)(k := None) \<Longrightarrow> visible D now s' = (visible D now s)(k := None)"
  using purge_remove [of now "find_slot D s" k] by (simp add: visible_def)

lemma visible_insert:
  "find_slot D s' = (find_slot D s)(k \<mapsto> e) \<Longrightarrow> visible D now s' = purge now ((visible D now s)(k \<mapsto> timed e))"
  using purge_insert [of now "find_slot D s" k e] by (simp add: visible_def)

lemma visible_purged: "purge now (visible D now s) = visible D now s"
  by (simp add: visible_def purge_purge)

lemma visible_drop_expired:
  assumes "find_slot D s k = Some e" and "is_expired (en_expires_at e) now" and "find_slot D s' = (find_slot D s)(k := None)"
  shows "visible D now s' = visible D now s"
proof -
  have "visible D now s k = None" using assms(1,2) by (simp add: visible_at)
  then show ?thesis using visible_remove [OF assms(3), of now] by (simp add: fun_upd_idem)
qed

text \<open>At a clean key the tables hold what is visible.\<close>

definition clean :: "('t, 'h, 'x, 'f) store_deps \<Rightarrow> nat \<Rightarrow> 't store \<Rightarrow> bytes \<Rightarrow> bool" where
  "clean D now s k \<longleftrightarrow> map_option timed (find_slot D s k) = visible D now s k"

lemma expire_key:
  assumes D: "store_laws D" and g: "good D s"
  shows "good D (snd (remove_if_expired D s k now))"
    and "st_clock_ms (snd (remove_if_expired D s k now)) = st_clock_ms s"
    and "visible D now (snd (remove_if_expired D s k now)) = visible D now s"
    and "clean D now (snd (remove_if_expired D s k now)) k"
    and "clean D now s k' \<Longrightarrow> clean D now (snd (remove_if_expired D s k now)) k'"
    and "fst (remove_if_expired D s k now) \<Longrightarrow> visible D now s k = None"
proof -
  let ?s2 = "snd (remove_if_expired D s k now)"
  let ?x = "fst (remove_if_expired D s k now)"
  have x: "?x = (case find_slot D s k of None \<Rightarrow> False | Some e \<Rightarrow> is_expired (en_expires_at e) now)"
    using remove_if_expired_spec(1) [OF D good_inv [OF g]] by simp
  have g2: "good D ?s2" "find_slot D ?s2 = (if ?x then (find_slot D s)(k := None) else find_slot D s)"
      "st_clock_ms ?s2 = st_clock_ms s"
    using good_remove_if_expired [OF D g, of k now] by (simp_all add: good_op_def)
  then show "good D ?s2" "st_clock_ms ?s2 = st_clock_ms s" by simp_all
  show v: "visible D now ?s2 = visible D now s"
  proof (cases ?x)
    case True
    then obtain e where "find_slot D s k = Some e" "is_expired (en_expires_at e) now" using x by (auto split: option.splits)
    then show ?thesis using visible_drop_expired True g2(2) by metis
  next
    case False
    then show ?thesis using g2(2) visible_cong by metis
  qed
  show "?x \<Longrightarrow> visible D now s k = None" using x by (auto simp: visible_at split: option.splits)
  then show "clean D now ?s2 k" "clean D now s k' \<Longrightarrow> clean D now ?s2 k'"
    unfolding clean_def v using x g2(2) by (auto simp: visible_at split: option.splits if_splits)
qed

text \<open>The start of an operation on a key: what is found there afterwards is what is visible.\<close>

lemma start_key:
  assumes D: "store_laws D" and g: "good D s" and s1: "begin_op D s now = Some s1"
  shows "good D (snd (remove_if_expired D s1 k now))"
    and "st_clock_ms (snd (remove_if_expired D s1 k now)) = now"
    and "visible D now (snd (remove_if_expired D s1 k now)) = visible D now s"
    and "map_option timed (find_slot D (snd (remove_if_expired D s1 k now)) k) = visible D now s k"
    and "fst (remove_if_expired D s1 k now) \<Longrightarrow> visible D now s k = None"
proof -
  have s1': "good D s1" "find_slot D s1 = find_slot D s" "st_clock_ms s1 = now"
    using good_begin [OF D g, of now] s1 by auto
  have "visible D now s1 = visible D now s" using s1'(2) by (rule visible_cong)
  then show "good D (snd (remove_if_expired D s1 k now))"
    and "st_clock_ms (snd (remove_if_expired D s1 k now)) = now"
    and "visible D now (snd (remove_if_expired D s1 k now)) = visible D now s"
    and "map_option timed (find_slot D (snd (remove_if_expired D s1 k now)) k) = visible D now s k"
    and "fst (remove_if_expired D s1 k now) \<Longrightarrow> visible D now s k = None"
    using expire_key [OF D s1'(1), where k = k and now = now] s1'(3) by (simp_all add: clean_def)
qed

text \<open>The specification's conditions and expiry options.\<close>

definition condition_holds ::
    "'o value_deps \<Rightarrow> set_condition \<Rightarrow> ('o senko_value \<times> nat option) option \<Rightarrow> bool" where
  "condition_holds V c current =
     (case c of
        Always \<Rightarrow> True
      | NX \<Rightarrow> current = None
      | XX \<Rightarrow> current \<noteq> None
      | IfEq x \<Rightarrow> map_option (\<lambda>p. as_bytes V (fst p)) current = Some x
      | IfNe x \<Rightarrow> current \<noteq> None \<and> map_option (\<lambda>p. as_bytes V (fst p)) current \<noteq> Some x
      | IfDeq x \<Rightarrow> current = None \<or> map_option (\<lambda>p. as_bytes V (fst p)) current = Some x
      | IfDne x \<Rightarrow> map_option (\<lambda>p. as_bytes V (fst p)) current \<noteq> Some x)"

fun deadline_of :: "set_expiry \<Rightarrow> ('v \<times> nat option) option \<Rightarrow> nat \<Rightarrow> nat option" where
  "deadline_of NoExpiry current now = None"
| "deadline_of (Ex seconds) current now = Some (sat_add64 now (sat_mul64 seconds 1000))"
| "deadline_of (Px ms) current now = Some (sat_add64 now ms)"
| "deadline_of (ExAt seconds) current now = Some (sat_mul64 seconds 1000)"
| "deadline_of (PxAt ms) current now = Some ms"
| "deadline_of KeepTtl current now = (case current of None \<Rightarrow> None | Some p \<Rightarrow> snd p)"

lemma condition_matches_holds:
  "condition_matches D c e = condition_holds (sd_values D) c (map_option timed e)"
  by (cases c) (auto simp: condition_matches_def condition_holds_def timed_def split: option.splits)

lemma expiry_deadline: "expiry_from_option x e now = deadline_of x (map_option timed e) now"
  by (cases x) (auto simp: expiry_from_option_def timed_def split: option.splits)

text \<open>What every operation at time \<open>now\<close> guarantees: it returns, and the visible keyspace becomes \<open>m\<close>.\<close>

definition ends_with :: "('t, 'h, 'x, 'f) store_deps \<Rightarrow> nat \<Rightarrow> 't store \<Rightarrow> ('h, 'x) object senko_value keyspace \<Rightarrow> bool" where
  "ends_with D now s m \<longleftrightarrow> good D s \<and> st_clock_ms s \<le> now \<and> visible D now s = m"

lemma ends_with_insert:
  assumes D: "store_laws D" and g: "good D s" and "st_clock_ms s = now" and e: "\<not> has_field_ttl e"
  shows "ends_with D now
           (let s' = insert_or_replace D s k e; s'' = s'\<lparr>st_expiry_wheel := w s'\<rparr>
            in maybe_evict D (maybe_start_resize D s''))
           (purge now ((visible D now s)(k \<mapsto> timed e)))"
    and "ends_with D now
           (let s' = insert_or_replace D s k e; s'' = s'\<lparr>st_expiry_wheel := w s'\<rparr> in maybe_start_resize D s'')
           (purge now ((visible D now s)(k \<mapsto> timed e)))"
proof -
  define s' where "s' = insert_or_replace D s k e"
  have s': "good D s'" "find_slot D s' = (find_slot D s)(k \<mapsto> e)" "st_clock_ms s' = now"
    using good_insert [OF D g e] assms(3) by (simp_all add: good_op_def s'_def)
  define s'' where "s'' = s'\<lparr>st_expiry_wheel := w s'\<rparr>"
  have s'': "good D s''" "find_slot D s'' = (find_slot D s)(k \<mapsto> e)" "st_clock_ms s'' = now"
    using good_wheel [OF s'(1)] s' by (simp_all add: good_op_def s''_def)
  note fin = good_finish [OF D s''(1)]
  show "ends_with D now (let s' = insert_or_replace D s k e; s'' = s'\<lparr>st_expiry_wheel := w s'\<rparr>
            in maybe_evict D (maybe_start_resize D s'')) (purge now ((visible D now s)(k \<mapsto> timed e)))"
    using fin(1) s''(2,3) visible_insert [of D _ s k e now] by (simp add: ends_with_def good_op_def s''_def s'_def Let_def)
  show "ends_with D now (let s' = insert_or_replace D s k e; s'' = s'\<lparr>st_expiry_wheel := w s'\<rparr> in maybe_start_resize D s'')
           (purge now ((visible D now s)(k \<mapsto> timed e)))"
    using fin(2) s''(2,3) visible_insert [of D _ s k e now] by (simp add: ends_with_def good_op_def s''_def s'_def Let_def)
qed

lemma store_set_spec:
  assumes D: "store_laws D" and g: "good D s" and v: "\<not> has_field_ttl \<lparr>en_value = v, en_expires_at = None, en_lru_clock = 0\<rparr>"
  shows "\<exists>s'. store_set D s k v opts now =
      Some (\<lparr>sr_applied = condition_holds (sd_values D) (so_condition opts) (visible D now s k),
             sr_old_value = (if so_get_old opts then map_option fst (visible D now s k) else None)\<rparr>, s') \<and>
    ends_with D now s'
      (if condition_holds (sd_values D) (so_condition opts) (visible D now s k)
       then purge now ((visible D now s)(k \<mapsto> (v, deadline_of (so_expiry opts) (visible D now s k) now)))
       else visible D now s)"
proof -
  obtain s1 where s1: "begin_op D s now = Some s1" using good_begin [OF D g] by blast
  define s2 where "s2 = snd (remove_if_expired D s1 k now)"
  note st = start_key [OF D g s1, of k, folded s2_def]
  let ?d = "deadline_of (so_expiry opts) (visible D now s k) now"
  let ?e = "\<lparr>en_value = v, en_expires_at = ?d, en_lru_clock = lru_clock now\<rparr>"
  have e: "\<not> has_field_ttl ?e" using v by (simp add: has_field_ttl_def)
  have old: "map_option en_value (find_slot D s2 k) = map_option fst (visible D now s k)"
    unfolding st(4) [symmetric] by (cases "find_slot D s2 k") (simp_all add: timed_def)
  note ins = ends_with_insert(1) [OF D st(1,2) e, of k "\<lambda>s. update_expiry (st_expiry_wheel s) k None ?d"]
  show ?thesis
    using ins st s1 old
    by (auto simp: store_set_def s2_def [symmetric] condition_matches_holds expiry_deadline Let_def ends_with_def timed_def)
qed

lemma store_get_spec:
  assumes D: "store_laws D" and g: "good D s" and c: "st_clock_ms s \<le> now"
  shows "fst (store_get D s k now) = map_option fst (visible D now s k)"
    and "ends_with D now (snd (store_get D s k now)) (visible D now s)"
proof -
  have "fst (store_get D s k now) = map_option fst (visible D now s k) \<and>
        ends_with D now (snd (store_get D s k now)) (visible D now s)"
  proof (cases "find_slot D s k")
    case None
    then show ?thesis using g c by (simp add: store_get_def visible_at ends_with_def)
  next
    case (Some e)
    show ?thesis
    proof (cases "is_expired (en_expires_at e) now")
      case True
      then have "store_get D s k now = (None, snd (remove_slot D s k))"
        using Some by (auto simp: store_get_def is_expired_def split: option.splits)
      then show ?thesis
        using good_remove_slot [OF D g, of k] visible_drop_expired [OF Some True, of "snd (remove_slot D s k)"] c Some True
        by (simp add: ends_with_def good_op_def visible_at)
    next
      case False
      then obtain l where get: "store_get D s k now = (Some (en_value e), touch_entry D s k e l)"
        using Some by (auto simp: store_get_def is_expired_def split: option.splits)
      obtain lru where t: "good_op D s (touch_entry D s k e l) ((find_slot D s)(k \<mapsto> e\<lparr>en_lru_clock := lru\<rparr>))"
        using good_touch [OF D g Some] by blast
      have "visible D now (touch_entry D s k e l) = visible D now s"
        using t Some unfolding visible_def good_op_def by (simp add: timed_def fun_eq_iff purge_def)
      then show ?thesis using get t c Some False by (simp add: ends_with_def good_op_def visible_at timed_def)
    qed
  qed
  then show "fst (store_get D s k now) = map_option fst (visible D now s k)"
    and "ends_with D now (snd (store_get D s k now)) (visible D now s)" by simp_all
qed

lemma remove_slot_ends:
  assumes D: "store_laws D" and g: "good D s" and c: "st_clock_ms s \<le> now"
  shows "ends_with D now (snd (remove_slot D s k)) ((visible D now s)(k := None))"
  using good_remove_slot [OF D g, of k] visible_remove [of D "snd (remove_slot D s k)" s k now] c
  by (simp add: ends_with_def good_op_def)

lemma store_delete_spec:
  assumes D: "store_laws D" and g: "good D s"
  shows "\<exists>s'. store_delete D s k now = Some (visible D now s k \<noteq> None, s') \<and>
           ends_with D now s' ((visible D now s)(k := None))"
proof -
  obtain s1 where s1: "begin_op D s now = Some s1" using good_begin [OF D g] by blast
  define s2 where "s2 = snd (remove_if_expired D s1 k now)"
  note st = start_key [OF D g s1, of k, folded s2_def]
  have "fst (remove_slot D s2 k) = find_slot D s2 k" by (rule remove_slot_spec(1) [OF D good_inv [OF st(1)]])
  moreover have "find_slot D s2 k \<noteq> None \<longleftrightarrow> visible D now s k \<noteq> None" using st(4) by (metis map_option_is_None)
  ultimately show ?thesis
    using remove_slot_ends [OF D st(1), of now k] st s1 by (simp add: store_delete_def s2_def [symmetric] prod_eq_iff)
qed

lemma read_live_spec:
  assumes D: "store_laws D" and g: "good D s"
  shows "\<exists>e s'. read_live D s k now = Some (e, s') \<and> map_option timed e = visible D now s k \<and>
           ends_with D now s' (visible D now s)"
proof -
  obtain s1 where s1: "begin_op D s now = Some s1" using good_begin [OF D g] by blast
  note st = start_key [OF D g s1, of k]
  show ?thesis
    using s1 st by (cases "remove_if_expired D s1 k now") (auto simp: read_live_def ends_with_def split: bool.splits)
qed

lemma write_expiry_spec:
  assumes D: "store_laws D" and g: "good D s"
  shows "\<exists>s'. write_expiry D s k d now = Some s' \<and>
           ends_with D now s' (case visible D now s k of None \<Rightarrow> visible D now s
                               | Some (v, _) \<Rightarrow> purge now ((visible D now s)(k \<mapsto> (v, d))))"
proof -
  obtain s1 where s1: "begin_op D s now = Some s1" using good_begin [OF D g] by blast
  define s2 where "s2 = snd (remove_if_expired D s1 k now)"
  note st = start_key [OF D g s1, of k, folded s2_def]
  show ?thesis
  proof (cases "visible D now s k")
    case None
    then have "find_slot D s2 k = None" using st(4) by simp
    then have "write_expiry D s k d now = Some s2"
      using s1 by (cases "remove_if_expired D s1 k now") (auto simp: write_expiry_def s2_def split: bool.splits)
    then show ?thesis using st None by (simp add: ends_with_def)
  next
    case (Some p)
    then obtain e where e: "find_slot D s2 k = Some e" "p = timed e" using st(4) by auto
    have r: "remove_if_expired D s1 k now = (False, s2)" using st(5) Some by (metis option.simps(3) prod.collapse s2_def)
    define s3 where "s3 = write_slot D s2 k (e\<lparr>en_expires_at := d\<rparr>)"
    have s3: "good_op D s2 s3 ((find_slot D s2)(k \<mapsto> e\<lparr>en_expires_at := d\<rparr>))"
      unfolding s3_def by (rule good_write [OF D st(1) e(1)]) simp
    let ?s4 = "s3\<lparr>st_expiry_wheel := update_expiry (st_expiry_wheel s3) k (en_expires_at e) d\<rparr>"
    have s4: "good D ?s4" "find_slot D ?s4 = (find_slot D s2)(k \<mapsto> e\<lparr>en_expires_at := d\<rparr>)" "st_clock_ms ?s4 = now"
      using good_wheel [of D s3] s3 st(2) by (simp_all add: good_op_def)
    have "write_expiry D s k d now = Some ?s4" using s1 r e(1) by (simp add: write_expiry_def s3_def Let_def)
    then show ?thesis
      using s4 visible_insert [OF s4(2), of now] st(3) Some e(2) by (simp add: ends_with_def timed_def)
  qed
qed

lemma visible_None_plain: "schedule_field_expiries_for_value D k v s = s"
  if "\<not> has_field_ttl \<lparr>en_value = v, en_expires_at = None, en_lru_clock = 0\<rparr>"
  using that by (auto simp: schedule_field_expiries_for_value_def has_field_ttl_def split: option.splits)

lemma good_removed:
  assumes D: "store_laws D" and g: "good D s" and c: "st_clock_ms s = now"
  shows "remove_slot D s k = (find_slot D s k, snd (remove_slot D s k))"
    and "good D (snd (remove_slot D s k))" and "find_slot D (snd (remove_slot D s k)) = (find_slot D s)(k := None)"
    and "st_clock_ms (snd (remove_slot D s k)) = now"
    and "visible D now (snd (remove_slot D s k)) = (visible D now s)(k := None)"
  using remove_slot_spec(1) [OF D good_inv [OF g], of k] good_remove_slot [OF D g, of k]
    remove_slot_ends [OF D g, of now k] c
  by (simp_all add: prod_eq_iff good_op_def ends_with_def)

text \<open>The move of an entry to a destination that holds nothing expired.\<close>

lemma rename_move:
  assumes D: "store_laws D" and g: "good D s3" and c: "st_clock_ms s3 = now"
    and e: "find_slot D s3 source = Some e" and dst: "clean D now s3 dest"
  defines "s4 \<equiv> snd (remove_slot D s3 source)"
  defines "s5 \<equiv> snd (remove_slot D s4 dest)"
  defines "s6 \<equiv> insert_or_replace D s5 dest (e\<lparr>en_lru_clock := lru_clock now\<rparr>)"
  defines "s7 \<equiv> s6\<lparr>st_expiry_wheel := update_expiry (st_expiry_wheel s6) dest None (en_expires_at e)\<rparr>"
  shows "map_option (\<lambda>q. value_type_name (en_value q)) (find_slot D s4 dest)
           = map_option (\<lambda>q. value_type_name (fst q)) (((visible D now s3)(source := None)) dest)"
    and "find_slot D s7 dest = Some (e\<lparr>en_lru_clock := lru_clock now\<rparr>)"
    and "schedule_field_expiries_for_value D dest (en_value e) s7 = s7"
    and "ends_with D now (maybe_start_resize D s7) (purge now ((visible D now s3)(source := None, dest \<mapsto> timed e)))"
proof -
  note s4 = good_removed [OF D g c, of source, folded s4_def]
  note s5 = good_removed [OF D s4(2,4), of dest, folded s5_def]
  have pl: "\<not> has_field_ttl (e\<lparr>en_lru_clock := lru_clock now\<rparr>)" using good_plain [OF g e] by (simp add: has_field_ttl_def)
  show "map_option (\<lambda>q. value_type_name (en_value q)) (find_slot D s4 dest)
      = map_option (\<lambda>q. value_type_name (fst q)) (((visible D now s3)(source := None)) dest)"
  proof (cases "dest = source")
    case False
    then have "map_option timed (find_slot D s4 dest) = ((visible D now s3)(source := None)) dest"
      using dst s4(3) by (simp add: clean_def)
    then show ?thesis by (metis (no_types, lifting) fst_conv option.map_comp comp_def map_option_cong timed_def)
  qed (simp add: s4(3))
  show "find_slot D s7 dest = Some (e\<lparr>en_lru_clock := lru_clock now\<rparr>)"
    using good_insert [OF D s5(2) pl, of dest] find_slot_cong [of s7 s6 D] by (simp add: good_op_def s6_def s7_def)
  show "schedule_field_expiries_for_value D dest (en_value e) s7 = s7"
    using pl by (intro visible_None_plain) (simp add: has_field_ttl_def)
  show "ends_with D now (maybe_start_resize D s7) (purge now ((visible D now s3)(source := None, dest \<mapsto> timed e)))"
    using ends_with_insert(2) [OF D s5(2,4) pl, of dest "\<lambda>s. update_expiry (st_expiry_wheel s) dest None (en_expires_at e)"]
      s4(5) s5(5) by (simp add: s6_def s7_def Let_def timed_def)
qed

lemma rename_spec:
  assumes D: "store_laws D" and g: "good D s"
  shows "\<exists>s'. rename D s source dest now =
      Some (map_option (\<lambda>p. (value_type_name (fst p),
              map_option (\<lambda>q. value_type_name (fst q)) (((visible D now s)(source := None)) dest))) (visible D now s source), s') \<and>
    ends_with D now s'
      (case visible D now s source of None \<Rightarrow> visible D now s
       | Some p \<Rightarrow> purge now ((visible D now s)(source := None, dest \<mapsto> p)))"
proof -
  obtain s1 where s1: "begin_op D s now = Some s1" using good_begin [OF D g] by blast
  define s2 where "s2 = snd (remove_if_expired D s1 source now)"
  define s3 where "s3 = snd (remove_if_expired D s2 dest now)"
  note st = start_key [OF D g s1, of source, folded s2_def]
  note st3 = expire_key [OF D st(1), where k = dest and now = now, folded s3_def]
  have c: "st_clock_ms s3 = now" and v: "visible D now s3 = visible D now s" using st3(2,3) st(2,3) by simp_all
  have "clean D now s2 source" using st(3,4) by (simp add: clean_def)
  then have src: "map_option timed (find_slot D s3 source) = visible D now s source"
    using st3(5) v by (simp add: clean_def)
  note removed = good_removed [OF D st3(1) c, of source]
  show ?thesis
  proof (cases "visible D now s source")
    case None
    then have "rename D s source dest now = Some (None, s2) \<or>
        rename D s source dest now = Some (None, snd (remove_slot D s3 source))"
      using s1 removed(1) src s2_def s3_def by (cases "remove_if_expired D s1 source now") (auto simp: rename_def split: bool.splits prod.splits)
    moreover have "ends_with D now s2 (visible D now s)" using st by (simp add: ends_with_def)
    moreover have "ends_with D now (snd (remove_slot D s3 source)) (visible D now s)"
      using removed v None by (simp add: ends_with_def fun_upd_idem)
    ultimately show ?thesis using None by auto
  next
    case (Some p)
    then obtain e where e: "find_slot D s3 source = Some e" "p = timed e" using src by auto
    have r: "remove_if_expired D s1 source now = (False, s2)"
      using st(5) Some by (metis option.simps(3) prod.collapse s2_def)
    obtain s4 where r4: "remove_slot D s3 source = (Some e, s4)" using removed(1) e(1) by (metis prod.collapse fst_conv)
    obtain s5 where r5: "remove_slot D s4 dest = (find_slot D s4 dest, s5)"
      using good_removed(1) [OF D removed(2,4), of dest] r4 by (metis prod.collapse fst_conv snd_conv)
    show ?thesis
      using rename_move [OF D st3(1) c e(1) st3(4)] s1 r e Some v r4 r5
      by (simp add: rename_def s3_def [symmetric] Let_def timed_def)
  qed
qed

lemma copy_spec:
  assumes D: "store_laws D" and g: "good D s" and v: "\<not> has_field_ttl e"
  shows "\<exists>s'. copy_from_entry D s dest e d now =
      Some (map_option (\<lambda>p. value_type_name (fst p)) (visible D now s dest), s') \<and>
    ends_with D now s' (purge now ((visible D now s)(dest \<mapsto> (en_value e, d))))"
proof -
  obtain s1 where s1: "begin_op D s now = Some s1" using good_begin [OF D g] by blast
  define s2 where "s2 = snd (remove_if_expired D s1 dest now)"
  note st = start_key [OF D g s1, of dest, folded s2_def]
  note removed = good_removed [OF D st(1,2), of dest]
  obtain s3 where r3: "remove_slot D s2 dest = (find_slot D s2 dest, s3)" using removed(1) by blast
  let ?e = "\<lparr>en_value = en_value e, en_expires_at = d, en_lru_clock = lru_clock now\<rparr>"
  have pl: "\<not> has_field_ttl ?e" using v by (simp add: has_field_ttl_def)
  have sched: "schedule_field_expiries_for_value D dest (en_value e) s' = s'" for s'
    using v by (intro visible_None_plain) (simp add: has_field_ttl_def)
  have ty: "map_option (\<lambda>q. value_type_name (en_value q)) (find_slot D s2 dest)
      = map_option (\<lambda>p. value_type_name (fst p)) (visible D now s dest)"
    unfolding st(4) [symmetric] by (cases "find_slot D s2 dest") (simp_all add: timed_def)
  have "ends_with D now
       (let s' = insert_or_replace D s3 dest ?e; s'' = s'\<lparr>st_expiry_wheel := update_expiry (st_expiry_wheel s') dest None d\<rparr>
        in maybe_evict D (maybe_start_resize D s''))
       (purge now ((visible D now s)(dest \<mapsto> (en_value e, d))))"
    using ends_with_insert(1) [OF D _ _ pl, of s3 now dest "\<lambda>s. update_expiry (st_expiry_wheel s) dest None d"]
      removed r3 st(3) by (simp add: timed_def)
  then show ?thesis using s1 r3 ty sched by (simp add: copy_from_entry_def s2_def [symmetric] Let_def)
qed

lemma expire_keys_spec:
  assumes "store_laws D" and "good D s" and "st_clock_ms s = now"
  shows "good D (snd (expire_keys D s ks)) \<and> st_clock_ms (snd (expire_keys D s ks)) = now \<and>
         visible D now (snd (expire_keys D s ks)) = visible D now s"
  using assms(2,3)
proof (induction ks arbitrary: s)
  case (Cons k ks)
  note x = expire_key [OF assms(1) Cons.prems(1), where k = k and now = now]
  show ?case using Cons.IH [OF x(1)] x(2,3) Cons.prems(2) by (simp add: split_beta Let_def)
qed simp

text \<open>Without expiring fields, active expiry only drops what is no longer visible.\<close>

lemma advance_unfold:
  assumes D: "store_laws D" and g: "good D s" and c: "st_clock_ms s \<le> now" and lim: "now \<le> time_limit"
  obtains s2 fired where "advance_expiry_wheel D s now = Some (expire_keys D s2 fired)"
    and "advance (st_expiry_wheel s) now = (fired, st_expiry_wheel s2)"
    and "good D s2" and "find_slot D s2 = find_slot D s" and "st_clock_ms s2 = now"
proof -
  let ?s0 = "s\<lparr>st_clock_ms := now\<rparr>"
  have f0: "find_slot D ?s0 = find_slot D s" by (rule find_slot_cong) simp_all
  have g0: "good D ?s0" using g f0 by (simp add: good_def store_inv_def resize_map_def)
  obtain s1 where s1: "incremental_rehash_step D ?s0 = Some s1" "table_step D ?s0 s1"
    using incremental_rehash_step_spec [OF D good_inv [OF g0]] by blast
  have g1: "good D s1" "find_slot D s1 = find_slot D s" "st_clock_ms s1 = now" "st_expiry_wheel s1 = st_expiry_wheel s"
    using good_table_step [OF g0 s1(2)] f0 s1(2) by (simp_all add: good_op_def table_step_def)
  obtain w fired where w: "advance (st_expiry_wheel s1) now = (fired, w)" by fastforce
  have fw: "wheel_inv (st_field_expiry_wheel s1)" "pending (st_field_expiry_wheel s1) = {#}" using g1(1) by (simp_all add: good_def)
  obtain fw' where fw': "advance_fields (st_field_expiry_wheel s1) now = ([], fw')" "wheel_inv fw'" "pending fw' = {#}"
  proof -
    obtain fs fw' where "advance (st_field_expiry_wheel s1) now = (fs, fw')" "wheel_inv fw'"
        "mset fs = image_mset snd (filter_mset (\<lambda>p. fst p \<le> align_tick now) (pending (st_field_expiry_wheel s1)))"
        "pending fw' = filter_mset (\<lambda>p. align_tick now < fst p) (pending (st_field_expiry_wheel s1))"
      using advance_spec [OF fw(1) lim] by metis
    then show thesis using that [of fw'] fw(2) by (simp add: advance_def advance_fields_def)
  qed
  define s2 where "s2 = s1\<lparr>st_expiry_wheel := w, st_field_expiry_wheel := fw'\<rparr>"
  have f2: "find_slot D s2 = find_slot D s" using g1(2) find_slot_cong [of s2 s1 D] by (simp add: s2_def)
  then have g2: "good D s2" "st_clock_ms s2 = now"
    using g1 fw' by (simp_all add: good_def s2_def store_inv_def resize_map_def)
  note ek = expire_keys_spec [OF D g2, of fired]
  obtain n s3 where s3: "expire_keys D s2 fired = (n, s3)" by fastforce
  have "find_slot D s3 k = Some e \<Longrightarrow> \<not> has_field_ttl e" for k e using ek s3 by (auto simp: good_def)
  then have "filter (\<lambda>(_, e). has_field_ttl e) (all_slots D s3) = []"
    using find_slot_all_slots [OF D] ek s3 by (auto simp: filter_empty_conv good_def)
  then have "advance_expiry_wheel D s now = Some (expire_keys D s2 fired)"
    using s1 w fw' s3 ek g1(3) c by (simp add: advance_expiry_wheel_def s2_def max_absorb2)
  then show thesis using that [of s2 fired] w g1(4) g2 f2 by (simp add: s2_def)
qed

lemma advance_spec_good:
  assumes D: "store_laws D" and g: "good D s" and c: "st_clock_ms s \<le> now" and lim: "now \<le> time_limit"
  shows "\<exists>n s'. advance_expiry_wheel D s now = Some (n, s') \<and> ends_with D now s' (visible D now s)"
proof -
  obtain s2 fired where s2: "advance_expiry_wheel D s now = Some (expire_keys D s2 fired)" "good D s2"
      "find_slot D s2 = find_slot D s" "st_clock_ms s2 = now"
    using advance_unfold [OF assms] by metis
  then show ?thesis
    using expire_keys_spec [OF D s2(2,4), of fired] visible_cong [OF s2(3), of now]
    by (cases "expire_keys D s2 fired") (simp add: ends_with_def)
qed

section \<open>Operation sequences\<close>

datatype ('h, 'x) store_op =
  OSet bytes "('h, 'x) object senko_value" set_options nat
| OGet bytes nat
| ODelete bytes nat
| OExists bytes nat
| OTtl bytes nat
| OType bytes nat
| OExpireTime bytes nat
| ORename bytes bytes nat
| OCopy bytes "('h, 'x) object senko_value" "nat option" nat
| OSetExpiry bytes nat nat
| ORemoveExpiry bytes nat
| OAdvance nat
| OClear nat

datatype ('h, 'x) store_out =
  RSet "('h, 'x) object set_result"
| RValue "('h, 'x) object senko_value option"
| RFlag bool
| RTime "int option"
| RType "bytes option"
| RRename "(bytes \<times> bytes option) option"
| RDone

fun op_time :: "('h, 'x) store_op \<Rightarrow> nat" where
  "op_time (OSet k v opts now) = now" | "op_time (OGet k now) = now" | "op_time (ODelete k now) = now"
| "op_time (OExists k now) = now" | "op_time (OTtl k now) = now" | "op_time (OType k now) = now"
| "op_time (OExpireTime k now) = now" | "op_time (ORename k k' now) = now" | "op_time (OCopy k v d now) = now"
| "op_time (OSetExpiry k d now) = now" | "op_time (ORemoveExpiry k now) = now" | "op_time (OAdvance now) = now"
| "op_time (OClear now) = now"

fun store_step ::
    "('t, 'h, 'x, 'f) store_deps \<Rightarrow> 't store \<Rightarrow> ('h, 'x) store_op \<Rightarrow> (('h, 'x) store_out \<times> 't store) option" where
  "store_step D s (OSet k v opts now) = map_option (apfst RSet) (store_set D s k v opts now)"
| "store_step D s (OGet k now) = Some (apfst RValue (store_get D s k now))"
| "store_step D s (ODelete k now) = map_option (apfst RFlag) (store_delete D s k now)"
| "store_step D s (OExists k now) = Some (RFlag (store_exists D s k now), s)"
| "store_step D s (OTtl k now) = Some (RTime (ttl_ms D s k now), s)"
| "store_step D s (OType k now) = map_option (apfst RType) (type_name D s k now)"
| "store_step D s (OExpireTime k now) = map_option (apfst RTime) (expiretime_ms D s k now)"
| "store_step D s (ORename k k' now) = map_option (apfst RRename) (rename D s k k' now)"
| "store_step D s (OCopy k v d now) =
     map_option (apfst RType) (copy_from_entry D s k \<lparr>en_value = v, en_expires_at = None, en_lru_clock = 0\<rparr> d now)"
| "store_step D s (OSetExpiry k d now) = map_option (Pair RDone) (store_set_expiry D s k d now)"
| "store_step D s (ORemoveExpiry k now) = map_option (Pair RDone) (remove_expiry D s k now)"
| "store_step D s (OAdvance now) = map_option (apfst (\<lambda>_. RDone)) (advance_expiry_wheel D s now)"
| "store_step D s (OClear now) = Some (RDone, clear_store D s now)"

text \<open>The specification. Its state is the time of the last operation and the keyspace visible at it;
  \<open>keyspace_op\<close> is applied to what is still visible at the time of the operation.\<close>

fun keyspace_op ::
    "('h, 'x) object value_deps \<Rightarrow> ('h, 'x) object senko_value keyspace \<Rightarrow> ('h, 'x) store_op \<Rightarrow>
       ('h, 'x) store_out \<times> ('h, 'x) object senko_value keyspace" where
  "keyspace_op V m (OSet k v opts now) =
     (let applied = condition_holds V (so_condition opts) (m k)
      in (RSet \<lparr>sr_applied = applied, sr_old_value = (if so_get_old opts then map_option fst (m k) else None)\<rparr>,
          if applied then m(k \<mapsto> (v, deadline_of (so_expiry opts) (m k) now)) else m))"
| "keyspace_op V m (OGet k now) = (RValue (map_option fst (m k)), m)"
| "keyspace_op V m (ODelete k now) = (RFlag (m k \<noteq> None), m(k := None))"
| "keyspace_op V m (OExists k now) = (RFlag (m k \<noteq> None), m)"
| "keyspace_op V m (OTtl k now) =
     (RTime (map_option (\<lambda>(_, d). case d of None \<Rightarrow> - 1 | Some deadline \<Rightarrow> as_i64 (deadline - now)) (m k)), m)"
| "keyspace_op V m (OType k now) = (RType (map_option (\<lambda>(v, _). value_type_name v) (m k)), m)"
| "keyspace_op V m (OExpireTime k now) =
     (RTime (map_option (\<lambda>(_, d). case d of None \<Rightarrow> - 1 | Some deadline \<Rightarrow> as_i64 deadline) (m k)), m)"
| "keyspace_op V m (ORename k k' now) =
     (case m k of
        None \<Rightarrow> (RRename None, m)
      | Some p \<Rightarrow> (RRename (Some (value_type_name (fst p), map_option (\<lambda>q. value_type_name (fst q)) ((m(k := None)) k'))),
                   m(k := None, k' \<mapsto> p)))"
| "keyspace_op V m (OCopy k v d now) = (RType (map_option (\<lambda>p. value_type_name (fst p)) (m k)), m(k \<mapsto> (v, d)))"
| "keyspace_op V m (OSetExpiry k d now) = (RDone, case m k of None \<Rightarrow> m | Some (v, _) \<Rightarrow> m(k \<mapsto> (v, Some d)))"
| "keyspace_op V m (ORemoveExpiry k now) = (RDone, case m k of None \<Rightarrow> m | Some (v, _) \<Rightarrow> m(k \<mapsto> (v, None)))"
| "keyspace_op V m (OAdvance now) = (RDone, m)"
| "keyspace_op V m (OClear now) = (RDone, Map.empty)"

definition keyspace_step ::
    "('h, 'x) object value_deps \<Rightarrow> nat \<times> ('h, 'x) object senko_value keyspace \<Rightarrow> ('h, 'x) store_op \<Rightarrow>
       ('h, 'x) store_out \<times> nat \<times> ('h, 'x) object senko_value keyspace" where
  "keyspace_step V a op =
     (let now = op_time op; (out, m) = keyspace_op V (purge now (snd a)) op in (out, now, purge now m))"

lemma keyspace_step_time [simp]: "fst (snd (keyspace_step V a op)) = op_time op"
  by (simp add: keyspace_step_def Let_def split_beta)

text \<open>Time does not run backwards, and no stored hash has fields with deadlines of their own.\<close>

fun op_value :: "('h, 'x) store_op \<Rightarrow> ('h, 'x) object senko_value option" where
  "op_value (OSet k v opts now) = Some v"
| "op_value (OCopy k v d now) = Some v"
| "op_value _ = None"

definition plain_value :: "('h, 'x) object senko_value \<Rightarrow> bool" where
  "plain_value v \<longleftrightarrow> \<not> has_field_ttl \<lparr>en_value = v, en_expires_at = None, en_lru_clock = 0\<rparr>"

definition store_op_ok :: "nat \<times> ('h, 'x) object senko_value keyspace \<Rightarrow> ('h, 'x) store_op \<Rightarrow> bool" where
  "store_op_ok a op \<longleftrightarrow>
     fst a \<le> op_time op \<and> op_time op \<le> time_limit \<and> (case op_value op of None \<Rightarrow> True | Some v \<Rightarrow> plain_value v)"

definition store_rep ::
    "('t, 'h, 'x, 'f) store_deps \<Rightarrow> 't store \<Rightarrow> nat \<times> ('h, 'x) object senko_value keyspace \<Rightarrow> bool" where
  "store_rep D s a \<longleftrightarrow> ends_with D (fst a) s (snd a)"

lemma visible_later: "t \<le> now \<Longrightarrow> purge now (visible D t s) = visible D now s"
  by (simp add: visible_def purge_purge)

lemma ends_with_same: "good D s \<Longrightarrow> st_clock_ms s \<le> now \<Longrightarrow> ends_with D now s (visible D now s)"
  by (simp add: ends_with_def)

lemma ends_with_clear:
  assumes D: "store_laws D" and g: "good D s" and lim: "now \<le> time_limit"
  shows "ends_with D now (clear_store D s now) Map.empty"
proof -
  let ?s = "clear_store D s now"
  have f: "find_slot D ?s = Map.empty" using D by (auto simp: find_slot_eq clear_store_def resize_map_def store_lawsD(2))
  moreover have "store_inv D ?s" using f by (simp add: store_inv_def clear_store_def resize_map_def entries_bytes_def wrap64_def)
  ultimately show ?thesis
    using g wheel_new_inv [where ?'e = "bytes \<times> bytes", OF lim]
    by (simp add: ends_with_def good_def visible_def purge_def clear_store_def)
qed

lemma ends_with_purged: "ends_with D now s m \<Longrightarrow> ends_with D now s (purge now m)"
  by (auto simp: ends_with_def visible_purged)

text \<open>Every operation, from a state whose visible keyspace is \<open>m\<close>.\<close>

lemma store_step_spec:
  assumes D: "store_laws D" and g: "good D s" and c: "st_clock_ms s \<le> op_time op" and lim: "op_time op \<le> time_limit"
    and v: "case op_value op of None \<Rightarrow> True | Some v \<Rightarrow> plain_value v"
  defines "k \<equiv> keyspace_op (sd_values D) (visible D (op_time op) s) op"
  shows "\<exists>s'. store_step D s op = Some (fst k, s') \<and> ends_with D (op_time op) s' (purge (op_time op) (snd k))"
proof (cases op)
  case (OSet key val opts now)
  then show ?thesis
    using store_set_spec [OF D g, of val key opts now] v visible_purged [of now D s]
    by (auto simp: k_def plain_value_def Let_def split: if_splits)
next
  case (OGet key now)
  then show ?thesis using store_get_spec [OF D g, of now key] c by (auto simp: k_def visible_purged apfst_def map_prod_def split_beta)
next
  case (ODelete key now)
  then show ?thesis
    using store_delete_spec [OF D g, of key now] ends_with_purged by (fastforce simp: k_def)
next
  case (OExists key now)
  then show ?thesis using ends_with_same [OF g c] 
    by (auto simp: k_def visible_purged store_exists_def visible_at split: option.splits)
next
  case (OTtl key now)
  then show ?thesis using ends_with_same [OF g c]
    by (auto simp: k_def visible_purged ttl_ms_def visible_at timed_def is_expired_def split: option.splits)
next
  case (OType key now)
  then show ?thesis using read_live_spec [OF D g, of key now]
    by (fastforce simp: k_def visible_purged type_name_def timed_def option.map_comp comp_def dest!: sym [of _ "visible D now s key"])
next
  case (OExpireTime key now)
  then show ?thesis using read_live_spec [OF D g, of key now]
    by (fastforce simp: k_def visible_purged expiretime_ms_def timed_def option.map_comp comp_def dest!: sym [of _ "visible D now s key"])
next
  case (ORename key key' now)
  then show ?thesis
    using rename_spec [OF D g, of key key' now] visible_purged [of now D s] by (auto simp: k_def split: option.splits)
next
  case (OCopy key val d now)
  then show ?thesis
    using copy_spec [OF D g, of "\<lparr>en_value = val, en_expires_at = None, en_lru_clock = 0\<rparr>" key d now] v
    by (auto simp: k_def plain_value_def)
next
  case (OSetExpiry key d now)
  then show ?thesis
    using write_expiry_spec [OF D g, of key "Some d" now] visible_purged [of now D s]
    by (auto simp: k_def store_set_expiry_def split: option.splits)
next
  case (ORemoveExpiry key now)
  then show ?thesis
    using write_expiry_spec [OF D g, of key None now] visible_purged [of now D s]
    by (auto simp: k_def remove_expiry_def split: option.splits)
next
  case (OAdvance now)
  then show ?thesis using advance_spec_good [OF D g, of now] c lim by (auto simp: k_def visible_purged)
next
  case (OClear now)
  then show ?thesis using ends_with_purged [OF ends_with_clear [OF D g, of now]] lim by (simp add: k_def)
qed

lemma store_simulation:
  assumes D: "store_laws D"
  shows "simulation (store_step D) (keyspace_step (sd_values D)) (store_rep D) store_op_ok"
proof
  fix s a op assume r: "store_rep D s a" and ok: "store_op_ok a op"
  have g: "good D s" and c: "st_clock_ms s \<le> op_time op" and m: "snd a = visible D (fst a) s"
    using r ok by (auto simp: store_rep_def store_op_ok_def ends_with_def)
  have "purge (op_time op) (snd a) = visible D (op_time op) s"
    using m ok visible_later [of "fst a" "op_time op" D s] by (simp add: store_op_ok_def)
  then show "\<exists>s'. store_step D s op = Some (fst (keyspace_step (sd_values D) a op), s') \<and>
      store_rep D s' (snd (keyspace_step (sd_values D) a op))"
    using store_step_spec [OF D g c] ok
    by (simp add: keyspace_step_def store_rep_def store_op_ok_def Let_def split_beta)
qed

lemma store_rep_new:
  assumes "store_laws D" and "now \<le> time_limit"
  shows "store_rep D (store_new D None now) (now, Map.empty)"
proof -
  let ?s = "store_new D None now"
  have f: "find_slot D ?s = Map.empty" using assms(1) by (auto simp: find_slot_eq store_new_def resize_map_def store_lawsD(2))
  moreover have "store_inv D ?s" using f by (simp add: store_inv_def store_new_def resize_map_def entries_bytes_def wrap64_def)
  ultimately show ?thesis
    using wheel_new_inv [where ?'e = "bytes \<times> bytes", OF assms(2)]
    by (simp add: store_rep_def ends_with_def good_def visible_def purge_def store_new_def)
qed

section \<open>Containers\<close>

text \<open>The value a container accessor may hand out at a key: of the right kind and not empty, unless it is a
  stream.\<close>

definition container_at ::
    "('t, 'h, 'x, 'f) store_deps \<Rightarrow> object_kind \<Rightarrow> (('h, 'x) object senko_value \<times> nat option) option \<Rightarrow> 'x option" where
  "container_at D kind c =
     (case c of None \<Rightarrow> None
      | Some (v, _) \<Rightarrow> (case value_object kind v of
           None \<Rightarrow> None | Some x \<Rightarrow> if kind \<noteq> StreamKind \<and> sd_is_empty D kind x then None else Some x))"

definition container_empty ::
    "('t, 'h, 'x, 'f) store_deps \<Rightarrow> object_kind \<Rightarrow> (('h, 'x) object senko_value \<times> nat option) option \<Rightarrow> bool" where
  "container_empty D kind c =
     (case c of None \<Rightarrow> False
      | Some (v, _) \<Rightarrow> (case value_object kind v of None \<Rightarrow> False | Some x \<Rightarrow> kind \<noteq> StreamKind \<and> sd_is_empty D kind x))"

lemma visible_SomeD:
  assumes "visible D now s k = Some p"
  obtains e where "find_slot D s k = Some e" and "p = timed e" and "\<not> is_expired (en_expires_at e) now"
  using assms by (auto simp: visible_at split: option.splits if_splits)

lemma get_object_spec:
  assumes D: "store_laws D" and g: "good D s" and c: "st_clock_ms s \<le> now"
  shows "fst (get_object D kind s k now) = container_at D kind (visible D now s k) \<and>
         ends_with D now (snd (get_object D kind s k now))
           (if container_empty D kind (visible D now s k) then (visible D now s)(k := None) else visible D now s)"
proof -
  obtain r s1 where get: "store_get D s k now = (r, s1)" by fastforce
  have r: "r = map_option fst (visible D now s k)" and s1: "good D s1" "st_clock_ms s1 \<le> now" "visible D now s1 = visible D now s"
    using store_get_spec [OF D g c, of k] get by (simp_all add: ends_with_def)
  show ?thesis
  proof (cases "visible D now s k")
    case None
    then show ?thesis using get r s1 by (simp add: get_object_def container_at_def container_empty_def ends_with_def)
  next
    case (Some p)
    then obtain e where e: "find_slot D s1 k = Some e" "p = timed e" using s1(3) visible_SomeD by metis
    show ?thesis
      using get r s1 Some e remove_slot_ends [OF D s1(1,2), of k]
      by (auto simp: get_object_def container_at_def container_empty_def remove_object_if_empty_def timed_def ends_with_def
          split: option.splits)
  qed
qed

lemma get_or_create_object_spec:
  assumes D: "store_laws D" and g: "good D s"
  shows "\<exists>x s'. get_or_create_object D kind s k now = Some (x, s') \<and>
     (case Option.bind (visible D now s k) (\<lambda>p. value_object kind (fst p)) of
        Some y \<Rightarrow> x = y \<and> ends_with D now s' (visible D now s)
      | None \<Rightarrow> x = sd_default D kind \<and> ends_with D now s' ((visible D now s)(k \<mapsto> (Obj kind (OtherObj x), None))))"
proof -
  obtain s1 where s1: "begin_op D s now = Some s1" using good_begin [OF D g] by blast
  define s2 where "s2 = snd (remove_if_expired D s1 k now)"
  note st = start_key [OF D g s1, of k, folded s2_def]
  have f: "Option.bind (visible D now s k) (\<lambda>p. value_object kind (fst p))
      = Option.bind (find_slot D s2 k) (\<lambda>e. value_object kind (en_value e))"
    unfolding st(4) [symmetric] by (cases "find_slot D s2 k") (simp_all add: timed_def)
  let ?e = "\<lparr>en_value = Obj kind (OtherObj (sd_default D kind)), en_expires_at = None, en_lru_clock = lru_clock now\<rparr>"
  have "\<not> has_field_ttl ?e" by (simp add: has_field_ttl_def value_hash_def split: object_kind.splits)
  from good_insert [OF D st(1) this, of k]
  have s3: "good D (insert_or_replace D s2 k ?e)" "st_clock_ms (insert_or_replace D s2 k ?e) = now"
      "find_slot D (insert_or_replace D s2 k ?e) = (find_slot D s2)(k \<mapsto> ?e)"
    using st(2) by (simp_all add: good_op_def)
  then have "ends_with D now (insert_or_replace D s2 k ?e) ((visible D now s)(k \<mapsto> timed ?e))"
    using visible_insert [OF s3(3), of now] st(3) visible_purged [of now D s]
    by (auto simp: ends_with_def purge_def timed_def is_expired_def fun_eq_iff)
  then show ?thesis
    unfolding f using s1 s3(3) st
    by (auto simp: get_or_create_object_def s2_def [symmetric] Let_def value_object_def timed_def ends_with_def
        split: option.splits)
qed

section \<open>Rehashing, accounting and eviction\<close>

fun rehash_steps :: "('t, 'h, 'x, 'f) store_deps \<Rightarrow> nat \<Rightarrow> 't store \<Rightarrow> 't store option" where
  "rehash_steps D 0 s = Some s"
| "rehash_steps D (Suc n) s = Option.bind (incremental_rehash_step D s) (rehash_steps D n)"

lemma rehash_steps_spec:
  assumes "store_laws D" and "store_inv D s"
  shows "\<exists>s'. rehash_steps D n s = Some s' \<and> store_inv D s' \<and> find_slot D s' = find_slot D s \<and>
           left_to_move D s' = left_to_move D s - 8 * n \<and> (0 < n \<longrightarrow> (st_resize s' = None \<longleftrightarrow> left_to_move D s \<le> 8 * n))"
  using assms(2)
proof (induction n arbitrary: s)
  case (Suc n)
  obtain s1 where s1: "incremental_rehash_step D s = Some s1" "table_step D s s1"
      "left_to_move D s1 = left_to_move D s - 8" "st_resize s1 = None \<longleftrightarrow> left_to_move D s \<le> 8"
    using incremental_rehash_step_spec [OF assms(1) Suc.prems] by (elim exE conjE) (rule that)
  have i1: "store_inv D s1" and f1: "find_slot D s1 = find_slot D s"
    using s1(2) unfolding table_step_def slot_op_def by blast+
  obtain s' where s': "rehash_steps D n s1 = Some s'" "store_inv D s'"
      "find_slot D s' = find_slot D s" "left_to_move D s' = left_to_move D s1 - 8 * n"
      "0 < n \<longrightarrow> (st_resize s' = None \<longleftrightarrow> left_to_move D s1 \<le> 8 * n)"
    using Suc.IH [OF i1] unfolding f1 by (elim exE conjE) (rule that)
  have "rehash_steps D (Suc n) s = Some s'" unfolding rehash_steps.simps s1(1) bind.bind_lunit using s'(1) .
  moreover have "st_resize s' = None \<longleftrightarrow> left_to_move D s \<le> 8 * Suc n"
    using s1(3,4) s'(1,5) by (cases "n = 0") auto
  ultimately show ?case using s1(3) s'(2-4) by auto
qed simp

lemma find_slot_map_of:
  assumes "store_laws D"
  shows "find_slot D s = map_of (all_slots D s)"
  unfolding find_slot_eq [OF assms]
  by (auto simp: all_slots_def resize_map_def fun_eq_iff map_add_def split: option.splits)


lemma sum_list_map_of:
  assumes "distinct (map fst xs)"
  shows "(\<Sum>k \<in> dom (map_of xs). f k (the (map_of xs k))) = (\<Sum>(k, e) \<leftarrow> xs. f k e :: nat)"
  using assms
proof (induction xs)
  case (Cons x xs)
  obtain k e where x: "x = (k, e)" by fastforce
  have "k \<notin> dom (map_of xs)" using Cons.prems x by (simp add: dom_map_of_conv_image_fst)
  then have "(\<Sum>k' \<in> dom (map_of xs). f k' (the (map_of (x # xs) k'))) = (\<Sum>k' \<in> dom (map_of xs). f k' (the (map_of xs k')))"
    using x by (intro sum.cong) auto
  moreover have dom_x: "dom (map_of (x # xs)) = insert k (dom (map_of xs))" using x by auto
  ultimately show ?case
    unfolding dom_x
    using Cons x \<open>k \<notin> dom (map_of xs)\<close> sum.insert [OF finite_dom_map_of [of xs], of k "\<lambda>k'. f k' (the (map_of (x # xs) k'))"]
    by simp
qed simp


text \<open>The sample is a window of the live entries, all of them when there are at most five.\<close>

lemma oldest_of_spec:
  "oldest_of (Some c) xs = Some r \<Longrightarrow> r \<in> set (c # xs) \<and> (\<forall>x \<in> set (c # xs). snd r \<le> snd x)"
proof (induction xs arbitrary: c)
  case (Cons x xs)
  obtain k l k' l' where x: "x = (k, l)" "c = (k', l')" by fastforce
  have "r \<in> set ((if l < l' then (k, l) else (k', l')) # xs) \<and>
      (\<forall>y \<in> set ((if l < l' then (k, l) else (k', l')) # xs). snd r \<le> snd y)"
    using Cons.IH [of "if l < l' then (k, l) else (k', l')"] Cons.prems x by (simp split: if_splits)
  then show ?case using x by (force split: if_splits)
qed simp

lemma oldest_of_Some: "\<exists>r. oldest_of (Some c) xs = Some r"
  by (induction xs arbitrary: c) (auto split: prod.splits)

lemma oldest_of_None:
  assumes "xs \<noteq> []"
  obtains r where "oldest_of None xs = Some r" and "r \<in> set xs" and "\<forall>x \<in> set xs. snd r \<le> snd x"
proof -
  obtain x ys where xs: "xs = x # ys" using assms by (cases xs) auto
  have "oldest_of None xs = oldest_of (Some x) ys" using xs by (cases x) simp
  then show thesis using oldest_of_Some [of x ys] oldest_of_spec [of x ys] that xs by metis
qed

lemma window_set:
  fixes start :: nat
  assumes "xs \<noteq> []"
  defines "w \<equiv> map (\<lambda>offset. xs ! ((start + offset) mod length xs)) [0..<min 5 (length xs)]"
  shows "set w \<subseteq> set xs" and "w \<noteq> []" and "length xs \<le> 5 \<Longrightarrow> set w = set xs"
proof -
  let ?n = "length xs"
  have n: "0 < ?n" using assms(1) by simp
  show sub: "set w \<subseteq> set xs" using n by (auto simp: w_def)
  show "w \<noteq> []" using n by (simp add: w_def)
  assume le: "?n \<le> 5"
  have "xs ! i \<in> set w" if "i < ?n" for i
  proof -
    let ?o = "(i + ?n - start mod ?n) mod ?n"
    have "(start + ?o) mod ?n = i"
    proof -
      have "(start + ?o) mod ?n = (start mod ?n + (i + ?n - start mod ?n)) mod ?n" by (metis mod_add_left_eq mod_add_right_eq)
      also have "start mod ?n + (i + ?n - start mod ?n) = i + ?n" using n by (simp add: less_imp_le_nat add.commute trans_le_add2)
      finally show ?thesis using that by simp
    qed
    moreover have "?o < min 5 ?n" using n le by simp
    ultimately show ?thesis unfolding w_def by (metis (mono_tags, lifting) atLeast_upt image_eqI lessThan_iff list.set_map)
  qed
  then show "set w = set xs" using sub by (metis in_set_conv_nth subsetI subset_antisym)
qed

lemma sample_spec:
  assumes D: "store_laws D" and some: "iter_live_slots D s \<noteq> []"
  obtains k e seed where "sample_eviction_candidate D s = (Some k, s\<lparr>st_eviction_seed := seed\<rparr>)"
    and "(k, e) \<in> set (iter_live_slots D s)"
    and "length (iter_live_slots D s) \<le> 5 \<Longrightarrow> \<forall>(k', e') \<in> set (iter_live_slots D s). en_lru_clock e \<le> en_lru_clock e'"
proof -
  obtain seed where seed: "next_random_seed s = (seed, s\<lparr>st_eviction_seed := seed\<rparr>)" by (simp add: next_random_seed_def Let_def)
  define live where "live = map (\<lambda>(key, e). (key, en_lru_clock e)) (iter_live_slots D s)"
  have same: "iter_live_slots D (s\<lparr>st_eviction_seed := seed\<rparr>) = iter_live_slots D s"
    by (simp add: iter_live_slots_def all_slots_def)
  have ne: "live \<noteq> []" using some by (simp add: live_def)
  define start where "start = unat seed mod entry_count D s mod length live"
  define w where "w = map (\<lambda>offset. live ! ((start + offset) mod length live)) [0..<min 5 (length live)]"
  note ws = window_set [OF ne, of start, folded w_def]
  obtain r where r: "oldest_of None w = Some r" "r \<in> set w" "\<forall>x \<in> set w. snd r \<le> snd x" using oldest_of_None [OF ws(2)] .
  obtain e where e: "(fst r, e) \<in> set (iter_live_slots D s)" "snd r = en_lru_clock e"
    using r(2) ws(1) by (fastforce simp: live_def)
  have "all_slots D s \<noteq> []" using some by (auto simp: iter_live_slots_def)
  then have "entry_count D s \<noteq> 0" using D by (auto simp: entry_count_def all_slots_def store_lawsD(7) split: option.splits)
  then have "sample_eviction_candidate D s = (Some (fst r), s\<lparr>st_eviction_seed := seed\<rparr>)"
    using ne some r(1) by (simp add: sample_eviction_candidate_def seed same live_def [symmetric] start_def [symmetric] w_def [symmetric])
  moreover have "\<forall>(k', e') \<in> set (iter_live_slots D s). en_lru_clock e \<le> en_lru_clock e'"
    if "length (iter_live_slots D s) \<le> 5"
    using r(3) ws(3) that e(2) by (force simp: live_def)
  ultimately show thesis using that [OF _ e(1)] by blast
qed

lemma live_slot_iff:
  assumes "store_laws D" and "store_inv D s"
  shows "(k, e) \<in> set (iter_live_slots D s) \<longleftrightarrow> find_slot D s k = Some e \<and> \<not> is_expired (en_expires_at e) (st_clock_ms s)"
  using find_slot_all_slots [OF assms] by (auto simp: iter_live_slots_def)

lemma maybe_evict_spec:
  assumes D: "store_laws D" and inv: "store_inv D s" and ev: "should_evict (st_memory s) (st_max_memory s)"
    and some: "iter_live_slots D s \<noteq> []"
  shows "\<exists>k e. (k, e) \<in> set (iter_live_slots D s) \<and> slot_op D s (maybe_evict D s) ((find_slot D s)(k := None)) \<and>
           (length (iter_live_slots D s) \<le> 5 \<longrightarrow>
              (\<forall>(k', e') \<in> set (iter_live_slots D s). en_lru_clock e \<le> en_lru_clock e'))"
proof -
  obtain k e seed where k: "sample_eviction_candidate D s = (Some k, s\<lparr>st_eviction_seed := seed\<rparr>)"
      "(k, e) \<in> set (iter_live_slots D s)"
      "length (iter_live_slots D s) \<le> 5 \<Longrightarrow> \<forall>(k', e') \<in> set (iter_live_slots D s). en_lru_clock e \<le> en_lru_clock e'"
    using sample_spec [OF D some] by metis
  let ?s = "s\<lparr>st_eviction_seed := seed\<rparr>"
  have f: "find_slot D ?s = find_slot D s" by (rule find_slot_cong) simp_all
  then have "store_inv D ?s" using inv by (simp add: store_inv_def resize_map_def)
  from remove_slot_spec(2) [OF D this, of k] have "slot_op D s (snd (remove_slot D ?s k)) ((find_slot D s)(k := None))"
    using f by (simp add: slot_op_def same_env_def)
  then show ?thesis using k ev by (auto simp: maybe_evict_def)
qed

text \<open>An instance of what the store relies on: association lists, whose buckets are their entries.\<close>

definition reference_buckets :: "((bytes \<times> 'e) list, 'e) bucket_deps" where
  "reference_buckets =
     \<lparr>bd_table = reference_table, with_capacity = (\<lambda>n. []), num_buckets = (\<lambda>t. length (AList.clearjunk t)),
      get_bucket = (\<lambda>t b. get_at (AList.clearjunk t) b)\<rparr>"

type_synonym reference_object = "((bytes \<times> unit hash_field) list, unit) object"

definition reference_store ::
    "((bytes \<times> reference_object entry) list, (bytes \<times> unit hash_field) list, unit, unit) store_deps" where
  "reference_store =
     \<lparr>sd_buckets = reference_buckets, sd_hash = reference_hash_deps,
      sd_values = \<lparr>str_parse_f64 = (\<lambda>s. None), f64_to_string = (\<lambda>x. dec_nat (unat x)), json_to_string = (\<lambda>_. [])\<rparr>,
      sd_object_bytes = (\<lambda>_ _. 8), sd_entry_size = 64, sd_is_empty = (\<lambda>_ _. False), sd_default = (\<lambda>_. ())\<rparr>"

lemma reference_store_laws: "store_laws reference_store"
  using reference_table_laws nth_mem [of _ "AList.clearjunk _"]
  by (fastforce simp: store_laws_def bucket_laws_def reference_store_def reference_buckets_def reference_hash_laws
      reference_table_def get_at_def nth_mem split: if_splits intro!: exI [of _ 0] dest: nth_mem)

interpretation shard: simulation "store_step reference_store" "keyspace_step (sd_values reference_store)"
    "store_rep reference_store" store_op_ok
  by (rule store_simulation [OF reference_store_laws])

section \<open>Properties of the store\<close>

text \<open>C13. Any sequence of sets with their conditions and expiry options, reads, deletions, time-to-live
  queries, renames, copies, expiry changes, active expiry and clears on a fresh store without a memory
  limit, with values that are not hashes with expiring fields and a clock that does not go back, returns, and
  returns at every step what the same operations return on a map from keys to values with deadlines in
  which a key is visible until its deadline. The two tables, the incremental rehash, the timer wheel
  and the removal of expired keys on access do not show. With a memory limit a set also evicts other keys.\<close>

theorem store_refines_keyspace:
  assumes "store_laws D" and "start \<le> time_limit"
    and "ok_ops (keyspace_step (sd_values D)) store_op_ok (start, Map.empty) ops"
  shows "\<exists>s. run_c (store_step D) (store_new D None start) ops
             = Some (fst (run_a (keyspace_step (sd_values D)) (start, Map.empty) ops), s) \<and>
           (let (now, m) = snd (run_a (keyspace_step (sd_values D)) (start, Map.empty) ops)
            in visible D now s = m)"
  using simulation.run [OF store_simulation [OF assms(1)] store_rep_new [OF assms(1,2)] assms(3)]
  by (auto simp: store_rep_def ends_with_def split_beta)

theorem store_refines_keyspace_witness:
  "\<exists>s. run_c (store_step reference_store) (store_new reference_store None 0)
         [OSet [1] (IntVal 5) \<lparr>so_condition = NX, so_expiry = Ex 1, so_get_old = False\<rparr> 0,
          ORename [1] [2] 10, OTtl [2] 400, OAdvance 1000, OGet [2] 1000] =
       Some ([RSet \<lparr>sr_applied = True, sr_old_value = None\<rparr>, RRename (Some (ascii ''string'', None)), RTime (Some 600),
              RDone, RValue None], s)"
proof -
  let ?ops = "[OSet [1] (IntVal 5) \<lparr>so_condition = NX, so_expiry = Ex 1, so_get_old = False\<rparr> 0,
          ORename [1] [2] 10, OTtl [2] 400, OAdvance 1000, OGet [2] 1000] :: ((bytes \<times> unit hash_field) list, unit) store_op list"
  have "ok_ops (keyspace_step (sd_values reference_store)) store_op_ok (0, Map.empty) ?ops"
    by (simp add: store_op_ok_def plain_value_def has_field_ttl_def value_hash_def)
  moreover have "fst (run_a (keyspace_step (sd_values reference_store)) (0, Map.empty) ?ops) =
      [RSet \<lparr>sr_applied = True, sr_old_value = None\<rparr>, RRename (Some (ascii ''string'', None)), RTime (Some 600),
              RDone, RValue None]"
    by (simp add: keyspace_step_def condition_holds_def purge_def sat_add64_def sat_mul64_def is_expired_def
        value_type_name_def as_i64_def)
  ultimately show ?thesis
    using store_refines_keyspace [OF reference_store_laws, of 0 ?ops] by auto
qed

text \<open>C14. A step of the incremental rehash always ends and moves exactly eight entries, or all that are
  left: after \<open>n\<close> steps \<open>8 * n\<close> entries fewer wait in the old table, the old table is dropped exactly
  when none is left, and every lookup finds what it found before.\<close>

theorem rehash_completes:
  assumes "store_laws D" and "store_inv D s"
  shows "\<exists>s'. rehash_steps D n s = Some s' \<and> find_slot D s' = find_slot D s \<and>
           left_to_move D s' = left_to_move D s - 8 * n \<and>
           (0 < n \<longrightarrow> (st_resize s' = None \<longleftrightarrow> left_to_move D s \<le> 8 * n))"
  using rehash_steps_spec [OF assms, of n] by (elim exE conjE) (intro exI conjI)

theorem rehash_completes_witness:
  "let e = (\<lambda>n. \<lparr>en_value = IntVal n :: reference_object senko_value, en_expires_at = None, en_lru_clock = 0\<rparr>);
       s = (store_new reference_store None 0)
             \<lparr>st_resize := Some \<lparr>rh_table = map (\<lambda>n. ([of_nat n], e (int n))) [0..<9], rh_scan_bucket = 5\<rparr>,
              st_memory := 9 * 73\<rparr>
   in \<exists>s'. rehash_steps reference_store 2 s = Some s' \<and> st_resize s' = None"
proof -
  define e where "e = (\<lambda>n. \<lparr>en_value = IntVal n :: reference_object senko_value, en_expires_at = None, en_lru_clock = 0\<rparr>)"
  define t where "t = map (\<lambda>n. ([of_nat n :: 8 word], e (int n))) [0..<9]"
  define s where "s = (store_new reference_store None 0)\<lparr>st_resize := Some \<lparr>rh_table = t, rh_scan_bucket = 5\<rparr>, st_memory := 9 * 73\<rparr>"
  have t: "AList.clearjunk t = t" "distinct (map fst t)" "length t = 9" by (simp_all add: t_def upt_rec)
  have all: "all_slots reference_store s = t"
    using t by (simp add: all_slots_def s_def store_new_def reference_store_def reference_buckets_def reference_table_def)
  have "(\<Sum>(k, e) \<leftarrow> t. entry_bytes reference_store k e) = 9 * 73"
    by (simp add: t_def e_def upt_rec entry_bytes_def value_bytes_def reference_store_def)
  then have "store_inv reference_store s"
    using sum_list_map_of [OF t(2), of "entry_bytes reference_store"] all t
    by (simp add: store_inv_def find_slot_map_of [OF reference_store_laws] entries_bytes_def)
      (simp add: s_def store_new_def reference_store_def reference_buckets_def reference_table_def wrap64_def)
  moreover have "left_to_move reference_store s = 9"
    using t by (simp add: left_to_move_def s_def reference_store_def reference_buckets_def reference_table_def)
  ultimately have "\<exists>s'. rehash_steps reference_store 2 s = Some s' \<and> st_resize s' = None"
    using rehash_completes [OF reference_store_laws, of s 2] by auto
  then show ?thesis by (simp add: s_def t_def e_def Let_def)
qed



text \<open>Above nine tenths of the memory limit an eviction removes exactly one key, a live one, and the
  memory counter with it; when at most five keys are live it is one that was not used more recently
  than any other.\<close>

theorem eviction_removes_one:
  assumes "store_laws D" and "store_inv D s" and "should_evict (st_memory s) (st_max_memory s)"
    and "iter_live_slots D s \<noteq> []"
  shows "\<exists>k e. (k, e) \<in> set (iter_live_slots D s) \<and> find_slot D (maybe_evict D s) = (find_slot D s)(k := None) \<and>
           st_memory (maybe_evict D s) = memory_sub (st_memory s) (entry_bytes D k e) \<and>
           (length (iter_live_slots D s) \<le> 5 \<longrightarrow>
              (\<forall>(k', e') \<in> set (iter_live_slots D s). en_lru_clock e \<le> en_lru_clock e'))"
proof -
  obtain k e where k: "(k, e) \<in> set (iter_live_slots D s)" "slot_op D s (maybe_evict D s) ((find_slot D s)(k := None))"
      "length (iter_live_slots D s) \<le> 5 \<longrightarrow> (\<forall>(k', e') \<in> set (iter_live_slots D s). en_lru_clock e \<le> en_lru_clock e')"
    using maybe_evict_spec [OF assms] by (elim exE conjE) (rule that)
  have "find_slot D s k = Some e" using k(1) live_slot_iff [OF assms(1,2)] by blast
  then have "st_memory (maybe_evict D s) = memory_sub (st_memory s) (entry_bytes D k e)"
    using entries_bytes_remove [OF finite_find_slot [OF assms(1)], of s k e D] k(2) assms(2)
    by (simp add: slot_op_def store_inv_def memory_sub_wrap)
  then show ?thesis using k by (auto simp: slot_op_def)
qed

theorem eviction_removes_one_witness:
  "let e = (\<lambda>n. \<lparr>en_value = IntVal 7 :: reference_object senko_value, en_expires_at = None, en_lru_clock = n\<rparr>);
       s = (store_new reference_store (Some 100) 0)\<lparr>st_primary := [([1], e 9), ([2], e 4)], st_memory := 146\<rparr>
   in find_slot reference_store (maybe_evict reference_store s) [2] = None"
proof -
  define e where "e = (\<lambda>n. \<lparr>en_value = IntVal 7 :: reference_object senko_value, en_expires_at = None, en_lru_clock = n\<rparr>)"
  define s where "s = (store_new reference_store (Some 100) 0)\<lparr>st_primary := [([1], e 9), ([2], e 4)], st_memory := 146\<rparr>"
  have all: "all_slots reference_store s = [([1], e 9), ([2], e 4)]"
    by (simp add: all_slots_def s_def store_new_def reference_store_def reference_buckets_def reference_table_def)
  have live: "iter_live_slots reference_store s = [([1], e 9), ([2], e 4)]"
    by (simp add: iter_live_slots_def all) (simp add: e_def is_expired_def)
  have "store_inv reference_store s"
    using sum_list_map_of [of "all_slots reference_store s" "entry_bytes reference_store"] all
    by (simp add: store_inv_def find_slot_map_of [OF reference_store_laws] entries_bytes_def)
      (simp add: s_def e_def store_new_def reference_store_def reference_buckets_def reference_table_def wrap64_def
         resize_map_def entry_bytes_def value_bytes_def)
  moreover have "should_evict (st_memory s) (st_max_memory s)"
    by (simp add: s_def store_new_def should_evict_def sat_mul64_def)
  ultimately obtain k e' where k: "(k, e') \<in> set (iter_live_slots reference_store s)"
      "find_slot reference_store (maybe_evict reference_store s) = (find_slot reference_store s)(k := None)"
      "\<forall>(k', e'') \<in> set (iter_live_slots reference_store s). en_lru_clock e' \<le> en_lru_clock e''"
    using eviction_removes_one [OF reference_store_laws, of s] live by auto
  then have "k = [2]" using live by (auto simp: e_def)
  then show ?thesis using k(2) by (simp add: s_def e_def Let_def)
qed

text \<open>Active expiry can miss a key. The wheel fires a key at the tick before its deadline and drops
  it, but the key is removed only if its deadline has passed: when the wheel is advanced between that
  tick and the deadline, no later advance removes the key, however late, and its memory is not given
  back until the key itself is accessed.\<close>

theorem active_expiry_misses:
  assumes "store_laws D" and "good D s" and "wheel_inv (st_expiry_wheel s)" and "st_clock_ms s \<le> t"
    and "find_slot D s k = Some e" and "en_expires_at e = Some d"
    and "pending (st_expiry_wheel s) = {#(align_tick d, k)#}"
    and "align_tick d \<le> align_tick t" and "t < d" and "d \<le> t'" and "t' \<le> time_limit"
  shows "\<exists>s' s''. advance_expiry_wheel D s t = Some (0, s') \<and> advance_expiry_wheel D s' t' = Some (0, s'') \<and>
           find_slot D s'' k = Some e \<and> is_expired (en_expires_at e) t'"
proof -
  have lim: "t \<le> time_limit" and tt: "t \<le> t'" using assms by simp_all
  obtain fired w where w0: "advance (st_expiry_wheel s) t = (fired, w)" "wheel_inv w"
      "mset fired = image_mset snd (filter_mset (\<lambda>p. fst p \<le> align_tick t) (pending (st_expiry_wheel s)))"
      "pending w = filter_mset (\<lambda>p. align_tick t < fst p) (pending (st_expiry_wheel s))"
    using advance_spec [OF assms(3) lim] .
  then have w: "fired = [k]" "pending w = {#}" using assms(7,8) by simp_all
  obtain s2 where s2: "advance_expiry_wheel D s t = Some (expire_keys D s2 [k])" "st_expiry_wheel s2 = w" "good D s2"
      "find_slot D s2 = find_slot D s" "st_clock_ms s2 = t"
    using advance_unfold [OF assms(1,2,4) lim] w0(1) w(1) by (metis prod.inject)
  have e: "expire_keys D s2 [k] = (0, s2)"
    using s2(4,5) assms(5,6,9) by (simp add: remove_if_expired_def is_expired_def)
  obtain f' w' where w': "advance w t' = (f', w')"
      "mset f' = image_mset snd (filter_mset (\<lambda>p. fst p \<le> align_tick t') (pending w))"
    using advance_spec [OF w0(2) assms(11)] .
  then have "f' = []" using w(2) by simp
  obtain s4 where s4: "advance_expiry_wheel D s2 t' = Some (expire_keys D s4 [])" "find_slot D s4 = find_slot D s2"
  proof -
    have "st_clock_ms s2 \<le> t'" using s2(5) tt by simp
    from advance_unfold [OF assms(1) s2(3) this assms(11)] show thesis
      using that s2(2) w'(1) \<open>f' = []\<close> by (metis prod.inject)
  qed
  have "find_slot D s4 k = Some e" unfolding s4(2) s2(4) by (rule assms(5))
  moreover have "advance_expiry_wheel D s t = Some (0, s2)" using s2(1) unfolding e .
  moreover have "advance_expiry_wheel D s2 t' = Some (0, s4)" using s4(1) unfolding expire_keys.simps(1) .
  moreover have "is_expired (en_expires_at e) t'" using assms(6,10) by (simp add: is_expired_def)
  ultimately show ?thesis by (intro exI conjI)
qed

theorem active_expiry_misses_witness:
  "\<exists>s1 s2 s3 e. map_option snd (store_step reference_store (store_new reference_store None 0)
       (OSet [1] (Raw [7]) \<lparr>so_condition = Always, so_expiry = PxAt 150, so_get_old = False\<rparr> 0)) = Some s1 \<and>
     advance_expiry_wheel reference_store s1 120 = Some (0, s2) \<and>
     advance_expiry_wheel reference_store s2 1000000 = Some (0, s3) \<and> find_slot reference_store s3 [1] = Some e \<and>
     is_expired (en_expires_at e) 1000000"
proof -
  let ?op = "OSet [1] (Raw [7]) \<lparr>so_condition = Always, so_expiry = PxAt 150, so_get_old = False\<rparr> 0
    :: ((bytes \<times> unit hash_field) list, unit) store_op"
  define e where "e = \<lparr>en_value = Raw [7] :: reference_object senko_value, en_expires_at = Some 150, en_lru_clock = 0\<rparr>"
  define w where "w = schedule (wheel_new 0) ([1] :: bytes) 150"
  obtain s1 where s1: "store_step reference_store (store_new reference_store None 0) ?op
      = Some (RSet \<lparr>sr_applied = True, sr_old_value = None\<rparr>, s1)"
    and f: "find_slot reference_store s1 [1] = Some e" "st_expiry_wheel s1 = w"
    by (simp add: w_def e_def store_set_def begin_op_def incremental_rehash_step_def rehash_loop.simps finish_resize_def
        store_new_def remove_if_expired_def find_slot_def condition_matches_def expiry_from_option_def
        insert_or_replace_def maybe_start_resize_def maybe_evict_def should_evict_def reference_store_def
        reference_buckets_def reference_table_def Let_def update_expiry_def tombstone_def schedule_key_def lru_clock_def)
  have "store_op_ok (0, Map.empty) ?op"
    by (simp add: store_op_ok_def plain_value_def has_field_ttl_def value_hash_def)
  then have "ends_with reference_store 0 s1 (snd (snd (keyspace_step (sd_values reference_store) (0, Map.empty) ?op)))"
    using shard.step [OF store_rep_new [OF reference_store_laws, of 0], of ?op] s1
    by (simp add: store_rep_def del: store_step.simps)
  then have g: "good reference_store s1" "st_clock_ms s1 \<le> 120" by (auto simp: ends_with_def)
  have "fire_tick 0 150 = align_tick 150"
    by (simp add: fire_tick_def normalize_deadline_def align_tick_def)
  then have "wheel_inv w" "pending w = {#(align_tick 150, [1])#}"
    using schedule_spec [of "wheel_new 0 :: bytes wheel" "[1]" 150] wheel_new_inv [of 0, where ?'e = bytes]
    by (simp_all add: w_def) (simp_all add: wheel_new_def align_tick_def)
  then show ?thesis
    using active_expiry_misses [OF reference_store_laws g(1) _ g(2) f(1), of 150 1000000] f s1
    by (auto simp: e_def align_tick_def simp del: store_step.simps)
qed

text \<open>The accessors of lists, sets, streams and sorted sets. A read hands out the container visible at
  the key if it has the right kind, but never an empty one, and removes an empty one. The accessor that
  creates never fails: it hands out the container that is there or stores an empty one with no deadline,
  and then it replaces a visible value of any other kind.\<close>

theorem container_accessors:
  assumes "store_laws D" and "good D s" and "st_clock_ms s \<le> now"
  shows "(fst (get_object D kind s k now) = container_at D kind (visible D now s k) \<and>
          visible D now (snd (get_object D kind s k now)) =
            (if container_empty D kind (visible D now s k) then (visible D now s)(k := None) else visible D now s)) \<and>
         (\<exists>x s'. get_or_create_object D kind s k now = Some (x, s') \<and>
           (case Option.bind (visible D now s k) (\<lambda>p. value_object kind (fst p)) of
              Some y \<Rightarrow> x = y \<and> visible D now s' = visible D now s
            | None \<Rightarrow> x = sd_default D kind \<and> visible D now s' = (visible D now s)(k \<mapsto> (Obj kind (OtherObj x), None))))"
  using get_object_spec [OF assms, of kind k] get_or_create_object_spec [OF assms(1,2), of kind k now]
  by (auto simp: ends_with_def split: option.splits)

theorem container_accessors_witness:
  "fst (get_list reference_store (store_new reference_store None 0) [1] 5) = None \<and>
   (\<exists>s'. get_or_create_list reference_store (store_new reference_store None 0) [1] 5 = Some ((), s') \<and>
      visible reference_store 5 s' [1] = Some (Obj ListKind (OtherObj ()), None))"
proof -
  let ?s = "store_new reference_store None 0"
  have g: "good reference_store ?s" "st_clock_ms ?s \<le> 5" "visible reference_store 0 ?s = Map.empty"
    using store_rep_new [OF reference_store_laws, of 0] by (auto simp: store_rep_def ends_with_def)
  then have "visible reference_store 5 ?s = Map.empty"
    using visible_later [of 0 5 reference_store ?s] by (simp add: purge_def)
  then show ?thesis
    using container_accessors [OF reference_store_laws g(1,2), of ListKind "[1]"]
    by (auto simp: get_list_def get_or_create_list_def container_at_def)
qed

end
