(* ===== verification/Command.thy ===== *)
theory Command
  imports RespProtocol Store
begin

text \<open>
  What the command handlers of senko-store/src/commands share: errors, replies, the reading of
  arguments, and the interface through which handlers use the store. A handler maps a state to its
  result, an error or a reply, and the new state; \<open>None\<close> is a panic. The state is the store, or the
  keyspace that specifies it: handlers take the operations of the store as the record \<open>store_api\<close>. The
  clock is read once for a command. The locale \<open>store_client\<close> is the contract between the two.
\<close>

section \<open>Errors and replies\<close>

text \<open>The constructors of \<open>SenkoError\<close> the handlers use.\<close>

datatype senko_error = Protocol bytes | ProtocolMessage bytes | WrongType bytes bytes

datatype 'v response =
    Simple bytes
  | RespValue "'v option"
  | NullArray
  | RespInteger int
  | RespArray "'v response list"
  | RespMap "'v response list"

definition OK :: bytes where "OK = ascii ''OK''"

definition wrong_number :: "string \<Rightarrow> senko_error" where
  "wrong_number name = Protocol (ascii (''wrong number of arguments for '' @ [CHR 0x27] @ name @ [CHR 0x27] @ '' command''))"

definition syntax_error :: senko_error where
  "syntax_error = Protocol (ascii ''syntax error'')"

section \<open>Arguments\<close>

definition frame_type_name :: "frame \<Rightarrow> bytes" where
  "frame_type_name f = ascii (case f of
      SimpleString _ \<Rightarrow> ''simple-string'' | SimpleError _ \<Rightarrow> ''simple-error'' | Integer _ \<Rightarrow> ''integer''
    | BulkString _ \<Rightarrow> ''bulk-string'' | Array _ \<Rightarrow> ''array'' | Null \<Rightarrow> ''null'' | Boolean _ \<Rightarrow> ''boolean''
    | Double _ \<Rightarrow> ''double'' | BigNumber _ \<Rightarrow> ''big-number'' | BlobError _ \<Rightarrow> ''blob-error''
    | VerbatimString _ _ \<Rightarrow> ''verbatim-string'' | Map _ \<Rightarrow> ''map'' | Set _ \<Rightarrow> ''set'' | Push _ \<Rightarrow> ''push'')"

definition arg_bytes :: "frame \<Rightarrow> senko_error + bytes" where
  "arg_bytes f = (case f of
      BulkString bs \<Rightarrow> Inr bs
    | SimpleString bs \<Rightarrow> Inr bs
    | VerbatimString _ payload \<Rightarrow> Inr payload
    | _ \<Rightarrow> Inl (WrongType (ascii ''string'') (frame_type_name f)))"

definition parse_key :: "bytes \<Rightarrow> senko_error + bytes" where
  "parse_key raw = (if utf8_valid raw then Inr raw else Inl (Protocol (ascii ''invalid UTF-8 key'')))"

definition parse_positive_u64 :: "bytes \<Rightarrow> string \<Rightarrow> senko_error + nat" where
  "parse_positive_u64 raw cmd =
     (case (if utf8_valid raw then parse_unsigned u64_max raw else None) of
        Some v \<Rightarrow> if v > 0 then Inr v
                  else Inl (ProtocolMessage (ascii (''invalid expire time in '' @ [CHR 0x27] @ cmd @ [CHR 0x27] @ '' command'')))
      | None \<Rightarrow> Inl (ProtocolMessage (ascii (''invalid expire time in '' @ [CHR 0x27] @ cmd @ [CHR 0x27] @ '' command''))))"

definition lower_ascii :: "byte \<Rightarrow> byte" where
  "lower_ascii b = (if 65 \<le> b \<and> b \<le> 90 then b + 32 else b)"

text \<open>\<open>eq_ignore_ascii_case\<close>.\<close>

definition is_opt :: "bytes \<Rightarrow> string \<Rightarrow> bool" where
  "is_opt input expected_upper \<longleftrightarrow> map lower_ascii input = map lower_ascii (ascii expected_upper)"

definition string_value :: "'o senko_value \<Rightarrow> bool" where
  "string_value v \<longleftrightarrow> (case v of Obj _ _ \<Rightarrow> False | _ \<Rightarrow> True)"

definition ensure_string_value :: "'o senko_value \<Rightarrow> senko_error + unit" where
  "ensure_string_value v =
     (if string_value v then Inr () else Inl (WrongType (ascii ''string'') (value_type_name v)))"

section \<open>Handlers\<close>

type_synonym ('s, 'a) handler = "'s \<Rightarrow> ((senko_error + 'a) \<times> 's) option"

definition give :: "'a \<Rightarrow> ('s, 'a) handler" where
  "give x = (\<lambda>s. Some (Inr x, s))"

definition fail :: "senko_error \<Rightarrow> ('s, 'a) handler" where
  "fail e = (\<lambda>s. Some (Inl e, s))"

definition panic :: "('s, 'a) handler" where
  "panic = (\<lambda>s. None)"

text \<open>The operator \<open>?\<close> on a result that does not depend on the state.\<close>

definition try_in :: "senko_error + 'a \<Rightarrow> ('a \<Rightarrow> ('s, 'b) handler) \<Rightarrow> ('s, 'b) handler" where
  "try_in r f = (case r of Inl e \<Rightarrow> fail e | Inr x \<Rightarrow> f x)"

text \<open>A call of the store, and the sequence of two handlers with an early return on errors.\<close>

definition call :: "('s \<Rightarrow> ('a \<times> 's) option) \<Rightarrow> ('a \<Rightarrow> ('s, 'b) handler) \<Rightarrow> ('s, 'b) handler" where
  "call g f = (\<lambda>s. case g s of None \<Rightarrow> None | Some (x, s') \<Rightarrow> f x s')"

definition and_then :: "('s, 'a) handler \<Rightarrow> ('a \<Rightarrow> ('s, 'b) handler) \<Rightarrow> ('s, 'b) handler" where
  "and_then c f = (\<lambda>s. case c s of
      None \<Rightarrow> None
    | Some (Inl e, s') \<Rightarrow> Some (Inl e, s')
    | Some (Inr x, s') \<Rightarrow> f x s')"

definition attempt :: "'e + 'a \<Rightarrow> ('a \<Rightarrow> 'e + 'b) \<Rightarrow> 'e + 'b" where
  "attempt r f = (case r of Inl e \<Rightarrow> Inl e | Inr x \<Rightarrow> f x)"

section \<open>The store as handlers see it\<close>

record ('s, 'v) store_api =
  api_get :: "bytes \<Rightarrow> nat \<Rightarrow> 's \<Rightarrow> ('v senko_value option \<times> 's) option"
  api_set :: "bytes \<Rightarrow> 'v senko_value \<Rightarrow> set_options \<Rightarrow> nat \<Rightarrow> 's \<Rightarrow> ('v set_result \<times> 's) option"
  api_delete :: "bytes \<Rightarrow> nat \<Rightarrow> 's \<Rightarrow> (bool \<times> 's) option"
  api_set_expiry :: "bytes \<Rightarrow> nat \<Rightarrow> nat \<Rightarrow> 's \<Rightarrow> (unit \<times> 's) option"
  api_remove_expiry :: "bytes \<Rightarrow> nat \<Rightarrow> 's \<Rightarrow> (unit \<times> 's) option"

definition shard_api :: "('t, 'h, 'x, 'f) store_deps \<Rightarrow> ('t store, ('h, 'x) object) store_api" where
  "shard_api D = \<lparr>
     api_get = (\<lambda>k now s. Some (store_get D s k now)),
     api_set = (\<lambda>k v opts now s. store_set D s k v opts now),
     api_delete = (\<lambda>k now s. store_delete D s k now),
     api_set_expiry = (\<lambda>k d now s. map_option (Pair ()) (store_set_expiry D s k d now)),
     api_remove_expiry = (\<lambda>k now s. map_option (Pair ()) (remove_expiry D s k now))\<rparr>"

definition no_options :: set_options where
  "no_options = \<lparr>so_condition = Always, so_expiry = NoExpiry, so_get_old = False\<rparr>"

section \<open>The same interface on a map with deadlines\<close>

definition map_api :: "'v value_deps \<Rightarrow> ('v senko_value keyspace, 'v) store_api" where
  "map_api V = \<lparr>
     api_get = (\<lambda>k now m. Some (map_option fst (m k), m)),
     api_set = (\<lambda>k v opts now m.
       let applied = condition_holds V (so_condition opts) (m k)
       in Some (\<lparr>sr_applied = applied, sr_old_value = (if so_get_old opts then map_option fst (m k) else None)\<rparr>,
                if applied then purge now (m(k \<mapsto> (v, deadline_of (so_expiry opts) (m k) now))) else m)),
     api_delete = (\<lambda>k now m. Some (m k \<noteq> None, m(k := None))),
     api_set_expiry = (\<lambda>k d now m. Some ((), case m k of None \<Rightarrow> m | Some (v, _) \<Rightarrow> purge now (m(k \<mapsto> (v, Some d))))),
     api_remove_expiry = (\<lambda>k now m. Some ((), case m k of None \<Rightarrow> m | Some (v, _) \<Rightarrow> m(k \<mapsto> (v, None))))\<rparr>"

text \<open>Two computations from related states end in related states with the same result.\<close>

definition related :: "('s \<Rightarrow> 'm \<Rightarrow> bool) \<Rightarrow> ('s \<Rightarrow> ('a \<times> 's) option) \<Rightarrow> ('m \<Rightarrow> ('a \<times> 'm) option) \<Rightarrow> bool" where
  "related R c c' \<longleftrightarrow> (\<forall>s m. R s m \<longrightarrow> (\<exists>x s' m'. c s = Some (x, s') \<and> c' m = Some (x, m') \<and> R s' m'))"

lemma relatedI: "(\<And>s m. R s m \<Longrightarrow> \<exists>x s' m'. c s = Some (x, s') \<and> c' m = Some (x, m') \<and> R s' m') \<Longrightarrow> related R c c'"
  by (simp add: related_def)

lemma relatedD: "related R c c' \<Longrightarrow> R s m \<Longrightarrow> \<exists>x s' m'. c s = Some (x, s') \<and> c' m = Some (x, m') \<and> R s' m'"
  by (simp add: related_def)

named_theorems related_intros

lemma related_give [related_intros]: "related R (give x) (give x)"
  by (auto simp: related_def give_def)

lemma related_fail [related_intros]: "related R (fail e) (fail e)"
  by (auto simp: related_def fail_def)

lemma related_try_in [related_intros]:
  "(\<And>x. r = Inr x \<Longrightarrow> related R (f x) (g x)) \<Longrightarrow> related R (try_in r f) (try_in r g)"
  by (cases r) (simp_all add: try_in_def related_fail)

lemma related_call: "related R c c' \<Longrightarrow> (\<And>x. related R (f x) (g x)) \<Longrightarrow> related R (call c f) (call c' g)"
  by (fastforce simp: related_def call_def)

lemma related_and_then [related_intros]:
  "related R c c' \<Longrightarrow> (\<And>x. related R (f x) (g x)) \<Longrightarrow> related R (and_then c f) (and_then c' g)"
proof (rule relatedI)
  fix s m assume c: "related R c c'" and f: "\<And>x. related R (f x) (g x)" and r: "R s m"
  obtain x s' m' where x: "c s = Some (x, s')" "c' m = Some (x, m')" "R s' m'" using relatedD [OF c r] by blast
  show "\<exists>x s' m'. and_then c f s = Some (x, s') \<and> and_then c' g m = Some (x, m') \<and> R s' m'"
    using x relatedD [OF f x(3)] by (cases x) (auto simp: and_then_def)
qed

lemma related_if [related_intros]:
  "(b \<Longrightarrow> related R c c') \<Longrightarrow> (\<not> b \<Longrightarrow> related R d d') \<Longrightarrow> related R (if b then c else d) (if b then c' else d')"
  by simp

lemma related_option [related_intros]:
  "(v = None \<Longrightarrow> related R c c') \<Longrightarrow> (\<And>x. v = Some x \<Longrightarrow> related R (f x) (g x)) \<Longrightarrow>
     related R (case v of None \<Rightarrow> c | Some x \<Rightarrow> f x) (case v of None \<Rightarrow> c' | Some x \<Rightarrow> g x)"
  by (cases v) simp_all

lemma related_list [related_intros]:
  "(v = [] \<Longrightarrow> related R c c') \<Longrightarrow> (\<And>x xs. v = x # xs \<Longrightarrow> related R (f x xs) (g x xs)) \<Longrightarrow>
     related R (case v of [] \<Rightarrow> c | x # xs \<Rightarrow> f x xs) (case v of [] \<Rightarrow> c' | x # xs \<Rightarrow> g x xs)"
  by (cases v) simp_all

lemma related_value [related_intros]:
  "(\<And>x. v = Raw x \<Longrightarrow> related R (a x) (a' x)) \<Longrightarrow> (\<And>x. v = IntVal x \<Longrightarrow> related R (b x) (b' x)) \<Longrightarrow>
   (\<And>x. v = FloatVal x \<Longrightarrow> related R (c x) (c' x)) \<Longrightarrow> (\<And>k x. v = Obj k x \<Longrightarrow> related R (d k x) (d' k x)) \<Longrightarrow>
     related R (case v of Raw x \<Rightarrow> a x | IntVal x \<Rightarrow> b x | FloatVal x \<Rightarrow> c x | Obj k x \<Rightarrow> d k x)
       (case v of Raw x \<Rightarrow> a' x | IntVal x \<Rightarrow> b' x | FloatVal x \<Rightarrow> c' x | Obj k x \<Rightarrow> d' k x)"
  by (cases v) simp_all

lemma related_let [related_intros]: "related R (f x) (g x) \<Longrightarrow> related R (let y = x in f y) (let y = x in g y)"
  by simp

text \<open>The contract: the five operations of two stores are related.\<close>

locale store_client =
  fixes A :: "('s, 'v) store_api" and B :: "('m, 'v) store_api" and R :: "'s \<Rightarrow> 'm \<Rightarrow> bool" and now :: nat
  assumes get_related: "related R (api_get A k now) (api_get B k now)"
    and set_related: "string_value v \<Longrightarrow> related R (api_set A k v opts now) (api_set B k v opts now)"
    and delete_related: "related R (api_delete A k now) (api_delete B k now)"
    and set_expiry_related: "related R (api_set_expiry A k d now) (api_set_expiry B k d now)"
    and remove_expiry_related: "related R (api_remove_expiry A k now) (api_remove_expiry B k now)"
begin

lemma call_get: "(\<And>x. related R (f x) (g x)) \<Longrightarrow> related R (call (api_get A k now) f) (call (api_get B k now) g)"
  by (rule related_call [OF get_related])

lemma call_set: "string_value v \<Longrightarrow> (\<And>x. related R (f x) (g x)) \<Longrightarrow>
    related R (call (api_set A k v opts now) f) (call (api_set B k v opts now) g)"
  by (rule related_call [OF set_related])

lemma call_delete: "(\<And>x. related R (f x) (g x)) \<Longrightarrow> related R (call (api_delete A k now) f) (call (api_delete B k now) g)"
  by (rule related_call [OF delete_related])

lemma call_set_expiry: "(\<And>x. related R (f x) (g x)) \<Longrightarrow>
    related R (call (api_set_expiry A k d now) f) (call (api_set_expiry B k d now) g)"
  by (rule related_call [OF set_expiry_related])

lemma call_remove_expiry: "(\<And>x. related R (f x) (g x)) \<Longrightarrow>
    related R (call (api_remove_expiry A k now) f) (call (api_remove_expiry B k now) g)"
  by (rule related_call [OF remove_expiry_related])

lemmas calls = call_get call_set call_delete call_set_expiry call_remove_expiry

end

lemma string_value_plain: "string_value v \<Longrightarrow> plain_value v"
  by (cases v) (simp_all add: string_value_def plain_value_def has_field_ttl_def value_hash_def)

lemma purged_set_None:
  "purge now m = m \<Longrightarrow> m k = Some (v, d) \<Longrightarrow> purge now (m(k \<mapsto> (v, None))) = m(k \<mapsto> (v, None))"
  by (auto simp: purge_def is_expired_def fun_eq_iff split: option.splits if_splits)

lemma purged_delete: "purge now m = m \<Longrightarrow> purge now (m(k := None)) = m(k := None)"
  by (auto simp: purge_def fun_eq_iff split: option.splits)

text \<open>The shard and the map are related by what is visible at the time of the command.\<close>

lemma shard_client:
  assumes D: "store_laws D" and lim: "now \<le> time_limit"
  shows "store_client (shard_api D) (map_api (sd_values D)) (ends_with D now) now"
proof -
  have step: "\<exists>s'. store_step D s op = Some (fst (keyspace_op (sd_values D) m op), s') \<and>
      ends_with D now s' (purge now (snd (keyspace_op (sd_values D) m op)))"
    if "ends_with D now s m" "op_time op = now" "case op_value op of None \<Rightarrow> True | Some v \<Rightarrow> plain_value v" for s m op
    using store_step_spec [OF D, of s op] that lim by (auto simp: ends_with_def)
  have pm: "purge now m = m" if "ends_with D now s m" for s m using that by (auto simp: ends_with_def visible_purged)
  show ?thesis
  proof (unfold_locales; rule relatedI)
    fix s m k assume r: "ends_with D now s m"
    show "\<exists>x s' m'. api_get (shard_api D) k now s = Some (x, s') \<and> api_get (map_api (sd_values D)) k now m = Some (x, m') \<and> ends_with D now s' m'"
      using step [OF r, of "OGet k now"] pm [OF r] by (cases "store_get D s k now") (auto simp: shard_api_def map_api_def)
    show "\<exists>x s' m'. api_delete (shard_api D) k now s = Some (x, s') \<and> api_delete (map_api (sd_values D)) k now m = Some (x, m') \<and> ends_with D now s' m'"
      using step [OF r, of "ODelete k now"] purged_delete [OF pm [OF r], of k] by (auto simp: shard_api_def map_api_def)
    show "\<exists>x s' m'. api_remove_expiry (shard_api D) k now s = Some (x, s') \<and> api_remove_expiry (map_api (sd_values D)) k now m = Some (x, m') \<and> ends_with D now s' m'"
      using step [OF r, of "ORemoveExpiry k now"] pm [OF r] purged_set_None [OF pm [OF r]]
      by (auto simp: shard_api_def map_api_def split: option.splits)
    show "\<exists>x s' m'. api_set_expiry (shard_api D) k d now s = Some (x, s') \<and> api_set_expiry (map_api (sd_values D)) k d now m = Some (x, m') \<and> ends_with D now s' m'" for d
      using step [OF r, of "OSetExpiry k d now"] pm [OF r] by (auto simp: shard_api_def map_api_def split: option.splits)
    show "\<exists>x s' m'. api_set (shard_api D) k v opts now s = Some (x, s') \<and> api_set (map_api (sd_values D)) k v opts now m = Some (x, m') \<and> ends_with D now s' m'"
      if "string_value v" for v opts
      using step [OF r, of "OSet k v opts now"] pm [OF r] string_value_plain [OF that] by (auto simp: shard_api_def map_api_def Let_def split: if_splits)
  qed
qed


interpretation shard_map: store_client "shard_api reference_store" "map_api (sd_values reference_store)" "ends_with reference_store 0" 0
  by (rule shard_client [OF reference_store_laws]) simp

end
