(* ===== verification/Arithmetic.thy ===== *)
theory Arithmetic
  imports Command
begin

text \<open>
  Reading and printing numbers, senko-store/src/arithmetic.rs: the parser of 64-bit integers, which
  checks eight digits at a time in a machine word and falls back on the standard parser, the printer of
  doubles without an exponent, and the conversions of values to numbers with their errors. The float
  parser of the crate fast_float and the shortest float printer of the crate ryu are parameters. The
  section after the definitions shows what the integer parser accepts.
\<close>

record arith_deps =
  fast_float_parse :: "bytes \<Rightarrow> f64 option"
  ryu_format_finite :: "f64 \<Rightarrow> bytes"

definition integer_range_error :: senko_error where
  "integer_range_error = ProtocolMessage (ascii ''ERR value is not an integer or out of range'')"

definition overflow_error :: senko_error where
  "overflow_error = ProtocolMessage (ascii ''ERR increment or decrement would overflow'')"

definition float_value_error :: senko_error where
  "float_value_error = ProtocolMessage (ascii ''ERR value is not a valid float'')"

definition float_nan_inf_error :: senko_error where
  "float_nan_inf_error = ProtocolMessage (ascii ''ERR increment would produce NaN or Infinity'')"

section \<open>Integers\<close>

definition DIGIT_ZERO_MASK :: "64 word" where "DIGIT_ZERO_MASK = 0x3030303030303030"
definition DIGIT_NINE_MASK :: "64 word" where "DIGIT_NINE_MASK = 0x3939393939393939"

unbundle bit_operations_syntax

text \<open>Eight digits are checked with two subtractions in a word, the rest one by one.\<close>

definition block_has_non_digit :: "bytes \<Rightarrow> bool" where
  "block_has_non_digit block =
     (let w = of_nat (le_val block) :: 64 word;
          below_zero = w - DIGIT_ZERO_MASK;
          above_nine = DIGIT_NINE_MASK - w
      in ((below_zero OR above_nine) AND 0x8080808080808080) \<noteq> 0)"

function all_digits_swar :: "bytes \<Rightarrow> bool" where
  "all_digits_swar digits =
     (if 8 \<le> length digits then
        if block_has_non_digit (take 8 digits) then False else all_digits_swar (drop 8 digits)
      else list_all is_digit digits)"
  by auto

termination
  by (relation "measure length") auto

declare all_digits_swar.simps [simp del]

fun digits_fold :: "int \<Rightarrow> bytes \<Rightarrow> int" where
  "digits_fold acc [] = acc"
| "digits_fold acc (b # bs) = digits_fold (acc * 10 + int (unat b - 48)) bs"

text \<open>The accumulator is an \<open>i128\<close>, which 19 digits do not overflow; \<open>acc as i64\<close> keeps the low 64 bits.\<close>

definition as_i64_of_int :: "int \<Rightarrow> int" where
  "as_i64_of_int n = sint (of_int n :: 64 word)"

definition parse_i64_swar :: "bytes \<Rightarrow> int option" where
  "parse_i64_swar input =
     (case input of
        [] \<Rightarrow> None
      | b # bs \<Rightarrow>
          (let (negative, digits) = (if b = MINUS then (True, bs) else if b = PLUS then (False, bs) else (False, input))
           in if digits = [] \<or> length digits > 19 \<or> \<not> all_digits_swar digits then None
              else let acc = digits_fold 0 digits
                   in if negative then if acc = i64_max + 1 then Some i64_min else Some (- as_i64_of_int acc)
                      else if acc \<le> i64_max then Some (as_i64_of_int acc) else None))"

definition checked_neg :: "int \<Rightarrow> int option" where
  "checked_neg n = (if n = i64_min then None else Some (- n))"

definition parse_i64_fallback :: "bytes \<Rightarrow> int option" where
  "parse_i64_fallback input =
     (if \<not> utf8_valid input then None
      else case input of
             [] \<Rightarrow> parse_signed i64_min i64_max input
           | b # rest \<Rightarrow>
               if b = MINUS then (case parse_signed i64_min i64_max rest of None \<Rightarrow> None | Some mag \<Rightarrow> checked_neg mag)
               else if b = PLUS then parse_signed i64_min i64_max rest
               else parse_signed i64_min i64_max input)"

definition parse_i64_fast :: "bytes \<Rightarrow> int option" where
  "parse_i64_fast input = (case parse_i64_swar input of Some v \<Rightarrow> Some v | None \<Rightarrow> parse_i64_fallback input)"

definition checked_add_i64 :: "int \<Rightarrow> int \<Rightarrow> senko_error + int" where
  "checked_add_i64 base delta = (if in_i64 (base + delta) then Inr (base + delta) else Inl overflow_error)"

definition checked_sub_i64 :: "int \<Rightarrow> int \<Rightarrow> senko_error + int" where
  "checked_sub_i64 base delta = (if in_i64 (base - delta) then Inr (base - delta) else Inl overflow_error)"

definition value_as_i64 :: "'o senko_value \<Rightarrow> senko_error + int" where
  "value_as_i64 v = (case v of
      IntVal n \<Rightarrow> Inr n
    | Raw raw \<Rightarrow> (case parse_i64_fast raw of Some n \<Rightarrow> Inr n | None \<Rightarrow> Inl integer_range_error)
    | _ \<Rightarrow> Inl integer_range_error)"

section \<open>Floats\<close>

definition f64_finite :: "f64 \<Rightarrow> bool" where
  "f64_finite x \<longleftrightarrow> f64_magnitude x < f64_inf_bits"

definition parse_f64 :: "arith_deps \<Rightarrow> bytes \<Rightarrow> f64 option" where
  "parse_f64 F input = fast_float_parse F input"

definition value_as_f64 :: "arith_deps \<Rightarrow> 'o senko_value \<Rightarrow> senko_error + f64" where
  "value_as_f64 F v = (case v of
      IntVal n \<Rightarrow> Inr (f64_of_int n)
    | FloatVal x \<Rightarrow> Inr x
    | Raw raw \<Rightarrow> (case parse_f64 F raw of Some x \<Rightarrow> Inr x | None \<Rightarrow> Inl float_value_error)
    | _ \<Rightarrow> Inl float_value_error)"

abbreviation "DOT \<equiv> (46 :: byte)"
abbreviation "ZERO \<equiv> (48 :: byte)"

text \<open>Digits of a mantissa, and how many of them follow the point.\<close>

definition mantissa_digits :: "bytes \<Rightarrow> bytes \<times> nat" where
  "mantissa_digits mantissa =
     (filter (\<lambda>b. b \<noteq> DOT) mantissa, length (filter (\<lambda>b. b \<noteq> DOT) (dropWhile (\<lambda>b. b \<noteq> DOT) mantissa)))"

fun drop_last_while :: "(byte \<Rightarrow> bool) \<Rightarrow> bytes \<Rightarrow> bytes" where
  "drop_last_while p bs = rev (dropWhile p (rev bs))"

definition trim_fraction :: "bytes \<Rightarrow> bytes" where
  "trim_fraction out =
     (if DOT \<in> set out then
        let out = drop_last_while (\<lambda>b. b = ZERO) out
        in if out \<noteq> [] \<and> last out = DOT then butlast out else out
      else out)"

definition place_point :: "bytes \<Rightarrow> int \<Rightarrow> bytes" where
  "place_point digits decimal_pos =
     (if decimal_pos \<le> 0 then [ZERO, DOT] @ replicate (nat (- decimal_pos)) ZERO @ digits
      else if length digits \<le> nat decimal_pos then digits @ replicate (nat decimal_pos - length digits) ZERO
      else take (nat decimal_pos) digits @ [DOT] @ drop (nat decimal_pos) digits)"

definition format_f64_no_scientific :: "arith_deps \<Rightarrow> f64 \<Rightarrow> bytes" where
  "format_f64_no_scientific F x =
     (let bs = ryu_format_finite F x in
      if \<not> (\<exists>b \<in> set bs. b = 101 \<or> b = 69) then bs
      else
        let exp_pos = (case position (\<lambda>b. b = 101 \<or> b = 69) bs of Some i \<Rightarrow> i | None \<Rightarrow> length bs);
            mantissa = take exp_pos bs;
            exponent_text = drop (exp_pos + 1) bs;
            exponent = (case (if utf8_valid exponent_text then parse_signed (- 2147483648) 2147483647 exponent_text else None) of
                          Some e \<Rightarrow> e | None \<Rightarrow> 0);
            negative = (mantissa \<noteq> [] \<and> hd mantissa = MINUS);
            mantissa = (if negative \<or> (mantissa \<noteq> [] \<and> hd mantissa = PLUS) then tl mantissa else mantissa);
            (digits, frac_digits) = mantissa_digits mantissa
        in if list_all (\<lambda>b. b = ZERO) digits then [ZERO]
           else let out = trim_fraction (place_point digits (int (length digits) - int frac_digits + exponent))
                in if negative then MINUS # out else out)"

section \<open>Eight digits at a time\<close>

text \<open>Some byte of the low \<open>n\<close> bytes of a number has its high bit set.\<close>

definition high_bit :: "nat \<Rightarrow> int \<Rightarrow> bool" where
  "high_bit n x \<longleftrightarrow> (\<exists>i < n. bit x (8 * i + 7))"

fun ones :: "nat \<Rightarrow> int" where
  "ones 0 = 0"
| "ones (Suc n) = 1 + 256 * ones n"

lemma bit_shift_byte: "bit ((r :: int) + 256 * y) (8 + k) = bit y k" if "0 \<le> r" "r < 256"
proof -
  have "drop_bit 8 (r + 256 * y) = y" using that by (simp add: drop_bit_eq_div)
  moreover have "bit (drop_bit 8 (r + 256 * y)) k = bit (r + 256 * y) (8 + k)" by (simp add: bit_drop_bit_eq)
  ultimately show ?thesis by metis
qed

lemma bit_low_byte: "bit ((r :: int) + 256 * y) 7 = bit r 7"
proof -
  have "bit (r + 256 * y) 7 = bit (take_bit 8 (r + 256 * y)) 7" by (simp add: bit_take_bit_iff)
  also have "take_bit 8 (r + 256 * y) = take_bit 8 r" by (simp add: take_bit_eq_mod)
  finally show ?thesis by (simp add: bit_take_bit_iff)
qed

lemma high_bit_Suc:
  assumes "0 \<le> r" "r < 256"
  shows "high_bit (Suc n) (r + 256 * y) \<longleftrightarrow> bit r 7 \<or> high_bit n y"
proof -
  have "bit (r + 256 * y) (8 * Suc i + 7) = bit y (8 * i + 7)" for i
    using bit_shift_byte [OF assms, of y "8 * i + 7"] by (simp add: add.assoc)
  then show ?thesis unfolding high_bit_def Ex_less_Suc2 by (simp add: bit_low_byte del: mult_Suc_right)
qed

lemma high_bit_zero: "bit r 7 \<Longrightarrow> high_bit (Suc n) (r + 256 * y)"
  unfolding high_bit_def by (intro exI [of _ 0]) (simp add: bit_low_byte)

lemma bit_7_small: "0 \<le> (r :: int) \<Longrightarrow> r < 128 \<Longrightarrow> \<not> bit r 7"
  by (simp add: bit_iff_odd)

lemma bit_7_iff: "bit (r :: int) 7 \<longleftrightarrow> 128 \<le> r mod 256"
proof -
  have x: "0 \<le> r mod 256" "r mod 256 < 256" by simp_all
  have "bit r 7 \<longleftrightarrow> bit (take_bit 8 r) 7" by (simp add: bit_take_bit_iff)
  also have "take_bit 8 r = r mod 256" by (simp add: take_bit_eq_mod)
  also have "bit (r mod 256) 7 \<longleftrightarrow> 128 \<le> r mod 256"
  proof (cases "128 \<le> r mod 256")
    case True
    then have "r mod 256 div 128 = (r mod 256 - 128) div 128 + 1" using div_add_self2 [of 128 "r mod 256 - 128"] by simp
    then have "r mod 256 div 128 = 1" using x True by simp
    then show ?thesis using True by (simp add: bit_iff_odd)
  next
    case False
    then show ?thesis using x(1) bit_7_small [of "r mod 256"] by simp
  qed
  finally show ?thesis .
qed

lemma mod_256_shift: "- 256 \<le> (x :: int) \<Longrightarrow> x < 0 \<Longrightarrow> x mod 256 = x + 256"
  using mod_add_self2 [of x 256] by (simp del: mod_add_self2)

lemma is_digit_iff: "is_digit b \<longleftrightarrow> 48 \<le> unat b \<and> unat b \<le> 57"
  by (simp add: is_digit_def word_le_nat_alt)

lemma swar_block:
  "high_bit (length bs) (int (le_val bs) - 48 * ones (length bs)) \<or> high_bit (length bs) (57 * ones (length bs) - int (le_val bs)) \<longleftrightarrow>
     \<not> list_all is_digit bs"
proof (induction bs)
  case (Cons b bs)
  define n where "n = unat b"
  have n: "n < 256" "is_digit b \<longleftrightarrow> 48 \<le> n \<and> n \<le> 57" using unsigned_less [of b] by (simp_all add: n_def is_digit_iff)
  let ?w = "int (le_val bs)" and ?o = "ones (length bs)"
  have below: "int (le_val (b # bs)) - 48 * ones (length (b # bs)) = (int n - 48) + 256 * (?w - 48 * ?o)"
    and above: "57 * ones (length (b # bs)) - int (le_val (b # bs)) = (57 - int n) + 256 * (57 * ?o - ?w)" by (simp_all add: n_def)
  have "high_bit (Suc (length bs)) ((int n - 48) + 256 * (?w - 48 * ?o)) \<or> high_bit (Suc (length bs)) ((57 - int n) + 256 * (57 * ?o - ?w)) \<longleftrightarrow>
      \<not> list_all is_digit (b # bs)"
  proof (cases "is_digit b")
    case True
    then have "0 \<le> int n - 48" "int n - 48 < 128" "0 \<le> 57 - int n" "57 - int n < 128" using n(2) by auto
    then have "high_bit (Suc (length bs)) ((int n - 48) + 256 * x) = high_bit (length bs) x"
      "high_bit (Suc (length bs)) ((57 - int n) + 256 * x) = high_bit (length bs) x" for x
      using high_bit_Suc [of "int n - 48" "length bs" x] high_bit_Suc [of "57 - int n" "length bs" x]
        bit_7_small [of "int n - 48"] bit_7_small [of "57 - int n"] by simp_all
    then show ?thesis using Cons.IH True by (simp only: list.pred_inject) simp
  next
    case False
    then consider "n < 48" | "58 \<le> n" "n < 176" | "176 \<le> n" using n(2) by linarith
    then have "128 \<le> (int n - 48) mod 256 \<or> 128 \<le> (57 - int n) mod 256"
      by cases (use n(1) mod_256_shift [of "int n - 48"] mod_256_shift [of "57 - int n"] in auto)
    then show ?thesis using False high_bit_zero bit_7_iff by (metis list.pred_inject(2))
  qed
  then show ?case unfolding below above by simp
qed (simp add: high_bit_def)

lemma high_bit_word:
  "(of_int x AND 0x8080808080808080 :: 64 word) = 0 \<longleftrightarrow> \<not> high_bit 8 x"
proof -
  have mask: "bit (0x8080808080808080 :: 64 word) n \<longleftrightarrow> (\<exists>i < 8. n = 8 * i + 7)" for n
  proof (cases "n < 64")
    case True
    then have "n \<in> set [0..<64]" by simp
    moreover have "\<forall>n \<in> set [0..<64]. bit (0x8080808080808080 :: 64 word) n = (n mod 8 = 7)" by code_simp
    moreover have "n mod 8 = 7 \<longleftrightarrow> (\<exists>i < 8. n = 8 * i + 7)"
    proof
      assume "n mod 8 = 7"
      then have "n = 8 * (n div 8) + 7" using mult_div_mod_eq [of 8 n] by linarith
      then show "\<exists>i < 8. n = 8 * i + 7" using True by (intro exI [of _ "n div 8"]) linarith
    qed auto
    ultimately show ?thesis by blast
  next
    case False
    then show ?thesis using bit_imp_le_length [of "0x8080808080808080 :: 64 word" n] by auto
  qed
  have "(of_int x AND 0x8080808080808080 :: 64 word) = 0 \<longleftrightarrow> (\<forall>n. \<not> (bit (of_int x :: 64 word) n \<and> bit (0x8080808080808080 :: 64 word) n))"
    by (simp add: bit_eq_iff bit_and_iff)
  also have "\<dots> \<longleftrightarrow> (\<forall>i < 8. \<not> bit (of_int x :: 64 word) (8 * i + 7))" unfolding mask by blast
  also have "\<dots> \<longleftrightarrow> (\<forall>i < 8. \<not> bit x (8 * i + 7))" by (auto simp: bit_of_int_iff)
  finally show ?thesis by (simp add: high_bit_def)
qed

lemma block_has_non_digit_iff: "length block = 8 \<Longrightarrow> block_has_non_digit block \<longleftrightarrow> \<not> list_all is_digit block"
proof -
  assume len: "length block = 8"
  let ?w = "of_nat (le_val block) :: 64 word"
  have ones: "48 * ones 8 = 0x3030303030303030" "57 * ones 8 = 0x3939393939393939" by (simp_all add: numeral_eq_Suc)
  have "?w - DIGIT_ZERO_MASK = of_int (int (le_val block) - 48 * ones 8)" "DIGIT_NINE_MASK - ?w = of_int (57 * ones 8 - int (le_val block))"
    unfolding ones by (simp_all add: DIGIT_ZERO_MASK_def DIGIT_NINE_MASK_def)
  then have "block_has_non_digit block \<longleftrightarrow> high_bit 8 (int (le_val block) - 48 * ones 8) \<or> high_bit 8 (57 * ones 8 - int (le_val block))"
    unfolding block_has_non_digit_def Let_def bit.conj_disj_distrib2 or_eq_0_iff by (simp only: high_bit_word) blast
  then show ?thesis using swar_block [of block] len by simp
qed

lemma all_digits_swar_iff: "all_digits_swar ds \<longleftrightarrow> list_all is_digit ds"
proof (induction ds rule: all_digits_swar.induct)
  case (1 ds)
  have split: "list_all is_digit ds \<longleftrightarrow> list_all is_digit (take 8 ds) \<and> list_all is_digit (drop 8 ds)"
    by (metis append_take_drop_id list_all_append)
  show ?case
  proof (cases "8 \<le> length ds")
    case True
    then show ?thesis using 1 block_has_non_digit_iff [of "take 8 ds"] split by (subst all_digits_swar.simps) auto
  next
    case False
    then show ?thesis by (subst all_digits_swar.simps) simp
  qed
qed


section \<open>What the integer parser reads\<close>

lemma as_i64_small: "0 \<le> n \<Longrightarrow> n \<le> i64_max \<Longrightarrow> as_i64_of_int n = n"
  by (simp add: as_i64_of_int_def signed_of_int signed_take_bit_int_eq_self)

lemma as_i64_wraps: "i64_max < n \<Longrightarrow> n < 2 ^ 64 \<Longrightarrow> as_i64_of_int n = n - 2 ^ 64"
proof -
  assume n: "i64_max < n" "n < 2 ^ 64"
  have "(of_int n :: 64 word) = of_int (n - 2 ^ 64)" by simp
  then have "as_i64_of_int n = sint (of_int (n - 2 ^ 64) :: 64 word)" unfolding as_i64_of_int_def by (rule arg_cong)
  then show ?thesis using n by (simp add: signed_of_int signed_take_bit_int_eq_self del: of_int_diff)
qed

lemma digits_val_fold: "list_all is_digit ds \<Longrightarrow> digits_val a ds = Some (nat (digits_fold (int a) ds)) \<and> int a * 10 ^ length ds \<le> digits_fold (int a) ds \<and>
    digits_fold (int a) ds < (int a + 1) * 10 ^ length ds"
proof (induction ds arbitrary: a)
  case (Cons b ds)
  have b: "is_digit b" "unat b - 48 \<le> 9" using Cons.prems by (auto simp: is_digit_iff)
  note IH = Cons.IH [of "a * 10 + (unat b - 48)"]
  have eq: "int (a * 10 + (unat b - 48)) = int a * 10 + int (unat b - 48)" by simp
  have "digits_val (a * 10 + (unat b - 48)) ds = Some (nat (digits_fold (int a * 10 + int (unat b - 48)) ds))"
    and lo: "(int a * 10 + int (unat b - 48)) * 10 ^ length ds \<le> digits_fold (int a * 10 + int (unat b - 48)) ds"
    and hi: "digits_fold (int a * 10 + int (unat b - 48)) ds < (int a * 10 + int (unat b - 48) + 1) * 10 ^ length ds"
    using IH Cons.prems unfolding eq by auto
  moreover have "int a * 10 ^ length (b # ds) \<le> (int a * 10 + int (unat b - 48)) * 10 ^ length ds" by (simp add: algebra_simps)
  moreover have "(int a * 10 + int (unat b - 48) + 1) * 10 ^ length ds \<le> (int a + 1) * 10 ^ length (b # ds)"
    using b(2) mult_right_mono [of "int a * 10 + int (unat b - 48) + 1" "(int a + 1) * 10" "10 ^ length ds"] by (simp add: algebra_simps)
  ultimately show ?case using b(1) by (simp only: digits_val.simps digits_fold.simps if_True) (meson le_less_trans less_le_trans order_trans)
qed simp

lemma digits_val_None: "\<not> list_all is_digit ds \<Longrightarrow> digits_val a ds = None"
  by (induction ds arbitrary: a) auto

lemma digits_val_zero:
  assumes "list_all is_digit ds"
  obtains n where "digits_val 0 ds = Some n" and "digits_fold 0 ds = int n" and "n < 10 ^ length ds"
  using digits_val_fold [OF assms, of 0] that [of "nat (digits_fold 0 ds)"]
  by (simp add: nat_less_iff)

abbreviation sign :: "byte \<Rightarrow> bool" where
  "sign b \<equiv> b = MINUS \<or> b = PLUS"

lemma sign_not_digit: "sign b \<Longrightarrow> \<not> is_digit b"
  by (auto simp: is_digit_iff)

text \<open>\<open>str::parse\<close> on an unsigned and on a signed text.\<close>

lemma parse_signed_cases:
  "parse_signed lo hi [] = None"
  "\<not> sign b \<Longrightarrow> parse_signed lo hi (b # bs) = (case digits_val 0 (b # bs) of None \<Rightarrow> None | Some n \<Rightarrow> if lo \<le> int n \<and> int n \<le> hi then Some (int n) else None)"
  "bs \<noteq> [] \<Longrightarrow> parse_signed lo hi (PLUS # bs) = (case digits_val 0 bs of None \<Rightarrow> None | Some n \<Rightarrow> if lo \<le> int n \<and> int n \<le> hi then Some (int n) else None)"
  "bs \<noteq> [] \<Longrightarrow> parse_signed lo hi (MINUS # bs) = (case digits_val 0 bs of None \<Rightarrow> None | Some n \<Rightarrow> if lo \<le> - int n \<and> - int n \<le> hi then Some (- int n) else None)"
  "parse_signed lo hi [PLUS] = None" "parse_signed lo hi [MINUS] = None"
  by (auto simp: parse_signed_def Let_def split: option.splits)

lemma parse_signed_utf8: "parse_signed lo hi s = Some v \<Longrightarrow> utf8_valid s"
proof -
  assume p: "parse_signed lo hi s = Some v"
  have dig: "\<forall>b \<in> set ds. b < 128" if "digits_val a ds = Some n" for a ds n
  proof -
    have "list_all is_digit ds" using that digits_val_None [of ds a] by fastforce
    then show ?thesis by (auto simp: list_all_iff is_digit_def)
  qed
  have "\<forall>b \<in> set s. b < 128"
    using p dig by (auto simp: parse_signed_def is_digit_def Let_def split: list.splits option.splits if_splits)
  then show ?thesis by (rule utf8_valid_ascii)
qed

text \<open>How the parser differs from \<open>str::parse\<close>: it reads a second sign, it wraps around below the smallest
  integer when there are 19 digits, and it refuses the smallest integer with leading zeros.\<close>

fun parse_i64_spec :: "bytes \<Rightarrow> int option" where
  "parse_i64_spec (b # c # bs) =
     (if sign b \<and> sign c then
        (case parse_signed i64_min i64_max (c # bs) of
           None \<Rightarrow> None
         | Some v \<Rightarrow> if b = MINUS then if v = i64_min then None else Some (- v) else Some v)
      else if b = MINUS \<and> list_all is_digit (c # bs) then
        let n = digits_fold 0 (c # bs)
        in if length bs < 19 \<and> i64_max + 1 < n then Some (2 ^ 64 - n)
           else if 19 \<le> length bs \<and> n = i64_max + 1 then None
           else parse_signed i64_min i64_max (b # c # bs)
      else parse_signed i64_min i64_max (b # c # bs))"
| "parse_i64_spec bs = parse_signed i64_min i64_max bs"

lemma swar_digits:
  "parse_i64_swar (b # bs) =
     (let ds = (if sign b then bs else b # bs)
      in if ds = [] \<or> 19 < length ds \<or> \<not> list_all is_digit ds then None
         else let n = digits_fold 0 ds
              in if b = MINUS then if n = i64_max + 1 then Some i64_min else Some (- as_i64_of_int n)
                 else if n \<le> i64_max then Some (as_i64_of_int n) else None)"
  by (auto simp: parse_i64_swar_def Let_def all_digits_swar_iff)

lemma fallback_sign:
  "parse_i64_fallback (MINUS # bs) = (case parse_signed i64_min i64_max bs of None \<Rightarrow> None | Some v \<Rightarrow> checked_neg v)"
  "parse_i64_fallback (PLUS # bs) = parse_signed i64_min i64_max bs"
  "\<not> sign b \<Longrightarrow> parse_i64_fallback (b # bs) = parse_signed i64_min i64_max (b # bs)"
proof -
  have u: "parse_signed i64_min i64_max bs = None" if "\<not> utf8_valid (b # bs)" "b < 128" for b
    using that parse_signed_utf8 [of i64_min i64_max bs] by (cases "parse_signed i64_min i64_max bs") auto
  show "parse_i64_fallback (MINUS # bs) = (case parse_signed i64_min i64_max bs of None \<Rightarrow> None | Some v \<Rightarrow> checked_neg v)"
    "parse_i64_fallback (PLUS # bs) = parse_signed i64_min i64_max bs"
    using u [of MINUS] u [of PLUS] by (auto simp: parse_i64_fallback_def)
  show "parse_i64_fallback (b # bs) = parse_signed i64_min i64_max (b # bs)" if "\<not> sign b"
    using that parse_signed_utf8 [of i64_min i64_max "b # bs"]
    by (cases "parse_signed i64_min i64_max (b # bs)") (auto simp: parse_i64_fallback_def)
qed


lemma swar_None_fallback: "parse_i64_swar bs = None \<Longrightarrow> parse_i64_fast bs = parse_i64_fallback bs"
  by (simp add: parse_i64_fast_def)

lemma pow10_bound: "(n :: nat) < 10 ^ k \<Longrightarrow> k \<le> 19 \<Longrightarrow> int n < 2 ^ 64"
proof -
  assume "n < 10 ^ k" "k \<le> 19"
  moreover have "(10 :: nat) ^ k \<le> 10 ^ 19" using \<open>k \<le> 19\<close> by (intro power_increasing) simp_all
  ultimately have "n < 10 ^ 19" by linarith
  then show ?thesis by simp
qed

text \<open>One sign or none, then digits only.\<close>

lemma parse_digits:
  assumes d: "list_all is_digit ds" "ds \<noteq> []" and n: "digits_val 0 ds = Some n" "digits_fold 0 ds = int n" "n < 10 ^ length ds"
  shows "parse_i64_fast ds = (if int n \<le> i64_max then Some (int n) else None)"
    and "parse_i64_fast (PLUS # ds) = (if int n \<le> i64_max then Some (int n) else None)"
    and "parse_i64_fast (MINUS # ds) =
       (if length ds \<le> 19 \<and> i64_max + 1 < int n then Some (2 ^ 64 - int n)
        else if 19 < length ds \<and> int n = i64_max + 1 then None
        else if int n \<le> i64_max + 1 then Some (- int n) else None)"
proof -
  obtain b bs where ds: "ds = b # bs" using d(2) by (cases ds) auto
  then have "is_digit b" using d(1) by simp
  then have b: "\<not> sign b" using sign_not_digit by blast
  have p: "parse_signed i64_min i64_max ds = (if int n \<le> i64_max then Some (int n) else None)"
    using parse_signed_cases(2) [OF b] n(1) by (simp add: ds)
  show "parse_i64_fast ds = (if int n \<le> i64_max then Some (int n) else None)"
    using b d n p fallback_sign(3) [OF b, of bs] by (auto simp: parse_i64_fast_def swar_digits ds Let_def as_i64_small)
  show "parse_i64_fast (PLUS # ds) = (if int n \<le> i64_max then Some (int n) else None)"
    using d n p fallback_sign(2) [of ds] by (auto simp: parse_i64_fast_def swar_digits Let_def as_i64_small)
  have "as_i64_of_int (int n) = int n - 2 ^ 64" if "length ds \<le> 19" "i64_max + 1 < int n"
    using that as_i64_wraps [of "int n"] pow10_bound [OF n(3)] by simp
  then show "parse_i64_fast (MINUS # ds) =
       (if length ds \<le> 19 \<and> i64_max + 1 < int n then Some (2 ^ 64 - int n)
        else if 19 < length ds \<and> int n = i64_max + 1 then None
        else if int n \<le> i64_max + 1 then Some (- int n) else None)"
    using d n p fallback_sign(1) [of ds] by (auto simp: parse_i64_fast_def swar_digits Let_def as_i64_small checked_neg_def)
qed

lemma parse_no_digits:
  assumes "\<not> list_all is_digit ds"
  shows "\<not> sign (hd ds) \<Longrightarrow> parse_i64_fast ds = None" and "sign b \<Longrightarrow> ds \<noteq> [] \<Longrightarrow> \<not> sign (hd ds) \<Longrightarrow> parse_i64_fast (b # ds) = None"
proof -
  obtain c cs where ds: "ds = c # cs" using assms by (cases ds) auto
  have p: "parse_signed i64_min i64_max ds = None" if "\<not> sign c"
    using parse_signed_cases(2) [OF that] digits_val_None [OF assms] by (simp add: ds)
  show "\<not> sign (hd ds) \<Longrightarrow> parse_i64_fast ds = None"
    using assms p fallback_sign(3) [of c cs] by (simp add: parse_i64_fast_def swar_digits ds)
  show "sign b \<Longrightarrow> ds \<noteq> [] \<Longrightarrow> \<not> sign (hd ds) \<Longrightarrow> parse_i64_fast (b # ds) = None"
    using assms p fallback_sign(1,2) [of ds] by (auto simp: parse_i64_fast_def swar_digits ds)
qed

lemma parse_two_signs:
  assumes "sign b" and "sign c"
  shows "parse_i64_fast (b # c # bs) = parse_i64_spec (b # c # bs)"
proof -
  have "\<not> list_all is_digit (c # bs)" using sign_not_digit [OF assms(2)] by simp
  then have "parse_i64_swar (b # c # bs) = None" using assms(1) by (simp add: swar_digits)
  then have "parse_i64_fast (b # c # bs) = parse_i64_fallback (b # c # bs)" by (rule swar_None_fallback)
  then show ?thesis
    using assms fallback_sign(1,2) [of "c # bs"]
    by (cases "b = MINUS") (simp_all add: checked_neg_def split: option.split)
qed

lemma parse_no_sign: "\<not> sign b \<Longrightarrow> parse_i64_fast (b # bs) = parse_signed i64_min i64_max (b # bs)"
proof (cases "list_all is_digit (b # bs)")
  case True
  assume b: "\<not> sign b"
  obtain n where n: "digits_val 0 (b # bs) = Some n" "digits_fold 0 (b # bs) = int n" "n < 10 ^ length (b # bs)"
    using digits_val_zero [OF True] by blast
  show ?thesis using parse_digits(1) [OF True _ n] parse_signed_cases(2) [OF b, of i64_min i64_max bs] n(1) by simp
next
  case False
  assume b: "\<not> sign b"
  then show ?thesis using parse_no_digits(1) [OF False] parse_signed_cases(2) [OF b, of i64_min i64_max bs] digits_val_None [OF False] by simp
qed

lemma parse_one_sign:
  assumes b: "sign b" and c: "\<not> sign c"
  shows "parse_i64_fast (b # c # bs) = parse_i64_spec (b # c # bs)"
proof (cases "list_all is_digit (c # bs)")
  case True
  obtain n where n: "digits_val 0 (c # bs) = Some n" "digits_fold 0 (c # bs) = int n" "n < 10 ^ length (c # bs)"
    using digits_val_zero [OF True] by blast
  show ?thesis
    using b c True n(1,2) parse_digits(2,3) [OF True _ n] parse_signed_cases(3,4) [of "c # bs" i64_min i64_max]
    by (auto simp: Let_def less_Suc_eq_le simp del: digits_val.simps digits_fold.simps)
next
  case False
  then show ?thesis
    using b c parse_no_digits(2) [OF False b] parse_signed_cases(3,4) [of "c # bs" i64_min i64_max] digits_val_None [OF False, of 0]
    by (auto simp del: digits_val.simps)
qed

lemma parse_i64_fast_eq: "parse_i64_fast bs = parse_i64_spec bs"
proof (cases bs)
  case Nil
  then show ?thesis by (simp add: parse_i64_fast_def parse_i64_swar_def parse_i64_fallback_def)
next
  case (Cons b bs')
  show ?thesis
  proof (cases bs')
    case Nil
    then show ?thesis
      using Cons parse_no_sign [of b "[]"] fallback_sign(1,2) [of "[]"]
      by (cases "sign b") (auto simp: parse_i64_fast_def swar_digits parse_signed_cases)
  next
    case tail: (Cons c cs)
    then show ?thesis using Cons parse_two_signs [of b c cs] parse_one_sign [of b c cs] parse_no_sign [of b "c # cs"] by fastforce
  qed
qed

section \<open>Properties\<close>

text \<open>C24. Checking eight bytes in one machine word with two subtractions and a mask decides exactly whether all bytes are
  decimal digits, in spite of the borrows that run from byte to byte, so the word-wise check agrees with the check byte by
  byte on every input.\<close>

theorem all_digits_swar_correct:
  "all_digits_swar digits \<longleftrightarrow> list_all is_digit digits"
  by (rule all_digits_swar_iff)

text \<open>C23. What the fast parser of 64-bit integers returns on every input: what \<open>str::parse\<close> returns, except on a text with
  two signs, which it accepts, on a minus sign followed by at most 19 digits that exceed \<open>2 ^ 63\<close>, which it reads as the
  positive number \<open>2 ^ 64 - n\<close>, and on the smallest integer written with leading zeros, which it refuses.\<close>

theorem parse_i64_fast_exact:
  "parse_i64_fast input = parse_i64_spec input \<and>
   parse_i64_fast (ascii ''-9999999999999999999'') = Some 8446744073709551617 \<and> parse_i64_fast (ascii ''--5'') = Some 5"
proof -
  have "parse_i64_spec (ascii ''-9999999999999999999'') = Some 8446744073709551617" "parse_i64_spec (ascii ''--5'') = Some 5"
    by code_simp+
  then show ?thesis by (simp add: parse_i64_fast_eq)
qed

end
