(* ===== verification/StringCommands.thy ===== *)
theory StringCommands
  imports Arithmetic
begin

text \<open>
  The commands on strings: basic.rs, arithmetic.rs, conditional.rs, strops.rs and multi.rs of
  senko-store/src/commands. Every handler has its checks, conversions and calls of the store in the
  order of the sources; \<open>A\<close> is the interface to the store, \<open>now\<close> the clock. The hash xxh3 is a
  parameter, as are the float functions of theory Arithmetic.
\<close>

record 'v string_deps =
  scd_values :: "'v value_deps"
  scd_arith :: arith_deps
  scd_xxh3_64 :: "bytes \<Rightarrow> 64 word"

section \<open>Digests\<close>

definition hex_byte :: "nat \<Rightarrow> byte" where
  "hex_byte n = of_nat (if n < 10 then 48 + n else 87 + n)"

text \<open>\<open>format!("{:016x}", ..)\<close>.\<close>

definition digest_16_hex :: "'v string_deps \<Rightarrow> bytes \<Rightarrow> bytes" where
  "digest_16_hex E payload =
     map (\<lambda>i. hex_byte (unat (scd_xxh3_64 E payload) div 16 ^ i mod 16)) [15, 14, 13, 12, 11, 10, 9, 8, 7, 6, 5, 4, 3, 2, 1, 0]"

definition parse_digest :: "bytes \<Rightarrow> senko_error + bytes" where
  "parse_digest raw =
     (if length raw \<noteq> 16 then Inl (Protocol (ascii ''must be exactly 16 hexadecimal characters''))
      else Inr (map lower_ascii raw))"

section \<open>GET and SET\<close>

datatype parsed_condition = PAlways | PNx | PXx | PIfEq bytes | PIfNe bytes | PIfDeq bytes | PIfDne bytes

datatype parsed_expiry = PNone | PEx nat | PPx nat | PExAt nat | PPxAt nat | PKeepTtl | PPersist

definition get_cmd :: "('s, 'v) store_api \<Rightarrow> nat \<Rightarrow> frame list \<Rightarrow> ('s, 'v senko_value response) handler" where
  "get_cmd A now args =
     (if length args \<noteq> 1 then fail (wrong_number ''get'')
      else try_in (arg_bytes (args ! 0)) (\<lambda>key.
        call (api_get A key now) (\<lambda>value.
          case value of
            None \<Rightarrow> give (RespValue None)
          | Some v \<Rightarrow> if string_value v then give (RespValue (Some v)) else try_in (ensure_string_value v) (\<lambda>_. panic))))"

record set_parse =
  p_condition :: parsed_condition
  p_condition_set :: bool
  p_expiry :: parsed_expiry
  p_expiry_set :: bool
  p_get_old :: bool

definition set_parse_start :: set_parse where
  "set_parse_start = \<lparr>p_condition = PAlways, p_condition_set = False, p_expiry = PNone, p_expiry_set = False, p_get_old = False\<rparr>"

definition condition_token :: "bytes \<Rightarrow> bytes \<Rightarrow> senko_error + parsed_condition" where
  "condition_token token v =
     (if is_opt token ''IFEQ'' then Inr (PIfEq v)
      else if is_opt token ''IFNE'' then Inr (PIfNe v)
      else if is_opt token ''IFDEQ'' then attempt (parse_digest v) (\<lambda>d. Inr (PIfDeq d))
      else attempt (parse_digest v) (\<lambda>d. Inr (PIfDne d)))"

definition expiry_token :: "bytes \<Rightarrow> nat \<Rightarrow> parsed_expiry" where
  "expiry_token token v =
     (if is_opt token ''EX'' then PEx v else if is_opt token ''PX'' then PPx v
      else if is_opt token ''EXAT'' then PExAt v else PPxAt v)"

fun parse_set_options :: "set_parse \<Rightarrow> frame list \<Rightarrow> senko_error + set_parse" where
  "parse_set_options p [] = Inr p"
| "parse_set_options p (a # rest) = attempt (arg_bytes a) (\<lambda>token.
     if is_opt token ''GET'' then
       if p_get_old p then Inl syntax_error else parse_set_options (p\<lparr>p_get_old := True\<rparr>) rest
     else if is_opt token ''NX'' \<or> is_opt token ''XX'' \<or> is_opt token ''IFEQ'' \<or> is_opt token ''IFNE'' \<or>
             is_opt token ''IFDEQ'' \<or> is_opt token ''IFDNE'' then
       if p_condition_set p then Inl syntax_error
       else if is_opt token ''NX'' then parse_set_options (p\<lparr>p_condition_set := True, p_condition := PNx\<rparr>) rest
       else if is_opt token ''XX'' then parse_set_options (p\<lparr>p_condition_set := True, p_condition := PXx\<rparr>) rest
       else (case rest of
               [] \<Rightarrow> Inl syntax_error
             | v # rest' \<Rightarrow> attempt (attempt (arg_bytes v) (condition_token token)) (\<lambda>c.
                 parse_set_options (p\<lparr>p_condition_set := True, p_condition := c\<rparr>) rest'))
     else if is_opt token ''EX'' \<or> is_opt token ''PX'' \<or> is_opt token ''EXAT'' \<or> is_opt token ''PXAT'' \<or>
             is_opt token ''KEEPTTL'' then
       if p_expiry_set p then Inl syntax_error
       else if is_opt token ''KEEPTTL'' then parse_set_options (p\<lparr>p_expiry_set := True, p_expiry := PKeepTtl\<rparr>) rest
       else (case rest of
               [] \<Rightarrow> Inl syntax_error
             | raw # rest' \<Rightarrow> attempt (attempt (arg_bytes raw) (\<lambda>raw. parse_positive_u64 raw ''set'')) (\<lambda>n.
                 parse_set_options (p\<lparr>p_expiry_set := True, p_expiry := expiry_token token n\<rparr>) rest'))
     else Inl syntax_error)"

definition digest_condition_matches ::
    "('s, 'v) store_api \<Rightarrow> 'v string_deps \<Rightarrow> nat \<Rightarrow> bytes \<Rightarrow> parsed_condition \<Rightarrow> ('s, bool) handler" where
  "digest_condition_matches A E now key condition = (case condition of
      PIfDeq expected \<Rightarrow> call (api_get A key now) (\<lambda>value. case value of
          None \<Rightarrow> give False
        | Some v \<Rightarrow> try_in (ensure_string_value v) (\<lambda>_. give (digest_16_hex E (as_bytes (scd_values E) v) = expected)))
    | PIfDne expected \<Rightarrow> call (api_get A key now) (\<lambda>value. case value of
          None \<Rightarrow> give True
        | Some v \<Rightarrow> try_in (ensure_string_value v) (\<lambda>_. give (digest_16_hex E (as_bytes (scd_values E) v) \<noteq> expected)))
    | _ \<Rightarrow> give True)"

definition store_condition :: "parsed_condition \<Rightarrow> set_condition" where
  "store_condition c = (case c of
      PNx \<Rightarrow> NX | PXx \<Rightarrow> XX | PIfEq v \<Rightarrow> IfEq v | PIfNe v \<Rightarrow> IfNe v | _ \<Rightarrow> Always)"

definition store_expiry :: "parsed_expiry \<Rightarrow> set_expiry" where
  "store_expiry e = (case e of
      PEx n \<Rightarrow> Ex n | PPx n \<Rightarrow> Px n | PExAt n \<Rightarrow> ExAt n | PPxAt n \<Rightarrow> PxAt n | PKeepTtl \<Rightarrow> KeepTtl | _ \<Rightarrow> NoExpiry)"

definition set_cmd :: "('s, 'v) store_api \<Rightarrow> 'v string_deps \<Rightarrow> nat \<Rightarrow> frame list \<Rightarrow> ('s, 'v senko_value response) handler" where
  "set_cmd A E now args =
     (if length args < 2 then fail (wrong_number ''set'')
      else try_in (arg_bytes (args ! 0)) (\<lambda>key_bytes.
        try_in (parse_key key_bytes) (\<lambda>key.
        try_in (arg_bytes (args ! 1)) (\<lambda>value_bytes.
        try_in (parse_set_options set_parse_start (drop 2 args)) (\<lambda>p.
        and_then (digest_condition_matches A E now key_bytes (p_condition p)) (\<lambda>matches.
          if \<not> matches then
            if p_get_old p then call (api_get A key_bytes now) (\<lambda>old_value. give (RespValue old_value))
            else give (RespValue None)
          else
            call (api_set A key (encode_attempt (scd_values E) value_bytes)
                   \<lparr>so_condition = store_condition (p_condition p), so_expiry = store_expiry (p_expiry p), so_get_old = p_get_old p\<rparr> now)
              (\<lambda>set_result.
                if \<not> sr_applied set_result then give (RespValue (if p_get_old p then sr_old_value set_result else None))
                else if p_get_old p then give (RespValue (sr_old_value set_result))
                else give (Simple OK))))))))"

definition setnx_cmd :: "('s, 'v) store_api \<Rightarrow> 'v string_deps \<Rightarrow> nat \<Rightarrow> frame list \<Rightarrow> ('s, 'v senko_value response) handler" where
  "setnx_cmd A E now args =
     (if length args \<noteq> 2 then fail (wrong_number ''setnx'')
      else try_in (attempt (arg_bytes (args ! 0)) parse_key) (\<lambda>key.
        try_in (arg_bytes (args ! 1)) (\<lambda>raw.
        call (api_set A key (encode_attempt (scd_values E) raw) \<lparr>so_condition = NX, so_expiry = NoExpiry, so_get_old = False\<rparr> now)
          (\<lambda>result. give (RespInteger (of_bool (sr_applied result)))))))"

definition setex_cmd :: "('s, 'v) store_api \<Rightarrow> 'v string_deps \<Rightarrow> nat \<Rightarrow> frame list \<Rightarrow> ('s, 'v senko_value response) handler" where
  "setex_cmd A E now args =
     (if length args \<noteq> 3 then fail (wrong_number ''setex'')
      else try_in (attempt (arg_bytes (args ! 0)) parse_key) (\<lambda>key.
        try_in (attempt (arg_bytes (args ! 1)) (\<lambda>raw. parse_positive_u64 raw ''setex'')) (\<lambda>seconds.
        try_in (arg_bytes (args ! 2)) (\<lambda>raw.
        call (api_set A key (encode_attempt (scd_values E) raw) \<lparr>so_condition = Always, so_expiry = Ex seconds, so_get_old = False\<rparr> now)
          (\<lambda>_. give (Simple OK))))))"

definition psetex_cmd :: "('s, 'v) store_api \<Rightarrow> 'v string_deps \<Rightarrow> nat \<Rightarrow> frame list \<Rightarrow> ('s, 'v senko_value response) handler" where
  "psetex_cmd A E now args =
     (if length args \<noteq> 3 then fail (wrong_number ''psetex'')
      else try_in (attempt (arg_bytes (args ! 0)) parse_key) (\<lambda>key.
        try_in (attempt (arg_bytes (args ! 1)) (\<lambda>raw. parse_positive_u64 raw ''psetex'')) (\<lambda>milliseconds.
        try_in (arg_bytes (args ! 2)) (\<lambda>raw.
        call (api_set A key (encode_attempt (scd_values E) raw) \<lparr>so_condition = Always, so_expiry = Px milliseconds, so_get_old = False\<rparr> now)
          (\<lambda>_. give (Simple OK))))))"

definition getset_cmd :: "('s, 'v) store_api \<Rightarrow> 'v string_deps \<Rightarrow> nat \<Rightarrow> frame list \<Rightarrow> ('s, 'v senko_value response) handler" where
  "getset_cmd A E now args =
     (if length args \<noteq> 2 then fail (wrong_number ''getset'')
      else try_in (arg_bytes (args ! 0)) (\<lambda>key_bytes.
        call (api_get A key_bytes now) (\<lambda>old.
        try_in (case old of Some v \<Rightarrow> ensure_string_value v | None \<Rightarrow> Inr ()) (\<lambda>_.
        try_in (parse_key key_bytes) (\<lambda>key.
        try_in (arg_bytes (args ! 1)) (\<lambda>raw.
        call (api_set A key (encode_attempt (scd_values E) raw) no_options now) (\<lambda>_. give (RespValue old))))))))"

definition getdel_cmd :: "('s, 'v) store_api \<Rightarrow> nat \<Rightarrow> frame list \<Rightarrow> ('s, 'v senko_value response) handler" where
  "getdel_cmd A now args =
     (if length args \<noteq> 1 then fail (wrong_number ''getdel'')
      else try_in (arg_bytes (args ! 0)) (\<lambda>key.
        call (api_get A key now) (\<lambda>old. case old of
            None \<Rightarrow> give (RespValue None)
          | Some v \<Rightarrow> try_in (ensure_string_value v) (\<lambda>_. call (api_delete A key now) (\<lambda>_. give (RespValue old))))))"

fun parse_getex_options :: "bool \<Rightarrow> parsed_expiry \<Rightarrow> frame list \<Rightarrow> senko_error + parsed_expiry" where
  "parse_getex_options expiry_set expiry [] = Inr expiry"
| "parse_getex_options expiry_set expiry (a # rest) = attempt (arg_bytes a) (\<lambda>token.
     if expiry_set then Inl syntax_error
     else if is_opt token ''PERSIST'' then parse_getex_options True PPersist rest
     else if \<not> (is_opt token ''EX'' \<or> is_opt token ''PX'' \<or> is_opt token ''EXAT'' \<or> is_opt token ''PXAT'') then Inl syntax_error
     else (case rest of
             [] \<Rightarrow> Inl syntax_error
           | raw # rest' \<Rightarrow> attempt (attempt (arg_bytes raw) (\<lambda>raw. parse_positive_u64 raw ''getex'')) (\<lambda>n.
               parse_getex_options True (expiry_token token n) rest')))"

definition getex_cmd :: "('s, 'v) store_api \<Rightarrow> nat \<Rightarrow> frame list \<Rightarrow> ('s, 'v senko_value response) handler" where
  "getex_cmd A now args = (case args of
      [] \<Rightarrow> fail (wrong_number ''getex'')
    | a # rest \<Rightarrow> try_in (arg_bytes a) (\<lambda>key.
        try_in (parse_getex_options False PNone rest) (\<lambda>expiry.
        call (api_get A key now) (\<lambda>value. case value of
            None \<Rightarrow> give (RespValue None)
          | Some v \<Rightarrow> try_in (ensure_string_value v) (\<lambda>_.
              case expiry of
                PNone \<Rightarrow> give (RespValue (Some v))
              | PPersist \<Rightarrow> call (api_remove_expiry A key now) (\<lambda>_. give (RespValue (Some v)))
              | PEx seconds \<Rightarrow> call (api_set_expiry A key (sat_add64 now (sat_mul64 seconds 1000)) now) (\<lambda>_. give (RespValue (Some v)))
              | PPx milliseconds \<Rightarrow> call (api_set_expiry A key (sat_add64 now milliseconds) now) (\<lambda>_. give (RespValue (Some v)))
              | PExAt seconds \<Rightarrow> call (api_set_expiry A key (sat_mul64 seconds 1000) now) (\<lambda>_. give (RespValue (Some v)))
              | PPxAt milliseconds \<Rightarrow> call (api_set_expiry A key milliseconds now) (\<lambda>_. give (RespValue (Some v)))
              | PKeepTtl \<Rightarrow> fail syntax_error)))))"

section \<open>Counters\<close>

definition keep_ttl_if :: "bool \<Rightarrow> set_options" where
  "keep_ttl_if present = \<lparr>so_condition = Always, so_expiry = (if present then KeepTtl else NoExpiry), so_get_old = False\<rparr>"

definition increment_i64 :: "('s, 'v) store_api \<Rightarrow> nat \<Rightarrow> bytes \<Rightarrow> int \<Rightarrow> bool \<Rightarrow> ('s, 'v senko_value response) handler" where
  "increment_i64 A now key delta add =
     call (api_get A key now) (\<lambda>current.
     try_in (case current of None \<Rightarrow> Inr 0 | Some v \<Rightarrow> value_as_i64 v) (\<lambda>base.
     try_in (if add then checked_add_i64 base delta else checked_sub_i64 base delta) (\<lambda>result.
     try_in (parse_key key) (\<lambda>key_owned.
     call (api_set A key_owned (IntVal result) (keep_ttl_if (current \<noteq> None)) now) (\<lambda>_. give (RespInteger result))))))"

definition incr_cmd :: "('s, 'v) store_api \<Rightarrow> nat \<Rightarrow> frame list \<Rightarrow> ('s, 'v senko_value response) handler" where
  "incr_cmd A now args =
     (if length args \<noteq> 1 then fail (wrong_number ''incr'')
      else try_in (arg_bytes (args ! 0)) (\<lambda>key. increment_i64 A now key 1 True))"

definition decr_cmd :: "('s, 'v) store_api \<Rightarrow> nat \<Rightarrow> frame list \<Rightarrow> ('s, 'v senko_value response) handler" where
  "decr_cmd A now args =
     (if length args \<noteq> 1 then fail (wrong_number ''decr'')
      else try_in (arg_bytes (args ! 0)) (\<lambda>key. increment_i64 A now key 1 False))"

definition read_i64 :: "frame \<Rightarrow> senko_error + int" where
  "read_i64 a = attempt (arg_bytes a) (\<lambda>raw. case parse_i64_fast raw of Some n \<Rightarrow> Inr n | None \<Rightarrow> Inl integer_range_error)"

definition incrby_cmd :: "('s, 'v) store_api \<Rightarrow> nat \<Rightarrow> frame list \<Rightarrow> ('s, 'v senko_value response) handler" where
  "incrby_cmd A now args =
     (if length args \<noteq> 2 then fail (wrong_number ''incrby'')
      else try_in (arg_bytes (args ! 0)) (\<lambda>key.
        try_in (read_i64 (args ! 1)) (\<lambda>increment. increment_i64 A now key increment True)))"

definition decrby_cmd :: "('s, 'v) store_api \<Rightarrow> nat \<Rightarrow> frame list \<Rightarrow> ('s, 'v senko_value response) handler" where
  "decrby_cmd A now args =
     (if length args \<noteq> 2 then fail (wrong_number ''decrby'')
      else try_in (arg_bytes (args ! 0)) (\<lambda>key.
        try_in (read_i64 (args ! 1)) (\<lambda>decrement. increment_i64 A now key decrement False)))"

definition incrbyfloat_cmd :: "('s, 'v) store_api \<Rightarrow> 'v string_deps \<Rightarrow> nat \<Rightarrow> frame list \<Rightarrow> ('s, 'v senko_value response) handler" where
  "incrbyfloat_cmd A E now args =
     (if length args \<noteq> 2 then fail (wrong_number ''incrbyfloat'')
      else try_in (arg_bytes (args ! 0)) (\<lambda>key.
        try_in (attempt (arg_bytes (args ! 1)) (\<lambda>raw. case parse_f64 (scd_arith E) raw of Some x \<Rightarrow> Inr x | None \<Rightarrow> Inl float_value_error)) (\<lambda>increment.
        if \<not> f64_finite increment then fail float_nan_inf_error
        else call (api_get A key now) (\<lambda>current.
          try_in (case current of None \<Rightarrow> Inr f64_zero | Some v \<Rightarrow> value_as_f64 (scd_arith E) v) (\<lambda>base.
          let result = f64_add base increment in
          if \<not> f64_finite result then fail float_nan_inf_error
          else try_in (parse_key key) (\<lambda>key_owned.
            call (api_set A key_owned (FloatVal result) (keep_ttl_if (current \<noteq> None)) now) (\<lambda>_.
              give (RespValue (Some (Raw (format_f64_no_scientific (scd_arith E) result)))))))))))"

section \<open>Digests and conditional deletion\<close>

definition value_wire_bytes :: "'v string_deps \<Rightarrow> 'v senko_value \<Rightarrow> bytes" where
  "value_wire_bytes E v = (case v of Obj Json _ \<Rightarrow> ascii ''[json]'' | _ \<Rightarrow> as_bytes (scd_values E) v)"

definition digest_cmd :: "('s, 'v) store_api \<Rightarrow> 'v string_deps \<Rightarrow> nat \<Rightarrow> frame list \<Rightarrow> ('s, 'v senko_value response) handler" where
  "digest_cmd A E now args =
     (if length args \<noteq> 1 then fail (wrong_number ''digest'')
      else try_in (arg_bytes (args ! 0)) (\<lambda>key.
        call (api_get A key now) (\<lambda>value. case value of
            None \<Rightarrow> give (RespValue None)
          | Some v \<Rightarrow> give (RespValue (Some (Raw (digest_16_hex E (value_wire_bytes E v))))))))"

definition delex_condition :: "frame list \<Rightarrow> senko_error + parsed_condition" where
  "delex_condition args =
     (if length args = 1 then Inr PAlways
      else attempt (arg_bytes (args ! 1)) (\<lambda>flag.
        attempt (arg_bytes (args ! 2)) (\<lambda>v.
          if is_opt flag ''IFEQ'' then Inr (PIfEq v)
          else if is_opt flag ''IFNE'' then Inr (PIfNe v)
          else if is_opt flag ''IFDEQ'' then attempt (parse_digest v) (\<lambda>d. Inr (PIfDeq d))
          else if is_opt flag ''IFDNE'' then attempt (parse_digest v) (\<lambda>d. Inr (PIfDne d))
          else Inl (Protocol (ascii ''Invalid condition'')))))"

definition should_delete :: "'v string_deps \<Rightarrow> parsed_condition \<Rightarrow> 'v senko_value \<Rightarrow> bool" where
  "should_delete E condition v = (case condition of
      PIfEq expected \<Rightarrow> value_wire_bytes E v = expected
    | PIfNe expected \<Rightarrow> value_wire_bytes E v \<noteq> expected
    | PIfDeq expected \<Rightarrow> digest_16_hex E (value_wire_bytes E v) = expected
    | PIfDne expected \<Rightarrow> digest_16_hex E (value_wire_bytes E v) \<noteq> expected
    | _ \<Rightarrow> True)"

definition delex_cmd :: "('s, 'v) store_api \<Rightarrow> 'v string_deps \<Rightarrow> nat \<Rightarrow> frame list \<Rightarrow> ('s, 'v senko_value response) handler" where
  "delex_cmd A E now args =
     (if length args \<noteq> 1 \<and> length args \<noteq> 3 then fail (wrong_number ''delex'')
      else try_in (arg_bytes (args ! 0)) (\<lambda>key.
        try_in (delex_condition args) (\<lambda>condition.
        call (api_get A key now) (\<lambda>value. case value of
            None \<Rightarrow> give (RespInteger 0)
          | Some v \<Rightarrow>
              if \<not> should_delete E condition v then give (RespInteger 0)
              else call (api_delete A key now) (\<lambda>deleted. give (RespInteger (of_bool deleted)))))))"

section \<open>Parts of strings\<close>

definition MAX_STRING_SIZE :: nat where "MAX_STRING_SIZE = 512 * 1024 * 1024"

definition size_error :: senko_error where
  "size_error = Protocol (ascii ''ERR string exceeds maximum allowed size (512MB)'')"

definition parse_i64_text :: "bytes \<Rightarrow> senko_error + int" where
  "parse_i64_text raw =
     (case (if utf8_valid raw then parse_signed i64_min i64_max raw else None) of
        Some n \<Rightarrow> Inr n
      | None \<Rightarrow> Inl (Protocol (ascii ''value is not an integer or out of range'')))"

definition parse_non_negative_usize :: "bytes \<Rightarrow> senko_error + nat" where
  "parse_non_negative_usize raw = attempt (parse_i64_text raw) (\<lambda>v.
     if v < 0 then Inl (Protocol (ascii ''ERR offset is out of range'')) else Inr (nat v))"

definition materialize_value_bytes :: "'v string_deps \<Rightarrow> 'v senko_value option \<Rightarrow> senko_error + bytes" where
  "materialize_value_bytes E value = (case value of
      None \<Rightarrow> Inr []
    | Some (Raw raw) \<Rightarrow> Inr raw
    | Some (IntVal n) \<Rightarrow> Inr (dec_int n)
    | Some (FloatVal x) \<Rightarrow> Inr (f64_to_string (scd_values E) x)
    | Some v \<Rightarrow> Inl (WrongType (ascii ''string'') (value_type_name v)))"

fun int_len_loop :: "nat \<Rightarrow> nat \<Rightarrow> nat" where
  "int_len_loop n digits = (if n > 0 then int_len_loop (n div 10) (digits + 1) else digits)"

declare int_len_loop.simps [simp del]

definition int_len :: "int \<Rightarrow> nat" where
  "int_len n = (if n = 0 then 1 else int_len_loop (nat \<bar>n\<bar>) 0 + of_bool (n < 0))"

definition value_len :: "'v string_deps \<Rightarrow> 'v senko_value \<Rightarrow> nat" where
  "value_len E v = (case v of
      Raw raw \<Rightarrow> length raw
    | IntVal n \<Rightarrow> int_len n
    | FloatVal x \<Rightarrow> length (f64_to_string (scd_values E) x)
    | Obj Json j \<Rightarrow> length (as_bytes (scd_values E) v)
    | Obj _ _ \<Rightarrow> 0)"

definition append_cmd :: "('s, 'v) store_api \<Rightarrow> 'v string_deps \<Rightarrow> nat \<Rightarrow> frame list \<Rightarrow> ('s, 'v senko_value response) handler" where
  "append_cmd A E now args =
     (if length args \<noteq> 2 then fail (wrong_number ''append'')
      else try_in (arg_bytes (args ! 0)) (\<lambda>key_bytes.
        try_in (parse_key key_bytes) (\<lambda>key.
        try_in (arg_bytes (args ! 1)) (\<lambda>append_value.
        call (api_get A key_bytes now) (\<lambda>current.
        try_in (materialize_value_bytes E current) (\<lambda>base.
        let new_len = length base + length append_value in
        if new_len > u64_max \<or> new_len > MAX_STRING_SIZE then fail size_error
        else
          let base = base @ append_value;
              final_value = (if length base \<le> 20 then encode_attempt (scd_values E) base else Raw base)
          in call (api_set A key final_value (keep_ttl_if (current \<noteq> None)) now) (\<lambda>_. give (RespInteger (int new_len)))))))))"

definition strlen_cmd :: "('s, 'v) store_api \<Rightarrow> 'v string_deps \<Rightarrow> nat \<Rightarrow> frame list \<Rightarrow> ('s, 'v senko_value response) handler" where
  "strlen_cmd A E now args =
     (if length args \<noteq> 1 then fail (wrong_number ''strlen'')
      else try_in (arg_bytes (args ! 0)) (\<lambda>key.
        call (api_get A key now) (\<lambda>value. case value of
            None \<Rightarrow> give (RespInteger 0)
          | Some (Raw raw) \<Rightarrow> give (RespInteger (int (length raw)))
          | Some (IntVal n) \<Rightarrow> give (RespInteger (int (int_len n)))
          | Some (FloatVal x) \<Rightarrow> give (RespInteger (int (length (f64_to_string (scd_values E) x))))
          | Some v \<Rightarrow> fail (WrongType (ascii ''string'') (value_type_name v)))))"

definition slice_range :: "bytes \<Rightarrow> int \<Rightarrow> int \<Rightarrow> (nat \<times> nat) option" where
  "slice_range payload start fin =
     (let len = int (length payload) in
      if len = 0 then None
      else if start < 0 \<and> fin < 0 \<and> start > fin then None
      else
        let s = max (if start < 0 then len + start else start) 0;
            e = max (if fin < 0 then len + fin else fin) 0
        in if s \<ge> len then None
           else let e = (if e \<ge> len then len - 1 else e)
                in if s > e then None else Some (nat s, nat e + 1))"

definition slice_owned :: "bytes \<Rightarrow> int \<Rightarrow> int \<Rightarrow> bytes" where
  "slice_owned payload start fin = (case slice_range payload start fin of
      Some (s, e) \<Rightarrow> take (e - s) (drop s payload)
    | None \<Rightarrow> [])"

definition getrange_cmd :: "('s, 'v) store_api \<Rightarrow> 'v string_deps \<Rightarrow> nat \<Rightarrow> frame list \<Rightarrow> ('s, 'v senko_value response) handler" where
  "getrange_cmd A E now args =
     (if length args \<noteq> 3 then fail (wrong_number ''getrange'')
      else try_in (arg_bytes (args ! 0)) (\<lambda>key.
        try_in (attempt (arg_bytes (args ! 1)) parse_i64_text) (\<lambda>start.
        try_in (attempt (arg_bytes (args ! 2)) parse_i64_text) (\<lambda>fin.
        call (api_get A key now) (\<lambda>value. case value of
            None \<Rightarrow> give (RespValue (Some (Raw [])))
          | Some (Raw raw) \<Rightarrow> give (RespValue (Some (Raw (slice_owned raw start fin))))
          | Some (IntVal n) \<Rightarrow> give (RespValue (Some (Raw (slice_owned (dec_int n) start fin))))
          | Some (FloatVal x) \<Rightarrow> give (RespValue (Some (Raw (slice_owned (f64_to_string (scd_values E) x) start fin))))
          | Some v \<Rightarrow> fail (WrongType (ascii ''string'') (value_type_name v)))))))"

text \<open>\<open>resize(n, 0)\<close> of a shorter buffer, and writing into a part of it.\<close>

definition pad_to :: "nat \<Rightarrow> bytes \<Rightarrow> bytes" where
  "pad_to n base = (if length base < n then base @ replicate (n - length base) 0 else base)"

definition overwrite :: "nat \<Rightarrow> bytes \<Rightarrow> bytes \<Rightarrow> bytes" where
  "overwrite offset new base = take offset base @ new @ drop (offset + length new) base"

definition setrange_cmd :: "('s, 'v) store_api \<Rightarrow> 'v string_deps \<Rightarrow> nat \<Rightarrow> frame list \<Rightarrow> ('s, 'v senko_value response) handler" where
  "setrange_cmd A E now args =
     (if length args \<noteq> 3 then fail (wrong_number ''setrange'')
      else try_in (arg_bytes (args ! 0)) (\<lambda>key_bytes.
        try_in (parse_key key_bytes) (\<lambda>key.
        try_in (attempt (arg_bytes (args ! 1)) parse_non_negative_usize) (\<lambda>offset.
        try_in (arg_bytes (args ! 2)) (\<lambda>new.
        call (api_get A key_bytes now) (\<lambda>current.
        if new = [] then give (RespInteger (int (case current of Some v \<Rightarrow> value_len E v | None \<Rightarrow> 0)))
        else try_in (materialize_value_bytes E current) (\<lambda>base.
          let needed = offset + length new in
          if needed > u64_max \<or> needed > MAX_STRING_SIZE then fail size_error
          else
            let base = overwrite offset new (pad_to needed (pad_to offset base))
            in call (api_set A key (Raw base) (keep_ttl_if (current \<noteq> None)) now) (\<lambda>_. give (RespInteger (int (length base)))))))))))"

definition substr_cmd :: "('s, 'v) store_api \<Rightarrow> 'v string_deps \<Rightarrow> nat \<Rightarrow> frame list \<Rightarrow> ('s, 'v senko_value response) handler" where
  "substr_cmd A E now args = getrange_cmd A E now args"

section \<open>Several keys\<close>

fun mget_loop :: "('s, 'v) store_api \<Rightarrow> nat \<Rightarrow> frame list \<Rightarrow> ('s, 'v senko_value response list) handler" where
  "mget_loop A now [] = give []"
| "mget_loop A now (a # args) = try_in (arg_bytes a) (\<lambda>key.
     call (api_get A key now) (\<lambda>value.
     try_in (case value of Some v \<Rightarrow> ensure_string_value v | None \<Rightarrow> Inr ()) (\<lambda>_.
     and_then (mget_loop A now args) (\<lambda>out. give (RespValue value # out)))))"

definition mget_cmd :: "('s, 'v) store_api \<Rightarrow> nat \<Rightarrow> frame list \<Rightarrow> ('s, 'v senko_value response) handler" where
  "mget_cmd A now args =
     (if args = [] then fail (wrong_number ''mget'') else and_then (mget_loop A now args) (\<lambda>out. give (RespArray out)))"

fun mset_loop :: "('s, 'v) store_api \<Rightarrow> 'v string_deps \<Rightarrow> nat \<Rightarrow> set_expiry \<Rightarrow> frame list \<Rightarrow> ('s, unit) handler" where
  "mset_loop A E now expiry (k # v # args) = try_in (attempt (arg_bytes k) parse_key) (\<lambda>key.
     try_in (arg_bytes v) (\<lambda>raw.
     call (api_set A key (encode_attempt (scd_values E) raw) \<lparr>so_condition = Always, so_expiry = expiry, so_get_old = False\<rparr> now) (\<lambda>_.
     mset_loop A E now expiry args)))"
| "mset_loop A E now expiry _ = give ()"

definition mset_cmd :: "('s, 'v) store_api \<Rightarrow> 'v string_deps \<Rightarrow> nat \<Rightarrow> frame list \<Rightarrow> ('s, 'v senko_value response) handler" where
  "mset_cmd A E now args =
     (if args = [] \<or> odd (length args) then fail (wrong_number ''mset'')
      else and_then (mset_loop A E now NoExpiry args) (\<lambda>_. give (Simple OK)))"

text \<open>How many of the keys exist; \<open>MSETNX\<close> stops at the first.\<close>

fun any_present :: "('s, 'v) store_api \<Rightarrow> nat \<Rightarrow> frame list \<Rightarrow> ('s, bool) handler" where
  "any_present A now (k # v # args) = try_in (arg_bytes k) (\<lambda>key.
     call (api_get A key now) (\<lambda>value. if value \<noteq> None then give True else any_present A now args))"
| "any_present A now _ = give False"

definition msetnx_cmd :: "('s, 'v) store_api \<Rightarrow> 'v string_deps \<Rightarrow> nat \<Rightarrow> frame list \<Rightarrow> ('s, 'v senko_value response) handler" where
  "msetnx_cmd A E now args =
     (if args = [] \<or> odd (length args) then fail (wrong_number ''msetnx'')
      else and_then (any_present A now args) (\<lambda>present.
        if present then give (RespInteger 0)
        else and_then (mset_loop A E now NoExpiry args) (\<lambda>_. give (RespInteger 1))))"


fun parse_msetex_options :: "set_parse \<Rightarrow> frame list \<Rightarrow> senko_error + set_parse" where
  "parse_msetex_options p [] = Inr p"
| "parse_msetex_options p (a # rest) = attempt (arg_bytes a) (\<lambda>token.
     if is_opt token ''NX'' \<or> is_opt token ''XX'' then
       if p_condition_set p then Inl syntax_error
       else parse_msetex_options (p\<lparr>p_condition_set := True, p_condition := (if is_opt token ''NX'' then PNx else PXx)\<rparr>) rest
     else if is_opt token ''EX'' \<or> is_opt token ''PX'' \<or> is_opt token ''EXAT'' \<or> is_opt token ''PXAT'' \<or>
             is_opt token ''KEEPTTL'' then
       if p_expiry_set p then Inl syntax_error
       else if is_opt token ''KEEPTTL'' then parse_msetex_options (p\<lparr>p_expiry_set := True, p_expiry := PKeepTtl\<rparr>) rest
       else (case rest of
               [] \<Rightarrow> Inl syntax_error
             | raw # rest' \<Rightarrow> attempt (attempt (arg_bytes raw) (\<lambda>raw. parse_positive_u64 raw ''msetex'')) (\<lambda>n.
                 parse_msetex_options (p\<lparr>p_expiry_set := True, p_expiry := expiry_token token n\<rparr>) rest'))
     else Inl syntax_error)"

fun count_present :: "('s, 'v) store_api \<Rightarrow> nat \<Rightarrow> frame list \<Rightarrow> ('s, nat) handler" where
  "count_present A now (k # v # args) = try_in (arg_bytes k) (\<lambda>key.
     call (api_get A key now) (\<lambda>value.
     and_then (count_present A now args) (\<lambda>present. give (if value \<noteq> None then present + 1 else present))))"
| "count_present A now _ = give 0"

definition parse_numkeys :: "bytes \<Rightarrow> senko_error + nat" where
  "parse_numkeys raw =
     (case (if utf8_valid raw then parse_unsigned u64_max raw else None) of
        None \<Rightarrow> Inl (ProtocolMessage (ascii ''ERR numkeys value is not an integer or out of range''))
      | Some n \<Rightarrow> if n = 0 then Inl (ProtocolMessage (ascii ''ERR numkeys should be greater than 0'')) else Inr n)"

definition msetex_cmd :: "('s, 'v) store_api \<Rightarrow> 'v string_deps \<Rightarrow> nat \<Rightarrow> frame list \<Rightarrow> ('s, 'v senko_value response) handler" where
  "msetex_cmd A E now args = (case args of
      [] \<Rightarrow> fail (wrong_number ''msetex'')
    | a # rest \<Rightarrow> try_in (attempt (arg_bytes a) parse_numkeys) (\<lambda>numkeys.
        if numkeys * 2 > u64_max then fail syntax_error
        else if length rest < numkeys * 2 then
          fail (ProtocolMessage (ascii ''ERR numkeys does not match number of key-value pairs''))
        else let pairs = take (numkeys * 2) rest in
          try_in (parse_msetex_options set_parse_start (drop (numkeys * 2) rest)) (\<lambda>p.
          and_then (count_present A now pairs) (\<lambda>present.
            if p_condition p = PNx \<and> present > 0 \<or> p_condition p = PXx \<and> present \<noteq> numkeys then give (RespInteger 0)
            else and_then (mset_loop A E now (store_expiry (p_expiry p)) pairs) (\<lambda>_. give (RespInteger (int numkeys)))))))"

text \<open>The commands by name, as the dispatcher of the server selects them.\<close>

datatype string_command = CGet | CSet | CSetnx | CSetex | CPsetex | CGetset | CGetdel | CGetex | CIncr | CDecr | CIncrby | CDecrby
  | CIncrbyfloat | CDigest | CDelex | CAppend | CStrlen | CGetrange | CSetrange | CSubstr | CMget | CMset | CMsetnx | CMsetex

fun run_string :: "('s, 'v) store_api \<Rightarrow> 'v string_deps \<Rightarrow> string_command \<Rightarrow> nat \<Rightarrow> frame list \<Rightarrow> ('s, 'v senko_value response) handler" where
  "run_string A E CGet = get_cmd A" | "run_string A E CSet = set_cmd A E" | "run_string A E CSetnx = setnx_cmd A E"
| "run_string A E CSetex = setex_cmd A E" | "run_string A E CPsetex = psetex_cmd A E" | "run_string A E CGetset = getset_cmd A E"
| "run_string A E CGetdel = getdel_cmd A" | "run_string A E CGetex = getex_cmd A" | "run_string A E CIncr = incr_cmd A"
| "run_string A E CDecr = decr_cmd A" | "run_string A E CIncrby = incrby_cmd A" | "run_string A E CDecrby = decrby_cmd A"
| "run_string A E CIncrbyfloat = incrbyfloat_cmd A E" | "run_string A E CDigest = digest_cmd A E" | "run_string A E CDelex = delex_cmd A E"
| "run_string A E CAppend = append_cmd A E" | "run_string A E CStrlen = strlen_cmd A E" | "run_string A E CGetrange = getrange_cmd A E"
| "run_string A E CSetrange = setrange_cmd A E" | "run_string A E CSubstr = substr_cmd A E" | "run_string A E CMget = mget_cmd A"
| "run_string A E CMset = mset_cmd A E" | "run_string A E CMsetnx = msetnx_cmd A E" | "run_string A E CMsetex = msetex_cmd A E"


section \<open>Handlers on related stores\<close>

lemma string_value_scalar [simp]: "string_value (Raw x)" "string_value (IntVal n)" "string_value (FloatVal f)" "\<not> string_value (Obj k y)"
  by (simp_all add: string_value_def)

lemma string_value_encode [simp]: "string_value (encode_attempt V raw)"
  by (simp add: encode_attempt_def split: option.split)

lemma related_condition [related_intros]:
  "related R a a' \<Longrightarrow> related R b b' \<Longrightarrow> related R c c' \<Longrightarrow> (\<And>x. related R (d x) (d' x)) \<Longrightarrow> (\<And>x. related R (e x) (e' x)) \<Longrightarrow>
   (\<And>x. related R (f x) (f' x)) \<Longrightarrow> (\<And>x. related R (g x) (g' x)) \<Longrightarrow>
     related R (case p of PAlways \<Rightarrow> a | PNx \<Rightarrow> b | PXx \<Rightarrow> c | PIfEq x \<Rightarrow> d x | PIfNe x \<Rightarrow> e x | PIfDeq x \<Rightarrow> f x | PIfDne x \<Rightarrow> g x)
       (case p of PAlways \<Rightarrow> a' | PNx \<Rightarrow> b' | PXx \<Rightarrow> c' | PIfEq x \<Rightarrow> d' x | PIfNe x \<Rightarrow> e' x | PIfDeq x \<Rightarrow> f' x | PIfDne x \<Rightarrow> g' x)"
  by (cases p) simp_all

lemma related_expiry [related_intros]:
  "related R a a' \<Longrightarrow> (\<And>x. related R (b x) (b' x)) \<Longrightarrow> (\<And>x. related R (c x) (c' x)) \<Longrightarrow> (\<And>x. related R (d x) (d' x)) \<Longrightarrow>
   (\<And>x. related R (e x) (e' x)) \<Longrightarrow> related R f f' \<Longrightarrow> related R g g' \<Longrightarrow>
     related R (case p of PNone \<Rightarrow> a | PEx x \<Rightarrow> b x | PPx x \<Rightarrow> c x | PExAt x \<Rightarrow> d x | PPxAt x \<Rightarrow> e x | PKeepTtl \<Rightarrow> f | PPersist \<Rightarrow> g)
       (case p of PNone \<Rightarrow> a' | PEx x \<Rightarrow> b' x | PPx x \<Rightarrow> c' x | PExAt x \<Rightarrow> d' x | PPxAt x \<Rightarrow> e' x | PKeepTtl \<Rightarrow> f' | PPersist \<Rightarrow> g')"
  by (cases p) simp_all

lemma related_not_string: "\<not> string_value v \<Longrightarrow> related R (try_in (ensure_string_value v) f) (try_in (ensure_string_value v) g)"
  by (simp add: ensure_string_value_def try_in_def related_fail)

context store_client
begin

lemma get_related_cmd: "related R (get_cmd A now args) (get_cmd B now args)"
  unfolding get_cmd_def by (intro related_intros calls related_not_string)

lemma digest_condition_related: "related R (digest_condition_matches A E now key c) (digest_condition_matches B E now key c)"
  unfolding digest_condition_matches_def by (intro related_intros calls)

lemma set_related_cmd: "related R (set_cmd A E now args) (set_cmd B E now args)"
  unfolding set_cmd_def by (intro related_intros calls digest_condition_related string_value_encode)

lemma set_variants_related:
  "related R (setnx_cmd A E now args) (setnx_cmd B E now args)" "related R (setex_cmd A E now args) (setex_cmd B E now args)"
  "related R (psetex_cmd A E now args) (psetex_cmd B E now args)" "related R (getset_cmd A E now args) (getset_cmd B E now args)"
  unfolding setnx_cmd_def setex_cmd_def psetex_cmd_def getset_cmd_def by (intro related_intros calls string_value_encode)+

lemma get_variants_related:
  "related R (getdel_cmd A now args) (getdel_cmd B now args)" "related R (getex_cmd A now args) (getex_cmd B now args)"
  unfolding getdel_cmd_def getex_cmd_def by (intro related_intros calls)+

lemma increment_related: "related R (increment_i64 A now key d add) (increment_i64 B now key d add)"
  unfolding increment_i64_def by (intro related_intros calls string_value_scalar)

lemma counters_related:
  "related R (incr_cmd A now args) (incr_cmd B now args)" "related R (decr_cmd A now args) (decr_cmd B now args)"
  "related R (incrby_cmd A now args) (incrby_cmd B now args)" "related R (decrby_cmd A now args) (decrby_cmd B now args)"
  "related R (incrbyfloat_cmd A E now args) (incrbyfloat_cmd B E now args)"
  unfolding incr_cmd_def decr_cmd_def incrby_cmd_def decrby_cmd_def incrbyfloat_cmd_def
  by (intro related_intros calls increment_related string_value_scalar)+

lemma digests_related:
  "related R (digest_cmd A E now args) (digest_cmd B E now args)" "related R (delex_cmd A E now args) (delex_cmd B E now args)"
  unfolding digest_cmd_def delex_cmd_def by (intro related_intros calls)+

lemma append_related: "related R (append_cmd A E now args) (append_cmd B E now args)"
  unfolding append_cmd_def Let_def by (intro related_intros calls) simp

lemma parts_related:
  "related R (strlen_cmd A E now args) (strlen_cmd B E now args)" "related R (getrange_cmd A E now args) (getrange_cmd B E now args)"
  "related R (substr_cmd A E now args) (substr_cmd B E now args)" "related R (setrange_cmd A E now args) (setrange_cmd B E now args)"
  unfolding strlen_cmd_def getrange_cmd_def setrange_cmd_def substr_cmd_def by (intro related_intros calls string_value_scalar)+

lemma mget_loop_related: "related R (mget_loop A now args) (mget_loop B now args)"
  by (induction args) (simp_all, (intro related_intros calls | assumption)+)

lemma mset_loop_related: "related R (mset_loop A E now x args) (mset_loop B E now x args)"
  by (induction args rule: induct_list012) (simp_all, (intro related_intros calls string_value_encode | assumption)+)

lemma presence_related:
  "related R (any_present A now args) (any_present B now args)" "related R (count_present A now args) (count_present B now args)"
  by (induction args rule: induct_list012) (simp_all, (intro related_intros calls | assumption)+)

lemma batches_related:
  "related R (mget_cmd A now args) (mget_cmd B now args)" "related R (mset_cmd A E now args) (mset_cmd B E now args)"
  "related R (msetnx_cmd A E now args) (msetnx_cmd B E now args)" "related R (msetex_cmd A E now args) (msetex_cmd B E now args)"
  unfolding mget_cmd_def mset_cmd_def msetnx_cmd_def msetex_cmd_def
  by (intro related_intros calls mget_loop_related mset_loop_related presence_related)+

lemma run_string_related: "related R (run_string A E c now args) (run_string B E c now args)"
  by (cases c) (simp_all add: get_related_cmd set_related_cmd set_variants_related get_variants_related counters_related digests_related
      append_related parts_related batches_related)

end

end
