(* ===== verification/StringSpec.thy ===== *)
theory StringSpec
  imports StringCommands
begin

text \<open>
  What the string commands promise, stated on the visible keyspace without handlers: \<open>request\<close> is a call
  as a client means it, \<open>request_frames\<close> its words on the wire, \<open>request_spec\<close> its reply and its effect on a
  map from keys to values with deadlines. The handlers of StringCommands, run on the store, give what
  the specification gives for every sequence of requests, and a command that fails changes nothing.
\<close>

section \<open>Requests\<close>

datatype request =
    QGet bytes
  | QSet bytes bytes parsed_condition parsed_expiry bool
  | QSetnx bytes bytes
  | QSetex bytes nat bytes
  | QPsetex bytes nat bytes
  | QGetset bytes bytes
  | QGetdel bytes
  | QGetex bytes parsed_expiry
  | QIncr bytes
  | QDecr bytes
  | QIncrby bytes int
  | QDecrby bytes int
  | QIncrbyfloat bytes bytes
  | QDigest bytes
  | QDelex bytes parsed_condition
  | QAppend bytes bytes
  | QStrlen bytes
  | QGetrange bytes int int
  | QSetrange bytes nat bytes
  | QMget "bytes list"
  | QMset "(bytes \<times> bytes) list"
  | QMsetnx "(bytes \<times> bytes) list"
  | QMsetex "(bytes \<times> bytes) list" parsed_condition parsed_expiry

fun condition_words :: "parsed_condition \<Rightarrow> bytes list" where
  "condition_words PAlways = []"
| "condition_words PNx = [ascii ''NX'']"
| "condition_words PXx = [ascii ''XX'']"
| "condition_words (PIfEq v) = [ascii ''IFEQ'', v]"
| "condition_words (PIfNe v) = [ascii ''IFNE'', v]"
| "condition_words (PIfDeq d) = [ascii ''IFDEQ'', d]"
| "condition_words (PIfDne d) = [ascii ''IFDNE'', d]"

fun expiry_words :: "parsed_expiry \<Rightarrow> bytes list" where
  "expiry_words PNone = []"
| "expiry_words (PEx n) = [ascii ''EX'', dec_nat n]"
| "expiry_words (PPx n) = [ascii ''PX'', dec_nat n]"
| "expiry_words (PExAt n) = [ascii ''EXAT'', dec_nat n]"
| "expiry_words (PPxAt n) = [ascii ''PXAT'', dec_nat n]"
| "expiry_words PKeepTtl = [ascii ''KEEPTTL'']"
| "expiry_words PPersist = [ascii ''PERSIST'']"

definition pair_words :: "(bytes \<times> bytes) list \<Rightarrow> bytes list" where
  "pair_words ps = concat (map (\<lambda>(k, v). [k, v]) ps)"

fun request_words :: "request \<Rightarrow> string_command \<times> bytes list" where
  "request_words (QGet k) = (CGet, [k])"
| "request_words (QSet k v c x get) = (CSet, [k, v] @ condition_words c @ expiry_words x @ (if get then [ascii ''GET''] else []))"
| "request_words (QSetnx k v) = (CSetnx, [k, v])"
| "request_words (QSetex k n v) = (CSetex, [k, dec_nat n, v])"
| "request_words (QPsetex k n v) = (CPsetex, [k, dec_nat n, v])"
| "request_words (QGetset k v) = (CGetset, [k, v])"
| "request_words (QGetdel k) = (CGetdel, [k])"
| "request_words (QGetex k x) = (CGetex, k # expiry_words x)"
| "request_words (QIncr k) = (CIncr, [k])"
| "request_words (QDecr k) = (CDecr, [k])"
| "request_words (QIncrby k d) = (CIncrby, [k, dec_int d])"
| "request_words (QDecrby k d) = (CDecrby, [k, dec_int d])"
| "request_words (QIncrbyfloat k raw) = (CIncrbyfloat, [k, raw])"
| "request_words (QDigest k) = (CDigest, [k])"
| "request_words (QDelex k c) = (CDelex, k # condition_words c)"
| "request_words (QAppend k v) = (CAppend, [k, v])"
| "request_words (QStrlen k) = (CStrlen, [k])"
| "request_words (QGetrange k a b) = (CGetrange, [k, dec_int a, dec_int b])"
| "request_words (QSetrange k n v) = (CSetrange, [k, dec_nat n, v])"
| "request_words (QMget ks) = (CMget, ks)"
| "request_words (QMset ps) = (CMset, pair_words ps)"
| "request_words (QMsetnx ps) = (CMsetnx, pair_words ps)"
| "request_words (QMsetex ps c x) = (CMsetex, dec_nat (length ps) # pair_words ps @ condition_words c @ expiry_words x)"

definition request_frames :: "request \<Rightarrow> string_command \<times> frame list" where
  "request_frames r = (case request_words r of (c, ws) \<Rightarrow> (c, map BulkString ws))"

text \<open>Requests a client can express: keys of valid UTF-8, numbers in the ranges of the parsers, and only the options
  the command has.\<close>

fun condition_ok :: "parsed_condition \<Rightarrow> bool" where
  "condition_ok (PIfDeq d) \<longleftrightarrow> length d = 16"
| "condition_ok (PIfDne d) \<longleftrightarrow> length d = 16"
| "condition_ok _ \<longleftrightarrow> True"

fun expiry_ok :: "parsed_expiry \<Rightarrow> bool" where
  "expiry_ok (PEx n) \<longleftrightarrow> 0 < n \<and> n \<le> u64_max"
| "expiry_ok (PPx n) \<longleftrightarrow> 0 < n \<and> n \<le> u64_max"
| "expiry_ok (PExAt n) \<longleftrightarrow> 0 < n \<and> n \<le> u64_max"
| "expiry_ok (PPxAt n) \<longleftrightarrow> 0 < n \<and> n \<le> u64_max"
| "expiry_ok _ \<longleftrightarrow> True"

definition pairs_ok :: "(bytes \<times> bytes) list \<Rightarrow> bool" where
  "pairs_ok ps \<longleftrightarrow> ps \<noteq> [] \<and> length ps * 2 \<le> u64_max \<and> list_all (\<lambda>(k, _). utf8_valid k) ps"

fun request_ok :: "request \<Rightarrow> bool" where
  "request_ok (QSet k _ c x _) \<longleftrightarrow> utf8_valid k \<and> condition_ok c \<and> expiry_ok x \<and> x \<noteq> PPersist"
| "request_ok (QSetnx k _) \<longleftrightarrow> utf8_valid k"
| "request_ok (QSetex k n _) \<longleftrightarrow> utf8_valid k \<and> 0 < n \<and> n \<le> u64_max"
| "request_ok (QPsetex k n _) \<longleftrightarrow> utf8_valid k \<and> 0 < n \<and> n \<le> u64_max"
| "request_ok (QGetset k _) \<longleftrightarrow> utf8_valid k"
| "request_ok (QGetex k x) \<longleftrightarrow> expiry_ok x \<and> x \<noteq> PKeepTtl"
| "request_ok (QIncr k) \<longleftrightarrow> utf8_valid k"
| "request_ok (QDecr k) \<longleftrightarrow> utf8_valid k"
| "request_ok (QIncrby k d) \<longleftrightarrow> utf8_valid k \<and> in_i64 d"
| "request_ok (QDecrby k d) \<longleftrightarrow> utf8_valid k \<and> in_i64 d"
| "request_ok (QIncrbyfloat k _) \<longleftrightarrow> utf8_valid k"
| "request_ok (QDelex k c) \<longleftrightarrow> condition_ok c \<and> c \<noteq> PNx \<and> c \<noteq> PXx"
| "request_ok (QAppend k _) \<longleftrightarrow> utf8_valid k"
| "request_ok (QGetrange k a b) \<longleftrightarrow> in_i64 a \<and> in_i64 b"
| "request_ok (QSetrange k n _) \<longleftrightarrow> utf8_valid k \<and> int n \<le> i64_max"
| "request_ok (QMget ks) \<longleftrightarrow> ks \<noteq> []"
| "request_ok (QMset ps) \<longleftrightarrow> pairs_ok ps"
| "request_ok (QMsetnx ps) \<longleftrightarrow> pairs_ok ps"
| "request_ok (QMsetex ps c x) \<longleftrightarrow> pairs_ok ps \<and> c \<in> {PAlways, PNx, PXx} \<and> expiry_ok x \<and> x \<noteq> PPersist"
| "request_ok _ \<longleftrightarrow> True"

section \<open>The specification\<close>

abbreviation value_at :: "'v senko_value keyspace \<Rightarrow> bytes \<Rightarrow> 'v senko_value option" where
  "value_at m k \<equiv> map_option fst (m k)"

abbreviation deadline_at :: "'v senko_value keyspace \<Rightarrow> bytes \<Rightarrow> nat option" where
  "deadline_at m k \<equiv> Option.bind (m k) snd"

definition not_string :: "'v senko_value \<Rightarrow> senko_error" where
  "not_string v = WrongType (ascii ''string'') (value_type_name v)"

text \<open>The string at a key, empty when there is none.\<close>

definition string_at :: "'v string_deps \<Rightarrow> 'v senko_value keyspace \<Rightarrow> bytes \<Rightarrow> senko_error + bytes" where
  "string_at E m k = (case value_at m k of
      None \<Rightarrow> Inr []
    | Some v \<Rightarrow> if string_value v then Inr (as_bytes (scd_values E) v) else Inl (not_string v))"

text \<open>Writing a value with a deadline, which takes effect unless the deadline has passed.\<close>

definition put_at :: "nat \<Rightarrow> bytes \<Rightarrow> 'v senko_value \<Rightarrow> nat option \<Rightarrow> 'v senko_value keyspace \<Rightarrow> 'v senko_value keyspace" where
  "put_at now k v d m = (if is_expired d now then m(k := None) else m(k \<mapsto> (v, d)))"

fun new_deadline :: "nat \<Rightarrow> parsed_expiry \<Rightarrow> nat option \<Rightarrow> nat option" where
  "new_deadline now (PEx n) _ = Some (sat_add64 now (sat_mul64 n 1000))"
| "new_deadline now (PPx n) _ = Some (sat_add64 now n)"
| "new_deadline now (PExAt n) _ = Some (sat_mul64 n 1000)"
| "new_deadline now (PPxAt n) _ = Some n"
| "new_deadline now PKeepTtl old = old"
| "new_deadline now PNone _ = None"
| "new_deadline now PPersist _ = None"

text \<open>The condition of a SET on the value there is; a digest can only be asked of a string.\<close>

fun satisfied :: "'v string_deps \<Rightarrow> parsed_condition \<Rightarrow> 'v senko_value option \<Rightarrow> bool" where
  "satisfied E PAlways old \<longleftrightarrow> True"
| "satisfied E PNx old \<longleftrightarrow> old = None"
| "satisfied E PXx old \<longleftrightarrow> old \<noteq> None"
| "satisfied E (PIfEq t) old \<longleftrightarrow> (case old of None \<Rightarrow> False | Some v \<Rightarrow> as_bytes (scd_values E) v = t)"
| "satisfied E (PIfNe t) old \<longleftrightarrow> (case old of None \<Rightarrow> False | Some v \<Rightarrow> as_bytes (scd_values E) v \<noteq> t)"
| "satisfied E (PIfDeq d) old \<longleftrightarrow> (case old of None \<Rightarrow> False | Some v \<Rightarrow> digest_16_hex E (as_bytes (scd_values E) v) = map lower_ascii d)"
| "satisfied E (PIfDne d) old \<longleftrightarrow> (case old of None \<Rightarrow> True | Some v \<Rightarrow> digest_16_hex E (as_bytes (scd_values E) v) \<noteq> map lower_ascii d)"

fun asks_digest :: "parsed_condition \<Rightarrow> bool" where
  "asks_digest (PIfDeq _) \<longleftrightarrow> True" | "asks_digest (PIfDne _) \<longleftrightarrow> True" | "asks_digest _ \<longleftrightarrow> False"

text \<open>The number at a key, zero when there is none: an integer, or a text the integer parser accepts.\<close>

definition number_at :: "'v senko_value keyspace \<Rightarrow> bytes \<Rightarrow> senko_error + int" where
  "number_at m k = (case value_at m k of
      None \<Rightarrow> Inr 0
    | Some (IntVal n) \<Rightarrow> Inr n
    | Some (Raw raw) \<Rightarrow> (case parse_i64_spec raw of Some n \<Rightarrow> Inr n | None \<Rightarrow> Inl integer_range_error)
    | Some _ \<Rightarrow> Inl integer_range_error)"

definition add_spec :: "nat \<Rightarrow> 'v senko_value keyspace \<Rightarrow> bytes \<Rightarrow> int \<Rightarrow> (senko_error + 'v senko_value response) \<times> 'v senko_value keyspace" where
  "add_spec now m k d = (case number_at m k of
      Inl e \<Rightarrow> (Inl e, m)
    | Inr n \<Rightarrow> if in_i64 (n + d) then (Inr (RespInteger (n + d)), put_at now k (IntVal (n + d)) (deadline_at m k) m)
               else (Inl overflow_error, m))"

definition add_float_spec ::
    "'v string_deps \<Rightarrow> nat \<Rightarrow> 'v senko_value keyspace \<Rightarrow> bytes \<Rightarrow> bytes \<Rightarrow> (senko_error + 'v senko_value response) \<times> 'v senko_value keyspace" where
  "add_float_spec E now m k raw = (case parse_f64 (scd_arith E) raw of
      None \<Rightarrow> (Inl float_value_error, m)
    | Some x \<Rightarrow>
        if \<not> f64_finite x then (Inl float_nan_inf_error, m)
        else (case (case value_at m k of None \<Rightarrow> Inr f64_zero | Some v \<Rightarrow> value_as_f64 (scd_arith E) v) of
                Inl e \<Rightarrow> (Inl e, m)
              | Inr y \<Rightarrow>
                  if \<not> f64_finite (f64_add y x) then (Inl float_nan_inf_error, m)
                  else (Inr (RespValue (Some (Raw (format_f64_no_scientific (scd_arith E) (f64_add y x))))),
                        put_at now k (FloatVal (f64_add y x)) (deadline_at m k) m)))"

text \<open>The bytes from position \<open>a\<close> to position \<open>b\<close>, both included; negative positions count from the end, and a
  position before the beginning is the first.\<close>

definition position_of :: "nat \<Rightarrow> int \<Rightarrow> nat" where
  "position_of n i = nat (if i < 0 then int n + i else i)"

definition substring :: "bytes \<Rightarrow> int \<Rightarrow> int \<Rightarrow> bytes" where
  "substring t a b =
     (if a < 0 \<and> b < a then []
      else map (nth t) (filter (\<lambda>i. position_of (length t) a \<le> i \<and> i \<le> position_of (length t) b) [0..<length t]))"

text \<open>A text with \<open>new\<close> written at position \<open>n\<close>; zero bytes fill a gap.\<close>

definition written :: "bytes \<Rightarrow> nat \<Rightarrow> bytes \<Rightarrow> bytes" where
  "written t n new = map (\<lambda>i. if n \<le> i \<and> i < n + length new then new ! (i - n) else if i < length t then t ! i else 0)
     [0..<max (length t) (n + length new)]"

fun delete_applies :: "'v string_deps \<Rightarrow> parsed_condition \<Rightarrow> 'v senko_value \<Rightarrow> bool" where
  "delete_applies E (PIfEq t) v \<longleftrightarrow> value_wire_bytes E v = t"
| "delete_applies E (PIfNe t) v \<longleftrightarrow> value_wire_bytes E v \<noteq> t"
| "delete_applies E (PIfDeq d) v \<longleftrightarrow> digest_16_hex E (value_wire_bytes E v) = map lower_ascii d"
| "delete_applies E (PIfDne d) v \<longleftrightarrow> digest_16_hex E (value_wire_bytes E v) \<noteq> map lower_ascii d"
| "delete_applies E _ v \<longleftrightarrow> True"

text \<open>Writing pairs from left to right.\<close>

definition put_all ::
    "'v string_deps \<Rightarrow> nat \<Rightarrow> parsed_expiry \<Rightarrow> (bytes \<times> bytes) list \<Rightarrow> 'v senko_value keyspace \<Rightarrow> 'v senko_value keyspace" where
  "put_all E now x ps m =
     foldl (\<lambda>m (k, raw). put_at now k (encode_attempt (scd_values E) raw) (new_deadline now x (deadline_at m k)) m) m ps"

fun request_spec ::
    "'v string_deps \<Rightarrow> nat \<Rightarrow> 'v senko_value keyspace \<Rightarrow> request \<Rightarrow> (senko_error + 'v senko_value response) \<times> 'v senko_value keyspace" where
  "request_spec E now m (QGet k) =
     ((case value_at m k of
         None \<Rightarrow> Inr (RespValue None)
       | Some v \<Rightarrow> if string_value v then Inr (RespValue (Some v)) else Inl (not_string v)), m)"
| "request_spec E now m (QSet k raw c x get) =
     (let old = value_at m k in
      if asks_digest c \<and> (case old of None \<Rightarrow> False | Some v \<Rightarrow> \<not> string_value v) then (Inl (not_string (the old)), m)
      else if \<not> satisfied E c old then (Inr (RespValue (if get then old else None)), m)
      else (Inr (if get then RespValue old else Simple OK),
            put_at now k (encode_attempt (scd_values E) raw) (new_deadline now x (deadline_at m k)) m))"
| "request_spec E now m (QSetnx k raw) =
     (if m k = None then (Inr (RespInteger 1), put_at now k (encode_attempt (scd_values E) raw) None m)
      else (Inr (RespInteger 0), m))"
| "request_spec E now m (QSetex k n raw) =
     (Inr (Simple OK), put_at now k (encode_attempt (scd_values E) raw) (Some (sat_add64 now (sat_mul64 n 1000))) m)"
| "request_spec E now m (QPsetex k n raw) =
     (Inr (Simple OK), put_at now k (encode_attempt (scd_values E) raw) (Some (sat_add64 now n)) m)"
| "request_spec E now m (QGetset k raw) = (case string_at E m k of
      Inl e \<Rightarrow> (Inl e, m)
    | Inr _ \<Rightarrow> (Inr (RespValue (value_at m k)), put_at now k (encode_attempt (scd_values E) raw) None m))"
| "request_spec E now m (QGetdel k) = (case string_at E m k of
      Inl e \<Rightarrow> (Inl e, m)
    | Inr _ \<Rightarrow> (Inr (RespValue (value_at m k)), m(k := None)))"
| "request_spec E now m (QGetex k x) = (case string_at E m k of
      Inl e \<Rightarrow> (Inl e, m)
    | Inr _ \<Rightarrow> (Inr (RespValue (value_at m k)),
                if x = PNone then m
                else (case value_at m k of None \<Rightarrow> m | Some v \<Rightarrow> put_at now k v (new_deadline now x None) m)))"
| "request_spec E now m (QIncr k) = add_spec now m k 1"
| "request_spec E now m (QDecr k) = add_spec now m k (- 1)"
| "request_spec E now m (QIncrby k d) = add_spec now m k d"
| "request_spec E now m (QDecrby k d) = add_spec now m k (- d)"
| "request_spec E now m (QIncrbyfloat k raw) = add_float_spec E now m k raw"
| "request_spec E now m (QDigest k) =
     (Inr (RespValue (map_option (\<lambda>v. Raw (digest_16_hex E (value_wire_bytes E v))) (value_at m k))), m)"
| "request_spec E now m (QDelex k c) =
     (if (case value_at m k of None \<Rightarrow> False | Some v \<Rightarrow> delete_applies E c v) then (Inr (RespInteger 1), m(k := None))
      else (Inr (RespInteger 0), m))"
| "request_spec E now m (QAppend k raw) = (case string_at E m k of
      Inl e \<Rightarrow> (Inl e, m)
    | Inr t \<Rightarrow> let t' = t @ raw in
        if length t' > MAX_STRING_SIZE then (Inl size_error, m)
        else (Inr (RespInteger (int (length t'))),
              put_at now k (if length t' \<le> 20 then encode_attempt (scd_values E) t' else Raw t') (deadline_at m k) m))"
| "request_spec E now m (QStrlen k) = (map_sum id (\<lambda>t. RespInteger (int (length t))) (string_at E m k), m)"
| "request_spec E now m (QGetrange k a b) =
     (map_sum id (\<lambda>t. RespValue (Some (Raw (substring t a b)))) (string_at E m k), m)"
| "request_spec E now m (QSetrange k n new) =
     (if new = [] then (Inr (RespInteger (case value_at m k of None \<Rightarrow> 0 | Some v \<Rightarrow> int (value_len E v))), m)
      else (case string_at E m k of
        Inl e \<Rightarrow> (Inl e, m)
      | Inr t \<Rightarrow>
          if n + length new > MAX_STRING_SIZE then (Inl size_error, m)
          else (Inr (RespInteger (int (max (length t) (n + length new)))), put_at now k (Raw (written t n new)) (deadline_at m k) m)))"
| "request_spec E now m (QMget ks) =
     ((case List.find (\<lambda>v. \<not> string_value v) (List.map_filter (value_at m) ks) of
         Some v \<Rightarrow> Inl (not_string v)
       | None \<Rightarrow> Inr (RespArray (map (\<lambda>k. RespValue (value_at m k)) ks))), m)"
| "request_spec E now m (QMset ps) = (Inr (Simple OK), put_all E now PNone ps m)"
| "request_spec E now m (QMsetnx ps) =
     (if list_all (\<lambda>(k, _). m k = None) ps then (Inr (RespInteger 1), put_all E now PNone ps m)
      else (Inr (RespInteger 0), m))"
| "request_spec E now m (QMsetex ps c x) =
     (if c = PNx \<and> list_ex (\<lambda>(k, _). m k \<noteq> None) ps \<or> c = PXx \<and> list_ex (\<lambda>(k, _). m k = None) ps then (Inr (RespInteger 0), m)
      else (Inr (RespInteger (int (length ps))), put_all E now x ps m))"

section \<open>The words of the options are read back\<close>

lemma is_opt_self [simp]: "is_opt (ascii w) w"
  by (simp add: is_opt_def)

lemma attempt_Inr [simp]: "attempt (Inr x) f = f x" and attempt_Inl [simp]: "attempt (Inl e) f = Inl e"
  by (simp_all add: attempt_def)

lemma arg_bytes_Bulk [simp]: "arg_bytes (BulkString w) = Inr w"
  by (simp add: arg_bytes_def)

lemma parse_positive_dec: "0 < n \<Longrightarrow> n \<le> u64_max \<Longrightarrow> parse_positive_u64 (dec_nat n) cmd = Inr n"
  by (simp add: parse_positive_u64_def parse_unsigned_dec_nat)

lemma parse_key_valid [simp]: "utf8_valid k \<Longrightarrow> parse_key k = Inr k"
  by (simp add: parse_key_def)

lemma parse_i64_fast_dec: "in_i64 d \<Longrightarrow> parse_i64_fast (dec_int d) = Some d"
proof -
  assume d: "in_i64 d"
  define n where "n = nat \<bar>d\<bar>"
  have l: "list_all is_digit (dec_nat n)" by (auto simp: list_all_iff dec_nat_digits)
  obtain n' where "digits_val 0 (dec_nat n) = Some n'" "digits_fold 0 (dec_nat n) = int n'" "n' < 10 ^ length (dec_nat n)"
    using digits_val_zero [OF l] by blast
  then have n: "digits_val 0 (dec_nat n) = Some n" "digits_fold 0 (dec_nat n) = int n" "n < 10 ^ length (dec_nat n)"
    by (simp_all add: digits_val_dec_nat)
  have "n < 10 ^ 19" using d by (auto simp: n_def in_i64_def)
  then have "length (dec_nat n) \<le> 19" by (rule dec_nat_length) simp
  then show ?thesis
    using d parse_digits(1,3) [OF l dec_nat_not_Nil n] by (cases "d < 0") (auto simp: dec_int_def n_def in_i64_def)
qed


definition option_words :: "string list" where
  "option_words = [''GET'', ''NX'', ''XX'', ''IFEQ'', ''IFNE'', ''IFDEQ'', ''IFDNE'', ''EX'', ''PX'', ''EXAT'', ''PXAT'', ''KEEPTTL'', ''PERSIST'']"

lemma option_words_lower: "map (\<lambda>w. map lower_ascii (ascii w)) option_words =
    [[103, 101, 116], [110, 120], [120, 120], [105, 102, 101, 113], [105, 102, 110, 101], [105, 102, 100, 101, 113], [105, 102, 100, 110, 101], [101, 120], [112, 120], [101, 120, 97, 116], [112, 120, 97, 116], [107, 101, 101, 112, 116, 116, 108], [112, 101, 114, 115, 105, 115, 116]]"
  by code_simp

lemma option_words_distinct: "list_all (\<lambda>a. list_all (\<lambda>b. is_opt (ascii a) b \<longleftrightarrow> a = b) option_words) option_words"
proof -
  have "inj_on (\<lambda>w. map lower_ascii (ascii w)) (set option_words)"
    using option_words_lower by (intro distinct_map [THEN iffD1, THEN conjunct2]) (simp only:, simp)
  then show ?thesis by (auto simp: list_all_iff is_opt_def dest: inj_onD)
qed

lemma is_opt_word: "a \<in> set option_words \<Longrightarrow> b \<in> set option_words \<Longrightarrow> is_opt (ascii a) b \<longleftrightarrow> a = b"
  using option_words_distinct by (auto simp: list_all_iff)

lemma parse_condition_words:
  assumes "condition_ok c" "\<not> p_condition_set p"
  shows "parse_set_options p (map BulkString (condition_words c) @ rest) =
    parse_set_options (if c = PAlways then p else p\<lparr>p_condition_set := True,
      p_condition := (case c of PIfDeq d \<Rightarrow> PIfDeq (map lower_ascii d) | PIfDne d \<Rightarrow> PIfDne (map lower_ascii d) | _ \<Rightarrow> c)\<rparr>) rest"
  using assms by (cases c) (simp_all add: is_opt_word option_words_def condition_token_def parse_digest_def)

lemma parse_expiry_words:
  assumes "expiry_ok x" "x \<noteq> PPersist" "\<not> p_expiry_set p"
  shows "parse_set_options p (map BulkString (expiry_words x) @ rest) =
    parse_set_options (if x = PNone then p else p\<lparr>p_expiry_set := True, p_expiry := x\<rparr>) rest"
  using assms by (cases x) (simp_all add: is_opt_word option_words_def expiry_token_def parse_positive_dec)

lemma parse_get_word: "\<not> p_get_old p \<Longrightarrow>
    parse_set_options p (map BulkString (if get then [ascii ''GET''] else [])) = Inr (if get then p\<lparr>p_get_old := True\<rparr> else p)"
  by simp


lemma parse_getex_words: "expiry_ok x \<Longrightarrow> x \<noteq> PKeepTtl \<Longrightarrow> parse_getex_options False PNone (map BulkString (expiry_words x)) = Inr x"
  by (cases x) (simp_all add: is_opt_word option_words_def expiry_token_def parse_positive_dec)

lemma parse_msetex_condition_words:
  assumes "c \<in> {PAlways, PNx, PXx}" "\<not> p_condition_set p"
  shows "parse_msetex_options p (map BulkString (condition_words c) @ rest) =
    parse_msetex_options (if c = PAlways then p else p\<lparr>p_condition_set := True, p_condition := c\<rparr>) rest"
  using assms by (auto simp: is_opt_word option_words_def)

lemma parse_msetex_expiry_words:
  assumes "expiry_ok x" "x \<noteq> PPersist" "\<not> p_expiry_set p"
  shows "parse_msetex_options p (map BulkString (expiry_words x)) = Inr (if x = PNone then p else p\<lparr>p_expiry_set := True, p_expiry := x\<rparr>)"
  using assms by (cases x) (simp_all add: is_opt_word option_words_def expiry_token_def parse_positive_dec)

section \<open>Handlers on the map\<close>

lemma handler_simps:
  "give x s = Some (Inr x, s)" "fail e s = Some (Inl e, s)"
  "try_in (Inr x) f s = f x s" "try_in (Inl e) f s = Some (Inl e, s)"
  by (simp_all add: give_def fail_def try_in_def)

lemma map_api_simps:
  "call (api_get (map_api V) k now) f m = f (value_at m k) m"
  "call (api_delete (map_api V) k now) g m = g (m k \<noteq> None) (m(k := None))"
  by (simp_all add: call_def map_api_def)

lemma put_at_purge: "purge now m = m \<Longrightarrow> purge now (m(k \<mapsto> (v, d))) = put_at now k v d m"
  by (auto simp: purge_def put_at_def fun_eq_iff split: if_splits)

lemma put_at_purged: "purge now m = m \<Longrightarrow> purge now (put_at now k v d m) = put_at now k v d m"
  by (auto simp: purge_def put_at_def fun_eq_iff split: if_splits)

lemma purge_updates:
  "purge now Map.empty = Map.empty" "purge now (m(k := None)) = (purge now m)(k := None)"
  "purge now (m(k \<mapsto> (v, d))) = put_at now k v d (purge now m)"
  by (auto simp: purge_def put_at_def fun_eq_iff)

lemma deadline_of_new: "deadline_of (store_expiry x) c now = new_deadline now x (Option.bind c snd)"
  by (cases x; cases c) (auto simp: store_expiry_def)

lemma map_api_set:
  assumes "purge now m = m"
  shows "call (api_set (map_api V) k v \<lparr>so_condition = Always, so_expiry = x, so_get_old = False\<rparr> now) (\<lambda>_. h) m =
    h (put_at now k v (deadline_of x (m k) now) m)"
  using assms by (simp add: call_def map_api_def put_at_purge condition_holds_def)

lemma map_api_set_nx:
  assumes "purge now m = m"
  shows "call (api_set (map_api V) k v \<lparr>so_condition = NX, so_expiry = NoExpiry, so_get_old = False\<rparr> now) f m =
    (if m k = None then f \<lparr>sr_applied = True, sr_old_value = None\<rparr> (put_at now k v None m)
     else f \<lparr>sr_applied = False, sr_old_value = None\<rparr> m)"
  using assms by (auto simp: call_def map_api_def put_at_purge condition_holds_def)

lemma materialize_string_at: "materialize_value_bytes E (value_at m k) = string_at E m k"
  by (auto simp: materialize_value_bytes_def string_at_def string_value_def not_string_def as_bytes_def split: option.split senko_value.split)

lemma ensure_string: "ensure_string_value v = (if string_value v then Inr () else Inl (not_string v))"
  by (simp add: ensure_string_value_def not_string_def)

abbreviation lower_digest :: "parsed_condition \<Rightarrow> parsed_condition" where
  "lower_digest c \<equiv> (case c of PIfDeq d \<Rightarrow> PIfDeq (map lower_ascii d) | PIfDne d \<Rightarrow> PIfDne (map lower_ascii d) | _ \<Rightarrow> c)"

lemma set_effect:
  assumes "purge now m = m" and "utf8_valid k" and "parse_set_options set_parse_start rest = Inr p"
    and "p_condition p = lower_digest c" and "p_expiry p = x" and "p_get_old p = get"
  shows "set_cmd (map_api (scd_values E)) E now (BulkString k # BulkString raw # rest) m = Some (request_spec E now m (QSet k raw c x get))"
  using assms
  by (cases c; cases "m k")
     (auto simp: set_cmd_def handler_simps and_then_def digest_condition_matches_def map_api_simps ensure_string Let_def
        call_def map_api_def put_at_purge condition_holds_def store_condition_def deadline_of_new)

lemma set_options_parsed:
  assumes "condition_ok c" "expiry_ok x" "x \<noteq> PPersist"
  shows "\<exists>p. parse_set_options set_parse_start (map BulkString (condition_words c @ expiry_words x @ (if get then [ascii ''GET''] else []))) = Inr p \<and>
    p_condition p = lower_digest c \<and> p_expiry p = x \<and> p_get_old p = get"
proof -
  define q where "q = (if c = PAlways then set_parse_start else set_parse_start\<lparr>p_condition_set := True, p_condition := lower_digest c\<rparr>)"
  define q' where "q' = (if x = PNone then q else q\<lparr>p_expiry_set := True, p_expiry := x\<rparr>)"
  have q: "\<not> p_expiry_set q" "\<not> p_get_old q'" "p_condition q' = lower_digest c" "p_expiry q' = x"
    by (auto simp: q_def q'_def set_parse_start_def)
  have "parse_set_options set_parse_start (map BulkString (condition_words c @ expiry_words x @ (if get then [ascii ''GET''] else []))) =
      Inr (if get then q'\<lparr>p_get_old := True\<rparr> else q')"
    using parse_condition_words [OF assms(1), of set_parse_start] parse_expiry_words [OF assms(2,3) q(1)] parse_get_word [OF q(2)]
    unfolding map_append q_def [symmetric] q'_def [symmetric] by (simp add: set_parse_start_def)
  then show ?thesis using q by simp
qed

lemma increment_request:
  assumes "purge now m = m" and "utf8_valid k"
  shows "increment_i64 (map_api V) now k d True m = Some (add_spec now m k d)"
    and "increment_i64 (map_api V) now k d False m = Some (add_spec now m k (- d))"
proof -
  have n: "(case value_at m k of None \<Rightarrow> Inr 0 | Some v \<Rightarrow> value_as_i64 v) = number_at m k"
    by (auto simp: number_at_def value_as_i64_def parse_i64_fast_eq split: option.split senko_value.split)
  have d: "deadline_of (if value_at m k \<noteq> None then KeepTtl else NoExpiry) (m k) now = deadline_at m k"
    by (cases "m k") auto
  show "increment_i64 (map_api V) now k d True m = Some (add_spec now m k d)"
    "increment_i64 (map_api V) now k d False m = Some (add_spec now m k (- d))"
    using assms n d
    by (auto simp: increment_i64_def map_api_simps keep_ttl_if_def map_api_set handler_simps add_spec_def checked_add_i64_def
        checked_sub_i64_def try_in_def fail_def give_def split: sum.split)
qed

lemma int_len_loop_eq: "int_len_loop n d = (if n = 0 then d else d + length (dec_nat n))"
proof (induction n arbitrary: d rule: less_induct)
  case (less n)
  show ?case using less.IH [of "n div 10" "d + 1"] by (auto simp: int_len_loop.simps [of n] dec_nat.simps [of n])
qed

lemma int_len_eq: "int_len n = length (dec_int n)"
  by (auto simp: int_len_def int_len_loop_eq dec_int_def dec_nat.simps [of 0])

lemma slice_range_eq:
  "slice_range t a b =
     (let s = position_of (length t) a; e = min (position_of (length t) b) (length t - 1)
      in if t = [] \<or> a < 0 \<and> b < a \<or> length t \<le> s \<or> e < s then None else Some (s, e + 1))"
proof -
  define s where "s = position_of (length t) a"
  define e where "e = position_of (length t) b"
  have p: "max (if a < 0 then int (length t) + a else a) 0 = int s" "max (if b < 0 then int (length t) + b else b) 0 = int e"
    by (simp_all add: s_def e_def position_of_def)
  have l: "(if int (length t) \<le> int e then int (length t) - 1 else int e) = int (min e (length t - 1))" if "t \<noteq> []"
    using that by (cases t) (auto simp: min_def)
  show ?thesis
    unfolding slice_range_def Let_def p s_def [symmetric] e_def [symmetric] using l by (auto simp: nat_add_distrib)
qed

lemma filter_between: "filter (\<lambda>i. s \<le> i \<and> i \<le> e) [0..<n] = [s..<min (Suc e) n]"
  by (induction n) (auto simp: min_def not_le less_Suc_eq_le)

lemma slice_owned_eq: "slice_owned t a b = substring t a b"
proof -
  define s where "s = position_of (length t) a"
  define e where "e = position_of (length t) b"
  have g: "map (nth t) [s..<min (Suc e) (length t)] = take (min (Suc e) (length t) - s) (drop s t)"
    by (simp add: list_eq_iff_nth_eq) (simp add: min_def)
  have "min e (length t - 1) + 1 = min (Suc e) (length t)" if "t \<noteq> []" using that by (cases t) auto
  then show ?thesis
    unfolding slice_owned_def slice_range_eq substring_def s_def [symmetric] e_def [symmetric] filter_between g Let_def by auto
qed

lemma overwrite_eq: "overwrite n new (pad_to (n + length new) (pad_to n t)) = written t n new"
proof -
  define u where "u = pad_to (n + length new) (pad_to n t)"
  have l: "length u = max (length t) (n + length new)" by (auto simp: u_def pad_to_def)
  have u: "u ! i = (if i < length t then t ! i else 0)" if "i < length u" for i
    using that l by (auto simp: u_def pad_to_def nth_append)
  show ?thesis
    unfolding u_def [symmetric]
  proof (rule nth_equalityI)
    show "length (overwrite n new u) = length (written t n new)" using l by (simp add: overwrite_def written_def)
    fix i assume "i < length (overwrite n new u)"
    then have "i < length u" using l by (simp add: overwrite_def)
    then show "overwrite n new u ! i = written t n new ! i"
      using u l by (auto simp: overwrite_def written_def nth_append min_def)
  qed
qed

lemma keep_deadline: "deadline_of (if value_at m k \<noteq> None then KeepTtl else NoExpiry) (m k) now = deadline_at m k"
  by (cases "m k") auto

lemma single_requests:
  assumes m: "purge now m = m"
  shows "get_cmd (map_api V) now [BulkString k] m = Some (request_spec E now m (QGet k))"
    and "utf8_valid k \<Longrightarrow> setnx_cmd (map_api (scd_values E)) E now [BulkString k, BulkString raw] m = Some (request_spec E now m (QSetnx k raw))"
    and "utf8_valid k \<Longrightarrow> 0 < n \<Longrightarrow> n \<le> u64_max \<Longrightarrow>
      setex_cmd (map_api (scd_values E)) E now [BulkString k, BulkString (dec_nat n), BulkString raw] m = Some (request_spec E now m (QSetex k n raw))"
    and "utf8_valid k \<Longrightarrow> 0 < n \<Longrightarrow> n \<le> u64_max \<Longrightarrow>
      psetex_cmd (map_api (scd_values E)) E now [BulkString k, BulkString (dec_nat n), BulkString raw] m = Some (request_spec E now m (QPsetex k n raw))"
    and "utf8_valid k \<Longrightarrow> getset_cmd (map_api (scd_values E)) E now [BulkString k, BulkString raw] m = Some (request_spec E now m (QGetset k raw))"
    and "getdel_cmd (map_api V) now [BulkString k] m = Some (request_spec E now m (QGetdel k))"
    and "digest_cmd (map_api V) E now [BulkString k] m = Some (request_spec E now m (QDigest k))"
  using m
  by (auto simp: get_cmd_def setnx_cmd_def setex_cmd_def psetex_cmd_def getset_cmd_def getdel_cmd_def digest_cmd_def
      no_options_def map_api_simps map_api_set map_api_set_nx handler_simps parse_positive_dec ensure_string string_at_def split: option.split)

lemma getex_request:
  assumes "purge now m = m" and "expiry_ok x" and "x \<noteq> PKeepTtl"
  shows "getex_cmd (map_api V) now (BulkString k # map BulkString (expiry_words x)) m = Some (request_spec E now m (QGetex k x))"
proof -
  have r: "call (api_remove_expiry (map_api V) k now) f m = f () (case m k of None \<Rightarrow> m | Some (v, _) \<Rightarrow> put_at now k v None m)"
      "call (api_set_expiry (map_api V) k d now) f m = f () (case m k of None \<Rightarrow> m | Some (v, _) \<Rightarrow> put_at now k v (Some d) m)" for f d
    using assms(1) by (auto simp: call_def map_api_def put_at_purge put_at_def is_expired_def split: option.split)
  show ?thesis
    using assms parse_getex_words [OF assms(2,3)]
    by (cases x; cases "m k") (auto simp: getex_cmd_def map_api_simps r handler_simps ensure_string string_at_def)
qed

lemma incrbyfloat_request:
  assumes "purge now m = m" and "utf8_valid k"
  shows "incrbyfloat_cmd (map_api V) E now [BulkString k, BulkString raw] m = Some (request_spec E now m (QIncrbyfloat k raw))"
  using assms
  by (auto simp: incrbyfloat_cmd_def add_float_spec_def map_api_simps map_api_set keep_ttl_if_def handler_simps Let_def
      try_in_def fail_def give_def split: option.split sum.split)

lemma delex_request:
  assumes "condition_ok c" and "c \<noteq> PNx" and "c \<noteq> PXx"
  shows "delex_cmd (map_api V) E now (BulkString k # map BulkString (condition_words c)) m = Some (request_spec E now m (QDelex k c))"
  using assms
  by (cases c; cases "m k") (auto simp: delex_cmd_def delex_condition_def is_opt_word option_words_def parse_digest_def map_api_simps
      handler_simps should_delete_def)

lemma append_request:
  assumes "purge now m = m" and "utf8_valid k"
  shows "append_cmd (map_api (scd_values E)) E now [BulkString k, BulkString raw] m = Some (request_spec E now m (QAppend k raw))"
  using assms
  by (cases "string_at E m k") (auto simp: append_cmd_def map_api_simps map_api_set keep_ttl_if_def keep_deadline handler_simps Let_def
      materialize_string_at MAX_STRING_SIZE_def; cases "m k"; simp)+

lemma part_requests:
  "strlen_cmd (map_api V) E now [BulkString k] m = Some (request_spec E now m (QStrlen k))"
  "in_i64 a \<Longrightarrow> in_i64 b \<Longrightarrow> getrange_cmd (map_api V) E now [BulkString k, BulkString (dec_int a), BulkString (dec_int b)] m =
     Some (request_spec E now m (QGetrange k a b))"
  by (auto simp: strlen_cmd_def getrange_cmd_def parse_i64_text_def parse_signed_dec_int in_i64_def map_api_simps handler_simps string_at_def
      as_bytes_def int_len_eq slice_owned_eq substring_def not_string_def split: option.split senko_value.split)

lemma setrange_request:
  assumes "purge now m = m" and "utf8_valid k" and "int n \<le> i64_max"
  shows "setrange_cmd (map_api V) E now [BulkString k, BulkString (dec_nat n), BulkString new] m = Some (request_spec E now m (QSetrange k n new))"
proof -
  have "dec_nat n = dec_int (int n)" by (simp add: dec_int_def)
  then have p: "parse_non_negative_usize (dec_nat n) = Inr n"
    using assms(3) parse_signed_dec_int [of i64_min "int n" i64_max] by (simp add: parse_non_negative_usize_def parse_i64_text_def)
  have l: "length (written t n new) = max (length t) (n + length new)" for t by (simp add: written_def)
  show ?thesis
    using assms p
    by (cases "string_at E m k") (auto simp: setrange_cmd_def map_api_simps map_api_set keep_ttl_if_def keep_deadline handler_simps Let_def
        materialize_string_at overwrite_eq l MAX_STRING_SIZE_def split: option.split)
qed

lemma mget_loop_map:
  "mget_loop (map_api V) now (map BulkString ks) m =
     Some ((case List.find (\<lambda>v. \<not> string_value v) (List.map_filter (value_at m) ks) of
         Some v \<Rightarrow> Inl (not_string v)
       | None \<Rightarrow> Inr (map (\<lambda>k. RespValue (value_at m k)) ks)), m)"
proof (induction ks)
  case (Cons k ks)
  then show ?case
    by (cases "m k") (auto simp: map_api_simps handler_simps ensure_string and_then_def List.map_filter_simps split: option.split)
qed (simp add: handler_simps List.map_filter_simps)

lemma pair_words_Cons [simp]: "pair_words ((k, v) # ps) = k # v # pair_words ps" and pair_words_Nil [simp]: "pair_words [] = []"
  by (simp_all add: pair_words_def)

lemma length_pair_words: "length (pair_words ps) = length ps * 2"
  by (induction ps) auto

lemma mset_loop_map:
  "purge now m = m \<Longrightarrow> list_all (\<lambda>(k, _). utf8_valid k) ps \<Longrightarrow>
     mset_loop (map_api (scd_values E)) E now (store_expiry x) (map BulkString (pair_words ps)) m = Some (Inr (), put_all E now x ps m)"
  by (induction ps arbitrary: m) (auto simp: handler_simps put_all_def map_api_set deadline_of_new put_at_purged)

lemma any_present_map:
  "any_present (map_api V) now (map BulkString (pair_words ps)) m = Some (Inr (list_ex (\<lambda>(k, _). m k \<noteq> None) ps), m)"
  by (induction ps) (auto simp: handler_simps map_api_simps)

lemma count_present_map:
  "count_present (map_api V) now (map BulkString (pair_words ps)) m = Some (Inr (length (filter (\<lambda>(k, _). m k \<noteq> None) ps)), m)"
  by (induction ps) (auto simp: handler_simps map_api_simps and_then_def)

lemma batch_requests:
  assumes m: "purge now m = m"
  shows "ks \<noteq> [] \<Longrightarrow> mget_cmd (map_api V) now (map BulkString ks) m = Some (request_spec E now m (QMget ks))"
    and "pairs_ok ps \<Longrightarrow> mset_cmd (map_api (scd_values E)) E now (map BulkString (pair_words ps)) m = Some (request_spec E now m (QMset ps))"
    and "pairs_ok ps \<Longrightarrow> msetnx_cmd (map_api (scd_values E)) E now (map BulkString (pair_words ps)) m = Some (request_spec E now m (QMsetnx ps))"
proof -
  have n: "NoExpiry = store_expiry PNone" by (simp add: store_expiry_def)
  have "pairs_ok ps \<Longrightarrow> pair_words ps \<noteq> []" by (cases ps) (auto simp: pairs_ok_def)
  then show "ks \<noteq> [] \<Longrightarrow> mget_cmd (map_api V) now (map BulkString ks) m = Some (request_spec E now m (QMget ks))"
    "pairs_ok ps \<Longrightarrow> mset_cmd (map_api (scd_values E)) E now (map BulkString (pair_words ps)) m = Some (request_spec E now m (QMset ps))"
    "pairs_ok ps \<Longrightarrow> msetnx_cmd (map_api (scd_values E)) E now (map BulkString (pair_words ps)) m = Some (request_spec E now m (QMsetnx ps))"
    using m mset_loop_map [of now m ps E PNone]
    by (auto simp: mget_cmd_def mset_cmd_def msetnx_cmd_def and_then_def mget_loop_map any_present_map handler_simps length_pair_words
        pairs_ok_def n list_ex_iff list_all_iff split: option.split)
qed

lemma msetex_request:
  assumes m: "purge now m = m" and ps: "pairs_ok ps" and c: "c \<in> {PAlways, PNx, PXx}" and x: "expiry_ok x" "x \<noteq> PPersist"
  shows "msetex_cmd (map_api (scd_values E)) E now
      (map BulkString (dec_nat (length ps) # pair_words ps @ condition_words c @ expiry_words x)) m = Some (request_spec E now m (QMsetex ps c x))"
proof -
  let ?opts = "map BulkString (condition_words c) @ map BulkString (expiry_words x)"
  obtain p where p: "parse_msetex_options set_parse_start ?opts = Inr p" "p_condition p = c" "p_expiry p = x"
    using c x parse_msetex_condition_words [OF c, of set_parse_start]
    by (auto simp: parse_msetex_expiry_words set_parse_start_def)
  have n: "parse_numkeys (dec_nat (length ps)) = Inr (length ps)" "\<not> u64_max < length ps * 2"
    using ps by (auto simp: parse_numkeys_def parse_unsigned_dec_nat pairs_ok_def)
  have "filter (\<lambda>x. \<not> (case x of (k, _) \<Rightarrow> m k \<noteq> None)) ps = [] \<longleftrightarrow> \<not> list_ex (\<lambda>(k, _). m k = None) ps"
    by (auto simp: filter_empty_conv list_ex_iff split: prod.splits)
  then have f: "length (filter (\<lambda>(k, _). m k \<noteq> None) ps) = length ps \<longleftrightarrow> \<not> list_ex (\<lambda>(k, _). m k = None) ps"
    unfolding length_0_conv [symmetric] using sum_length_filter_compl [of "\<lambda>(k, _). m k \<noteq> None" ps] by linarith
  have g: "0 < length (filter (\<lambda>(k, _). m k \<noteq> None) ps) \<longleftrightarrow> list_ex (\<lambda>(k, _). m k \<noteq> None) ps"
    by (auto simp: list_ex_iff filter_empty_conv)
  show ?thesis
    using m ps p n f g mset_loop_map [of now m ps E x] c
    by (auto simp: msetex_cmd_def handler_simps and_then_def count_present_map length_pair_words pairs_ok_def Let_def)
qed

text \<open>Every request, on the map.\<close>

lemma request_correct:
  assumes m: "purge now m = m" and r: "request_ok r"
  shows "(case request_frames r of (c, args) \<Rightarrow> run_string (map_api (scd_values E)) E c now args m) = Some (request_spec E now m r)"
proof (cases r)
  case (QSet k raw c x get)
  then obtain p where "parse_set_options set_parse_start (map BulkString (condition_words c @ expiry_words x @ (if get then [ascii ''GET''] else []))) = Inr p"
      "p_condition p = lower_digest c" "p_expiry p = x" "p_get_old p = get"
    using r set_options_parsed [of c x get] by auto
  from set_effect [OF m _ this] show ?thesis using QSet r by (simp add: request_frames_def)
next
  case (QMsetex ps c x)
  then show ?thesis using r msetex_request [OF m, of ps c x E] by (simp add: request_frames_def)
next
  case (QGetex k x)
  then show ?thesis using r getex_request [OF m, of x] by (simp add: request_frames_def)
next
  case (QDelex k c)
  then show ?thesis using r delex_request [of c] by (simp add: request_frames_def del: request_spec.simps)
next
  case (QSetrange k n new)
  then show ?thesis using r setrange_request [OF m, of k n] by (simp add: request_frames_def)
next
  case (QGetrange k a b)
  then show ?thesis using r part_requests(2) [of a b] by (simp add: request_frames_def)
qed (use r in \<open>simp_all add: request_frames_def single_requests [OF m] increment_request [OF m] incr_cmd_def decr_cmd_def incrby_cmd_def
    decrby_cmd_def read_i64_def parse_i64_fast_dec handler_simps incrbyfloat_request [OF m] append_request [OF m] part_requests(1)
    batch_requests [OF m] del: request_spec.simps(1-8,13-23)\<close>)

section \<open>Handlers on the shard\<close>

definition string_step ::
    "('t, 'h, 'x, 'f) store_deps \<Rightarrow> ('h, 'x) object string_deps \<Rightarrow> 't store \<Rightarrow> nat \<times> request \<Rightarrow>
       ((senko_error + ('h, 'x) object senko_value response) \<times> 't store) option" where
  "string_step D E s op = (case op of (now, r) \<Rightarrow> case request_frames r of (c, args) \<Rightarrow> run_string (shard_api D) E c now args s)"

definition string_spec ::
    "'v string_deps \<Rightarrow> nat \<times> 'v senko_value keyspace \<Rightarrow> nat \<times> request \<Rightarrow>
       (senko_error + 'v senko_value response) \<times> nat \<times> 'v senko_value keyspace" where
  "string_spec E a op = (case op of (now, r) \<Rightarrow> case request_spec E now (purge now (snd a)) r of (out, m) \<Rightarrow> (out, now, m))"

definition string_op_ok :: "nat \<times> 'v senko_value keyspace \<Rightarrow> nat \<times> request \<Rightarrow> bool" where
  "string_op_ok a op \<longleftrightarrow> fst a \<le> fst op \<and> fst op \<le> time_limit \<and> request_ok (snd op)"

lemma string_simulation:
  assumes D: "store_laws D" and E: "scd_values E = sd_values D"
  shows "simulation (string_step D E) (string_spec E) (store_rep D) string_op_ok"
proof
  fix s a op assume r: "store_rep D s a" and ok: "string_op_ok a op"
  obtain now q where op: "op = (now, q)" by fastforce
  obtain c args where f: "request_frames q = (c, args)" by fastforce
  have v: "purge now (snd a) = visible D now s" and e: "ends_with D now s (visible D now s)"
    using r ok visible_later [of "fst a" now D s] by (auto simp: op store_rep_def string_op_ok_def ends_with_def)
  have rel: "related (ends_with D now) (run_string (shard_api D) E c now args) (run_string (map_api (sd_values D)) E c now args)"
    using store_client.run_string_related [OF shard_client [OF D]] ok by (auto simp: op string_op_ok_def)
  obtain x s' m' where run: "run_string (shard_api D) E c now args s = Some (x, s')"
      "run_string (map_api (sd_values D)) E c now args (visible D now s) = Some (x, m')" "ends_with D now s' m'"
    using relatedD [OF rel, of s] e by blast
  then have "request_spec E now (visible D now s) q = (x, m')"
    using request_correct [OF visible_purged, of q E now D s] ok f E by (simp add: op string_op_ok_def)
  then show "\<exists>s'. string_step D E s op = Some (fst (string_spec E a op), s') \<and> store_rep D s' (snd (string_spec E a op))"
    using run f v by (auto simp: op string_step_def string_spec_def store_rep_def)
qed

lemma string_ops_ok:
  "sorted (t # map fst ops @ [time_limit]) \<Longrightarrow> list_all (\<lambda>(now, r). request_ok r) ops \<Longrightarrow>
     ok_ops (string_spec E) string_op_ok (t, m) ops"
  by (induction ops arbitrary: t m) (auto simp: string_op_ok_def string_spec_def split_beta)

text \<open>A string hash and float functions of a simple kind, to run the commands on concrete stores.\<close>

definition reference_strings :: "reference_object string_deps" where
  "reference_strings = \<lparr>scd_values = sd_values reference_store,
     scd_arith = \<lparr>fast_float_parse = (\<lambda>_. None), ryu_format_finite = (\<lambda>_. [])\<rparr>, scd_xxh3_64 = (\<lambda>bs. of_nat (length bs))\<rparr>"

interpretation strings: simulation "string_step reference_store reference_strings" "string_spec reference_strings"
    "store_rep reference_store" string_op_ok
  by (rule string_simulation [OF reference_store_laws]) (simp add: reference_strings_def)

section \<open>Failed commands\<close>

text \<open>A handler that has changed nothing when it fails, and one that cannot fail.\<close>

definition safe :: "('m, 'a) handler \<Rightarrow> bool" where
  "safe h \<longleftrightarrow> (\<forall>m e m'. h m = Some (Inl e, m') \<longrightarrow> m' = m)"

definition reads :: "('m, 'a) handler \<Rightarrow> bool" where
  "reads h \<longleftrightarrow> (\<forall>m r m'. h m = Some (r, m') \<longrightarrow> m' = m)"

definition succeeds :: "('m, 'a) handler \<Rightarrow> bool" where
  "succeeds h \<longleftrightarrow> (\<forall>m e m'. h m \<noteq> Some (Inl e, m'))"

named_theorems safe_intros

lemma succeeds_give [safe_intros]: "succeeds (give x)"
  by (simp add: succeeds_def give_def)

lemma succeeds_if [safe_intros]: "succeeds a \<Longrightarrow> succeeds b \<Longrightarrow> succeeds (if c then a else b)"
  by simp

lemma reads_intros [safe_intros]:
  "reads (give x)" "reads (fail e)"
  "(\<And>x. reads (f x)) \<Longrightarrow> reads (try_in r f)"
  "(\<And>y. reads (g y)) \<Longrightarrow> reads (call (api_get (map_api V) k now) g)"
  "reads a \<Longrightarrow> (\<And>x. reads (h x)) \<Longrightarrow> reads (case v of None \<Rightarrow> a | Some x \<Rightarrow> h x)"
  by (auto simp: reads_def give_def fail_def try_in_def call_def map_api_def and_then_def split: sum.splits option.splits)

lemma reads_and_then [safe_intros]: "reads c \<Longrightarrow> (\<And>x. reads (f x)) \<Longrightarrow> reads (and_then c f)"
  by (fastforce simp: reads_def and_then_def split: option.splits sum.splits)

lemma safe_basic [safe_intros]:
  "safe (give x)" "safe (fail e)" "safe panic"
  "(\<And>x. safe (f x)) \<Longrightarrow> safe (try_in r f)"
  "(\<And>y. safe (g y)) \<Longrightarrow> safe (call (api_get (map_api V) k now) g)"
  by (auto simp: safe_def give_def fail_def panic_def try_in_def call_def map_api_def split: sum.splits)

lemma safe_cases [safe_intros]:
  "safe a \<Longrightarrow> safe b \<Longrightarrow> safe (if c then a else b)"
  "safe a \<Longrightarrow> (\<And>x. safe (f x)) \<Longrightarrow> safe (case v of None \<Rightarrow> a | Some x \<Rightarrow> f x)"
  "safe a \<Longrightarrow> (\<And>x xs. safe (g x xs)) \<Longrightarrow> safe (case ys of [] \<Rightarrow> a | x # xs \<Rightarrow> g x xs)"
  "(\<And>x. safe (p x)) \<Longrightarrow> (\<And>x. safe (q x)) \<Longrightarrow> (\<And>x. safe (r x)) \<Longrightarrow> (\<And>k x. safe (s k x)) \<Longrightarrow>
     safe (case w of Raw x \<Rightarrow> p x | IntVal x \<Rightarrow> q x | FloatVal x \<Rightarrow> r x | Obj k x \<Rightarrow> s k x)"
  by (simp_all split: option.split list.split senko_value.split)

lemma safe_write [safe_intros]:
  "(\<And>x. succeeds (f x)) \<Longrightarrow> safe (call (api_set (map_api V) k v opts now) f)"
  "(\<And>x. succeeds (g x)) \<Longrightarrow> safe (call (api_delete (map_api V) k now) g)"
  "(\<And>x. succeeds (h x)) \<Longrightarrow> safe (call (api_set_expiry (map_api V) k d now) h)"
  "(\<And>x. succeeds (h x)) \<Longrightarrow> safe (call (api_remove_expiry (map_api V) k now) h)"
  by (auto simp: safe_def succeeds_def call_def split: option.splits prod.splits)

lemma safe_and_then [safe_intros]: "reads c \<Longrightarrow> (\<And>x. safe (f x)) \<Longrightarrow> safe (and_then c f)"
  by (fastforce simp: safe_def reads_def and_then_def split: option.splits sum.splits)

lemma safe_condition [safe_intros]: "reads (digest_condition_matches (map_api V) E now key c)"
  unfolding digest_condition_matches_def by (cases c) (simp_all, (intro safe_intros)+)

lemma safe_mget [safe_intros]: "reads (mget_loop (map_api V) now args)"
  by (induction args) (simp_all, (intro safe_intros | assumption)+)

lemma safe_expiry [safe_intros]:
  "safe a \<Longrightarrow> (\<And>x. safe (f x)) \<Longrightarrow> (\<And>x. safe (g x)) \<Longrightarrow> (\<And>x. safe (h x)) \<Longrightarrow> (\<And>x. safe (i x)) \<Longrightarrow> safe b \<Longrightarrow> safe d \<Longrightarrow>
     safe (case p of PNone \<Rightarrow> a | PEx x \<Rightarrow> f x | PPx x \<Rightarrow> g x | PExAt x \<Rightarrow> h x | PPxAt x \<Rightarrow> i x | PKeepTtl \<Rightarrow> b | PPersist \<Rightarrow> d)"
  by (cases p) simp_all

lemma string_commands_safe:
  "safe (get_cmd (map_api V) now args)" "safe (set_cmd (map_api V) E now args)" "safe (setnx_cmd (map_api V) E now args)"
  "safe (setex_cmd (map_api V) E now args)" "safe (psetex_cmd (map_api V) E now args)" "safe (getset_cmd (map_api V) E now args)"
  "safe (getdel_cmd (map_api V) now args)" "safe (getex_cmd (map_api V) now args)" "safe (increment_i64 (map_api V) now key delta add)"
  "safe (incrbyfloat_cmd (map_api V) E now args)" "safe (digest_cmd (map_api V) E now args)" "safe (delex_cmd (map_api V) E now args)"
  "safe (append_cmd (map_api V) E now args)" "safe (strlen_cmd (map_api V) E now args)" "safe (getrange_cmd (map_api V) E now args)"
  "safe (setrange_cmd (map_api V) E now args)" "safe (mget_cmd (map_api V) now args)"
  unfolding get_cmd_def set_cmd_def setnx_cmd_def setex_cmd_def psetex_cmd_def getset_cmd_def getdel_cmd_def getex_cmd_def
    increment_i64_def incrbyfloat_cmd_def digest_cmd_def delex_cmd_def append_cmd_def strlen_cmd_def getrange_cmd_def
    setrange_cmd_def mget_cmd_def Let_def
  by (intro safe_intros)+

lemma run_string_safe: "c \<notin> {CMset, CMsetnx, CMsetex} \<Longrightarrow> safe (run_string (map_api V) E c now args)"
  by (cases c) (simp_all add: string_commands_safe incr_cmd_def decr_cmd_def incrby_cmd_def decrby_cmd_def substr_cmd_def safe_basic(2,4))

section \<open>Properties of the string commands\<close>

text \<open>C16. Any sequence of the 23 string commands, sent by a client with any of their options and valid arguments, on a fresh
  shard without a memory limit, with one reading of the clock per command and a clock that does not go back: every handler
  returns, without panic, the reply that the specification gives on a map from keys to values with deadlines, and the keys
  visible afterwards are those of the map. Options and numbers are read back from their words, conditions and expiry times
  take effect as specified, counters check for overflow, a part of a string is read and written byte by byte as specified,
  and several keys are written from left to right. With a memory limit a write also evicts other keys, which the
  specification does not do.\<close>

theorem string_requests_refine:
  assumes "store_laws D" and "scd_values E = sd_values D"
    and "sorted (start # map fst ops @ [time_limit])" and "list_all (\<lambda>(now, r). request_ok r) ops"
  shows "\<exists>s. run_c (string_step D E) (store_new D None start) ops
             = Some (fst (run_a (string_spec E) (start, Map.empty) ops), s) \<and>
           (let (now, m) = snd (run_a (string_spec E) (start, Map.empty) ops) in visible D now s = m)"
proof -
  have "start \<le> time_limit" "ok_ops (string_spec E) string_op_ok (start, Map.empty) ops"
    using assms(3,4) by (auto intro!: string_ops_ok)
  with simulation.run [OF string_simulation [OF assms(1,2)] store_rep_new [OF assms(1)], of start ops]
  show ?thesis by (auto simp: store_rep_def ends_with_def split_beta)
qed

theorem string_requests_refine_witness:
  "\<exists>s. run_c (string_step reference_store reference_strings) (store_new reference_store None 0)
         [(0, QSet [97] [49, 48] PNx (PEx 1) False), (1, QIncrby [97] (- 3)), (2, QSetrange [98] 2 [120]),
          (3, QGetrange [98] 1 (- 1)), (4, QAppend [97] [120]), (5, QIncr [97]), (1000, QMget [[97], [98]])] =
       Some ([Inr (Simple OK), Inr (RespInteger 7), Inr (RespInteger 3), Inr (RespValue (Some (Raw [0, 120]))),
              Inr (RespInteger 2), Inl integer_range_error,
              Inr (RespArray [RespValue None, RespValue (Some (Raw [0, 0, 120]))])], s)"
proof -
  let ?ops = "[(0, QSet [97] [49, 48] PNx (PEx 1) False), (1, QIncrby [97] (- 3)), (2, QSetrange [98] 2 [120]),
          (3, QGetrange [98] 1 (- 1)), (4, QAppend [97] [120]), (5, QIncr [97]), (1000, QMget [[97], [98]])]"
  have e: "encode_attempt (scd_values reference_strings) [49, 48] = IntVal 10" "dec_int 7 = [55]"
      "encode_attempt (scd_values reference_strings) [55, 120] = Raw [55, 120]" "parse_signed i64_min i64_max [55, 120] = None"
      "written [] 2 [120] = [0, 0, 120]" "substring [0, 0, 120] 1 (- 1) = [0, 120]" "utf8_valid [97]" "utf8_valid [98]"
    by code_simp+
  have "fst (run_a (string_spec reference_strings) (0, Map.empty) ?ops) =
      [Inr (Simple OK), Inr (RespInteger 7), Inr (RespInteger 3), Inr (RespValue (Some (Raw [0, 120]))),
              Inr (RespInteger 2), Inl integer_range_error,
              Inr (RespArray [RespValue None, RespValue (Some (Raw [0, 0, 120]))])]"
    by (simp add: string_spec_def e purge_updates put_at_def is_expired_def sat_add64_def sat_mul64_def add_spec_def number_at_def in_i64_def
        string_at_def as_bytes_def MAX_STRING_SIZE_def List.map_filter_simps)
  then show ?thesis
    using string_requests_refine [OF reference_store_laws, of reference_strings 0 ?ops] e(7,8) by (auto simp: reference_strings_def in_i64_def)
qed

text \<open>C17. A string command, whatever its arguments, always returns, and when it fails it has changed nothing: the visible
  keyspace of the shard is what it was. The exceptions are the commands that set several keys, which may fail at a later
  key.\<close>

theorem failed_command_changes_nothing:
  assumes "store_laws D" and "now \<le> time_limit" and "ends_with D now s m"
  shows "\<exists>r s'. run_string (shard_api D) E c now args s = Some (r, s') \<and>
           (isl r \<and> c \<notin> {CMset, CMsetnx, CMsetex} \<longrightarrow> ends_with D now s' m)"
proof -
  have rel: "related (ends_with D now) (run_string (shard_api D) E c now args) (run_string (map_api (sd_values D)) E c now args)"
    by (rule store_client.run_string_related [OF shard_client [OF assms(1,2)]])
  obtain r s' m' where run: "run_string (shard_api D) E c now args s = Some (r, s')"
      "run_string (map_api (sd_values D)) E c now args m = Some (r, m')" "ends_with D now s' m'"
    using relatedD [OF rel, of s m] assms(3) by blast
  moreover have "m' = m" if "isl r" "c \<notin> {CMset, CMsetnx, CMsetex}"
    using run_string_safe [OF that(2), of "sd_values D" E now args] run(2) that(1) by (auto simp: safe_def isl_def)
  ultimately show ?thesis by blast
qed

theorem failed_command_changes_nothing_witness:
  "\<exists>r s'. run_string (shard_api reference_store) reference_strings CGetset 0 [BulkString [97], Integer 3] (store_new reference_store None 0) = Some (r, s') \<and>
     (isl r \<longrightarrow> ends_with reference_store 0 s' Map.empty)"
  using failed_command_changes_nothing [OF reference_store_laws, of 0 "store_new reference_store None 0" Map.empty reference_strings CGetset]
    store_rep_new [OF reference_store_laws, of 0]
  by (auto simp: store_rep_def)

text \<open>The exception: an invalid second key leaves the first one set.\<close>

lemma mset_not_atomic:
  "\<exists>m. run_string (map_api (scd_values E)) E CMset now [BulkString [97], BulkString [49], BulkString [255], BulkString [50]] Map.empty =
     Some (Inl (Protocol (ascii ''invalid UTF-8 key'')), m) \<and> m [97] \<noteq> None"
proof -
  have "utf8_valid [97]" "\<not> utf8_valid [255]" by code_simp+
  then show ?thesis
    by (auto simp: mset_cmd_def and_then_def handler_simps call_def map_api_def parse_key_def purge_def is_expired_def condition_holds_def)
qed


end
