(* ===== verification/Bitmap.thy ===== *)
theory Bitmap
  imports Prelude
begin

text \<open>
  Bit strings, senko-store/src/commands/bitmap.rs without its handlers: the buffer with bits numbered from the
  highest bit of the first byte, counting and searching in ranges a word at a time, the bitwise operations on
  several buffers, and the fields of BITFIELD with their three ways to treat an overflow. The order of bytes in
  a word of the machine is a parameter. Offsets are numbers: the handlers bound them before they are used.
\<close>

section \<open>Words of the machine\<close>

datatype endian = LittleEndian | BigEndian

definition in_order_of :: "endian \<Rightarrow> bytes \<Rightarrow> bytes" where
  "in_order_of e bs = (case e of LittleEndian \<Rightarrow> bs | BigEndian \<Rightarrow> rev bs)"

definition from_ne_bytes :: "endian \<Rightarrow> bytes \<Rightarrow> 64 word" where
  "from_ne_bytes e bs = of_nat (le_val (in_order_of e bs))"

definition to_ne_bytes :: "endian \<Rightarrow> 64 word \<Rightarrow> bytes" where
  "to_ne_bytes e w = in_order_of e (le_bytes 8 (unat w))"

definition count_ones :: "'a::len word \<Rightarrow> nat" where
  "count_ones w = length (filter (bit w) [0..<LENGTH('a)])"

definition byte_leading_zeros :: "byte \<Rightarrow> nat" where
  "byte_leading_zeros b = length (takeWhile (\<lambda>i. \<not> bit b i) [7, 6, 5, 4, 3, 2, 1, 0])"

section \<open>The buffer\<close>

definition MAX_BITMAP_OFFSET :: nat where "MAX_BITMAP_OFFSET = 4294967295"

datatype range_unit = UnitByte | UnitBit

definition get_bit :: "bytes \<Rightarrow> nat \<Rightarrow> byte" where
  "get_bit bs offset =
     (if offset div 8 \<ge> length bs then 0
      else drop_bit (7 - offset mod 8) (bs ! (offset div 8)) AND 1)"

definition resize :: "nat \<Rightarrow> bytes \<Rightarrow> bytes" where
  "resize n bs = take n bs @ replicate (n - length bs) 0"

definition set_bit_at :: "bytes \<Rightarrow> nat \<Rightarrow> byte \<Rightarrow> byte \<times> bytes" where
  "set_bit_at bs offset v =
     (let byte_index = offset div 8;
          mask = push_bit (7 - offset mod 8) 1;
          old = (if byte_index < length bs then of_bool (bs ! byte_index AND mask \<noteq> 0) else 0);
          bs = (if length bs \<le> byte_index then resize (byte_index + 1) bs else bs)
      in (old, bs[byte_index := if v = 0 then bs ! byte_index AND NOT mask else bs ! byte_index OR mask]))"

section \<open>Counting\<close>

function chunks_exact :: "nat \<Rightarrow> bytes \<Rightarrow> bytes list \<times> bytes" where
  "chunks_exact n bs =
     (if 0 < n \<and> n \<le> length bs
      then let (chunks, remainder) = chunks_exact n (drop n bs) in (take n bs # chunks, remainder)
      else ([], bs))"
  by auto
termination by (relation "measure (\<lambda>(n, bs). length bs)") auto

declare chunks_exact.simps [simp del]

definition popcount_bytes :: "endian \<Rightarrow> bytes \<Rightarrow> nat" where
  "popcount_bytes e bs =
     (let (chunks64, rem64) = chunks_exact 64 bs;
          (chunks8, rest) = chunks_exact 8 rem64
      in sum_list (map (\<lambda>chunk. sum_list (map (\<lambda>lane. count_ones (from_ne_bytes e (take 8 (drop lane chunk)))) (map ((*) 8) [0..<8]))) chunks64)
         + sum_list (map (\<lambda>chunk. count_ones (from_ne_bytes e chunk)) chunks8)
         + sum_list (map count_ones rest))"

definition masked_byte :: "byte \<Rightarrow> nat \<Rightarrow> nat \<Rightarrow> byte" where
  "masked_byte b start_bit end_bit = b AND foldl (\<lambda>mask k. mask OR push_bit (7 - k) 1) 0 [start_bit..<end_bit + 1]"

definition popcount_bit_range :: "endian \<Rightarrow> bytes \<Rightarrow> nat \<Rightarrow> nat \<Rightarrow> nat" where
  "popcount_bit_range e bs bit_start bit_end =
     (let start_byte = bit_start div 8; end_byte = bit_end div 8 in
      if start_byte = end_byte then count_ones (masked_byte (bs ! start_byte) (bit_start mod 8) (bit_end mod 8))
      else count_ones (masked_byte (bs ! start_byte) (bit_start mod 8) 7)
           + (if end_byte > start_byte + 1 then popcount_bytes e (take (end_byte - (start_byte + 1)) (drop (start_byte + 1) bs)) else 0)
           + count_ones (masked_byte (bs ! end_byte) 0 (bit_end mod 8)))"

definition as_i64 :: "nat \<Rightarrow> int" where
  "as_i64 n = sint (of_nat n :: 64 word)"

definition unit_len :: "nat \<Rightarrow> range_unit \<Rightarrow> int option" where
  "unit_len n unit = (case unit of
      UnitByte \<Rightarrow> Some (as_i64 n)
    | UnitBit \<Rightarrow> if n * 8 > u64_max then None else Some (as_i64 (n * 8)))"

definition normalise_range :: "int \<Rightarrow> int \<Rightarrow> nat \<Rightarrow> range_unit \<Rightarrow> (nat \<times> nat) option" where
  "normalise_range start stop n unit = (case unit_len n unit of
      None \<Rightarrow> None
    | Some l \<Rightarrow>
        if l = 0 then None
        else let start = (if start < 0 then l + start else start);
                 stop = (if stop < 0 then l + stop else stop);
                 start = (if start < 0 then 0 else start);
                 stop = (if stop < 0 then 0 else stop)
             in if start \<ge> l then None
                else let stop = (if stop \<ge> l then l - 1 else stop)
                     in if start > stop then None else Some (nat start, nat stop))"

definition count_ones_range :: "endian \<Rightarrow> bytes \<Rightarrow> int \<Rightarrow> int \<Rightarrow> range_unit \<Rightarrow> nat" where
  "count_ones_range e bs start stop unit = (case normalise_range start stop (length bs) unit of
      None \<Rightarrow> 0
    | Some (range_start, range_end) \<Rightarrow>
        (case unit of
           UnitByte \<Rightarrow> popcount_bytes e (take (range_end + 1 - range_start) (drop range_start bs))
         | UnitBit \<Rightarrow> popcount_bit_range e bs range_start range_end))"

section \<open>Searching\<close>

definition scan_byte_range :: "byte \<Rightarrow> byte \<Rightarrow> nat \<Rightarrow> nat \<Rightarrow> nat \<Rightarrow> int" where
  "scan_byte_range b target start_bit end_bit base_bit =
     (let relevant = masked_byte b start_bit end_bit;
          candidate = (if target = 1 then relevant else NOT relevant) AND masked_byte 0xFF start_bit end_bit
      in if candidate = 0 then - 1 else int (base_bit + byte_leading_zeros candidate))"

fun scan_bytes :: "bytes \<Rightarrow> byte \<Rightarrow> nat \<Rightarrow> int" where
  "scan_bytes [] target base_bit = - 1"
| "scan_bytes (b # bs) target base_bit =
     (let found = scan_byte_range b target 0 7 base_bit
      in if found \<ge> 0 then found else scan_bytes bs target (base_bit + 8))"

function scan_full_bytes :: "endian \<Rightarrow> bytes \<Rightarrow> byte \<Rightarrow> nat \<Rightarrow> int" where
  "scan_full_bytes e bs target base_bit =
     (if 8 \<le> length bs then
        let w = from_ne_bytes e (take 8 bs);
            candidate = (if target = 1 then w else NOT w)
        in if candidate \<noteq> 0 then
             let byte_index = length (takeWhile (\<lambda>b. b = 0) (to_ne_bytes e candidate));
                 b = (if target = 1 then bs ! byte_index else NOT (bs ! byte_index))
             in int (base_bit + byte_index * 8 + byte_leading_zeros b)
           else scan_full_bytes e (drop 8 bs) target (base_bit + 64)
      else scan_bytes bs target base_bit)"
  by auto
termination by (relation "measure (\<lambda>(e, bs, t, b). length bs)") auto

declare scan_full_bytes.simps [simp del]

definition find_first_in_bit_range :: "endian \<Rightarrow> bytes \<Rightarrow> byte \<Rightarrow> nat \<Rightarrow> nat \<Rightarrow> int" where
  "find_first_in_bit_range e bs target bit_start bit_end =
     (let start_byte = bit_start div 8; end_byte = bit_end div 8 in
      if start_byte = end_byte then scan_byte_range (bs ! start_byte) target (bit_start mod 8) (bit_end mod 8) bit_start
      else
        let prefix = masked_byte (bs ! start_byte) (bit_start mod 8) 7;
            prefix_found = scan_byte_range prefix target (bit_start mod 8) 7 (start_byte * 8)
        in if prefix_found \<ge> 0 then prefix_found
           else
             let found = (if end_byte > start_byte + 1
                          then scan_full_bytes e (take (end_byte - (start_byte + 1)) (drop (start_byte + 1) bs)) target ((start_byte + 1) * 8)
                          else - 1)
             in if found \<ge> 0 then found
                else let suffix = masked_byte (bs ! end_byte) 0 (bit_end mod 8)
                     in scan_byte_range suffix target 0 (bit_end mod 8) (end_byte * 8))"

definition find_first_bit :: "endian \<Rightarrow> bytes \<Rightarrow> byte \<Rightarrow> int \<Rightarrow> int option \<Rightarrow> range_unit \<Rightarrow> int" where
  "find_first_bit e bs target start stop unit =
     (if bs = [] then (if target = 0 then 0 else - 1)
      else
        let total_bits = length bs * 8;
            search_end = (case stop of
                Some v \<Rightarrow> v
              | None \<Rightarrow> (case unit of UnitByte \<Rightarrow> as_i64 (length bs - 1) | UnitBit \<Rightarrow> as_i64 (total_bits - 1)))
        in case normalise_range start search_end (length bs) unit of
             None \<Rightarrow> - 1
           | Some (range_start, range_end) \<Rightarrow>
               let bit_start = (case unit of UnitByte \<Rightarrow> range_start * 8 | UnitBit \<Rightarrow> range_start);
                   bit_end = (case unit of UnitByte \<Rightarrow> range_end * 8 + 7 | UnitBit \<Rightarrow> range_end);
                   found = find_first_in_bit_range e bs target bit_start bit_end
               in if found \<ge> 0 then found
                  else if target = 0 \<and> stop = None then as_i64 total_bits
                  else - 1)"

section \<open>Bitwise operations\<close>

datatype bit_op = BitAnd | BitOr | BitXor | BitNot | BitDiff | BitDiff1 | BitAndOr | BitOne

definition padded_word :: "endian \<Rightarrow> bytes \<Rightarrow> nat \<Rightarrow> 64 word" where
  "padded_word e bs offset =
     (if offset \<ge> length bs then 0
      else let part = take (min (offset + 8) (length bs) - offset) (drop offset bs)
           in from_ne_bytes e (part @ replicate (8 - length part) 0))"

definition one_step :: "endian \<Rightarrow> nat \<Rightarrow> 64 word \<times> 64 word \<Rightarrow> bytes \<Rightarrow> 64 word \<times> 64 word" where
  "one_step e offset s src =
     (let (one, multiple) = s;
          w = padded_word e src offset;
          multiple = multiple OR (one AND w);
          one = one XOR w;
          one = one AND NOT multiple
      in (one, multiple))"

definition apply_bitop_word :: "endian \<Rightarrow> bit_op \<Rightarrow> bytes list \<Rightarrow> nat \<Rightarrow> 64 word" where
  "apply_bitop_word e op sources offset =
     (let first = padded_word e (case sources of [] \<Rightarrow> [] | s # _ \<Rightarrow> s) offset;
          rest = foldl (\<lambda>acc src. acc OR padded_word e src offset) 0 (drop 1 sources)
      in case op of
           BitAnd \<Rightarrow> foldl (\<lambda>acc src. acc AND padded_word e src offset) first (drop 1 sources)
         | BitOr \<Rightarrow> foldl (\<lambda>acc src. acc OR padded_word e src offset) first (drop 1 sources)
         | BitXor \<Rightarrow> foldl (\<lambda>acc src. acc XOR padded_word e src offset) first (drop 1 sources)
         | BitNot \<Rightarrow> NOT first
         | BitDiff \<Rightarrow> first AND NOT rest
         | BitDiff1 \<Rightarrow> NOT first AND rest
         | BitAndOr \<Rightarrow> first AND rest
         | BitOne \<Rightarrow> fst (foldl (one_step e offset) (0, 0) sources))"

text \<open>The words of the destination from \<open>offset\<close> on, \<open>n\<close> bytes in all.\<close>

function apply_bitop_from :: "endian \<Rightarrow> bit_op \<Rightarrow> bytes list \<Rightarrow> nat \<Rightarrow> nat \<Rightarrow> bytes" where
  "apply_bitop_from e op sources n offset =
     (if offset + 8 \<le> n
      then to_ne_bytes e (apply_bitop_word e op sources offset) @ apply_bitop_from e op sources n (offset + 8)
      else if offset < n then take (n - offset) (to_ne_bytes e (apply_bitop_word e op sources offset))
      else [])"
  by auto
termination by (relation "measure (\<lambda>(e, op, src, n, offset). n - offset)") auto

declare apply_bitop_from.simps [simp del]

definition apply_bitop :: "endian \<Rightarrow> bit_op \<Rightarrow> bytes list \<Rightarrow> nat \<Rightarrow> bytes" where
  "apply_bitop e op sources n = apply_bitop_from e op sources n 0"

section \<open>Fields\<close>

datatype bitfield_encoding = Unsigned nat | Signed nat

datatype overflow_mode = OverflowWrap | OverflowSat | OverflowFail

fun enc_width :: "bitfield_encoding \<Rightarrow> nat" where
  "enc_width (Unsigned w) = w"
| "enc_width (Signed w) = w"

definition bitmap_read_bits :: "bytes \<Rightarrow> nat \<Rightarrow> nat \<Rightarrow> 64 word" where
  "bitmap_read_bits bs offset width = foldl (\<lambda>out index. push_bit 1 out OR ucast (get_bit bs (offset + index))) 0 [0..<width]"

definition bitmap_write_bits :: "bytes \<Rightarrow> nat \<Rightarrow> nat \<Rightarrow> 64 word \<Rightarrow> bytes" where
  "bitmap_write_bits bs offset width v =
     foldl (\<lambda>bs index. snd (set_bit_at bs (offset + index) (ucast (drop_bit (width - 1 - index) v AND 1)))) bs [0..<width]"

text \<open>\<open>i128\<close> values are integers; \<open>%\<close> truncates towards zero.\<close>

definition rem_trunc :: "int \<Rightarrow> int \<Rightarrow> int" where
  "rem_trunc x m = (if x < 0 then - ((- x) mod m) else x mod m)"

definition mod_up :: "int \<Rightarrow> int \<Rightarrow> int" where
  "mod_up x m = (let wrapped = rem_trunc x m in if wrapped < 0 then wrapped + m else wrapped)"

fun bitfield_range :: "bitfield_encoding \<Rightarrow> int \<times> int" where
  "bitfield_range (Unsigned width) = (0, 2 ^ width - 1)"
| "bitfield_range (Signed width) =
     (if width = 64 then (i64_min, i64_max) else let bound = 2 ^ (width - 1) in (- bound, bound - 1))"

fun wrap_bitfield :: "bitfield_encoding \<Rightarrow> int \<Rightarrow> int" where
  "wrap_bitfield (Unsigned width) v = mod_up v (2 ^ width)"
| "wrap_bitfield (Signed width) v =
     (if width = 64 then sint (of_int v :: 64 word)
      else let wrapped = mod_up v (2 ^ width); sign_bit = 2 ^ (width - 1)
           in if wrapped \<ge> sign_bit then wrapped - 2 ^ width else wrapped)"

fun encode_bitfield :: "bitfield_encoding \<Rightarrow> int \<Rightarrow> 64 word" where
  "encode_bitfield (Unsigned width) v = of_int v"
| "encode_bitfield (Signed width) v = (if width = 64 then of_int v else of_int (mod_up v (2 ^ width)))"

fun decode_bitfield :: "bitfield_encoding \<Rightarrow> 64 word \<Rightarrow> int" where
  "decode_bitfield (Unsigned width) raw = sint raw"
| "decode_bitfield (Signed width) raw =
     (if width = 64 then sint raw
      else let shift = 64 - width in sint (signed_drop_bit shift (push_bit shift raw)))"

definition prepare_bitfield_write :: "bitfield_encoding \<Rightarrow> int \<Rightarrow> overflow_mode \<Rightarrow> 64 word option" where
  "prepare_bitfield_write enc v overflow =
     (let (lo, hi) = bitfield_range enc in
      if v < lo \<or> v > hi then
        (case overflow of
           OverflowWrap \<Rightarrow> Some (encode_bitfield enc (wrap_bitfield enc v))
         | OverflowSat \<Rightarrow> Some (encode_bitfield enc (if v < lo then lo else hi))
         | OverflowFail \<Rightarrow> None)
      else Some (encode_bitfield enc v))"

section \<open>Bits of a buffer\<close>

declare push_bit_of_1 [simp del] push_bit_Suc [simp del]

text \<open>A buffer denotes an infinite sequence of bits, which is 0 beyond its end.\<close>

definition bit_at :: "bytes \<Rightarrow> nat \<Rightarrow> bool" where
  "bit_at bs n \<longleftrightarrow> n div 8 < length bs \<and> bit (bs ! (n div 8)) (7 - n mod 8)"

lemma bit_at_Nil [simp]: "\<not> bit_at [] n"
  by (simp add: bit_at_def)

lemma drop_bit_and_one: "drop_bit k (x :: 'a::len word) AND 1 = of_bool (bit x k)"
  by (simp add: and_one_eq bit_iff_odd_drop_bit mod_2_eq_odd)

lemma get_bit_spec: "get_bit bs n = of_bool (bit_at bs n)"
  by (auto simp: get_bit_def bit_at_def drop_bit_and_one)

lemma bit_mask_iff: "bit (push_bit k 1 :: 'a::len word) j \<longleftrightarrow> j = k \<and> k < LENGTH('a)"
  by (auto simp: bit_push_bit_iff bit_1_iff)

lemma and_mask_nonzero: "(x :: 'a::len word) AND push_bit k 1 \<noteq> 0 \<longleftrightarrow> k < LENGTH('a) \<and> bit x k"
  using bit_eq_iff [of "x AND push_bit k 1" 0] by (auto simp: bit_and_iff bit_mask_iff)

lemma seven_minus: "7 - n mod 8 = 7 - m mod 8 \<longleftrightarrow> n mod 8 = m mod (8 :: nat)"
  using mod_less_divisor [of 8 n] mod_less_divisor [of 8 m] by linarith

lemma div_mod_eq: "n div 8 = m div 8 \<Longrightarrow> n mod 8 = m mod 8 \<Longrightarrow> n = (m :: nat)"
  by (metis div_mult_mod_eq)

lemma length_resize [simp]: "length bs \<le> n \<Longrightarrow> length (resize n bs) = n"
  by (simp add: resize_def)

lemma bit_at_resize: "length bs \<le> n \<Longrightarrow> bit_at (resize n bs) m = bit_at bs m"
  by (auto simp: bit_at_def resize_def nth_append)

lemma bit_at_update:
  "n div 8 < length bs \<Longrightarrow>
     bit_at (bs[n div 8 := if v = 0 then bs ! (n div 8) AND NOT (push_bit (7 - n mod 8) 1) else bs ! (n div 8) OR push_bit (7 - n mod 8) 1]) m =
     (if m = n then v \<noteq> 0 else bit_at bs m)"
  using div_mod_eq [of m n] seven_minus [of m n]
  by (cases "m div 8 = n div 8") (auto simp: bit_at_def bit_and_iff bit_or_iff bit_not_iff bit_mask_iff nth_list_update dest: bit_imp_le_length)

lemma set_bit_at_spec:
  shows "fst (set_bit_at bs n v) = of_bool (bit_at bs n)"
    and "bit_at (snd (set_bit_at bs n v)) m = (if m = n then v \<noteq> 0 else bit_at bs m)"
    and "length (snd (set_bit_at bs n v)) = max (length bs) (n div 8 + 1)"
proof -
  let ?bs = "if length bs \<le> n div 8 then resize (n div 8 + 1) bs else bs"
  show "fst (set_bit_at bs n v) = of_bool (bit_at bs n)"
    by (auto simp: set_bit_at_def Let_def bit_at_def and_mask_nonzero)
  have "n div 8 < length ?bs" by simp
  from bit_at_update [OF this, of v m]
  show "bit_at (snd (set_bit_at bs n v)) m = (if m = n then v \<noteq> 0 else bit_at bs m)"
    by (simp add: set_bit_at_def Let_def bit_at_resize split: if_splits)
  show "length (snd (set_bit_at bs n v)) = max (length bs) (n div 8 + 1)"
    by (simp add: set_bit_at_def Let_def)
qed

lemma bitmap_read_bit:
  "w \<le> 64 \<Longrightarrow> bit (bitmap_read_bits bs off w) k \<longleftrightarrow> k < w \<and> bit_at bs (off + (w - 1 - k))"
proof (induction w arbitrary: k)
  case 0
  then show ?case by (simp add: bitmap_read_bits_def)
next
  case (Suc w)
  have "bitmap_read_bits bs off (Suc w) = push_bit 1 (bitmap_read_bits bs off w) OR of_bool (bit_at bs (off + w))"
    by (simp add: bitmap_read_bits_def get_bit_spec)
  then show ?case using Suc.IH [of "k - 1"] Suc.prems by (cases k) (auto simp: bit_simps)
qed

lemma bitmap_write_bit:
  "bit_at (bitmap_write_bits bs off w v) m \<longleftrightarrow>
     (if off \<le> m \<and> m < off + w then bit v (w - 1 - (m - off)) else bit_at bs m)"
proof -
  have "bit_at (foldl (\<lambda>bs index. snd (set_bit_at bs (off + index) (ucast (drop_bit (w - 1 - index) v AND 1)))) bs [0..<k]) m \<longleftrightarrow>
      (if off \<le> m \<and> m < off + k then bit v (w - 1 - (m - off)) else bit_at bs m)" if "k \<le> w" for k
    using that
  proof (induction k)
    case (Suc k)
    then show ?case by (auto simp: set_bit_at_spec drop_bit_and_one less_Suc_eq)
  qed auto
  then show ?thesis by (simp add: bitmap_write_bits_def)
qed

lemma bitmap_write_length:
  "length (bitmap_write_bits bs off w v) = (if w = 0 then length bs else max (length bs) ((off + w - 1) div 8 + 1))"
proof -
  have "length (foldl (\<lambda>bs index. snd (set_bit_at bs (off + index) (f index))) bs [0..<k]) =
      (if k = 0 then length bs else max (length bs) ((off + k - 1) div 8 + 1))" for k and f :: "nat \<Rightarrow> byte"
  proof (induction k)
    case (Suc k)
    have "(off + k - 1) div 8 \<le> (off + k) div 8" by (rule div_le_mono) simp
    then show ?case using Suc by (auto simp: set_bit_at_spec max_def)
  qed simp
  then show ?thesis by (simp add: bitmap_write_bits_def)
qed

lemma bitmap_read_write: "w \<le> 64 \<Longrightarrow> bitmap_read_bits (bitmap_write_bits bs off w v) off w = take_bit w v"
  by (rule bit_word_eqI) (auto simp: bitmap_read_bit bitmap_write_bit bit_simps)

section \<open>Bits of words\<close>

lemma bit_byte_plus:
  assumes "a < 256"
  shows "bit (a + 256 * v :: nat) n = (if n < 8 then bit a n else bit v (n - 8))"
proof (cases "n < 8")
  case True
  have "take_bit 8 (a + 256 * v) = a" using assms by (simp add: take_bit_eq_mod)
  then show ?thesis using True bit_take_bit_iff [of 8 "a + 256 * v" n] by simp
next
  case False
  have "drop_bit 8 (a + 256 * v) = v" using assms by (simp add: drop_bit_eq_div)
  then show ?thesis using False bit_drop_bit_eq [of 8 "a + 256 * v"] by (simp add: fun_eq_iff)
qed

lemma le_val_bit: "bit (le_val bs) n \<longleftrightarrow> n div 8 < length bs \<and> bit (bs ! (n div 8)) (n mod 8)"
proof (induction bs arbitrary: n)
  case (Cons b bs)
  have "unat b < 256" using unsigned_less [of b, where ?'a = nat] by simp
  note s = bit_byte_plus [OF this, of "le_val bs" n]
  show ?case
  proof (cases "n < 8")
    case False
    then have "n div 8 = Suc ((n - 8) div 8)" "n mod 8 = (n - 8) mod 8" by (simp_all add: le_div_geq le_mod_geq)
    then show ?thesis using Cons.IH [of "n - 8"] False by (simp add: s)
  qed (simp add: s bit_unsigned_iff)
qed simp

lemma le_bytes_bit: "i < k \<Longrightarrow> j < 8 \<Longrightarrow> bit (le_bytes k n ! i) j \<longleftrightarrow> bit n (8 * i + j)"
proof (induction k arbitrary: i n)
  case (Suc k)
  show ?case
  proof (cases i)
    case 0
    have "n mod 256 = take_bit 8 n" by (simp add: take_bit_eq_mod)
    then show ?thesis using 0 Suc.prems by (simp add: bit_of_nat_iff bit_take_bit_iff)
  next
    case (Suc i')
    have "n div 256 = drop_bit 8 n" by (simp add: drop_bit_eq_div)
    then show ?thesis using Suc Suc.IH [of i' "n div 256"] Suc.prems by (simp add: bit_drop_bit_eq add.assoc)
  qed
qed simp

definition byte_of :: "endian \<Rightarrow> nat \<Rightarrow> nat" where
  "byte_of e i = (case e of LittleEndian \<Rightarrow> i | BigEndian \<Rightarrow> 7 - i)"

lemma byte_of_lt [simp]: "i < 8 \<Longrightarrow> byte_of e i < 8" "i < 8 \<Longrightarrow> byte_of e (byte_of e i) = i"
  by (cases e; simp add: byte_of_def)+

lemma in_order_of_nth: "length bs = 8 \<Longrightarrow> i < 8 \<Longrightarrow> in_order_of e bs ! i = bs ! byte_of e i" "length (in_order_of e bs) = length bs"
  by (cases e; simp add: in_order_of_def byte_of_def rev_nth)+

lemma from_ne_bytes_bit:
  "length bs = 8 \<Longrightarrow> i < 8 \<Longrightarrow> j < 8 \<Longrightarrow> bit (from_ne_bytes e bs) (8 * byte_of e i + j) \<longleftrightarrow> bit (bs ! i) j"
proof -
  assume a: "length bs = 8" "i < 8" "j < 8"
  then have "8 * byte_of e i + j < 64" using byte_of_lt(1) [of i e] by linarith
  then show ?thesis using a by (simp add: from_ne_bytes_def bit_of_nat_iff le_val_bit in_order_of_nth)
qed

lemma to_ne_bytes_bit:
  "i < 8 \<Longrightarrow> j < 8 \<Longrightarrow> bit (to_ne_bytes e w ! i) j \<longleftrightarrow> bit w (8 * byte_of e i + j)"
  by (simp add: to_ne_bytes_def in_order_of_nth le_bytes_bit bit_unsigned_iff)

lemma length_to_ne_bytes [simp]: "length (to_ne_bytes e w) = 8"
  by (simp add: to_ne_bytes_def in_order_of_nth)

lemma to_from_ne_bytes: "length bs = 8 \<Longrightarrow> to_ne_bytes e (from_ne_bytes e bs) = bs"
  by (rule nth_equalityI) (auto intro!: bit_word_eqI simp: to_ne_bytes_bit from_ne_bytes_bit)

section \<open>Counting\<close>

lemma count_blocks:
  "length (filter P [0..<8 * m]) = (\<Sum>i<m. length (filter (\<lambda>k. P (8 * i + k)) [0..<8]))"
proof (induction m)
  case (Suc m)
  have "[0..<8 * Suc m] = [0..<8 * m] @ [8 * m..<8 * m + 8]" using upt_add_eq_append [of 0 "8 * m" 8] by (simp add: add.commute)
  moreover have "[8 * m..<8 * m + 8] = map (\<lambda>k. 8 * m + k) [0..<8]" using map_add_upt [of "8 * m" 8] by (simp add: add.commute)
  ultimately show ?case using Suc by (simp add: filter_map comp_def)
qed simp

lemma count_ones_byte: "length (filter (\<lambda>k. bit (b :: byte) (7 - k)) [0..<8]) = count_ones b"
proof -
  have "map (\<lambda>k. 7 - k) [0..<8] = rev [0..<8 :: nat]" by code_simp
  then have "length (filter (bit b) (map (\<lambda>k. 7 - k) [0..<8])) = length (filter (bit b) [0..<8])" by (simp add: rev_filter [symmetric])
  then show ?thesis by (simp add: count_ones_def filter_map comp_def)
qed

lemma count_ones_word:
  assumes "length bs = 8"
  shows "count_ones (from_ne_bytes e bs) = sum_list (map count_ones bs)"
proof -
  let ?w = "from_ne_bytes e bs" and ?n = "\<lambda>i. length (filter (\<lambda>k. bit (from_ne_bytes e bs) (8 * i + k)) [0..<8])"
  have lane: "?n (byte_of e i) = count_ones (bs ! i)" if "i < 8" for i
    using from_ne_bytes_bit [OF assms that, of _ e]
    by (auto simp: count_ones_def intro!: arg_cong [where f = length] filter_cong)
  have b: "bij_betw (byte_of e) {..<8} {..<8}" by (rule bij_betw_byWitness [where f' = "byte_of e"]) auto
  have "count_ones ?w = (\<Sum>i<8. ?n i)" using count_blocks [of "bit ?w" 8] by (simp add: count_ones_def)
  also have "\<dots> = (\<Sum>i<8. ?n (byte_of e i))" using sum.reindex_bij_betw [OF b, of ?n] by simp
  also have "\<dots> = (\<Sum>i<8. count_ones (bs ! i))" by (rule sum.cong) (simp_all add: lane)
  finally show ?thesis using assms by (simp add: sum_list_sum_nth atLeast0LessThan)
qed

definition count_bits :: "bytes \<Rightarrow> nat \<Rightarrow> nat \<Rightarrow> nat" where
  "count_bits bs from to = length (filter (bit_at bs) [from..<to])"

lemma bit_at_block: "i < length bs \<Longrightarrow> k < 8 \<Longrightarrow> bit_at bs (8 * i + k) \<longleftrightarrow> bit (bs ! i) (7 - k)"
  by (simp add: bit_at_def)

lemma sum_count_ones: "sum_list (map count_ones bs) = count_bits bs 0 (8 * length bs)"
proof -
  have "count_bits bs 0 (8 * length bs) = (\<Sum>i<length bs. length (filter (\<lambda>k. bit (bs ! i) (7 - k)) [0..<8]))"
    unfolding count_bits_def count_blocks
    by (intro sum.cong refl arg_cong [where f = length] filter_cong) (simp_all add: bit_at_block)
  then show ?thesis by (simp add: count_ones_byte sum_list_sum_nth atLeast0LessThan)
qed

lemma chunks_exact_spec:
  "0 < n \<Longrightarrow> chunks_exact n bs = (cs, rest) \<Longrightarrow> bs = concat cs @ rest \<and> (\<forall>c \<in> set cs. length c = n)"
proof (induction n bs arbitrary: cs rule: chunks_exact.induct)
  case (1 n bs)
  show ?case
  proof (cases "n \<le> length bs")
    case True
    obtain ds where d: "chunks_exact n (drop n bs) = (ds, rest)" "cs = take n bs # ds"
      using "1.prems" True by (subst (asm) chunks_exact.simps) (auto split: prod.splits)
    then show ?thesis using "1.IH" [OF _ _ d(1)] "1.prems" True append_take_drop_id [of n bs] by simp
  next
    case False
    then show ?thesis using "1.prems" by (subst (asm) chunks_exact.simps) simp
  qed
qed

lemma lanes_count:
  "length c = 8 * m \<Longrightarrow> (\<Sum>i<m. count_ones (from_ne_bytes e (take 8 (drop (8 * i) c)))) = sum_list (map count_ones c)"
proof (induction m arbitrary: c)
  case (Suc m)
  have "(\<Sum>i<m. count_ones (from_ne_bytes e (take 8 (drop (8 * i) (drop 8 c))))) = sum_list (map count_ones (drop 8 c))"
    by (rule Suc.IH) (use Suc.prems in simp)
  moreover have "sum_list (map count_ones c) = sum_list (map count_ones (take 8 c)) + sum_list (map count_ones (drop 8 c))"
    by (metis append_take_drop_id map_append sum_list_append)
  ultimately show ?case using Suc.prems by (simp add: sum.lessThan_Suc_shift count_ones_word add.commute del: sum.lessThan_Suc)
qed simp

lemma lanes_of_chunk:
  "length c = 64 \<Longrightarrow>
     sum_list (map (\<lambda>lane. count_ones (from_ne_bytes e (take 8 (drop lane c)))) (map ((*) 8) [0..<8])) = sum_list (map count_ones c)"
  using lanes_count [of c 8 e] by (simp add: comp_def interv_sum_list_conv_sum_set_nat atLeast0LessThan)

lemma popcount_bytes_spec: "popcount_bytes e bs = count_bits bs 0 (8 * length bs)"
proof -
  obtain cs rest where c: "chunks_exact 64 bs = (cs, rest)" by fastforce
  obtain ds tail where d: "chunks_exact 8 rest = (ds, tail)" by fastforce
  have s: "bs = concat cs @ concat ds @ tail" "\<forall>c \<in> set cs. length c = 64" "\<forall>c \<in> set ds. length c = 8"
    using chunks_exact_spec [OF _ c] chunks_exact_spec [OF _ d] by auto
  have "sum_list (map (\<lambda>chunk. sum_list (map (\<lambda>lane. count_ones (from_ne_bytes e (take 8 (drop lane chunk)))) (map ((*) 8) [0..<8]))) cs) = sum_list (map count_ones (concat cs))"
    using s(2) lanes_of_chunk by (induction cs) simp_all
  moreover have "sum_list (map (\<lambda>chunk. count_ones (from_ne_bytes e chunk)) ds) = sum_list (map count_ones (concat ds))"
    using s(3) count_ones_word by (induction ds) simp_all
  ultimately have "popcount_bytes e bs = sum_list (map count_ones bs)"
    unfolding popcount_bytes_def c d by (simp only: d s(1) Let_def prod.case map_append sum_list_append add.assoc)
  then show ?thesis by (simp add: sum_count_ones)
qed

lemma mask_fold_bit:
  "bit (foldl (\<lambda>mask k. mask OR push_bit (7 - k) 1) (m0 :: byte) ks) m \<longleftrightarrow> bit m0 m \<or> (\<exists>k \<in> set ks. m = 7 - k)"
  by (induction ks arbitrary: m0) (auto simp: bit_or_iff bit_mask_iff)

lemma masked_byte_bit:
  "en \<le> 7 \<Longrightarrow> k \<le> 7 \<Longrightarrow> bit (masked_byte b st en) (7 - k) \<longleftrightarrow> bit b (7 - k) \<and> st \<le> k \<and> k \<le> en"
  by (auto simp: masked_byte_def bit_and_iff mask_fold_bit)

lemma filter_within:
  assumes "en < n"
  shows "filter (\<lambda>k. P k \<and> st \<le> k \<and> k \<le> en) [0..<n] = filter P [st..<en + 1]"
proof (cases "st \<le> en")
  case True
  have "[0..<n] = [0..<st] @ [st..<en + 1] @ [en + 1..<n]"
    using True assms upt_add_eq_append [of 0 st "n - st"] upt_add_eq_append [of st "en + 1" "n - (en + 1)"] by simp
  then show ?thesis by (auto simp: filter_empty_conv intro!: filter_cong)
qed (auto simp: filter_empty_conv)

lemma count_masked: "en \<le> 7 \<Longrightarrow> count_ones (masked_byte b st en) = length (filter (\<lambda>k. bit b (7 - k)) [st..<en + 1])"
proof -
  assume "en \<le> 7"
  then have "filter (\<lambda>k. bit (masked_byte b st en) (7 - k)) [0..<8] = filter (\<lambda>k. bit b (7 - k)) [st..<en + 1]"
    by (subst filter_within [of en 8, symmetric]) (auto simp: masked_byte_bit intro!: filter_cong)
  then show ?thesis using count_ones_byte [of "masked_byte b st en"] by simp
qed

lemma count_bits_split: "a \<le> m \<Longrightarrow> m \<le> b \<Longrightarrow> count_bits bs a b = count_bits bs a m + count_bits bs m b"
  using upt_add_eq_append [of a m "b - m"] by (simp add: count_bits_def)

lemma upt_shift: "[c + a..<c + b] = map ((+) c) [a..<b :: nat]"
  by (induction b) auto

lemma count_bits_byte:
  assumes "i < length bs" "en \<le> 7"
  shows "count_bits bs (8 * i + st) (8 * i + en + 1) = count_ones (masked_byte (bs ! i) st en)"
proof -
  have "[8 * i + st..<8 * i + en + 1] = map ((+) (8 * i)) [st..<en + 1]" using upt_shift [of "8 * i" st "en + 1"] by simp
  then show ?thesis using assms
    by (auto simp: count_bits_def count_masked filter_map comp_def bit_at_block intro!: arg_cong [where f = length] filter_cong)
qed

lemma bit_at_part: "n < 8 * k \<Longrightarrow> a + k \<le> length bs \<Longrightarrow> bit_at (take k (drop a bs)) n = bit_at bs (8 * a + n)"
  by (auto simp: bit_at_def less_mult_imp_div_less mult.commute)

lemma count_bits_part:
  assumes "a + k \<le> length bs"
  shows "popcount_bytes e (take k (drop a bs)) = count_bits bs (8 * a) (8 * (a + k))"
proof -
  have "[8 * a..<8 * (a + k)] = map ((+) (8 * a)) [0..<8 * k]" using upt_shift [of "8 * a" 0 "8 * k"] by (simp add: algebra_simps)
  then show ?thesis using assms
    by (auto simp: popcount_bytes_spec count_bits_def filter_map comp_def bit_at_part intro!: arg_cong [where f = length] filter_cong)
qed

lemma popcount_bit_range_spec:
  assumes "bit_start \<le> bit_end" "bit_end div 8 < length bs"
  shows "popcount_bit_range e bs bit_start bit_end = count_bits bs bit_start (bit_end + 1)"
proof -
  define a b where "a = bit_start div 8" and "b = bit_end div 8"
  have ab: "a \<le> b" "b < length bs" using assms by (auto simp: a_def b_def div_le_mono)
  have s: "bit_start = 8 * a + bit_start mod 8" "bit_end = 8 * b + bit_end mod 8" by (simp_all add: a_def b_def)
  have m: "bit_end mod 8 \<le> 7" "bit_start mod 8 \<le> 7" by simp_all
  show ?thesis
  proof (cases "a = b")
    case True
    then have "count_bits bs bit_start (bit_end + 1) = count_ones (masked_byte (bs ! b) (bit_start mod 8) (bit_end mod 8))"
      using count_bits_byte [OF ab(2) m(1), of "bit_start mod 8"] s by simp
    then show ?thesis using True by (simp add: popcount_bit_range_def Let_def a_def [symmetric] b_def [symmetric])
  next
    case False
    then have lt: "a < b" using ab by simp
    have "bit_start \<le> 8 * (a + 1)" using s(1) m(2) by presburger
    moreover have "8 * (a + 1) \<le> 8 * b" using lt by simp
    moreover have "8 * b \<le> bit_end + 1" using s(2) by presburger
    ultimately have "count_bits bs bit_start (bit_end + 1) =
        count_bits bs bit_start (8 * (a + 1)) + (count_bits bs (8 * (a + 1)) (8 * b) + count_bits bs (8 * b) (bit_end + 1))"
      using count_bits_split [of bit_start "8 * (a + 1)" "bit_end + 1" bs] count_bits_split [of "8 * (a + 1)" "8 * b" "bit_end + 1" bs] by linarith
    moreover have "count_bits bs bit_start (8 * (a + 1)) = count_ones (masked_byte (bs ! a) (bit_start mod 8) 7)"
      using count_bits_byte [of a bs 7 "bit_start mod 8"] ab lt s(1) by (simp add: algebra_simps)
    moreover have "count_bits bs (8 * b) (bit_end + 1) = count_ones (masked_byte (bs ! b) 0 (bit_end mod 8))"
      using count_bits_byte [OF ab(2) m(1), of 0] s(2) by simp
    moreover have "count_bits bs (8 * (a + 1)) (8 * b) = (if b > a + 1 then popcount_bytes e (take (b - (a + 1)) (drop (a + 1) bs)) else 0)"
      using count_bits_part [of "a + 1" "b - (a + 1)" bs e] lt ab by (auto simp: count_bits_def)
    ultimately show ?thesis using False
      by (simp add: popcount_bit_range_def Let_def a_def [symmetric] b_def [symmetric])
  qed
qed

text \<open>A range of a non-empty sequence of \<open>n\<close> units: negative ends count from the back, and both are cut off.\<close>

definition clamp_range :: "int \<Rightarrow> int \<Rightarrow> nat \<Rightarrow> nat \<times> nat" where
  "clamp_range start stop n =
     (let place = (\<lambda>i. nat (if i < 0 then int n + i else i)) in (place start, min (n - 1) (place stop)))"

lemma as_i64_id: "n < 2 ^ 63 \<Longrightarrow> as_i64 n = int n"
  by (simp add: as_i64_def signed_of_nat signed_take_bit_int_eq_self)

definition units :: "range_unit \<Rightarrow> nat \<Rightarrow> nat" where
  "units unit n = (case unit of UnitByte \<Rightarrow> n | UnitBit \<Rightarrow> n * 8)"

lemma normalise_range_spec:
  assumes "n < 2 ^ 60"
  shows "normalise_range start stop n unit =
    (let (a, b) = clamp_range start stop (units unit n) in if n = 0 \<or> b < a then None else Some (a, b))"
proof -
  have "unit_len n unit = Some (int (units unit n))"
    using assms by (cases unit) (simp_all add: unit_len_def units_def as_i64_id)
  then show ?thesis
    by (cases unit) (auto simp: normalise_range_def clamp_range_def Let_def units_def)
qed

definition bit_range :: "range_unit \<Rightarrow> nat \<times> nat \<Rightarrow> nat set" where
  "bit_range unit r = (case unit of UnitByte \<Rightarrow> {8 * fst r..8 * snd r + 7} | UnitBit \<Rightarrow> {fst r..snd r})"

lemma count_bits_card: "count_bits bs a b = card {n \<in> {a..<b}. bit_at bs n}"
  by (simp add: count_bits_def distinct_length_filter Int_def conj_commute)

lemma clamp_range_le: "0 < n \<Longrightarrow> snd (clamp_range start stop n) < n"
  by (simp add: clamp_range_def Let_def)

lemma count_ones_range_spec:
  assumes "length bs < 2 ^ 60"
  shows "count_ones_range e bs start stop unit =
    card {n \<in> bit_range unit (clamp_range start stop (units unit (length bs))). bit_at bs n}"
proof -
  obtain a b where ab: "clamp_range start stop (units unit (length bs)) = (a, b)" by fastforce
  show ?thesis
  proof (cases "bs = [] \<or> b < a")
    case True
    then show ?thesis using assms ab
      by (auto simp: count_ones_range_def normalise_range_spec bit_range_def split: range_unit.split)
  next
    case False
    have b: "b < units unit (length bs)" using clamp_range_le [of "units unit (length bs)" start stop] False ab by (cases unit) (auto simp: units_def)
    have n: "normalise_range start stop (length bs) unit = Some (a, b)" using False assms ab by (simp add: normalise_range_spec)
    show ?thesis
    proof (cases unit)
      case UnitByte
      have "popcount_bytes e (take (b + 1 - a) (drop a bs)) = count_bits bs (8 * a) (8 * (b + 1))"
        using count_bits_part [of a "b + 1 - a" bs e] b False UnitByte unfolding units_def
        by (metis Suc_eq_plus1 Suc_leI le_SucI le_add_diff_inverse not_less range_unit.case(1))
      moreover have "{8 * a..<8 * (b + 1)} = {8 * a..8 * b + 7}" by auto
      ultimately show ?thesis using n ab by (simp add: count_ones_range_def UnitByte bit_range_def count_bits_card del: atLeastLessThan_iff)
    next
      case UnitBit
      have "popcount_bit_range e bs a b = count_bits bs a (b + 1)"
        using popcount_bit_range_spec [of a b bs e] b False UnitBit by (simp add: units_def less_mult_imp_div_less)
      then show ?thesis using n ab by (simp add: count_ones_range_def UnitBit bit_range_def count_bits_card atLeastLessThanSuc_atLeastAtMost)
    qed
  qed
qed

section \<open>Searching\<close>

text \<open>The first of \<open>n\<close> positions from \<open>base\<close> on with a property of its distance, or -1.\<close>

definition hit_from :: "nat \<Rightarrow> (nat \<Rightarrow> bool) \<Rightarrow> nat \<Rightarrow> int" where
  "hit_from base P n = (case find P [0..<n] of None \<Rightarrow> - 1 | Some k \<Rightarrow> int (base + k))"

lemma hit_from_Some:
  assumes "k < n" "P k" "\<And>j. j < k \<Longrightarrow> \<not> P j"
  shows "hit_from base P n = int (base + k)"
proof -
  have "find P [0..<n] = Some k" unfolding find_Some_iff using assms by (auto intro!: exI [of _ k])
  then show ?thesis by (simp add: hit_from_def)
qed

lemma hit_from_None: "(\<And>j. j < n \<Longrightarrow> \<not> P j) \<Longrightarrow> hit_from base P n = - 1"
  by (auto simp: hit_from_def find_None_iff split: option.split dest!: find_Some_iff [THEN iffD1])

lemma hit_from_cong: "(\<And>k. k < n \<Longrightarrow> P k = Q k) \<Longrightarrow> hit_from base P n = hit_from base Q n"
  unfolding hit_from_def by (subst find_cong [of "[0..<n]" "[0..<n]" P Q]) simp_all

lemma hit_from_nonneg: "hit_from base P n \<ge> 0 \<longleftrightarrow> (\<exists>k<n. P k)"
  by (auto simp: hit_from_def find_None_iff split: option.split dest!: find_Some_iff [THEN iffD1])

lemma least_below: "k < n \<Longrightarrow> P k \<Longrightarrow> \<exists>m<n. P m \<and> (\<forall>j<m. \<not> P (j :: nat))"
  using LeastI [of P k] Least_le [of P k] not_less_Least [of _ P] by (metis le_less_trans)

lemma hit_from_split:
  "hit_from base P (m + n) = (if hit_from base P m \<ge> 0 then hit_from base P m else hit_from (base + m) (\<lambda>k. P (m + k)) n)"
proof (cases "\<exists>k<m. P k")
  case True
  then obtain k where k: "k < m" "P k" "\<And>j. j < k \<Longrightarrow> \<not> P j" using least_below by blast
  then show ?thesis using hit_from_Some [of k "m + n" P base] hit_from_Some [of k m P base] by simp
next
  case none: False
  show ?thesis
  proof (cases "\<exists>k<n. P (m + k)")
    case True
    then obtain k where k: "k < n" "P (m + k)" "\<And>j. j < k \<Longrightarrow> \<not> P (m + j)" using least_below [of _ n "\<lambda>k. P (m + k)"] by blast
    have "\<not> P j" if "j < m + k" for j using none k(3) [of "j - m"] that by (cases "j < m") auto
    then show ?thesis
      using hit_from_Some [of "m + k" "m + n" P base] hit_from_Some [of k n "\<lambda>k. P (m + k)" "base + m"] k hit_from_nonneg [of base P m] none
      by simp
  next
    case False
    have "\<not> P j" if "j < m + n" for j using none False that by (metis add_diff_inverse_nat nat_add_left_cancel_less)
    then show ?thesis using hit_from_None [of "m + n" P base] hit_from_None [of n "\<lambda>k. P (m + k)" "base + m"] False hit_from_nonneg [of base P m] none by auto
  qed
qed

lemma byte_leading_zeros_least:
  assumes "bit b (7 - k)" "k \<le> 7" "\<And>j. j < k \<Longrightarrow> \<not> bit b (7 - j)"
  shows "byte_leading_zeros b = k"
proof -
  have "[7, 6, 5, 4, 3, 2, 1, 0] = map (\<lambda>j. 7 - j) [0..<8 :: nat]" by code_simp
  moreover have "[0..<8] = [0..<k] @ k # [Suc k..<8]"
    using assms(2) upt_add_eq_append [of 0 k "8 - k"] by (simp add: upt_conv_Cons)
  ultimately have "byte_leading_zeros b = length (takeWhile (\<lambda>i. \<not> bit b i) (map (\<lambda>j. 7 - j) ([0..<k] @ k # [Suc k..<8])))"
    by (simp only: byte_leading_zeros_def)
  also have "\<dots> = k" using assms by (subst map_append) (subst takeWhile_append2, auto)
  finally show ?thesis .
qed

lemma byte_leading_zeros_nonzero:
  assumes "b \<noteq> 0"
  shows "byte_leading_zeros b \<le> 7 \<and> bit b (7 - byte_leading_zeros b) \<and> (\<forall>j < byte_leading_zeros b. \<not> bit b (7 - j))"
proof -
  obtain n where n: "bit b n" using assms by (metis bit_0_eq bit_eqI bot_apply bot_bool_def)
  then have "n \<le> 7" using bit_imp_le_length [of b n] by simp
  then have "7 - n < 8 \<and> bit b (7 - (7 - n))" using n by simp
  then obtain k where "k < 8" "bit b (7 - k)" "\<forall>j<k. \<not> bit b (7 - j)" using least_below [of "7 - n" 8 "\<lambda>k. bit b (7 - k)"] by blast
  moreover from this have "byte_leading_zeros b = k" by (intro byte_leading_zeros_least) auto
  ultimately show ?thesis by auto
qed

lemma scan_byte_range_spec:
  assumes en: "en \<le> 7" and t: "target = 0 \<or> target = 1"
  shows "scan_byte_range b target st en base = hit_from (base + st) (\<lambda>k. bit b (7 - (st + k)) \<longleftrightarrow> target = 1) (en + 1 - st)"
proof -
  define c where "c = (if target = 1 then masked_byte b st en else NOT (masked_byte b st en)) AND masked_byte 0xFF st en"
  have "(0xFF :: byte) = NOT 0" by simp
  then have ff: "bit (0xFF :: byte) (7 - k)" for k by (simp only: bit_not_iff) simp
  have bits: "bit c (7 - k) \<longleftrightarrow> st \<le> k \<and> k \<le> en \<and> (bit b (7 - k) \<longleftrightarrow> target = 1)" if "k \<le> 7" for k
    using en t that ff by (auto simp: c_def bit_and_iff bit_not_iff masked_byte_bit)
  show ?thesis
  proof (cases "c = 0")
    case True
    have "\<not> (bit b (7 - (st + k)) \<longleftrightarrow> target = 1)" if "k < en + 1 - st" for k
      using bits [of "st + k"] that en True by auto
    then show ?thesis using True hit_from_None [of "en + 1 - st" "\<lambda>k. bit b (7 - (st + k)) \<longleftrightarrow> target = 1"]
      by (simp add: scan_byte_range_def Let_def c_def [symmetric])
  next
    case False
    let ?z = "byte_leading_zeros c"
    have z: "?z \<le> 7" "bit c (7 - ?z)" "\<forall>j < ?z. \<not> bit c (7 - j)" using byte_leading_zeros_nonzero [OF False] by auto
    have i: "st \<le> ?z" "?z \<le> en" "bit b (7 - ?z) \<longleftrightarrow> target = 1" using bits [OF z(1)] z(2) by auto
    have "\<not> (bit b (7 - (st + j)) \<longleftrightarrow> target = 1)" if "j < ?z - st" for j
      using bits [of "st + j"] that z(1,3) i by auto
    then have "hit_from (base + st) (\<lambda>k. bit b (7 - (st + k)) \<longleftrightarrow> target = 1) (en + 1 - st) = int (base + st + (?z - st))"
      using i by (intro hit_from_Some) auto
    then show ?thesis using False i by (simp add: scan_byte_range_def Let_def c_def [symmetric])
  qed
qed

definition wanted :: "bytes \<Rightarrow> byte \<Rightarrow> nat \<Rightarrow> bool" where
  "wanted bs target n \<longleftrightarrow> (bit_at bs n \<longleftrightarrow> target = 1)"

lemma wanted_drop: "k \<le> length bs \<Longrightarrow> wanted (drop k bs) target n = wanted bs target (8 * k + n)"
  by (auto simp: wanted_def bit_at_def less_diff_conv)

lemma wanted_block: "i < length bs \<Longrightarrow> k < 8 \<Longrightarrow> wanted bs target (8 * i + k) \<longleftrightarrow> (bit (bs ! i) (7 - k) \<longleftrightarrow> target = 1)"
  by (simp add: wanted_def bit_at_block)

lemma scan_byte_at:
  assumes "i < length bs" "en \<le> 7" "target = 0 \<or> target = 1"
  shows "scan_byte_range (bs ! i) target st en base = hit_from (base + st) (\<lambda>k. wanted bs target (8 * i + (st + k))) (en + 1 - st)"
  unfolding scan_byte_range_spec [OF assms(2,3)] using assms(2) by (intro hit_from_cong) (simp add: wanted_block assms(1))

lemma scan_bytes_spec:
  assumes t: "target = 0 \<or> target = 1"
  shows "scan_bytes bs target base = hit_from base (wanted bs target) (8 * length bs)"
proof (induction bs arbitrary: base)
  case Nil
  then show ?case by (simp add: hit_from_def)
next
  case (Cons b bs)
  have "scan_byte_range b target 0 7 base = hit_from base (wanted (b # bs) target) 8"
    using scan_byte_at [of 0 "b # bs" 7 target 0 base] t by simp
  moreover have "scan_bytes bs target (base + 8) = hit_from (base + 8) (\<lambda>k. wanted (b # bs) target (8 + k)) (8 * length bs)"
    using Cons wanted_drop [of 1 "b # bs" target] by simp
  ultimately show ?case using hit_from_split [of base "wanted (b # bs) target" 8 "8 * length bs"] by (simp add: Let_def)
qed

lemma to_ne_bytes_not: "length bs = 8 \<Longrightarrow> to_ne_bytes e (NOT (from_ne_bytes e bs)) = map (\<lambda>b. NOT b) bs"
proof (rule nth_equalityI)
  fix i assume a: "length bs = 8" "i < length (to_ne_bytes e (NOT (from_ne_bytes e bs)))"
  show "to_ne_bytes e (NOT (from_ne_bytes e bs)) ! i = map (\<lambda>b. NOT b) bs ! i"
  proof (rule bit_word_eqI)
    fix n assume "n < LENGTH(8)"
    moreover have "byte_of e i < 8" using a byte_of_lt(1) [of i e] by simp
    ultimately have "8 * byte_of e i + n < 64" by simp
    then show "bit (to_ne_bytes e (NOT (from_ne_bytes e bs)) ! i) n = bit (map (\<lambda>b. NOT b) bs ! i) n"
      using a \<open>n < LENGTH(8)\<close> by (simp add: to_ne_bytes_bit bit_not_iff from_ne_bytes_bit)
  qed
qed simp

lemma to_ne_bytes_0: "w = 0 \<longleftrightarrow> (\<forall>b \<in> set (to_ne_bytes e w). b = 0)"
proof
  assume z: "\<forall>b \<in> set (to_ne_bytes e w). b = 0"
  show "w = 0"
  proof (rule bit_word_eqI)
    fix n assume "n < LENGTH(64)"
    then have i: "n div 8 < 8" by simp
    then have "to_ne_bytes e w ! byte_of e (n div 8) = 0" using z byte_of_lt(1) [OF i, of e] by simp
    then show "bit w n = bit 0 n" using to_ne_bytes_bit [of "byte_of e (n div 8)" "n mod 8" e w] i by simp
  qed
next
  assume "w = 0"
  then show "\<forall>b \<in> set (to_ne_bytes e w). b = 0"
    by (auto simp: in_set_conv_nth intro!: bit_word_eqI simp: to_ne_bytes_bit)
qed

lemma first_nonzero_byte:
  assumes cs: "length cs = 8" "\<exists>b \<in> set cs. b \<noteq> 0" and P: "\<And>i k. i < 8 \<Longrightarrow> k < 8 \<Longrightarrow> P (8 * i + k) = bit (cs ! i) (7 - k)"
  defines "i \<equiv> length (takeWhile (\<lambda>b. b = 0) cs)"
  shows "i < 8" and "hit_from base P 64 = int (base + i * 8 + byte_leading_zeros (cs ! i))"
proof -
  have "takeWhile (\<lambda>b. b = 0) cs \<noteq> cs" using cs(2) by (simp add: takeWhile_eq_all_conv)
  then show i: "i < 8" using cs(1) length_takeWhile_le [of "\<lambda>b. b = 0" cs] unfolding i_def
    by (metis le_neq_implies_less take_all_iff takeWhile_eq_take order_refl)
  have nz: "cs ! i \<noteq> 0" using i cs(1) nth_length_takeWhile [of "\<lambda>b. b = 0" cs] by (simp add: i_def)
  have zero: "cs ! j = 0" if "j < i" for j
    using that takeWhile_nth [of j "\<lambda>b. b = 0" cs] nth_mem [of j "takeWhile (\<lambda>b. b = 0) cs"] set_takeWhileD [of "cs ! j" "\<lambda>b. b = 0" cs] by (simp add: i_def)
  let ?z = "byte_leading_zeros (cs ! i)"
  have z: "?z \<le> 7" "bit (cs ! i) (7 - ?z)" "\<forall>j < ?z. \<not> bit (cs ! i) (7 - j)" using byte_leading_zeros_nonzero [OF nz] by auto
  have "\<not> P j" if "j < 8 * i + ?z" for j
  proof -
    have j: "j = 8 * (j div 8) + j mod 8" "j mod 8 < 8" by simp_all
    have "j div 8 \<le> i" using that z(1) by linarith
    then consider "j div 8 < i" | "j div 8 = i" by linarith
    then show ?thesis
    proof cases
      case 1
      then show ?thesis using P [of "j div 8" "j mod 8"] zero i j by simp
    next
      case 2
      then have "j mod 8 < ?z" using that j by linarith
      then show ?thesis using P [of i "j mod 8"] z(3) i j 2 by simp
    qed
  qed
  then have "hit_from base P 64 = int (base + (8 * i + ?z))"
    using P [of i ?z] z i by (intro hit_from_Some) auto
  then show "hit_from base P 64 = int (base + i * 8 + ?z)" by simp
qed

lemma scan_full_bytes_spec:
  assumes t: "target = 0 \<or> target = 1"
  shows "scan_full_bytes e bs target base = hit_from base (wanted bs target) (8 * length bs)"
proof (induction bs arbitrary: base rule: length_induct)
  case (1 bs)
  show ?case
  proof (cases "8 \<le> length bs")
    case True
    define cs where "cs = (if target = 1 then take 8 bs else map (\<lambda>b. NOT b) (take 8 bs))"
    define c where "c = (if target = 1 then from_ne_bytes e (take 8 bs) else NOT (from_ne_bytes e (take 8 bs)))"
    have l: "length (take 8 bs) = 8" using True by simp
    have c: "to_ne_bytes e c = cs" using to_from_ne_bytes [OF l, of e] to_ne_bytes_not [OF l, of e] by (simp add: c_def cs_def)
    have P: "wanted bs target (8 * i + k) = bit (cs ! i) (7 - k)" if "i < 8" "k < 8" for i k
      using that True t wanted_block [of i bs k target] by (auto simp: cs_def bit_not_iff)
    have n: "8 * length bs = 64 + 8 * length (drop 8 bs)" using True by simp
    have split: "hit_from base (wanted bs target) (8 * length bs) =
        (if hit_from base (wanted bs target) 64 \<ge> 0 then hit_from base (wanted bs target) 64
         else hit_from (base + 64) (wanted (drop 8 bs) target) (8 * length (drop 8 bs)))"
      unfolding n hit_from_split using hit_from_cong [of "8 * length (drop 8 bs)" "\<lambda>k. wanted bs target (64 + k)" "wanted (drop 8 bs) target" "base + 64"]
        wanted_drop [of 8 bs target] True by simp
    have step: "scan_full_bytes e bs target base =
        (if c \<noteq> 0 then let byte_index = length (takeWhile (\<lambda>b. b = 0) cs)
             in int (base + byte_index * 8 + byte_leading_zeros (if target = 1 then bs ! byte_index else NOT (bs ! byte_index)))
         else scan_full_bytes e (drop 8 bs) target (base + 64))"
      using True by (subst scan_full_bytes.simps) (simp only: Let_def c_def [symmetric] c if_True)
    show ?thesis
    proof (cases "c = 0")
      case True
      then have "\<forall>b \<in> set cs. b = 0" using to_ne_bytes_0 [of c e] c by simp
      then have "cs ! i = 0" if "i < 8" for i using that l by (simp add: cs_def)
      then have "\<not> wanted bs target j" if "j < 64" for j using P [of "j div 8" "j mod 8"] that by simp
      then have "\<not> hit_from base (wanted bs target) 64 \<ge> 0" by (auto simp: hit_from_nonneg)
      then show ?thesis using 1 True \<open>8 \<le> length bs\<close> by (simp add: step split)
    next
      case False
      have cs: "length cs = 8" "\<exists>b \<in> set cs. b \<noteq> 0" using l to_ne_bytes_0 [of c e] c False by (auto simp: cs_def)
      note f = first_nonzero_byte [OF cs P]
      have "(if target = 1 then bs ! i else NOT (bs ! i)) = cs ! i" if "i < 8" for i using that l by (simp add: cs_def)
      then show ?thesis using f(1) f(2) [of base] False by (simp add: step split Let_def)
    qed
  next
    case False
    then show ?thesis using scan_bytes_spec [OF t, of bs base] by (subst scan_full_bytes.simps) simp
  qed
qed

lemma hit_from_shift: "hit_from (base + d) P n = (if hit_from base P n \<ge> 0 then hit_from base P n + int d else - 1)"
  by (simp add: hit_from_def split: option.split)

lemma scan_masked:
  "en \<le> 7 \<Longrightarrow> target = 0 \<or> target = 1 \<Longrightarrow>
     scan_byte_range (masked_byte b st en) target st en base = scan_byte_range b target st en base"
  unfolding scan_byte_range_spec by (intro hit_from_cong) (auto simp: masked_byte_bit)

lemma scan_part:
  assumes "a + k \<le> length bs" "target = 0 \<or> target = 1"
  shows "scan_full_bytes e (take k (drop a bs)) target base = hit_from base (\<lambda>n. wanted bs target (8 * a + n)) (8 * k)"
  unfolding scan_full_bytes_spec [OF assms(2)] using assms(1) by (auto simp: wanted_def bit_at_part intro!: hit_from_cong)

lemma find_first_in_bit_range_spec:
  assumes le: "bit_start \<le> bit_end" and len: "bit_end div 8 < length bs" and t: "target = 0 \<or> target = 1"
  shows "find_first_in_bit_range e bs target bit_start bit_end =
    hit_from (if bit_start div 8 = bit_end div 8 then bit_start + bit_start mod 8 else bit_start)
      (\<lambda>k. wanted bs target (bit_start + k)) (bit_end + 1 - bit_start)"
proof -
  define a b where "a = bit_start div 8" and "b = bit_end div 8"
  define i j where "i = bit_start mod 8" and "j = bit_end mod 8"
  have s: "bit_start = 8 * a + i" "bit_end = 8 * b + j" "i \<le> 7" "j \<le> 7" by (simp_all add: a_def b_def i_def j_def)
  have ab: "a \<le> b" "b < length bs" using le len by (auto simp: a_def b_def div_le_mono)
  note defs = find_first_in_bit_range_def Let_def a_def [symmetric] b_def [symmetric] i_def [symmetric] j_def [symmetric]
  show ?thesis
  proof (cases "a = b")
    case True
    then show ?thesis using scan_byte_at [of a bs j target i bit_start] ab s t unfolding defs by (simp add: add.assoc)
  next
    case False
    let ?P = "\<lambda>k. wanted bs target (bit_start + k)" and ?n = "8 - i"
    have n: "bit_end + 1 - bit_start = ?n + (8 * (b - (a + 1)) + (j + 1))" using s ab False by auto
    have pre: "scan_byte_range (masked_byte (bs ! a) i 7) target i 7 (a * 8) = hit_from bit_start ?P ?n"
      using scan_byte_at [of a bs 7 target i "a * 8"] ab s t by (simp add: scan_masked add.assoc mult.commute)
    have suf: "scan_byte_range (masked_byte (bs ! b) 0 j) target 0 j (b * 8) = hit_from (8 * b) (\<lambda>k. wanted bs target (8 * b + k)) (j + 1)"
      using scan_byte_at [of b bs j target 0 "b * 8"] ab s t by (simp add: scan_masked mult.commute)
    have mid: "(if b > a + 1 then scan_full_bytes e (take (b - (a + 1)) (drop (a + 1) bs)) target ((a + 1) * 8) else - 1) =
        hit_from (8 * (a + 1)) (\<lambda>k. wanted bs target (8 * (a + 1) + k)) (8 * (b - (a + 1)))"
      using scan_part [of "a + 1" "b - (a + 1)" bs target e "(a + 1) * 8"] ab t False by (auto simp: mult.commute hit_from_def)
    have e1: "bit_start + ?n = 8 * (a + 1)" and e2: "8 * (a + 1) + 8 * (b - (a + 1)) = 8 * b" using s ab False by auto
    have f1: "(\<lambda>k. ?P (?n + k)) = (\<lambda>k. wanted bs target (8 * (a + 1) + k))" unfolding e1 [symmetric] by (simp add: add.assoc)
    have f2: "(\<lambda>k. wanted bs target (8 * (a + 1) + (8 * (b - (a + 1)) + k))) = (\<lambda>k. wanted bs target (8 * b + k))"
      unfolding e2 [symmetric] by (simp add: add.assoc)
    show ?thesis unfolding defs n using False
      by (simp only: pre mid suf if_False hit_from_split [of bit_start _ ?n] hit_from_split [of _ _ "8 * (b - (a + 1))"] e1 e2 f1 f2)
  qed
qed

definition bit_bounds :: "range_unit \<Rightarrow> nat \<times> nat \<Rightarrow> nat \<times> nat" where
  "bit_bounds unit r = (case unit of UnitByte \<Rightarrow> (8 * fst r, 8 * snd r + 7) | UnitBit \<Rightarrow> r)"

lemma find_first_bit_spec:
  assumes n: "length bs < 2 ^ 60" and t: "target = 0 \<or> target = 1" and ne: "bs \<noteq> []"
  shows "find_first_bit e bs target start stop unit =
    (let (a, b) = clamp_range start (case stop of Some v \<Rightarrow> v | None \<Rightarrow> - 1) (units unit (length bs));
         (lo, hi) = bit_bounds unit (a, b);
         r = hit_from lo (\<lambda>k. wanted bs target (lo + k)) (hi + 1 - lo)
     in if b < a then - 1
        else if r < 0 then (if target = 0 \<and> stop = None then int (8 * length bs) else - 1)
        else if lo div 8 = hi div 8 then r + int (lo mod 8) else r)"
proof -
  obtain a b where ab: "clamp_range start (case stop of Some v \<Rightarrow> v | None \<Rightarrow> - 1) (units unit (length bs)) = (a, b)" by fastforce
  obtain lo hi where lh: "bit_bounds unit (a, b) = (lo, hi)" by fastforce
  have u: "0 < units unit (length bs)" using ne by (cases unit) (simp_all add: units_def)
  define se where "se = (case stop of Some v \<Rightarrow> v | None \<Rightarrow> (case unit of UnitByte \<Rightarrow> as_i64 (length bs - 1) | UnitBit \<Rightarrow> as_i64 (length bs * 8 - 1)))"
  have "clamp_range start se (units unit (length bs)) = (a, b)"
    using ab n ne by (cases stop; cases unit) (auto simp: se_def clamp_range_def units_def Let_def as_i64_id)
  then have nr: "normalise_range start se (length bs) unit = (if b < a then None else Some (a, b))"
    using normalise_range_spec [OF n, of start se unit] ne by simp
  have b: "b < units unit (length bs)" using clamp_range_le [OF u] ab by (metis snd_conv)
  have ff: "find_first_bit e bs target start stop unit = (case normalise_range start se (length bs) unit of
        None \<Rightarrow> - 1
      | Some r \<Rightarrow>
          let found = find_first_in_bit_range e bs target (fst (bit_bounds unit r)) (snd (bit_bounds unit r))
          in if found \<ge> 0 then found else if target = 0 \<and> stop = None then as_i64 (length bs * 8) else - 1)"
    using ne unfolding find_first_bit_def Let_def se_def bit_bounds_def
    by (cases unit) (simp_all add: mult.commute split: option.split)
  show ?thesis
  proof (cases "b < a")
    case True
    then show ?thesis unfolding ff nr by (simp add: ab lh)
  next
    case False
    have "lo \<le> hi" "hi div 8 < length bs" using False b lh by (cases unit; auto simp: bit_bounds_def units_def less_mult_imp_div_less)+
    note f = find_first_in_bit_range_spec [OF this t, of e]
    show ?thesis unfolding ff nr using False n
      by (auto simp: f ab lh Let_def as_i64_id hit_from_shift [of lo "lo mod 8"])
  qed
qed

section \<open>Bitwise operations\<close>

text \<open>What an operation makes of the bits of its sources at one position.\<close>

fun bitop_bit :: "bit_op \<Rightarrow> bool list \<Rightarrow> bool" where
  "bitop_bit BitAnd xs \<longleftrightarrow> False \<notin> set xs"
| "bitop_bit BitOr xs \<longleftrightarrow> True \<in> set xs"
| "bitop_bit BitXor xs \<longleftrightarrow> odd (length (filter id xs))"
| "bitop_bit BitNot xs \<longleftrightarrow> \<not> hd xs"
| "bitop_bit BitDiff xs \<longleftrightarrow> hd xs \<and> True \<notin> set (tl xs)"
| "bitop_bit BitDiff1 xs \<longleftrightarrow> \<not> hd xs \<and> True \<in> set (tl xs)"
| "bitop_bit BitAndOr xs \<longleftrightarrow> hd xs \<and> True \<in> set (tl xs)"
| "bitop_bit BitOne xs \<longleftrightarrow> length (filter id xs) = 1"

lemma padded_word_bit:
  assumes "i < 8" "j < 8"
  shows "bit (padded_word e bs off) (8 * byte_of e i + j) \<longleftrightarrow> off + i < length bs \<and> bit (bs ! (off + i)) j"
proof -
  define part where "part = take (min (off + 8) (length bs) - off) (drop off bs)"
  have "length (part @ replicate (8 - length part) 0) = 8" by (simp add: part_def)
  note f = from_ne_bytes_bit [OF this assms, of e]
  have "(part @ replicate (8 - length part) 0) ! i = (if off + i < length bs then bs ! (off + i) else 0)"
    using assms(1) by (auto simp: part_def nth_append)
  then show ?thesis using f by (auto simp: padded_word_def part_def [symmetric] Let_def)
qed

lemma fold_bits:
  "bit (foldl (\<lambda>acc x. acc AND f x) (w :: 64 word) xs) p \<longleftrightarrow> bit w p \<and> (\<forall>x \<in> set xs. bit (f x) p)"
  "bit (foldl (\<lambda>acc x. acc OR f x) (v :: 64 word) ys) q \<longleftrightarrow> bit v q \<or> (\<exists>x \<in> set ys. bit (f x) q)"
  "bit (foldl (\<lambda>acc x. acc XOR f x) (u :: 64 word) zs) r \<longleftrightarrow> odd (of_bool (bit u r) + length (filter (\<lambda>x. bit (f x) r) zs))"
  subgoal by (induction xs arbitrary: w) (auto simp: bit_and_iff)
  subgoal by (induction ys arbitrary: v) (auto simp: bit_or_iff)
  subgoal by (induction zs arbitrary: u) (auto simp: bit_xor_iff)
  done

lemma one_fold_bits:
  assumes "bit one p = (c = (1 :: nat))" "bit multiple p = (c \<ge> 2)"
  shows "bit (fst (foldl (one_step e off) (one, multiple) xs)) p \<longleftrightarrow> c + length (filter (\<lambda>x. bit (padded_word e x off) p) xs) = 1"
  using assms
proof (induction xs arbitrary: one multiple c)
  case (Cons x xs)
  define w where "w = padded_word e x off"
  have "one_step e off (one, multiple) x = ((one XOR w) AND NOT (multiple OR (one AND w)), multiple OR (one AND w))"
    by (simp add: one_step_def w_def Let_def)
  moreover have "bit ((one XOR w) AND NOT (multiple OR (one AND w))) p = (c + of_bool (bit w p) = 1)"
      "bit (multiple OR (one AND w)) p = (c + of_bool (bit w p) \<ge> 2)"
    using Cons.prems bit_imp_le_length [of w p] bit_imp_le_length [of one p]
    by (auto simp: bit_and_iff bit_or_iff bit_xor_iff bit_not_iff)
  ultimately show ?case using Cons.IH [of "(one XOR w) AND NOT (multiple OR (one AND w))" "c + of_bool (bit w p)" "multiple OR (one AND w)"]
    by (auto simp: w_def)
qed simp

lemma apply_bitop_word_bit:
  assumes "sources \<noteq> []" "p < 64"
  shows "bit (apply_bitop_word e op sources off) p = bitop_bit op (map (\<lambda>s. bit (padded_word e s off) p) sources)"
proof -
  obtain s ss where s: "sources = s # ss" using assms(1) by (cases sources) auto
  show ?thesis
    using one_fold_bits [of 0 p 0 0 e off sources] assms(2)
    by (cases op) (auto simp: apply_bitop_word_def s Let_def fold_bits bit_and_iff bit_not_iff filter_map comp_def)
qed

lemma apply_bitop_from_nth:
  "off \<le> n \<Longrightarrow> length (apply_bitop_from e op sources n off) = n - off \<and>
    (\<forall>i < n - off. apply_bitop_from e op sources n off ! i = to_ne_bytes e (apply_bitop_word e op sources (off + 8 * (i div 8))) ! (i mod 8))"
proof (induction e op sources n off rule: apply_bitop_from.induct)
  case (1 e op sources n off)
  show ?case
  proof (cases "off + 8 \<le> n")
    case True
    have step: "apply_bitop_from e op sources n off = to_ne_bytes e (apply_bitop_word e op sources off) @ apply_bitop_from e op sources n (off + 8)"
      using True by (subst apply_bitop_from.simps) simp
    have "apply_bitop_from e op sources n off ! i = to_ne_bytes e (apply_bitop_word e op sources (off + 8 * (i div 8))) ! (i mod 8)"
      if "i < n - off" for i
    proof (cases "i < 8")
      case False
      then have "i div 8 = Suc ((i - 8) div 8)" "i mod 8 = (i - 8) mod 8" by (simp_all add: le_div_geq le_mod_geq)
      moreover have "apply_bitop_from e op sources n (off + 8) ! (i - 8) =
          to_ne_bytes e (apply_bitop_word e op sources (off + 8 + 8 * ((i - 8) div 8))) ! ((i - 8) mod 8)"
        using "1.IH" [OF True] True that False by simp
      ultimately show ?thesis using False by (simp add: step nth_append add.assoc)
    qed (simp add: step nth_append)
    then show ?thesis using "1.IH" [OF True] True by (simp add: step)
  next
    case False
    then show ?thesis using "1.prems" by (subst (1 2) apply_bitop_from.simps) auto
  qed
qed

lemma apply_bitop_bit:
  assumes "sources \<noteq> []"
  shows "bit_at (apply_bitop e op sources n) m \<longleftrightarrow> m < 8 * n \<and> bitop_bit op (map (\<lambda>s. bit_at s m) sources)"
proof (cases "m < 8 * n")
  case True
  define i where "i = m div 8"
  have i: "i < n" using True by (simp add: i_def less_mult_imp_div_less mult.commute)
  note l = apply_bitop_from_nth [of 0 n e op sources]
  define j where "j = 7 - m mod 8"
  let ?off = "8 * (i div 8)" and ?j = j
  have j: "j < 8" by (simp add: j_def)
  have p: "8 * byte_of e (i mod 8) + ?j < 64"
  proof -
    have "byte_of e (i mod 8) < 8" by simp
    then show ?thesis using j by linarith
  qed
  have "bit_at (apply_bitop e op sources n) m \<longleftrightarrow> bit (to_ne_bytes e (apply_bitop_word e op sources ?off) ! (i mod 8)) ?j"
    using l i by (simp add: bit_at_def apply_bitop_def i_def [symmetric] j_def [symmetric])
  also have "\<dots> \<longleftrightarrow> bitop_bit op (map (\<lambda>s. bit (padded_word e s ?off) (8 * byte_of e (i mod 8) + ?j)) sources)"
    by (simp add: to_ne_bytes_bit j apply_bitop_word_bit [OF assms p])
  also have "(\<lambda>s. bit (padded_word e s ?off) (8 * byte_of e (i mod 8) + ?j)) = (\<lambda>s. bit_at s m)"
    by (simp add: fun_eq_iff padded_word_bit j bit_at_def i_def [symmetric] j_def [symmetric])
  finally show ?thesis using True by simp
next
  case False
  then have "\<not> m div 8 < n" by (simp add: div_less_iff_less_mult mult.commute)
  then show ?thesis using False apply_bitop_from_nth [of 0 n e op sources] by (simp add: bit_at_def apply_bitop_def)
qed

section \<open>Fields\<close>

text \<open>The encodings that the parser of BITFIELD accepts.\<close>

fun enc_ok :: "bitfield_encoding \<Rightarrow> bool" where
  "enc_ok (Unsigned w) \<longleftrightarrow> 1 \<le> w \<and> w \<le> 63"
| "enc_ok (Signed w) \<longleftrightarrow> 1 \<le> w \<and> w \<le> 64"

lemma enc_ok_width: "enc_ok enc \<Longrightarrow> 1 \<le> enc_width enc \<and> enc_width enc \<le> 64"
  by (cases enc) auto

text \<open>The number that a field stores for a given one: itself when it is in the range, else the number of the range
  that differs by a multiple of the size of the range, the nearest one of the range, or none.\<close>

definition field_value :: "bitfield_encoding \<Rightarrow> overflow_mode \<Rightarrow> int \<Rightarrow> int option" where
  "field_value enc mode v =
     (let (lo, hi) = bitfield_range enc in
      if lo \<le> v \<and> v \<le> hi then Some v
      else case mode of
          OverflowWrap \<Rightarrow> Some (lo + (v - lo) mod 2 ^ enc_width enc)
        | OverflowSat \<Rightarrow> Some (max lo (min hi v))
        | OverflowFail \<Rightarrow> None)"

lemma mod_up_mod: "0 < m \<Longrightarrow> mod_up x m = x mod m"
proof -
  assume m: "0 < m"
  show ?thesis
  proof (cases "x < 0")
    case True
    have "x mod m = (- ((- x) mod m)) mod m" by (simp add: mod_minus_eq)
    moreover have "0 \<le> (- x) mod m" "(- x) mod m < m" using m by simp_all
    ultimately show ?thesis using True m by (auto simp: mod_up_def rem_trunc_def Let_def zmod_zminus1_eq_if)
  qed (use m pos_mod_sign [of m x] in \<open>auto simp: mod_up_def rem_trunc_def Let_def simp del: pos_mod_sign\<close>)
qed

lemma range_size: "enc_ok enc \<Longrightarrow> snd (bitfield_range enc) = fst (bitfield_range enc) + 2 ^ enc_width enc - 1"
proof (cases enc)
  case (Signed w)
  assume "enc_ok enc"
  then have "(2 :: int) ^ w = 2 * 2 ^ (w - 1)" using Signed by (simp add: power_eq_if)
  then show ?thesis using Signed by (simp add: Let_def)
qed simp

lemma range_lo: "enc_ok enc \<Longrightarrow> fst (bitfield_range enc) = (case enc of Unsigned _ \<Rightarrow> 0 | Signed w \<Rightarrow> - (2 ^ (w - 1)))"
  by (cases enc) (auto simp: Let_def)

text \<open>Reading back the low bits of an encoded number gives the number of the range that is congruent to it.\<close>

lemma signed_shift:
  "1 \<le> w \<Longrightarrow> w \<le> 64 \<Longrightarrow> sint (signed_drop_bit (64 - w) (push_bit (64 - w) (x :: 64 word))) = signed_take_bit (w - 1) (uint x)"
  by (cases w; simp; rule bit_eqI) (auto simp: bit_simps min_def bit_sint_iff not_le less_Suc_eq_le dest: le_antisym)

lemma signed_take_bit_range:
  assumes "1 \<le> w"
  shows "signed_take_bit (w - 1) v = - (2 ^ (w - 1)) + (v + 2 ^ (w - 1)) mod (2 ^ w :: int)"
  using signed_take_bit_eq_take_bit_shift [of "w - 1" v] assms by (simp add: take_bit_eq_mod)

lemma decode_take:
  assumes "enc_ok enc"
  shows "decode_bitfield enc (take_bit (enc_width enc) (of_int v)) = fst (bitfield_range enc) + (v - fst (bitfield_range enc)) mod 2 ^ enc_width enc"
proof (cases enc)
  case (Unsigned w)
  have "uint (take_bit w (of_int v :: 64 word)) = v mod 2 ^ w"
    using assms Unsigned by (simp add: unsigned_take_bit_eq uint_word_of_int_eq take_bit_take_bit take_bit_eq_mod [symmetric] min_def)
  moreover have "v mod 2 ^ w < 2 ^ w" by simp
  moreover have "(2 :: int) ^ w \<le> 2 ^ 63" using assms Unsigned by (intro power_increasing) auto
  ultimately have u: "uint (take_bit w (of_int v :: 64 word)) = v mod 2 ^ w" "v mod 2 ^ w < 2 ^ 63" by (blast, linarith)
  have "0 \<le> v mod 2 ^ w" by simp
  then have "- (2 ^ 63) \<le> v mod 2 ^ w" by (rule order_trans [rotated]) simp
  then have "sint (take_bit w (of_int v :: 64 word)) = v mod 2 ^ w"
    using u signed_take_bit_int_eq_self [of 63 "v mod 2 ^ w"] by (simp add: sint_uint)
  then show ?thesis using Unsigned by simp
next
  case (Signed w)
  have u: "signed_take_bit (w - 1) (uint (take_bit w (of_int v :: 64 word))) = signed_take_bit (w - 1) v"
    using assms Signed by (intro bit_eqI) (auto simp: bit_simps)
  have "decode_bitfield enc (take_bit w (of_int v)) = signed_take_bit (w - 1) (uint (take_bit w (of_int v :: 64 word)))"
  proof (cases "w = 64")
    case True
    then show ?thesis using Signed by (simp add: sint_uint)
  next
    case False
    then show ?thesis using signed_shift [of w "take_bit w (of_int v)"] assms Signed by (simp add: Let_def)
  qed
  then show ?thesis using u signed_take_bit_range [of w v] range_lo [OF assms] assms Signed by simp
qed

lemma decode_encode:
  assumes "enc_ok enc"
  shows "decode_bitfield enc (take_bit (enc_width enc) (encode_bitfield enc v)) = fst (bitfield_range enc) + (v - fst (bitfield_range enc)) mod 2 ^ enc_width enc"
proof -
  have "take_bit (enc_width enc) (encode_bitfield enc v) = take_bit (enc_width enc) (of_int v)"
  proof (cases enc)
    case (Signed w)
    have "take_bit w (of_int (v mod 2 ^ w) :: 64 word) = take_bit w (of_int v)"
      by (rule bit_word_eqI) (simp add: bit_simps take_bit_eq_mod [symmetric])
    then show ?thesis using Signed by (simp add: mod_up_mod)
  qed simp
  then show ?thesis by (simp add: decode_take [OF assms])
qed

lemma wrap_bitfield_mod:
  assumes "enc_ok enc"
  shows "wrap_bitfield enc v mod 2 ^ enc_width enc = v mod 2 ^ enc_width enc"
proof (cases enc)
  case (Signed w)
  have "sint (of_int v :: 64 word) mod 2 ^ 64 = v mod 2 ^ 64"
    using uint_sint [of "of_int v :: 64 word"] by (simp add: take_bit_eq_mod uint_word_of_int)
  then show ?thesis using Signed by (simp add: Let_def mod_up_mod)
qed (simp add: mod_up_mod)

lemma prepare_bitfield_write_spec:
  assumes ok: "enc_ok enc"
  shows "map_option (\<lambda>bits. decode_bitfield enc (take_bit (enc_width enc) bits)) (prepare_bitfield_write enc v mode) = field_value enc mode v"
proof -
  obtain lo hi where r: "bitfield_range enc = (lo, hi)" by fastforce
  let ?m = "2 ^ enc_width enc :: int"
  have hi: "hi = lo + ?m - 1" using range_size [OF ok] r by simp
  have in_range: "lo + (x - lo) mod ?m = x" if "lo \<le> x" "x \<le> hi" for x using that hi by simp
  have "(wrap_bitfield enc v - lo) mod ?m = (v - lo) mod ?m" using wrap_bitfield_mod [OF ok, of v] by (metis mod_diff_left_eq)
  moreover have "lo \<le> hi" by (simp add: hi)
  ultimately show ?thesis using in_range
    by (cases mode) (auto simp: prepare_bitfield_write_def field_value_def r decode_encode [OF ok])
qed

section \<open>Properties\<close>

text \<open>C19. BITCOUNT over a range, in bytes or in bits, with ends counted from the front or from the back: eight bytes at a
  time, on a machine of either byte order, it counts exactly the 1 bits of the clamped range.\<close>

theorem bitcount_exact:
  assumes "length bs < 2 ^ 60"
  shows "count_ones_range e bs start stop unit =
    card {n \<in> bit_range unit (clamp_range start stop (units unit (length bs))). bit_at bs n}"
  by (rule count_ones_range_spec [OF assms])

theorem bitcount_exact_witness:
  "count_ones_range BigEndian [0xFF, 0x0F, 0x01] 2 (- 1) UnitBit = card {n \<in> {2..23}. bit_at [0xFF, 0x0F, 0x01] n}"
  using bitcount_exact [of "[0xFF, 0x0F, 0x01]" BigEndian 2 "- 1" UnitBit] by (simp add: bit_range_def clamp_range_def units_def Let_def)

text \<open>C20. BITPOS on a buffer that is not empty: the result is the first position of the clamped range with the wanted bit,
  the length when a 0 is sought without an end, and -1 otherwise. When the whole range lies in one byte, the
  position of its start within the byte is added once more.\<close>

theorem bitpos_first:
  assumes "length bs < 2 ^ 60" and "target = 0 \<or> target = 1" and "bs \<noteq> []"
  shows "find_first_bit e bs target start stop unit =
    (let (a, b) = clamp_range start (case stop of Some v \<Rightarrow> v | None \<Rightarrow> - 1) (units unit (length bs));
         (lo, hi) = bit_bounds unit (a, b);
         r = hit_from lo (\<lambda>k. wanted bs target (lo + k)) (hi + 1 - lo)
     in if b < a then - 1
        else if r < 0 then (if target = 0 \<and> stop = None then int (8 * length bs) else - 1)
        else if lo div 8 = hi div 8 then r + int (lo mod 8) else r)"
  by (rule find_first_bit_spec [OF assms])

theorem bitpos_first_witness: "find_first_bit LittleEndian [0x10] 1 3 (Some 5) UnitBit = 6 \<and> bit_at [0x10] 3 \<and> \<not> bit_at [0x10] 6"
  using bitpos_first [of "[0x10]" 1 LittleEndian 3 "Some 5" UnitBit]
  by (simp add: clamp_range_def units_def bit_bounds_def Let_def hit_from_def wanted_def bit_at_def bit_numeral_rec upt_rec)

text \<open>BITOP: the destination has the requested length, and every bit of it is the operation on the bits of the
  sources at that position, with sources that are too short read as 0; ONE is the set of bits that occur in exactly one source.\<close>

theorem bitop_bitwise:
  assumes "sources \<noteq> []"
  shows "length (apply_bitop e op sources n) = n \<and>
    (bit_at (apply_bitop e op sources n) m \<longleftrightarrow> m < 8 * n \<and> bitop_bit op (map (\<lambda>s. bit_at s m) sources))"
  using apply_bitop_bit [OF assms] apply_bitop_from_nth [of 0 n e op sources] by (simp add: apply_bitop_def)

theorem bitop_bitwise_witness:
  "bit_at (apply_bitop LittleEndian BitOne [[0xF0], [0x30, 0x01], [0x20]] 2) 1 \<and>
   \<not> bit_at (apply_bitop LittleEndian BitOne [[0xF0], [0x30, 0x01], [0x20]] 2) 2"
  using bitop_bitwise [of "[[0xF0], [0x30, 0x01], [0x20]]" LittleEndian BitOne 2 1] bitop_bitwise [of "[[0xF0], [0x30, 0x01], [0x20]]" LittleEndian BitOne 2 2]
  by (auto simp: bit_at_def bit_numeral_rec)

text \<open>A field of BITFIELD: SET and INCRBY store the number that the chosen treatment of overflows gives, reading the
  field back gives that number, and no bit outside the field changes; with FAIL nothing is written exactly when the number
  is out of range.\<close>

theorem bitfield_write_read:
  assumes "enc_ok enc"
  shows "case prepare_bitfield_write enc v mode of
      None \<Rightarrow> field_value enc mode v = None
    | Some bits \<Rightarrow>
        (let bs' = bitmap_write_bits bs off (enc_width enc) bits in
         field_value enc mode v = Some (decode_bitfield enc (bitmap_read_bits bs' off (enc_width enc))) \<and>
         (if off \<le> m \<and> m < off + enc_width enc then True else get_bit bs' m = get_bit bs m))"
  using prepare_bitfield_write_spec [OF assms, of v mode] enc_ok_width [OF assms]
  by (auto simp: Let_def bitmap_read_write get_bit_spec bitmap_write_bit split: option.split)

theorem bitfield_write_read_witness:
  "decode_bitfield (Signed 5) (bitmap_read_bits (bitmap_write_bits [] 3 5 (of_int 20)) 3 5) = - 12"
proof -
  have "prepare_bitfield_write (Signed 5) 20 OverflowWrap = Some (of_int 20)"
    by (simp add: prepare_bitfield_write_def mod_up_def rem_trunc_def)
  then show ?thesis using bitfield_write_read [where enc = "Signed 5" and v = 20 and mode = OverflowWrap and bs = "[]" and off = 3] by (simp add: field_value_def Let_def)
qed

end
