(* ===== verification/Lcs.thy ===== *)
theory Lcs
  imports Prelude "HOL-Library.Sublist"
begin

text \<open>
  Longest common subsequences, senko-store/src/commands/lcs.rs: the length with two rows of the table, in the
  scalar form and with the vector instructions of x86 and ARM, and the whole table with the trace back through it
  and the grouping of the trace into ranges. Cells are \<open>u16\<close> and saturate.
\<close>

section \<open>The length\<close>

definition sat_succ16 :: "nat \<Rightarrow> nat" where
  "sat_succ16 n = min 65535 (n + 1)"

text \<open>One row: the cells to the right of a cell with value \<open>left\<close>, from the row before.\<close>

fun lcs_row :: "byte \<Rightarrow> bytes \<Rightarrow> nat list \<Rightarrow> nat \<Rightarrow> nat list" where
  "lcs_row lc (sc # short) (p # q # prev) left =
     (let v = (if lc = sc then sat_succ16 p else max q left) in v # lcs_row lc short (q # prev) v)"
| "lcs_row lc _ _ left = []"

definition short_and_long :: "bytes \<Rightarrow> bytes \<Rightarrow> bytes \<times> bytes" where
  "short_and_long a b = (if length a \<le> length b then (a, b) else (b, a))"

definition lcs_len_scalar :: "bytes \<Rightarrow> bytes \<Rightarrow> nat" where
  "lcs_len_scalar a b =
     (if a = [] \<or> b = [] then 0
      else let (short, long) = short_and_long a b;
               prev = foldl (\<lambda>prev lc. 0 # lcs_row lc short prev 0) (replicate (length short + 1) 0) long
           in prev ! length short)"

section \<open>Vector instructions\<close>

text \<open>The instructions on vectors of bytes: comparison sets all bits of the equal lanes, and the mask collects the
  highest bit of every lane.\<close>

definition cmpeq_epi8 :: "bytes \<Rightarrow> byte \<Rightarrow> bytes" where
  "cmpeq_epi8 chunk needle = map (\<lambda>b. if b = needle then 0xFF else 0) chunk"

definition movemask_epi8 :: "bytes \<Rightarrow> nat" where
  "movemask_epi8 v = horner_sum of_bool 2 (map (\<lambda>b. bit b 7) v)"

text \<open>\<open>fill_eq_mask\<close> of x86 with a width of 16, 32 and 64 bytes, and of ARM; the comparison of AVX-512 yields the
  mask itself.\<close>

function fill_eq_mask_x86 :: "nat \<Rightarrow> bytes \<Rightarrow> byte \<Rightarrow> nat list" where
  "fill_eq_mask_x86 width short b =
     (if 0 < width \<and> width \<le> length short
      then let mask = movemask_epi8 (cmpeq_epi8 (take width short) b)
           in map (\<lambda>lane. (mask div 2 ^ lane) mod 2) [0..<width] @ fill_eq_mask_x86 width (drop width short) b
      else map (\<lambda>src. of_bool (src = b)) short)"
  by auto
termination by (relation "measure (\<lambda>(w, short, b). length short)") auto

declare fill_eq_mask_x86.simps [simp del]

definition fill_eq_mask_sse42 :: "bytes \<Rightarrow> byte \<Rightarrow> nat list" where "fill_eq_mask_sse42 = fill_eq_mask_x86 16"
definition fill_eq_mask_avx2 :: "bytes \<Rightarrow> byte \<Rightarrow> nat list" where "fill_eq_mask_avx2 = fill_eq_mask_x86 32"
definition fill_eq_mask_avx512bw :: "bytes \<Rightarrow> byte \<Rightarrow> nat list" where "fill_eq_mask_avx512bw = fill_eq_mask_x86 64"

function fill_eq_mask_neon :: "bytes \<Rightarrow> byte \<Rightarrow> nat list" where
  "fill_eq_mask_neon short b =
     (if 16 \<le> length short
      then map (\<lambda>x. of_bool (x \<noteq> 0)) (cmpeq_epi8 (take 16 short) b) @ fill_eq_mask_neon (drop 16 short) b
      else map (\<lambda>src. of_bool (src = b)) short)"
  by auto
termination by (relation "measure (\<lambda>(short, b). length short)") auto

declare fill_eq_mask_neon.simps [simp del]

fun lcs_row_mask :: "nat list \<Rightarrow> nat list \<Rightarrow> nat \<Rightarrow> nat list" where
  "lcs_row_mask (e # eq) (p # q # prev) left =
     (let v = (if e \<noteq> 0 then sat_succ16 p else max q left) in v # lcs_row_mask eq (q # prev) v)"
| "lcs_row_mask _ _ left = []"

text \<open>The four routines differ in the mask only.\<close>

definition lcs_len_masked :: "(bytes \<Rightarrow> byte \<Rightarrow> nat list) \<Rightarrow> bytes \<Rightarrow> bytes \<Rightarrow> nat" where
  "lcs_len_masked fill a b =
     (let (short, long) = short_and_long a b;
          prev = foldl (\<lambda>prev lc. 0 # lcs_row_mask (fill short lc) prev 0) (replicate (length short + 1) 0) long
      in prev ! length short)"

definition lcs_len_x86_sse42 :: "bytes \<Rightarrow> bytes \<Rightarrow> nat" where "lcs_len_x86_sse42 = lcs_len_masked fill_eq_mask_sse42"
definition lcs_len_x86_avx2 :: "bytes \<Rightarrow> bytes \<Rightarrow> nat" where "lcs_len_x86_avx2 = lcs_len_masked fill_eq_mask_avx2"
definition lcs_len_x86_avx512bw :: "bytes \<Rightarrow> bytes \<Rightarrow> nat" where "lcs_len_x86_avx512bw = lcs_len_masked fill_eq_mask_avx512bw"
definition lcs_len_neon :: "bytes \<Rightarrow> bytes \<Rightarrow> nat" where "lcs_len_neon = lcs_len_masked fill_eq_mask_neon"

text \<open>The processor: the features detected at run time, in the order avx512bw, avx2, sse4.2, or neon.\<close>

datatype cpu = X86 bool bool bool | Aarch64 bool | OtherCpu

definition lcs_len_simd :: "cpu \<Rightarrow> bytes \<Rightarrow> bytes \<Rightarrow> nat option" where
  "lcs_len_simd cpu a b =
     (if a = [] \<or> b = [] then Some 0
      else case cpu of
          X86 avx512bw avx2 sse42 \<Rightarrow>
            if avx512bw then Some (lcs_len_x86_avx512bw a b)
            else if avx2 then Some (lcs_len_x86_avx2 a b)
            else if sse42 then Some (lcs_len_x86_sse42 a b)
            else None
        | Aarch64 neon \<Rightarrow> if neon then Some (lcs_len_neon a b) else None
        | OtherCpu \<Rightarrow> None)"

definition lcs_len :: "cpu \<Rightarrow> bytes \<Rightarrow> bytes \<Rightarrow> nat" where
  "lcs_len cpu a b = (case lcs_len_simd cpu a b of Some v \<Rightarrow> v | None \<Rightarrow> lcs_len_scalar a b)"

section \<open>The whole table\<close>

definition cell_index :: "bytes \<Rightarrow> nat \<Rightarrow> nat \<Rightarrow> nat" where
  "cell_index b i j = i * (length b + 1) + j"

definition lcs_cell :: "bytes \<Rightarrow> bytes \<Rightarrow> nat \<Rightarrow> nat list \<Rightarrow> nat \<Rightarrow> nat list" where
  "lcs_cell a b i dp j =
     dp[cell_index b i j :=
          if a ! (i - 1) = b ! (j - 1) then sat_succ16 (dp ! cell_index b (i - 1) (j - 1))
          else max (dp ! cell_index b (i - 1) j) (dp ! cell_index b i (j - 1))]"

definition lcs_fill_row :: "bytes \<Rightarrow> bytes \<Rightarrow> nat list \<Rightarrow> nat \<Rightarrow> nat list" where
  "lcs_fill_row a b dp i = foldl (lcs_cell a b i) dp [1..<length b + 1]"

definition lcs_table :: "bytes \<Rightarrow> bytes \<Rightarrow> nat list" where
  "lcs_table a b = foldl (lcs_fill_row a b) (replicate ((length a + 1) * (length b + 1)) 0) [1..<length a + 1]"

text \<open>The pairs of positions, the last one first.\<close>

fun lcs_trace :: "bytes \<Rightarrow> bytes \<Rightarrow> nat list \<Rightarrow> nat \<Rightarrow> nat \<Rightarrow> (nat \<times> nat) list" where
  "lcs_trace a b dp i j =
     (if i = 0 \<or> j = 0 then []
      else if a ! (i - 1) = b ! (j - 1) then (i - 1, j - 1) # lcs_trace a b dp (i - 1) (j - 1)
      else if dp ! cell_index b (i - 1) j \<ge> dp ! cell_index b i (j - 1) then lcs_trace a b dp (i - 1) j
      else lcs_trace a b dp i (j - 1))"

declare lcs_trace.simps [simp del]

record match_range =
  a_start :: nat
  a_end :: nat
  b_start :: nat
  b_end :: nat
  mr_len :: nat

fun lcs_ranges :: "nat \<Rightarrow> nat \<Rightarrow> nat \<Rightarrow> nat \<Rightarrow> (nat \<times> nat) list \<Rightarrow> match_range list" where
  "lcs_ranges as bs ap bp [] = [\<lparr>a_start = as, a_end = ap, b_start = bs, b_end = bp, mr_len = ap - as + 1\<rparr>]"
| "lcs_ranges as bs ap bp ((ai, bi) # pairs) =
     (if ai = ap + 1 \<and> bi = bp + 1 then lcs_ranges as bs ai bi pairs
      else \<lparr>a_start = as, a_end = ap, b_start = bs, b_end = bp, mr_len = ap - as + 1\<rparr> # lcs_ranges ai bi ai bi pairs)"

definition lcs_full :: "bytes \<Rightarrow> bytes \<Rightarrow> bytes \<times> match_range list" where
  "lcs_full a b =
     (let pairs = rev (lcs_trace a b (lcs_table a b) (length a) (length b))
      in (map (\<lambda>(ai, _). a ! ai) pairs,
          case pairs of [] \<Rightarrow> [] | (ai, bi) # rest \<Rightarrow> lcs_ranges ai bi ai bi rest))"

section \<open>The reference\<close>

text \<open>The recursion, and that it is the length of the longest common subsequences.\<close>

fun lcs_ref :: "'a list \<Rightarrow> 'a list \<Rightarrow> nat" where
  "lcs_ref (x # xs) (y # ys) = (if x = y then Suc (lcs_ref xs ys) else max (lcs_ref xs (y # ys)) (lcs_ref (x # xs) ys))"
| "lcs_ref _ _ = 0"

definition lcs_length :: "'a list \<Rightarrow> 'a list \<Rightarrow> nat" where
  "lcs_length xs ys = Max (length ` {zs. subseq zs xs \<and> subseq zs ys})"

lemma lcs_ref_Nil [simp]: "lcs_ref xs [] = 0"
  by (cases xs) simp_all

lemma common_le: "subseq zs xs \<Longrightarrow> subseq zs ys \<Longrightarrow> length zs \<le> lcs_ref xs ys"
proof (induction xs ys arbitrary: zs rule: lcs_ref.induct)
  case (1 x xs y ys)
  show ?case
  proof (cases zs)
    case (Cons z zs')
    show ?thesis
    proof (cases "x = y")
      case True
      have "subseq zs' xs" "subseq zs' ys" using "1.prems" by (auto simp: Cons dest: subseq_Cons' split: if_splits)
      then show ?thesis using "1.IH"(1) [OF True] by (simp add: True Cons)
    next
      case False
      then consider "subseq zs xs" | "subseq zs ys" using "1.prems" by (auto simp: Cons split: if_splits)
      then show ?thesis
        using "1.IH"(2) [OF False] "1.IH"(3) [OF False] "1.prems" False by cases (auto simp: le_max_iff_disj)
    qed
  qed simp
qed auto

lemma common_ex: "\<exists>zs. subseq zs xs \<and> subseq zs ys \<and> length zs = lcs_ref xs ys"
proof (induction xs ys rule: lcs_ref.induct)
  case (1 x xs y ys)
  show ?case
  proof (cases "x = y")
    case True
    then obtain zs where "subseq zs xs" "subseq zs ys" "length zs = lcs_ref xs ys" using "1.IH"(1) by blast
    then show ?thesis using True by (intro exI [of _ "x # zs"]) auto
  next
    case False
    then show ?thesis using "1.IH"(2,3) by (auto simp: max_def intro: list_emb_Cons)
  qed
qed auto

lemma subseq_rev1: "subseq xs ys \<Longrightarrow> subseq (rev xs) (rev ys)"
  by (induction xs ys rule: list_emb.induct) (auto intro: subseq_rev_drop_many)

lemma subseq_rev [simp]: "subseq (rev xs) (rev ys) \<longleftrightarrow> subseq xs ys"
  using subseq_rev1 [of xs ys] subseq_rev1 [of "rev xs" "rev ys"] by auto

lemma lcs_length_rev: "lcs_length xs ys = lcs_ref (rev xs) (rev ys)"
proof -
  let ?S = "length ` {zs. subseq zs xs \<and> subseq zs ys}"
  have "n \<le> lcs_ref (rev xs) (rev ys)" if n: "n \<in> ?S" for n
  proof -
    obtain zs where "n = length zs" "subseq zs xs" "subseq zs ys" using n by blast
    then show ?thesis using common_le [of "rev zs" "rev xs" "rev ys"] by simp
  qed
  moreover have "lcs_ref (rev xs) (rev ys) \<in> ?S"
  proof -
    obtain zs where "subseq zs (rev xs)" "subseq zs (rev ys)" "length zs = lcs_ref (rev xs) (rev ys)" using common_ex by blast
    then have "subseq (rev zs) xs" "subseq (rev zs) ys" "length (rev zs) = lcs_ref (rev xs) (rev ys)"
      using subseq_rev [of "rev zs" xs] subseq_rev [of "rev zs" ys] by simp_all
    then show ?thesis by force
  qed
  moreover have "finite ?S" using calculation(1) by (meson finite_nat_set_iff_bounded_le)
  ultimately show ?thesis unfolding lcs_length_def by (intro Max_eqI) auto
qed

lemma lcs_ref_bound: "lcs_ref xs ys \<le> length xs" "lcs_ref xs ys \<le> length ys"
  using common_ex [of xs ys] list_emb_length by fastforce+

lemma lcs_ref_commute: "lcs_ref xs ys = lcs_ref ys xs"
  using common_ex [of xs ys] common_ex [of ys xs] common_le by (metis le_antisym)

section \<open>The rows hold the saturated reference\<close>

fun ref_row :: "byte list \<Rightarrow> bytes \<Rightarrow> bytes \<Rightarrow> nat list" where
  "ref_row us acc [] = [min 65535 (lcs_ref us acc)]"
| "ref_row us acc (s # short) = min 65535 (lcs_ref us acc) # ref_row us (s # acc) short"

lemma ref_row_hd: "\<exists>rest. ref_row us acc short = min 65535 (lcs_ref us acc) # rest"
  by (cases short) simp_all

lemma lcs_row_ref:
  "lcs_row lc short (ref_row us acc short) (min 65535 (lcs_ref (lc # us) acc)) = tl (ref_row (lc # us) acc short)"
proof (induction short arbitrary: acc)
  case (Cons s short)
  obtain rest where r: "ref_row us (s # acc) short = min 65535 (lcs_ref us (s # acc)) # rest" using ref_row_hd by blast
  obtain rest' where r': "ref_row (lc # us) (s # acc) short = min 65535 (lcs_ref (lc # us) (s # acc)) # rest'" using ref_row_hd by blast
  have v: "(if lc = s then sat_succ16 (min 65535 (lcs_ref us acc))
      else max (min 65535 (lcs_ref us (s # acc))) (min 65535 (lcs_ref (lc # us) acc))) = min 65535 (lcs_ref (lc # us) (s # acc))"
    by (auto simp: sat_succ16_def max_def min_def)
  show ?case using Cons.IH [of "s # acc"] by (simp add: r r' v Let_def del: lcs_ref.simps)
qed simp

lemma ref_row_step: "0 # lcs_row lc short (ref_row us [] short) 0 = ref_row (lc # us) [] short"
  using lcs_row_ref [of lc short us "[]"] ref_row_hd [of "lc # us" "[]" short] by auto

lemma ref_row_last: "ref_row us acc short ! length short = min 65535 (lcs_ref us (rev short @ acc))"
  by (induction short arbitrary: acc) simp_all

lemma ref_row_zero: "ref_row [] acc short = replicate (length short + 1) 0"
  by (induction short arbitrary: acc) simp_all

lemma ref_row_fold:
  "foldl (\<lambda>prev lc. 0 # lcs_row lc short prev 0) (ref_row us [] short) long = ref_row (rev long @ us) [] short"
  by (induction long arbitrary: us) (simp_all add: ref_row_step)

lemma two_rows:
  "(foldl (\<lambda>prev lc. 0 # lcs_row lc short prev 0) (replicate (length short + 1) 0) long) ! length short = min 65535 (lcs_length long short)"
  using ref_row_fold [of short "[]" long] by (simp add: ref_row_zero ref_row_last lcs_length_rev del: replicate.simps)

lemma lcs_length_commute: "lcs_length xs ys = lcs_length ys xs"
  by (simp add: lcs_length_rev lcs_ref_commute)

lemma lcs_length_Nil [simp]: "lcs_length [] ys = 0" "lcs_length xs [] = 0"
  by (simp_all add: lcs_length_rev)

lemma lcs_len_scalar_correct: "lcs_len_scalar a b = min 65535 (lcs_length a b)"
  using two_rows [of a b] two_rows [of b a]
  by (auto simp: lcs_len_scalar_def short_and_long_def lcs_length_commute [of b a])

section \<open>The vector routines\<close>

definition exact_mask :: "(bytes \<Rightarrow> byte \<Rightarrow> nat list) \<Rightarrow> bool" where
  "exact_mask fill \<longleftrightarrow> (\<forall>short b. fill short b = map (\<lambda>src. of_bool (src = b)) short)"

lemma mask_bit: "k < length bs \<Longrightarrow> (horner_sum of_bool 2 bs :: nat) div 2 ^ k mod 2 = of_bool (bs ! k)"
  using bit_horner_sum_bit_iff [of bs k, where ?'a = nat] by (auto simp: bit_iff_odd odd_iff_mod_2_eq_one)

lemma mask_lanes:
  "length chunk = width \<Longrightarrow>
     map (\<lambda>lane. (movemask_epi8 (cmpeq_epi8 chunk b) div 2 ^ lane) mod 2) [0..<width] = map (\<lambda>src. of_bool (src = b)) chunk"
  by (rule nth_equalityI) (simp_all add: movemask_epi8_def cmpeq_epi8_def mask_bit)

lemma exact_mask_x86: "exact_mask (fill_eq_mask_x86 width)"
proof -
  have "fill_eq_mask_x86 width short b = map (\<lambda>src. of_bool (src = b)) short" for short b
  proof (induction width short b rule: fill_eq_mask_x86.induct)
    case (1 width short b)
    show ?case
    proof (cases "0 < width \<and> width \<le> length short")
      case True
      have "map (\<lambda>src. of_bool (src = b)) (take width short) @ map (\<lambda>src. of_bool (src = b)) (drop width short) = map (\<lambda>src. of_bool (src = b)) short"
        by (metis append_take_drop_id map_append)
      then show ?thesis
        using 1 True mask_lanes [of "take width short" width b] by (simp add: fill_eq_mask_x86.simps [of width short b] Let_def)
    next
      case False
      then show ?thesis by (subst fill_eq_mask_x86.simps) (simp only: if_False)
    qed
  qed
  then show ?thesis by (simp add: exact_mask_def)
qed

lemma exact_mask_neon: "exact_mask fill_eq_mask_neon"
proof -
  have "fill_eq_mask_neon short b = map (\<lambda>src. of_bool (src = b)) short" for short b
  proof (induction short b rule: fill_eq_mask_neon.induct)
    case (1 short b)
    have "map (\<lambda>src. of_bool (src = b)) (take 16 short) @ map (\<lambda>src. of_bool (src = b)) (drop 16 short) = (map (\<lambda>src. of_bool (src = b)) short :: nat list)"
      by (metis append_take_drop_id map_append)
    moreover have "map (\<lambda>x. of_bool (x \<noteq> 0)) (cmpeq_epi8 xs b) = (map (\<lambda>src. of_bool (src = b)) xs :: nat list)" for xs
      by (simp add: cmpeq_epi8_def)
    ultimately show ?case using 1 by (simp add: fill_eq_mask_neon.simps [of short b])
  qed
  then show ?thesis by (simp add: exact_mask_def)
qed

lemma lcs_row_mask_eq: "lcs_row_mask (map (\<lambda>src. of_bool (src = lc)) short) prev left = lcs_row lc short prev left"
  by (induction lc short prev left rule: lcs_row.induct) (auto simp: Let_def)

lemma lcs_len_masked_correct:
  "exact_mask fill \<Longrightarrow> lcs_len_masked fill a b = min 65535 (lcs_length a b)"
  using two_rows [of a b] two_rows [of b a]
  by (auto simp: lcs_len_masked_def exact_mask_def lcs_row_mask_eq short_and_long_def lcs_length_commute [of b a])

section \<open>The table, the trace and the ranges\<close>

definition cell_value :: "bytes \<Rightarrow> bytes \<Rightarrow> nat \<Rightarrow> nat \<Rightarrow> nat" where
  "cell_value a b i j = min 65535 (lcs_ref (rev (take i a)) (rev (take j b)))"

lemma cell_value_0 [simp]: "cell_value a b 0 j = 0" "cell_value a b i 0 = 0"
  by (simp_all add: cell_value_def)

lemma cell_value_Suc:
  assumes "i < length a" "j < length b"
  shows "cell_value a b (Suc i) (Suc j) =
    (if a ! i = b ! j then sat_succ16 (cell_value a b i j) else max (cell_value a b i (Suc j)) (cell_value a b (Suc i) j))"
  using assms by (auto simp: cell_value_def take_Suc_conv_app_nth sat_succ16_def min_def max_def)

lemma cell_index_inj: "j \<le> length b \<Longrightarrow> l \<le> length b \<Longrightarrow> cell_index b i j = cell_index b k l \<longleftrightarrow> i = k \<and> j = l"
  unfolding cell_index_def
  by (metis div_mult_self3 mod_mult_self3 add_cancel_right_right div_less Suc_eq_plus1 less_Suc_eq_le mod_less nat.distinct(1))

lemma cell_index_bound: "i \<le> r \<Longrightarrow> j \<le> length b \<Longrightarrow> cell_index b i j < (r + 1) * (length b + 1)"
  unfolding cell_index_def
  by (metis Suc_eq_plus1 add.commute add_less_le_mono le_imp_less_Suc mult_Suc mult_le_mono1)

definition cells_done :: "bytes \<Rightarrow> bytes \<Rightarrow> nat list \<Rightarrow> nat \<Rightarrow> nat \<Rightarrow> bool" where
  "cells_done a b dp k l \<longleftrightarrow> length dp = (length a + 1) * (length b + 1) \<and>
     (\<forall>i \<le> length a. \<forall>j \<le> length b. i < k \<or> (i = k \<and> j < l) \<or> j = 0 \<longrightarrow> dp ! cell_index b i j = cell_value a b i j)"

lemma cells_doneD:
  "cells_done a b dp k l \<Longrightarrow> i \<le> length a \<Longrightarrow> j \<le> length b \<Longrightarrow> i < k \<or> (i = k \<and> j < l) \<or> j = 0 \<Longrightarrow>
     dp ! cell_index b i j = cell_value a b i j"
  unfolding cells_done_def by blast

lemma cells_done_cell:
  assumes d: "cells_done a b dp (Suc i) (Suc j)" and i: "i < length a" and j: "j < length b"
  shows "cells_done a b (lcs_cell a b (Suc i) dp (Suc j)) (Suc i) (Suc (Suc j))"
proof -
  have v: "dp ! cell_index b i j = cell_value a b i j" "dp ! cell_index b i (Suc j) = cell_value a b i (Suc j)"
      "dp ! cell_index b (Suc i) j = cell_value a b (Suc i) j"
    using i j by (auto intro: cells_doneD [OF d])
  have u: "lcs_cell a b (Suc i) dp (Suc j) = dp[cell_index b (Suc i) (Suc j) := cell_value a b (Suc i) (Suc j)]"
    unfolding lcs_cell_def cell_value_Suc [OF i j] diff_Suc_1 by (simp only: v)
  have "cell_index b (Suc i) (Suc j) < length dp" using d i j cell_index_bound [of "Suc i" "length a" "Suc j" b] by (simp add: cells_done_def)
  then show ?thesis
    using d j unfolding u cells_done_def
    by (auto simp: nth_list_update cell_index_inj less_Suc_eq)
qed

lemma cells_done_row:
  assumes d: "cells_done a b dp (Suc i) 1" and i: "i < length a"
  shows "l \<le> length b \<Longrightarrow> cells_done a b (foldl (lcs_cell a b (Suc i)) dp [1..<Suc l]) (Suc i) (Suc l)"
proof (induction l)
  case (Suc l)
  then show ?case using cells_done_cell [OF _ i, of b _ l] by simp
qed (use d in simp)

lemma cells_done_next: "cells_done a b dp i (Suc (length b)) \<Longrightarrow> cells_done a b dp (Suc i) 1"
  unfolding cells_done_def by (auto simp: less_Suc_eq_le le_less)

lemma cells_done_table:
  "k \<le> length a \<Longrightarrow>
     cells_done a b (foldl (lcs_fill_row a b) (replicate ((length a + 1) * (length b + 1)) 0) [1..<Suc k]) (Suc k) 1"
proof (induction k)
  case 0
  have "(replicate ((length a + 1) * (length b + 1)) 0 :: nat list) ! cell_index b i j = 0" if "i \<le> length a" "j \<le> length b" for i j
    by (rule nth_replicate) (rule cell_index_bound [OF that])
  then show ?case by (auto simp: cells_done_def simp del: replicate.simps add_mult_distrib)
next
  case (Suc k)
  define dp where "dp = foldl (lcs_fill_row a b) (replicate ((length a + 1) * (length b + 1)) 0) [1..<Suc k]"
  have "cells_done a b dp (Suc k) 1" using Suc by (simp add: dp_def del: upt_Suc replicate.simps)
  then have "cells_done a b (lcs_fill_row a b dp (Suc k)) (Suc k) (Suc (length b))"
    unfolding lcs_fill_row_def Suc_eq_plus1 [symmetric] using Suc.prems by (intro cells_done_row) simp_all
  moreover have "[1..<Suc (Suc k)] = [1..<Suc k] @ [Suc k]" by simp
  ultimately show ?case using cells_done_next by (simp add: dp_def del: upt_Suc replicate.simps)
qed

lemma lcs_table_cell:
  "i \<le> length a \<Longrightarrow> j \<le> length b \<Longrightarrow> lcs_table a b ! cell_index b i j = cell_value a b i j"
  unfolding lcs_table_def Suc_eq_plus1 [symmetric] using cells_doneD [OF cells_done_table [OF order_refl]] by simp

text \<open>The trace, from its end: a chain of positions with equal bytes, as long as the longest common subsequence.\<close>

abbreviation below :: "nat \<times> nat \<Rightarrow> nat \<times> nat \<Rightarrow> bool" where
  "below p q \<equiv> fst p < fst q \<and> snd p < snd q"

lemma lcs_trace_Suc:
  "lcs_trace a b dp (Suc k) (Suc l) =
     (if a ! k = b ! l then (k, l) # lcs_trace a b dp k l
      else if dp ! cell_index b k (Suc l) \<ge> dp ! cell_index b (Suc k) l then lcs_trace a b dp k (Suc l)
      else lcs_trace a b dp (Suc k) l)"
  by (subst lcs_trace.simps) simp

lemma lcs_trace_0 [simp]: "lcs_trace a b dp 0 j = []" "lcs_trace a b dp i 0 = []"
  by (simp_all add: lcs_trace.simps)

lemma lcs_trace_chain:
  "sorted_wrt below (rev (lcs_trace a b dp i j)) \<and> (\<forall>p \<in> set (lcs_trace a b dp i j). fst p < i \<and> snd p < j \<and> a ! fst p = b ! snd p)"
proof (induction "i + j" arbitrary: i j rule: less_induct)
  case less
  show ?case
  proof (cases "i = 0 \<or> j = 0")
    case False
    then obtain k l where k: "i = Suc k" "j = Suc l" by (metis not0_implies_Suc)
    show ?thesis using less [of k l] less [of k "Suc l"] less [of "Suc k" l]
      by (auto simp: k lcs_trace_Suc sorted_wrt_append less_SucI)
  qed auto
qed

lemma lcs_trace_length:
  assumes t: "\<And>k l. k \<le> length a \<Longrightarrow> l \<le> length b \<Longrightarrow> dp ! cell_index b k l = lcs_ref (rev (take k a)) (rev (take l b))"
  shows "i \<le> length a \<Longrightarrow> j \<le> length b \<Longrightarrow> length (lcs_trace a b dp i j) = lcs_ref (rev (take i a)) (rev (take j b))"
proof (induction "i + j" arbitrary: i j rule: less_induct)
  case less
  show ?case
  proof (cases "i = 0 \<or> j = 0")
    case False
    then obtain k l where k: "i = Suc k" "j = Suc l" by (metis not0_implies_Suc)
    then show ?thesis using less(1) [of k l] less(1) [of k "Suc l"] less(1) [of "Suc k" l] less(2,3)
      by (auto simp: lcs_trace_Suc t take_Suc_conv_app_nth max_def)
  qed auto
qed

lemma subseq_nth_chain:
  "sorted_wrt (<) ks \<Longrightarrow> \<forall>k \<in> set ks. n \<le> k \<and> k < length xs \<Longrightarrow> subseq (map ((!) xs) ks) (drop n xs)"
proof (induction ks arbitrary: n)
  case (Cons k ks)
  have "subseq (map ((!) xs) ks) (drop (Suc k) xs)" using Cons by (auto simp: Suc_le_eq)
  then have "subseq (map ((!) xs) (k # ks)) (drop k xs)" using Cons.prems by (simp add: Cons_nth_drop_Suc [symmetric])
  moreover have "drop n xs = take (k - n) (drop n xs) @ drop k xs"
    using Cons.prems append_take_drop_id [of "k - n" "drop n xs"] by simp
  ultimately show ?case by (metis subseq_drop_many)
qed simp

text \<open>The ranges, in order, are exactly the pairs of the trace.\<close>

definition range_pairs :: "match_range \<Rightarrow> (nat \<times> nat) list" where
  "range_pairs r = map (\<lambda>k. (a_start r + k, b_start r + k)) [0..<mr_len r]"

definition range_ok :: "match_range \<Rightarrow> bool" where
  "range_ok r \<longleftrightarrow> mr_len r = a_end r - a_start r + 1 \<and> a_start r \<le> a_end r \<and> b_end r - b_start r = a_end r - a_start r \<and> b_start r \<le> b_end r"

fun apart :: "match_range list \<Rightarrow> bool" where
  "apart (r # q # rs) \<longleftrightarrow> \<not> (a_start q = a_end r + 1 \<and> b_start q = b_end r + 1) \<and> apart (q # rs)"
| "apart _ \<longleftrightarrow> True"

lemma lcs_ranges_hd: "\<exists>r rs. lcs_ranges as bs ap bp pairs = r # rs \<and> a_start r = as \<and> b_start r = bs"
  by (induction as bs ap bp pairs rule: lcs_ranges.induct) auto

lemma lcs_ranges_spec:
  "as \<le> ap \<Longrightarrow> bs \<le> bp \<Longrightarrow> bp - bs = ap - as \<Longrightarrow>
     concat (map range_pairs (lcs_ranges as bs ap bp pairs)) = map (\<lambda>k. (as + k, bs + k)) [0..<Suc (ap - as)] @ pairs \<and>
     (\<forall>r \<in> set (lcs_ranges as bs ap bp pairs). range_ok r) \<and> apart (lcs_ranges as bs ap bp pairs)"
proof (induction as bs ap bp pairs rule: lcs_ranges.induct)
  case (2 as bs ap bp ai bi pairs)
  show ?case
  proof (cases "ai = ap + 1 \<and> bi = bp + 1")
    case True
    then have "Suc (ai - as) = Suc (Suc (ap - as))" "bi - bs = ai - as" "as + Suc (ap - as) = ai" "bs + Suc (ap - as) = bi"
      using "2.prems" by auto
    then show ?thesis using "2.IH"(1) [OF True] "2.prems" True by simp
  next
    case False
    obtain r rs where r: "lcs_ranges ai bi ai bi pairs = r # rs" "a_start r = ai" "b_start r = bi" using lcs_ranges_hd by blast
    show ?thesis using "2.IH"(2) [OF False] "2.prems" False r by (auto simp: range_ok_def range_pairs_def)
  qed
qed (simp add: range_ok_def range_pairs_def)

lemma chain_indices:
  "sorted_wrt below pairs \<Longrightarrow> sorted_wrt (<) (map fst pairs) \<and> sorted_wrt (<) (map snd pairs)"
  by (induction pairs) auto

text \<open>Within the limit on cells no cell saturates.\<close>

lemma no_saturation:
  assumes "length a * length b \<le> 64000000"
  shows "lcs_ref (rev (take i a)) (rev (take j b)) < 65535"
proof (rule ccontr)
  assume n: "\<not> ?thesis"
  have "lcs_ref (rev (take i a)) (rev (take j b)) \<le> length a" "lcs_ref (rev (take i a)) (rev (take j b)) \<le> length b"
    using lcs_ref_bound [of "rev (take i a)" "rev (take j b)"] by simp_all
  with n have "65535 \<le> length a" "65535 \<le> length b" by linarith+
  then have "65535 * 65535 \<le> length a * length b" by (rule mult_le_mono)
  with assms show False by simp
qed

lemma lcs_table_exact:
  assumes "length a * length b \<le> 64000000" "i \<le> length a" "j \<le> length b"
  shows "lcs_table a b ! cell_index b i j = lcs_ref (rev (take i a)) (rev (take j b))"
  using no_saturation [OF assms(1), of i j] by (simp add: lcs_table_cell [OF assms(2,3)] cell_value_def)

lemma range_bytes:
  assumes "range_ok r"
  shows "map (\<lambda>p. x ! fst p) (range_pairs r) = map ((!) x) [a_start r..<Suc (a_end r)]"
    and "map (\<lambda>p. y ! snd p) (range_pairs r) = map ((!) y) [b_start r..<Suc (b_end r)]"
  using assms by (auto simp: range_ok_def range_pairs_def intro!: nth_equalityI simp del: upt_Suc)

lemma ranges_bytes:
  "\<forall>r \<in> set rs. range_ok r \<Longrightarrow>
     concat (map (\<lambda>r. map ((!) x) [a_start r..<Suc (a_end r)]) rs) = map (\<lambda>p. x ! fst p) (concat (map range_pairs rs)) \<and>
     concat (map (\<lambda>r. map ((!) y) [b_start r..<Suc (b_end r)]) rs) = map (\<lambda>p. y ! snd p) (concat (map range_pairs rs))"
  by (induction rs) (simp_all add: range_bytes del: upt_Suc)

lemma lcs_len_correct: "lcs_len cpu a b = min 65535 (lcs_length a b)"
  by (auto simp: lcs_len_def lcs_len_simd_def lcs_len_scalar_correct lcs_len_x86_avx512bw_def lcs_len_x86_avx2_def lcs_len_x86_sse42_def
    lcs_len_neon_def fill_eq_mask_sse42_def fill_eq_mask_avx2_def fill_eq_mask_avx512bw_def lcs_len_masked_correct exact_mask_x86 exact_mask_neon
    split: cpu.split)

lemma lcs_full_correct:
  assumes "length a * length b \<le> 64000000"
  shows "case lcs_full a b of (zs, ranges) \<Rightarrow>
    subseq zs a \<and> subseq zs b \<and> length zs = lcs_length a b \<and>
    concat (map (\<lambda>r. map ((!) a) [a_start r..<Suc (a_end r)]) ranges) = zs \<and>
    concat (map (\<lambda>r. map ((!) b) [b_start r..<Suc (b_end r)]) ranges) = zs \<and>
    list_all range_ok ranges \<and> apart ranges"
proof -
  define pairs where "pairs = rev (lcs_trace a b (lcs_table a b) (length a) (length b))"
  define rs where "rs = (case pairs of [] \<Rightarrow> [] | (ai, bi) # rest \<Rightarrow> lcs_ranges ai bi ai bi rest)"
  have c: "sorted_wrt below pairs" "\<forall>p \<in> set pairs. fst p < length a \<and> snd p < length b \<and> a ! fst p = b ! snd p"
    using lcs_trace_chain [of a b "lcs_table a b" "length a" "length b"] by (auto simp: pairs_def)
  have l: "length pairs = lcs_length a b"
    using lcs_trace_length [of a b "lcs_table a b" "length a" "length b"] lcs_table_exact [OF assms] by (simp add: pairs_def lcs_length_rev)
  have e: "map (\<lambda>p. a ! fst p) pairs = map (\<lambda>p. b ! snd p) pairs" using c(2) by simp
  have s: "subseq (map (\<lambda>p. a ! fst p) pairs) a" "subseq (map (\<lambda>p. b ! snd p) pairs) b"
    using subseq_nth_chain [of "map fst pairs" 0 a] subseq_nth_chain [of "map snd pairs" 0 b] chain_indices [OF c(1)] c(2) by (simp_all add: comp_def)
  have r: "concat (map range_pairs rs) = pairs" "\<forall>r \<in> set rs. range_ok r" "apart rs"
    using lcs_ranges_spec [of "fst (hd pairs)" "fst (hd pairs)" "snd (hd pairs)" "snd (hd pairs)" "tl pairs"]
    by (auto simp: rs_def case_prod_unfold split: list.split)
  have "lcs_full a b = (map (\<lambda>p. a ! fst p) pairs, rs)" by (simp add: lcs_full_def pairs_def rs_def case_prod_unfold Let_def)
  then show ?thesis using s l r e ranges_bytes [OF r(2), of a b] by (simp add: list_all_iff del: upt_Suc)
qed

section \<open>Properties\<close>

text \<open>C21. The length that LCS LEN reports: on every processor, with or without vector instructions, it is the
  length of the longest common subsequences of the two values, cut off at 65535.\<close>

theorem lcs_len_exact: "lcs_len cpu a b = min 65535 (lcs_length a b)"
  by (rule lcs_len_correct)

text \<open>C22. For two values within the limit on the size of the table, the trace is a common subsequence of both and no
  common subsequence is longer; the ranges cover it, in both values and in order, and no two neighbours could be joined.\<close>

theorem lcs_full_longest:
  assumes "length a * length b \<le> 64000000"
  shows "case lcs_full a b of (zs, ranges) \<Rightarrow>
    subseq zs a \<and> subseq zs b \<and> length zs = lcs_length a b \<and>
    concat (map (\<lambda>r. map ((!) a) [a_start r..<Suc (a_end r)]) ranges) = zs \<and>
    concat (map (\<lambda>r. map ((!) b) [b_start r..<Suc (b_end r)]) ranges) = zs \<and>
    list_all range_ok ranges \<and> apart ranges"
  by (rule lcs_full_correct [OF assms])

theorem lcs_full_longest_witness: "lcs_full [1, 2, 3] [2, 3] =
    ([2, 3], [\<lparr>a_start = 1, a_end = 2, b_start = 0, b_end = 1, mr_len = 2\<rparr>]) \<and> lcs_length [1, 2, 3 :: byte] [2, 3] = 2"
proof -
  have "lcs_full [1, 2, 3] [2, 3] = ([2, 3], [\<lparr>a_start = 1, a_end = 2, b_start = 0, b_end = 1, mr_len = 2\<rparr>])"
    by (simp add: lcs_full_def lcs_table_def lcs_fill_row_def lcs_cell_def cell_index_def sat_succ16_def lcs_trace.simps upt_rec)
  then show ?thesis using lcs_full_longest [of "[1, 2, 3]" "[2, 3]"] by simp
qed

end
