(* ===== verification/BitCommands.thy ===== *)
theory BitCommands
  imports StringSpec Bitmap Lcs
begin

text \<open>
  The handlers of senko-store/src/commands/bitmap.rs and lcs.rs over the buffers of theory Bitmap and the
  algorithms of theory Lcs, what they promise on the visible keyspace, and that they keep the promise on the store. The
  specification sees a string as its bits: a function from positions together with a length.
\<close>

section \<open>Arguments\<close>

definition bit_offset_error :: senko_error where
  "bit_offset_error = Protocol (ascii ''ERR bit offset is not an integer or out of range'')"

definition parse_u64_text :: "bytes \<Rightarrow> senko_error + nat" where
  "parse_u64_text raw =
     (case (if utf8_valid raw then parse_unsigned u64_max raw else None) of
        Some n \<Rightarrow> Inr n
      | None \<Rightarrow> Inl (Protocol (ascii ''value is not an integer or out of range'')))"

definition parse_u8 :: "bytes \<Rightarrow> nat option" where
  "parse_u8 raw = (if utf8_valid raw then parse_unsigned 255 raw else None)"

definition parse_bit_offset :: "bytes \<Rightarrow> senko_error + nat" where
  "parse_bit_offset raw = (case parse_u64_text raw of
      Inl _ \<Rightarrow> Inl bit_offset_error
    | Inr offset \<Rightarrow> if offset > MAX_BITMAP_OFFSET then Inl bit_offset_error else Inr offset)"

definition parse_bit_value :: "bytes \<Rightarrow> senko_error + byte" where
  "parse_bit_value raw =
     (if raw = ascii ''0'' then Inr 0 else if raw = ascii ''1'' then Inr 1
      else Inl (Protocol (ascii ''ERR bit is not an integer or out of range'')))"

definition parse_range_unit :: "bytes \<Rightarrow> senko_error + range_unit" where
  "parse_range_unit raw =
     (if is_opt raw ''BYTE'' then Inr UnitByte else if is_opt raw ''BIT'' then Inr UnitBit else Inl syntax_error)"

definition parse_bitop :: "bytes \<Rightarrow> senko_error + bit_op" where
  "parse_bitop raw =
     (if is_opt raw ''AND'' then Inr BitAnd else if is_opt raw ''OR'' then Inr BitOr else if is_opt raw ''XOR'' then Inr BitXor
      else if is_opt raw ''NOT'' then Inr BitNot else if is_opt raw ''DIFF'' then Inr BitDiff
      else if is_opt raw ''DIFF1'' then Inr BitDiff1 else if is_opt raw ''ANDOR'' then Inr BitAndOr
      else if is_opt raw ''ONE'' then Inr BitOne else Inl syntax_error)"

definition invalid_type_error :: senko_error where
  "invalid_type_error = Protocol (ascii ''ERR invalid bitfield type'')"

definition parse_bitfield_encoding :: "bytes \<Rightarrow> senko_error + bitfield_encoding" where
  "parse_bitfield_encoding raw =
     (if length raw < 2 then Inl invalid_type_error
      else case parse_u8 (drop 1 raw) of
          None \<Rightarrow> Inl invalid_type_error
        | Some width \<Rightarrow>
            if (hd raw = 117 \<or> hd raw = 85) \<and> 1 \<le> width \<and> width \<le> 63 then Inr (Unsigned width)
            else if (hd raw = 105 \<or> hd raw = 73) \<and> 1 \<le> width \<and> width \<le> 64 then Inr (Signed width)
            else Inl invalid_type_error)"

datatype bitfield_offset = Absolute nat | Multiplied nat

definition parse_bitfield_offset :: "bytes \<Rightarrow> senko_error + bitfield_offset" where
  "parse_bitfield_offset raw =
     (if raw \<noteq> [] \<and> hd raw = 35 then attempt (parse_u64_text (tl raw)) (\<lambda>n. Inr (Multiplied n))
      else attempt (parse_u64_text raw) (\<lambda>n. Inr (Absolute n)))"

fun resolve_bitfield_offset :: "bitfield_encoding \<Rightarrow> bitfield_offset \<Rightarrow> nat" where
  "resolve_bitfield_offset enc (Absolute n) = n"
| "resolve_bitfield_offset enc (Multiplied n) = sat_mul64 n (enc_width enc)"

definition parse_overflow_mode :: "bytes \<Rightarrow> senko_error + overflow_mode" where
  "parse_overflow_mode raw =
     (if is_opt raw ''WRAP'' then Inr OverflowWrap else if is_opt raw ''SAT'' then Inr OverflowSat
      else if is_opt raw ''FAIL'' then Inr OverflowFail else Inl syntax_error)"

datatype bitfield_op =
    BfOverflow overflow_mode
  | BfGet bitfield_encoding bitfield_offset
  | BfSet bitfield_encoding bitfield_offset int
  | BfIncrBy bitfield_encoding bitfield_offset int

definition read_only_error :: senko_error where
  "read_only_error = Protocol (ascii ''ERR BITFIELD_RO only supports the GET subcommand'')"

text \<open>The arguments of the fields: an encoding and an offset, and a number for the writing ones.\<close>

definition parse_field :: "frame \<Rightarrow> frame \<Rightarrow> senko_error + (bitfield_encoding \<times> bitfield_offset)" where
  "parse_field e off =
     attempt (attempt (arg_bytes e) parse_bitfield_encoding) (\<lambda>enc.
     attempt (attempt (arg_bytes off) parse_bitfield_offset) (\<lambda>offset. Inr (enc, offset)))"

fun parse_bitfield_subcommands :: "bool \<Rightarrow> frame list \<Rightarrow> senko_error + bitfield_op list" where
  "parse_bitfield_subcommands read_only [] = Inr []"
| "parse_bitfield_subcommands read_only (f # rest) =
     attempt (arg_bytes f) (\<lambda>token.
       if is_opt token ''OVERFLOW'' then
         if read_only then Inl read_only_error
         else (case rest of
             [] \<Rightarrow> Inl syntax_error
           | m # rest' \<Rightarrow>
               attempt (attempt (arg_bytes m) parse_overflow_mode) (\<lambda>mode.
               attempt (parse_bitfield_subcommands read_only rest') (\<lambda>ops. Inr (BfOverflow mode # ops))))
       else if is_opt token ''GET'' then
         (case rest of
             e # off # rest' \<Rightarrow>
               attempt (parse_field e off) (\<lambda>(enc, offset).
               attempt (parse_bitfield_subcommands read_only rest') (\<lambda>ops. Inr (BfGet enc offset # ops)))
           | _ \<Rightarrow> Inl syntax_error)
       else if is_opt token ''SET'' then
         if read_only then Inl read_only_error
         else (case rest of
             e # off # v # rest' \<Rightarrow>
               attempt (parse_field e off) (\<lambda>(enc, offset).
               attempt (attempt (arg_bytes v) parse_i64_text) (\<lambda>n.
               attempt (parse_bitfield_subcommands read_only rest') (\<lambda>ops. Inr (BfSet enc offset n # ops))))
           | _ \<Rightarrow> Inl syntax_error)
       else if is_opt token ''INCRBY'' then
         if read_only then Inl read_only_error
         else (case rest of
             e # off # v # rest' \<Rightarrow>
               attempt (parse_field e off) (\<lambda>(enc, offset).
               attempt (attempt (arg_bytes v) parse_i64_text) (\<lambda>n.
               attempt (parse_bitfield_subcommands read_only rest') (\<lambda>ops. Inr (BfIncrBy enc offset n # ops))))
           | _ \<Rightarrow> Inl syntax_error)
       else Inl syntax_error)"

section \<open>Handlers of bitmap.rs\<close>

definition ensure_bitmap_len :: "nat \<Rightarrow> senko_error + unit" where
  "ensure_bitmap_len needed_len = (if needed_len > MAX_STRING_SIZE then Inl size_error else Inr ())"

definition store_bitmap ::
    "('s, 'v) store_api \<Rightarrow> nat \<Rightarrow> bytes \<Rightarrow> bool \<Rightarrow> bytes \<Rightarrow> ('s, 'a) handler \<Rightarrow> ('s, 'a) handler" where
  "store_bitmap A now key existed bs h = call (api_set A key (Raw bs) (keep_ttl_if existed) now) (\<lambda>_. h)"

definition getbit_cmd :: "('s, 'v) store_api \<Rightarrow> 'v string_deps \<Rightarrow> nat \<Rightarrow> frame list \<Rightarrow> ('s, 'v senko_value response) handler" where
  "getbit_cmd A E now args =
     (if length args \<noteq> 2 then fail (wrong_number ''getbit'')
      else try_in (arg_bytes (args ! 0)) (\<lambda>key.
        try_in (attempt (arg_bytes (args ! 1)) parse_bit_offset) (\<lambda>offset.
        call (api_get A key now) (\<lambda>current.
        try_in (materialize_value_bytes E current) (\<lambda>bitmap.
        give (RespInteger (uint (get_bit bitmap offset))))))))"

definition setbit_cmd :: "('s, 'v) store_api \<Rightarrow> 'v string_deps \<Rightarrow> nat \<Rightarrow> frame list \<Rightarrow> ('s, 'v senko_value response) handler" where
  "setbit_cmd A E now args =
     (if length args \<noteq> 3 then fail (wrong_number ''setbit'')
      else try_in (arg_bytes (args ! 0)) (\<lambda>key_bytes.
        try_in (parse_key key_bytes) (\<lambda>key.
        try_in (attempt (arg_bytes (args ! 1)) parse_bit_offset) (\<lambda>offset.
        try_in (attempt (arg_bytes (args ! 2)) parse_bit_value) (\<lambda>v.
        let needed_len = offset div 8 + 1 in
        try_in (ensure_bitmap_len needed_len) (\<lambda>_.
        call (api_get A key_bytes now) (\<lambda>current.
        try_in (materialize_value_bytes E current) (\<lambda>bitmap.
        let bitmap = (if length bitmap < needed_len then resize needed_len bitmap else bitmap);
            (old, bitmap) = set_bit_at bitmap offset v
        in store_bitmap A now key (current \<noteq> None) bitmap (give (RespInteger (uint old)))))))))))"

definition bitcount_range :: "frame list \<Rightarrow> senko_error + (int \<times> int \<times> range_unit) option" where
  "bitcount_range args =
     (if length args = 1 then Inr None
      else attempt (attempt (arg_bytes (args ! 1)) parse_i64_text) (\<lambda>start.
           attempt (attempt (arg_bytes (args ! 2)) parse_i64_text) (\<lambda>stop.
           if length args = 3 then Inr (Some (start, stop, UnitByte))
           else attempt (attempt (arg_bytes (args ! 3)) parse_range_unit) (\<lambda>unit. Inr (Some (start, stop, unit))))))"

definition bitcount_cmd ::
    "endian \<Rightarrow> ('s, 'v) store_api \<Rightarrow> 'v string_deps \<Rightarrow> nat \<Rightarrow> frame list \<Rightarrow> ('s, 'v senko_value response) handler" where
  "bitcount_cmd e A E now args =
     (if args = [] then fail (wrong_number ''bitcount'')
      else if length args = 2 \<or> length args > 4 then fail syntax_error
      else try_in (arg_bytes (args ! 0)) (\<lambda>key.
        try_in (bitcount_range args) (\<lambda>parsed_range.
        call (api_get A key now) (\<lambda>current. case current of
            None \<Rightarrow> give (RespInteger 0)
          | Some v \<Rightarrow>
              try_in (materialize_value_bytes E (Some v)) (\<lambda>bitmap.
              give (RespInteger (int (case parsed_range of
                  Some (start, stop, unit) \<Rightarrow> count_ones_range e bitmap start stop unit
                | None \<Rightarrow> popcount_bytes e bitmap))))))))"

text \<open>An optional argument at a position.\<close>

definition optional :: "bool \<Rightarrow> (bytes \<Rightarrow> senko_error + 'a) \<Rightarrow> frame \<Rightarrow> senko_error + 'a option" where
  "optional given reader f = (if given then attempt (attempt (arg_bytes f) reader) (\<lambda>x. Inr (Some x)) else Inr None)"

definition bitpos_cmd ::
    "endian \<Rightarrow> ('s, 'v) store_api \<Rightarrow> 'v string_deps \<Rightarrow> nat \<Rightarrow> frame list \<Rightarrow> ('s, 'v senko_value response) handler" where
  "bitpos_cmd e A E now args =
     (if length args < 2 \<or> length args > 5 then fail (wrong_number ''bitpos'')
      else try_in (arg_bytes (args ! 0)) (\<lambda>key.
        try_in (attempt (arg_bytes (args ! 1)) parse_bit_value) (\<lambda>b.
        try_in (optional (length args \<ge> 3) parse_i64_text (args ! 2)) (\<lambda>start.
        try_in (optional (length args \<ge> 4) parse_i64_text (args ! 3)) (\<lambda>stop.
        try_in (optional (length args = 5) parse_range_unit (args ! 4)) (\<lambda>unit.
        call (api_get A key now) (\<lambda>current. case current of
            None \<Rightarrow> give (RespInteger (if b = 0 then 0 else - 1))
          | Some v \<Rightarrow>
              try_in (materialize_value_bytes E (Some v)) (\<lambda>bitmap.
              give (RespInteger (find_first_bit e bitmap b (case start of Some i \<Rightarrow> i | None \<Rightarrow> 0) stop
                (case unit of Some u \<Rightarrow> u | None \<Rightarrow> UnitByte)))))))))))"

fun bitop_sources :: "('s, 'v) store_api \<Rightarrow> 'v string_deps \<Rightarrow> nat \<Rightarrow> frame list \<Rightarrow> ('s, bytes list \<times> nat) handler" where
  "bitop_sources A E now [] = give ([], 0)"
| "bitop_sources A E now (f # frames) =
     try_in (arg_bytes f) (\<lambda>key.
     call (api_get A key now) (\<lambda>current. case current of
         None \<Rightarrow> and_then (bitop_sources A E now frames) (\<lambda>(sources, longest). give ([] # sources, longest))
       | Some v \<Rightarrow>
           try_in (materialize_value_bytes E (Some v)) (\<lambda>bs.
           and_then (bitop_sources A E now frames) (\<lambda>(sources, longest). give (bs # sources, max (length bs) longest)))))"

definition bitop_cmd ::
    "endian \<Rightarrow> ('s, 'v) store_api \<Rightarrow> 'v string_deps \<Rightarrow> nat \<Rightarrow> frame list \<Rightarrow> ('s, 'v senko_value response) handler" where
  "bitop_cmd e A E now args =
     (if length args < 3 then fail (wrong_number ''bitop'')
      else try_in (attempt (arg_bytes (args ! 0)) parse_bitop) (\<lambda>op.
        try_in (attempt (arg_bytes (args ! 1)) parse_key) (\<lambda>dest_key.
        if op = BitNot \<and> length (drop 2 args) \<noteq> 1
        then fail (Protocol (ascii ''ERR BITOP NOT must be called with a single source key''))
        else and_then (bitop_sources A E now (drop 2 args)) (\<lambda>(sources, longest).
          if longest = 0 then call (api_delete A dest_key now) (\<lambda>_. give (RespInteger 0))
          else call (api_set A dest_key (Raw (apply_bitop e op sources longest)) no_options now) (\<lambda>_.
            give (RespInteger (int longest)))))))"

section \<open>BITFIELD\<close>

definition read_bitfield_value :: "bytes \<Rightarrow> bitfield_encoding \<Rightarrow> nat \<Rightarrow> senko_error + int" where
  "read_bitfield_value bs enc offset =
     (if offset + enc_width enc > u64_max then Inl bit_offset_error
      else if offset + enc_width enc - 1 > MAX_BITMAP_OFFSET then Inl bit_offset_error
      else Inr (decode_bitfield enc (bitmap_read_bits bs offset (enc_width enc))))"

definition bitfield_required_len :: "nat \<Rightarrow> nat \<Rightarrow> senko_error + nat" where
  "bitfield_required_len offset width =
     (if offset + width > u64_max then Inl bit_offset_error else Inr ((offset + width - 1) div 8 + 1))"

text \<open>The write of a field, with the number to report for it; the flag says that the buffer was touched.\<close>

definition write_field ::
    "bitfield_encoding \<Rightarrow> nat \<Rightarrow> int \<Rightarrow> overflow_mode \<Rightarrow> (64 word \<Rightarrow> int) \<Rightarrow> bytes \<Rightarrow> senko_error + (int option \<times> bytes \<times> bool)" where
  "write_field enc offset v overflow report bs = (case prepare_bitfield_write enc v overflow of
      Some bits \<Rightarrow>
        attempt (bitfield_required_len offset (enc_width enc)) (\<lambda>n.
        attempt (ensure_bitmap_len n) (\<lambda>_.
        Inr (Some (report bits), bitmap_write_bits bs offset (enc_width enc) bits, True)))
    | None \<Rightarrow> Inr (None, bs, False))"

definition run_field :: "bitfield_op \<Rightarrow> overflow_mode \<Rightarrow> bytes \<Rightarrow> senko_error + (int option \<times> bytes \<times> bool)" where
  "run_field op overflow bs = (case op of
      BfGet enc off \<Rightarrow> attempt (read_bitfield_value bs enc (resolve_bitfield_offset enc off)) (\<lambda>v. Inr (Some v, bs, False))
    | BfSet enc off v \<Rightarrow>
        attempt (read_bitfield_value bs enc (resolve_bitfield_offset enc off)) (\<lambda>old.
        write_field enc (resolve_bitfield_offset enc off) v overflow (\<lambda>_. old) bs)
    | BfIncrBy enc off increment \<Rightarrow>
        attempt (read_bitfield_value bs enc (resolve_bitfield_offset enc off)) (\<lambda>old.
        write_field enc (resolve_bitfield_offset enc off) (old + increment) overflow (decode_bitfield enc) bs)
    | BfOverflow _ \<Rightarrow> Inr (None, bs, False))"

fun run_bitfield :: "bitfield_op list \<Rightarrow> overflow_mode \<Rightarrow> bytes \<Rightarrow> senko_error + (int option list \<times> bytes \<times> bool)" where
  "run_bitfield [] overflow bs = Inr ([], bs, False)"
| "run_bitfield (BfOverflow mode # ops) overflow bs = run_bitfield ops mode bs"
| "run_bitfield (op # ops) overflow bs =
     attempt (run_field op overflow bs) (\<lambda>(result, bs, touched).
     attempt (run_bitfield ops overflow bs) (\<lambda>(results, bs, touched'). Inr (result # results, bs, touched \<or> touched')))"

definition field_reply :: "int option \<Rightarrow> 'v response" where
  "field_reply r = (case r of Some v \<Rightarrow> RespInteger v | None \<Rightarrow> RespValue None)"

definition bitfield_impl ::
    "('s, 'v) store_api \<Rightarrow> 'v string_deps \<Rightarrow> bool \<Rightarrow> nat \<Rightarrow> frame list \<Rightarrow> ('s, 'v senko_value response) handler" where
  "bitfield_impl A E read_only now args =
     (if args = [] then fail (ProtocolMessage (ascii (''wrong number of arguments for '' @ [CHR 0x27] @
          (if read_only then ''bitfield_ro'' else ''bitfield'') @ [CHR 0x27] @ '' command'')))
      else try_in (arg_bytes (args ! 0)) (\<lambda>key_bytes.
        try_in (parse_key key_bytes) (\<lambda>key.
        try_in (parse_bitfield_subcommands read_only (drop 1 args)) (\<lambda>ops.
        if ops = [] then give (RespArray [])
        else call (api_get A key_bytes now) (\<lambda>current.
        try_in (materialize_value_bytes E current) (\<lambda>bitmap.
        try_in (run_bitfield ops OverflowWrap bitmap) (\<lambda>(results, bitmap, touched).
        if touched \<and> \<not> read_only
        then store_bitmap A now key (current \<noteq> None) bitmap (give (RespArray (map field_reply results)))
        else give (RespArray (map field_reply results)))))))))"

section \<open>LCS\<close>

definition DEFAULT_MAX_CELLS :: nat where "DEFAULT_MAX_CELLS = 64000000"

record lcs_options =
  len_only :: bool
  idx :: bool
  with_match_len :: bool
  min_match_len :: nat

definition lcs_options_default :: lcs_options where
  "lcs_options_default = \<lparr>len_only = False, idx = False, with_match_len = False, min_match_len = 0\<rparr>"

fun parse_lcs_flags :: "lcs_options \<Rightarrow> frame list \<Rightarrow> senko_error + lcs_options" where
  "parse_lcs_flags opts [] = Inr opts"
| "parse_lcs_flags opts (f # rest) =
     attempt (arg_bytes f) (\<lambda>flag.
       if is_opt flag ''LEN'' then parse_lcs_flags (opts\<lparr>len_only := True\<rparr>) rest
       else if is_opt flag ''IDX'' then parse_lcs_flags (opts\<lparr>idx := True\<rparr>) rest
       else if is_opt flag ''WITHMATCHLEN'' then parse_lcs_flags (opts\<lparr>with_match_len := True\<rparr>) rest
       else if is_opt flag ''MINMATCHLEN'' then
         (case rest of
            [] \<Rightarrow> Inl syntax_error
          | v # rest' \<Rightarrow>
              attempt (arg_bytes v) (\<lambda>raw.
                case (if utf8_valid raw then parse_unsigned u64_max raw else None) of
                  None \<Rightarrow> Inl syntax_error
                | Some n \<Rightarrow> parse_lcs_flags (opts\<lparr>min_match_len := n\<rparr>) rest'))
       else Inl syntax_error)"

definition parse_lcs_options :: "frame list \<Rightarrow> senko_error + lcs_options" where
  "parse_lcs_options args =
     attempt (parse_lcs_flags lcs_options_default args) (\<lambda>opts.
       if with_match_len opts \<and> \<not> idx opts then Inl syntax_error else Inr opts)"

definition render_idx_response :: "match_range list \<Rightarrow> nat \<Rightarrow> nat \<Rightarrow> bool \<Rightarrow> 'v senko_value response" where
  "render_idx_response ranges total_len min_len with_len =
     RespArray [RespValue (Some (Raw (ascii ''matches''))),
       RespArray (map (\<lambda>r. RespArray ([RespArray [RespInteger (int (a_start r)), RespInteger (int (a_end r))],
                                        RespArray [RespInteger (int (b_start r)), RespInteger (int (b_end r))]] @
                                       (if with_len then [RespInteger (int (mr_len r))] else [])))
                  (filter (\<lambda>r. \<not> mr_len r < min_len) ranges)),
       RespValue (Some (Raw (ascii ''len''))), RespInteger (int total_len)]"

definition memory_error :: senko_error where
  "memory_error = Protocol (ascii ''ERR LCS requires too much memory'')"

definition lcs_wire_bytes :: "'v string_deps \<Rightarrow> 'v senko_value option \<Rightarrow> bytes" where
  "lcs_wire_bytes E value = (case value of None \<Rightarrow> [] | Some v \<Rightarrow> value_wire_bytes E v)"

definition lcs_cmd ::
    "cpu \<Rightarrow> ('s, 'v) store_api \<Rightarrow> 'v string_deps \<Rightarrow> nat \<Rightarrow> frame list \<Rightarrow> ('s, 'v senko_value response) handler" where
  "lcs_cmd cpu A E now args =
     (if length args < 2 then fail (wrong_number ''lcs'')
      else try_in (arg_bytes (args ! 0)) (\<lambda>key1.
        try_in (arg_bytes (args ! 1)) (\<lambda>key2.
        try_in (parse_lcs_options (drop 2 args)) (\<lambda>opts.
        call (api_get A key1 now) (\<lambda>v1.
        call (api_get A key2 now) (\<lambda>v2.
        let left = lcs_wire_bytes E v1; right = lcs_wire_bytes E v2 in
        if len_only opts \<and> \<not> idx opts then give (RespInteger (int (lcs_len cpu left right)))
        else if length left * length right > u64_max then fail memory_error
        else if length left * length right > DEFAULT_MAX_CELLS then fail memory_error
        else let (lcs_bytes, matches) = lcs_full left right in
          if idx opts then give (render_idx_response matches (length lcs_bytes) (min_match_len opts) (with_match_len opts))
          else if len_only opts then give (RespInteger (int (length lcs_bytes)))
          else give (RespValue (Some (Raw lcs_bytes)))))))))"

section \<open>Handlers on related stores\<close>

datatype bit_command = CGetbit | CSetbit | CBitcount | CBitpos | CBitop | CBitfield | CBitfieldRo | CLcs

text \<open>The machine the handlers run on: its byte order and its vector instructions.\<close>

record machine =
  mach_endian :: endian
  mach_cpu :: cpu

fun run_bit :: "machine \<Rightarrow> ('s, 'v) store_api \<Rightarrow> 'v string_deps \<Rightarrow> bit_command \<Rightarrow> nat \<Rightarrow> frame list \<Rightarrow> ('s, 'v senko_value response) handler" where
  "run_bit M A E CGetbit now args = getbit_cmd A E now args"
| "run_bit M A E CSetbit now args = setbit_cmd A E now args"
| "run_bit M A E CBitcount now args = bitcount_cmd (mach_endian M) A E now args"
| "run_bit M A E CBitpos now args = bitpos_cmd (mach_endian M) A E now args"
| "run_bit M A E CBitop now args = bitop_cmd (mach_endian M) A E now args"
| "run_bit M A E CBitfield now args = bitfield_impl A E False now args"
| "run_bit M A E CBitfieldRo now args = bitfield_impl A E True now args"
| "run_bit M A E CLcs now args = lcs_cmd (mach_cpu M) A E now args"

lemma related_pair [related_intros]: "(\<And>x y. related R (f x y) (g x y)) \<Longrightarrow> related R (case p of (x, y) \<Rightarrow> f x y) (case p of (x, y) \<Rightarrow> g x y)"
  by (cases p) simp

context store_client
begin

lemma bitop_sources_related: "related R (bitop_sources A E now frames) (bitop_sources B E now frames)"
  by (induction frames) (simp_all, (intro related_intros calls | assumption)+)

lemma run_bit_related: "related R (run_bit M A E c now args) (run_bit M B E c now args)"
  by (cases c)
     (simp_all only: run_bit.simps getbit_cmd_def setbit_cmd_def bitcount_cmd_def bitpos_cmd_def bitop_cmd_def bitfield_impl_def
        lcs_cmd_def store_bitmap_def Let_def,
      (intro related_intros calls bitop_sources_related string_value_scalar)+)

end

section \<open>What the commands promise\<close>

text \<open>The bytes of a sequence of bits.\<close>

definition bytes_of_bits :: "(nat \<Rightarrow> bool) \<Rightarrow> nat \<Rightarrow> bytes" where
  "bytes_of_bits f n = map (\<lambda>i. horner_sum of_bool 2 (map (\<lambda>j. f (8 * i + (7 - j))) [0..<8])) [0..<n]"

text \<open>The number in a field, highest bit first, and the bits with a number written to a field.\<close>

definition field_int :: "bitfield_encoding \<Rightarrow> (nat \<Rightarrow> bool) \<Rightarrow> nat \<Rightarrow> int" where
  "field_int enc f off =
     (let v = foldl (\<lambda>v k. 2 * v + of_bool (f (off + k))) 0 [0..<enc_width enc]
      in case enc of Unsigned _ \<Rightarrow> v | Signed w \<Rightarrow> if 2 ^ (w - 1) \<le> v then v - 2 ^ w else v)"

definition put_field :: "nat \<Rightarrow> nat \<Rightarrow> int \<Rightarrow> (nat \<Rightarrow> bool) \<Rightarrow> nat \<Rightarrow> bool" where
  "put_field off w u f m = (if off \<le> m \<and> m < off + w then bit u (w - 1 - (m - off)) else f m)"

definition field_write_spec ::
    "bitfield_encoding \<Rightarrow> nat \<Rightarrow> int \<Rightarrow> overflow_mode \<Rightarrow> (int \<Rightarrow> int) \<Rightarrow> (nat \<Rightarrow> bool) \<Rightarrow> nat \<Rightarrow> int option \<times> (nat \<Rightarrow> bool) \<times> nat \<times> bool" where
  "field_write_spec enc off v mode report f n = (case field_value enc mode v of
      None \<Rightarrow> (None, f, n, False)
    | Some u \<Rightarrow> (Some (report u), put_field off (enc_width enc) u f, max n ((off + enc_width enc - 1) div 8 + 1), True))"

fun op_field :: "bitfield_op \<Rightarrow> bitfield_encoding \<times> bitfield_offset" where
  "op_field (BfGet enc off) = (enc, off)"
| "op_field (BfSet enc off _) = (enc, off)"
| "op_field (BfIncrBy enc off _) = (enc, off)"
| "op_field (BfOverflow _) = (Unsigned 1, Absolute 0)"

definition op_offset :: "bitfield_op \<Rightarrow> nat" where
  "op_offset op = (case op_field op of (enc, off) \<Rightarrow> resolve_bitfield_offset enc off)"

definition op_enc :: "bitfield_op \<Rightarrow> bitfield_encoding" where
  "op_enc op = fst (op_field op)"

definition field_spec :: "bitfield_op \<Rightarrow> overflow_mode \<Rightarrow> (nat \<Rightarrow> bool) \<Rightarrow> nat \<Rightarrow> senko_error + (int option \<times> (nat \<Rightarrow> bool) \<times> nat \<times> bool)" where
  "field_spec op mode f n =
     (let enc = op_enc op; off = op_offset op; old = field_int enc f off in
      if off + enc_width enc - 1 > MAX_BITMAP_OFFSET then Inl bit_offset_error
      else Inr (case op of
          BfSet _ _ v \<Rightarrow> field_write_spec enc off v mode (\<lambda>_. old) f n
        | BfIncrBy _ _ d \<Rightarrow> field_write_spec enc off (old + d) mode id f n
        | _ \<Rightarrow> (Some old, f, n, False)))"

fun fields_spec :: "bitfield_op list \<Rightarrow> overflow_mode \<Rightarrow> (nat \<Rightarrow> bool) \<Rightarrow> nat \<Rightarrow> senko_error + (int option list \<times> (nat \<Rightarrow> bool) \<times> nat \<times> bool)" where
  "fields_spec [] mode f n = Inr ([], f, n, False)"
| "fields_spec (BfOverflow mode' # ops) mode f n = fields_spec ops mode' f n"
| "fields_spec (op # ops) mode f n =
     attempt (field_spec op mode f n) (\<lambda>(result, f, n, touched).
     attempt (fields_spec ops mode f n) (\<lambda>(results, f, n, touched'). Inr (result # results, f, n, touched \<or> touched')))"

text \<open>The first position with a bit, as BITPOS answers it.\<close>

definition bitpos_spec :: "bytes \<Rightarrow> byte \<Rightarrow> int \<Rightarrow> int option \<Rightarrow> range_unit \<Rightarrow> int" where
  "bitpos_spec t target start stop unit =
     (if t = [] then (if target = 0 then 0 else - 1)
      else let (a, b) = clamp_range start (case stop of Some v \<Rightarrow> v | None \<Rightarrow> - 1) (units unit (length t));
               (lo, hi) = bit_bounds unit (a, b);
               r = hit_from lo (\<lambda>k. wanted t target (lo + k)) (hi + 1 - lo)
           in if b < a then - 1
              else if r < 0 then (if target = 0 \<and> stop = None then int (8 * length t) else - 1)
              else if lo div 8 = hi div 8 then r + int (lo mod 8) else r)"

datatype bit_span = Whole | From int | Span int int | SpanIn int int range_unit

definition count_spec :: "bytes \<Rightarrow> bit_span \<Rightarrow> nat" where
  "count_spec t span =
     (let within = (\<lambda>a b unit. card {n \<in> bit_range unit (clamp_range a b (units unit (length t))). bit_at t n})
      in case span of SpanIn a b unit \<Rightarrow> within a b unit | Span a b \<Rightarrow> within a b UnitByte | _ \<Rightarrow> card {n. bit_at t n})"

fun strings_at :: "'v string_deps \<Rightarrow> 'v senko_value keyspace \<Rightarrow> bytes list \<Rightarrow> senko_error + bytes list" where
  "strings_at E m [] = Inr []"
| "strings_at E m (k # ks) = attempt (string_at E m k) (\<lambda>t. attempt (strings_at E m ks) (\<lambda>ts. Inr (t # ts)))"

datatype bit_request =
    BGetbit bytes nat
  | BSetbit bytes nat bool
  | BCount bytes bit_span
  | BPos bytes bool bit_span
  | BOp bit_op bytes "bytes list"
  | BField bytes "bitfield_op list"
  | BFieldRo bytes "bitfield_op list"
  | BLcs bytes bytes lcs_options

definition lcs_spec :: "bytes \<Rightarrow> bytes \<Rightarrow> lcs_options \<Rightarrow> senko_error + 'v senko_value response" where
  "lcs_spec t u opts =
     (if len_only opts \<and> \<not> idx opts then Inr (RespInteger (int (min 65535 (lcs_length t u))))
      else if length t * length u > 64000000 then Inl memory_error
      else if idx opts then Inr (render_idx_response (snd (lcs_full t u)) (lcs_length t u) (min_match_len opts) (with_match_len opts))
      else Inr (RespValue (Some (Raw (fst (lcs_full t u))))))"

definition fields_request ::
    "'v string_deps \<Rightarrow> nat \<Rightarrow> 'v senko_value keyspace \<Rightarrow> bytes \<Rightarrow> bitfield_op list \<Rightarrow>
       (senko_error + 'v senko_value response) \<times> 'v senko_value keyspace" where
  "fields_request E now m k ops =
     (if ops = [] then (Inr (RespArray []), m)
      else case string_at E m k of
          Inl e \<Rightarrow> (Inl e, m)
        | Inr t \<Rightarrow>
            (case fields_spec ops OverflowWrap (bit_at t) (length t) of
               Inl e \<Rightarrow> (Inl e, m)
             | Inr (results, f, n, touched) \<Rightarrow>
                 (Inr (RespArray (map field_reply results)),
                  if touched then put_at now k (Raw (bytes_of_bits f n)) (deadline_at m k) m else m)))"

fun bit_request_spec ::
    "'v string_deps \<Rightarrow> nat \<Rightarrow> 'v senko_value keyspace \<Rightarrow> bit_request \<Rightarrow> (senko_error + 'v senko_value response) \<times> 'v senko_value keyspace" where
  "bit_request_spec E now m (BGetbit k n) =
     ((if n > MAX_BITMAP_OFFSET then Inl bit_offset_error
       else map_sum id (\<lambda>t. RespInteger (of_bool (bit_at t n))) (string_at E m k)), m)"
| "bit_request_spec E now m (BSetbit k n v) =
     (if n > MAX_BITMAP_OFFSET then (Inl bit_offset_error, m)
      else case string_at E m k of
          Inl e \<Rightarrow> (Inl e, m)
        | Inr t \<Rightarrow> (Inr (RespInteger (of_bool (bit_at t n))),
                    put_at now k (Raw (bytes_of_bits ((bit_at t)(n := v)) (max (length t) (n div 8 + 1)))) (deadline_at m k) m))"
| "bit_request_spec E now m (BCount k span) = (map_sum id (\<lambda>t. RespInteger (int (count_spec t span))) (string_at E m k), m)"
| "bit_request_spec E now m (BPos k b span) =
     (map_sum id (\<lambda>t. RespInteger (case span of
          Whole \<Rightarrow> bitpos_spec t (of_bool b) 0 None UnitByte
        | From a \<Rightarrow> bitpos_spec t (of_bool b) a None UnitByte
        | Span a c \<Rightarrow> bitpos_spec t (of_bool b) a (Some c) UnitByte
        | SpanIn a c unit \<Rightarrow> bitpos_spec t (of_bool b) a (Some c) unit)) (string_at E m k), m)"
| "bit_request_spec E now m (BOp op dest ks) =
     (if op = BitNot \<and> length ks \<noteq> 1
      then (Inl (Protocol (ascii ''ERR BITOP NOT must be called with a single source key'')), m)
      else case strings_at E m ks of
          Inl e \<Rightarrow> (Inl e, m)
        | Inr ts \<Rightarrow>
            (let longest = Max (set (map length ts)) in
             if longest = 0 then (Inr (RespInteger 0), m(dest := None))
             else (Inr (RespInteger (int longest)),
                   put_at now dest (Raw (bytes_of_bits (\<lambda>n. bitop_bit op (map (\<lambda>t. bit_at t n) ts)) longest)) None m)))"
| "bit_request_spec E now m (BField k ops) = fields_request E now m k ops"
| "bit_request_spec E now m (BFieldRo k ops) = (fst (fields_request E now m k ops), m)"
| "bit_request_spec E now m (BLcs k1 k2 opts) =
     (lcs_spec (lcs_wire_bytes E (value_at m k1)) (lcs_wire_bytes E (value_at m k2)) opts, m)"

text \<open>The words of a request.\<close>

definition unit_word :: "range_unit \<Rightarrow> bytes" where
  "unit_word unit = ascii (case unit of UnitByte \<Rightarrow> ''BYTE'' | UnitBit \<Rightarrow> ''BIT'')"

fun span_words :: "bit_span \<Rightarrow> bytes list" where
  "span_words Whole = []"
| "span_words (From a) = [dec_int a]"
| "span_words (Span a b) = [dec_int a, dec_int b]"
| "span_words (SpanIn a b unit) = [dec_int a, dec_int b, unit_word unit]"

definition bitop_word :: "bit_op \<Rightarrow> string" where
  "bitop_word op = (case op of BitAnd \<Rightarrow> ''AND'' | BitOr \<Rightarrow> ''OR'' | BitXor \<Rightarrow> ''XOR'' | BitNot \<Rightarrow> ''NOT''
     | BitDiff \<Rightarrow> ''DIFF'' | BitDiff1 \<Rightarrow> ''DIFF1'' | BitAndOr \<Rightarrow> ''ANDOR'' | BitOne \<Rightarrow> ''ONE'')"

fun enc_word :: "bitfield_encoding \<Rightarrow> bytes" where
  "enc_word (Unsigned w) = 117 # dec_nat w"
| "enc_word (Signed w) = 105 # dec_nat w"

fun offset_word :: "bitfield_offset \<Rightarrow> bytes" where
  "offset_word (Absolute n) = dec_nat n"
| "offset_word (Multiplied n) = 35 # dec_nat n"

definition mode_word :: "overflow_mode \<Rightarrow> string" where
  "mode_word mode = (case mode of OverflowWrap \<Rightarrow> ''WRAP'' | OverflowSat \<Rightarrow> ''SAT'' | OverflowFail \<Rightarrow> ''FAIL'')"

fun field_words :: "bitfield_op \<Rightarrow> bytes list" where
  "field_words (BfOverflow mode) = [ascii ''OVERFLOW'', ascii (mode_word mode)]"
| "field_words (BfGet enc off) = [ascii ''GET'', enc_word enc, offset_word off]"
| "field_words (BfSet enc off v) = [ascii ''SET'', enc_word enc, offset_word off, dec_int v]"
| "field_words (BfIncrBy enc off d) = [ascii ''INCRBY'', enc_word enc, offset_word off, dec_int d]"

definition lcs_words :: "lcs_options \<Rightarrow> bytes list" where
  "lcs_words opts =
     (if len_only opts then [ascii ''LEN''] else []) @ (if idx opts then [ascii ''IDX''] else []) @
     (if with_match_len opts then [ascii ''WITHMATCHLEN''] else []) @ [ascii ''MINMATCHLEN'', dec_nat (min_match_len opts)]"

fun bit_request_words :: "bit_request \<Rightarrow> bit_command \<times> bytes list" where
  "bit_request_words (BGetbit k n) = (CGetbit, [k, dec_nat n])"
| "bit_request_words (BSetbit k n v) = (CSetbit, [k, dec_nat n, ascii (if v then ''1'' else ''0'')])"
| "bit_request_words (BCount k span) = (CBitcount, k # span_words span)"
| "bit_request_words (BPos k b span) = (CBitpos, [k, ascii (if b then ''1'' else ''0'')] @ span_words span)"
| "bit_request_words (BOp op dest ks) = (CBitop, [ascii (bitop_word op), dest] @ ks)"
| "bit_request_words (BField k ops) = (CBitfield, k # concat (map field_words ops))"
| "bit_request_words (BFieldRo k ops) = (CBitfieldRo, k # concat (map field_words ops))"
| "bit_request_words (BLcs k1 k2 opts) = (CLcs, [k1, k2] @ lcs_words opts)"

definition bit_request_frames :: "bit_request \<Rightarrow> bit_command \<times> frame list" where
  "bit_request_frames r = (case bit_request_words r of (c, ws) \<Rightarrow> (c, map BulkString ws))"

text \<open>Requests that a client can express, on strings whose bits can be numbered by the machine.\<close>

fun span_ok :: "bit_span \<Rightarrow> bool" where
  "span_ok Whole \<longleftrightarrow> True"
| "span_ok (From a) \<longleftrightarrow> in_i64 a"
| "span_ok (Span a b) \<longleftrightarrow> in_i64 a \<and> in_i64 b"
| "span_ok (SpanIn a b _) \<longleftrightarrow> in_i64 a \<and> in_i64 b"

fun offset_ok :: "bitfield_offset \<Rightarrow> bool" where
  "offset_ok (Absolute n) \<longleftrightarrow> n \<le> u64_max"
| "offset_ok (Multiplied n) \<longleftrightarrow> n \<le> u64_max"

fun field_ok :: "bitfield_op \<Rightarrow> bool" where
  "field_ok (BfOverflow _) \<longleftrightarrow> True"
| "field_ok (BfGet enc off) \<longleftrightarrow> enc_ok enc \<and> offset_ok off"
| "field_ok (BfSet enc off v) \<longleftrightarrow> enc_ok enc \<and> offset_ok off \<and> in_i64 v"
| "field_ok (BfIncrBy enc off d) \<longleftrightarrow> enc_ok enc \<and> offset_ok off \<and> in_i64 d"

definition is_get :: "bitfield_op \<Rightarrow> bool" where
  "is_get op \<longleftrightarrow> (case op of BfGet _ _ \<Rightarrow> True | _ \<Rightarrow> False)"

definition numbered :: "'v string_deps \<Rightarrow> 'v senko_value keyspace \<Rightarrow> bytes \<Rightarrow> bool" where
  "numbered E m k \<longleftrightarrow> (case string_at E m k of Inl _ \<Rightarrow> True | Inr t \<Rightarrow> length t < 2 ^ 60)"

fun bit_request_ok :: "'v string_deps \<Rightarrow> 'v senko_value keyspace \<Rightarrow> bit_request \<Rightarrow> bool" where
  "bit_request_ok E m (BGetbit k n) \<longleftrightarrow> n \<le> u64_max"
| "bit_request_ok E m (BSetbit k n v) \<longleftrightarrow> utf8_valid k \<and> n \<le> u64_max"
| "bit_request_ok E m (BCount k span) \<longleftrightarrow> span_ok span \<and> (\<forall>a. span \<noteq> From a) \<and> numbered E m k"
| "bit_request_ok E m (BPos k b span) \<longleftrightarrow> span_ok span \<and> numbered E m k"
| "bit_request_ok E m (BOp op dest ks) \<longleftrightarrow> utf8_valid dest \<and> ks \<noteq> []"
| "bit_request_ok E m (BField k ops) \<longleftrightarrow> utf8_valid k \<and> list_all field_ok ops"
| "bit_request_ok E m (BFieldRo k ops) \<longleftrightarrow> utf8_valid k \<and> list_all field_ok ops \<and> list_all is_get ops"
| "bit_request_ok E m (BLcs k1 k2 opts) \<longleftrightarrow> (if with_match_len opts then idx opts else True) \<and> min_match_len opts \<le> u64_max"

section \<open>Bits and bytes\<close>

lemma bit_byte_of_bits: "j < 8 \<Longrightarrow> bit (horner_sum of_bool 2 (map g [0..<8]) :: byte) j = g j"
  by (simp add: bit_horner_sum_bit_word_iff)

lemma bit_at_bytes_of_bits: "bit_at (bytes_of_bits f n) m \<longleftrightarrow> m div 8 < n \<and> f m"
proof -
  have "8 * (m div 8) + (7 - (7 - m mod 8)) = m" using mod_less_divisor [of 8 m] by simp
  then show ?thesis by (auto simp: bit_at_def bytes_of_bits_def bit_byte_of_bits)
qed

lemma bytes_eqI:
  assumes "length bs = length cs" "\<And>m. bit_at bs m = bit_at cs m"
  shows "bs = cs"
proof (rule nth_equalityI [OF assms(1)], rule bit_word_eqI)
  fix i n assume "i < length bs" "n < LENGTH(8)"
  then show "bit (bs ! i) n = bit (cs ! i) n"
    using assms bit_at_block [of i bs "7 - n"] bit_at_block [of i cs "7 - n"] by simp
qed

lemma bytes_of_bitsI: "length bs = n \<Longrightarrow> (\<And>m. bit_at bs m \<longleftrightarrow> m div 8 < n \<and> f m) \<Longrightarrow> bs = bytes_of_bits f n"
  by (rule bytes_eqI) (simp_all add: bit_at_bytes_of_bits, simp add: bytes_of_bits_def)

lemma bit_at_length: "bit_at bs m \<Longrightarrow> m div 8 < length bs"
  by (simp add: bit_at_def)

section \<open>Fields as numbers\<close>

lemma fold_bits_value:
  "bit (foldl (\<lambda>v k. 2 * v + of_bool (f (off + k))) 0 [0..<w] :: int) k \<longleftrightarrow> k < w \<and> f (off + (w - 1 - k))"
proof (induction w arbitrary: k)
  case (Suc w)
  have "bit (2 * v + of_bool b :: int) k = (if k = 0 then b else bit v (k - 1))" for v b
    by (cases k) (auto simp: bit_Suc bit_0)
  then show ?case using Suc.IH [of "k - 1"] by (cases k) auto
qed simp

lemma read_bits_value:
  assumes "w \<le> 64"
  shows "uint (bitmap_read_bits bs off w) = foldl (\<lambda>v k. 2 * v + of_bool (bit_at bs (off + k))) 0 [0..<w]"
  using assms by (intro bit_eqI) (auto simp: fold_bits_value bit_unsigned_iff bitmap_read_bit)

lemma fold_bits_bound: "0 \<le> (foldl (\<lambda>v k. 2 * v + of_bool (f (off + k))) 0 [0..<w] :: int) \<and> foldl (\<lambda>v k. 2 * v + of_bool (f (off + k))) 0 [0..<w] < (2 ^ w :: int)"
  by (induction w) (auto simp: of_bool_def)

lemma shifted_mod:
  assumes "1 \<le> n" "0 \<le> v" "v < 2 ^ n"
  shows "(v + 2 ^ (n - 1)) mod 2 ^ n - 2 ^ (n - 1) = (if 2 ^ (n - 1) \<le> v then v - 2 ^ n else v :: int)"
proof -
  define h :: int where "h = 2 ^ (n - 1)"
  have h: "2 ^ n = 2 * h" "0 < h" using assms(1) by (cases n; simp add: h_def)+
  have "(v + h) mod (2 * h) = v - h" if "h \<le> v"
  proof -
    have "(v + h) mod (2 * h) = (v - h + 2 * h) mod (2 * h)" by (simp add: algebra_simps)
    also have "\<dots> = (v - h) mod (2 * h)" by (rule mod_add_self2)
    also have "\<dots> = v - h" using that assms h by (intro mod_pos_pos_trivial) auto
    finally show ?thesis .
  qed
  moreover have "(v + h) mod (2 * h) = v + h" if "\<not> h \<le> v" using that assms h by (intro mod_pos_pos_trivial) auto
  ultimately show ?thesis unfolding h h_def [symmetric] by auto
qed

lemma decode_read_bits:
  assumes "enc_ok enc"
  shows "decode_bitfield enc (bitmap_read_bits bs off (enc_width enc)) = field_int enc (bit_at bs) off"
proof -
  let ?w = "enc_width enc" and ?r = "bitmap_read_bits bs off (enc_width enc)"
  define v :: int where "v = foldl (\<lambda>v k. 2 * v + of_bool (bit_at bs (off + k))) 0 [0..<?w]"
  have w: "1 \<le> ?w" "?w \<le> 64" using enc_ok_width [OF assms] by auto
  have v: "uint ?r = v" "0 \<le> v" "v < 2 ^ ?w" using read_bits_value [OF w(2)] fold_bits_bound by (auto simp: v_def)
  have "?r = take_bit ?w (of_int v)"
    using w v(1) by (intro bit_word_eqI) (auto simp: bit_take_bit_iff bitmap_read_bit simp flip: v(1))
  then have d: "decode_bitfield enc ?r = fst (bitfield_range enc) + (v - fst (bitfield_range enc)) mod 2 ^ ?w"
    using decode_take [OF assms, of v] by simp
  have "field_int enc (bit_at bs) off = (case enc of Unsigned _ \<Rightarrow> v | Signed n \<Rightarrow> if 2 ^ (n - 1) \<le> v then v - 2 ^ n else v)"
    unfolding field_int_def Let_def v_def [symmetric] by (rule refl)
  also have "\<dots> = decode_bitfield enc ?r"
    using d v(2,3) shifted_mod [of ?w v] range_lo [OF assms] w(1) by (cases enc) simp_all
  finally show ?thesis by simp
qed

lemma decode_whole:
  assumes "enc_ok enc" "\<And>w. enc = Unsigned w \<Longrightarrow> 0 \<le> x \<and> x < 2 ^ w"
  shows "decode_bitfield enc (encode_bitfield enc x) = decode_bitfield enc (take_bit (enc_width enc) (encode_bitfield enc x))"
proof (cases enc)
  case (Unsigned w)
  have "take_bit w (of_int x :: 64 word) = of_int x"
    using assms Unsigned by (intro bit_word_eqI) (auto simp: bit_simps, metis bit_take_bit_iff take_bit_int_eq_self)
  then show ?thesis using Unsigned by simp
next
  case (Signed w)
  then show ?thesis using assms(1) signed_shift [of w "encode_bitfield enc x"] signed_shift [of w "take_bit w (encode_bitfield enc x)"]
    by (cases "w = 64") (auto simp: Let_def intro!: bit_eqI simp: bit_simps)
qed

lemma prepare_bits:
  assumes ok: "enc_ok enc" and p: "prepare_bitfield_write enc v mode = Some bits"
  shows "\<exists>u. field_value enc mode v = Some u \<and> decode_bitfield enc bits = u \<and> (\<forall>k < enc_width enc. bit bits k = bit u k)"
proof -
  obtain lo hi where r: "bitfield_range enc = (lo, hi)" by fastforce
  define x where "x = (if lo \<le> v \<and> v \<le> hi then v else if mode = OverflowWrap then wrap_bitfield enc v else if v < lo then lo else hi)"
  have x: "bits = encode_bitfield enc x" using p by (cases mode) (auto simp: prepare_bitfield_write_def r x_def split: if_splits)
  have hi: "hi = lo + 2 ^ enc_width enc - 1" using range_size [OF ok] r by simp
  have un: "0 \<le> x \<and> x < 2 ^ w" if "enc = Unsigned w" for w using that r by (auto simp: x_def mod_up_mod)
  define u where "u = decode_bitfield enc (take_bit (enc_width enc) bits)"
  have "field_value enc mode v = Some u" using prepare_bitfield_write_spec [OF ok, of v mode] p by (simp add: u_def)
  moreover have "decode_bitfield enc bits = u" using decode_whole [OF ok un] by (simp add: x u_def)
  moreover have "bit bits k = bit u k" if "k < enc_width enc" for k
  proof -
    have "u mod 2 ^ enc_width enc = x mod 2 ^ enc_width enc"
      using decode_encode [OF ok, of x] r by (simp add: u_def x mod_add_right_eq)
    then have "bit u k = bit x k" using that bit_take_bit_iff [of "enc_width enc" u k] bit_take_bit_iff [of "enc_width enc" x k] by (simp add: take_bit_eq_mod)
    moreover have "bit bits k = bit x k"
      using that enc_ok_width [OF ok] un
      by (cases enc) (auto simp: x bit_simps mod_up_mod take_bit_eq_mod [symmetric])
    ultimately show ?thesis by simp
  qed
  ultimately show ?thesis by blast
qed

lemma prepare_none: "enc_ok enc \<Longrightarrow> prepare_bitfield_write enc v mode = None \<Longrightarrow> field_value enc mode v = None"
  using prepare_bitfield_write_spec [of enc v mode] by simp

lemma write_bits_field:
  assumes "\<forall>k < w. bit bits k = bit u k" "0 < w"
  shows "bit_at (bitmap_write_bits bs off w bits) = put_field off w u (bit_at bs)"
  using assms by (auto simp: fun_eq_iff bitmap_write_bit put_field_def)

text \<open>A step of BITFIELD on the buffer is the step of the specification on its bits.\<close>

definition field_result :: "senko_error + ('a \<times> bytes \<times> bool) \<Rightarrow> senko_error + ('a \<times> (nat \<Rightarrow> bool) \<times> nat \<times> bool)" where
  "field_result r = map_sum id (\<lambda>(x, bs, touched). (x, bit_at bs, length bs, touched)) r"

lemma write_field_spec:
  assumes ok: "enc_ok enc" and off: "off + enc_width enc - 1 \<le> MAX_BITMAP_OFFSET" and rep: "\<And>bits. g (decode_bitfield enc bits) = report bits"
  shows "field_result (write_field enc off v mode report bs) = Inr (field_write_spec enc off v mode g (bit_at bs) (length bs))"
proof (cases "prepare_bitfield_write enc v mode")
  case None
  then show ?thesis using prepare_none [OF ok] by (simp add: write_field_def field_write_spec_def field_result_def)
next
  case (Some bits)
  obtain u where u: "field_value enc mode v = Some u" "decode_bitfield enc bits = u" "\<forall>k < enc_width enc. bit bits k = bit u k"
    using prepare_bits [OF ok Some] by blast
  have w: "1 \<le> enc_width enc" "enc_width enc \<le> 64" using enc_ok_width [OF ok] by auto
  have "(off + enc_width enc - 1) div 8 + 1 \<le> MAX_STRING_SIZE" using off by (simp add: MAX_BITMAP_OFFSET_def MAX_STRING_SIZE_def)
  moreover have "off + enc_width enc \<le> u64_max" using off by (simp add: MAX_BITMAP_OFFSET_def)
  ultimately show ?thesis
    using Some u w rep [of bits] write_bits_field [OF u(3), of bs off]
    by (auto simp: write_field_def field_write_spec_def field_result_def bitfield_required_len_def ensure_bitmap_len_def bitmap_write_length)
qed

lemma run_field_spec:
  assumes "field_ok op" "\<And>mode. op \<noteq> BfOverflow mode"
  shows "field_result (run_field op mode bs) = field_spec op mode (bit_at bs) (length bs)"
proof -
  have ok: "enc_ok (op_enc op)" using assms by (cases op) (auto simp: op_enc_def)
  have read: "read_bitfield_value bs (op_enc op) (op_offset op) =
      (if op_offset op + enc_width (op_enc op) - 1 > MAX_BITMAP_OFFSET then Inl bit_offset_error else Inr (field_int (op_enc op) (bit_at bs) (op_offset op)))"
    by (auto simp: read_bitfield_value_def decode_read_bits [OF ok] MAX_BITMAP_OFFSET_def)
  show ?thesis
  proof (cases "op_offset op + enc_width (op_enc op) - 1 > MAX_BITMAP_OFFSET")
    case True
    then show ?thesis using read assms(2)
      by (cases op) (auto simp: run_field_def field_spec_def field_result_def op_enc_def op_offset_def Let_def)
  next
    case False
    then have off: "op_offset op + enc_width (op_enc op) - 1 \<le> MAX_BITMAP_OFFSET" by simp
    show ?thesis using read assms(2) write_field_spec [OF ok off] off
      by (cases op) (auto simp: run_field_def field_spec_def field_result_def op_enc_def op_offset_def Let_def id_def)
  qed
qed

lemma field_result_step:
  assumes "field_result r = q" and "\<And>bs. field_result (k bs) = K (bit_at bs) (length bs)"
  shows "field_result (attempt r (\<lambda>(x, bs, t). attempt (k bs) (\<lambda>(xs, bs, t'). Inr (x # xs, bs, t \<or> t')))) =
    attempt q (\<lambda>(x, f, n, t). attempt (K f n) (\<lambda>(xs, f, n, t'). Inr (x # xs, f, n, t \<or> t')))"
proof (cases r)
  case (Inr p)
  obtain x bs t where p: "p = (x, bs, t)" by (cases p)
  show ?thesis unfolding assms(1) [symmetric] Inr p
    by (cases "k bs") (auto simp: field_result_def assms(2) [unfolded field_result_def, symmetric])
qed (auto simp: field_result_def simp flip: assms(1))

lemma run_bitfield_spec:
  "list_all field_ok ops \<Longrightarrow> field_result (run_bitfield ops mode bs) = fields_spec ops mode (bit_at bs) (length bs)"
proof (induction ops arbitrary: mode bs)
  case Nil
  then show ?case by (simp add: field_result_def)
next
  case (Cons op ops)
  have f: "field_ok op" "list_all field_ok ops" using Cons.prems by simp_all
  have step: "field_result (attempt (run_field op mode bs) (\<lambda>(x, bs, t). attempt (run_bitfield ops mode bs) (\<lambda>(xs, bs, t'). Inr (x # xs, bs, t \<or> t')))) =
      attempt (field_spec op mode (bit_at bs) (length bs)) (\<lambda>(x, f, n, t). attempt (fields_spec ops mode f n) (\<lambda>(xs, f, n, t'). Inr (x # xs, f, n, t \<or> t')))"
    if "\<And>mode. op \<noteq> BfOverflow mode"
    by (rule field_result_step) (use run_field_spec [OF f(1) that] Cons.IH [OF f(2)] in auto)
  show ?case using Cons.IH [OF f(2)] step by (cases op) simp_all
qed

section \<open>The words are read back\<close>

lemma parse_u64_dec [simp]: "n \<le> u64_max \<Longrightarrow> parse_u64_text (dec_nat n) = Inr n"
  by (simp add: parse_u64_text_def parse_unsigned_dec_nat)

lemma parse_i64_dec [simp]: "in_i64 d \<Longrightarrow> parse_i64_text (dec_int d) = Inr d"
  by (simp add: parse_i64_text_def in_i64_def parse_signed_dec_int)

lemma parse_bit_word: "parse_bit_value (ascii (if v then ''1'' else ''0'')) = Inr (of_bool v)"
  by (simp add: parse_bit_value_def ascii_def)

lemma parse_offset_word: "n \<le> u64_max \<Longrightarrow> parse_bit_offset (dec_nat n) = (if n > MAX_BITMAP_OFFSET then Inl bit_offset_error else Inr n)"
  by (simp add: parse_bit_offset_def)

definition bit_words :: "string list" where
  "bit_words = [''BYTE'', ''BIT'', ''AND'', ''OR'', ''XOR'', ''NOT'', ''DIFF'', ''DIFF1'', ''ANDOR'', ''ONE'', ''WRAP'', ''SAT'', ''FAIL'',
     ''OVERFLOW'', ''GET'', ''SET'', ''INCRBY'', ''LEN'', ''IDX'', ''WITHMATCHLEN'', ''MINMATCHLEN'']"

lemma bit_words_distinct: "distinct (map (\<lambda>w. map lower_ascii (ascii w)) bit_words)"
  by code_simp

lemma is_opt_bit_word: "a \<in> set bit_words \<Longrightarrow> b \<in> set bit_words \<Longrightarrow> is_opt (ascii a) b \<longleftrightarrow> a = b"
  using bit_words_distinct unfolding distinct_map is_opt_def by (auto dest: inj_onD)

lemma parse_unit_word: "parse_range_unit (unit_word unit) = Inr unit"
  by (cases unit) (simp_all add: parse_range_unit_def unit_word_def is_opt_bit_word bit_words_def)

lemma parse_bitop_word: "parse_bitop (ascii (bitop_word op)) = Inr op"
  by (cases op) (simp_all add: parse_bitop_def bitop_word_def is_opt_bit_word bit_words_def)

lemma parse_mode_word: "parse_overflow_mode (ascii (mode_word mode)) = Inr mode"
  by (cases mode) (simp_all add: parse_overflow_mode_def mode_word_def is_opt_bit_word bit_words_def)

lemma parse_enc_word:
  assumes "enc_ok enc"
  shows "parse_bitfield_encoding (enc_word enc) = Inr enc"
proof -
  have l: "\<not> length (b # dec_nat w) < 2" for b w using dec_nat_not_Nil [of w] by (cases "dec_nat w") auto
  have "parse_u8 (dec_nat w) = Some w" if "w \<le> 64" for w using that by (simp add: parse_u8_def parse_unsigned_dec_nat)
  then show ?thesis using assms l by (cases enc) (auto simp: parse_bitfield_encoding_def)
qed

lemma parse_offset_field:
  assumes "offset_ok off"
  shows "parse_bitfield_offset (offset_word off) = Inr off"
proof (cases off)
  case (Absolute n)
  have "hd (dec_nat n) \<noteq> 35" using dec_nat_digits [of "hd (dec_nat n)" n] dec_nat_not_Nil [of n] by (auto simp: is_digit_def)
  then show ?thesis using Absolute assms by (simp add: parse_bitfield_offset_def)
qed (use assms in \<open>simp add: parse_bitfield_offset_def\<close>)

lemma parse_field_words:
  "enc_ok enc \<Longrightarrow> offset_ok off \<Longrightarrow> parse_field (BulkString (enc_word enc)) (BulkString (offset_word off)) = Inr (enc, off)"
  by (simp add: parse_field_def parse_enc_word parse_offset_field)

lemma parse_fields:
  "list_all field_ok ops \<Longrightarrow> (ro \<Longrightarrow> list_all is_get ops) \<Longrightarrow>
     parse_bitfield_subcommands ro (map BulkString (concat (map field_words ops))) = Inr ops"
proof (induction ops)
  case (Cons op ops)
  then show ?case
    by (cases op) (auto simp: is_opt_bit_word bit_words_def parse_mode_word parse_field_words is_get_def)
qed simp

lemma parse_lcs_words:
  "(with_match_len opts \<Longrightarrow> idx opts) \<Longrightarrow> min_match_len opts \<le> u64_max \<Longrightarrow> parse_lcs_options (map BulkString (lcs_words opts)) = Inr opts"
  by (cases opts) (auto simp: parse_lcs_options_def lcs_words_def lcs_options_default_def is_opt_bit_word bit_words_def parse_unsigned_dec_nat)

section \<open>Every request, on the map\<close>

lemma deadline_keep: "deadline_of (if value_at m k \<noteq> None then KeepTtl else NoExpiry) (m k) now = deadline_at m k"
  by (cases "m k") auto

lemma store_bitmap_map:
  "purge now m = m \<Longrightarrow> store_bitmap (map_api V) now k (value_at m k \<noteq> None) bs h m = h (put_at now k (Raw bs) (deadline_at m k) m)"
  unfolding store_bitmap_def keep_ttl_if_def by (simp only: map_api_set deadline_keep)

lemma set_bits_bytes:
  "snd (set_bit_at (if length t < n div 8 + 1 then resize (n div 8 + 1) t else t) n x) = bytes_of_bits ((bit_at t)(n := x \<noteq> 0)) (max (length t) (n div 8 + 1))"
  by (rule bytes_of_bitsI) (auto simp: set_bit_at_spec bit_at_resize dest: bit_at_length)

lemma setbit_words:
  assumes "purge now m = m" "utf8_valid k" "n \<le> u64_max" "parse_bit_value word = Inr x"
  shows "setbit_cmd (map_api V) E now [BulkString k, BulkString (dec_nat n), BulkString word] m = Some (bit_request_spec E now m (BSetbit k n (x \<noteq> 0)))"
proof (cases "n > MAX_BITMAP_OFFSET")
  case True
  then show ?thesis using assms by (simp add: setbit_cmd_def handler_simps parse_offset_word)
next
  case False
  have l: "ensure_bitmap_len (n div 8 + 1) = Inr ()" using False by (simp add: ensure_bitmap_len_def MAX_BITMAP_OFFSET_def MAX_STRING_SIZE_def)
  show ?thesis
  proof (cases "string_at E m k")
    case (Inl e)
    then show ?thesis using assms False l
      by (simp add: setbit_cmd_def handler_simps parse_offset_word map_api_simps materialize_string_at Let_def)
  next
    case (Inr t)
    obtain old bs where o: "set_bit_at (if length t < n div 8 + 1 then resize (n div 8 + 1) t else t) n x = (old, bs)" by fastforce
    have r: "uint old = of_bool (bit_at t n)" "bs = bytes_of_bits ((bit_at t)(n := x \<noteq> 0)) (max (length t) (n div 8 + 1))"
      using o set_bits_bytes [of t n x] set_bit_at_spec(1) [of "if length t < n div 8 + 1 then resize (n div 8 + 1) t else t" n x]
      by (auto simp: bit_at_resize split: if_splits)
    have "setbit_cmd (map_api V) E now [BulkString k, BulkString (dec_nat n), BulkString word] m =
        store_bitmap (map_api V) now k (value_at m k \<noteq> None) bs (give (RespInteger (uint old))) m"
      using assms False l o Inr unfolding setbit_cmd_def Let_def
      by (simp add: handler_simps parse_offset_word map_api_simps materialize_string_at split del: if_split)
    then show ?thesis using False Inr r by (simp only: store_bitmap_map [OF assms(1)] handler_simps bit_request_spec.simps if_False sum.case)
  qed
qed

lemma setbit_request:
  assumes "purge now m = m" "utf8_valid k" "n \<le> u64_max"
  shows "setbit_cmd (map_api V) E now [BulkString k, BulkString (dec_nat n), BulkString (ascii (if v then ''1'' else ''0''))] m =
    Some (bit_request_spec E now m (BSetbit k n v))"
  using setbit_words [OF assms parse_bit_word, of V E v] by simp

lemma bit_at_empty [simp]: "Collect (bit_at []) = {}"
  by simp

lemma popcount_card: "popcount_bytes e t = card {n. bit_at t n}"
  unfolding popcount_bytes_spec count_bits_card by (rule arg_cong [where f = card]) (auto dest: bit_at_length)

lemma count_request:
  assumes "span_ok span" "\<And>a. span \<noteq> From a" "numbered E m k"
  shows "bitcount_cmd e (map_api V) E now (map BulkString (k # span_words span)) m = Some (bit_request_spec E now m (BCount k span))"
proof -
  have c: "count_ones_range e t a b unit = card {n \<in> bit_range unit (clamp_range a b (units unit (length t))). bit_at t n}"
    if "string_at E m k = Inr t" for t a b unit
    using assms(3) that by (intro count_ones_range_spec) (simp add: numbered_def)
  show ?thesis
  proof (cases "value_at m k")
    case None
    then have "string_at E m k = Inr []" by (simp add: string_at_def)
    then show ?thesis using None assms(1,2)
      by (cases span) (auto simp: bitcount_cmd_def bitcount_range_def handler_simps map_api_simps count_spec_def Let_def parse_unit_word popcount_card [symmetric] popcount_bytes_spec count_bits_def)
  next
    case (Some v)
    then show ?thesis using assms(1,2) materialize_string_at [of E m k] c
      by (cases span; cases "string_at E m k")
         (auto simp: bitcount_cmd_def bitcount_range_def handler_simps map_api_simps count_spec_def Let_def parse_unit_word popcount_card)
  qed
qed

lemma bitpos_spec_eq:
  assumes "numbered E m k" "string_at E m k = Inr t"
  shows "find_first_bit e t (of_bool b) start stop unit = bitpos_spec t (of_bool b) start stop unit"
proof (cases "t = []")
  case False
  have "length t < 2 ^ 60" using assms by (simp add: numbered_def)
  then show ?thesis using find_first_bit_spec [of t "of_bool b" e start stop unit] False by (simp add: bitpos_spec_def)
qed (simp add: find_first_bit_def bitpos_spec_def)

lemma pos_request:
  assumes "span_ok span" "numbered E m k"
  shows "bitpos_cmd e (map_api V) E now (map BulkString ([k, ascii (if b then ''1'' else ''0'')] @ span_words span)) m = Some (bit_request_spec E now m (BPos k b span))"
proof -
  obtain word where w: "word = ascii (if b then ''1'' else ''0'')" by simp
  have v: "parse_bit_value word = Inr (of_bool b)" unfolding w by (rule parse_bit_word)
  have "bitpos_cmd e (map_api V) E now (map BulkString ([k, word] @ span_words span)) m = Some (bit_request_spec E now m (BPos k b span))"
  proof (cases "value_at m k")
    case None
    then have "string_at E m k = Inr []" by (simp add: string_at_def)
    then show ?thesis using None assms(1) v
      by (cases span) (auto simp: bitpos_cmd_def optional_def handler_simps map_api_simps parse_unit_word bitpos_spec_def)
  next
    case (Some x)
    then show ?thesis using assms(1) v materialize_string_at [of E m k] bitpos_spec_eq [OF assms(2), of _ e b]
      by (cases span; cases "string_at E m k") (auto simp: bitpos_cmd_def optional_def handler_simps map_api_simps parse_unit_word)
  qed
  then show ?thesis by (simp only: w)
qed

lemma fold_max_start: "fold max xs a = max a (fold max xs (0 :: nat))"
proof (induction xs arbitrary: a)
  case (Cons x xs)
  show ?case using Cons [of "max x a"] Cons [of x] by simp
qed simp

lemma bitop_sources_map:
  "bitop_sources (map_api V) E now (map BulkString ks) m =
     Some (map_sum id (\<lambda>ts. (ts, fold max (map length ts) 0)) (strings_at E m ks), m)"
proof (induction ks)
  case (Cons k ks)
  show ?case
  proof (cases "value_at m k")
    case None
    then have "string_at E m k = Inr []" by (simp add: string_at_def)
    then show ?thesis using Cons None
      by (cases "strings_at E m ks") (simp_all add: handler_simps map_api_simps and_then_def)
  next
    case (Some v)
    then obtain d where "m k = Some (v, d)" by auto
    then show ?thesis using Cons materialize_string_at [of E m k]
      by (cases "string_at E m k"; cases "strings_at E m ks") (simp_all add: handler_simps map_api_simps and_then_def fold_max_start [symmetric])
  qed
qed (simp add: give_def)

lemma strings_at_length: "strings_at E m ks = Inr ts \<Longrightarrow> length ts = length ks"
  by (induction ks arbitrary: ts) (auto simp: attempt_def split: sum.splits)

lemma fold_max_Max: "ns \<noteq> [] \<Longrightarrow> fold max ns 0 = Max (set ns :: nat set)"
  by (simp add: Max.set_eq_fold [symmetric] Max.insert_remove)

lemma bitop_bytes: "sources \<noteq> [] \<Longrightarrow> apply_bitop e op sources n = bytes_of_bits (\<lambda>p. bitop_bit op (map (\<lambda>t. bit_at t p) sources)) n"
  using apply_bitop_from_nth [of 0 n e op sources] apply_bitop_bit [of sources e op n]
  by (intro bytes_of_bitsI) (auto simp: apply_bitop_def div_less_iff_less_mult mult.commute)

lemma bitop_request:
  assumes "purge now m = m" "utf8_valid dest" "ks \<noteq> []"
  shows "bitop_cmd e (map_api V) E now (map BulkString ([ascii (bitop_word op), dest] @ ks)) m = Some (bit_request_spec E now m (BOp op dest ks))"
proof -
  have n: "\<not> length (map BulkString ([ascii (bitop_word op), dest] @ ks)) < 3" using assms(3) by (cases ks) auto
  show ?thesis
  proof (cases "strings_at E m ks")
    case (Inl e)
    then show ?thesis using assms n
      by (simp add: bitop_cmd_def handler_simps parse_bitop_word and_then_def bitop_sources_map)
  next
    case (Inr ts)
    have "ts \<noteq> []" using strings_at_length [OF Inr] assms(3) by auto
    then show ?thesis using assms n Inr fold_max_Max [of "map length ts"] bitop_bytes [of ts e op]
      by (simp add: bitop_cmd_def handler_simps parse_bitop_word and_then_def bitop_sources_map map_api_simps no_options_def map_api_set Let_def)
  qed
qed


lemma fields_result_bytes:
  assumes "list_all field_ok ops" "run_bitfield ops mode t = Inr (results, bs, touched)"
  shows "fields_spec ops mode (bit_at t) (length t) = Inr (results, bit_at bs, length bs, touched)"
  using run_bitfield_spec [OF assms(1), of mode t] assms(2) by (simp add: field_result_def)

lemma bytes_of_own_bits: "bytes_of_bits (bit_at bs) (length bs) = bs"
  by (rule bytes_of_bitsI [symmetric]) (auto dest: bit_at_length)

lemma get_fields_untouched: "list_all is_get ops \<Longrightarrow> run_bitfield ops mode t = Inr (results, bs, touched) \<Longrightarrow> \<not> touched"
proof (induction ops arbitrary: results)
  case (Cons op ops)
  then show ?case by (cases op) (auto simp: is_get_def run_field_def attempt_def split: sum.splits)
qed simp

lemma bitfield_request:
  assumes "purge now m = m" "utf8_valid k" "list_all field_ok ops" "ro \<Longrightarrow> list_all is_get ops"
  shows "bitfield_impl (map_api V) E ro now (map BulkString (k # concat (map field_words ops))) m =
    Some (fst (fields_request E now m k ops), if ro then m else snd (fields_request E now m k ops))"
proof (cases "ops = [] \<or> isl (string_at E m k)")
  case True
  then show ?thesis using assms parse_fields [of ops ro]
    by (auto simp: bitfield_impl_def handler_simps map_api_simps materialize_string_at fields_request_def isl_def)
next
  case False
  then obtain t where t: "ops \<noteq> []" "string_at E m k = Inr t" by (cases "string_at E m k") auto
  show ?thesis
  proof (cases "run_bitfield ops OverflowWrap t")
    case (Inl e)
    then have "fields_spec ops OverflowWrap (bit_at t) (length t) = Inl e"
      using run_bitfield_spec [OF assms(3), of OverflowWrap t] by (simp add: field_result_def)
    then show ?thesis using assms t Inl parse_fields [of ops ro]
      by (simp add: bitfield_impl_def handler_simps map_api_simps materialize_string_at fields_request_def)
  next
    case (Inr p)
    obtain results bs touched where p: "p = (results, bs, touched)" by (cases p)
    note s = fields_result_bytes [OF assms(3) Inr [unfolded p]]
    have ro: "ro \<Longrightarrow> \<not> touched" using assms(4) get_fields_untouched Inr p by blast
    have "bitfield_impl (map_api V) E ro now (map BulkString (k # concat (map field_words ops))) m =
        (if touched \<and> \<not> ro then store_bitmap (map_api V) now k (value_at m k \<noteq> None) bs (give (RespArray (map field_reply results))) m
         else Some (Inr (RespArray (map field_reply results)), m))"
      using assms t Inr p parse_fields [of ops ro]
      by (simp add: bitfield_impl_def handler_simps map_api_simps materialize_string_at)
    then show ?thesis using t s ro
      by (simp only: store_bitmap_map [OF assms(1)] handler_simps) (auto simp: fields_request_def bytes_of_own_bits)
  qed
qed

lemma lcs_request:
  assumes "with_match_len opts \<Longrightarrow> idx opts" "min_match_len opts \<le> u64_max"
  shows "lcs_cmd cpu (map_api V) E now (map BulkString ([k1, k2] @ lcs_words opts)) m = Some (bit_request_spec E now m (BLcs k1 k2 opts))"
proof -
  let ?t = "lcs_wire_bytes E (value_at m k1)" and ?u = "lcs_wire_bytes E (value_at m k2)"
  have len: "length (fst (lcs_full ?t ?u)) = lcs_length ?t ?u" if "length ?t * length ?u \<le> 64000000"
    using lcs_full_correct [OF that] by (simp add: case_prod_unfold)
  have "\<not> length (map BulkString ([k1, k2] @ lcs_words opts)) < 2" by simp
  then show ?thesis
    using parse_lcs_words [OF assms] len
    by (auto simp: lcs_cmd_def handler_simps map_api_simps lcs_spec_def Let_def case_prod_unfold DEFAULT_MAX_CELLS_def lcs_len_correct not_less)
qed

text \<open>Every request.\<close>

lemma bit_request_correct:
  assumes m: "purge now m = m" and r: "bit_request_ok E m r"
  shows "(case bit_request_frames r of (c, args) \<Rightarrow> run_bit M (map_api (scd_values E)) E c now args m) = Some (bit_request_spec E now m r)"
proof (cases r)
  case (BGetbit k n)
  then show ?thesis using r
    by (cases "string_at E m k")
       (auto simp: bit_request_frames_def getbit_cmd_def handler_simps parse_offset_word map_api_simps materialize_string_at get_bit_spec)
next
  case (BSetbit k n v)
  then show ?thesis using r setbit_request [OF m, of k n] by (simp add: bit_request_frames_def del: bit_request_spec.simps)
next
  case (BCount k span)
  then show ?thesis using r count_request [of span E m k] by (simp add: bit_request_frames_def del: bit_request_spec.simps)
next
  case (BPos k b span)
  then show ?thesis using r pos_request [of span E m k] by (simp add: bit_request_frames_def del: bit_request_spec.simps)
next
  case (BOp op dest ks)
  then show ?thesis using r bitop_request [OF m, of dest ks] by (simp add: bit_request_frames_def del: bit_request_spec.simps)
next
  case (BField k ops)
  then show ?thesis using r bitfield_request [OF m, of k ops False] by (simp add: bit_request_frames_def)
next
  case (BFieldRo k ops)
  then show ?thesis using r bitfield_request [OF m, of k ops True] by (simp add: bit_request_frames_def)
next
  case (BLcs k1 k2 opts)
  then show ?thesis using r lcs_request [of opts] by (simp add: bit_request_frames_def del: bit_request_spec.simps split: if_splits)
qed

section \<open>Handlers on the shard\<close>

definition bit_step ::
    "machine \<Rightarrow> ('t, 'h, 'x, 'f) store_deps \<Rightarrow> ('h, 'x) object string_deps \<Rightarrow> 't store \<Rightarrow> nat \<times> bit_request \<Rightarrow>
       ((senko_error + ('h, 'x) object senko_value response) \<times> 't store) option" where
  "bit_step M D E s op = (case op of (now, r) \<Rightarrow> case bit_request_frames r of (c, args) \<Rightarrow> run_bit M (shard_api D) E c now args s)"

definition bit_spec ::
    "'v string_deps \<Rightarrow> nat \<times> 'v senko_value keyspace \<Rightarrow> nat \<times> bit_request \<Rightarrow>
       (senko_error + 'v senko_value response) \<times> nat \<times> 'v senko_value keyspace" where
  "bit_spec E a op = (case op of (now, r) \<Rightarrow> case bit_request_spec E now (purge now (snd a)) r of (out, m) \<Rightarrow> (out, now, m))"

definition bit_op_ok :: "'v string_deps \<Rightarrow> nat \<times> 'v senko_value keyspace \<Rightarrow> nat \<times> bit_request \<Rightarrow> bool" where
  "bit_op_ok E a op \<longleftrightarrow> fst a \<le> fst op \<and> fst op \<le> time_limit \<and> bit_request_ok E (purge (fst op) (snd a)) (snd op)"

lemma bit_simulation:
  assumes D: "store_laws D" and E: "scd_values E = sd_values D"
  shows "simulation (bit_step M D E) (bit_spec E) (store_rep D) (bit_op_ok E)"
proof
  fix s a op assume r: "store_rep D s a" and ok: "bit_op_ok E a op"
  obtain now q where op: "op = (now, q)" by fastforce
  obtain c args where f: "bit_request_frames q = (c, args)" by fastforce
  have v: "purge now (snd a) = visible D now s" and e: "ends_with D now s (visible D now s)"
    using r ok visible_later [of "fst a" now D s] by (auto simp: op store_rep_def bit_op_ok_def ends_with_def)
  have rel: "related (ends_with D now) (run_bit M (shard_api D) E c now args) (run_bit M (map_api (sd_values D)) E c now args)"
    using store_client.run_bit_related [OF shard_client [OF D]] ok by (auto simp: op bit_op_ok_def)
  obtain x s' m' where run: "run_bit M (shard_api D) E c now args s = Some (x, s')"
      "run_bit M (map_api (sd_values D)) E c now args (visible D now s) = Some (x, m')" "ends_with D now s' m'"
    using relatedD [OF rel, of s] e by blast
  then have "bit_request_spec E now (visible D now s) q = (x, m')"
    using bit_request_correct [OF visible_purged, of E D now s q M] ok f E v by (simp add: op bit_op_ok_def)
  then show "\<exists>s'. bit_step M D E s op = Some (fst (bit_spec E a op), s') \<and> store_rep D s' (snd (bit_spec E a op))"
    using run f v by (auto simp: op bit_step_def bit_spec_def store_rep_def)
qed

text \<open>String and bit commands in any order.\<close>

definition mixed_step ::
    "machine \<Rightarrow> ('t, 'h, 'x, 'f) store_deps \<Rightarrow> ('h, 'x) object string_deps \<Rightarrow> 't store \<Rightarrow> nat \<times> (request + bit_request) \<Rightarrow>
       ((senko_error + ('h, 'x) object senko_value response) \<times> 't store) option" where
  "mixed_step M D E s op = (case snd op of Inl r \<Rightarrow> string_step D E s (fst op, r) | Inr r \<Rightarrow> bit_step M D E s (fst op, r))"

definition mixed_spec ::
    "'v string_deps \<Rightarrow> nat \<times> 'v senko_value keyspace \<Rightarrow> nat \<times> (request + bit_request) \<Rightarrow>
       (senko_error + 'v senko_value response) \<times> nat \<times> 'v senko_value keyspace" where
  "mixed_spec E a op = (case snd op of Inl r \<Rightarrow> string_spec E a (fst op, r) | Inr r \<Rightarrow> bit_spec E a (fst op, r))"

definition mixed_op_ok :: "'v string_deps \<Rightarrow> nat \<times> 'v senko_value keyspace \<Rightarrow> nat \<times> (request + bit_request) \<Rightarrow> bool" where
  "mixed_op_ok E a op \<longleftrightarrow> (case snd op of Inl r \<Rightarrow> string_op_ok a (fst op, r) | Inr r \<Rightarrow> bit_op_ok E a (fst op, r))"

lemma mixed_simulation:
  assumes "store_laws D" and "scd_values E = sd_values D"
  shows "simulation (mixed_step M D E) (mixed_spec E) (store_rep D) (mixed_op_ok E)"
proof
  fix s a op assume r: "store_rep D s a" and ok: "mixed_op_ok E a op"
  show "\<exists>s'. mixed_step M D E s op = Some (fst (mixed_spec E a op), s') \<and> store_rep D s' (snd (mixed_spec E a op))"
    using simulation.step [OF string_simulation [OF assms] r] simulation.step [OF bit_simulation [OF assms, of M] r] ok
    by (cases "snd op") (simp_all add: mixed_step_def mixed_spec_def mixed_op_ok_def)
qed

definition reference_machine :: machine where
  "reference_machine = \<lparr>mach_endian = LittleEndian, mach_cpu = X86 False True True\<rparr>"

interpretation bits: simulation "mixed_step reference_machine reference_store reference_strings" "mixed_spec reference_strings"
    "store_rep reference_store" "mixed_op_ok reference_strings"
  by (rule mixed_simulation [OF reference_store_laws]) (simp add: reference_strings_def)

section \<open>Failed commands\<close>

lemma reads_bitop_sources: "reads (bitop_sources (map_api V) E now frames)"
  by (induction frames) (simp_all, (intro safe_intros allI | assumption | simp add: case_prod_unfold)+)

lemma run_bit_safe: "safe (run_bit M (map_api V) E c now args)"
  by (cases c)
     (simp_all only: run_bit.simps getbit_cmd_def setbit_cmd_def bitcount_cmd_def bitpos_cmd_def bitop_cmd_def bitfield_impl_def
        lcs_cmd_def store_bitmap_def Let_def case_prod_unfold,
      (intro safe_intros reads_bitop_sources)+)

lemma failed_bit_command_changes_nothing:
  assumes "store_laws D" and "now \<le> time_limit" and "ends_with D now s m"
  shows "\<exists>r s'. run_bit M (shard_api D) E c now args s = Some (r, s') \<and> (isl r \<longrightarrow> ends_with D now s' m)"
proof -
  have rel: "related (ends_with D now) (run_bit M (shard_api D) E c now args) (run_bit M (map_api (sd_values D)) E c now args)"
    by (rule store_client.run_bit_related [OF shard_client [OF assms(1,2)]])
  obtain r s' m' where run: "run_bit M (shard_api D) E c now args s = Some (r, s')"
      "run_bit M (map_api (sd_values D)) E c now args m = Some (r, m')" "ends_with D now s' m'"
    using relatedD [OF rel, of s m] assms(3) by blast
  moreover have "m' = m" if "isl r" using run_bit_safe [of M "sd_values D" E c now args] run(2) that by (auto simp: safe_def isl_def)
  ultimately show ?thesis by blast
qed

section \<open>Properties of the bit commands\<close>

text \<open>C18. Any sequence of string commands and of SETBIT, GETBIT, BITCOUNT, BITPOS, BITOP, BITFIELD, BITFIELD_RO and LCS with
  valid arguments on a fresh shard without a memory limit, with one reading of the clock per command, on a machine of either byte order and with any vector instructions: every handler returns, without panic, the
  reply of the specification on a map from keys to values with deadlines, and the visible keys are those of the map. In the
  specification a string is a function from positions to bits, a field is a number that is read and written with its treatment
  of overflows, an operation on several strings works position by position, and a deadline survives every write to a key but BITOP.
  BITCOUNT and BITPOS are on strings of less than \<open>2 ^ 60\<close> bytes. With a memory limit a write also evicts other keys.\<close>

theorem bit_requests_refine:
  assumes "store_laws D" and "scd_values E = sd_values D" and "start \<le> time_limit"
    and "ok_ops (mixed_spec E) (mixed_op_ok E) (start, Map.empty) ops"
  shows "\<exists>s. run_c (mixed_step M D E) (store_new D None start) ops
             = Some (fst (run_a (mixed_spec E) (start, Map.empty) ops), s) \<and>
           (let (now, m) = snd (run_a (mixed_spec E) (start, Map.empty) ops) in visible D now s = m)"
  using simulation.run [OF mixed_simulation [OF assms(1,2)] store_rep_new [OF assms(1)], of start ops M] assms(3,4)
  by (auto simp: store_rep_def ends_with_def split_beta)

theorem bit_requests_refine_witness:
  "\<exists>s. run_c (mixed_step reference_machine reference_store reference_strings) (store_new reference_store None 0)
         [(0, Inr (BSetbit [97] 1 True)), (1, Inr (BField [97] [BfOverflow OverflowSat, BfIncrBy (Signed 4) (Absolute 0) 100])),
          (2, Inr (BCount [97] Whole)), (3, Inl (QStrlen [97])), (4, Inr (BGetbit [97] 4294967296))] =
       Some ([Inr (RespInteger 0), Inr (RespArray [RespInteger 7]), Inr (RespInteger 3), Inr (RespInteger 1), Inl bit_offset_error], s)"
proof -
  let ?ops = "[(0, Inr (BSetbit [97] 1 True)), (1, Inr (BField [97] [BfOverflow OverflowSat, BfIncrBy (Signed 4) (Absolute 0) 100])),
          (2, Inr (BCount [97] Whole)), (3, Inl (QStrlen [97])), (4, Inr (BGetbit [97] 4294967296))] :: (nat \<times> (request + bit_request)) list"
  have e: "utf8_valid [97]" by code_simp
  have b: "bytes_of_bits ((bit_at [])(Suc 0 := True)) (Suc 0) = [0x40]" by code_simp
  have f: "field_spec (BfIncrBy (Signed 4) (Absolute 0) 100) OverflowSat (bit_at [0x40]) (Suc 0) = Inr (Some 7, put_field 0 4 7 (bit_at [0x40]), Suc 0, True)"
    by (simp add: field_spec_def op_enc_def op_offset_def Let_def field_write_spec_def field_value_def field_int_def bit_at_def
        MAX_BITMAP_OFFSET_def upt_rec bit_numeral_rec)
  have g: "bytes_of_bits (put_field 0 4 7 (bit_at [0x40])) (Suc 0) = [0x70]" by code_simp
  have c: "card {n. bit_at [0x70] n} = 3" unfolding popcount_card [of LittleEndian, symmetric] by code_simp
  have r: "run_a (mixed_spec reference_strings) (0, Map.empty) ?ops =
      ([Inr (RespInteger 0), Inr (RespArray [RespInteger 7]), Inr (RespInteger 3), Inr (RespInteger 1), Inl bit_offset_error],
       (4, Map.empty([97] \<mapsto> (Raw [0x70], None))))"
    by (simp add: mixed_spec_def bit_spec_def string_spec_def purge_updates put_at_def is_expired_def string_at_def as_bytes_def MAX_BITMAP_OFFSET_def
        b f g c fields_request_def field_reply_def count_spec_def string_value_def)
  have "ok_ops (mixed_spec reference_strings) (mixed_op_ok reference_strings) (0, Map.empty) ?ops"
    by (simp add: mixed_op_ok_def bit_op_ok_def string_op_ok_def mixed_spec_def bit_spec_def string_spec_def purge_updates put_at_def is_expired_def
        string_at_def as_bytes_def MAX_BITMAP_OFFSET_def b f g fields_request_def string_value_def numbered_def in_i64_def e)
  then show ?thesis
    using bit_requests_refine [OF reference_store_laws, of reference_strings 0 ?ops reference_machine] r by (auto simp: reference_strings_def)
qed

end
