(* ===== verification/ClusterSlots.thy ===== *)
theory ClusterSlots
  imports Prelude
begin

text \<open>
  Hash slots of a cluster, senko-cluster/src/slot.rs: the checksum that maps a key to one of 16384
  slots and the hash tag it is taken of, the packed entry of a slot, the snapshot of the slot table,
  the sequence lock that publishes snapshots, and the assignment of owned slots to shards.
\<close>

type_synonym u16 = "16 word"
type_synonym u64 = "64 word"

abbreviation SLOT_COUNT :: nat where "SLOT_COUNT \<equiv> 16384"
abbreviation SLOT_MASK :: u16 where "SLOT_MASK \<equiv> 16383"

abbreviation FLAG_MIGRATING :: u16 where "FLAG_MIGRATING \<equiv> 1"
abbreviation FLAG_IMPORTING :: u16 where "FLAG_IMPORTING \<equiv> 2"
abbreviation FLAG_LOCAL :: u16 where "FLAG_LOCAL \<equiv> 4"
abbreviation FLAG_REPLICA :: u16 where "FLAG_REPLICA \<equiv> 8"

section \<open>Slot entries\<close>

record slot_entry =
  node_index :: u16
  shard_index :: u16
  entry_flags :: u16

definition slot_pack :: "slot_entry \<Rightarrow> u64" where
  "slot_pack e =
     push_bit 48 (ucast (node_index e)) OR push_bit 32 (ucast (shard_index e)) OR push_bit 16 (ucast (entry_flags e))"

definition slot_unpack :: "u64 \<Rightarrow> slot_entry" where
  "slot_unpack packed =
     \<lparr>node_index = ucast (drop_bit 48 packed AND 0xffff), shard_index = ucast (drop_bit 32 packed AND 0xffff),
      entry_flags = ucast (drop_bit 16 packed AND 0xffff)\<rparr>"

definition is_local :: "slot_entry \<Rightarrow> bool" where
  "is_local e \<longleftrightarrow> entry_flags e AND FLAG_LOCAL \<noteq> 0"

definition is_migrating :: "slot_entry \<Rightarrow> bool" where
  "is_migrating e \<longleftrightarrow> entry_flags e AND FLAG_MIGRATING \<noteq> 0"

definition is_importing :: "slot_entry \<Rightarrow> bool" where
  "is_importing e \<longleftrightarrow> entry_flags e AND FLAG_IMPORTING \<noteq> 0"

section \<open>Checksum and hash tag\<close>

definition crc16_shift :: "u16 \<Rightarrow> u16" where
  "crc16_shift crc = (if crc AND 0x8000 \<noteq> 0 then push_bit 1 crc XOR 0x1021 else push_bit 1 crc)"

definition build_crc16_ccitt_table :: "u16 list" where
  "build_crc16_ccitt_table = map (\<lambda>i. (crc16_shift ^^ 8) (push_bit 8 (of_nat i))) [0..<256]"

definition crc16_step :: "byte \<Rightarrow> u16 \<Rightarrow> u16" where
  "crc16_step byte crc =
     push_bit 8 crc XOR build_crc16_ccitt_table ! unat ((ucast (drop_bit 8 crc) :: byte) XOR byte)"

definition crc16_ccitt :: "bytes \<Rightarrow> u16" where
  "crc16_ccitt input = fold crc16_step input 0"

abbreviation OPEN_BRACE :: byte where "OPEN_BRACE \<equiv> 123"
abbreviation CLOSE_BRACE :: byte where "CLOSE_BRACE \<equiv> 125"

definition hash_tag :: "bytes \<Rightarrow> bytes" where
  "hash_tag key =
     (case position (\<lambda>b. b = OPEN_BRACE) key of
        Some open \<Rightarrow>
          (let rest = drop (open + 1) key in
           case position (\<lambda>b. b = CLOSE_BRACE) rest of
             Some close \<Rightarrow> (if 0 < close then take close rest else key)
           | None \<Rightarrow> key)
      | None \<Rightarrow> key)"

definition crc16_slot :: "bytes \<Rightarrow> u16" where
  "crc16_slot key = crc16_ccitt (hash_tag key) AND SLOT_MASK"

section \<open>The slot table\<close>

text \<open>Socket addresses are a type parameter: they are only passed on.\<close>

record 'a route_node_info =
  rn_id :: bytes
  rn_addr :: 'a

record 'a slot_table_snapshot =
  ss_entries :: "u64 list"
  ss_nodes :: "'a route_node_info option list"
  ss_migrating_slots :: "u16 \<Rightarrow> bytes set option"
  ss_proxy_remote :: bool

definition snapshot_new :: "'a slot_table_snapshot" where
  "snapshot_new =
     \<lparr>ss_entries = replicate SLOT_COUNT 0, ss_nodes = [], ss_migrating_slots = Map.empty, ss_proxy_remote = False\<rparr>"

text \<open>An index outside the table panics.\<close>

definition packed_entry :: "'a slot_table_snapshot \<Rightarrow> u16 \<Rightarrow> u64 option" where
  "packed_entry t slot = get_at (ss_entries t) (unat slot)"

definition snapshot_entry :: "'a slot_table_snapshot \<Rightarrow> u16 \<Rightarrow> slot_entry option" where
  "snapshot_entry t slot = map_option slot_unpack (get_at (ss_entries t) (unat slot))"

definition set_entry :: "'a slot_table_snapshot \<Rightarrow> u16 \<Rightarrow> slot_entry \<Rightarrow> 'a slot_table_snapshot option" where
  "set_entry t slot e =
     (if unat slot < length (ss_entries t)
      then Some (t\<lparr>ss_entries := (ss_entries t)[unat slot := slot_pack e]\<rparr>) else None)"

definition set_route_node :: "'a slot_table_snapshot \<Rightarrow> u16 \<Rightarrow> bytes \<Rightarrow> 'a \<Rightarrow> 'a slot_table_snapshot" where
  "set_route_node t i node_id addr =
     (let required_len = unat i + 1;
          nodes = (if length (ss_nodes t) < required_len
                   then ss_nodes t @ replicate (required_len - length (ss_nodes t)) None else ss_nodes t)
      in t\<lparr>ss_nodes := nodes[unat i := Some \<lparr>rn_id = node_id, rn_addr = addr\<rparr>]\<rparr>)"

definition route_node :: "'a slot_table_snapshot \<Rightarrow> u16 \<Rightarrow> 'a route_node_info option" where
  "route_node t i = (case get_at (ss_nodes t) (unat i) of None \<Rightarrow> None | Some n \<Rightarrow> n)"

definition set_proxy_remote :: "'a slot_table_snapshot \<Rightarrow> bool \<Rightarrow> 'a slot_table_snapshot" where
  "set_proxy_remote t enabled = t\<lparr>ss_proxy_remote := enabled\<rparr>"

definition insert_migrating_key :: "'a slot_table_snapshot \<Rightarrow> u16 \<Rightarrow> bytes \<Rightarrow> 'a slot_table_snapshot" where
  "insert_migrating_key t slot key =
     (let keys = (case ss_migrating_slots t slot of None \<Rightarrow> {} | Some keys \<Rightarrow> keys)
      in t\<lparr>ss_migrating_slots := (ss_migrating_slots t)(slot \<mapsto> insert key keys)\<rparr>)"

definition set_migrating_keys :: "'a slot_table_snapshot \<Rightarrow> u16 \<Rightarrow> bytes list \<Rightarrow> 'a slot_table_snapshot" where
  "set_migrating_keys t slot keys = t\<lparr>ss_migrating_slots := (ss_migrating_slots t)(slot \<mapsto> set keys)\<rparr>"

definition clear_migrating_slot :: "'a slot_table_snapshot \<Rightarrow> u16 \<Rightarrow> 'a slot_table_snapshot" where
  "clear_migrating_slot t slot = t\<lparr>ss_migrating_slots := (ss_migrating_slots t)(slot := None)\<rparr>"

definition is_key_migrated :: "'a slot_table_snapshot \<Rightarrow> u16 \<Rightarrow> bytes \<Rightarrow> bool" where
  "is_key_migrated t slot key = (case ss_migrating_slots t slot of None \<Rightarrow> False | Some keys \<Rightarrow> key \<in> keys)"

text \<open>The table of atomics that shards read: each entry is stored on its own.\<close>

fun store_entries :: "nat \<Rightarrow> u64 list \<Rightarrow> u64 list \<Rightarrow> u64 list" where
  "store_entries i [] table = table"
| "store_entries i (v # vs) table = store_entries (Suc i) vs (table[i := v])"

definition apply_snapshot :: "u64 list \<Rightarrow> 'a slot_table_snapshot \<Rightarrow> u64 list" where
  "apply_snapshot table t = store_entries 0 (ss_entries t) table"

definition table_from_snapshot :: "'a slot_table_snapshot \<Rightarrow> u64 list" where
  "table_from_snapshot t = apply_snapshot (replicate SLOT_COUNT 0) t"

definition load_entry :: "u64 list \<Rightarrow> u16 \<Rightarrow> slot_entry option" where
  "load_entry table slot = map_option slot_unpack (get_at table (unat slot))"

definition store_entry :: "u64 list \<Rightarrow> u16 \<Rightarrow> slot_entry \<Rightarrow> u64 list option" where
  "store_entry table slot e = (if unat slot < length table then Some (table[unat slot := slot_pack e]) else None)"

section \<open>Assignment of slots to shards\<close>

text \<open>The owned slots are a bitmap of \<open>u32\<close>; iteration is in ascending order, and the cast to \<open>u16\<close>
  truncates.\<close>

definition assign_slots_to_shards :: "nat set \<Rightarrow> nat \<Rightarrow> u16 \<Rightarrow> nat option" where
  "assign_slots_to_shards owned_slots num_shards =
     (if num_shards = 0 then Map.empty
      else fold (\<lambda>(index, slot) m. m(of_nat slot \<mapsto> index mod num_shards))
             (enumerate 0 (sorted_list_of_set owned_slots)) Map.empty)"

section \<open>The sequence lock\<close>

definition stable_index :: "u64 \<Rightarrow> nat" where
  "stable_index s = unat (drop_bit 1 s AND 1)"

record 'd seq_lock =
  sl_seq :: u64
  sl_data :: "nat \<Rightarrow> 'd"

definition seqlock_new :: "'d \<Rightarrow> 'd seq_lock" where
  "seqlock_new initial = \<lparr>sl_seq = 0, sl_data = (\<lambda>_. initial)\<rparr>"

text \<open>\<open>None\<close> is a reader that spins forever.\<close>

partial_function (option) seqlock_read :: "'d seq_lock \<Rightarrow> 'd option" where
  "seqlock_read l =
     (let s1 = sl_seq l in
      if s1 AND 1 = 1 then seqlock_read l
      else let snapshot = sl_data l (stable_index s1); s2 = sl_seq l
           in if s1 = s2 then Some snapshot else seqlock_read l)"

definition seqlock_write :: "'d seq_lock \<Rightarrow> ('d \<Rightarrow> 'd) \<Rightarrow> 'd seq_lock" where
  "seqlock_write l f =
     (let start = sl_seq l;
          l1 = l\<lparr>sl_seq := start + 1\<rparr>;
          stable = stable_index start;
          staging = (if stable = 0 then 1 else 0);
          l2 = l1\<lparr>sl_data := (sl_data l1)(staging := f (sl_data l1 stable))\<rparr>
      in l2\<lparr>sl_seq := sl_seq l2 + 1\<rparr>)"

section \<open>Packing\<close>

lemma and_field: "w AND 0xffff = take_bit 16 w" for w :: u64
  using take_bit_eq_mask [of 16 w] by (simp add: mask_numeral)

lemma slot_unpack_pack: "slot_unpack (slot_pack e) = e"
proof -
  have "node_index (slot_unpack (slot_pack e)) = node_index e"
    unfolding slot_unpack_def slot_pack_def and_field by (simp, rule bit_word_eqI) (auto simp: bit_simps dest: bit_imp_le_length)
  moreover have "shard_index (slot_unpack (slot_pack e)) = shard_index e"
    unfolding slot_unpack_def slot_pack_def and_field by (simp, rule bit_word_eqI) (auto simp: bit_simps dest: bit_imp_le_length)
  moreover have "entry_flags (slot_unpack (slot_pack e)) = entry_flags e"
    unfolding slot_unpack_def slot_pack_def and_field by (simp, rule bit_word_eqI) (auto simp: bit_simps dest: bit_imp_le_length)
  ultimately show ?thesis by simp
qed

lemma slot_pack_unpack: "slot_pack (slot_unpack w) = push_bit 16 (drop_bit 16 w)"
proof (rule bit_word_eqI)
  fix n :: nat assume "n < LENGTH(64)"
  then consider "n < 16" | "16 \<le> n" "n < 32" | "32 \<le> n" "n < 48" | "48 \<le> n" "n < 64" by fastforce
  then show "bit (slot_pack (slot_unpack w)) n \<longleftrightarrow> bit (push_bit 16 (drop_bit 16 w)) n"
    unfolding slot_unpack_def slot_pack_def and_field by cases (auto simp: bit_simps)
qed

section \<open>The checksum is the bitwise one\<close>

lemma crc16_shift_bit: "crc16_shift x = (if bit x 15 then push_bit 1 x XOR 0x1021 else push_bit 1 x)"
  using and_exp_eq_0_iff_not_bit [of x 15] by (simp add: crc16_shift_def)

lemma crc16_shift_xor: "crc16_shift (x XOR y) = crc16_shift x XOR crc16_shift y"
  unfolding crc16_shift_bit by (rule bit_word_eqI) (auto simp: bit_simps)

lemma crc16_shifts_xor: "(crc16_shift ^^ n) (x XOR y) = (crc16_shift ^^ n) x XOR (crc16_shift ^^ n) y"
  by (induction n) (simp_all add: crc16_shift_xor)

text \<open>Eight shifts of a value in the low byte move no bit out.\<close>

lemma crc16_shifts_low:
  assumes "n \<le> 8"
  shows "(crc16_shift ^^ n) (take_bit 8 x) = push_bit n (take_bit 8 x)"
  using assms
proof (induction n)
  case (Suc n)
  have "\<not> 15 - n < 8" using Suc.prems by simp
  then have "\<not> bit (push_bit n (take_bit 8 x)) 15" by (simp add: bit_push_bit_iff bit_take_bit_iff)
  then show ?case using Suc by (simp add: crc16_shift_bit push_bit_push_bit)
qed simp

text \<open>The reference: the remainder is fed one byte, then shifted bit by bit.\<close>

definition crc16_reference :: "bytes \<Rightarrow> u16" where
  "crc16_reference input = fold (\<lambda>byte crc. (crc16_shift ^^ 8) (crc XOR push_bit 8 (ucast byte))) input 0"

lemma crc16_table_nth: "build_crc16_ccitt_table ! unat (b :: byte) = (crc16_shift ^^ 8) (push_bit 8 (ucast b))"
proof -
  have "unat b < 256" using unsigned_less [of b] by simp
  then show ?thesis by (simp add: build_crc16_ccitt_table_def del: funpow.simps)
qed

lemma crc16_step_reference: "crc16_step byte crc = (crc16_shift ^^ 8) (crc XOR push_bit 8 (ucast byte))"
proof -
  let ?h = "(ucast (drop_bit 8 crc) :: byte) XOR byte"
  have "crc XOR push_bit 8 (ucast byte) = push_bit 8 (ucast ?h) XOR take_bit 8 crc"
    by (rule bit_word_eqI) (auto simp: bit_simps)
  moreover have "push_bit 8 (take_bit 8 crc) = push_bit 8 crc"
    by (rule bit_word_eqI) (auto simp: bit_simps)
  ultimately show ?thesis
    by (simp add: crc16_step_def crc16_table_nth crc16_shifts_xor crc16_shifts_low xor.commute del: funpow.simps)
qed

lemma crc16_ccitt_reference: "crc16_ccitt input = crc16_reference input"
  by (simp add: crc16_ccitt_def crc16_reference_def crc16_step_reference [abs_def])

lemma slot_mask_less: "unat (x AND SLOT_MASK) < SLOT_COUNT"
proof -
  have "x AND SLOT_MASK = take_bit 14 x" using take_bit_eq_mask [of 14 x] by (simp add: mask_numeral)
  then show ?thesis using take_bit_nat_less_exp [of 14 "unat x"] by (simp add: unsigned_take_bit_eq)
qed

section \<open>Hash tags\<close>

lemma position_skip: "\<forall>x \<in> set xs. \<not> p x \<Longrightarrow> p y \<Longrightarrow> position p (xs @ y # ys) = Some (length xs)"
  by (induction xs) auto

lemma hash_tag_braces:
  assumes "OPEN_BRACE \<notin> set pre" and "CLOSE_BRACE \<notin> set tag" and "tag \<noteq> []"
  shows "hash_tag (pre @ OPEN_BRACE # tag @ CLOSE_BRACE # post) = tag"
proof -
  have "position (\<lambda>b. b = OPEN_BRACE) (pre @ OPEN_BRACE # tag @ CLOSE_BRACE # post) = Some (length pre)"
    using assms(1) by (intro position_skip) auto
  moreover have "position (\<lambda>b. b = CLOSE_BRACE) (tag @ CLOSE_BRACE # post) = Some (length tag)"
    using assms(2) by (intro position_skip) auto
  ultimately show ?thesis using assms(3) by (simp add: hash_tag_def)
qed

lemma hash_tag_plain:
  assumes "OPEN_BRACE \<notin> set key"
  shows "hash_tag key = key"
proof -
  have "position (\<lambda>b. b = OPEN_BRACE) key = None" using assms by (auto simp: position_None_iff)
  then show ?thesis by (simp add: hash_tag_def)
qed

section \<open>Balance of the assignment\<close>

lemma fold_enumerate_map:
  "distinct (map g xs) \<Longrightarrow>
     fold (\<lambda>(i, x) m. m(g x \<mapsto> f i)) (enumerate n xs) m0 k =
       (case position (\<lambda>x. g x = k) xs of None \<Rightarrow> m0 k | Some i \<Rightarrow> Some (f (n + i)))"
proof (induction xs arbitrary: n m0)
  case (Cons x xs)
  have "position (\<lambda>y. g y = g x) xs = None" using Cons.prems by (auto simp: position_None_iff) (metis image_eqI)
  then show ?case using Cons by (auto split: option.splits)
qed simp

lemma inj_on_u16: "inj_on (of_nat :: nat \<Rightarrow> u16) {..<65536}"
proof (rule inj_onI)
  fix a b :: nat assume "a \<in> {..<65536}" "b \<in> {..<65536}" "(of_nat a :: u16) = of_nat b"
  moreover have "unat (of_nat n :: u16) = n" if "n < 65536" for n
    using that by (simp add: unsigned_of_nat take_bit_nat_eq_self)
  ultimately show "a = b" by (metis lessThan_iff)
qed

lemma assign_slots_nth:
  assumes "owned \<subseteq> {..<SLOT_COUNT}" and "0 < num_shards"
  defines "xs \<equiv> sorted_list_of_set owned"
  shows "assign_slots_to_shards owned num_shards k =
      map_option (\<lambda>i. i mod num_shards) (position (\<lambda>x. of_nat x = k) xs)"
    and "distinct (map (of_nat :: nat \<Rightarrow> u16) xs)"
proof -
  have "finite owned" using assms(1) finite_subset by blast
  then have "set xs = owned" "distinct xs" by (simp_all add: xs_def)
  then show "distinct (map (of_nat :: nat \<Rightarrow> u16) xs)"
    using inj_on_subset [OF inj_on_u16, of owned] assms(1) by (fastforce simp: distinct_map)
  from fold_enumerate_map [OF this, of "\<lambda>i. i mod num_shards" 0 Map.empty k]
  show "assign_slots_to_shards owned num_shards k =
      map_option (\<lambda>i. i mod num_shards) (position (\<lambda>x. of_nat x = k) xs)"
    using assms(2) by (simp add: assign_slots_to_shards_def xs_def [symmetric] split: option.splits)
qed

text \<open>How many of \<open>n\<close> consecutive numbers have a given remainder.\<close>

lemma residues_count:
  assumes "r < (m :: nat)"
  shows "card {i. i < n \<and> i mod m = r} = n div m + (if r < n mod m then 1 else 0)"
proof (induction n)
  case (Suc n)
  have "{i. i < Suc n \<and> i mod m = r} = {i. i < n \<and> i mod m = r} \<union> (if n mod m = r then {n} else {})"
    by (auto simp: less_Suc_eq)
  then have "card {i. i < Suc n \<and> i mod m = r} = card {i. i < n \<and> i mod m = r} + (if n mod m = r then 1 else 0)"
    by (simp add: card_insert_if)
  then show ?case using Suc assms by (auto simp: mod_Suc div_Suc)
qed (use assms in simp)

lemma position_distinct:
  assumes "distinct (map g xs)" and "i < length xs"
  shows "position (\<lambda>x. g x = g (xs ! i)) xs = Some i"
  using assms by (auto simp: position_Some_iff distinct_conv_nth)

lemma shard_slots:
  assumes "owned \<subseteq> {..<SLOT_COUNT}" and "0 < num_shards"
  defines "xs \<equiv> sorted_list_of_set owned"
  shows "{k. assign_slots_to_shards owned num_shards k = Some r}
       = (\<lambda>i. of_nat (xs ! i)) ` {i. i < length xs \<and> i mod num_shards = r}"
proof (intro set_eqI iffI)
  note a = assign_slots_nth [OF assms(1,2), folded xs_def]
  fix k :: u16
  { assume "k \<in> {k. assign_slots_to_shards owned num_shards k = Some r}"
    then obtain i where "position (\<lambda>x. of_nat x = k) xs = Some i" "i mod num_shards = r" using a(1) by auto
    then show "k \<in> (\<lambda>i. of_nat (xs ! i)) ` {i. i < length xs \<and> i mod num_shards = r}"
      by (auto simp: position_Some_iff) }
  assume "k \<in> (\<lambda>i. of_nat (xs ! i)) ` {i. i < length xs \<and> i mod num_shards = r}"
  then show "k \<in> {k. assign_slots_to_shards owned num_shards k = Some r}"
    using a(1) position_distinct [OF a(2)] by auto
qed

lemma shard_card:
  assumes "owned \<subseteq> {..<SLOT_COUNT}" and "r < num_shards"
  shows "card {k. assign_slots_to_shards owned num_shards k = Some r}
       = card owned div num_shards + (if r < card owned mod num_shards then 1 else 0)"
proof -
  let ?xs = "sorted_list_of_set owned"
  have m: "0 < num_shards" using assms(2) by simp
  have "inj_on (\<lambda>i. of_nat (?xs ! i) :: u16) {i. i < length ?xs \<and> i mod num_shards = r}"
    using assign_slots_nth(2) [OF assms(1) m] by (auto simp: inj_on_def distinct_conv_nth)
  then have "card {k. assign_slots_to_shards owned num_shards k = Some r} = card {i. i < length ?xs \<and> i mod num_shards = r}"
    unfolding shard_slots [OF assms(1) m] by (rule card_image)
  then show ?thesis using residues_count [OF assms(2), of "card owned"] by simp
qed

section \<open>The sequence lock under interleaving\<close>

text \<open>One writer and one reader, interleaved at the granularity of cells: the writer announces itself,
  changes cells of the staging buffer one at a time in any order, as the clone and the closure do, and
  publishes; the reader copies the stable buffer cell by cell and keeps the copy if the sequence number
  has not moved. The ghost \<open>lr_committed\<close> lists the published snapshots.\<close>

datatype 'v reader = Starting | Copying u64 "'v list" | Returned "'v list"

record 'v lock_run =
  lr_seq :: u64
  lr_cells :: "nat \<Rightarrow> nat \<Rightarrow> 'v"
  lr_writer :: "u64 option"
  lr_reader :: "'v reader"
  lr_committed :: "'v list list"

definition staging_index :: "u64 \<Rightarrow> nat" where
  "staging_index start = (if stable_index start = 0 then 1 else 0)"

definition lock_run_new :: "nat \<Rightarrow> (nat \<Rightarrow> 'v) \<Rightarrow> 'v lock_run" where
  "lock_run_new n initial =
     \<lparr>lr_seq = 0, lr_cells = (\<lambda>_. initial), lr_writer = None, lr_reader = Starting, lr_committed = [map initial [0..<n]]\<rparr>"

inductive lock_step :: "nat \<Rightarrow> 'v lock_run \<Rightarrow> 'v lock_run \<Rightarrow> bool" for n :: nat where
  write_begin: "lr_writer r = None \<Longrightarrow> lock_step n r (r\<lparr>lr_seq := lr_seq r + 1, lr_writer := Some (lr_seq r)\<rparr>)"
| write_cell: "lr_writer r = Some start \<Longrightarrow> i < n \<Longrightarrow>
     lock_step n r (r\<lparr>lr_cells := (lr_cells r)(staging_index start := (lr_cells r (staging_index start))(i := v))\<rparr>)"
| write_commit: "lr_writer r = Some start \<Longrightarrow>
     lock_step n r (r\<lparr>lr_seq := lr_seq r + 1, lr_writer := None,
       lr_committed := lr_committed r @ [map (lr_cells r (staging_index start)) [0..<n]]\<rparr>)"
| read_begin: "lr_reader r = Starting \<Longrightarrow> lr_seq r AND 1 \<noteq> 1 \<Longrightarrow>
     lock_step n r (r\<lparr>lr_reader := Copying (lr_seq r) []\<rparr>)"
| read_cell: "lr_reader r = Copying s1 xs \<Longrightarrow> length xs < n \<Longrightarrow>
     lock_step n r (r\<lparr>lr_reader := Copying s1 (xs @ [lr_cells r (stable_index s1) (length xs)])\<rparr>)"
| read_end: "lr_reader r = Copying s1 xs \<Longrightarrow> length xs = n \<Longrightarrow> lr_seq r = s1 \<Longrightarrow>
     lock_step n r (r\<lparr>lr_reader := Returned xs\<rparr>)"
| read_retry: "lr_reader r = Copying s1 xs \<Longrightarrow> length xs = n \<Longrightarrow> lr_seq r \<noteq> s1 \<Longrightarrow>
     lock_step n r (r\<lparr>lr_reader := Starting\<rparr>)"
| read_again: "lr_reader r = Returned xs \<Longrightarrow> lock_step n r (r\<lparr>lr_reader := Starting\<rparr>)"

inductive_cases lock_stepE: "lock_step n r r'"

text \<open>The sequence number after \<open>c\<close> publications.\<close>

definition seq_of :: "nat \<Rightarrow> u64" where
  "seq_of c = of_nat (2 * c)"

lemma unat_seq_of: "c < 2 ^ 63 \<Longrightarrow> unat (seq_of c) = 2 * c \<and> unat (seq_of c + 1) = 2 * c + 1"
proof -
  assume c: "c < 2 ^ 63"
  have u: "unat (of_nat m :: u64) = m" if "m < 2 ^ 64" for m using that by (simp add: unsigned_of_nat take_bit_nat_eq_self)
  have "seq_of c + 1 = of_nat (2 * c + 1)" by (simp add: seq_of_def)
  moreover have "2 * c + 1 < 2 ^ 64" using c by simp
  ultimately have "unat (seq_of c + 1) = 2 * c + 1" using u by metis
  then show ?thesis using c u [of "2 * c"] by (simp add: seq_of_def del: of_nat_mult)
qed

lemma seq_of_Suc: "seq_of c + 1 + 1 = seq_of (Suc c)"
  by (simp add: seq_of_def)

lemma seq_of_inj: "a < 2 ^ 63 \<Longrightarrow> b < 2 ^ 63 \<Longrightarrow> seq_of a = seq_of b \<longleftrightarrow> a = b"
  using unat_seq_of [of a] unat_seq_of [of b] by (metis mult_left_cancel zero_neq_numeral)

lemma seq_of_odd: "a < 2 ^ 63 \<Longrightarrow> b < 2 ^ 63 \<Longrightarrow> seq_of a + 1 \<noteq> seq_of b"
  using unat_seq_of [of a] unat_seq_of [of b] by (metis dvd_triv_left even_plus_one_iff)

lemma seq_of_and: "c < 2 ^ 63 \<Longrightarrow> (seq_of c + 1) AND 1 = 1"
  using unat_seq_of [of c] by (simp add: and_one_eq word_unat_eq_iff unat_mod_distrib)

lemma stable_index_div: "stable_index s = unat s div 2 mod 2"
  by (simp add: stable_index_def and_one_eq drop_bit_eq_div unat_div_distrib unat_mod_distrib)

lemma stable_index_seq: "c < 2 ^ 63 \<Longrightarrow> stable_index (seq_of c) = c mod 2"
  by (simp add: stable_index_div unat_seq_of)

lemma staging_index_seq: "c < 2 ^ 63 \<Longrightarrow> staging_index (seq_of c) = Suc c mod 2"
  by (simp add: staging_index_def stable_index_seq mod_Suc)

definition writer_inv :: "nat \<Rightarrow> u64 \<Rightarrow> u64 option \<Rightarrow> bool" where
  "writer_inv c s w \<longleftrightarrow> (w = None \<and> s = seq_of c) \<or> (w = Some (seq_of c) \<and> s = seq_of c + 1)"

fun reader_inv :: "nat \<Rightarrow> 'v list list \<Rightarrow> 'v reader \<Rightarrow> bool" where
  "reader_inv n hist Starting \<longleftrightarrow> True"
| "reader_inv n hist (Copying s1 xs) \<longleftrightarrow>
     length xs \<le> n \<and> (\<exists>c1 < length hist. s1 = seq_of c1 \<and> (Suc c1 = length hist \<longrightarrow> xs = take (length xs) (last hist)))"
| "reader_inv n hist (Returned xs) \<longleftrightarrow> xs \<in> set hist"

definition commits :: "'v lock_run \<Rightarrow> nat" where
  "commits r = length (lr_committed r) - 1"

definition lock_inv :: "nat \<Rightarrow> 'v lock_run \<Rightarrow> bool" where
  "lock_inv n r \<longleftrightarrow>
     lr_committed r \<noteq> [] \<and> length (last (lr_committed r)) = n \<and>
     map (lr_cells r (commits r mod 2)) [0..<n] = last (lr_committed r) \<and>
     writer_inv (commits r) (lr_seq r) (lr_writer r) \<and> reader_inv n (lr_committed r) (lr_reader r)"

lemma lock_inv_new: "lock_inv n (lock_run_new n initial)"
  by (simp add: lock_inv_def lock_run_new_def commits_def writer_inv_def seq_of_def)

lemma reader_inv_commit: "reader_inv n hist rd \<Longrightarrow> reader_inv n (hist @ [x]) rd"
  by (cases rd) (auto intro: less_SucI)

text \<open>What the reader holds when it sees the sequence number unchanged.\<close>

lemma read_end_newest:
  assumes inv: "lock_inv n r" and rd: "lr_reader r = Copying s1 xs" "length xs = n" "lr_seq r = s1"
    and c: "commits r < 2 ^ 63"
  shows "xs = last (lr_committed r)"
proof -
  obtain c1 where c1: "c1 < length (lr_committed r)" "s1 = seq_of c1" "Suc c1 = length (lr_committed r) \<Longrightarrow> xs = take n (last (lr_committed r))"
  proof -
    have "reader_inv n (lr_committed r) (Copying s1 xs)" using inv rd(1) by (simp add: lock_inv_def)
    then show thesis using that unfolding reader_inv.simps rd(2) by blast
  qed
  have le: "c1 \<le> commits r" using c1(1) by (simp add: commits_def)
  have eq: "seq_of c1 = seq_of (commits r) \<or> seq_of c1 = seq_of (commits r) + 1"
    using inv rd(3) c1(2) by (auto simp: lock_inv_def writer_inv_def)
  have "c1 < 2 ^ 63" using le c by (rule le_less_trans)
  then have "c1 = commits r" using eq seq_of_inj [OF _ c, of c1] seq_of_odd [OF c, of c1] by argo
  then show ?thesis using c1 inv by (auto simp: lock_inv_def commits_def)
qed

lemma lock_inv_step:
  assumes inv: "lock_inv n r" and step: "lock_step n r r'" and bound: "length (lr_committed r') \<le> 2 ^ 63"
  shows "lock_inv n r'"
proof -
  let ?c = "commits r"
  have ne: "lr_committed r \<noteq> []" using inv by (simp add: lock_inv_def)
  have "length (lr_committed r) \<le> length (lr_committed r')" using step by cases auto
  then have c: "?c < 2 ^ 63" using ne bound by (cases "lr_committed r") (auto simp: commits_def)
  show ?thesis using step
  proof cases
    case write_begin
    then show ?thesis using inv by (auto simp: lock_inv_def commits_def writer_inv_def)
  next
    case (write_cell start i v)
    have "staging_index start = Suc ?c mod 2"
      using inv write_cell(2) staging_index_seq [OF c] by (auto simp: lock_inv_def writer_inv_def)
    then have "?c mod 2 \<noteq> staging_index start" by presburger
    then show ?thesis using inv write_cell by (simp add: lock_inv_def commits_def)
  next
    case (write_commit start)
    have w: "start = seq_of ?c" "lr_seq r = seq_of ?c + 1" using inv write_commit(2) by (auto simp: lock_inv_def writer_inv_def)
    have c': "commits r' = Suc ?c" using ne write_commit(1) by (simp add: commits_def)
    have "staging_index start = Suc ?c mod 2" using w(1) staging_index_seq [OF c] by simp
    then show ?thesis
      using inv write_commit c' w seq_of_Suc [of ?c] reader_inv_commit by (auto simp: lock_inv_def writer_inv_def)
  next
    case read_begin
    have "lr_seq r = seq_of ?c" using inv read_begin(3) seq_of_and [OF c] by (auto simp: lock_inv_def writer_inv_def)
    moreover have "reader_inv n (lr_committed r) (Copying (seq_of ?c) [])"
      using ne by (auto simp: commits_def intro!: exI [of _ ?c])
    ultimately show ?thesis using inv read_begin by (simp add: lock_inv_def commits_def)
  next
    case (read_cell s1 xs)
    let ?new = "last (lr_committed r)"
    obtain c1 where c1: "c1 < length (lr_committed r)" "s1 = seq_of c1" "Suc c1 = length (lr_committed r) \<Longrightarrow> xs = take (length xs) ?new"
      using inv read_cell(2) by (auto simp: lock_inv_def)
    have "xs @ [lr_cells r (stable_index s1) (length xs)] = take (Suc (length xs)) ?new" if last: "Suc c1 = length (lr_committed r)"
    proof -
      have "c1 = ?c" using last by (simp add: commits_def)
      then have "lr_cells r (stable_index s1) (length xs) = map (lr_cells r (?c mod 2)) [0..<n] ! length xs"
        using read_cell(3) stable_index_seq [OF c] c1(2) by simp
      then have "lr_cells r (stable_index s1) (length xs) = ?new ! length xs" using inv by (simp add: lock_inv_def)
      then show ?thesis
        using c1(3) [OF last] inv read_cell(3) take_Suc_conv_app_nth [of "length xs" ?new] by (simp add: lock_inv_def)
    qed
    then have "reader_inv n (lr_committed r) (Copying s1 (xs @ [lr_cells r (stable_index s1) (length xs)]))"
      using c1(1,2) read_cell(3) by (auto intro!: exI [of _ c1])
    then show ?thesis using inv read_cell by (simp add: lock_inv_def commits_def)
  next
    case (read_end s1 xs)
    then show ?thesis using inv read_end_newest [OF inv read_end(2-4) c] ne by (simp add: lock_inv_def commits_def)
  next
    case (read_retry s1 xs)
    then show ?thesis using inv by (simp add: lock_inv_def commits_def)
  next
    case (read_again xs)
    then show ?thesis using inv by (simp add: lock_inv_def commits_def)
  qed
qed

lemma lock_inv_reachable:
  assumes "(lock_step n)\<^sup>*\<^sup>* (lock_run_new n initial) r" and "length (lr_committed r) \<le> 2 ^ 63"
  shows "lock_inv n r"
  using assms
proof (induction rule: rtranclp_induct)
  case base
  show ?case by (rule lock_inv_new)
next
  case (step r r')
  have "length (lr_committed r) \<le> length (lr_committed r')" using step(2) by cases auto
  then show ?case using lock_inv_step [OF step.IH step(2)] step.prems by linarith
qed

section \<open>Properties of slots\<close>

text \<open>C33. Every key belongs to one of the 16384 slots. The slot is the low fourteen bits of the CRC-16 of
  the hash tag, and keys with the same non-empty tag in their first braces are in the same slot,
  that of the tag alone.\<close>

theorem slot_of_key:
  assumes "OPEN_BRACE \<notin> set pre" and "CLOSE_BRACE \<notin> set tag" and "OPEN_BRACE \<notin> set tag" and "tag \<noteq> []"
  shows "unat (crc16_slot key) < SLOT_COUNT \<and> unat (crc16_slot key) = unat (crc16_reference (hash_tag key)) mod SLOT_COUNT \<and>
         crc16_slot (pre @ OPEN_BRACE # tag @ CLOSE_BRACE # post) = crc16_slot tag"
proof -
  have "crc16_slot key = take_bit 14 (crc16_reference (hash_tag key))"
    using take_bit_eq_mask [of 14 "crc16_reference (hash_tag key)"]
    by (simp add: crc16_slot_def crc16_ccitt_reference mask_numeral)
  then have "unat (crc16_slot key) = unat (crc16_reference (hash_tag key)) mod SLOT_COUNT"
    by (simp add: take_bit_eq_mod unat_mod_distrib)
  moreover have "crc16_slot (pre @ OPEN_BRACE # tag @ CLOSE_BRACE # post) = crc16_slot tag"
    using hash_tag_braces [OF assms(1,2,4)] hash_tag_plain [OF assms(3)] by (simp add: crc16_slot_def)
  ultimately show ?thesis using slot_mask_less by (auto simp: crc16_slot_def)
qed

text \<open>The key \<open>u:{foo}.\<close> and the slot 12182 the tests name for \<open>foo\<close>.\<close>

theorem slot_of_key_witness:
  "crc16_slot ([117, 58] @ OPEN_BRACE # [102, 111, 111] @ CLOSE_BRACE # [46]) = crc16_slot [102, 111, 111] \<and>
   crc16_slot [102, 111, 111] = 12182"
proof -
  have "hash_tag [102, 111, 111] = [102, 111, 111]" "crc16_reference [102, 111, 111] AND SLOT_MASK = 12182" by code_simp+
  then show ?thesis
    using slot_of_key [of "[117, 58]" "[102, 111, 111]" "[]" "[46]"]
    by (simp add: crc16_slot_def crc16_ccitt_reference)
qed

text \<open>The table-driven checksum is the bit-by-bit CRC-16 with polynomial 0x1021 and initial value 0, for
  every input.\<close>

theorem crc16_table_driven: "crc16_ccitt input = crc16_reference input"
  by (rule crc16_ccitt_reference)

text \<open>Packing a slot entry into 64 bits and unpacking it gives the entry back, and repacking what was
  unpacked only clears the sixteen unused bits.\<close>

theorem slot_entry_roundtrip:
  "slot_unpack (slot_pack e) = e \<and> slot_pack (slot_unpack w) = push_bit 16 (drop_bit 16 w)"
  using slot_unpack_pack slot_pack_unpack by simp

text \<open>Every owned slot is assigned to exactly one shard and no other slot is, and the shards are
  balanced: the numbers of their slots differ by at most one, the first shards having the extra ones.\<close>

theorem shards_balanced:
  assumes "owned \<subseteq> {..<SLOT_COUNT}" and "r < num_shards"
  shows "card {k. assign_slots_to_shards owned num_shards k = Some r}
           = card owned div num_shards + (if r < card owned mod num_shards then 1 else 0) \<and>
         dom (assign_slots_to_shards owned num_shards) = of_nat ` owned \<and>
         ran (assign_slots_to_shards owned num_shards) \<subseteq> {..<num_shards}"
proof -
  have m: "0 < num_shards" using assms(2) by simp
  have "finite owned" using assms(1) finite_subset by blast
  then have xs: "set (sorted_list_of_set owned) = owned" by simp
  note a = assign_slots_nth(1) [OF assms(1) m]
  have "dom (assign_slots_to_shards owned num_shards) = of_nat ` owned"
    using xs by (auto simp: dom_def a position_None_iff image_iff)
  moreover have "ran (assign_slots_to_shards owned num_shards) \<subseteq> {..<num_shards}"
    using m by (auto simp: ran_def a)
  ultimately show ?thesis using shard_card [OF assms] by simp
qed

theorem shards_balanced_witness:
  "card {k. assign_slots_to_shards {..<100} 3 k = Some 0} = 34 \<and> card {k. assign_slots_to_shards {..<100} 3 k = Some 2} = 33"
  using shards_balanced [of "{..<100}" 0 3] shards_balanced [of "{..<100}" 2 3] by simp

text \<open>C34. However a writer and a reader interleave, down to single cells of the snapshot, the read of the
  sequence lock returns the snapshot that is the newest published one at the moment it ends, as long as
  the counter of publications has not wrapped around.\<close>

theorem seqlock_read_consistent:
  assumes "(lock_step n)\<^sup>*\<^sup>* (lock_run_new n initial) r" and "lock_step n r r'" and "length (lr_committed r) \<le> 2 ^ 63"
    and "lr_reader r = Copying s1 xs" and "lr_reader r' = Returned ys"
  shows "ys = last (lr_committed r)"
proof -
  have inv: "lock_inv n r" using lock_inv_reachable [OF assms(1,3)] .
  then have c: "commits r < 2 ^ 63" using assms(3) by (cases "lr_committed r") (auto simp: lock_inv_def commits_def)
  show ?thesis using assms(2,4,5) read_end_newest [OF inv _ _ _ c] by cases auto
qed

text \<open>A read during which the writer announces itself twice: the first copy is discarded, the second one
  returns the published value.\<close>

theorem seqlock_read_consistent_witness:
  "\<exists>r r'. (lock_step 1)\<^sup>*\<^sup>* (lock_run_new 1 (\<lambda>_. 7 :: nat)) r \<and> lock_step 1 r r' \<and> lr_reader r' = Returned [9] \<and>
     last (lr_committed r) = [9]"
proof -
  define r0 where "r0 = lock_run_new 1 (\<lambda>_. 7 :: nat)"
  define r1 where "r1 = r0\<lparr>lr_reader := Copying 0 []\<rparr>"
  define r2 where "r2 = r1\<lparr>lr_seq := 1, lr_writer := Some 0\<rparr>"
  define r3 where "r3 = r2\<lparr>lr_cells := (lr_cells r2)(1 := (lr_cells r2 1)(0 := 9))\<rparr>"
  define r4 where "r4 = r3\<lparr>lr_seq := 2, lr_writer := None, lr_committed := [[7], [9]]\<rparr>"
  define r5 where "r5 = r4\<lparr>lr_reader := Copying 0 [7]\<rparr>"
  define r6 where "r6 = r5\<lparr>lr_reader := Starting\<rparr>"
  define r7 where "r7 = r6\<lparr>lr_reader := Copying 2 []\<rparr>"
  define r8 where "r8 = r7\<lparr>lr_reader := Copying 2 [9]\<rparr>"
  define r9 where "r9 = r8\<lparr>lr_reader := Returned [9]\<rparr>"
  have idx: "staging_index 0 = 1" "stable_index 0 = 0" "stable_index 2 = 1"
    by (simp_all add: staging_index_def stable_index_div)
  note defs = r0_def r1_def r2_def r3_def r4_def r5_def r6_def r7_def r8_def r9_def lock_run_new_def
  have s: "lock_step 1 r0 r1" "lock_step 1 r1 r2" "lock_step 1 r2 r3" "lock_step 1 r3 r4" "lock_step 1 r4 r5"
      "lock_step 1 r5 r6" "lock_step 1 r6 r7" "lock_step 1 r7 r8" "lock_step 1 r8 r9"
    using read_begin [of r0 1] write_begin [of r1 1] write_cell [of r2 0 0 1 9] write_commit [of r3 0 1]
      read_cell [of r4 0 "[]" 1] read_retry [of r5 0 "[7]" 1] read_begin [of r6 1] read_cell [of r7 2 "[]" 1]
      read_end [of r8 2 "[9]" 1] idx
    by (simp_all add: defs)
  have "(lock_step 1)\<^sup>*\<^sup>* r0 r8" using s(1-8) by (meson r_into_rtranclp rtranclp.rtrancl_into_rtrancl)
  moreover have "length (lr_committed r8) \<le> 2 ^ 63" "lr_reader r8 = Copying 2 [9]" "lr_reader r9 = Returned [9]"
    by (simp_all add: defs)
  ultimately show ?thesis
    using seqlock_read_consistent [of 1 "\<lambda>_. 7" r8 r9 2 "[9]" "[9]"] s(9) unfolding r0_def by metis
qed

end
