(* ===== verification/ClusterRoute.thy ===== *)
theory ClusterRoute
  imports ClusterSlots "HOL-Library.Monad_Syntax" "HOL-Library.AList" "HOL-Library.List_Lexorder"
begin

text \<open>
  Nodes, topology and routing of a cluster: senko-cluster/src/node.rs, topo.rs and route.rs. Node
  identifiers are twenty bytes; the topology numbers the known nodes in the order of their
  identifiers and fills the routes of a slot table; routing decides where a command on a key runs.
\<close>

abbreviation NODE_ID_LEN :: nat where "NODE_ID_LEN \<equiv> 20"
abbreviation MAX_CLUSTER_NODES :: nat where "MAX_CLUSTER_NODES \<equiv> 1000"

section \<open>Node identifiers\<close>

type_synonym node_id = bytes

definition hex_digit :: "nat \<Rightarrow> byte" where
  "hex_digit n = (if n < 10 then of_nat (48 + n) else of_nat (87 + n))"

definition node_id_to_string :: "node_id \<Rightarrow> bytes" where
  "node_id_to_string nid = concat (map (\<lambda>b. [hex_digit (unat b div 16), hex_digit (unat b mod 16)]) nid)"

definition decode_nibble :: "byte \<Rightarrow> byte option" where
  "decode_nibble b =
     (if 48 \<le> b \<and> b \<le> 57 then Some (b - 48)
      else if 97 \<le> b \<and> b \<le> 102 then Some (b - 97 + 10)
      else if 65 \<le> b \<and> b \<le> 70 then Some (b - 65 + 10)
      else None)"

datatype node_id_parse_error = InvalidLength nat | InvalidHex nat byte

fun decode_chunks :: "nat \<Rightarrow> bytes \<Rightarrow> node_id_parse_error + bytes" where
  "decode_chunks index (hi # lo # rest) =
     (case decode_nibble hi of
        None \<Rightarrow> Inl (InvalidHex (index * 2) hi)
      | Some high \<Rightarrow>
          (case decode_nibble lo of
             None \<Rightarrow> Inl (InvalidHex (index * 2 + 1) lo)
           | Some low \<Rightarrow>
               (case decode_chunks (Suc index) rest of
                  Inl e \<Rightarrow> Inl e
                | Inr bs \<Rightarrow> Inr ((push_bit 4 high OR low) # bs))))"
| "decode_chunks index _ = Inr []"

definition node_id_from_str :: "bytes \<Rightarrow> node_id_parse_error + node_id" where
  "node_id_from_str s = (if length s \<noteq> NODE_ID_LEN * 2 then Inl (InvalidLength (length s)) else decode_chunks 0 s)"

section \<open>Nodes\<close>

datatype node_role = Primary | Replica node_id

datatype node_state = Connected | Disconnected | Handshaking | PFail | Failed

definition to_flags :: "node_state \<Rightarrow> u16" where
  "to_flags st = (case st of Connected \<Rightarrow> 1 | Disconnected \<Rightarrow> 2 | Handshaking \<Rightarrow> 4 | PFail \<Rightarrow> 8 | Failed \<Rightarrow> 16)"

definition from_flags :: "u16 \<Rightarrow> node_state" where
  "from_flags flags =
     (if flags AND 16 \<noteq> 0 then Failed
      else if flags AND 8 \<noteq> 0 then PFail
      else if flags AND 4 \<noteq> 0 then Handshaking
      else if flags AND 2 \<noteq> 0 then Disconnected
      else Connected)"

definition is_fail_like :: "node_state \<Rightarrow> bool" where
  "is_fail_like st \<longleftrightarrow> st = PFail \<or> st = Failed"

record 'a node_meta =
  nm_id :: node_id
  nm_addr :: 'a
  nm_cluster_addr :: 'a
  nm_role :: node_role
  nm_state :: node_state
  nm_ping_sent :: nat
  nm_pong_recv :: nat
  nm_config_epoch :: nat
  nm_slots :: "nat set"

definition node_meta_new :: "node_id \<Rightarrow> 'a \<Rightarrow> 'a \<Rightarrow> 'a node_meta" where
  "node_meta_new nid addr cluster_addr =
     \<lparr>nm_id = nid, nm_addr = addr, nm_cluster_addr = cluster_addr, nm_role = Primary, nm_state = Connected,
      nm_ping_sent = 0, nm_pong_recv = 0, nm_config_epoch = 0, nm_slots = {}\<rparr>"

text \<open>The node table is a hash map; its entries are listed here in the order of insertion, and nothing
  depends on the order.\<close>

record 'a cluster_state =
  cs_local_node_id :: node_id
  cs_nodes :: "(node_id \<times> 'a node_meta) list"
  cs_current_epoch :: nat

definition cluster_state_new :: "node_id \<Rightarrow> 'a cluster_state" where
  "cluster_state_new nid = \<lparr>cs_local_node_id = nid, cs_nodes = [], cs_current_epoch = 0\<rparr>"

definition insert_node :: "'a cluster_state \<Rightarrow> 'a node_meta \<Rightarrow> 'a node_meta option \<times> 'a cluster_state" where
  "insert_node s node = (map_of (cs_nodes s) (nm_id node), s\<lparr>cs_nodes := AList.update (nm_id node) node (cs_nodes s)\<rparr>)"

definition remove_node :: "'a cluster_state \<Rightarrow> node_id \<Rightarrow> 'a node_meta option \<times> 'a cluster_state" where
  "remove_node s nid = (map_of (cs_nodes s) nid, s\<lparr>cs_nodes := AList.delete nid (cs_nodes s)\<rparr>)"

definition get_node :: "'a cluster_state \<Rightarrow> node_id \<Rightarrow> 'a node_meta option" where
  "get_node s nid = map_of (cs_nodes s) nid"

definition with_local_node :: "'a node_meta \<Rightarrow> 'a cluster_state" where
  "with_local_node node = snd (insert_node (cluster_state_new (nm_id node)) node)"

definition set_current_epoch :: "'a cluster_state \<Rightarrow> nat \<Rightarrow> 'a cluster_state" where
  "set_current_epoch s epoch = s\<lparr>cs_current_epoch := epoch\<rparr>"

section \<open>Topology\<close>

datatype topology_error = TooManyNodes nat nat | MissingLocalNode node_id

record 'a topology =
  tp_state :: "'a cluster_state"
  tp_ordered_node_ids :: "node_id list"
  tp_node_index_by_id :: "node_id \<Rightarrow> u16 option"

definition rebuild_indexes :: "'a topology \<Rightarrow> topology_error + 'a topology" where
  "rebuild_indexes t =
     (let ordered = sort (map fst (cs_nodes (tp_state t))) in
      if MAX_CLUSTER_NODES < length ordered then Inl (TooManyNodes (length ordered) MAX_CLUSTER_NODES)
      else if cs_local_node_id (tp_state t) \<notin> set ordered then Inl (MissingLocalNode (cs_local_node_id (tp_state t)))
      else Inr (t\<lparr>tp_ordered_node_ids := ordered,
                  tp_node_index_by_id := fold (\<lambda>(index, nid) m. m(nid \<mapsto> of_nat index)) (enumerate 0 ordered) Map.empty\<rparr>))"

definition topology_new :: "'a cluster_state \<Rightarrow> topology_error + 'a topology" where
  "topology_new s = rebuild_indexes \<lparr>tp_state = s, tp_ordered_node_ids = [], tp_node_index_by_id = Map.empty\<rparr>"

definition topology_node_index :: "'a topology \<Rightarrow> node_id \<Rightarrow> u16 option" where
  "topology_node_index t nid = tp_node_index_by_id t nid"

definition node_by_index :: "'a topology \<Rightarrow> u16 \<Rightarrow> 'a node_meta option" where
  "node_by_index t index =
     (case get_at (tp_ordered_node_ids t) (unat index) of None \<Rightarrow> None | Some nid \<Rightarrow> get_node (tp_state t) nid)"

definition local_node_index :: "'a topology \<Rightarrow> u16 option" where
  "local_node_index t = topology_node_index t (cs_local_node_id (tp_state t))"

text \<open>\<open>None\<close> is the panic on a node that is indexed but unknown.\<close>

fun populate_from :: "'a cluster_state \<Rightarrow> nat \<Rightarrow> node_id list \<Rightarrow> 'a slot_table_snapshot \<Rightarrow> 'a slot_table_snapshot option" where
  "populate_from s index [] snapshot = Some snapshot"
| "populate_from s index (nid # ids) snapshot =
     (case get_node s nid of
        None \<Rightarrow> None
      | Some node \<Rightarrow> populate_from s (Suc index) ids (set_route_node snapshot (of_nat index) (nm_id node) (nm_addr node)))"

definition populate_snapshot_routes :: "'a topology \<Rightarrow> 'a slot_table_snapshot \<Rightarrow> 'a slot_table_snapshot option" where
  "populate_snapshot_routes t snapshot = populate_from (tp_state t) 0 (tp_ordered_node_ids t) snapshot"

section \<open>Routing\<close>

record route_options =
  ro_current_shard :: nat
  ro_asking :: bool

datatype 'a route_decision =
  LocalShard nat | CrossShard nat | Moved node_id 'a | Ask node_id 'a | Proxy node_id

definition local_decision :: "nat \<Rightarrow> nat \<Rightarrow> 'a route_decision" where
  "local_decision target_shard current_shard =
     (if target_shard = current_shard then LocalShard target_shard else CrossShard target_shard)"

definition remote_decision :: "'a slot_table_snapshot \<Rightarrow> u16 \<Rightarrow> bool \<Rightarrow> 'a route_decision option" where
  "remote_decision t i ask =
     map_option (\<lambda>node. if ask then Ask (rn_id node) (rn_addr node) else Moved (rn_id node) (rn_addr node)) (route_node t i)"

definition route_with_options ::
    "'a slot_table_snapshot \<Rightarrow> bytes \<Rightarrow> bool \<Rightarrow> route_options \<Rightarrow> 'a route_decision option" where
  "route_with_options t key write options = do {
     let slot = crc16_slot key;
     entry \<leftarrow> snapshot_entry t slot;
     if entry_flags entry AND FLAG_MIGRATING \<noteq> 0 \<and> is_key_migrated t slot key then remote_decision t (node_index entry) True
     else if entry_flags entry AND FLAG_IMPORTING \<noteq> 0 \<and> \<not> ro_asking options then remote_decision t (node_index entry) False
     else if entry_flags entry AND FLAG_LOCAL \<noteq> 0 \<or> (entry_flags entry AND FLAG_IMPORTING \<noteq> 0 \<and> ro_asking options) then
       Some (local_decision (unat (shard_index entry)) (ro_current_shard options))
     else if ss_proxy_remote t then map_option (\<lambda>node. Proxy (rn_id node)) (route_node t (node_index entry))
     else remote_decision t (node_index entry) False
   }"

definition route :: "'a slot_table_snapshot \<Rightarrow> bytes \<Rightarrow> bool \<Rightarrow> 'a route_decision option" where
  "route t key write = route_with_options t key write \<lparr>ro_current_shard = 0, ro_asking = False\<rparr>"

section \<open>Hexadecimal round trip\<close>

lemma decode_hex_digit: "n < 16 \<Longrightarrow> decode_nibble (hex_digit n) = Some (of_nat n)"
proof -
  have "\<forall>n \<in> set [0..<16]. decode_nibble (hex_digit n) = Some (of_nat n)" by code_simp
  then show "n < 16 \<Longrightarrow> ?thesis" by simp
qed

lemma unat_byte: "unat (b :: byte) < 256"
proof -
  have "unat b < 2 ^ LENGTH(8)" by (rule unsigned_less)
  then show ?thesis by simp
qed

lemma byte_nibbles: "unat (b :: byte) div 16 < 16 \<and> unat b mod 16 < 16"
  using unat_byte [of b] by auto

lemma nibbles_byte: "push_bit 4 (of_nat (unat b div 16) :: byte) OR of_nat (unat b mod 16) = b"
proof -
  have "(of_nat (unat b div 16) :: byte) = drop_bit 4 b" "(of_nat (unat b mod 16) :: byte) = take_bit 4 b"
    by (simp_all add: drop_bit_eq_div take_bit_eq_mod word_arith_nat_div word_arith_nat_mod)
  moreover have "push_bit 4 (drop_bit 4 b) OR take_bit 4 b = b" by (rule bit_word_eqI) (auto simp: bit_simps)
  ultimately show ?thesis by simp
qed

lemma decode_chunks_hex: "decode_chunks i (node_id_to_string bs) = Inr bs"
  by (induction bs arbitrary: i) (simp_all add: node_id_to_string_def decode_hex_digit byte_nibbles nibbles_byte)

lemma length_node_id_to_string: "length (node_id_to_string bs) = 2 * length bs"
  by (induction bs) (simp_all add: node_id_to_string_def)

definition to_lower :: "byte \<Rightarrow> byte" where
  "to_lower b = (if 65 \<le> b \<and> b \<le> 70 then b + 32 else b)"

lemma hex_digit_decode:
  assumes "decode_nibble b = Some v"
  shows "unat v < 16 \<and> hex_digit (unat v) = to_lower b"
proof -
  consider (digit) "48 \<le> b" "b \<le> 57" "v = b - 48" | (lower) "97 \<le> b" "b \<le> 102" "v = b - 87"
    | (upper) "65 \<le> b" "b \<le> 70" "v = b - 55"
    using assms by (auto simp: decode_nibble_def algebra_simps split: if_splits)
  then show ?thesis
  proof cases
    case digit
    then have u: "unat v = unat b - 48" "48 \<le> unat b" "unat b \<le> 57" by (simp_all add: unat_sub word_le_nat_alt)
    then have "unat v < 10" "48 + unat v = unat b" by linarith+
    then have "hex_digit (unat v) = of_nat (unat b)" by (simp only: hex_digit_def if_True)
    then show ?thesis using u by (simp add: to_lower_def word_le_nat_alt)
  next
    case lower
    then have u: "unat v = unat b - 87" "97 \<le> unat b" "unat b \<le> 102" by (simp_all add: unat_sub word_le_nat_alt)
    then have v: "\<not> unat v < 10" "87 + unat v = unat b" "unat v < 16" by linarith+
    then have "hex_digit (unat v) = of_nat (unat b)" by (simp only: hex_digit_def if_False)
    then show ?thesis using u v(3) by (simp add: to_lower_def word_le_nat_alt)
  next
    case upper
    then have u: "unat v = unat b - 55" "65 \<le> unat b" "unat b \<le> 70" by (simp_all add: unat_sub word_le_nat_alt)
    then have v: "\<not> unat v < 10" "87 + unat v = unat b + 32" "unat v < 16" by linarith+
    then have "hex_digit (unat v) = of_nat (unat b + 32)" by (simp only: hex_digit_def if_False)
    then show ?thesis using u v(3) by (simp add: to_lower_def word_le_nat_alt)
  qed
qed

lemma byte_of_nibbles:
  assumes "unat h < 16" and "unat l < 16"
  shows "unat (push_bit 4 h OR l :: byte) div 16 = unat h \<and> unat (push_bit 4 h OR l) mod 16 = unat l"
proof -
  have h: "h = take_bit 4 h" and l: "l = take_bit 4 l"
    using assms by (simp_all add: take_bit_eq_mod word_unat_eq_iff unat_mod_distrib)
  have "drop_bit 4 (push_bit 4 h OR l) = take_bit 4 h" "take_bit 4 (push_bit 4 h OR l) = l"
    by (subst l, rule bit_word_eqI, auto simp: bit_simps)+
  then show ?thesis using h by (simp_all add: drop_bit_eq_div take_bit_eq_mod word_unat_eq_iff unat_div_distrib unat_mod_distrib)
qed

lemma decode_chunks_sound:
  "decode_chunks i s = Inr nid \<Longrightarrow> even (length s) \<Longrightarrow> node_id_to_string nid = map to_lower s"
proof (induction i s arbitrary: nid rule: decode_chunks.induct)
  case (1 i hi lo rest)
  obtain h l bs where d: "decode_nibble hi = Some h" "decode_nibble lo = Some l" "decode_chunks (Suc i) rest = Inr bs"
      "nid = (push_bit 4 h OR l) # bs"
    using 1(2) by (auto split: option.splits sum.splits)
  have "node_id_to_string bs = map to_lower rest" using 1(1) [OF d(1,2,3)] 1(3) by simp
  then show ?case
    using d hex_digit_decode [OF d(1)] hex_digit_decode [OF d(2)] byte_of_nibbles by (simp add: node_id_to_string_def)
qed (auto simp: node_id_to_string_def)

section \<open>The topology and its routes\<close>

text \<open>A cluster state as \<open>insert_node\<close> and \<open>remove_node\<close> build it: one entry per identifier, under the
  identifier of the node.\<close>

definition cluster_wf :: "'a cluster_state \<Rightarrow> bool" where
  "cluster_wf s \<longleftrightarrow> distinct (map fst (cs_nodes s)) \<and> (\<forall>(k, n) \<in> set (cs_nodes s). nm_id n = k)"

lemma cluster_wf_new: "cluster_wf (cluster_state_new nid)"
  by (simp add: cluster_wf_def cluster_state_new_def)

lemma update_subset: "set (AList.update k v al) \<subseteq> insert (k, v) (set al)"
  by (induction al) auto

lemma cluster_wf_insert: "cluster_wf s \<Longrightarrow> cluster_wf (snd (insert_node s n))"
  using update_subset [of "nm_id n" n "cs_nodes s"] by (fastforce simp: cluster_wf_def insert_node_def distinct_update)

lemma cluster_wf_remove: "cluster_wf s \<Longrightarrow> cluster_wf (snd (remove_node s nid))"
  by (auto simp: cluster_wf_def remove_node_def AList.delete_eq intro: distinct_map_filter)

text \<open>The indexes of a topology belong to its nodes.\<close>

definition topology_wf :: "'a topology \<Rightarrow> bool" where
  "topology_wf t \<longleftrightarrow>
     length (tp_ordered_node_ids t) \<le> MAX_CLUSTER_NODES \<and> sorted (tp_ordered_node_ids t) \<and> distinct (tp_ordered_node_ids t) \<and>
     set (tp_ordered_node_ids t) = dom (get_node (tp_state t)) \<and> cs_local_node_id (tp_state t) \<in> set (tp_ordered_node_ids t) \<and>
     (\<forall>nid. tp_node_index_by_id t nid = map_option of_nat (position (\<lambda>x. x = nid) (tp_ordered_node_ids t)))"

lemma dom_get_node: "dom (get_node s) = fst ` set (cs_nodes s)"
  by (simp add: get_node_def [abs_def] dom_map_of_conv_image_fst)

lemma rebuild_indexes_wf:
  assumes "cluster_wf (tp_state t)" and "rebuild_indexes t = Inr t'"
  shows "topology_wf t' \<and> tp_state t' = tp_state t"
proof -
  let ?xs = "sort (map fst (cs_nodes (tp_state t)))"
  have d: "distinct ?xs" using assms(1) by (simp add: cluster_wf_def)
  have "fold (\<lambda>(index, nid) m. m(nid \<mapsto> of_nat index)) (enumerate 0 ?xs) Map.empty nid
      = map_option (of_nat :: nat \<Rightarrow> u16) (position (\<lambda>x. x = nid) ?xs)" for nid
    using fold_enumerate_map [of "\<lambda>x. x" ?xs "of_nat :: nat \<Rightarrow> u16" 0 Map.empty nid] d by (simp split: option.splits)
  moreover have t': "t' = t\<lparr>tp_ordered_node_ids := ?xs,
        tp_node_index_by_id := fold (\<lambda>(index, nid) m. m(nid \<mapsto> of_nat index)) (enumerate 0 ?xs) Map.empty\<rparr>"
      "length ?xs \<le> MAX_CLUSTER_NODES" "cs_local_node_id (tp_state t) \<in> set ?xs"
    using assms(2) by (simp_all add: rebuild_indexes_def Let_def split: if_splits)
  ultimately show ?thesis using d t'(2,3) unfolding t'(1) topology_wf_def by (simp add: dom_get_node)
qed

lemma set_route_node_nodes:
  "route_node (set_route_node t i nid a) j = (if j = i then Some \<lparr>rn_id = nid, rn_addr = a\<rparr> else route_node t j)"
proof -
  have "unat j = unat i \<longleftrightarrow> j = i" by (simp add: word_unat_eq_iff)
  then show ?thesis
    by (auto simp: route_node_def set_route_node_def get_at_def Let_def nth_append nth_list_update)
qed

lemma populate_from_spec:
  assumes "set ids \<subseteq> dom (get_node s)" and "i + length ids \<le> 65536"
  shows "\<exists>t'. populate_from s i ids t = Some t' \<and> ss_entries t' = ss_entries t \<and>
           ss_migrating_slots t' = ss_migrating_slots t \<and> ss_proxy_remote t' = ss_proxy_remote t \<and>
           (\<forall>j. route_node t' j =
              (if i \<le> unat j \<and> unat j < i + length ids
               then map_option (\<lambda>n. \<lparr>rn_id = nm_id n, rn_addr = nm_addr n\<rparr>) (get_node s (ids ! (unat j - i)))
               else route_node t j))"
  using assms
proof (induction ids arbitrary: i t)
  case (Cons nid ids)
  obtain n where n: "get_node s nid = Some n" using Cons.prems(1) by auto
  let ?t = "set_route_node t (of_nat i) (nm_id n) (nm_addr n)"
  have i: "unat (of_nat i :: u16) = i" using Cons.prems(2) by (simp add: unsigned_of_nat take_bit_nat_eq_self)
  obtain t' where t': "populate_from s (Suc i) ids ?t = Some t'" "ss_entries t' = ss_entries ?t"
      "ss_migrating_slots t' = ss_migrating_slots ?t" "ss_proxy_remote t' = ss_proxy_remote ?t"
      "\<forall>j. route_node t' j =
              (if Suc i \<le> unat j \<and> unat j < Suc i + length ids
               then map_option (\<lambda>n. \<lparr>rn_id = nm_id n, rn_addr = nm_addr n\<rparr>) (get_node s (ids ! (unat j - Suc i)))
               else route_node ?t j)"
    using Cons.IH [of "Suc i" ?t] Cons.prems by auto
  have "route_node t' j =
      (if i \<le> unat j \<and> unat j < i + length (nid # ids)
       then map_option (\<lambda>n. \<lparr>rn_id = nm_id n, rn_addr = nm_addr n\<rparr>) (get_node s ((nid # ids) ! (unat j - i)))
       else route_node t j)" for j
  proof -
    have "j = of_nat i \<longleftrightarrow> unat j = i" using i by (metis of_nat_unat ucast_id)
    moreover have "Suc i \<le> unat j \<Longrightarrow> (nid # ids) ! (unat j - i) = ids ! (unat j - Suc i)"
      by (metis Suc_diff_le diff_Suc_Suc nth_Cons_Suc)
    ultimately show ?thesis using t'(5) n by (auto simp: set_route_node_nodes not_less_eq_eq)
  qed
  then show ?case using t'(1-4) n by (simp add: set_route_node_def Let_def)
qed auto

lemma topology_index:
  assumes "topology_wf t" and "get_node (tp_state t) nid = Some n"
  shows "\<exists>i. topology_node_index t nid = Some i \<and> node_by_index t i = Some n \<and> tp_ordered_node_ids t ! unat i = nid \<and>
           unat i < length (tp_ordered_node_ids t)"
proof -
  let ?xs = "tp_ordered_node_ids t"
  have "nid \<in> set ?xs" using assms by (auto simp: topology_wf_def)
  then obtain i where i: "position (\<lambda>x. x = nid) ?xs = Some i"
    by (cases "position (\<lambda>x. x = nid) ?xs") (auto simp: position_None_iff)
  then have lt: "i < length ?xs" "?xs ! i = nid" by (auto simp: position_Some_iff)
  then have "i < 65536" using assms(1) by (auto simp: topology_wf_def)
  then have "unat (of_nat i :: u16) = i" by (simp add: unsigned_of_nat take_bit_nat_eq_self)
  then show ?thesis
    using i lt assms by (auto simp: topology_wf_def topology_node_index_def node_by_index_def get_at_def)
qed

lemma populate_routes:
  assumes "topology_wf t"
  shows "\<exists>snapshot'. populate_snapshot_routes t snapshot = Some snapshot' \<and> ss_entries snapshot' = ss_entries snapshot \<and>
      ss_migrating_slots snapshot' = ss_migrating_slots snapshot \<and> ss_proxy_remote snapshot' = ss_proxy_remote snapshot \<and>
      (\<forall>i. unat i < length (tp_ordered_node_ids t) \<longrightarrow>
         (\<exists>n. node_by_index t i = Some n \<and> route_node snapshot' i = Some \<lparr>rn_id = nm_id n, rn_addr = nm_addr n\<rparr>))"
proof -
  let ?xs = "tp_ordered_node_ids t"
  have xs: "set ?xs \<subseteq> dom (get_node (tp_state t))" "0 + length ?xs \<le> 65536"
    using assms by (auto simp: topology_wf_def)
  have "\<exists>n. get_node (tp_state t) (?xs ! i) = Some n" if "i < length ?xs" for i using xs(1) that nth_mem by blast
  then show ?thesis
    using populate_from_spec [OF xs, of snapshot] by (fastforce simp: populate_snapshot_routes_def node_by_index_def get_at_def)
qed

text \<open>A cluster of two nodes, used by the examples below.\<close>

definition two_nodes :: "nat cluster_state" where
  "two_nodes = snd (insert_node (with_local_node (node_meta_new (replicate 20 2) 7000 17000))
                                (node_meta_new (replicate 20 1) 7001 17001))"

lemma two_nodes_wf: "cluster_wf two_nodes"
  unfolding two_nodes_def with_local_node_def by (intro cluster_wf_insert cluster_wf_new)

lemma two_nodes_topology:
  "topology_new two_nodes = Inr (projr (topology_new two_nodes))"
  "tp_ordered_node_ids (projr (topology_new two_nodes)) = [replicate 20 1, replicate 20 2]"
proof -
  let ?a = "replicate 20 1 :: bytes" and ?b = "replicate 20 2 :: bytes"
  have r: "replicate 20 x = x # replicate 19 x" for x :: byte by (simp add: numeral_eq_Suc)
  have less: "?a < ?b" by (simp add: r)
  have "map fst (cs_nodes two_nodes) = [?b, ?a]" "cs_local_node_id two_nodes = ?b"
    by (simp_all add: two_nodes_def insert_node_def with_local_node_def cluster_state_new_def node_meta_new_def)
  moreover have "sort [?b, ?a] = [?a, ?b]" using less by simp
  ultimately have "\<exists>t. topology_new two_nodes = Inr t \<and> tp_ordered_node_ids t = [?a, ?b]"
    by (simp add: topology_new_def rebuild_indexes_def Let_def del: sort_key_simps)
  then show "topology_new two_nodes = Inr (projr (topology_new two_nodes))"
    and "tp_ordered_node_ids (projr (topology_new two_nodes)) = [replicate 20 1, replicate 20 2]" by auto
qed

section \<open>Properties of the cluster\<close>

text \<open>The textual form of a node identifier parses back to it, and whatever parses is the textual form
  of the result, up to the case of its digits.\<close>

theorem node_id_roundtrip:
  "(length nid = NODE_ID_LEN \<longrightarrow> node_id_from_str (node_id_to_string nid) = Inr nid) \<and>
   (node_id_from_str s = Inr nid \<longrightarrow> node_id_to_string nid = map to_lower s \<and> length nid = NODE_ID_LEN)"
proof -
  have "node_id_to_string nid = map to_lower s \<and> length nid = NODE_ID_LEN" if "node_id_from_str s = Inr nid"
  proof -
    have s: "length s = 40" "decode_chunks 0 s = Inr nid" using that by (auto simp: node_id_from_str_def split: if_splits)
    then have "node_id_to_string nid = map to_lower s" using decode_chunks_sound [of 0 s nid] by simp
    then show ?thesis using arg_cong [of "node_id_to_string nid" _ length] s(1) length_node_id_to_string [of nid] by simp
  qed
  then show ?thesis by (auto simp: node_id_from_str_def decode_chunks_hex length_node_id_to_string)
qed

theorem node_id_roundtrip_witness:
  "node_id_from_str (node_id_to_string (replicate 20 171)) = Inr (replicate 20 171) \<and>
   node_id_to_string (replicate 20 171) = concat (replicate 20 [97, 98])"
proof -
  have "node_id_from_str (node_id_to_string (replicate 20 171)) = Inr (replicate 20 171)"
    using node_id_roundtrip [of "replicate 20 171" "[]"] by simp
  moreover have "hex_digit 10 = 97" "hex_digit 11 = 98" by (simp_all add: hex_digit_def)
  ultimately show ?thesis by (simp add: node_id_to_string_def)
qed

text \<open>C35. A topology built from a cluster state is well formed: it has at most a thousand nodes, among them
  the local one, in ascending order, and its index of a node and its node at an index are inverse.\<close>

theorem topology_well_formed:
  assumes "cluster_wf s" and "topology_new s = Inr t"
  shows "topology_wf t \<and> tp_state t = s \<and>
         (\<forall>nid n. get_node s nid = Some n \<longrightarrow> (\<exists>i. topology_node_index t nid = Some i \<and> node_by_index t i = Some n))"
proof -
  have "topology_wf t \<and> tp_state t = s"
    using rebuild_indexes_wf [of "\<lparr>tp_state = s, tp_ordered_node_ids = [], tp_node_index_by_id = Map.empty\<rparr>" t] assms
    by (simp add: topology_new_def)
  then show ?thesis using topology_index by blast
qed

theorem topology_well_formed_witness:
  "\<exists>t i. topology_new two_nodes = Inr t \<and> topology_node_index t (replicate 20 2) = Some i \<and>
     node_by_index t i = Some (node_meta_new (replicate 20 2) 7000 17000)"
proof -
  have "get_node two_nodes (replicate 20 2) = Some (node_meta_new (replicate 20 2) 7000 17000)"
    by (simp add: two_nodes_def insert_node_def with_local_node_def cluster_state_new_def get_node_def node_meta_new_def)
  then show ?thesis
    using topology_well_formed [OF two_nodes_wf two_nodes_topology(1)] two_nodes_topology(1) by blast
qed

text \<open>C36. Routing never panics on a slot table whose routes were filled from the topology and whose entries
  name nodes of it. The decision is determined by the entry of the slot: a key that has migrated from a
  migrating slot is redirected with Ask; otherwise a command stays here exactly if the slot is being
  imported and the client is asking, or the slot is local and not being imported, and then goes to the
  slot's shard; otherwise it is proxied if the table says so and the slot is not being imported; otherwise
  it is redirected with Moved. Redirections and proxies name the node that the topology has for the slot.\<close>

theorem route_total:
  assumes "cluster_wf s" and "topology_new s = Inr t" and "populate_snapshot_routes t snapshot = Some table"
    and "length (ss_entries snapshot) = SLOT_COUNT" and "snapshot_entry snapshot (crc16_slot key) = Some e"
    and "unat (node_index e) < length (tp_ordered_node_ids t)"
  shows "\<exists>d n. route_with_options table key is_write opts = Some d \<and> node_by_index t (node_index e) = Some n \<and>
           (let gone = is_migrating e \<and> is_key_migrated snapshot (crc16_slot key) key;
                here = (if is_importing e then ro_asking opts else is_local e);
                proxied = ss_proxy_remote snapshot \<and> \<not> is_importing e
            in case d of
              LocalShard k \<Rightarrow> \<not> gone \<and> here \<and> k = unat (shard_index e) \<and> k = ro_current_shard opts
            | CrossShard k \<Rightarrow> \<not> gone \<and> here \<and> k = unat (shard_index e) \<and> k \<noteq> ro_current_shard opts
            | Moved nid a \<Rightarrow> \<not> gone \<and> \<not> here \<and> \<not> proxied \<and> nid = nm_id n \<and> a = nm_addr n
            | Ask nid a \<Rightarrow> gone \<and> nid = nm_id n \<and> a = nm_addr n
            | Proxy nid \<Rightarrow> \<not> gone \<and> \<not> here \<and> proxied \<and> nid = nm_id n)"
proof -
  have t: "topology_wf t"
    using rebuild_indexes_wf [of "\<lparr>tp_state = s, tp_ordered_node_ids = [], tp_node_index_by_id = Map.empty\<rparr>" t] assms(1,2)
    by (simp add: topology_new_def)
  obtain n where n: "node_by_index t (node_index e) = Some n"
      "route_node table (node_index e) = Some \<lparr>rn_id = nm_id n, rn_addr = nm_addr n\<rparr>"
    and same: "ss_entries table = ss_entries snapshot" "ss_migrating_slots table = ss_migrating_slots snapshot"
      "ss_proxy_remote table = ss_proxy_remote snapshot"
    using populate_routes [OF t, of snapshot] assms(3,6) by auto
  have "snapshot_entry table (crc16_slot key) = Some e" using assms(5) same(1) by (simp add: snapshot_entry_def)
  moreover have "is_key_migrated table slot k = is_key_migrated snapshot slot k" for slot k
    using same(2) by (simp add: is_key_migrated_def)
  ultimately show ?thesis
    using n same(3)
    by (simp add: route_with_options_def remote_decision_def local_decision_def is_local_def is_importing_def is_migrating_def Let_def)
qed

theorem route_total_witness:
  "\<exists>t snapshot table. topology_new two_nodes = Inr t \<and>
     set_entry snapshot_new (crc16_slot [102]) \<lparr>node_index = 1, shard_index = 0, entry_flags = 0\<rparr> = Some snapshot \<and>
     populate_snapshot_routes t snapshot = Some table \<and>
     (\<exists>n. node_by_index t 1 = Some n \<and>
        route_with_options table [102] True \<lparr>ro_current_shard = 0, ro_asking = False\<rparr> = Some (Moved (nm_id n) (nm_addr n)))"
proof -
  let ?t = "projr (topology_new two_nodes)" and ?e = "\<lparr>node_index = 1, shard_index = 0, entry_flags = 0\<rparr>"
  define snapshot :: "nat slot_table_snapshot" where
    "snapshot = snapshot_new\<lparr>ss_entries := (ss_entries snapshot_new)[unat (crc16_slot [102]) := slot_pack ?e]\<rparr>"
  have slot: "unat (crc16_slot [102]) < SLOT_COUNT" unfolding crc16_slot_def by (rule slot_mask_less)
  then have set: "set_entry snapshot_new (crc16_slot [102]) ?e = Some snapshot"
    by (simp add: set_entry_def snapshot_def snapshot_new_def)
  have e: "snapshot_entry snapshot (crc16_slot [102]) = Some ?e"
    using slot slot_unpack_pack [of ?e] by (simp add: snapshot_entry_def snapshot_def snapshot_new_def get_at_def)
  have len: "length (ss_entries snapshot) = SLOT_COUNT" by (simp add: snapshot_def snapshot_new_def)
  obtain table where table: "populate_snapshot_routes ?t snapshot = Some table"
    using populate_routes rebuild_indexes_wf two_nodes_wf two_nodes_topology(1) unfolding topology_new_def
    by (metis topology.select_convs(1))
  have "unat (node_index ?e) < length (tp_ordered_node_ids ?t)" using two_nodes_topology(2) by simp
  note route = route_total [OF two_nodes_wf two_nodes_topology(1) table len e this, of True "\<lparr>ro_current_shard = 0, ro_asking = False\<rparr>"]
  obtain d n where d: "route_with_options table [102] True \<lparr>ro_current_shard = 0, ro_asking = False\<rparr> = Some d"
      "node_by_index ?t 1 = Some n"
      "let gone = is_migrating ?e \<and> is_key_migrated snapshot (crc16_slot [102]) [102]; here = (if is_importing ?e then False else is_local ?e);
           proxied = ss_proxy_remote snapshot \<and> \<not> is_importing ?e
       in case d of LocalShard k \<Rightarrow> \<not> gone \<and> here \<and> k = 0 \<and> k = 0 | CrossShard k \<Rightarrow> \<not> gone \<and> here \<and> k = 0 \<and> k \<noteq> 0
        | Moved nid a \<Rightarrow> \<not> gone \<and> \<not> here \<and> \<not> proxied \<and> nid = nm_id n \<and> a = nm_addr n | Ask nid a \<Rightarrow> gone \<and> nid = nm_id n \<and> a = nm_addr n
        | Proxy nid \<Rightarrow> \<not> gone \<and> \<not> here \<and> proxied \<and> nid = nm_id n"
    using route by (simp only: slot_entry.select_convs route_options.select_convs unsigned_0) blast
  have "\<not> is_migrating ?e" "\<not> is_importing ?e" "\<not> is_local ?e" "\<not> ss_proxy_remote snapshot"
    by (simp_all add: is_migrating_def is_importing_def is_local_def snapshot_def snapshot_new_def)
  then have "d = Moved (nm_id n) (nm_addr n)" using d(3) by (cases d) simp_all
  then show ?thesis using two_nodes_topology(1) set table d(1,2) by blast
qed

end
