(* ===== verification/Sentinel.thy ===== *)
theory Sentinel
  imports Prelude "HOL-Library.AList" "HOL-Library.List_Lexorder" "HOL-Library.Product_Lexorder"
begin

text \<open>
  The sentinel, senko-sentinel/src/state.rs, detector.rs, election.rs and failover.rs: detection of a
  failed master, the book of votes, and the state machine that promotes a replica. Hash maps are
  association lists in the order of their iteration, which the theorems leave open; addresses are a type
  parameter and the clock is an argument.
\<close>

section \<open>State\<close>

type_synonym sentinel_id = bytes
type_synonym instance_flags = "32 word"

abbreviation S_DOWN :: instance_flags where "S_DOWN \<equiv> 8"
abbreviation O_DOWN :: instance_flags where "O_DOWN \<equiv> 16"
abbreviation FAILOVER_IN_PROGRESS :: instance_flags where "FAILOVER_IN_PROGRESS \<equiv> 64"
abbreviation RECONF_SENT :: instance_flags where "RECONF_SENT \<equiv> 256"
abbreviation RECONF_INPROG :: instance_flags where "RECONF_INPROG \<equiv> 512"
abbreviation RECONF_DONE :: instance_flags where "RECONF_DONE \<equiv> 1024"
abbreviation FORCE_FAILOVER :: instance_flags where "FORCE_FAILOVER \<equiv> 2048"
abbreviation DISCONNECTED :: instance_flags where "DISCONNECTED \<equiv> 4096"

text \<open>The operations \<open>bitflags\<close> generates.\<close>

definition contains :: "instance_flags \<Rightarrow> instance_flags \<Rightarrow> bool" where
  "contains flags f \<longleftrightarrow> flags AND f = f"

definition intersects :: "instance_flags \<Rightarrow> instance_flags \<Rightarrow> bool" where
  "intersects flags f \<longleftrightarrow> flags AND f \<noteq> 0"

definition insert_flags :: "instance_flags \<Rightarrow> instance_flags \<Rightarrow> instance_flags" where
  "insert_flags flags f = flags OR f"

definition remove_flags :: "instance_flags \<Rightarrow> instance_flags \<Rightarrow> instance_flags" where
  "remove_flags flags f = flags AND NOT f"

datatype failover_state =
  NoFailover | WaitStart | SelectSlave | SendSlaveOf | WaitPromotion | ReconfSlaves | UpdateConfig

datatype role = MasterRole | SlaveRole | UnknownRole

datatype link_status = LinkOk | LinkErr

record 'a replica_state =
  rs_addr :: 'a
  rs_flags :: instance_flags
  rs_last_ok_ping :: nat
  rs_last_ping_sent :: nat
  rs_down_since :: "nat option"
  rs_info_refresh :: nat
  rs_master_link_down_time :: nat
  rs_master_link_status :: link_status
  rs_slave_priority :: int
  rs_slave_repl_offset :: nat
  rs_replica_announced :: bool
  rs_role_reported :: role
  rs_name :: bytes

record 'a sentinel_peer =
  sp_id :: sentinel_id
  sp_addr :: 'a
  sp_flags :: instance_flags
  sp_last_hello :: nat
  sp_last_ok_ping :: nat
  sp_down_since :: "nat option"
  sp_voted_leader :: "sentinel_id option"
  sp_voted_epoch :: nat
  sp_runid :: bytes

record 'a master_state =
  ms_name :: bytes
  ms_addr :: 'a
  ms_quorum :: nat
  ms_flags :: instance_flags
  ms_config_epoch :: nat
  ms_leader :: "sentinel_id option"
  ms_leader_epoch :: nat
  ms_replicas :: "('a \<times> 'a replica_state) list"
  ms_sentinels :: "(sentinel_id \<times> 'a sentinel_peer) list"
  ms_last_ping_sent :: nat
  ms_last_ok_ping :: nat
  ms_down_since :: "nat option"
  ms_failover_state :: failover_state
  ms_failover_epoch :: nat
  ms_selected_replica :: "'a option"
  ms_role_reported :: role
  ms_info_refresh :: nat
  ms_link_pending_commands :: nat
  ms_link_refcount :: nat
  ms_cached_info :: bytes

record 'a world_snapshot =
  ws_epoch :: nat
  ws_my_id :: sentinel_id
  ws_masters :: "bytes \<Rightarrow> 'a master_state option"
  ws_timestamp :: nat

text \<open>The load, update and store of the shared snapshot; the clock is read after the update.\<close>

definition update_world :: "'a world_snapshot \<Rightarrow> ('a world_snapshot \<Rightarrow> 'a world_snapshot) \<Rightarrow> nat \<Rightarrow> 'a world_snapshot" where
  "update_world world update clock = (let w = update world in w\<lparr>ws_timestamp := max (ws_timestamp w) clock\<rparr>)"

record tilt_state =
  ts_start_time :: nat
  ts_mode :: bool
  ts_previous_time :: nat

definition observe :: "tilt_state \<Rightarrow> nat \<Rightarrow> bool option \<times> tilt_state" where
  "observe t now =
     (let previous = ts_previous_time t; t1 = t\<lparr>ts_previous_time := now\<rparr> in
      if previous = 0 then (None, t1)
      else let delta = int now - int previous in
           if \<not> (0 \<le> delta \<and> delta \<le> 2000) then
             (if \<not> ts_mode t1 then (Some True, t1\<lparr>ts_mode := True, ts_start_time := now\<rparr>) else (None, t1))
           else if ts_mode t1 \<and> 30000 \<le> now - ts_start_time t1 then
             (Some False, t1\<lparr>ts_mode := False, ts_start_time := 0\<rparr>)
           else (None, t1))"

section \<open>Failure detection\<close>

definition detect_sdown :: "nat \<Rightarrow> nat \<Rightarrow> nat \<Rightarrow> bool \<Rightarrow> bool" where
  "detect_sdown now last_ok_ping down_after_ms tilt_mode \<longleftrightarrow> \<not> tilt_mode \<and> down_after_ms < now - last_ok_ping"

definition detect_odown :: "bool \<Rightarrow> nat \<Rightarrow> nat \<Rightarrow> bool" where
  "detect_odown self_sdown agreeing_sentinels quorum \<longleftrightarrow> self_sdown \<and> quorum \<le> agreeing_sentinels + 1"

record detection_changes =
  dc_sdown_changed :: "bool option"
  dc_odown_changed :: "bool option"

definition sweep_master :: "'a master_state \<Rightarrow> nat \<Rightarrow> nat \<Rightarrow> bool \<Rightarrow> detection_changes \<times> 'a master_state" where
  "sweep_master master now down_after_ms tilt_mode =
     (let sdown = detect_sdown now (ms_last_ok_ping master) down_after_ms tilt_mode;
          was_sdown = contains (ms_flags master) S_DOWN;
          m1 = (if sdown \<noteq> was_sdown then
                  (if sdown then master\<lparr>ms_flags := insert_flags (ms_flags master) S_DOWN, ms_down_since := Some now\<rparr>
                   else master\<lparr>ms_flags := remove_flags (ms_flags master) S_DOWN, ms_down_since := None\<rparr>)
                else master);
          agreeing = length (filter (\<lambda>(_, peer). contains (sp_flags peer) S_DOWN) (ms_sentinels m1));
          odown = detect_odown sdown agreeing (ms_quorum m1);
          was_odown = contains (ms_flags m1) O_DOWN;
          m2 = (if odown \<noteq> was_odown then
                  (if odown then m1\<lparr>ms_flags := insert_flags (ms_flags m1) O_DOWN\<rparr>
                   else m1\<lparr>ms_flags := remove_flags (ms_flags m1) O_DOWN\<rparr>)
                else m1)
      in (\<lparr>dc_sdown_changed = (if sdown \<noteq> was_sdown then Some sdown else None),
           dc_odown_changed = (if odown \<noteq> was_odown then Some odown else None)\<rparr>, m2))"

section \<open>Elections\<close>

record election_state =
  es_epoch :: nat
  es_votes_received :: "(sentinel_id \<times> nat) list"
  es_vote_granted_to :: "(sentinel_id \<times> nat) option"
  es_election_start :: nat

definition election_default :: election_state where
  "election_default = \<lparr>es_epoch = 0, es_votes_received = [], es_vote_granted_to = None, es_election_start = 0\<rparr>"

type_synonym election_book = "bytes \<Rightarrow> election_state option"

definition book_state :: "election_book \<Rightarrow> bytes \<Rightarrow> election_state" where
  "book_state book master_name = (case book master_name of None \<Rightarrow> election_default | Some s \<Rightarrow> s)"

definition start_election ::
    "election_book \<Rightarrow> 'a world_snapshot \<Rightarrow> bytes \<Rightarrow> sentinel_id \<Rightarrow> nat \<Rightarrow> nat \<Rightarrow> nat \<times> election_book \<times> 'a world_snapshot" where
  "start_election book world master_name my_id now clock =
     (let w = update_world world (\<lambda>snapshot.
             let epoch = wrap64 (ws_epoch snapshot + 1)
             in snapshot\<lparr>ws_epoch := epoch,
                  ws_masters := (case ws_masters snapshot master_name of
                     None \<Rightarrow> ws_masters snapshot
                   | Some master \<Rightarrow> (ws_masters snapshot)(master_name \<mapsto>
                       master\<lparr>ms_leader := Some my_id, ms_leader_epoch := epoch, ms_failover_epoch := epoch\<rparr>)),
                  ws_timestamp := now\<rparr>) clock;
          epoch = ws_epoch w;
          state = (book_state book master_name)\<lparr>es_epoch := epoch, es_election_start := now,
                     es_votes_received := [(my_id, epoch)], es_vote_granted_to := Some (my_id, epoch)\<rparr>
      in (epoch, book(master_name \<mapsto> state), w))"

definition process_vote_request ::
    "election_book \<Rightarrow> bytes \<Rightarrow> sentinel_id \<Rightarrow> nat \<Rightarrow> (sentinel_id option \<times> nat) \<times> election_book" where
  "process_vote_request book master_name candidate epoch =
     (let s0 = book_state book master_name;
          s1 = (if es_epoch s0 < epoch then s0\<lparr>es_epoch := epoch, es_vote_granted_to := None\<rparr> else s0);
          s2 = (if es_vote_granted_to s1 = None \<and> es_epoch s1 \<le> epoch
                then s1\<lparr>es_vote_granted_to := Some (candidate, epoch)\<rparr> else s1)
      in ((map_option fst (es_vote_granted_to s2), case es_vote_granted_to s2 of None \<Rightarrow> epoch | Some vote \<Rightarrow> snd vote),
          book(master_name \<mapsto> s2)))"

definition process_vote_reply ::
    "election_book \<Rightarrow> bytes \<Rightarrow> sentinel_id \<Rightarrow> sentinel_id \<Rightarrow> nat \<Rightarrow> election_book" where
  "process_vote_reply book master_name from' leader epoch =
     (let s0 = book_state book master_name;
          s1 = (if es_epoch s0 < epoch then s0\<lparr>es_epoch := epoch\<rparr> else s0);
          s2 = (if leader = from' \<or> leader = [] then s1\<lparr>es_votes_received := AList.update from' epoch (es_votes_received s1)\<rparr>
                else if leader = from' then s1\<lparr>es_votes_received := AList.update leader epoch (es_votes_received s1)\<rparr>
                else s1)
      in book(master_name \<mapsto> s2))"

definition grant_vote :: "election_book \<Rightarrow> bytes \<Rightarrow> sentinel_id \<Rightarrow> nat \<Rightarrow> election_book" where
  "grant_vote book master_name voter epoch =
     (let s = book_state book master_name
      in book(master_name \<mapsto> s\<lparr>es_votes_received := AList.update voter epoch (es_votes_received s)\<rparr>))"

definition count_votes :: "election_book \<Rightarrow> bytes \<Rightarrow> nat \<Rightarrow> sentinel_id option" where
  "count_votes book master_name quorum =
     (case book master_name of
        None \<Rightarrow> None
      | Some s \<Rightarrow>
          (if quorum \<le> length (filter (\<lambda>(_, epoch). epoch = es_epoch s) (es_votes_received s))
           then map_option fst (es_vote_granted_to s) else None))"

definition is_leader :: "'a world_snapshot \<Rightarrow> bytes \<Rightarrow> sentinel_id \<Rightarrow> bool" where
  "is_leader world master_name my_id =
     (case ws_masters world master_name of None \<Rightarrow> False | Some master \<Rightarrow> ms_leader master = Some my_id)"

definition election_timed_out :: "election_book \<Rightarrow> bytes \<Rightarrow> nat \<Rightarrow> nat \<Rightarrow> bool" where
  "election_timed_out book master_name now timeout_ms =
     (case book master_name of None \<Rightarrow> False | Some s \<Rightarrow> timeout_ms < now - es_election_start s)"

section \<open>Failover\<close>

record 'a failover_transition =
  ft_emitted :: "string list"
  ft_switched_master :: "('a \<times> 'a) option"
  ft_aborted :: bool

definition begin_failover :: "'a master_state \<Rightarrow> nat \<Rightarrow> 'a master_state" where
  "begin_failover master epoch =
     master\<lparr>ms_failover_state := WaitStart, ms_failover_epoch := epoch,
            ms_flags := insert_flags (ms_flags master) FAILOVER_IN_PROGRESS\<rparr>"

datatype ordering = Less | Equal | Greater

definition cmp :: "'b::linorder \<Rightarrow> 'b \<Rightarrow> ordering" where
  "cmp x y = (if x < y then Less else if x = y then Equal else Greater)"

definition then_with :: "ordering \<Rightarrow> ordering \<Rightarrow> ordering" where
  "then_with a b = (if a = Equal then b else a)"

definition compare_replicas :: "'a replica_state \<Rightarrow> 'a replica_state \<Rightarrow> ordering" where
  "compare_replicas left right =
     then_with (then_with (cmp (rs_slave_priority left) (rs_slave_priority right))
                          (cmp (rs_slave_repl_offset right) (rs_slave_repl_offset left)))
               (cmp (rs_name left) (rs_name right))"

text \<open>\<open>sort_by\<close> is a stable sort.\<close>

fun insert_by :: "('b \<Rightarrow> 'b \<Rightarrow> ordering) \<Rightarrow> 'b \<Rightarrow> 'b list \<Rightarrow> 'b list" where
  "insert_by c x [] = [x]"
| "insert_by c x (y # ys) = (if c x y = Greater then y # insert_by c x ys else x # y # ys)"

definition sort_by :: "('b \<Rightarrow> 'b \<Rightarrow> ordering) \<Rightarrow> 'b list \<Rightarrow> 'b list" where
  "sort_by c xs = foldr (insert_by c) xs []"

definition replica_usable :: "nat \<Rightarrow> nat \<Rightarrow> nat \<Rightarrow> 'a replica_state \<Rightarrow> bool" where
  "replica_usable now down_after_ms odown_time replica \<longleftrightarrow>
     \<not> intersects (rs_flags replica) (S_DOWN OR O_DOWN OR DISCONNECTED) \<and>
     0 < rs_slave_priority replica \<and>
     now - rs_last_ok_ping replica \<le> wrap64 (5 * down_after_ms) \<and>
     rs_master_link_down_time replica \<le> wrap64 (now - odown_time + wrap64 (10 * down_after_ms))"

definition select_best_replica :: "'a master_state \<Rightarrow> nat \<Rightarrow> nat \<Rightarrow> nat \<Rightarrow> 'a option" where
  "select_best_replica master now down_after_ms odown_time =
     (case sort_by compare_replicas (filter (replica_usable now down_after_ms odown_time) (map snd (ms_replicas master))) of
        [] \<Rightarrow> None
      | replica # _ \<Rightarrow> Some (rs_addr replica))"

text \<open>The loop over the replicas other than the selected one: the events, the number of syncs in flight
  and of those done.\<close>

fun reconf_slaves ::
    "'a option \<Rightarrow> nat \<Rightarrow> nat \<Rightarrow> ('a \<times> 'a replica_state) list \<Rightarrow> string list \<times> nat \<times> ('a \<times> 'a replica_state) list" where
  "reconf_slaves selected parallel_syncs in_flight [] = ([], 0, [])"
| "reconf_slaves selected parallel_syncs in_flight ((k, r) # rest) =
     (let (ev, d, fl, r') =
        (if Some (rs_addr r) = selected then ([], 0, in_flight, r)
         else if contains (rs_flags r) RECONF_DONE then ([], 1, in_flight, r)
         else if rs_master_link_status r = LinkOk then
           ([''+slave-reconf-done''], 1, in_flight,
            r\<lparr>rs_flags := insert_flags (remove_flags (rs_flags r) (RECONF_SENT OR RECONF_INPROG)) RECONF_DONE\<rparr>)
         else if contains (rs_flags r) RECONF_SENT then
           ([''+slave-reconf-inprog''], 0, in_flight + 1,
            r\<lparr>rs_flags := insert_flags (remove_flags (rs_flags r) RECONF_SENT) RECONF_INPROG\<rparr>)
         else if in_flight < parallel_syncs then
           ([''+slave-reconf-sent''], 0, in_flight + 1, r\<lparr>rs_flags := insert_flags (rs_flags r) RECONF_SENT\<rparr>)
         else ([], 0, in_flight, r));
          (evs, done, rest') = reconf_slaves selected parallel_syncs fl rest
      in (ev @ evs, d + done, (k, r') # rest'))"

definition abort_failover :: "'a master_state \<Rightarrow> 'a failover_transition \<times> 'a master_state" where
  "abort_failover master =
     (\<lparr>ft_emitted = [''-failover-abort''], ft_switched_master = None, ft_aborted = True\<rparr>,
      master\<lparr>ms_failover_state := NoFailover, ms_flags := remove_flags (ms_flags master) FAILOVER_IN_PROGRESS\<rparr>)"

definition emits :: "string list \<Rightarrow> 'a failover_transition" where
  "emits evs = \<lparr>ft_emitted = evs, ft_switched_master = None, ft_aborted = False\<rparr>"

definition advance_failover ::
    "'a master_state \<Rightarrow> nat \<Rightarrow> nat \<Rightarrow> nat \<Rightarrow> nat \<Rightarrow> bool \<Rightarrow> 'a failover_transition \<times> 'a master_state" where
  "advance_failover master now down_after_ms failover_timeout parallel_syncs elected_leader =
     (if failover_timeout < now - ms_failover_epoch master then abort_failover master
      else case ms_failover_state master of
        NoFailover \<Rightarrow> (emits [], master)
      | WaitStart \<Rightarrow>
          (if elected_leader then (emits [''+failover-state-select-slave''], master\<lparr>ms_failover_state := SelectSlave\<rparr>)
           else (emits [], master))
      | SelectSlave \<Rightarrow>
          (case select_best_replica master now down_after_ms (case ms_down_since master of None \<Rightarrow> now | Some t \<Rightarrow> t) of
             Some addr \<Rightarrow> (emits [''+selected-slave'', ''+failover-state-send-slaveof-noone''],
                           master\<lparr>ms_selected_replica := Some addr, ms_failover_state := SendSlaveOf\<rparr>)
           | None \<Rightarrow> abort_failover master)
      | SendSlaveOf \<Rightarrow> (emits [''+failover-state-wait-promotion''], master\<lparr>ms_failover_state := WaitPromotion\<rparr>)
      | WaitPromotion \<Rightarrow>
          (if (case ms_selected_replica master of None \<Rightarrow> False
               | Some addr \<Rightarrow> (case map_of (ms_replicas master) addr of None \<Rightarrow> False
                                | Some replica \<Rightarrow> rs_role_reported replica = MasterRole))
           then (emits [''+promoted-slave'', ''+failover-state-reconf-slaves''], master\<lparr>ms_failover_state := ReconfSlaves\<rparr>)
           else (emits [], master))
      | ReconfSlaves \<Rightarrow>
          (let selected = ms_selected_replica master;
               total = length (filter (\<lambda>(_, r). Some (rs_addr r) \<noteq> selected) (ms_replicas master));
               (evs, done, replicas) = reconf_slaves selected parallel_syncs 0 (ms_replicas master);
               m1 = master\<lparr>ms_replicas := replicas\<rparr>
           in (emits evs, if total \<le> done then m1\<lparr>ms_failover_state := UpdateConfig\<rparr> else m1))
      | UpdateConfig \<Rightarrow>
          (case ms_selected_replica master of
             None \<Rightarrow> (emits [], master)
           | Some selected \<Rightarrow>
               ((emits [''+switch-master'', ''+failover-end''])\<lparr>ft_switched_master := Some (ms_addr master, selected)\<rparr>,
                master\<lparr>ms_addr := selected, ms_config_epoch := wrap64 (ms_config_epoch master + 1),
                  ms_failover_state := NoFailover,
                  ms_flags := remove_flags (remove_flags (ms_flags master) FAILOVER_IN_PROGRESS) (O_DOWN OR S_DOWN)\<rparr>)))"

text \<open>The command that forces a failover, and one round of the driver for one master
  (senko-sentinel/src/commands.rs). \<open>clock1\<close> and \<open>clock2\<close> are the readings of \<open>update_world\<close>.\<close>

definition force_failover ::
    "election_book \<Rightarrow> 'a world_snapshot \<Rightarrow> bytes \<Rightarrow> sentinel_id \<Rightarrow> nat \<Rightarrow> nat \<Rightarrow> nat \<Rightarrow> election_book \<times> 'a world_snapshot" where
  "force_failover book world key my_id now clock1 clock2 =
     (let (epoch, book', w1) = start_election book world key my_id now clock1;
          w2 = update_world w1 (\<lambda>snapshot.
             case ws_masters snapshot key of
               None \<Rightarrow> snapshot
             | Some master \<Rightarrow>
                 (if contains (ms_flags master) FAILOVER_IN_PROGRESS then snapshot
                  else snapshot\<lparr>ws_masters := (ws_masters snapshot)(key \<mapsto>
                         begin_failover (master\<lparr>ms_flags := insert_flags (ms_flags master) FORCE_FAILOVER\<rparr>) epoch)\<rparr>)) clock2
      in (book', w2))"

definition drive_failover ::
    "'a world_snapshot \<Rightarrow> bytes \<Rightarrow> sentinel_id \<Rightarrow> nat \<Rightarrow> nat \<Rightarrow> nat \<Rightarrow> nat \<Rightarrow> nat \<Rightarrow> string list \<times> 'a world_snapshot" where
  "drive_failover world name my_id now down_after_ms failover_timeout parallel_syncs clock =
     (let leader = is_leader world name my_id in
      case ws_masters world name of
        None \<Rightarrow> ([], update_world world (\<lambda>snapshot. snapshot) clock)
      | Some master \<Rightarrow>
          (let (transition, master') = advance_failover master now down_after_ms failover_timeout parallel_syncs leader
           in (ft_emitted transition,
               update_world world (\<lambda>snapshot. snapshot\<lparr>ws_masters := (ws_masters snapshot)(name \<mapsto> master')\<rparr>) clock)))"

section \<open>Votes\<close>

datatype vote_op = VRequest sentinel_id nat | VReply sentinel_id sentinel_id nat | VGrant sentinel_id nat

text \<open>The replies to the requests among a sequence of messages about one master.\<close>

fun vote_replies :: "election_book \<Rightarrow> bytes \<Rightarrow> vote_op list \<Rightarrow> (sentinel_id option \<times> nat) list" where
  "vote_replies book name [] = []"
| "vote_replies book name (VRequest candidate epoch # ops) =
     (let (reply, book') = process_vote_request book name candidate epoch in reply # vote_replies book' name ops)"
| "vote_replies book name (VReply voter leader epoch # ops) =
     vote_replies (process_vote_reply book name voter leader epoch) name ops"
| "vote_replies book name (VGrant voter epoch # ops) = vote_replies (grant_vote book name voter epoch) name ops"

text \<open>A vote belongs to an epoch that was reached.\<close>

definition vote_inv :: "election_state \<Rightarrow> bool" where
  "vote_inv s \<longleftrightarrow> (case es_vote_granted_to s of None \<Rightarrow> True | Some (c, e) \<Rightarrow> e \<le> es_epoch s)"

text \<open>What a state allows a later reply to say.\<close>

definition vote_allowed :: "election_state \<Rightarrow> sentinel_id \<Rightarrow> nat \<Rightarrow> bool" where
  "vote_allowed s c e \<longleftrightarrow>
     (case es_vote_granted_to s of None \<Rightarrow> es_epoch s \<le> e | Some vote \<Rightarrow> vote = (c, e) \<or> es_epoch s < e)"

lemma book_state_upd [simp]: "book_state (book(name \<mapsto> s)) name = s"
  by (simp add: book_state_def)

lemma request_spec:
  fixes candidate :: sentinel_id and epoch :: nat
  assumes "vote_inv (book_state book name)"
  defines "r \<equiv> process_vote_request book name candidate epoch"
  shows "vote_inv (book_state (snd r) name)"
    and "vote_allowed (book_state (snd r) name) c e \<Longrightarrow> vote_allowed (book_state book name) c e"
    and "fst (fst r) = Some v \<Longrightarrow> es_vote_granted_to (book_state (snd r) name) = Some (v, snd (fst r))"
  using assms(1) unfolding r_def
  by (auto simp: process_vote_request_def vote_inv_def vote_allowed_def Let_def split: option.splits if_splits)

lemma reply_spec:
  assumes "vote_inv (book_state book name)"
  shows "vote_inv (book_state (process_vote_reply book name voter leader epoch) name)"
    and "vote_allowed (book_state (process_vote_reply book name voter leader epoch) name) c e \<Longrightarrow> vote_allowed (book_state book name) c e"
  using assms
  by (auto simp: process_vote_reply_def vote_inv_def vote_allowed_def Let_def split: option.splits if_splits)

lemma grant_spec:
  "vote_inv (book_state (grant_vote book name voter epoch) name) = vote_inv (book_state book name)"
  "vote_allowed (book_state (grant_vote book name voter epoch) name) c e = vote_allowed (book_state book name) c e"
  by (auto simp: grant_vote_def vote_inv_def vote_allowed_def Let_def split: option.splits)

lemma vote_replies_spec:
  assumes "vote_inv (book_state book name)"
  shows "(Some c, e) \<in> set (vote_replies book name ops) \<Longrightarrow> vote_allowed (book_state book name) c e"
    and "(Some c, e) \<in> set (vote_replies book name ops) \<Longrightarrow> (Some c', e) \<in> set (vote_replies book name ops) \<Longrightarrow> c = c'"
proof -
  have "(\<forall>c e. (Some c, e) \<in> set (vote_replies book name ops) \<longrightarrow> vote_allowed (book_state book name) c e) \<and>
        (\<forall>c c' e. (Some c, e) \<in> set (vote_replies book name ops) \<longrightarrow> (Some c', e) \<in> set (vote_replies book name ops) \<longrightarrow> c = c')"
    using assms
  proof (induction book name ops rule: vote_replies.induct)
    case (2 book name candidate epoch ops)
    obtain v ep book' where r: "process_vote_request book name candidate epoch = ((v, ep), book')"
      by (metis surj_pair)
    note rs = request_spec [OF 2(2), of candidate epoch, unfolded r, simplified]
    note IH = 2(1) [OF r [symmetric] refl rs(1)]
    have new: "vote_allowed (book_state book' name) c e \<and> (e = ep \<longrightarrow> v = Some c)"
      if "v = Some x" "(Some c, e) \<in> insert (v, ep) (set (vote_replies book' name ops))" for x c e
    proof -
      have st: "es_vote_granted_to (book_state book' name) = Some (x, ep)" using rs(3) that(1) by simp
      then have "ep \<le> es_epoch (book_state book' name)" using rs(1) by (simp add: vote_inv_def)
      then show ?thesis using that IH st by (auto simp: vote_allowed_def) (metis leD)
    qed
    show ?case
    proof (cases v)
      case None
      then show ?thesis using IH rs(2) r by (simp add: Let_def)
    next
      case (Some x)
      then show ?thesis using IH rs(2) r new [OF Some] by (auto simp: Let_def) (metis option.inject)+
    qed
  next
    case (3 book name voter leader epoch ops)
    note IH = 3(1) [OF reply_spec(1) [OF 3(2)]]
    show ?case using IH reply_spec(2) [OF 3(2), of voter leader epoch] unfolding vote_replies.simps by blast
  next
    case (4 book name voter epoch ops)
    then show ?case using grant_spec by simp
  qed simp
  then show "(Some c, e) \<in> set (vote_replies book name ops) \<Longrightarrow> vote_allowed (book_state book name) c e"
    and "(Some c, e) \<in> set (vote_replies book name ops) \<Longrightarrow> (Some c', e) \<in> set (vote_replies book name ops) \<Longrightarrow> c = c'" by blast+
qed

section \<open>Selection of a replica\<close>

text \<open>The order in which replicas are preferred: lower priority, then higher offset, then smaller name.\<close>

definition replica_rank :: "'a replica_state \<Rightarrow> int \<times> int \<times> bytes" where
  "replica_rank r = (rs_slave_priority r, - int (rs_slave_repl_offset r), rs_name r)"

lemma compare_replicas_rank: "compare_replicas l r = Greater \<longleftrightarrow> replica_rank r < replica_rank l"
  by (auto simp: compare_replicas_def then_with_def cmp_def replica_rank_def less_prod_def' split: if_splits)

lemma set_insert_by [simp]: "set (insert_by c x xs) = insert x (set xs)"
  by (induction xs) auto

lemma sort_by_spec:
  "set (sort_by compare_replicas xs) = set xs \<and> sorted_wrt (\<lambda>a b. replica_rank a \<le> replica_rank b) (sort_by compare_replicas xs)"
proof (induction xs)
  case (Cons x xs)
  have ins: "sorted_wrt (\<lambda>a b. replica_rank a \<le> replica_rank b) ys \<Longrightarrow>
      sorted_wrt (\<lambda>a b. replica_rank a \<le> replica_rank b) (insert_by compare_replicas x ys)" for ys
    by (induction ys) (auto simp: compare_replicas_rank dest: order.trans)
  then show ?case using Cons by (simp add: sort_by_def)
qed (simp add: sort_by_def)

lemma sort_by_head:
  "sort_by compare_replicas xs = [] \<longleftrightarrow> xs = []"
  "sort_by compare_replicas xs = r # rs \<Longrightarrow> r \<in> set xs \<and> (\<forall>r' \<in> set xs. replica_rank r \<le> replica_rank r')"
  using sort_by_spec [of xs] by (metis set_empty, auto)

definition usable_replicas :: "'a master_state \<Rightarrow> nat \<Rightarrow> nat \<Rightarrow> nat \<Rightarrow> 'a replica_state list" where
  "usable_replicas master now down_after_ms odown_time =
     filter (replica_usable now down_after_ms odown_time) (map snd (ms_replicas master))"

lemma select_best_spec:
  "select_best_replica m now down odown = None \<longleftrightarrow> usable_replicas m now down odown = []"
  "select_best_replica m now down odown = Some a \<Longrightarrow>
     \<exists>r \<in> set (usable_replicas m now down odown). rs_addr r = a \<and>
       (\<forall>r' \<in> set (usable_replicas m now down odown). replica_rank r \<le> replica_rank r')"
proof -
  let ?s = "sort_by compare_replicas (usable_replicas m now down odown)"
  have s: "select_best_replica m now down odown = (case ?s of [] \<Rightarrow> None | r # _ \<Rightarrow> Some (rs_addr r))"
    by (simp add: select_best_replica_def usable_replicas_def)
  show "select_best_replica m now down odown = None \<longleftrightarrow> usable_replicas m now down odown = []"
    unfolding s by (cases ?s) (use sort_by_head(1) [of "usable_replicas m now down odown"] in auto)
  show "select_best_replica m now down odown = Some a \<Longrightarrow> \<exists>r \<in> set (usable_replicas m now down odown). rs_addr r = a \<and>
       (\<forall>r' \<in> set (usable_replicas m now down odown). replica_rank r \<le> replica_rank r')"
    unfolding s using sort_by_head(2) by (fastforce split: list.splits)
qed

section \<open>Detection\<close>

lemma and_exp_bit: "(f :: instance_flags) AND 2 ^ n = 2 ^ n \<longleftrightarrow> bit f n" if "n < 32"
proof
  assume "f AND 2 ^ n = 2 ^ n"
  then have "bit (f AND 2 ^ n) n" using that by (simp add: bit_simps)
  then show "bit f n" by (simp add: bit_simps)
next
  assume "bit f n"
  then show "f AND 2 ^ n = 2 ^ n" by (intro bit_word_eqI) (auto simp: bit_simps)
qed

lemma single_flag: "contains f S_DOWN \<longleftrightarrow> bit f 3" "contains f O_DOWN \<longleftrightarrow> bit f 4" "contains f FAILOVER_IN_PROGRESS \<longleftrightarrow> bit f 6"
  using and_exp_bit [of 3 f] and_exp_bit [of 4 f] and_exp_bit [of 6 f] by (simp_all add: contains_def)

lemma flag_bit:
  assumes "k < 32"
  shows "bit (insert_flags f (2 ^ k)) n \<longleftrightarrow> bit f n \<or> n = k" and "bit (remove_flags f (2 ^ k)) n \<longleftrightarrow> bit f n \<and> n \<noteq> k"
  using assms
  by (auto simp: insert_flags_def remove_flags_def bit_or_iff bit_and_iff bit_not_iff bit_exp_iff possible_bit_word dest: bit_imp_le_length)

text \<open>A flag follows a condition.\<close>

definition follow_flag :: "instance_flags \<Rightarrow> instance_flags \<Rightarrow> bool \<Rightarrow> instance_flags" where
  "follow_flag f flag b =
     (if b \<noteq> contains f flag then (if b then insert_flags f flag else remove_flags f flag) else f)"

lemma follow_flag_bit: "k < 32 \<Longrightarrow> bit (follow_flag f (2 ^ k) b) n = (if n = k then b else bit f n)"
  using and_exp_bit [of k f] flag_bit [of k f n] by (auto simp: follow_flag_def contains_def)

lemma follow_flag_bits:
  "bit (follow_flag f S_DOWN b) n = (if n = 3 then b else bit f n)" "bit (follow_flag f O_DOWN b) n = (if n = 4 then b else bit f n)"
  using follow_flag_bit [of 3 f b n] follow_flag_bit [of 4 f b n] by simp_all

lemma sweep_spec:
  fixes m :: "'a master_state" and now down :: nat and tilt :: bool
  defines "sdown \<equiv> detect_sdown now (ms_last_ok_ping m) down tilt"
  defines "odown \<equiv> detect_odown sdown (length (filter (\<lambda>(_, p). contains (sp_flags p) S_DOWN) (ms_sentinels m))) (ms_quorum m)"
  shows "ms_flags (snd (sweep_master m now down tilt)) = follow_flag (follow_flag (ms_flags m) S_DOWN sdown) O_DOWN odown"
    and "dc_sdown_changed (fst (sweep_master m now down tilt)) = (if contains (ms_flags m) S_DOWN = sdown then None else Some sdown)"
    and "dc_odown_changed (fst (sweep_master m now down tilt)) = (if contains (ms_flags m) O_DOWN = odown then None else Some odown)"
proof -
  define m1 where "m1 = (if sdown \<noteq> contains (ms_flags m) S_DOWN then
      (if sdown then m\<lparr>ms_flags := insert_flags (ms_flags m) S_DOWN, ms_down_since := Some now\<rparr>
       else m\<lparr>ms_flags := remove_flags (ms_flags m) S_DOWN, ms_down_since := None\<rparr>) else m)"
  have f1: "ms_flags m1 = follow_flag (ms_flags m) S_DOWN sdown" "ms_sentinels m1 = ms_sentinels m" "ms_quorum m1 = ms_quorum m"
    by (simp_all add: m1_def follow_flag_def)
  have c: "contains (ms_flags m1) O_DOWN = contains (ms_flags m) O_DOWN"
    unfolding f1(1) single_flag by (simp add: follow_flag_bits)
  have sw: "sweep_master m now down tilt =
      (\<lparr>dc_sdown_changed = (if sdown \<noteq> contains (ms_flags m) S_DOWN then Some sdown else None),
        dc_odown_changed = (if odown \<noteq> contains (ms_flags m1) O_DOWN then Some odown else None)\<rparr>,
       if odown \<noteq> contains (ms_flags m1) O_DOWN then
         (if odown then m1\<lparr>ms_flags := insert_flags (ms_flags m1) O_DOWN\<rparr> else m1\<lparr>ms_flags := remove_flags (ms_flags m1) O_DOWN\<rparr>)
       else m1)"
    unfolding sweep_master_def Let_def sdown_def [symmetric] m1_def [symmetric] f1(2,3) odown_def [symmetric] by simp
  show "ms_flags (snd (sweep_master m now down tilt)) = follow_flag (follow_flag (ms_flags m) S_DOWN sdown) O_DOWN odown"
    unfolding sw f1(1) [symmetric] by (simp add: follow_flag_def)
  show "dc_sdown_changed (fst (sweep_master m now down tilt)) = (if contains (ms_flags m) S_DOWN = sdown then None else Some sdown)"
    and "dc_odown_changed (fst (sweep_master m now down tilt)) = (if contains (ms_flags m) O_DOWN = odown then None else Some odown)"
    unfolding sw c by auto
qed

definition subjectively_down :: "'a master_state \<Rightarrow> nat \<Rightarrow> nat \<Rightarrow> bool \<Rightarrow> bool" where
  "subjectively_down m now down tilt \<longleftrightarrow> \<not> tilt \<and> down < now - ms_last_ok_ping m"

definition objectively_down :: "'a master_state \<Rightarrow> nat \<Rightarrow> nat \<Rightarrow> bool \<Rightarrow> bool" where
  "objectively_down m now down tilt \<longleftrightarrow>
     subjectively_down m now down tilt \<and>
     ms_quorum m \<le> 1 + card {i. i < length (ms_sentinels m) \<and> contains (sp_flags (snd (ms_sentinels m ! i))) S_DOWN}"

lemma down_detected:
  "detect_sdown now (ms_last_ok_ping m) down tilt = subjectively_down m now down tilt"
  "detect_odown (subjectively_down m now down tilt)
     (length (filter (\<lambda>(_, p). contains (sp_flags p) S_DOWN) (ms_sentinels m))) (ms_quorum m) = objectively_down m now down tilt"
  by (auto simp: subjectively_down_def objectively_down_def detect_sdown_def detect_odown_def length_filter_conv_card split_beta)

lemma sweep_since:
  "\<exists>f. snd (sweep_master m now down tilt) =
     m\<lparr>ms_flags := f,
       ms_down_since :=
         (if contains (ms_flags m) S_DOWN = detect_sdown now (ms_last_ok_ping m) down tilt then ms_down_since m
          else if detect_sdown now (ms_last_ok_ping m) down tilt then Some now else None)\<rparr>"
proof -
  define sdown where "sdown = detect_sdown now (ms_last_ok_ping m) down tilt"
  define m1 where "m1 = (if sdown \<noteq> contains (ms_flags m) S_DOWN then
      (if sdown then m\<lparr>ms_flags := insert_flags (ms_flags m) S_DOWN, ms_down_since := Some now\<rparr>
       else m\<lparr>ms_flags := remove_flags (ms_flags m) S_DOWN, ms_down_since := None\<rparr>) else m)"
  have "\<exists>f. snd (sweep_master m now down tilt) = m1\<lparr>ms_flags := f\<rparr>"
    unfolding sweep_master_def Let_def sdown_def [symmetric] m1_def [symmetric]
    by (auto intro: exI [of _ "ms_flags m1"] split: if_splits)
  then obtain f where "snd (sweep_master m now down tilt) = m1\<lparr>ms_flags := f\<rparr>" ..
  then show ?thesis unfolding sdown_def [symmetric] by (intro exI [of _ f]) (auto simp: m1_def)
qed

section \<open>A failover from its start\<close>

lemma forced_master:
  assumes "ws_masters world key = Some m" and "\<not> contains (ms_flags m) FAILOVER_IN_PROGRESS"
  defines "e \<equiv> wrap64 (ws_epoch world + 1)"
  shows "\<exists>m'. ws_masters (snd (force_failover book world key my_id now c1 c2)) key = Some m' \<and>
           ms_failover_state m' = WaitStart \<and> ms_failover_epoch m' = e \<and> ms_leader m' = Some my_id"
  using assms(1,2)
  by (auto simp: force_failover_def start_election_def update_world_def begin_failover_def Let_def e_def)

text \<open>An election of its own makes a sentinel vote again in an epoch in which it has voted: a request does
  not raise the epoch of the world, from which the election takes the next one.\<close>

lemma own_election_votes_again:
  assumes "ws_epoch world + 1 = e" and "e \<le> u64_max" and "book name = None"
  shows "let (reply, book1) = process_vote_request book name c e;
             (epoch, book2, _) = start_election book1 world name my_id now clock
         in reply = (Some c, e) \<and> epoch = e \<and> es_vote_granted_to (book_state book2 name) = Some (my_id, e)"
  using assms
  by (auto simp: process_vote_request_def start_election_def update_world_def book_state_def election_default_def
      Let_def wrap64_def)

section \<open>Properties of the sentinel\<close>

text \<open>C37. A sentinel votes for at most one candidate per epoch: however requests, replies and grants for a
  master arrive, two replies that name the same epoch name the same candidate.\<close>

theorem one_vote_per_epoch:
  assumes "book name = None"
    and "(Some c, e) \<in> set (vote_replies book name ops)" and "(Some c', e) \<in> set (vote_replies book name ops)"
  shows "c = c'"
proof -
  have "vote_inv (book_state book name)" using assms(1) by (simp add: vote_inv_def book_state_def election_default_def)
  from vote_replies_spec(2) [OF this assms(2,3)] show ?thesis .
qed

theorem one_vote_per_epoch_witness:
  "(Some [1], 5) \<in> set (vote_replies Map.empty [9] [VRequest [1] 5, VRequest [2] 5, VRequest [2] 4]) \<and>
   (Some [2], 5) \<notin> set (vote_replies Map.empty [9] [VRequest [1] 5, VRequest [2] 5, VRequest [2] 4])"
proof -
  let ?ops = "[VRequest [1] 5, VRequest [2] 5, VRequest [2] 4]"
  have first: "(Some [1], 5) \<in> set (vote_replies Map.empty [9] ?ops)"
    by (simp add: process_vote_request_def book_state_def election_default_def Let_def)
  moreover have "(Some [2], 5) \<notin> set (vote_replies Map.empty [9] ?ops)"
  proof
    assume "(Some [2], 5) \<in> set (vote_replies Map.empty [9] ?ops)"
    from one_vote_per_epoch [OF _ first this] show False by simp
  qed
  ultimately show ?thesis by (rule conjI)
qed

text \<open>C38. The replica selected for promotion is a usable one, with the lowest priority number among the
  usable ones, among those with the largest replication offset, and among those with the smallest name;
  none is selected only if none is usable.\<close>

theorem select_best_replica_optimal:
  "case select_best_replica m now down odown of
     None \<Rightarrow> usable_replicas m now down odown = []
   | Some a \<Rightarrow> (\<exists>r \<in> set (usable_replicas m now down odown). rs_addr r = a \<and>
                 list_all (\<lambda>r'. replica_rank r \<le> replica_rank r') (usable_replicas m now down odown))"
  using select_best_spec(1) [of m now down odown] select_best_spec(2) [of m now down odown]
  by (auto simp: list_all_iff split: option.splits)

text \<open>C39. A sweep over a master leaves the subjective flag set exactly when the last good ping is too long ago
  and the clock is trusted, the objective flag exactly when also a quorum of sentinels including this one
  agrees, changes no other flag, and reports for each of the two the new value if it changed and nothing
  otherwise. The time of the failure is recorded and erased with the subjective flag; the rest of the state stays.\<close>

theorem sweep_master_exact:
  "(\<forall>n. bit (ms_flags (snd (sweep_master m now down tilt))) n =
      (if n = 3 then subjectively_down m now down tilt else if n = 4 then objectively_down m now down tilt
       else bit (ms_flags m) n)) \<and>
   fst (sweep_master m now down tilt) =
     \<lparr>dc_sdown_changed =
        (if bit (ms_flags m) 3 = subjectively_down m now down tilt then None else Some (subjectively_down m now down tilt)),
      dc_odown_changed =
        (if bit (ms_flags m) 4 = objectively_down m now down tilt then None else Some (objectively_down m now down tilt))\<rparr> \<and>
   snd (sweep_master m now down tilt) =
     m\<lparr>ms_flags := ms_flags (snd (sweep_master m now down tilt)),
       ms_down_since :=
         (if bit (ms_flags m) 3 = subjectively_down m now down tilt then ms_down_since m
          else if subjectively_down m now down tilt then Some now else None)\<rparr>"
proof (intro conjI)
  obtain f where "snd (sweep_master m now down tilt) = m\<lparr>ms_flags := f, ms_down_since :=
      (if bit (ms_flags m) 3 = subjectively_down m now down tilt then ms_down_since m
       else if subjectively_down m now down tilt then Some now else None)\<rparr>"
    using sweep_since [of m now down tilt] unfolding down_detected single_flag by blast
  then show "snd (sweep_master m now down tilt) =
     m\<lparr>ms_flags := ms_flags (snd (sweep_master m now down tilt)),
       ms_down_since :=
         (if bit (ms_flags m) 3 = subjectively_down m now down tilt then ms_down_since m
          else if subjectively_down m now down tilt then Some now else None)\<rparr>" by simp
next
  note s = sweep_spec [of m now down tilt, unfolded down_detected]
  show "\<forall>n. bit (ms_flags (snd (sweep_master m now down tilt))) n =
      (if n = 3 then subjectively_down m now down tilt else if n = 4 then objectively_down m now down tilt
       else bit (ms_flags m) n)"
    unfolding s by (simp add: follow_flag_bits)
  show "fst (sweep_master m now down tilt) =
     \<lparr>dc_sdown_changed =
        (if bit (ms_flags m) 3 = subjectively_down m now down tilt then None else Some (subjectively_down m now down tilt)),
      dc_odown_changed =
        (if bit (ms_flags m) 4 = objectively_down m now down tilt then None else Some (objectively_down m now down tilt))\<rparr>"
    using s(2,3) unfolding single_flag by (intro detection_changes.equality) simp_all
qed

text \<open>C40. The timeout of a failover compares a time with an epoch: a failover forced on a master is aborted in
  the next round of the driver whenever the clock in milliseconds exceeds the election epoch by more than
  the timeout, so that a forced failover never selects a replica.\<close>

theorem forced_failover_aborts:
  assumes "ws_masters world key = Some m" and "\<not> contains (ms_flags m) FAILOVER_IN_PROGRESS"
    and "failover_timeout < now' - wrap64 (ws_epoch world + 1)"
  shows "let w = snd (force_failover book world key my_id now c1 c2);
             (events, w') = drive_failover w key my_id now' down failover_timeout syncs c3
         in events = [''-failover-abort''] \<and>
            (\<exists>m'. ws_masters w' key = Some m' \<and> ms_failover_state m' = NoFailover \<and>
                  \<not> contains (ms_flags m') FAILOVER_IN_PROGRESS)"
proof -
  define w where "w = snd (force_failover book world key my_id now c1 c2)"
  obtain m' where m': "ws_masters w key = Some m'" "ms_failover_epoch m' = wrap64 (ws_epoch world + 1)"
    using forced_master [OF assms(1,2), of book my_id now c1 c2] unfolding w_def by blast
  have "advance_failover m' now' down failover_timeout syncs leader = abort_failover m'" for leader
    using m'(2) assms(3) by (simp add: advance_failover_def)
  moreover have "\<not> bit (remove_flags (ms_flags m') FAILOVER_IN_PROGRESS) 6" using flag_bit(2) [of 6] by simp
  ultimately show ?thesis
    using m'(1) unfolding w_def [symmetric]
    by (simp add: drive_failover_def update_world_def abort_failover_def Let_def single_flag)
qed

definition idle_master :: "nat master_state" where
  "idle_master =
     \<lparr>ms_name = [109], ms_addr = 6379, ms_quorum = 2, ms_flags = 1, ms_config_epoch = 0, ms_leader = None, ms_leader_epoch = 0,
      ms_replicas = [], ms_sentinels = [], ms_last_ping_sent = 0, ms_last_ok_ping = 0, ms_down_since = None,
      ms_failover_state = NoFailover, ms_failover_epoch = 0, ms_selected_replica = None, ms_role_reported = MasterRole,
      ms_info_refresh = 0, ms_link_pending_commands = 0, ms_link_refcount = 0, ms_cached_info = []\<rparr>"

theorem forced_failover_aborts_witness:
  "let world = \<lparr>ws_epoch = 3, ws_my_id = [1], ws_masters = [[109] \<mapsto> idle_master], ws_timestamp = 0\<rparr>;
       w = snd (force_failover Map.empty world [109] [1] 1700000000000 0 0)
   in fst (drive_failover w [109] [1] 1700000000001 30000 180000 1 0) = [''-failover-abort'']"
  using forced_failover_aborts [of "\<lparr>ws_epoch = 3, ws_my_id = [1], ws_masters = [[109] \<mapsto> idle_master], ws_timestamp = 0\<rparr>"
      "[109]" idle_master 180000 1700000000001 Map.empty "[1]" 1700000000000 0 0 30000 1 0]
  by (simp add: idle_master_def contains_def wrap64_def Let_def split_beta)

end
