(* ===== verification/Gorilla.thy ===== *)
theory Gorilla
  imports Prelude
begin

text \<open>
  The compression of time series chunks, senko-ts/src/gorilla.rs: a writer and a reader of single bits,
  timestamps as differences of differences and values as the exclusive or with their predecessor. Values
  are the bit patterns of doubles, timestamps are 64-bit words read as signed numbers, with the wrap-around
  of release builds in their differences. Sums of counts of leading and trailing zeros stay far below the
  width of a byte, so they are natural numbers. \<open>None\<close> is the panic of a failed \<open>expect\<close>.
\<close>

unbundle bit_operations_syntax

section \<open>Bits\<close>

record bit_writer =
  bw_buf :: bytes
  bw_current :: byte
  bw_used_bits :: nat
  bw_total_bits :: nat

definition bit_writer_new :: bit_writer where
  "bit_writer_new = \<lparr>bw_buf = [], bw_current = 0, bw_used_bits = 0, bw_total_bits = 0\<rparr>"

definition write_bit :: "bool \<Rightarrow> bit_writer \<Rightarrow> bit_writer" where
  "write_bit b w =
     (let current = push_bit 1 (bw_current w) OR of_bool b;
          used = bw_used_bits w + 1;
          w = w\<lparr>bw_current := current, bw_used_bits := used, bw_total_bits := bw_total_bits w + 1\<rparr>
      in if used = 8 then w\<lparr>bw_buf := bw_buf w @ [current], bw_current := 0, bw_used_bits := 0\<rparr> else w)"

text \<open>\<open>for shift in (0..bits).rev()\<close>.\<close>

fun write_bits :: "64 word \<Rightarrow> nat \<Rightarrow> bit_writer \<Rightarrow> bit_writer" where
  "write_bits v 0 w = w"
| "write_bits v (Suc shift) w = write_bits v shift (write_bit (drop_bit shift v AND 1 \<noteq> 0) w)"

definition write_i64_bits :: "64 word \<Rightarrow> nat \<Rightarrow> bit_writer \<Rightarrow> bit_writer" where
  "write_i64_bits v bits w =
     (if bits = 64 then write_bits v 64 w else write_bits (v AND (push_bit bits 1 - 1)) bits w)"

definition bit_len :: "bit_writer \<Rightarrow> nat" where
  "bit_len w = bw_total_bits w"

definition writer_byte_len :: "bit_writer \<Rightarrow> nat" where
  "writer_byte_len w = length (bw_buf w) + (if bw_used_bits w > 0 then 1 else 0)"

definition writer_finish :: "bit_writer \<Rightarrow> bytes" where
  "writer_finish w =
     (if bw_used_bits w > 0 then bw_buf w @ [push_bit (8 - bw_used_bits w) (bw_current w)] else bw_buf w)"

record bit_reader =
  br_buf :: bytes
  br_bit_pos :: nat

definition bit_reader_new :: "bytes \<Rightarrow> bit_reader" where
  "bit_reader_new buf = \<lparr>br_buf = buf, br_bit_pos = 0\<rparr>"

definition read_bit :: "bit_reader \<Rightarrow> (bool \<times> bit_reader) option" where
  "read_bit r =
     (if br_bit_pos r \<ge> length (br_buf r) * 8 then None
      else let b = br_buf r ! (br_bit_pos r div 8);
               shift = 7 - br_bit_pos r mod 8
           in Some (drop_bit shift b AND 1 \<noteq> 0, r\<lparr>br_bit_pos := br_bit_pos r + 1\<rparr>))"

fun read_bits_loop :: "nat \<Rightarrow> 64 word \<Rightarrow> bit_reader \<Rightarrow> (64 word \<times> bit_reader) option" where
  "read_bits_loop 0 v r = Some (v, r)"
| "read_bits_loop (Suc n) v r = Option.bind (read_bit r) (\<lambda>(b, r). read_bits_loop n (push_bit 1 v OR of_bool b) r)"

definition read_bits :: "nat \<Rightarrow> bit_reader \<Rightarrow> (64 word \<times> bit_reader) option" where
  "read_bits bits r = (if bits = 0 then Some (0, r) else read_bits_loop bits 0 r)"

definition sign_extend :: "64 word \<Rightarrow> nat \<Rightarrow> 64 word" where
  "sign_extend v bits = signed_drop_bit (64 - bits) (push_bit (64 - bits) v)"

definition read_i64_bits :: "nat \<Rightarrow> bit_reader \<Rightarrow> (64 word \<times> bit_reader) option" where
  "read_i64_bits bits r =
     (if bits = 64 then read_bits 64 r
      else Option.bind (read_bits bits r) (\<lambda>(raw, r). Some (sign_extend raw bits, r)))"

section \<open>Codes of differences and values\<close>

definition encode_delta_of_delta :: "64 word \<Rightarrow> bit_writer \<Rightarrow> bit_writer" where
  "encode_delta_of_delta dod w =
     (if dod = 0 then write_bit False w
      else if - 63 \<le> sint dod \<and> sint dod \<le> 64 then write_i64_bits dod 7 (write_bits 2 2 w)
      else if - 255 \<le> sint dod \<and> sint dod \<le> 256 then write_i64_bits dod 9 (write_bits 6 3 w)
      else if - 2047 \<le> sint dod \<and> sint dod \<le> 2048 then write_i64_bits dod 12 (write_bits 14 4 w)
      else write_i64_bits dod 64 (write_bits 15 4 w))"

definition decode_delta_of_delta :: "bit_reader \<Rightarrow> (64 word \<times> bit_reader) option" where
  "decode_delta_of_delta r =
     Option.bind (read_bit r) (\<lambda>(b, r). if \<not> b then Some (0, r)
     else Option.bind (read_bit r) (\<lambda>(b, r). if \<not> b then read_i64_bits 7 r
     else Option.bind (read_bit r) (\<lambda>(b, r). if \<not> b then read_i64_bits 9 r
     else Option.bind (read_bit r) (\<lambda>(b, r). if \<not> b then read_i64_bits 12 r
     else read_i64_bits 64 r))))"

text \<open>\<open>leading_zeros\<close> and \<open>trailing_zeros\<close> of a 64-bit number.\<close>

definition leading_zeros :: "64 word \<Rightarrow> nat" where
  "leading_zeros x = length (takeWhile (\<lambda>i. \<not> bit x i) (rev [0..<64]))"

definition trailing_zeros :: "64 word \<Rightarrow> nat" where
  "trailing_zeros x = length (takeWhile (\<lambda>i. \<not> bit x i) [0..<64])"

definition encode_sig_len :: "nat \<Rightarrow> nat" where
  "encode_sig_len len = (if len = 64 then 0 else len)"

definition decode_sig_len :: "nat \<Rightarrow> nat" where
  "decode_sig_len len = (if len = 0 then 64 else len)"

definition U8_MAX :: nat where "U8_MAX = 255"

text \<open>The window is the pair of \<open>prev_leading\<close> and \<open>prev_trailing\<close>.\<close>

definition reuses_window :: "nat \<times> nat \<Rightarrow> 64 word \<Rightarrow> bool" where
  "reuses_window win xor_bits = (case win of (prev_leading, prev_trailing) \<Rightarrow>
     let leading = leading_zeros xor_bits; trailing = trailing_zeros xor_bits; meaningful_bits = 64 - (leading + trailing)
     in prev_leading \<noteq> U8_MAX \<and> leading \<ge> prev_leading \<and> trailing \<ge> prev_trailing \<and>
        64 - (prev_leading + prev_trailing) \<ge> meaningful_bits)"

definition encode_value_xor ::
    "64 word \<Rightarrow> 64 word \<Rightarrow> bit_writer \<Rightarrow> nat \<times> nat \<Rightarrow> bit_writer \<times> nat \<times> nat" where
  "encode_value_xor value_bits prev_bits w win =
     (let xor_bits = value_bits XOR prev_bits in
      if xor_bits = 0 then (write_bit False w, win)
      else
        let leading = leading_zeros xor_bits; trailing = trailing_zeros xor_bits; meaningful_bits = 64 - (leading + trailing);
            w = write_bit True w
        in if reuses_window win xor_bits then
             let w = write_bit False w; reused_bits = 64 - (fst win + snd win)
             in (write_bits (drop_bit (snd win) xor_bits) reused_bits w, win)
           else
             let w = write_bit True w;
                 w = write_bits (of_nat leading) 5 w;
                 w = write_bits (of_nat (encode_sig_len meaningful_bits)) 6 w;
                 w = write_bits (drop_bit trailing xor_bits) meaningful_bits w
             in (w, leading, trailing))"

definition decode_value_xor ::
    "64 word \<Rightarrow> nat \<times> nat \<Rightarrow> bit_reader \<Rightarrow> ((64 word \<times> nat \<times> nat) \<times> bit_reader) option" where
  "decode_value_xor prev_bits win r =
     Option.bind (read_bit r) (\<lambda>(b, r).
       if \<not> b then Some ((prev_bits, win), r)
       else Option.bind (read_bit r) (\<lambda>(b, r).
         if \<not> b then
           Option.bind (read_bits (64 - (fst win + snd win)) r) (\<lambda>(meaningful, r).
             Some ((prev_bits XOR push_bit (snd win) meaningful, win), r))
         else
           Option.bind (read_bits 5 r) (\<lambda>(leading, r).
           Option.bind (read_bits 6 r) (\<lambda>(len, r).
             let meaningful_bits = decode_sig_len (unat len) in
             Option.bind (read_bits meaningful_bits r) (\<lambda>(meaningful, r).
               let trailing = 64 - (unat leading + meaningful_bits)
               in Some ((prev_bits XOR push_bit trailing meaningful, unat leading, trailing), r))))))"

section \<open>Chunks\<close>

record compressed_chunk =
  cc_writer :: bit_writer
  cc_prev_ts :: "64 word"
  cc_prev_delta :: "64 word"
  cc_prev_val_bits :: "64 word"
  cc_prev_window :: "nat \<times> nat"
  cc_sample_count :: nat

definition chunk_new :: compressed_chunk where
  "chunk_new = \<lparr>cc_writer = bit_writer_new, cc_prev_ts = 0, cc_prev_delta = 0, cc_prev_val_bits = 0,
     cc_prev_window = (U8_MAX, 0), cc_sample_count = 0\<rparr>"

definition U16_MAX :: nat where "U16_MAX = 65535"

type_synonym sample = "64 word \<times> f64"

definition compress_sample :: "compressed_chunk \<Rightarrow> sample \<Rightarrow> compressed_chunk" where
  "compress_sample c s = (case s of (ts, val_bits) \<Rightarrow>
     let c' =
       (if cc_sample_count c = 0 then
          c\<lparr>cc_writer := write_bits val_bits 64 (write_i64_bits ts 64 (cc_writer c)), cc_prev_ts := ts, cc_prev_val_bits := val_bits\<rparr>
        else
          let delta = ts - cc_prev_ts c;
              w = (if cc_sample_count c = 1 then write_i64_bits delta 14 (cc_writer c)
                   else encode_delta_of_delta (delta - cc_prev_delta c) (cc_writer c));
              (w, win) = encode_value_xor val_bits (cc_prev_val_bits c) w (cc_prev_window c)
          in c\<lparr>cc_writer := w, cc_prev_window := win, cc_prev_delta := delta, cc_prev_ts := ts, cc_prev_val_bits := val_bits\<rparr>)
     in c'\<lparr>cc_sample_count := min (cc_sample_count c + 1) U16_MAX\<rparr>)"

definition from_samples :: "sample list \<Rightarrow> compressed_chunk" where
  "from_samples samples = foldl compress_sample chunk_new samples"

text \<open>The loop of \<open>decompress_all\<close> for the samples from the third on; the fuel is the number of samples still to read.\<close>

fun decompress_loop ::
    "nat \<Rightarrow> 64 word \<Rightarrow> 64 word \<Rightarrow> 64 word \<Rightarrow> nat \<times> nat \<Rightarrow> bit_reader \<Rightarrow> sample list option" where
  "decompress_loop 0 prev_ts prev_delta prev_val win r = Some []"
| "decompress_loop (Suc n) prev_ts prev_delta prev_val win r =
     Option.bind (decode_delta_of_delta r) (\<lambda>(dod, r).
       let delta = prev_delta + dod; ts = prev_ts + delta in
       Option.bind (decode_value_xor prev_val win r) (\<lambda>((val, win), r).
         map_option (Cons (ts, val)) (decompress_loop n ts delta val win r)))"

definition decompress_all :: "compressed_chunk \<Rightarrow> sample list option" where
  "decompress_all c =
     (if cc_sample_count c = 0 then Some []
      else
        Option.bind (read_i64_bits 64 (bit_reader_new (writer_finish (cc_writer c)))) (\<lambda>(first_ts, r).
        Option.bind (read_bits 64 r) (\<lambda>(first_val, r).
          if cc_sample_count c = 1 then Some [(first_ts, first_val)]
          else
            Option.bind (read_i64_bits 14 r) (\<lambda>(delta, r).
            Option.bind (decode_value_xor first_val (U8_MAX, 0) r) (\<lambda>((second_val, win), r).
              map_option (\<lambda>rest. (first_ts, first_val) # (first_ts + delta, second_val) # rest)
                (decompress_loop (cc_sample_count c - 2) (first_ts + delta) delta second_val win r))))))"

definition chunk_byte_len :: "compressed_chunk \<Rightarrow> nat" where
  "chunk_byte_len c = writer_byte_len (cc_writer c)"

section \<open>Writers and readers as lists of bits\<close>

definition msb_bits :: "nat \<Rightarrow> 'a::len word \<Rightarrow> bool list" where
  "msb_bits n v = map (bit v) (rev [0..<n])"

definition bytes_bits :: "bytes \<Rightarrow> bool list" where
  "bytes_bits bs = concat (map (msb_bits 8) bs)"

definition writer_bits :: "bit_writer \<Rightarrow> bool list" where
  "writer_bits w = bytes_bits (bw_buf w) @ msb_bits (bw_used_bits w) (bw_current w)"

definition remaining :: "bit_reader \<Rightarrow> bool list" where
  "remaining r = drop (br_bit_pos r) (bytes_bits (br_buf r))"

lemma length_msb_bits [simp]: "length (msb_bits n v) = n"
  by (simp add: msb_bits_def)

lemma msb_bits_0 [simp]: "msb_bits 0 v = []" and msb_bits_Suc: "msb_bits (Suc n) v = bit v n # msb_bits n v"
  by (simp_all add: msb_bits_def)

lemma length_bytes_bits [simp]: "length (bytes_bits bs) = length bs * 8"
  by (induction bs) (simp_all add: bytes_bits_def)

lemma lowest_bit: "(drop_bit n v AND 1 \<noteq> 0) = bit v n" for v :: "'a::len word"
  by (simp add: and_one_eq odd_iff_mod_2_eq_one bit_iff_odd_drop_bit)

lemma msb_bits_shift:
  "Suc n \<le> LENGTH('a) \<Longrightarrow> msb_bits (Suc n) (push_bit 1 c OR of_bool b) = msb_bits n c @ [b]" for c :: "'a::len word"
proof -
  assume n: "Suc n \<le> LENGTH('a)"
  have "msb_bits (Suc n) x = map (\<lambda>i. bit x (Suc i)) (rev [0..<n]) @ [bit x 0]" for x :: "'a word"
    by (simp add: msb_bits_def upt_conv_Cons map_Suc_upt [symmetric] rev_map comp_def del: upt_Suc)
  moreover have "bit (push_bit 1 c OR of_bool b) (Suc i) = bit c i" if "i < n" for i
    unfolding bit_or_iff bit_push_bit_iff using that n by (simp add: bit_simps)
  moreover have "bit (push_bit 1 c OR of_bool b) 0 = b"
    unfolding bit_or_iff bit_push_bit_iff by (simp add: bit_simps)
  ultimately show ?thesis by (simp add: msb_bits_def)
qed

lemma writer_bits_new [simp]: "writer_bits bit_writer_new = []"
  by (simp add: writer_bits_def bit_writer_new_def bytes_bits_def)

definition writer_ok :: "bit_writer \<Rightarrow> bool" where
  "writer_ok w \<longleftrightarrow> bw_used_bits w < 8 \<and> bw_total_bits w = length (writer_bits w)"

lemma write_bit_bits:
  assumes "writer_ok w"
  shows "writer_bits (write_bit b w) = writer_bits w @ [b]" and "writer_ok (write_bit b w)"
proof -
  have "msb_bits (Suc (bw_used_bits w)) (push_bit 1 (bw_current w) OR of_bool b) = msb_bits (bw_used_bits w) (bw_current w) @ [b]"
    using assms by (intro msb_bits_shift) (simp add: writer_ok_def)
  then show bits: "writer_bits (write_bit b w) = writer_bits w @ [b]"
    by (auto simp: writer_bits_def write_bit_def Let_def bytes_bits_def numeral_eq_Suc)
  then show "writer_ok (write_bit b w)"
    using assms by (auto simp: writer_ok_def write_bit_def Let_def)
qed

lemma write_bits_bits:
  "writer_ok w \<Longrightarrow> writer_bits (write_bits v n w) = writer_bits w @ msb_bits n v \<and> writer_ok (write_bits v n w)"
  by (induction n arbitrary: w) (simp_all add: write_bit_bits lowest_bit msb_bits_Suc)

lemma msb_bits_mask: "msb_bits n (v AND (push_bit n 1 - 1)) = msb_bits n v" for v :: "64 word"
  by (auto simp: msb_bits_def bit_simps mask_eq_exp_minus_1 [symmetric] push_bit_eq_mult dest: bit_imp_le_length)

lemma write_i64_bits_bits:
  "writer_ok w \<Longrightarrow> writer_bits (write_i64_bits v n w) = writer_bits w @ msb_bits n v \<and> writer_ok (write_i64_bits v n w)"
  using msb_bits_mask [of n v] by (simp add: write_i64_bits_def write_bits_bits)

lemma writer_finish_bits: "writer_ok w \<Longrightarrow> \<exists>pad. bytes_bits (writer_finish w) = writer_bits w @ pad"
proof -
  assume w: "writer_ok w"
  define u where "u = bw_used_bits w"
  have u: "u < 8" using w by (simp add: writer_ok_def u_def)
  have "msb_bits 8 (push_bit (8 - u) (bw_current w)) = msb_bits u (bw_current w) @ replicate (8 - u) False" if "0 < u"
    using that u by (auto simp: list_eq_iff_nth_eq msb_bits_def rev_nth nth_append bit_simps)
  then show ?thesis
    by (auto simp: writer_finish_def writer_bits_def bytes_bits_def u_def [symmetric])
qed

lemma bytes_bits_nth: "i < length bs * 8 \<Longrightarrow> bytes_bits bs ! i = bit (bs ! (i div 8)) (7 - i mod 8)"
proof (induction bs arbitrary: i)
  case (Cons b bs)
  show ?case
  proof (cases "i < 8")
    case True
    then show ?thesis by (simp add: bytes_bits_def nth_append) (simp add: msb_bits_def rev_nth)
  next
    case False
    then obtain j where "i = j + 8" by (metis le_add_diff_inverse2 not_less)
    then show ?thesis using Cons div_add_self2 [of 8 j] by (simp add: bytes_bits_def nth_append)
  qed
qed simp

lemma read_bit_remaining:
  "read_bit r = (case remaining r of [] \<Rightarrow> None | b # _ \<Rightarrow> Some (b, r\<lparr>br_bit_pos := br_bit_pos r + 1\<rparr>))"
proof (cases "br_bit_pos r < length (br_buf r) * 8")
  case True
  then have "remaining r = bytes_bits (br_buf r) ! br_bit_pos r # drop (Suc (br_bit_pos r)) (bytes_bits (br_buf r))"
    by (simp add: remaining_def Cons_nth_drop_Suc)
  then show ?thesis using True by (simp add: read_bit_def bytes_bits_nth lowest_bit Let_def)
qed (simp add: read_bit_def remaining_def)

lemma read_bit_Cons: "remaining r = b # bs \<Longrightarrow> \<exists>r'. read_bit r = Some (b, r') \<and> remaining r' = bs"
  using arg_cong [of "remaining r" "b # bs" tl]
  by (simp add: read_bit_remaining) (simp add: remaining_def tl_drop [symmetric] drop_Suc)


text \<open>Reading what was written.\<close>

lemma read_bits_loop_msb:
  "remaining r = msb_bits n v @ rest \<Longrightarrow> n \<le> 64 \<Longrightarrow>
     \<exists>r'. read_bits_loop n x r = Some (push_bit n x OR take_bit n v, r') \<and> remaining r' = rest"
proof (induction n arbitrary: x r)
  case (Suc n)
  obtain r1 where r1: "read_bit r = Some (bit v n, r1)" "remaining r1 = msb_bits n v @ rest"
    using read_bit_Cons [of r "bit v n"] Suc.prems by (auto simp: msb_bits_Suc)
  have "push_bit n (push_bit 1 x OR of_bool (bit v n)) OR take_bit n v = push_bit (Suc n) x OR take_bit (Suc n) v"
  proof (rule bit_word_eqI)
    fix i assume i: "i < LENGTH(64)"
    show "bit (push_bit n (push_bit 1 x OR of_bool (bit v n)) OR take_bit n v) i = bit (push_bit (Suc n) x OR take_bit (Suc n) v) i"
      unfolding bit_or_iff bit_push_bit_iff bit_take_bit_iff using i by (auto simp: bit_simps less_Suc_eq)
  qed
  then show ?case using Suc.IH [OF r1(2), of "push_bit 1 x OR of_bool (bit v n)"] Suc.prems r1(1) by auto
qed simp

lemma read_bits_msb:
  "remaining r = msb_bits n v @ rest \<Longrightarrow> n \<le> 64 \<Longrightarrow> \<exists>r'. read_bits n r = Some (take_bit n v, r') \<and> remaining r' = rest"
  using read_bits_loop_msb [of r n v rest 0] by (auto simp: read_bits_def)

lemma sign_extend_take_bit:
  assumes "0 < n" "n < 64" "- (2 ^ (n - 1)) \<le> sint v" "sint v < 2 ^ (n - 1)"
  shows "sign_extend (take_bit n v) n = v"
proof (rule bit_word_eqI)
  fix i assume i: "i < LENGTH(64)"
  have "signed_take_bit (n - 1) (sint v) = sint v" using assms by (simp add: signed_take_bit_int_eq_self_iff)
  then have "bit (sint v) i = bit (signed_take_bit (n - 1) (sint v)) i" by simp
  then have "bit v i = bit v (min i (n - 1))" using i assms(1,2) by (simp add: bit_signed_take_bit_iff bit_sint_iff min.commute)
  moreover have "bit (sign_extend (take_bit n v) n) i = bit v (min i (n - 1))"
  proof (cases "n \<le> i")
    case True
    then have "min i (n - 1) = n - 1" "64 - n \<le> 63" using assms(1) by auto
    with True show ?thesis using i assms(1,2)
      by (simp add: sign_extend_def bit_signed_drop_bit_iff bit_push_bit_iff bit_take_bit_iff)
  next
    case False
    then have "min i (n - 1) = i" "64 - n \<le> 64 + i - n" "64 + i - n < 64" by auto
    with False show ?thesis using i assms(1,2)
      by (simp add: sign_extend_def bit_signed_drop_bit_iff bit_push_bit_iff bit_take_bit_iff)
  qed
  ultimately show "bit (sign_extend (take_bit n v) n) i = bit v i" by simp
qed

lemma read_i64_bits_msb:
  assumes "remaining r = msb_bits n v @ rest" "0 < n" "n \<le> 64" "n < 64 \<Longrightarrow> - (2 ^ (n - 1)) \<le> sint v \<and> sint v < 2 ^ (n - 1)"
  shows "\<exists>r'. read_i64_bits n r = Some (v, r') \<and> remaining r' = rest"
  using read_bits_msb [OF assms(1,3)] sign_extend_take_bit [of n v] assms by (auto simp: read_i64_bits_def take_bit_word_eq_self)

text \<open>A function of the writer that appends bits, and a function of the reader that takes these bits for a value.\<close>

definition writes :: "(bit_writer \<Rightarrow> bit_writer) \<Rightarrow> bool list \<Rightarrow> bool" where
  "writes f bs \<longleftrightarrow> (\<forall>w. writer_ok w \<longrightarrow> writer_bits (f w) = writer_bits w @ bs \<and> writer_ok (f w))"

definition reads_as :: "(bit_reader \<Rightarrow> ('a \<times> bit_reader) option) \<Rightarrow> bool list \<Rightarrow> 'a \<Rightarrow> bool" where
  "reads_as f bs v \<longleftrightarrow> (\<forall>r rest. remaining r = bs @ rest \<longrightarrow> (\<exists>r'. f r = Some (v, r') \<and> remaining r' = rest))"

lemma writes_prims: "writes (write_bit b) [b]" "writes (write_bits v n) (msb_bits n v)" "writes (write_i64_bits v n) (msb_bits n v)"
  by (simp_all add: writes_def write_bit_bits write_bits_bits write_i64_bits_bits)

lemma writes_comp: "writes f bs \<Longrightarrow> writes g cs \<Longrightarrow> writes (\<lambda>w. g (f w)) (bs @ cs)"
  by (simp add: writes_def)

lemma reads_as_return: "reads_as (\<lambda>r. Some (v, r)) [] v"
  by (simp add: reads_as_def)

lemma reads_as_bind:
  assumes "reads_as f bs v" and "reads_as (g v) cs u"
  shows "reads_as (\<lambda>r. Option.bind (f r) (\<lambda>(x, r). g x r)) (bs @ cs) u"
  unfolding reads_as_def
proof (intro allI impI)
  fix r rest assume "remaining r = (bs @ cs) @ rest"
  then obtain r1 where "f r = Some (v, r1)" "remaining r1 = cs @ rest" using assms(1) unfolding reads_as_def by (metis append.assoc)
  with assms(2) show "\<exists>r'. Option.bind (f r) (\<lambda>(x, r). g x r) = Some (u, r') \<and> remaining r' = rest"
    unfolding reads_as_def by auto
qed

lemma reads_as_bit: "reads_as (g b) cs u \<Longrightarrow> reads_as (\<lambda>r. Option.bind (read_bit r) (\<lambda>(x, r). g x r)) (b # cs) u"
  using reads_as_bind [of read_bit "[b]" b g cs u] read_bit_Cons by (simp add: reads_as_def)

lemma reads_as_bits: "n \<le> 64 \<Longrightarrow> reads_as (read_bits n) (msb_bits n v) (take_bit n v)"
  by (simp add: reads_as_def read_bits_msb)

lemma reads_as_i64:
  "0 < n \<Longrightarrow> n \<le> 64 \<Longrightarrow> (n < 64 \<Longrightarrow> - (2 ^ (n - 1)) \<le> sint v \<and> sint v < 2 ^ (n - 1)) \<Longrightarrow> reads_as (read_i64_bits n) (msb_bits n v) v"
  unfolding reads_as_def using read_i64_bits_msb [of _ n v] by blast

definition delta_bits :: "64 word \<Rightarrow> bool list" where
  "delta_bits dod =
     (if dod = 0 then [False]
      else if - 63 \<le> sint dod \<and> sint dod \<le> 64 then [True, False] @ msb_bits 7 dod
      else if - 255 \<le> sint dod \<and> sint dod \<le> 256 then [True, True, False] @ msb_bits 9 dod
      else if - 2047 \<le> sint dod \<and> sint dod \<le> 2048 then [True, True, True, False] @ msb_bits 12 dod
      else [True, True, True, True] @ msb_bits 64 dod)"

lemma msb_bits_prefixes:
  "msb_bits 2 (2 :: 64 word) = [True, False]" "msb_bits 3 (6 :: 64 word) = [True, True, False]"
  "msb_bits 4 (14 :: 64 word) = [True, True, True, False]" "msb_bits 4 (15 :: 64 word) = [True, True, True, True]"
  by (simp_all add: msb_bits_def upt_rec)

lemma writes_delta: "writes (encode_delta_of_delta dod) (delta_bits dod)"
proof -
  have "writes (\<lambda>w. write_i64_bits dod n (write_bits p k w)) (msb_bits k p @ msb_bits n dod)" for n k p
    by (intro writes_comp writes_prims)
  from this [of 7 2 2] this [of 9 6 3] this [of 12 14 4] this [of 64 15 4] writes_prims(1) [of False]
  show ?thesis unfolding writes_def encode_delta_of_delta_def delta_bits_def msb_bits_prefixes by auto
qed

lemma reads_as_branch:
  "reads_as f cs u \<Longrightarrow> reads_as (\<lambda>r. Option.bind (read_bit r) (\<lambda>(b, r). if \<not> b then f r else g r)) (False # cs) u"
  "reads_as g cs u \<Longrightarrow> reads_as (\<lambda>r. Option.bind (read_bit r) (\<lambda>(b, r). if \<not> b then f r else g r)) (True # cs) u"
  using reads_as_bit [of "\<lambda>b r. if \<not> b then f r else g r" False cs u] reads_as_bit [of "\<lambda>b r. if \<not> b then f r else g r" True cs u]
  by simp_all

lemma reads_delta:
  assumes "sint dod \<notin> {64, 256, 2048}"
  shows "reads_as decode_delta_of_delta (delta_bits dod) dod"
proof -
  have i: "reads_as (read_i64_bits 7) (msb_bits 7 dod) dod" if "- 63 \<le> sint dod" "sint dod \<le> 64"
    using that assms by (intro reads_as_i64) simp_all
  have j: "reads_as (read_i64_bits 9) (msb_bits 9 dod) dod" if "- 255 \<le> sint dod" "sint dod \<le> 256"
    using that assms by (intro reads_as_i64) simp_all
  have k: "reads_as (read_i64_bits 12) (msb_bits 12 dod) dod" if "- 2047 \<le> sint dod" "sint dod \<le> 2048"
    using that assms by (intro reads_as_i64) simp_all
  have l: "reads_as (read_i64_bits 64) (msb_bits 64 dod) dod" by (intro reads_as_i64) simp_all
  show ?thesis
    unfolding delta_bits_def decode_delta_of_delta_def append_Cons append_Nil
    using i j k l by (auto intro!: reads_as_branch reads_as_return)
qed

section \<open>Values\<close>

lemma takeWhile_below: "i < length (takeWhile P xs) \<Longrightarrow> P (xs ! i)"
  using takeWhile_nth [of i P xs] set_takeWhileD [of "takeWhile P xs ! i" P xs] nth_mem [of i "takeWhile P xs"] by simp

lemma trailing_zero: "i < trailing_zeros x \<Longrightarrow> \<not> bit x i"
proof -
  assume "i < trailing_zeros x"
  moreover have "trailing_zeros x \<le> 64" using length_takeWhile_le [of "\<lambda>i. \<not> bit x i" "[0..<64]"] by (simp add: trailing_zeros_def)
  ultimately show ?thesis using takeWhile_below [of i "\<lambda>i. \<not> bit x i" "[0..<64]"] by (simp add: trailing_zeros_def)
qed

lemma leading_zero: "64 - leading_zeros x \<le> i \<Longrightarrow> \<not> bit x i"
proof (cases "i < 64")
  case True
  assume "64 - leading_zeros x \<le> i"
  then have "63 - i < leading_zeros x" using True by simp
  then show ?thesis
    using takeWhile_below [of "63 - i" "\<lambda>i. \<not> bit x i" "rev [0..<64]"] True by (simp add: leading_zeros_def rev_nth)
qed (auto dest: bit_imp_le_length)

lemma zeros_bound: "x \<noteq> 0 \<Longrightarrow> leading_zeros x + trailing_zeros x < 64"
proof -
  assume "x \<noteq> 0"
  then obtain k where "bit x k" by (auto simp: bit_eq_iff)
  then have "trailing_zeros x \<le> k" "k < 64 - leading_zeros x" using trailing_zero [of k x] leading_zero [of x k] by (metis not_less)+
  then show ?thesis by simp
qed

text \<open>The significant part of a number with zeros on both sides.\<close>

lemma significant_part:
  fixes x :: "64 word"
  assumes "\<And>i. i < t \<Longrightarrow> \<not> bit x i" and "\<And>i. 64 - l \<le> i \<Longrightarrow> \<not> bit x i" and "l + t \<le> 64"
  shows "push_bit t (take_bit (64 - (l + t)) (drop_bit t x)) = x"
proof (rule bit_word_eqI)
  fix i assume i: "i < LENGTH(64)"
  show "bit (push_bit t (take_bit (64 - (l + t)) (drop_bit t x))) i = bit x i"
    using i assms(1,2) [of i] assms(3)
    by (cases "i < t"; cases "64 - l \<le> i") (auto simp: bit_push_bit_iff bit_take_bit_iff bit_drop_bit_eq)
qed

definition value_bits :: "nat \<times> nat \<Rightarrow> 64 word \<Rightarrow> bool list" where
  "value_bits win x =
     (if x = 0 then [False]
      else if reuses_window win x then True # False # msb_bits (64 - (fst win + snd win)) (drop_bit (snd win) x)
      else let m = 64 - (leading_zeros x + trailing_zeros x)
           in True # True # msb_bits 5 (of_nat (leading_zeros x) :: 64 word) @ msb_bits 6 (of_nat (encode_sig_len m) :: 64 word) @
              msb_bits m (drop_bit (trailing_zeros x) x))"

definition next_window :: "nat \<times> nat \<Rightarrow> 64 word \<Rightarrow> nat \<times> nat" where
  "next_window win x = (if x = 0 \<or> reuses_window win x then win else (leading_zeros x, trailing_zeros x))"

lemma encode_value_bits:
  assumes "writer_ok w"
  shows "\<exists>w'. encode_value_xor v p w win = (w', next_window win (v XOR p)) \<and> writer_ok w' \<and>
    writer_bits w' = writer_bits w @ value_bits win (v XOR p)"
  using assms by (simp add: encode_value_xor_def value_bits_def next_window_def Let_def write_bit_bits write_bits_bits)

text \<open>The five bits for the number of leading zeros hold it only below 32.\<close>

definition value_ok :: "nat \<times> nat \<Rightarrow> 64 word \<Rightarrow> bool" where
  "value_ok win x \<longleftrightarrow> x = 0 \<or> reuses_window win x \<or> leading_zeros x < 32"

lemma xor_back: "p XOR (v XOR p) = v" and xor_zero: "v XOR p = 0 \<Longrightarrow> v = p" for v p :: "64 word"
proof -
  show b: "p XOR (v XOR p) = v" for v p :: "64 word" by (rule bit_word_eqI) (auto simp: bit_xor_iff)
  show "v XOR p = 0 \<Longrightarrow> v = p" using b [of p v] by simp
qed

lemma window_bound: "reuses_window win x \<Longrightarrow> x \<noteq> 0 \<Longrightarrow> fst win + snd win < 64"
  using zeros_bound [of x] by (auto simp: reuses_window_def Let_def)

lemma reads_window:
  assumes "reuses_window win x" and "x \<noteq> 0"
  shows "push_bit (snd win) (take_bit (64 - (fst win + snd win)) (drop_bit (snd win) x)) = x"
proof (rule significant_part)
  show "\<not> bit x i" if "i < snd win" for i using that assms by (intro trailing_zero) (auto simp: reuses_window_def Let_def)
  show "\<not> bit x i" if "64 - fst win \<le> i" for i using that assms by (intro leading_zero) (auto simp: reuses_window_def Let_def)
qed (use window_bound [OF assms] in simp)

lemma unat_small_bits: "k < 2 ^ n \<Longrightarrow> n \<le> 6 \<Longrightarrow> unat (take_bit n (of_nat k :: 64 word)) = k"
proof -
  assume k: "k < 2 ^ n" and n: "n \<le> 6"
  have "(2 :: nat) ^ n \<le> 2 ^ 6" using n by (intro power_increasing) simp_all
  then have "k < 2 ^ 64" using k by simp
  then show ?thesis using k by (simp add: take_bit_of_nat take_bit_nat_eq_self unat_of_nat)
qed

lemma reads_value:
  assumes "value_ok win (v XOR p)"
  shows "reads_as (decode_value_xor p win) (value_bits win (v XOR p)) (v, next_window win (v XOR p))"
proof -
  define x where "x = v XOR p"
  have v: "v = p XOR x" by (simp add: x_def xor_back)
  consider "x = 0" | "x \<noteq> 0" "reuses_window win x" | "x \<noteq> 0" "\<not> reuses_window win x" "leading_zeros x < 32"
    using assms by (auto simp: value_ok_def x_def)
  then have "reads_as (decode_value_xor p win) (value_bits win x) (v, next_window win x)"
  proof cases
    case 1
    then show ?thesis
      unfolding decode_value_xor_def value_bits_def next_window_def using v by (auto intro!: reads_as_branch reads_as_return)
  next
    case 2
    have "reads_as (\<lambda>r. Option.bind (read_bits (64 - (fst win + snd win)) r) (\<lambda>(meaningful, r). Some ((p XOR push_bit (snd win) meaningful, win), r)))
        (msb_bits (64 - (fst win + snd win)) (drop_bit (snd win) x) @ []) (v, win)"
      using reads_as_return [of "(v, win)"] reads_window [OF 2(2,1)] v by (intro reads_as_bind [OF reads_as_bits]) simp_all
    with 2 show ?thesis
      unfolding decode_value_xor_def value_bits_def next_window_def by (auto intro!: reads_as_branch)
  next
    case 3
    define l where "l = leading_zeros x"
    define t where "t = trailing_zeros x"
    define m where "m = 64 - (l + t)"
    have lt: "l + t < 64" "l < 32" using zeros_bound [of x] 3 by (simp_all add: l_def t_def)
    have n5: "unat (take_bit 5 (of_nat l :: 64 word)) = l" using lt by (intro unat_small_bits) simp_all
    have n6: "decode_sig_len (unat (take_bit 6 (of_nat (encode_sig_len m) :: 64 word))) = m"
      using lt by (subst unat_small_bits) (auto simp: encode_sig_len_def decode_sig_len_def m_def)
    have s: "p XOR push_bit (64 - (l + m)) (take_bit m (drop_bit t x)) = v" "64 - (l + m) = t"
      using significant_part [of t x l] trailing_zero [of _ x] leading_zero [of x] lt v by (simp_all add: m_def l_def t_def)
    have "reads_as (\<lambda>r. Option.bind (read_bits m r) (\<lambda>(meaningful, r). Some ((p XOR push_bit (64 - (l + m)) meaningful, l, 64 - (l + m)), r)))
        (msb_bits m (drop_bit t x) @ []) (v, l, t)"
      using reads_as_return [of "(v, l, t)"] s by (intro reads_as_bind [OF reads_as_bits]) (simp_all add: m_def)
    then have "reads_as (\<lambda>r. Option.bind (read_bits 5 r) (\<lambda>(leading, r). Option.bind (read_bits 6 r) (\<lambda>(len, r).
          Option.bind (read_bits (decode_sig_len (unat len)) r) (\<lambda>(meaningful, r).
            Some ((p XOR push_bit (64 - (unat leading + decode_sig_len (unat len))) meaningful, unat leading,
              64 - (unat leading + decode_sig_len (unat len))), r)))))
        (msb_bits 5 (of_nat l :: 64 word) @ msb_bits 6 (of_nat (encode_sig_len m) :: 64 word) @ msb_bits m (drop_bit t x)) (v, l, t)"
      by (intro reads_as_bind [OF reads_as_bits] ) (simp_all add: n5 n6)
    then show ?thesis
      using 3 unfolding decode_value_xor_def value_bits_def next_window_def Let_def l_def [symmetric] t_def [symmetric] m_def [symmetric]
      by (auto intro!: reads_as_branch)
  qed
  then show ?thesis by (simp add: x_def)
qed

section \<open>Chunks\<close>

text \<open>The samples the codes can hold: the first difference of timestamps in 14 bits, no difference of differences that is
  the upper end of one of the three short ranges, and values for which no number of leading zeros is cut to five bits.\<close>

fun rest_ok :: "64 word \<Rightarrow> 64 word \<Rightarrow> 64 word \<Rightarrow> nat \<times> nat \<Rightarrow> sample list \<Rightarrow> bool" where
  "rest_ok ts delta v win [] \<longleftrightarrow> True"
| "rest_ok ts delta v win ((ts', v') # xs) \<longleftrightarrow>
     sint (ts' - ts - delta) \<notin> {64, 256, 2048} \<and> value_ok win (v' XOR v) \<and> rest_ok ts' (ts' - ts) v' (next_window win (v' XOR v)) xs"

fun samples_ok :: "sample list \<Rightarrow> bool" where
  "samples_ok ((ts, v) # (ts', v') # xs) \<longleftrightarrow>
     - 8192 \<le> sint (ts' - ts) \<and> sint (ts' - ts) < 8192 \<and> value_ok (U8_MAX, 0) (v' XOR v) \<and>
     rest_ok ts' (ts' - ts) v' (next_window (U8_MAX, 0) (v' XOR v)) xs"
| "samples_ok _ \<longleftrightarrow> True"

fun rest_bits :: "64 word \<Rightarrow> 64 word \<Rightarrow> 64 word \<Rightarrow> nat \<times> nat \<Rightarrow> sample list \<Rightarrow> bool list" where
  "rest_bits ts delta v win [] = []"
| "rest_bits ts delta v win ((ts', v') # xs) =
     delta_bits (ts' - ts - delta) @ value_bits win (v' XOR v) @ rest_bits ts' (ts' - ts) v' (next_window win (v' XOR v)) xs"

lemma compress_rest:
  assumes "writer_ok (cc_writer c)" "2 \<le> cc_sample_count c" "cc_sample_count c + length xs \<le> U16_MAX"
  shows "let c' = foldl compress_sample c xs in
    writer_bits (cc_writer c') = writer_bits (cc_writer c) @
      rest_bits (cc_prev_ts c) (cc_prev_delta c) (cc_prev_val_bits c) (cc_prev_window c) xs \<and>
    writer_ok (cc_writer c') \<and> cc_sample_count c' = cc_sample_count c + length xs"
  using assms
proof (induction xs arbitrary: c)
  case (Cons s xs)
  obtain ts v where s: "s = (ts, v)" by fastforce
  define w where "w = encode_delta_of_delta (ts - cc_prev_ts c - cc_prev_delta c) (cc_writer c)"
  have w: "writer_bits w = writer_bits (cc_writer c) @ delta_bits (ts - cc_prev_ts c - cc_prev_delta c)" "writer_ok w"
    using writes_delta [of "ts - cc_prev_ts c - cc_prev_delta c"] Cons.prems(1) by (auto simp: writes_def w_def)
  obtain w' where w': "encode_value_xor v (cc_prev_val_bits c) w (cc_prev_window c) = (w', next_window (cc_prev_window c) (v XOR cc_prev_val_bits c))"
      "writer_ok w'" "writer_bits w' = writer_bits w @ value_bits (cc_prev_window c) (v XOR cc_prev_val_bits c)"
    using encode_value_bits [OF w(2)] by blast
  define c' where "c' = c\<lparr>cc_writer := w', cc_prev_window := next_window (cc_prev_window c) (v XOR cc_prev_val_bits c),
    cc_prev_delta := ts - cc_prev_ts c, cc_prev_ts := ts, cc_prev_val_bits := v, cc_sample_count := cc_sample_count c + 1\<rparr>"
  have c': "compress_sample c s = c'"
    using Cons.prems w'(1) by (simp add: compress_sample_def s w_def [symmetric] c'_def Let_def)
  have sel: "cc_writer c' = w'" "cc_prev_window c' = next_window (cc_prev_window c) (v XOR cc_prev_val_bits c)"
      "cc_prev_delta c' = ts - cc_prev_ts c" "cc_prev_ts c' = ts" "cc_prev_val_bits c' = v" "cc_sample_count c' = cc_sample_count c + 1"
    by (simp_all add: c'_def)
  show ?case using Cons.IH [of c'] Cons.prems w w' by (simp add: c' Let_def sel) (simp add: s)
qed simp

lemma decompress_rest:
  assumes "rest_ok ts delta v win xs" and "remaining r = rest_bits ts delta v win xs @ rest"
  shows "decompress_loop (length xs) ts delta v win r = Some xs"
  using assms
proof (induction xs arbitrary: ts delta v win r)
  case (Cons s xs)
  obtain ts' v' where s: "s = (ts', v')" by fastforce
  obtain r1 where r1: "decode_delta_of_delta r = Some (ts' - ts - delta, r1)"
      "remaining r1 = value_bits win (v' XOR v) @ rest_bits ts' (ts' - ts) v' (next_window win (v' XOR v)) xs @ rest"
    using reads_delta [of "ts' - ts - delta"] Cons.prems by (auto simp: s reads_as_def)
  obtain r2 where r2: "decode_value_xor v win r1 = Some ((v', next_window win (v' XOR v)), r2)"
      "remaining r2 = rest_bits ts' (ts' - ts) v' (next_window win (v' XOR v)) xs @ rest"
    using reads_value [of win v' v] Cons.prems r1(2) by (auto simp: s reads_as_def)
  show ?case using Cons.IH [OF _ r2(2)] Cons.prems(1) r1(1) r2(1) by (simp add: s Let_def)
qed simp

section \<open>Round trip\<close>

text \<open>The chunk after its first two samples.\<close>

lemma compress_two:
  fixes ts v ts' v' :: "64 word"
  defines "c \<equiv> compress_sample (compress_sample chunk_new (ts, v)) (ts', v')"
  shows "writer_bits (cc_writer c) = msb_bits 64 ts @ msb_bits 64 v @ msb_bits 14 (ts' - ts) @ value_bits (U8_MAX, 0) (v' XOR v)"
    and "writer_ok (cc_writer c)" and "cc_sample_count c = 2" and "cc_prev_ts c = ts'" and "cc_prev_delta c = ts' - ts"
    and "cc_prev_val_bits c = v'" and "cc_prev_window c = next_window (U8_MAX, 0) (v' XOR v)"
proof -
  have new: "writer_ok bit_writer_new" by (simp add: writer_ok_def) (simp add: bit_writer_new_def)
  define w where "w = write_i64_bits (ts' - ts) 14 (write_bits v 64 (write_i64_bits ts 64 bit_writer_new))"
  have w: "writer_bits w = msb_bits 64 ts @ msb_bits 64 v @ msb_bits 14 (ts' - ts)" "writer_ok w"
    using new by (simp_all add: w_def write_i64_bits_bits write_bits_bits)
  obtain w' where w': "encode_value_xor v' v w (U8_MAX, 0) = (w', next_window (U8_MAX, 0) (v' XOR v))" "writer_ok w'"
      "writer_bits w' = writer_bits w @ value_bits (U8_MAX, 0) (v' XOR v)"
    using encode_value_bits [OF w(2)] by blast
  have c: "c = \<lparr>cc_writer = w', cc_prev_ts = ts', cc_prev_delta = ts' - ts, cc_prev_val_bits = v',
      cc_prev_window = next_window (U8_MAX, 0) (v' XOR v), cc_sample_count = 2\<rparr>"
    using w'(1) by (simp add: c_def compress_sample_def chunk_new_def Let_def w_def U16_MAX_def)
  show "writer_bits (cc_writer c) = msb_bits 64 ts @ msb_bits 64 v @ msb_bits 14 (ts' - ts) @ value_bits (U8_MAX, 0) (v' XOR v)"
    "writer_ok (cc_writer c)" "cc_sample_count c = 2" "cc_prev_ts c = ts'" "cc_prev_delta c = ts' - ts"
    "cc_prev_val_bits c = v'" "cc_prev_window c = next_window (U8_MAX, 0) (v' XOR v)"
    using w w' by (simp_all add: c)
qed

lemma reads_first:
  assumes "remaining r = msb_bits 64 ts @ msb_bits 64 v @ rest"
  shows "\<exists>r1 r2. read_i64_bits 64 r = Some (ts, r1) \<and> read_bits 64 r1 = Some (v, r2) \<and> remaining r2 = rest"
proof -
  obtain r1 where r1: "read_i64_bits 64 r = Some (ts, r1)" "remaining r1 = msb_bits 64 v @ rest"
    using reads_as_i64 [of 64 ts] assms by (auto simp: reads_as_def)
  moreover obtain r2 where "read_bits 64 r1 = Some (v, r2)" "remaining r2 = rest"
    using reads_as_bits [of 64 v] r1(2) by (auto simp: reads_as_def take_bit_word_eq_self)
  ultimately show ?thesis by blast
qed

lemma remaining_new: "remaining (bit_reader_new buf) = bytes_bits buf"
  by (simp add: remaining_def bit_reader_new_def)

lemma roundtrip_many:
  assumes ok: "samples_ok ((ts, v) # (ts', v') # xs)" and n: "length xs + 2 \<le> U16_MAX"
  shows "decompress_all (from_samples ((ts, v) # (ts', v') # xs)) = Some ((ts, v) # (ts', v') # xs)"
proof -
  define c where "c = compress_sample (compress_sample chunk_new (ts, v)) (ts', v')"
  note two = compress_two [of ts v ts' v', folded c_def]
  let ?c = "from_samples ((ts, v) # (ts', v') # xs)"
  define B where "B = rest_bits ts' (ts' - ts) v' (next_window (U8_MAX, 0) (v' XOR v)) xs"
  have bits: "writer_bits (cc_writer ?c) = (msb_bits 64 ts @ msb_bits 64 v @ msb_bits 14 (ts' - ts) @ value_bits (U8_MAX, 0) (v' XOR v)) @ B"
      "writer_ok (cc_writer ?c)" "cc_sample_count ?c = 2 + length xs"
    using compress_rest [OF two(2), of xs] two n by (simp_all add: from_samples_def c_def [symmetric] Let_def B_def)
  obtain pad where "bytes_bits (writer_finish (cc_writer ?c)) = writer_bits (cc_writer ?c) @ pad"
    using writer_finish_bits [OF bits(2)] by blast
  then obtain r1 r2 where r: "read_i64_bits 64 (bit_reader_new (writer_finish (cc_writer ?c))) = Some (ts, r1)" "read_bits 64 r1 = Some (v, r2)"
      "remaining r2 = msb_bits 14 (ts' - ts) @ value_bits (U8_MAX, 0) (v' XOR v) @ B @ pad"
    using reads_first [of "bit_reader_new (writer_finish (cc_writer ?c))" ts v] bits(1) by (fastforce simp: remaining_new)
  obtain r3 where r3: "read_i64_bits 14 r2 = Some (ts' - ts, r3)" "remaining r3 = value_bits (U8_MAX, 0) (v' XOR v) @ B @ pad"
    using reads_as_i64 [of 14 "ts' - ts"] ok r(3) by (auto simp: reads_as_def)
  obtain r4 where r4: "decode_value_xor v (U8_MAX, 0) r3 = Some ((v', next_window (U8_MAX, 0) (v' XOR v)), r4)" "remaining r4 = B @ pad"
    using reads_value [of "(U8_MAX, 0)" v' v] ok r3(2) by (auto simp: reads_as_def)
  have "decompress_loop (length xs) ts' (ts' - ts) v' (next_window (U8_MAX, 0) (v' XOR v)) r4 = Some xs"
    using decompress_rest ok r4(2) by (simp add: B_def)
  then show ?thesis using bits(3) r r3 r4 by (simp add: decompress_all_def)
qed

lemma roundtrip_one: "decompress_all (from_samples [(ts, v)]) = Some [(ts, v)]"
proof -
  have new: "writer_ok bit_writer_new" by (simp add: writer_ok_def) (simp add: bit_writer_new_def)
  let ?w = "write_bits v 64 (write_i64_bits ts 64 bit_writer_new)"
  have w: "writer_bits ?w = msb_bits 64 ts @ msb_bits 64 v" "writer_ok ?w"
    using new by (simp_all add: write_i64_bits_bits write_bits_bits)
  obtain pad where "bytes_bits (writer_finish ?w) = writer_bits ?w @ pad" using writer_finish_bits [OF w(2)] by blast
  then have "remaining (bit_reader_new (writer_finish ?w)) = msb_bits 64 ts @ msb_bits 64 v @ pad" by (simp add: remaining_new w(1))
  then obtain r1 r2 where "read_i64_bits 64 (bit_reader_new (writer_finish ?w)) = Some (ts, r1)" "read_bits 64 r1 = Some (v, r2)"
    using reads_first by blast
  then show ?thesis by (simp add: decompress_all_def from_samples_def compress_sample_def chunk_new_def Let_def U16_MAX_def)
qed

lemma roundtrip:
  assumes "samples_ok samples" and "length samples \<le> U16_MAX"
  shows "decompress_all (from_samples samples) = Some samples"
proof (cases samples)
  case Nil
  then show ?thesis by (simp add: decompress_all_def from_samples_def chunk_new_def)
next
  case (Cons s xs)
  show ?thesis
  proof (cases xs)
    case Nil
    then show ?thesis using Cons roundtrip_one [of "fst s" "snd s"] by simp
  next
    case tail: (Cons s' ys)
    then show ?thesis using Cons roundtrip_many [of "fst s" "snd s" "fst s'" "snd s'" ys] assms by simp
  qed
qed

text \<open>Where the codes are too short. A first step of ten seconds comes back as a step into the past, a step that grows by 64 as one
  that shrinks by 64, and two values that differ in the lowest bit only as values that differ in bit 32.\<close>

lemma reads_as_short:
  assumes "take_bit n v = take_bit n u" "0 < n" "n < 64" "- (2 ^ (n - 1)) \<le> sint u" "sint u < 2 ^ (n - 1)"
  shows "reads_as (read_i64_bits n) (msb_bits n v) u"
proof -
  have "bit v i = bit u i" if "i < n" for i
    using arg_cong [OF assms(1), of "\<lambda>x. bit x i"] that by (simp add: bit_take_bit_iff)
  then have "msb_bits n v = msb_bits n u" by (simp add: msb_bits_def)
  then show ?thesis using reads_as_i64 [of n u] assms by simp
qed

lemma first_step_cut: "reads_as (read_i64_bits 14) (msb_bits 14 (10000 :: 64 word)) (- 6384)"
  by (rule reads_as_short) simp_all

lemma growing_step_cut: "reads_as decode_delta_of_delta (delta_bits 64) (- 64)"
proof -
  have "reads_as (read_i64_bits 7) (msb_bits 7 (64 :: 64 word)) (- 64)" by (rule reads_as_short) simp_all
  then show ?thesis unfolding delta_bits_def decode_delta_of_delta_def by (auto intro!: reads_as_branch)
qed

lemma leading_zeros_less: "bit x i \<Longrightarrow> 64 - n \<le> i \<Longrightarrow> leading_zeros x < n"
  using leading_zero [of x i] by (meson diff_le_mono2 le_trans not_less)

lemma lowest_bit_cut: "reads_as (decode_value_xor 0 (U8_MAX, 0)) (value_bits (U8_MAX, 0) 1) (4294967296, 31, 32)"
proof -
  have "[0..<64] = 0 # [1..<64]" by (simp add: upt_conv_Cons)
  moreover have "takeWhile ((<) 0) (rev [Suc 0..<64] @ [0]) = rev [Suc 0..<64]" by (subst takeWhile_append2) auto
  ultimately have z: "leading_zeros 1 = 63" "trailing_zeros 1 = 0"
    by (simp_all add: leading_zeros_def trailing_zeros_def bit_1_iff)
  have bits: "value_bits (U8_MAX, 0) 1 = True # True # msb_bits 5 (63 :: 64 word) @ msb_bits 6 (1 :: 64 word) @ msb_bits 1 (1 :: 64 word)"
    by (simp add: value_bits_def reuses_window_def z encode_sig_len_def)
  have "reads_as (\<lambda>r. Option.bind (read_bits 1 r) (\<lambda>(meaningful, r). Some ((0 XOR push_bit 32 meaningful, 31 :: nat, 32 :: nat), r)))
      (msb_bits 1 (1 :: 64 word) @ []) (4294967296, 31, 32)"
    using reads_as_return [of "(4294967296, 31, 32) :: 64 word \<times> nat \<times> nat"] by (intro reads_as_bind [OF reads_as_bits]) simp_all
  then have "reads_as (\<lambda>r. Option.bind (read_bits 5 r) (\<lambda>(leading, r). Option.bind (read_bits 6 r) (\<lambda>(len, r).
        Option.bind (read_bits (decode_sig_len (unat len)) r) (\<lambda>(meaningful, r).
          Some ((0 XOR push_bit (64 - (unat leading + decode_sig_len (unat len))) meaningful, unat leading,
            64 - (unat leading + decode_sig_len (unat len))), r)))))
      (msb_bits 5 (63 :: 64 word) @ msb_bits 6 (1 :: 64 word) @ msb_bits 1 (1 :: 64 word)) (4294967296, 31, 32)"
    by (intro reads_as_bind [OF reads_as_bits]) (simp_all add: decode_sig_len_def)
  then show ?thesis unfolding bits decode_value_xor_def Let_def by (intro reads_as_branch)
qed

text \<open>C25. What a chunk returns after compression is exactly the samples that went in, for every list of at most 65535 samples
  whose first step fits 14 bits, in which no change of the step is exactly 64, 256 or 2048, and whose values never need more
  than 31 leading zeros to be written: reading and writing of single bits, the five codes of the timestamps, the reuse of the
  window of significant bits and the padding of the last byte are inverse to each other.\<close>

theorem gorilla_roundtrip:
  assumes "samples_ok samples" and "length samples \<le> U16_MAX"
  shows "decompress_all (from_samples samples) = Some samples"
  using assms by (rule roundtrip)

theorem gorilla_roundtrip_witness:
  "decompress_all (from_samples [(5, 0x4030000000000000), (1005, 0x4031000000000000), (2015, 0x4032000000000000), (3000, 0x4032000000000000)]) =
     Some [(5, 0x4030000000000000), (1005, 0x4031000000000000), (2015, 0x4032000000000000), (3000, 0x4032000000000000)]"
proof (rule gorilla_roundtrip)
  have "leading_zeros (0x4031000000000000 XOR 0x4030000000000000) < 32" "leading_zeros (0x4032000000000000 XOR 0x4031000000000000) < 32"
    by (rule leading_zeros_less [of _ 48]; simp)+
  then show "samples_ok [(5, 0x4030000000000000), (1005, 0x4031000000000000), (2015, 0x4032000000000000), (3000, 0x4032000000000000)]"
    by (simp add: value_ok_def)
qed (simp add: U16_MAX_def)


end
