(* ===== verification/TimeSeries.thy ===== *)
theory TimeSeries
  imports Gorilla Float64
begin

text \<open>
  Time series, senko-ts/src/series.rs with the aggregators of agg.rs: chunks of samples that are compressed
  (theory Gorilla) or not, additions with their duplicate policies, deletions, retention, range queries and
  aggregation into buckets. Timestamps are 64-bit words compared as signed numbers. \<open>None\<close> is a panic of the
  decompression or a loop that does not end.
\<close>

section \<open>Chunks\<close>

datatype encoding = EncCompressed | EncUncompressed

datatype chunk_data = DataCompressed compressed_chunk | DataUncompressed "sample list"

record chunk =
  ck_base_ts :: "64 word"
  ck_max_ts :: "64 word"
  ck_num_samples :: nat
  ck_data :: chunk_data

definition new_chunk :: "64 word \<Rightarrow> encoding \<Rightarrow> chunk" where
  "new_chunk base_ts enc =
     \<lparr>ck_base_ts = base_ts, ck_max_ts = base_ts, ck_num_samples = 0,
      ck_data = (case enc of EncCompressed \<Rightarrow> DataCompressed chunk_new | EncUncompressed \<Rightarrow> DataUncompressed [])\<rparr>"

definition chunk_push :: "chunk \<Rightarrow> sample \<Rightarrow> chunk" where
  "chunk_push c s =
     c\<lparr>ck_max_ts := fst s, ck_num_samples := min (ck_num_samples c + 1) U16_MAX,
       ck_data := (case ck_data c of
           DataCompressed cc \<Rightarrow> DataCompressed (compress_sample cc s)
         | DataUncompressed samples \<Rightarrow> DataUncompressed (samples @ [s]))\<rparr>"

definition chunk_samples :: "chunk \<Rightarrow> sample list option" where
  "chunk_samples c = (case ck_data c of DataCompressed cc \<Rightarrow> decompress_all cc | DataUncompressed samples \<Rightarrow> Some samples)"

definition replace_samples :: "chunk \<Rightarrow> sample list \<Rightarrow> chunk" where
  "replace_samples c samples =
     c\<lparr>ck_num_samples := length samples mod 2 ^ 16,
       ck_base_ts := (case samples of [] \<Rightarrow> ck_base_ts c | (ts, _) # _ \<Rightarrow> ts),
       ck_max_ts := (if samples = [] then ck_max_ts c else fst (last samples)),
       ck_data := (case ck_data c of
           DataCompressed _ \<Rightarrow> DataCompressed (from_samples samples)
         | DataUncompressed _ \<Rightarrow> DataUncompressed samples)\<rparr>"

definition approx_size :: "chunk \<Rightarrow> nat" where
  "approx_size c = (case ck_data c of DataCompressed cc \<Rightarrow> chunk_byte_len cc | DataUncompressed samples \<Rightarrow> length samples * 16)"

section \<open>Series\<close>

datatype dup_policy = DupBlock | DupFirst | DupLast | DupMin | DupMax | DupSum

record ignore_config =
  max_time_diff :: "64 word"
  max_val_diff :: f64

datatype ts_error = KeyExists | KeyNotFound | BadFilter | Blocked | BadTimestamp | BadValue | RuleExists | RuleNotFound | TsWrongType

record time_series =
  chunks :: "chunk list"
  retention_ms :: "64 word"
  chunk_size :: nat
  series_encoding :: encoding
  dup_policy :: dup_policy
  ignore :: ignore_config
  last_ts :: "64 word"
  last_val :: f64
  total_samples :: nat

definition I64_MIN :: "64 word" where "I64_MIN = push_bit 63 1"

definition time_series_default :: time_series where
  "time_series_default =
     \<lparr>chunks = [], retention_ms = 0, chunk_size = 4096, series_encoding = EncCompressed, dup_policy = DupBlock,
      ignore = \<lparr>max_time_diff = 0, max_val_diff = f64_zero\<rparr>, last_ts = I64_MIN, last_val = f64_zero, total_samples = 0\<rparr>"

definition latest_sample :: "time_series \<Rightarrow> sample option" where
  "latest_sample s = (if total_samples s > 0 then Some (last_ts s, last_val s) else None)"

fun collect_samples :: "chunk list \<Rightarrow> sample list option" where
  "collect_samples [] = Some []"
| "collect_samples (c # cs) = Option.bind (chunk_samples c) (\<lambda>xs. map_option (append xs) (collect_samples cs))"

definition all_samples :: "time_series \<Rightarrow> sample list option" where
  "all_samples s = collect_samples (chunks s)"

definition recompute_summary :: "time_series \<Rightarrow> time_series option" where
  "recompute_summary s =
     (let s = s\<lparr>chunks := filter (\<lambda>c. ck_num_samples c > 0) (chunks s)\<rparr>;
          s = s\<lparr>total_samples := sum_list (map ck_num_samples (chunks s))\<rparr>
      in map_option (\<lambda>samples.
           if samples = [] then s\<lparr>last_ts := I64_MIN, last_val := f64_zero\<rparr>
           else s\<lparr>last_ts := fst (last samples), last_val := snd (last samples)\<rparr>) (all_samples s))"

text \<open>\<open>saturating_add\<close> and \<open>saturating_sub\<close> of \<open>i64\<close>.\<close>

definition sat_i64 :: "int \<Rightarrow> 64 word" where
  "sat_i64 n = of_int (max i64_min (min i64_max n))"

definition sat_add_i64 :: "64 word \<Rightarrow> 64 word \<Rightarrow> 64 word" where
  "sat_add_i64 a b = sat_i64 (sint a + sint b)"

definition sat_sub_i64 :: "64 word \<Rightarrow> 64 word \<Rightarrow> 64 word" where
  "sat_sub_i64 a b = sat_i64 (sint a - sint b)"

definition enforce_retention :: "time_series \<Rightarrow> 64 word \<Rightarrow> time_series option" where
  "enforce_retention s now_ms =
     (if retention_ms s = 0 then Some s
      else let cutoff = sat_sub_i64 now_ms (retention_ms s)
           in recompute_summary (s\<lparr>chunks := dropWhile (\<lambda>c. sint (ck_max_ts c) < sint cutoff) (chunks s)\<rparr>))"

definition append_sample :: "nat \<Rightarrow> encoding \<Rightarrow> chunk list \<Rightarrow> sample \<Rightarrow> chunk list" where
  "append_sample size_limit enc cs s =
     (let cs = (if cs = [] \<or> approx_size (last cs) \<ge> size_limit then cs @ [new_chunk (fst s) enc] else cs)
      in butlast cs @ [chunk_push (last cs) s])"

definition rebuild_from_samples :: "time_series \<Rightarrow> sample list \<Rightarrow> 64 word \<Rightarrow> time_series option" where
  "rebuild_from_samples s samples now_ms =
     (let s = s\<lparr>chunks := foldl (append_sample (chunk_size s) (series_encoding s)) [] samples\<rparr>
      in Option.bind (enforce_retention s now_ms) recompute_summary)"

definition should_ignore :: "time_series \<Rightarrow> sample \<Rightarrow> bool" where
  "should_ignore s x \<longleftrightarrow>
     total_samples s > 0 \<and> sint (fst x - last_ts s) \<le> sint (max_time_diff (ignore s)) \<and>
     f64_le (f64_abs (f64_sub (snd x) (last_val s))) (max_val_diff (ignore s))"

fun merge_value :: "dup_policy \<Rightarrow> f64 \<Rightarrow> f64 \<Rightarrow> (ts_error + f64 option)" where
  "merge_value DupBlock old new = Inl Blocked"
| "merge_value DupFirst old new = Inr None"
| "merge_value DupLast old new = Inr (Some new)"
| "merge_value DupMin old new = Inr (Some (f64_min old new))"
| "merge_value DupMax old new = Inr (Some (f64_max old new))"
| "merge_value DupSum old new = Inr (Some (f64_add old new))"

definition add_sample :: "time_series \<Rightarrow> sample \<Rightarrow> 64 word \<Rightarrow> dup_policy option \<Rightarrow> ((ts_error + bool) \<times> time_series) option" where
  "add_sample s x now_ms on_duplicate =
     (if should_ignore s x then Some (Inr False, s)
      else Option.bind (all_samples s) (\<lambda>samples.
        case binary_search (map (sint \<circ> fst) samples) (sint (fst x)) of
          Inr i \<Rightarrow>
            (case merge_value (case on_duplicate of Some p \<Rightarrow> p | None \<Rightarrow> dup_policy s) (snd (samples ! i)) (snd x) of
               Inl e \<Rightarrow> Some (Inl e, s)
             | Inr None \<Rightarrow> Some (Inr False, s)
             | Inr (Some v) \<Rightarrow> map_option (Pair (Inr True)) (rebuild_from_samples s (samples[i := (fst (samples ! i), v)]) now_ms))
        | Inl i \<Rightarrow> map_option (Pair (Inr True)) (rebuild_from_samples s (insert_at i x samples) now_ms)))"

fun delete_from :: "64 word \<Rightarrow> 64 word \<Rightarrow> chunk list \<Rightarrow> (nat \<times> chunk list) option" where
  "delete_from lo hi [] = Some (0, [])"
| "delete_from lo hi (c # cs) =
     Option.bind (chunk_samples c) (\<lambda>samples.
       let retained = filter (\<lambda>(ts, _). sint ts < sint lo \<or> sint ts > sint hi) samples
       in map_option (\<lambda>(n, cs). (n + (length samples - length retained), replace_samples c retained # cs)) (delete_from lo hi cs))"

definition delete_range :: "time_series \<Rightarrow> 64 word \<Rightarrow> 64 word \<Rightarrow> (nat \<times> time_series) option" where
  "delete_range s lo hi =
     Option.bind (delete_from lo hi (chunks s)) (\<lambda>(n, cs). map_option (Pair n) (recompute_summary (s\<lparr>chunks := cs\<rparr>)))"

definition query_range ::
    "time_series \<Rightarrow> 64 word \<Rightarrow> 64 word \<Rightarrow> bool \<Rightarrow> 64 word set option \<Rightarrow> (f64 \<times> f64) option \<Rightarrow> nat option \<Rightarrow> sample list option" where
  "query_range s lo hi reverse filter_ts filter_value limit =
     map_option (\<lambda>samples.
       let kept = filter (\<lambda>(ts, v). sint ts \<ge> sint lo \<and> sint ts \<le> sint hi \<and>
             (case filter_ts of None \<Rightarrow> True | Some allowed \<Rightarrow> ts \<in> allowed) \<and>
             (case filter_value of None \<Rightarrow> True | Some (mn, mx) \<Rightarrow> f64_le mn v \<and> f64_le v mx)) samples;
           ordered = (if reverse then rev kept else kept)
       in case limit of None \<Rightarrow> ordered | Some n \<Rightarrow> take n ordered) (all_samples s)"

section \<open>Aggregation\<close>

datatype aggregation = AggAvg | AggFirst | AggLast | AggMin | AggMax | AggSum | AggRange | AggCount | AggStdP | AggStdS | AggVarP | AggVarS | AggTwa

record aggregator =
  ag_first :: "f64 option"
  ag_last :: "f64 option"
  ag_min :: "f64 option"
  ag_max :: "f64 option"
  ag_sum :: f64
  ag_count :: nat
  ag_mean :: f64
  ag_m2 :: f64
  ag_twa_area :: f64
  ag_prev_sample :: "sample option"

definition aggregator_default :: aggregator where
  "aggregator_default =
     \<lparr>ag_first = None, ag_last = None, ag_min = None, ag_max = None, ag_sum = f64_zero, ag_count = 0, ag_mean = f64_zero,
      ag_m2 = f64_zero, ag_twa_area = f64_zero, ag_prev_sample = None\<rparr>"

definition F64_HALF :: f64 where "F64_HALF = 0x3FE0000000000000"

definition aggregator_push :: "aggregator \<Rightarrow> sample \<Rightarrow> aggregator" where
  "aggregator_push a s = (case s of (ts, v) \<Rightarrow>
     let n = ag_count a + 1;
         delta = f64_sub v (ag_mean a);
         mean = f64_add (ag_mean a) (f64_div delta (f64_of_int (int n)));
         delta2 = f64_sub v mean
     in a\<lparr>ag_first := (case ag_first a of None \<Rightarrow> Some v | Some x \<Rightarrow> Some x),
          ag_last := Some v,
          ag_min := Some (case ag_min a of None \<Rightarrow> v | Some x \<Rightarrow> f64_min x v),
          ag_max := Some (case ag_max a of None \<Rightarrow> v | Some x \<Rightarrow> f64_max x v),
          ag_sum := f64_add (ag_sum a) v,
          ag_count := n,
          ag_mean := mean,
          ag_m2 := f64_add (ag_m2 a) (f64_mul delta delta2),
          ag_twa_area := (case ag_prev_sample a of
              None \<Rightarrow> ag_twa_area a
            | Some (prev_ts, prev_val) \<Rightarrow>
                f64_add (ag_twa_area a)
                  (f64_mul (f64_mul (f64_add prev_val v) F64_HALF) (f64_of_int (max (sint (ts - prev_ts)) 0)))),
          ag_prev_sample := Some (ts, v)\<rparr>)"

definition aggregator_value :: "aggregator \<Rightarrow> aggregation \<Rightarrow> 64 word \<Rightarrow> 64 word \<Rightarrow> f64 option" where
  "aggregator_value a kind bucket_start bucket_end =
     (let n = f64_of_int (int (ag_count a)); n1 = f64_of_int (int (ag_count a - 1)) in
      case kind of
        AggAvg \<Rightarrow> if ag_count a > 0 then Some (f64_div (ag_sum a) n) else None
      | AggFirst \<Rightarrow> ag_first a
      | AggLast \<Rightarrow> ag_last a
      | AggMin \<Rightarrow> ag_min a
      | AggMax \<Rightarrow> ag_max a
      | AggSum \<Rightarrow> if ag_count a > 0 then Some (ag_sum a) else None
      | AggRange \<Rightarrow> (case (ag_min a, ag_max a) of (Some mn, Some mx) \<Rightarrow> Some (f64_sub mx mn) | _ \<Rightarrow> None)
      | AggCount \<Rightarrow> Some n
      | AggStdP \<Rightarrow> if ag_count a > 0 then Some (f64_sqrt (f64_div (ag_m2 a) n)) else None
      | AggStdS \<Rightarrow> if ag_count a > 1 then Some (f64_sqrt (f64_div (ag_m2 a) n1)) else None
      | AggVarP \<Rightarrow> if ag_count a > 0 then Some (f64_div (ag_m2 a) n) else None
      | AggVarS \<Rightarrow> if ag_count a > 1 then Some (f64_div (ag_m2 a) n1) else None
      | AggTwa \<Rightarrow>
          let span = f64_of_int (max (sint (bucket_end - bucket_start)) 0)
          in if ag_count a = 0 \<or> f64_eq span f64_zero then None
             else if ag_count a = 1 then ag_first a
             else Some (f64_div (ag_twa_area a) span))"

datatype bucket_timestamp = BucketStart | BucketEnd | BucketMid

definition align_bucket :: "64 word \<Rightarrow> 64 word \<Rightarrow> 64 word \<Rightarrow> 64 word" where
  "align_bucket timestamp duration align_ts =
     (if sint duration \<le> 0 then timestamp
      else sat_sub_i64 timestamp (of_int (sint (sat_sub_i64 timestamp align_ts) mod sint duration)))"

text \<open>Division of \<open>i64\<close> rounds towards zero; the difference is not negative here.\<close>

definition bucket_ts :: "64 word \<Rightarrow> 64 word \<Rightarrow> bucket_timestamp \<Rightarrow> 64 word" where
  "bucket_ts bucket_start bucket_end kind = (case kind of
      BucketStart \<Rightarrow> bucket_start
    | BucketEnd \<Rightarrow> sat_sub_i64 bucket_end 1
    | BucketMid \<Rightarrow>
        let d = sint (sat_sub_i64 bucket_end bucket_start)
        in sat_add_i64 bucket_start (of_int (if d < 0 then - (- d div 2) else d div 2)))"

fun fill_bucket :: "64 word \<Rightarrow> 64 word \<Rightarrow> aggregator \<Rightarrow> sample list \<Rightarrow> aggregator \<times> sample list" where
  "fill_bucket lo hi a [] = (a, [])"
| "fill_bucket lo hi a ((ts, v) # xs) =
     (if sint ts < sint lo then fill_bucket lo hi a xs
      else if sint ts \<ge> sint hi then (a, (ts, v) # xs)
      else fill_bucket lo hi (aggregator_push a (ts, v)) xs)"

definition bucket_row :: "aggregation \<Rightarrow> bucket_timestamp \<Rightarrow> bool \<Rightarrow> 64 word \<Rightarrow> 64 word \<Rightarrow> aggregator \<Rightarrow> sample list" where
  "bucket_row kind stamp with_empty lo hi a = (case aggregator_value a kind lo hi of
      Some v \<Rightarrow> [(bucket_ts lo hi stamp, v)]
    | None \<Rightarrow> if with_empty then [(bucket_ts lo hi stamp, f64_nan)] else [])"

partial_function (option) aggregate_loop ::
    "aggregation \<Rightarrow> bucket_timestamp \<Rightarrow> bool \<Rightarrow> 64 word \<Rightarrow> 64 word \<Rightarrow> 64 word \<Rightarrow> sample list \<Rightarrow> sample list option" where
  "aggregate_loop kind stamp with_empty duration to bucket_start samples =
     (if sint bucket_start \<le> sint to then
        (let bucket_end = sat_add_i64 bucket_start duration;
             filled = fill_bucket bucket_start bucket_end aggregator_default samples
         in Option.bind (aggregate_loop kind stamp with_empty duration to (sat_add_i64 bucket_start duration) (snd filled))
              (\<lambda>out. Some (bucket_row kind stamp with_empty bucket_start bucket_end (fst filled) @ out)))
      else Some [])"

definition aggregate_series ::
    "sample list \<Rightarrow> aggregation \<Rightarrow> 64 word \<Rightarrow> 64 word \<Rightarrow> bucket_timestamp \<Rightarrow> bool \<Rightarrow> 64 word \<Rightarrow> 64 word \<Rightarrow> sample list option" where
  "aggregate_series samples kind duration align_ts stamp with_empty from to =
     (if duration = 0 then Some samples
      else aggregate_loop kind stamp with_empty duration to (align_bucket from duration align_ts) samples)"


section \<open>Buckets\<close>

abbreviation ts_of :: "sample \<Rightarrow> int" where
  "ts_of s \<equiv> sint (fst s)"

lemma sint_i64 [simp]: "i64_min \<le> sint (x :: 64 word)" "sint (x :: 64 word) \<le> i64_max"
  using sint_ge [of x] sint_lt [of x] by simp_all

lemma sint_sat_i64: "sint (sat_i64 n) = max i64_min (min i64_max n)"
  by (simp add: sat_i64_def signed_of_int signed_take_bit_int_eq_self)

text \<open>The specification: the buckets that start at \<open>start\<close> and follow each other up to \<open>to\<close>; a bucket holds the samples
  from its start to its end.\<close>

definition bucket_starts :: "int \<Rightarrow> int \<Rightarrow> int \<Rightarrow> int list" where
  "bucket_starts duration start to =
     (if start \<le> to then map (\<lambda>k. start + int k * duration) [0..<Suc (nat ((to - start) div duration))] else [])"

definition bucket_rows :: "aggregation \<Rightarrow> bucket_timestamp \<Rightarrow> bool \<Rightarrow> int \<Rightarrow> int \<Rightarrow> int \<Rightarrow> sample list \<Rightarrow> sample list" where
  "bucket_rows kind stamp with_empty duration start to samples =
     concat (map (\<lambda>lo. let hi = min i64_max (lo + duration)
       in bucket_row kind stamp with_empty (of_int lo) (of_int hi)
            (foldl aggregator_push aggregator_default (filter (\<lambda>s. lo \<le> ts_of s \<and> ts_of s < hi) samples)))
       (bucket_starts duration start to))"

lemma bucket_starts_Cons:
  assumes "0 < d" "start \<le> to"
  shows "bucket_starts d start to = start # bucket_starts d (start + d) to"
proof (cases "start + d \<le> to")
  case True
  have "(to - start) div d = (to - (start + d)) div d + 1" using assms(1) div_add_self2 [of d "to - (start + d)"] by simp
  moreover have "0 \<le> (to - (start + d)) div d" using True assms(1) by (simp add: pos_imp_zdiv_nonneg_iff)
  ultimately have "nat ((to - start) div d) = Suc (nat ((to - (start + d)) div d))" by simp
  then show ?thesis using assms True
    by (simp add: bucket_starts_def upt_conv_Cons map_Suc_upt [symmetric] comp_def algebra_simps del: upt_Suc)
next
  case False
  then have "(to - start) div d = 0" using assms by (simp add: div_pos_pos_trivial)
  then show ?thesis using assms False by (simp add: bucket_starts_def)
qed

abbreviation in_order :: "sample list \<Rightarrow> bool" where
  "in_order xs \<equiv> sorted_wrt (\<lambda>a b. ts_of a < ts_of b) xs"

lemma fill_bucket_sorted:
  "in_order xs \<Longrightarrow> fill_bucket lo hi a xs =
     (foldl aggregator_push a (filter (\<lambda>s. sint lo \<le> ts_of s \<and> ts_of s < sint hi) xs),
      filter (\<lambda>s. sint lo \<le> ts_of s \<and> sint hi \<le> ts_of s) xs)"
proof (induction lo hi a xs rule: fill_bucket.induct)
  case (2 lo hi a ts v xs)
  have "filter (\<lambda>s. sint lo \<le> ts_of s \<and> ts_of s < sint hi) xs = [] \<and> filter (\<lambda>s. sint lo \<le> ts_of s \<and> sint hi \<le> ts_of s) xs = xs"
    if "\<not> sint ts < sint lo" "sint hi \<le> sint ts"
    using that "2.prems" by (fastforce simp: filter_empty_conv filter_id_conv)
  then show ?case using 2 by auto
qed simp

lemma bucket_starts_ge: "0 < d \<Longrightarrow> lo \<in> set (bucket_starts d start to) \<Longrightarrow> start \<le> lo"
  by (auto simp: bucket_starts_def split: if_splits)

lemma bucket_rows_rest:
  assumes d: "0 < d" and to: "to < i64_max"
  shows "bucket_rows kind stamp e d (min i64_max (start + d)) to (filter (\<lambda>s. start \<le> ts_of s \<and> min i64_max (start + d) \<le> ts_of s) samples) =
    bucket_rows kind stamp e d (start + d) to samples"
proof (cases "start + d \<le> i64_max")
  case False
  then show ?thesis using to by (simp add: bucket_rows_def bucket_starts_def)
next
  case True
  have "filter (\<lambda>s. lo \<le> ts_of s \<and> ts_of s < hi) (filter (\<lambda>s. start \<le> ts_of s \<and> start + d \<le> ts_of s) samples) =
      filter (\<lambda>s. lo \<le> ts_of s \<and> ts_of s < hi) samples" if "lo \<in> set (bucket_starts d (start + d) to)" for lo hi
    using bucket_starts_ge [OF d that] d by (auto intro!: filter_cong)
  then show ?thesis using True unfolding bucket_rows_def Let_def by (intro arg_cong [of _ _ concat] map_cong) (simp_all add: min_absorb2 del: min_less_iff_conj)
qed

lemma aggregate_loop_spec:
  assumes d: "0 < sint duration" and to: "sint to < i64_max" and s: "in_order samples"
  shows "aggregate_loop kind stamp e duration to start samples =
    Some (bucket_rows kind stamp e (sint duration) (sint start) (sint to) samples)"
  using s
proof (induction "nat (sint to + 1 - sint start)" arbitrary: start samples rule: less_induct)
  case less
  show ?case
  proof (cases "sint start \<le> sint to")
    case False
    then show ?thesis by (simp add: aggregate_loop.simps [of _ _ _ _ _ start] bucket_rows_def bucket_starts_def)
  next
    case True
    define hi where "hi = sat_add_i64 start duration"
    have hi: "sint hi = min i64_max (sint start + sint duration)"
      by (simp add: hi_def sat_add_i64_def sint_sat_i64 max_def) (use d sint_i64(1) [of start] in linarith)
    have lt: "sint start < sint hi" using True to d hi by auto
    define rest where "rest = filter (\<lambda>s. sint start \<le> ts_of s \<and> sint hi \<le> ts_of s) samples"
    have "aggregate_loop kind stamp e duration to hi rest = Some (bucket_rows kind stamp e (sint duration) (sint hi) (sint to) rest)"
      using lt True less.prems by (intro less.hyps) (auto simp: rest_def sorted_wrt_filter)
    moreover have "bucket_rows kind stamp e (sint duration) (sint hi) (sint to) rest
        = bucket_rows kind stamp e (sint duration) (sint start + sint duration) (sint to) samples"
      using bucket_rows_rest [OF d to, of kind stamp e "sint start" samples] by (simp add: hi rest_def)
    moreover have "bucket_rows kind stamp e (sint duration) (sint start) (sint to) samples =
        bucket_row kind stamp e start hi (foldl aggregator_push aggregator_default (filter (\<lambda>s. sint start \<le> ts_of s \<and> ts_of s < sint hi) samples)) @
        bucket_rows kind stamp e (sint duration) (sint start + sint duration) (sint to) samples"
      unfolding bucket_rows_def bucket_starts_Cons [OF d True] Let_def by (simp add: hi [symmetric] del: min_less_iff_conj)
    ultimately show ?thesis
      using True less.prems
      by (simp add: aggregate_loop.simps [of _ _ _ _ _ start] hi_def [symmetric] Let_def fill_bucket_sorted) (simp add: rest_def)
  qed
qed


text \<open>A range that is open to the right never ends: the start of the bucket saturates at the largest timestamp, which is in the
  range.\<close>

lemma aggregate_loop_Some:
  assumes "aggregate_loop kind stamp e duration to start samples = Some out"
  shows "sint to \<noteq> i64_max \<and> (sint duration < 0 \<longrightarrow> sint to < sint start)"
proof (rule aggregate_loop.raw_induct [where P = "\<lambda>_ _ _ duration to start _ _. sint to \<noteq> i64_max \<and> (sint duration < 0 \<longrightarrow> sint to < sint start)",
    OF _ assms])
  fix loop kind stamp e duration to start samples out
  assume IH: "\<And>kind stamp e duration to start samples out. loop kind stamp e duration to start samples = Some out \<Longrightarrow>
      sint to \<noteq> i64_max \<and> (sint duration < 0 \<longrightarrow> sint to < sint start)"
    and body: "(if sint start \<le> sint to then
        (let bucket_end = sat_add_i64 start duration;
             filled = fill_bucket start bucket_end aggregator_default samples
         in Option.bind (loop kind stamp e duration to (sat_add_i64 start duration) (snd filled))
              (\<lambda>out. Some (bucket_row kind stamp e start bucket_end (fst filled) @ out)))
      else Some []) = Some out"
  show "sint to \<noteq> i64_max \<and> (sint duration < 0 \<longrightarrow> sint to < sint start)"
  proof (cases "sint start \<le> sint to")
    case True
    define hi where "hi = sat_add_i64 start duration"
    obtain rest out' where r: "loop kind stamp e duration to hi rest = Some out'"
      using body True by (auto simp: Let_def hi_def split: Option.bind_splits)
    have "sint hi \<le> sint start" if "sint duration < 0"
      using that sint_i64 [of start] by (simp add: hi_def sat_add_i64_def sint_sat_i64)
    then show ?thesis using IH [OF r] True by auto
  next
    case False
    then show ?thesis using sint_i64(2) [of start] by auto
  qed
qed

lemma aggregate_open_diverges:
  assumes "duration \<noteq> 0" and "sint to = i64_max"
  shows "aggregate_series samples kind duration align_ts stamp e start to = None"
proof (rule ccontr)
  assume "aggregate_series samples kind duration align_ts stamp e start to \<noteq> None"
  then obtain out where "aggregate_loop kind stamp e duration to (align_bucket start duration align_ts) samples = Some out"
    using assms(1) by (auto simp: aggregate_series_def)
  from aggregate_loop_Some [OF this] show False using assms(2) by simp
qed

lemma aggregate_backwards:
  assumes "sint duration < 0"
  shows "aggregate_loop kind stamp e duration to start samples = (if sint start \<le> sint to then None else Some [])"
proof (cases "sint start \<le> sint to")
  case True
  then have "aggregate_loop kind stamp e duration to start samples \<noteq> Some out" for out
    using aggregate_loop_Some [of kind stamp e duration to start samples out] assms by auto
  then show ?thesis using True by (cases "aggregate_loop kind stamp e duration to start samples") auto
qed (simp add: aggregate_loop.simps [of _ _ _ _ _ start])

section \<open>Chunks and their samples\<close>

lemma bit_lists_nonempty: "1 \<le> length (delta_bits d)" "1 \<le> length (value_bits win x)"
  by (simp_all add: delta_bits_def value_bits_def Let_def)

lemma compress_grows:
  assumes w: "writer_ok (cc_writer c)"
  shows "writer_ok (cc_writer (compress_sample c s))"
    and "length (writer_bits (cc_writer c)) + 2 \<le> length (writer_bits (cc_writer (compress_sample c s)))"
proof -
  obtain ts v where s: "s = (ts, v)" by fastforce
  define w1 where "w1 = (if cc_sample_count c = 1 then write_i64_bits (ts - cc_prev_ts c) 14 (cc_writer c)
    else encode_delta_of_delta (ts - cc_prev_ts c - cc_prev_delta c) (cc_writer c))"
  have w1: "writer_ok w1" "length (writer_bits (cc_writer c)) + 1 \<le> length (writer_bits w1)"
    using w write_i64_bits_bits [OF w, of "ts - cc_prev_ts c" 14] writes_delta [of "ts - cc_prev_ts c - cc_prev_delta c"]
      bit_lists_nonempty(1) [of "ts - cc_prev_ts c - cc_prev_delta c"]
    by (auto simp: w1_def writes_def)
  obtain w2 where w2: "encode_value_xor v (cc_prev_val_bits c) w1 (cc_prev_window c) = (w2, next_window (cc_prev_window c) (v XOR cc_prev_val_bits c))"
      "writer_ok w2" "writer_bits w2 = writer_bits w1 @ value_bits (cc_prev_window c) (v XOR cc_prev_val_bits c)"
    using encode_value_bits [OF w1(1)] by blast
  have "writer_ok (cc_writer (compress_sample c s)) \<and>
      length (writer_bits (cc_writer c)) + 2 \<le> length (writer_bits (cc_writer (compress_sample c s)))"
  proof (cases "cc_sample_count c = 0")
    case True
    then show ?thesis using w by (simp add: compress_sample_def s Let_def write_i64_bits_bits write_bits_bits)
  next
    case False
    then have "cc_writer (compress_sample c s) = w2" using w2(1) by (auto simp: compress_sample_def s Let_def w1_def split: if_splits)
    then show ?thesis using w1 w2 bit_lists_nonempty(2) [of "cc_prev_window c" "v XOR cc_prev_val_bits c"] by simp
  qed
  then show "writer_ok (cc_writer (compress_sample c s))"
    "length (writer_bits (cc_writer c)) + 2 \<le> length (writer_bits (cc_writer (compress_sample c s)))" by simp_all
qed

lemma from_samples_snoc: "from_samples (xs @ [x]) = compress_sample (from_samples xs) x"
  by (simp add: from_samples_def)

lemma from_samples_size:
  "writer_ok (cc_writer (from_samples xs)) \<and> 2 * length xs \<le> length (writer_bits (cc_writer (from_samples xs)))"
proof (induction xs rule: rev_induct)
  case Nil
  show ?case by (simp add: from_samples_def chunk_new_def writer_ok_def) (simp add: bit_writer_new_def)
next
  case (snoc x xs)
  then show ?case using compress_grows [of "from_samples xs" x] by (simp add: from_samples_snoc)
qed

lemma chunk_byte_len_size: "2 * length xs \<le> 8 * chunk_byte_len (from_samples xs)"
  using from_samples_size [of xs] by (auto simp: chunk_byte_len_def writer_byte_len_def writer_bits_def writer_ok_def)

text \<open>Samples that every chunk of them holds exactly, wherever it starts.\<close>

fun smooth_steps :: "sample list \<Rightarrow> bool" where
  "smooth_steps ((ts, v) # (ts', v') # xs) \<longleftrightarrow>
     - 8192 \<le> sint (ts' - ts) \<and> sint (ts' - ts) < 8192 \<and> (v' XOR v = 0 \<or> leading_zeros (v' XOR v) < 32) \<and> smooth_steps ((ts', v') # xs)"
| "smooth_steps _ \<longleftrightarrow> True"

fun smooth_bends :: "sample list \<Rightarrow> bool" where
  "smooth_bends (a # b # c # xs) \<longleftrightarrow> sint (fst c - fst b - (fst b - fst a)) \<notin> {64, 256, 2048} \<and> smooth_bends (b # c # xs)"
| "smooth_bends _ \<longleftrightarrow> True"

definition smooth :: "sample list \<Rightarrow> bool" where
  "smooth xs \<longleftrightarrow> smooth_steps xs \<and> smooth_bends xs"

lemma smooth_rest_ok:
  "smooth_steps ((ts, v) # xs) \<Longrightarrow> smooth_bends ((t, u) # (ts, v) # xs) \<Longrightarrow> rest_ok ts (ts - t) v win xs"
proof (induction xs arbitrary: ts v t u win)
  case (Cons x xs)
  obtain ts' v' where x: "x = (ts', v')" by fastforce
  show ?case using Cons.IH [of ts' v' ts v] Cons.prems by (auto simp: x value_ok_def)
qed simp

lemma smooth_samples_ok: "smooth xs \<Longrightarrow> samples_ok xs"
proof (cases xs)
  case (Cons a ys)
  assume s: "smooth xs"
  show ?thesis
  proof (cases ys)
    case tail: (Cons b zs)
    then show ?thesis using Cons s smooth_rest_ok [of "fst b" "snd b" zs "fst a" "snd a"]
      by (cases a; cases b) (auto simp: smooth_def value_ok_def)
  qed (use Cons in simp)
qed simp

lemma smooth_append: "smooth (xs @ ys) \<Longrightarrow> smooth xs \<and> smooth ys"
proof (induction xs)
  case (Cons a xs)
  have "smooth (xs @ ys)" using Cons.prems by (cases "xs @ ys"; cases a) (auto simp: smooth_def elim: smooth_bends.elims)
  then have IH: "smooth xs" "smooth ys" using Cons.IH by auto
  have "smooth (a # xs)"
    using Cons.prems IH(1)
    by (cases a; cases xs; cases "tl xs") (auto simp: smooth_def)
  then show ?case using IH by simp
qed (simp add: smooth_def)

lemma smooth_concat: "smooth (concat xss) \<Longrightarrow> xs \<in> set xss \<Longrightarrow> smooth xs"
  by (induction xss) (auto dest: smooth_append)


definition exact_codec :: "encoding \<Rightarrow> sample list \<Rightarrow> bool" where
  "exact_codec enc xs \<longleftrightarrow> enc = EncUncompressed \<or> smooth xs"

definition chunk_rep :: "encoding \<Rightarrow> chunk \<Rightarrow> sample list \<Rightarrow> bool" where
  "chunk_rep enc c xs \<longleftrightarrow>
     ck_num_samples c = length xs \<and> length xs \<le> U16_MAX \<and> (xs \<noteq> [] \<longrightarrow> ck_max_ts c = fst (last xs)) \<and>
     ck_data c = (case enc of EncCompressed \<Rightarrow> DataCompressed (from_samples xs) | EncUncompressed \<Rightarrow> DataUncompressed xs)"

lemma chunk_rep_samples: "chunk_rep enc c xs \<Longrightarrow> exact_codec enc xs \<Longrightarrow> chunk_samples c = Some xs"
proof -
  assume c: "chunk_rep enc c xs" and e: "exact_codec enc xs"
  have "decompress_all (from_samples xs) = Some xs" if "enc = EncCompressed"
    using that c e roundtrip [OF smooth_samples_ok] by (simp add: chunk_rep_def exact_codec_def)
  then show ?thesis using c by (cases enc) (simp_all add: chunk_samples_def chunk_rep_def)
qed

lemma chunk_rep_new: "chunk_rep enc (new_chunk ts enc) []"
  by (cases enc) (simp_all add: chunk_rep_def new_chunk_def from_samples_def)

lemma chunk_rep_push: "chunk_rep enc c xs \<Longrightarrow> length xs < U16_MAX \<Longrightarrow> chunk_rep enc (chunk_push c x) (xs @ [x])"
  by (cases enc) (simp_all add: chunk_rep_def chunk_push_def from_samples_snoc)

lemma chunk_rep_replace: "chunk_rep enc c xs \<Longrightarrow> length ys \<le> U16_MAX \<Longrightarrow> chunk_rep enc (replace_samples c ys) ys"
  by (cases enc) (simp_all add: chunk_rep_def replace_samples_def U16_MAX_def)

lemma chunk_rep_room: "chunk_rep enc c xs \<Longrightarrow> approx_size c < n \<Longrightarrow> n \<le> 16000 \<Longrightarrow> length xs < U16_MAX"
  using chunk_byte_len_size [of xs] by (cases enc) (auto simp: chunk_rep_def approx_size_def U16_MAX_def)

definition chunks_rep :: "encoding \<Rightarrow> chunk list \<Rightarrow> sample list \<Rightarrow> bool" where
  "chunks_rep enc cs xs \<longleftrightarrow> (\<exists>xss. list_all2 (chunk_rep enc) cs xss \<and> [] \<notin> set xss \<and> concat xss = xs)"

lemma chunks_rep_append:
  assumes "chunks_rep enc cs xs" and "n \<le> 16000"
  shows "chunks_rep enc (append_sample n enc cs x) (xs @ [x])"
proof -
  obtain xss where r: "list_all2 (chunk_rep enc) cs xss" "[] \<notin> set xss" "concat xss = xs" using assms(1) by (auto simp: chunks_rep_def)
  show ?thesis
  proof (cases "cs = [] \<or> approx_size (last cs) \<ge> n")
    case True
    have "chunk_rep enc (chunk_push (new_chunk (fst x) enc) x) ([] @ [x])"
      by (rule chunk_rep_push [OF chunk_rep_new]) (simp add: U16_MAX_def)
    then have "list_all2 (chunk_rep enc) (append_sample n enc cs x) (xss @ [[x]])"
      using True r(1) by (auto simp: append_sample_def Let_def list_all2_appendI butlast_append)
    then show ?thesis using r by (auto simp: chunks_rep_def intro!: exI [of _ "xss @ [[x]]"])
  next
    case False
    then obtain cs' c where cs: "cs = cs' @ [c]" by (cases cs rule: rev_cases) auto
    then obtain yss ys where xss: "xss = yss @ [ys]" "list_all2 (chunk_rep enc) cs' yss" "chunk_rep enc c ys"
      using r(1) by (auto simp: list_all2_append1 list_all2_Cons1)
    have "chunk_rep enc (chunk_push c x) (ys @ [x])"
      using False cs xss(3) assms(2) chunk_rep_room [OF xss(3), of n] by (intro chunk_rep_push) auto
    then have "list_all2 (chunk_rep enc) (append_sample n enc cs x) (yss @ [ys @ [x]])"
      using False cs xss(2) by (simp add: append_sample_def Let_def list_all2_appendI)
    then show ?thesis using r xss(1) by (auto simp: chunks_rep_def intro!: exI [of _ "yss @ [ys @ [x]]"])
  qed
qed

lemma chunks_rep_build:
  "n \<le> 16000 \<Longrightarrow> chunks_rep enc (foldl (append_sample n enc) [] xs) xs"
  by (induction xs rule: rev_induct) (simp_all add: chunks_rep_append, simp add: chunks_rep_def)

lemma chunks_rep_collect:
  assumes "chunks_rep enc cs xs" and "exact_codec enc xs"
  shows "collect_samples cs = Some xs"
proof -
  have "list_all2 (chunk_rep enc) cs xss \<Longrightarrow> exact_codec enc (concat xss) \<Longrightarrow> collect_samples cs = Some (concat xss)" for xss
  proof (induction cs xss rule: list_all2_induct)
    case (Cons c cs ys yss)
    then have "exact_codec enc ys" "exact_codec enc (concat yss)" by (auto simp: exact_codec_def dest: smooth_append)
    then show ?case using Cons chunk_rep_samples by simp
  qed simp
  then show ?thesis using assms by (auto simp: chunks_rep_def)
qed

lemma chunks_rep_counts:
  assumes "chunks_rep enc cs xs"
  shows "filter (\<lambda>c. ck_num_samples c > 0) cs = cs" and "sum_list (map ck_num_samples cs) = length xs"
proof -
  obtain xss where r: "list_all2 (chunk_rep enc) cs xss" "[] \<notin> set xss" "concat xss = xs" using assms by (auto simp: chunks_rep_def)
  then have "filter (\<lambda>c. ck_num_samples c > 0) cs = cs \<and> sum_list (map ck_num_samples cs) = length (concat xss)"
    by (induction cs xss arbitrary: xs rule: list_all2_induct) (auto simp: chunk_rep_def)
  then show "filter (\<lambda>c. ck_num_samples c > 0) cs = cs" "sum_list (map ck_num_samples cs) = length xs" using r(3) by auto
qed

section \<open>A series is a sorted list of samples\<close>

text \<open>The summary of a series agrees with its samples.\<close>

definition summary_ok :: "time_series \<Rightarrow> sample list \<Rightarrow> bool" where
  "summary_ok s xs \<longleftrightarrow> total_samples s = length xs \<and>
     (if xs = [] then last_ts s = I64_MIN \<and> last_val s = f64_zero else (last_ts s, last_val s) = last xs)"

definition same_config :: "time_series \<Rightarrow> time_series \<Rightarrow> bool" where
  "same_config s t \<longleftrightarrow> retention_ms s = retention_ms t \<and> chunk_size s = chunk_size t \<and> series_encoding s = series_encoding t \<and>
     dup_policy s = dup_policy t \<and> ignore s = ignore t"

definition series_rep :: "time_series \<Rightarrow> sample list \<Rightarrow> bool" where
  "series_rep s xs \<longleftrightarrow>
     chunks_rep (series_encoding s) (chunks s) xs \<and> exact_codec (series_encoding s) xs \<and> in_order xs \<and> summary_ok s xs"

lemma recompute_rep:
  assumes "chunks_rep (series_encoding s) (filter (\<lambda>c. ck_num_samples c > 0) (chunks s)) xs" "exact_codec (series_encoding s) xs" "in_order xs"
  shows "\<exists>s'. recompute_summary s = Some s' \<and> series_rep s' xs \<and> same_config s' s"
proof -
  let ?cs = "filter (\<lambda>c. ck_num_samples c > 0) (chunks s)"
  have "collect_samples ?cs = Some xs" "sum_list (map ck_num_samples ?cs) = length xs"
    using chunks_rep_collect [OF assms(1,2)] chunks_rep_counts(2) [OF assms(1)] by simp_all
  then show ?thesis
    using assms by (cases "xs = []") (auto simp: recompute_summary_def all_samples_def Let_def series_rep_def summary_ok_def same_config_def)
qed

lemma recompute_rep_same:
  "chunks_rep (series_encoding s) (chunks s) xs \<Longrightarrow> exact_codec (series_encoding s) xs \<Longrightarrow> in_order xs \<Longrightarrow>
     \<exists>s'. recompute_summary s = Some s' \<and> series_rep s' xs \<and> same_config s' s"
  using recompute_rep [of s xs] chunks_rep_counts(1) [of "series_encoding s" "chunks s" xs] by simp

lemma same_config_trans: "same_config a b \<Longrightarrow> same_config b c \<Longrightarrow> same_config a c"
  by (simp add: same_config_def)

lemma in_order_concat: "in_order (concat xss) \<Longrightarrow> ys \<in> set xss \<Longrightarrow> in_order ys"
  by (induction xss) (auto simp: sorted_wrt_append)

lemma in_order_last: "in_order ys \<Longrightarrow> x \<in> set ys \<Longrightarrow> ts_of x \<le> ts_of (last ys)"
  by (induction ys rule: rev_induct) (auto simp: sorted_wrt_append)

lemma chunks_rep_dropWhile:
  assumes "chunks_rep enc cs xs" and o: "in_order xs"
  shows "\<exists>gone kept. xs = gone @ kept \<and> chunks_rep enc (dropWhile (\<lambda>c. sint (ck_max_ts c) < t) cs) kept \<and> (\<forall>x \<in> set gone. ts_of x < t)"
proof -
  obtain xss where r: "list_all2 (chunk_rep enc) cs xss" "[] \<notin> set xss" "concat xss = xs" using assms(1) by (auto simp: chunks_rep_def)
  define k where "k = length (takeWhile (\<lambda>c. sint (ck_max_ts c) < t) cs)"
  have k: "dropWhile (\<lambda>c. sint (ck_max_ts c) < t) cs = drop k cs" by (simp add: k_def dropWhile_eq_drop)
  have "xs = concat (take k xss) @ concat (drop k xss)" using r(3) by (metis append_take_drop_id concat_append)
  moreover have "chunks_rep enc (drop k cs) (concat (drop k xss))"
    using r(1,2) in_set_dropD [of "[]" k xss] by (auto simp: chunks_rep_def intro!: exI [of _ "drop k xss"] list_all2_dropI)
  moreover have "ts_of x < t" if x: "x \<in> set (concat (take k xss))" for x
  proof -
    obtain ys where "ys \<in> set (take k xss)" "x \<in> set ys" using x by auto
    then obtain i where i: "i < k" "i < length xss" "x \<in> set (xss ! i)" by (auto simp: in_set_conv_nth [of ys])
    have "sint (ck_max_ts (cs ! i)) < t" using i(1) takeWhile_below unfolding k_def by fast
    moreover have "chunk_rep enc (cs ! i) (xss ! i)" using r(1) i(2) by (simp add: list_all2_nthD2)
    ultimately have "ts_of (last (xss ! i)) < t" using i(3) by (auto simp: chunk_rep_def)
    moreover have "ts_of x \<le> ts_of (last (xss ! i))"
      using in_order_last [OF in_order_concat i(3)] o r(3) i(2) nth_mem by blast
    ultimately show ?thesis by simp
  qed
  ultimately show ?thesis unfolding k by blast
qed

text \<open>What is kept of a list of samples: everything without a retention, otherwise a part from which only samples older than the
  retention are missing.\<close>

definition retained :: "time_series \<Rightarrow> 64 word \<Rightarrow> sample list \<Rightarrow> sample list \<Rightarrow> bool" where
  "retained s now xs kept \<longleftrightarrow> (\<exists>gone. xs = gone @ kept \<and>
     (if retention_ms s = 0 then gone = [] else \<forall>x \<in> set gone. ts_of x < sint (sat_sub_i64 now (retention_ms s))))"

lemma rebuild_rep:
  assumes x: "exact_codec (series_encoding s) xs" "in_order xs" and n: "chunk_size s \<le> 16000"
  shows "\<exists>s' kept. rebuild_from_samples s xs now = Some s' \<and> series_rep s' kept \<and> same_config s' s \<and> retained s now xs kept"
proof -
  define s1 where "s1 = s\<lparr>chunks := foldl (append_sample (chunk_size s) (series_encoding s)) [] xs\<rparr>"
  have s1: "chunks_rep (series_encoding s1) (chunks s1) xs" "same_config s1 s"
    using chunks_rep_build [OF n] by (simp_all add: s1_def same_config_def)
  have e: "series_encoding s1 = series_encoding s" "retention_ms s1 = retention_ms s" by (simp_all add: s1_def)
  obtain s2 kept where s2: "enforce_retention s1 now = Some s2" "chunks_rep (series_encoding s2) (chunks s2) kept"
      "exact_codec (series_encoding s2) kept" "in_order kept" "same_config s2 s1" "retained s now xs kept"
  proof (cases "retention_ms s = 0")
    case True
    then show ?thesis using that [of s1 xs] s1(1) x e by (simp add: enforce_retention_def retained_def same_config_def)
  next
    case False
    define s3 where "s3 = s1\<lparr>chunks := dropWhile (\<lambda>c. sint (ck_max_ts c) < sint (sat_sub_i64 now (retention_ms s))) (chunks s1)\<rparr>"
    obtain gone kept where g: "xs = gone @ kept" "chunks_rep (series_encoding s) (chunks s3) kept"
        "\<forall>x \<in> set gone. ts_of x < sint (sat_sub_i64 now (retention_ms s))"
      using chunks_rep_dropWhile [OF s1(1) x(2), of "sint (sat_sub_i64 now (retention_ms s))"] e by (auto simp: s3_def)
    have k: "exact_codec (series_encoding s3) kept" "in_order kept"
      using x g(1) e by (auto simp: exact_codec_def sorted_wrt_append s3_def dest: smooth_append)
    have "series_encoding s3 = series_encoding s" "same_config s3 s1" by (simp_all add: s3_def same_config_def e)
    then obtain s2 where s2: "recompute_summary s3 = Some s2" "series_rep s2 kept" "same_config s2 s1"
      using recompute_rep_same [of s3 kept] g(2) k same_config_trans by metis
    have "enforce_retention s1 now = Some s2" using s2(1) False by (simp add: enforce_retention_def Let_def s3_def e)
    moreover have "retained s now xs kept" using g False by (auto simp: retained_def)
    ultimately show ?thesis using that [of s2 kept] s2 by (simp add: series_rep_def)
  qed
  obtain s4 where "recompute_summary s2 = Some s4" "series_rep s4 kept" "same_config s4 s2"
    using recompute_rep_same [OF s2(2,3,4)] by blast
  moreover have "rebuild_from_samples s xs now = recompute_summary s2"
    using s2(1) unfolding rebuild_from_samples_def Let_def s1_def [symmetric] by simp
  ultimately show ?thesis using s2(5,6) s1(2) same_config_trans by metis
qed

text \<open>Putting a sample into a sorted list.\<close>

definition put_sample :: "sample \<Rightarrow> sample list \<Rightarrow> sample list" where
  "put_sample x xs = filter (\<lambda>y. ts_of y < ts_of x) xs @ x # filter (\<lambda>y. ts_of x < ts_of y) xs"

definition value_of :: "64 word \<Rightarrow> sample list \<Rightarrow> f64 option" where
  "value_of ts xs = map_of xs ts"

lemma in_order_put: "in_order xs \<Longrightarrow> in_order (put_sample x xs)"
  by (auto simp: put_sample_def sorted_wrt_append sorted_wrt_filter)

lemma in_order_sorted: "in_order xs \<Longrightarrow> sorted (map (sint \<circ> fst) xs) \<and> distinct (map fst xs)"
  by (induction xs) (auto simp: less_imp_le)

lemma filter_parts:
  "xs = as @ bs \<Longrightarrow> \<forall>y \<in> set as. P y \<Longrightarrow> \<forall>y \<in> set bs. \<not> P y \<Longrightarrow> filter P xs = as"
  "xs = as @ bs \<Longrightarrow> \<forall>y \<in> set as. \<not> P y \<Longrightarrow> \<forall>y \<in> set bs. P y \<Longrightarrow> filter P xs = bs"
  by (simp_all add: filter_id_conv filter_empty_conv)

lemma search_found:
  assumes "in_order xs" and "binary_search (map (sint \<circ> fst) xs) (ts_of x) = Inr i"
  shows "i < length xs" and "value_of (fst x) xs = Some (snd (xs ! i))"
    and "xs[i := (fst (xs ! i), v)] = put_sample (fst x, v) xs"
proof -
  have i: "i < length xs" "sint (fst (xs ! i)) = sint (fst x)" using binary_search_Inr [OF assms(2)] by auto
  then have f: "fst (xs ! i) = fst x" by (simp add: signed_word_eqI)
  show "i < length xs" by (rule i)
  have "xs ! i \<in> set xs" using i(1) by simp
  then show "value_of (fst x) xs = Some (snd (xs ! i))"
    using in_order_sorted [OF assms(1)] f by (metis map_of_eq_Some_iff prod.collapse value_of_def)
  have s: "xs = take i xs @ xs ! i # drop (Suc i) xs" using i(1) by (rule id_take_nth_drop)
  have "in_order (take i xs @ xs ! i # drop (Suc i) xs)" using assms(1) s by simp
  then have o: "\<forall>y \<in> set (take i xs). ts_of y < ts_of x" "\<forall>y \<in> set (drop (Suc i) xs). ts_of x < ts_of y"
    by (auto simp: sorted_wrt_append f [symmetric])
  have "filter (\<lambda>y. ts_of y < ts_of x) xs = take i xs"
    using o f by (intro filter_parts(1) [OF s]) auto
  moreover have "filter (\<lambda>y. ts_of x < ts_of y) xs = drop (Suc i) xs"
    using o f by (intro filter_parts(2) [of xs "take i xs @ [xs ! i]"]) (use s in auto)
  ultimately show "xs[i := (fst (xs ! i), v)] = put_sample (fst x, v) xs"
    using i(1) f by (simp add: put_sample_def upd_conv_take_nth_drop)
qed

lemma search_missing:
  assumes "in_order xs" and "binary_search (map (sint \<circ> fst) xs) (ts_of x) = Inl i"
  shows "value_of (fst x) xs = None" and "insert_at i x xs = put_sample x xs"
proof -
  note b = binary_search_Inl [OF in_order_sorted [OF assms(1), THEN conjunct1] assms(2)]
  have l: "\<forall>y \<in> set (take i xs). ts_of y < ts_of x" "\<forall>y \<in> set (drop i xs). ts_of x < ts_of y"
    using b(2,3) by (auto simp: take_map drop_map)
  have s: "xs = take i xs @ drop i xs" by simp
  then have "\<forall>y \<in> set xs. fst y \<noteq> fst x" using l by (metis Un_iff less_irrefl set_append)
  then show "value_of (fst x) xs = None" by (auto simp: value_of_def map_of_eq_None_iff)
  have "filter (\<lambda>y. ts_of y < ts_of x) xs = take i xs" using l by (intro filter_parts(1) [OF s]) auto
  moreover have "filter (\<lambda>y. ts_of x < ts_of y) xs = drop i xs" using l by (intro filter_parts(2) [OF s]) auto
  ultimately show "insert_at i x xs = put_sample x xs" by (simp add: insert_at_def put_sample_def)
qed

datatype series_op =
    SAdd sample "64 word" "dup_policy option"
  | SDelete "64 word" "64 word"
  | SQuery "64 word" "64 word" bool "64 word set option" "(f64 \<times> f64) option" "nat option"
  | SLatest

datatype series_out = TAdded "ts_error + bool" | TDeleted nat | TSamples "sample list" | TLatest "sample option"

fun series_step :: "time_series \<Rightarrow> series_op \<Rightarrow> (series_out \<times> time_series) option" where
  "series_step s (SAdd x now policy) = map_option (apfst TAdded) (add_sample s x now policy)"
| "series_step s (SDelete lo hi) = map_option (apfst TDeleted) (delete_range s lo hi)"
| "series_step s (SQuery lo hi reverse fts fval limit) = map_option (\<lambda>xs. (TSamples xs, s)) (query_range s lo hi reverse fts fval limit)"
| "series_step s SLatest = Some (TLatest (latest_sample s), s)"

text \<open>The specification on sorted lists of samples; \<open>cfg\<close> carries the options of the series.\<close>

definition ignored :: "time_series \<Rightarrow> sample list \<Rightarrow> sample \<Rightarrow> bool" where
  "ignored cfg xs x \<longleftrightarrow> xs \<noteq> [] \<and> sint (fst x - fst (last xs)) \<le> sint (max_time_diff (ignore cfg)) \<and>
     f64_le (f64_abs (f64_sub (snd x) (snd (last xs)))) (max_val_diff (ignore cfg))"

fun list_step :: "time_series \<Rightarrow> sample list \<Rightarrow> series_op \<Rightarrow> series_out \<times> sample list" where
  "list_step cfg xs (SAdd x now policy) =
     (if ignored cfg xs x then (TAdded (Inr False), xs)
      else case value_of (fst x) xs of
          None \<Rightarrow> (TAdded (Inr True), put_sample x xs)
        | Some old \<Rightarrow>
            (case merge_value (case policy of Some p \<Rightarrow> p | None \<Rightarrow> dup_policy cfg) old (snd x) of
               Inl e \<Rightarrow> (TAdded (Inl e), xs)
             | Inr None \<Rightarrow> (TAdded (Inr False), xs)
             | Inr (Some v) \<Rightarrow> (TAdded (Inr True), put_sample (fst x, v) xs)))"
| "list_step cfg xs (SDelete lo hi) =
     (TDeleted (length (filter (\<lambda>x. sint lo \<le> ts_of x \<and> ts_of x \<le> sint hi) xs)),
      filter (\<lambda>x. \<not> (sint lo \<le> ts_of x \<and> ts_of x \<le> sint hi)) xs)"
| "list_step cfg xs (SQuery lo hi reverse fts fval limit) =
     (TSamples (let kept = filter (\<lambda>x. sint lo \<le> ts_of x \<and> ts_of x \<le> sint hi \<and> (case fts of None \<Rightarrow> True | Some ts \<Rightarrow> fst x \<in> ts) \<and>
          (case fval of None \<Rightarrow> True | Some (mn, mx) \<Rightarrow> f64_le mn (snd x) \<and> f64_le (snd x) mx)) xs
        in (case limit of None \<Rightarrow> id | Some n \<Rightarrow> take n) (if reverse then rev kept else kept)), xs)"
| "list_step cfg xs SLatest = (TLatest (if xs = [] then None else Some (last xs)), xs)"

definition series_rel :: "time_series \<Rightarrow> time_series \<Rightarrow> sample list \<Rightarrow> bool" where
  "series_rel cfg s xs \<longleftrightarrow> series_rep s xs \<and> same_config s cfg"

definition series_op_ok :: "time_series \<Rightarrow> sample list \<Rightarrow> series_op \<Rightarrow> bool" where
  "series_op_ok cfg xs op \<longleftrightarrow> exact_codec (series_encoding cfg) (snd (list_step cfg xs op))"

lemma series_rep_all: "series_rep s xs \<Longrightarrow> all_samples s = Some xs"
  using chunks_rep_collect by (auto simp: series_rep_def all_samples_def)

lemma ignored_should: "series_rel cfg s xs \<Longrightarrow> should_ignore s x \<longleftrightarrow> ignored cfg xs x"
  by (cases "xs = []") (auto simp: should_ignore_def ignored_def series_rel_def series_rep_def summary_ok_def same_config_def prod_eq_iff)

lemma rebuild_kept:
  assumes r: "series_rel cfg s xs" and c: "retention_ms cfg = 0" "chunk_size cfg \<le> 16000"
    and y: "exact_codec (series_encoding cfg) ys" "in_order ys"
  shows "\<exists>s'. rebuild_from_samples s ys now = Some s' \<and> series_rel cfg s' ys"
proof -
  have s: "same_config s cfg" "series_encoding s = series_encoding cfg" "chunk_size s \<le> 16000" "retention_ms s = 0"
    using r c by (auto simp: series_rel_def same_config_def)
  obtain s' kept where "rebuild_from_samples s ys now = Some s'" "series_rep s' kept" "same_config s' s" "retained s now ys kept"
    using rebuild_rep [of s ys now] y s by auto
  moreover have "kept = ys" using calculation(4) s(4) by (auto simp: retained_def)
  ultimately show ?thesis using s(1) same_config_trans [of s' s cfg] by (auto simp: series_rel_def)
qed

lemma add_step:
  assumes r: "series_rel cfg s xs" and c: "retention_ms cfg = 0" "chunk_size cfg \<le> 16000" and ok: "series_op_ok cfg xs (SAdd x now policy)"
  shows "\<exists>s'. series_step s (SAdd x now policy) = Some (fst (list_step cfg xs (SAdd x now policy)), s') \<and>
    series_rel cfg s' (snd (list_step cfg xs (SAdd x now policy)))"
proof (cases "ignored cfg xs x")
  case True
  then show ?thesis using r ignored_should [OF r] by (simp add: add_sample_def)
next
  case False
  have o: "in_order xs" and all: "all_samples s = Some xs"
    and p: "(case policy of Some p \<Rightarrow> p | None \<Rightarrow> dup_policy s) = (case policy of Some p \<Rightarrow> p | None \<Rightarrow> dup_policy cfg)"
    using r series_rep_all [of s xs] by (auto simp: series_rel_def series_rep_def same_config_def split: option.split)
  show ?thesis
  proof (cases "binary_search (map (sint \<circ> fst) xs) (ts_of x)")
    case (Inl i)
    have "exact_codec (series_encoding cfg) (put_sample x xs)"
      using ok False search_missing(1) [OF o Inl] by (simp add: series_op_ok_def)
    with rebuild_kept [OF r c this in_order_put [OF o], of now] show ?thesis
      using False ignored_should [OF r] all Inl search_missing [OF o Inl] by (auto simp: add_sample_def)
  next
    case (Inr i)
    show ?thesis
    proof (cases "merge_value (case policy of Some p \<Rightarrow> p | None \<Rightarrow> dup_policy cfg) (snd (xs ! i)) (snd x)")
      case e: (Inl e)
      then show ?thesis using False ignored_should [OF r] all Inr search_found(2) [OF o Inr] r by (auto simp: add_sample_def p)
    next
      case v: (Inr v)
      show ?thesis
      proof (cases v)
        case None
        then show ?thesis using v False ignored_should [OF r] all Inr search_found(2) [OF o Inr] r by (auto simp: add_sample_def p)
      next
        case (Some w)
        have "exact_codec (series_encoding cfg) (put_sample (fst x, w) xs)"
          using ok False search_found(2) [OF o Inr] v Some by (simp add: series_op_ok_def)
        with rebuild_kept [OF r c this in_order_put [OF o], of now] show ?thesis
          using v Some False ignored_should [OF r] all Inr search_found(2,3) [OF o Inr] by (auto simp: add_sample_def p)
      qed
    qed
  qed
qed


lemma delete_from_rep:
  defines "out \<equiv> \<lambda>lo hi x. sint (lo :: 64 word) \<le> ts_of x \<and> ts_of x \<le> sint (hi :: 64 word)"
  assumes "list_all2 (chunk_rep enc) cs xss" and "exact_codec enc (concat xss)"
  shows "\<exists>cs'. delete_from lo hi cs = Some (length (filter (out lo hi) (concat xss)), cs') \<and>
    list_all2 (chunk_rep enc) cs' (map (filter (\<lambda>x. \<not> out lo hi x)) xss)"
  using assms(2,3)
proof (induction cs xss rule: list_all2_induct)
  case (Cons c cs ys yss)
  have e: "exact_codec enc ys" "exact_codec enc (concat yss)" using Cons.prems by (auto simp: exact_codec_def dest: smooth_append)
  have f: "(\<lambda>(ts, _). sint ts < sint lo \<or> sint ts > sint hi) = (\<lambda>x. \<not> out lo hi x)" by (auto simp: fun_eq_iff out_def)
  have l: "n + (length ys - length (filter (\<lambda>x. \<not> out lo hi x) ys)) = length (filter (out lo hi) ys) + n" for n
    using sum_length_filter_compl [of "out lo hi" ys] by simp
  have c: "chunk_rep enc (replace_samples c (filter (\<lambda>x. \<not> out lo hi x) ys)) (filter (\<lambda>x. \<not> out lo hi x) ys)"
    using Cons.hyps(1) by (intro chunk_rep_replace [OF Cons.hyps(1)] order_trans [OF length_filter_le]) (simp add: chunk_rep_def)
  obtain cs' where IH: "delete_from lo hi cs = Some (length (filter (out lo hi) (concat yss)), cs')"
      "list_all2 (chunk_rep enc) cs' (map (filter (\<lambda>x. \<not> out lo hi x)) yss)"
    using Cons.IH [OF e(2)] by blast
  show ?case
    unfolding delete_from.simps chunk_rep_samples [OF Cons.hyps(1) e(1)] Option.bind.bind_lunit Let_def f IH(1)
    using c IH(2) l by simp
qed simp

lemma chunks_rep_nonempty:
  assumes "list_all2 (chunk_rep enc) cs xss"
  shows "chunks_rep enc (filter (\<lambda>c. ck_num_samples c > 0) cs) (concat xss)"
proof -
  have "list_all2 (chunk_rep enc) (filter (\<lambda>c. ck_num_samples c > 0) cs) (filter (\<lambda>xs. xs \<noteq> []) xss)"
    using assms by (induction cs xss rule: list_all2_induct) (auto simp: chunk_rep_def)
  moreover have "concat (filter (\<lambda>xs. xs \<noteq> []) xss) = concat xss" by (induction xss) auto
  ultimately show ?thesis by (auto simp: chunks_rep_def intro!: exI [of _ "filter (\<lambda>xs. xs \<noteq> []) xss"])
qed

lemma delete_step:
  assumes r: "series_rel cfg s xs" and ok: "series_op_ok cfg xs (SDelete lo hi)"
  shows "\<exists>s'. series_step s (SDelete lo hi) = Some (fst (list_step cfg xs (SDelete lo hi)), s') \<and>
    series_rel cfg s' (snd (list_step cfg xs (SDelete lo hi)))"
proof -
  define ys where "ys = filter (\<lambda>x. \<not> (sint lo \<le> ts_of x \<and> ts_of x \<le> sint hi)) xs"
  have s: "series_rep s xs" "same_config s cfg" "series_encoding s = series_encoding cfg"
    using r by (auto simp: series_rel_def same_config_def)
  obtain xss where x: "list_all2 (chunk_rep (series_encoding s)) (chunks s) xss" "concat xss = xs" "exact_codec (series_encoding s) (concat xss)"
    using s(1) by (auto simp: series_rep_def chunks_rep_def)
  obtain cs' where d: "delete_from lo hi (chunks s) = Some (length (filter (\<lambda>x. sint lo \<le> ts_of x \<and> ts_of x \<le> sint hi) xs), cs')"
      "list_all2 (chunk_rep (series_encoding s)) cs' (map (filter (\<lambda>x. \<not> (sint lo \<le> ts_of x \<and> ts_of x \<le> sint hi))) xss)"
    using delete_from_rep [OF x(1,3), of lo hi] x(2) by blast
  have "concat (map (filter (\<lambda>x. \<not> (sint lo \<le> ts_of x \<and> ts_of x \<le> sint hi))) xss) = ys" by (simp add: ys_def x(2) [symmetric] filter_concat)
  then have c: "chunks_rep (series_encoding s) (filter (\<lambda>c. ck_num_samples c > 0) cs') ys" using chunks_rep_nonempty [OF d(2)] by simp
  have y: "exact_codec (series_encoding s) ys" "in_order ys"
    using ok s by (auto simp: series_op_ok_def ys_def series_rep_def sorted_wrt_filter)
  obtain s' where "recompute_summary (s\<lparr>chunks := cs'\<rparr>) = Some s'" "series_rep s' ys" "same_config s' (s\<lparr>chunks := cs'\<rparr>)"
    using recompute_rep [of "s\<lparr>chunks := cs'\<rparr>" ys] c y by auto
  moreover have "same_config (s\<lparr>chunks := cs'\<rparr>) cfg" using s(2) by (simp add: same_config_def)
  ultimately show ?thesis using d(1) same_config_trans by (auto simp: delete_range_def series_rel_def ys_def)
qed

lemma series_simulation:
  assumes c: "retention_ms cfg = 0" "chunk_size cfg \<le> 16000"
  shows "simulation series_step (list_step cfg) (series_rel cfg) (series_op_ok cfg)"
proof
  fix s xs op assume r: "series_rel cfg s xs" and ok: "series_op_ok cfg xs op"
  have all: "all_samples s = Some xs" "summary_ok s xs" using r series_rep_all by (auto simp: series_rel_def series_rep_def)
  show "\<exists>s'. series_step s op = Some (fst (list_step cfg xs op), s') \<and> series_rel cfg s' (snd (list_step cfg xs op))"
  proof (cases op)
    case (SAdd x now policy)
    then show ?thesis using add_step [OF r c, of x now policy] ok by simp
  next
    case (SDelete lo hi)
    then show ?thesis using delete_step [OF r, of lo hi] ok by simp
  next
    case (SQuery lo hi reverse fts fval limit)
    then show ?thesis using all(1) r by (auto simp: query_range_def Let_def case_prod_unfold split: option.split)
  next
    case SLatest
    then show ?thesis using all(2) r by (auto simp: latest_sample_def summary_ok_def)
  qed
qed

interpretation series: simulation series_step "list_step time_series_default" "series_rel time_series_default" "series_op_ok time_series_default"
  by (rule series_simulation) (simp_all add: time_series_default_def)

lemma series_rel_empty:
  "chunks cfg = [] \<Longrightarrow> summary_ok cfg [] \<Longrightarrow> series_rel cfg cfg []"
  by (simp add: series_rel_def series_rep_def chunks_rep_def exact_codec_def smooth_def same_config_def)

lemma same_value_close: "f64_le (f64_abs (f64_sub 7 7)) f64_zero"
  by (simp add: f64_sub_def f64_neg_def f64_add_def f64_abs_def f64_le_def f64_negative_def f64_magnitude_def is_nan_def f64_inf_bits_def f64_infinite_def f64_signed_def f64_rank_def f64_value_def f64_zero_def f64_units_def)

section \<open>Properties of time series\<close>

text \<open>C26. An empty series without retention, of chunks of at most 16000 bytes, compressed or not: any sequence of additions
  with their duplicate policies and the rule for ignored samples, deletions, range queries and reads of the latest sample
  returns without panic what it returns on a list of samples sorted by timestamp, as long as the samples are such that
  the compression is exact. Splitting into chunks, decompression and rebuilding do not show.\<close>

theorem series_refines_sorted_list:
  assumes "chunks cfg = []" and "summary_ok cfg []" and "retention_ms cfg = 0" and "chunk_size cfg \<le> 16000"
    and "ok_ops (list_step cfg) (series_op_ok cfg) [] ops"
  shows "\<exists>s. run_c series_step cfg ops = Some (fst (run_a (list_step cfg) [] ops), s) \<and>
    all_samples s = Some (snd (run_a (list_step cfg) [] ops))"
  using simulation.run [OF series_simulation [OF assms(3,4)] series_rel_empty [OF assms(1,2)] assms(5)] series_rep_all
  by (auto simp: series_rel_def)

theorem series_refines_sorted_list_witness:
  "\<exists>s. run_c series_step time_series_default
      [SAdd (1000, 7) 0 None, SAdd (2000, 7) 0 None, SAdd (1500, 7) 0 (Some DupLast), SDelete 900 1100, SLatest] =
    Some ([TAdded (Inr True), TAdded (Inr True), TAdded (Inr False), TDeleted 1, TLatest (Some (2000, 7))], s)"
proof -
  let ?ops = "[SAdd (1000, 7) 0 None, SAdd (2000, 7) 0 None, SAdd (1500, 7) 0 (Some DupLast), SDelete 900 1100, SLatest] :: series_op list"
  let ?cfg = time_series_default
  have i: "ignored ?cfg [(1000, 7), (2000, 7)] (1500, 7)" "\<not> ignored ?cfg [(1000, 7)] (2000, 7)" "\<not> ignored ?cfg [] (1000, 7)"
    using same_value_close by (simp_all add: ignored_def time_series_default_def)
  have "run_a (list_step ?cfg) [] ?ops = ([TAdded (Inr True), TAdded (Inr True), TAdded (Inr False), TDeleted 1, TLatest (Some (2000, 7))], [(2000, 7)])"
    by (simp add: i value_of_def put_sample_def)
  moreover have "ok_ops (list_step ?cfg) (series_op_ok ?cfg) [] ?ops"
    by (simp add: series_op_ok_def i value_of_def put_sample_def exact_codec_def smooth_def)
  ultimately show ?thesis
    using series_refines_sorted_list [of ?cfg ?ops] by (auto simp: time_series_default_def summary_ok_def)
qed

text \<open>C27. Aggregation of samples in ascending order, for every duration of a bucket. A duration of 0 returns the samples.
  A duration below \<open>2 ^ 63\<close>, over a range that ends before the largest timestamp, goes through the buckets from the aligned
  start to the end of the range and computes a row from exactly the samples of each; a bucket whose aggregate has no value
  gives a row only when empty buckets are asked for, and no row otherwise. Over a range that is open to the right, whose end
  is the largest timestamp, the loop never returns, nor for a duration of \<open>2 ^ 63\<close> or more, which is read as a
  negative number, unless the range is empty.\<close>

theorem aggregate_buckets:
  assumes "in_order samples"
  shows "aggregate_series samples kind duration align_ts stamp with_empty start to =
    (if duration = 0 then Some samples
     else if sint to = i64_max then None
     else if sint duration < 0 then (if sint start \<le> sint to then None else Some [])
     else Some (bucket_rows kind stamp with_empty (sint duration) (sint (align_bucket start duration align_ts)) (sint to) samples))"
proof (cases "sint to = i64_max \<or> duration = 0")
  case True
  then show ?thesis using aggregate_open_diverges [of duration to] by (auto simp: aggregate_series_def)
next
  case False
  then have to: "sint to < i64_max" "sint duration \<noteq> 0" using sint_i64(2) [of to] by (auto simp: signed_eq_0_iff order_less_le)
  show ?thesis
  proof (cases "sint duration < 0")
    case True
    then show ?thesis using False aggregate_backwards [OF True] by (simp add: aggregate_series_def align_bucket_def)
  next
    case pos: False
    then show ?thesis using False to aggregate_loop_spec [OF _ to(1) assms] by (simp add: aggregate_series_def)
  qed
qed

theorem aggregate_buckets_witness:
  "aggregate_series [(0, 7), (1000, 8)] AggCount 1000 0 BucketStart True 0 (of_int i64_max) = None \<and>
   aggregate_series [(0, 7), (2500, 8)] AggLast 1000 0 BucketStart False 0 2999 = Some [(0, 7), (2000, 8)]"
proof -
  have "bucket_rows AggLast BucketStart False 1000 0 2999 [(0, 7), (2500, 8)] = [(0, 7), (2000, 8)]"
    by (simp add: bucket_rows_def bucket_starts_def bucket_row_def aggregator_value_def aggregator_push_def aggregator_default_def
        Let_def bucket_ts_def upt_rec)
  moreover have "sint (align_bucket 0 1000 0) = 0" by code_simp
  ultimately show ?thesis
    using aggregate_buckets [of "[(0, 7), (1000, 8)]" AggCount 1000 0 BucketStart True 0 "of_int i64_max"]
      aggregate_buckets [of "[(0, 7), (2500, 8)]" AggLast 1000 0 BucketStart False 0 2999] by simp
qed

end
