(* ===== verification/Glob.thy ===== *)
theory Glob
  imports Prelude "HOL-Library.Monad_Syntax"
begin

text \<open>
  Glob patterns: the matcher of the publish/subscribe engine
  (\<open>senko-pubsub/src/pattern.rs\<close>: \<open>glob_match_simd\<close> with its fast paths and pruning,
  \<open>glob_match_scalar\<close>, the class and literal scanners) and the matcher of the keyspace commands
  (\<open>senko-store/src/pattern.rs\<close>). Both are compared with one specification, \<open>glob_spec\<close> over the
  token list of a pattern. Substring search (\<open>memchr::memmem\<close>) is a parameter.
\<close>

abbreviation QUESTION :: byte where "QUESTION \<equiv> 63"
abbreviation LBRACKET :: byte where "LBRACKET \<equiv> 91"
abbreviation RBRACKET :: byte where "RBRACKET \<equiv> 93"
abbreviation CARET :: byte where "CARET \<equiv> 94"
abbreviation BANG :: byte where "BANG \<equiv> 33"

section \<open>The publish/subscribe matcher\<close>

text \<open>\<open>match_char_class\<close>: the loop after the opening bracket and the optional negation.\<close>

function match_char_class_loop :: "bytes \<Rightarrow> byte \<Rightarrow> bool \<Rightarrow> nat \<Rightarrow> bool \<Rightarrow> bool \<times> nat" where
  "match_char_class_loop pattern byte negated index matched =
     (if index < length pattern then
        if pattern ! index = RBRACKET then (if negated then \<not> matched else matched, index + 1)
        else if pattern ! index = BACKSLASH \<and> index + 1 < length pattern then
          match_char_class_loop pattern byte negated (index + 2) (matched \<or> pattern ! (index + 1) = byte)
        else if index + 2 < length pattern \<and> pattern ! (index + 1) = MINUS \<and> pattern ! (index + 2) \<noteq> RBRACKET then
          match_char_class_loop pattern byte negated (index + 3)
            (matched \<or> (pattern ! index \<le> byte \<and> byte \<le> pattern ! (index + 2)))
        else match_char_class_loop pattern byte negated (index + 1) (matched \<or> pattern ! index = byte)
      else (False, length pattern))"
  by pat_completeness auto
termination by (relation "measure (\<lambda>(pattern, _, _, index, _). length pattern - index)") auto

definition match_char_class :: "bytes \<Rightarrow> byte \<Rightarrow> bool \<times> nat" where
  "match_char_class pattern byte =
     (if 1 < length pattern \<and> (pattern ! 1 = CARET \<or> pattern ! 1 = BANG)
      then match_char_class_loop pattern byte True 2 False
      else match_char_class_loop pattern byte False 1 False)"

definition match_single_token :: "bytes \<Rightarrow> nat \<Rightarrow> byte \<Rightarrow> bool \<times> nat" where
  "match_single_token pattern index byte =
     (if pattern ! index = QUESTION then (True, 1)
      else if pattern ! index = LBRACKET then match_char_class (drop index pattern) byte
      else if pattern ! index = BACKSLASH then
        (if index + 1 < length pattern then (pattern ! (index + 1) = byte, 2) else (BACKSLASH = byte, 1))
      else (pattern ! index = byte, 1))"

text \<open>The inner loop of the \<open>*\<close> arm of \<open>glob_match_scalar\<close>.\<close>

function skip_stars :: "bytes \<Rightarrow> nat \<Rightarrow> nat" where
  "skip_stars pattern index =
     (if index < length pattern \<and> pattern ! index = STAR then skip_stars pattern (index + 1) else index)"
  by pat_completeness auto
termination by (relation "measure (\<lambda>(pattern, index). length pattern - index)") auto

declare match_char_class_loop.simps [simp del] skip_stars.simps [simp del]

text \<open>
  The loop of \<open>glob_match_scalar\<close>: the four local variables of the source are the arguments, one
  unfolding is one iteration, \<open>None\<close> would be a loop that never returns.
\<close>

partial_function (option) glob_match_scalar_loop ::
    "bytes \<Rightarrow> bytes \<Rightarrow> nat \<Rightarrow> nat \<Rightarrow> nat option \<Rightarrow> nat \<Rightarrow> bool option" where
  "glob_match_scalar_loop pattern text pattern_index text_index star_pattern star_text =
     (if pattern_index = length pattern then
        (if text_index = length text then Some True
         else (case star_pattern of
             Some next_pattern \<Rightarrow>
               (if star_text + 1 > length text then Some False
                else glob_match_scalar_loop pattern text next_pattern (star_text + 1) star_pattern (star_text + 1))
           | None \<Rightarrow> Some False))
      else if pattern ! pattern_index = STAR then
        (let pattern_index = skip_stars pattern pattern_index
         in if pattern_index = length pattern then Some True
            else glob_match_scalar_loop pattern text pattern_index text_index (Some pattern_index) text_index)
      else if text_index < length text \<and> fst (match_single_token pattern pattern_index (text ! text_index)) then
        glob_match_scalar_loop pattern text
          (pattern_index + snd (match_single_token pattern pattern_index (text ! text_index)))
          (text_index + 1) star_pattern star_text
      else (case star_pattern of
           Some next_pattern \<Rightarrow>
             (if star_text + 1 > length text then Some False
              else glob_match_scalar_loop pattern text next_pattern (star_text + 1) star_pattern (star_text + 1))
         | None \<Rightarrow> Some False))"

definition glob_match_scalar :: "bytes \<Rightarrow> bytes \<Rightarrow> bool option" where
  "glob_match_scalar pattern text = glob_match_scalar_loop pattern text 0 0 None 0"

function char_class_token_len_loop :: "bytes \<Rightarrow> nat \<Rightarrow> nat \<Rightarrow> nat" where
  "char_class_token_len_loop pattern start index =
     (if index < length pattern then
        if pattern ! index = BACKSLASH \<and> index + 1 < length pattern then char_class_token_len_loop pattern start (index + 2)
        else if pattern ! index = RBRACKET then index - start + 1
        else char_class_token_len_loop pattern start (index + 1)
      else length pattern - start)"
  by pat_completeness auto
termination by (relation "measure (\<lambda>(pattern, _, index). length pattern - index)") auto

declare char_class_token_len_loop.simps [simp del]

definition char_class_token_len :: "bytes \<Rightarrow> nat \<Rightarrow> nat" where
  "char_class_token_len pattern start = char_class_token_len_loop pattern start (start + 1)"

lemma char_class_token_len_loop_pos:
  "start < index \<Longrightarrow> start < length pattern \<Longrightarrow> 0 < char_class_token_len_loop pattern start index"
  by (induction pattern start index rule: char_class_token_len_loop.induct)
     (subst char_class_token_len_loop.simps, auto)

lemma char_class_token_len_pos [simp]:
  "start < length pattern \<Longrightarrow> 0 < char_class_token_len pattern start"
  by (simp add: char_class_token_len_def char_class_token_len_loop_pos)

record PatternFeatures =
  has_wildcards :: bool
  trailing_star_prefix_len :: "nat option"

text \<open>The loop of \<open>scan_pattern\<close>, over its locals \<open>has_wildcards\<close>, \<open>wildcard_count\<close>, \<open>star_at_end\<close>, \<open>prefix_len\<close>.\<close>

function scan_pattern_loop :: "bytes \<Rightarrow> nat \<Rightarrow> bool \<times> nat \<times> bool \<times> nat \<Rightarrow> bool \<times> nat \<times> bool \<times> nat" where
  "scan_pattern_loop pattern index (wild, count, star_at_end, prefix_len) =
     (if index < length pattern then
        if pattern ! index = BACKSLASH then
          scan_pattern_loop pattern (if index + 1 < length pattern then index + 2 else index + 1)
            (wild, count, star_at_end, prefix_len)
        else if pattern ! index = STAR then
          scan_pattern_loop pattern (index + 1) (True, count + 1, index + 1 = length pattern, index)
        else if pattern ! index = QUESTION \<or> pattern ! index = LBRACKET then
          scan_pattern_loop pattern
            (index + (if pattern ! index = LBRACKET then char_class_token_len pattern index else 1))
            (True, count + 1, star_at_end, prefix_len)
        else scan_pattern_loop pattern (index + 1) (wild, count, star_at_end, prefix_len)
      else (wild, count, star_at_end, prefix_len))"
  by pat_completeness auto
termination
  by (relation "measure (\<lambda>(pattern, index, _). length pattern - index)") (auto intro: diff_less_mono2)

declare scan_pattern_loop.simps [simp del]

definition scan_pattern :: "bytes \<Rightarrow> PatternFeatures" where
  "scan_pattern pattern =
     (case scan_pattern_loop pattern 0 (False, 0, False, length pattern) of (wild, count, star_at_end, prefix_len) \<Rightarrow>
        \<lparr> has_wildcards = wild,
          trailing_star_prefix_len = (if count = 1 \<and> star_at_end then Some prefix_len else None) \<rparr>)"

text \<open>\<open>unescape_segment\<close>; the loop of \<open>pattern_eq_literal\<close> has the same text.\<close>

function unescape_loop :: "bytes \<Rightarrow> nat \<Rightarrow> bytes \<Rightarrow> bytes" where
  "unescape_loop segment index out =
     (if index < length segment then
        if segment ! index = BACKSLASH \<and> index + 1 < length segment
        then unescape_loop segment (index + 2) (out @ [segment ! (index + 1)])
        else unescape_loop segment (index + 1) (out @ [segment ! index])
      else out)"
  by pat_completeness auto
termination by (relation "measure (\<lambda>(segment, index, _). length segment - index)") auto

declare unescape_loop.simps [simp del]

definition unescape_segment :: "bytes \<Rightarrow> bytes" where
  "unescape_segment segment = unescape_loop segment 0 []"

definition pattern_eq_literal :: "bytes \<Rightarrow> bytes \<Rightarrow> bool" where
  "pattern_eq_literal pattern text =
     (if BACKSLASH \<notin> set pattern then pattern = text else unescape_loop pattern 0 [] = text)"

text \<open>
  \<open>literal_segments_for_prune\<close>: the loop's locals are \<open>segments\<close>, \<open>segment_start\<close> and \<open>index\<close>.
\<close>

function prune_segments_loop :: "bytes \<Rightarrow> bytes list \<Rightarrow> nat option \<Rightarrow> nat \<Rightarrow> bytes list" where
  "prune_segments_loop pattern segments segment_start index =
     (if index < length pattern then
        if pattern ! index = BACKSLASH then
          prune_segments_loop pattern segments
            (case segment_start of None \<Rightarrow> Some index | Some start \<Rightarrow> Some start)
            (index + ((if index + 1 < length pattern then 1 else 0) + 1))
        else if pattern ! index = STAR \<or> pattern ! index = QUESTION \<or> pattern ! index = LBRACKET then
          prune_segments_loop pattern
            (case segment_start of
               Some start \<Rightarrow> if index > start then segments @ [take (index - start) (drop start pattern)] else segments
             | None \<Rightarrow> segments)
            None
            (index + (if pattern ! index = LBRACKET then char_class_token_len pattern index else 1))
        else
          prune_segments_loop pattern segments
            (case segment_start of None \<Rightarrow> Some index | Some start \<Rightarrow> Some start) (index + 1)
      else (case segment_start of Some start \<Rightarrow> segments @ [drop start pattern] | None \<Rightarrow> segments))"
  by pat_completeness auto
termination
  by (relation "measure (\<lambda>(pattern, _, _, index). length pattern - index)") (auto intro: diff_less_mono2)

declare prune_segments_loop.simps [simp del]

definition literal_segments_for_prune :: "bytes \<Rightarrow> PatternFeatures \<Rightarrow> bytes list option" where
  "literal_segments_for_prune pattern features =
     (if \<not> has_wildcards features then None
      else let segments = prune_segments_loop pattern [] None 0
           in if segments = [] then None else Some segments)"

text \<open>\<open>memmem\<close> is \<open>memchr::memmem::find\<close>: haystack and needle to the first position.\<close>

type_synonym memmem = "bytes \<Rightarrow> bytes \<Rightarrow> nat option"

fun segments_match_in_order :: "memmem \<Rightarrow> bytes list \<Rightarrow> bytes \<Rightarrow> bool" where
  "segments_match_in_order memmem [] remaining = True"
| "segments_match_in_order memmem (segment # segments) remaining =
     (let literal = unescape_segment segment
      in case memmem remaining literal of
           None \<Rightarrow> False
         | Some pos \<Rightarrow> segments_match_in_order memmem segments (drop (pos + length literal) remaining))"

definition glob_match_simd :: "memmem \<Rightarrow> bytes \<Rightarrow> bytes \<Rightarrow> bool option" where
  "glob_match_simd memmem pattern text =
     (if pattern = [STAR] then Some True
      else let features = scan_pattern pattern
           in if \<not> has_wildcards features then Some (pattern_eq_literal pattern text)
              else case trailing_star_prefix_len features of
                Some prefix_len \<Rightarrow> Some (take prefix_len text = take prefix_len pattern)
              | None \<Rightarrow>
                  if (case literal_segments_for_prune pattern features of
                        Some segments \<Rightarrow> \<not> segments_match_in_order memmem segments text
                      | None \<Rightarrow> False)
                  then Some False
                  else glob_match_scalar pattern text)"

definition glob_match :: "memmem \<Rightarrow> bytes \<Rightarrow> bytes \<Rightarrow> bool option" where
  "glob_match memmem pattern text = glob_match_simd memmem pattern text"

section \<open>The keyspace matcher\<close>

text \<open>
  \<open>senko-store/src/pattern.rs\<close>. Slices of the source are lists here, so every recursive call is on a
  suffix of the pattern; \<open>class_scan\<close> is the loop of \<open>match_char_class\<close>, which returns whether the
  class accepts the byte and the pattern after its closing bracket.
\<close>

definition has_glob_bytes :: "bytes \<Rightarrow> bool" where
  "has_glob_bytes pattern = list_ex (\<lambda>b. b = STAR \<or> b = QUESTION \<or> b = LBRACKET \<or> b = RBRACKET \<or> b = BACKSLASH) pattern"

fun class_scan :: "byte \<Rightarrow> bool \<Rightarrow> bool \<Rightarrow> bytes \<Rightarrow> (bool \<times> bytes) option" where
  "class_scan byte negated matched [] = None"
| "class_scan byte negated matched (ch # rest) =
     (if ch = RBRACKET then Some (if negated then \<not> matched else matched, rest)
      else if ch = BACKSLASH \<and> rest \<noteq> [] then class_scan byte negated (matched \<or> hd rest = byte) (tl rest)
      else class_scan byte negated (matched \<or> ch = byte) rest)"

definition class_body :: "bytes \<Rightarrow> bool \<times> bytes" where
  "class_body rest = (case rest of
       ch # rest' \<Rightarrow> if ch = CARET \<or> ch = BANG then (True, rest') else (False, rest)
     | [] \<Rightarrow> (False, []))"

lemma class_scan_shorter: "class_scan byte negated matched rest = Some (ok, rest') \<Longrightarrow> length rest' < length rest"
  by (induction byte negated matched rest rule: class_scan.induct) (force split: if_splits)+

lemma class_body_shorter [simp]: "length (snd (class_body rest)) \<le> length rest"
  by (simp add: class_body_def split: list.splits)

function glob_match_impl :: "bytes \<Rightarrow> bytes \<Rightarrow> bool" where
  "glob_match_impl [] text = (text = [])"
| "glob_match_impl (ch # pattern) text =
     (if ch = STAR then list_ex (\<lambda>i. glob_match_impl pattern (drop i text)) [0..<Suc (length text)]
      else if ch = QUESTION then text \<noteq> [] \<and> glob_match_impl pattern (tl text)
      else if ch = LBRACKET then
        text \<noteq> [] \<and>
        (case class_scan (hd text) (fst (class_body pattern)) False (snd (class_body pattern)) of
           None \<Rightarrow> False
         | Some (ok, rest) \<Rightarrow> ok \<and> glob_match_impl rest (tl text))
      else if ch = BACKSLASH then
        pattern \<noteq> [] \<and> text \<noteq> [] \<and> hd pattern = hd text \<and> glob_match_impl (tl pattern) (tl text)
      else text \<noteq> [] \<and> ch = hd text \<and> glob_match_impl pattern (tl text))"
  by pat_completeness auto
termination
proof (relation "measure (\<lambda>(pattern, _). length pattern)", goal_cases)
  case (4 ch pattern subject p ok suffix)
  then show ?case
    using class_scan_shorter [of "hd subject" "fst (class_body pattern)" False "snd (class_body pattern)" ok suffix]
      class_body_shorter [of pattern] by (simp del: class_body_shorter)
qed auto

definition keyspace_glob_match :: "memmem \<Rightarrow> bytes \<Rightarrow> bytes \<Rightarrow> bool" where
  "keyspace_glob_match memmem pattern text =
     (if \<not> has_glob_bytes pattern then memmem text pattern \<noteq> None else glob_match_impl pattern text)"

section \<open>Specification\<close>

text \<open>
  A pattern is a list of tokens: a run of any bytes, any one byte, one byte of a class, or a literal.
  A class is a list of single bytes and ranges, possibly negated; an unterminated class accepts no
  byte.
\<close>

datatype class_item = Single byte | Range byte byte

fun item_has :: "class_item \<Rightarrow> byte \<Rightarrow> bool" where
  "item_has (Single c) b = (c = b)"
| "item_has (Range lo hi) b = (lo \<le> b \<and> b \<le> hi)"

function class_items :: "bytes \<Rightarrow> (class_item list \<times> bytes) option" where
  "class_items [] = None"
| "class_items (c # cs) =
     (if c = RBRACKET then Some ([], cs)
      else if c = BACKSLASH \<and> cs \<noteq> [] then map_option (apfst (Cons (Single (hd cs)))) (class_items (tl cs))
      else if 2 \<le> length cs \<and> hd cs = MINUS \<and> cs ! 1 \<noteq> RBRACKET
        then map_option (apfst (Cons (Range c (cs ! 1)))) (class_items (drop 2 cs))
      else map_option (apfst (Cons (Single c))) (class_items cs))"
  by pat_completeness auto
termination by (relation "measure length") auto

lemma class_items_shorter: "class_items cs = Some (items, rest) \<Longrightarrow> length rest < length cs"
  by (induction cs arbitrary: items rest rule: class_items.induct) (fastforce split: if_splits)+

definition class_accepts :: "bool \<Rightarrow> class_item list \<Rightarrow> byte \<Rightarrow> bool" where
  "class_accepts negated items b = (negated \<noteq> list_ex (\<lambda>item. item_has item b) items)"

datatype token = AnyRun | AnyByte | Class "byte \<Rightarrow> bool" | Literal byte

fun token_accepts :: "token \<Rightarrow> byte \<Rightarrow> bool" where
  "token_accepts AnyRun b = False"
| "token_accepts AnyByte b = True"
| "token_accepts (Class f) b = f b"
| "token_accepts (Literal c) b = (c = b)"

function tokens :: "bytes \<Rightarrow> token list" where
  "tokens [] = []"
| "tokens (c # cs) =
     (if c = STAR then AnyRun # tokens cs
      else if c = QUESTION then AnyByte # tokens cs
      else if c = LBRACKET then
        (case class_items (snd (class_body cs)) of
           None \<Rightarrow> [Class (\<lambda>_. False)]
         | Some (items, rest) \<Rightarrow> Class (class_accepts (fst (class_body cs)) items) # tokens rest)
      else if c = BACKSLASH \<and> cs \<noteq> [] then Literal (hd cs) # tokens (tl cs)
      else Literal c # tokens cs)"
  by pat_completeness auto
termination
proof (relation "measure length", goal_cases)
  case (4 c cs p items rest)
  then show ?case
    using class_items_shorter [of "snd (class_body cs)" items rest] class_body_shorter [of cs] by (simp del: class_body_shorter)
qed auto

fun glob_spec :: "token list \<Rightarrow> bytes \<Rightarrow> bool" where
  "glob_spec [] text = (text = [])"
| "glob_spec (AnyRun # ts) text = list_ex (\<lambda>k. glob_spec ts (drop k text)) [0..<Suc (length text)]"
| "glob_spec (t # ts) [] = False"
| "glob_spec (t # ts) (b # text) = (token_accepts t b \<and> glob_spec ts text)"

section \<open>One token\<close>

lemma class_items_suffix:
  "class_items cs = Some (items, rest) \<Longrightarrow> \<exists>n > 0. n \<le> length cs \<and> rest = drop n cs"
proof (induction cs arbitrary: items rest rule: class_items.induct)
  case (2 c cs)
  have step: "\<exists>n > 0. n \<le> length (c # cs) \<and> rest = drop n (c # cs)"
    if "\<exists>n > 0. n \<le> length (drop k cs) \<and> rest = drop n (drop k cs)" for k
  proof -
    from that obtain n where "n > 0" "n \<le> length cs - k" "rest = drop (n + k) cs" by auto
    then show ?thesis by (intro exI [of _ "Suc (n + k)"]) auto
  qed
  from 2 show ?case
    using step [of 0] step [of 1] step [of 2] by (fastforce simp: drop_Suc split: if_splits)
qed simp

lemma match_char_class_loop_items:
  "match_char_class_loop pattern b negated i m =
     (case class_items (drop i pattern) of
        None \<Rightarrow> (False, length pattern)
      | Some (items, rest) \<Rightarrow>
          (negated \<noteq> (m \<or> list_ex (\<lambda>item. item_has item b) items), length pattern - length rest))"
proof (induction pattern b negated i m rule: match_char_class_loop.induct)
  case (1 pattern b negated i m)
  show ?case
  proof (cases "i < length pattern")
    case True
    then have d: "drop i pattern = pattern ! i # drop (Suc i) pattern" by (simp add: Cons_nth_drop_Suc)
    have hd: "hd (drop (Suc i) pattern) = pattern ! Suc i" if "Suc i < length pattern"
      using that by (simp add: hd_drop_conv_nth)
    have tl: "tl (drop (Suc i) pattern) = drop (Suc (Suc i)) pattern" by (simp add: drop_Suc tl_drop)
    show ?thesis
      using True 1 d hd tl
      by (subst match_char_class_loop.simps)
         (auto simp: numeral_2_eq_2 numeral_3_eq_3 split: option.splits)
  next
    case False
    then show ?thesis by (subst match_char_class_loop.simps) simp
  qed
qed

lemma class_items_rest:
  assumes "class_items (drop k pattern) = Some (items, rest)" "k \<le> length pattern"
  shows "rest = drop (length pattern - length rest) pattern" "k < length pattern - length rest" "length rest \<le> length pattern"
proof -
  from class_items_suffix [OF assms(1)] obtain n where n: "n > 0" "n \<le> length pattern - k" "rest = drop (n + k) pattern"
    by auto
  then show "rest = drop (length pattern - length rest) pattern" "k < length pattern - length rest"
    "length rest \<le> length pattern" using assms(2) by (simp_all add: algebra_simps)
qed

lemma class_body_drop:
  "class_body rest = (if rest \<noteq> [] \<and> (hd rest = CARET \<or> hd rest = BANG) then (True, drop 1 rest) else (False, rest))"
  by (cases rest) (auto simp: class_body_def)

lemma match_char_class_items:
  "match_char_class (LBRACKET # cs) b =
     (case class_items (snd (class_body cs)) of
        None \<Rightarrow> (False, length (LBRACKET # cs))
      | Some (items, rest) \<Rightarrow>
          (class_accepts (fst (class_body cs)) items b, length (LBRACKET # cs) - length rest))"
  by (cases cs) (auto simp: match_char_class_def match_char_class_loop_items class_body_def class_accepts_def
    numeral_2_eq_2 split: option.splits)

text \<open>Every token but a star is consumed with one byte, by the length \<open>match_single_token\<close> returns.\<close>

lemma token_at:
  assumes "i < length pattern" "pattern ! i \<noteq> STAR"
  shows "\<exists>t n. tokens (drop i pattern) = t # tokens (drop (i + n) pattern) \<and> 0 < n \<and> i + n \<le> length pattern \<and>
           t \<noteq> AnyRun \<and> (\<forall>b. match_single_token pattern i b = (token_accepts t b, n))"
proof -
  define cs where "cs = drop (Suc i) pattern"
  have d: "drop i pattern = pattern ! i # cs" using assms(1) by (simp add: cs_def Cons_nth_drop_Suc)
  show ?thesis
  proof (cases "pattern ! i = LBRACKET")
    case True
    show ?thesis
    proof (cases "class_items (snd (class_body cs))")
      case None
      then show ?thesis using True d assms(1)
        by (intro exI [of _ "Class (\<lambda>_. False)"] exI [of _ "length pattern - i"])
           (simp add: match_single_token_def match_char_class_items cs_def Suc_diff_Suc)
    next
      case (Some p)
      then obtain items rest where p: "class_items (snd (class_body cs)) = Some (items, rest)" by (cases p) auto
      obtain k where k: "snd (class_body cs) = drop k (LBRACKET # cs)" "k \<le> length (LBRACKET # cs)"
        using that [of 1] that [of 2]
        by (cases "snd (class_body cs) = cs") (auto simp: class_body_def split: list.splits if_splits)
      define n where "n = length (LBRACKET # cs) - length rest"
      note items = p [unfolded k(1)]
      have rest: "rest = drop n (LBRACKET # cs)" "0 < n" "n \<le> length (LBRACKET # cs)"
        using class_items_rest [OF items k(2)] unfolding n_def by simp_all
      moreover have "drop (i + n) pattern = drop n (LBRACKET # cs)"
        using drop_drop [of n i pattern] d True by (simp add: add.commute)
      moreover have "i + n \<le> length pattern" using rest(3) assms(1) by (simp add: cs_def)
      ultimately show ?thesis using True d p
        by (intro exI [of _ "Class (class_accepts (fst (class_body cs)) items)"] exI [of _ n])
           (simp add: match_single_token_def match_char_class_items n_def)
    qed
  next
    case False
    then show ?thesis using d assms
      by (cases "pattern ! i = BACKSLASH \<and> Suc i < length pattern")
         (auto simp: match_single_token_def cs_def hd_drop_conv_nth tl_drop drop_Suc [symmetric] split: if_splits)
  qed
qed

section \<open>The backtracking loop\<close>

lemma glob_spec_any: "glob_spec (AnyRun # ts) s \<longleftrightarrow> (\<exists>k. glob_spec ts (drop k s))"
proof
  assume "\<exists>k. glob_spec ts (drop k s)"
  then obtain k where "glob_spec ts (drop k s)" by blast
  moreover have "drop k s = drop (min k (length s)) s" by (simp add: min_def)
  ultimately show "glob_spec (AnyRun # ts) s"
    by (auto simp: list_ex_iff intro!: bexI [of _ "min k (length s)"] simp del: upt_Suc)
qed (auto simp: list_ex_iff simp del: upt_Suc)

declare glob_spec.simps(2) [simp del]
declare glob_spec_any [simp]

lemma glob_spec_token:
  "t \<noteq> AnyRun \<Longrightarrow> glob_spec (t # ts) s \<longleftrightarrow> s \<noteq> [] \<and> token_accepts t (hd s) \<and> glob_spec ts (tl s)"
  by (cases t; cases s) auto

lemma glob_spec_run:
  "AnyRun \<notin> set ts \<Longrightarrow> glob_spec (ts @ us) s \<longleftrightarrow>
     length ts \<le> length s \<and> list_all2 token_accepts ts (take (length ts) s) \<and> glob_spec us (drop (length ts) s)"
proof (induction ts arbitrary: s)
  case (Cons t ts)
  have t: "t \<noteq> AnyRun" and ts: "AnyRun \<notin> set ts" using Cons.prems by auto
  show ?case using Cons.IH [OF ts] by (cases s) (simp_all add: glob_spec_token [OF t] conj_ac)
qed simp

lemma skip_stars_props:
  "i \<le> length pattern \<Longrightarrow> i \<le> skip_stars pattern i \<and> skip_stars pattern i \<le> length pattern"
proof (induction pattern i rule: skip_stars.induct)
  case (1 pattern i)
  show ?case
  proof (cases "i < length pattern \<and> pattern ! i = STAR")
    case True
    then have "skip_stars pattern i = skip_stars pattern (i + 1)" by (subst skip_stars.simps) simp
    with True 1 show ?thesis by fastforce
  next
    case False
    then have "skip_stars pattern i = i" by (subst skip_stars.simps) (simp only: if_False)
    with 1 show ?thesis by simp
  qed
qed

lemma skip_stars_any:
  "i \<le> length pattern \<Longrightarrow>
     (\<exists>k. glob_spec (tokens (drop i pattern)) (drop k s)) \<longleftrightarrow>
     (\<exists>k. glob_spec (tokens (drop (skip_stars pattern i) pattern)) (drop k s))"
proof (induction pattern i rule: skip_stars.induct)
  case (1 pattern i)
  show ?case
  proof (cases "i < length pattern \<and> pattern ! i = STAR")
    case True
    then have "tokens (drop i pattern) = AnyRun # tokens (drop (Suc i) pattern)"
      by (simp flip: Cons_nth_drop_Suc)
    then have "(\<exists>k. glob_spec (tokens (drop i pattern)) (drop k s)) \<longleftrightarrow>
      (\<exists>k. glob_spec (tokens (drop (Suc i) pattern)) (drop k s))"
      by simp (metis add_0)
    with True 1 show ?thesis using skip_stars.simps [of pattern i] by simp
  next
    case False
    then show ?thesis using skip_stars.simps [of pattern i] by (simp only: if_False)
  qed
qed

lemma glob_spec_star:
  assumes "i < length pattern" "pattern ! i = STAR"
  shows "glob_spec (tokens (drop i pattern)) s \<longleftrightarrow>
           (\<exists>k. glob_spec (tokens (drop (skip_stars pattern i) pattern)) (drop k s))"
    and "i < skip_stars pattern i"
proof -
  have d: "tokens (drop i pattern) = AnyRun # tokens (drop (Suc i) pattern)"
    using assms by (simp flip: Cons_nth_drop_Suc)
  have s: "skip_stars pattern i = skip_stars pattern (Suc i)"
    using assms by (subst skip_stars.simps) simp
  show "glob_spec (tokens (drop i pattern)) s \<longleftrightarrow>
           (\<exists>k. glob_spec (tokens (drop (skip_stars pattern i) pattern)) (drop k s))"
    using skip_stars_any [of "Suc i" pattern s] assms(1) by (simp add: d s)
  show "i < skip_stars pattern i" using skip_stars_props [of "Suc i" pattern] assms(1) by (simp add: s)
qed

text \<open>
  The loop invariant: the tokens from the resume point to the current pattern position are
  single-byte tokens, one for each byte of the text between the resume point and the current text position.
\<close>

definition scalar_inv :: "bytes \<Rightarrow> bytes \<Rightarrow> nat \<Rightarrow> nat \<Rightarrow> nat option \<Rightarrow> nat \<Rightarrow> bool" where
  "scalar_inv pattern s pi ti sp st \<longleftrightarrow> pi \<le> length pattern \<and> ti \<le> length s \<and>
     (case sp of None \<Rightarrow> True
      | Some p \<Rightarrow> p \<le> length pattern \<and> st \<le> ti \<and>
          (\<exists>ts. tokens (drop p pattern) = ts @ tokens (drop pi pattern) \<and> length ts = ti - st \<and> AnyRun \<notin> set ts))"

definition matches_from :: "bytes \<Rightarrow> bytes \<Rightarrow> nat \<Rightarrow> nat \<Rightarrow> bool" where
  "matches_from pattern s pi ti \<longleftrightarrow> glob_spec (tokens (drop pi pattern)) (drop ti s)"

definition scalar_goal :: "bytes \<Rightarrow> bytes \<Rightarrow> nat \<Rightarrow> nat \<Rightarrow> nat option \<Rightarrow> nat \<Rightarrow> bool" where
  "scalar_goal pattern s pi ti sp st \<longleftrightarrow> matches_from pattern s pi ti \<or>
     (case sp of None \<Rightarrow> False | Some p \<Rightarrow> \<exists>k. st < k \<and> k \<le> length s \<and> matches_from pattern s p k)"

definition scalar_measure :: "bytes \<Rightarrow> bytes \<Rightarrow> nat \<Rightarrow> nat option \<Rightarrow> nat \<Rightarrow> nat" where
  "scalar_measure pattern s pi sp st =
     (case sp of None \<Rightarrow> Suc (length s) | Some _ \<Rightarrow> length s - st) * Suc (length pattern) + (length pattern - pi)"

lemma matches_from_star:
  assumes "pi < length pattern" "pattern ! pi = STAR" "ti \<le> length s"
  shows "matches_from pattern s pi ti \<longleftrightarrow> (\<exists>k \<ge> ti. k \<le> length s \<and> matches_from pattern s (skip_stars pattern pi) k)"
proof -
  have "(\<exists>k. glob_spec ts (drop k (drop ti s))) \<longleftrightarrow> (\<exists>k \<ge> ti. k \<le> length s \<and> glob_spec ts (drop k s))" for ts
  proof
    assume "\<exists>k. glob_spec ts (drop k (drop ti s))"
    then obtain k where k: "glob_spec ts (drop (k + ti) s)" by auto
    have "drop (k + ti) s = drop (min (k + ti) (length s)) s" by (simp add: min_def)
    with k assms(3) show "\<exists>k \<ge> ti. k \<le> length s \<and> glob_spec ts (drop k s)"
      by (intro exI [of _ "min (k + ti) (length s)"]) auto
  next
    assume "\<exists>k \<ge> ti. k \<le> length s \<and> glob_spec ts (drop k s)"
    then obtain k where "k \<ge> ti" "glob_spec ts (drop k s)" by blast
    then show "\<exists>k. glob_spec ts (drop k (drop ti s))" by (intro exI [of _ "k - ti"]) simp
  qed
  then show ?thesis using glob_spec_star(1) [OF assms(1,2)] by (simp add: matches_from_def)
qed

lemma scalar_star_step:
  assumes "scalar_inv pattern s pi ti sp st" "pi < length pattern" "pattern ! pi = STAR"
  defines "q \<equiv> skip_stars pattern pi"
  shows "scalar_inv pattern s q ti (Some q) ti"
    and "scalar_goal pattern s pi ti sp st \<longleftrightarrow> (\<exists>k \<ge> ti. k \<le> length s \<and> matches_from pattern s q k)"
    and "scalar_measure pattern s q (Some q) ti < scalar_measure pattern s pi sp st"
proof -
  have q: "pi < q" "q \<le> length pattern"
    using glob_spec_star(2) [OF assms(2,3)] skip_stars_props [of pi pattern] assms(2) by (auto simp: q_def)
  have ti: "ti \<le> length s" using assms(1) by (simp add: scalar_inv_def)
  show "scalar_inv pattern s q ti (Some q) ti" using q ti by (simp add: scalar_inv_def)
  have star: "matches_from pattern s pi ti \<longleftrightarrow> (\<exists>k \<ge> ti. k \<le> length s \<and> matches_from pattern s q k)"
    using matches_from_star [OF assms(2,3) ti] by (simp add: q_def)
  have "matches_from pattern s pi ti" if sp: "sp = Some p" and k: "st < k" "k \<le> length s" "matches_from pattern s p k" for p k
  proof -
    from assms(1) sp obtain ts where ts: "tokens (drop p pattern) = ts @ tokens (drop pi pattern)"
      "length ts = ti - st" "AnyRun \<notin> set ts" "st \<le> ti" by (auto simp: scalar_inv_def)
    from k(3) ts glob_spec_run [OF ts(3)] have "length ts \<le> length s - k"
      "matches_from pattern s pi (k + length ts)" by (auto simp: matches_from_def add.commute)
    then obtain k' where "k + length ts \<le> k'" "k' \<le> length s" "matches_from pattern s q k'"
      using matches_from_star [OF assms(2,3), of "k + length ts" s] k(2) unfolding q_def by auto
    moreover from this(1) have "ti \<le> k'" using ts(2,4) k(1) by linarith
    ultimately show ?thesis unfolding star by blast
  qed
  then show "scalar_goal pattern s pi ti sp st \<longleftrightarrow> (\<exists>k \<ge> ti. k \<le> length s \<and> matches_from pattern s q k)"
    using star by (auto simp: scalar_goal_def split: option.splits)
  have lt: "(length s - ti) * Suc (length pattern) + (length pattern - q) < a * Suc (length pattern) + (length pattern - pi)"
    if "length s - ti \<le> a" for a
    using mult_le_mono1 [OF that, of "Suc (length pattern)"] q by linarith
  have "length s - ti \<le> (case sp of None \<Rightarrow> Suc (length s) | Some _ \<Rightarrow> length s - st)"
    using assms(1) by (auto simp: scalar_inv_def split: option.splits)
  from lt [OF this] show "scalar_measure pattern s q (Some q) ti < scalar_measure pattern s pi sp st"
    by (simp only: scalar_measure_def option.case)
qed

lemma scalar_token_step:
  assumes "scalar_inv pattern s pi ti sp st" "pi < length pattern" "pattern ! pi \<noteq> STAR" "ti < length s"
    and "match_single_token pattern pi (s ! ti) = (True, n)"
  shows "scalar_inv pattern s (pi + n) (ti + 1) sp st"
    and "scalar_goal pattern s pi ti sp st = scalar_goal pattern s (pi + n) (ti + 1) sp st"
    and "scalar_measure pattern s (pi + n) sp st < scalar_measure pattern s pi sp st"
proof -
  obtain t where t: "tokens (drop pi pattern) = t # tokens (drop (pi + n) pattern)" "0 < n" "pi + n \<le> length pattern"
      "t \<noteq> AnyRun" "token_accepts t (s ! ti)"
    using token_at [OF assms(2,3)] assms(5) by auto
  show "scalar_inv pattern s (pi + n) (ti + 1) sp st"
  proof (cases sp)
    case (Some p)
    with assms(1) obtain ts where "tokens (drop p pattern) = ts @ tokens (drop pi pattern)"
      "length ts = ti - st" "AnyRun \<notin> set ts" "st \<le> ti" "p \<le> length pattern" by (auto simp: scalar_inv_def)
    with Some t assms(4) show ?thesis by (auto simp: scalar_inv_def intro!: exI [of _ "ts @ [t]"])
  qed (use t assms(4) in \<open>simp add: scalar_inv_def\<close>)
  have "matches_from pattern s pi ti = matches_from pattern s (pi + n) (ti + 1)"
    using t assms(4) by (simp add: matches_from_def glob_spec_token hd_drop_conv_nth tl_drop drop_Suc)
  then show "scalar_goal pattern s pi ti sp st = scalar_goal pattern s (pi + n) (ti + 1) sp st"
    by (simp add: scalar_goal_def)
  show "scalar_measure pattern s (pi + n) sp st < scalar_measure pattern s pi sp st"
    using t(2,3) by (simp add: scalar_measure_def split: option.splits)
qed

lemma scalar_backtrack:
  assumes "scalar_inv pattern s pi ti (Some p) st" "\<not> matches_from pattern s pi ti"
  shows "\<not> st + 1 > length s \<Longrightarrow> scalar_inv pattern s p (st + 1) (Some p) (st + 1)"
    and "\<not> st + 1 > length s \<Longrightarrow>
           scalar_goal pattern s pi ti (Some p) st = scalar_goal pattern s p (st + 1) (Some p) (st + 1)"
    and "st + 1 > length s \<Longrightarrow> \<not> scalar_goal pattern s pi ti (Some p) st"
    and "\<not> st + 1 > length s \<Longrightarrow>
           scalar_measure pattern s p (Some p) (st + 1) < scalar_measure pattern s pi (Some p) st"
proof -
  show "scalar_inv pattern s p (st + 1) (Some p) (st + 1)" if "\<not> st + 1 > length s"
    using assms(1) that by (simp add: scalar_inv_def)
  show "scalar_goal pattern s pi ti (Some p) st = scalar_goal pattern s p (st + 1) (Some p) (st + 1)"
    if "\<not> st + 1 > length s"
  proof -
    have "(\<exists>k. st < k \<and> k \<le> length s \<and> matches_from pattern s p k) \<longleftrightarrow>
        matches_from pattern s p (st + 1) \<or> (\<exists>k. st + 1 < k \<and> k \<le> length s \<and> matches_from pattern s p k)"
      using that by (metis Suc_eq_plus1 Suc_lessD lessI linorder_not_less not_less_eq linorder_neqE_nat)
    then show ?thesis using assms(2) by (simp add: scalar_goal_def)
  qed
  show "\<not> scalar_goal pattern s pi ti (Some p) st" if "st + 1 > length s"
    using that assms(2) by (auto simp: scalar_goal_def)
  show "scalar_measure pattern s p (Some p) (st + 1) < scalar_measure pattern s pi (Some p) st" if "\<not> st + 1 > length s"
  proof -
    from that obtain d where "length s - st = Suc d" "length s - (st + 1) = d" by (cases "length s - st") auto
    then show ?thesis by (simp add: scalar_measure_def)
  qed
qed

lemma matches_from_end: "matches_from pattern s (length pattern) ti \<longleftrightarrow> length s \<le> ti"
  by (simp add: matches_from_def)

lemma matches_from_token:
  assumes "pi < length pattern" "pattern ! pi \<noteq> STAR" "matches_from pattern s pi ti"
  shows "ti < length s \<and> fst (match_single_token pattern pi (s ! ti))"
proof -
  obtain t n where "tokens (drop pi pattern) = t # tokens (drop (pi + n) pattern)" "t \<noteq> AnyRun"
      "\<forall>b. match_single_token pattern pi b = (token_accepts t b, n)"
    using token_at [OF assms(1,2)] by blast
  with assms(3) show ?thesis by (auto simp: matches_from_def glob_spec_token hd_drop_conv_nth)
qed

lemma scalar_backtrack_result:
  assumes "scalar_inv pattern s pi ti sp st" "\<not> matches_from pattern s pi ti"
    and "\<And>pi' ti' sp' st'. scalar_inv pattern s pi' ti' sp' st' \<Longrightarrow>
           scalar_measure pattern s pi' sp' st' < scalar_measure pattern s pi sp st \<Longrightarrow>
           glob_match_scalar_loop pattern s pi' ti' sp' st' = Some (scalar_goal pattern s pi' ti' sp' st')"
  shows "(case sp of
            Some p \<Rightarrow> if st + 1 > length s then Some False
                       else glob_match_scalar_loop pattern s p (st + 1) sp (st + 1)
          | None \<Rightarrow> Some False) = Some (scalar_goal pattern s pi ti sp st)"
proof (cases sp)
  case None
  with assms(2) show ?thesis by (simp add: scalar_goal_def)
next
  case (Some p)
  note resume = scalar_backtrack [OF assms(1) [unfolded Some] assms(2)]
  show ?thesis
  proof (cases "st + 1 > length s")
    case True
    then show ?thesis using resume(3) Some by simp
  next
    case False
    then show ?thesis using resume(2) [OF False] assms(3) [OF resume(1) [OF False]] resume(4) [OF False] Some by simp
  qed
qed

lemma glob_match_scalar_loop_correct:
  "scalar_inv pattern s pi ti sp st \<Longrightarrow>
     glob_match_scalar_loop pattern s pi ti sp st = Some (scalar_goal pattern s pi ti sp st)"
proof (induction "scalar_measure pattern s pi sp st" arbitrary: pi ti sp st rule: less_induct)
  case less
  note inv = less.prems
  note result = scalar_backtrack_result [OF inv _ less.hyps]
  show ?case
  proof (cases "pi = length pattern")
    case True
    show ?thesis
    proof (cases "ti = length s")
      case True
      with \<open>pi = length pattern\<close> show ?thesis
        by (subst glob_match_scalar_loop.simps) (simp add: scalar_goal_def matches_from_end)
    next
      case False
      then have "\<not> matches_from pattern s pi ti"
        using inv True by (auto simp: matches_from_end scalar_inv_def)
      from result [OF this] show ?thesis using True False
        by (subst glob_match_scalar_loop.simps) (simp only: if_True if_False simp_thms)
    qed
  next
    case False
    then have pi: "pi < length pattern" using inv by (simp add: scalar_inv_def)
    show ?thesis
    proof (cases "pattern ! pi = STAR")
      case True
      note step = scalar_star_step [OF inv pi True]
      let ?q = "skip_stars pattern pi"
      have ti: "ti \<le> length s" using inv by (simp add: scalar_inv_def)
      have "scalar_goal pattern s ?q ti (Some ?q) ti = scalar_goal pattern s pi ti sp st"
        unfolding step(2) using ti by (auto simp: scalar_goal_def le_less)
      moreover have "scalar_goal pattern s pi ti sp st" if "?q = length pattern"
        unfolding step(2) using that matches_from_end [of pattern s "length s"] ti by auto
      ultimately show ?thesis using False True less.hyps [OF step(3,1)]
        by (subst glob_match_scalar_loop.simps) (simp add: Let_def)
    next
      case nostar: False
      show ?thesis
      proof (cases "ti < length s \<and> fst (match_single_token pattern pi (s ! ti))")
        case True
        then obtain n where n: "match_single_token pattern pi (s ! ti) = (True, n)"
          by (cases "match_single_token pattern pi (s ! ti)") auto
        note step = scalar_token_step [OF inv pi nostar _ n]
        show ?thesis using False True nostar n step less.hyps [OF step(3,1)]
          by (subst glob_match_scalar_loop.simps) simp
      next
        case notoken: False
        then have "\<not> matches_from pattern s pi ti" using matches_from_token [OF pi nostar] by blast
        from result [OF this] show ?thesis using False nostar notoken
          by (subst glob_match_scalar_loop.simps) (simp only: if_True if_False simp_thms)
      qed
    qed
  qed
qed

text \<open>C30. The backtracking loop of \<open>glob_match_scalar\<close> returns on every pattern and text, and the answer
is whether the text is in the language of the pattern's tokens. Remembering only the last star is
enough.\<close>

theorem glob_match_scalar_correct:
  "glob_match_scalar pattern s = Some (glob_spec (tokens pattern) s)"
  using glob_match_scalar_loop_correct [of pattern s 0 0 None 0]
  by (simp add: glob_match_scalar_def scalar_inv_def scalar_goal_def matches_from_def)

section \<open>Token boundaries of the scanners\<close>

text \<open>
  \<open>scan_pattern\<close>, \<open>literal_segments_for_prune\<close> and \<open>literal_segments\<close> step over a class by
  \<open>char_class_token_len\<close>, not by \<open>match_char_class\<close>. The two lengths agree unless a range ends in a
  backslash.
\<close>

definition no_escaped_range :: "bytes \<Rightarrow> bool" where
  "no_escaped_range pattern =
     list_all (\<lambda>i. \<not> (pattern ! i = MINUS \<and> pattern ! Suc i = BACKSLASH)) [0..<length pattern - 1]"

lemma no_escaped_rangeD:
  "no_escaped_range pattern \<Longrightarrow> Suc i < length pattern \<Longrightarrow> pattern ! i = MINUS \<Longrightarrow> pattern ! Suc i \<noteq> BACKSLASH"
  by (auto simp: no_escaped_range_def list_all_iff)

lemma char_class_token_len_loop_items:
  assumes "no_escaped_range pattern" "start < i"
  shows "char_class_token_len_loop pattern start i =
     (case class_items (drop i pattern) of
        None \<Rightarrow> length pattern - start
      | Some (items, rest) \<Rightarrow> length pattern - length rest - start)"
  using assms(2)
proof (induction "length pattern - i" arbitrary: i rule: less_induct)
  case less
  have step: "char_class_token_len_loop pattern start j = char_class_token_len_loop pattern start (Suc j)"
    if "j < length pattern" "pattern ! j \<noteq> BACKSLASH" "pattern ! j \<noteq> RBRACKET" for j
    using that by (subst char_class_token_len_loop.simps) simp
  show ?case
  proof (cases "i < length pattern")
    case True
    define cs where "cs = drop (Suc i) pattern"
    have d: "drop i pattern = pattern ! i # cs" using True by (simp add: cs_def Cons_nth_drop_Suc)
    have IH: "char_class_token_len_loop pattern start j = (case class_items (drop j pattern) of
        None \<Rightarrow> length pattern - start | Some (items, rest) \<Rightarrow> length pattern - length rest - start)" if "i < j" for j
      using less.hyps [of j] less.prems True that by simp
    consider "pattern ! i = RBRACKET" | (esc) "pattern ! i = BACKSLASH" "Suc i < length pattern"
      | (range) "pattern ! i \<noteq> RBRACKET" "\<not> (pattern ! i = BACKSLASH \<and> Suc i < length pattern)" "i + 2 < length pattern"
          "pattern ! (i + 1) = MINUS" "pattern ! (i + 2) \<noteq> RBRACKET"
      | (lit) "pattern ! i \<noteq> RBRACKET" "\<not> (pattern ! i = BACKSLASH \<and> Suc i < length pattern)"
          "\<not> (i + 2 < length pattern \<and> pattern ! (i + 1) = MINUS \<and> pattern ! (i + 2) \<noteq> RBRACKET)" by blast
    then show ?thesis
    proof cases
      case 1
      then show ?thesis using True less.prems d
        by (subst char_class_token_len_loop.simps) (simp add: cs_def Suc_diff_le)
    next
      case esc
      then have "tl cs = drop (i + 2) pattern" "cs \<noteq> []" by (simp_all add: cs_def tl_drop drop_Suc)
      then show ?thesis using True esc d IH [of "i + 2"]
        by (subst char_class_token_len_loop.simps) (auto split: option.splits)
    next
      case range
      have "pattern ! (i + 2) \<noteq> BACKSLASH"
        using no_escaped_rangeD [OF assms(1), of "i + 1"] range by simp
      then have "char_class_token_len_loop pattern start (i + 2) = char_class_token_len_loop pattern start (i + 3)"
        using step [of "i + 2"] range by (simp add: numeral_3_eq_3)
      moreover have "char_class_token_len_loop pattern start (i + 1) = char_class_token_len_loop pattern start (i + 2)"
      proof -
        have "pattern ! (i + 1) \<noteq> BACKSLASH" "pattern ! (i + 1) \<noteq> RBRACKET" unfolding range(4) by simp_all
        then show ?thesis using step [of "i + 1"] range(3) by simp
      qed
      moreover have "char_class_token_len_loop pattern start i = char_class_token_len_loop pattern start (i + 1)"
        using step [of i] range by simp
      moreover have "drop 2 cs = drop (i + 3) pattern" "2 \<le> length cs" "hd cs = MINUS" "cs ! 1 = pattern ! (i + 2)" "cs \<noteq> []"
        using range by (auto simp: cs_def hd_drop_conv_nth numeral_2_eq_2 numeral_3_eq_3)
      ultimately show ?thesis using range d IH [of "i + 3"] by (auto simp: cs_def split: option.splits)
    next
      case lit
      have "char_class_token_len_loop pattern start i = char_class_token_len_loop pattern start (Suc i)"
        using lit True by (subst char_class_token_len_loop.simps) auto
      moreover have "class_items (drop i pattern) = map_option (apfst (Cons (Single (pattern ! i)))) (class_items cs)"
        using lit d by (auto simp: cs_def hd_drop_conv_nth numeral_2_eq_2 numeral_3_eq_3)
      ultimately show ?thesis using IH [of "Suc i"] by (auto simp: cs_def split: option.splits)
    qed
  next
    case False
    then show ?thesis by (subst char_class_token_len_loop.simps) simp
  qed
qed

definition token_step :: "bytes \<Rightarrow> nat \<Rightarrow> nat" where
  "token_step pattern i =
     (if pattern ! i = LBRACKET then char_class_token_len pattern i
      else if pattern ! i = BACKSLASH \<and> i + 1 < length pattern then 2 else 1)"

lemma class_token_step:
  assumes free: "no_escaped_range pattern" and i: "i < length pattern" "pattern ! i = LBRACKET"
  shows "char_class_token_len pattern i = snd (match_single_token pattern i b)"
proof -
  define cs where "cs = drop (Suc i) pattern"
  have d: "drop i pattern = LBRACKET # cs" using i by (simp add: cs_def flip: Cons_nth_drop_Suc)
  have len: "length pattern - i = length (LBRACKET # cs)" using i(1) by (simp add: cs_def)
  define j where "j = (if fst (class_body cs) then i + 2 else i + 1)"
  have j: "drop j pattern = snd (class_body cs)" "i < j"
    by (auto simp: j_def class_body_drop cs_def)
  have "char_class_token_len pattern i = char_class_token_len_loop pattern i j"
  proof (cases "fst (class_body cs)")
    case True
    then have "cs \<noteq> []" "hd cs = CARET \<or> hd cs = BANG" by (auto simp: class_body_drop split: if_splits)
    then have "Suc i < length pattern" "pattern ! Suc i = CARET \<or> pattern ! Suc i = BANG"
      by (auto simp: cs_def hd_drop_conv_nth)
    then have "Suc i < length pattern" "pattern ! Suc i \<noteq> BACKSLASH" "pattern ! Suc i \<noteq> RBRACKET" by auto
    then have "char_class_token_len_loop pattern i (Suc i) = char_class_token_len_loop pattern i (Suc (Suc i))"
      by (subst char_class_token_len_loop.simps) simp
    with True show ?thesis by (simp add: char_class_token_len_def j_def)
  qed (simp add: char_class_token_len_def j_def)
  also have "\<dots> = snd (match_char_class (LBRACKET # cs) b)"
    unfolding char_class_token_len_loop_items [OF free j(2)] j(1) match_char_class_items using len
    by (auto split: option.splits)
  finally show ?thesis using i d by (simp add: match_single_token_def)
qed

lemma token_head:
  assumes "no_escaped_range pattern" "i < length pattern"
  shows "\<exists>t. tokens (drop i pattern) = t # tokens (drop (i + token_step pattern i) pattern) \<and>
           i + token_step pattern i \<le> length pattern \<and> 0 < token_step pattern i \<and>
           (t = AnyRun \<longleftrightarrow> pattern ! i = STAR) \<and> (t = AnyByte \<longleftrightarrow> pattern ! i = QUESTION) \<and>
           ((\<exists>f. t = Class f) \<longleftrightarrow> pattern ! i = LBRACKET) \<and>
           (pattern ! i \<noteq> STAR \<longrightarrow> pattern ! i \<noteq> QUESTION \<longrightarrow> pattern ! i \<noteq> LBRACKET \<longrightarrow>
              t = Literal (if pattern ! i = BACKSLASH \<and> i + 1 < length pattern then pattern ! (i + 1) else pattern ! i))"
proof -
  define cs where "cs = drop (Suc i) pattern"
  have d: "drop i pattern = pattern ! i # cs" using assms(2) by (simp add: cs_def Cons_nth_drop_Suc)
  consider (klass) "pattern ! i = LBRACKET" | (esc) "pattern ! i = BACKSLASH" "i + 1 < length pattern"
    | (other) "pattern ! i \<noteq> LBRACKET" "\<not> (pattern ! i = BACKSLASH \<and> i + 1 < length pattern)" by blast
  then show ?thesis
  proof cases
    case klass
    then have "pattern ! i \<noteq> STAR" by simp
    from token_at [OF assms(2) this] obtain t n where t: "tokens (drop i pattern) = t # tokens (drop (i + n) pattern)"
      "0 < n" "i + n \<le> length pattern" "\<And>b. match_single_token pattern i b = (token_accepts t b, n)" by blast
    have "n = token_step pattern i"
      using class_token_step [OF assms klass, of 0] t(4) [of 0] klass by (simp add: token_step_def)
    moreover have "\<exists>f. t = Class f" using t(1) d klass by (auto split: option.splits)
    ultimately show ?thesis using t klass by auto
  next
    case esc
    then show ?thesis using d assms(2)
      by (simp add: token_step_def cs_def hd_drop_conv_nth tl_drop drop_Suc [symmetric])
  next
    case other
    then show ?thesis using d assms(2) by (auto simp: token_step_def cs_def)
  qed
qed

section \<open>The fast paths\<close>

lemma scan_step:
  "i < length pattern \<Longrightarrow> scan_pattern_loop pattern i (w, c, e, l) =
     scan_pattern_loop pattern (i + token_step pattern i)
       (if pattern ! i = STAR then (True, c + 1, i + 1 = length pattern, i)
        else if pattern ! i = QUESTION \<or> pattern ! i = LBRACKET then (True, c + 1, e, l)
        else (w, c, e, l))"
  by (subst scan_pattern_loop.simps) (auto simp: token_step_def)

lemma scan_end: "length pattern \<le> i \<Longrightarrow> scan_pattern_loop pattern i (w, c, e, l) = (w, c, e, l)"
  by (subst scan_pattern_loop.simps) simp

fun unescaped :: "bytes \<Rightarrow> bytes" where
  "unescaped [] = []"
| "unescaped (c # cs) = (if c = BACKSLASH \<and> cs \<noteq> [] then hd cs # unescaped (tl cs) else c # unescaped cs)"

lemma unescape_loop_unescaped: "unescape_loop segment i out = out @ unescaped (drop i segment)"
proof (induction segment i out rule: unescape_loop.induct)
  case (1 segment i out)
  show ?case
  proof (cases "i < length segment")
    case True
    then have d: "drop i segment = segment ! i # drop (Suc i) segment" by (simp add: Cons_nth_drop_Suc)
    from True 1 show ?thesis
      by (subst unescape_loop.simps)
         (auto simp: d hd_drop_conv_nth tl_drop drop_Suc [symmetric] simp del: drop_Suc)
  qed (subst unescape_loop.simps, simp)
qed

lemma unescape_segment_unescaped: "unescape_segment segment = unescaped segment"
  by (simp add: unescape_segment_def unescape_loop_unescaped)

lemma unescaped_plain: "BACKSLASH \<notin> set cs \<Longrightarrow> unescaped cs = cs"
  by (induction cs) auto

definition literal_only :: "token list \<Rightarrow> bool" where
  "literal_only ts \<longleftrightarrow> (\<forall>t \<in> set ts. \<exists>b. t = Literal b)"

lemma literal_only_simps [simp]:
  "literal_only []" "literal_only (t # ts) \<longleftrightarrow> (\<exists>b. t = Literal b) \<and> literal_only ts"
  by (auto simp: literal_only_def)

lemma tokens_literal: "literal_only (tokens cs) \<Longrightarrow> tokens cs = map Literal (unescaped cs)"
proof (induction cs rule: tokens.induct)
  case (2 c cs)
  consider (star) "c = STAR" | (question) "c = QUESTION" | (bracket) "c = LBRACKET"
    | (esc) "c = BACKSLASH" "cs \<noteq> []"
    | (lit) "c \<noteq> STAR" "c \<noteq> QUESTION" "c \<noteq> LBRACKET" "\<not> (c = BACKSLASH \<and> cs \<noteq> [])" by blast
  then show ?case
  proof cases
    case bracket
    then show ?thesis using 2 by (simp split: option.splits prod.splits)
  next
    case lit
    then show ?thesis using "2.IH"(5) "2.prems" by auto
  qed (use 2 in simp_all)
qed simp

lemma glob_spec_literals: "glob_spec (map Literal ls @ us) s \<longleftrightarrow> take (length ls) s = ls \<and> glob_spec us (drop (length ls) s)"
proof (induction ls arbitrary: s)
  case (Cons c ls)
  then show ?case by (cases s) auto
qed simp

lemma scan_count:
  assumes "no_escaped_range pattern"
  shows "scan_pattern_loop pattern i (w, c, e, l) = (w', c', e', l') \<Longrightarrow>
    c \<le> c' \<and> (w' \<longleftrightarrow> w \<or> c < c') \<and>
    (c' = c \<longrightarrow> e' = e \<and> l' = l \<and> literal_only (tokens (drop i pattern)))"
proof (induction "length pattern - i" arbitrary: i w c e l rule: less_induct)
  case less
  show ?case
  proof (cases "i < length pattern")
    case True
    obtain t where t: "tokens (drop i pattern) = t # tokens (drop (i + token_step pattern i) pattern)"
        "0 < token_step pattern i"
        "pattern ! i \<noteq> STAR \<Longrightarrow> pattern ! i \<noteq> QUESTION \<Longrightarrow> pattern ! i \<noteq> LBRACKET \<Longrightarrow> \<exists>b. t = Literal b"
      using token_head [OF assms True] by blast
    have lt: "length pattern - (i + token_step pattern i) < length pattern - i" using True t(2) by linarith
    note IH = less.hyps [OF lt]
    show ?thesis
    proof (cases "pattern ! i = STAR \<or> pattern ! i = QUESTION \<or> pattern ! i = LBRACKET")
      case wild: True
      then obtain e2 l2 where "scan_pattern_loop pattern (i + token_step pattern i) (True, c + 1, e2, l2) = (w', c', e', l')"
        using that less.prems wild unfolding scan_step [OF True, of w c e l] by (cases "pattern ! i = STAR") simp_all
      from IH [OF this] show ?thesis by auto
    next
      case False
      then have "scan_pattern_loop pattern (i + token_step pattern i) (w, c, e, l) = (w', c', e', l')"
        using less.prems scan_step [OF True, of w c e l] by simp
      from IH [OF this] t(1,3) False show ?thesis by (auto simp: literal_only_def)
    qed
  next
    case False
    then show ?thesis using less.prems by (simp add: scan_end literal_only_def)
  qed
qed

lemma scan_trailing:
  assumes "no_escaped_range pattern"
  shows "scan_pattern_loop pattern i (w, 0, False, l) = (w', 1, True, l') \<Longrightarrow> i \<le> length pattern \<Longrightarrow>
    i \<le> l' \<and> Suc l' = length pattern \<and>
    (\<exists>ls. tokens (drop i pattern) = map Literal ls @ [AnyRun] \<and>
      (BACKSLASH \<notin> set (take (l' - i) (drop i pattern)) \<longrightarrow> ls = take (l' - i) (drop i pattern)))"
proof (induction "length pattern - i" arbitrary: i w l rule: less_induct)
  case less
  show ?case
  proof (cases "i < length pattern")
    case True
    obtain t where t: "tokens (drop i pattern) = t # tokens (drop (i + token_step pattern i) pattern)"
        "0 < token_step pattern i" "i + token_step pattern i \<le> length pattern" "t = AnyRun \<longleftrightarrow> pattern ! i = STAR"
        "pattern ! i \<noteq> STAR \<Longrightarrow> pattern ! i \<noteq> QUESTION \<Longrightarrow> pattern ! i \<noteq> LBRACKET \<Longrightarrow>
           t = Literal (if pattern ! i = BACKSLASH \<and> i + 1 < length pattern then pattern ! (i + 1) else pattern ! i)"
      using token_head [OF assms True] by blast
    note step = scan_step [OF True, of w 0 False l]
    consider (star) "pattern ! i = STAR" | (one) "pattern ! i = QUESTION \<or> pattern ! i = LBRACKET"
      | (lit) "pattern ! i \<noteq> STAR" "pattern ! i \<noteq> QUESTION" "pattern ! i \<noteq> LBRACKET" by blast
    then show ?thesis
    proof cases
      case star
      then have "scan_pattern_loop pattern (i + token_step pattern i) (True, 1, i + 1 = length pattern, i) = (w', 1, True, l')"
        using step less.prems by simp
      from scan_count [OF assms this] have "i + 1 = length pattern" "l' = i" by auto
      then show ?thesis using t(1,4) star by (auto simp: token_step_def intro!: exI [of _ "[]"])
    next
      case one
      then have "pattern ! i \<noteq> STAR" by auto
      with one have "scan_pattern_loop pattern (i + token_step pattern i) (True, 1, False, l) = (w', 1, True, l')"
        using step less.prems by simp
      from scan_count [OF assms this] show ?thesis by simp
    next
      case lit
      then have s: "scan_pattern_loop pattern (i + token_step pattern i) (w, 0, False, l) = (w', 1, True, l')"
        using step less.prems by simp
      have lt: "length pattern - (i + token_step pattern i) < length pattern - i" using True t(2) by linarith
      from less.hyps [OF lt s t(3)] obtain ls where ls: "i + token_step pattern i \<le> l'" "Suc l' = length pattern"
        "tokens (drop (i + token_step pattern i) pattern) = map Literal ls @ [AnyRun]"
        "BACKSLASH \<notin> set (take (l' - (i + token_step pattern i)) (drop (i + token_step pattern i) pattern)) \<longrightarrow>
           ls = take (l' - (i + token_step pattern i)) (drop (i + token_step pattern i) pattern)" by blast
      have "l' - i = Suc (l' - Suc i)" using ls(1) t(2) by linarith
      then have tk: "take (l' - i) (drop i pattern) = pattern ! i # take (l' - Suc i) (drop (Suc i) pattern)"
        using True by (simp flip: Cons_nth_drop_Suc)
      have "ls = take (l' - Suc i) (drop (Suc i) pattern) \<and> pattern ! i \<noteq> BACKSLASH"
        if "BACKSLASH \<notin> set (take (l' - i) (drop i pattern))"
      proof -
        from that tk have nb: "pattern ! i \<noteq> BACKSLASH" by auto
        then have "token_step pattern i = 1" using lit by (simp add: token_step_def)
        with that tk nb ls(4) show ?thesis by simp
      qed
      then show ?thesis using ls(1,2,3) t(1,2) t(5) [OF lit] tk
        by (auto intro!: exI [of _ "_ # ls"])
    qed
  next
    case False
    then show ?thesis using less.prems by (simp add: scan_end)
  qed
qed

section \<open>Pruning by literal segments\<close>

text \<open>The maximal runs of literal tokens, and the greedy search for them in order.\<close>

fun literal_runs :: "bytes \<Rightarrow> token list \<Rightarrow> bytes list" where
  "literal_runs cur [] = (if cur = [] then [] else [cur])"
| "literal_runs cur (t # ts) = (case t of
       Literal c \<Rightarrow> literal_runs (cur @ [c]) ts
     | _ \<Rightarrow> (if cur = [] then [] else [cur]) @ literal_runs [] ts)"

definition memmem_laws :: "memmem \<Rightarrow> bool" where
  "memmem_laws memmem \<longleftrightarrow> (\<forall>hay needle. memmem hay needle = find (occurs_at hay needle) [0..<Suc (length hay)])"

fun in_order :: "memmem \<Rightarrow> bytes list \<Rightarrow> bytes \<Rightarrow> bool" where
  "in_order memmem [] s = True"
| "in_order memmem (l # ls) s =
     (case memmem s l of None \<Rightarrow> False | Some p \<Rightarrow> in_order memmem ls (drop (p + length l) s))"

lemma segments_in_order:
  "segments_match_in_order memmem segments s = in_order memmem (map unescape_segment segments) s"
  by (induction memmem segments s rule: segments_match_in_order.induct) (auto simp: Let_def split: option.splits)

lemma memmem_found:
  assumes "memmem_laws memmem"
  shows "memmem hay needle = Some i \<longleftrightarrow> occurs_at hay needle i \<and> (\<forall>j < i. \<not> occurs_at hay needle j)"
    and "memmem hay needle = None \<longleftrightarrow> (\<forall>j. \<not> occurs_at hay needle j)"
  using assms find_occurrence [of hay needle 0] find_no_occurrence [of hay needle 0]
  by (simp_all add: memmem_laws_def del: upt_Suc)

lemma occurs_at_suffix: "k \<le> length hay \<Longrightarrow> occurs_at (drop k hay) needle i \<Longrightarrow> occurs_at hay needle (k + i)"
  by (auto simp: occurs_at_def ac_simps)

lemma in_order_suffix:
  assumes laws: "memmem_laws memmem"
  shows "in_order memmem ls (drop k s) \<Longrightarrow> k \<le> length s \<Longrightarrow> in_order memmem ls s"
proof (induction ls arbitrary: k s)
  case (Cons l ls)
  from Cons.prems(1) obtain p where p: "memmem (drop k s) l = Some p" "in_order memmem ls (drop (p + length l) (drop k s))"
    by (cases "memmem (drop k s) l") simp_all
  then have occ: "occurs_at s l (k + p)"
    using occurs_at_suffix [OF Cons.prems(2), of l p] memmem_found(1) [OF laws, of "drop k s" l p] by simp
  then obtain q where q: "memmem s l = Some q" using memmem_found(2) [OF laws, of s l] by (cases "memmem s l") auto
  then have le: "q \<le> k + p" using occ memmem_found [OF laws] by (meson not_le)
  then have "drop (p + length l) (drop k s) = drop (k + p - q) (drop (q + length l) s)"
    by (simp add: algebra_simps)
  moreover have "k + p - q \<le> length (drop (q + length l) s)" using occ le by (auto simp: occurs_at_def)
  ultimately have "in_order memmem ls (drop (q + length l) s)" using p(2) Cons.IH by metis
  then show ?case by (simp add: q)
qed simp

lemma in_order_first:
  assumes laws: "memmem_laws memmem" and "take (length cur) s = cur" "in_order memmem ls (drop (length cur) s)"
  shows "in_order memmem ((if cur = [] then [] else [cur]) @ ls) s"
proof -
  have "length cur \<le> length s" using assms(2) by (metis length_take min.cobounded2 min.absorb_iff2)
  then have "memmem s cur = Some 0" using assms(2) by (simp add: memmem_found [OF laws] occurs_at_def)
  then show ?thesis using assms(3) by auto
qed

lemma in_order_runs:
  assumes laws: "memmem_laws memmem"
  shows "glob_spec (map Literal cur @ ts) s \<Longrightarrow> in_order memmem (literal_runs cur ts) s"
proof (induction ts arbitrary: cur s)
  case Nil
  then have "take (length cur) s = cur" unfolding glob_spec_literals by simp
  from in_order_first [OF laws this, of "[]"] show ?case by (cases "cur = []") simp_all
next
  case (Cons t ts)
  show ?case
  proof (cases "\<exists>c. t = Literal c")
    case True
    then show ?thesis using Cons.prems Cons.IH [of "cur @ [_]"] by auto
  next
    case False
    from Cons.prems have cur: "take (length cur) s = cur" "glob_spec (t # ts) (drop (length cur) s)"
      by (simp_all add: glob_spec_literals del: glob_spec_any)
    then obtain k where k: "glob_spec ts (drop k (drop (length cur) s))" "k \<le> length (drop (length cur) s)"
    proof (cases "t = AnyRun")
      case True
      then obtain k where "glob_spec ts (drop k (drop (length cur) s))" using cur(2) by auto
      then show thesis
        using that [of "min k (length (drop (length cur) s))"] by (cases "k \<le> length (drop (length cur) s)") auto
    next
      case False
      then show thesis using cur(2) that [of 1] by (cases "drop (length cur) s") (auto simp: glob_spec_token)
    qed
    then have "in_order memmem (literal_runs [] ts) (drop (length cur) s)"
      using Cons.IH [of "[]" "drop k (drop (length cur) s)"] in_order_suffix [OF laws _ k(2)] by simp
    from in_order_first [OF laws cur(1) this] show ?thesis using False by (cases t) auto
  qed
qed

text \<open>A segment that does not end inside an escape.\<close>

definition whole_escapes :: "bytes \<Rightarrow> bool" where
  "whole_escapes q \<longleftrightarrow> (\<forall>r. unescaped (q @ r) = unescaped q @ unescaped r)"

lemma unescaped_Nil_iff [simp]: "unescaped q = [] \<longleftrightarrow> q = []"
  by (cases q) auto

lemma whole_escapes_extend:
  assumes "whole_escapes q"
  shows "unescaped (q @ u) = unescaped q @ unescaped u" "whole_escapes u \<Longrightarrow> whole_escapes (q @ u)"
  using assms by (simp_all add: whole_escapes_def)

lemma whole_escapes_token:
  "whole_escapes []" "c \<noteq> BACKSLASH \<Longrightarrow> whole_escapes [c]" "whole_escapes [BACKSLASH, c]"
  by (auto simp: whole_escapes_def)

definition prune_inv :: "bytes \<Rightarrow> nat option \<Rightarrow> nat \<Rightarrow> bytes \<Rightarrow> bool" where
  "prune_inv pattern start i cur \<longleftrightarrow> i \<le> length pattern \<and>
     (case start of None \<Rightarrow> cur = []
      | Some st \<Rightarrow> st < i \<and> cur = unescaped (take (i - st) (drop st pattern)) \<and>
          (i < length pattern \<longrightarrow> whole_escapes (take (i - st) (drop st pattern))))"

lemma prune_inv_literal:
  assumes "prune_inv pattern start i cur" "i < length pattern"
    and "0 < n" "i + n \<le> length pattern" "unescaped (take n (drop i pattern)) = [c]"
    and "i + n < length pattern \<longrightarrow> whole_escapes (take n (drop i pattern))"
  shows "prune_inv pattern (case start of None \<Rightarrow> Some i | Some st \<Rightarrow> Some st) (i + n) (cur @ [c])"
proof (cases start)
  case None
  then show ?thesis using assms by (simp add: prune_inv_def)
next
  case (Some st)
  with assms(1,2) have st: "st < i" "cur = unescaped (take (i - st) (drop st pattern))"
    "whole_escapes (take (i - st) (drop st pattern))" by (simp_all add: prune_inv_def)
  have "i + n - st = (i - st) + n" using st(1) by simp
  then have "take (i + n - st) (drop st pattern) = take (i - st) (drop st pattern) @ take n (drop i pattern)"
    using st(1) by (simp only: take_add) simp
  with st Some assms(3-6) show ?thesis
    by (auto simp: prune_inv_def whole_escapes_extend)
qed

lemma prune_segments_runs:
  assumes free: "no_escaped_range pattern"
  shows "prune_inv pattern start i cur \<Longrightarrow>
    map unescape_segment (prune_segments_loop pattern segments start i) =
      map unescape_segment segments @ literal_runs cur (tokens (drop i pattern))"
proof (induction "length pattern - i" arbitrary: i start cur segments rule: less_induct)
  case less
  show ?case
  proof (cases "i < length pattern")
    case True
    obtain t where t: "tokens (drop i pattern) = t # tokens (drop (i + token_step pattern i) pattern)"
        "0 < token_step pattern i" "i + token_step pattern i \<le> length pattern"
        "t = AnyRun \<longleftrightarrow> pattern ! i = STAR" "t = AnyByte \<longleftrightarrow> pattern ! i = QUESTION" "(\<exists>f. t = Class f) \<longleftrightarrow> pattern ! i = LBRACKET"
        "pattern ! i \<noteq> STAR \<Longrightarrow> pattern ! i \<noteq> QUESTION \<Longrightarrow> pattern ! i \<noteq> LBRACKET \<Longrightarrow>
           t = Literal (if pattern ! i = BACKSLASH \<and> i + 1 < length pattern then pattern ! (i + 1) else pattern ! i)"
      using token_head [OF free True] by blast
    have lt: "length pattern - (i + token_step pattern i) < length pattern - i" using True t(2) by linarith
    have d: "drop i pattern = pattern ! i # drop (Suc i) pattern" using True by (simp add: Cons_nth_drop_Suc)
    show ?thesis
    proof (cases "pattern ! i = STAR \<or> pattern ! i = QUESTION \<or> pattern ! i = LBRACKET")
      case wild: True
      define flushed where "flushed = (case start of Some st \<Rightarrow> if i > st
          then segments @ [take (i - st) (drop st pattern)] else segments | None \<Rightarrow> segments)"
      have "prune_segments_loop pattern segments start i =
          prune_segments_loop pattern flushed None (i + token_step pattern i)"
        using True wild by (subst prune_segments_loop.simps) (auto simp: token_step_def flushed_def)
      moreover have "map unescape_segment flushed = map unescape_segment segments @ (if cur = [] then [] else [cur])"
        using less.prems True
        by (auto simp: flushed_def prune_inv_def unescape_segment_unescaped split: option.splits)
      moreover have "prune_inv pattern None (i + token_step pattern i) []" using t(3) by (simp add: prune_inv_def)
      moreover have "literal_runs cur (t # ts) = (if cur = [] then [] else [cur]) @ literal_runs [] ts" for ts
        using wild t(4-6) by (cases t) auto
      ultimately show ?thesis using less.hyps [OF lt] t(1) by simp
    next
      case lit: False
      let ?c = "if pattern ! i = BACKSLASH \<and> i + 1 < length pattern then pattern ! (i + 1) else pattern ! i"
      have "prune_segments_loop pattern segments start i = prune_segments_loop pattern segments
          (case start of None \<Rightarrow> Some i | Some st \<Rightarrow> Some st) (i + token_step pattern i)"
        using True lit by (subst prune_segments_loop.simps) (auto simp: token_step_def)
      moreover have "unescaped (take (token_step pattern i) (drop i pattern)) = [?c] \<and>
          (i + token_step pattern i < length pattern \<longrightarrow> whole_escapes (take (token_step pattern i) (drop i pattern)))"
      proof (cases "pattern ! i = BACKSLASH \<and> i + 1 < length pattern")
        case True
        then have "take 2 (drop i pattern) = [BACKSLASH, pattern ! (i + 1)]"
          using d by (simp add: numeral_2_eq_2 flip: Cons_nth_drop_Suc)
        with True lit show ?thesis by (simp add: token_step_def whole_escapes_token)
      next
        case False
        have "take 1 (drop i pattern) = [pattern ! i]" using d by simp
        with False lit \<open>i < length pattern\<close> show ?thesis by (auto simp: token_step_def whole_escapes_token)
      qed
      ultimately show ?thesis
        using less.hyps [OF lt prune_inv_literal [OF less.prems True t(2,3)]] t(1,7) lit by simp
    qed
  next
    case False
    then show ?thesis using less.prems
      by (subst prune_segments_loop.simps)
         (auto simp: prune_inv_def unescape_segment_unescaped split: option.splits)
  qed
qed

section \<open>The matcher used for subscriptions\<close>

lemma prune_complete:
  assumes "memmem_laws memmem" "no_escaped_range pattern" "glob_spec (tokens pattern) s"
    and "literal_segments_for_prune pattern features = Some segments"
  shows "segments_match_in_order memmem segments s"
proof -
  have "segments = prune_segments_loop pattern [] None 0"
    using assms(4) by (auto simp: literal_segments_for_prune_def Let_def split: if_splits)
  then have "map unescape_segment segments = literal_runs [] (tokens pattern)"
    using prune_segments_runs [OF assms(2), of None 0 "[]" "[]"] by (simp add: prune_inv_def)
  then show ?thesis using in_order_runs [OF assms(1), of "[]" "tokens pattern" s] assms(3)
    by (simp add: segments_in_order)
qed

lemma scan_pattern_no_wildcards:
  assumes "no_escaped_range pattern" "\<not> has_wildcards (scan_pattern pattern)"
  shows "pattern_eq_literal pattern s \<longleftrightarrow> glob_spec (tokens pattern) s"
proof -
  obtain w c e l where r: "scan_pattern_loop pattern 0 (False, 0, False, length pattern) = (w, c, e, l)"
    using prod_cases4 by blast
  with scan_count [OF assms(1) r] assms(2) have "literal_only (tokens pattern)" by (simp add: scan_pattern_def)
  then have "tokens pattern = map Literal (unescaped pattern)" by (rule tokens_literal)
  then have "glob_spec (tokens pattern) s \<longleftrightarrow> s = unescaped pattern"
    using glob_spec_literals [of "unescaped pattern" "[]" s]
    by simp (metis append_take_drop_id append_Nil2 order_refl take_all)
  then show ?thesis
    by (auto simp: pattern_eq_literal_def unescape_loop_unescaped unescaped_plain)
qed

lemma scan_pattern_trailing_star:
  assumes "no_escaped_range pattern" "trailing_star_prefix_len (scan_pattern pattern) = Some n"
    and "BACKSLASH \<notin> set (take n pattern)"
  shows "take n s = take n pattern \<longleftrightarrow> glob_spec (tokens pattern) s"
proof -
  obtain w c e l where r: "scan_pattern_loop pattern 0 (False, 0, False, length pattern) = (w, c, e, l)"
    using prod_cases4 by blast
  with assms(2) have "scan_pattern_loop pattern 0 (False, 0, False, length pattern) = (w, 1, True, n)"
    by (simp add: scan_pattern_def split: if_splits)
  from scan_trailing [OF assms(1) this] assms(3)
  have "tokens pattern = map Literal (take n pattern) @ [AnyRun]" "n < length pattern" by auto
  then show ?thesis by (auto simp: glob_spec_literals intro: exI [of _ "length s"])
qed

lemma glob_match_simd_spec:
  assumes "memmem_laws memmem" "no_escaped_range pattern"
    and "\<And>n. trailing_star_prefix_len (scan_pattern pattern) = Some n \<Longrightarrow> BACKSLASH \<notin> set (take n pattern)"
  shows "glob_match_simd memmem pattern s = Some (glob_spec (tokens pattern) s)"
proof (cases "pattern = [STAR]")
  case True
  then show ?thesis by (auto simp: glob_match_simd_def intro: exI [of _ "length s"])
next
  case False
  show ?thesis
  proof (cases "has_wildcards (scan_pattern pattern)")
    case wild: True
    show ?thesis
    proof (cases "trailing_star_prefix_len (scan_pattern pattern)")
      case None
      then show ?thesis using False wild prune_complete [OF assms(1,2), of s] glob_match_scalar_loop_correct [of pattern s 0 0 None 0]
        by (auto simp: glob_match_simd_def Let_def glob_match_scalar_def scalar_inv_def scalar_goal_def
          matches_from_def split: option.splits)
    next
      case (Some n)
      then show ?thesis using False wild scan_pattern_trailing_star [OF assms(2) Some assms(3) [OF Some], of s]
        by (simp add: glob_match_simd_def Let_def)
    qed
  next
    case nowild: False
    then show ?thesis using False scan_pattern_no_wildcards [OF assms(2) nowild, of s]
      by (simp add: glob_match_simd_def Let_def)
  qed
qed

text \<open>C31. The matcher used for subscriptions, with its literal, trailing-star and segment-pruning fast paths, returns
and agrees with the specification (hence with the plain backtracking matcher), whenever no class range ends in a
backslash and the prefix of a pattern with a single trailing star has no escape.\<close>

theorem glob_match_simd_correct:
  assumes "memmem_laws memmem" "no_escaped_range pattern"
    and "\<And>n. trailing_star_prefix_len (scan_pattern pattern) = Some n \<Longrightarrow> BACKSLASH \<notin> set (take n pattern)"
  shows "glob_match_simd memmem pattern s = Some (glob_spec (tokens pattern) s) \<and>
    glob_match_simd memmem pattern s = glob_match_scalar pattern s"
proof (rule conjI)
  show spec: "glob_match_simd memmem pattern s = Some (glob_spec (tokens pattern) s)"
    using assms by (rule glob_match_simd_spec)
  show "glob_match_simd memmem pattern s = glob_match_scalar pattern s"
    using spec glob_match_scalar_loop_correct [of pattern s 0 0 None 0]
    by (simp add: glob_match_scalar_def scalar_inv_def scalar_goal_def matches_from_def)
qed

text \<open>Substring search by definition, the instance of the parameter the examples run.\<close>

definition reference_memmem :: memmem where
  "reference_memmem hay needle = find (occurs_at hay needle) [0..<Suc (length hay)]"

lemma reference_memmem_laws: "memmem_laws reference_memmem"
  by (simp add: memmem_laws_def reference_memmem_def)

text \<open>\<open>a[x-z]\\*b*c\<close> against \<open>ay*bbc\<close> and \<open>ay*bb\<close>.\<close>

theorem glob_match_simd_correct_witness:
  "glob_match_simd reference_memmem [97, 91, 120, 45, 122, 93, 92, 42, 98, 42, 99] [97, 121, 42, 98, 98, 99] = Some True \<and>
   glob_match_simd reference_memmem [97, 91, 120, 45, 122, 93, 92, 42, 98, 42, 99] [97, 121, 42, 98, 98] = Some False"
proof -
  let ?p = "[97, 91, 120, 45, 122, 93, 92, 42, 98, 42, 99] :: bytes"
  have 1: "no_escaped_range ?p" by code_simp
  have "trailing_star_prefix_len (scan_pattern ?p) = None" by code_simp
  then have 2: "\<And>n. trailing_star_prefix_len (scan_pattern ?p) = Some n \<Longrightarrow> BACKSLASH \<notin> set (take n ?p)" by simp
  have "glob_spec (tokens ?p) [97, 121, 42, 98, 98, 99]" "\<not> glob_spec (tokens ?p) [97, 121, 42, 98, 98]" by code_simp+
  then show ?thesis
    using glob_match_simd_correct [OF reference_memmem_laws 1 2] by (metis (full_types))
qed

text \<open>
  The two hypotheses are needed. The trailing-star path compares the raw prefix, backslashes
  included, so \<open>h\*l*\<close> misses \<open>h*l!\<close>; and in \<open>[A-\\]x]?\<close> the scanners end the class at the first
  bracket where the matcher ends it at the second, so the text is pruned for the segment \<open>x]\<close>.
\<close>

lemma escaped_prefix_missed:
  "glob_match_simd memmem [104, 92, 42, 108, 42] [104, 42, 108, 33] = Some False \<and>
   glob_match_scalar [104, 92, 42, 108, 42] [104, 42, 108, 33] = Some True"
proof -
  have "trailing_star_prefix_len (scan_pattern [104, 92, 42, 108, 42]) = Some 4"
       "has_wildcards (scan_pattern [104, 92, 42, 108, 42])" by code_simp+
  moreover have "glob_spec (tokens [104, 92, 42, 108, 42]) [104, 42, 108, 33]" by code_simp
  ultimately show ?thesis
    using glob_match_scalar_loop_correct [of "[104, 92, 42, 108, 42]" "[104, 42, 108, 33]" 0 0 None 0]
    by (simp add: glob_match_simd_def glob_match_scalar_def scalar_inv_def scalar_goal_def matches_from_def)
qed

lemma escaped_range_pruned:
  "glob_match_simd reference_memmem [91, 65, 45, 92, 92, 93, 120, 93, 63] [65, 122] = Some False \<and>
   glob_match_scalar [91, 65, 45, 92, 92, 93, 120, 93, 63] [65, 122] = Some True"
proof -
  let ?p = "[91, 65, 45, 92, 92, 93, 120, 93, 63] :: bytes"
  have "trailing_star_prefix_len (scan_pattern ?p) = None" "has_wildcards (scan_pattern ?p)"
       "prune_segments_loop ?p [] None 0 = [[120, 93]]"
       "segments_match_in_order reference_memmem [[120, 93]] [65, 122] = False"
       "glob_spec (tokens ?p) [65, 122]" by code_simp+
  then show ?thesis
    using glob_match_scalar_loop_correct [of ?p "[65, 122]" 0 0 None 0]
    by (simp add: glob_match_simd_def literal_segments_for_prune_def glob_match_scalar_def scalar_inv_def
      scalar_goal_def matches_from_def)
qed

section \<open>The keyspace matcher meets the same specification\<close>

text \<open>The language of the keyspace matcher: classes have no ranges, and a trailing backslash matches nothing.\<close>

fun class_members :: "bytes \<Rightarrow> (bytes \<times> bytes) option" where
  "class_members [] = None"
| "class_members (c # cs) =
     (if c = RBRACKET then Some ([], cs)
      else if c = BACKSLASH \<and> cs \<noteq> [] then map_option (apfst (Cons (hd cs))) (class_members (tl cs))
      else map_option (apfst (Cons c)) (class_members cs))"

lemma class_members_shorter: "class_members cs = Some (members, rest) \<Longrightarrow> length rest < length cs"
proof (induction cs arbitrary: members rest rule: class_members.induct)
  case (2 c cs)
  then show ?case by (cases cs) (force split: if_splits)+
qed simp

function key_tokens :: "bytes \<Rightarrow> token list" where
  "key_tokens [] = []"
| "key_tokens (c # cs) =
     (if c = STAR then AnyRun # key_tokens cs
      else if c = QUESTION then AnyByte # key_tokens cs
      else if c = LBRACKET then
        (case class_members (snd (class_body cs)) of
           None \<Rightarrow> [Class (\<lambda>_. False)]
         | Some (members, rest) \<Rightarrow> Class (\<lambda>b. fst (class_body cs) \<noteq> (b \<in> set members)) # key_tokens rest)
      else if c = BACKSLASH then (if cs = [] then [Class (\<lambda>_. False)] else Literal (hd cs) # key_tokens (tl cs))
      else Literal c # key_tokens cs)"
  by pat_completeness auto
termination
proof (relation "measure length", goal_cases)
  case (4 c cs p members rest)
  then show ?case
    using class_members_shorter [of "snd (class_body cs)" members rest] class_body_shorter [of cs] by (simp del: class_body_shorter)
qed auto

lemma class_scan_members:
  "class_scan b negated m cs = map_option (\<lambda>(members, rest). (negated \<noteq> (m \<or> b \<in> set members), rest)) (class_members cs)"
proof (induction b negated m cs rule: class_scan.induct)
  case (2 b negated m c cs)
  then show ?case
    by (cases "class_members cs"; cases "class_members (tl cs)") auto
qed simp

lemma glob_match_impl_tokens: "glob_match_impl pattern s \<longleftrightarrow> glob_spec (key_tokens pattern) s"
proof (induction pattern s rule: glob_match_impl.induct)
  case (2 c cs s)
  consider (star) "c = STAR" | (question) "c = QUESTION" | (bracket) "c = LBRACKET"
    | (esc) "c = BACKSLASH" | (lit) "c \<noteq> STAR" "c \<noteq> QUESTION" "c \<noteq> LBRACKET" "c \<noteq> BACKSLASH" by blast
  then show ?case
  proof cases
    case star
    then show ?thesis using 2 by (simp add: list_ex_iff glob_spec.simps(2) del: glob_spec_any)
  next
    case bracket
    show ?thesis
    proof (cases "class_members (snd (class_body cs))")
      case None
      then show ?thesis using bracket by (cases s) (simp_all add: class_scan_members)
    next
      case (Some p)
      then show ?thesis using bracket 2(3) by (cases s; cases p) (simp_all add: class_scan_members)
    qed
  qed (use 2 in \<open>cases s; simp; fail\<close>)+
qed simp

lemma class_scan_items:
  "MINUS \<notin> set cs \<Longrightarrow> class_scan b negated m cs =
     map_option (\<lambda>(items, rest). (negated \<noteq> (m \<or> list_ex (\<lambda>item. item_has item b) items), rest)) (class_items cs)"
proof (induction b negated m cs rule: class_scan.induct)
  case (2 b negated m c cs)
  have nodash: "\<not> (2 \<le> length cs \<and> hd cs = MINUS)" using "2.prems" by (cases cs) auto
  have tl: "MINUS \<notin> set (tl cs)" using "2.prems" by (cases cs) auto
  consider "c = RBRACKET" | (esc) "c = BACKSLASH" "cs \<noteq> []"
    | (lit) "c \<noteq> RBRACKET" "\<not> (c = BACKSLASH \<and> cs \<noteq> [])" by blast
  then show ?case
  proof cases
    case esc
    then show ?thesis using "2.IH"(1) tl by (cases "class_items (tl cs)") auto
  next
    case lit
    then have "class_items (c # cs) = map_option (apfst (Cons (Single c))) (class_items cs)" using nodash by auto
    then show ?thesis using lit "2.IH"(2) "2.prems" by (cases "class_items cs") auto
  qed simp
qed simp

lemma class_items_last:
  assumes "class_items cs = Some (items, rest)" "rest \<noteq> []"
  shows "last rest = last cs" "set rest \<subseteq> set cs"
  using class_items_suffix [OF assms(1)] assms(2) by (auto simp: last_drop dest: in_set_dropD)

definition keyspace_pattern :: "bytes \<Rightarrow> bool" where
  "keyspace_pattern pattern \<longleftrightarrow> MINUS \<notin> set pattern \<and> (pattern \<noteq> [] \<longrightarrow> last pattern \<noteq> BACKSLASH)"

lemma glob_match_impl_spec:
  "keyspace_pattern pattern \<Longrightarrow> glob_match_impl pattern s \<longleftrightarrow> glob_spec (tokens pattern) s"
proof (induction pattern s rule: glob_match_impl.induct)
  case (2 c cs s)
  have tail: "keyspace_pattern cs" "keyspace_pattern (tl cs)"
    using "2.prems" by (cases cs; auto simp: keyspace_pattern_def split: if_splits)+
  consider (star) "c = STAR" | (question) "c = QUESTION" | (bracket) "c = LBRACKET"
    | (esc) "c = BACKSLASH"
    | (lit) "c \<noteq> STAR" "c \<noteq> QUESTION" "c \<noteq> LBRACKET" "c \<noteq> BACKSLASH" by blast
  then show ?case
  proof cases
    case star
    then show ?thesis using 2 tail by (simp add: list_ex_iff glob_spec.simps(2) del: glob_spec_any)
  next
    case question
    then show ?thesis using 2 tail by (cases s) simp_all
  next
    case bracket
    let ?body = "snd (class_body cs)"
    have body: "MINUS \<notin> set ?body" "?body \<noteq> [] \<Longrightarrow> last ?body = last (c # cs)"
      using "2.prems" by (auto simp: keyspace_pattern_def class_body_def split: list.splits if_splits)
    show ?thesis
    proof (cases "class_items ?body")
      case None
      then show ?thesis using bracket class_scan_items [OF body(1)] by (cases s) simp_all
    next
      case (Some p)
      then obtain items rest where items: "class_items ?body = Some (items, rest)" by (cases p) auto
      have "?body \<noteq> []" using items by auto
      then have "keyspace_pattern rest"
        using class_items_last [OF items] body "2.prems" by (cases "rest = []") (auto simp: keyspace_pattern_def)
      then show ?thesis using bracket items class_scan_items [OF body(1)] "2.IH"(3)
        by (cases s) (auto simp: class_accepts_def)
    qed
  next
    case esc
    then have "cs \<noteq> []" using "2.prems" by (auto simp: keyspace_pattern_def)
    then show ?thesis using 2 tail esc by (cases s) auto
  next
    case lit
    then show ?thesis using 2 tail by (cases s) auto
  qed
qed simp

text \<open>C32. The matcher of the keyspace commands, on every pattern: a pattern with one of the characters star, question mark,
bracket and backslash accepts exactly the language of its tokens, where a class is a set of single bytes (a dash stands for
itself) and a backslash at the end of the pattern matches nothing; a pattern without these characters accepts every text that
contains it. On patterns with no dash and no trailing backslash this is the language of the publish/subscribe matcher.\<close>

theorem keyspace_glob_match_spec:
  assumes "memmem_laws memmem"
  shows "(keyspace_glob_match memmem pattern s \<longleftrightarrow>
           (if has_glob_bytes pattern then glob_spec (key_tokens pattern) s else \<exists>i. occurs_at s pattern i)) \<and>
         (MINUS \<notin> set pattern \<and> (pattern \<noteq> [] \<longrightarrow> last pattern \<noteq> BACKSLASH) \<longrightarrow>
           glob_spec (key_tokens pattern) s = glob_spec (tokens pattern) s)"
  using glob_match_impl_spec [of pattern s] glob_match_impl_tokens [of pattern s] memmem_found(2) [OF assms, of s pattern]
  by (simp add: keyspace_glob_match_def keyspace_pattern_def)

theorem keyspace_glob_match_spec_witness:
  "keyspace_glob_match reference_memmem [91, 97, 45, 99, 93, 42] [45, 111] \<and>
   \<not> keyspace_glob_match reference_memmem [91, 97, 45, 99, 93, 42] [98, 111] \<and>
   keyspace_glob_match reference_memmem [102, 111] [97, 102, 111, 111] \<and>
   glob_spec (key_tokens [102, 42]) [102, 97]"
proof -
  have 1: "has_glob_bytes [91, 97, 45, 99, 93, 42]" "\<not> has_glob_bytes [102, 111]"
    "glob_spec (key_tokens [91, 97, 45, 99, 93, 42]) [45, 111]"
    "\<not> glob_spec (key_tokens [91, 97, 45, 99, 93, 42]) [98, 111]"
    "glob_spec (tokens [102, 42]) [102, 97]" by code_simp+
  have "occurs_at [97, 102, 111, 111] [102, 111] 1" by (simp add: occurs_at_def)
  then have 2: "\<exists>i. occurs_at [97, 102, 111, 111] [102, 111] i" by blast
  show ?thesis
    using keyspace_glob_match_spec [OF reference_memmem_laws, of "[91, 97, 45, 99, 93, 42]"]
      keyspace_glob_match_spec [OF reference_memmem_laws, of "[102, 111]"]
      keyspace_glob_match_spec [OF reference_memmem_laws, of "[102, 42]" "[102, 97]"] 1 2
    by (simp del: glob_spec.simps key_tokens.simps tokens.simps)
qed

text \<open>A trailing backslash matches itself for subscriptions and nothing for the keyspace commands.\<close>

lemma trailing_backslash_differs:
  "glob_spec (tokens [42, 92]) [92]" "\<not> glob_match_impl [42, 92] [92]"
  by code_simp+

end
