(* ===== verification/Ring.thy ===== *)
theory Ring
  imports Prelude
begin

text \<open>
  The per-subscriber message queue of the publish/subscribe engine
  (\<open>senko-pubsub/src/slot.rs\<close>): a ring of 256 atomic pointers between 64-bit head and tail counters.
  First each operation as one call, and the refinement of a bounded queue by any sequence of calls.
  Then one producer and one consumer thread, interleaved at the granularity of the single atomic
  accesses of \<open>publish\<close> and \<open>recv\<close>. An \<open>Arc\<close> that is stored as a raw pointer is the message itself;
  the null pointer is \<open>None\<close>. Wake-ups of the third-party \<open>AtomicWaker\<close> are counted.
\<close>

section \<open>Operations\<close>

definition RING_SIZE :: nat where "RING_SIZE = 256"

definition RING_MASK :: nat where "RING_MASK = RING_SIZE - 1"

text \<open>The payload of the error \<open>Lagged\<close>.\<close>

datatype Lagged = Lagged "64 word"

record 'm BroadcastSlot =
  conn_id :: "64 word"
  ring :: "'m option list"
  head :: "64 word"
  tail :: "64 word"
  lagged :: bool
  wakes :: nat

definition slot_new :: "64 word \<Rightarrow> 'm BroadcastSlot" where
  "slot_new conn = \<lparr> conn_id = conn, ring = replicate RING_SIZE None, head = 0, tail = 0, lagged = False, wakes = 0 \<rparr>"

text \<open>\<open>counter as usize & RING_MASK\<close>.\<close>

definition ring_index :: "64 word \<Rightarrow> nat" where
  "ring_index counter = unat counter AND RING_MASK"

definition slot_wake :: "'m BroadcastSlot \<Rightarrow> 'm BroadcastSlot" where
  "slot_wake s = s\<lparr>wakes := wakes s + 1\<rparr>"

definition slot_publish :: "'m \<Rightarrow> 'm BroadcastSlot \<Rightarrow> (Lagged + unit) \<times> 'm BroadcastSlot" where
  "slot_publish message s =
     (let used = head s - tail s
      in if used \<ge> of_nat RING_SIZE then (Inl (Lagged (used - of_nat RING_SIZE)), s\<lparr>lagged := True\<rparr>)
         else (Inr (), slot_wake (s\<lparr>ring := (ring s)[ring_index (head s) := Some message], head := head s + 1\<rparr>)))"

definition slot_recv :: "'m BroadcastSlot \<Rightarrow> 'm option \<times> 'm BroadcastSlot" where
  "slot_recv s =
     (if tail s = head s then (None, s)
      else (ring s ! ring_index (tail s),
            s\<lparr>ring := (ring s)[ring_index (tail s) := None], tail := tail s + 1\<rparr>))"

definition is_lagged :: "'m BroadcastSlot \<Rightarrow> bool" where
  "is_lagged s = lagged s"

definition slot_len :: "'m BroadcastSlot \<Rightarrow> 64 word" where
  "slot_len s = head s - tail s"

definition slot_is_empty :: "'m BroadcastSlot \<Rightarrow> bool" where
  "slot_is_empty s \<longleftrightarrow> slot_len s = 0"

text \<open>\<open>Drop\<close>: every pointer is swapped out; the result is the messages released.\<close>

definition slot_drop :: "'m BroadcastSlot \<Rightarrow> 'm list \<times> 'm BroadcastSlot" where
  "slot_drop s = (List.map_filter id (ring s), s\<lparr>ring := map (\<lambda>_. None) (ring s)\<rparr>)"

section \<open>One producer and one consumer, step by step\<close>

text \<open>
  The program counters: what a thread inside \<open>publish\<close> (\<open>recv\<close>) has read so far. \<open>published\<close> and
  \<open>received\<close> log the completed calls, \<open>rejected\<close> counts the lagged ones and \<open>nulls\<close> the calls
  of \<open>recv\<close> that found a null pointer between distinct counters.
\<close>

datatype 'm producer = PIdle | PHead 'm "64 word" | PTail 'm "64 word" "64 word" | PStored 'm | PWake

datatype 'm consumer = CIdle | CTail "64 word" | CHead "64 word" "64 word" | CSwapped "'m option"

record 'm ring_threads =
  slot :: "'m BroadcastSlot"
  producer :: "'m producer"
  consumer :: "'m consumer"
  published :: "'m list"
  received :: "'m list"
  rejected :: nat
  nulls :: nat

definition publish_access :: "'m ring_threads \<Rightarrow> 'm \<Rightarrow> 'm ring_threads" where
  "publish_access r message = (case producer r of
      PIdle \<Rightarrow> r\<lparr>producer := PHead message (head (slot r))\<rparr>
    | PHead m h \<Rightarrow> r\<lparr>producer := PTail m h (tail (slot r))\<rparr>
    | PTail m h t \<Rightarrow>
        if h - t \<ge> of_nat RING_SIZE
        then r\<lparr>slot := (slot r)\<lparr>lagged := True\<rparr>, producer := PIdle, rejected := rejected r + 1\<rparr>
        else r\<lparr>slot := (slot r)\<lparr>ring := (ring (slot r))[ring_index h := Some m]\<rparr>, producer := PStored m\<rparr>
    | PStored m \<Rightarrow> r\<lparr>slot := (slot r)\<lparr>head := head (slot r) + 1\<rparr>, producer := PWake, published := published r @ [m]\<rparr>
    | PWake \<Rightarrow> r\<lparr>slot := slot_wake (slot r), producer := PIdle\<rparr>)"

definition recv_access :: "'m ring_threads \<Rightarrow> 'm ring_threads" where
  "recv_access r = (case consumer r of
      CIdle \<Rightarrow> r\<lparr>consumer := CTail (tail (slot r))\<rparr>
    | CTail t \<Rightarrow> r\<lparr>consumer := CHead t (head (slot r))\<rparr>
    | CHead t h \<Rightarrow>
        if t = h then r\<lparr>consumer := CIdle\<rparr>
        else r\<lparr>slot := (slot r)\<lparr>ring := (ring (slot r))[ring_index t := None]\<rparr>,
               consumer := CSwapped (ring (slot r) ! ring_index t)\<rparr>
    | CSwapped p \<Rightarrow>
        (case p of
           None \<Rightarrow> r\<lparr>slot := (slot r)\<lparr>tail := tail (slot r) + 1\<rparr>, consumer := CIdle, nulls := nulls r + 1\<rparr>
         | Some m \<Rightarrow> r\<lparr>slot := (slot r)\<lparr>tail := tail (slot r) + 1\<rparr>, consumer := CIdle, received := received r @ [m]\<rparr>))"

inductive ring_step :: "'m ring_threads \<Rightarrow> 'm ring_threads \<Rightarrow> bool" where
  produce: "ring_step r (publish_access r message)"
| consume: "ring_step r (recv_access r)"

inductive_cases ring_stepE: "ring_step r r'"

definition threads_start :: "64 word \<Rightarrow> 'm ring_threads" where
  "threads_start conn = \<lparr> slot = slot_new conn, producer = PIdle, consumer = CIdle, published = [], received = [],
     rejected = 0, nulls = 0 \<rparr>"

section \<open>A bounded queue\<close>

lemma ring_index_mod: "ring_index counter = unat counter mod 256"
  using take_bit_eq_mask [of 8 "unat counter"]
  by (simp add: ring_index_def RING_MASK_def RING_SIZE_def take_bit_eq_mod mask_eq_exp_minus_1)

lemma ring_index_of_nat: "ring_index (of_nat k) = k mod 256"
proof -
  have "unat (of_nat k :: 64 word) mod 2 ^ 8 = k mod 2 ^ 8"
    by (simp add: unsigned_of_nat take_bit_eq_mod mod_mod_cancel)
  then show ?thesis by (simp add: ring_index_mod)
qed

text \<open>The 256 cells seen from a counter value \<open>a\<close>: the cell of counter \<open>j\<close> holds \<open>f j\<close>.\<close>

definition window :: "'m option list \<Rightarrow> nat \<Rightarrow> (nat \<Rightarrow> 'm option) \<Rightarrow> bool" where
  "window cells a f \<longleftrightarrow> length cells = 256 \<and> (\<forall>j. a \<le> j \<and> j < a + 256 \<longrightarrow> cells ! (j mod 256) = f j)"

lemma window_cong: "window cells a f \<Longrightarrow> (\<And>j. a \<le> j \<Longrightarrow> j < a + 256 \<Longrightarrow> f j = g j) \<Longrightarrow> window cells a g"
  by (simp add: window_def)

lemma window_read: "window cells a f \<Longrightarrow> a \<le> j \<Longrightarrow> j < a + 256 \<Longrightarrow> cells ! (j mod 256) = f j"
  by (simp add: window_def)

lemma same_cell: "a \<le> i \<Longrightarrow> i < a + 256 \<Longrightarrow> a \<le> j \<Longrightarrow> j < a + (256 :: nat) \<Longrightarrow> i mod 256 = j mod 256 \<Longrightarrow> i = j"
proof (induction i j rule: linorder_wlog)
  case (le i j)
  then have "256 dvd j - i" by (metis mod_eq_dvd_iff_nat)
  then show ?case using le dvd_imp_le [of 256 "j - i"] by linarith
qed auto

lemma window_write:
  assumes "window cells a f" "a \<le> i" "i < a + 256"
  shows "window (cells[i mod 256 := v]) a (f(i := v))"
  using assms same_cell [of a i] by (auto simp: window_def nth_list_update)

lemma window_shift: "window cells a f \<Longrightarrow> f (a + 256) = f a \<Longrightarrow> window cells (Suc a) f"
proof (unfold window_def, intro conjI allI impI, goal_cases)
  case (2 j)
  show ?case
  proof (cases "j = a + 256")
    case True
    then have "j mod 256 = a mod 256" by simp
    then show ?thesis using 2 True by simp
  next
    case False
    then show ?thesis using 2 by simp
  qed
qed simp

text \<open>The counters differ by the number of queued messages although each wraps.\<close>

lemma counter_diff: "unat (of_nat (a + n) - of_nat a :: 64 word) = n" if "n \<le> 256"
  using that by (simp add: unsigned_of_nat take_bit_nat_eq_self)

lemma ring_full: "of_nat RING_SIZE \<le> (of_nat (a + n) - of_nat a :: 64 word) \<longleftrightarrow> n = 256" if "n \<le> 256"
  using counter_diff [OF that, of a] that by (simp add: word_le_nat_alt RING_SIZE_def)

lemma counter_eq: "(of_nat a :: 64 word) = of_nat (a + n) \<longleftrightarrow> n = 0" if "n \<le> 256"
  using counter_diff [OF that, of a] by (metis add.right_neutral unat_eq_zero right_minus_eq)

definition queue_cells :: "nat \<Rightarrow> 'm list \<Rightarrow> nat \<Rightarrow> 'm option" where
  "queue_cells a q j = (if a \<le> j \<and> j < a + length q then Some (q ! (j - a)) else None)"

definition slot_rel :: "'m BroadcastSlot \<Rightarrow> 'm list \<Rightarrow> bool" where
  "slot_rel s q \<longleftrightarrow> length q \<le> 256 \<and>
     (\<exists>a. tail s = of_nat a \<and> head s = of_nat (a + length q) \<and> window (ring s) a (queue_cells a q))"

datatype 'm slot_op = Publish 'm | Recv

datatype 'm slot_out = Published "Lagged + unit" | Received "'m option"

fun slot_step :: "'m BroadcastSlot \<Rightarrow> 'm slot_op \<Rightarrow> ('m slot_out \<times> 'm BroadcastSlot) option" where
  "slot_step s (Publish m) = (let (res, s') = slot_publish m s in Some (Published res, s'))"
| "slot_step s Recv = (let (res, s') = slot_recv s in Some (Received res, s'))"

text \<open>The specification: a queue of at most 256 messages.\<close>

fun queue_step :: "'m list \<Rightarrow> 'm slot_op \<Rightarrow> 'm slot_out \<times> 'm list" where
  "queue_step q (Publish m) =
     (if length q = 256 then (Published (Inl (Lagged 0)), q) else (Published (Inr ()), q @ [m]))"
| "queue_step q Recv = (case q of [] \<Rightarrow> (Received None, []) | m # q' \<Rightarrow> (Received (Some m), q'))"

lemma slot_rel_new: "slot_rel (slot_new conn) []"
  by (simp add: slot_rel_def slot_new_def window_def queue_cells_def RING_SIZE_def exI [of _ 0])

lemma slot_publish_rel:
  assumes "slot_rel s q"
  shows "fst (slot_publish m s) = (if length q = 256 then Inl (Lagged 0) else Inr ())"
    and "slot_rel (snd (slot_publish m s)) (if length q = 256 then q else q @ [m])"
proof -
  from assms obtain a where a: "tail s = of_nat a" "head s = of_nat (a + length q)" "length q \<le> 256"
    "window (ring s) a (queue_cells a q)" by (auto simp: slot_rel_def)
  have full: "of_nat RING_SIZE \<le> head s - tail s \<longleftrightarrow> length q = 256"
    unfolding a(1,2) by (rule ring_full [OF a(3)])
  show "fst (slot_publish m s) = (if length q = 256 then Inl (Lagged 0) else Inr ())"
    using full by (simp add: slot_publish_def Let_def a RING_SIZE_def)
  have "window ((ring s)[ring_index (head s) := Some m]) a (queue_cells a (q @ [m]))" if "length q \<noteq> 256"
    unfolding a(2) ring_index_of_nat using that a(3)
    by (intro window_cong [OF window_write [OF a(4)]]) (auto simp: queue_cells_def nth_append)
  then show "slot_rel (snd (slot_publish m s)) (if length q = 256 then q else q @ [m])"
    using full assms a(1-3) unfolding slot_publish_def Let_def slot_rel_def slot_wake_def
    by (auto intro!: exI [of _ a] simp: ac_simps)
qed

lemma slot_recv_rel:
  assumes "slot_rel s q"
  shows "fst (slot_recv s) = (case q of [] \<Rightarrow> None | m # _ \<Rightarrow> Some m)"
    and "slot_rel (snd (slot_recv s)) (tl q)"
proof -
  from assms obtain a where a: "tail s = of_nat a" "head s = of_nat (a + length q)" "length q \<le> 256"
    "window (ring s) a (queue_cells a q)" by (auto simp: slot_rel_def)
  have empty: "tail s = head s \<longleftrightarrow> q = []" unfolding a(1,2) by (simp only: counter_eq [OF a(3)] length_0_conv)
  show "fst (slot_recv s) = (case q of [] \<Rightarrow> None | m # _ \<Rightarrow> Some m)"
    using empty window_read [OF a(4), of a]
    by (cases q) (auto simp: slot_recv_def a(1) ring_index_of_nat queue_cells_def)
  show "slot_rel (snd (slot_recv s)) (tl q)"
  proof (cases q)
    case Nil
    then show ?thesis using empty assms by (simp add: slot_recv_def)
  next
    case (Cons m q')
    have "window ((ring s)[a mod 256 := None]) (Suc a) ((queue_cells a q)(a := None))"
      using Cons a(3) by (intro window_shift window_write [OF a(4)]) (auto simp: queue_cells_def)
    then have "window ((ring s)[a mod 256 := None]) (Suc a) (queue_cells (Suc a) q')"
      by (rule window_cong) (auto simp: queue_cells_def Cons nth_Cons')
    then show ?thesis using Cons empty a
      by (auto simp: slot_recv_def slot_rel_def ring_index_of_nat intro!: exI [of _ "Suc a"])
  qed
qed

interpretation slotq: simulation slot_step queue_step slot_rel "\<lambda>_ _. True"
proof
  fix s :: "'m BroadcastSlot" and q :: "'m list" and op
  assume "slot_rel s q"
  then show "\<exists>s'. slot_step s op = Some (fst (queue_step q op), s') \<and> slot_rel s' (snd (queue_step q op))"
    using slot_publish_rel [of s q] slot_recv_rel [of s q]
    by (cases op) (auto simp: Let_def split_beta split: list.splits)
qed

text \<open>Any sequence of \<open>publish\<close> and \<open>recv\<close> calls on a fresh slot answers as a first-in first-out queue of
at most 256 messages: a message is refused, as lagged by 0, exactly when 256 are queued, and every other message is
received once and in order, also after the 64-bit counters have wrapped.\<close>

theorem slot_refines_queue:
  "\<exists>s. run_c slot_step (slot_new conn) ops = Some (fst (run_a queue_step [] ops), s) \<and>
       slot_rel s (snd (run_a queue_step [] ops))"
proof -
  have "ok_ops queue_step (\<lambda>_ _. True) q ops" for q by (induction ops arbitrary: q) auto
  then show ?thesis by (rule slotq.run [OF slot_rel_new])
qed

lemma slot_len_rel: "slot_rel s q \<Longrightarrow> unat (slot_len s) = length q \<and> (slot_is_empty s \<longleftrightarrow> q = [])"
proof -
  assume "slot_rel s q"
  then obtain a where "tail s = of_nat a" "head s = of_nat (a + length q)" "length q \<le> 256" by (auto simp: slot_rel_def)
  then have "unat (slot_len s) = length q" using counter_diff [of "length q" a] unfolding slot_len_def by presburger
  then show ?thesis by (simp add: slot_is_empty_def flip: unat_eq_zero)
qed

section \<open>Interleaved threads\<close>

definition thread_cells :: "'m ring_threads \<Rightarrow> nat \<Rightarrow> 'm option" where
  "thread_cells r j =
     (if j < length (published r) then
        (if j = length (received r) \<and> (\<exists>p. consumer r = CSwapped p) then None else Some (published r ! j))
      else if j = length (published r) then (case producer r of PStored m \<Rightarrow> Some m | _ \<Rightarrow> None)
      else None)"

fun producer_ok :: "'m producer \<Rightarrow> 64 word \<Rightarrow> nat \<Rightarrow> nat \<Rightarrow> bool" where
  "producer_ok PIdle hc p n = True"
| "producer_ok (PHead m h) hc p n = (h = hc)"
| "producer_ok (PTail m h t) hc p n = (h = hc \<and> (\<exists>j \<le> n. t = of_nat j \<and> p \<le> j + 256))"
| "producer_ok (PStored m) hc p n = (p < n + 256)"
| "producer_ok PWake hc p n = True"

fun consumer_ok :: "'m consumer \<Rightarrow> 64 word \<Rightarrow> 'm list \<Rightarrow> nat \<Rightarrow> bool" where
  "consumer_ok CIdle tc ps n = True"
| "consumer_ok (CTail t) tc ps n = (t = tc)"
| "consumer_ok (CHead t h) tc ps n = (t = tc \<and> (\<exists>i. n \<le> i \<and> i \<le> length ps \<and> h = of_nat i))"
| "consumer_ok (CSwapped p) tc ps n = (n < length ps \<and> p = Some (ps ! n))"

definition ring_inv :: "'m ring_threads \<Rightarrow> bool" where
  "ring_inv r \<longleftrightarrow>
     (let p = length (published r); n = length (received r)
      in head (slot r) = of_nat p \<and> tail (slot r) = of_nat n \<and> n \<le> p \<and> p \<le> n + 256 \<and>
         take n (published r) = received r \<and> nulls r = 0 \<and>
         window (ring (slot r)) n (thread_cells r) \<and>
         producer_ok (producer r) (head (slot r)) p n \<and>
         consumer_ok (consumer r) (tail (slot r)) (published r) n)"

lemma ring_inv_start: "ring_inv (threads_start conn)"
  by (simp add: ring_inv_def threads_start_def slot_new_def window_def thread_cells_def RING_SIZE_def)

lemma ring_inv_publish:
  assumes "ring_inv r"
  shows "ring_inv (publish_access r message)"
proof -
  define p n where "p = length (published r)" and "n = length (received r)"
  have inv: "head (slot r) = of_nat p" "tail (slot r) = of_nat n" "n \<le> p" "p \<le> n + 256"
    "take n (published r) = received r" "nulls r = 0" "window (ring (slot r)) n (thread_cells r)"
    "producer_ok (producer r) (head (slot r)) p n" "consumer_ok (consumer r) (tail (slot r)) (published r) n"
    using assms [unfolded ring_inv_def Let_def] unfolding p_def n_def by blast+
  show ?thesis
  proof (cases "producer r")
    case PIdle
    then have "window (ring (slot r)) n (thread_cells (publish_access r message))"
      by (intro window_cong [OF inv(7)]) (auto simp: thread_cells_def publish_access_def)
    then show ?thesis using inv PIdle by (auto simp: ring_inv_def Let_def publish_access_def simp flip: p_def n_def)
  next
    case (PHead m h)
    then have "window (ring (slot r)) n (thread_cells (publish_access r message))"
      by (intro window_cong [OF inv(7)]) (auto simp: thread_cells_def publish_access_def)
    then show ?thesis using inv PHead by (auto simp: ring_inv_def Let_def publish_access_def simp flip: p_def n_def)
  next
    case (PTail m h t)
    with inv obtain j where j: "j \<le> n" "t = of_nat j" "p \<le> j + 256" "h = of_nat p" by auto
    have "of_nat RING_SIZE \<le> h - t \<longleftrightarrow> p - j = 256"
      using ring_full [of "p - j" j] j inv(3) by simp
    show ?thesis
    proof (cases "of_nat RING_SIZE \<le> h - t")
      case True
      with PTail have "window (ring (slot r)) n (thread_cells (publish_access r message))"
        by (intro window_cong [OF inv(7)]) (auto simp: thread_cells_def publish_access_def)
      then show ?thesis using inv PTail True
        by (auto simp: ring_inv_def Let_def publish_access_def simp flip: p_def n_def)
    next
      case False
      with \<open>_ \<longleftrightarrow> p - j = 256\<close> have lt: "p < n + 256" using j by linarith
      have "window ((ring (slot r))[p mod 256 := Some m]) n ((thread_cells r)(p := Some m))"
        using window_write [OF inv(7)] inv(3) lt by simp
      then have "window ((ring (slot r))[p mod 256 := Some m]) n (thread_cells (publish_access r message))"
        using False PTail by (auto simp: thread_cells_def publish_access_def p_def elim!: window_cong)
      with False PTail inv lt j(4) show ?thesis
        by (simp add: ring_inv_def Let_def publish_access_def ring_index_of_nat flip: p_def n_def)
    qed
  next
    case (PStored m)
    have "window (ring (slot r)) n (thread_cells (publish_access r message))"
      using PStored inv(3,9) by (intro window_cong [OF inv(7)]) (auto simp: thread_cells_def publish_access_def p_def n_def nth_append)
    moreover have "consumer_ok (consumer r) (tail (slot r)) (published r @ [m]) n"
      using inv(9) by (cases "consumer r") (auto simp: nth_append)
    ultimately show ?thesis using PStored inv by (auto simp: ring_inv_def Let_def publish_access_def simp flip: p_def n_def)
  next
    case PWake
    then have "window (ring (slot r)) n (thread_cells (publish_access r message))"
      by (intro window_cong [OF inv(7)]) (auto simp: thread_cells_def publish_access_def)
    then show ?thesis using inv PWake
      by (auto simp: ring_inv_def Let_def publish_access_def slot_wake_def simp flip: p_def n_def)
  qed
qed

lemma ring_inv_recv:
  assumes "ring_inv r"
  shows "ring_inv (recv_access r)"
proof -
  define p n where "p = length (published r)" and "n = length (received r)"
  have inv: "head (slot r) = of_nat p" "tail (slot r) = of_nat n" "n \<le> p" "p \<le> n + 256"
    "take n (published r) = received r" "nulls r = 0" "window (ring (slot r)) n (thread_cells r)"
    "producer_ok (producer r) (head (slot r)) p n" "consumer_ok (consumer r) (tail (slot r)) (published r) n"
    using assms [unfolded ring_inv_def Let_def] unfolding p_def n_def by blast+
  show ?thesis
  proof (cases "consumer r")
    case CIdle
    then have "window (ring (slot r)) n (thread_cells (recv_access r))"
      by (intro window_cong [OF inv(7)]) (simp add: thread_cells_def recv_access_def)
    then show ?thesis using inv CIdle by (auto simp: ring_inv_def Let_def recv_access_def simp flip: p_def n_def)
  next
    case (CTail t)
    then have "window (ring (slot r)) n (thread_cells (recv_access r))"
      by (intro window_cong [OF inv(7)]) (simp add: thread_cells_def recv_access_def)
    then show ?thesis using inv CTail by (auto simp: ring_inv_def Let_def recv_access_def simp flip: p_def n_def)
  next
    case (CHead t h)
    with inv obtain i where i: "n \<le> i" "i \<le> p" "h = of_nat i" "t = of_nat n" by (auto simp: p_def)
    have eq: "t = h \<longleftrightarrow> i = n" using counter_eq [of "i - n" n] i inv(4) by auto
    show ?thesis
    proof (cases "t = h")
      case True
      with CHead have "window (ring (slot r)) n (thread_cells (recv_access r))"
        by (intro window_cong [OF inv(7)]) (simp add: thread_cells_def recv_access_def)
      then show ?thesis using inv CHead True
        by (auto simp: ring_inv_def Let_def recv_access_def simp flip: p_def n_def)
    next
      case False
      with eq i have lt: "n < p" by linarith
      have cell: "ring (slot r) ! (n mod 256) = Some (published r ! n)"
        using window_read [OF inv(7), of n] lt CHead by (simp add: thread_cells_def flip: p_def)
      have "window ((ring (slot r))[n mod 256 := None]) n ((thread_cells r)(n := None))"
        using window_write [OF inv(7), of n] by simp
      then have "window ((ring (slot r))[n mod 256 := None]) n (thread_cells (recv_access r))"
        using False CHead lt by (auto simp: thread_cells_def recv_access_def p_def n_def elim!: window_cong)
      with False CHead inv lt i(4) cell show ?thesis
        by (simp add: ring_inv_def Let_def recv_access_def ring_index_of_nat flip: p_def n_def)
    qed
  next
    case (CSwapped q)
    with inv have lt: "n < p" and q: "q = Some (published r ! n)" by (auto simp: p_def)
    have "thread_cells r (n + 256) = thread_cells r n"
      using CSwapped lt inv(4,8) by (auto simp: thread_cells_def n_def [symmetric] p_def [symmetric] split: producer.splits)
    from window_shift [OF inv(7) this]
    have "window (ring (slot r)) (Suc n) (thread_cells (recv_access r))"
      using CSwapped q by (auto simp: thread_cells_def recv_access_def n_def elim!: window_cong)
    moreover have "producer_ok (producer r) (head (slot r)) p (Suc n)"
      using inv(8) by (cases "producer r") (auto simp: le_Suc_eq)
    moreover have "received r @ [published r ! n] = take (Suc n) (published r)"
      using lt inv(5) by (simp add: take_Suc_conv_app_nth p_def)
    ultimately show ?thesis using CSwapped q inv lt
      by (simp add: ring_inv_def Let_def recv_access_def flip: p_def n_def)
  qed
qed

lemma ring_inv_step: "ring_step r r' \<Longrightarrow> ring_inv r \<Longrightarrow> ring_inv r'"
  by (auto elim!: ring_stepE intro: ring_inv_publish ring_inv_recv)

lemma ring_inv_reachable: "ring_step\<^sup>*\<^sup>* (threads_start conn) r \<Longrightarrow> ring_inv r"
  by (induction rule: rtranclp_induct) (auto intro: ring_inv_start ring_inv_step)

text \<open>C29. With one producer and one consumer thread, in every interleaving of the single atomic accesses of
\<open>publish\<close> and \<open>recv\<close>, the received messages are a prefix of the published ones, at most 256 are in flight, and no
\<open>recv\<close> ever finds a null pointer between distinct counters.\<close>

theorem ring_spsc_fifo:
  assumes "ring_step\<^sup>*\<^sup>* (threads_start conn) r"
  shows "\<exists>queued. published r = received r @ queued \<and> length queued \<le> 256 \<and> nulls r = 0"
proof -
  have inv: "ring_inv r" using assms by (rule ring_inv_reachable)
  then have "published r = received r @ drop (length (received r)) (published r)"
    by (metis (no_types) append_take_drop_id ring_inv_def)
  moreover have "length (drop (length (received r)) (published r)) \<le> 256" "nulls r = 0"
    using inv by (auto simp: ring_inv_def Let_def)
  ultimately show ?thesis by blast
qed

text \<open>Two publications overlapping one reception: the consumer reads the head between them.\<close>

theorem ring_spsc_fifo_witness:
  "\<exists>r :: nat ring_threads. ring_step\<^sup>*\<^sup>* (threads_start 7) r \<and> received r = [1] \<and> published r = [1, 2] \<and>
     (\<exists>queued. published r = received r @ queued \<and> length queued \<le> 256 \<and> nulls r = 0)"
proof -
  define pub rec where "pub = (\<lambda>m r. publish_access r m :: nat ring_threads)" and "rec = (recv_access :: nat ring_threads \<Rightarrow> _)"
  let ?fs = "[pub 1, pub 1, pub 1, rec, pub 1, rec, pub 1, pub 2, rec, pub 2, pub 2, rec, pub 2]"
  define r where "r = fold (\<lambda>f r. f r) ?fs (threads_start 7)"
  have steps: "ring_step\<^sup>*\<^sup>* s (fold (\<lambda>f r. f r) fs s)" if "\<forall>f \<in> set fs. \<forall>r. ring_step r (f r)" for fs s
    using that
  proof (induction fs arbitrary: s)
    case (Cons f fs)
    then show ?case by (auto intro: converse_rtranclp_into_rtranclp)
  qed simp
  have reach: "ring_step\<^sup>*\<^sup>* (threads_start 7) r"
    unfolding r_def by (rule steps) (auto simp: pub_def rec_def intro: ring_step.intros)
  have "received r = [1]" "published r = [1, 2]"
    unfolding r_def pub_def rec_def
    by (simp_all add: threads_start_def slot_new_def RING_SIZE_def slot_wake_def ring_index_mod
      publish_access_def recv_access_def word_le_nat_alt)
  with reach ring_spsc_fifo [OF reach] show ?thesis by blast
qed

end
