(* ===== verification/PubSub.thy ===== *)
theory PubSub
  imports Glob Ring Table
begin

text \<open>
  Channel and pattern subscriptions (\<open>senko-pubsub/src/registry.rs\<close>, \<open>message.rs\<close> and the index of
  \<open>pattern.rs\<close>). A slot is shared between the registry and the connection that reads it
  (\<open>Arc<BroadcastSlot>\<close>), so slots live in a store and the registry holds their addresses; an
  allocation appends to the store. Third-party code are the fields of \<open>pattern_deps\<close> (substring
  search, \<open>CompactString::from_utf8_lossy\<close>, the Aho-Corasick automaton) and the hash tables of
  \<open>table_deps\<close>. \<open>None\<close> is a panic.
\<close>

section \<open>Messages and slots\<close>

datatype MessageKind = Message | PMessage bytes | SMessage

record PubSubMessage =
  channel :: bytes
  payload :: bytes
  kind :: MessageKind

type_synonym slot_store = "PubSubMessage BroadcastSlot list"

text \<open>The slot vector of \<open>ChannelEntry\<close> and of \<open>PatternSubscription\<close>: \<open>subscribe\<close>, \<open>unsubscribe\<close> and the publishing loop.\<close>

definition slots_subscribe :: "slot_store \<Rightarrow> nat list \<Rightarrow> 64 word \<Rightarrow> nat \<times> slot_store \<times> nat list" where
  "slots_subscribe st slots conn =
     (case find (\<lambda>a. conn_id (st ! a) = conn) slots of
        Some existing \<Rightarrow> (existing, st, slots)
      | None \<Rightarrow> (length st, st @ [slot_new conn], slots @ [length st]))"

definition slots_unsubscribe :: "slot_store \<Rightarrow> nat list \<Rightarrow> 64 word \<Rightarrow> (nat \<times> nat list) option" where
  "slots_unsubscribe st slots conn =
     (case position (\<lambda>a. conn_id (st ! a) = conn) slots of
        None \<Rightarrow> None
      | Some index \<Rightarrow> Some (slots ! index, swap_remove index slots))"

fun slots_publish :: "slot_store \<Rightarrow> nat list \<Rightarrow> PubSubMessage \<Rightarrow> nat \<times> 64 word list \<times> slot_store" where
  "slots_publish st [] message = (0, [], st)"
| "slots_publish st (a # slots) message =
     (case slot_publish message (st ! a) of
        (Inr _, s) \<Rightarrow> (case slots_publish (st[a := s]) slots message of (n, lag, st') \<Rightarrow> (n + 1, lag, st'))
      | (Inl _, s) \<Rightarrow> (case slots_publish (st[a := s]) slots message of (n, lag, st') \<Rightarrow> (n, conn_id (st ! a) # lag, st')))"

section \<open>Channels\<close>

record PublishReport =
  delivered :: nat
  lagged_connections :: "64 word list"

record ChannelEntry =
  name :: bytes
  ce_slots :: "nat list"
  ce_subscriber_count :: "32 word"

definition entry_new :: "bytes \<Rightarrow> ChannelEntry" where
  "entry_new nm = \<lparr> name = nm, ce_slots = [], ce_subscriber_count = 0 \<rparr>"

definition entry_subscribe :: "slot_store \<Rightarrow> ChannelEntry \<Rightarrow> 64 word \<Rightarrow> nat \<times> slot_store \<times> ChannelEntry" where
  "entry_subscribe st e conn =
     (case slots_subscribe st (ce_slots e) conn of (a, st', slots) \<Rightarrow>
        (a, st', if slots = ce_slots e then e else e\<lparr>ce_slots := slots, ce_subscriber_count := of_nat (length slots)\<rparr>))"

definition entry_unsubscribe :: "slot_store \<Rightarrow> ChannelEntry \<Rightarrow> 64 word \<Rightarrow> nat option \<times> ChannelEntry" where
  "entry_unsubscribe st e conn =
     (case slots_unsubscribe st (ce_slots e) conn of
        None \<Rightarrow> (None, e)
      | Some (a, slots) \<Rightarrow> (Some a, e\<lparr>ce_slots := slots, ce_subscriber_count := of_nat (length slots)\<rparr>))"

definition entry_is_empty :: "ChannelEntry \<Rightarrow> bool" where
  "entry_is_empty e \<longleftrightarrow> ce_slots e = []"

definition entry_publish :: "slot_store \<Rightarrow> ChannelEntry \<Rightarrow> PubSubMessage \<Rightarrow> PublishReport \<times> slot_store" where
  "entry_publish st e message =
     (case slots_publish st (ce_slots e) message of (n, lag, st') \<Rightarrow> (\<lparr> delivered = n, lagged_connections = lag \<rparr>, st'))"

section \<open>The pattern index\<close>

record 'a pattern_deps =
  pd_memmem :: memmem
  pd_lossy :: "bytes \<Rightarrow> bytes"
  pd_build :: "bytes list \<Rightarrow> 'a option"
  pd_find_overlapping :: "'a \<Rightarrow> bytes \<Rightarrow> nat list"

definition AHO_THRESHOLD :: nat where "AHO_THRESHOLD = 32"

record PatternSubscription =
  pattern :: bytes
  ps_slots :: "nat list"
  ps_subscriber_count :: "32 word"

definition subscription_new :: "bytes \<Rightarrow> PatternSubscription" where
  "subscription_new p = \<lparr> pattern = p, ps_slots = [], ps_subscriber_count = 0 \<rparr>"

definition subscription_subscribe ::
    "slot_store \<Rightarrow> PatternSubscription \<Rightarrow> 64 word \<Rightarrow> nat \<times> slot_store \<times> PatternSubscription" where
  "subscription_subscribe st s conn =
     (case slots_subscribe st (ps_slots s) conn of (a, st', slots) \<Rightarrow>
        (a, st', if slots = ps_slots s then s else s\<lparr>ps_slots := slots, ps_subscriber_count := of_nat (length slots)\<rparr>))"

definition subscription_unsubscribe ::
    "slot_store \<Rightarrow> PatternSubscription \<Rightarrow> 64 word \<Rightarrow> (nat \<times> PatternSubscription) option" where
  "subscription_unsubscribe st s conn =
     (case slots_unsubscribe st (ps_slots s) conn of
        None \<Rightarrow> None
      | Some (a, slots) \<Rightarrow> Some (a, s\<lparr>ps_slots := slots, ps_subscriber_count := of_nat (length slots)\<rparr>))"

definition subscription_is_empty :: "PatternSubscription \<Rightarrow> bool" where
  "subscription_is_empty s \<longleftrightarrow> ps_slots s = []"

record 'a PatternIndex =
  subscriptions :: "PatternSubscription list"
  matcher :: "'a option"
  literal_prefixes :: "(bytes \<times> nat) list"
  literal_to_pattern :: "nat list"
  literalless_patterns :: "nat list"
  total_subscriber_count :: "32 word"

definition index_default :: "'a PatternIndex" where
  "index_default = \<lparr> subscriptions = [], matcher = None, literal_prefixes = [], literal_to_pattern = [],
     literalless_patterns = [], total_subscriber_count = 0 \<rparr>"

function literal_prefix_loop :: "bytes \<Rightarrow> nat \<Rightarrow> bytes \<Rightarrow> bytes" where
  "literal_prefix_loop pat index out =
     (if index < length pat then
        if pat ! index = STAR \<or> pat ! index = QUESTION \<or> pat ! index = LBRACKET then out
        else if pat ! index = BACKSLASH \<and> index + 1 < length pat
          then literal_prefix_loop pat (index + 2) (out @ [pat ! (index + 1)])
        else literal_prefix_loop pat (index + 1) (out @ [pat ! index])
      else out)"
  by pat_completeness auto
termination by (relation "measure (\<lambda>(pat, index, _). length pat - index)") auto

declare literal_prefix_loop.simps [simp del]

definition literal_prefix :: "'a pattern_deps \<Rightarrow> bytes \<Rightarrow> bytes" where
  "literal_prefix D pat = pd_lossy D (literal_prefix_loop pat 0 [])"

text \<open>The loop of \<open>literal_segments\<close>; every finished segment goes through \<open>String::from_utf8_lossy\<close>.\<close>

function literal_segments_loop :: "bytes \<Rightarrow> bytes list \<Rightarrow> bytes \<Rightarrow> nat \<Rightarrow> bytes list" where
  "literal_segments_loop pat segments current index =
     (if index < length pat then
        if pat ! index = STAR \<or> pat ! index = QUESTION \<or> pat ! index = LBRACKET then
          literal_segments_loop pat (if current \<noteq> [] then segments @ [utf8_lossy current] else segments) []
            (index + (if pat ! index = LBRACKET then char_class_token_len pat index else 1))
        else if pat ! index = BACKSLASH \<and> index + 1 < length pat then
          literal_segments_loop pat segments (current @ [pat ! (index + 1)]) (index + 2)
        else literal_segments_loop pat segments (current @ [pat ! index]) (index + 1)
      else if current \<noteq> [] then segments @ [utf8_lossy current] else segments)"
  by pat_completeness auto
termination
  by (relation "measure (\<lambda>(pat, _, _, index). length pat - index)") (auto intro: diff_less_mono2)

declare literal_segments_loop.simps [simp del]

definition literal_segments :: "bytes \<Rightarrow> bytes list" where
  "literal_segments pat = literal_segments_loop pat [] [] 0"

definition pattern_name :: "'a pattern_deps \<Rightarrow> bytes \<Rightarrow> bytes" where
  "pattern_name D pat = (if utf8_valid pat then pat else pd_lossy D pat)"

text \<open>The loop of \<open>rebuild\<close>, from pattern index \<open>i\<close>; \<open>literals\<close> is its local vector.\<close>

fun rebuild_loop ::
    "'a pattern_deps \<Rightarrow> nat \<Rightarrow> PatternSubscription list \<Rightarrow> 'a PatternIndex \<Rightarrow> bytes list \<Rightarrow> 'a PatternIndex \<times> bytes list" where
  "rebuild_loop D i [] x literals = (x, literals)"
| "rebuild_loop D i (s # rest) x literals =
     (let prefix = literal_prefix D (pattern s);
          x = (if prefix \<noteq> [] then x\<lparr>literal_prefixes := literal_prefixes x @ [(prefix, i)]\<rparr> else x);
          segments = literal_segments (pattern s)
      in if segments = [] then rebuild_loop D (Suc i) rest (x\<lparr>literalless_patterns := literalless_patterns x @ [i]\<rparr>) literals
         else rebuild_loop D (Suc i) rest
           (x\<lparr>literal_to_pattern := literal_to_pattern x @ replicate (length segments) i\<rparr>) (literals @ segments))"

definition rebuild :: "'a pattern_deps \<Rightarrow> 'a PatternIndex \<Rightarrow> 'a PatternIndex option" where
  "rebuild D x =
     (let x = x\<lparr>matcher := None, literal_prefixes := [], literal_to_pattern := [], literalless_patterns := []\<rparr>
      in if length (subscriptions x) \<le> AHO_THRESHOLD then Some x
         else case rebuild_loop D 0 (subscriptions x) x [] of (x, literals) \<Rightarrow>
           if literals = [] then Some x
           else case pd_build D literals of None \<Rightarrow> None | Some automaton \<Rightarrow> Some (x\<lparr>matcher := Some automaton\<rparr>))"

definition recount :: "'a PatternIndex \<Rightarrow> 'a PatternIndex" where
  "recount x = x\<lparr>total_subscriber_count := sum_list (map ps_subscriber_count (subscriptions x))\<rparr>"

definition index_subscribe ::
    "'a pattern_deps \<Rightarrow> slot_store \<Rightarrow> 'a PatternIndex \<Rightarrow> bytes \<Rightarrow> 64 word \<Rightarrow> (nat \<times> slot_store \<times> 'a PatternIndex) option" where
  "index_subscribe D st x pat conn =
     (let pat = pattern_name D pat;
          (a, st', x') =
            (case position (\<lambda>s. pattern s = pat) (subscriptions x) of
               Some i \<Rightarrow>
                 (case subscription_subscribe st (subscriptions x ! i) conn of (a, st', s) \<Rightarrow>
                    (a, st', x\<lparr>subscriptions := (subscriptions x)[i := s]\<rparr>))
             | None \<Rightarrow>
                 (case subscription_subscribe st (subscription_new pat) conn of (a, st', s) \<Rightarrow>
                    (a, st', x\<lparr>subscriptions := subscriptions x @ [s]\<rparr>)))
      in do { x' \<leftarrow> rebuild D (recount x'); Some (a, st', x') })"

text \<open>The inner option is the result of the call; without one the index is unchanged.\<close>

definition index_unsubscribe ::
    "'a pattern_deps \<Rightarrow> slot_store \<Rightarrow> 'a PatternIndex \<Rightarrow> bytes \<Rightarrow> 64 word \<Rightarrow> (nat option \<times> 'a PatternIndex) option" where
  "index_unsubscribe D st x pat conn =
     (case position (\<lambda>s. pattern s = pattern_name D pat) (subscriptions x) of
        None \<Rightarrow> Some (None, x)
      | Some i \<Rightarrow>
          (case subscription_unsubscribe st (subscriptions x ! i) conn of
             None \<Rightarrow> Some (None, x)
           | Some (a, s) \<Rightarrow>
               (let subs = (subscriptions x)[i := s];
                    subs = (if subscription_is_empty s then swap_remove i subs else subs)
                in do { x' \<leftarrow> rebuild D (recount (x\<lparr>subscriptions := subs\<rparr>)); Some (Some a, x') })))"

definition candidate_pattern_indexes :: "'a pattern_deps \<Rightarrow> 'a PatternIndex \<Rightarrow> bytes \<Rightarrow> nat list option" where
  "candidate_pattern_indexes D x ch =
     (if subscriptions x = [] then Some []
      else if length (subscriptions x) \<le> AHO_THRESHOLD then Some [0..<length (subscriptions x)]
      else
        (let by_prefix = map snd (filter (\<lambda>(prefix, _). prefix \<noteq> [] \<and> take (length prefix) ch = prefix) (literal_prefixes x));
             matches = (case matcher x of None \<Rightarrow> [] | Some m \<Rightarrow> pd_find_overlapping D m ch)
         in if list_all (\<lambda>i. i < length (literal_to_pattern x)) matches
            then Some (remdups_adj (sort (literalless_patterns x @ by_prefix @ map ((!) (literal_to_pattern x)) matches)))
            else None))"

fun any_candidate :: "'a pattern_deps \<Rightarrow> PatternSubscription list \<Rightarrow> bytes \<Rightarrow> nat list \<Rightarrow> bool option" where
  "any_candidate D subs ch [] = Some False"
| "any_candidate D subs ch (i # is) =
     do { s \<leftarrow> get_at subs i;
          matched \<leftarrow> glob_match_simd (pd_memmem D) (pattern s) ch;
          if matched then Some True else any_candidate D subs ch is }"

definition has_matching_pattern :: "'a pattern_deps \<Rightarrow> 'a PatternIndex \<Rightarrow> bytes \<Rightarrow> bool option" where
  "has_matching_pattern D x ch =
     do { candidates \<leftarrow> candidate_pattern_indexes D x ch; any_candidate D (subscriptions x) ch candidates }"

fun publish_candidates ::
    "'a pattern_deps \<Rightarrow> PatternSubscription list \<Rightarrow> bytes \<Rightarrow> PubSubMessage \<Rightarrow> nat list \<Rightarrow> slot_store
      \<Rightarrow> (nat \<times> (bytes \<times> 64 word) list \<times> slot_store) option" where
  "publish_candidates D subs ch msg [] st = Some (0, [], st)"
| "publish_candidates D subs ch msg (i # is) st =
     do { s \<leftarrow> get_at subs i;
          matched \<leftarrow> glob_match_simd (pd_memmem D) (pattern s) ch;
          if \<not> matched then publish_candidates D subs ch msg is st
          else do {
            let (n, lag, st) = slots_publish st (ps_slots s)
                  \<lparr> channel = channel msg, payload = payload msg, kind = PMessage (pattern s) \<rparr>;
            (m, lag', st) \<leftarrow> publish_candidates D subs ch msg is st;
            Some (n + m, map (\<lambda>c. (pattern s, c)) lag @ lag', st) } }"

fun unsubscribe_lagged ::
    "'a pattern_deps \<Rightarrow> slot_store \<Rightarrow> 'a PatternIndex \<Rightarrow> (bytes \<times> 64 word) list \<Rightarrow> 'a PatternIndex option" where
  "unsubscribe_lagged D st x [] = Some x"
| "unsubscribe_lagged D st x ((pat, conn) # rest) =
     do { (_, x) \<leftarrow> index_unsubscribe D st x pat conn; unsubscribe_lagged D st x rest }"

definition publish_to_patterns ::
    "'a pattern_deps \<Rightarrow> slot_store \<Rightarrow> 'a PatternIndex \<Rightarrow> bytes \<Rightarrow> PubSubMessage \<Rightarrow> (nat \<times> slot_store \<times> 'a PatternIndex) option" where
  "publish_to_patterns D st x ch msg =
     (if subscriptions x = [] then Some (0, st, x)
      else do {
        candidates \<leftarrow> candidate_pattern_indexes D x ch;
        if candidates = [] then Some (0, st, x)
        else do {
          (n, lag, st) \<leftarrow> publish_candidates D (subscriptions x) ch msg candidates st;
          x \<leftarrow> unsubscribe_lagged D st x lag;
          Some (n, st, x) } })"

section \<open>The registry\<close>

record ('t, 'a) registry_deps =
  rd_channels :: "('t, ChannelEntry) table_deps"
  rd_patterns :: "'a pattern_deps"

record ('t, 'a) ChannelRegistry =
  channels :: 't
  patterns :: "'a PatternIndex"
  shard_channels :: 't
  total_pattern_subscriptions :: "32 word"
  total_messages_published :: "64 word"

definition registry_default :: "('t, 'a) registry_deps \<Rightarrow> ('t, 'a) ChannelRegistry" where
  "registry_default D = \<lparr> channels = ht_new (rd_channels D), patterns = index_default, shard_channels = ht_new (rd_channels D),
     total_pattern_subscriptions = 0, total_messages_published = 0 \<rparr>"

definition channel_name :: "'a pattern_deps \<Rightarrow> bytes \<Rightarrow> bytes" where
  "channel_name D ch = (if utf8_valid ch then ch else pd_lossy D ch)"

text \<open>\<open>entry(name).or_insert_with(\<dots>).subscribe(conn)\<close> on one of the two channel tables.\<close>

definition table_subscribe ::
    "('t, ChannelEntry) table_deps \<Rightarrow> slot_store \<Rightarrow> 't \<Rightarrow> bytes \<Rightarrow> 64 word \<Rightarrow> nat \<times> slot_store \<times> 't" where
  "table_subscribe H st t nm conn =
     (case ht_find H t nm of
        Some e \<Rightarrow> (case entry_subscribe st e conn of (a, st', e') \<Rightarrow> (a, st', ht_replace H t nm e'))
      | None \<Rightarrow> (case entry_subscribe st (entry_new nm) conn of (a, st', e') \<Rightarrow> (a, st', ht_insert_unique H t nm e')))"

text \<open>\<open>unsubscribe_exact\<close> and \<open>unsubscribe_shard_exact\<close> on their table.\<close>

definition table_unsubscribe ::
    "('t, ChannelEntry) table_deps \<Rightarrow> slot_store \<Rightarrow> 't \<Rightarrow> bytes \<Rightarrow> 64 word \<Rightarrow> nat option \<times> 't" where
  "table_unsubscribe H st t nm conn =
     (case ht_find H t nm of
        None \<Rightarrow> (None, t)
      | Some e \<Rightarrow>
          (case entry_unsubscribe st e conn of (a, e') \<Rightarrow>
             (let t = ht_replace H t nm e'
              in (a, if (case ht_find H t nm of Some e \<Rightarrow> entry_is_empty e | None \<Rightarrow> False) then ht_remove H t nm else t))))"

definition registry_subscribe ::
    "('t, 'a) registry_deps \<Rightarrow> slot_store \<Rightarrow> ('t, 'a) ChannelRegistry \<Rightarrow> bytes \<Rightarrow> 64 word
      \<Rightarrow> nat \<times> slot_store \<times> ('t, 'a) ChannelRegistry" where
  "registry_subscribe D st r ch conn =
     (case table_subscribe (rd_channels D) st (channels r) (channel_name (rd_patterns D) ch) conn of
        (a, st', t) \<Rightarrow> (a, st', r\<lparr>channels := t\<rparr>))"

definition registry_unsubscribe ::
    "('t, 'a) registry_deps \<Rightarrow> slot_store \<Rightarrow> ('t, 'a) ChannelRegistry \<Rightarrow> bytes \<Rightarrow> 64 word \<Rightarrow> nat option \<times> ('t, 'a) ChannelRegistry" where
  "registry_unsubscribe D st r ch conn =
     (case table_unsubscribe (rd_channels D) st (channels r) (channel_name (rd_patterns D) ch) conn of
        (a, t) \<Rightarrow> (a, r\<lparr>channels := t\<rparr>))"

definition psubscribe ::
    "('t, 'a) registry_deps \<Rightarrow> slot_store \<Rightarrow> ('t, 'a) ChannelRegistry \<Rightarrow> bytes \<Rightarrow> 64 word
      \<Rightarrow> (nat \<times> slot_store \<times> ('t, 'a) ChannelRegistry) option" where
  "psubscribe D st r pat conn =
     do { (a, st', x) \<leftarrow> index_subscribe (rd_patterns D) st (patterns r) pat conn;
          Some (a, st', r\<lparr>patterns := x, total_pattern_subscriptions := total_subscriber_count x\<rparr>) }"

definition punsubscribe ::
    "('t, 'a) registry_deps \<Rightarrow> slot_store \<Rightarrow> ('t, 'a) ChannelRegistry \<Rightarrow> bytes \<Rightarrow> 64 word
      \<Rightarrow> (nat option \<times> ('t, 'a) ChannelRegistry) option" where
  "punsubscribe D st r pat conn =
     do { (a, x) \<leftarrow> index_unsubscribe (rd_patterns D) st (patterns r) pat conn;
          Some (a, if a = None then r\<lparr>patterns := x\<rparr>
                   else r\<lparr>patterns := x, total_pattern_subscriptions := total_subscriber_count x\<rparr>) }"

definition ssubscribe ::
    "('t, 'a) registry_deps \<Rightarrow> slot_store \<Rightarrow> ('t, 'a) ChannelRegistry \<Rightarrow> bytes \<Rightarrow> 64 word
      \<Rightarrow> nat \<times> slot_store \<times> ('t, 'a) ChannelRegistry" where
  "ssubscribe D st r ch conn =
     (case table_subscribe (rd_channels D) st (shard_channels r) (channel_name (rd_patterns D) ch) conn of
        (a, st', t) \<Rightarrow> (a, st', r\<lparr>shard_channels := t\<rparr>))"

definition sunsubscribe ::
    "('t, 'a) registry_deps \<Rightarrow> slot_store \<Rightarrow> ('t, 'a) ChannelRegistry \<Rightarrow> bytes \<Rightarrow> 64 word \<Rightarrow> nat option \<times> ('t, 'a) ChannelRegistry" where
  "sunsubscribe D st r ch conn =
     (case table_unsubscribe (rd_channels D) st (shard_channels r) (channel_name (rd_patterns D) ch) conn of
        (a, t) \<Rightarrow> (a, r\<lparr>shard_channels := t\<rparr>))"

definition lookup_channel :: "('t, 'a) registry_deps \<Rightarrow> 't \<Rightarrow> bytes \<Rightarrow> ChannelEntry option" where
  "lookup_channel D t ch =
     (if utf8_valid ch then ht_find (rd_channels D) t ch
      else ht_find (rd_channels D) t (channel_name (rd_patterns D) ch))"

definition lookup_channel_name :: "('t, 'a) registry_deps \<Rightarrow> 't \<Rightarrow> bytes \<Rightarrow> bytes option" where
  "lookup_channel_name D t ch = map_option name (lookup_channel D t ch)"

fun unsubscribe_all :: "slot_store \<Rightarrow> ChannelEntry \<Rightarrow> 64 word list \<Rightarrow> ChannelEntry" where
  "unsubscribe_all st e [] = e"
| "unsubscribe_all st e (conn # conns) = unsubscribe_all st (snd (entry_unsubscribe st e conn)) conns"

definition remove_lagged_from_map ::
    "('t, ChannelEntry) table_deps \<Rightarrow> slot_store \<Rightarrow> 't \<Rightarrow> bytes \<Rightarrow> 64 word list \<Rightarrow> 't" where
  "remove_lagged_from_map H st t nm conns =
     (if conns = [] then t
      else case ht_find H t nm of
        None \<Rightarrow> t
      | Some e \<Rightarrow>
          (let e' = unsubscribe_all st e conns; t = ht_replace H t nm e'
           in if entry_is_empty e' then ht_remove H t nm else t))"

definition registry_publish ::
    "('t, 'a) registry_deps \<Rightarrow> slot_store \<Rightarrow> ('t, 'a) ChannelRegistry \<Rightarrow> bytes \<Rightarrow> bytes
      \<Rightarrow> (nat \<times> slot_store \<times> ('t, 'a) ChannelRegistry) option" where
  "registry_publish D st r ch body =
     (let r = r\<lparr>total_messages_published := total_messages_published r + 1\<rparr>;
          exact_name = lookup_channel_name D (channels r) ch
      in do {
        has_patterns \<leftarrow> has_matching_pattern (rd_patterns D) (patterns r) ch;
        if exact_name = None \<and> \<not> has_patterns then Some (0, st, r)
        else do {
          let message = \<lparr> channel = (case exact_name of Some nm \<Rightarrow> nm | None \<Rightarrow> channel_name (rd_patterns D) ch),
                payload = body, kind = Message \<rparr>;
          (n, st, r) \<leftarrow> (case exact_name of
              None \<Rightarrow> Some (0, st, r)
            | Some nm \<Rightarrow> do {
                e \<leftarrow> ht_find (rd_channels D) (channels r) nm;
                let (report, st) = entry_publish st e message;
                Some (delivered report, st,
                  r\<lparr>channels := remove_lagged_from_map (rd_channels D) st (channels r) nm (lagged_connections report)\<rparr>) });
          if has_patterns then do {
            (m, st, x) \<leftarrow> publish_to_patterns (rd_patterns D) st (patterns r) ch message;
            Some (n + m, st, r\<lparr>patterns := x, total_pattern_subscriptions := total_subscriber_count x\<rparr>) }
          else Some (n, st, r) } })"

definition publish_shard ::
    "('t, 'a) registry_deps \<Rightarrow> slot_store \<Rightarrow> ('t, 'a) ChannelRegistry \<Rightarrow> bytes \<Rightarrow> bytes
      \<Rightarrow> (nat \<times> slot_store \<times> ('t, 'a) ChannelRegistry) option" where
  "publish_shard D st r ch body =
     (let r = r\<lparr>total_messages_published := total_messages_published r + 1\<rparr>
      in case lookup_channel_name D (shard_channels r) ch of
           None \<Rightarrow> Some (0, st, r)
         | Some nm \<Rightarrow> do {
             e \<leftarrow> ht_find (rd_channels D) (shard_channels r) nm;
             let (report, st) = entry_publish st e \<lparr> channel = nm, payload = body, kind = SMessage \<rparr>;
             Some (delivered report, st,
               r\<lparr>shard_channels := remove_lagged_from_map (rd_channels D) st (shard_channels r) nm (lagged_connections report)\<rparr>) })"

definition num_subscribers :: "('t, 'a) registry_deps \<Rightarrow> ('t, 'a) ChannelRegistry \<Rightarrow> bytes \<Rightarrow> 32 word" where
  "num_subscribers D r ch = (case lookup_channel D (channels r) ch of None \<Rightarrow> 0 | Some e \<Rightarrow> ce_subscriber_count e)"

definition num_shard_subscribers :: "('t, 'a) registry_deps \<Rightarrow> ('t, 'a) ChannelRegistry \<Rightarrow> bytes \<Rightarrow> 32 word" where
  "num_shard_subscribers D r ch = (case lookup_channel D (shard_channels r) ch of None \<Rightarrow> 0 | Some e \<Rightarrow> ce_subscriber_count e)"

section \<open>Specification: mailboxes\<close>

text \<open>
  A broker is a list of mailboxes, one for every subscription ever made, each with its owner (a
  channel, a shard channel or a pattern), its connection and its queue; a subscription that ended
  is inactive.
\<close>

datatype owner = Chan bytes | Shard bytes | Pat bytes

record mailbox =
  mb_owner :: owner
  mb_conn :: "64 word"
  mb_queue :: "PubSubMessage list"
  mb_active :: bool

definition mail_of :: "owner \<Rightarrow> 64 word \<Rightarrow> mailbox \<Rightarrow> bool" where
  "mail_of ow c m \<longleftrightarrow> mb_active m \<and> mb_owner m = ow \<and> mb_conn m = c"

definition broker_subscribe :: "mailbox list \<Rightarrow> owner \<Rightarrow> 64 word \<Rightarrow> nat \<times> mailbox list" where
  "broker_subscribe mbs ow c =
     (case position (mail_of ow c) mbs of
        Some a \<Rightarrow> (a, mbs)
      | None \<Rightarrow> (length mbs, mbs @ [\<lparr> mb_owner = ow, mb_conn = c, mb_queue = [], mb_active = True \<rparr>]))"

definition broker_unsubscribe :: "mailbox list \<Rightarrow> owner \<Rightarrow> 64 word \<Rightarrow> nat option \<times> mailbox list" where
  "broker_unsubscribe mbs ow c =
     (case position (mail_of ow c) mbs of
        None \<Rightarrow> (None, mbs)
      | Some a \<Rightarrow> (Some a, mbs[a := (mbs ! a)\<lparr>mb_active := False\<rparr>]))"

text \<open>
  Publishing: every active mailbox whose owner gets a message takes it at the end of its queue, or
  ends its subscription if 256 messages wait already.
\<close>

definition takes :: "(owner \<Rightarrow> PubSubMessage option) \<Rightarrow> mailbox \<Rightarrow> bool" where
  "takes msg m \<longleftrightarrow> mb_active m \<and> msg (mb_owner m) \<noteq> None \<and> length (mb_queue m) \<noteq> 256"

definition overflows :: "(owner \<Rightarrow> PubSubMessage option) \<Rightarrow> mailbox \<Rightarrow> bool" where
  "overflows msg m \<longleftrightarrow> mb_active m \<and> msg (mb_owner m) \<noteq> None \<and> length (mb_queue m) = 256"

definition post :: "(owner \<Rightarrow> PubSubMessage option) \<Rightarrow> mailbox \<Rightarrow> mailbox" where
  "post msg m =
     (if takes msg m then m\<lparr>mb_queue := mb_queue m @ [the (msg (mb_owner m))]\<rparr>
      else if overflows msg m then m\<lparr>mb_active := False\<rparr> else m)"

definition broker_publish :: "mailbox list \<Rightarrow> (owner \<Rightarrow> PubSubMessage option) \<Rightarrow> nat \<times> mailbox list" where
  "broker_publish mbs msg = (length (filter (takes msg) mbs), map (post msg) mbs)"

definition broker_recv :: "mailbox list \<Rightarrow> nat \<Rightarrow> PubSubMessage option \<times> mailbox list" where
  "broker_recv mbs a =
     (if a < length mbs then
        (case mb_queue (mbs ! a) of
           [] \<Rightarrow> (None, mbs)
         | x # q \<Rightarrow> (Some x, mbs[a := (mbs ! a)\<lparr>mb_queue := q\<rparr>]))
      else (None, mbs))"

section \<open>Slot vectors and mailboxes\<close>

definition unique_mail :: "mailbox list \<Rightarrow> bool" where
  "unique_mail mbs \<longleftrightarrow> (\<forall>a < length mbs. \<forall>b < length mbs. mb_active (mbs ! a) \<longrightarrow> mb_active (mbs ! b) \<longrightarrow>
     mb_owner (mbs ! a) = mb_owner (mbs ! b) \<longrightarrow> mb_conn (mbs ! a) = mb_conn (mbs ! b) \<longrightarrow> a = b)"

definition mail_ok :: "slot_store \<Rightarrow> mailbox list \<Rightarrow> bool" where
  "mail_ok st mbs \<longleftrightarrow> list_all2 (\<lambda>s m. slot_rel s (mb_queue m) \<and> conn_id s = mb_conn m) st mbs \<and> unique_mail mbs"

definition actives :: "mailbox list \<Rightarrow> owner \<Rightarrow> nat set" where
  "actives mbs ow = {a. a < length mbs \<and> mb_active (mbs ! a) \<and> mb_owner (mbs ! a) = ow}"

definition holds :: "'a list \<Rightarrow> 'a set \<Rightarrow> bool" where
  "holds slots act \<longleftrightarrow> distinct slots \<and> set slots = act"

lemma mail_okD:
  assumes "mail_ok st mbs"
  shows "length st = length mbs" "unique_mail mbs"
    and "a < length mbs \<Longrightarrow> slot_rel (st ! a) (mb_queue (mbs ! a))"
    and "a < length mbs \<Longrightarrow> conn_id (st ! a) = mb_conn (mbs ! a)"
  using assms by (auto simp: mail_ok_def list_all2_conv_all_nth)

lemma position_Some:
  "position p xs = Some i \<longleftrightarrow> i < length xs \<and> p (xs ! i) \<and> (\<forall>j < i. \<not> p (xs ! j))"
proof (induction xs arbitrary: i)
  case (Cons x xs)
  show ?case
  proof (cases i)
    case 0
    then show ?thesis by auto
  next
    case (Suc k)
    then show ?thesis using Cons.IH [of k] by (auto simp: All_less_Suc2)
  qed
qed simp

lemma position_None: "position p xs = None \<longleftrightarrow> (\<forall>x \<in> set xs. \<not> p x)"
  by (induction xs) auto

lemma position_unique:
  assumes "i < length xs" "p (xs ! i)" "\<And>j. j < length xs \<Longrightarrow> p (xs ! j) \<Longrightarrow> j = i"
  shows "position p xs = Some i"
proof (cases "position p xs")
  case None
  then show ?thesis using assms(1,2) by (auto simp: position_None)
next
  case (Some j)
  then have "j = i" using assms(3) [of j] by (simp add: position_Some)
  with Some show ?thesis by simp
qed

lemma broker_position:
  assumes "unique_mail mbs"
  shows "position (mail_of ow c) mbs = Some a \<longleftrightarrow> a \<in> actives mbs ow \<and> mb_conn (mbs ! a) = c"
    and "position (mail_of ow c) mbs = None \<longleftrightarrow> (\<forall>a \<in> actives mbs ow. mb_conn (mbs ! a) \<noteq> c)"
proof -
  show "position (mail_of ow c) mbs = Some a \<longleftrightarrow> a \<in> actives mbs ow \<and> mb_conn (mbs ! a) = c"
  proof
    assume "a \<in> actives mbs ow \<and> mb_conn (mbs ! a) = c"
    then show "position (mail_of ow c) mbs = Some a"
      using assms by (intro position_unique) (auto simp: actives_def mail_of_def unique_mail_def)
  qed (auto simp: position_Some actives_def mail_of_def)
  show "position (mail_of ow c) mbs = None \<longleftrightarrow> (\<forall>a \<in> actives mbs ow. mb_conn (mbs ! a) \<noteq> c)"
    by (auto simp: position_None actives_def mail_of_def set_conv_nth)
qed

lemma find_slot:
  assumes "mail_ok st mbs" "holds slots (actives mbs ow)"
  shows "find (\<lambda>a. conn_id (st ! a) = c) slots = position (mail_of ow c) mbs"
proof -
  have conn: "a \<in> set slots \<Longrightarrow> conn_id (st ! a) = mb_conn (mbs ! a)" for a
    using assms mail_okD(4) [OF assms(1), of a] by (auto simp: holds_def actives_def)
  note pos = broker_position [OF mail_okD(2) [OF assms(1)], of ow c]
  show ?thesis
  proof (cases "find (\<lambda>a. conn_id (st ! a) = c) slots")
    case None
    then have "position (mail_of ow c) mbs = None"
      using pos(2) assms(2) conn by (auto simp: find_None_iff holds_def)
    with None show ?thesis by simp
  next
    case (Some a)
    then have "a \<in> set slots" "conn_id (st ! a) = c" by (auto simp: find_Some_iff)
    then show ?thesis using pos(1) [of a] assms(2) conn Some by (auto simp: holds_def)
  qed
qed

lemma swap_remove_holds:
  assumes "holds slots act" "i < length slots"
  shows "holds (swap_remove i slots) (act - {slots ! i})"
proof (cases "i = length slots - 1")
  case True
  have ne: "slots \<noteq> []" using assms(2) by auto
  have "last slots = slots ! i" using ne True by (simp add: last_conv_nth)
  then have "swap_remove i slots = butlast slots" by (simp add: swap_remove_def list_update_id)
  moreover have "distinct (butlast slots @ [last slots])" "set (butlast slots @ [last slots]) = act"
    using assms(1) ne by (simp_all add: holds_def)
  ultimately show ?thesis using \<open>last slots = slots ! i\<close> by (auto simp: holds_def)
next
  case False
  from assms(2) obtain b l where s: "slots = b @ [l]" by (cases slots rule: rev_cases) auto
  with False assms(2) have i: "i < length b" by simp
  then have "swap_remove i slots = b[i := l]" "slots ! i = b ! i"
    by (simp_all add: swap_remove_def s list_update_append butlast_append nth_append)
  moreover have "distinct b" "l \<notin> set b" "insert l (set b) = act" using assms(1) s by (auto simp: holds_def)
  moreover have "set (b[i := l]) = insert l (set b - {b ! i})"
    using i \<open>distinct b\<close> by (rule set_update_distinct [rotated])
  moreover have "b ! i \<noteq> l" using i \<open>l \<notin> set b\<close> by (metis nth_mem)
  ultimately show ?thesis by (auto simp: holds_def distinct_list_update)
qed

lemma actives_append:
  "actives (mbs @ [m]) = (if mb_active m then (actives mbs)(mb_owner m := insert (length mbs) (actives mbs (mb_owner m)))
     else actives mbs)"
  by (auto simp: actives_def fun_eq_iff nth_append less_Suc_eq)

lemma slots_subscribe_ok:
  assumes ok: "mail_ok st mbs" and h: "holds slots (actives mbs ow)"
    and sub: "slots_subscribe st slots c = (a, st', slots')"
  defines "mbs' \<equiv> snd (broker_subscribe mbs ow c)"
  shows "mail_ok st' mbs'" "a = fst (broker_subscribe mbs ow c)" "holds slots' (actives mbs' ow)"
    "actives mbs' = (actives mbs)(ow := set slots')" "slots' \<noteq> []"
proof -
  have find: "find (\<lambda>a. conn_id (st ! a) = c) slots = position (mail_of ow c) mbs" by (rule find_slot [OF ok h])
  note pos = broker_position [OF mail_okD(2) [OF ok], of ow c]
  have len: "length st = length mbs" by (rule mail_okD(1) [OF ok])
  have "mail_ok st' mbs' \<and> a = fst (broker_subscribe mbs ow c) \<and> holds slots' (actives mbs' ow) \<and>
    actives mbs' = (actives mbs)(ow := set slots') \<and> slots' \<noteq> []"
  proof (cases "position (mail_of ow c) mbs")
    case None
    have eqs: "a = length mbs" "st' = st @ [slot_new c]" "slots' = slots @ [length mbs]"
      "mbs' = mbs @ [\<lparr> mb_owner = ow, mb_conn = c, mb_queue = [], mb_active = True \<rparr>]"
      using sub None find len by (auto simp: slots_subscribe_def broker_subscribe_def mbs'_def)
    have fresh: "length mbs \<notin> actives mbs ow" by (simp add: actives_def)
    have "unique_mail mbs'"
      using mail_okD(2) [OF ok] None pos(2)
      by (auto simp: eqs unique_mail_def nth_append less_Suc_eq actives_def)
    moreover have "conn_id (slot_new c) = c" by (simp add: slot_new_def)
    ultimately have "mail_ok st' mbs'" using ok
      by (auto simp: mail_ok_def eqs intro!: list_all2_appendI slot_rel_new)
    then show ?thesis using None h fresh by (auto simp: eqs broker_subscribe_def actives_append holds_def)
  next
    case (Some b)
    then have eqs: "a = b" "st' = st" "slots' = slots" "mbs' = mbs"
      using sub find by (auto simp: slots_subscribe_def broker_subscribe_def mbs'_def)
    have "b \<in> set slots" using Some pos(1) [of b] h by (simp add: holds_def)
    then show ?thesis using Some ok h by (auto simp: eqs broker_subscribe_def holds_def)
  qed
  then show "mail_ok st' mbs'" "a = fst (broker_subscribe mbs ow c)" "holds slots' (actives mbs' ow)"
    "actives mbs' = (actives mbs)(ow := set slots')" "slots' \<noteq> []" by blast+
qed

text \<open>Ending the subscriptions in a set of (owner, connection) pairs.\<close>

definition deactivate :: "(owner \<times> 64 word) set \<Rightarrow> mailbox \<Rightarrow> mailbox" where
  "deactivate ks m = (if mb_active m \<and> (mb_owner m, mb_conn m) \<in> ks then m\<lparr>mb_active := False\<rparr> else m)"

lemma deactivate_simps [simp]:
  "mb_owner (deactivate ks m) = mb_owner m" "mb_conn (deactivate ks m) = mb_conn m" "mb_queue (deactivate ks m) = mb_queue m"
  "mb_active (deactivate ks m) \<longleftrightarrow> mb_active m \<and> (mb_owner m, mb_conn m) \<notin> ks"
  by (auto simp: deactivate_def)

lemma deactivate_compose: "deactivate ks (deactivate ls m) = deactivate (ks \<union> ls) m"
  by (simp add: deactivate_def)

lemma deactivate_ok: "mail_ok st mbs \<Longrightarrow> mail_ok st (map (deactivate ks) mbs)"
  by (auto simp: mail_ok_def list_all2_conv_all_nth unique_mail_def)

lemma actives_deactivate: "actives (map (deactivate ks) mbs) ow = {a \<in> actives mbs ow. (ow, mb_conn (mbs ! a)) \<notin> ks}"
  by (auto simp: actives_def)

lemma broker_unsubscribe_deactivate:
  assumes "unique_mail mbs"
  shows "snd (broker_unsubscribe mbs ow c) = map (deactivate {(ow, c)}) mbs"
proof (cases "position (mail_of ow c) mbs")
  case None
  then have "map (deactivate {(ow, c)}) mbs = mbs"
    by (auto simp: position_None mail_of_def deactivate_def intro!: map_idI)
  with None show ?thesis by (simp add: broker_unsubscribe_def)
next
  case (Some a)
  have "mbs[a := (mbs ! a)\<lparr>mb_active := False\<rparr>] = map (deactivate {(ow, c)}) mbs"
  proof (rule nth_equalityI)
    fix b assume "b < length (mbs[a := (mbs ! a)\<lparr>mb_active := False\<rparr>])"
    then have b: "b < length mbs" by simp
    have "b = a \<longleftrightarrow> mb_active (mbs ! b) \<and> mb_owner (mbs ! b) = ow \<and> mb_conn (mbs ! b) = c"
      using Some broker_position(1) [OF assms, of ow c b] b by (auto simp: actives_def)
    then show "mbs[a := (mbs ! a)\<lparr>mb_active := False\<rparr>] ! b = map (deactivate {(ow, c)}) mbs ! b"
      using b by (cases "b = a") (simp_all add: deactivate_def)
  qed simp
  with Some show ?thesis by (simp add: broker_unsubscribe_def)
qed

lemma slots_unsubscribe_ok:
  assumes ok: "mail_ok st mbs" and h: "holds slots (actives mbs ow)"
  shows "slots_unsubscribe st slots c = None \<Longrightarrow> position (mail_of ow c) mbs = None"
    and "slots_unsubscribe st slots c = Some (a, slots') \<Longrightarrow> position (mail_of ow c) mbs = Some a"
    and "slots_unsubscribe st slots c = Some (a, slots') \<Longrightarrow> holds slots' (actives (snd (broker_unsubscribe mbs ow c)) ow)"
proof -
  note pos = broker_position [OF mail_okD(2) [OF ok], of ow c]
  have conn: "a \<in> set slots \<Longrightarrow> conn_id (st ! a) = mb_conn (mbs ! a)" for a
    using h mail_okD(4) [OF ok, of a] by (auto simp: holds_def actives_def)
  show "position (mail_of ow c) mbs = None" if "slots_unsubscribe st slots c = None"
    using that pos(2) h conn by (auto simp: slots_unsubscribe_def position_None holds_def split: option.splits)
  assume "slots_unsubscribe st slots c = Some (a, slots')"
  then obtain i where i: "position (\<lambda>a. conn_id (st ! a) = c) slots = Some i" "a = slots ! i" "slots' = swap_remove i slots"
    by (auto simp: slots_unsubscribe_def split: option.splits)
  then have a: "i < length slots" "a \<in> set slots" "mb_conn (mbs ! a) = c" using conn by (auto simp: position_Some)
  then show p: "position (mail_of ow c) mbs = Some a" using pos(1) [of a] h by (simp add: holds_def)
  have "actives (snd (broker_unsubscribe mbs ow c)) ow = actives mbs ow - {a}"
    using p pos(1) unfolding broker_unsubscribe_deactivate [OF mail_okD(2) [OF ok]] actives_deactivate by fastforce
  then show "holds slots' (actives (snd (broker_unsubscribe mbs ow c)) ow)"
    using swap_remove_holds [OF h a(1)] i by simp
qed

lemma slots_publish_pointwise:
  assumes "distinct slots" "\<forall>a \<in> set slots. a < length st" "slots_publish st slots x = (n, lag, st')"
  shows "length st' = length st \<and> (\<forall>a < length st. st' ! a = (if a \<in> set slots then snd (slot_publish x (st ! a)) else st ! a)) \<and>
    n = length (filter (\<lambda>a. \<not> isl (fst (slot_publish x (st ! a)))) slots) \<and>
    lag = map (\<lambda>a. conn_id (st ! a)) (filter (\<lambda>a. isl (fst (slot_publish x (st ! a)))) slots)"
  using assms
proof (induction slots arbitrary: st n lag st')
  case (Cons a slots)
  obtain res s where s: "slot_publish x (st ! a) = (res, s)" by (cases "slot_publish x (st ! a)")
  obtain n' lag' st2 where r: "slots_publish (st[a := s]) slots x = (n', lag', st2)" by (cases "slots_publish (st[a := s]) slots x")
  have same: "b \<in> set slots \<Longrightarrow> st[a := s] ! b = st ! b" for b using Cons.prems(1) by (cases "b = a") auto
  have IH: "length st2 = length st" "\<forall>b < length st. st2 ! b = (if b \<in> set slots then snd (slot_publish x (st[a := s] ! b)) else st[a := s] ! b)"
    "n' = length (filter (\<lambda>b. \<not> isl (fst (slot_publish x (st[a := s] ! b)))) slots)"
    "lag' = map (\<lambda>b. conn_id (st[a := s] ! b)) (filter (\<lambda>b. isl (fst (slot_publish x (st[a := s] ! b)))) slots)"
    using Cons.IH [OF _ _ r] Cons.prems(1,2) by simp_all
  have n: "n' = length (filter (\<lambda>b. \<not> isl (fst (slot_publish x (st ! b)))) slots)"
    unfolding IH(3) by (intro arg_cong [where f = length] filter_cong) (simp_all add: same)
  have l: "lag' = map (\<lambda>b. conn_id (st ! b)) (filter (\<lambda>b. isl (fst (slot_publish x (st ! b)))) slots)"
    unfolding IH(4) by (intro map_cong filter_cong) (auto simp: same)
  have "st2 ! b = (if b \<in> set (a # slots) then snd (slot_publish x (st ! b)) else st ! b)" if "b < length st" for b
    using IH(2) that s Cons.prems(1,2) same [of b] by auto
  then show ?case using Cons.prems(3) s r n l IH(1) by (cases res) auto
qed auto

definition enqueue :: "(owner \<Rightarrow> PubSubMessage option) \<Rightarrow> mailbox \<Rightarrow> mailbox" where
  "enqueue msg m = (if takes msg m then m\<lparr>mb_queue := mb_queue m @ [the (msg (mb_owner m))]\<rparr> else m)"

lemma enqueue_simps [simp]:
  "mb_owner (enqueue msg m) = mb_owner m" "mb_conn (enqueue msg m) = mb_conn m" "mb_active (enqueue msg m) = mb_active m"
  by (simp_all add: enqueue_def)

lemma actives_enqueue [simp]: "actives (map (enqueue msg) mbs) = actives mbs"
  by (auto simp: actives_def fun_eq_iff)

lemma unique_mail_enqueue [simp]: "unique_mail (map (enqueue msg) mbs) = unique_mail mbs"
  by (simp add: unique_mail_def)

lemma card_takes:
  "length (filter (takes msg) mbs) = card {a. a < length mbs \<and> takes msg (mbs ! a)}"
  by (simp add: length_filter_conv_card)

lemma slots_publish_ok:
  assumes ok: "mail_ok st mbs" and h: "holds slots (actives mbs ow)" and pub: "slots_publish st slots x = (n, lag, st')"
  shows "mail_ok st' (map (enqueue [ow \<mapsto> x]) mbs)" "n = length (filter (takes [ow \<mapsto> x]) mbs)"
    "set lag = {mb_conn m | m. m \<in> set mbs \<and> overflows [ow \<mapsto> x] m}"
proof -
  have range: "\<forall>a \<in> set slots. a < length st" and d: "distinct slots"
    using h mail_okD(1) [OF ok] by (auto simp: holds_def actives_def)
  note r = slots_publish_pointwise [OF d range pub]
  have act: "a \<in> set slots \<longleftrightarrow> a < length mbs \<and> mb_active (mbs ! a) \<and> mb_owner (mbs ! a) = ow" for a
    using h by (auto simp: holds_def actives_def)
  have res: "isl (fst (slot_publish x (st ! a))) \<longleftrightarrow> length (mb_queue (mbs ! a)) = 256" if "a < length mbs" for a
    using slot_publish_rel(1) [OF mail_okD(3) [OF ok that], of x] by simp
  have conn: "conn_id (snd (slot_publish x s)) = conn_id s" for s :: "PubSubMessage BroadcastSlot"
    by (simp add: slot_publish_def slot_wake_def Let_def)
  have "slot_rel (st' ! a) (mb_queue (enqueue [ow \<mapsto> x] (mbs ! a))) \<and> conn_id (st' ! a) = mb_conn (mbs ! a)"
    if a: "a < length mbs" for a
    using r a mail_okD(1,3,4) [OF ok] act [of a] slot_publish_rel(2) [OF mail_okD(3) [OF ok a], of x]
    by (auto simp: enqueue_def takes_def conn)
  then show "mail_ok st' (map (enqueue [ow \<mapsto> x]) mbs)"
    using r mail_okD(1,2) [OF ok] by (auto simp: mail_ok_def list_all2_conv_all_nth)
  have "n = card (set (filter (\<lambda>a. \<not> isl (fst (slot_publish x (st ! a)))) slots))"
    using r d by (simp add: distinct_card del: set_filter)
  also have "set (filter (\<lambda>a. \<not> isl (fst (slot_publish x (st ! a)))) slots) = {a. a < length mbs \<and> takes [ow \<mapsto> x] (mbs ! a)}"
    using act res by (auto simp: takes_def)
  finally show "n = length (filter (takes [ow \<mapsto> x]) mbs)" by (simp only: card_takes)
  have "set lag = (\<lambda>a. conn_id (st ! a)) ` {a \<in> set slots. isl (fst (slot_publish x (st ! a)))}"
    using r by auto
  also have "{a \<in> set slots. isl (fst (slot_publish x (st ! a)))} = {a. a < length mbs \<and> overflows [ow \<mapsto> x] (mbs ! a)}"
    using act res by (auto simp: overflows_def)
  also have "(\<lambda>a. conn_id (st ! a)) ` \<dots> = {mb_conn m | m. m \<in> set mbs \<and> overflows [ow \<mapsto> x] m}"
    using mail_okD(4) [OF ok] by (force simp: in_set_conv_nth)
  finally show "set lag = {mb_conn m | m. m \<in> set mbs \<and> overflows [ow \<mapsto> x] m}" .
qed

section \<open>Channel tables\<close>

text \<open>A channel table against the active mailboxes of the owners \<open>mk nm\<close>.\<close>

definition entry_ok :: "bytes \<Rightarrow> nat set \<Rightarrow> ChannelEntry \<Rightarrow> bool" where
  "entry_ok nm act e \<longleftrightarrow> name e = nm \<and> holds (ce_slots e) act \<and> ce_subscriber_count e = of_nat (length (ce_slots e))"

definition table_ok :: "('t, ChannelEntry) table_deps \<Rightarrow> (bytes \<Rightarrow> owner) \<Rightarrow> (owner \<Rightarrow> nat set) \<Rightarrow> 't \<Rightarrow> bool" where
  "table_ok H mk act t \<longleftrightarrow>
     (\<forall>nm. case ht_map H t nm of None \<Rightarrow> act (mk nm) = {} | Some e \<Rightarrow> entry_ok nm (act (mk nm)) e \<and> ce_slots e \<noteq> [])"

lemma table_okD:
  assumes "table_ok H mk act t"
  shows "ht_map H t nm = None \<Longrightarrow> act (mk nm) = {}"
    and "ht_map H t nm = Some e \<Longrightarrow> entry_ok nm (act (mk nm)) e"
    and "ht_map H t nm = Some e \<Longrightarrow> ce_slots e \<noteq> []"
  using assms by (auto simp: table_ok_def split: option.splits dest: spec [of _ nm])

lemma table_ok_update:
  assumes "table_ok H mk act t" "inj mk" "ht_map H t' = (ht_map H t)(nm \<mapsto> e)" "entry_ok nm s e" "ce_slots e \<noteq> []"
  shows "table_ok H mk (act(mk nm := s)) t'"
  unfolding table_ok_def
proof
  fix nm'
  show "case ht_map H t' nm' of None \<Rightarrow> (act(mk nm := s)) (mk nm') = {}
      | Some e \<Rightarrow> entry_ok nm' ((act(mk nm := s)) (mk nm')) e \<and> ce_slots e \<noteq> []"
    using assms(1) [unfolded table_ok_def, THEN spec, of nm'] assms(2-5)
    by (cases "nm' = nm"; cases "ht_map H t nm'") (simp_all add: inj_eq)
qed

lemma table_ok_remove:
  assumes "table_ok H mk act t" "inj mk" "ht_map H t' = (ht_map H t)(nm := None)"
  shows "table_ok H mk (act(mk nm := {})) t'"
  unfolding table_ok_def
proof
  fix nm'
  show "case ht_map H t' nm' of None \<Rightarrow> (act(mk nm := {})) (mk nm') = {}
      | Some e \<Rightarrow> entry_ok nm' ((act(mk nm := {})) (mk nm')) e \<and> ce_slots e \<noteq> []"
    using assms(1) [unfolded table_ok_def, THEN spec, of nm'] assms(2,3)
    by (cases "nm' = nm"; cases "ht_map H t nm'") (simp_all add: inj_eq)
qed

lemma entry_subscribe_ok:
  assumes "mail_ok st mbs" "entry_ok nm (actives mbs ow) e" "entry_subscribe st e c = (a, st', e')"
  defines "mbs' \<equiv> snd (broker_subscribe mbs ow c)"
  shows "mail_ok st' mbs'" "a = fst (broker_subscribe mbs ow c)" "entry_ok nm (actives mbs' ow) e'" "ce_slots e' \<noteq> []"
    "actives mbs' = (actives mbs)(ow := set (ce_slots e'))"
proof -
  from assms(3) obtain slots' where s: "slots_subscribe st (ce_slots e) c = (a, st', slots')"
    "e' = (if slots' = ce_slots e then e else e\<lparr>ce_slots := slots', ce_subscriber_count := of_nat (length slots')\<rparr>)"
    by (auto simp: entry_subscribe_def split: prod.splits)
  have h: "holds (ce_slots e) (actives mbs ow)" using assms(2) by (simp add: entry_ok_def)
  note r = slots_subscribe_ok [OF assms(1) h s(1), folded mbs'_def]
  have e': "ce_slots e' = slots'" "ce_subscriber_count e' = of_nat (length slots')" "name e' = nm"
    using s(2) assms(2) by (auto simp: entry_ok_def)
  show "mail_ok st' mbs'" "a = fst (broker_subscribe mbs ow c)" "entry_ok nm (actives mbs' ow) e'" "ce_slots e' \<noteq> []"
    "actives mbs' = (actives mbs)(ow := set (ce_slots e'))"
    using r e' by (simp_all add: entry_ok_def)
qed

lemma table_subscribe_ok:
  assumes H: "table_laws H" and mk: "inj mk" and ok: "mail_ok st mbs" "table_ok H mk (actives mbs) t"
    and sub: "table_subscribe H st t nm c = (a, st', t')"
  defines "mbs' \<equiv> snd (broker_subscribe mbs (mk nm) c)"
  shows "mail_ok st' mbs'" "a = fst (broker_subscribe mbs (mk nm) c)" "table_ok H mk (actives mbs') t'"
    "ow \<noteq> mk nm \<Longrightarrow> actives mbs' ow = actives mbs ow"
proof -
  define e where "e = (case ht_map H t nm of Some e \<Rightarrow> e | None \<Rightarrow> entry_new nm)"
  have e: "entry_ok nm (actives mbs (mk nm)) e"
    using table_okD(1,2) [OF ok(2), of nm]
    by (auto simp: e_def entry_ok_def entry_new_def holds_def split: option.splits)
  obtain e' where s: "entry_subscribe st e c = (a, st', e')" and t': "ht_map H t' = (ht_map H t)(nm \<mapsto> e')"
    using sub table_lawsD(3,4,5) [OF H]
    by (cases "ht_map H t nm") (auto simp: table_subscribe_def e_def domIff split: prod.splits)
  note r = entry_subscribe_ok [OF ok(1) e s, folded mbs'_def]
  show "mail_ok st' mbs'" "a = fst (broker_subscribe mbs (mk nm) c)" using r by simp_all
  have "table_ok H mk ((actives mbs)(mk nm := actives mbs' (mk nm))) t'"
    by (rule table_ok_update [OF ok(2) mk t' r(3,4)])
  then show "table_ok H mk (actives mbs') t'" using r(5) by simp
  show "ow \<noteq> mk nm \<Longrightarrow> actives mbs' ow = actives mbs ow" using r(5) by simp
qed

lemma entry_unsubscribe_ok:
  fixes c :: "64 word"
  assumes ok: "mail_ok st mbs" "entry_ok nm (actives mbs ow) e"
  defines "mbs' \<equiv> snd (broker_unsubscribe mbs ow c)"
  shows "fst (entry_unsubscribe st e c) = fst (broker_unsubscribe mbs ow c)"
    "entry_ok nm (actives mbs' ow) (snd (entry_unsubscribe st e c))"
proof -
  have h: "holds (ce_slots e) (actives mbs ow)" using ok(2) by (simp add: entry_ok_def)
  note r = slots_unsubscribe_ok [OF ok(1) h, of c]
  have "fst (entry_unsubscribe st e c) = fst (broker_unsubscribe mbs ow c) \<and>
    entry_ok nm (actives mbs' ow) (snd (entry_unsubscribe st e c))"
  proof (cases "slots_unsubscribe st (ce_slots e) c")
    case None
    then show ?thesis using r(1) ok(2) by (simp add: entry_unsubscribe_def broker_unsubscribe_def mbs'_def)
  next
    case (Some p)
    then obtain a slots' where "slots_unsubscribe st (ce_slots e) c = Some (a, slots')" by (cases p) auto
    then show ?thesis using r(2,3) ok(2)
      by (auto simp: entry_unsubscribe_def broker_unsubscribe_def mbs'_def entry_ok_def)
  qed
  then show "fst (entry_unsubscribe st e c) = fst (broker_unsubscribe mbs ow c)"
    "entry_ok nm (actives mbs' ow) (snd (entry_unsubscribe st e c))" by blast+
qed

lemma actives_unsubscribe_other:
  "unique_mail mbs \<Longrightarrow> ow' \<noteq> ow \<Longrightarrow> actives (snd (broker_unsubscribe mbs ow c)) ow' = actives mbs ow'"
  by (simp add: broker_unsubscribe_deactivate actives_deactivate)

lemma table_set_ok:
  assumes H: "table_laws H" and mk: "inj mk" and t: "table_ok H mk act t" "ht_map H t nm = Some e0" and e: "entry_ok nm s e"
  shows "table_ok H mk (act(mk nm := s))
           (if entry_is_empty e then ht_remove H (ht_replace H t nm e) nm else ht_replace H t nm e)"
proof -
  have r: "ht_map H (ht_replace H t nm e) = (ht_map H t)(nm \<mapsto> e)"
    using table_lawsD(4) [OF H] t(2) by (simp add: domIff)
  show ?thesis
  proof (cases "entry_is_empty e")
    case True
    then have "s = {}" using e by (auto simp: entry_is_empty_def entry_ok_def holds_def)
    moreover have "ht_map H (ht_remove H (ht_replace H t nm e) nm) = (ht_map H t)(nm := None)"
      using table_lawsD(6) [OF H] r by simp
    ultimately show ?thesis using table_ok_remove [OF t(1) mk] True by simp
  next
    case False
    then show ?thesis using table_ok_update [OF t(1) mk r e] by (simp add: entry_is_empty_def)
  qed
qed

lemma table_unsubscribe_ok:
  fixes c :: "64 word" and nm :: bytes
  assumes H: "table_laws H" and mk: "inj mk" and ok: "mail_ok st mbs" "table_ok H mk (actives mbs) t"
  defines "mbs' \<equiv> snd (broker_unsubscribe mbs (mk nm) c)"
  shows "fst (table_unsubscribe H st t nm c) = fst (broker_unsubscribe mbs (mk nm) c)"
    "table_ok H mk (actives mbs') (snd (table_unsubscribe H st t nm c))"
proof -
  have uniq: "unique_mail mbs" by (rule mail_okD(2) [OF ok(1)])
  have "fst (table_unsubscribe H st t nm c) = fst (broker_unsubscribe mbs (mk nm) c) \<and>
    table_ok H mk (actives mbs') (snd (table_unsubscribe H st t nm c))"
  proof (cases "ht_map H t nm")
    case None
    then have "position (mail_of (mk nm) c) mbs = None"
      using table_okD(1) [OF ok(2)] broker_position(2) [OF uniq] by simp
    with None ok(2) show ?thesis
      by (simp add: table_unsubscribe_def broker_unsubscribe_def mbs'_def table_lawsD(3) [OF H])
  next
    case (Some e)
    note r = entry_unsubscribe_ok [OF ok(1) table_okD(2) [OF ok(2) Some], of c, folded mbs'_def]
    let ?e = "snd (entry_unsubscribe st e c)"
    have "ht_find H (ht_replace H t nm ?e) nm = Some ?e"
      using table_lawsD(3,4) [OF H] Some by (simp add: domIff)
    then have "table_unsubscribe H st t nm c = (fst (entry_unsubscribe st e c),
        if entry_is_empty ?e then ht_remove H (ht_replace H t nm ?e) nm else ht_replace H t nm ?e)"
      using Some by (simp add: table_unsubscribe_def Let_def split_beta table_lawsD(3) [OF H, of t])
    moreover have "actives mbs' = (actives mbs)(mk nm := actives mbs' (mk nm))"
      using actives_unsubscribe_other [OF uniq] by (auto simp: fun_eq_iff mbs'_def)
    ultimately show ?thesis using r(1) table_set_ok [OF H mk ok(2) Some r(2)] by simp
  qed
  then show "fst (table_unsubscribe H st t nm c) = fst (broker_unsubscribe mbs (mk nm) c)"
    "table_ok H mk (actives mbs') (snd (table_unsubscribe H st t nm c))" by blast+
qed

lemma unsubscribe_all_ok:
  assumes "mail_ok st mbs" "entry_ok nm (actives mbs ow) e"
  shows "entry_ok nm (actives (map (deactivate (Pair ow ` set cs)) mbs) ow) (unsubscribe_all st e cs)"
  using assms
proof (induction cs arbitrary: e mbs)
  case Nil
  have "map (deactivate {}) mbs = mbs" by (auto simp: deactivate_def intro!: map_idI)
  with Nil show ?case by simp
next
  case (Cons c cs)
  let ?mbs = "map (deactivate {(ow, c)}) mbs"
  have "entry_ok nm (actives ?mbs ow) (snd (entry_unsubscribe st e c))"
    using entry_unsubscribe_ok(2) [OF Cons.prems, of c] broker_unsubscribe_deactivate [OF mail_okD(2) [OF Cons.prems(1)]] by simp
  from Cons.IH [OF deactivate_ok [OF Cons.prems(1)] this]
  have "entry_ok nm (actives (map (deactivate (Pair ow ` set cs) \<circ> deactivate {(ow, c)}) mbs) ow) (unsubscribe_all st e (c # cs))"
    by simp
  moreover have "deactivate (Pair ow ` set cs) \<circ> deactivate {(ow, c)} = deactivate (Pair ow ` set (c # cs))"
    by (simp add: fun_eq_iff deactivate_compose)
  ultimately show ?case by (simp only:)
qed

lemma post_deactivate:
  assumes "unique_mail mbs" "ks = {(mb_owner m, mb_conn m) | m. m \<in> set mbs \<and> overflows msg m}"
  shows "map (deactivate ks) (map (enqueue msg) mbs) = map (post msg) mbs"
proof (rule nth_equalityI)
  fix a assume "a < length (map (deactivate ks) (map (enqueue msg) mbs))"
  then have a: "a < length mbs" by simp
  have "overflows msg (mbs ! a)" if "mb_active (mbs ! a)" "(mb_owner (mbs ! a), mb_conn (mbs ! a)) \<in> ks"
  proof -
    from that(2) obtain b where b: "b < length mbs" "overflows msg (mbs ! b)" "mb_owner (mbs ! b) = mb_owner (mbs ! a)"
      "mb_conn (mbs ! b) = mb_conn (mbs ! a)" unfolding assms(2) by (auto simp: in_set_conv_nth)
    then have "a = b" using assms(1) a that(1) by (auto simp: unique_mail_def overflows_def)
    with b show ?thesis by simp
  qed
  moreover have "mb_active (mbs ! a) \<and> (mb_owner (mbs ! a), mb_conn (mbs ! a)) \<in> ks" if "overflows msg (mbs ! a)"
    using that a unfolding assms(2) by (auto simp: overflows_def)
  ultimately have iff: "mb_active (mbs ! a) \<and> (mb_owner (mbs ! a), mb_conn (mbs ! a)) \<in> ks \<longleftrightarrow> overflows msg (mbs ! a)"
    by blast
  have "deactivate ks (enqueue msg (mbs ! a)) = post msg (mbs ! a)"
    unfolding deactivate_def enqueue_simps iff by (simp add: post_def enqueue_def takes_def overflows_def)
  then show "map (deactivate ks) (map (enqueue msg) mbs) ! a = map (post msg) mbs ! a" using a by simp
qed simp

lemma actives_post_other: "msg ow = None \<Longrightarrow> actives (map (post msg) mbs) ow = actives mbs ow"
  by (auto simp: actives_def post_def takes_def overflows_def split: if_splits)

lemma table_publish_ok:
  assumes H: "table_laws H" and mk: "inj mk" and ok: "mail_ok st mbs" "table_ok H mk (actives mbs) t"
    and e: "ht_map H t nm = Some e" and pub: "entry_publish st e x = (report, st')"
  defines "mbs' \<equiv> map (post [mk nm \<mapsto> x]) mbs"
  shows "mail_ok st' mbs'" "delivered report = length (filter (takes [mk nm \<mapsto> x]) mbs)"
    "table_ok H mk (actives mbs') (remove_lagged_from_map H st' t nm (lagged_connections report))"
proof -
  let ?ow = "mk nm" let ?msg = "[mk nm \<mapsto> x]" let ?q = "map (enqueue ?msg) mbs"
  have eok: "entry_ok nm (actives mbs ?ow) e" by (rule table_okD(2) [OF ok(2) e])
  then have h: "holds (ce_slots e) (actives mbs ?ow)" by (simp add: entry_ok_def)
  obtain n lag where p: "slots_publish st (ce_slots e) x = (n, lag, st')" "delivered report = n" "lagged_connections report = lag"
    using pub by (auto simp: entry_publish_def split: prod.splits)
  note r = slots_publish_ok [OF ok(1) h p(1)]
  have ks: "Pair ?ow ` set lag = {(mb_owner m, mb_conn m) | m. m \<in> set mbs \<and> overflows ?msg m}"
    unfolding r(3) by (auto simp: overflows_def split: if_splits)
  have post: "map (deactivate (Pair ?ow ` set lag)) ?q = mbs'"
    unfolding mbs'_def by (rule post_deactivate [OF mail_okD(2) [OF ok(1)] ks])
  show "mail_ok st' mbs'" using deactivate_ok [OF r(1), of "Pair ?ow ` set lag"] by (simp only: post)
  show "delivered report = length (filter (takes ?msg) mbs)" using p(2) r(2) by simp
  have "entry_ok nm (actives ?q ?ow) e" using eok by (simp only: actives_enqueue)
  from unsubscribe_all_ok [OF r(1) this, of lag]
  have e': "entry_ok nm (actives mbs' ?ow) (unsubscribe_all st' e lag)" by (simp only: post)
  have upd: "(actives mbs)(?ow := actives mbs' ?ow) = actives mbs'"
    by (auto simp: fun_eq_iff mbs'_def actives_post_other)
  show "table_ok H mk (actives mbs') (remove_lagged_from_map H st' t nm (lagged_connections report))"
  proof (cases "lag = []")
    case True
    have "actives mbs' ow = actives mbs ow" for ow
    proof -
      have "actives (map (deactivate (Pair ?ow ` set lag)) ?q) ow = actives mbs ow"
        unfolding actives_deactivate using True by simp
      then show ?thesis by (simp only: post)
    qed
    then have "actives mbs' = actives mbs" by blast
    then show ?thesis using True p(3) ok(2) by (simp add: remove_lagged_from_map_def)
  next
    case False
    then show ?thesis using table_set_ok [OF H mk ok(2) e e'] e p(3)
      by (simp add: remove_lagged_from_map_def Let_def table_lawsD(3) [OF H] upd)
  qed
qed

section \<open>The pattern index finds every matching pattern\<close>

definition regular_pattern :: "bytes \<Rightarrow> bool" where
  "regular_pattern p \<longleftrightarrow> utf8_valid p \<and> no_escaped_range p \<and>
     (case trailing_star_prefix_len (scan_pattern p) of None \<Rightarrow> True | Some n \<Rightarrow> BACKSLASH \<notin> set (take n p))"

definition pattern_laws :: "'a pattern_deps \<Rightarrow> bool" where
  "pattern_laws D \<longleftrightarrow> memmem_laws (pd_memmem D) \<and>
     (\<forall>ls. pd_build D ls \<noteq> None) \<and>
     (\<forall>ls m hay. pd_build D ls = Some m \<longrightarrow>
        set (pd_find_overlapping D m hay) = {i. i < length ls \<and> (\<exists>p. occurs_at hay (ls ! i) p)}) \<and>
     (\<forall>bs. utf8_valid (pd_lossy D bs))"

lemma pattern_lawsD:
  assumes "pattern_laws D"
  shows "memmem_laws (pd_memmem D)" and "\<exists>m. pd_build D ls = Some m"
    and "pd_build D ls = Some m \<Longrightarrow>
      set (pd_find_overlapping D m hay) = {i. i < length ls \<and> (\<exists>p. occurs_at hay (ls ! i) p)}"
    and "utf8_valid (pd_lossy D bs)"
  using assms by (simp_all add: pattern_laws_def)

lemma glob_match_simd_regular:
  assumes "pattern_laws D" "regular_pattern p"
  shows "glob_match_simd (pd_memmem D) p s = Some (glob_spec (tokens p) s)"
  using assms by (intro glob_match_simd_spec) (auto simp: pattern_laws_def regular_pattern_def)

lemma literal_segments_runs:
  assumes "no_escaped_range p"
  shows "literal_segments_loop p segments cur i = segments @ map utf8_lossy (literal_runs cur (tokens (drop i p)))"
proof (induction "length p - i" arbitrary: i cur segments rule: less_induct)
  case less
  show ?case
  proof (cases "i < length p")
    case True
    obtain t where t: "tokens (drop i p) = t # tokens (drop (i + token_step p i) p)" "0 < token_step p i"
        "t = AnyRun \<longleftrightarrow> p ! i = STAR" "t = AnyByte \<longleftrightarrow> p ! i = QUESTION" "(\<exists>f. t = Class f) \<longleftrightarrow> p ! i = LBRACKET"
        "p ! i \<noteq> STAR \<Longrightarrow> p ! i \<noteq> QUESTION \<Longrightarrow> p ! i \<noteq> LBRACKET \<Longrightarrow>
           t = Literal (if p ! i = BACKSLASH \<and> i + 1 < length p then p ! (i + 1) else p ! i)"
      using token_head [OF assms True] by blast
    have lt: "length p - (i + token_step p i) < length p - i" using True t(2) by linarith
    show ?thesis
    proof (cases "p ! i = STAR \<or> p ! i = QUESTION \<or> p ! i = LBRACKET")
      case wild: True
      have "literal_runs cur (t # ts) = (if cur = [] then [] else [cur]) @ literal_runs [] ts" for ts
        using wild t(3-5) by (cases t) auto
      then show ?thesis using True wild t(1) less.hyps [OF lt]
        by (subst literal_segments_loop.simps) (auto simp: token_step_def)
    next
      case lit: False
      then show ?thesis using True t(1,6) less.hyps [OF lt]
        by (subst literal_segments_loop.simps) (auto simp: token_step_def)
    qed
  next
    case False
    then show ?thesis by (subst literal_segments_loop.simps) simp
  qed
qed

lemma class_items_bracket: "class_items cs = Some (items, rest) \<Longrightarrow> \<exists>body. cs = body @ RBRACKET # rest"
proof (induction cs arbitrary: items rest rule: class_items.induct)
  case (2 c cs)
  have shift: "\<exists>body. c # cs = body @ RBRACKET # rest" if "\<exists>body. drop k cs = body @ RBRACKET # rest" for k
    using that by (metis append_Cons append_take_drop_id append.assoc)
  consider "c = RBRACKET" | (esc) "c = BACKSLASH" "cs \<noteq> []"
    | (range) "c \<noteq> RBRACKET" "\<not> (c = BACKSLASH \<and> cs \<noteq> [])" "2 \<le> length cs \<and> hd cs = MINUS \<and> cs ! 1 \<noteq> RBRACKET"
    | (lit) "c \<noteq> RBRACKET" "\<not> (c = BACKSLASH \<and> cs \<noteq> [])" "\<not> (2 \<le> length cs \<and> hd cs = MINUS \<and> cs ! 1 \<noteq> RBRACKET)" by blast
  then show ?case
  proof cases
    case 1
    then show ?thesis using "2.prems" by (auto intro: exI [of _ "[]"])
  next
    case esc
    then have "\<exists>items'. class_items (tl cs) = Some (items', rest)" using "2.prems" by auto
    then show ?thesis using "2.IH"(1) esc shift [of 1] by (auto simp: drop_Suc)
  next
    case range
    then have "\<exists>items'. class_items (drop 2 cs) = Some (items', rest)" using "2.prems" by auto
    then show ?thesis using "2.IH"(2) range shift [of 2] by blast
  next
    case lit
    then have "class_items (c # cs) = map_option (apfst (Cons (Single c))) (class_items cs)" by auto
    then have "\<exists>items'. class_items cs = Some (items', rest)" using "2.prems" by auto
    then show ?thesis using "2.IH"(3) lit shift [of 0] by auto
  qed
qed simp

text \<open>Literal runs of a well-formed pattern are well-formed: they end at ASCII bytes.\<close>

lemma literal_runs_utf8:
  "utf8_valid (cur @ cs) \<Longrightarrow> run \<in> set (literal_runs cur (tokens cs)) \<Longrightarrow> utf8_valid run"
proof (induction cs arbitrary: cur run rule: tokens.induct)
  case 1
  then show ?case by (auto split: if_splits)
next
  case (2 c cs)
  have sub: "utf8_valid cur \<and> utf8_valid cs" if "c < 128" using utf8_valid_split [OF "2.prems"(1) that] .
  have flush: "run = cur \<or> run \<in> set (literal_runs [] ts)"
    if "tokens (c # cs) = t # ts" "\<nexists>b. t = Literal b" for t ts
    using "2.prems"(2) that by (cases t) (auto split: if_splits)
  consider (star) "c = STAR" | (question) "c = QUESTION" | (bracket) "c = LBRACKET"
    | (esc) "c = BACKSLASH" "cs \<noteq> []"
    | (lit) "c \<noteq> STAR" "c \<noteq> QUESTION" "c \<noteq> LBRACKET" "\<not> (c = BACKSLASH \<and> cs \<noteq> [])" by blast
  then show ?case
  proof cases
    case star
    then show ?thesis using "2.IH"(1) [of "[]" run] sub flush [of AnyRun "tokens cs"] by auto
  next
    case question
    then show ?thesis using "2.IH"(2) [of "[]" run] sub flush [of AnyByte "tokens cs"] by auto
  next
    case bracket
    then have v: "utf8_valid cur" "utf8_valid cs" using sub by simp_all
    show ?thesis
    proof (cases "class_items (snd (class_body cs))")
      case None
      then show ?thesis using "2.prems"(2) bracket v by (auto split: if_splits)
    next
      case (Some p)
      then obtain items rest where p: "class_items (snd (class_body cs)) = Some (items, rest)" by (cases p) auto
      obtain pre where "cs = pre @ snd (class_body cs)"
        by (cases "snd (class_body cs) = cs") (auto simp: class_body_def split: list.splits if_splits intro: that [of "[]"] that [of "[_]"])
      then obtain body where "cs = body @ RBRACKET # rest"
        using class_items_bracket [OF p] by (metis append.assoc)
      then have "utf8_valid rest" using v(2) utf8_valid_split [of body RBRACKET rest] by simp
      moreover have "tokens (c # cs) = Class (class_accepts (fst (class_body cs)) items) # tokens rest"
        using bracket p by simp
      from flush [OF this] have "run = cur \<or> run \<in> set (literal_runs [] (tokens rest))" by simp
      ultimately show ?thesis using "2.IH"(3) [OF _ _ bracket p refl, of "[]" run] bracket v(1) by auto
    qed
  next
    case esc
    then obtain d ds where cs: "cs = d # ds" by (cases cs) auto
    have "utf8_valid (cur @ cs)" using sub esc utf8_valid_append [of cur cs] by simp
    then show ?thesis using "2.IH"(4) [of "cur @ [d]"] esc cs "2.prems"(2) by simp
  next
    case lit
    then have "tokens (c # cs) = Literal c # tokens cs" by auto
    then show ?thesis using "2.IH"(5) [of "cur @ [c]"] lit "2.prems" by auto
  qed
qed

lemma literal_segments_regular:
  assumes "regular_pattern p"
  shows "literal_segments p = literal_runs [] (tokens p)"
proof -
  have "literal_segments p = map utf8_lossy (literal_runs [] (tokens p))"
    using literal_segments_runs [of p "[]" "[]" 0] assms by (simp add: literal_segments_def regular_pattern_def)
  also have "\<dots> = literal_runs [] (tokens p)"
    using literal_runs_utf8 [of "[]" p] assms by (intro map_idI) (auto simp: regular_pattern_def utf8_lossy_valid)
  finally show ?thesis .
qed

lemma in_order_occurs:
  assumes "memmem_laws memmem"
  shows "in_order memmem ls s \<Longrightarrow> l \<in> set ls \<Longrightarrow> \<exists>p. occurs_at s l p"
proof (induction ls arbitrary: s)
  case (Cons k ls)
  then obtain q where q: "memmem s k = Some q" "in_order memmem ls (drop (q + length k) s)"
    by (cases "memmem s k") simp_all
  then have occ: "occurs_at s k q" using memmem_found(1) [OF assms] by simp
  show ?case
  proof (cases "l = k")
    case True
    then show ?thesis using occ by blast
  next
    case False
    then obtain p where "occurs_at (drop (q + length k) s) l p" using Cons.IH [OF q(2)] Cons.prems(2) by auto
    then show ?thesis using occurs_at_suffix [of "q + length k" s l p] occ by (auto simp: occurs_at_def)
  qed
qed simp

lemma literal_segments_occur:
  assumes "pattern_laws D" "regular_pattern p" "glob_spec (tokens p) s" "seg \<in> set (literal_segments p)"
  shows "\<exists>q. occurs_at s seg q"
proof -
  have laws: "memmem_laws (pd_memmem D)" using assms(1) by (simp add: pattern_laws_def)
  have "in_order (pd_memmem D) (literal_segments p) s"
    using in_order_runs [OF laws, of "[]" "tokens p" s] assms(3) by (simp add: literal_segments_regular [OF assms(2)])
  then show ?thesis by (rule in_order_occurs [OF laws _ assms(4)])
qed

definition index_tables :: "PatternSubscription list \<Rightarrow> 'a PatternIndex \<Rightarrow> bytes list \<Rightarrow> bool" where
  "index_tables subs x literals \<longleftrightarrow>
     length (literal_to_pattern x) = length literals \<and>
     (\<forall>i < length subs. literal_segments (pattern (subs ! i)) = [] \<longrightarrow> i \<in> set (literalless_patterns x)) \<and>
     (\<forall>i < length subs. \<forall>seg \<in> set (literal_segments (pattern (subs ! i))).
        (i, seg) \<in> set (zip (literal_to_pattern x) literals)) \<and>
     set (literalless_patterns x) \<subseteq> {..<length subs} \<and> snd ` set (literal_prefixes x) \<subseteq> {..<length subs} \<and>
     set (literal_to_pattern x) \<subseteq> {..<length subs}"

lemma index_tables_step:
  fixes s :: PatternSubscription and D :: "'a pattern_deps"
  assumes "index_tables subs x literals"
  defines "segments \<equiv> literal_segments (pattern s)"
  defines "y \<equiv> (if literal_prefix D (pattern s) \<noteq> []
      then x\<lparr>literal_prefixes := literal_prefixes x @ [(literal_prefix D (pattern s), length subs)]\<rparr> else x)"
  shows "segments = [] \<Longrightarrow>
      index_tables (subs @ [s]) (y\<lparr>literalless_patterns := literalless_patterns y @ [length subs]\<rparr>) literals"
    and "segments \<noteq> [] \<Longrightarrow>
      index_tables (subs @ [s])
        (y\<lparr>literal_to_pattern := literal_to_pattern y @ replicate (length segments) (length subs)\<rparr>) (literals @ segments)"
proof -
  have zip: "set (zip (ltp @ replicate (length segments) k) (literals @ segments)) = set (zip ltp literals) \<union> Pair k ` set segments"
    if "length ltp = length literals" for ltp and k :: nat
    using that by (auto simp: zip_append zip_replicate1 in_set_zip set_zip_rightD)
  have y: "literalless_patterns y = literalless_patterns x" "literal_to_pattern y = literal_to_pattern x"
    "snd ` set (literal_prefixes y) \<subseteq> {..<length (subs @ [s])}"
    using assms(1) by (auto simp: y_def index_tables_def)
  show "segments = [] \<Longrightarrow>
      index_tables (subs @ [s]) (y\<lparr>literalless_patterns := literalless_patterns y @ [length subs]\<rparr>) literals"
    using assms(1) y unfolding index_tables_def segments_def
    by (intro conjI allI impI ballI) (auto simp: nth_append less_Suc_eq)
  show "segments \<noteq> [] \<Longrightarrow>
      index_tables (subs @ [s])
        (y\<lparr>literal_to_pattern := literal_to_pattern y @ replicate (length segments) (length subs)\<rparr>) (literals @ segments)"
    using assms(1) y zip [of "literal_to_pattern x"] unfolding index_tables_def segments_def
    by (intro conjI allI impI ballI) (auto simp: nth_append less_Suc_eq)
qed

lemma rebuild_loop_tables:
  "index_tables seen x literals \<Longrightarrow> rebuild_loop D (length seen) subs x literals = (y, literals') \<Longrightarrow>
     index_tables (seen @ subs) y literals' \<and> subscriptions y = subscriptions x \<and>
     total_subscriber_count y = total_subscriber_count x \<and> matcher y = matcher x"
proof (induction subs arbitrary: seen x literals)
  case (Cons s subs)
  let ?x = "if literal_prefix D (pattern s) \<noteq> []
      then x\<lparr>literal_prefixes := literal_prefixes x @ [(literal_prefix D (pattern s), length seen)]\<rparr> else x"
  note step = index_tables_step [OF Cons.prems(1), of s D]
  show ?case
  proof (cases "literal_segments (pattern s) = []")
    case True
    then show ?thesis using Cons.IH [OF step(1) [OF True]] Cons.prems(2) by (simp add: Let_def split: if_splits)
  next
    case False
    then show ?thesis using Cons.IH [OF step(2) [OF False]] Cons.prems(2) by (simp add: Let_def split: if_splits)
  qed
qed simp

definition index_built :: "'a pattern_deps \<Rightarrow> 'a PatternIndex \<Rightarrow> bool" where
  "index_built D x \<longleftrightarrow> length (subscriptions x) \<le> AHO_THRESHOLD \<or>
     (\<exists>literals. index_tables (subscriptions x) x literals \<and>
        matcher x = (if literals = [] then None else pd_build D literals))"

lemma rebuild_built:
  assumes "pattern_laws D"
  shows "\<exists>y. rebuild D x = Some y \<and> index_built D y \<and> subscriptions y = subscriptions x \<and>
           total_subscriber_count y = total_subscriber_count x"
proof -
  define z where "z = x\<lparr>matcher := None, literal_prefixes := [], literal_to_pattern := [], literalless_patterns := []\<rparr>"
  have z: "subscriptions z = subscriptions x" "total_subscriber_count z = total_subscriber_count x" "matcher z = None"
    "index_tables [] z []" by (simp_all add: z_def index_tables_def)
  show ?thesis
  proof (cases "length (subscriptions x) \<le> AHO_THRESHOLD")
    case True
    then have "rebuild D x = Some z" using z(1) by (simp add: rebuild_def Let_def z_def)
    with True z show ?thesis by (simp add: index_built_def)
  next
    case False
    obtain y literals where r: "rebuild_loop D 0 (subscriptions x) z [] = (y, literals)"
      by (cases "rebuild_loop D 0 (subscriptions x) z []")
    have t: "index_tables (subscriptions x) y literals" "subscriptions y = subscriptions x"
        "total_subscriber_count y = total_subscriber_count x" "matcher y = None"
      using rebuild_loop_tables [OF z(4), of D "subscriptions x" y literals] r z by simp_all
    obtain m where m: "pd_build D literals = Some m" using pattern_lawsD(2) [OF assms] by blast
    let ?y = "if literals = [] then y else y\<lparr>matcher := Some m\<rparr>"
    have "rebuild D x = Some ?y" using False r m by (simp add: rebuild_def Let_def z_def)
    moreover have "index_built D ?y" using t m by (auto simp: index_built_def index_tables_def intro!: exI [of _ literals])
    ultimately show ?thesis using t by auto
  qed
qed

lemma distinct_remdups_adj_sorted: "sorted xs \<Longrightarrow> distinct (remdups_adj (xs :: nat list))"
  by (induction xs rule: remdups_adj.induct) (auto split: if_splits)

lemma candidates_complete:
  assumes laws: "pattern_laws D" and built: "index_built D x" and reg: "\<forall>s \<in> set (subscriptions x). regular_pattern (pattern s)"
  shows "\<exists>cs. candidate_pattern_indexes D x ch = Some cs \<and> distinct cs \<and> set cs \<subseteq> {..<length (subscriptions x)} \<and>
     (\<forall>i < length (subscriptions x). glob_spec (tokens (pattern (subscriptions x ! i))) ch \<longrightarrow> i \<in> set cs)"
proof (cases "length (subscriptions x) \<le> AHO_THRESHOLD")
  case True
  then show ?thesis by (auto simp: candidate_pattern_indexes_def)
next
  case False
  then obtain literals where t: "index_tables (subscriptions x) x literals"
    "matcher x = (if literals = [] then None else pd_build D literals)" using built by (auto simp: index_built_def)
  define ms where "ms = (case matcher x of None \<Rightarrow> [] | Some m \<Rightarrow> pd_find_overlapping D m ch)"
  have ms: "set ms = {k. k < length literals \<and> (\<exists>p. occurs_at ch (literals ! k) p)}"
  proof (cases "literals = []")
    case False
    obtain m where m: "pd_build D literals = Some m" using pattern_lawsD(2) [OF laws] by blast
    then show ?thesis using False t(2) pattern_lawsD(3) [OF laws m] by (simp add: ms_def)
  qed (simp add: ms_def t(2))
  define pre where "pre = map snd (filter (\<lambda>(prefix, _). prefix \<noteq> [] \<and> take (length prefix) ch = prefix) (literal_prefixes x))"
  define cs where "cs = literalless_patterns x @ pre @ map ((!) (literal_to_pattern x)) ms"
  have len: "length (literal_to_pattern x) = length literals" using t(1) by (simp add: index_tables_def)
  have "list_all (\<lambda>i. i < length (literal_to_pattern x)) ms" using ms len by (auto simp: list_all_iff)
  moreover have "subscriptions x \<noteq> []" using False by auto
  ultimately have c: "candidate_pattern_indexes D x ch = Some (remdups_adj (sort cs))"
    using False by (simp only: candidate_pattern_indexes_def Let_def cs_def if_False if_True
      flip: pre_def ms_def)
  have "set pre \<subseteq> snd ` set (literal_prefixes x)" by (auto simp: pre_def)
  also have "\<dots> \<subseteq> {..<length (subscriptions x)}" using t(1) by (simp add: index_tables_def)
  finally have 1: "set pre \<subseteq> {..<length (subscriptions x)}" .
  have "k < length (literal_to_pattern x)" if "k \<in> set ms" for k using that ms len by simp
  then have "set (map ((!) (literal_to_pattern x)) ms) \<subseteq> set (literal_to_pattern x)" by auto
  also have "\<dots> \<subseteq> {..<length (subscriptions x)}" using t(1) by (simp add: index_tables_def)
  finally have range: "set cs \<subseteq> {..<length (subscriptions x)}"
    using 1 t(1) by (auto simp: cs_def index_tables_def)
  have "i \<in> set cs" if i: "i < length (subscriptions x)" "glob_spec (tokens (pattern (subscriptions x ! i))) ch" for i
  proof (cases "literal_segments (pattern (subscriptions x ! i))")
    case Nil
    then show ?thesis using t(1) i(1) by (simp add: cs_def index_tables_def)
  next
    case (Cons seg segs)
    then have "(i, seg) \<in> set (zip (literal_to_pattern x) literals)" using t(1) i(1) by (auto simp: index_tables_def)
    then obtain k where k: "k < length literals" "literal_to_pattern x ! k = i" "literals ! k = seg"
      using len by (auto simp: in_set_zip)
    have "\<exists>q. occurs_at ch seg q"
      using literal_segments_occur [OF laws _ i(2)] reg i(1) Cons by simp
    then have "k \<in> set ms" using k ms by simp
    then show ?thesis using k(2) by (auto simp: cs_def)
  qed
  then show ?thesis using c range by (simp add: distinct_remdups_adj_sorted)
qed

section \<open>Index operations\<close>

definition sub_ok :: "nat set \<Rightarrow> PatternSubscription \<Rightarrow> bool" where
  "sub_ok act s \<longleftrightarrow> holds (ps_slots s) act \<and> ps_subscriber_count s = of_nat (length (ps_slots s))"

definition subs_ok :: "(owner \<Rightarrow> nat set) \<Rightarrow> PatternSubscription list \<Rightarrow> bool" where
  "subs_ok act subs \<longleftrightarrow> distinct (map pattern subs) \<and>
     (\<forall>s \<in> set subs. regular_pattern (pattern s) \<and> sub_ok (act (Pat (pattern s))) s \<and> ps_slots s \<noteq> []) \<and>
     (\<forall>p. p \<notin> pattern ` set subs \<longrightarrow> act (Pat p) = {})"

definition index_ok :: "'a pattern_deps \<Rightarrow> (owner \<Rightarrow> nat set) \<Rightarrow> 'a PatternIndex \<Rightarrow> bool" where
  "index_ok D act x \<longleftrightarrow> subs_ok act (subscriptions x) \<and> index_built D x \<and>
     total_subscriber_count x = sum_list (map ps_subscriber_count (subscriptions x))"

lemma rebuild_ok:
  assumes "pattern_laws D" "subs_ok act (subscriptions x)"
  shows "\<exists>y. rebuild D (recount x) = Some y \<and> index_ok D act y"
  using rebuild_built [OF assms(1), of "recount x"] assms(2) by (auto simp: recount_def index_ok_def)

lemma subs_ok_update:
  assumes ok: "subs_ok act subs" and i: "i < length subs"
    and s: "pattern s = pattern (subs ! i)" "sub_ok A s" "ps_slots s \<noteq> []"
  shows "subs_ok (act(Pat (pattern s) := A)) (subs[i := s])"
proof -
  have pats: "map pattern (subs[i := s]) = map pattern subs"
    using i s(1) by (simp add: map_update list_update_same_conv)
  then have img: "pattern ` set (subs[i := s]) = pattern ` set subs" by (metis list.set_map)
  have mem: "u = s \<or> u \<in> set subs \<and> pattern u \<noteq> pattern s" if "u \<in> set (subs[i := s])" for u
  proof -
    from that obtain j where j: "j < length subs" "u = subs[i := s] ! j" by (auto simp: in_set_conv_nth)
    show ?thesis
    proof (cases "j = i")
      case False
      then have "pattern u \<noteq> pattern s"
        using ok i j s(1) nth_eq_iff_index_eq [of "map pattern subs" j i] by (auto simp: subs_ok_def)
      with j False show ?thesis by simp
    qed (use j i in simp)
  qed
  have reg: "regular_pattern (pattern s)" using ok i s(1) by (auto simp: subs_ok_def)
  have "pattern s \<in> pattern ` set subs" using i s(1) by auto
  then have "(act(Pat (pattern s) := A)) (Pat p) = {}" if "p \<notin> pattern ` set subs" for p
    using ok that by (auto simp: subs_ok_def)
  moreover have "regular_pattern (pattern u) \<and> sub_ok ((act(Pat (pattern s) := A)) (Pat (pattern u))) u \<and> ps_slots u \<noteq> []"
    if "u \<in> set (subs[i := s])" for u
    using mem [OF that] ok s(2,3) reg by (auto simp: subs_ok_def)
  ultimately show ?thesis using ok unfolding subs_ok_def pats img by blast
qed

lemma subs_ok_append:
  assumes ok: "subs_ok act subs" and new: "pattern s \<notin> pattern ` set subs"
    and s: "regular_pattern (pattern s)" "sub_ok A s" "ps_slots s \<noteq> []"
  shows "subs_ok (act(Pat (pattern s) := A)) (subs @ [s])"
proof -
  have "pattern u \<noteq> pattern s" if "u \<in> set subs" for u using new that by (metis imageI)
  then show ?thesis using ok s new by (auto simp: subs_ok_def)
qed

lemma map_swap_remove: "i < length xs \<Longrightarrow> map f (swap_remove i xs) = swap_remove i (map f xs)"
  by (cases xs rule: rev_cases) (auto simp: swap_remove_def map_butlast map_update)

lemma subs_ok_remove:
  assumes ok: "subs_ok act subs" and i: "i < length subs"
  shows "subs_ok (act(Pat (pattern (subs ! i)) := {})) (swap_remove i subs)"
proof -
  have "holds (map pattern subs) (pattern ` set subs)" using ok by (simp add: subs_ok_def holds_def)
  then have "holds (map pattern (swap_remove i subs)) (pattern ` set subs - {pattern (subs ! i)})"
    using swap_remove_holds [of "map pattern subs" "pattern ` set subs" i] i by (simp add: map_swap_remove)
  then have pats: "distinct (map pattern (swap_remove i subs))"
    "pattern ` set (swap_remove i subs) = pattern ` set subs - {pattern (subs ! i)}"
    by (simp_all add: holds_def)
  have "holds subs (set subs)" using ok by (auto simp: subs_ok_def holds_def distinct_map)
  from swap_remove_holds [OF this i] have sub: "set (swap_remove i subs) \<subseteq> set subs" by (auto simp: holds_def)
  have "pattern u \<noteq> pattern (subs ! i)" if "u \<in> set (swap_remove i subs)" for u using pats(2) that by auto
  then show ?thesis using ok pats sub unfolding subs_ok_def by auto
qed

lemma subscription_subscribe_ok:
  assumes ok: "mail_ok st mbs" and s: "sub_ok (actives mbs ow) s" and sub: "subscription_subscribe st s c = (a, st', s')"
  defines "mbs' \<equiv> snd (broker_subscribe mbs ow c)"
  shows "mail_ok st' mbs'" "a = fst (broker_subscribe mbs ow c)" "sub_ok (actives mbs' ow) s'" "ps_slots s' \<noteq> []"
    "pattern s' = pattern s" "actives mbs' = (actives mbs)(ow := actives mbs' ow)"
proof -
  from sub obtain slots' where u: "slots_subscribe st (ps_slots s) c = (a, st', slots')"
    "s' = (if slots' = ps_slots s then s else s\<lparr>ps_slots := slots', ps_subscriber_count := of_nat (length slots')\<rparr>)"
    by (auto simp: subscription_subscribe_def split: prod.splits)
  have h: "holds (ps_slots s) (actives mbs ow)" using s by (simp add: sub_ok_def)
  note r = slots_subscribe_ok [OF ok h u(1), folded mbs'_def]
  have s': "ps_slots s' = slots'" "ps_subscriber_count s' = of_nat (length slots')" "pattern s' = pattern s"
    using u(2) s by (auto simp: sub_ok_def)
  show "mail_ok st' mbs'" "a = fst (broker_subscribe mbs ow c)" "sub_ok (actives mbs' ow) s'" "ps_slots s' \<noteq> []"
    "pattern s' = pattern s" "actives mbs' = (actives mbs)(ow := actives mbs' ow)"
    using r s' by (simp_all add: sub_ok_def)
qed

lemma position_pattern:
  assumes "position (\<lambda>s. pattern s = p) subs = Some i"
  shows "i < length subs" "pattern (subs ! i) = p"
  using assms by (auto simp: position_Some)

lemma subs_okD:
  assumes "subs_ok act subs"
  shows "i < length subs \<Longrightarrow> pattern (subs ! i) = p \<Longrightarrow> sub_ok (act (Pat p)) (subs ! i)"
    and "position (\<lambda>s. pattern s = p) subs = None \<Longrightarrow> p \<notin> pattern ` set subs \<and> act (Pat p) = {}"
proof -
  show "i < length subs \<Longrightarrow> pattern (subs ! i) = p \<Longrightarrow> sub_ok (act (Pat p)) (subs ! i)"
    using assms nth_mem [of i subs] by (auto simp: subs_ok_def)
  assume "position (\<lambda>s. pattern s = p) subs = None"
  then have "p \<notin> pattern ` set subs" by (auto simp: position_None)
  with assms show "p \<notin> pattern ` set subs \<and> act (Pat p) = {}" by (simp add: subs_ok_def)
qed

lemma index_subscribe_ok:
  fixes D :: "'a pattern_deps" and c :: "64 word" and pat :: bytes
  assumes laws: "pattern_laws D" and ok: "mail_ok st mbs" "index_ok D (actives mbs) x"
    and reg: "regular_pattern (pattern_name D pat)"
  defines "ow \<equiv> Pat (pattern_name D pat)"
  defines "mbs' \<equiv> snd (broker_subscribe mbs ow c)"
  shows "\<exists>st' x'. index_subscribe D st x pat c = Some (fst (broker_subscribe mbs ow c), st', x') \<and>
           mail_ok st' mbs' \<and> index_ok D (actives mbs') x'"
proof -
  have subs: "subs_ok (actives mbs) (subscriptions x)" using ok(2) by (simp add: index_ok_def)
  show ?thesis
  proof (cases "position (\<lambda>s. pattern s = pattern_name D pat) (subscriptions x)")
    case None
    then have new: "pattern_name D pat \<notin> pattern ` set (subscriptions x)" by (auto simp: position_None)
    then have "actives mbs ow = {}" using subs by (simp add: subs_ok_def ow_def)
    then have s0: "sub_ok (actives mbs ow) (subscription_new (pattern_name D pat))"
      by (simp add: sub_ok_def subscription_new_def holds_def)
    obtain a st' s where s: "subscription_subscribe st (subscription_new (pattern_name D pat)) c = (a, st', s)"
      by (cases "subscription_subscribe st (subscription_new (pattern_name D pat)) c")
    note r = subscription_subscribe_ok [OF ok(1) s0 s, folded mbs'_def]
    have p: "pattern s = pattern_name D pat" using r(5) by (simp add: subscription_new_def)
    have "subs_ok (actives mbs') (subscriptions x @ [s])"
      using subs_ok_append [OF subs, of s "actives mbs' ow"] new reg r(3,4,6) by (simp add: p ow_def)
    then obtain y where "rebuild D (recount (x\<lparr>subscriptions := subscriptions x @ [s]\<rparr>)) = Some y" "index_ok D (actives mbs') y"
      using rebuild_ok [OF laws, of "actives mbs'" "x\<lparr>subscriptions := subscriptions x @ [s]\<rparr>"] by auto
    then show ?thesis using None s r(1,2) by (simp add: index_subscribe_def Let_def)
  next
    case (Some i)
    note i = position_pattern [OF Some]
    have s0: "sub_ok (actives mbs ow) (subscriptions x ! i)" unfolding ow_def by (rule subs_okD(1) [OF subs i])
    obtain a st' s where s: "subscription_subscribe st (subscriptions x ! i) c = (a, st', s)"
      by (cases "subscription_subscribe st (subscriptions x ! i) c")
    note r = subscription_subscribe_ok [OF ok(1) s0 s, folded mbs'_def]
    have "subs_ok (actives mbs') ((subscriptions x)[i := s])"
      using subs_ok_update [OF subs i(1) r(5,3,4)] r(5,6) i(2) by (simp add: ow_def)
    then obtain y where "rebuild D (recount (x\<lparr>subscriptions := (subscriptions x)[i := s]\<rparr>)) = Some y" "index_ok D (actives mbs') y"
      using rebuild_ok [OF laws, of "actives mbs'" "x\<lparr>subscriptions := (subscriptions x)[i := s]\<rparr>"] by auto
    then show ?thesis using Some s r(1,2) by (simp add: index_subscribe_def Let_def)
  qed
qed

lemma index_unsubscribe_ok:
  fixes D :: "'a pattern_deps" and c :: "64 word" and pat :: bytes
  assumes laws: "pattern_laws D" and ok: "mail_ok st mbs" "index_ok D (actives mbs) x"
  defines "ow \<equiv> Pat (pattern_name D pat)"
  defines "mbs' \<equiv> snd (broker_unsubscribe mbs ow c)"
  shows "\<exists>x'. index_unsubscribe D st x pat c = Some (fst (broker_unsubscribe mbs ow c), x') \<and> index_ok D (actives mbs') x'"
proof -
  have subs: "subs_ok (actives mbs) (subscriptions x)" using ok(2) by (simp add: index_ok_def)
  note uniq = mail_okD(2) [OF ok(1)]
  have upd: "actives mbs' = (actives mbs)(ow := actives mbs' ow)"
    using actives_unsubscribe_other [OF uniq] by (auto simp: fun_eq_iff mbs'_def)
  have none: ?thesis if "position (mail_of ow c) mbs = None" "index_unsubscribe D st x pat c = Some (None, x)"
    using that ok(2) by (simp add: broker_unsubscribe_def mbs'_def)
  show ?thesis
  proof (cases "position (\<lambda>s. pattern s = pattern_name D pat) (subscriptions x)")
    case None
    then have "actives mbs ow = {}" using subs_okD(2) [OF subs] by (simp add: ow_def)
    then show ?thesis using none None broker_position(2) [OF uniq, of ow c] by (simp add: index_unsubscribe_def)
  next
    case (Some i)
    note i = position_pattern [OF Some]
    let ?s = "subscriptions x ! i"
    have s0: "sub_ok (actives mbs ow) ?s" unfolding ow_def by (rule subs_okD(1) [OF subs i])
    then have h: "holds (ps_slots ?s) (actives mbs ow)" by (simp add: sub_ok_def)
    note r = slots_unsubscribe_ok [OF ok(1) h, of c, folded mbs'_def]
    show ?thesis
    proof (cases "slots_unsubscribe st (ps_slots ?s) c")
      case None
      then show ?thesis using none r(1) Some by (simp add: index_unsubscribe_def subscription_unsubscribe_def)
    next
      case (Some p)
      then obtain a slots' where u: "slots_unsubscribe st (ps_slots ?s) c = Some (a, slots')" by (cases p) auto
      define s where "s = ?s\<lparr>ps_slots := slots', ps_subscriber_count := of_nat (length slots')\<rparr>"
      have s: "sub_ok (actives mbs' ow) s" "pattern s = pattern ?s" using r(3) [OF u] by (simp_all add: s_def sub_ok_def)
      define subs' where "subs' = (if subscription_is_empty s then swap_remove i ((subscriptions x)[i := s]) else (subscriptions x)[i := s])"
      have "subs_ok (actives mbs') subs'"
      proof (cases "subscription_is_empty s")
        case True
        then have "actives mbs' ow = {}" using s(1) by (simp add: sub_ok_def holds_def subscription_is_empty_def)
        moreover have "swap_remove i ((subscriptions x)[i := s]) = swap_remove i (subscriptions x)"
          using i(1) by (cases "subscriptions x" rule: rev_cases)
            (auto simp: swap_remove_def list_update_append nth_append split: nat.splits)
        ultimately show ?thesis using subs_ok_remove [OF subs i(1)] True upd i(2) by (simp add: subs'_def ow_def)
      next
        case False
        then show ?thesis using subs_ok_update [OF subs i(1) s(2,1)] upd i(2) s(2)
          by (simp add: subs'_def ow_def subscription_is_empty_def)
      qed
      then obtain y where "rebuild D (recount (x\<lparr>subscriptions := subs'\<rparr>)) = Some y" "index_ok D (actives mbs') y"
        using rebuild_ok [OF laws, of "actives mbs'" "x\<lparr>subscriptions := subs'\<rparr>"] by auto
      moreover have "index_unsubscribe D st x pat c = (case rebuild D (recount (x\<lparr>subscriptions := subs'\<rparr>)) of None \<Rightarrow> None | Some y \<Rightarrow> Some (Some a, y))"
        using \<open>position _ (subscriptions x) = Some i\<close> u
        by (simp add: index_unsubscribe_def subscription_unsubscribe_def subs'_def s_def Let_def split: option.splits)
      ultimately show ?thesis using r(2) [OF u] by (simp add: broker_unsubscribe_def)
    qed
  qed
qed

section \<open>Publishing to several owners\<close>

lemma takes_add:
  assumes "dom M1 \<inter> dom M2 = {}"
  shows "takes (M1 ++ M2) m \<longleftrightarrow> takes M1 m \<or> takes M2 m" "\<not> (takes M1 m \<and> takes M2 m)"
    "overflows (M1 ++ M2) m \<longleftrightarrow> overflows M1 m \<or> overflows M2 m"
    "takes M2 (enqueue M1 m) = takes M2 m" "overflows M2 (enqueue M1 m) = overflows M2 m"
    "enqueue M2 (enqueue M1 m) = enqueue (M1 ++ M2) m"
proof -
  have d: "M1 (mb_owner m) = None \<or> M2 (mb_owner m) = None" using assms by (auto simp: dom_def)
  show "takes (M1 ++ M2) m \<longleftrightarrow> takes M1 m \<or> takes M2 m" "\<not> (takes M1 m \<and> takes M2 m)"
    "overflows (M1 ++ M2) m \<longleftrightarrow> overflows M1 m \<or> overflows M2 m"
    using d by (auto simp: takes_def overflows_def map_add_def split: option.splits)
  show t: "takes M2 (enqueue M1 m) = takes M2 m" "overflows M2 (enqueue M1 m) = overflows M2 m"
    using d by (auto simp: takes_def overflows_def enqueue_def)
  show "enqueue M2 (enqueue M1 m) = enqueue (M1 ++ M2) m"
    using d by (auto simp: takes_def enqueue_def map_add_def split: option.splits)
qed

lemma filter_disjoint:
  "(\<And>x. \<not> (P x \<and> Q x)) \<Longrightarrow> length (filter (\<lambda>x. P x \<or> Q x) xs) = length (filter P xs) + length (filter Q xs)"
  by (induction xs) auto

lemma messages_cong:
  assumes "\<And>m. m \<in> set mbs \<Longrightarrow> mb_active m \<Longrightarrow> M (mb_owner m) = M' (mb_owner m)"
  shows "filter (takes M) mbs = filter (takes M') mbs" "map (enqueue M) mbs = map (enqueue M') mbs"
    "map (post M) mbs = map (post M') mbs"
    "{(mb_owner m, mb_conn m) | m. m \<in> set mbs \<and> overflows M m} = {(mb_owner m, mb_conn m) | m. m \<in> set mbs \<and> overflows M' m}"
proof -
  have *: "takes M m = takes M' m" "overflows M m = overflows M' m" "enqueue M m = enqueue M' m" "post M m = post M' m"
    if "m \<in> set mbs" for m
    using assms [OF that] by (cases "mb_active m"; simp add: takes_def overflows_def enqueue_def post_def)+
  show "filter (takes M) mbs = filter (takes M') mbs" "map (enqueue M) mbs = map (enqueue M') mbs"
    "map (post M) mbs = map (post M') mbs" using * by (auto intro: filter_cong)
  show "{(mb_owner m, mb_conn m) | m. m \<in> set mbs \<and> overflows M m} = {(mb_owner m, mb_conn m) | m. m \<in> set mbs \<and> overflows M' m}"
    using * by blast
qed

text \<open>The messages of one publication: to the subscribers of the given patterns that match.\<close>

definition pattern_message :: "PubSubMessage \<Rightarrow> bytes \<Rightarrow> PubSubMessage" where
  "pattern_message msg p = \<lparr> channel = channel msg, payload = payload msg, kind = PMessage p \<rparr>"

definition pattern_messages :: "bytes set \<Rightarrow> bytes \<Rightarrow> PubSubMessage \<Rightarrow> owner \<Rightarrow> PubSubMessage option" where
  "pattern_messages ps ch msg ow = (case ow of
       Pat p \<Rightarrow> if p \<in> ps \<and> glob_spec (tokens p) ch then Some (pattern_message msg p) else None
     | _ \<Rightarrow> None)"

lemma pattern_messages_insert:
  "p \<notin> ps \<Longrightarrow> pattern_messages (insert p ps) ch msg =
     (if glob_spec (tokens p) ch then [Pat p \<mapsto> pattern_message msg p] ++ pattern_messages ps ch msg else pattern_messages ps ch msg)"
  by (auto simp: pattern_messages_def fun_eq_iff map_add_def split: owner.splits option.splits)

lemma publish_candidates_ok:
  assumes laws: "pattern_laws D" and subs: "subs_ok (actives mbs0) subs"
  shows "mail_ok st mbs \<Longrightarrow> actives mbs = actives mbs0 \<Longrightarrow> distinct is \<Longrightarrow> set is \<subseteq> {..<length subs} \<Longrightarrow>
    (let M = pattern_messages ((\<lambda>i. pattern (subs ! i)) ` set is) ch msg in
     \<exists>lag st'. publish_candidates D subs ch msg is st = Some (length (filter (takes M) mbs), lag, st') \<and>
       mail_ok st' (map (enqueue M) mbs) \<and>
       (\<lambda>(p, c). (Pat p, c)) ` set lag = {(mb_owner m, mb_conn m) | m. m \<in> set mbs \<and> overflows M m})"
proof (induction "is" arbitrary: st mbs)
  case Nil
  have e: "pattern_messages {} ch msg = Map.empty" by (auto simp: pattern_messages_def fun_eq_iff split: owner.splits)
  have "takes Map.empty m = False" "overflows Map.empty m = False" "enqueue Map.empty m = m" for m
    by (simp_all add: takes_def overflows_def enqueue_def)
  then have "map (enqueue Map.empty) mbs = mbs" "filter (takes Map.empty) mbs = []"
    "{(mb_owner m, mb_conn m) | m. m \<in> set mbs \<and> overflows Map.empty m} = {}" by (auto intro: map_idI)
  then show ?case using Nil.prems(1) unfolding e list.set image_empty Let_def by simp
next
  case (Cons i "is")
  define ps where "ps = (\<lambda>i. pattern (subs ! i)) ` set is"
  define p where "p = pattern (subs ! i)"
  let ?s = "subs ! i"
  have i: "i < length subs" and rest: "set is \<subseteq> {..<length subs}" "distinct is" "i \<notin> set is" using Cons.prems by auto
  have p: "p \<notin> ps"
    using subs i rest nth_eq_iff_index_eq [of "map pattern subs" i] by (force simp: subs_ok_def p_def ps_def)
  have "regular_pattern p" using subs i by (auto simp: subs_ok_def p_def)
  then have m: "glob_match_simd (pd_memmem D) p ch = Some (glob_spec (tokens p) ch)" by (rule glob_match_simd_regular [OF laws])
  have img: "(\<lambda>i. pattern (subs ! i)) ` set (i # is) = insert p ps" by (simp add: p_def ps_def)
  show ?case
  proof (cases "glob_spec (tokens p) ch")
    case False
    then show ?thesis using Cons.IH [OF Cons.prems(1,2) rest(2,1)] m i
      unfolding img pattern_messages_insert [OF p] by (simp add: get_at_def p_def ps_def)
  next
    case True
    let ?x = "pattern_message msg p" let ?M1 = "[Pat p \<mapsto> ?x]" let ?M2 = "pattern_messages ps ch msg"
    have h: "holds (ps_slots ?s) (actives mbs (Pat p))"
      using subs_okD(1) [OF subs i p_def [symmetric]] Cons.prems(2) by (simp add: sub_ok_def)
    obtain n lag st1 where pub: "slots_publish st (ps_slots ?s) ?x = (n, lag, st1)" by (cases "slots_publish st (ps_slots ?s) ?x")
    note r = slots_publish_ok [OF Cons.prems(1) h pub]
    have "actives (map (enqueue ?M1) mbs) = actives mbs0" using Cons.prems(2) by simp
    from Cons.IH [OF r(1) this rest(2,1)] obtain lag' st' where IH:
      "publish_candidates D subs ch msg is st1 = Some (length (filter (takes ?M2) (map (enqueue ?M1) mbs)), lag', st')"
      "mail_ok st' (map (enqueue ?M2) (map (enqueue ?M1) mbs))"
      "(\<lambda>(p, c). (Pat p, c)) ` set lag' = {(mb_owner m, mb_conn m) | m. m \<in> set (map (enqueue ?M1) mbs) \<and> overflows ?M2 m}"
      unfolding ps_def [symmetric] Let_def by blast
    have dom: "dom ?M1 \<inter> dom ?M2 = {}" using p by (auto simp: pattern_messages_def)
    note add = takes_add [OF dom]
    have M: "pattern_messages (insert p ps) ch msg = ?M1 ++ ?M2" using True by (simp add: pattern_messages_insert [OF p])
    have count: "length (filter (takes ?M2) (map (enqueue ?M1) mbs)) + n = length (filter (takes (?M1 ++ ?M2)) mbs)"
    proof -
      have "takes (?M1 ++ ?M2) = (\<lambda>m. takes ?M1 m \<or> takes ?M2 m)" using add(1) by blast
      then show ?thesis using filter_disjoint [of "takes ?M1" "takes ?M2" mbs] r(2) add(2,4)
        by (simp add: filter_map comp_def)
    qed
    have enq: "map (enqueue ?M2) (map (enqueue ?M1) mbs) = map (enqueue (?M1 ++ ?M2)) mbs" using add(6) by simp
    have "Pair (Pat p) ` set lag = {(mb_owner m, mb_conn m) | m. m \<in> set mbs \<and> overflows ?M1 m}"
      unfolding r(3) by (auto simp: overflows_def split: if_splits)
    moreover have "(\<lambda>(p, c). (Pat p, c)) ` set lag' = {(mb_owner m, mb_conn m) | m. m \<in> set mbs \<and> overflows ?M2 m}"
      unfolding IH(3) using add(5) by auto (metis enqueue_simps(1,2) image_eqI)
    ultimately have lag: "(\<lambda>(p, c). (Pat p, c)) ` set (map (\<lambda>c. (p, c)) lag @ lag') =
        {(mb_owner m, mb_conn m) | m. m \<in> set mbs \<and> overflows (?M1 ++ ?M2) m}"
      unfolding add(3) by (auto simp: image_Un image_image)
    have "publish_candidates D subs ch msg (i # is) st =
        Some (length (filter (takes (?M1 ++ ?M2)) mbs), map (\<lambda>c. (p, c)) lag @ lag', st')"
      using m True i pub IH(1) count by (simp add: get_at_def p_def [symmetric] pattern_message_def add.commute)
    then show ?thesis using IH(2) lag unfolding img M enq Let_def by blast
  qed
qed

lemma unsubscribe_lagged_ok:
  assumes laws: "pattern_laws D"
  shows "mail_ok st mbs \<Longrightarrow> index_ok D (actives mbs) x \<Longrightarrow> \<forall>(p, c) \<in> set lag. utf8_valid p \<Longrightarrow>
    \<exists>x'. unsubscribe_lagged D st x lag = Some x' \<and>
      index_ok D (actives (map (deactivate ((\<lambda>(p, c). (Pat p, c)) ` set lag)) mbs)) x'"
proof (induction lag arbitrary: mbs x)
  case Nil
  have "map (deactivate {}) mbs = mbs" by (auto simp: deactivate_def intro!: map_idI)
  with Nil show ?case by simp
next
  case (Cons k lag)
  obtain p c where k: "k = (p, c)" by (cases k)
  let ?mbs = "map (deactivate {(Pat p, c)}) mbs"
  have "pattern_name D p = p" using Cons.prems(3) k by (simp add: pattern_name_def)
  then obtain y a where y: "index_unsubscribe D st x p c = Some (a, y)" "index_ok D (actives ?mbs) y"
    using index_unsubscribe_ok [OF laws Cons.prems(1,2), of p c] broker_unsubscribe_deactivate [OF mail_okD(2) [OF Cons.prems(1)]]
    by auto
  from Cons.IH [OF deactivate_ok [OF Cons.prems(1)] y(2)] Cons.prems(3)
  obtain x' where x': "unsubscribe_lagged D st y lag = Some x'"
    "index_ok D (actives (map (deactivate ((\<lambda>(p, c). (Pat p, c)) ` set lag)) ?mbs)) x'" by auto
  moreover have "map (deactivate ((\<lambda>(p, c). (Pat p, c)) ` set lag)) ?mbs = map (deactivate ((\<lambda>(p, c). (Pat p, c)) ` set (k # lag))) mbs"
    by (simp add: deactivate_compose k)
  ultimately have "index_ok D (actives (map (deactivate ((\<lambda>(p, c). (Pat p, c)) ` set (k # lag))) mbs)) x'" by metis
  then show ?case using y(1) x'(1) by (simp add: k)
qed

lemma publish_to_patterns_run:
  "publish_to_patterns D st x ch msg = do {
     cs \<leftarrow> candidate_pattern_indexes D x ch;
     (n, lag, st) \<leftarrow> publish_candidates D (subscriptions x) ch msg cs st;
     y \<leftarrow> unsubscribe_lagged D st x lag;
     Some (n, st, y) }"
  by (auto simp: publish_to_patterns_def candidate_pattern_indexes_def split: Option.bind_split)

lemma active_pattern:
  assumes "index_ok D (actives mbs) x" "m \<in> set mbs" "mb_active m" "mb_owner m = Pat p"
  obtains i where "i < length (subscriptions x)" "pattern (subscriptions x ! i) = p"
proof -
  have "actives mbs (Pat p) \<noteq> {}" using assms(2-4) by (auto simp: actives_def in_set_conv_nth)
  then have "p \<in> pattern ` set (subscriptions x)" using assms(1) by (auto simp: index_ok_def subs_ok_def)
  then show thesis using that by (auto simp: in_set_conv_nth)
qed

lemma publish_to_patterns_ok:
  fixes ch :: bytes and msg :: PubSubMessage
  assumes laws: "pattern_laws D" and ok: "mail_ok st mbs" "index_ok D (actives mbs) x"
  defines "M \<equiv> pattern_messages UNIV ch msg"
  shows "\<exists>st' x'. publish_to_patterns D st x ch msg = Some (length (filter (takes M) mbs), st', x') \<and>
    mail_ok st' (map (post M) mbs) \<and> index_ok D (actives (map (post M) mbs)) x'"
proof -
  have subs: "subs_ok (actives mbs) (subscriptions x)" and built: "index_built D x" using ok(2) by (simp_all add: index_ok_def)
  then have reg: "\<forall>s \<in> set (subscriptions x). regular_pattern (pattern s)" by (simp add: subs_ok_def)
  obtain cs where cs: "candidate_pattern_indexes D x ch = Some cs" "distinct cs" "set cs \<subseteq> {..<length (subscriptions x)}"
    "\<And>i. i < length (subscriptions x) \<Longrightarrow> glob_spec (tokens (pattern (subscriptions x ! i))) ch \<Longrightarrow> i \<in> set cs"
    using candidates_complete [OF laws built reg, of ch] by blast
  let ?ps = "(\<lambda>i. pattern (subscriptions x ! i)) ` set cs"
  let ?M = "pattern_messages ?ps ch msg"
  obtain lag st' where r: "publish_candidates D (subscriptions x) ch msg cs st = Some (length (filter (takes ?M) mbs), lag, st')"
    "mail_ok st' (map (enqueue ?M) mbs)"
    "(\<lambda>(p, c). (Pat p, c)) ` set lag = {(mb_owner m, mb_conn m) | m. m \<in> set mbs \<and> overflows ?M m}"
    using publish_candidates_ok [OF laws subs ok(1) refl cs(2,3), of ch msg] by (auto simp: Let_def)
  have "?M (mb_owner m) = M (mb_owner m)" if m: "m \<in> set mbs" "mb_active m" for m
  proof (cases "mb_owner m")
    case (Pat p)
    then obtain i where "i < length (subscriptions x)" "pattern (subscriptions x ! i) = p"
      using active_pattern [OF ok(2) m] by blast
    then show ?thesis using cs(4) [of i] by (auto simp: M_def pattern_messages_def Pat)
  qed (simp_all add: M_def pattern_messages_def)
  note cong = messages_cong [of mbs ?M M, OF this]
  have "utf8_valid p" if "(p, c) \<in> set lag" for p c
  proof -
    have "(Pat p, c) \<in> (\<lambda>(p, c). (Pat p, c)) ` set lag" using that by force
    then obtain m where "m \<in> set mbs" "mb_active m" "mb_owner m = Pat p" unfolding r(3) by (auto simp: overflows_def)
    then obtain i where "i < length (subscriptions x)" "pattern (subscriptions x ! i) = p" by (rule active_pattern [OF ok(2)])
    then show ?thesis using reg nth_mem by (auto simp: regular_pattern_def)
  qed
  then have v: "\<forall>(p, c) \<in> set lag. utf8_valid p" by blast
  have "index_ok D (actives (map (enqueue ?M) mbs)) x" using ok(2) by (simp only: actives_enqueue)
  from unsubscribe_lagged_ok [OF laws r(2) this v] obtain y where y: "unsubscribe_lagged D st' x lag = Some y"
    "index_ok D (actives (map (deactivate ((\<lambda>(p, c). (Pat p, c)) ` set lag)) (map (enqueue ?M) mbs))) y" by blast
  have post: "map (deactivate ((\<lambda>(p, c). (Pat p, c)) ` set lag)) (map (enqueue ?M) mbs) = map (post M) mbs"
    using post_deactivate [OF mail_okD(2) [OF ok(1)] r(3)] cong(3) by (rule trans)
  have "mail_ok st' (map (post M) mbs)" using deactivate_ok [OF r(2)] post by metis
  moreover have "publish_to_patterns D st x ch msg = Some (length (filter (takes M) mbs), st', y)"
    unfolding publish_to_patterns_run using cs(1) r(1) y(1) cong(1) by simp
  ultimately show ?thesis using y(2) post by metis
qed

section \<open>The registry refines the broker\<close>

lemma has_matching_pattern_ok:
  assumes laws: "pattern_laws D" and ok: "index_ok D act x"
  shows "has_matching_pattern D x ch = Some (\<exists>s \<in> set (subscriptions x). glob_spec (tokens (pattern s)) ch)"
proof -
  let ?subs = "subscriptions x"
  have built: "index_built D x" and reg: "\<forall>s \<in> set ?subs. regular_pattern (pattern s)"
    using ok by (simp_all add: index_ok_def subs_ok_def)
  obtain cs where cs: "candidate_pattern_indexes D x ch = Some cs" "set cs \<subseteq> {..<length ?subs}"
    "\<And>i. i < length ?subs \<Longrightarrow> glob_spec (tokens (pattern (?subs ! i))) ch \<Longrightarrow> i \<in> set cs"
    using candidates_complete [OF laws built reg, of ch] by blast
  have "any_candidate D ?subs ch is = Some (\<exists>i \<in> set is. glob_spec (tokens (pattern (?subs ! i))) ch)"
    if "set is \<subseteq> {..<length ?subs}" for "is"
    using that
  proof (induction "is")
    case (Cons i "is")
    then have "glob_match_simd (pd_memmem D) (pattern (?subs ! i)) ch = Some (glob_spec (tokens (pattern (?subs ! i))) ch)"
      using reg by (intro glob_match_simd_regular [OF laws]) auto
    then show ?case using Cons by (simp add: get_at_def)
  qed simp
  moreover have "(\<exists>i \<in> set cs. glob_spec (tokens (pattern (?subs ! i))) ch) \<longleftrightarrow>
      (\<exists>s \<in> set ?subs. glob_spec (tokens (pattern s)) ch)"
    using cs(2,3) by (force simp: set_conv_nth [of ?subs])
  ultimately show ?thesis using cs(1,2) by (simp add: has_matching_pattern_def)
qed

lemma post_add:
  assumes "dom M1 \<inter> dom M2 = {}"
  shows "post M2 (post M1 m) = post (M1 ++ M2) m" "takes M2 (post M1 m) = takes M2 m"
proof -
  have "M1 (mb_owner m) = None \<or> M2 (mb_owner m) = None" using assms by (auto simp: dom_def)
  then show "post M2 (post M1 m) = post (M1 ++ M2) m" "takes M2 (post M1 m) = takes M2 m"
    by (elim disjE; cases "M1 (mb_owner m)"; cases "M2 (mb_owner m)";
        simp add: post_def takes_def overflows_def map_add_def)+
qed

lemma post_none:
  assumes "\<And>m. m \<in> set mbs \<Longrightarrow> mb_active m \<Longrightarrow> M (mb_owner m) = None"
  shows "map (post M) mbs = mbs" "filter (takes M) mbs = []"
  using assms by (auto simp: post_def takes_def overflows_def intro!: map_idI filter_False)

lemma table_ok_cong: "(\<And>nm. act (mk nm) = act' (mk nm)) \<Longrightarrow> table_ok H mk act t = table_ok H mk act' t"
  by (simp add: table_ok_def cong: option.case_cong)

lemma index_ok_cong: "(\<And>p. act (Pat p) = act' (Pat p)) \<Longrightarrow> index_ok D act x = index_ok D act' x"
  by (simp add: index_ok_def subs_ok_def)

lemma owner_range [simp]:
  "Chan n \<notin> range Shard" "Chan n \<notin> range Pat" "Shard n \<notin> range Chan" "Shard n \<notin> range Pat"
  "Pat n \<notin> range Chan" "Pat n \<notin> range Shard"
  by auto

lemma inj_owner [simp]: "inj Chan" "inj Shard" by (auto simp: inj_def)

definition registry_laws :: "('t, 'a) registry_deps \<Rightarrow> bool" where
  "registry_laws D \<longleftrightarrow> table_laws (rd_channels D) \<and> pattern_laws (rd_patterns D)"

definition registry_ok :: "('t, 'a) registry_deps \<Rightarrow> ('t, 'a) ChannelRegistry \<Rightarrow> (owner \<Rightarrow> nat set) \<Rightarrow> bool" where
  "registry_ok D r act \<longleftrightarrow> table_ok (rd_channels D) Chan act (channels r) \<and>
     table_ok (rd_channels D) Shard act (shard_channels r) \<and> index_ok (rd_patterns D) act (patterns r) \<and>
     total_pattern_subscriptions r = total_subscriber_count (patterns r)"

definition registry_rel :: "('t, 'a) registry_deps \<Rightarrow> slot_store \<times> ('t, 'a) ChannelRegistry \<Rightarrow> mailbox list \<Rightarrow> bool" where
  "registry_rel D s mbs \<longleftrightarrow> mail_ok (fst s) mbs \<and> registry_ok D (snd s) (actives mbs)"

text \<open>The operations of the registry and of a connection that receives from a slot it holds.\<close>

datatype registry_op =
    Subscribe bytes "64 word" | Unsubscribe bytes "64 word"
  | PSubscribe bytes "64 word" | PUnsubscribe bytes "64 word"
  | SSubscribe bytes "64 word" | SUnsubscribe bytes "64 word"
  | PublishTo bytes bytes | PublishShard bytes bytes | Receive nat

datatype registry_out = Slot nat | Removed "nat option" | Delivered nat | Got "PubSubMessage option"

fun registry_step ::
    "('t, 'a) registry_deps \<Rightarrow> slot_store \<times> ('t, 'a) ChannelRegistry \<Rightarrow> registry_op
      \<Rightarrow> (registry_out \<times> slot_store \<times> ('t, 'a) ChannelRegistry) option" where
  "registry_step D (st, r) (Subscribe ch c) = (case registry_subscribe D st r ch c of (a, st', r') \<Rightarrow> Some (Slot a, st', r'))"
| "registry_step D (st, r) (Unsubscribe ch c) = (case registry_unsubscribe D st r ch c of (a, r') \<Rightarrow> Some (Removed a, st, r'))"
| "registry_step D (st, r) (PSubscribe pat c) = do { (a, st', r') \<leftarrow> psubscribe D st r pat c; Some (Slot a, st', r') }"
| "registry_step D (st, r) (PUnsubscribe pat c) = do { (a, r') \<leftarrow> punsubscribe D st r pat c; Some (Removed a, st, r') }"
| "registry_step D (st, r) (SSubscribe ch c) = (case ssubscribe D st r ch c of (a, st', r') \<Rightarrow> Some (Slot a, st', r'))"
| "registry_step D (st, r) (SUnsubscribe ch c) = (case sunsubscribe D st r ch c of (a, r') \<Rightarrow> Some (Removed a, st, r'))"
| "registry_step D (st, r) (PublishTo ch body) = do { (n, st', r') \<leftarrow> registry_publish D st r ch body; Some (Delivered n, st', r') }"
| "registry_step D (st, r) (PublishShard ch body) = do { (n, st', r') \<leftarrow> publish_shard D st r ch body; Some (Delivered n, st', r') }"
| "registry_step D (st, r) (Receive a) =
     (if a < length st then (case slot_recv (st ! a) of (m, s) \<Rightarrow> Some (Got m, st[a := s], r)) else Some (Got None, st, r))"

text \<open>The broker's side: \<open>nm\<close> is the name under which a channel or pattern is filed.\<close>

definition channel_messages :: "(bytes \<Rightarrow> bytes) \<Rightarrow> bytes \<Rightarrow> bytes \<Rightarrow> owner \<Rightarrow> PubSubMessage option" where
  "channel_messages nm ch body =
     [Chan (nm ch) \<mapsto> \<lparr> channel = nm ch, payload = body, kind = Message \<rparr>] ++
     pattern_messages UNIV ch \<lparr> channel = nm ch, payload = body, kind = Message \<rparr>"

fun broker_step :: "(bytes \<Rightarrow> bytes) \<Rightarrow> mailbox list \<Rightarrow> registry_op \<Rightarrow> registry_out \<times> mailbox list" where
  "broker_step nm mbs (Subscribe ch c) = apfst Slot (broker_subscribe mbs (Chan (nm ch)) c)"
| "broker_step nm mbs (Unsubscribe ch c) = apfst Removed (broker_unsubscribe mbs (Chan (nm ch)) c)"
| "broker_step nm mbs (PSubscribe pat c) = apfst Slot (broker_subscribe mbs (Pat (nm pat)) c)"
| "broker_step nm mbs (PUnsubscribe pat c) = apfst Removed (broker_unsubscribe mbs (Pat (nm pat)) c)"
| "broker_step nm mbs (SSubscribe ch c) = apfst Slot (broker_subscribe mbs (Shard (nm ch)) c)"
| "broker_step nm mbs (SUnsubscribe ch c) = apfst Removed (broker_unsubscribe mbs (Shard (nm ch)) c)"
| "broker_step nm mbs (PublishTo ch body) = apfst Delivered (broker_publish mbs (channel_messages nm ch body))"
| "broker_step nm mbs (PublishShard ch body) =
     apfst Delivered (broker_publish mbs [Shard (nm ch) \<mapsto> \<lparr> channel = nm ch, payload = body, kind = SMessage \<rparr>])"
| "broker_step nm mbs (Receive a) = apfst Got (broker_recv mbs a)"

fun op_ok :: "(bytes \<Rightarrow> bytes) \<Rightarrow> mailbox list \<Rightarrow> registry_op \<Rightarrow> bool" where
  "op_ok nm mbs (PSubscribe pat c) \<longleftrightarrow> regular_pattern (nm pat)"
| "op_ok nm mbs _ \<longleftrightarrow> True"

lemma lookup_channel_eq:
  "table_laws (rd_channels D) \<Longrightarrow> lookup_channel D t ch = ht_map (rd_channels D) t (channel_name (rd_patterns D) ch)"
  by (simp add: lookup_channel_def channel_name_def table_lawsD(3))

lemma pattern_name_eq: "pattern_name D = channel_name D"
  by (simp add: fun_eq_iff pattern_name_def channel_name_def)

lemma registry_lawsD: "registry_laws D \<Longrightarrow> table_laws (rd_channels D)" "registry_laws D \<Longrightarrow> pattern_laws (rd_patterns D)"
  by (simp_all add: registry_laws_def)

text \<open>The channel stage of \<open>publish\<close>, also all of \<open>publish_shard\<close>.\<close>

lemma channel_stage:
  fixes nm :: bytes and x :: PubSubMessage
  assumes H: "table_laws H" and mk: "inj mk" and ok: "mail_ok st mbs" "table_ok H mk (actives mbs) t"
  defines "M \<equiv> [mk nm \<mapsto> x]"
  shows "ht_map H t nm = None \<Longrightarrow> map (post M) mbs = mbs \<and> filter (takes M) mbs = []"
    and "ht_map H t nm = Some e \<Longrightarrow> entry_publish st e x = (report, st') \<Longrightarrow>
      mail_ok st' (map (post M) mbs) \<and> delivered report = length (filter (takes M) mbs) \<and>
      table_ok H mk (actives (map (post M) mbs)) (remove_lagged_from_map H st' t nm (lagged_connections report))"
proof -
  assume "ht_map H t nm = None"
  then have "actives mbs (mk nm) = {}" using table_okD(1) [OF ok(2)] by simp
  then have "M (mb_owner m) = None" if "m \<in> set mbs" "mb_active m" for m
    using that by (auto simp: M_def actives_def in_set_conv_nth)
  then show "map (post M) mbs = mbs \<and> filter (takes M) mbs = []" using post_none [of mbs M] by simp
next
  assume "ht_map H t nm = Some e" "entry_publish st e x = (report, st')"
  from table_publish_ok [OF H mk ok this]
  show "mail_ok st' (map (post M) mbs) \<and> delivered report = length (filter (takes M) mbs) \<and>
      table_ok H mk (actives (map (post M) mbs)) (remove_lagged_from_map H st' t nm (lagged_connections report))"
    by (simp add: M_def)
qed

lemma publish_shard_ok:
  fixes ch body :: bytes
  assumes laws: "registry_laws D" and ok: "mail_ok st mbs" "registry_ok D r (actives mbs)"
  defines "nm \<equiv> channel_name (rd_patterns D) ch"
  defines "M \<equiv> [Shard nm \<mapsto> \<lparr> channel = nm, payload = body, kind = SMessage \<rparr>]"
  shows "\<exists>st' r'. publish_shard D st r ch body = Some (length (filter (takes M) mbs), st', r') \<and>
    mail_ok st' (map (post M) mbs) \<and> registry_ok D r' (actives (map (post M) mbs))"
proof -
  let ?H = "rd_channels D" let ?x = "\<lparr> channel = nm, payload = body, kind = SMessage \<rparr>"
  note H = registry_lawsD(1) [OF laws]
  have t: "table_ok ?H Shard (actives mbs) (shard_channels r)" using ok(2) by (simp add: registry_ok_def)
  note stage = channel_stage [OF H inj_owner(2) ok(1) t, where nm = nm and x = ?x, folded M_def]
  have other: "actives (map (post M) mbs) (Chan n) = actives mbs (Chan n)" "actives (map (post M) mbs) (Pat p) = actives mbs (Pat p)" for n p
    by (simp_all add: actives_post_other M_def)
  show ?thesis
  proof (cases "ht_map ?H (shard_channels r) nm")
    case None
    then show ?thesis using stage(1) [OF None] ok
      by (simp add: publish_shard_def lookup_channel_name_def lookup_channel_eq [OF H] nm_def registry_ok_def)
  next
    case (Some e)
    have "name e = nm" using table_okD(2) [OF t Some] by (simp add: entry_ok_def)
    obtain report st' where p: "entry_publish st e ?x = (report, st')" by (cases "entry_publish st e ?x")
    note s = stage(2) [OF Some p]
    have "publish_shard D st r ch body = Some (delivered report, st', r\<lparr>total_messages_published := total_messages_published r + 1,
        shard_channels := remove_lagged_from_map ?H st' (shard_channels r) nm (lagged_connections report)\<rparr>)"
      using Some p \<open>name e = nm\<close>
      by (simp add: publish_shard_def lookup_channel_name_def lookup_channel_eq [OF H] table_lawsD(3) [OF H] flip: nm_def)
    moreover have "registry_ok D (r\<lparr>total_messages_published := total_messages_published r + 1,
        shard_channels := remove_lagged_from_map ?H st' (shard_channels r) nm (lagged_connections report)\<rparr>) (actives (map (post M) mbs))"
      using s ok(2) other by (simp add: registry_ok_def table_ok_cong [of "actives (map (post M) mbs)" Chan "actives mbs"]
        index_ok_cong [of "actives (map (post M) mbs)" "actives mbs"])
    ultimately show ?thesis using s by simp
  qed
qed

lemma registry_publish_ok:
  fixes ch body :: bytes
  assumes laws: "registry_laws D" and ok: "mail_ok st mbs" "registry_ok D r (actives mbs)"
  defines "M \<equiv> channel_messages (channel_name (rd_patterns D)) ch body"
  shows "\<exists>st' r'. registry_publish D st r ch body = Some (length (filter (takes M) mbs), st', r') \<and>
    mail_ok st' (map (post M) mbs) \<and> registry_ok D r' (actives (map (post M) mbs))"
proof -
  let ?H = "rd_channels D" let ?P = "rd_patterns D"
  define nm where "nm = channel_name ?P ch"
  define x where "x = \<lparr> channel = nm, payload = body, kind = Message \<rparr>"
  define M1 where "M1 = [Chan nm \<mapsto> x]"
  define M2 where "M2 = pattern_messages UNIV ch x"
  define r0 where "r0 = r\<lparr>total_messages_published := total_messages_published r + 1\<rparr>"
  define found where "found \<longleftrightarrow> (\<exists>s \<in> set (subscriptions (patterns r)). glob_spec (tokens (pattern s)) ch)"
  note H = registry_lawsD(1) [OF laws] and P = registry_lawsD(2) [OF laws]
  have M: "M = M1 ++ M2" by (simp add: M_def channel_messages_def M1_def M2_def x_def nm_def)
  have dom: "dom M1 \<inter> dom M2 = {}" by (auto simp: M1_def M2_def pattern_messages_def split: owner.splits)
  have r: "table_ok ?H Chan (actives mbs) (channels r)" "index_ok ?P (actives mbs) (patterns r)"
    "table_ok ?H Shard (actives mbs) (shard_channels r)" "total_pattern_subscriptions r = total_subscriber_count (patterns r)"
    using ok(2) by (simp_all add: registry_ok_def)
  have hm: "has_matching_pattern ?P (patterns r) ch = Some found"
    unfolding found_def by (rule has_matching_pattern_ok [OF P r(2)])
  note stage = channel_stage [OF H inj_owner(1) ok(1) r(1), where nm = nm and x = x, folded M1_def]
  define n1 where "n1 = length (filter (takes M1) mbs)"
  define mbs1 where "mbs1 = map (post M1) mbs"
  obtain st1 t1 where one: "mail_ok st1 mbs1" "table_ok ?H Chan (actives mbs1) t1"
    and run: "registry_publish D st r ch body =
      (if ht_map ?H (channels r) nm = None \<and> \<not> found then Some (0, st, r0)
       else if found then do {
         (m, st2, y) \<leftarrow> publish_to_patterns ?P st1 (patterns r) ch x;
         Some (n1 + m, st2, r0\<lparr>channels := t1, patterns := y, total_pattern_subscriptions := total_subscriber_count y\<rparr>) }
       else Some (n1, st1, r0\<lparr>channels := t1\<rparr>))"
    and none: "ht_map ?H (channels r) nm = None \<Longrightarrow> st1 = st \<and> t1 = channels r \<and> n1 = 0 \<and> mbs1 = mbs"
  proof (cases "ht_map ?H (channels r) nm")
    case None
    note s = stage(1) [OF None]
    show ?thesis
      using None s ok(1) r(1) hm
      by (intro that [of st "channels r"])
         (simp_all add: registry_publish_def lookup_channel_name_def lookup_channel_eq [OF H] mbs1_def n1_def x_def Let_def
           r0_def flip: nm_def)
  next
    case (Some e)
    have nme: "name e = nm" using table_okD(2) [OF r(1) Some] by (simp add: entry_ok_def)
    obtain report st1 where p: "entry_publish st e x = (report, st1)" by (cases "entry_publish st e x")
    note s = stage(2) [OF Some p]
    show ?thesis
      using Some p s hm nme
      by (intro that [of st1 "remove_lagged_from_map ?H st1 (channels r) nm (lagged_connections report)"])
         (simp_all add: registry_publish_def lookup_channel_name_def lookup_channel_eq [OF H] table_lawsD(3) [OF H]
           mbs1_def n1_def x_def Let_def r0_def flip: nm_def)
  qed
  have act1: "actives mbs1 (Shard n) = actives mbs (Shard n)" "actives mbs1 (Pat p) = actives mbs (Pat p)" for n p
    by (simp_all add: mbs1_def actives_post_other M1_def)
  then have idx: "index_ok ?P (actives mbs1) (patterns r)"
    using r(2) by (simp add: index_ok_cong [of "actives mbs1" "actives mbs"])
  have m2: "map (post M2) mbs1 = map (post M) mbs" by (simp add: mbs1_def M post_add(1) [OF dom])
  have count: "n1 + length (filter (takes M2) mbs1) = length (filter (takes M) mbs)"
  proof -
    have "takes M = (\<lambda>m. takes M1 m \<or> takes M2 m)" using takes_add(1) [OF dom] M by blast
    then show ?thesis using filter_disjoint [of "takes M1" "takes M2" mbs] takes_add(2) [OF dom]
      by (simp add: mbs1_def n1_def filter_map comp_def post_add(2) [OF dom])
  qed
  have quiet: "map (post M2) mbs1 = mbs1" "filter (takes M2) mbs1 = []" if "\<not> found"
  proof -
    have "M2 (mb_owner m) = None" if m: "m \<in> set mbs1" "mb_active m" for m
    proof (cases "mb_owner m")
      case (Pat p)
      then obtain i where "i < length (subscriptions (patterns r))" "pattern (subscriptions (patterns r) ! i) = p"
        by (rule active_pattern [OF idx m])
      then show ?thesis using \<open>\<not> found\<close> by (auto simp: M2_def pattern_messages_def Pat found_def)
    qed (simp_all add: M2_def pattern_messages_def)
    then show "map (post M2) mbs1 = mbs1" "filter (takes M2) mbs1 = []" using post_none [of mbs1 M2] by blast+
  qed
  have regs: "registry_ok D (r0\<lparr>channels := t1, patterns := y, total_pattern_subscriptions := total_subscriber_count y\<rparr>) (actives mbs2)"
    if "\<And>n. actives mbs2 (Chan n) = actives mbs1 (Chan n)" "\<And>n. actives mbs2 (Shard n) = actives mbs1 (Shard n)"
      "index_ok ?P (actives mbs2) y" for mbs2 y
    using that one(2) r(3) act1
    by (simp add: registry_ok_def r0_def table_ok_cong [of "actives mbs2" Chan "actives mbs1"]
      table_ok_cong [of "actives mbs2" Shard "actives mbs"])
  show ?thesis
  proof (cases found)
    case True
    obtain st2 y where p: "publish_to_patterns ?P st1 (patterns r) ch x = Some (length (filter (takes M2) mbs1), st2, y)"
      "mail_ok st2 (map (post M2) mbs1)" "index_ok ?P (actives (map (post M2) mbs1)) y"
      using publish_to_patterns_ok [OF P one(1) idx, of ch x] by (auto simp: M2_def)
    have "actives (map (post M2) mbs1) (Chan n) = actives mbs1 (Chan n)"
      "actives (map (post M2) mbs1) (Shard n) = actives mbs1 (Shard n)" for n
      by (simp_all add: actives_post_other M2_def pattern_messages_def)
    from regs [OF this p(3)] show ?thesis using True run p count unfolding m2 by simp
  next
    case False
    note q = quiet [OF False]
    have fin: "map (post M) mbs = mbs1" "n1 = length (filter (takes M) mbs)" using q m2 count by simp_all
    have "registry_ok D (r0\<lparr>channels := t1\<rparr>) (actives mbs1)"
      using regs [of mbs1 "patterns r"] idx r(4) by (simp add: registry_ok_def r0_def)
    moreover have "registry_publish D st r ch body = Some (n1, st1, r0\<lparr>channels := t1\<rparr>)"
      using run False none by (auto simp: r0_def)
    ultimately show ?thesis using fin one(1) by simp
  qed
qed

lemma table_subscribe_step:
  assumes laws: "registry_laws D" and mk: "inj mk" and ok: "mail_ok st mbs" "table_ok (rd_channels D) mk (actives mbs) t"
  shows "\<exists>st' t'. table_subscribe (rd_channels D) st t nm c = (fst (broker_subscribe mbs (mk nm) c), st', t') \<and>
    mail_ok st' (snd (broker_subscribe mbs (mk nm) c)) \<and>
    table_ok (rd_channels D) mk (actives (snd (broker_subscribe mbs (mk nm) c))) t' \<and>
    (\<forall>ow. ow \<noteq> mk nm \<longrightarrow> actives (snd (broker_subscribe mbs (mk nm) c)) ow = actives mbs ow)"
proof -
  obtain a st' t' where s: "table_subscribe (rd_channels D) st t nm c = (a, st', t')"
    by (cases "table_subscribe (rd_channels D) st t nm c")
  show ?thesis using table_subscribe_ok [OF registry_lawsD(1) [OF laws] mk ok s] s by auto
qed

lemma actives_subscribe_other:
  assumes "ow' \<noteq> ow"
  shows "actives (snd (broker_subscribe mbs ow c)) ow' = actives mbs ow'"
  using assms by (auto simp: broker_subscribe_def actives_append split: option.splits)

lemma registry_ok_frame:
  assumes "registry_ok D r act" and "\<And>ow. ow \<notin> owners \<Longrightarrow> act' ow = act ow"
  shows "owners \<inter> range Chan = {} \<Longrightarrow> table_ok (rd_channels D) Chan act' (channels r)"
    and "owners \<inter> range Shard = {} \<Longrightarrow> table_ok (rd_channels D) Shard act' (shard_channels r)"
    and "owners \<inter> range Pat = {} \<Longrightarrow> index_ok (rd_patterns D) act' (patterns r)"
proof -
  have eq: "owners \<inter> range f = {} \<Longrightarrow> act' (f n) = act (f n)" for f :: "bytes \<Rightarrow> owner" and n using assms(2) by blast
  show "owners \<inter> range Chan = {} \<Longrightarrow> table_ok (rd_channels D) Chan act' (channels r)"
    using assms(1) eq [of Chan] table_ok_cong [of act' Chan act "rd_channels D"] by (simp add: registry_ok_def)
  show "owners \<inter> range Shard = {} \<Longrightarrow> table_ok (rd_channels D) Shard act' (shard_channels r)"
    using assms(1) eq [of Shard] table_ok_cong [of act' Shard act "rd_channels D"] by (simp add: registry_ok_def)
  show "owners \<inter> range Pat = {} \<Longrightarrow> index_ok (rd_patterns D) act' (patterns r)"
    using assms(1) eq [of Pat] index_ok_cong [of act' act "rd_patterns D"] by (simp add: registry_ok_def)
qed

lemma registry_ok_unsubscribe:
  assumes "registry_ok D r (actives mbs)" "unique_mail mbs"
  shows "ow \<notin> range Chan \<Longrightarrow> table_ok (rd_channels D) Chan (actives (snd (broker_unsubscribe mbs ow c))) (channels r)"
    and "ow \<notin> range Shard \<Longrightarrow> table_ok (rd_channels D) Shard (actives (snd (broker_unsubscribe mbs ow c))) (shard_channels r)"
    and "ow \<notin> range Pat \<Longrightarrow> index_ok (rd_patterns D) (actives (snd (broker_unsubscribe mbs ow c))) (patterns r)"
  using registry_ok_frame [OF assms(1), of "{ow}" "actives (snd (broker_unsubscribe mbs ow c))"]
    actives_unsubscribe_other [OF assms(2)] by auto

lemma registry_ok_subscribe:
  assumes "registry_ok D r (actives mbs)"
  shows "ow \<notin> range Chan \<Longrightarrow> table_ok (rd_channels D) Chan (actives (snd (broker_subscribe mbs ow c))) (channels r)"
    and "ow \<notin> range Shard \<Longrightarrow> table_ok (rd_channels D) Shard (actives (snd (broker_subscribe mbs ow c))) (shard_channels r)"
    and "ow \<notin> range Pat \<Longrightarrow> index_ok (rd_patterns D) (actives (snd (broker_subscribe mbs ow c))) (patterns r)"
  using registry_ok_frame [OF assms(1), of "{ow}" "actives (snd (broker_subscribe mbs ow c))"]
    actives_subscribe_other by auto

lemma broker_unsubscribe_mail: "mail_ok st mbs \<Longrightarrow> mail_ok st (snd (broker_unsubscribe mbs ow c))"
  using broker_unsubscribe_deactivate [OF mail_okD(2)] deactivate_ok by metis

lemma receive_ok:
  assumes "mail_ok st mbs" "a < length st"
  shows "fst (slot_recv (st ! a)) = fst (broker_recv mbs a)"
    and "mail_ok (st[a := snd (slot_recv (st ! a))]) (snd (broker_recv mbs a))"
    and "actives (snd (broker_recv mbs a)) = actives mbs"
proof -
  have a: "a < length mbs" using assms mail_okD(1) by simp
  note r = slot_recv_rel [OF mail_okD(3) [OF assms(1) a]]
  have conn: "conn_id (snd (slot_recv s)) = conn_id s" for s :: "PubSubMessage BroadcastSlot"
    by (simp add: slot_recv_def)
  define m where "m = (mbs ! a)\<lparr>mb_queue := tl (mb_queue (mbs ! a))\<rparr>"
  have b: "broker_recv mbs a = (case mb_queue (mbs ! a) of [] \<Rightarrow> None | x # _ \<Rightarrow> Some x, mbs[a := m])"
  proof (cases "mb_queue (mbs ! a)")
    case Nil
    then have "m = mbs ! a" by (cases "mbs ! a") (simp add: m_def)
    then show ?thesis using a Nil by (simp add: broker_recv_def)
  qed (use a in \<open>simp add: broker_recv_def m_def\<close>)
  have same: "mb_active (mbs[a := m] ! b) = mb_active (mbs ! b)" "mb_owner (mbs[a := m] ! b) = mb_owner (mbs ! b)"
    "mb_conn (mbs[a := m] ! b) = mb_conn (mbs ! b)" for b
    using a by (cases "b = a"; simp add: m_def)+
  show "fst (slot_recv (st ! a)) = fst (broker_recv mbs a)" using r(1) b by simp
  show "actives (snd (broker_recv mbs a)) = actives mbs"
    unfolding b by (simp add: actives_def fun_eq_iff same)
  have "unique_mail (mbs[a := m])" using mail_okD(2) [OF assms(1)] by (simp add: unique_mail_def same)
  moreover have "list_all2 (\<lambda>s m. slot_rel s (mb_queue m) \<and> conn_id s = mb_conn m) (st[a := snd (slot_recv (st ! a))]) (mbs[a := m])"
    using assms(1) r(2) mail_okD(4) [OF assms(1) a] by (intro list_all2_update_cong) (auto simp: mail_ok_def m_def conn)
  ultimately show "mail_ok (st[a := snd (slot_recv (st ! a))]) (snd (broker_recv mbs a))"
    unfolding b by (simp add: mail_ok_def)
qed

lemma registry_step_refines:
  fixes D :: "('t, 'a) registry_deps"
  assumes laws: "registry_laws D" and rel: "registry_rel D s mbs" and op: "op_ok (channel_name (rd_patterns D)) mbs op"
  shows "\<exists>s'. registry_step D s op = Some (fst (broker_step (channel_name (rd_patterns D)) mbs op), s') \<and>
    registry_rel D s' (snd (broker_step (channel_name (rd_patterns D)) mbs op))"
proof -
  obtain st r where s: "s = (st, r)" by (cases s)
  let ?nm = "channel_name (rd_patterns D)"
  have ok: "mail_ok st mbs" "registry_ok D r (actives mbs)" using rel by (simp_all add: registry_rel_def s)
  have parts: "table_ok (rd_channels D) Chan (actives mbs) (channels r)" "table_ok (rd_channels D) Shard (actives mbs) (shard_channels r)"
    "index_ok (rd_patterns D) (actives mbs) (patterns r)" "total_pattern_subscriptions r = total_subscriber_count (patterns r)"
    using ok(2) by (simp_all add: registry_ok_def)
  note H = registry_lawsD(1) [OF laws] and P = registry_lawsD(2) [OF laws]
  note uniq = mail_okD(2) [OF ok(1)]
  show ?thesis
  proof (cases op)
    case (Subscribe ch c)
    then show ?thesis
      using table_subscribe_step [OF laws inj_owner(1) ok(1) parts(1), of "?nm ch" c]
        registry_ok_subscribe [OF ok(2), of "Chan (?nm ch)" c] parts(4)
      by (auto simp: s registry_subscribe_def registry_rel_def registry_ok_def)
  next
    case (SSubscribe ch c)
    then show ?thesis
      using table_subscribe_step [OF laws inj_owner(2) ok(1) parts(2), of "?nm ch" c]
        registry_ok_subscribe [OF ok(2), of "Shard (?nm ch)" c] parts(4)
      by (auto simp: s ssubscribe_def registry_rel_def registry_ok_def)
  next
    case (PSubscribe pat c)
    then show ?thesis
      using index_subscribe_ok [OF P ok(1) parts(3), of pat c] op
        registry_ok_subscribe [OF ok(2), of "Pat (?nm pat)" c]
      by (auto simp: s psubscribe_def registry_rel_def registry_ok_def pattern_name_eq)
  next
    case (Unsubscribe ch c)
    then show ?thesis
      using table_unsubscribe_ok [OF H inj_owner(1) ok(1) parts(1), of "?nm ch" c] broker_unsubscribe_mail [OF ok(1), of "Chan (?nm ch)" c]
        registry_ok_unsubscribe [OF ok(2) uniq, of "Chan (?nm ch)" c] parts(4)
      by (auto simp: s registry_unsubscribe_def registry_rel_def registry_ok_def split_beta)
  next
    case (SUnsubscribe ch c)
    then show ?thesis
      using table_unsubscribe_ok [OF H inj_owner(2) ok(1) parts(2), of "?nm ch" c] broker_unsubscribe_mail [OF ok(1), of "Shard (?nm ch)" c]
        registry_ok_unsubscribe [OF ok(2) uniq, of "Shard (?nm ch)" c] parts(4)
      by (auto simp: s sunsubscribe_def registry_rel_def registry_ok_def split_beta)
  next
    case (PUnsubscribe pat c)
    obtain x where x: "index_unsubscribe (rd_patterns D) st (patterns r) pat c = Some (fst (broker_unsubscribe mbs (Pat (?nm pat)) c), x)"
      "index_ok (rd_patterns D) (actives (snd (broker_unsubscribe mbs (Pat (?nm pat)) c))) x"
      using index_unsubscribe_ok [OF P ok(1) parts(3), of pat c] by (auto simp: pattern_name_eq)
    have "x = patterns r" if "fst (broker_unsubscribe mbs (Pat (?nm pat)) c) = None"
      using x(1) that by (auto simp: index_unsubscribe_def Let_def split: option.splits prod.splits Option.bind_splits)
    then show ?thesis
      using PUnsubscribe x broker_unsubscribe_mail [OF ok(1), of "Pat (?nm pat)" c] registry_ok_unsubscribe [OF ok(2) uniq, of "Pat (?nm pat)" c] parts(4)
      by (auto simp: s punsubscribe_def registry_rel_def registry_ok_def)
  next
    case (PublishTo ch body)
    then show ?thesis using registry_publish_ok [OF laws ok, of ch body] by (auto simp: s registry_rel_def broker_publish_def)
  next
    case (PublishShard ch body)
    then show ?thesis using publish_shard_ok [OF laws ok, of ch body] by (auto simp: s registry_rel_def broker_publish_def)
  next
    case (Receive a)
    show ?thesis
    proof (cases "a < length st")
      case True
      then show ?thesis using Receive receive_ok [OF ok(1) True] ok(2) by (auto simp: s registry_rel_def split_beta)
    next
      case False
      then show ?thesis using Receive ok mail_okD(1) [OF ok(1)] by (simp add: s registry_rel_def broker_recv_def)
    qed
  qed
qed

lemma registry_simulation:
  "registry_laws D \<Longrightarrow> simulation (registry_step D) (broker_step (channel_name (rd_patterns D))) (registry_rel D)
     (op_ok (channel_name (rd_patterns D)))"
  by unfold_locales (rule registry_step_refines)

lemma registry_rel_default:
  assumes "registry_laws D"
  shows "registry_rel D ([], registry_default D) []"
  using table_lawsD(1) [OF registry_lawsD(1) [OF assms]]
  by (auto simp: registry_rel_def registry_ok_def registry_default_def index_default_def table_ok_def index_ok_def
      subs_ok_def index_built_def actives_def mail_ok_def unique_mail_def)

text \<open>An instance of the parameters: the first occurrence by search, the automaton as the list of its words.\<close>

definition reference_patterns :: "bytes list pattern_deps" where
  "reference_patterns = \<lparr> pd_memmem = reference_memmem, pd_lossy = (\<lambda>_. [63]), pd_build = Some,
     pd_find_overlapping = (\<lambda>ls hay. filter (\<lambda>i. reference_memmem hay (ls ! i) \<noteq> None) [0..<length ls]) \<rparr>"

definition reference_registry :: "((bytes \<times> ChannelEntry) list, bytes list) registry_deps" where
  "reference_registry = \<lparr> rd_channels = reference_table, rd_patterns = reference_patterns \<rparr>"

lemma reference_registry_laws: "registry_laws reference_registry"
proof -
  have "reference_memmem hay needle \<noteq> None \<longleftrightarrow> (\<exists>p. occurs_at hay needle p)" for hay needle
    using memmem_found(2) [OF reference_memmem_laws, of hay needle] by auto
  then show ?thesis
    by (auto simp: registry_laws_def reference_registry_def reference_table_laws pattern_laws_def reference_patterns_def
        reference_memmem_laws)
qed

interpretation pubsub: simulation "registry_step reference_registry" "broker_step (channel_name reference_patterns)"
    "registry_rel reference_registry" "op_ok (channel_name reference_patterns)"
  using registry_simulation [OF reference_registry_laws] by (simp add: reference_registry_def)

section \<open>Properties of publish/subscribe\<close>

text \<open>C28. Any sequence of subscriptions, unsubscriptions, publications and receptions, on channels, shard
channels and patterns, returns and answers at every step as a list of mailboxes in which a publication goes to every active
mailbox of the channel and of every pattern that matches it, a full mailbox is closed, and each mailbox is a queue. The slot
vectors, the index of pattern literals, its rebuilding and the hash tables do not show. The patterns that are subscribed to are
regular: valid UTF-8, with no dash directly before a backslash, and with no backslash before the star when a final star is the
only wildcard. Other patterns can miss a channel that they match (\<open>escaped_prefix_missed\<close>, \<open>escaped_range_pruned\<close>).\<close>

theorem registry_refines_broker:
  assumes "registry_laws D" and "ok_ops (broker_step (channel_name (rd_patterns D))) (op_ok (channel_name (rd_patterns D))) [] ops"
  shows "\<exists>s. run_c (registry_step D) ([], registry_default D) ops =
               Some (fst (run_a (broker_step (channel_name (rd_patterns D))) [] ops), s) \<and>
             registry_rel D s (snd (run_a (broker_step (channel_name (rd_patterns D))) [] ops))"
  by (rule simulation.run [OF registry_simulation [OF assms(1)] registry_rel_default [OF assms(1)] assms(2)])

text \<open>Channel \<open>ab\<close> and pattern \<open>a*\<close>, two connections; the second leaves before the second publication.\<close>

theorem registry_refines_broker_witness:
  "\<exists>s. run_c (registry_step reference_registry) ([], registry_default reference_registry)
         [Subscribe [97, 98] 1, PSubscribe [97, 42] 2, PublishTo [97, 98] [5], PUnsubscribe [97, 42] 2,
          PublishTo [97, 98] [6], Receive 1, Receive 1, Receive 0] =
       Some ([Slot 0, Slot 1, Delivered 2, Removed (Some 1), Delivered 1,
              Got (Some \<lparr> channel = [97, 98], payload = [5], kind = PMessage [97, 42] \<rparr>), Got None,
              Got (Some \<lparr> channel = [97, 98], payload = [5], kind = Message \<rparr>)], s)"
proof -
  let ?ops = "[Subscribe [97, 98] 1, PSubscribe [97, 42] 2, PublishTo [97, 98] [5], PUnsubscribe [97, 42] 2,
          PublishTo [97, 98] [6], Receive 1, Receive 1, Receive 0]"
  let ?nm = "channel_name (rd_patterns reference_registry)"
  have valid: "utf8_valid [97, 98]" "utf8_valid [97, 42]" by code_simp+
  then have nm: "?nm [97, 98] = [97, 98]" "?nm [97, 42] = [97, 42]" by (simp_all add: channel_name_def)
  have reg: "regular_pattern [97, 42]" unfolding regular_pattern_def by code_simp
  have match: "glob_spec (tokens [97, 42]) [97, 98]" by code_simp
  have ok: "ok_ops (broker_step ?nm) (op_ok ?nm) [] ?ops" by (simp add: nm reg)
  have "fst (run_a (broker_step ?nm) [] ?ops) =
      [Slot 0, Slot 1, Delivered 2, Removed (Some 1), Delivered 1,
              Got (Some \<lparr> channel = [97, 98], payload = [5], kind = PMessage [97, 42] \<rparr>), Got None,
              Got (Some \<lparr> channel = [97, 98], payload = [5], kind = Message \<rparr>)]"
    by (simp add: nm broker_subscribe_def broker_unsubscribe_def broker_publish_def broker_recv_def mail_of_def
        channel_messages_def pattern_messages_def pattern_message_def match takes_def overflows_def post_def map_add_def
        del: tokens.simps glob_spec.simps glob_spec_any)
  then show ?thesis using registry_refines_broker [OF reference_registry_laws ok] by auto
qed

end
