(* ===== verification/Spec2Isabelle.thy ===== *)
theory Spec2Isabelle
  imports QuickList SetValue HashValue ZSet TimerWheel BitCommands ClusterRoute Sentinel TimeSeries PubSub
begin

text \<open>
  Verification of the in-memory database server senko.

  The program. A client sends commands in the RESP protocol (crate senko-proto). A connection hands each
  command to a shard, which runs a handler (senko-store/src/commands) on its store (senko-store/src/store.rs).
  The store maps keys to values (senko-core): strings, numbers, lists, sets, hashes and sorted sets. Timer
  wheels expire keys and fields (senko-store/src/expiry.rs). Beside the store stand the time series
  (senko-ts), the publish/subscribe engine (senko-pubsub), the hash slots and the routing of a cluster
  (senko-cluster), and the sentinel that replaces a failed master (senko-sentinel).

  How the code is modelled. Each function of the sources is a function of the same name or nearly so, each
  struct a record and each enum a datatype. A byte is an 8-bit word. Integers are words where they wrap
  around and numbers with the saturation or the bound written out elsewhere; doubles are their 64-bit
  patterns with the arithmetic of theory Float64. State is passed explicitly. A panic, a use of freed memory
  and a loop that does not end are the value None (in theory RespProtocol the constructors of its own result
  type), so a theorem that gives a result also shows that none of them happens. Vectors and byte buffers are
  lists, their capacity is not modelled.

  The theories, with the files under src they model.

  \<^item> Prelude: bytes, the parts of the Rust library in use, and the locale \<open>simulation\<close>: when every
    step of a model agrees with a step of its specification, so does every sequence of steps. The
    components interpret it on their own operations, and their refinement theorems rest on its facts.
  \<^item> Float64: doubles. Table: what the code relies on of the hash tables of the crate hashbrown.
  \<^item> RespProtocol: parser.rs, frame.rs and serializer.rs of senko-proto. Round trip, stability under later
    input, termination, and where the parser can panic.
  \<^item> Listpack and QuickList: senko-core/src/list.rs. The packed encoding, and the linked list of packed nodes
    over an explicit heap, which refines a list without leaking or touching freed nodes; the removal by value
    is excepted, for it can read a freed node, as a lemma shows.
  \<^item> SetValue: senko-core/src/set.rs. Three encodings and the changes between them refine a set, for members in
    canonical spelling.
  \<^item> Value: senko-core/src/value.rs. HashValue: senko-core/src/hash.rs. Fields with expiry times refine a map,
    and the packed copy answers as the table does.
  \<^item> BPTree and ZSet: bptree.rs and object.rs of senko-core/src/zset. The tree and the sorted set refine the
    list of entries ordered by score and member.
  \<^item> TimerWheel: expiry.rs of senko-store. Every entry fires exactly once, at its tick, which is given in closed
    form with the two cases in which it is a turn late.
  \<^item> Store: store.rs and parts of eviction.rs. Without a memory limit and without expiring hash fields, the two
    tables during a resize, expiry, renaming and copying refine a map from keys to values with deadlines, and
    the memory counter is exact. Eviction under a memory limit is modelled, and one step of it is shown to
    remove one entry; the refinement theorems of this theory and of the commands are about stores without a limit.
  \<^item> Command, Arithmetic and StringCommands: mod.rs, basic.rs, arithmetic.rs, conditional.rs, multi.rs and
    strops.rs of senko-store/src/commands, and senko-store/src/arithmetic.rs. Handlers are written over an
    interface (the record \<open>store_api\<close>) that the store and the map of the specification both provide;
    the locale \<open>store_client\<close> carries a handler from one to the other.
  \<^item> StringSpec: sequences of string commands refine a specification on the visible keys, and a failed
    command changes nothing, with the exceptions stated there.
  \<^item> Bitmap, Lcs and BitCommands: bitmap.rs and lcs.rs of senko-store/src/commands. Counting, searching and
    combining a word at a time equal their definition on single bits; the scalar and the vector routines
    compute the longest common subsequence; the handlers join those of the string commands.
  \<^item> Gorilla and TimeSeries: gorilla.rs, series.rs and agg.rs of senko-ts. The compression gives back the
    samples within the widths it writes, and a series without retention refines a sorted list as long as its
    compression is exact.
  \<^item> Glob: senko-pubsub/src/pattern.rs and senko-store/src/pattern.rs. Ring: senko-pubsub/src/slot.rs, as
    calls and as interleaved accesses of two threads. PubSub: registry.rs, message.rs and the pattern index.
  \<^item> ClusterSlots and ClusterRoute: slot.rs, node.rs, topo.rs and route.rs of senko-cluster. Slots of keys,
    the sequence lock under interleaving, the topology and the routing.
  \<^item> Sentinel: state.rs, detector.rs, election.rs, failover.rs and parts of commands.rs of senko-sentinel.

  Parameters. Code of other crates is an argument: hash tables and hashers, substring search, the reading
  and printing of doubles, the Aho-Corasick automaton, random choices, the byte order and the vector
  instructions of the machine. What is relied on is stated as laws (\<open>table_laws\<close>, \<open>resp_laws\<close>,
  \<open>set_laws\<close>, \<open>hash_laws\<close>, \<open>store_laws\<close>, \<open>memmem_laws\<close>,
  \<open>pattern_laws\<close>, \<open>registry_laws\<close>), and a reference instance shows that the laws can hold.
  The clock is an argument too; within one command it has one value, while the code may read it repeatedly.
  Threads are interleaved under sequential consistency; weaker orders of memory are not considered.

  Fuel and bounds. The parser has one unit of fuel per byte of input and one more, since every nested
  aggregate uses up bytes; that it never runs out is proved. The search in a listpack has one unit per byte
  and one more. Other loops have a termination proof, or are partial functions whose result is proved to
  exist. The side conditions of the refinement theorems (sizes such as entries of at most 249 bytes in a
  listpack, canonical spellings, patterns, bounds that are not NaN, no memory limit) mark where the code departs
  from the specification or was not followed; the text of each theorem names them, and lemmas show the
  departures.

  Not modelled. The handlers of keys, hashes, lists, sets, sorted sets and streams, the HyperLogLog, the
  probabilistic structures, the transactions and the access rules are ordinary code that a later extension
  can model the same way; they are left out because of their size. The logarithms in the estimates of the
  HyperLogLog and the probabilistic structures have no model here. JSON documents, full-text search and Lua
  scripts are work of external crates. Connections, gossip, slot migration, replication, the sentinel
  process and the start of the server are asynchronous input and output of an external runtime.
\<close>

end
